(* ===== verification/Nts_Prelude.thy ===== *)
theory Nts_Prelude
  imports Main "HOL-Library.Word"
begin

text \<open>
  Shared vocabulary of the development: the types that stand for the values of the
  TypeScript runtime library (bytes of a \<^verbatim>\<open>Uint8Array\<close>, UTF-16 code units of a string,
  thrown errors), the operators of the language the library uses (array reads that give
  \<^verbatim>\<open>undefined\<close>, the 32-bit bit operators, \<^verbatim>\<open>for\<close> loops whose body may throw), and the
  generic lemmas on them that every component theory shares.
\<close>

unbundle bit_operations_syntax

named_theorems js_eval \<open>evaluation rules for the operators of the language\<close>

section \<open>Values\<close>

text \<open>
  The element type of a \<^verbatim>\<open>Uint8Array\<close> is an unsigned byte; a string is a sequence of
  UTF-16 code units. A number is an \<open>int\<close>, or a \<open>nat\<close> where it is an index or a length:
  every number of the modelled code is an integer of magnitude at most \<open>2 ^ 53 - 1\<close>, for
  which IEEE-754 arithmetic is exact, and the code's own range checks are kept.
\<close>

type_synonym byte = "8 word"
type_synonym bytes = "byte list"
type_synonym code_unit = "16 word"
type_synonym jsstring = "code_unit list"

definition MAX_SAFE_INTEGER :: int where
  "MAX_SAFE_INTEGER = 9007199254740991"

definition js_isSafeInteger :: "int \<Rightarrow> bool" where
  "js_isSafeInteger n \<longleftrightarrow> - MAX_SAFE_INTEGER \<le> n \<and> n \<le> MAX_SAFE_INTEGER"

definition js_string :: "string \<Rightarrow> jsstring" where
  "js_string s = map (\<lambda>c. word_of_nat (of_char c)) s"

text \<open>A write of a number into a \<^verbatim>\<open>Uint8Array\<close> keeps its low eight bits.\<close>

definition to_uint8 :: "int \<Rightarrow> byte" where
  "to_uint8 n = word_of_int n"

text \<open>
  Every error the modelled code throws, by class. \<open>Http2WireError code stream\<close> carries the
  error code and, for a stream error, the stream identifier. Messages are not modelled.
\<close>

datatype js_error =
    RangeError
  | TypeError
  | ProtocolError
  | LimitError
  | GenericError
  | DataError
  | Http2WireError int "int option"

type_synonym 'a result = "js_error + 'a"

section \<open>Operators\<close>

definition js_ToInt32 :: "int \<Rightarrow> int" where
  "js_ToInt32 n = signed_take_bit 31 n"

definition js_ToUint32 :: "int \<Rightarrow> int" where
  "js_ToUint32 n = take_bit 32 n"

definition js_and :: "int \<Rightarrow> int \<Rightarrow> int" where
  "js_and a b = js_ToInt32 a AND js_ToInt32 b"

definition js_or :: "int \<Rightarrow> int \<Rightarrow> int" where
  "js_or a b = js_ToInt32 a OR js_ToInt32 b"

definition js_xor :: "int \<Rightarrow> int \<Rightarrow> int" where
  "js_xor a b = js_ToInt32 a XOR js_ToInt32 b"

definition js_shl :: "int \<Rightarrow> nat \<Rightarrow> int" where
  "js_shl a n = js_ToInt32 (push_bit (n mod 32) (js_ToInt32 a))"

definition js_shr :: "int \<Rightarrow> nat \<Rightarrow> int" where
  "js_shr a n = drop_bit (n mod 32) (js_ToInt32 a)"

definition js_ushr :: "int \<Rightarrow> nat \<Rightarrow> int" where
  "js_ushr a n = drop_bit (n mod 32) (js_ToUint32 a)"

text \<open>An array read: \<open>None\<close> is \<^verbatim>\<open>undefined\<close>; \<open>js_or_else\<close> is the operator \<^verbatim>\<open>??\<close>.\<close>

definition js_at :: "'a list \<Rightarrow> int \<Rightarrow> 'a option" where
  "js_at xs i = (if 0 \<le> i \<and> i < int (length xs) then Some (xs ! nat i) else None)"

definition js_or_else :: "'a option \<Rightarrow> 'a \<Rightarrow> 'a" where
  "js_or_else x d = (case x of None \<Rightarrow> d | Some v \<Rightarrow> v)"

text \<open>\<^verbatim>\<open>subarray(from, to)\<close> and \<^verbatim>\<open>slice(from, to)\<close> with indices in range.\<close>

definition js_slice :: "'a list \<Rightarrow> nat \<Rightarrow> nat \<Rightarrow> 'a list" where
  "js_slice xs a b = take (b - a) (drop a xs)"

text \<open>Sequencing of computations that may throw, and a loop over a sequence.\<close>

definition res_bind :: "'a result \<Rightarrow> ('a \<Rightarrow> 'b result) \<Rightarrow> 'b result" where
  "res_bind m f = (case m of Inl e \<Rightarrow> Inl e | Inr x \<Rightarrow> f x)"

definition res_guard :: "bool \<Rightarrow> js_error \<Rightarrow> unit result" where
  "res_guard b e = (if b then Inr () else Inl e)"

fun res_fold :: "('a \<Rightarrow> 's \<Rightarrow> 's result) \<Rightarrow> 'a list \<Rightarrow> 's \<Rightarrow> 's result" where
  "res_fold f [] s = Inr s"
| "res_fold f (x # xs) s = res_bind (f x s) (res_fold f xs)"

fun is_ok :: "'a result \<Rightarrow> bool" where
  "is_ok (Inl e) = False"
| "is_ok (Inr x) = True"

section \<open>Lemmas: results and loops\<close>

lemma res_bind_simps [simp]:
  "res_bind (Inr x) f = f x"
  "res_bind (Inl e) f = Inl e"
  by (simp_all add: res_bind_def)

lemma res_bind_Inr_iff: "res_bind m f = Inr y \<longleftrightarrow> (\<exists>x. m = Inr x \<and> f x = Inr y)"
  by (cases m) auto

lemma res_bind_Inl_iff:
  "res_bind m f = Inl e \<longleftrightarrow> m = Inl e \<or> (\<exists>x. m = Inr x \<and> f x = Inl e)"
  by (cases m) auto

lemma res_bind_assoc: "res_bind (res_bind m f) g = res_bind m (\<lambda>x. res_bind (f x) g)"
  by (cases m) auto

lemma res_bind_cong [fundef_cong]:
  "m = m' \<Longrightarrow> (\<And>x. m' = Inr x \<Longrightarrow> f x = g x) \<Longrightarrow> res_bind m f = res_bind m' g"
  by (cases m') auto

lemma res_guard_simps [simp]:
  "res_guard True e = Inr ()"
  "res_guard False e = Inl e"
  by (simp_all add: res_guard_def)

lemma res_guard_Inr_iff [simp]: "res_guard b e = Inr u \<longleftrightarrow> b"
  by (cases b) auto

lemma res_guard_Inl_iff [simp]: "res_guard b e = Inl e' \<longleftrightarrow> \<not> b \<and> e' = e"
  by (cases b) auto

lemma res_fold_append:
  "res_fold f (xs @ ys) s = res_bind (res_fold f xs s) (res_fold f ys)"
  by (induction xs arbitrary: s) (auto simp: res_bind_assoc intro!: res_bind_cong)

lemma res_fold_concat:
  "res_fold (\<lambda>xs. res_fold f xs) xss s = res_fold f (concat xss) s"
  by (induction xss arbitrary: s) (auto simp: res_fold_append intro!: res_bind_cong)

lemma res_fold_map: "res_fold f (map g xs) s = res_fold (\<lambda>x. f (g x)) xs s"
  by (induction xs arbitrary: s) (auto intro!: res_bind_cong)

lemma res_fold_cong:
  "(\<And>x s. x \<in> set xs \<Longrightarrow> f x s = g x s) \<Longrightarrow> res_fold f xs s = res_fold g xs s"
  by (induction xs arbitrary: s) (auto intro!: res_bind_cong)

lemma res_fold_inv:
  assumes "res_fold f xs s = Inr s'" and "I s"
    and "\<And>x s s'. x \<in> set xs \<Longrightarrow> I s \<Longrightarrow> f x s = Inr s' \<Longrightarrow> I s'"
  shows "I s'"
  using assms
proof (induction xs arbitrary: s)
  case Nil
  then show ?case by simp
next
  case (Cons x xs)
  from Cons.prems(1) obtain t where t: "f x s = Inr t" "res_fold f xs t = Inr s'"
    by (auto simp: res_bind_Inr_iff)
  have "I t" using Cons.prems(2,3) t(1) by auto
  with t(2) show ?case using Cons.prems(3) by (intro Cons.IH) auto
qed

lemma res_fold_error: "res_fold f xs s = Inl e \<Longrightarrow> \<exists>x\<in>set xs. \<exists>s'. f x s' = Inl e"
  by (induction xs arbitrary: s) (auto simp: res_bind_Inl_iff)

lemma res_fold_pure: "res_fold (\<lambda>x s. Inr (f x s)) xs s = Inr (fold f xs s)"
  by (induction xs arbitrary: s) auto

section \<open>Lemmas: array reads\<close>

lemma js_at_nat [simp]: "js_at xs (int i) = (if i < length xs then Some (xs ! i) else None)"
  by (simp add: js_at_def)

lemma js_at_neg: "i < 0 \<Longrightarrow> js_at xs i = None"
  by (simp add: js_at_def)

lemma js_or_else_simps [simp]:
  "js_or_else None d = d"
  "js_or_else (Some x) d = x"
  by (simp_all add: js_or_else_def)

lemma js_slice_all [simp]: "js_slice xs 0 (length xs) = xs"
  by (simp add: js_slice_def)

lemma js_slice_from: "js_slice xs n (length xs) = drop n xs"
  by (simp add: js_slice_def)

lemma drop_js_slice: "a \<le> e \<Longrightarrow> drop a xs = js_slice xs a e @ drop e xs"
  using append_take_drop_id [of "e - a" "drop a xs"] by (simp add: js_slice_def)

lemma length_js_slice: "length (js_slice xs a b) = min (b - a) (length xs - a)"
  by (simp add: js_slice_def)

lemma list_update_last: "length xs = Suc n \<Longrightarrow> xs[n := v] = take n xs @ [v]"
  by (auto simp: list_eq_iff_nth_eq nth_append nth_list_update less_Suc_eq)

lemma length_js_string [simp]: "length (js_string s) = length s"
  by (simp add: js_string_def)

lemma unat_char_unit: "unat (word_of_nat (of_char c) :: code_unit) = of_char c"
proof -
  have c: "of_char c < (256 :: nat)" by simp
  have "take_bit 16 (of_char c :: nat) = of_char c"
    by (rule take_bit_nat_eq_self, rule less_trans [OF c]) simp
  then show ?thesis by (simp add: unsigned_of_nat)
qed

lemma js_string_inject [simp]: "js_string s = js_string t \<longleftrightarrow> s = t"
proof -
  have "inj (\<lambda>c. word_of_nat (of_char c) :: code_unit)"
    by (rule injI) (metis unat_char_unit of_char_eq_iff)
  then show ?thesis by (simp add: js_string_def inj_map_eq_map)
qed

lemma js_string_code [code]: "js_string s = map (\<lambda>c. word_of_int (of_char c)) s"
proof -
  have "int (of_char c) = of_char c" for c :: char by (simp add: of_nat_of_char)
  then have "word_of_nat (of_char c) = (word_of_int (of_char c) :: code_unit)" for c :: char
    by (metis of_int_of_nat_eq)
  then show ?thesis by (simp add: js_string_def)
qed

section \<open>Lemmas: the 32-bit operators\<close>

lemma js_ToInt32_small [simp]: "0 \<le> n \<Longrightarrow> n < 2147483648 \<Longrightarrow> js_ToInt32 n = n"
  by (simp add: js_ToInt32_def signed_take_bit_eq_if_positive bit_iff_odd take_bit_eq_mod
      div_pos_pos_trivial)

lemma js_ToUint32_small [simp]: "0 \<le> n \<Longrightarrow> n < 4294967296 \<Longrightarrow> js_ToUint32 n = n"
  by (simp add: js_ToUint32_def take_bit_eq_mod)

lemma uint_byte_bounds [simp]: "0 \<le> uint (b :: byte)" "uint b < 256" "uint b \<le> 255"
proof -
  show "0 \<le> uint b" by simp
  have "uint b < 2 ^ LENGTH(8)" by (rule uint_bounded)
  then show "uint b < 256" "uint b \<le> 255" by simp_all
qed

lemma uint_byte_less: "256 \<le> k \<Longrightarrow> uint (b :: byte) < k"
  using uint_byte_bounds(2) [of b] by linarith

lemma unat_byte_less: "unat (b :: byte) < 256"
  using unsigned_less [where 'b = 8 and 'a = nat, of b] by simp

lemma to_uint8_uint [simp]: "to_uint8 (uint b) = b"
  by (simp add: to_uint8_def)

lemma uint_to_uint8: "uint (to_uint8 n) = n mod 256"
  by (simp add: to_uint8_def uint_word_of_int)

lemma uint_to_uint8_small [simp]: "0 \<le> n \<Longrightarrow> n < 256 \<Longrightarrow> uint (to_uint8 n) = n"
  by (simp add: uint_to_uint8)

lemma js_and_small:
  "0 \<le> a \<Longrightarrow> a < 2147483648 \<Longrightarrow> 0 \<le> b \<Longrightarrow> b < 2147483648 \<Longrightarrow> js_and a b = a AND b"
  by (simp add: js_and_def)

lemma js_or_small:
  "0 \<le> a \<Longrightarrow> a < 2147483648 \<Longrightarrow> 0 \<le> b \<Longrightarrow> b < 2147483648 \<Longrightarrow> js_or a b = a OR b"
  by (simp add: js_or_def)

lemma js_xor_small:
  "0 \<le> a \<Longrightarrow> a < 2147483648 \<Longrightarrow> 0 \<le> b \<Longrightarrow> b < 2147483648 \<Longrightarrow> js_xor a b = a XOR b"
  by (simp add: js_xor_def)

lemma js_and_mask:
  assumes "0 \<le> a" "a < 2147483648" "k < 31"
  shows "js_and a (2 ^ k - 1) = a mod 2 ^ k"
proof -
  have "(2 :: int) ^ k \<le> 2 ^ 30" using assms(3) by (intro power_increasing) auto
  then have "js_and a (2 ^ k - 1) = a AND (2 ^ k - 1)"
    using assms by (intro js_and_small) auto
  then show ?thesis by (simp add: take_bit_eq_mod [symmetric] take_bit_eq_mask mask_eq_exp_minus_1)
qed

lemma int_or_eq_add:
  assumes "2 ^ n dvd a" and "0 \<le> b" and "b < 2 ^ n"
  shows "a OR b = a + (b :: int)"
proof -
  have "take_bit n b = b" using assms(2,3) by (simp add: take_bit_int_eq_self_iff)
  moreover from assms(1) obtain c where "a = push_bit n c"
    by (auto simp: push_bit_eq_mult ac_simps elim: dvdE)
  ultimately have "a AND b = push_bit n c AND take_bit n b" by simp
  also have "\<dots> = 0" by (rule bit_eqI) (auto simp: bit_simps)
  finally have "a AND b = 0" .
  then show ?thesis by (simp add: disjunctive_add_eq_or)
qed

lemma js_or_add:
  assumes "0 \<le> a" "a < 2147483648" "2 ^ n dvd a" "0 \<le> b" "b < 2 ^ n" "n < 31"
  shows "js_or a b = a + b"
proof -
  have "(2 :: int) ^ n \<le> 2 ^ 30" using assms(6) by (intro power_increasing) auto
  with assms show ?thesis by (simp add: int_or_eq_add js_or_small)
qed

lemma js_shl_small:
  assumes "0 \<le> a" "a * 2 ^ n < 2147483648" "n < 32"
  shows "js_shl a n = a * 2 ^ n"
proof -
  have "a * 1 \<le> a * 2 ^ n" using assms(1) by (intro mult_left_mono) auto
  with assms show ?thesis by (simp add: js_shl_def push_bit_eq_mult)
qed

lemma js_or_shl:
  assumes "0 \<le> a" "a * 2 ^ n < 2147483648" "0 \<le> b" "b < 2 ^ n" "n < 31"
  shows "js_or (js_shl a n) b = a * 2 ^ n + b"
  using assms js_or_add [of "a * 2 ^ n" n b] by (simp add: js_shl_small)

lemma js_shr_small: "0 \<le> a \<Longrightarrow> a < 2147483648 \<Longrightarrow> n < 32 \<Longrightarrow> js_shr a n = a div 2 ^ n"
  by (simp add: js_shr_def drop_bit_eq_div)

lemma js_ushr_small: "0 \<le> a \<Longrightarrow> a < 4294967296 \<Longrightarrow> n < 32 \<Longrightarrow> js_ushr a n = a div 2 ^ n"
  by (simp add: js_ushr_def drop_bit_eq_div)

lemma js_and_exp_eq_0:
  assumes "0 \<le> x" "x < 2147483648" "k < 31"
  shows "js_and x (2 ^ k) = 0 \<longleftrightarrow> even (x div 2 ^ k)"
proof -
  have "(2 :: int) ^ k \<le> 2 ^ 30" using assms(3) by (intro power_increasing) auto
  then have "js_and x (2 ^ k) = x AND 2 ^ k" using assms by (intro js_and_small) auto
  then show ?thesis by (simp add: and_exp_eq_0_iff_not_bit bit_iff_odd)
qed

lemma js_flag_tests:
  assumes "0 \<le> x" "x < 2147483648"
  shows "js_and x 1 = 0 \<longleftrightarrow> even x"
    "js_and x 4 = 0 \<longleftrightarrow> even (x div 4)"
    "js_and x 8 = 0 \<longleftrightarrow> even (x div 8)"
    "js_and x 16 = 0 \<longleftrightarrow> even (x div 16)"
    "js_and x 32 = 0 \<longleftrightarrow> even (x div 32)"
    "js_and x 64 = 0 \<longleftrightarrow> even (x div 64)"
    "js_and x 128 = 0 \<longleftrightarrow> even (x div 128)"
  using js_and_exp_eq_0 [OF assms, of 0] js_and_exp_eq_0 [OF assms, of 2]
    js_and_exp_eq_0 [OF assms, of 3] js_and_exp_eq_0 [OF assms, of 4]
    js_and_exp_eq_0 [OF assms, of 5] js_and_exp_eq_0 [OF assms, of 6]
    js_and_exp_eq_0 [OF assms, of 7]
  by simp_all

lemma js_and_7f: "0 \<le> x \<Longrightarrow> x < 2147483648 \<Longrightarrow> js_and x 127 = x mod 128"
  using js_and_mask [of x 7] by simp

lemma js_and_ff: "0 \<le> x \<Longrightarrow> x < 2147483648 \<Longrightarrow> js_and x 255 = x mod 256"
  using js_and_mask [of x 8] by simp

lemma js_and_mask_any:
  assumes "k < 32"
  shows "js_and x (2 ^ k - 1) = x mod 2 ^ k"
proof -
  have "(2 :: int) ^ k \<le> 2 ^ 31" using assms by (intro power_increasing) auto
  then have "js_and x (2 ^ k - 1) = js_ToInt32 x AND mask k"
    by (simp add: js_and_def mask_eq_exp_minus_1)
  also have "\<dots> = take_bit k x"
    using assms by (simp add: js_ToInt32_def take_bit_eq_mask [symmetric] take_bit_signed_take_bit)
  finally show ?thesis by (simp add: take_bit_eq_mod)
qed

lemma js_and_low [simp]: "js_and x 255 = x mod 256" "js_and x 0x7fffffff = x mod 2147483648"
  using js_and_mask_any [of 8 x] js_and_mask_any [of 31 x] by simp_all

lemma to_uint8_mod [simp]: "to_uint8 (n mod 256) = to_uint8 n"
  by (rule word_uint_eqI) (simp add: uint_to_uint8)

section \<open>Interfaces: codecs and channels\<close>

text \<open>
  A codec promises that what it encodes it decodes to the same value; a canonical codec has one
  encoding per value, so decoding is undone by encoding too.
\<close>

locale codec =
  fixes enc :: "'a \<Rightarrow> 'w result" and dec :: "'w \<Rightarrow> 'a result" and valid :: "'a \<Rightarrow> bool"
  assumes roundtrip: "valid x \<Longrightarrow> res_bind (enc x) dec = Inr x"
begin

lemma enc_total: "valid x \<Longrightarrow> \<exists>w. enc x = Inr w \<and> dec w = Inr x"
  using roundtrip [of x] by (simp add: res_bind_Inr_iff)

lemma enc_inject: "valid x \<Longrightarrow> valid y \<Longrightarrow> enc x = enc y \<Longrightarrow> x = y"
  by (metis roundtrip sum.inject(2))

end

locale canonical_codec = codec +
  assumes dec_valid: "dec w = Inr x \<Longrightarrow> valid x" and canonical: "dec w = Inr x \<Longrightarrow> enc x = Inr w"
begin

lemma dec_iff_enc: "dec w = Inr x \<longleftrightarrow> valid x \<and> enc x = Inr w"
  using dec_valid canonical roundtrip [of x] by auto

lemma dec_inject: "dec w = Inr x \<Longrightarrow> dec w' = Inr x \<Longrightarrow> w = w'"
  by (metis canonical sum.inject(2))

end

text \<open>
  A channel is a pair of stateful ends. Its contract is one transfer; what a whole sequence of
  messages does follows.
\<close>

fun exchange ::
    "('m \<Rightarrow> 'e \<Rightarrow> 'w result \<times> 'e) \<Rightarrow> ('w \<Rightarrow> 'd \<Rightarrow> 'v result \<times> 'd) \<Rightarrow> 'm list \<Rightarrow> 'e \<Rightarrow> 'd \<Rightarrow>
     'v list result \<times> 'e \<times> 'd" where
  "exchange send receive [] e d = (Inr [], e, d)"
| "exchange send receive (m # ms) e d =
     (case send m e of
        (Inl err, e') \<Rightarrow> (Inl err, e', d)
      | (Inr w, e') \<Rightarrow>
          (case receive w d of
             (Inl err, d') \<Rightarrow> (Inl err, e', d')
           | (Inr v, d') \<Rightarrow>
               (let (r, e'', d'') = exchange send receive ms e' d'
                in (res_bind r (\<lambda>vs. Inr (v # vs)), e'', d''))))"

locale channel =
  fixes send :: "'m \<Rightarrow> 'e \<Rightarrow> 'w result \<times> 'e" and receive :: "'w \<Rightarrow> 'd \<Rightarrow> 'v result \<times> 'd"
    and synced :: "'e \<Rightarrow> 'd \<Rightarrow> bool" and acceptable :: "'d \<Rightarrow> 'm \<Rightarrow> bool" and view :: "'m \<Rightarrow> 'v"
  assumes transfer: "synced e d \<Longrightarrow> acceptable d m \<Longrightarrow>
     \<exists>w e' d'. send m e = (Inr w, e') \<and> receive w d = (Inr (view m), d') \<and> synced e' d' \<and>
       (\<forall>m'. acceptable d' m' = acceptable d m')"
begin

lemma exchange_all:
  "synced e d \<Longrightarrow> list_all (acceptable d) ms \<Longrightarrow>
   \<exists>e' d'. exchange send receive ms e d = (Inr (map view ms), e', d') \<and> synced e' d'"
proof (induction ms arbitrary: e d)
  case (Cons m ms)
  obtain w e1 d1 where step: "send m e = (Inr w, e1)" "receive w d = (Inr (view m), d1)" "synced e1 d1"
    "\<forall>m'. acceptable d1 m' = acceptable d m'"
    using transfer [of e d m] Cons.prems by auto
  then have "list_all (acceptable d1) ms" using Cons.prems(2) by (simp add: list_all_def)
  from Cons.IH [OF step(3) this] step(1,2) show ?case by auto
qed simp

end

end
