(* ===== verification/Byte_Strings.thy ===== *)
theory Byte_Strings
  imports Nts_Prelude
begin

text \<open>
  Conversions between byte arrays and strings whose code units are bytes, from
  \<^verbatim>\<open>runtime/web-platform/src/core/encoding.ts\<close>: \<^verbatim>\<open>latin1\<close>, \<^verbatim>\<open>encodeByteString\<close> and
  \<^verbatim>\<open>concatBytes\<close>.
\<close>

section \<open>Definitions\<close>

definition latin1 :: "bytes \<Rightarrow> jsstring" where
  "latin1 bs = fold (\<lambda>b result. result @ [word_of_int (uint b)]) bs []"

definition encodeByteString :: "jsstring \<Rightarrow> bytes result" where
  "encodeByteString text =
     res_fold (\<lambda>value result.
       if uint value > 255 then Inl TypeError else Inr (result @ [to_uint8 (uint value)])) text []"

text \<open>
  \<^verbatim>\<open>result.set(chunk, offset)\<close> throws a \<^verbatim>\<open>RangeError\<close> when the chunk does not fit.
\<close>

definition typed_set :: "bytes \<Rightarrow> bytes \<Rightarrow> nat \<Rightarrow> bytes result" where
  "typed_set result chunk offset =
     (if offset + length chunk \<le> length result
      then Inr (take offset result @ chunk @ drop (offset + length chunk) result)
      else Inl RangeError)"

definition concatBytes :: "bytes list \<Rightarrow> nat option \<Rightarrow> bytes result" where
  "concatBytes chunks len =
     (let total = (case len of Some n \<Rightarrow> n | None \<Rightarrow> fold (\<lambda>chunk total. total + length chunk) chunks 0)
      in res_bind
           (res_fold (\<lambda>chunk (result, offset).
              res_bind (typed_set result chunk offset) (\<lambda>r. Inr (r, offset + length chunk)))
            chunks (replicate total 0, 0))
           (\<lambda>(result, offset). Inr result))"

section \<open>Lemmas\<close>

definition byte_string :: "jsstring \<Rightarrow> bool" where
  "byte_string s \<longleftrightarrow> (\<forall>u\<in>set s. uint u \<le> 255)"

lemma latin1_fold: "fold (\<lambda>b result. result @ [ucast b]) bs acc = acc @ map ucast bs"
  by (induction bs arbitrary: acc) auto

lemma latin1_eq: "latin1 bs = map ucast bs"
  by (simp add: latin1_def latin1_fold)

lemma length_latin1 [simp]: "length (latin1 bs) = length bs"
  by (simp add: latin1_eq)

lemma byte_string_latin1 [simp]: "byte_string (latin1 bs)"
  by (auto simp: byte_string_def latin1_eq unsigned_ucast_eq take_bit_int_eq_self uint_byte_less
      order_less_imp_le)

lemma encodeByteString_fold:
  "res_fold (\<lambda>value result.
       if uint value > 255 then Inl TypeError else Inr (result @ [to_uint8 (uint value)])) str acc =
   (if byte_string str then Inr (acc @ map ucast str) else Inl TypeError)"
proof (induction str arbitrary: acc)
  case (Cons u str)
  then show ?case by (auto simp: byte_string_def to_uint8_def)
qed (simp add: byte_string_def)

lemma encodeByteString_eq:
  "encodeByteString str = (if byte_string str then Inr (map ucast str) else Inl TypeError)"
  by (simp add: encodeByteString_def encodeByteString_fold)

lemma ucast_byte_unit: "uint (u :: code_unit) \<le> 255 \<Longrightarrow> ucast (ucast u :: byte) = u"
  by (rule word_uint_eqI) (simp add: unsigned_ucast_eq unsigned_take_bit_eq take_bit_int_eq_self)

lemma ucast_unit_byte [simp]: "ucast (ucast b :: code_unit) = (b :: byte)"
  by (rule word_uint_eqI) (simp add: unsigned_ucast_eq unsigned_take_bit_eq take_bit_int_eq_self uint_byte_less)

lemma latin1_encode:
  "byte_string str \<Longrightarrow> latin1 (map ucast str) = str"
  by (auto simp: latin1_eq byte_string_def ucast_byte_unit intro!: map_idI)

lemma encode_latin1: "encodeByteString (latin1 bs) = Inr bs"
  by (simp add: encodeByteString_eq) (simp add: latin1_eq comp_def)

lemma concatBytes_fold:
  assumes "offset + length (concat chunks) \<le> length result"
  shows "res_fold (\<lambda>chunk (result, offset).
              res_bind (typed_set result chunk offset) (\<lambda>r. Inr (r, offset + length chunk)))
            chunks (result, offset) =
    Inr (take offset result @ concat chunks @ drop (offset + length (concat chunks)) result,
         offset + length (concat chunks))"
  using assms
proof (induction chunks arbitrary: result offset)
  case (Cons c chunks)
  then show ?case by (auto simp: typed_set_def ac_simps)
qed simp

lemma sum_lengths_fold: "fold (\<lambda>chunk total. total + length chunk) chunks n = n + length (concat chunks)"
  by (induction chunks arbitrary: n) auto

lemma concatBytes_total: "concatBytes chunks None = Inr (concat chunks)"
  by (simp add: concatBytes_def sum_lengths_fold concatBytes_fold)

lemma concatBytes_exact: "n = length (concat chunks) \<Longrightarrow> concatBytes chunks (Some n) = Inr (concat chunks)"
  by (simp add: concatBytes_def concatBytes_fold)

section \<open>Properties\<close>

interpretation latin1: canonical_codec "\<lambda>bs. Inr (latin1 bs)" encodeByteString "\<lambda>_. True"
proof
  show "res_bind (Inr (latin1 bs)) encodeByteString = Inr bs" for bs by (simp add: encode_latin1)
  show "Inr (latin1 bs) = Inr s" if "encodeByteString s = Inr bs" for s bs
    using that by (auto simp: encodeByteString_eq latin1_encode split: if_splits)
qed simp

text \<open>
  Byte strings and byte arrays correspond one to one: \<^verbatim>\<open>encodeByteString\<close> accepts a string
  exactly when it is the \<^verbatim>\<open>latin1\<close> reading of some bytes, and returns those bytes.
\<close>

theorem byte_string_canonical: "encodeByteString s = Inr bs \<longleftrightarrow> s = latin1 bs"
  using latin1.dec_iff_enc [of s bs] by auto

end
