(* ===== verification/Hpack_Huffman.thy ===== *)
theory Hpack_Huffman
  imports Nts_Prelude "HOL-Library.Sublist"
begin

text \<open>
  The HPACK Huffman coder of \<^verbatim>\<open>runtime/web-platform/src/http2/hpack-huffman.ts\<close>: the code
  table of RFC 7541, the decoding tree that \<^verbatim>\<open>buildTree\<close> lays out in three parallel arrays,
  the encoder, which packs code bits into bytes and pads with ones, and the decoder, which
  walks the tree bit by bit. The arrays are shown to hold exactly the trie of the code
  words, from which decoding inverts encoding.
\<close>

section \<open>The code table\<close>

definition HUFFMAN_CODES :: "int list" where
  "HUFFMAN_CODES = [
    0x1ff8, 0x7fffd8, 0xfffffe2, 0xfffffe3, 0xfffffe4, 0xfffffe5, 0xfffffe6, 0xfffffe7, 0xfffffe8,
    0xffffea, 0x3ffffffc, 0xfffffe9, 0xfffffea, 0x3ffffffd, 0xfffffeb, 0xfffffec, 0xfffffed,
    0xfffffee, 0xfffffef, 0xffffff0, 0xffffff1, 0xffffff2, 0x3ffffffe, 0xffffff3, 0xffffff4,
    0xffffff5, 0xffffff6, 0xffffff7, 0xffffff8, 0xffffff9, 0xffffffa, 0xffffffb, 0x14, 0x3f8,
    0x3f9, 0xffa, 0x1ff9, 0x15, 0xf8, 0x7fa, 0x3fa, 0x3fb, 0xf9, 0x7fb, 0xfa, 0x16, 0x17, 0x18, 0,
    1, 2, 0x19, 0x1a, 0x1b, 0x1c, 0x1d, 0x1e, 0x1f, 0x5c, 0xfb, 0x7ffc, 0x20, 0xffb, 0x3fc, 0x1ffa,
    0x21, 0x5d, 0x5e, 0x5f, 0x60, 0x61, 0x62, 0x63, 0x64, 0x65, 0x66, 0x67, 0x68, 0x69, 0x6a, 0x6b,
    0x6c, 0x6d, 0x6e, 0x6f, 0x70, 0x71, 0x72, 0xfc, 0x73, 0xfd, 0x1ffb, 0x7fff0, 0x1ffc, 0x3ffc,
    0x22, 0x7ffd, 3, 0x23, 4, 0x24, 5, 0x25, 0x26, 0x27, 6, 0x74, 0x75, 0x28, 0x29, 0x2a, 7, 0x2b,
    0x76, 0x2c, 8, 9, 0x2d, 0x77, 0x78, 0x79, 0x7a, 0x7b, 0x7ffe, 0x7fc, 0x3ffd, 0x1ffd, 0xffffffc,
    0xfffe6, 0x3fffd2, 0xfffe7, 0xfffe8, 0x3fffd3, 0x3fffd4, 0x3fffd5, 0x7fffd9, 0x3fffd6,
    0x7fffda, 0x7fffdb, 0x7fffdc, 0x7fffdd, 0x7fffde, 0xffffeb, 0x7fffdf, 0xffffec, 0xffffed,
    0x3fffd7, 0x7fffe0, 0xffffee, 0x7fffe1, 0x7fffe2, 0x7fffe3, 0x7fffe4, 0x1fffdc, 0x3fffd8,
    0x7fffe5, 0x3fffd9, 0x7fffe6, 0x7fffe7, 0xffffef, 0x3fffda, 0x1fffdd, 0xfffe9, 0x3fffdb,
    0x3fffdc, 0x7fffe8, 0x7fffe9, 0x1fffde, 0x7fffea, 0x3fffdd, 0x3fffde, 0xfffff0, 0x1fffdf,
    0x3fffdf, 0x7fffeb, 0x7fffec, 0x1fffe0, 0x1fffe1, 0x3fffe0, 0x1fffe2, 0x7fffed, 0x3fffe1,
    0x7fffee, 0x7fffef, 0xfffea, 0x3fffe2, 0x3fffe3, 0x3fffe4, 0x7ffff0, 0x3fffe5, 0x3fffe6,
    0x7ffff1, 0x3ffffe0, 0x3ffffe1, 0xfffeb, 0x7fff1, 0x3fffe7, 0x7ffff2, 0x3fffe8, 0x1ffffec,
    0x3ffffe2, 0x3ffffe3, 0x3ffffe4, 0x7ffffde, 0x7ffffdf, 0x3ffffe5, 0xfffff1, 0x1ffffed, 0x7fff2,
    0x1fffe3, 0x3ffffe6, 0x7ffffe0, 0x7ffffe1, 0x3ffffe7, 0x7ffffe2, 0xfffff2, 0x1fffe4, 0x1fffe5,
    0x3ffffe8, 0x3ffffe9, 0xffffffd, 0x7ffffe3, 0x7ffffe4, 0x7ffffe5, 0xfffec, 0xfffff3, 0xfffed,
    0x1fffe6, 0x3fffe9, 0x1fffe7, 0x1fffe8, 0x7ffff3, 0x3fffea, 0x3fffeb, 0x1ffffee, 0x1ffffef,
    0xfffff4, 0xfffff5, 0x3ffffea, 0x7ffff4, 0x3ffffeb, 0x7ffffe6, 0x3ffffec, 0x3ffffed, 0x7ffffe7,
    0x7ffffe8, 0x7ffffe9, 0x7ffffea, 0x7ffffeb, 0xffffffe, 0x7ffffec, 0x7ffffed, 0x7ffffee,
    0x7ffffef, 0x7fffff0, 0x3ffffee, 0x3fffffff]"

definition HUFFMAN_LENGTHS :: "nat list" where
  "HUFFMAN_LENGTHS = [
    13, 23, 28, 28, 28, 28, 28, 28, 28, 24, 30, 28, 28, 30, 28, 28, 28, 28, 28, 28, 28, 28, 30, 28,
    28, 28, 28, 28, 28, 28, 28, 28, 6, 10, 10, 12, 13, 6, 8, 11, 10, 10, 8, 11, 8, 6, 6, 6, 5, 5,
    5, 6, 6, 6, 6, 6, 6, 6, 7, 8, 15, 6, 12, 10, 13, 6, 7, 7, 7, 7, 7, 7, 7, 7, 7, 7, 7, 7, 7, 7,
    7, 7, 7, 7, 7, 7, 7, 7, 8, 7, 8, 13, 19, 13, 14, 6, 15, 5, 6, 5, 6, 5, 6, 6, 6, 5, 7, 7, 6, 6,
    6, 5, 6, 7, 6, 5, 5, 6, 7, 7, 7, 7, 7, 15, 11, 14, 13, 28, 20, 22, 20, 20, 22, 22, 22, 23, 22,
    23, 23, 23, 23, 23, 24, 23, 24, 24, 22, 23, 24, 23, 23, 23, 23, 21, 22, 23, 22, 23, 23, 24, 22,
    21, 20, 22, 22, 23, 23, 21, 23, 22, 22, 24, 21, 22, 23, 23, 21, 21, 22, 21, 23, 22, 23, 23, 20,
    22, 22, 22, 23, 22, 22, 23, 26, 26, 20, 19, 22, 23, 22, 25, 26, 26, 26, 27, 27, 26, 24, 25, 19,
    21, 26, 27, 27, 26, 27, 24, 21, 21, 26, 26, 28, 27, 27, 27, 20, 24, 20, 21, 22, 21, 21, 23, 22,
    22, 25, 25, 24, 24, 26, 23, 26, 27, 26, 26, 27, 27, 27, 27, 27, 28, 27, 27, 27, 27, 27, 26, 30]"

definition huffCode :: "nat \<Rightarrow> int" where
  "huffCode symbol = js_or_else (js_at HUFFMAN_CODES (int symbol)) 0"

definition huffLen :: "nat \<Rightarrow> nat" where
  "huffLen symbol = js_or_else (js_at HUFFMAN_LENGTHS (int symbol)) 0"

section \<open>The decoding tree\<close>

text \<open>
  The module-level arrays \<^verbatim>\<open>zeroChildren\<close>, \<^verbatim>\<open>oneChildren\<close> and \<^verbatim>\<open>symbols\<close>. A node is an index
  into them; \<open>-1\<close> is an absent child or the absence of a symbol.
\<close>

record huffman_tree =
  zeroChildren :: "int list"
  oneChildren :: "int list"
  symbols :: "int list"

definition huffman_tree_init :: huffman_tree where
  "huffman_tree_init = \<lparr>zeroChildren = [-1], oneChildren = [-1], symbols = [-1]\<rparr>"

definition appendNode :: "huffman_tree \<Rightarrow> int \<times> huffman_tree" where
  "appendNode t =
     (let t' = t\<lparr>zeroChildren := zeroChildren t @ [-1],
                 oneChildren := oneChildren t @ [-1],
                 symbols := symbols t @ [-1]\<rparr>
      in (int (length (symbols t')) - 1, t'))"

text \<open>The child of \<open>node\<close> under \<open>bt\<close>: the expression both loops read.\<close>

definition childOf :: "huffman_tree \<Rightarrow> int \<Rightarrow> int \<Rightarrow> int" where
  "childOf t node bt =
     js_or_else (if bt = 0 then js_at (zeroChildren t) node else js_at (oneChildren t) node) (-1)"

text \<open>The bit of a code word at \<open>bitIndex\<close>, as both the builder and the encoder extract it.\<close>

definition codeBit :: "int \<Rightarrow> nat \<Rightarrow> int" where
  "codeBit code bitIndex = js_and (js_ushr code bitIndex) 1"

definition buildStep :: "int \<Rightarrow> int \<times> huffman_tree \<Rightarrow> int \<times> huffman_tree" where
  "buildStep bt s =
     (let (node, t) = s; child = childOf t node bt
      in if child < 0
         then (let (child', t') = appendNode t
               in (child', if bt = 0
                           then t'\<lparr>zeroChildren := (zeroChildren t')[nat node := child']\<rparr>
                           else t'\<lparr>oneChildren := (oneChildren t')[nat node := child']\<rparr>))
         else (child, t))"

text \<open>
  One iteration of the outer loop of \<^verbatim>\<open>buildTree\<close> and the loop itself. The inner loop runs
  \<^verbatim>\<open>bitIndex\<close> from \<open>length - 1\<close> down to \<open>0\<close>.
\<close>

definition buildSymbol :: "nat \<Rightarrow> huffman_tree \<Rightarrow> huffman_tree" where
  "buildSymbol symbol t =
     (let code = huffCode symbol; len = huffLen symbol;
          (node, t') = fold (\<lambda>bitIndex. buildStep (codeBit code bitIndex)) (rev [0..<len]) (0, t)
      in t'\<lparr>symbols := (symbols t')[nat node := int symbol]\<rparr>)"

definition buildTree :: huffman_tree where
  "buildTree = fold buildSymbol [0..<length HUFFMAN_CODES] huffman_tree_init"

section \<open>Encoder and decoder\<close>

definition hpackHuffmanEncodedLength :: "bytes \<Rightarrow> int result" where
  "hpackHuffmanEncodedLength input =
     res_bind
       (res_fold (\<lambda>b bits.
          let bits' = bits + int (huffLen (unat b))
          in res_bind (res_guard (js_isSafeInteger bits') LimitError) (\<lambda>_. Inr bits')) input 0)
       (\<lambda>bits. Inr ((bits + 7) div 8))"

record huffman_encoder =
  enc_output :: bytes
  enc_current :: int
  enc_currentBits :: nat
  enc_outputIndex :: nat

definition encodeBit :: "int \<Rightarrow> huffman_encoder \<Rightarrow> huffman_encoder" where
  "encodeBit bt s =
     (let current = js_or (js_shl (enc_current s) 1) bt;
          currentBits = enc_currentBits s + 1
      in if currentBits = 8
         then s\<lparr>enc_output := (enc_output s)[enc_outputIndex s := to_uint8 current],
                enc_outputIndex := enc_outputIndex s + 1,
                enc_current := 0, enc_currentBits := 0\<rparr>
         else s\<lparr>enc_current := current, enc_currentBits := currentBits\<rparr>)"

definition encodeHpackHuffman :: "bytes \<Rightarrow> bytes result" where
  "encodeHpackHuffman input =
     res_bind (hpackHuffmanEncodedLength input) (\<lambda>len.
       let s0 = \<lparr>enc_output = replicate (nat len) 0, enc_current = 0, enc_currentBits = 0,
                 enc_outputIndex = 0\<rparr>;
           s = fold (\<lambda>b. fold (\<lambda>bitIndex. encodeBit (codeBit (huffCode (unat b)) bitIndex))
                           (rev [0..<huffLen (unat b)])) input s0
       in Inr (if enc_currentBits s \<noteq> 0
               then (enc_output s)[enc_outputIndex s :=
                      to_uint8 (js_or (js_shl (enc_current s) (8 - enc_currentBits s))
                                      (js_ushr 255 (enc_currentBits s)))]
               else enc_output s))"

record huffman_decoder =
  dec_output :: bytes
  dec_node :: int
  dec_trailing :: int
  dec_trailingBits :: nat

definition decodeBit :: "huffman_tree \<Rightarrow> int \<Rightarrow> int \<Rightarrow> huffman_decoder \<Rightarrow> huffman_decoder result" where
  "decodeBit t maxOutputBytes bt s =
     (let trailing = js_or (js_shl (dec_trailing s) 1) bt;
          trailingBits = dec_trailingBits s + 1;
          node = childOf t (dec_node s) bt
      in res_bind (res_guard (\<not> node < 0) ProtocolError) (\<lambda>_.
         let symbol = js_or_else (js_at (symbols t) node) (-1)
         in if symbol < 0
            then Inr (s\<lparr>dec_node := node, dec_trailing := trailing,
                        dec_trailingBits := trailingBits\<rparr>)
            else res_bind (res_guard (symbol \<noteq> 256) ProtocolError) (\<lambda>_.
                 res_bind (res_guard (\<not> int (length (dec_output s)) \<ge> maxOutputBytes) LimitError) (\<lambda>_.
                 Inr (s\<lparr>dec_output := dec_output s @ [to_uint8 symbol], dec_node := 0,
                        dec_trailing := 0, dec_trailingBits := 0\<rparr>)))))"

definition byteBit :: "byte \<Rightarrow> nat \<Rightarrow> int" where
  "byteBit b bitIndex = js_and (js_ushr (uint b) bitIndex) 1"

definition decodeHpackHuffman :: "bytes \<Rightarrow> int \<Rightarrow> bytes result" where
  "decodeHpackHuffman input maxOutputBytes =
     res_bind
       (res_fold (\<lambda>b. res_fold (\<lambda>bitIndex. decodeBit buildTree maxOutputBytes (byteBit b bitIndex))
                     (rev [0..<8])) input
          \<lparr>dec_output = [], dec_node = 0, dec_trailing = 0, dec_trailingBits = 0\<rparr>)
       (\<lambda>s. res_bind
          (res_guard (\<not> (dec_node s \<noteq> 0 \<and>
              (dec_trailingBits s > 7 \<or>
               dec_trailing s \<noteq> js_shl 1 (dec_trailingBits s) - 1))) ProtocolError)
          (\<lambda>_. Inr (dec_output s)))"

section \<open>The code words as bit strings\<close>

text \<open>
  \<open>code_bits s\<close> is the code word of symbol \<open>s\<close>, most significant bit first.
\<close>

definition word_bits :: "int \<Rightarrow> nat \<Rightarrow> bool list" where
  "word_bits code n = map (bit code) (rev [0..<n])"

definition code_bits :: "nat \<Rightarrow> bool list" where
  "code_bits s = word_bits (huffCode s) (huffLen s)"

lemma word_bits_simps:
  "word_bits c 0 = []"
  "word_bits c (Suc n) = bit c n # word_bits c n"
  by (simp_all add: word_bits_def)

text \<open>
  The code is prefix free. The check inserts every code word into a trie and fails as soon
  as one word ends inside another; a trie that accepts all words shows the property.
\<close>

datatype trie = Absent | Final | Inner trie trie

fun trie_insert :: "bool list \<Rightarrow> trie \<Rightarrow> trie option" where
  "trie_insert [] Absent = Some Final"
| "trie_insert [] _ = None"
| "trie_insert (b # bs) Absent =
     map_option (\<lambda>t. if b then Inner Absent t else Inner t Absent) (trie_insert bs Absent)"
| "trie_insert (b # bs) Final = None"
| "trie_insert (b # bs) (Inner l r) =
     (if b then map_option (Inner l) (trie_insert bs r)
      else map_option (\<lambda>l'. Inner l' r) (trie_insert bs l))"

fun trie_member :: "trie \<Rightarrow> bool list \<Rightarrow> bool" where
  "trie_member Absent bs = False"
| "trie_member Final bs = (bs = [])"
| "trie_member (Inner l r) bs =
     (case bs of [] \<Rightarrow> False | b # bs' \<Rightarrow> trie_member (if b then r else l) bs')"

fun trie_insert_all :: "bool list list \<Rightarrow> trie \<Rightarrow> trie option" where
  "trie_insert_all [] t = Some t"
| "trie_insert_all (w # ws) t = Option.bind (trie_insert w t) (trie_insert_all ws)"

fun trie_wf :: "trie \<Rightarrow> bool" where
  "trie_wf Absent = True"
| "trie_wf Final = True"
| "trie_wf (Inner l r) = (trie_wf l \<and> trie_wf r \<and> \<not> (l = Absent \<and> r = Absent))"

lemma trie_insert_not_Absent: "trie_insert w t = Some t' \<Longrightarrow> t' \<noteq> Absent"
  by (induction w t arbitrary: t' rule: trie_insert.induct) (auto split: if_splits)

lemma trie_insert_member:
  "trie_insert w t = Some t' \<Longrightarrow> trie_member t' v \<longleftrightarrow> v = w \<or> trie_member t v"
proof (induction w t arbitrary: t' v rule: trie_insert.induct)
  case (3 b bs)
  then show ?case by (cases v) (fastforce split: if_splits)+
next
  case (5 b bs l r)
  then show ?case by (cases v) (auto split: if_splits)
qed (auto split: list.splits)

lemma trie_insert_prefix:
  "trie_insert w t = Some t' \<Longrightarrow> trie_wf t \<Longrightarrow> trie_member t v \<Longrightarrow> \<not> prefix w v \<and> \<not> prefix v w"
proof (induction w t arbitrary: t' v rule: trie_insert.induct)
  case (5 b bs l r)
  then show ?case by (cases v) (auto split: if_splits)
qed (auto split: list.splits)

lemma trie_insert_wf: "trie_insert w t = Some t' \<Longrightarrow> trie_wf t \<Longrightarrow> trie_wf t'"
  by (induction w t arbitrary: t' rule: trie_insert.induct)
    (auto dest: trie_insert_not_Absent split: if_splits)

definition prefix_free :: "bool list list \<Rightarrow> bool" where
  "prefix_free ws \<longleftrightarrow> (\<forall>i<length ws. \<forall>j<length ws. i \<noteq> j \<longrightarrow> \<not> prefix (ws ! i) (ws ! j))"

lemma prefix_free_Cons:
  "prefix_free (w # ws) \<longleftrightarrow>
     prefix_free ws \<and> (\<forall>v\<in>set ws. \<not> prefix w v \<and> \<not> prefix v w)"
proof -
  have "prefix_free (w # ws) \<longleftrightarrow>
     (\<forall>i<Suc (length ws). \<forall>j<Suc (length ws). i \<noteq> j \<longrightarrow> \<not> prefix ((w # ws) ! i) ((w # ws) ! j))"
    by (simp add: prefix_free_def)
  also have "\<dots> \<longleftrightarrow> prefix_free ws \<and> (\<forall>j<length ws. \<not> prefix w (ws ! j) \<and> \<not> prefix (ws ! j) w)"
    unfolding prefix_free_def by (subst All_less_Suc2, subst All_less_Suc2) (auto simp: All_less_Suc2)
  also have "\<dots> \<longleftrightarrow> prefix_free ws \<and> (\<forall>v\<in>set ws. \<not> prefix w v \<and> \<not> prefix v w)"
    by (metis in_set_conv_nth)
  finally show ?thesis .
qed

lemma trie_insert_all_prefix_free:
  "trie_insert_all ws t = Some t' \<Longrightarrow> trie_wf t \<Longrightarrow>
     prefix_free ws \<and> (\<forall>w\<in>set ws. \<forall>v. trie_member t v \<longrightarrow> \<not> prefix w v \<and> \<not> prefix v w)"
proof (induction ws arbitrary: t)
  case Nil
  then show ?case by (simp add: prefix_free_def)
next
  case (Cons w ws)
  from Cons.prems(1) obtain u where u: "trie_insert w t = Some u" "trie_insert_all ws u = Some t'"
    by (auto simp: Option.bind_eq_Some_conv)
  have "trie_wf u" using u(1) Cons.prems(2) by (rule trie_insert_wf)
  note IH = Cons.IH [OF u(2) this]
  show ?case
    using IH trie_insert_member [OF u(1)] trie_insert_prefix [OF u(1) Cons.prems(2)]
    by (auto simp: prefix_free_Cons)
qed

definition all_codes :: "bool list list" where
  "all_codes = map2 word_bits HUFFMAN_CODES HUFFMAN_LENGTHS"

lemma length_HUFFMAN_CODES [simp]: "length HUFFMAN_CODES = 257"
  by (simp add: HUFFMAN_CODES_def)

lemma length_HUFFMAN_LENGTHS [simp]: "length HUFFMAN_LENGTHS = 257"
  by (simp add: HUFFMAN_LENGTHS_def)

lemma length_all_codes [simp]: "length all_codes = 257"
  by (simp add: all_codes_def)

lemma nth_all_codes: "s < 257 \<Longrightarrow> all_codes ! s = code_bits s"
  by (simp add: all_codes_def code_bits_def huffCode_def huffLen_def)

lemma all_codes_trie: "trie_insert_all all_codes Absent \<noteq> None"
  by code_simp

lemma prefix_free_all_codes: "prefix_free all_codes"
  using all_codes_trie trie_insert_all_prefix_free [of all_codes Absent] by auto

lemma HUFFMAN_LENGTHS_range: "list_all (\<lambda>n. 5 \<le> n \<and> n \<le> 30) HUFFMAN_LENGTHS"
  by (simp add: HUFFMAN_LENGTHS_def)

lemma HUFFMAN_CODES_range: "list_all (\<lambda>c. 0 \<le> c \<and> c < 2 ^ 30) HUFFMAN_CODES"
  by (simp add: HUFFMAN_CODES_def)

lemma huffLen_range: "s < 257 \<Longrightarrow> 5 \<le> huffLen s \<and> huffLen s \<le> 30"
  using HUFFMAN_LENGTHS_range by (simp add: huffLen_def list_all_length)

lemma huffCode_range: "s < 257 \<Longrightarrow> 0 \<le> huffCode s \<and> huffCode s < 2 ^ 30"
  using HUFFMAN_CODES_range by (simp add: huffCode_def list_all_length)

lemma code_bits_EOS: "code_bits 256 = replicate 30 True"
proof -
  have "huffCode 256 = 2 ^ 30 - 1" "huffLen 256 = 30"
    by (simp_all add: huffCode_def huffLen_def js_at_def HUFFMAN_CODES_def HUFFMAN_LENGTHS_def)
  moreover have "word_bits (2 ^ 30 - 1) 30 = replicate 30 True" by code_simp
  ultimately show ?thesis by (simp add: code_bits_def)
qed

lemma code_bits_not_prefix:
  "s < 257 \<Longrightarrow> r < 257 \<Longrightarrow> prefix (code_bits s) (code_bits r) \<Longrightarrow> s = r"
  using prefix_free_all_codes by (auto simp: prefix_free_def nth_all_codes)

section \<open>The arrays hold the trie of the code words\<close>

text \<open>
  The ghost list \<open>ps\<close> gives the path of every node. The children of a node are found by
  position: \<open>pos ps q\<close> is the node with path \<open>q\<close>, or \<open>-1\<close>.
\<close>

fun pos :: "bool list list \<Rightarrow> bool list \<Rightarrow> int" where
  "pos [] q = -1"
| "pos (p # ps) q = (if p = q then 0 else if pos ps q < 0 then -1 else pos ps q + 1)"

lemma pos_bounds: "-1 \<le> pos ps q \<and> pos ps q < int (length ps)"
  by (induction ps) auto

lemma pos_nonneg_iff: "0 \<le> pos ps q \<longleftrightarrow> q \<in> set ps"
  by (induction ps) auto

lemma pos_absent: "q \<notin> set ps \<Longrightarrow> pos ps q = -1"
  using pos_nonneg_iff [of ps q] pos_bounds [of ps q] by linarith

lemma pos_nth: "distinct ps \<Longrightarrow> i < length ps \<Longrightarrow> pos ps (ps ! i) = int i"
proof (induction ps arbitrary: i)
  case (Cons p ps)
  then show ?case by (cases i) (auto simp: nth_mem)
qed simp

lemma nth_pos: "q \<in> set ps \<Longrightarrow> ps ! nat (pos ps q) = q"
proof (induction ps)
  case (Cons p ps)
  show ?case
  proof (cases "p = q")
    case False
    with Cons.prems have q: "q \<in> set ps" by auto
    then have "0 \<le> pos ps q" by (simp add: pos_nonneg_iff)
    then have "nat (pos ps q + 1) = Suc (nat (pos ps q))" by simp
    with False q Cons.IH \<open>0 \<le> pos ps q\<close> show ?thesis by simp
  qed simp
qed simp

lemma pos_snoc:
  "pos (ps @ [p]) q = (if q \<in> set ps then pos ps q else if q = p then int (length ps) else -1)"
proof (induction ps)
  case (Cons a ps)
  then show ?case using pos_nonneg_iff [of ps q] by (cases "a = q") (auto simp: not_less)
qed auto

lemma nat_pos_less: "q \<in> set ps \<Longrightarrow> nat (pos ps q) < length ps"
  using pos_bounds [of ps q] pos_nonneg_iff [of ps q] by linarith

definition node_inv :: "bool list list \<Rightarrow> huffman_tree \<Rightarrow> bool" where
  "node_inv ps t \<longleftrightarrow>
     length (zeroChildren t) = length ps \<and> length (oneChildren t) = length ps \<and>
     length (symbols t) = length ps \<and> distinct ps \<and> [] \<in> set ps \<and> pos ps [] = 0 \<and>
     (\<forall>q b. q @ [b] \<in> set ps \<longrightarrow> q \<in> set ps) \<and>
     (\<forall>i<length ps. zeroChildren t ! i = pos ps (ps ! i @ [False]) \<and>
                    oneChildren t ! i = pos ps (ps ! i @ [True]))"

lemma node_inv_child:
  assumes "node_inv ps t" and "q \<in> set ps"
  shows "childOf t (pos ps q) (of_bool b) = pos ps (q @ [b])"
proof -
  have "0 \<le> pos ps q" "pos ps q < int (length ps)"
    using assms(2) pos_bounds [of ps q] by (auto simp: pos_nonneg_iff)
  moreover have "nat (pos ps q) < length ps" using assms(2) by (rule nat_pos_less)
  ultimately show ?thesis
    using assms nth_pos [OF assms(2)] by (auto simp: childOf_def js_at_def node_inv_def)
qed

text \<open>One step of the builder moves to the child, creating it when it is absent.\<close>

lemma buildStep_present:
  assumes "node_inv ps t" and "q \<in> set ps" and "q @ [b] \<in> set ps"
  shows "buildStep (of_bool b) (pos ps q, t) = (pos ps (q @ [b]), t)"
  using assms node_inv_child [OF assms(1,2), of b] pos_nonneg_iff [of ps "q @ [b]"]
  by (simp add: buildStep_def Let_def not_less)

lemma buildStep_absent:
  assumes inv: "node_inv ps t" and q: "q \<in> set ps" and absent: "q @ [b] \<notin> set ps"
  defines "ps' \<equiv> ps @ [q @ [b]]"
  shows "\<exists>t'. buildStep (of_bool b) (pos ps q, t) = (pos ps' (q @ [b]), t') \<and> node_inv ps' t' \<and>
              symbols t' = symbols t @ [-1]"
proof -
  let ?t = "snd (buildStep (of_bool b) (pos ps q, t))"
  have child: "childOf t (pos ps q) (of_bool b) = -1"
    using node_inv_child [OF inv q, of b] pos_absent [OF absent] by simp
  have len: "length (zeroChildren t) = length ps" "length (oneChildren t) = length ps"
    "length (symbols t) = length ps" and d: "distinct ps"
    and closed: "\<And>q b. q @ [b] \<in> set ps \<Longrightarrow> q \<in> set ps"
    using inv by (auto simp: node_inv_def)
  have step: "buildStep (of_bool b) (pos ps q, t) = (int (length ps), ?t)"
    and syms: "symbols ?t = symbols t @ [-1]"
    and zero: "zeroChildren ?t = (if b then zeroChildren t @ [-1]
                 else (zeroChildren t @ [-1])[nat (pos ps q) := int (length ps)])"
    and one: "oneChildren ?t = (if b then (oneChildren t @ [-1])[nat (pos ps q) := int (length ps)]
                 else oneChildren t @ [-1])"
    using child len by (auto simp: buildStep_def appendNode_def Let_def)
  have other: "ps ! i @ [c] = q @ [b] \<longleftrightarrow> nat (pos ps q) = i \<and> c = b" if "i < length ps" for i c
    using that d q nth_pos [OF q] by (auto simp: pos_nth)
  have new: "q @ [b, c] \<notin> set ps" for c
    using absent closed [of "q @ [b]" c] by auto
  have kids: "zeroChildren ?t ! i = pos ps' (ps' ! i @ [False]) \<and>
              oneChildren ?t ! i = pos ps' (ps' ! i @ [True])" if "i < length ps'" for i
  proof (cases "i < length ps")
    case True
    then have old: "zeroChildren t ! i = pos ps (ps ! i @ [False])"
      "oneChildren t ! i = pos ps (ps ! i @ [True])"
      using inv by (auto simp: node_inv_def)
    have pos': "pos ps' (ps ! i @ [c]) = (if nat (pos ps q) = i \<and> c = b then int (length ps)
                 else pos ps (ps ! i @ [c]))" for c
      using other [OF True, of c] absent pos_absent [of "ps ! i @ [c]" ps]
      by (cases "ps ! i @ [c] = q @ [b]") (auto simp: ps'_def pos_snoc)
    have "ps' ! i = ps ! i" using True by (simp add: ps'_def nth_append)
    with pos' old True len show ?thesis
      by (auto simp: zero one nth_append nth_list_update)
  next
    case False
    then have "i = length ps" using that by (simp add: ps'_def)
    moreover have "pos ps' (q @ [b, c]) = -1" for c
      using new [of c] by (simp add: ps'_def pos_snoc)
    ultimately show ?thesis
      using nat_pos_less [OF q] len
      by (auto simp: ps'_def zero one nth_append nth_list_update)
  qed
  have "node_inv ps' ?t"
    using inv absent q kids syms
    by (auto simp: node_inv_def ps'_def zero one pos_snoc)
  with step syms absent show ?thesis
    by (auto simp: ps'_def pos_snoc intro!: exI [of _ ?t])
qed

text \<open>
  The inner loop of the builder follows a whole code word. It keeps the symbols of the nodes
  that were there and gives the new nodes none.
\<close>

definition sym_of :: "bool list list \<Rightarrow> huffman_tree \<Rightarrow> bool list \<Rightarrow> int" where
  "sym_of ps t q = (if q \<in> set ps then symbols t ! nat (pos ps q) else -1)"

lemma build_path:
  assumes "node_inv ps t" and "q \<in> set ps"
  shows "\<exists>ps' t'. fold (\<lambda>b. buildStep (of_bool b)) w (pos ps q, t) = (pos ps' (q @ w), t') \<and>
            node_inv ps' t' \<and> q @ w \<in> set ps' \<and>
            set ps' = set ps \<union> {q @ v | v. prefix v w} \<and> (\<forall>r. sym_of ps' t' r = sym_of ps t r)"
  using assms
proof (induction w arbitrary: q ps t)
  case Nil
  then show ?case by (intro exI [of _ ps] exI [of _ t]) auto
next
  case (Cons b w)
  have split: "{q @ v | v. prefix v (b # w)} = insert q {(q @ [b]) @ v | v. prefix v w}"
    by (auto simp: prefix_Cons)
  show ?case
  proof (cases "q @ [b] \<in> set ps")
    case True
    from Cons.IH [OF Cons.prems(1) True] obtain ps' t' where
      "fold (\<lambda>b. buildStep (of_bool b)) w (pos ps (q @ [b]), t) = (pos ps' ((q @ [b]) @ w), t')"
      "node_inv ps' t'" "(q @ [b]) @ w \<in> set ps'"
      "set ps' = set ps \<union> {(q @ [b]) @ v | v. prefix v w}" "\<forall>r. sym_of ps' t' r = sym_of ps t r"
      by blast
    then show ?thesis
      using Cons.prems(2) buildStep_present [OF Cons.prems True] unfolding split
      by (intro exI [of _ ps'] exI [of _ t']) auto
  next
    case False
    define ps1 where "ps1 = ps @ [q @ [b]]"
    from buildStep_absent [OF Cons.prems False] obtain t1 where
      t1: "buildStep (of_bool b) (pos ps q, t) = (pos ps1 (q @ [b]), t1)" "node_inv ps1 t1"
      "symbols t1 = symbols t @ [-1]"
      unfolding ps1_def by blast
    have sym1: "sym_of ps1 t1 r = sym_of ps t r" for r
      using Cons.prems(1) t1(3) nat_pos_less [of r ps] False
      by (auto simp: sym_of_def ps1_def pos_snoc nth_append node_inv_def)
    from Cons.IH [OF t1(2), of "q @ [b]"] obtain ps' t' where
      "fold (\<lambda>b. buildStep (of_bool b)) w (pos ps1 (q @ [b]), t1) = (pos ps' ((q @ [b]) @ w), t')"
      "node_inv ps' t'" "(q @ [b]) @ w \<in> set ps'"
      "set ps' = set ps1 \<union> {(q @ [b]) @ v | v. prefix v w}" "\<forall>r. sym_of ps' t' r = sym_of ps1 t1 r"
      by (auto simp: ps1_def)
    then show ?thesis
      using Cons.prems(2) t1(1) sym1 unfolding split
      by (intro exI [of _ ps'] exI [of _ t']) (auto simp: ps1_def)
  qed
qed

text \<open>The bits the loops extract are the bits of the code word.\<close>

lemma and_1_eq_of_bool: "x AND 1 = of_bool (odd (x :: int))"
  by (simp add: and_one_eq mod_2_eq_odd)

lemma js_ushr_and_1:
  "0 \<le> c \<Longrightarrow> c < 2 ^ 31 \<Longrightarrow> i < 32 \<Longrightarrow> js_and (js_ushr c i) 1 = of_bool (bit c i)"
proof -
  assume c: "0 \<le> c" "c < 2 ^ 31" and i: "i < 32"
  have "js_ushr c i = drop_bit i c" using c i by (simp add: js_ushr_def)
  moreover have "0 \<le> drop_bit i c" "drop_bit i c < 2147483648"
    using c zdiv_mono2 [of c 1 "2 ^ i"]
    by (simp_all add: drop_bit_eq_div pos_imp_zdiv_nonneg_iff)
  ultimately show ?thesis by (simp add: js_and_small and_1_eq_of_bool bit_iff_odd_drop_bit)
qed

lemma codeBit_eq: "s < 257 \<Longrightarrow> i < 32 \<Longrightarrow> codeBit (huffCode s) i = of_bool (bit (huffCode s) i)"
  using huffCode_range [of s] by (simp add: codeBit_def js_ushr_and_1)

lemma byteBit_eq: "i < 32 \<Longrightarrow> byteBit b i = of_bool (bit b i)"
proof -
  assume "i < 32"
  then have "byteBit b i = of_bool (bit (uint b) i)"
    using uint_byte_less [of "2 ^ 31" b] by (simp add: byteBit_def js_ushr_and_1)
  then show ?thesis using bit_imp_le_length [of b i] by (auto simp: bit_uint_iff)
qed

lemma fold_code_bits:
  assumes "s < 257"
  shows "fold (\<lambda>i. f (codeBit (huffCode s) i)) (rev [0..<huffLen s]) x =
         fold (\<lambda>b. f (of_bool b)) (code_bits s) x"
proof -
  have "fold (\<lambda>i. f (codeBit (huffCode s) i)) (rev [0..<huffLen s]) x =
        fold (\<lambda>i. f (of_bool (bit (huffCode s) i))) (rev [0..<huffLen s]) x"
    using assms huffLen_range [OF assms] by (intro fold_cong) (auto simp: codeBit_eq)
  also have "\<dots> = fold (\<lambda>b. f (of_bool b)) (map (bit (huffCode s)) (rev [0..<huffLen s])) x"
    by (simp add: fold_map comp_def)
  finally show ?thesis by (simp add: code_bits_def word_bits_def)
qed

text \<open>After \<open>k\<close> symbols the nodes are the prefixes of their code words.\<close>

definition tree_spec :: "nat \<Rightarrow> bool list list \<Rightarrow> huffman_tree \<Rightarrow> bool" where
  "tree_spec k ps t \<longleftrightarrow> node_inv ps t \<and>
     set ps = insert [] {v. \<exists>s<k. prefix v (code_bits s)} \<and>
     (\<forall>s<k. sym_of ps t (code_bits s) = int s) \<and>
     (\<forall>r. (\<forall>s<k. code_bits s \<noteq> r) \<longrightarrow> sym_of ps t r = -1)"

lemma code_bits_inj: "s < 257 \<Longrightarrow> r < 257 \<Longrightarrow> code_bits s = code_bits r \<Longrightarrow> s = r"
  by (rule code_bits_not_prefix) auto

lemma tree_spec_init: "tree_spec 0 [[]] huffman_tree_init"
  by (auto simp: tree_spec_def node_inv_def huffman_tree_init_def sym_of_def)

lemma sym_of_update:
  assumes "node_inv ps t" and "q \<in> set ps"
  shows "sym_of ps (t\<lparr>symbols := (symbols t)[nat (pos ps q) := v]\<rparr>) r =
         (if r = q then v else sym_of ps t r)"
proof -
  have "nat (pos ps r) = nat (pos ps q) \<longleftrightarrow> r = q" if "r \<in> set ps"
    using nth_pos [OF that] nth_pos [OF assms(2)] by metis
  moreover have "nat (pos ps q) < length (symbols t)"
    using assms nat_pos_less [of q ps] by (simp add: node_inv_def)
  ultimately show ?thesis using assms(2) by (auto simp: sym_of_def nth_list_update)
qed

lemma tree_spec_step:
  assumes spec: "tree_spec k ps t" and k: "k < 257"
  shows "\<exists>ps'. tree_spec (Suc k) ps' (buildSymbol k t)"
proof -
  let ?w = "code_bits k"
  have inv: "node_inv ps t" using spec by (simp add: tree_spec_def)
  then have root: "[] \<in> set ps" "pos ps [] = 0" by (simp_all add: node_inv_def)
  from build_path [OF inv root(1), of ?w] obtain ps' t' where
    t': "fold (\<lambda>b. buildStep (of_bool b)) ?w (0, t) = (pos ps' ?w, t')"
    "node_inv ps' t'" "?w \<in> set ps'" "set ps' = set ps \<union> {v. prefix v ?w}"
    "\<forall>r. sym_of ps' t' r = sym_of ps t r"
    using root(2) by auto
  let ?t = "t'\<lparr>symbols := (symbols t')[nat (pos ps' ?w) := int k]\<rparr>"
  have "buildSymbol k t = ?t"
    using fold_code_bits [OF k, of buildStep "(0, t)"] t'(1) by (simp add: buildSymbol_def Let_def)
  moreover have "node_inv ps' ?t" using t'(2) by (simp add: node_inv_def)
  moreover have "set ps' = insert [] {v. \<exists>s<Suc k. prefix v (code_bits s)}"
    using spec t'(4) by (auto simp: tree_spec_def less_Suc_eq)
  moreover have "sym_of ps' ?t (code_bits s) = int s" if "s < Suc k" for s
    using that spec k code_bits_inj [of s k]
    by (auto simp: sym_of_update [OF t'(2,3)] t'(5) tree_spec_def less_Suc_eq)
  moreover have "sym_of ps' ?t r = -1" if "\<forall>s<Suc k. code_bits s \<noteq> r" for r
    using that spec by (auto simp: sym_of_update [OF t'(2,3)] t'(5) tree_spec_def less_Suc_eq)
  ultimately show ?thesis by (auto simp: tree_spec_def)
qed

lemma tree_spec_build:
  "k \<le> 257 \<Longrightarrow> \<exists>ps. tree_spec k ps (fold buildSymbol [0..<k] huffman_tree_init)"
proof (induction k)
  case 0
  then show ?case using tree_spec_init by auto
next
  case (Suc k)
  then show ?case using tree_spec_step by fastforce
qed

lemma buildTree_spec: "\<exists>ps. tree_spec 257 ps buildTree"
  unfolding buildTree_def length_HUFFMAN_CODES by (rule tree_spec_build) simp

section \<open>Decoding a bit string\<close>

lemma word_bits_snoc: "word_bits (2 * c + of_bool b) (Suc n) = word_bits c n @ [b]"
proof (induction n)
  case 0
  then show ?case by (simp add: word_bits_simps bit_0)
next
  case (Suc n)
  have "word_bits (2 * c + of_bool b) (Suc (Suc n)) =
        bit (2 * c + of_bool b) (Suc n) # word_bits (2 * c + of_bool b) (Suc n)"
    by (rule word_bits_simps(2))
  also have "bit (2 * c + of_bool b) (Suc n) = bit c n" by (simp add: bit_Suc)
  finally show ?case unfolding Suc by (simp add: word_bits_simps(2))
qed

lemma word_bits_pad: "word_bits (c * 2 ^ m + (2 ^ m - 1)) (n + m) = word_bits c n @ replicate m True"
proof (induction m)
  case (Suc m)
  have "c * 2 ^ Suc m + (2 ^ Suc m - 1) = 2 * (c * 2 ^ m + (2 ^ m - 1)) + of_bool True"
    by (simp add: algebra_simps)
  then show ?case
    using Suc word_bits_snoc [of "c * 2 ^ m + (2 ^ m - 1)" True "n + m"]
    by (metis add_Suc_right append.assoc replicate_Suc replicate_append_same)
qed simp

definition byte_bits :: "byte \<Rightarrow> bool list" where
  "byte_bits b = word_bits (uint b) 8"

definition dec_state :: "bool list list \<Rightarrow> bytes \<Rightarrow> bool list \<Rightarrow> int \<Rightarrow> nat \<Rightarrow> huffman_decoder" where
  "dec_state ps out q tr n =
     \<lparr>dec_output = out, dec_node = pos ps q, dec_trailing = tr, dec_trailingBits = n\<rparr>"

lemma tree_spec_node_iff:
  "tree_spec 257 ps t \<Longrightarrow> q \<in> set ps \<longleftrightarrow> q = [] \<or> (\<exists>s<257. prefix q (code_bits s))"
  by (auto simp: tree_spec_def)

lemma tree_spec_symbol:
  assumes "tree_spec 257 ps t" and "q \<in> set ps"
  shows "js_or_else (js_at (symbols t) (pos ps q)) (-1) = sym_of ps t q"
  using assms pos_bounds [of ps q]
  by (auto simp: tree_spec_def node_inv_def sym_of_def js_at_def pos_nonneg_iff)

lemma decodeBit_eq:
  assumes spec: "tree_spec 257 ps t" and q: "q @ [b] \<in> set ps"
  defines "symbol \<equiv> sym_of ps t (q @ [b])"
  shows "decodeBit t m (of_bool b) (dec_state ps out q tr n) =
     (if symbol < 0
      then Inr (dec_state ps out (q @ [b]) (js_or (js_shl tr 1) (of_bool b)) (n + 1))
      else if symbol = 256 then Inl ProtocolError
      else if int (length out) \<ge> m then Inl LimitError
      else Inr (dec_state ps (out @ [to_uint8 symbol]) [] 0 0))"
proof -
  have inv: "node_inv ps t" using spec by (simp add: tree_spec_def)
  then have qs: "q \<in> set ps" and root: "pos ps [] = 0" using q by (auto simp: node_inv_def)
  have child: "childOf t (pos ps q) (of_bool b) = pos ps (q @ [b])"
    using inv qs by (rule node_inv_child)
  have nn: "\<not> pos ps (q @ [b]) < 0" using q pos_nonneg_iff [of ps "q @ [b]"] by simp
  show ?thesis
    using child nn root tree_spec_symbol [OF spec q]
    by (simp add: decodeBit_def dec_state_def Let_def symbol_def)
qed

lemma decodeBit_inner:
  assumes "tree_spec 257 ps t" and "q @ [b] \<in> set ps" and "\<not> (\<exists>s<257. code_bits s = q @ [b])"
  shows "decodeBit t m (of_bool b) (dec_state ps out q tr n) =
     Inr (dec_state ps out (q @ [b]) (js_or (js_shl tr 1) (of_bool b)) (n + 1))"
proof -
  have "sym_of ps t (q @ [b]) = -1" using assms by (simp add: tree_spec_def)
  then show ?thesis using decodeBit_eq [OF assms(1,2)] by simp
qed

lemma decodeBit_final:
  assumes "tree_spec 257 ps t" and "q @ [b] \<in> set ps" and "s < 256" "code_bits s = q @ [b]"
  shows "decodeBit t m (of_bool b) (dec_state ps out q tr n) =
     (if int (length out) \<ge> m then Inl LimitError
      else Inr (dec_state ps (out @ [word_of_nat s]) [] 0 0))"
proof -
  have "sym_of ps t (q @ [b]) = int s"
    using assms(1,3) unfolding tree_spec_def assms(4) [symmetric] by auto
  then show ?thesis
    using decodeBit_eq [OF assms(1,2)] assms(3) by (simp add: to_uint8_def)
qed

lemma decode_code_word:
  assumes spec: "tree_spec 257 ps t" and s: "s < 256" and w: "q @ w = code_bits s" "w \<noteq> []"
  shows "res_fold (\<lambda>b. decodeBit t m (of_bool b)) w (dec_state ps out q tr n) =
     (if int (length out) \<ge> m then Inl LimitError
      else Inr (dec_state ps (out @ [word_of_nat s]) [] 0 0))"
  using w
proof (induction w arbitrary: q tr n)
  case (Cons b w)
  have node: "q @ [b] \<in> set ps"
    using spec s Cons.prems(1) by (auto simp: tree_spec_node_iff intro!: exI [of _ s] prefixI [of _ _ w])
  show ?case
  proof (cases "w = []")
    case True
    then have "code_bits s = q @ [b]" using Cons.prems(1) by simp
    then show ?thesis using decodeBit_final [OF spec node s] True by simp
  next
    case False
    have "\<not> (\<exists>r<257. code_bits r = q @ [b])"
    proof
      assume "\<exists>r<257. code_bits r = q @ [b]"
      then obtain r where r: "r < 257" "code_bits r = q @ [b]" by blast
      then have "prefix (code_bits r) (code_bits s)" using Cons.prems(1) by (simp flip: Cons.prems(1))
      then have "r = s" using r(1) s by (intro code_bits_not_prefix) auto
      with r(2) Cons.prems(1) False show False by simp
    qed
    then show ?thesis
      using decodeBit_inner [OF spec node] Cons.IH [of "q @ [b]"] Cons.prems(1) False
      by simp
  qed
qed simp

lemma decode_code_words:
  assumes spec: "tree_spec 257 ps t"
  shows "res_fold (\<lambda>b. decodeBit t m (of_bool b)) (concat (map (\<lambda>b. code_bits (unat b)) input))
           (dec_state ps out [] 0 0) =
     (if int (length out + length input) \<le> m \<or> input = []
      then Inr (dec_state ps (out @ input) [] 0 0) else Inl LimitError)"
proof (induction input arbitrary: out)
  case (Cons b input)
  have "unat b < 256" by (rule unat_byte_less)
  then have "0 < huffLen (unat b)" using huffLen_range [of "unat b"] by simp
  then have ne: "code_bits (unat b) \<noteq> []" by (simp add: code_bits_def word_bits_def)
  note word = decode_code_word [OF spec \<open>unat b < 256\<close> append_Nil ne, of m out 0 0]
  show ?case using word Cons.IH [of "out @ [b]"] by (auto simp: res_fold_append)
qed simp

lemma decode_padding:
  assumes spec: "tree_spec 257 ps t" and "k \<le> 7"
  shows "res_fold (\<lambda>b. decodeBit t m (of_bool b)) (replicate k True) (dec_state ps out [] 0 0) =
     Inr (dec_state ps out (replicate k True) (2 ^ k - 1) k)"
  using assms(2)
proof (induction k)
  case (Suc k)
  have k7: "k \<le> 6" using Suc.prems by simp
  have pre: "prefix (replicate j True) (code_bits 256)" if "j \<le> 30" for j
    using that by (auto simp: code_bits_EOS prefix_def replicate_add [symmetric] intro!: exI [of _ "replicate (30 - j) True"])
  have node: "replicate k True @ [True] \<in> set ps"
    using spec pre [of "Suc k"] k7 unfolding tree_spec_node_iff [OF spec]
    by (auto simp: replicate_append_same intro!: exI [of _ 256])
  have "\<not> (\<exists>r<257. code_bits r = replicate k True @ [True])"
  proof
    assume "\<exists>r<257. code_bits r = replicate k True @ [True]"
    then obtain r where r: "r < 257" "code_bits r = replicate (Suc k) True"
      by (auto simp: replicate_append_same)
    then have "r = 256" using pre [of "Suc k"] k7 by (intro code_bits_not_prefix) auto
    then have "length (code_bits 256) = Suc k" using r(2) by simp
    then show False using k7 by (simp add: code_bits_EOS)
  qed
  moreover have "js_or (js_shl (2 ^ k - 1) 1) 1 = 2 ^ Suc k - 1"
  proof -
    have "(2 :: int) ^ k \<le> 2 ^ 6" using k7 by (intro power_increasing) auto
    then show ?thesis using js_or_shl [of "2 ^ k - 1" 1 1] by simp
  qed
  ultimately have "decodeBit t m (of_bool True) (dec_state ps out (replicate k True) (2 ^ k - 1) k) =
      Inr (dec_state ps out (replicate k True @ [True]) (2 ^ Suc k - 1) (Suc k))"
    using decodeBit_inner [OF spec node] by simp
  moreover have "replicate (Suc k) True = replicate k True @ [True]"
    by (simp add: replicate_append_same)
  ultimately show ?case
    using Suc by (simp only: res_fold_append) simp
qed (simp add: dec_state_def)

section \<open>Encoding a bit string\<close>

text \<open>
  \<open>enc_rep len bs s\<close>: the encoder state \<open>s\<close>, whose output buffer has \<open>len\<close> bytes, holds
  the bits \<open>bs\<close>: the complete bytes in the buffer and the rest in \<open>current\<close>.
\<close>

definition enc_rep :: "nat \<Rightarrow> bool list \<Rightarrow> huffman_encoder \<Rightarrow> bool" where
  "enc_rep len bs s \<longleftrightarrow>
     length (enc_output s) = len \<and> enc_outputIndex s = length bs div 8 \<and>
     enc_currentBits s = length bs mod 8 \<and>
     0 \<le> enc_current s \<and> enc_current s < 2 ^ enc_currentBits s \<and>
     concat (map byte_bits (take (enc_outputIndex s) (enc_output s))) @
       word_bits (enc_current s) (enc_currentBits s) = bs"

lemma enc_rep_step:
  assumes rep: "enc_rep len bs s" and room: "length bs div 8 < len"
  shows "enc_rep len (bs @ [b]) (encodeBit (of_bool b) s)"
proof -
  let ?c = "enc_current s" and ?n = "enc_currentBits s"
  have n: "?n = length bs mod 8" "?n < 8" and c: "0 \<le> ?c" "?c < 2 ^ ?n"
    and idx: "enc_outputIndex s = length bs div 8" and len: "length (enc_output s) = len"
    and bs: "concat (map byte_bits (take (enc_outputIndex s) (enc_output s))) @ word_bits ?c ?n = bs"
    using rep by (auto simp: enc_rep_def)
  have "(2 :: int) ^ ?n \<le> 2 ^ 7" using n by (intro power_increasing) auto
  then have "?c < 128" using c by simp
  then have cur: "js_or (js_shl ?c 1) (of_bool b) = 2 * ?c + of_bool b"
    using c js_or_shl [of ?c 1 "of_bool b"] by simp
  have bits: "word_bits (2 * ?c + of_bool b) (Suc ?n) = word_bits ?c ?n @ [b]"
    by (rule word_bits_snoc)
  have bs': "concat (map byte_bits (take (length bs div 8) (enc_output s))) @ word_bits ?c ?n @ [b] =
             bs @ [b]"
    using bs idx by (metis append.assoc)
  have enc: "encodeBit (of_bool b) s =
     (if Suc ?n = 8
      then s\<lparr>enc_output := (enc_output s)[length bs div 8 := to_uint8 (2 * ?c + of_bool b)],
             enc_outputIndex := Suc (length bs div 8), enc_current := 0, enc_currentBits := 0\<rparr>
      else s\<lparr>enc_current := 2 * ?c + of_bool b, enc_currentBits := Suc ?n\<rparr>)"
    unfolding encodeBit_def Let_def cur idx by simp
  show ?thesis
  proof (cases "Suc ?n = 8")
    case True
    have "length (bs @ [b]) mod 8 = 0" "length (bs @ [b]) div 8 = Suc (length bs div 8)"
      using n True by (simp_all add: mod_Suc div_Suc)
    moreover have "byte_bits (to_uint8 (2 * ?c + of_bool b)) = word_bits ?c ?n @ [b]"
      using c \<open>?c < 128\<close> bits True by (simp add: byte_bits_def)
    ultimately show ?thesis
      using True room len bs'
      by (simp add: enc_rep_def enc take_Suc_conv_app_nth word_bits_simps)
  next
    case False
    have "length (bs @ [b]) mod 8 = Suc ?n" "length (bs @ [b]) div 8 = length bs div 8"
      using n False by (simp_all add: mod_Suc div_Suc)
    then show ?thesis
      using False c idx len bs' bits
      by (simp add: enc_rep_def enc)
  qed
qed

lemma enc_rep_fold:
  assumes "enc_rep len bs s" and "length bs + length w \<le> 8 * len"
  shows "enc_rep len (bs @ w) (fold (\<lambda>b. encodeBit (of_bool b)) w s)"
  using assms
proof (induction w arbitrary: bs s)
  case (Cons b w)
  have "length bs div 8 < len" using Cons.prems(2) by auto
  with Cons.prems(1) have "enc_rep len (bs @ [b]) (encodeBit (of_bool b) s)" by (rule enc_rep_step)
  from Cons.IH [OF this] Cons.prems(2) show ?case by simp
qed simp

definition input_bits :: "bytes \<Rightarrow> bool list" where
  "input_bits input = concat (map (\<lambda>b. code_bits (unat b)) input)"

lemma huffLen_byte: "huffLen (unat (b :: byte)) \<le> 30"
  using huffLen_range [of "unat b"] unat_byte_less [of b] by simp

lemma length_code_bits [simp]: "length (code_bits s) = huffLen s"
  by (simp add: code_bits_def word_bits_def)

lemma length_input_bits_le: "length (input_bits input) \<le> 30 * length input"
proof (induction input)
  case (Cons b input)
  then show ?case using huffLen_byte [of b] by (simp add: input_bits_def)
qed (simp add: input_bits_def)

lemma fold_input_bits:
  "fold (\<lambda>b. fold (\<lambda>i. encodeBit (codeBit (huffCode (unat b)) i)) (rev [0..<huffLen (unat b)])) input s =
   fold (\<lambda>b. encodeBit (of_bool b)) (input_bits input) s"
proof (induction input arbitrary: s)
  case (Cons b input)
  have "unat b < 257" using unat_byte_less [of b] by simp
  then show ?case using Cons fold_code_bits [of "unat b" encodeBit] by (simp add: input_bits_def)
qed (simp add: input_bits_def)

lemma encodedLength_fold:
  assumes "0 \<le> k" and "k + 30 * int (length input) \<le> MAX_SAFE_INTEGER"
  shows "res_fold (\<lambda>b bits.
      let bits' = bits + int (huffLen (unat b))
      in res_bind (res_guard (js_isSafeInteger bits') LimitError) (\<lambda>_. Inr bits')) input k =
    Inr (k + int (length (input_bits input)))"
  using assms
proof (induction input arbitrary: k)
  case (Cons b input)
  have "int (huffLen (unat b)) \<le> 30" using huffLen_byte [of b] by simp
  moreover have "js_isSafeInteger (k + int (huffLen (unat b)))"
    using Cons.prems calculation by (simp add: js_isSafeInteger_def MAX_SAFE_INTEGER_def)
  ultimately show ?case
    using Cons.prems Cons.IH [of "k + int (huffLen (unat b))"] by (simp add: input_bits_def)
qed (simp add: input_bits_def)

lemma hpackHuffmanEncodedLength_eq:
  assumes "30 * int (length input) \<le> MAX_SAFE_INTEGER"
  shows "hpackHuffmanEncodedLength input = Inr (int ((length (input_bits input) + 7) div 8))"
  using encodedLength_fold [of 0 input] assms
  by (simp add: hpackHuffmanEncodedLength_def Let_def zdiv_int)

definition pad_bits :: "nat \<Rightarrow> nat" where
  "pad_bits n = (8 - n mod 8) mod 8"

lemma div_8_ceiling: "(n + 7) div 8 = (if n mod 8 = 0 then n div 8 else Suc (n div 8))" for n :: nat
proof -
  have "(n + 7) div 8 = n div 8 + (n mod 8 + 7) div 8"
    by (simp add: div_add1_eq [of n 7 8])
  moreover have "n mod 8 < 8" by simp
  moreover have "(m + 7) div 8 = (if m = 0 then 0 else 1)" if "m < 8" for m :: nat
    using that div_add_self2 [of 8 "m - 1"] by (cases m) auto
  ultimately show ?thesis by simp
qed

lemma huffman_last_byte:
  assumes "0 \<le> c" "c < 2 ^ n" "0 < n" "n \<le> 7"
  shows "byte_bits (to_uint8 (js_or (js_shl c (8 - n)) (js_ushr 255 n))) =
         word_bits c n @ replicate (8 - n) True"
proof -
  have n: "n \<in> {1, 2, 3, 4, 5, 6, 7}" using assms(3,4) by auto
  have m: "(2 :: int) ^ n * 2 ^ (8 - n) = 256" "js_ushr 255 n = 2 ^ (8 - n) - 1"
    using n by (auto simp: js_ushr_small)
  have "(c + 1) * 2 ^ (8 - n) \<le> 2 ^ n * 2 ^ (8 - n)" using assms(2) by (intro mult_right_mono) auto
  then have lt: "c * 2 ^ (8 - n) + (2 ^ (8 - n) - 1) < 256" using m(1) by (simp add: algebra_simps)
  moreover have "js_or (js_shl c (8 - n)) (js_ushr 255 n) = c * 2 ^ (8 - n) + (2 ^ (8 - n) - 1)"
    unfolding m(2) using assms lt one_le_power [of "2 :: int" "8 - n"] by (intro js_or_shl) linarith+
  ultimately show ?thesis
    using word_bits_pad [of c "8 - n" n] assms by (simp add: byte_bits_def)
qed

lemma encodeHpackHuffman_bits:
  assumes "30 * int (length input) \<le> MAX_SAFE_INTEGER"
  shows "\<exists>enc. encodeHpackHuffman input = Inr enc \<and>
           length enc = (length (input_bits input) + 7) div 8 \<and>
           concat (map byte_bits enc) =
             input_bits input @ replicate (pad_bits (length (input_bits input))) True"
proof -
  let ?bs = "input_bits input"
  define len where "len = (length ?bs + 7) div 8"
  define s where "s = fold (\<lambda>b. encodeBit (of_bool b)) ?bs
    \<lparr>enc_output = replicate len 0, enc_current = 0, enc_currentBits = 0, enc_outputIndex = 0\<rparr>"
  have "length ?bs \<le> 8 * len" unfolding len_def by linarith
  moreover have "enc_rep len [] \<lparr>enc_output = replicate len 0, enc_current = 0,
      enc_currentBits = 0, enc_outputIndex = 0\<rparr>"
    by (simp add: enc_rep_def word_bits_simps)
  ultimately have rep: "enc_rep len ?bs s"
    using enc_rep_fold [of len "[]" _ ?bs] by (simp add: s_def)
  let ?n = "enc_currentBits s" and ?c = "enc_current s" and ?out = "enc_output s"
  let ?last = "to_uint8 (js_or (js_shl ?c (8 - ?n)) (js_ushr 255 ?n))"
  have n: "?n = length ?bs mod 8" and idx: "enc_outputIndex s = length ?bs div 8"
    and c: "0 \<le> ?c" "?c < 2 ^ ?n" and out: "length ?out = len"
    and bits: "concat (map byte_bits (take (enc_outputIndex s) ?out)) @ word_bits ?c ?n = ?bs"
    using rep by (auto simp: enc_rep_def)
  have enc: "encodeHpackHuffman input =
      Inr (if ?n \<noteq> 0 then ?out[enc_outputIndex s := ?last] else ?out)"
    using hpackHuffmanEncodedLength_eq [OF assms]
    by (simp add: encodeHpackHuffman_def fold_input_bits s_def len_def Let_def)
  show ?thesis
  proof (cases "?n = 0")
    case True
    then have "len = enc_outputIndex s" using n idx by (simp add: len_def div_8_ceiling)
    with True enc out bits n show ?thesis
      by (auto simp: word_bits_simps len_def pad_bits_def)
  next
    case False
    then have last: "len = Suc (enc_outputIndex s)" using n idx by (simp add: len_def div_8_ceiling)
    have n7: "?n \<le> 7" "0 < ?n" using n False by auto
    have "?out[enc_outputIndex s := ?last] = take (enc_outputIndex s) ?out @ [?last]"
      using out last by (intro list_update_last) simp
    moreover have "concat (map byte_bits (take (enc_outputIndex s) ?out @ [?last])) =
        (concat (map byte_bits (take (enc_outputIndex s) ?out)) @ word_bits ?c ?n) @
          replicate (8 - ?n) True"
      using huffman_last_byte [OF c n7(2,1)] by simp
    moreover have "pad_bits (length ?bs) = 8 - ?n" using n n7 by (simp add: pad_bits_def)
    ultimately show ?thesis
      unfolding bits using False enc out last by (simp add: len_def)
  qed
qed

section \<open>The round trip\<close>

lemma byte_loop_bits:
  "res_fold (\<lambda>b. res_fold (\<lambda>i. f (byteBit b i)) (rev [0..<8])) input s =
   res_fold (\<lambda>b. f (of_bool b)) (concat (map byte_bits input)) s"
proof -
  have "res_fold (\<lambda>i. f (byteBit b i)) (rev [0..<8]) s =
        res_fold (\<lambda>b. f (of_bool b)) (byte_bits b) s" for b s
  proof -
    have "res_fold (\<lambda>i. f (byteBit b i)) (rev [0..<8]) s =
          res_fold (\<lambda>i. f (of_bool (bit (uint b) i))) (rev [0..<8]) s"
      by (intro res_fold_cong) (auto simp: byteBit_eq bit_uint_iff)
    also have "\<dots> = res_fold (\<lambda>b. f (of_bool b)) (byte_bits b) s"
      by (simp add: byte_bits_def word_bits_def res_fold_map)
    finally show ?thesis .
  qed
  then show ?thesis
    by (simp add: res_fold_concat [symmetric] res_fold_map cong: res_fold_cong)
qed

text \<open>
  Decoding the encoding of a string gives the string back, unless it is longer than the
  caller's limit, which is reported as such.
\<close>

lemma decode_encode_huffman:
  assumes "30 * int (length input) \<le> MAX_SAFE_INTEGER"
  shows "\<exists>enc. encodeHpackHuffman input = Inr enc \<and>
           hpackHuffmanEncodedLength input = Inr (int (length enc)) \<and>
           decodeHpackHuffman enc m =
             (if int (length input) \<le> m \<or> input = [] then Inr input else Inl LimitError)"
proof -
  obtain enc where enc: "encodeHpackHuffman input = Inr enc"
    "length enc = (length (input_bits input) + 7) div 8"
    "concat (map byte_bits enc) = input_bits input @ replicate (pad_bits (length (input_bits input))) True"
    using encodeHpackHuffman_bits [OF assms] by blast
  obtain ps where spec: "tree_spec 257 ps buildTree" using buildTree_spec by blast
  define k where "k = pad_bits (length (input_bits input))"
  have k: "k \<le> 7" by (simp add: k_def pad_bits_def)
  have start: "\<lparr>dec_output = [], dec_node = 0, dec_trailing = 0, dec_trailingBits = 0\<rparr> =
      dec_state ps [] [] 0 0"
    using spec by (simp add: dec_state_def tree_spec_def node_inv_def)
  have "(2 :: int) ^ k \<le> 2 ^ 7" using k by (intro power_increasing) auto
  then have shift: "js_shl 1 k = 2 ^ k" using k js_shl_small [of 1 k] by simp
  have "decodeHpackHuffman enc m =
      (if int (length input) \<le> m \<or> input = [] then Inr input else Inl LimitError)"
    using decode_code_words [OF spec, of m input "[]"] decode_padding [OF spec k, of m input] shift k
    unfolding decodeHpackHuffman_def byte_loop_bits start enc(3) res_fold_append k_def [symmetric]
      input_bits_def [symmetric]
    by (auto simp: dec_state_def)
  then show ?thesis
    using enc hpackHuffmanEncodedLength_eq [OF assms] by auto
qed

lemma decodeHpackHuffman_bound:
  assumes "decodeHpackHuffman input m = Inr out"
  shows "int (length out) \<le> max 0 m"
proof -
  obtain s where s: "res_fold (\<lambda>b. res_fold (\<lambda>i. decodeBit buildTree m (byteBit b i)) (rev [0..<8])) input
      \<lparr>dec_output = [], dec_node = 0, dec_trailing = 0, dec_trailingBits = 0\<rparr> = Inr s" "out = dec_output s"
    using assms by (auto simp: decodeHpackHuffman_def res_bind_Inr_iff)
  let ?I = "\<lambda>s. int (length (dec_output s)) \<le> max 0 m"
  have bit: "?I s'" if "decodeBit buildTree m bt s = Inr s'" "?I s" for bt s s'
    using that by (auto simp: decodeBit_def Let_def res_bind_Inr_iff split: if_splits)
  have byte: "?I s'" if "res_fold (\<lambda>i. decodeBit buildTree m (byteBit b i)) (rev [0..<8]) s = Inr s'" "?I s"
    for b s s'
    by (rule res_fold_inv [OF that(1), where I = ?I]) (rule that(2), rule bit)
  have "?I s" by (rule res_fold_inv [OF s(1), where I = ?I]) (simp, rule byte)
  with s(2) show ?thesis by simp
qed

lemma decodeBit_error: "decodeBit t m bt s = Inl e \<Longrightarrow> e = ProtocolError \<or> e = LimitError"
  by (auto simp: decodeBit_def Let_def res_bind_Inl_iff split: if_splits)

lemma decodeHpackHuffman_error:
  "decodeHpackHuffman input m = Inl e \<Longrightarrow> e = ProtocolError \<or> e = LimitError"
  by (auto simp: decodeHpackHuffman_def res_bind_Inl_iff dest!: res_fold_error decodeBit_error)

section \<open>Properties\<close>

interpretation huffman: codec encodeHpackHuffman
    "\<lambda>enc. decodeHpackHuffman enc MAX_SAFE_INTEGER" "\<lambda>input. 30 * int (length input) \<le> MAX_SAFE_INTEGER"
proof
  fix input :: bytes
  assume "30 * int (length input) \<le> MAX_SAFE_INTEGER"
  from decode_encode_huffman [OF this, of MAX_SAFE_INTEGER] this
  show "res_bind (encodeHpackHuffman input) (\<lambda>enc. decodeHpackHuffman enc MAX_SAFE_INTEGER) = Inr input"
    by auto
qed

text \<open>
  C4: Huffman coding loses nothing: the decoder, which walks a tree built from the code table,
  returns the bytes the encoder packed, unless they exceed the caller's limit, which it reports;
  and \<^verbatim>\<open>hpackHuffmanEncodedLength\<close> is the number of bytes the encoder produces. The bound on the
  input is the one below which the encoder's bit count is a safe integer.
\<close>

theorem hpack_huffman_roundtrip:
  assumes "30 * int (length input) \<le> MAX_SAFE_INTEGER"
  shows "res_bind (encodeHpackHuffman input) (\<lambda>enc. decodeHpackHuffman enc m) =
           (if int (length input) \<le> m \<or> input = [] then Inr input else Inl LimitError) \<and>
         hpackHuffmanEncodedLength input =
           res_bind (encodeHpackHuffman input) (\<lambda>enc. Inr (int (length enc)))"
  using decode_encode_huffman [OF assms, of m] by auto

theorem hpack_huffman_roundtrip_witness:
  "res_bind (encodeHpackHuffman [0x77, 0x77, 0x00, 0xff]) (\<lambda>enc. decodeHpackHuffman enc 4) =
     Inr [0x77, 0x77, 0x00, 0xff]"
  using hpack_huffman_roundtrip [of "[0x77, 0x77, 0x00, 0xff]" 4] by (simp add: MAX_SAFE_INTEGER_def)

text \<open>
  On any input, what the Huffman decoder returns is within the caller's limit, so a small
  compressed string cannot expand without bound, and the only errors are the protocol error (a
  bad code word or bad padding) and the limit error.
\<close>

theorem hpack_huffman_limit:
  "case decodeHpackHuffman input m of
     Inr out \<Rightarrow> int (length out) \<le> max 0 m
   | Inl e \<Rightarrow> e = ProtocolError \<or> e = LimitError"
  using decodeHpackHuffman_bound [of input m] decodeHpackHuffman_error [of input m]
  by (simp split: sum.splits)

end
