(* ===== verification/Hpack.thy ===== *)
theory Hpack
  imports Byte_Strings Hpack_Huffman
begin

text \<open>
  HPACK header compression, \<^verbatim>\<open>runtime/web-platform/src/http2/hpack.ts\<close>: the static and dynamic
  tables, the prefix-integer and string codings, \<^verbatim>\<open>HpackDecoder\<close> and \<^verbatim>\<open>HpackEncoder\<close>. A class is a
  record; a method that changes the object returns the new one, also when it throws, because a
  thrown error does not undo the changes made before it.
\<close>

section \<open>The static table\<close>

definition STATIC_NAMES :: "jsstring list" where
  "STATIC_NAMES = map js_string [
    '':authority'', '':method'', '':method'', '':path'', '':path'', '':scheme'', '':scheme'',
    '':status'', '':status'', '':status'', '':status'', '':status'', '':status'', '':status'',
    ''accept-charset'', ''accept-encoding'', ''accept-language'', ''accept-ranges'', ''accept'',
    ''access-control-allow-origin'', ''age'', ''allow'', ''authorization'', ''cache-control'',
    ''content-disposition'', ''content-encoding'', ''content-language'', ''content-length'',
    ''content-location'', ''content-range'', ''content-type'', ''cookie'', ''date'', ''etag'',
    ''expect'', ''expires'', ''from'', ''host'', ''if-match'', ''if-modified-since'',
    ''if-none-match'', ''if-range'', ''if-unmodified-since'', ''last-modified'', ''link'',
    ''location'', ''max-forwards'', ''proxy-authenticate'', ''proxy-authorization'', ''range'',
    ''referer'', ''refresh'', ''retry-after'', ''server'', ''set-cookie'',
    ''strict-transport-security'', ''transfer-encoding'', ''user-agent'', ''vary'', ''via'',
    ''www-authenticate'']"

definition STATIC_VALUES :: "jsstring list" where
  "STATIC_VALUES = map js_string [
    '''', ''GET'', ''POST'', ''/'', ''/index.html'', ''http'', ''https'', ''200'', ''204'',
    ''206'', ''304'', ''400'', ''404'', ''500'', '''', ''gzip, deflate'', '''', '''', '''', '''',
    '''', '''', '''', '''', '''', '''', '''', '''', '''', '''', '''', '''', '''', '''', '''', '''',
    '''', '''', '''', '''', '''', '''', '''', '''', '''', '''', '''', '''', '''', '''', '''', '''',
    '''', '''', '''', '''', '''', '''', '''', '''', '''']"

definition STATIC_TABLE_LENGTH :: nat where
  "STATIC_TABLE_LENGTH = 61"

definition MAX_HPACK_INTEGER :: int where
  "MAX_HPACK_INTEGER = 0x7fffffff"

definition requireNonnegativeInteger :: "int \<Rightarrow> unit result" where
  "requireNonnegativeInteger n =
     res_guard (\<not> (\<not> js_isSafeInteger n \<or> n < 0 \<or> n > MAX_HPACK_INTEGER)) RangeError"

definition byteStringLength :: "jsstring \<Rightarrow> int result" where
  "byteStringLength s =
     res_bind (res_fold (\<lambda>u _. res_guard (\<not> uint u > 255) TypeError) s ()) (\<lambda>_. Inr (int (length s)))"

definition entrySize :: "jsstring \<Rightarrow> jsstring \<Rightarrow> int result" where
  "entrySize name v =
     res_bind (byteStringLength name) (\<lambda>a. res_bind (byteStringLength v) (\<lambda>b. Inr (a + b + 32)))"

record stored_header =
  sh_name :: jsstring
  sh_value :: jsstring
  sh_size :: int

definition staticEntry :: "int \<Rightarrow> stored_header option" where
  "staticEntry index =
     (if index < 1 \<or> index > int STATIC_TABLE_LENGTH then None
      else case (js_at STATIC_NAMES (index - 1), js_at STATIC_VALUES (index - 1)) of
        (Some name, Some v) \<Rightarrow>
          Some \<lparr>sh_name = name, sh_value = v, sh_size = int (length name) + int (length v) + 32\<rparr>
      | _ \<Rightarrow> None)"

section \<open>The dynamic table\<close>

record dynamic_table =
  stored :: "stored_header list"
  storedBytes :: int
  capacityBytes :: int

definition newDynamicTable :: "int \<Rightarrow> dynamic_table" where
  "newDynamicTable capacity = \<lparr>stored = [], storedBytes = 0, capacityBytes = capacity\<rparr>"

definition table_get :: "dynamic_table \<Rightarrow> int \<Rightarrow> stored_header option" where
  "table_get t index = js_at (stored t) (index - 1)"

text \<open>The newest entry is at the front; eviction removes from the back.\<close>

function evictTo :: "int \<Rightarrow> dynamic_table \<Rightarrow> dynamic_table" where
  "evictTo target t =
     (if storedBytes t > target \<and> stored t \<noteq> []
      then evictTo target (t\<lparr>stored := butlast (stored t),
                             storedBytes := storedBytes t - sh_size (last (stored t))\<rparr>)
      else t)"
  by pat_completeness auto
termination
  by (relation "measure (\<lambda>(_, t). length (stored t))") auto

declare evictTo.simps [simp del]

definition setCapacity :: "int \<Rightarrow> dynamic_table \<Rightarrow> dynamic_table" where
  "setCapacity capacity t = evictTo capacity (t\<lparr>capacityBytes := capacity\<rparr>)"

definition table_insert :: "jsstring \<Rightarrow> jsstring \<Rightarrow> dynamic_table \<Rightarrow> dynamic_table result" where
  "table_insert name v t =
     res_bind (entrySize name v) (\<lambda>size.
       if size > capacityBytes t then Inr (t\<lparr>stored := [], storedBytes := 0\<rparr>)
       else let t' = evictTo (capacityBytes t - size) t
            in Inr (t'\<lparr>stored := \<lparr>sh_name = name, sh_value = v, sh_size = size\<rparr> # stored t',
                       storedBytes := storedBytes t' + size\<rparr>))"

text \<open>The search loops: the one-based position of the first match, or \<open>0\<close>.\<close>

fun search_from :: "('a \<Rightarrow> bool) \<Rightarrow> 'a list \<Rightarrow> int \<Rightarrow> int" where
  "search_from p [] i = 0"
| "search_from p (x # xs) i = (if p x then i + 1 else search_from p xs (i + 1))"

definition table_find :: "dynamic_table \<Rightarrow> jsstring \<Rightarrow> jsstring \<Rightarrow> int" where
  "table_find t name v = search_from (\<lambda>e. sh_name e = name \<and> sh_value e = v) (stored t) 0"

definition table_findName :: "dynamic_table \<Rightarrow> jsstring \<Rightarrow> int" where
  "table_findName t name = search_from (\<lambda>e. sh_name e = name) (stored t) 0"

section \<open>Integers and strings\<close>

definition readByte :: "bytes \<Rightarrow> nat \<Rightarrow> (byte \<times> nat) result" where
  "readByte bs offset =
     (case js_at bs (int offset) of None \<Rightarrow> Inl ProtocolError | Some b \<Rightarrow> Inr (b, offset + 1))"

text \<open>The continuation loop of \<^verbatim>\<open>decodeHpackInteger\<close>; the first argument is \<open>5 - octets\<close>.\<close>

fun decodeIntegerLoop :: "nat \<Rightarrow> bytes \<Rightarrow> int \<Rightarrow> nat \<Rightarrow> nat \<Rightarrow> (int \<times> nat) result" where
  "decodeIntegerLoop 0 bs v shift offset = Inl ProtocolError"
| "decodeIntegerLoop (Suc n) bs v shift offset =
     res_bind (readByte bs offset) (\<lambda>(b, offset').
       let part = js_and (uint b) 127 * 2 ^ shift
       in if \<not> js_isSafeInteger part \<or> part > MAX_HPACK_INTEGER - v then Inl ProtocolError
          else if js_and (uint b) 128 = 0 then Inr (v + part, offset')
          else decodeIntegerLoop n bs (v + part) (shift + 7) offset')"

definition decodeHpackInteger :: "bytes \<Rightarrow> nat \<Rightarrow> nat \<Rightarrow> (int \<times> nat) result" where
  "decodeHpackInteger bs offset prefixBits =
     res_bind (res_guard (\<not> (prefixBits < 1 \<or> prefixBits > 8)) RangeError) (\<lambda>_.
     let prefixMask = 2 ^ prefixBits - 1
     in res_bind (readByte bs offset) (\<lambda>(first, offset').
        let v = js_and (uint first) prefixMask
        in if v < prefixMask then Inr (v, offset')
           else decodeIntegerLoop 5 bs v 0 offset'))"

function writeRemainder :: "int \<Rightarrow> int list" where
  "writeRemainder remainder =
     (if remainder \<ge> 128 then (remainder mod 128 + 128) # writeRemainder (remainder div 128)
      else [remainder])"
  by pat_completeness auto
termination
  by (relation "measure nat") auto

declare writeRemainder.simps [simp del]

text \<open>\<^verbatim>\<open>writeInteger\<close> and \<^verbatim>\<open>writeString\<close> return the numbers they push onto the output.\<close>

definition writeInteger :: "int \<Rightarrow> nat \<Rightarrow> int \<Rightarrow> int list result" where
  "writeInteger v prefixBits pfx =
     res_bind (requireNonnegativeInteger v) (\<lambda>_.
     let prefixMask = 2 ^ prefixBits - 1
     in if v < prefixMask then Inr [js_or pfx v]
        else Inr (js_or pfx prefixMask # writeRemainder (v - prefixMask)))"

definition writeString :: "jsstring \<Rightarrow> bool \<Rightarrow> int list result" where
  "writeString v useHuffman =
     res_bind (encodeByteString v) (\<lambda>bs.
     res_bind (hpackHuffmanEncodedLength bs) (\<lambda>encodedLength.
     if useHuffman \<and> encodedLength < int (length bs)
     then res_bind (encodeHpackHuffman bs) (\<lambda>encoded.
          res_bind (writeInteger (int (length encoded)) 7 128) (\<lambda>out.
          Inr (out @ map uint encoded)))
     else res_bind (writeInteger (int (length bs)) 7 0) (\<lambda>out. Inr (out @ map uint bs))))"

record hpack_limits =
  maxHeaderListBytes :: int
  maxStringBytes :: int

definition defaultHpackLimits :: hpack_limits where
  "defaultHpackLimits = \<lparr>maxHeaderListBytes = 64 * 1024, maxStringBytes = 64 * 1024\<rparr>"

definition readString :: "bytes \<Rightarrow> nat \<Rightarrow> hpack_limits \<Rightarrow> (jsstring \<times> nat) result" where
  "readString bs offset limits =
     (let huffman = js_and (uint (js_or_else (js_at bs (int offset)) 0)) 128 \<noteq> 0
      in res_bind (decodeHpackInteger bs offset 7) (\<lambda>(len, offset').
         if len > maxStringBytes limits then Inl LimitError
         else if len > int (length bs) - int offset' then Inl ProtocolError
         else let part = js_slice bs offset' (offset' + nat len); offset'' = offset' + nat len
              in if \<not> huffman then Inr (latin1 part, offset'')
                 else res_bind (decodeHpackHuffman part (maxStringBytes limits))
                        (\<lambda>decoded. Inr (latin1 decoded, offset''))))"

definition findStatic :: "jsstring \<Rightarrow> jsstring \<Rightarrow> int" where
  "findStatic name v =
     search_from (\<lambda>i. js_at STATIC_NAMES (int i) = Some name \<and> js_at STATIC_VALUES (int i) = Some v)
       [0..<STATIC_TABLE_LENGTH] 0"

definition findStaticName :: "jsstring \<Rightarrow> int" where
  "findStaticName name =
     search_from (\<lambda>i. js_at STATIC_NAMES (int i) = Some name) [0..<STATIC_TABLE_LENGTH] 0"

definition isSensitiveHeaderName :: "jsstring \<Rightarrow> bool" where
  "isSensitiveHeaderName name \<longleftrightarrow>
     name = js_string ''authorization'' \<or> name = js_string ''proxy-authorization'' \<or>
     name = js_string ''cookie'' \<or> name = js_string ''set-cookie''"

definition resolveIndex :: "dynamic_table \<Rightarrow> int \<Rightarrow> stored_header result" where
  "resolveIndex t index =
     (if index = 0 then Inl ProtocolError
      else case staticEntry index of
        Some fixed \<Rightarrow> Inr fixed
      | None \<Rightarrow>
          (case table_get t (index - int STATIC_TABLE_LENGTH) of
             None \<Rightarrow> Inl ProtocolError
           | Some dynamic \<Rightarrow> Inr dynamic))"

definition readLiteral ::
    "bytes \<Rightarrow> nat \<Rightarrow> dynamic_table \<Rightarrow> nat \<Rightarrow> hpack_limits \<Rightarrow> (jsstring \<times> jsstring \<times> nat) result" where
  "readLiteral bs offset t prefixBits limits =
     res_bind (decodeHpackInteger bs offset prefixBits) (\<lambda>(nameIndex, o1).
     res_bind (if nameIndex = 0 then readString bs o1 limits
               else res_bind (resolveIndex t nameIndex) (\<lambda>e. Inr (sh_name e, o1))) (\<lambda>(name, o2).
     res_bind (readString bs o2 limits) (\<lambda>(v, o3). Inr (name, v, o3))))"

definition validateLimits :: "hpack_limits \<Rightarrow> unit result" where
  "validateLimits limits =
     res_bind (requireNonnegativeInteger (maxHeaderListBytes limits)) (\<lambda>_.
     requireNonnegativeInteger (maxStringBytes limits))"

section \<open>The decoder\<close>

record decoded_header =
  dh_name :: jsstring
  dh_value :: jsstring
  dh_neverIndexed :: bool

record hpack_decoder =
  dec_table :: dynamic_table
  maximumAllowedTableSize :: int
  requiredMinimumSize :: "int option"
  dec_limits :: hpack_limits

definition newHpackDecoder :: "int \<Rightarrow> hpack_limits \<Rightarrow> hpack_decoder result" where
  "newHpackDecoder maximumTableSize limits =
     res_bind (requireNonnegativeInteger maximumTableSize) (\<lambda>_.
     res_bind (validateLimits limits) (\<lambda>_.
     Inr \<lparr>dec_table = newDynamicTable maximumTableSize, maximumAllowedTableSize = maximumTableSize,
          requiredMinimumSize = None, dec_limits = limits\<rparr>))"

definition decoder_setMaximumTableSize :: "int \<Rightarrow> hpack_decoder \<Rightarrow> hpack_decoder result" where
  "decoder_setMaximumTableSize maximum d =
     res_bind (requireNonnegativeInteger maximum) (\<lambda>_.
     let d' = (if maximum < capacityBytes (dec_table d)
               then d\<lparr>requiredMinimumSize :=
                       Some (min (js_or_else (requiredMinimumSize d) maximum) maximum)\<rparr>
               else d)
     in Inr (d'\<lparr>maximumAllowedTableSize := maximum\<rparr>))"

text \<open>The variables of the loop of \<^verbatim>\<open>decode\<close>; \<open>hl_table\<close> is the object's own table.\<close>

record hpack_loop =
  hl_offset :: nat
  hl_headers :: "decoded_header list"
  hl_listBytes :: int
  hl_sawHeader :: bool
  hl_sizeUpdates :: nat
  hl_metRequiredMinimum :: bool
  hl_table :: dynamic_table

definition countListBytes :: "hpack_limits \<Rightarrow> int \<Rightarrow> hpack_loop \<Rightarrow> hpack_loop result" where
  "countListBytes limits n s =
     (if hl_listBytes s + n > maxHeaderListBytes limits then Inl LimitError
      else Inr (s\<lparr>hl_listBytes := hl_listBytes s + n\<rparr>))"

definition pushHeader :: "jsstring \<Rightarrow> jsstring \<Rightarrow> bool \<Rightarrow> hpack_loop \<Rightarrow> hpack_loop" where
  "pushHeader name v never s =
     s\<lparr>hl_headers := hl_headers s @ [\<lparr>dh_name = name, dh_value = v, dh_neverIndexed = never\<rparr>]\<rparr>"

definition decodeStep :: "hpack_decoder \<Rightarrow> bytes \<Rightarrow> hpack_loop \<Rightarrow> hpack_loop result" where
  "decodeStep d block s =
     (let limits = dec_limits d; offset = hl_offset s;
          first = uint (js_or_else (js_at block (int offset)) 0)
      in if js_and first 128 \<noteq> 0 then
           (if \<not> hl_metRequiredMinimum s then Inl ProtocolError
            else res_bind (decodeHpackInteger block offset 7) (\<lambda>(index, offset').
                 res_bind (resolveIndex (hl_table s) index) (\<lambda>entry.
                 res_bind (countListBytes limits (sh_size entry) (s\<lparr>hl_sawHeader := True\<rparr>)) (\<lambda>s'.
                 Inr (pushHeader (sh_name entry) (sh_value entry) False (s'\<lparr>hl_offset := offset'\<rparr>))))))
         else if js_and first 64 \<noteq> 0 then
           (if \<not> hl_metRequiredMinimum s then Inl ProtocolError
            else res_bind (readLiteral block offset (hl_table s) 6 limits) (\<lambda>(name, v, offset').
                 res_bind (entrySize name v) (\<lambda>size.
                 res_bind (countListBytes limits size (s\<lparr>hl_sawHeader := True\<rparr>)) (\<lambda>s'.
                 res_bind (table_insert name v (hl_table s')) (\<lambda>t'.
                 Inr (pushHeader name v False (s'\<lparr>hl_offset := offset', hl_table := t'\<rparr>)))))))
         else if js_and first 32 \<noteq> 0 then
           (if hl_sawHeader s then Inl ProtocolError
            else if hl_sizeUpdates s + 1 > 2 then Inl ProtocolError
            else res_bind (decodeHpackInteger block offset 5) (\<lambda>(size, offset').
                 if size > maximumAllowedTableSize d then Inl ProtocolError
                 else if requiredMinimumSize d \<noteq> None \<and> hl_sizeUpdates s + 1 = 1 \<and>
                         size > the (requiredMinimumSize d) then Inl ProtocolError
                 else Inr (s\<lparr>hl_offset := offset', hl_sizeUpdates := hl_sizeUpdates s + 1,
                    hl_metRequiredMinimum :=
                      (hl_metRequiredMinimum s \<or>
                       (requiredMinimumSize d \<noteq> None \<and> hl_sizeUpdates s + 1 = 1)),
                    hl_table := setCapacity size (hl_table s)\<rparr>)))
         else
           (if \<not> hl_metRequiredMinimum s then Inl ProtocolError
            else res_bind (readLiteral block offset (hl_table s) 4 limits) (\<lambda>(name, v, offset').
                 res_bind (entrySize name v) (\<lambda>size.
                 res_bind (countListBytes limits size (s\<lparr>hl_sawHeader := True\<rparr>)) (\<lambda>s'.
                 Inr (pushHeader name v (js_and first 16 \<noteq> 0) (s'\<lparr>hl_offset := offset'\<rparr>)))))))"

text \<open>Every reader moves the cursor forward, so the loop of \<^verbatim>\<open>decode\<close> ends.\<close>

lemma readByte_offset: "readByte bs k = Inr (b, k') \<Longrightarrow> k' = k + 1"
  by (auto simp: readByte_def split: option.splits if_splits)

lemma decodeIntegerLoop_offset: "decodeIntegerLoop n bs v sh k = Inr (r, k') \<Longrightarrow> k < k'"
  by (induction n arbitrary: v sh k)
    (fastforce simp: res_bind_Inr_iff Let_def dest!: readByte_offset split: if_splits)+

lemma decodeHpackInteger_offset: "decodeHpackInteger bs k p = Inr (r, k') \<Longrightarrow> k < k'"
  by (auto simp: decodeHpackInteger_def res_bind_Inr_iff Let_def split: if_splits
      dest!: readByte_offset decodeIntegerLoop_offset)

lemma readString_offset: "readString bs k limits = Inr (r, k') \<Longrightarrow> k < k'"
  by (auto simp: readString_def res_bind_Inr_iff Let_def split: if_splits
      dest!: decodeHpackInteger_offset)

lemma readLiteral_offset: "readLiteral bs k t p limits = Inr (name, v, k') \<Longrightarrow> k < k'"
  by (fastforce simp: readLiteral_def res_bind_Inr_iff split: if_splits
      dest!: decodeHpackInteger_offset readString_offset)

lemma decodeStep_offset: "decodeStep d block s = Inr s' \<Longrightarrow> hl_offset s < hl_offset s'"
  by (auto simp: decodeStep_def Let_def res_bind_Inr_iff pushHeader_def countListBytes_def
      split: if_splits dest!: decodeHpackInteger_offset readLiteral_offset)

text \<open>The loop: the error that ended it, if any, and the variables at that point.\<close>

function decodeLoop :: "hpack_decoder \<Rightarrow> bytes \<Rightarrow> hpack_loop \<Rightarrow> js_error option \<times> hpack_loop" where
  "decodeLoop d block s =
     (if hl_offset s < length block
      then (case decodeStep d block s of
              Inl e \<Rightarrow> (Some e, s)
            | Inr s' \<Rightarrow> decodeLoop d block s')
      else (None, s))"
  by pat_completeness auto
termination
  by (relation "measure (\<lambda>(d, block, s). length block - hl_offset s)")
    (auto dest: decodeStep_offset)

declare decodeLoop.simps [simp del]

definition decodeLoop_start :: "hpack_decoder \<Rightarrow> hpack_loop" where
  "decodeLoop_start d =
     \<lparr>hl_offset = 0, hl_headers = [], hl_listBytes = 0, hl_sawHeader = False, hl_sizeUpdates = 0,
      hl_metRequiredMinimum = (requiredMinimumSize d = None), hl_table = dec_table d\<rparr>"

definition decode :: "bytes \<Rightarrow> hpack_decoder \<Rightarrow> decoded_header list result \<times> hpack_decoder" where
  "decode block d =
     (let (err, s) = decodeLoop d block (decodeLoop_start d); d' = d\<lparr>dec_table := hl_table s\<rparr>
      in case err of
           Some e \<Rightarrow> (Inl e, d')
         | None \<Rightarrow>
             (if \<not> hl_metRequiredMinimum s then (Inl ProtocolError, d')
              else (Inr (hl_headers s), d'\<lparr>requiredMinimumSize := None\<rparr>)))"

section \<open>The encoder\<close>

datatype hpack_indexing = Incremental | Without | Never

record hpack_field =
  hf_name :: jsstring
  hf_value :: jsstring
  hf_indexing :: "hpack_indexing option"

record hpack_encoder =
  enc_table :: dynamic_table
  pendingMinimumSize :: "int option"
  pendingFinalSize :: "int option"
  useHuffman :: bool

definition newHpackEncoder :: "int \<Rightarrow> bool \<Rightarrow> hpack_encoder result" where
  "newHpackEncoder maximumTableSize huffman =
     res_bind (requireNonnegativeInteger maximumTableSize) (\<lambda>_.
     Inr \<lparr>enc_table = newDynamicTable maximumTableSize, pendingMinimumSize = None,
          pendingFinalSize = None, useHuffman = huffman\<rparr>)"

definition encoder_set_huffman :: "bool \<Rightarrow> hpack_encoder \<Rightarrow> hpack_encoder" where
  "encoder_set_huffman v e = e\<lparr>useHuffman := v\<rparr>"

definition encoder_setMaximumTableSize :: "int \<Rightarrow> hpack_encoder \<Rightarrow> hpack_encoder result" where
  "encoder_setMaximumTableSize maximum e =
     res_bind (requireNonnegativeInteger maximum) (\<lambda>_.
     Inr (e\<lparr>pendingMinimumSize := Some (min (js_or_else (pendingMinimumSize e) maximum) maximum),
            pendingFinalSize := Some maximum,
            enc_table := setCapacity maximum (enc_table e)\<rparr>))"

text \<open>The size updates written at the start of a block.\<close>

definition writePending :: "hpack_encoder \<Rightarrow> int list result" where
  "writePending e =
     (case pendingFinalSize e of
        None \<Rightarrow> Inr []
      | Some final \<Rightarrow>
          (let minimum = js_or_else (pendingMinimumSize e) final
           in res_bind (writeInteger minimum 5 32) (\<lambda>a.
              res_bind (if minimum \<noteq> final then writeInteger final 5 32 else Inr []) (\<lambda>b.
              Inr (a @ b)))))"

definition fieldIndexing :: "hpack_field \<Rightarrow> hpack_indexing" where
  "fieldIndexing f =
     js_or_else (hf_indexing f) (if isSensitiveHeaderName (hf_name f) then Never else Incremental)"

definition exactIndex :: "dynamic_table \<Rightarrow> jsstring \<Rightarrow> jsstring \<Rightarrow> int" where
  "exactIndex t name v =
     (let fixed = findStatic name v; dynamic = (if fixed = 0 then table_find t name v else 0)
      in if fixed \<noteq> 0 then fixed else if dynamic = 0 then 0 else int STATIC_TABLE_LENGTH + dynamic)"

definition nameIndexOf :: "dynamic_table \<Rightarrow> jsstring \<Rightarrow> int" where
  "nameIndexOf t name =
     (let fixed = findStaticName name; dynamic = (if fixed = 0 then table_findName t name else 0)
      in if fixed \<noteq> 0 then fixed else if dynamic = 0 then 0 else int STATIC_TABLE_LENGTH + dynamic)"

text \<open>One iteration of the loop of \<^verbatim>\<open>encode\<close>: the numbers it pushes and the new table.\<close>

definition encodeField :: "bool \<Rightarrow> hpack_field \<Rightarrow> dynamic_table \<Rightarrow> (int list \<times> dynamic_table) result" where
  "encodeField huffman f t =
     (let name = hf_name f; v = hf_value f; indexing = fieldIndexing f
      in res_bind (byteStringLength name) (\<lambda>_. res_bind (byteStringLength v) (\<lambda>_.
         if indexing = Incremental \<and> exactIndex t name v \<noteq> 0
         then res_bind (writeInteger (exactIndex t name v) 7 128) (\<lambda>out. Inr (out, t))
         else let nameIndex = nameIndexOf t name;
                  pfx = (if indexing = Incremental then 64 else if indexing = Never then 16 else 0);
                  prefixBits = (if indexing = Incremental then 6 else 4)
              in res_bind (writeInteger nameIndex prefixBits pfx) (\<lambda>a.
                 res_bind (if nameIndex = 0 then writeString name huffman else Inr []) (\<lambda>b.
                 res_bind (writeString v huffman) (\<lambda>c.
                 res_bind (if indexing = Incremental then table_insert name v t else Inr t) (\<lambda>t'.
                 Inr (a @ b @ c, t'))))))))"

fun encodeLoop ::
    "bool \<Rightarrow> hpack_field list \<Rightarrow> int list \<Rightarrow> dynamic_table \<Rightarrow> int list result \<times> dynamic_table" where
  "encodeLoop huffman [] output t = (Inr output, t)"
| "encodeLoop huffman (f # fs) output t =
     (case encodeField huffman f t of
        Inl e \<Rightarrow> (Inl e, t)
      | Inr (out, t') \<Rightarrow> encodeLoop huffman fs (output @ out) t')"

definition encode :: "hpack_field list \<Rightarrow> hpack_encoder \<Rightarrow> bytes result \<times> hpack_encoder" where
  "encode headers e =
     (case writePending e of
        Inl err \<Rightarrow> (Inl err, e)
      | Inr output \<Rightarrow>
          (let (r, t) = encodeLoop (useHuffman e) headers output (enc_table e);
               e' = e\<lparr>pendingMinimumSize := None, pendingFinalSize := None, enc_table := t\<rparr>
           in case r of Inl err \<Rightarrow> (Inl err, e') | Inr out \<Rightarrow> (Inr (map to_uint8 out), e')))"

section \<open>Lemmas: the dynamic table\<close>

lemma byteStringLength_eq:
  "byteStringLength s = (if byte_string s then Inr (int (length s)) else Inl TypeError)"
proof -
  have "res_fold (\<lambda>u _. res_guard (\<not> uint u > 255) TypeError) s () =
        (if byte_string s then Inr () else Inl TypeError)"
    by (induction s) (auto simp: byte_string_def res_bind_def res_guard_def)
  then show ?thesis by (simp add: byteStringLength_def)
qed

lemma entrySize_eq:
  "entrySize name v =
     (if byte_string name \<and> byte_string v then Inr (int (length name) + int (length v) + 32)
      else Inl TypeError)"
  by (simp add: entrySize_def byteStringLength_eq)

definition entry_ok :: "stored_header \<Rightarrow> bool" where
  "entry_ok e \<longleftrightarrow> byte_string (sh_name e) \<and> byte_string (sh_value e) \<and>
     sh_size e = int (length (sh_name e)) + int (length (sh_value e)) + 32"

definition total_size :: "stored_header list \<Rightarrow> int" where
  "total_size es = sum_list (map sh_size es)"

text \<open>
  The invariant of the table: the byte count is the sum of the entry sizes of RFC 7541 and
  stays within the capacity.
\<close>

definition table_inv :: "dynamic_table \<Rightarrow> bool" where
  "table_inv t \<longleftrightarrow> list_all entry_ok (stored t) \<and> storedBytes t = total_size (stored t) \<and>
     storedBytes t \<le> capacityBytes t \<and> 0 \<le> capacityBytes t \<and> capacityBytes t \<le> MAX_HPACK_INTEGER"

text \<open>
  What eviction promises, independently of the loop: \<open>fitting target es\<close> is the longest run
  of newest entries whose total size is at most \<open>target\<close>.
\<close>

fun fitting :: "int \<Rightarrow> stored_header list \<Rightarrow> stored_header list" where
  "fitting target [] = []"
| "fitting target (e # es) =
     (if sh_size e \<le> target then e # fitting (target - sh_size e) es else [])"

lemma total_size_simps [simp]:
  "total_size [] = 0"
  "total_size (e # es) = sh_size e + total_size es"
  "total_size (es @ fs) = total_size es + total_size fs"
  by (simp_all add: total_size_def)

lemma entry_ok_size: "entry_ok e \<Longrightarrow> 32 \<le> sh_size e"
  by (simp add: entry_ok_def)

lemma total_size_nonneg: "list_all entry_ok es \<Longrightarrow> 0 \<le> total_size es"
  by (induction es) (auto dest: entry_ok_size)

lemma fitting_all: "list_all entry_ok es \<Longrightarrow> total_size es \<le> target \<Longrightarrow> fitting target es = es"
proof (induction es arbitrary: target)
  case (Cons e es)
  then show ?case using total_size_nonneg [of es] by auto
qed simp

lemma fitting_snoc:
  "list_all entry_ok (es @ [e]) \<Longrightarrow> total_size (es @ [e]) > target \<Longrightarrow>
     fitting target (es @ [e]) = fitting target es"
  by (induction es arbitrary: target) auto

lemma fitting_prefix: "\<exists>fs. es = fitting target es @ fs"
  by (induction es arbitrary: target) auto

lemma fitting_total: "0 \<le> target \<Longrightarrow> total_size (fitting target es) \<le> target"
proof (induction es arbitrary: target)
  case (Cons e es)
  show ?case
  proof (cases "sh_size e \<le> target")
    case True
    with Cons.IH [of "target - sh_size e"] show ?thesis by simp
  qed (use Cons.prems in simp)
qed simp

lemma fitting_ok: "list_all entry_ok es \<Longrightarrow> list_all entry_ok (fitting target es)"
  by (induction es arbitrary: target) auto

lemma fitting_fitting:
  "list_all entry_ok es \<Longrightarrow> a \<le> b \<Longrightarrow> fitting a (fitting b es) = fitting a es"
  by (induction es arbitrary: a b) (auto dest: entry_ok_size)

lemma fitting_fitting_ge:
  "list_all entry_ok es \<Longrightarrow> 0 \<le> b \<Longrightarrow> b \<le> a \<Longrightarrow> fitting a (fitting b es) = fitting b es"
  using fitting_all [of "fitting b es" a] fitting_total [of b es] fitting_ok [of es b] by simp

lemma evictTo_eq:
  "list_all entry_ok (stored t) \<Longrightarrow> storedBytes t = total_size (stored t) \<Longrightarrow>
   evictTo target t = t\<lparr>stored := fitting target (stored t),
                        storedBytes := total_size (fitting target (stored t))\<rparr>"
proof (induction target t rule: evictTo.induct)
  case (1 target t)
  show ?case
  proof (cases "storedBytes t > target \<and> stored t \<noteq> []")
    case True
    then obtain es e where es: "stored t = es @ [e]" by (cases "stored t" rule: rev_cases) auto
    let ?t = "t\<lparr>stored := butlast (stored t), storedBytes := storedBytes t - sh_size (last (stored t))\<rparr>"
    have "evictTo target t = evictTo target ?t" using True by (simp add: evictTo.simps [of target t])
    also have "\<dots> = ?t\<lparr>stored := fitting target (stored ?t),
                        storedBytes := total_size (fitting target (stored ?t))\<rparr>"
      using "1.prems" es by (intro "1.IH" True) auto
    finally show ?thesis
      using "1.prems" True es fitting_snoc [of es e target] by simp
  next
    case False
    then have "fitting target (stored t) = stored t"
      using "1.prems" fitting_all [of "stored t" target] by (cases "stored t = []") auto
    moreover have "evictTo target t = t" using False by (subst evictTo.simps) auto
    ultimately show ?thesis using "1.prems"(2) [symmetric] by simp
  qed
qed

lemma setCapacity_eq:
  assumes "table_inv t"
  shows "setCapacity c t = \<lparr>stored = fitting c (stored t),
     storedBytes = total_size (fitting c (stored t)), capacityBytes = c\<rparr>"
  using assms evictTo_eq [of "t\<lparr>capacityBytes := c\<rparr>" c]
  by (simp add: setCapacity_def table_inv_def)

lemma setCapacity_inv:
  "table_inv t \<Longrightarrow> 0 \<le> c \<Longrightarrow> c \<le> MAX_HPACK_INTEGER \<Longrightarrow> table_inv (setCapacity c t)"
  by (auto simp: setCapacity_eq table_inv_def fitting_total fitting_ok)

lemma table_insert_eq:
  assumes "table_inv t" and "byte_string name" and "byte_string v"
  defines "sz \<equiv> int (length name) + int (length v) + 32"
  shows "table_insert name v t =
     Inr \<lparr>stored = (if sz > capacityBytes t then []
                    else \<lparr>sh_name = name, sh_value = v, sh_size = sz\<rparr> #
                         fitting (capacityBytes t - sz) (stored t)),
          storedBytes = (if sz > capacityBytes t then 0
                    else sz + total_size (fitting (capacityBytes t - sz) (stored t))),
          capacityBytes = capacityBytes t\<rparr>"
  using assms evictTo_eq [of t "capacityBytes t - sz"]
  by (simp add: table_insert_def entrySize_eq table_inv_def Let_def)

lemma table_insert_inv:
  "table_inv t \<Longrightarrow> table_insert name v t = Inr t' \<Longrightarrow>
     table_inv t' \<and> capacityBytes t' = capacityBytes t"
proof -
  assume inv: "table_inv t" and ins: "table_insert name v t = Inr t'"
  then have ok: "byte_string name" "byte_string v"
    by (auto simp: table_insert_def entrySize_eq split: if_splits)
  let ?n = "int (length name) + int (length v) + 32"
  show ?thesis
    using inv ins ok fitting_total [of "capacityBytes t - ?n" "stored t"]
      fitting_ok [of "stored t" "capacityBytes t - ?n"]
    by (auto simp: table_insert_eq table_inv_def entry_ok_def)
qed

lemma newDynamicTable_inv: "0 \<le> c \<Longrightarrow> c \<le> MAX_HPACK_INTEGER \<Longrightarrow> table_inv (newDynamicTable c)"
  by (simp add: newDynamicTable_def table_inv_def)

text \<open>The searches find an entry that matches, or none does.\<close>

lemma search_from_cases:
  obtains (none) "search_from p xs i = 0" "\<forall>x\<in>set xs. \<not> p x"
  | (found) k where "search_from p xs i = i + int k + 1" "k < length xs" "p (xs ! k)"
proof (induction xs arbitrary: i thesis)
  case Nil
  then show ?case by simp
next
  case (Cons x xs)
  show ?case
  proof (cases "p x")
    case True
    then show ?thesis using Cons.prems(2) [of 0] by simp
  next
    case False
    show ?thesis
    proof (rule Cons.IH [of "i + 1"])
      assume "search_from p xs (i + 1) = 0" "\<forall>x\<in>set xs. \<not> p x"
      then show ?thesis using False Cons.prems(1) by simp
    next
      fix k assume "search_from p xs (i + 1) = i + 1 + int k + 1" "k < length xs" "p (xs ! k)"
      then show ?thesis using False Cons.prems(2) [of "Suc k"] by simp
    qed
  qed
qed

section \<open>Lemmas: integers and strings\<close>

lemma readByte_at: "readByte (pre @ b # suf) (length pre) = Inr (b, length pre + 1)"
  by (simp add: readByte_def)

lemma writeRemainder_bytes:
  "0 \<le> r \<Longrightarrow> \<forall>x\<in>set (writeRemainder r). 0 \<le> x \<and> x < 256"
proof (induction r rule: writeRemainder.induct)
  case (1 r)
  then show ?case
    by (cases "r \<ge> 128") (auto simp: writeRemainder.simps [of r] pos_imp_zdiv_nonneg_iff)
qed

lemma hpack_safe: "0 \<le> x \<Longrightarrow> x \<le> MAX_HPACK_INTEGER \<Longrightarrow> js_isSafeInteger x"
  by (simp add: js_isSafeInteger_def MAX_HPACK_INTEGER_def MAX_SAFE_INTEGER_def)

lemma decodeIntegerLoop_write:
  assumes "0 \<le> r" and "r < 2 ^ (7 * n)" and "0 \<le> v" and "0 < n" and "v + r * 2 ^ sh \<le> MAX_HPACK_INTEGER"
  shows "decodeIntegerLoop n (pre @ map to_uint8 (writeRemainder r) @ suf) v sh (length pre) =
           Inr (v + r * 2 ^ sh, length pre + length (writeRemainder r))"
  using assms
proof (induction r arbitrary: n v sh pre rule: writeRemainder.induct)
  case (1 r)
  from "1.prems"(4) obtain m where n: "n = Suc m" by (cases n) auto
  show ?case
  proof (cases "r \<ge> 128")
    case False
    have "js_and r 127 = r" "js_and r 128 = 0"
      using False "1.prems"(1) by (simp_all add: js_and_7f js_flag_tests)
    moreover have "js_isSafeInteger (r * 2 ^ sh)"
      using "1.prems" by (intro hpack_safe) auto
    ultimately show ?thesis
      using False "1.prems" n readByte_at [of pre "to_uint8 r" suf]
      by (simp add: writeRemainder.simps [of r])
  next
    case True
    let ?b = "r mod 128 + 128" and ?q = "r div 128"
    have split: "r = 128 * ?q + r mod 128" by simp
    have b: "0 \<le> ?b" "?b < 256" "?b mod 128 = r mod 128" "?b div 128 = 1" by auto
    have and_b: "js_and ?b 127 = r mod 128" "js_and ?b 128 \<noteq> 0"
      using b by (simp_all add: js_and_7f js_flag_tests)
    have q: "0 \<le> ?q" "?q < 2 ^ (7 * m)"
      using True "1.prems"(2) n by (auto simp: power_add div_less_iff_less_mult)
    have m: "0 < m" using True "1.prems"(2) n by (cases m) auto
    have part: "0 \<le> r mod 128 * 2 ^ sh" "0 \<le> ?q * 2 ^ (sh + 7)" using q by auto
    have sum: "v + r mod 128 * 2 ^ sh + ?q * 2 ^ (sh + 7) = v + r * 2 ^ sh"
    proof -
      have "r * 2 ^ sh = 128 * ?q * 2 ^ sh + r mod 128 * 2 ^ sh" by (metis distrib_right split)
      then show ?thesis by (simp add: power_add)
    qed
    have "js_isSafeInteger (r mod 128 * 2 ^ sh)"
      using "1.prems"(3,5) part sum by (intro hpack_safe) linarith+
    moreover have "\<not> r mod 128 * 2 ^ sh > MAX_HPACK_INTEGER - v"
      using "1.prems"(5) part sum by linarith
    moreover have "decodeIntegerLoop m ((pre @ [to_uint8 ?b]) @ map to_uint8 (writeRemainder ?q) @ suf)
        (v + r mod 128 * 2 ^ sh) (sh + 7) (length (pre @ [to_uint8 ?b])) =
        Inr (v + r mod 128 * 2 ^ sh + ?q * 2 ^ (sh + 7),
             length (pre @ [to_uint8 ?b]) + length (writeRemainder ?q))"
      using True q part sum m "1.prems"(3,5) by (intro "1.IH") auto
    ultimately show ?thesis
      using True n readByte_at [of pre "to_uint8 ?b" "map to_uint8 (writeRemainder ?q) @ suf"] b and_b sum
      by (simp add: writeRemainder.simps [of r])
  qed
qed

text \<open>
  What \<open>writeInteger\<close> writes: its first byte lies in the range the prefix leaves, and the decoder
  reads the value back at any position.
\<close>

lemma writeInteger_ok:
  assumes "0 \<le> v" "v \<le> MAX_HPACK_INTEGER" "1 \<le> p" "p \<le> 8" "0 \<le> pfx" "2 ^ p dvd pfx" "pfx + 2 ^ p \<le> 256"
  shows "\<exists>out. writeInteger v p pfx = Inr out \<and> out \<noteq> [] \<and> (\<forall>x\<in>set out. 0 \<le> x \<and> x < 256) \<and>
           pfx \<le> hd out \<and> hd out < pfx + 2 ^ p \<and>
           (\<forall>pre suf. decodeHpackInteger (pre @ map to_uint8 out @ suf) (length pre) p =
              Inr (v, length pre + length out))"
proof -
  let ?m = "2 ^ p - 1 :: int"
  have m: "0 < ?m" "?m < 256" using assms(3-7) by (auto simp: self_le_power)
  have ok: "requireNonnegativeInteger v = Inr ()"
    using assms(1,2) hpack_safe [of v] by (simp add: requireNonnegativeInteger_def)
  have or_eq: "js_or pfx x = pfx + x" if "0 \<le> x" "x \<le> ?m" for x
    using assms that by (intro js_or_add [where n = p]) auto
  have and_eq: "js_and (pfx + x) ?m = x" if "0 \<le> x" "x \<le> ?m" for x
  proof -
    have "js_and (pfx + x) ?m = (pfx + x) mod 2 ^ p"
      using assms that by (intro js_and_mask) auto
    then show ?thesis using assms(6) that by (auto elim!: dvdE)
  qed
  show ?thesis
  proof (cases "v < ?m")
    case True
    then show ?thesis
      using assms ok or_eq [of v] and_eq [of v] readByte_at
      by (auto simp: writeInteger_def decodeHpackInteger_def)
  next
    case False
    let ?r = "v - ?m"
    have r: "0 \<le> ?r" "?r < 2 ^ (7 * 5)" "?m + ?r * 2 ^ 0 \<le> MAX_HPACK_INTEGER"
      using False assms(2) m by (auto simp: MAX_HPACK_INTEGER_def)
    have "decodeHpackInteger (pre @ map to_uint8 (js_or pfx ?m # writeRemainder ?r) @ suf) (length pre) p =
        Inr (v, length pre + length (js_or pfx ?m # writeRemainder ?r))" for pre suf
      using decodeIntegerLoop_write [of ?r 5 ?m 0 "pre @ [to_uint8 (pfx + ?m)]" suf] r m assms
        or_eq [of ?m] and_eq [of ?m]
        readByte_at [of pre "to_uint8 (pfx + ?m)" "map to_uint8 (writeRemainder ?r) @ suf"]
      by (simp add: decodeHpackInteger_def numeral_eq_Suc)
    then show ?thesis
      using False ok or_eq [of ?m] m assms writeRemainder_bytes [OF r(1)]
      by (auto simp: writeInteger_def Let_def)
  qed
qed

text \<open>
  The same for strings: a byte string within the limits is read back, whether or not it was
  Huffman coded.
\<close>

definition limits_ok :: "hpack_limits \<Rightarrow> bool" where
  "limits_ok limits \<longleftrightarrow> 0 \<le> maxHeaderListBytes limits \<and> maxHeaderListBytes limits \<le> MAX_HPACK_INTEGER \<and>
     0 \<le> maxStringBytes limits \<and> maxStringBytes limits \<le> MAX_HPACK_INTEGER"

lemma hd_map_append: "xs \<noteq> [] \<Longrightarrow> js_at (pre @ map f xs @ suf) (int (length pre)) = Some (f (hd xs))"
  by (cases xs) auto

lemma readString_plain:
  assumes out: "\<forall>pre suf. decodeHpackInteger (pre @ map to_uint8 out @ suf) (length pre) 7 =
                  Inr (int (length bs), length pre + length out)"
    and "out \<noteq> []" "0 \<le> hd out" "hd out < 256" "int (length bs) \<le> maxStringBytes limits"
  shows "readString (pre @ map to_uint8 (out @ map uint bs) @ suf) (length pre) limits =
     (if hd out \<ge> 128
      then res_bind (decodeHpackHuffman bs (maxStringBytes limits))
             (\<lambda>d. Inr (latin1 d, length pre + length (out @ map uint bs)))
      else Inr (latin1 bs, length pre + length (out @ map uint bs)))"
proof -
  let ?all = "pre @ map to_uint8 out @ bs @ suf"
  have "js_and (uint (to_uint8 (hd out))) 128 \<noteq> 0 \<longleftrightarrow> hd out \<ge> 128"
  proof -
    have "hd out div 128 = (if hd out \<ge> 128 then 1 else 0)"
      using assms(3,4) by (auto simp: div_pos_pos_trivial)
    then show ?thesis using assms(3,4) by (simp add: js_flag_tests)
  qed
  moreover have "js_slice ?all (length pre + length out) (length pre + length out + length bs) = bs"
    by (simp add: js_slice_def)
  ultimately show ?thesis
    using assms out [rule_format, of pre "bs @ suf"] hd_map_append [OF assms(2), of pre to_uint8 "bs @ suf"]
    by (simp add: readString_def comp_def add.assoc)
qed

lemma writeString_ok:
  assumes v: "byte_string v" and len: "int (length v) \<le> maxStringBytes limits" and lim: "limits_ok limits"
  shows "\<exists>out. writeString v huffman = Inr out \<and>
           (\<forall>pre suf. readString (pre @ map to_uint8 out @ suf) (length pre) limits =
              Inr (v, length pre + length out))"
proof -
  let ?bs = "map ucast v :: bytes"
  have max: "int (length v) \<le> MAX_HPACK_INTEGER" using len lim by (simp add: limits_ok_def)
  then have safe: "30 * int (length ?bs) \<le> MAX_SAFE_INTEGER"
    by (simp add: MAX_HPACK_INTEGER_def MAX_SAFE_INTEGER_def)
  obtain enc where enc: "encodeHpackHuffman ?bs = Inr enc"
    "hpackHuffmanEncodedLength ?bs = Inr (int (length enc))"
    "decodeHpackHuffman enc (maxStringBytes limits) = Inr ?bs"
    using decode_encode_huffman [OF safe, of "maxStringBytes limits"] len by auto
  show ?thesis
  proof (cases "huffman \<and> int (length enc) < int (length ?bs)")
    case True
    obtain out where out: "writeInteger (int (length enc)) 7 128 = Inr out" "out \<noteq> []"
      "128 \<le> hd out" "hd out < 256"
      "\<forall>pre suf. decodeHpackInteger (pre @ map to_uint8 out @ suf) (length pre) 7 =
         Inr (int (length enc), length pre + length out)"
      using writeInteger_ok [of "int (length enc)" 7 128] True max by auto
    show ?thesis
      using out enc True v len readString_plain [OF out(5,2)] latin1_encode [OF v]
      by (auto simp: writeString_def encodeByteString_eq)
  next
    case False
    obtain out where out: "writeInteger (int (length ?bs)) 7 0 = Inr out" "out \<noteq> []"
      "0 \<le> hd out" "hd out < 128"
      "\<forall>pre suf. decodeHpackInteger (pre @ map to_uint8 out @ suf) (length pre) 7 =
         Inr (int (length ?bs), length pre + length out)"
      using writeInteger_ok [of "int (length ?bs)" 7 0] max by auto
    show ?thesis
      using out enc False v len readString_plain [OF out(5,2)] latin1_encode [OF v]
      by (auto simp: writeString_def encodeByteString_eq)
  qed
qed

section \<open>Lemmas: indices\<close>

lemma length_STATIC_NAMES [simp]: "length STATIC_NAMES = 61"
  by (simp add: STATIC_NAMES_def)

lemma length_STATIC_VALUES [simp]: "length STATIC_VALUES = 61"
  by (simp add: STATIC_VALUES_def)

lemma byte_string_js_string [simp]: "byte_string (js_string s)"
proof -
  have "uint (word_of_nat (of_char c) :: code_unit) \<le> 255" for c :: char
  proof -
    have c: "of_char c < (256 :: nat)" by simp
    have "unat (word_of_nat (of_char c) :: code_unit) = (of_char c :: nat)" by (rule unat_char_unit)
    then have "int (unat (word_of_nat (of_char c) :: code_unit)) \<le> 255" using c by linarith
    then show ?thesis by simp
  qed
  then show ?thesis by (auto simp: byte_string_def js_string_def)
qed

lemma byte_string_static:
  assumes "i < 61"
  shows "byte_string (STATIC_NAMES ! i) \<and> byte_string (STATIC_VALUES ! i)"
proof -
  have "\<exists>xs. STATIC_NAMES = map js_string xs" "\<exists>ys. STATIC_VALUES = map js_string ys"
    unfolding STATIC_NAMES_def STATIC_VALUES_def by blast+
  then obtain xs ys where xs: "STATIC_NAMES = map js_string xs" and ys: "STATIC_VALUES = map js_string ys"
    by blast
  have "length xs = 61" "length ys = 61"
    using arg_cong [OF xs, of length] arg_cong [OF ys, of length] by simp_all
  with assms show ?thesis by (simp add: xs ys)
qed

lemma staticEntry_eq:
  "i < 61 \<Longrightarrow> staticEntry (int i + 1) =
     Some \<lparr>sh_name = STATIC_NAMES ! i, sh_value = STATIC_VALUES ! i,
           sh_size = int (length (STATIC_NAMES ! i)) + int (length (STATIC_VALUES ! i)) + 32\<rparr>"
  by (simp add: staticEntry_def STATIC_TABLE_LENGTH_def)

lemma staticEntry_beyond: "staticEntry (int (62 + i)) = None"
  by (simp add: staticEntry_def STATIC_TABLE_LENGTH_def)

lemma total_size_length: "list_all entry_ok es \<Longrightarrow> 32 * int (length es) \<le> total_size es"
  by (induction es) (auto dest: entry_ok_size)

lemma table_length: "table_inv t \<Longrightarrow> 32 * int (length (stored t)) \<le> MAX_HPACK_INTEGER"
  using total_size_length [of "stored t"] by (auto simp: table_inv_def)

text \<open>An index the encoder finds is one the decoder resolves to a matching entry.\<close>

definition index_ok :: "dynamic_table \<Rightarrow> (stored_header \<Rightarrow> bool) \<Rightarrow> int \<Rightarrow> bool" where
  "index_ok t p i \<longleftrightarrow> 0 < i \<and> i \<le> MAX_HPACK_INTEGER \<and>
     (\<exists>e. resolveIndex t i = Inr e \<and> entry_ok e \<and> p e)"

lemma index_ok_static:
  assumes "k < 61" and "p \<lparr>sh_name = STATIC_NAMES ! k, sh_value = STATIC_VALUES ! k,
      sh_size = int (length (STATIC_NAMES ! k)) + int (length (STATIC_VALUES ! k)) + 32\<rparr>"
  shows "index_ok t p (int k + 1)"
  using assms byte_string_static [OF assms(1)] staticEntry_eq [OF assms(1)]
  by (simp add: index_ok_def resolveIndex_def entry_ok_def MAX_HPACK_INTEGER_def)

lemma index_ok_dynamic:
  assumes "table_inv t" and "k < length (stored t)" and "p (stored t ! k)"
  shows "index_ok t p (int STATIC_TABLE_LENGTH + (int k + 1))"
proof -
  have ok: "entry_ok (stored t ! k)" using assms(1,2) by (auto simp: table_inv_def list_all_length)
  have le: "int STATIC_TABLE_LENGTH + (int k + 1) \<le> MAX_HPACK_INTEGER"
    using table_length [OF assms(1)] assms(2)
    by (simp add: STATIC_TABLE_LENGTH_def MAX_HPACK_INTEGER_def)
  have "table_get t (1 + int k) = Some (stored t ! k)"
    using assms(2) by (simp add: table_get_def)
  moreover have "staticEntry (62 + int k) = None"
    using staticEntry_beyond [of k] by simp
  ultimately show ?thesis
    using assms(3) ok le
    by (simp add: index_ok_def resolveIndex_def STATIC_TABLE_LENGTH_def add.commute)
qed

lemma exactIndex_cases:
  assumes "table_inv t"
  shows "exactIndex t name v = 0 \<or>
         index_ok t (\<lambda>e. sh_name e = name \<and> sh_value e = v) (exactIndex t name v)"
proof (cases "findStatic name v = 0")
  case True
  have "table_find t name v = 0 \<or> index_ok t (\<lambda>e. sh_name e = name \<and> sh_value e = v)
          (int STATIC_TABLE_LENGTH + table_find t name v)"
    by (cases rule: search_from_cases [of "\<lambda>e. sh_name e = name \<and> sh_value e = v" "stored t" 0])
      (auto simp: table_find_def intro: index_ok_dynamic [OF assms])
  with True show ?thesis by (auto simp: exactIndex_def Let_def)
next
  case False
  have "index_ok t (\<lambda>e. sh_name e = name \<and> sh_value e = v) (findStatic name v)"
    using False
    by (cases rule: search_from_cases [of
          "\<lambda>i. js_at STATIC_NAMES (int i) = Some name \<and> js_at STATIC_VALUES (int i) = Some v"
          "[0..<STATIC_TABLE_LENGTH]" 0])
      (auto simp: findStatic_def STATIC_TABLE_LENGTH_def intro!: index_ok_static split: if_splits)
  with False show ?thesis by (simp add: exactIndex_def Let_def)
qed

lemma nameIndexOf_cases:
  assumes "table_inv t"
  shows "nameIndexOf t name = 0 \<or> index_ok t (\<lambda>e. sh_name e = name) (nameIndexOf t name)"
proof (cases "findStaticName name = 0")
  case True
  have "table_findName t name = 0 \<or> index_ok t (\<lambda>e. sh_name e = name)
          (int STATIC_TABLE_LENGTH + table_findName t name)"
    by (cases rule: search_from_cases [of "\<lambda>e. sh_name e = name" "stored t" 0])
      (auto simp: table_findName_def intro: index_ok_dynamic [OF assms])
  with True show ?thesis by (auto simp: nameIndexOf_def Let_def)
next
  case False
  have "index_ok t (\<lambda>e. sh_name e = name) (findStaticName name)"
    using False
    by (cases rule: search_from_cases [of "\<lambda>i. js_at STATIC_NAMES (int i) = Some name"
          "[0..<STATIC_TABLE_LENGTH]" 0])
      (auto simp: findStaticName_def STATIC_TABLE_LENGTH_def intro!: index_ok_static split: if_splits)
  with False show ?thesis by (simp add: nameIndexOf_def Let_def)
qed

end
