(* ===== verification/Hpack_Session.thy ===== *)
theory Hpack_Session
  imports Hpack
begin

text \<open>
  Correctness of HPACK across a connection: what \<^verbatim>\<open>HpackEncoder\<close> writes for a field, a list
  and a table size change is what \<^verbatim>\<open>HpackDecoder\<close> reads, the relation between the two tables is
  kept, and the decoder keeps its invariant and limits on arbitrary bytes.
\<close>

section \<open>Lemmas: one field\<close>

definition field_ok :: "hpack_limits \<Rightarrow> hpack_field \<Rightarrow> bool" where
  "field_ok limits f \<longleftrightarrow> byte_string (hf_name f) \<and> byte_string (hf_value f) \<and>
     int (length (hf_name f)) \<le> maxStringBytes limits \<and> int (length (hf_value f)) \<le> maxStringBytes limits"

definition field_size :: "hpack_field \<Rightarrow> int" where
  "field_size f = int (length (hf_name f)) + int (length (hf_value f)) + 32"

definition field_header :: "hpack_field \<Rightarrow> decoded_header" where
  "field_header f = \<lparr>dh_name = hf_name f, dh_value = hf_value f, dh_neverIndexed = (fieldIndexing f = Never)\<rparr>"

text \<open>The four ranges of the first byte of a representation.\<close>

lemma first_byte_ranges:
  fixes x :: int
  shows "128 \<le> x \<Longrightarrow> x < 256 \<Longrightarrow> js_and x 128 \<noteq> 0"
    "64 \<le> x \<Longrightarrow> x < 128 \<Longrightarrow> js_and x 128 = 0 \<and> js_and x 64 \<noteq> 0"
    "32 \<le> x \<Longrightarrow> x < 64 \<Longrightarrow> js_and x 128 = 0 \<and> js_and x 64 = 0 \<and> js_and x 32 \<noteq> 0"
    "16 \<le> x \<Longrightarrow> x < 32 \<Longrightarrow> js_and x 128 = 0 \<and> js_and x 64 = 0 \<and> js_and x 32 = 0 \<and> js_and x 16 \<noteq> 0"
    "0 \<le> x \<Longrightarrow> x < 16 \<Longrightarrow> js_and x 128 = 0 \<and> js_and x 64 = 0 \<and> js_and x 32 = 0 \<and> js_and x 16 = 0"
proof -
  have one: "x div k = 1" if "k \<le> x" "x < 2 * k" for k :: int
    using that int_div_pos_eq [of x k 1 "x - k"] by simp
  have tests: "js_and x 128 = 0 \<longleftrightarrow> even (x div 128)" "js_and x 64 = 0 \<longleftrightarrow> even (x div 64)"
    "js_and x 32 = 0 \<longleftrightarrow> even (x div 32)" "js_and x 16 = 0 \<longleftrightarrow> even (x div 16)" if "0 \<le> x" "x < 256"
    using js_flag_tests [of x] that by simp_all
  show "128 \<le> x \<Longrightarrow> x < 256 \<Longrightarrow> js_and x 128 \<noteq> 0"
    using tests(1) one [of 128] by simp
  show "64 \<le> x \<Longrightarrow> x < 128 \<Longrightarrow> js_and x 128 = 0 \<and> js_and x 64 \<noteq> 0"
    using tests(1,2) one [of 64] by (simp add: div_pos_pos_trivial)
  show "32 \<le> x \<Longrightarrow> x < 64 \<Longrightarrow> js_and x 128 = 0 \<and> js_and x 64 = 0 \<and> js_and x 32 \<noteq> 0"
    using tests(1-3) one [of 32] by (simp add: div_pos_pos_trivial)
  show "16 \<le> x \<Longrightarrow> x < 32 \<Longrightarrow> js_and x 128 = 0 \<and> js_and x 64 = 0 \<and> js_and x 32 = 0 \<and> js_and x 16 \<noteq> 0"
    using tests one [of 16] by (simp add: div_pos_pos_trivial)
  show "0 \<le> x \<Longrightarrow> x < 16 \<Longrightarrow> js_and x 128 = 0 \<and> js_and x 64 = 0 \<and> js_and x 32 = 0 \<and> js_and x 16 = 0"
    using tests by (simp add: div_pos_pos_trivial)
qed

lemma first_byte_at:
  "out \<noteq> [] \<Longrightarrow> \<forall>x\<in>set out. 0 \<le> x \<and> x < 256 \<Longrightarrow>
   uint (js_or_else (js_at (pre @ map to_uint8 (out @ rest) @ suf) (int (length pre))) 0) = hd out"
  by (cases out) auto

text \<open>What the two writers of a field promise about a prefix integer (\<open>writeInteger_ok\<close>).\<close>

definition int_written :: "int \<Rightarrow> nat \<Rightarrow> int \<Rightarrow> int list \<Rightarrow> bool" where
  "int_written v p pfx out \<longleftrightarrow> writeInteger v p pfx = Inr out \<and> out \<noteq> [] \<and>
     (\<forall>x\<in>set out. 0 \<le> x \<and> x < 256) \<and> pfx \<le> hd out \<and> hd out < pfx + 2 ^ p \<and>
     (\<forall>pre suf. decodeHpackInteger (pre @ map to_uint8 out @ suf) (length pre) p =
        Inr (v, length pre + length out))"

lemma int_written_ex:
  "0 \<le> v \<Longrightarrow> v \<le> MAX_HPACK_INTEGER \<Longrightarrow> 1 \<le> p \<Longrightarrow> p \<le> 8 \<Longrightarrow> 0 \<le> pfx \<Longrightarrow> 2 ^ p dvd pfx \<Longrightarrow>
   pfx + 2 ^ p \<le> 256 \<Longrightarrow> \<exists>out. int_written v p pfx out"
  unfolding int_written_def by (rule writeInteger_ok)

lemma int_written_decode:
  "int_written v p pfx out \<Longrightarrow>
   decodeHpackInteger (pre @ map to_uint8 (out @ rest) @ suf) (length pre) p = Inr (v, length pre + length out)"
  using spec [of "\<lambda>pre. \<forall>suf. decodeHpackInteger (pre @ map to_uint8 out @ suf) (length pre) p =
      Inr (v, length pre + length out)" pre]
  by (simp add: int_written_def)

lemma int_written_first:
  "int_written v p pfx out \<Longrightarrow>
   uint (js_or_else (js_at (pre @ map to_uint8 (out @ rest) @ suf) (int (length pre))) 0) = hd out \<and>
   pfx \<le> hd out \<and> hd out < pfx + 2 ^ p"
  using first_byte_at [of out pre rest suf] by (simp add: int_written_def)

lemma readLiteral_ok:
  assumes inv: "table_inv t" and f: "field_ok limits f" and lim: "limits_ok limits"
    and p: "1 \<le> p" "p \<le> 8" "0 \<le> pfx" "2 ^ p dvd pfx" "pfx + 2 ^ p \<le> 256"
  shows "\<exists>a b c. int_written (nameIndexOf t (hf_name f)) p pfx a \<and>
     (if nameIndexOf t (hf_name f) = 0 then writeString (hf_name f) h else Inr []) = Inr b \<and>
     writeString (hf_value f) h = Inr c \<and>
     (\<forall>pre suf. readLiteral (pre @ map to_uint8 (a @ b @ c) @ suf) (length pre) t p limits =
        Inr (hf_name f, hf_value f, length pre + length (a @ b @ c)))"
proof -
  let ?n = "nameIndexOf t (hf_name f)"
  have n: "?n = 0 \<or> index_ok t (\<lambda>e. sh_name e = hf_name f) ?n" by (rule nameIndexOf_cases [OF inv])
  then have range: "0 \<le> ?n" "?n \<le> MAX_HPACK_INTEGER" by (auto simp: index_ok_def MAX_HPACK_INTEGER_def)
  obtain a where a: "int_written ?n p pfx a" using int_written_ex [OF range p] by blast
  obtain b0 where b0: "writeString (hf_name f) h = Inr b0"
    "\<And>pre suf. readString (pre @ map to_uint8 b0 @ suf) (length pre) limits =
       Inr (hf_name f, length pre + length b0)"
    using writeString_ok [of "hf_name f" limits h] f lim unfolding field_ok_def by blast
  obtain c where c: "writeString (hf_value f) h = Inr c"
    "\<And>pre suf. readString (pre @ map to_uint8 c @ suf) (length pre) limits =
       Inr (hf_value f, length pre + length c)"
    using writeString_ok [of "hf_value f" limits h] f lim unfolding field_ok_def by blast
  define b where "b = (if ?n = 0 then b0 else [])"
  have "readLiteral (pre @ map to_uint8 (a @ b @ c) @ suf) (length pre) t p limits =
        Inr (hf_name f, hf_value f, length pre + length (a @ b @ c))" for pre suf
  proof -
    have name: "(if ?n = 0
        then readString (pre @ map to_uint8 (a @ b @ c) @ suf) (length pre + length a) limits
        else res_bind (resolveIndex t ?n) (\<lambda>e. Inr (sh_name e, length pre + length a))) =
        Inr (hf_name f, length (pre @ map to_uint8 (a @ b)))"
    proof (cases "?n = 0")
      case True
      then show ?thesis
        using b0(2) [of "pre @ map to_uint8 a" "map to_uint8 c @ suf"] by (simp add: b_def add.assoc)
    next
      case False
      then show ?thesis using n by (auto simp: b_def index_ok_def)
    qed
    have "readString (pre @ map to_uint8 (a @ b @ c) @ suf) (length (pre @ map to_uint8 (a @ b))) limits =
        Inr (hf_value f, length pre + length (a @ b @ c))"
      using c(2) [of "pre @ map to_uint8 (a @ b)" suf] by (simp add: add.assoc)
    then show ?thesis
      unfolding readLiteral_def
      by (subst int_written_decode [OF a, of pre "b @ c" suf]) (simp only: name res_bind_simps prod.case)
  qed
  then show ?thesis using a b0(1) c(1) by (intro exI [of _ a] exI [of _ b] exI [of _ c]) (auto simp: b_def)
qed

text \<open>
  \<open>field_decoded\<close>: what one iteration of the decoder's loop makes of the bytes of one field,
  wherever they stand in the block.
\<close>

definition field_decoded :: "hpack_limits \<Rightarrow> hpack_field \<Rightarrow> dynamic_table \<Rightarrow> int list \<Rightarrow> dynamic_table \<Rightarrow> bool" where
  "field_decoded limits f t out t' \<longleftrightarrow>
     (\<forall>d s pre suf. dec_limits d = limits \<and> hl_table s = t \<and> hl_metRequiredMinimum s \<and>
        hl_offset s = length pre \<and> hl_listBytes s + field_size f \<le> maxHeaderListBytes limits \<longrightarrow>
        decodeStep d (pre @ map to_uint8 out @ suf) s =
          Inr (s\<lparr>hl_offset := length pre + length out, hl_headers := hl_headers s @ [field_header f],
                 hl_listBytes := hl_listBytes s + field_size f, hl_sawHeader := True, hl_table := t'\<rparr>))"

lemma field_decoded_indexed:
  assumes a: "int_written i 7 128 a" and i: "index_ok t (\<lambda>e. sh_name e = hf_name f \<and> sh_value e = hf_value f) i"
    and "fieldIndexing f = Incremental"
  shows "field_decoded limits f t a t"
  unfolding field_decoded_def
proof (intro allI impI, elim conjE)
  fix d :: hpack_decoder and s :: hpack_loop and pre suf :: bytes
  assume s: "dec_limits d = limits" "hl_table s = t" "hl_metRequiredMinimum s" "hl_offset s = length pre"
    "hl_listBytes s + field_size f \<le> maxHeaderListBytes limits"
  obtain e where e: "resolveIndex t i = Inr e" "sh_name e = hf_name f" "sh_value e = hf_value f"
    "sh_size e = field_size f"
    using i by (auto simp: index_ok_def entry_ok_def field_size_def)
  show "decodeStep d (pre @ map to_uint8 a @ suf) s =
          Inr (s\<lparr>hl_offset := length pre + length a, hl_headers := hl_headers s @ [field_header f],
                 hl_listBytes := hl_listBytes s + field_size f, hl_sawHeader := True, hl_table := t\<rparr>)"
    using int_written_first [OF a, of pre "[]" suf] int_written_decode [OF a, of pre "[]" suf]
      first_byte_ranges(1) [of "hd a"] e s assms(3)
    by (simp add: decodeStep_def countListBytes_def pushHeader_def field_header_def)
qed

lemma field_decoded_incremental:
  assumes a: "int_written n 6 64 a"
    and lit: "\<And>pre suf. readLiteral (pre @ map to_uint8 (a @ rest) @ suf) (length pre) t 6 limits =
        Inr (hf_name f, hf_value f, length pre + length (a @ rest))"
    and "fieldIndexing f = Incremental" "field_ok limits f" "table_insert (hf_name f) (hf_value f) t = Inr t'"
  shows "field_decoded limits f t (a @ rest) t'"
  unfolding field_decoded_def
proof (intro allI impI, elim conjE)
  fix d :: hpack_decoder and s :: hpack_loop and pre suf :: bytes
  assume s: "dec_limits d = limits" "hl_table s = t" "hl_metRequiredMinimum s" "hl_offset s = length pre"
    "hl_listBytes s + field_size f \<le> maxHeaderListBytes limits"
  show "decodeStep d (pre @ map to_uint8 (a @ rest) @ suf) s =
          Inr (s\<lparr>hl_offset := length pre + length (a @ rest), hl_headers := hl_headers s @ [field_header f],
                 hl_listBytes := hl_listBytes s + field_size f, hl_sawHeader := True, hl_table := t'\<rparr>)"
    using int_written_first [OF a, of pre rest suf] first_byte_ranges(2) [of "hd a"] s assms(3-5) lit [of pre suf]
    by (simp add: decodeStep_def countListBytes_def pushHeader_def field_header_def entrySize_eq
        field_ok_def field_size_def)
qed

lemma field_decoded_literal:
  assumes a: "int_written n 4 pfx a" and pfx: "pfx = (if fieldIndexing f = Never then 16 else 0)"
    and lit: "\<And>pre suf. readLiteral (pre @ map to_uint8 (a @ rest) @ suf) (length pre) t 4 limits =
        Inr (hf_name f, hf_value f, length pre + length (a @ rest))"
    and "field_ok limits f"
  shows "field_decoded limits f t (a @ rest) t"
  unfolding field_decoded_def
proof (intro allI impI, elim conjE)
  fix d :: hpack_decoder and s :: hpack_loop and pre suf :: bytes
  assume s: "dec_limits d = limits" "hl_table s = t" "hl_metRequiredMinimum s" "hl_offset s = length pre"
    "hl_listBytes s + field_size f \<le> maxHeaderListBytes limits"
  have "js_and (hd a) 128 = 0 \<and> js_and (hd a) 64 = 0 \<and> js_and (hd a) 32 = 0 \<and>
      (js_and (hd a) 16 \<noteq> 0 \<longleftrightarrow> fieldIndexing f = Never)"
    using int_written_first [OF a, of pre rest suf] first_byte_ranges(4,5) [of "hd a"] pfx
    by (auto split: if_splits)
  then show "decodeStep d (pre @ map to_uint8 (a @ rest) @ suf) s =
          Inr (s\<lparr>hl_offset := length pre + length (a @ rest), hl_headers := hl_headers s @ [field_header f],
                 hl_listBytes := hl_listBytes s + field_size f, hl_sawHeader := True, hl_table := t\<rparr>)"
    using int_written_first [OF a, of pre rest suf] s assms(4) lit [of pre suf]
    by (simp add: decodeStep_def countListBytes_def pushHeader_def field_header_def entrySize_eq
        field_ok_def field_size_def)
qed

lemma encodeField_ok:
  assumes inv: "table_inv t" and f: "field_ok limits f" and lim: "limits_ok limits"
  shows "\<exists>out t'. encodeField h f t = Inr (out, t') \<and> table_inv t' \<and>
           capacityBytes t' = capacityBytes t \<and> field_decoded limits f t out t'"
proof -
  let ?x = "exactIndex t (hf_name f) (hf_value f)" and ?n = "nameIndexOf t (hf_name f)"
  have len: "byteStringLength (hf_name f) = Inr (int (length (hf_name f)))"
    "byteStringLength (hf_value f) = Inr (int (length (hf_value f)))"
    using f by (simp_all add: byteStringLength_eq field_ok_def)
  consider (indexed) "fieldIndexing f = Incremental" "?x \<noteq> 0"
    | (incremental) "fieldIndexing f = Incremental" "?x = 0"
    | (literal) "fieldIndexing f \<noteq> Incremental" by blast
  then show ?thesis
  proof cases
    case indexed
    then have i: "index_ok t (\<lambda>e. sh_name e = hf_name f \<and> sh_value e = hf_value f) ?x"
      using exactIndex_cases [OF inv] by blast
    then obtain a where a: "int_written ?x 7 128 a"
      using int_written_ex [of ?x 7 128] by (auto simp: index_ok_def)
    have "encodeField h f t = Inr (a, t)"
      using indexed len a by (simp add: encodeField_def int_written_def)
    then show ?thesis using inv field_decoded_indexed [OF a i indexed(1)] by blast
  next
    case incremental
    obtain a b c where abc: "int_written ?n 6 64 a"
      "(if ?n = 0 then writeString (hf_name f) h else Inr []) = Inr b" "writeString (hf_value f) h = Inr c"
      "\<And>pre suf. readLiteral (pre @ map to_uint8 (a @ b @ c) @ suf) (length pre) t 6 limits =
        Inr (hf_name f, hf_value f, length pre + length (a @ b @ c))"
      using readLiteral_ok [OF inv f lim, of 6 64 h] by auto
    obtain t' where t': "table_insert (hf_name f) (hf_value f) t = Inr t'"
      using f table_insert_eq [OF inv, of "hf_name f" "hf_value f"] by (auto simp: field_ok_def)
    have "encodeField h f t = Inr (a @ b @ c, t')"
      using incremental len abc(1-3) t' by (simp add: encodeField_def int_written_def)
    then show ?thesis
      using table_insert_inv [OF inv t'] field_decoded_incremental [OF abc(1,4) incremental(1) f t'] by blast
  next
    case literal
    define pfx :: int where "pfx = (if fieldIndexing f = Never then 16 else 0)"
    then have pfx: "0 \<le> pfx" "2 ^ 4 dvd pfx" "pfx + 2 ^ 4 \<le> 256" by simp_all
    obtain a b c where abc: "int_written ?n 4 pfx a"
      "(if ?n = 0 then writeString (hf_name f) h else Inr []) = Inr b" "writeString (hf_value f) h = Inr c"
      "\<And>pre suf. readLiteral (pre @ map to_uint8 (a @ b @ c) @ suf) (length pre) t 4 limits =
        Inr (hf_name f, hf_value f, length pre + length (a @ b @ c))"
      using readLiteral_ok [OF inv f lim, of 4 pfx h] pfx by auto
    have "encodeField h f t = Inr (a @ b @ c, t)"
      using literal len abc(1-3) by (simp add: encodeField_def int_written_def pfx_def)
    then show ?thesis using inv field_decoded_literal [OF abc(1) pfx_def abc(4) f] by blast
  qed
qed

section \<open>Lemmas: the two loops\<close>

definition list_size :: "hpack_field list \<Rightarrow> int" where
  "list_size fs = sum_list (map field_size fs)"

lemma list_size_simps [simp]: "list_size [] = 0" "list_size (f # fs) = field_size f + list_size fs"
  by (simp_all add: list_size_def)

lemma list_size_nonneg: "0 \<le> list_size fs"
  by (induction fs) (auto simp: field_size_def)

definition block_decoded ::
    "hpack_limits \<Rightarrow> hpack_field list \<Rightarrow> dynamic_table \<Rightarrow> int list \<Rightarrow> dynamic_table \<Rightarrow> bool" where
  "block_decoded limits fs t out t' \<longleftrightarrow>
     (\<forall>d s pre. dec_limits d = limits \<and> hl_table s = t \<and> hl_metRequiredMinimum s \<and>
        hl_offset s = length pre \<and> hl_listBytes s + list_size fs \<le> maxHeaderListBytes limits \<longrightarrow>
        decodeLoop d (pre @ map to_uint8 out) s =
          (None, s\<lparr>hl_offset := length pre + length out, hl_headers := hl_headers s @ map field_header fs,
                   hl_listBytes := hl_listBytes s + list_size fs,
                   hl_sawHeader := (hl_sawHeader s \<or> fs \<noteq> []), hl_table := t'\<rparr>))"

lemma block_decoded_Nil: "block_decoded limits [] t [] t"
  by (auto simp: block_decoded_def decodeLoop.simps)

lemma block_decoded_Cons:
  assumes f: "field_decoded limits f t out t1" and fs: "block_decoded limits fs t1 out' t2"
  shows "block_decoded limits (f # fs) t (out @ out') t2"
  unfolding block_decoded_def
proof (intro allI impI, elim conjE)
  fix d :: hpack_decoder and s :: hpack_loop and pre :: bytes
  assume s: "dec_limits d = limits" "hl_table s = t" "hl_metRequiredMinimum s" "hl_offset s = length pre"
    "hl_listBytes s + list_size (f # fs) \<le> maxHeaderListBytes limits"
  let ?s = "s\<lparr>hl_offset := length pre + length out, hl_headers := hl_headers s @ [field_header f],
                 hl_listBytes := hl_listBytes s + field_size f, hl_sawHeader := True, hl_table := t1\<rparr>"
  let ?block = "pre @ map to_uint8 (out @ out')"
  have step: "decodeStep d ?block s = Inr ?s"
    using f s list_size_nonneg [of fs] by (simp add: field_decoded_def)
  then have "hl_offset s < length ?block" using decodeStep_offset [OF step] s(4) by simp
  with step have "decodeLoop d ?block s = decodeLoop d ?block ?s"
    by (subst decodeLoop.simps) simp
  also have "\<dots> = decodeLoop d ((pre @ map to_uint8 out) @ map to_uint8 out') ?s" by simp
  also have "\<dots> = (None, ?s\<lparr>hl_offset := length (pre @ map to_uint8 out) + length out',
        hl_headers := hl_headers ?s @ map field_header fs, hl_listBytes := hl_listBytes ?s + list_size fs,
        hl_sawHeader := (hl_sawHeader ?s \<or> fs \<noteq> []), hl_table := t2\<rparr>)"
    by (rule fs [unfolded block_decoded_def, rule_format]) (use s in simp)
  finally show "decodeLoop d ?block s =
          (None, s\<lparr>hl_offset := length pre + length (out @ out'),
                   hl_headers := hl_headers s @ map field_header (f # fs),
                   hl_listBytes := hl_listBytes s + list_size (f # fs),
                   hl_sawHeader := (hl_sawHeader s \<or> f # fs \<noteq> []), hl_table := t2\<rparr>)"
    by (simp add: add.assoc)
qed

lemma encodeLoop_ok:
  assumes "table_inv t" "list_all (field_ok limits) fs" "limits_ok limits"
  shows "\<exists>out t'. (\<forall>acc. encodeLoop h fs acc t = (Inr (acc @ out), t')) \<and> table_inv t' \<and>
           capacityBytes t' = capacityBytes t \<and> block_decoded limits fs t out t'"
  using assms
proof (induction fs arbitrary: t)
  case Nil
  then show ?case using block_decoded_Nil by (intro exI [of _ "[]"] exI [of _ t]) simp
next
  case (Cons f fs)
  obtain out t1 where f: "encodeField h f t = Inr (out, t1)" "table_inv t1"
    "capacityBytes t1 = capacityBytes t" "field_decoded limits f t out t1"
    using encodeField_ok [of t limits f h] Cons.prems by auto
  obtain out' t2 where fs: "\<forall>acc. encodeLoop h fs acc t1 = (Inr (acc @ out'), t2)" "table_inv t2"
    "capacityBytes t2 = capacityBytes t1" "block_decoded limits fs t1 out' t2"
    using Cons.IH [OF f(2)] Cons.prems by auto
  show ?case
    using f fs block_decoded_Cons [OF f(4) fs(4)]
    by (intro exI [of _ "out @ out'"] exI [of _ t2]) simp
qed

section \<open>Lemmas: size updates\<close>

lemma decodeStep_update:
  assumes a: "int_written sz 5 32 a" and "\<not> hl_sawHeader s" "hl_sizeUpdates s < 2"
    "sz \<le> maximumAllowedTableSize d" "hl_offset s = length pre"
    "\<forall>r. requiredMinimumSize d = Some r \<longrightarrow> hl_sizeUpdates s = 0 \<longrightarrow> sz \<le> r"
  shows "decodeStep d (pre @ map to_uint8 a @ suf) s =
    Inr (s\<lparr>hl_offset := length pre + length a, hl_sizeUpdates := hl_sizeUpdates s + 1,
           hl_metRequiredMinimum := (hl_metRequiredMinimum s \<or>
              (requiredMinimumSize d \<noteq> None \<and> hl_sizeUpdates s = 0)),
           hl_table := setCapacity sz (hl_table s)\<rparr>)"
  using int_written_first [OF a, of pre "[]" suf] int_written_decode [OF a, of pre "[]" suf]
    first_byte_ranges(3) [of "hd a"] assms(2-)
  by (auto simp: decodeStep_def Let_def)

lemma decodeLoop_step:
  assumes "decodeStep d block s = Inr s'" and "hl_offset s' \<le> length block"
  shows "decodeLoop d block s = decodeLoop d block s'"
  using assms decodeStep_offset [OF assms(1)] by (subst decodeLoop.simps) simp

lemma setCapacity_same: "table_inv t \<Longrightarrow> 0 \<le> c \<Longrightarrow> c \<le> MAX_HPACK_INTEGER \<Longrightarrow>
    setCapacity c (setCapacity c t) = setCapacity c t"
  using setCapacity_eq [OF setCapacity_inv [of t c], of c] fitting_fitting_ge [of "stored t" c c]
  by (simp add: setCapacity_eq table_inv_def)

text \<open>The updates an encoder writes take the decoder through the same two capacities.\<close>

lemma writePending_ok:
  assumes d: "table_inv (dec_table d)" and mn: "0 \<le> mn" "mn \<le> final" "final \<le> MAX_HPACK_INTEGER"
    and e: "pendingMinimumSize e = Some mn" "pendingFinalSize e = Some final"
    and max: "maximumAllowedTableSize d = final"
    and req: "\<forall>r. requiredMinimumSize d = Some r \<longrightarrow> mn \<le> r"
  shows "\<exists>out n. writePending e = Inr out \<and>
    (\<forall>suf. decodeLoop d (map to_uint8 out @ suf) (decodeLoop_start d) =
       decodeLoop d (map to_uint8 out @ suf)
         ((decodeLoop_start d)\<lparr>hl_offset := length out, hl_sizeUpdates := n, hl_metRequiredMinimum := True,
            hl_table := setCapacity final (setCapacity mn (dec_table d))\<rparr>))"
proof -
  obtain a where a: "int_written mn 5 32 a" using int_written_ex [of mn 5 32] mn by auto
  obtain b where b: "int_written final 5 32 b" using int_written_ex [of final 5 32] mn by auto
  let ?s1 = "(decodeLoop_start d)\<lparr>hl_offset := length a, hl_sizeUpdates := 1, hl_metRequiredMinimum := True,
              hl_table := setCapacity mn (dec_table d)\<rparr>"
  have s1: "decodeLoop d (map to_uint8 a @ suf) (decodeLoop_start d) =
      decodeLoop d (map to_uint8 a @ suf) ?s1" for suf
  proof (rule decodeLoop_step)
    show "decodeStep d (map to_uint8 a @ suf) (decodeLoop_start d) = Inr ?s1"
      using decodeStep_update [OF a, of "decodeLoop_start d" d "[]" suf] mn max req
      by (auto simp: decodeLoop_start_def)
  qed simp
  show ?thesis
  proof (cases "mn = final")
    case True
    have "writePending e = Inr a"
      using a e True by (simp add: writePending_def int_written_def)
    then show ?thesis
      using s1 True mn setCapacity_same [OF d, of mn] by (intro exI [of _ a] exI [of _ 1]) auto
  next
    case False
    have "writePending e = Inr (a @ b)"
      using a b e False by (simp add: writePending_def int_written_def)
    moreover have "decodeLoop d (map to_uint8 a @ (map to_uint8 b @ suf)) ?s1 =
      decodeLoop d (map to_uint8 a @ (map to_uint8 b @ suf))
        (?s1\<lparr>hl_offset := length (a @ b), hl_sizeUpdates := 2,
             hl_table := setCapacity final (setCapacity mn (dec_table d))\<rparr>)" for suf
    proof (rule decodeLoop_step)
      show "decodeStep d (map to_uint8 a @ map to_uint8 b @ suf) ?s1 =
        Inr (?s1\<lparr>hl_offset := length (a @ b), hl_sizeUpdates := 2,
             hl_table := setCapacity final (setCapacity mn (dec_table d))\<rparr>)"
        using decodeStep_update [OF b, of ?s1 d "map to_uint8 a" suf] max
        by (simp add: decodeLoop_start_def)
    qed simp
    ultimately show ?thesis
      using s1 [of "map to_uint8 b @ _"]
      by (intro exI [of _ "a @ b"] exI [of _ 2]) (simp add: decodeLoop_start_def)
  qed
qed

section \<open>Lemmas: encoder and decoder in step\<close>

text \<open>
  The relation between the two ends of a connection: the tables agree once the size updates the
  encoder still owes have been applied, and those updates satisfy what the decoder requires.
\<close>

definition hpack_synced :: "hpack_encoder \<Rightarrow> hpack_decoder \<Rightarrow> bool" where
  "hpack_synced e d \<longleftrightarrow> table_inv (dec_table d) \<and> limits_ok (dec_limits d) \<and>
     (case (pendingMinimumSize e, pendingFinalSize e) of
        (None, None) \<Rightarrow> enc_table e = dec_table d \<and> requiredMinimumSize d = None \<and>
          capacityBytes (dec_table d) \<le> maximumAllowedTableSize d
      | (Some mn, Some final) \<Rightarrow> 0 \<le> mn \<and> mn \<le> final \<and> final \<le> MAX_HPACK_INTEGER \<and>
          maximumAllowedTableSize d = final \<and>
          enc_table e = setCapacity final (setCapacity mn (dec_table d)) \<and>
          (\<forall>r\<in>set_option (requiredMinimumSize d). mn \<le> r)
      | _ \<Rightarrow> False)"

lemma requireNonnegativeInteger_Inr:
  "requireNonnegativeInteger n = Inr u \<longleftrightarrow> 0 \<le> n \<and> n \<le> MAX_HPACK_INTEGER"
  using hpack_safe [of n] by (auto simp: requireNonnegativeInteger_def)

lemma validateLimits_Inr: "validateLimits limits = Inr u \<longleftrightarrow> limits_ok limits"
  by (auto simp: validateLimits_def res_bind_Inr_iff requireNonnegativeInteger_Inr limits_ok_def)

lemma hpack_synced_new:
  "newHpackEncoder m h = Inr e \<Longrightarrow> newHpackDecoder m limits = Inr d \<Longrightarrow> hpack_synced e d"
  by (auto simp: newHpackEncoder_def newHpackDecoder_def res_bind_Inr_iff requireNonnegativeInteger_Inr
      validateLimits_Inr hpack_synced_def newDynamicTable_def table_inv_def)

lemma stored_setCapacity:
  "table_inv t \<Longrightarrow> stored (setCapacity c t) = fitting c (stored t) \<and> capacityBytes (setCapacity c t) = c"
  by (simp add: setCapacity_eq)

lemma setCapacity_chain:
  assumes "table_inv t" "0 \<le> mn" "mn \<le> final" "final \<le> MAX_HPACK_INTEGER" "0 \<le> m" "m \<le> MAX_HPACK_INTEGER"
  shows "setCapacity m (setCapacity final (setCapacity mn t)) = setCapacity m (setCapacity (min mn m) t)"
proof -
  have ok: "list_all entry_ok (stored t)" using assms(1) by (simp add: table_inv_def)
  have inv: "table_inv (setCapacity mn t)" "table_inv (setCapacity (min mn m) t)"
    using assms by (auto intro!: setCapacity_inv)
  have inv': "table_inv (setCapacity final (setCapacity mn t))"
    using assms inv by (auto intro!: setCapacity_inv)
  have "fitting m (fitting final (fitting mn (stored t))) = fitting m (fitting (min mn m) (stored t))"
    using assms ok fitting_fitting_ge [of "stored t" mn final] fitting_fitting [of "stored t" m mn]
      fitting_fitting_ge [of "stored t" m m]
    by (cases "mn \<le> m") (simp_all add: min_def)
  then show ?thesis
    unfolding setCapacity_eq [OF inv', of m] setCapacity_eq [OF inv(2), of m]
    by (simp add: stored_setCapacity assms(1) inv)
qed

lemma hpack_synced_resize:
  assumes sync: "hpack_synced e d" and e: "encoder_setMaximumTableSize m e = Inr e'"
    and d: "decoder_setMaximumTableSize m d = Inr d'"
  shows "hpack_synced e' d'"
proof -
  have m: "0 \<le> m" "m \<le> MAX_HPACK_INTEGER"
    using e by (auto simp: encoder_setMaximumTableSize_def res_bind_Inr_iff requireNonnegativeInteger_Inr)
  have ok: "requireNonnegativeInteger m = Inr ()" using m by (simp add: requireNonnegativeInteger_Inr)
  have e': "e' = e\<lparr>pendingMinimumSize := Some (min (js_or_else (pendingMinimumSize e) m) m),
            pendingFinalSize := Some m, enc_table := setCapacity m (enc_table e)\<rparr>"
    using e ok by (simp add: encoder_setMaximumTableSize_def)
  have inv: "table_inv (dec_table d)" "limits_ok (dec_limits d)" using sync by (simp_all add: hpack_synced_def)
  have d': "dec_table d' = dec_table d" "maximumAllowedTableSize d' = m" "dec_limits d' = dec_limits d"
    "requiredMinimumSize d' = (if m < capacityBytes (dec_table d)
       then Some (min (js_or_else (requiredMinimumSize d) m) m) else requiredMinimumSize d)"
    using d ok by (auto simp: decoder_setMaximumTableSize_def Let_def)
  show ?thesis
  proof (cases "pendingFinalSize e")
    case None
    then have "pendingMinimumSize e = None" "enc_table e = dec_table d" "requiredMinimumSize d = None"
      using sync by (auto simp: hpack_synced_def split: option.splits)
    then show ?thesis
      using m inv setCapacity_same [OF inv(1) m] by (simp add: hpack_synced_def e' d')
  next
    case (Some final)
    then obtain mn where mn: "pendingMinimumSize e = Some mn" "0 \<le> mn" "mn \<le> final" "final \<le> MAX_HPACK_INTEGER"
      "enc_table e = setCapacity final (setCapacity mn (dec_table d))"
      "\<forall>r\<in>set_option (requiredMinimumSize d). mn \<le> r"
      using sync by (auto simp: hpack_synced_def split: option.splits)
    show ?thesis
      using m mn inv setCapacity_chain [OF inv(1) mn(2-4) m]
      by (cases "requiredMinimumSize d") (auto simp: hpack_synced_def e' d' min.coboundedI1)
  qed
qed

text \<open>
  One block through both ends: the decoder returns the fields, and the two ends agree again.
\<close>

lemma hpack_block:
  assumes sync: "hpack_synced e d" and fs: "list_all (field_ok (dec_limits d)) fs"
    and size: "list_size fs \<le> maxHeaderListBytes (dec_limits d)"
  shows "\<exists>block e' d'. encode fs e = (Inr block, e') \<and> decode block d = (Inr (map field_header fs), d') \<and>
           hpack_synced e' d' \<and> dec_limits d' = dec_limits d"
proof -
  let ?limits = "dec_limits d"
  have inv: "table_inv (dec_table d)" and lim: "limits_ok ?limits" using sync by (simp_all add: hpack_synced_def)
  define u where "u = (\<lambda>n out. (decodeLoop_start d)\<lparr>hl_offset := length (out :: int list), hl_sizeUpdates := n,
      hl_metRequiredMinimum := True, hl_table := enc_table e\<rparr>)"
  have pend: "table_inv (enc_table e) \<and> capacityBytes (enc_table e) \<le> maximumAllowedTableSize d \<and>
    (\<exists>out n. writePending e = Inr out \<and> (\<forall>suf. decodeLoop d (map to_uint8 out @ suf) (decodeLoop_start d) =
        decodeLoop d (map to_uint8 out @ suf) (u n out)))"
  proof (cases "pendingFinalSize e")
    case None
    then have "enc_table e = dec_table d" "requiredMinimumSize d = None"
      "capacityBytes (dec_table d) \<le> maximumAllowedTableSize d"
      using sync by (auto simp: hpack_synced_def split: option.splits)
    then show ?thesis using inv None
      by (intro conjI exI [of _ "[]"] exI [of _ 0])
        (simp_all add: u_def writePending_def decodeLoop_start_def)
  next
    case (Some final)
    then obtain mn where mn: "pendingMinimumSize e = Some mn" "0 \<le> mn" "mn \<le> final" "final \<le> MAX_HPACK_INTEGER"
      "maximumAllowedTableSize d = final" "enc_table e = setCapacity final (setCapacity mn (dec_table d))"
      "\<forall>r. requiredMinimumSize d = Some r \<longrightarrow> mn \<le> r"
      using sync by (auto simp: hpack_synced_def split: option.splits)
    have "table_inv (setCapacity mn (dec_table d))" using inv mn by (intro setCapacity_inv) auto
    then have "table_inv (enc_table e) \<and> capacityBytes (enc_table e) = final"
      using mn setCapacity_inv [of "setCapacity mn (dec_table d)" final]
        stored_setCapacity [of "setCapacity mn (dec_table d)" final] by simp
    then show ?thesis
      using writePending_ok [OF inv mn(2-4,1) Some mn(5,7)] mn(5,6) by (simp add: u_def)
  qed
  then obtain out0 n where out0: "writePending e = Inr out0"
    "\<And>suf. decodeLoop d (map to_uint8 out0 @ suf) (decodeLoop_start d) =
        decodeLoop d (map to_uint8 out0 @ suf) (u n out0)" by blast
  obtain out t' where loop: "\<forall>acc. encodeLoop (useHuffman e) fs acc (enc_table e) = (Inr (acc @ out), t')"
    "table_inv t'" "capacityBytes t' = capacityBytes (enc_table e)"
    "block_decoded ?limits fs (enc_table e) out t'"
    using encodeLoop_ok [of "enc_table e" ?limits fs "useHuffman e"] pend fs lim by auto
  let ?block = "map to_uint8 out0 @ map to_uint8 out"
  let ?e = "e\<lparr>pendingMinimumSize := None, pendingFinalSize := None, enc_table := t'\<rparr>"
  let ?d = "d\<lparr>dec_table := t', requiredMinimumSize := None\<rparr>"
  have "decodeLoop d (map to_uint8 out0 @ map to_uint8 out) (u n out0) =
      (None, (u n out0)\<lparr>hl_offset := length (map to_uint8 out0) + length out,
         hl_headers := hl_headers (u n out0) @ map field_header fs,
         hl_listBytes := hl_listBytes (u n out0) + list_size fs,
         hl_sawHeader := (hl_sawHeader (u n out0) \<or> fs \<noteq> []), hl_table := t'\<rparr>)"
    by (rule loop(4) [unfolded block_decoded_def, rule_format])
      (use size in \<open>simp add: u_def decodeLoop_start_def\<close>)
  then have "decode ?block d = (Inr (map field_header fs), ?d)"
    using out0(2) [of "map to_uint8 out"] by (simp add: decode_def u_def decodeLoop_start_def)
  moreover have "encode fs e = (Inr ?block, ?e)"
    using out0(1) loop(1) by (simp add: encode_def)
  moreover have "hpack_synced ?e ?d" using loop(2,3) pend lim by (simp add: hpack_synced_def)
  ultimately show ?thesis by fastforce
qed

section \<open>Lemmas: the decoder on arbitrary input\<close>

lemma decodeIntegerLoop_range:
  "decodeIntegerLoop n bs v sh k = Inr (r, k') \<Longrightarrow> 0 \<le> v \<Longrightarrow> v \<le> r \<and> r \<le> MAX_HPACK_INTEGER \<and> k' \<le> length bs"
proof (induction n arbitrary: v sh k)
  case (Suc n)
  obtain b where b: "readByte bs k = Inr (b, k + 1)" "k < length bs"
    using Suc.prems(1) by (auto simp: res_bind_Inr_iff readByte_def split: if_splits)
  let ?part = "js_and (uint b) 127 * 2 ^ sh"
  have part: "0 \<le> ?part" by (simp add: js_and_7f uint_byte_less)
  have ok: "\<not> (\<not> js_isSafeInteger ?part \<or> ?part > MAX_HPACK_INTEGER - v)"
    using Suc.prems(1) b by (auto simp: Let_def split: if_splits)
  show ?case
  proof (cases "js_and (uint b) 128 = 0")
    case True
    then show ?thesis using Suc.prems b part ok by auto
  next
    case False
    then have "decodeIntegerLoop n bs (v + ?part) (sh + 7) (k + 1) = Inr (r, k')"
      using Suc.prems(1) b(1) ok by simp
    from Suc.IH [OF this] show ?thesis using Suc.prems(2) part by simp
  qed
qed simp

lemma decodeHpackInteger_range:
  assumes "decodeHpackInteger bs k p = Inr (r, k')"
  shows "0 \<le> r \<and> r \<le> MAX_HPACK_INTEGER \<and> k' \<le> length bs"
proof -
  have p: "1 \<le> p" "p \<le> 8" using assms by (auto simp: decodeHpackInteger_def res_bind_Inr_iff)
  obtain b where b: "readByte bs k = Inr (b, k + 1)" "k < length bs"
    using assms by (auto simp: decodeHpackInteger_def Let_def res_bind_Inr_iff readByte_def split: if_splits)
  let ?v = "js_and (uint b) (2 ^ p - 1)"
  have "?v = uint b mod 2 ^ p" using p by (intro js_and_mask) (auto simp: uint_byte_less)
  moreover have "uint b mod 2 ^ p \<le> uint b" by (rule zmod_le_nonneg_dividend) simp
  ultimately have v: "0 \<le> ?v" "?v \<le> 255" using uint_byte_bounds(3) [of b] by (simp, linarith)
  show ?thesis
    using assms p b v decodeIntegerLoop_range [of 5 bs ?v 0 "k + 1" r k']
    by (auto simp: decodeHpackInteger_def Let_def MAX_HPACK_INTEGER_def split: if_splits)
qed

definition header_size :: "decoded_header \<Rightarrow> int" where
  "header_size h = int (length (dh_name h)) + int (length (dh_value h)) + 32"

definition decoder_inv :: "hpack_decoder \<Rightarrow> bool" where
  "decoder_inv d \<longleftrightarrow> table_inv (dec_table d) \<and> limits_ok (dec_limits d) \<and>
     (requiredMinimumSize d = None \<longrightarrow> capacityBytes (dec_table d) \<le> maximumAllowedTableSize d)"

definition loop_inv :: "hpack_decoder \<Rightarrow> hpack_loop \<Rightarrow> bool" where
  "loop_inv d s \<longleftrightarrow> table_inv (hl_table s) \<and>
     (hl_metRequiredMinimum s \<longrightarrow> capacityBytes (hl_table s) \<le> maximumAllowedTableSize d) \<and>
     hl_listBytes s = sum_list (map header_size (hl_headers s)) \<and>
     hl_listBytes s \<le> maxHeaderListBytes (dec_limits d) \<and>
     (requiredMinimumSize d = None \<longrightarrow> hl_metRequiredMinimum s)"

lemma staticEntry_ok: "staticEntry i = Some e \<Longrightarrow> entry_ok e"
proof -
  assume e: "staticEntry i = Some e"
  then have "1 \<le> i" "i \<le> 61" by (auto simp: staticEntry_def STATIC_TABLE_LENGTH_def split: if_splits)
  then have k: "nat (i - 1) < 61" "int (nat (i - 1)) + 1 = i" by auto
  show ?thesis
    using e staticEntry_eq [OF k(1)] byte_string_static [OF k(1)] k(2) by (auto simp: entry_ok_def)
qed

lemma resolveIndex_ok: "table_inv t \<Longrightarrow> resolveIndex t i = Inr e \<Longrightarrow> entry_ok e"
  by (auto simp: resolveIndex_def table_get_def js_at_def table_inv_def list_all_length
      split: if_splits option.splits dest: staticEntry_ok)

text \<open>The four kinds of iteration, as a case rule.\<close>

lemma decodeStep_cases:
  assumes "decodeStep d block s = Inr s'"
  obtains (indexed) e k where "hl_metRequiredMinimum s" "\<exists>i. resolveIndex (hl_table s) i = Inr e"
      "hl_listBytes s + sh_size e \<le> maxHeaderListBytes (dec_limits d)"
      "s' = pushHeader (sh_name e) (sh_value e) False
         (s\<lparr>hl_sawHeader := True, hl_listBytes := hl_listBytes s + sh_size e, hl_offset := k\<rparr>)"
  | (literal) name v n k t' never where "hl_metRequiredMinimum s" "entrySize name v = Inr n"
      "t' = hl_table s \<or> table_insert name v (hl_table s) = Inr t'"
      "hl_listBytes s + n \<le> maxHeaderListBytes (dec_limits d)"
      "s' = pushHeader name v never
         (s\<lparr>hl_sawHeader := True, hl_listBytes := hl_listBytes s + n, hl_offset := k, hl_table := t'\<rparr>)"
  | (update) n k met where "0 \<le> n" "n \<le> MAX_HPACK_INTEGER" "n \<le> maximumAllowedTableSize d"
      "hl_metRequiredMinimum s \<longrightarrow> met"
      "s' = s\<lparr>hl_offset := k, hl_sizeUpdates := hl_sizeUpdates s + 1, hl_metRequiredMinimum := met,
              hl_table := setCapacity n (hl_table s)\<rparr>"
proof -
  let ?first = "uint (js_or_else (js_at block (int (hl_offset s))) 0)"
  consider (a) "js_and ?first 128 \<noteq> 0" | (b) "js_and ?first 128 = 0" "js_and ?first 64 \<noteq> 0"
    | (c) "js_and ?first 128 = 0" "js_and ?first 64 = 0" "js_and ?first 32 \<noteq> 0"
    | (d) "js_and ?first 128 = 0" "js_and ?first 64 = 0" "js_and ?first 32 = 0" by blast
  then show thesis
  proof cases
    case a
    then show ?thesis
      using assms by (auto simp: decodeStep_def Let_def res_bind_Inr_iff countListBytes_def
          split: if_splits intro!: indexed)
  next
    case b
    then obtain name v k n t' where lit: "hl_metRequiredMinimum s" "entrySize name v = Inr n"
      "hl_listBytes s + n \<le> maxHeaderListBytes (dec_limits d)" "table_insert name v (hl_table s) = Inr t'"
      "s' = pushHeader name v False
         (s\<lparr>hl_sawHeader := True, hl_listBytes := hl_listBytes s + n, hl_offset := k, hl_table := t'\<rparr>)"
      using assms by (auto simp: decodeStep_def Let_def res_bind_Inr_iff countListBytes_def split: if_splits)
    then show ?thesis by (intro literal [of name v n t' False k]) auto
  next
    case c
    then obtain n k where n: "decodeHpackInteger block (hl_offset s) 5 = Inr (n, k)"
      "n \<le> maximumAllowedTableSize d"
      "s' = s\<lparr>hl_offset := k, hl_sizeUpdates := hl_sizeUpdates s + 1,
          hl_metRequiredMinimum := (hl_metRequiredMinimum s \<or>
             (requiredMinimumSize d \<noteq> None \<and> hl_sizeUpdates s + 1 = 1)),
          hl_table := setCapacity n (hl_table s)\<rparr>"
      using assms by (auto simp: decodeStep_def Let_def res_bind_Inr_iff split: if_splits)
    then show ?thesis using decodeHpackInteger_range [OF n(1)] by (intro update [OF _ _ n(2) _ n(3)]) auto
  next
    case d
    then obtain name v k n where lit: "hl_metRequiredMinimum s" "entrySize name v = Inr n"
      "hl_listBytes s + n \<le> maxHeaderListBytes (dec_limits d)"
      "s' = pushHeader name v (js_and ?first 16 \<noteq> 0)
         (s\<lparr>hl_sawHeader := True, hl_listBytes := hl_listBytes s + n, hl_offset := k\<rparr>)"
      using assms by (auto simp: decodeStep_def Let_def res_bind_Inr_iff countListBytes_def split: if_splits)
    then show ?thesis by (intro literal [of name v n "hl_table s"]) auto
  qed
qed

lemma decodeStep_inv:
  assumes "loop_inv d s" and "decodeStep d block s = Inr s'"
  shows "loop_inv d s'"
  using assms(2)
proof (cases rule: decodeStep_cases)
  case (indexed e k)
  then show ?thesis
    using assms(1) resolveIndex_ok [of "hl_table s" _ e]
    by (auto simp: loop_inv_def pushHeader_def header_size_def entry_ok_def)
next
  case (literal name v n k t' never)
  then show ?thesis
    using assms(1) table_insert_inv [of "hl_table s" name v t']
    by (auto simp: loop_inv_def pushHeader_def header_size_def entrySize_eq split: if_splits)
next
  case (update n k met)
  then show ?thesis
    using assms(1) setCapacity_inv [of "hl_table s" n] stored_setCapacity [of "hl_table s" n]
    by (auto simp: loop_inv_def)
qed

lemma decodeLoop_inv: "loop_inv d s \<Longrightarrow> decodeLoop d block s = (err, s') \<Longrightarrow> loop_inv d s'"
proof (induction d block s rule: decodeLoop.induct)
  case (1 d block s)
  show ?case
  proof (cases "hl_offset s < length block")
    case True
    show ?thesis
    proof (cases "decodeStep d block s")
      case (Inl e)
      then show ?thesis using True 1 by (simp add: decodeLoop.simps [of d block s])
    next
      case (Inr s1)
      then show ?thesis
        using True 1 decodeStep_inv [OF "1.prems"(1) Inr] by (simp add: decodeLoop.simps [of d block s])
    qed
  next
    case False
    then show ?thesis using 1 by (simp add: decodeLoop.simps [of d block s])
  qed
qed

lemma decode_safe:
  assumes d: "decoder_inv d" and dec: "decode block d = (r, d')"
  shows "decoder_inv d' \<and> maximumAllowedTableSize d' = maximumAllowedTableSize d \<and>
    dec_limits d' = dec_limits d \<and>
    (\<forall>hs. r = Inr hs \<longrightarrow> requiredMinimumSize d' = None \<and>
       sum_list (map header_size hs) \<le> maxHeaderListBytes (dec_limits d))"
proof -
  obtain err s where s: "decodeLoop d block (decodeLoop_start d) = (err, s)" by (cases "decodeLoop d block (decodeLoop_start d)")
  have "loop_inv d (decodeLoop_start d)"
    using d by (auto simp: decoder_inv_def loop_inv_def decodeLoop_start_def limits_ok_def)
  from decodeLoop_inv [OF this s] have "loop_inv d s" .
  then show ?thesis
    using dec s d by (auto simp: decode_def Let_def decoder_inv_def loop_inv_def split: option.splits if_splits)
qed

lemma decoder_setMaximumTableSize_inv:
  "decoder_inv d \<Longrightarrow> decoder_setMaximumTableSize m d = Inr d' \<Longrightarrow> decoder_inv d'"
  by (auto simp: decoder_setMaximumTableSize_def decoder_inv_def Let_def res_bind_Inr_iff)

lemma decoder_inv_new: "newHpackDecoder m limits = Inr d \<Longrightarrow> decoder_inv d"
  by (auto simp: newHpackDecoder_def decoder_inv_def res_bind_Inr_iff requireNonnegativeInteger_Inr
      validateLimits_Inr newDynamicTable_def table_inv_def)

text \<open>The searches of the static table, in the form that evaluates the table once.\<close>

lemma search_from_map: "search_from p (map f xs) i = search_from (\<lambda>x. p (f x)) xs i"
  by (induction xs arbitrary: i) auto

lemma search_from_cong:
  "(\<And>x. x \<in> set xs \<Longrightarrow> p x = q x) \<Longrightarrow> search_from p xs i = search_from q xs i"
  by (induction xs arbitrary: i) auto

lemma findStatic_code [code]:
  "findStatic name v = search_from (\<lambda>(n, w). n = name \<and> w = v) (zip STATIC_NAMES STATIC_VALUES) 0"
proof -
  have "zip STATIC_NAMES STATIC_VALUES = map (\<lambda>i. (STATIC_NAMES ! i, STATIC_VALUES ! i)) [0..<61]"
    by (rule nth_equalityI) simp_all
  then show ?thesis
    by (auto simp: findStatic_def search_from_map STATIC_TABLE_LENGTH_def intro: search_from_cong)
qed

lemma findStaticName_code [code]: "findStaticName name = search_from (\<lambda>n. n = name) STATIC_NAMES 0"
proof -
  have "STATIC_NAMES = map ((!) STATIC_NAMES) [0..<61]" by (rule nth_equalityI) simp_all
  from arg_cong [OF this, of "\<lambda>xs. search_from (\<lambda>n. n = name) xs 0"]
  have "search_from (\<lambda>n. n = name) STATIC_NAMES 0 =
      search_from (\<lambda>i. STATIC_NAMES ! i = name) [0..<61] 0"
    by (simp only: search_from_map)
  then show ?thesis
    by (auto simp: findStaticName_def STATIC_TABLE_LENGTH_def intro: search_from_cong)
qed

section \<open>Sessions\<close>

text \<open>
  The pairs of ends a connection can reach: both start with the same table size, a new limit is
  applied to both, Huffman coding may be switched, and every block one end encodes is decoded by the other.
\<close>

inductive hpack_session :: "hpack_limits \<Rightarrow> hpack_encoder \<Rightarrow> hpack_decoder \<Rightarrow> bool" for limits where
  start: "newHpackEncoder m h = Inr e \<Longrightarrow> newHpackDecoder m limits = Inr d \<Longrightarrow> hpack_session limits e d"
| resize: "hpack_session limits e d \<Longrightarrow> encoder_setMaximumTableSize m e = Inr e' \<Longrightarrow>
     decoder_setMaximumTableSize m d = Inr d' \<Longrightarrow> hpack_session limits e' d'"
| huffman: "hpack_session limits e d \<Longrightarrow> hpack_session limits (encoder_set_huffman h e) d"
| block: "hpack_session limits e d \<Longrightarrow> list_all (field_ok limits) fs \<Longrightarrow>
     list_size fs \<le> maxHeaderListBytes limits \<Longrightarrow> encode fs e = (Inr bs, e') \<Longrightarrow>
     decode bs d = (r, d') \<Longrightarrow> hpack_session limits e' d'"

definition block_ok :: "hpack_decoder \<Rightarrow> hpack_field list \<Rightarrow> bool" where
  "block_ok d fs \<longleftrightarrow> list_all (field_ok (dec_limits d)) fs \<and>
     list_size fs \<le> maxHeaderListBytes (dec_limits d)"

interpretation hpack: channel encode decode hpack_synced block_ok "map field_header"
proof
  fix e d fs assume "hpack_synced e d" "block_ok d fs"
  then obtain bs e' d' where "encode fs e = (Inr bs, e')" "decode bs d = (Inr (map field_header fs), d')"
    "hpack_synced e' d'" "dec_limits d' = dec_limits d"
    using hpack_block [of e d fs] by (auto simp: block_ok_def)
  then show "\<exists>w e' d'. encode fs e = (Inr w, e') \<and> decode w d = (Inr (map field_header fs), d') \<and>
      hpack_synced e' d' \<and> (\<forall>m'. block_ok d' m' = block_ok d m')"
    by (auto simp: block_ok_def)
qed

lemma hpack_session_synced: "hpack_session limits e d \<Longrightarrow> hpack_synced e d \<and> dec_limits d = limits"
proof (induction rule: hpack_session.induct)
  case (start m h e d)
  then show ?case
    using hpack_synced_new [OF start] by (auto simp: newHpackDecoder_def res_bind_Inr_iff)
next
  case (resize e d m e' d')
  then show ?case
    using hpack_synced_resize [of e d m e' d']
    by (auto simp: decoder_setMaximumTableSize_def res_bind_Inr_iff Let_def split: if_splits)
next
  case (huffman e d h)
  then show ?case by (auto simp: hpack_synced_def encoder_set_huffman_def split: option.splits)
next
  case (block e d fs bs e' r d')
  then show ?case using hpack_block [of e d fs] by auto
qed

section \<open>Properties\<close>

text \<open>
  C2: However the two ends of a connection came to their state, through table size changes and
  earlier header blocks, any further sequence of header lists within the limits arrives as it was
  sent: names and values unchanged, in order, with the never-indexed mark on exactly the fields
  the encoder marked, and the two ends stay in step.
\<close>

theorem hpack_session_roundtrip:
  assumes "hpack_session limits e d"
    and "\<And>fs. fs \<in> set blocks \<Longrightarrow> list_all (field_ok limits) fs \<and> list_size fs \<le> maxHeaderListBytes limits"
  shows "\<exists>e' d'. exchange encode decode blocks e d = (Inr (map (map field_header) blocks), e', d') \<and>
           hpack_synced e' d'"
  using hpack_session_synced [OF assms(1)] assms(2)
  by (intro hpack.exchange_all) (auto simp: block_ok_def list_all_iff)

lemma sample_encoder:
  "newHpackEncoder 4096 True = Inr \<lparr>enc_table = newDynamicTable 4096, pendingMinimumSize = None,
     pendingFinalSize = None, useHuffman = True\<rparr>"
  by code_simp

lemma sample_decoder:
  "newHpackDecoder 4096 defaultHpackLimits = Inr \<lparr>dec_table = newDynamicTable 4096,
     maximumAllowedTableSize = 4096, requiredMinimumSize = None, dec_limits = defaultHpackLimits\<rparr>"
  by code_simp

definition sample_field :: hpack_field where
  "sample_field = \<lparr>hf_name = js_string ''x-id'', hf_value = js_string ''7'', hf_indexing = None\<rparr>"

lemma sample_field_ok:
  "field_ok defaultHpackLimits sample_field \<and> field_size sample_field = 37"
  by (simp add: field_ok_def field_size_def sample_field_def defaultHpackLimits_def)

theorem hpack_session_roundtrip_witness:
  "\<exists>e' d'. exchange encode decode [[sample_field], [sample_field]]
       \<lparr>enc_table = newDynamicTable 4096, pendingMinimumSize = None, pendingFinalSize = None,
        useHuffman = True\<rparr>
       \<lparr>dec_table = newDynamicTable 4096, maximumAllowedTableSize = 4096, requiredMinimumSize = None,
        dec_limits = defaultHpackLimits\<rparr> =
     (Inr [[field_header sample_field], [field_header sample_field]], e', d') \<and> hpack_synced e' d'"
  using hpack_session_roundtrip [OF hpack_session.start [OF sample_encoder sample_decoder],
      of "[[sample_field], [sample_field]]"] sample_field_ok
  by (simp add: defaultHpackLimits_def)

text \<open>
  C3: On any bytes whatever, valid or not, the decoder keeps its invariant: the table's byte count
  is the sum of its entries' sizes and within the capacity, and no capacity above the advertised
  maximum survives a block that was accepted. An accepted block's header list is within the limit.
\<close>

theorem hpack_decode_safe:
  assumes "decoder_inv d" and "decode block d = (r, d')"
  shows "decoder_inv d' \<and>
    (\<forall>hs. r = Inr hs \<longrightarrow> capacityBytes (dec_table d') \<le> maximumAllowedTableSize d \<and>
       sum_list (map header_size hs) \<le> maxHeaderListBytes (dec_limits d))"
  using decode_safe [OF assms] by (auto simp: decoder_inv_def)

theorem hpack_decode_safe_witness:
  "decode [0x3f, 0xff, 0xff, 0xff, 0xff, 0xff] (projr (newHpackDecoder 4096 defaultHpackLimits)) =
     (Inl ProtocolError, projr (newHpackDecoder 4096 defaultHpackLimits)) \<and>
   decoder_inv (projr (newHpackDecoder 4096 defaultHpackLimits))"
proof -
  let ?d = "projr (newHpackDecoder 4096 defaultHpackLimits)"
  have dec: "decode [0x3f, 0xff, 0xff, 0xff, 0xff, 0xff] ?d = (Inl ProtocolError, ?d)" by code_simp
  have "decoder_inv ?d" using decoder_inv_new [OF sample_decoder] by (simp only: sample_decoder sum.sel)
  then show ?thesis using hpack_decode_safe [OF _ dec] dec by simp
qed

text \<open>
  C5: The dynamic table refines the table of RFC 7541: inserting an entry puts it in front and
  keeps the longest run of newest entries that fits the capacity (none, when the new entry alone
  does not fit), and changing the capacity keeps the longest run that fits the new one.
\<close>

theorem hpack_table_refines:
  assumes "table_inv t" and "byte_string name" and "byte_string v"
    and "0 \<le> c" and "c \<le> MAX_HPACK_INTEGER"
  shows "(\<exists>t'. table_insert name v t = Inr t' \<and> table_inv t' \<and> capacityBytes t' = capacityBytes t \<and>
        stored t' = fitting (capacityBytes t)
          (\<lparr>sh_name = name, sh_value = v, sh_size = int (length name) + int (length v) + 32\<rparr> # stored t)) \<and>
      table_inv (setCapacity c t) \<and> capacityBytes (setCapacity c t) = c \<and>
      stored (setCapacity c t) = fitting c (stored t)"
proof -
  obtain t' where t': "table_insert name v t = Inr t'" and st: "stored t' = fitting (capacityBytes t)
      (\<lparr>sh_name = name, sh_value = v, sh_size = int (length name) + int (length v) + 32\<rparr> # stored t)"
    using table_insert_eq [OF assms(1-3)] by simp
  show ?thesis
    using t' st table_insert_inv [OF assms(1) t'] setCapacity_inv [OF assms(1,4,5)]
      stored_setCapacity [OF assms(1), of c] by blast
qed

theorem hpack_table_refines_witness:
  "\<exists>t'. table_insert (js_string ''a'') (js_string ''b'') (newDynamicTable 40) = Inr t' \<and> table_inv t' \<and>
     stored t' = [\<lparr>sh_name = js_string ''a'', sh_value = js_string ''b'', sh_size = 34\<rparr>]"
proof -
  have "table_inv (newDynamicTable 40)" by (simp add: newDynamicTable_inv MAX_HPACK_INTEGER_def)
  from hpack_table_refines [OF this, of "js_string ''a''" "js_string ''b''" 0]
  show ?thesis by (auto simp: newDynamicTable_def MAX_HPACK_INTEGER_def)
qed

text \<open>
  Prefix integers round trip at every prefix width: what \<^verbatim>\<open>writeInteger\<close> writes under a
  prefix that leaves the low bits free, \<^verbatim>\<open>decodeHpackInteger\<close> reads back at any position of a
  block; the writer rejects exactly the numbers outside \<open>0\<close> to \<open>2 ^ 31 - 1\<close>.
\<close>

theorem hpack_integer_roundtrip:
  assumes "1 \<le> p" "p \<le> 8" "0 \<le> pfx" "2 ^ p dvd pfx" "pfx + 2 ^ p \<le> 256"
  shows "if 0 \<le> v \<and> v \<le> MAX_HPACK_INTEGER
     then \<exists>out. writeInteger v p pfx = Inr out \<and>
       decodeHpackInteger (pre @ map to_uint8 out @ suf) (length pre) p = Inr (v, length pre + length out)
     else writeInteger v p pfx = Inl RangeError"
proof (cases "0 \<le> v \<and> v \<le> MAX_HPACK_INTEGER")
  case True
  then obtain out where "int_written v p pfx out" using int_written_ex [of v p pfx] assms by auto
  with True show ?thesis by (auto simp: int_written_def)
next
  case False
  then show ?thesis by (auto simp: writeInteger_def requireNonnegativeInteger_def)
qed

theorem hpack_integer_roundtrip_witness:
  "\<exists>out. writeInteger 1337 5 32 = Inr out \<and>
     decodeHpackInteger ([7] @ map to_uint8 out @ [8]) 1 5 = Inr (1337, 1 + length out)"
  using hpack_integer_roundtrip [of 5 32 1337 "[7]" "[8]"] by (simp add: MAX_HPACK_INTEGER_def)

text \<open>
  Whatever the bytes, a prefix integer that is accepted is within \<open>0\<close> to \<open>2 ^ 31 - 1\<close>, and
  the cursor has moved forward and not beyond the end of the block.
\<close>

theorem hpack_integer_bounds:
  assumes "decodeHpackInteger bs k p = Inr (v, k')"
  shows "0 \<le> v \<and> v \<le> MAX_HPACK_INTEGER \<and> k < k' \<and> k' \<le> length bs"
  using decodeHpackInteger_range [OF assms] decodeHpackInteger_offset [OF assms] by simp

theorem hpack_integer_bounds_witness:
  "decodeHpackInteger [0x1f, 0x9a, 0x0a] 0 5 = Inr (1337, 3) \<and> (1337 :: int) \<le> MAX_HPACK_INTEGER"
proof -
  have "decodeHpackInteger [0x1f, 0x9a, 0x0a] 0 5 = Inr (1337, 3)" by code_simp
  with hpack_integer_bounds [OF this] show ?thesis by simp
qed

text \<open>
  A decoder whose limit was lowered below its table's capacity accepts no block, not even an
  empty one, that does not start with a table size update.
\<close>

theorem hpack_decode_requires_update:
  assumes "requiredMinimumSize d = Some r"
    and "block = [] \<or> (\<exists>b bs. block = b # bs \<and> (uint b \<ge> 64 \<or> uint b < 32))"
  shows "\<exists>d'. decode block d = (Inl ProtocolError, d') \<and> dec_table d' = dec_table d"
proof (cases block)
  case Nil
  then show ?thesis
    using assms(1) by (simp add: decode_def decodeLoop.simps decodeLoop_start_def)
next
  case (Cons b bs)
  have "js_and (uint b) 128 \<noteq> 0 \<or> js_and (uint b) 64 \<noteq> 0 \<or> js_and (uint b) 32 = 0"
    using assms(2) Cons first_byte_ranges [of "uint b"] uint_byte_bounds [of b] by fastforce
  moreover have start: "hl_offset (decodeLoop_start d) = 0" by (simp add: decodeLoop_start_def)
  ultimately have "decodeStep d block (decodeLoop_start d) = Inl ProtocolError"
    using assms(1) Cons by (auto simp: decodeStep_def decodeLoop_start_def Let_def)
  then have "decodeLoop d block (decodeLoop_start d) = (Some ProtocolError, decodeLoop_start d)"
    using Cons start by (subst decodeLoop.simps) simp
  then show ?thesis by (simp add: decode_def Let_def) (simp add: decodeLoop_start_def)
qed

theorem hpack_decode_requires_update_witness:
  "\<exists>d'. decode [0x82] (projr (res_bind (newHpackDecoder 4096 defaultHpackLimits)
            (decoder_setMaximumTableSize 100))) = (Inl ProtocolError, d')"
  using hpack_decode_requires_update [of "projr (res_bind (newHpackDecoder 4096 defaultHpackLimits)
      (decoder_setMaximumTableSize 100))" 100 "[0x82]"]
  by (auto simp: sample_decoder decoder_setMaximumTableSize_def requireNonnegativeInteger_def
      js_isSafeInteger_def MAX_SAFE_INTEGER_def MAX_HPACK_INTEGER_def newDynamicTable_def)

text \<open>
  An encoder that throws in the middle of a list does not undo what it did: the fields before
  the offending one stay in its table although no block was produced, and the next block it makes
  refers to an entry the decoder at the other end never received.
\<close>

definition bad_field :: hpack_field where
  "bad_field = \<lparr>hf_name = js_string ''x'', hf_value = [0x100], hf_indexing = None\<rparr>"

definition desync_run :: "bytes result \<times> bytes result \<times> decoded_header list result" where
  "desync_run =
     (let e = projr (newHpackEncoder 4096 False);
          (r1, e1) = encode [sample_field, bad_field] e;
          (r2, e2) = encode [sample_field] e1
      in (r1, r2, fst (decode (projr r2) (projr (newHpackDecoder 4096 defaultHpackLimits)))))"

theorem hpack_encoder_desync: "desync_run = (Inl TypeError, Inr [0xbe], Inl ProtocolError)"
  by code_simp

end
