(* ===== verification/Http1_Io.thy ===== *)
theory Http1_Io
  imports Byte_Strings
begin

text \<open>
  Buffered byte input and complete writes over a transport,
  \<^verbatim>\<open>runtime/web-platform/src/http1/io.ts\<close>. The transport (\<^verbatim>\<open>ByteConnection\<close>, an interface of the
  embedding host) is a parameter: \<open>read n c\<close> and \<open>write part c\<close> answer a call in the transport's
  state \<open>c\<close> and give its next state. An awaited call is an application of the parameter.
\<close>

section \<open>Definitions\<close>

type_synonym 'c read_fn = "nat \<Rightarrow> 'c \<Rightarrow> bytes option result \<times> 'c"
type_synonym 'c write_fn = "bytes \<Rightarrow> 'c \<Rightarrow> int result \<times> 'c"

record 'c buffered_reader =
  br_connection :: 'c
  br_buffer :: bytes
  br_position :: nat

definition newBufferedReader :: "'c \<Rightarrow> 'c buffered_reader" where
  "newBufferedReader c = \<lparr>br_connection = c, br_buffer = [], br_position = 0\<rparr>"

definition bufferedBytes :: "'c buffered_reader \<Rightarrow> nat" where
  "bufferedBytes r = length (br_buffer r) - br_position r"

text \<open>The last three statements of \<^verbatim>\<open>some\<close>, once the buffer holds data.\<close>

definition takeBuffered :: "int \<Rightarrow> 'c buffered_reader \<Rightarrow> bytes \<times> 'c buffered_reader" where
  "takeBuffered maxBytes r =
     (let end' = min (br_position r + nat maxBytes) (length (br_buffer r))
      in (js_slice (br_buffer r) (br_position r) end', r\<lparr>br_position := end'\<rparr>))"

definition some :: "'c read_fn \<Rightarrow> int \<Rightarrow> 'c buffered_reader \<Rightarrow> bytes option result \<times> 'c buffered_reader" where
  "some rd maxBytes r =
     (if maxBytes < 1 then (Inl RangeError, r)
      else if br_position r = length (br_buffer r)
      then (let n = min 65536 maxBytes; (answer, c) = rd (nat n) (br_connection r); r' = r\<lparr>br_connection := c\<rparr>
            in case answer of
                 Inl e \<Rightarrow> (Inl e, r')
               | Inr None \<Rightarrow> (Inr None, r')
               | Inr (Some data) \<Rightarrow>
                   (if length data = 0 \<or> int (length data) > n then (Inl ProtocolError, r')
                    else let (result, r'') = takeBuffered maxBytes (r'\<lparr>br_buffer := data, br_position := 0\<rparr>)
                         in (Inr (Some result), r'')))
      else let (result, r') = takeBuffered maxBytes r in (Inr (Some result), r'))"

text \<open>
  \<^verbatim>\<open>some\<close> returns an empty chunk only when the position is beyond the buffer (which no method
  leaves behind), and then the position is within the buffer afterwards; so the loops below end.
\<close>

definition overrun :: "'c buffered_reader \<Rightarrow> nat" where
  "overrun r = (if br_position r > length (br_buffer r) then 1 else 0)"

lemma some_progress:
  assumes "some rd n r = (Inr (Some chunk), r')"
  shows "int (length chunk) \<le> n" "overrun r' = 0" "chunk = [] \<Longrightarrow> overrun r = 1"
  using assms
  by (auto simp: some_def takeBuffered_def length_js_slice overrun_def js_slice_def Let_def
      split: if_splits sum.splits option.splits prod.splits)

lemma some_decreases:
  "some rd n r = (Inr (Some chunk), r') \<Longrightarrow> (\<exists>k. length chunk = Suc k) \<or> overrun r' < overrun r"
  using some_progress [of rd n r chunk r'] by (cases chunk) auto

function exactLoop ::
    "'c read_fn \<Rightarrow> nat \<Rightarrow> bytes \<Rightarrow> nat \<Rightarrow> 'c buffered_reader \<Rightarrow> bytes result \<times> 'c buffered_reader" where
  "exactLoop rd len result offset r =
     (if offset < len
      then (case some rd (int len - int offset) r of
              (Inl e, r') \<Rightarrow> (Inl e, r')
            | (Inr None, r') \<Rightarrow> (Inl ProtocolError, r')
            | (Inr (Some chunk), r') \<Rightarrow>
                (case typed_set result chunk offset of
                   Inl e \<Rightarrow> (Inl e, r')
                 | Inr result' \<Rightarrow> exactLoop rd len result' (offset + length chunk) r'))
      else (Inr result, r))"
  by pat_completeness auto
termination
  by (relation "measures [\<lambda>(rd, len, result, offset, r). len - offset, \<lambda>(rd, len, result, offset, r). overrun r]")
    (auto dest!: sym [where t = "some _ _ _"] some_decreases)

declare exactLoop.simps [simp del]

definition exact :: "'c read_fn \<Rightarrow> int \<Rightarrow> 'c buffered_reader \<Rightarrow> bytes result \<times> 'c buffered_reader" where
  "exact rd len r =
     (if \<not> js_isSafeInteger len \<or> len < 0 then (Inl RangeError, r)
      else exactLoop rd (nat len) (replicate (nat len) 0) 0 r)"

text \<open>\<^verbatim>\<open>indexOf(10, from)\<close>.\<close>

definition index_from :: "byte \<Rightarrow> bytes \<Rightarrow> nat \<Rightarrow> nat option" where
  "index_from b bs from' =
     (let k = length (takeWhile (\<lambda>x. x \<noteq> b) (drop from' bs))
      in if from' + k < length bs then Some (from' + k) else None)"

definition lineFill :: "'c read_fn \<Rightarrow> 'c buffered_reader \<Rightarrow> unit result \<times> 'c buffered_reader" where
  "lineFill rd r =
     (if br_position r = length (br_buffer r)
      then (let (answer, c) = rd 65536 (br_connection r); r' = r\<lparr>br_connection := c\<rparr>
            in case answer of
                 Inl e \<Rightarrow> (Inl e, r')
               | Inr None \<Rightarrow> (Inl ProtocolError, r')
               | Inr (Some chunk) \<Rightarrow>
                   (if length chunk = 0 \<or> length chunk > 65536 then (Inl ProtocolError, r')
                    else (Inr (), r'\<lparr>br_buffer := chunk, br_position := 0\<rparr>)))
      else (Inr (), r))"

definition finishLine :: "bytes list \<Rightarrow> nat \<Rightarrow> jsstring result" where
  "finishLine parts len =
     res_bind (if length parts = 1 then Inr (hd parts) else concatBytes parts (Some len)) (\<lambda>bytes.
     if length bytes < 2 \<or> bytes ! (length bytes - 2) \<noteq> 13 then Inl ProtocolError
     else Inr (latin1 (js_slice bytes 0 (length bytes - 2))))"

lemma lineFill_overrun: "lineFill rd r = (Inr u, r') \<Longrightarrow> br_position r' < length (br_buffer r') \<or> r' = r \<and> overrun r = 1"
  by (auto simp: lineFill_def overrun_def Let_def split: if_splits sum.splits option.splits prod.splits)

text \<open>The loop of \<^verbatim>\<open>line\<close>: every round adds at least one byte to the size, so the limit ends it.\<close>

function lineLoop ::
    "'c read_fn \<Rightarrow> nat \<Rightarrow> bytes list \<Rightarrow> nat \<Rightarrow> 'c buffered_reader \<Rightarrow> jsstring result \<times> 'c buffered_reader" where
  "lineLoop rd maxBytes parts len r =
     (case lineFill rd r of
        (Inl e, r') \<Rightarrow> (Inl e, r')
      | (Inr u, r') \<Rightarrow>
          (let lf = index_from 10 (br_buffer r') (br_position r');
               end' = (case lf of None \<Rightarrow> length (br_buffer r') | Some i \<Rightarrow> i + 1);
               part = js_slice (br_buffer r') (br_position r') end';
               r'' = r'\<lparr>br_position := end'\<rparr>;
               len' = len + length part
           in if len' > maxBytes then (Inl LimitError, r'')
              else if lf \<noteq> None then (finishLine (parts @ [part]) len', r'')
              else lineLoop rd maxBytes (parts @ [part]) len' r''))"
  by pat_completeness auto
termination
  by (relation "measures [\<lambda>(rd, maxBytes, parts, len, r). Suc maxBytes - len,
      \<lambda>(rd, maxBytes, parts, len, r). overrun r]")
    (auto dest!: sym [where t = "lineFill _ _"] lineFill_overrun
      simp: overrun_def length_js_slice index_from_def split: option.splits)

declare lineLoop.simps [simp del]

definition line :: "'c read_fn \<Rightarrow> nat \<Rightarrow> 'c buffered_reader \<Rightarrow> jsstring result \<times> 'c buffered_reader" where
  "line rd maxBytes r = lineLoop rd maxBytes [] 0 r"

function writeLoop :: "'c write_fn \<Rightarrow> bytes \<Rightarrow> nat \<Rightarrow> 'c \<Rightarrow> unit result \<times> 'c" where
  "writeLoop wr data offset c =
     (if offset < length data
      then (let part = js_slice data offset (min (offset + 65536) (length data)); (answer, c') = wr part c
            in case answer of
                 Inl e \<Rightarrow> (Inl e, c')
               | Inr written \<Rightarrow>
                   (if written \<le> 0 \<or> written > int (length part) then (Inl ProtocolError, c')
                    else writeLoop wr data (offset + nat written) c'))
      else (Inr (), c))"
  by pat_completeness auto
termination
  by (relation "measure (\<lambda>(wr, data, offset, c). length data - offset)") auto

declare writeLoop.simps [simp del]

definition writeAll :: "'c write_fn \<Rightarrow> bytes \<Rightarrow> 'c \<Rightarrow> unit result \<times> 'c" where
  "writeAll wr data c = writeLoop wr data 0 c"

section \<open>Lemmas: reading\<close>

text \<open>
  What the code relies on of a transport's \<^verbatim>\<open>read\<close>: it delivers the bytes of the peer in order, in
  non-empty pieces no longer than asked for, and reports the end when there are none left.
\<close>

definition transport_reads :: "'c read_fn \<Rightarrow> ('c \<Rightarrow> bytes) \<Rightarrow> bool" where
  "transport_reads rd content \<longleftrightarrow>
     (\<forall>n c. 0 < n \<longrightarrow>
        (case rd n c of
           (Inl e, c') \<Rightarrow> False
         | (Inr None, c') \<Rightarrow> content c = [] \<and> content c' = []
         | (Inr (Some d), c') \<Rightarrow> d \<noteq> [] \<and> length d \<le> n \<and> content c = d @ content c'))"

definition unread :: "('c \<Rightarrow> bytes) \<Rightarrow> 'c buffered_reader \<Rightarrow> bytes" where
  "unread content r = drop (br_position r) (br_buffer r) @ content (br_connection r)"

definition reader_ok :: "'c buffered_reader \<Rightarrow> bool" where
  "reader_ok r \<longleftrightarrow> br_position r \<le> length (br_buffer r)"

lemma reader_ok_new [simp]: "reader_ok (newBufferedReader c)" "unread content (newBufferedReader c) = content c"
  by (simp_all add: reader_ok_def unread_def newBufferedReader_def)

lemma transport_reads_cases:
  assumes "transport_reads rd content" and "0 < n"
  obtains (eof) c' where "rd n c = (Inr None, c')" "content c = []" "content c' = []"
  | (data) d c' where "rd n c = (Inr (Some d), c')" "d \<noteq> []" "length d \<le> n" "content c = d @ content c'"
proof -
  obtain a c' where rd: "rd n c = (a, c')" by (cases "rd n c")
  have law: "case rd n c of (Inl e, c') \<Rightarrow> False
         | (Inr None, c') \<Rightarrow> content c = [] \<and> content c' = []
         | (Inr (Some d), c') \<Rightarrow> d \<noteq> [] \<and> length d \<le> n \<and> content c = d @ content c'"
    using assms by (simp add: transport_reads_def)
  show thesis
  proof (cases a)
    case (Inr x)
    then show ?thesis using law rd eof data by (cases x) auto
  qed (use law in \<open>simp add: rd\<close>)
qed

lemma takeBuffered_ok:
  assumes "br_position r < length (br_buffer r)" and "1 \<le> n"
  shows "\<exists>chunk r'. takeBuffered n r = (chunk, r') \<and> chunk \<noteq> [] \<and> int (length chunk) \<le> n \<and> reader_ok r' \<and>
    unread content r = chunk @ unread content r'"
proof -
  let ?e = "min (br_position r + nat n) (length (br_buffer r))"
  have "drop (br_position r) (br_buffer r) =
      js_slice (br_buffer r) (br_position r) ?e @ drop ?e (br_buffer r)"
    using assms(1) by (intro drop_js_slice) simp
  then show ?thesis
    using assms by (auto simp: takeBuffered_def Let_def unread_def reader_ok_def length_js_slice js_slice_def)
qed

lemma some_ok:
  assumes tr: "transport_reads rd content" and r: "reader_ok r" and n: "1 \<le> n"
  shows "if unread content r = []
    then \<exists>r'. some rd n r = (Inr None, r')
    else \<exists>chunk r'. some rd n r = (Inr (Some chunk), r') \<and> chunk \<noteq> [] \<and> int (length chunk) \<le> n \<and>
      reader_ok r' \<and> unread content r = chunk @ unread content r'"
proof (cases "br_position r = length (br_buffer r)")
  case True
  have pos: "0 < nat (min 65536 n)" using n by simp
  from tr pos show ?thesis
  proof (cases rule: transport_reads_cases [where c = "br_connection r"])
    case (eof c')
    then show ?thesis using True n by (simp add: some_def unread_def)
  next
    case (data d c')
    let ?r = "r\<lparr>br_connection := c', br_buffer := d, br_position := 0\<rparr>"
    obtain chunk r' where t: "takeBuffered n ?r = (chunk, r')" "chunk \<noteq> []" "int (length chunk) \<le> n"
      "reader_ok r'" "unread content ?r = chunk @ unread content r'"
      using takeBuffered_ok [of ?r n content] data(2) n by auto
    have "\<not> min 65536 n < int (length d)" using data(3) n by (auto simp: le_nat_iff)
    then have "some rd n r = (Inr (Some chunk), r')"
      using True n data(1,2) t(1) by (simp add: some_def Let_def)
    moreover have "unread content r = unread content ?r" using True data(4) by (simp add: unread_def)
    ultimately show ?thesis using t(2-5) by auto
  qed
next
  case False
  then obtain chunk r' where t: "takeBuffered n r = (chunk, r')" "chunk \<noteq> []" "int (length chunk) \<le> n"
    "reader_ok r'" "unread content r = chunk @ unread content r'"
    using takeBuffered_ok [of r n content] r n by (auto simp: reader_ok_def)
  then show ?thesis using False n by (auto simp: some_def)
qed

lemma exactLoop_ok:
  assumes tr: "transport_reads rd content" and "reader_ok r" and "length result = len" and "offset \<le> len"
  shows "if len - offset \<le> length (unread content r)
    then \<exists>r'. exactLoop rd len result offset r =
        (Inr (take offset result @ take (len - offset) (unread content r)), r') \<and>
        reader_ok r' \<and> unread content r' = drop (len - offset) (unread content r)
    else \<exists>r'. exactLoop rd len result offset r = (Inl ProtocolError, r')"
  using assms
proof (induction rd len result offset r rule: exactLoop.induct)
  case (1 rd len result offset r)
  show ?case
  proof (cases "offset < len")
    case False
    then show ?thesis using "1.prems" by (simp add: exactLoop.simps [of rd])
  next
    case True
    show ?thesis
    proof (cases "unread content r = []")
      case True
      then show ?thesis
        using \<open>offset < len\<close> some_ok [OF "1.prems"(1,2), of "int len - int offset"]
        by (auto simp: exactLoop.simps [of rd])
    next
      case False
      then obtain chunk r' where s: "some rd (int len - int offset) r = (Inr (Some chunk), r')" "chunk \<noteq> []"
        "int (length chunk) \<le> int len - int offset" "reader_ok r'" "unread content r = chunk @ unread content r'"
        using \<open>offset < len\<close> some_ok [OF "1.prems"(1,2), of "int len - int offset"] by auto
      let ?result = "take offset result @ chunk @ drop (offset + length chunk) result"
      have fits: "offset + length chunk \<le> len" using s(3) by linarith
      then have set: "typed_set result chunk offset = Inr ?result"
        using "1.prems"(3) by (simp add: typed_set_def)
      have step: "exactLoop rd len result offset r = exactLoop rd len ?result (offset + length chunk) r'"
        using True s(1) set by (simp add: exactLoop.simps [of rd len result])
      have "take (offset + length chunk) ?result = take offset result @ chunk"
        using "1.prems"(3,4) by simp
      moreover have "length ?result = len" using "1.prems"(3) fits by simp
      ultimately show ?thesis
        unfolding step
        using "1.IH" [OF True s(1) [symmetric] refl refl set "1.prems"(1) s(4)] s(5) fits by auto
    qed
  qed
qed


lemma exact_ok:
  assumes "transport_reads rd content" and "reader_ok r" and "int n \<le> MAX_SAFE_INTEGER"
  shows "if n \<le> length (unread content r)
    then \<exists>r'. exact rd (int n) r = (Inr (take n (unread content r)), r') \<and> reader_ok r' \<and>
      unread content r' = drop n (unread content r)
    else \<exists>r'. exact rd (int n) r = (Inl ProtocolError, r')"
  using exactLoop_ok [OF assms(1,2), of "replicate n 0" n 0] assms(3)
  by (cases "n \<le> length (unread content r)") (simp_all add: exact_def js_isSafeInteger_def MAX_SAFE_INTEGER_def)

section \<open>Lemmas: lines\<close>

lemma index_from_none: "index_from b bs k = None \<longleftrightarrow> b \<notin> set (drop k bs)"
proof -
  have "length (takeWhile (\<lambda>x. x \<noteq> b) (drop k bs)) = length (drop k bs) \<longleftrightarrow> b \<notin> set (drop k bs)"
    using takeWhile_eq_all_conv [of "\<lambda>x. x \<noteq> b" "drop k bs"] length_takeWhile_le [of "\<lambda>x. x \<noteq> b" "drop k bs"]
    by (metis takeWhile_eq_take take_all_iff order_refl)
  then show ?thesis
    using length_takeWhile_le [of "\<lambda>x. x \<noteq> b" "drop k bs"] by (auto simp: index_from_def Let_def)
qed

lemma index_from_some:
  assumes "drop k bs = q @ b # rest" and "b \<notin> set q"
  shows "index_from b bs k = Some (k + length q)"
proof -
  have "takeWhile (\<lambda>x. x \<noteq> b) (drop k bs) = q"
    unfolding assms(1) using assms(2) by (subst takeWhile_append2) auto
  moreover have "k + length q < length bs" using arg_cong [OF assms(1), of length] by simp
  ultimately show ?thesis by (simp add: index_from_def)
qed

lemma lineFill_ok:
  assumes tr: "transport_reads rd content" and r: "reader_ok r" and "unread content r \<noteq> []"
  shows "\<exists>r'. lineFill rd r = (Inr (), r') \<and> br_position r' < length (br_buffer r') \<and>
    unread content r' = unread content r"
proof (cases "br_position r = length (br_buffer r)")
  case True
  have "0 < (65536 :: nat)" by simp
  from tr this show ?thesis
  proof (cases rule: transport_reads_cases [where c = "br_connection r"])
    case (eof c')
    then show ?thesis using True assms(3) by (simp add: unread_def)
  next
    case (data d c')
    then show ?thesis using True by (auto simp: lineFill_def unread_def Let_def)
  qed
next
  case False
  then show ?thesis using r by (simp add: lineFill_def reader_ok_def)
qed

lemma finishLine_eq:
  assumes "parts \<noteq> []"
  shows "finishLine parts (length (concat parts)) =
    (let bs = concat parts in
     if length bs < 2 \<or> bs ! (length bs - 2) \<noteq> 13 then Inl ProtocolError
     else Inr (latin1 (take (length bs - 2) bs)))"
proof -
  have "(if length parts = 1 then Inr (hd parts) else concatBytes parts (Some (length (concat parts)))) =
      Inr (concat parts)"
    by (cases parts) (use assms in \<open>auto simp: concatBytes_exact length_Suc_conv\<close>)
  then show ?thesis unfolding finishLine_def by (simp add: js_slice_def Let_def)
qed

lemma lineLoop_ok:
  assumes "transport_reads rd content" and "reader_ok r" and "unread content r = q @ 10 # rest"
    and "10 \<notin> set q" and "len = length (concat parts)" and "len + length q + 1 \<le> maxBytes"
  shows "\<exists>r' ps. lineLoop rd maxBytes parts len r = (finishLine ps (length (concat ps)), r') \<and> ps \<noteq> [] \<and>
    concat ps = concat parts @ q @ [10] \<and> reader_ok r' \<and> unread content r' = rest"
  using assms
proof (induction rd maxBytes parts len r arbitrary: q rule: lineLoop.induct)
  case (1 rd maxBytes parts len r)
  obtain r1 where f: "lineFill rd r = (Inr (), r1)" "br_position r1 < length (br_buffer r1)"
    "unread content r1 = q @ 10 # rest"
    using lineFill_ok [OF "1.prems"(1,2)] "1.prems"(3) by auto
  let ?d = "drop (br_position r1) (br_buffer r1)"
  have d: "?d @ content (br_connection r1) = q @ 10 # rest" using f(3) by (simp add: unread_def)
  show ?case
  proof (cases "index_from 10 (br_buffer r1) (br_position r1)")
    case None
    let ?r = "r1\<lparr>br_position := length (br_buffer r1)\<rparr>"
    have "10 \<notin> set ?d" using None by (simp add: index_from_none)
    then obtain q' where q': "q = ?d @ q'" "content (br_connection r1) = q' @ 10 # rest"
      using d by (auto simp: append_eq_append_conv2 append_eq_Cons_conv Cons_eq_append_conv)
    have part: "js_slice (br_buffer r1) (br_position r1) (length (br_buffer r1)) = ?d"
      by (rule js_slice_from)
    have "lineLoop rd maxBytes parts len r = lineLoop rd maxBytes (parts @ [?d]) (len + length ?d) ?r"
      using f(1) None part "1.prems"(6) q'(1) by (simp add: lineLoop.simps [of rd maxBytes parts] Let_def)
    moreover have "\<exists>r' ps. lineLoop rd maxBytes (parts @ [?d]) (len + length ?d) ?r =
        (finishLine ps (length (concat ps)), r') \<and> ps \<noteq> [] \<and>
        concat ps = concat (parts @ [?d]) @ q' @ [10] \<and> reader_ok r' \<and> unread content r' = rest"
      using "1.IH" [OF f(1) [symmetric] refl refl refl refl refl refl, of q'] None part "1.prems" q'
      by (simp add: unread_def reader_ok_def)
    ultimately show ?thesis using q'(1) by simp
  next
    case (Some i)
    then have "10 \<in> set ?d" using index_from_none [of 10 "br_buffer r1" "br_position r1"] by auto
    then obtain rest' where d': "?d = q @ 10 # rest'" "rest = rest' @ content (br_connection r1)"
      using d "1.prems"(4) by (auto simp: append_eq_append_conv2 append_eq_Cons_conv Cons_eq_append_conv)
    have i: "i = br_position r1 + length q" using Some index_from_some [OF d'(1) "1.prems"(4)] by simp
    have part: "js_slice (br_buffer r1) (br_position r1) (i + 1) = q @ [10]"
      by (simp add: js_slice_def i d'(1))
    have "drop (i + 1) (br_buffer r1) = drop (length q + 1) ?d" by (simp add: i add.commute add.left_commute)
    then have rest: "drop (i + 1) (br_buffer r1) = rest'" by (simp add: d'(1))
    have "i + 1 \<le> length (br_buffer r1)" using arg_cong [OF d'(1), of length] by (simp add: i)
    then show ?thesis
      using f(1) Some part "1.prems"(5,6) rest d'(2)
      by (intro exI [of _ "r1\<lparr>br_position := i + 1\<rparr>"] exI [of _ "parts @ [q @ [10]]"])
        (auto simp: lineLoop.simps [of rd maxBytes parts] unread_def reader_ok_def)
  qed
qed

section \<open>Lemmas: writing\<close>

text \<open>What the code relies on of \<^verbatim>\<open>write\<close>: the count it returns is how many bytes it took.\<close>

definition transport_writes :: "'c write_fn \<Rightarrow> ('c \<Rightarrow> bytes) \<Rightarrow> bool" where
  "transport_writes wr sent \<longleftrightarrow>
     (\<forall>part c n c'. wr part c = (Inr n, c') \<longrightarrow> sent c' = sent c @ take (nat n) part)"

lemma writeLoop_sent:
  assumes "transport_writes wr sent" and "writeLoop wr data offset c = (Inr u, c')" and "offset \<le> length data"
  shows "sent c' = sent c @ drop offset data"
  using assms
proof (induction wr data offset c rule: writeLoop.induct)
  case (1 wr data offset c)
  show ?case
  proof (cases "offset < length data")
    case False
    then show ?thesis using "1.prems"(2) by (simp add: writeLoop.simps [of wr])
  next
    case True
    define part where "part = js_slice data offset (min (offset + 65536) (length data))"
    obtain n c1 where n: "wr part c = (Inr n, c1)" "0 < n" "n \<le> int (length part)"
      "writeLoop wr data (offset + nat n) c1 = (Inr u, c')"
      using "1.prems"(2) True unfolding writeLoop.simps [of wr data offset] part_def
      by (auto simp: Let_def split: prod.splits sum.splits if_splits)
    have le: "offset + nat n \<le> length data" using n(2,3) True by (auto simp: part_def length_js_slice)
    have "sent c1 = sent c @ take (nat n) part" using "1.prems"(1) n(1) by (auto simp: transport_writes_def)
    moreover have "sent c' = sent c1 @ drop (offset + nat n) data"
      using "1.IH" [OF True part_def n(1) [symmetric] refl] n le "1.prems"(1) by simp
    moreover have "take (nat n) part = take (nat n) (drop offset data)"
    proof -
      have "nat n \<le> min (offset + 65536) (length data) - offset"
        using n(3) by (simp add: part_def length_js_slice)
      then show ?thesis by (simp add: part_def js_slice_def min_absorb1)
    qed
    ultimately show ?thesis using append_take_drop_id [of "nat n" "drop offset data"]
      by (simp add: add.commute)
  qed
qed

lemma writeLoop_total:
  assumes "\<And>part c. part \<noteq> [] \<Longrightarrow> \<exists>n c'. wr part c = (Inr n, c') \<and> 0 < n \<and> n \<le> int (length part)"
  shows "\<exists>c'. writeLoop wr data offset c = (Inr (), c')"
proof (induction "length data - offset" arbitrary: offset c rule: less_induct)
  case less
  show ?case
  proof (cases "offset < length data")
    case False
    then show ?thesis by (simp add: writeLoop.simps [of wr])
  next
    case True
    define part where "part = js_slice data offset (min (offset + 65536) (length data))"
    have "part \<noteq> []" using True by (simp add: part_def js_slice_def)
    then obtain n c1 where n: "wr part c = (Inr n, c1)" "0 < n" "n \<le> int (length part)"
      using assms by blast
    then have "writeLoop wr data offset c = writeLoop wr data (offset + nat n) c1"
      using True by (simp add: writeLoop.simps [of wr data offset] part_def)
    then show ?thesis using less [of "offset + nat n" c1] True n(2) by auto
  qed
qed

section \<open>Properties\<close>

text \<open>
  A transport for the witnesses: its state is what is left to deliver, at most three bytes at a
  time; written bytes are appended, at most two at a time.
\<close>

definition memory_read :: "bytes read_fn" where
  "memory_read n c = (if c = [] then (Inr None, []) else (Inr (Some (take (min n 3) c)), drop (min n 3) c))"

definition memory_write :: "bytes write_fn" where
  "memory_write part c = (Inr (int (min 2 (length part))), c @ take 2 part)"

lemma memory_reads: "transport_reads memory_read id"
  by (auto simp: transport_reads_def memory_read_def)

text \<open>
  \<^verbatim>\<open>exact\<close> delivers the next \<open>n\<close> bytes of the stream, whatever pieces the transport cuts it
  into, and leaves exactly the rest; when fewer are left it throws a protocol error.
\<close>

theorem exact_spec:
  assumes "transport_reads rd content" and "reader_ok r" and "int n \<le> MAX_SAFE_INTEGER"
  shows "if n \<le> length (unread content r)
    then \<exists>r'. exact rd (int n) r = (Inr (take n (unread content r)), r') \<and> reader_ok r' \<and>
      unread content r' = drop n (unread content r)
    else \<exists>r'. exact rd (int n) r = (Inl ProtocolError, r')"
  using exact_ok [OF assms] .

theorem exact_spec_witness:
  "\<exists>r'. exact memory_read 4 (newBufferedReader [1, 2, 3, 4, 5]) = (Inr [1, 2, 3, 4], r') \<and>
     unread id r' = [5]"
  using exact_spec [OF memory_reads reader_ok_new(1), of 4 "[1, 2, 3, 4, 5]"]
  by (auto simp: MAX_SAFE_INTEGER_def)

text \<open>
  \<^verbatim>\<open>line\<close> returns the bytes before the next CRLF as a string and leaves what follows it,
  however the transport cuts the stream, when the line and its terminator fit the limit.
\<close>

theorem line_spec:
  assumes "transport_reads rd content" and "reader_ok r" and "unread content r = l @ [13, 10] @ rest"
    and "10 \<notin> set l" and "length l + 2 \<le> maxBytes"
  shows "\<exists>r'. line rd maxBytes r = (Inr (latin1 l), r') \<and> reader_ok r' \<and> unread content r' = rest"
proof -
  obtain r' ps where "lineLoop rd maxBytes [] 0 r = (finishLine ps (length (concat ps)), r')" "ps \<noteq> []"
    "concat ps = (l @ [13]) @ [10]" "reader_ok r'" "unread content r' = rest"
    using lineLoop_ok [OF assms(1,2), of "l @ [13]" rest 0 "[]" maxBytes] assms(3-5) by auto
  then show ?thesis using finishLine_eq [of ps] by (simp add: line_def nth_append)
qed

theorem line_spec_witness:
  "\<exists>r'. line memory_read 10 (newBufferedReader [72, 105, 13, 10, 7]) = (Inr [72, 105], r') \<and>
     unread id r' = [7]"
proof -
  have "unread id (newBufferedReader [72, 105, 13, 10, 7 :: byte]) = [72, 105] @ [13, 10] @ [7]" by simp
  from line_spec [OF memory_reads reader_ok_new(1) this, of 10]
  show ?thesis by (auto simp: latin1_eq)
qed

text \<open>
  A successful \<^verbatim>\<open>writeAll\<close> has handed every byte to the transport, once and in order, and it
  succeeds on every transport that makes progress.
\<close>

theorem writeAll_spec:
  assumes "transport_writes wr sent"
  shows "(\<forall>c'. writeAll wr data c = (Inr (), c') \<longrightarrow> sent c' = sent c @ data) \<and>
    ((\<forall>part c. part \<noteq> [] \<longrightarrow> (\<exists>n c'. wr part c = (Inr n, c') \<and> 0 < n \<and> n \<le> int (length part))) \<longrightarrow>
     (\<exists>c'. writeAll wr data c = (Inr (), c')))"
  using writeLoop_sent [OF assms, of data 0 c] writeLoop_total [of wr data 0 c] by (auto simp: writeAll_def)

theorem writeAll_spec_witness:
  "\<exists>c'. writeAll memory_write [1, 2, 3, 4, 5] [0] = (Inr (), c') \<and> c' = [0, 1, 2, 3, 4, 5]"
proof -
  have "transport_writes memory_write id"
    by (auto simp: transport_writes_def memory_write_def min_def)
  from writeAll_spec [OF this, of "[1, 2, 3, 4, 5]" "[0]"]
  show ?thesis by (force simp: memory_write_def)
qed

end
