(* ===== verification/Http2_Frame.thy ===== *)
theory Http2_Frame
  imports Byte_Strings Http1_Io
begin

text \<open>
  HTTP/2 frames, \<^verbatim>\<open>runtime/web-platform/src/http2/frame.ts\<close>: the frame envelope, the payload
  parsers and their validation, the payload encoders, and \<^verbatim>\<open>Http2HeaderBlockAssembler\<close>, which
  joins a HEADERS or PUSH\_PROMISE frame with its CONTINUATION frames. The constants keep the
  names of the source without the prefix \<^verbatim>\<open>HTTP2_\<close>.
\<close>

section \<open>Definitions: constants and data\<close>

definition FRAME_DATA :: int where "FRAME_DATA = 0"
definition FRAME_HEADERS :: int where "FRAME_HEADERS = 1"
definition FRAME_PRIORITY :: int where "FRAME_PRIORITY = 2"
definition FRAME_RST_STREAM :: int where "FRAME_RST_STREAM = 3"
definition FRAME_SETTINGS :: int where "FRAME_SETTINGS = 4"
definition FRAME_PUSH_PROMISE :: int where "FRAME_PUSH_PROMISE = 5"
definition FRAME_PING :: int where "FRAME_PING = 6"
definition FRAME_GOAWAY :: int where "FRAME_GOAWAY = 7"
definition FRAME_WINDOW_UPDATE :: int where "FRAME_WINDOW_UPDATE = 8"
definition FRAME_CONTINUATION :: int where "FRAME_CONTINUATION = 9"

definition FLAG_END_STREAM :: int where "FLAG_END_STREAM = 1"
definition FLAG_ACK :: int where "FLAG_ACK = 1"
definition FLAG_END_HEADERS :: int where "FLAG_END_HEADERS = 4"
definition FLAG_PADDED :: int where "FLAG_PADDED = 8"
definition FLAG_PRIORITY :: int where "FLAG_PRIORITY = 32"

definition NO_ERROR :: int where "NO_ERROR = 0"
definition PROTOCOL_ERROR :: int where "PROTOCOL_ERROR = 1"
definition INTERNAL_ERROR :: int where "INTERNAL_ERROR = 2"
definition FLOW_CONTROL_ERROR :: int where "FLOW_CONTROL_ERROR = 3"
definition STREAM_CLOSED :: int where "STREAM_CLOSED = 5"
definition FRAME_SIZE_ERROR :: int where "FRAME_SIZE_ERROR = 6"
definition REFUSED_STREAM :: int where "REFUSED_STREAM = 7"
definition CANCEL :: int where "CANCEL = 8"
definition COMPRESSION_ERROR :: int where "COMPRESSION_ERROR = 9"
definition ENHANCE_YOUR_CALM :: int where "ENHANCE_YOUR_CALM = 11"

definition SETTING_HEADER_TABLE_SIZE :: int where "SETTING_HEADER_TABLE_SIZE = 1"
definition SETTING_ENABLE_PUSH :: int where "SETTING_ENABLE_PUSH = 2"
definition SETTING_MAX_CONCURRENT_STREAMS :: int where "SETTING_MAX_CONCURRENT_STREAMS = 3"
definition SETTING_INITIAL_WINDOW_SIZE :: int where "SETTING_INITIAL_WINDOW_SIZE = 4"
definition SETTING_MAX_FRAME_SIZE :: int where "SETTING_MAX_FRAME_SIZE = 5"
definition SETTING_MAX_HEADER_LIST_SIZE :: int where "SETTING_MAX_HEADER_LIST_SIZE = 6"
definition SETTING_ENABLE_CONNECT_PROTOCOL :: int where "SETTING_ENABLE_CONNECT_PROTOCOL = 8"

definition DEFAULT_FRAME_SIZE :: int where "DEFAULT_FRAME_SIZE = 16384"
definition MAX_FRAME_SIZE :: int where "MAX_FRAME_SIZE = 0xffffff"
definition DEFAULT_WINDOW_SIZE :: int where "DEFAULT_WINDOW_SIZE = 65535"
definition MAX_WINDOW_SIZE :: int where "MAX_WINDOW_SIZE = 0x7fffffff"

lemmas http2_frame_types = FRAME_DATA_def FRAME_HEADERS_def FRAME_PRIORITY_def FRAME_RST_STREAM_def
  FRAME_SETTINGS_def FRAME_PUSH_PROMISE_def FRAME_PING_def FRAME_GOAWAY_def FRAME_WINDOW_UPDATE_def
  FRAME_CONTINUATION_def

lemmas http2_flags = FLAG_END_STREAM_def FLAG_ACK_def FLAG_END_HEADERS_def FLAG_PADDED_def FLAG_PRIORITY_def

lemmas http2_limits = DEFAULT_FRAME_SIZE_def MAX_FRAME_SIZE_def MAX_WINDOW_SIZE_def

record http2_frame =
  fr_type :: int
  fr_flags :: int
  fr_streamId :: int
  fr_payload :: bytes

record http2_setting =
  se_identifier :: int
  se_value :: int

record http2_priority =
  pr_exclusive :: bool
  pr_streamDependency :: int
  pr_weight :: int

record http2_data_payload =
  dp_data :: bytes
  dp_paddingBytes :: int

record http2_headers_payload =
  hp_fragment :: bytes
  hp_paddingBytes :: int
  hp_priority :: "http2_priority option"

record http2_push_payload =
  pp_promisedStreamId :: int
  pp_fragment :: bytes
  pp_paddingBytes :: int

record http2_goaway_payload =
  ga_lastStreamId :: int
  ga_errorCode :: int
  ga_debugData :: bytes

datatype header_kind = HeadersKind | PushPromiseKind

record http2_header_block =
  hb_kind :: header_kind
  hb_streamId :: int
  hb_endStream :: bool
  hb_promisedStreamId :: "int option"
  hb_priority :: "http2_priority option"
  hb_block :: bytes

section \<open>Definitions: checks and integers\<close>

definition requireByte :: "int \<Rightarrow> unit result" where
  "requireByte v = res_guard (\<not> (v < 0 \<or> v > 255)) RangeError"

definition requireStreamId :: "int \<Rightarrow> unit result" where
  "requireStreamId v = res_guard (\<not> (v < 0 \<or> v > MAX_WINDOW_SIZE)) RangeError"

definition requireFrameLimit :: "int \<Rightarrow> unit result" where
  "requireFrameLimit v = res_guard (\<not> (v < DEFAULT_FRAME_SIZE \<or> v > MAX_FRAME_SIZE)) RangeError"

definition frameSizeError :: "'a result" where
  "frameSizeError = Inl (Http2WireError FRAME_SIZE_ERROR None)"

definition protocolError :: "'a result" where
  "protocolError = Inl (Http2WireError PROTOCOL_ERROR None)"

definition readUint32 :: "bytes \<Rightarrow> nat \<Rightarrow> int result" where
  "readUint32 bs offset =
     (case (js_at bs (int offset), js_at bs (int offset + 1), js_at bs (int offset + 2), js_at bs (int offset + 3)) of
        (Some a, Some b, Some c, Some d) \<Rightarrow> Inr (uint a * 0x1000000 + uint b * 0x10000 + uint c * 0x100 + uint d)
      | _ \<Rightarrow> frameSizeError)"

text \<open>A write beyond the end of a typed array is ignored, as \<open>list_update\<close> does.\<close>

definition writeUint32 :: "bytes \<Rightarrow> nat \<Rightarrow> int \<Rightarrow> bytes" where
  "writeUint32 bs offset v =
     bs[offset := to_uint8 (js_and (v div 0x1000000) 255),
        offset + 1 := to_uint8 (js_and (v div 0x10000) 255),
        offset + 2 := to_uint8 (js_and (v div 0x100) 255),
        offset + 3 := to_uint8 (js_and v 255)]"

definition requireConnectionFrame :: "http2_frame \<Rightarrow> unit result" where
  "requireConnectionFrame f = (if fr_streamId f \<noteq> 0 then protocolError else Inr ())"

definition requireStreamFrame :: "http2_frame \<Rightarrow> unit result" where
  "requireStreamFrame f = (if fr_streamId f = 0 then protocolError else Inr ())"

definition requireLength :: "http2_frame \<Rightarrow> nat \<Rightarrow> unit result" where
  "requireLength f n = (if length (fr_payload f) \<noteq> n then frameSizeError else Inr ())"

text \<open>\<^verbatim>\<open>paddedRange\<close> returns the start, the end and the number of padding bytes.\<close>

definition paddedRange :: "bytes \<Rightarrow> nat \<Rightarrow> bool \<Rightarrow> (nat \<times> nat \<times> int) result" where
  "paddedRange payload offset padded =
     res_bind (if padded
               then (case js_at payload 0 of None \<Rightarrow> frameSizeError | Some count \<Rightarrow> Inr (offset + 1, uint count))
               else Inr (offset, 0)) (\<lambda>(start, paddingBytes).
     let end' = int (length payload) - paddingBytes
     in if end' < int start then protocolError else Inr (start, nat end', paddingBytes))"

section \<open>Definitions: payloads\<close>

definition parseHttp2Data :: "http2_frame \<Rightarrow> http2_data_payload result" where
  "parseHttp2Data f =
     res_bind (requireStreamFrame f) (\<lambda>_.
     res_bind (paddedRange (fr_payload f) 0 (js_and (fr_flags f) FLAG_PADDED \<noteq> 0)) (\<lambda>(start, end', padding).
     Inr \<lparr>dp_data = js_slice (fr_payload f) start end', dp_paddingBytes = padding\<rparr>))"

definition parsePriorityFields :: "bytes \<Rightarrow> nat \<Rightarrow> http2_priority result" where
  "parsePriorityFields payload offset =
     res_bind (readUint32 payload offset) (\<lambda>rawDependency.
     Inr \<lparr>pr_exclusive = (rawDependency \<ge> 0x80000000),
          pr_streamDependency = js_and rawDependency MAX_WINDOW_SIZE,
          pr_weight = uint (js_or_else (js_at payload (int offset + 4)) 0) + 1\<rparr>)"

definition requireNonSelfDependency :: "http2_priority \<Rightarrow> int \<Rightarrow> unit result" where
  "requireNonSelfDependency p own =
     (if pr_streamDependency p = own then Inl (Http2WireError PROTOCOL_ERROR (Some own)) else Inr ())"

definition parseHttp2Priority :: "http2_frame \<Rightarrow> http2_priority result" where
  "parseHttp2Priority f =
     res_bind (requireStreamFrame f) (\<lambda>_.
     res_bind (requireLength f 5) (\<lambda>_.
     res_bind (parsePriorityFields (fr_payload f) 0) (\<lambda>priority.
     res_bind (requireNonSelfDependency priority (fr_streamId f)) (\<lambda>_. Inr priority))))"

definition parseHttp2Headers :: "http2_frame \<Rightarrow> http2_headers_payload result" where
  "parseHttp2Headers f =
     res_bind (requireStreamFrame f) (\<lambda>_.
     res_bind (paddedRange (fr_payload f) 0 (js_and (fr_flags f) FLAG_PADDED \<noteq> 0)) (\<lambda>(start, end', padding).
     res_bind (if js_and (fr_flags f) FLAG_PRIORITY \<noteq> 0
               then (if int end' - int start < 5 then frameSizeError
                     else res_bind (parsePriorityFields (fr_payload f) start) (\<lambda>p. Inr (start + 5, Some p)))
               else Inr (start, None)) (\<lambda>(start', priority).
     Inr \<lparr>hp_fragment = js_slice (fr_payload f) start' end', hp_paddingBytes = padding, hp_priority = priority\<rparr>)))"

definition parseHttp2PushPromise :: "http2_frame \<Rightarrow> http2_push_payload result" where
  "parseHttp2PushPromise f =
     res_bind (requireStreamFrame f) (\<lambda>_.
     res_bind (paddedRange (fr_payload f) 0 (js_and (fr_flags f) FLAG_PADDED \<noteq> 0)) (\<lambda>(start, end', padding).
     if int end' - int start < 4 then frameSizeError
     else res_bind (readUint32 (fr_payload f) start) (\<lambda>raw.
          let promised = js_and raw MAX_WINDOW_SIZE
          in if promised = 0 then protocolError
             else Inr \<lparr>pp_promisedStreamId = promised, pp_fragment = js_slice (fr_payload f) (start + 4) end',
                       pp_paddingBytes = padding\<rparr>)))"

definition validateHttp2Setting :: "int \<Rightarrow> int \<Rightarrow> unit result" where
  "validateHttp2Setting identifier v =
     (if (identifier = SETTING_ENABLE_PUSH \<or> identifier = SETTING_ENABLE_CONNECT_PROTOCOL) \<and> v \<noteq> 0 \<and> v \<noteq> 1
      then protocolError
      else if identifier = SETTING_INITIAL_WINDOW_SIZE \<and> v > MAX_WINDOW_SIZE
      then Inl (Http2WireError FLOW_CONTROL_ERROR None)
      else if identifier = SETTING_MAX_FRAME_SIZE \<and> (v < DEFAULT_FRAME_SIZE \<or> v > MAX_FRAME_SIZE)
      then protocolError
      else Inr ())"

function settingsLoop :: "bytes \<Rightarrow> nat \<Rightarrow> http2_setting list \<Rightarrow> http2_setting list result" where
  "settingsLoop payload offset settings =
     (if offset < length payload
      then (let identifier = uint (js_or_else (js_at payload (int offset)) 0) * 0x100 +
                             uint (js_or_else (js_at payload (int offset + 1)) 0)
            in res_bind (readUint32 payload (offset + 2)) (\<lambda>v.
               res_bind (validateHttp2Setting identifier v) (\<lambda>_.
               settingsLoop payload (offset + 6) (settings @ [\<lparr>se_identifier = identifier, se_value = v\<rparr>]))))
      else Inr settings)"
  by pat_completeness auto
termination
  by (relation "measure (\<lambda>(payload, offset, settings). length payload - offset)") auto

declare settingsLoop.simps [simp del]

definition parseHttp2Settings :: "http2_frame \<Rightarrow> http2_setting list result" where
  "parseHttp2Settings f =
     res_bind (requireConnectionFrame f) (\<lambda>_.
     if js_and (fr_flags f) FLAG_ACK \<noteq> 0 \<and> length (fr_payload f) \<noteq> 0 then frameSizeError
     else if length (fr_payload f) mod 6 \<noteq> 0 then frameSizeError
     else settingsLoop (fr_payload f) 0 [])"

definition parseHttp2WindowUpdate :: "http2_frame \<Rightarrow> int result" where
  "parseHttp2WindowUpdate f =
     res_bind (requireLength f 4) (\<lambda>_.
     res_bind (readUint32 (fr_payload f) 0) (\<lambda>raw.
     let increment = js_and raw MAX_WINDOW_SIZE
     in if increment = 0
        then Inl (Http2WireError PROTOCOL_ERROR (if fr_streamId f = 0 then None else Some (fr_streamId f)))
        else Inr increment))"

definition parseHttp2GoAway :: "http2_frame \<Rightarrow> http2_goaway_payload result" where
  "parseHttp2GoAway f =
     res_bind (requireConnectionFrame f) (\<lambda>_.
     if length (fr_payload f) < 8 then frameSizeError
     else res_bind (readUint32 (fr_payload f) 0) (\<lambda>last.
          res_bind (readUint32 (fr_payload f) 4) (\<lambda>code.
          Inr \<lparr>ga_lastStreamId = js_and last MAX_WINDOW_SIZE, ga_errorCode = code,
               ga_debugData = drop 8 (fr_payload f)\<rparr>)))"

definition parseHttp2RstStream :: "http2_frame \<Rightarrow> int result" where
  "parseHttp2RstStream f =
     res_bind (requireStreamFrame f) (\<lambda>_.
     res_bind (requireLength f 4) (\<lambda>_. readUint32 (fr_payload f) 0))"

definition res_unit :: "'a result \<Rightarrow> unit result" where
  "res_unit m = res_bind m (\<lambda>_. Inr ())"

definition validateHttp2Frame :: "http2_frame \<Rightarrow> int \<Rightarrow> unit result" where
  "validateHttp2Frame f maximumFrameSize =
     res_bind (requireByte (fr_type f)) (\<lambda>_.
     res_bind (requireByte (fr_flags f)) (\<lambda>_.
     res_bind (requireStreamId (fr_streamId f)) (\<lambda>_.
     res_bind (requireFrameLimit maximumFrameSize) (\<lambda>_.
     if int (length (fr_payload f)) > maximumFrameSize then frameSizeError
     else if fr_type f = FRAME_DATA then res_unit (parseHttp2Data f)
     else if fr_type f = FRAME_HEADERS then
       res_bind (parseHttp2Headers f) (\<lambda>headers.
         case hp_priority headers of None \<Rightarrow> Inr () | Some p \<Rightarrow> requireNonSelfDependency p (fr_streamId f))
     else if fr_type f = FRAME_PRIORITY then res_unit (parseHttp2Priority f)
     else if fr_type f = FRAME_RST_STREAM then res_unit (parseHttp2RstStream f)
     else if fr_type f = FRAME_SETTINGS then res_unit (parseHttp2Settings f)
     else if fr_type f = FRAME_PUSH_PROMISE then res_unit (parseHttp2PushPromise f)
     else if fr_type f = FRAME_PING then
       res_bind (requireConnectionFrame f) (\<lambda>_. requireLength f 8)
     else if fr_type f = FRAME_GOAWAY then res_unit (parseHttp2GoAway f)
     else if fr_type f = FRAME_WINDOW_UPDATE then res_unit (parseHttp2WindowUpdate f)
     else if fr_type f = FRAME_CONTINUATION then requireStreamFrame f
     else Inr ()))))"

section \<open>Definitions: the envelope\<close>

definition encodeHttp2Frame :: "http2_frame \<Rightarrow> int \<Rightarrow> bytes result" where
  "encodeHttp2Frame f maximumFrameSize =
     res_bind (requireByte (fr_type f)) (\<lambda>_.
     res_bind (requireByte (fr_flags f)) (\<lambda>_.
     res_bind (requireStreamId (fr_streamId f)) (\<lambda>_.
     res_bind (requireFrameLimit maximumFrameSize) (\<lambda>_.
     if int (length (fr_payload f)) > maximumFrameSize then Inl LimitError
     else res_bind (validateHttp2Frame f maximumFrameSize) (\<lambda>_.
       let len = int (length (fr_payload f));
           output = (replicate (9 + length (fr_payload f)) 0)
             [0 := to_uint8 (js_and (len div 0x10000) 255),
              1 := to_uint8 (js_and (len div 0x100) 255),
              2 := to_uint8 (js_and len 255),
              3 := to_uint8 (fr_type f),
              4 := to_uint8 (fr_flags f)];
           output' = writeUint32 output 5 (fr_streamId f)
       in typed_set output' (fr_payload f) 9)))))"

definition frameLength :: "bytes \<Rightarrow> int" where
  "frameLength bs =
     uint (js_or_else (js_at bs 0) 0) * 0x10000 + uint (js_or_else (js_at bs 1) 0) * 0x100 +
     uint (js_or_else (js_at bs 2) 0)"

definition decodeHttp2Frame :: "bytes \<Rightarrow> int \<Rightarrow> http2_frame result" where
  "decodeHttp2Frame bs maximumFrameSize =
     res_bind (requireFrameLimit maximumFrameSize) (\<lambda>_.
     if length bs < 9 then frameSizeError
     else let len = frameLength bs
          in if len > maximumFrameSize then frameSizeError
             else if int (length bs) \<noteq> len + 9 then frameSizeError
             else res_bind (readUint32 bs 5) (\<lambda>raw.
               let f = \<lparr>fr_type = uint (js_or_else (js_at bs 3) 0), fr_flags = uint (js_or_else (js_at bs 4) 0),
                        fr_streamId = js_and raw MAX_WINDOW_SIZE, fr_payload = drop 9 bs\<rparr>
               in res_bind (validateHttp2Frame f maximumFrameSize) (\<lambda>_. Inr f)))"

text \<open>
  \<^verbatim>\<open>readHttp2Frame\<close> on a buffered reader. A stream error of the validation is left to the
  connection, which parses the payload again.
\<close>

definition readHttp2Frame ::
    "'c read_fn \<Rightarrow> 'c buffered_reader \<Rightarrow> int \<Rightarrow> http2_frame result \<times> 'c buffered_reader" where
  "readHttp2Frame rd r maximumFrameSize =
     (case requireFrameLimit maximumFrameSize of
        Inl e \<Rightarrow> (Inl e, r)
      | Inr _ \<Rightarrow>
          (case exact rd 9 r of
             (Inl e, r1) \<Rightarrow> (Inl e, r1)
           | (Inr header, r1) \<Rightarrow>
               (if frameLength header > maximumFrameSize then (frameSizeError, r1)
                else case exact rd (frameLength header) r1 of
                    (Inl e, r2) \<Rightarrow> (Inl e, r2)
                  | (Inr payload, r2) \<Rightarrow>
                      (case readUint32 header 5 of
                         Inl e \<Rightarrow> (Inl e, r2)
                       | Inr raw \<Rightarrow>
                           (let f = \<lparr>fr_type = uint (js_or_else (js_at header 3) 0),
                                     fr_flags = uint (js_or_else (js_at header 4) 0),
                                     fr_streamId = js_and raw MAX_WINDOW_SIZE, fr_payload = payload\<rparr>
                            in case validateHttp2Frame f maximumFrameSize of
                                 Inl (Http2WireError code (Some sid)) \<Rightarrow> (Inr f, r2)
                               | Inl e \<Rightarrow> (Inl e, r2)
                               | Inr _ \<Rightarrow> (Inr f, r2))))))"

section \<open>Definitions: payload encoders\<close>

definition encodeSettingAt :: "http2_setting \<Rightarrow> nat \<Rightarrow> bytes \<Rightarrow> bytes result" where
  "encodeSettingAt s index payload =
     res_bind (res_guard (\<not> (se_identifier s < 0 \<or> se_identifier s > 65535)) RangeError) (\<lambda>_.
     res_bind (res_guard (\<not> (se_value s < 0 \<or> se_value s > 0xffffffff)) RangeError) (\<lambda>_.
     res_bind (validateHttp2Setting (se_identifier s) (se_value s)) (\<lambda>_.
     let offset = index * 6;
         payload' = payload[offset := to_uint8 (se_identifier s div 0x100),
                            offset + 1 := to_uint8 (js_and (se_identifier s) 255)]
     in Inr (writeUint32 payload' (offset + 2) (se_value s)))))"

definition encodeHttp2Settings :: "http2_setting list \<Rightarrow> bytes result" where
  "encodeHttp2Settings settings =
     res_fold (\<lambda>index payload. encodeSettingAt (settings ! index) index payload)
       [0..<length settings] (replicate (length settings * 6) 0)"

definition encodeHttp2WindowUpdate :: "int \<Rightarrow> bytes result" where
  "encodeHttp2WindowUpdate increment =
     res_bind (res_guard (\<not> (increment < 1 \<or> increment > MAX_WINDOW_SIZE)) RangeError) (\<lambda>_.
     Inr (writeUint32 (replicate 4 0) 0 increment))"

definition encodeHttp2ErrorCode :: "int \<Rightarrow> bytes result" where
  "encodeHttp2ErrorCode errorCode =
     res_bind (res_guard (\<not> (errorCode < 0 \<or> errorCode > 0xffffffff)) RangeError) (\<lambda>_.
     Inr (writeUint32 (replicate 4 0) 0 errorCode))"

definition encodeHttp2GoAway :: "int \<Rightarrow> int \<Rightarrow> bytes \<Rightarrow> bytes result" where
  "encodeHttp2GoAway lastStreamId errorCode debugData =
     res_bind (requireStreamId lastStreamId) (\<lambda>_.
     res_bind (res_guard (\<not> (errorCode < 0 \<or> errorCode > 0xffffffff)) RangeError) (\<lambda>_.
     typed_set (writeUint32 (writeUint32 (replicate (8 + length debugData) 0) 0 lastStreamId) 4 errorCode)
       debugData 8))"

section \<open>Definitions: header block assembly\<close>

record pending_block =
  pb_kind :: header_kind
  pb_streamId :: int
  pb_endStream :: bool
  pb_promisedStreamId :: "int option"
  pb_priority :: "http2_priority option"
  pb_fragments :: "bytes list"
  pb_bytes :: int

record block_assembler =
  ba_maximumBytes :: int
  ba_maximumFragments :: int
  ba_pending :: "pending_block option"

definition newHeaderBlockAssembler :: "int \<Rightarrow> int \<Rightarrow> block_assembler result" where
  "newHeaderBlockAssembler maximumBytes maximumFragments =
     res_bind (res_guard (\<not> (\<not> js_isSafeInteger maximumBytes \<or> maximumBytes < 0)) RangeError) (\<lambda>_.
     res_bind (res_guard (\<not> (\<not> js_isSafeInteger maximumFragments \<or> maximumFragments < 1)) RangeError) (\<lambda>_.
     Inr \<lparr>ba_maximumBytes = maximumBytes, ba_maximumFragments = maximumFragments, ba_pending = None\<rparr>))"

definition assembler_append :: "block_assembler \<Rightarrow> pending_block \<Rightarrow> bytes \<Rightarrow> pending_block result" where
  "assembler_append a p fragment =
     (if int (length (pb_fragments p)) \<ge> ba_maximumFragments a then Inl LimitError
      else if int (length fragment) > ba_maximumBytes a - pb_bytes p then Inl LimitError
      else Inr (p\<lparr>pb_fragments := pb_fragments p @ [fragment], pb_bytes := pb_bytes p + int (length fragment)\<rparr>))"

definition assembler_finish :: "pending_block \<Rightarrow> http2_header_block result" where
  "assembler_finish p =
     res_bind (concatBytes (pb_fragments p) (Some (nat (pb_bytes p)))) (\<lambda>block.
     Inr \<lparr>hb_kind = pb_kind p, hb_streamId = pb_streamId p, hb_endStream = pb_endStream p,
          hb_promisedStreamId = pb_promisedStreamId p, hb_priority = pb_priority p, hb_block = block\<rparr>)"

text \<open>The validation at the start of \<^verbatim>\<open>accept\<close>: a stream error of a HEADERS frame is set aside.\<close>

definition acceptValidation :: "http2_frame \<Rightarrow> unit result" where
  "acceptValidation f =
     (case validateHttp2Frame f MAX_FRAME_SIZE of
        Inl (Http2WireError code (Some sid)) \<Rightarrow>
          (if fr_type f \<noteq> FRAME_HEADERS then Inl (Http2WireError code (Some sid)) else Inr ())
      | Inl e \<Rightarrow> Inl e
      | Inr _ \<Rightarrow> Inr ())"

text \<open>The pending block a HEADERS or PUSH\_PROMISE frame opens, before its fragment is appended.\<close>

definition openBlock :: "http2_frame \<Rightarrow> (pending_block \<times> bytes) result" where
  "openBlock f =
     (if fr_type f = FRAME_HEADERS
      then res_bind (parseHttp2Headers f) (\<lambda>h.
             Inr (\<lparr>pb_kind = HeadersKind, pb_streamId = fr_streamId f,
                   pb_endStream = (js_and (fr_flags f) FLAG_END_STREAM \<noteq> 0), pb_promisedStreamId = None,
                   pb_priority = hp_priority h, pb_fragments = [], pb_bytes = 0\<rparr>, hp_fragment h))
      else res_bind (parseHttp2PushPromise f) (\<lambda>p.
             Inr (\<lparr>pb_kind = PushPromiseKind, pb_streamId = fr_streamId f, pb_endStream = False,
                   pb_promisedStreamId = Some (pp_promisedStreamId p), pb_priority = None,
                   pb_fragments = [], pb_bytes = 0\<rparr>, pp_fragment p)))"

definition assembler_accept ::
    "http2_frame \<Rightarrow> block_assembler \<Rightarrow> http2_header_block option result \<times> block_assembler" where
  "assembler_accept f a =
     (case acceptValidation f of
        Inl e \<Rightarrow> (Inl e, a)
      | Inr _ \<Rightarrow>
          (case ba_pending a of
             Some p \<Rightarrow>
               (if fr_type f \<noteq> FRAME_CONTINUATION \<or> fr_streamId f \<noteq> pb_streamId p then (protocolError, a)
                else case assembler_append a p (fr_payload f) of
                    Inl e \<Rightarrow> (Inl e, a)
                  | Inr p' \<Rightarrow>
                      (if js_and (fr_flags f) FLAG_END_HEADERS = 0 then (Inr None, a\<lparr>ba_pending := Some p'\<rparr>)
                       else (res_bind (assembler_finish p') (\<lambda>b. Inr (Some b)), a\<lparr>ba_pending := None\<rparr>)))
           | None \<Rightarrow>
               (if fr_type f = FRAME_CONTINUATION then (protocolError, a)
                else if fr_type f \<noteq> FRAME_HEADERS \<and> fr_type f \<noteq> FRAME_PUSH_PROMISE then (Inr None, a)
                else case res_bind (openBlock f) (\<lambda>(next, fragment). assembler_append a next fragment) of
                    Inl e \<Rightarrow> (Inl e, a)
                  | Inr p' \<Rightarrow>
                      (if js_and (fr_flags f) FLAG_END_HEADERS \<noteq> 0
                       then (res_bind (assembler_finish p') (\<lambda>b. Inr (Some b)), a)
                       else (Inr None, a\<lparr>ba_pending := Some p'\<rparr>)))))"

section \<open>Lemmas: 32-bit integers\<close>

definition uint32_bytes :: "int \<Rightarrow> bytes" where
  "uint32_bytes v = [to_uint8 (v div 0x1000000), to_uint8 (v div 0x10000), to_uint8 (v div 0x100), to_uint8 v]"

lemma length_uint32_bytes [simp]: "length (uint32_bytes v) = 4"
  by (simp add: uint32_bytes_def)

lemma writeUint32_at:
  assumes "length mid = 4" and "k = length pre"
  shows "writeUint32 (pre @ mid @ suf) k v = pre @ uint32_bytes v @ suf"
proof -
  obtain a b c d where mid: "mid = [a, b, c, d]"
    using assms(1) by (auto simp: numeral_eq_Suc length_Suc_conv)
  show ?thesis
    by (simp add: writeUint32_def mid assms(2) list_update_append uint32_bytes_def numeral_eq_Suc Suc_diff_le)
qed

lemma mod_256_step: "d = 256 * c \<Longrightarrow> 0 \<le> c \<Longrightarrow> v mod d = 256 * (v div 256 mod c) + v mod 256" for v c d :: int
  using zmod_zmult2_eq [of c v 256] by simp

lemma div_256_step: "v div 256 div 256 = v div 0x10000" "v div 0x10000 div 256 = v div 0x1000000" for v :: int
  using zdiv_zmult2_eq [of 256 v 256] zdiv_zmult2_eq [of 256 v "0x10000"] by simp_all

lemma positional_256:
  fixes x :: int
  shows "x = 256 * y + a \<Longrightarrow> y = 256 * z + b \<Longrightarrow> z * 0x10000 + b * 0x100 + a = x"
    "x = 256 * y + a \<Longrightarrow> y = 256 * z + b \<Longrightarrow> z = 256 * w + c \<Longrightarrow>
     w * 0x1000000 + c * 0x10000 + b * 0x100 + a = x"
  by simp_all

lemma mod_4_bytes:
  fixes v :: int
  shows "v div 0x1000000 mod 256 * 0x1000000 + v div 0x10000 mod 256 * 0x10000 + v div 0x100 mod 256 * 0x100 +
    v mod 256 = v mod 0x100000000"
    "v div 0x10000 mod 256 * 0x10000 + v div 0x100 mod 256 * 0x100 + v mod 256 = v mod 0x1000000"
proof -
  note step = mod_256_step [where v = "v div 256", unfolded div_256_step]
    mod_256_step [where v = "v div 0x10000", unfolded div_256_step]
  show "v div 0x1000000 mod 256 * 0x1000000 + v div 0x10000 mod 256 * 0x10000 + v div 0x100 mod 256 * 0x100 +
    v mod 256 = v mod 0x100000000"
    by (rule positional_256(2) [OF mod_256_step step(1) step(2)]) simp_all
  show "v div 0x10000 mod 256 * 0x10000 + v div 0x100 mod 256 * 0x100 + v mod 256 = v mod 0x1000000"
    by (rule positional_256(1) [OF mod_256_step step(1)]) simp_all
qed

lemma readUint32_at:
  assumes "k = length pre"
  shows "readUint32 (pre @ uint32_bytes v @ suf) k = Inr (v mod 0x100000000)"
proof -
  have at: "js_at (pre @ uint32_bytes v @ suf) (int k) = Some (to_uint8 (v div 0x1000000))"
    "js_at (pre @ uint32_bytes v @ suf) (int k + 1) = Some (to_uint8 (v div 0x10000))"
    "js_at (pre @ uint32_bytes v @ suf) (int k + 2) = Some (to_uint8 (v div 0x100))"
    "js_at (pre @ uint32_bytes v @ suf) (int k + 3) = Some (to_uint8 v)"
    by (simp_all add: uint32_bytes_def js_at_def assms nat_add_distrib nth_append numeral_eq_Suc)
  show ?thesis
    unfolding readUint32_def at by (simp only: option.case prod.case uint_to_uint8 mod_4_bytes)
qed

lemmas uint32_at_start = writeUint32_at [where pre = "[]", simplified] readUint32_at [where pre = "[]", simplified]

section \<open>Lemmas: the envelope\<close>

definition frame_bytes :: "http2_frame \<Rightarrow> bytes" where
  "frame_bytes f =
     (let len = int (length (fr_payload f))
      in [to_uint8 (len div 0x10000), to_uint8 (len div 0x100), to_uint8 len,
          to_uint8 (fr_type f), to_uint8 (fr_flags f)] @ uint32_bytes (fr_streamId f) @ fr_payload f)"

lemma validateHttp2Frame_ranges:
  assumes "validateHttp2Frame f m = Inr u \<or> validateHttp2Frame f m = Inl (Http2WireError c (Some sid))"
  shows "0 \<le> fr_type f \<and> fr_type f < 256 \<and> 0 \<le> fr_flags f \<and> fr_flags f < 256 \<and>
    0 \<le> fr_streamId f \<and> fr_streamId f < 2147483648 \<and> int (length (fr_payload f)) \<le> m \<and>
    requireFrameLimit m = Inr () \<and> m \<le> 0xffffff"
  using assms
  by (elim disjE)
    (simp_all add: validateHttp2Frame_def requireByte_def requireStreamId_def requireFrameLimit_def
      res_bind_Inr_iff res_bind_Inl_iff http2_limits res_guard_def frameSizeError_def split: if_splits)

lemma encodeHttp2Frame_iff:
  "encodeHttp2Frame f m = Inr bs \<longleftrightarrow> validateHttp2Frame f m = Inr () \<and> bs = frame_bytes f"
proof (cases "validateHttp2Frame f m")
  case (Inl e)
  then show ?thesis by (auto simp: encodeHttp2Frame_def res_bind_Inr_iff split: if_splits)
next
  case (Inr u)
  let ?n = "length (fr_payload f)"
  have ok: "0 \<le> fr_type f" "fr_type f < 256" "0 \<le> fr_flags f" "fr_flags f < 256"
    "0 \<le> fr_streamId f" "fr_streamId f < 2147483648" "int ?n \<le> m" "requireFrameLimit m = Inr ()"
    using validateHttp2Frame_ranges [of f m u] Inr by auto
  let ?h = "[to_uint8 (int ?n div 0x10000), to_uint8 (int ?n div 0x100), to_uint8 (int ?n),
          to_uint8 (fr_type f), to_uint8 (fr_flags f)]"
  have init: "replicate (9 + ?n) (0 :: byte) = [0, 0, 0, 0, 0] @ [0, 0, 0, 0] @ replicate ?n 0"
    by (simp add: numeral_eq_Suc)
  have hdr: "(replicate (9 + ?n) (0 :: byte))
             [0 := to_uint8 (js_and (int ?n div 0x10000) 255), 1 := to_uint8 (js_and (int ?n div 0x100) 255),
              2 := to_uint8 (js_and (int ?n) 255), 3 := to_uint8 (fr_type f), 4 := to_uint8 (fr_flags f)] =
      ?h @ [0, 0, 0, 0] @ replicate ?n 0"
    unfolding init by simp
  have w: "writeUint32 (?h @ [0, 0, 0, 0] @ replicate ?n 0) 5 (fr_streamId f) =
      ?h @ uint32_bytes (fr_streamId f) @ replicate ?n 0"
    by (rule writeUint32_at) simp_all
  have set: "typed_set (?h @ uint32_bytes (fr_streamId f) @ replicate ?n 0) (fr_payload f) 9 = Inr (frame_bytes f)"
    by (simp add: typed_set_def frame_bytes_def uint32_bytes_def Let_def)
  have "encodeHttp2Frame f m = Inr (frame_bytes f)"
    unfolding encodeHttp2Frame_def Let_def hdr w set
    using ok Inr by (simp add: requireByte_def requireStreamId_def http2_limits)
  then show ?thesis using Inr by auto
qed

lemma frameLength_bytes:
  assumes "int (length (fr_payload f)) \<le> 0xffffff"
  shows "frameLength (take 9 (frame_bytes f)) = int (length (fr_payload f))"
    "frameLength (frame_bytes f) = int (length (fr_payload f))"
proof -
  let ?n = "int (length (fr_payload f))"
  have at: "js_at (frame_bytes f) 0 = Some (to_uint8 (?n div 0x10000))" "js_at (frame_bytes f) 1 = Some (to_uint8 (?n div 0x100))"
    "js_at (frame_bytes f) 2 = Some (to_uint8 ?n)" "js_at (take 9 (frame_bytes f)) 0 = Some (to_uint8 (?n div 0x10000))"
    "js_at (take 9 (frame_bytes f)) 1 = Some (to_uint8 (?n div 0x100))" "js_at (take 9 (frame_bytes f)) 2 = Some (to_uint8 ?n)"
    by (simp_all add: js_at_def frame_bytes_def Let_def)
  have n: "?n mod 0x1000000 = ?n" using assms by simp
  show "frameLength (take 9 (frame_bytes f)) = ?n" "frameLength (frame_bytes f) = ?n"
    unfolding frameLength_def at js_or_else_simps uint_to_uint8 mod_4_bytes n by (rule refl)+
qed

lemma length_frame_bytes [simp]: "length (frame_bytes f) = 9 + length (fr_payload f)"
  by (simp add: frame_bytes_def Let_def)

lemma frame_bytes_header:
  "take 9 (frame_bytes f) @ fr_payload f = frame_bytes f" "drop 9 (frame_bytes f) = fr_payload f"
  "length (take 9 (frame_bytes f)) = 9"
  by (simp_all add: frame_bytes_def Let_def uint32_bytes_def)

lemma frame_bytes_fields:
  assumes "0 \<le> fr_type f" "fr_type f < 256" "0 \<le> fr_flags f" "fr_flags f < 256"
    and "0 \<le> fr_streamId f" "fr_streamId f < 2147483648"
    and "bs = frame_bytes f \<or> bs = take 9 (frame_bytes f)"
  shows "uint (js_or_else (js_at bs 3) 0) = fr_type f" "uint (js_or_else (js_at bs 4) 0) = fr_flags f"
    "readUint32 bs 5 = Inr (fr_streamId f)"
proof -
  let ?len = "int (length (fr_payload f))"
  let ?h = "[to_uint8 (?len div 0x10000), to_uint8 (?len div 0x100), to_uint8 ?len,
          to_uint8 (fr_type f), to_uint8 (fr_flags f)]"
  have bs: "bs = ?h @ uint32_bytes (fr_streamId f) @ fr_payload f \<or> bs = ?h @ uint32_bytes (fr_streamId f) @ []"
    using assms(7) by (auto simp: frame_bytes_def Let_def)
  then show "uint (js_or_else (js_at bs 3) 0) = fr_type f" "uint (js_or_else (js_at bs 4) 0) = fr_flags f"
    using assms(1-4) by (auto simp: js_at_def)
  show "readUint32 bs 5 = Inr (fr_streamId f)"
    using bs readUint32_at [of 5 ?h "fr_streamId f" "fr_payload f"] readUint32_at [of 5 ?h "fr_streamId f" "[]"]
      assms(5,6) by auto
qed

lemma http2_frame_eta:
  "\<lparr>fr_type = fr_type f, fr_flags = fr_flags f, fr_streamId = fr_streamId f, fr_payload = fr_payload f\<rparr> = f"
  by simp

lemma decode_frame_bytes:
  assumes "validateHttp2Frame f m = Inr ()"
  shows "decodeHttp2Frame (frame_bytes f) m = Inr f"
proof -
  note ok = validateHttp2Frame_ranges [of f m "()", OF disjI1, OF assms]
  have fields: "uint (js_or_else (js_at (frame_bytes f) 3) 0) = fr_type f"
    "uint (js_or_else (js_at (frame_bytes f) 4) 0) = fr_flags f"
    "readUint32 (frame_bytes f) 5 = Inr (fr_streamId f)"
    using frame_bytes_fields [of f "frame_bytes f"] ok by auto
  have sid: "js_and (fr_streamId f) MAX_WINDOW_SIZE = fr_streamId f"
    using ok by (simp add: MAX_WINDOW_SIZE_def)
  show ?thesis
    unfolding decodeHttp2Frame_def fields
    using ok frameLength_bytes(2) [of f] sid assms frame_bytes_header(2) [of f]
    by (simp add: Let_def http2_frame_eta)
qed

lemma read_frame_bytes:
  assumes tr: "transport_reads rd content" "reader_ok r" and un: "unread content r = frame_bytes f @ rest"
    and ok: "validateHttp2Frame f m = Inr () \<or> validateHttp2Frame f m = Inl (Http2WireError c (Some sid))"
  shows "\<exists>r'. readHttp2Frame rd r m = (Inr f, r') \<and> reader_ok r' \<and> unread content r' = rest"
proof -
  let ?n = "length (fr_payload f)" and ?h = "take 9 (frame_bytes f)"
  note range = validateHttp2Frame_ranges [OF ok]
  have safe: "int 9 \<le> MAX_SAFE_INTEGER" "int ?n \<le> MAX_SAFE_INTEGER"
    using range by (simp_all add: MAX_SAFE_INTEGER_def)
  obtain r1 where r1: "exact rd 9 r = (Inr ?h, r1)" "reader_ok r1" "unread content r1 = fr_payload f @ rest"
    using exact_ok [OF tr safe(1)] un frame_bytes_header(2) [of f] by auto
  obtain r2 where r2: "exact rd (int ?n) r1 = (Inr (fr_payload f), r2)" "reader_ok r2" "unread content r2 = rest"
    using exact_ok [OF tr(1) r1(2) safe(2)] r1(3) by auto
  have len: "frameLength ?h = int ?n" using frameLength_bytes(1) [of f] range by simp
  have fields: "uint (js_or_else (js_at ?h 3) 0) = fr_type f" "uint (js_or_else (js_at ?h 4) 0) = fr_flags f"
    "readUint32 ?h 5 = Inr (fr_streamId f)"
    using frame_bytes_fields [of f ?h] range by auto
  have sid: "js_and (fr_streamId f) MAX_WINDOW_SIZE = fr_streamId f" using range by (simp add: MAX_WINDOW_SIZE_def)
  have "readHttp2Frame rd r m = (Inr f, r2)"
    using range r1(1) r2(1) len fields sid ok
    by (auto simp: readHttp2Frame_def Let_def http2_frame_eta)
  then show ?thesis using r2 by simp
qed

text \<open>A sequence of frames from one stream of bytes.\<close>

fun read_frames ::
    "'c read_fn \<Rightarrow> nat \<Rightarrow> int \<Rightarrow> 'c buffered_reader \<Rightarrow> http2_frame list result \<times> 'c buffered_reader" where
  "read_frames rd 0 m r = (Inr [], r)"
| "read_frames rd (Suc n) m r =
     (case readHttp2Frame rd r m of
        (Inl e, r') \<Rightarrow> (Inl e, r')
      | (Inr f, r') \<Rightarrow> (let (fs, r'') = read_frames rd n m r' in (res_bind fs (\<lambda>fs. Inr (f # fs)), r'')))"

lemma read_frames_bytes:
  assumes "transport_reads rd content" "reader_ok r" "unread content r = concat (map frame_bytes fs) @ rest"
    and "\<forall>f\<in>set fs. validateHttp2Frame f m = Inr ()"
  shows "\<exists>r'. read_frames rd (length fs) m r = (Inr fs, r') \<and> unread content r' = rest"
  using assms
proof (induction fs arbitrary: r)
  case (Cons f fs)
  obtain r1 where r1: "readHttp2Frame rd r m = (Inr f, r1)" "reader_ok r1"
    "unread content r1 = concat (map frame_bytes fs) @ rest"
    using read_frame_bytes [OF Cons.prems(1,2), of f "concat (map frame_bytes fs) @ rest" m] Cons.prems(3,4) by auto
  from Cons.IH [OF Cons.prems(1) r1(2,3)] Cons.prems(4) r1(1) show ?case by auto
qed simp

section \<open>Lemmas: payloads\<close>

definition setting_bytes :: "http2_setting \<Rightarrow> bytes" where
  "setting_bytes s = [to_uint8 (se_identifier s div 0x100), to_uint8 (se_identifier s)] @ uint32_bytes (se_value s)"

definition setting_ok :: "http2_setting \<Rightarrow> bool" where
  "setting_ok s \<longleftrightarrow> 0 \<le> se_identifier s \<and> se_identifier s < 0x10000 \<and> 0 \<le> se_value s \<and>
     se_value s < 0x100000000 \<and> validateHttp2Setting (se_identifier s) (se_value s) = Inr ()"

lemma length_setting_bytes [simp]: "length (setting_bytes s) = 6"
  by (simp add: setting_bytes_def)

lemma length_settings_bytes [simp]: "length (concat (map setting_bytes ss)) = length ss * 6"
  by (induction ss) auto

lemma encodeSettingAt_ok:
  assumes "setting_ok s" and "length mid = 6" and "length pre = index * 6"
  shows "encodeSettingAt s index (pre @ mid @ suf) = Inr (pre @ setting_bytes s @ suf)"
proof -
  obtain a b mid' where mid: "mid = a # b # mid'" "length mid' = 4"
    using assms(2) by (auto simp: numeral_eq_Suc length_Suc_conv)
  let ?id = "[to_uint8 (se_identifier s div 0x100), to_uint8 (se_identifier s)]"
  have "(pre @ mid @ suf)[index * 6 := to_uint8 (se_identifier s div 0x100),
          index * 6 + 1 := to_uint8 (js_and (se_identifier s) 255)] = (pre @ ?id) @ mid' @ suf"
    using assms(3) by (simp add: mid(1) list_update_append Suc_diff_le)
  moreover have "writeUint32 ((pre @ ?id) @ mid' @ suf) (index * 6 + 2) (se_value s) =
      (pre @ ?id) @ uint32_bytes (se_value s) @ suf"
    using mid(2) assms(3) by (intro writeUint32_at) simp_all
  ultimately show ?thesis
    using assms(1) by (simp add: encodeSettingAt_def setting_ok_def setting_bytes_def)
qed

lemma encodeSettings_prefix:
  assumes "list_all setting_ok ss" and "k \<le> length ss"
  shows "res_fold (\<lambda>index payload. encodeSettingAt (ss ! index) index payload) [0..<k] (replicate (length ss * 6) 0) =
    Inr (concat (map setting_bytes (take k ss)) @ replicate ((length ss - k) * 6) 0)"
  using assms(2)
proof (induction k)
  case (Suc k)
  let ?pre = "concat (map setting_bytes (take k ss))"
  have pre: "length ?pre = k * 6" using Suc.prems length_settings_bytes [of "take k ss"] by simp
  have "replicate ((length ss - k) * 6) (0 :: byte) = replicate 6 0 @ replicate ((length ss - Suc k) * 6) 0"
  proof -
    have "(length ss - k) * 6 = 6 + (length ss - Suc k) * 6" using Suc.prems by simp
    then show ?thesis by (simp only: replicate_add)
  qed
  moreover have "encodeSettingAt (ss ! k) k (?pre @ replicate 6 0 @ replicate ((length ss - Suc k) * 6) 0) =
      Inr (?pre @ setting_bytes (ss ! k) @ replicate ((length ss - Suc k) * 6) 0)"
    using assms(1) Suc.prems pre by (intro encodeSettingAt_ok) (auto simp: list_all_length)
  ultimately show ?case
    using Suc by (simp add: res_fold_append take_Suc_conv_app_nth)
qed simp

lemma encodeHttp2Settings_ok:
  "list_all setting_ok ss \<Longrightarrow> encodeHttp2Settings ss = Inr (concat (map setting_bytes ss))"
  using encodeSettings_prefix [of ss "length ss"] by (simp add: encodeHttp2Settings_def)

lemma setting_bytes_read:
  assumes "setting_ok s"
  shows "uint (js_or_else (js_at (pre @ setting_bytes s @ suf) (int (length pre))) 0) * 0x100 +
      uint (js_or_else (js_at (pre @ setting_bytes s @ suf) (int (length pre) + 1)) 0) = se_identifier s"
    "readUint32 (pre @ setting_bytes s @ suf) (length pre + 2) = Inr (se_value s)"
proof -
  have at: "js_at (pre @ setting_bytes s @ suf) (int (length pre)) = Some (to_uint8 (se_identifier s div 0x100))"
    "js_at (pre @ setting_bytes s @ suf) (int (length pre) + 1) = Some (to_uint8 (se_identifier s))"
    by (simp_all add: setting_bytes_def js_at_def nat_add_distrib nth_append)
  have "0 \<le> se_identifier s div 256" "se_identifier s div 256 < 256"
    using assms unfolding setting_ok_def by linarith+
  then have "se_identifier s div 256 mod 256 = se_identifier s div 256" by (rule mod_pos_pos_trivial)
  then show "uint (js_or_else (js_at (pre @ setting_bytes s @ suf) (int (length pre))) 0) * 0x100 +
      uint (js_or_else (js_at (pre @ setting_bytes s @ suf) (int (length pre) + 1)) 0) = se_identifier s"
    unfolding at js_or_else_simps uint_to_uint8 using div_mult_mod_eq [of "se_identifier s" 256] by simp
  let ?id = "[to_uint8 (se_identifier s div 0x100), to_uint8 (se_identifier s)]"
  have "readUint32 ((pre @ ?id) @ uint32_bytes (se_value s) @ suf) (length pre + 2) = Inr (se_value s mod 0x100000000)"
    by (rule readUint32_at) simp
  moreover have "(pre @ ?id) @ uint32_bytes (se_value s) @ suf = pre @ setting_bytes s @ suf"
    by (simp add: setting_bytes_def)
  moreover have "se_value s mod 0x100000000 = se_value s" using assms by (simp add: setting_ok_def)
  ultimately show "readUint32 (pre @ setting_bytes s @ suf) (length pre + 2) = Inr (se_value s)"
    by (simp only:)
qed

lemma settingsLoop_ok:
  "list_all setting_ok ss \<Longrightarrow>
   settingsLoop (pre @ concat (map setting_bytes ss)) (length pre) acc = Inr (acc @ ss)"
proof (induction ss arbitrary: pre acc)
  case Nil
  then show ?case by (simp add: settingsLoop.simps)
next
  case (Cons s ss)
  let ?payload = "pre @ setting_bytes s @ concat (map setting_bytes ss)"
  have s: "setting_ok s" using Cons.prems by simp
  have eta: "\<lparr>se_identifier = se_identifier s, se_value = se_value s\<rparr> = s" by simp
  have "settingsLoop ?payload (length pre) acc = settingsLoop ?payload (length pre + 6) (acc @ [s])"
    using setting_bytes_read [OF s, of pre "concat (map setting_bytes ss)"] s
    by (subst settingsLoop.simps) (simp add: setting_ok_def Let_def eta)
  also have "\<dots> = settingsLoop ((pre @ setting_bytes s) @ concat (map setting_bytes ss))
      (length (pre @ setting_bytes s)) (acc @ [s])" by simp
  also have "\<dots> = Inr ((acc @ [s]) @ ss)" using Cons.prems by (intro Cons.IH) simp
  finally show ?case by simp
qed

lemma paddedRange_ok:
  assumes "paddedRange payload 0 padded = Inr (a, b, n)"
  shows "a \<le> b \<and> b \<le> length payload \<and> 0 \<le> n \<and> int b + n = int (length payload) \<and> a = (if padded then 1 else 0)"
proof -
  define c where "c = (if padded then uint (js_or_else (js_at payload 0) 0) else 0)"
  have "paddedRange payload 0 padded =
      (if padded \<and> payload = [] then frameSizeError
       else let start = (if padded then 1 else 0); end' = int (length payload) - c
            in if end' < int start then protocolError else Inr (start, nat end', c))"
    by (cases padded; cases payload) (simp_all add: paddedRange_def c_def js_at_def frameSizeError_def)
  then have "(if padded then 1 else 0) = a" "int (length payload) - c \<ge> int a" "b = nat (int (length payload) - c)" "n = c"
    using assms by (auto simp: Let_def frameSizeError_def protocolError_def split: if_splits)
  moreover have "0 \<le> c" by (simp add: c_def)
  ultimately show ?thesis by auto
qed

lemma paddedRange_pad:
  assumes "length pad = unat n"
  shows "paddedRange (n # data @ pad) 0 True = Inr (1, 1 + length data, uint n)"
proof -
  have at: "js_at (n # data @ pad) 0 = Some n" by (simp add: js_at_def)
  have len: "int (length (n # data @ pad)) - uint n = int (1 + length data)" using assms by simp
  show ?thesis unfolding paddedRange_def at if_True option.case res_bind_simps prod.case Let_def len by simp
qed

lemma flag_padded: "0 \<le> x \<Longrightarrow> x < 256 \<Longrightarrow> js_and x FLAG_PADDED \<noteq> 0 \<longleftrightarrow> odd (x div 8)"
  by (simp add: FLAG_PADDED_def js_flag_tests)

section \<open>Lemmas: header block assembly\<close>

definition pending_inv :: "block_assembler \<Rightarrow> pending_block \<Rightarrow> bool" where
  "pending_inv a p \<longleftrightarrow> pb_bytes p = int (length (concat (pb_fragments p))) \<and> pb_bytes p \<le> ba_maximumBytes a \<and>
     int (length (pb_fragments p)) \<le> ba_maximumFragments a \<and> pb_streamId p \<noteq> 0"

definition assembler_inv :: "block_assembler \<Rightarrow> bool" where
  "assembler_inv a \<longleftrightarrow> 0 \<le> ba_maximumBytes a \<and> 1 \<le> ba_maximumFragments a \<and>
     (\<forall>p\<in>set_option (ba_pending a). pending_inv a p)"

lemma assembler_append_inv:
  "pending_inv a p \<Longrightarrow> assembler_append a p frag = Inr p' \<Longrightarrow> pending_inv a p'"
  by (auto simp: assembler_append_def pending_inv_def split: if_splits)

lemma assembler_append_first:
  "assembler_append a p frag = Inr p' \<Longrightarrow> pb_fragments p = [] \<Longrightarrow> pb_bytes p = 0 \<Longrightarrow> pb_streamId p \<noteq> 0 \<Longrightarrow>
     0 \<le> ba_maximumBytes a \<Longrightarrow> 1 \<le> ba_maximumFragments a \<Longrightarrow> pending_inv a p'"
  by (rule assembler_append_inv [of a p]) (auto simp: pending_inv_def)

lemma assembler_finish_ok:
  "pending_inv a p \<Longrightarrow> assembler_finish p =
     Inr \<lparr>hb_kind = pb_kind p, hb_streamId = pb_streamId p, hb_endStream = pb_endStream p,
          hb_promisedStreamId = pb_promisedStreamId p, hb_priority = pb_priority p,
          hb_block = concat (pb_fragments p)\<rparr>"
  by (simp add: assembler_finish_def pending_inv_def concatBytes_exact)

lemma openBlock_fresh:
  "openBlock f = Inr (p, frag) \<Longrightarrow>
     pb_fragments p = [] \<and> pb_bytes p = 0 \<and> pb_streamId p = fr_streamId f \<and> fr_streamId f \<noteq> 0"
  by (auto simp: openBlock_def parseHttp2Headers_def parseHttp2PushPromise_def requireStreamFrame_def
      res_bind_Inr_iff protocolError_def split: if_splits)

text \<open>The outcomes of \<^verbatim>\<open>accept\<close>.\<close>

lemma assembler_accept_inv:
  assumes inv: "assembler_inv a" and acc: "assembler_accept f a = (r, a')"
  shows "assembler_inv a' \<and> ba_maximumBytes a' = ba_maximumBytes a \<and>
    ba_maximumFragments a' = ba_maximumFragments a \<and>
    (\<forall>b. r = Inr (Some b) \<longrightarrow> int (length (hb_block b)) \<le> ba_maximumBytes a \<and> hb_streamId b \<noteq> 0 \<and>
       ba_pending a' = None)"
proof (cases "acceptValidation f")
  case (Inl e)
  then show ?thesis using inv acc by (auto simp: assembler_accept_def)
next
  case (Inr u)
  have fin: "assembler_finish p = Inr b \<Longrightarrow> int (length (hb_block b)) \<le> ba_maximumBytes a \<and> hb_streamId b \<noteq> 0"
    if "pending_inv a p" for p b
    using that assembler_finish_ok [OF that] by (auto simp: pending_inv_def)
  show ?thesis
  proof (cases "ba_pending a")
    case None
    have first: "pending_inv a p'" if "res_bind (openBlock f) (\<lambda>(n, frag). assembler_append a n frag) = Inr p'" for p'
      using that inv openBlock_fresh [of f] assembler_append_first [of a]
      by (auto simp: res_bind_Inr_iff assembler_inv_def)
    show ?thesis
    proof (cases "res_bind (openBlock f) (\<lambda>(n, frag). assembler_append a n frag)")
      case (Inl e)
      then show ?thesis
        using None Inr inv acc by (auto simp: assembler_accept_def assembler_inv_def protocolError_def split: if_splits)
    next
      case (Inr p')
      then show ?thesis
        using None \<open>acceptValidation f = Inr u\<close> inv acc first [OF Inr] fin [OF first [OF Inr]]
        by (auto simp: assembler_accept_def assembler_inv_def protocolError_def res_bind_Inr_iff pending_inv_def
            split: if_splits)
    qed
  next
    case (Some p)
    then have p: "pending_inv a p" using inv by (simp add: assembler_inv_def)
    show ?thesis
    proof (cases "assembler_append a p (fr_payload f)")
      case (Inl e)
      then show ?thesis
        using Some Inr inv acc by (auto simp: assembler_accept_def protocolError_def split: if_splits)
    next
      case (Inr p')
      then show ?thesis
        using Some \<open>acceptValidation f = Inr u\<close> inv acc assembler_append_inv [OF p Inr]
          fin [OF assembler_append_inv [OF p Inr]]
        by (auto simp: assembler_accept_def assembler_inv_def protocolError_def res_bind_Inr_iff pending_inv_def
            split: if_splits)
    qed
  qed
qed

lemma acceptValidation_headers:
  assumes "fr_type f = FRAME_HEADERS" "0 \<le> fr_flags f" "fr_flags f < 256" "0 < fr_streamId f"
    "fr_streamId f < 2147483648" "int (length (fr_payload f)) \<le> MAX_FRAME_SIZE" "parseHttp2Headers f = Inr h"
  shows "acceptValidation f = Inr ()"
proof -
  have lim: "requireFrameLimit MAX_FRAME_SIZE = Inr ()" by (simp add: requireFrameLimit_def http2_limits)
  have "validateHttp2Frame f MAX_FRAME_SIZE =
      (case hp_priority h of None \<Rightarrow> Inr () | Some p \<Rightarrow> requireNonSelfDependency p (fr_streamId f))"
    using assms lim by (simp add: validateHttp2Frame_def requireByte_def requireStreamId_def http2_frame_types
        MAX_WINDOW_SIZE_def)
  then show ?thesis
    using assms(1)
    by (cases "hp_priority h") (auto simp: acceptValidation_def requireNonSelfDependency_def)
qed

lemma acceptValidation_continuation:
  assumes "fr_type f = FRAME_CONTINUATION" "0 \<le> fr_flags f" "fr_flags f < 256" "0 < fr_streamId f"
    "fr_streamId f < 2147483648" "int (length (fr_payload f)) \<le> MAX_FRAME_SIZE"
  shows "acceptValidation f = Inr ()"
proof -
  have lim: "requireFrameLimit MAX_FRAME_SIZE = Inr ()" by (simp add: requireFrameLimit_def http2_limits)
  show ?thesis
    using assms lim by (simp add: acceptValidation_def validateHttp2Frame_def requireByte_def requireStreamId_def
        requireStreamFrame_def http2_frame_types MAX_WINDOW_SIZE_def)
qed

section \<open>Properties\<close>

lemma encode_frame_cases: "is_ok (encodeHttp2Frame f m) \<longleftrightarrow> validateHttp2Frame f m = Inr ()"
  using encodeHttp2Frame_iff [of f m] by (cases "encodeHttp2Frame f m") auto

interpretation http2_frame: codec "\<lambda>f. encodeHttp2Frame f MAX_FRAME_SIZE" "\<lambda>bs. decodeHttp2Frame bs MAX_FRAME_SIZE"
    "\<lambda>f. validateHttp2Frame f MAX_FRAME_SIZE = Inr ()"
proof
  fix f assume ok: "validateHttp2Frame f MAX_FRAME_SIZE = Inr ()"
  then have "encodeHttp2Frame f MAX_FRAME_SIZE = Inr (frame_bytes f)" by (simp add: encodeHttp2Frame_iff)
  with decode_frame_bytes [OF ok]
  show "res_bind (encodeHttp2Frame f MAX_FRAME_SIZE) (\<lambda>bs. decodeHttp2Frame bs MAX_FRAME_SIZE) = Inr f" by simp
qed

text \<open>
  Frames round trip: what \<^verbatim>\<open>encodeHttp2Frame\<close> produces under a frame-size limit is nine bytes
  longer than the payload and \<^verbatim>\<open>decodeHttp2Frame\<close> under the same limit returns the frame.
\<close>

theorem http2_frame_roundtrip:
  assumes "encodeHttp2Frame f m = Inr bs"
  shows "decodeHttp2Frame bs m = Inr f \<and> length bs = 9 + length (fr_payload f)"
  using assms decode_frame_bytes [of f m] by (simp add: encodeHttp2Frame_iff)

definition sample_frame :: http2_frame where
  "sample_frame = \<lparr>fr_type = 8, fr_flags = 0, fr_streamId = 3, fr_payload = [0, 1, 0, 0]\<rparr>"

lemma sample_frame_encoded:
  "encodeHttp2Frame sample_frame 16384 = Inr [0, 0, 4, 8, 0, 0, 0, 0, 3, 0, 1, 0, 0]"
  by code_simp

theorem http2_frame_roundtrip_witness:
  "decodeHttp2Frame [0, 0, 4, 8, 0, 0, 0, 0, 3, 0, 1, 0, 0] 16384 = Inr sample_frame"
  using http2_frame_roundtrip [OF sample_frame_encoded] by simp

text \<open>
  A receiver that reads frames one after the other from a transport, which may cut the stream
  anywhere, obtains exactly the frames the sender encoded and leaves the rest of the stream unread.
\<close>

theorem http2_read_frames:
  assumes "transport_reads rd content" and "reader_ok r"
    and "\<And>f. f \<in> set fs \<Longrightarrow> encodeHttp2Frame f m = Inr (enc f)"
    and "unread content r = concat (map enc fs) @ rest"
  shows "\<exists>r'. read_frames rd (length fs) m r = (Inr fs, r') \<and> unread content r' = rest"
proof (rule read_frames_bytes [OF assms(1,2)])
  have "map enc fs = map frame_bytes fs" using assms(3) by (auto simp: encodeHttp2Frame_iff)
  then show "unread content r = concat (map frame_bytes fs) @ rest" using assms(4) by (simp only:)
  show "\<forall>f\<in>set fs. validateHttp2Frame f m = Inr ()" using assms(3) by (auto simp: encodeHttp2Frame_iff)
qed

theorem http2_read_frames_witness:
  "\<exists>r'. read_frames memory_read 2 16384
     (newBufferedReader ([0, 0, 4, 8, 0, 0, 0, 0, 3, 0, 1, 0, 0] @ [0, 0, 4, 8, 0, 0, 0, 0, 3, 0, 1, 0, 0] @ [42])) =
     (Inr [sample_frame, sample_frame], r') \<and> unread id r' = [42]"
  using http2_read_frames [OF memory_reads reader_ok_new(1), of "[sample_frame, sample_frame]" 16384
      "\<lambda>_. [0, 0, 4, 8, 0, 0, 0, 0, 3, 0, 1, 0, 0]"
      "[0, 0, 4, 8, 0, 0, 0, 0, 3, 0, 1, 0, 0] @ [0, 0, 4, 8, 0, 0, 0, 0, 3, 0, 1, 0, 0] @ [42]" "[42]"]
    sample_frame_encoded
  by (simp add: numeral_eq_Suc)

text \<open>
  Control payloads round trip: a list of valid settings, a window increment, an error code and a
  GOAWAY payload are parsed back from what the encoders produce.
\<close>

theorem http2_payload_roundtrip:
  assumes "list_all setting_ok ss" and "1 \<le> inc" "inc \<le> MAX_WINDOW_SIZE" and "0 < sid"
    and "0 \<le> lastId" "lastId \<le> MAX_WINDOW_SIZE" and "0 \<le> code" "code < 0x100000000"
  shows "res_bind (encodeHttp2Settings ss)
      (\<lambda>p. parseHttp2Settings \<lparr>fr_type = FRAME_SETTINGS, fr_flags = 0, fr_streamId = 0, fr_payload = p\<rparr>) = Inr ss \<and>
    res_bind (encodeHttp2WindowUpdate inc)
      (\<lambda>p. parseHttp2WindowUpdate \<lparr>fr_type = FRAME_WINDOW_UPDATE, fr_flags = 0, fr_streamId = sid, fr_payload = p\<rparr>) =
      Inr inc \<and>
    res_bind (encodeHttp2ErrorCode code)
      (\<lambda>p. parseHttp2RstStream \<lparr>fr_type = FRAME_RST_STREAM, fr_flags = 0, fr_streamId = sid, fr_payload = p\<rparr>) =
      Inr code \<and>
    res_bind (encodeHttp2GoAway lastId code dbg)
      (\<lambda>p. parseHttp2GoAway \<lparr>fr_type = FRAME_GOAWAY, fr_flags = 0, fr_streamId = 0, fr_payload = p\<rparr>) =
      Inr \<lparr>ga_lastStreamId = lastId, ga_errorCode = code, ga_debugData = dbg\<rparr>"
proof (intro conjI)
  show "res_bind (encodeHttp2Settings ss)
      (\<lambda>p. parseHttp2Settings \<lparr>fr_type = FRAME_SETTINGS, fr_flags = 0, fr_streamId = 0, fr_payload = p\<rparr>) = Inr ss"
    using encodeHttp2Settings_ok [OF assms(1)] settingsLoop_ok [OF assms(1), of "[]" "[]"]
    by (simp add: parseHttp2Settings_def requireConnectionFrame_def FLAG_ACK_def js_flag_tests)
  have w: "writeUint32 (replicate 4 0) 0 v = uint32_bytes v" for v
    using writeUint32_at [of "replicate 4 0" 0 "[]" "[]" v] by simp
  have r: "readUint32 (uint32_bytes v) 0 = Inr (v mod 0x100000000)" for v
    using readUint32_at [of 0 "[]" v "[]"] by simp
  show "res_bind (encodeHttp2WindowUpdate inc)
      (\<lambda>p. parseHttp2WindowUpdate \<lparr>fr_type = FRAME_WINDOW_UPDATE, fr_flags = 0, fr_streamId = sid, fr_payload = p\<rparr>) =
      Inr inc"
    using assms(2,3) by (simp add: encodeHttp2WindowUpdate_def parseHttp2WindowUpdate_def w r requireLength_def MAX_WINDOW_SIZE_def)
  show "res_bind (encodeHttp2ErrorCode code)
      (\<lambda>p. parseHttp2RstStream \<lparr>fr_type = FRAME_RST_STREAM, fr_flags = 0, fr_streamId = sid, fr_payload = p\<rparr>) =
      Inr code"
    using assms(4,7,8) by (simp add: encodeHttp2ErrorCode_def parseHttp2RstStream_def w r requireLength_def requireStreamFrame_def)
  let ?p = "uint32_bytes lastId @ uint32_bytes code @ dbg"
  have init: "replicate (8 + length dbg) (0 :: byte) = [] @ replicate 4 0 @ replicate 4 0 @ replicate (length dbg) 0"
    by (simp add: numeral_eq_Suc)
  have w1: "writeUint32 (replicate (8 + length dbg) 0) 0 lastId =
      uint32_bytes lastId @ replicate 4 0 @ replicate (length dbg) 0"
    unfolding init by (subst writeUint32_at) simp_all
  have "writeUint32 (writeUint32 (replicate (8 + length dbg) 0) 0 lastId) 4 code =
      uint32_bytes lastId @ uint32_bytes code @ replicate (length dbg) 0"
    unfolding w1 by (rule writeUint32_at) simp_all
  then have "encodeHttp2GoAway lastId code dbg = Inr ?p"
    using assms(5-8) by (simp add: encodeHttp2GoAway_def requireStreamId_def MAX_WINDOW_SIZE_def typed_set_def)
  moreover have "readUint32 ?p 0 = Inr lastId" "readUint32 ?p 4 = Inr code"
    using readUint32_at [of 0 "[]" lastId "uint32_bytes code @ dbg"] readUint32_at [of 4 "uint32_bytes lastId" code dbg]
      assms(5-8) by (simp_all add: MAX_WINDOW_SIZE_def)
  ultimately show "res_bind (encodeHttp2GoAway lastId code dbg)
      (\<lambda>p. parseHttp2GoAway \<lparr>fr_type = FRAME_GOAWAY, fr_flags = 0, fr_streamId = 0, fr_payload = p\<rparr>) =
      Inr \<lparr>ga_lastStreamId = lastId, ga_errorCode = code, ga_debugData = dbg\<rparr>"
    using assms(5,6) by (simp add: parseHttp2GoAway_def requireConnectionFrame_def MAX_WINDOW_SIZE_def)
qed

theorem http2_payload_roundtrip_witness:
  "res_bind (encodeHttp2Settings [\<lparr>se_identifier = 4, se_value = 70000\<rparr>, \<lparr>se_identifier = 0x1234, se_value = 7\<rparr>])
      (\<lambda>p. parseHttp2Settings \<lparr>fr_type = FRAME_SETTINGS, fr_flags = 0, fr_streamId = 0, fr_payload = p\<rparr>) =
     Inr [\<lparr>se_identifier = 4, se_value = 70000\<rparr>, \<lparr>se_identifier = 0x1234, se_value = 7\<rparr>]"
proof -
  have "list_all setting_ok [\<lparr>se_identifier = 4, se_value = 70000\<rparr>, \<lparr>se_identifier = 0x1234, se_value = 7\<rparr>]"
    by code_simp
  from http2_payload_roundtrip [OF this, of 1 1 0 0 "[]"] show ?thesis by (simp add: MAX_WINDOW_SIZE_def)
qed

text \<open>
  Padding is removed exactly: a padded DATA frame yields its data and pad length, and whatever the
  payload, an accepted DATA frame's data, padding and pad-length byte add up to the payload.
\<close>

theorem http2_data_padding:
  assumes "fr_streamId f \<noteq> 0"
  shows "(\<forall>n data pad. js_and (fr_flags f) FLAG_PADDED \<noteq> 0 \<and> fr_payload f = n # data @ pad \<and> length pad = unat n \<longrightarrow>
      parseHttp2Data f = Inr \<lparr>dp_data = data, dp_paddingBytes = uint n\<rparr>) \<and>
    (\<forall>d. parseHttp2Data f = Inr d \<longrightarrow> 0 \<le> dp_paddingBytes d \<and>
       int (length (dp_data d)) + dp_paddingBytes d + (if js_and (fr_flags f) FLAG_PADDED \<noteq> 0 then 1 else 0) =
         int (length (fr_payload f)))"
proof (intro conjI allI impI, elim conjE)
  fix n data pad
  assume p: "js_and (fr_flags f) FLAG_PADDED \<noteq> 0" "fr_payload f = n # data @ pad" "length pad = unat n"
  then show "parseHttp2Data f = Inr \<lparr>dp_data = data, dp_paddingBytes = uint n\<rparr>"
    using assms paddedRange_pad [of pad n data]
    by (simp add: parseHttp2Data_def requireStreamFrame_def js_slice_def)
next
  fix d assume "parseHttp2Data f = Inr d"
  then obtain a b n where "paddedRange (fr_payload f) 0 (js_and (fr_flags f) FLAG_PADDED \<noteq> 0) = Inr (a, b, n)"
    "d = \<lparr>dp_data = js_slice (fr_payload f) a b, dp_paddingBytes = n\<rparr>"
    by (auto simp: parseHttp2Data_def res_bind_Inr_iff)
  with paddedRange_ok [OF this(1)]
  show "0 \<le> dp_paddingBytes d" "int (length (dp_data d)) + dp_paddingBytes d +
      (if js_and (fr_flags f) FLAG_PADDED \<noteq> 0 then 1 else 0) = int (length (fr_payload f))"
    by (auto simp: length_js_slice)
qed

theorem http2_data_padding_witness:
  "parseHttp2Data \<lparr>fr_type = 0, fr_flags = 8, fr_streamId = 1, fr_payload = [2, 7, 0, 0]\<rparr> =
     Inr \<lparr>dp_data = [7], dp_paddingBytes = 2\<rparr>"
proof -
  let ?f = "\<lparr>fr_type = 0, fr_flags = 8, fr_streamId = 1, fr_payload = [2, 7, 0, 0]\<rparr>"
  have "fr_payload ?f = 2 # [7] @ [0, 0]" "length [0, 0 :: byte] = unat (2 :: byte)" by simp_all
  moreover have "js_and (fr_flags ?f) FLAG_PADDED \<noteq> 0" by code_simp
  moreover have "uint (2 :: byte) = 2" by simp
  ultimately show ?thesis
    using http2_data_padding [of ?f, THEN conjunct1, rule_format, of 2 "[7]" "[0, 0]"] by simp
qed

text \<open>
  C7: Whatever frames arrive, the header block assembler stays within its limits: the bytes and the
  number of fragments it holds never exceed the configured maxima, the block it hands out is within
  the byte limit, and it belongs to a stream.
\<close>

theorem http2_assembler_limits:
  assumes "assembler_inv a" and "assembler_accept f a = (r, a')"
  shows "assembler_inv a' \<and> ba_maximumBytes a' = ba_maximumBytes a \<and>
    (\<forall>b. r = Inr (Some b) \<longrightarrow> int (length (hb_block b)) \<le> ba_maximumBytes a \<and> hb_streamId b \<noteq> 0)"
  using assembler_accept_inv [OF assms] by auto

theorem http2_assembler_limits_witness:
  "assembler_inv (snd (assembler_accept \<lparr>fr_type = 1, fr_flags = 0, fr_streamId = 1, fr_payload = [0x82]\<rparr>
     (projr (newHeaderBlockAssembler 100 4))))"
proof -
  have "assembler_inv (projr (newHeaderBlockAssembler 100 4))" by code_simp
  from http2_assembler_limits [OF this, of "\<lparr>fr_type = 1, fr_flags = 0, fr_streamId = 1, fr_payload = [0x82]\<rparr>"]
  show ?thesis by (metis prod.collapse)
qed

text \<open>
  Once a header block has been opened, every frame other than a CONTINUATION of the same stream
  is refused without changing the assembler, until the block has ended.
\<close>

theorem http2_assembler_exclusive:
  assumes "ba_pending a = Some p" and "fr_type f \<noteq> FRAME_CONTINUATION \<or> fr_streamId f \<noteq> pb_streamId p"
  shows "\<exists>e. assembler_accept f a = (Inl e, a)"
  using assms by (auto simp: assembler_accept_def protocolError_def split: sum.splits)

theorem http2_assembler_exclusive_witness:
  "\<exists>e. assembler_accept sample_frame
      (snd (assembler_accept \<lparr>fr_type = 1, fr_flags = 0, fr_streamId = 1, fr_payload = [0x82]\<rparr>
         (projr (newHeaderBlockAssembler 100 4)))) =
    (Inl e, snd (assembler_accept \<lparr>fr_type = 1, fr_flags = 0, fr_streamId = 1, fr_payload = [0x82]\<rparr>
         (projr (newHeaderBlockAssembler 100 4))))"
proof -
  let ?a = "snd (assembler_accept \<lparr>fr_type = 1, fr_flags = 0, fr_streamId = 1, fr_payload = [0x82]\<rparr>
         (projr (newHeaderBlockAssembler 100 4)))"
  have "ba_pending ?a = Some \<lparr>pb_kind = HeadersKind, pb_streamId = 1, pb_endStream = False,
      pb_promisedStreamId = None, pb_priority = None, pb_fragments = [[0x82]], pb_bytes = 1\<rparr>" by code_simp
  from http2_assembler_exclusive [OF this, of sample_frame]
  show ?thesis by (simp add: sample_frame_def FRAME_CONTINUATION_def)
qed

end
