(* ===== verification/Js_Strings.thy ===== *)
theory Js_Strings
  imports Nts_Prelude
begin

text \<open>
  The methods of the standard library on strings that the parsers share: \<^verbatim>\<open>split\<close>, \<^verbatim>\<open>indexOf\<close> and
  \<^verbatim>\<open>lastIndexOf\<close> on a single code unit, \<^verbatim>\<open>slice\<close>, and the numbers written in decimal and hexadecimal
  digits.
\<close>

section \<open>Definitions\<close>

text \<open>\<^verbatim>\<open>split\<close> on a single code unit.\<close>

fun js_split :: "code_unit \<Rightarrow> jsstring \<Rightarrow> jsstring list" where
  "js_split c [] = [[]]"
| "js_split c (u # us) =
     (if u = c then [] # js_split c us
      else case js_split c us of [] \<Rightarrow> [[u]] | m # ms \<Rightarrow> (u # m) # ms)"

text \<open>\<^verbatim>\<open>indexOf\<close> and \<^verbatim>\<open>lastIndexOf\<close> of a code unit; \<open>None\<close> is the answer -1.\<close>

function js_indexOf :: "code_unit \<Rightarrow> jsstring \<Rightarrow> nat \<Rightarrow> nat option" where
  "js_indexOf c s start =
     (if start < length s then if s ! start = c then Some start else js_indexOf c s (start + 1) else None)"
  by auto
termination by (relation "measure (\<lambda>(c, s, start). length s - start)") auto

declare js_indexOf.simps [simp del]

fun lastIndexBelow :: "code_unit \<Rightarrow> jsstring \<Rightarrow> nat \<Rightarrow> nat option" where
  "lastIndexBelow c s 0 = None"
| "lastIndexBelow c s (Suc n) = (if s ! n = c then Some n else lastIndexBelow c s n)"

definition js_lastIndexOf :: "code_unit \<Rightarrow> jsstring \<Rightarrow> nat option" where
  "js_lastIndexOf c s = lastIndexBelow c s (length s)"

text \<open>\<^verbatim>\<open>slice\<close> with indices that are not negative: both are cut to the length.\<close>

definition str_slice :: "jsstring \<Rightarrow> nat \<Rightarrow> nat \<Rightarrow> jsstring" where
  "str_slice s a b = take (b - a) (drop a s)"

text \<open>\<^verbatim>\<open>charCodeAt\<close>; beyond the end it is \<^verbatim>\<open>NaN\<close>, which equals no number: \<open>None\<close>.\<close>

definition charCodeAt :: "jsstring \<Rightarrow> nat \<Rightarrow> int option" where
  "charCodeAt s i = (if i < length s then Some (uint (s ! i)) else None)"

definition is_digit_unit :: "code_unit \<Rightarrow> bool" where
  "is_digit_unit u \<longleftrightarrow> 48 \<le> uint u \<and> uint u \<le> 57"

text \<open>
  \<^verbatim>\<open>Number\<close> of a string of decimal digits. Rounding to a double cannot bring a number above
  \<open>2 ^ 53 - 1\<close> back into the safe range, so the safe-integer test on the exact value decides alike.
\<close>

definition digits_number :: "jsstring \<Rightarrow> int" where
  "digits_number v = fold (\<lambda>u n. n * 10 + (uint u - 48)) v 0"

text \<open>\<^verbatim>\<open>String(n)\<close> and \<^verbatim>\<open>n.toString(16)\<close> of a number that is an integer of the safe range.\<close>

definition digitChar :: "nat \<Rightarrow> code_unit" where
  "digitChar d = word_of_int (if d < 10 then 48 + int d else 87 + int d)"

fun nat_digits :: "nat \<Rightarrow> nat \<Rightarrow> jsstring" where
  "nat_digits base n =
     (if n < base \<or> base < 2 then [digitChar n] else nat_digits base (n div base) @ [digitChar (n mod base)])"

declare nat_digits.simps [simp del]

section \<open>Lemmas: numbers\<close>

definition length_text :: "int \<Rightarrow> jsstring \<Rightarrow> bool" where
  "length_text n v \<longleftrightarrow> v \<noteq> [] \<and> list_all is_digit_unit v \<and> digits_number v = n \<and> js_isSafeInteger n"

lemma digits_number_nonneg: "list_all is_digit_unit v \<Longrightarrow> 0 \<le> digits_number v"
proof -
  have "list_all is_digit_unit v \<Longrightarrow> 0 \<le> n \<Longrightarrow> 0 \<le> fold (\<lambda>u n. n * 10 + (uint u - 48)) v n" for n :: int
    by (induction v arbitrary: n) (auto simp: is_digit_unit_def)
  then show "list_all is_digit_unit v \<Longrightarrow> 0 \<le> digits_number v" by (simp add: digits_number_def)
qed

lemma digits_number_append: "digits_number (v @ [u]) = digits_number v * 10 + (uint u - 48)"
  by (simp add: digits_number_def)

lemma uint_digitChar: "d < 16 \<Longrightarrow> uint (digitChar d) = (if d < 10 then 48 + int d else 87 + int d)"
  by (simp add: digitChar_def uint_word_of_int del: of_int_add)

lemma nat_digits_decimal:
  "list_all is_digit_unit (nat_digits 10 n) \<and> digits_number (nat_digits 10 n) = int n \<and> nat_digits 10 n \<noteq> []"
proof (induction "10 :: nat" n rule: nat_digits.induct)
  case (1 n)
  show ?case
  proof (cases "n < 10")
    case True
    then show ?thesis
      by (simp add: nat_digits.simps [of 10 n] is_digit_unit_def uint_digitChar digits_number_def)
  next
    case False
    have "n mod 10 < 10" by simp
    then show ?thesis using 1 False
      by (subst (1 2 3) nat_digits.simps)
        (simp add: is_digit_unit_def uint_digitChar digits_number_append div_mult_mod_eq zdiv_int zmod_int)
  qed
qed

section \<open>Lemmas: searching and splitting\<close>

lemma js_indexOf_Some:
  "js_indexOf c s start = Some i \<longleftrightarrow> start \<le> i \<and> i < length s \<and> s ! i = c \<and> (\<forall>j. start \<le> j \<and> j < i \<longrightarrow> s ! j \<noteq> c)"
proof (induction c s start rule: js_indexOf.induct)
  case (1 c s start)
  show ?case
  proof (cases "start < length s \<and> s ! start \<noteq> c")
    case True
    then have "js_indexOf c s start = js_indexOf c s (start + 1)" by (simp add: js_indexOf.simps [of c s "start"])
    moreover have "start \<le> i \<and> i < length s \<and> s ! i = c \<and> (\<forall>j. start \<le> j \<and> j < i \<longrightarrow> s ! j \<noteq> c) \<longleftrightarrow>
        start + 1 \<le> i \<and> i < length s \<and> s ! i = c \<and> (\<forall>j. start + 1 \<le> j \<and> j < i \<longrightarrow> s ! j \<noteq> c)"
      using True by (metis Suc_eq_plus1 Suc_le_eq le_neq_implies_less le_less)
    ultimately show ?thesis using 1 True by simp
  next
    case False
    then show ?thesis by (subst js_indexOf.simps) (auto simp: not_less)
  qed
qed

lemma js_indexOf_append: "c \<notin> set s \<Longrightarrow> js_indexOf c (s @ c # t) 0 = Some (length s)"
  by (auto simp: js_indexOf_Some nth_append)

lemma js_indexOf_None: "js_indexOf c s start = None \<longleftrightarrow> (\<forall>i. start \<le> i \<and> i < length s \<longrightarrow> s ! i \<noteq> c)"
proof (induction c s start rule: js_indexOf.induct)
  case (1 c s start)
  have "(\<forall>i. start \<le> i \<and> i < length s \<longrightarrow> s ! i \<noteq> c) \<longleftrightarrow>
      start < length s \<longrightarrow> s ! start \<noteq> c \<and> (\<forall>i. start + 1 \<le> i \<and> i < length s \<longrightarrow> s ! i \<noteq> c)"
  proof (intro iffI allI impI)
    fix i assume a: "start < length s \<longrightarrow> s ! start \<noteq> c \<and> (\<forall>i. start + 1 \<le> i \<and> i < length s \<longrightarrow> s ! i \<noteq> c)"
      and i: "start \<le> i \<and> i < length s"
    show "s ! i \<noteq> c" using a i by (cases "i = start") auto
  qed auto
  then show ?case using 1 by (subst js_indexOf.simps) simp
qed

lemma lastIndexBelow_append: "n \<le> length s \<Longrightarrow> lastIndexBelow c (s @ t) n = lastIndexBelow c s n"
  by (induction n) (auto simp: nth_append)

lemma js_lastIndexOf_append: "c \<notin> set t \<Longrightarrow> js_lastIndexOf c (s @ c # t) = Some (length s)"
proof (induction t rule: rev_induct)
  case Nil
  then show ?case by (simp add: js_lastIndexOf_def)
next
  case (snoc u t)
  then show ?case using lastIndexBelow_append [of "Suc (length s + length t)" "s @ c # t" c "[u]"]
    by (auto simp: js_lastIndexOf_def nth_append)
qed

lemma lastIndexBelow_Some:
  "lastIndexBelow c s n = Some i \<longleftrightarrow> i < n \<and> s ! i = c \<and> (\<forall>j. i < j \<and> j < n \<longrightarrow> s ! j \<noteq> c)"
  by (induction n) (auto simp: less_Suc_eq)

end
