(* ===== verification/Http2_Headers.thy ===== *)
theory Http2_Headers
  imports Hpack Http2_Frame Js_Strings
begin

text \<open>
  Validation of HTTP/2 header lists, \<^verbatim>\<open>runtime/web-platform/src/http2/headers.ts\<close>: field syntax,
  \<^verbatim>\<open>Content-Length\<close>, the pseudo-headers of requests and responses, and trailers. A field is
  validated by its name and value, which the two field types of \<^verbatim>\<open>hpack.ts\<close> have in common.
\<close>

section \<open>Definitions\<close>

definition forbiddenConnectionFields :: "jsstring list" where
  "forbiddenConnectionFields = map js_string
     [''connection'', ''keep-alive'', ''proxy-connection'', ''transfer-encoding'', ''upgrade'']"

definition streamProtocolError :: "int \<Rightarrow> 'a result" where
  "streamProtocolError streamId = Inl (Http2WireError PROTOCOL_ERROR (Some streamId))"

definition is_pseudo :: "jsstring \<Rightarrow> bool" where
  "is_pseudo name \<longleftrightarrow> (case name of [] \<Rightarrow> False | u # _ \<Rightarrow> u = 58)"

definition fieldNameUnit :: "code_unit \<Rightarrow> bool" where
  "fieldNameUnit u \<longleftrightarrow>
     (let code = uint u
      in (code \<ge> 97 \<and> code \<le> 122) \<or> (code \<ge> 48 \<and> code \<le> 57) \<or> code = 33 \<or> code = 35 \<or> code = 36 \<or>
         code = 37 \<or> code = 38 \<or> code = 39 \<or> code = 42 \<or> code = 43 \<or> code = 45 \<or> code = 46 \<or>
         code = 94 \<or> code = 95 \<or> code = 96 \<or> code = 124 \<or> code = 126)"

definition isLowercaseFieldName :: "jsstring \<Rightarrow> bool" where
  "isLowercaseFieldName name =
     (let start = (if is_pseudo name then 1 else 0)
      in if start = length name then False else list_all fieldNameUnit (drop start name))"

definition asciiEqualsIgnoreCase :: "jsstring \<Rightarrow> jsstring \<Rightarrow> bool" where
  "asciiEqualsIgnoreCase v expectedLowercase =
     (if length v \<noteq> length expectedLowercase then False
      else list_all (\<lambda>(u, e). (if uint u \<ge> 65 \<and> uint u \<le> 90 then uint u + 32 else uint u) = uint e)
             (zip v expectedLowercase))"

definition blank :: "code_unit \<Rightarrow> bool" where
  "blank u \<longleftrightarrow> u = 32 \<or> u = 9"

definition trimBlanks :: "jsstring \<Rightarrow> jsstring" where
  "trimBlanks member = rev (dropWhile blank (rev (dropWhile blank member)))"

definition isTrailersOnly :: "jsstring \<Rightarrow> bool" where
  "isTrailersOnly v =
     (let members = js_split 44 v
      in if length members = 0 then False
         else list_all (\<lambda>member. let trimmed = trimBlanks member
                in \<not> (trimmed = [] \<or> \<not> asciiEqualsIgnoreCase trimmed (js_string ''trailers''))) members)"

definition forbiddenValueUnit :: "code_unit \<Rightarrow> bool" where
  "forbiddenValueUnit u \<longleftrightarrow> (uint u < 32 \<and> uint u \<noteq> 9) \<or> uint u = 127"

definition validateField :: "jsstring \<Rightarrow> jsstring \<Rightarrow> int \<Rightarrow> unit result" where
  "validateField name v streamId =
     (if \<not> isLowercaseFieldName name then streamProtocolError streamId
      else if v \<noteq> [] \<and> (blank (hd v) \<or> blank (last v)) then streamProtocolError streamId
      else if list_ex (\<lambda>forbidden. name = forbidden) forbiddenConnectionFields then streamProtocolError streamId
      else if list_ex forbiddenValueUnit v then streamProtocolError streamId
      else if name = js_string ''te'' \<and> \<not> isTrailersOnly v then streamProtocolError streamId
      else Inr ())"

definition contentLengthMember :: "int \<Rightarrow> jsstring \<Rightarrow> int option \<Rightarrow> int option result" where
  "contentLengthMember streamId v expected =
     (if v = [] \<or> \<not> list_all is_digit_unit v then streamProtocolError streamId
      else let parsed = digits_number v
           in if \<not> js_isSafeInteger parsed then streamProtocolError streamId
              else case expected of
                  None \<Rightarrow> Inr (Some parsed)
                | Some n \<Rightarrow> (if parsed \<noteq> n then streamProtocolError streamId else Inr (Some n)))"

definition parseContentLength :: "(jsstring \<times> jsstring) list \<Rightarrow> int \<Rightarrow> int option result" where
  "parseContentLength fieldList streamId =
     res_fold (\<lambda>(name, v) expected.
         if name \<noteq> js_string ''content-length'' then Inr expected
         else res_fold (contentLengthMember streamId) (js_split 44 v) expected)
       fieldList None"

record request_state =
  rs_regular :: bool
  rs_method :: "jsstring option"
  rs_scheme :: "jsstring option"
  rs_authority :: "jsstring option"
  rs_path :: "jsstring option"
  rs_protocol :: "jsstring option"

definition requestField :: "int \<Rightarrow> hpack_field \<Rightarrow> request_state \<Rightarrow> request_state result" where
  "requestField streamId f s =
     res_bind (validateField (hf_name f) (hf_value f) streamId) (\<lambda>_.
     let name = hf_name f; pseudo = is_pseudo name
     in if pseudo \<and> rs_regular s then streamProtocolError streamId
        else let s' = (if \<not> pseudo then s\<lparr>rs_regular := True\<rparr> else s) in
        if name = js_string '':method'' then
          (if rs_method s' \<noteq> None then streamProtocolError streamId else Inr (s'\<lparr>rs_method := Some (hf_value f)\<rparr>))
        else if name = js_string '':scheme'' then
          (if rs_scheme s' \<noteq> None then streamProtocolError streamId else Inr (s'\<lparr>rs_scheme := Some (hf_value f)\<rparr>))
        else if name = js_string '':authority'' then
          (if rs_authority s' \<noteq> None then streamProtocolError streamId else Inr (s'\<lparr>rs_authority := Some (hf_value f)\<rparr>))
        else if name = js_string '':path'' then
          (if rs_path s' \<noteq> None then streamProtocolError streamId else Inr (s'\<lparr>rs_path := Some (hf_value f)\<rparr>))
        else if name = js_string '':protocol'' then
          (if rs_protocol s' \<noteq> None then streamProtocolError streamId else Inr (s'\<lparr>rs_protocol := Some (hf_value f)\<rparr>))
        else if pseudo then streamProtocolError streamId
        else Inr s')"

definition requestStart :: request_state where
  "requestStart = \<lparr>rs_regular = False, rs_method = None, rs_scheme = None, rs_authority = None,
     rs_path = None, rs_protocol = None\<rparr>"

definition requestFinish :: "request_state \<Rightarrow> int \<Rightarrow> bool \<Rightarrow> int option \<Rightarrow> int option result" where
  "requestFinish s streamId extendedConnectEnabled contentLength =
     (if rs_method s = None \<or> rs_method s = Some [] then streamProtocolError streamId
      else if rs_protocol s \<noteq> None then
        (if \<not> extendedConnectEnabled \<or> rs_method s \<noteq> Some (js_string ''CONNECT'') then streamProtocolError streamId
         else if rs_protocol s = Some [] \<or> rs_scheme s = None \<or> rs_authority s = None \<or> rs_path s = None \<or>
              rs_path s = Some [] then streamProtocolError streamId
         else Inr contentLength)
      else if rs_method s = Some (js_string ''CONNECT'') then
        (if rs_authority s = None \<or> rs_authority s = Some [] \<or> rs_scheme s \<noteq> None \<or> rs_path s \<noteq> None
         then streamProtocolError streamId else Inr contentLength)
      else if rs_scheme s = None \<or> rs_scheme s = Some [] \<or> rs_authority s = None \<or> rs_authority s = Some [] \<or>
           rs_path s = None \<or> rs_path s = Some [] then streamProtocolError streamId
      else Inr contentLength)"

definition validateHttp2RequestHeaders :: "hpack_field list \<Rightarrow> int \<Rightarrow> bool \<Rightarrow> int option result" where
  "validateHttp2RequestHeaders fieldList streamId extendedConnectEnabled =
     res_bind (res_fold (requestField streamId) fieldList requestStart) (\<lambda>s.
     res_bind (parseContentLength (map (\<lambda>f. (hf_name f, hf_value f)) fieldList) streamId) (\<lambda>contentLength.
     requestFinish s streamId extendedConnectEnabled contentLength))"

record response_state =
  ps_regular :: bool
  ps_statusText :: "jsstring option"
  ps_headers :: "decoded_header list"

record http2_response_headers =
  rh_status :: int
  rh_headers :: "decoded_header list"
  rh_contentLength :: "int option"

definition responseField :: "int \<Rightarrow> decoded_header \<Rightarrow> response_state \<Rightarrow> response_state result" where
  "responseField streamId f s =
     res_bind (validateField (dh_name f) (dh_value f) streamId) (\<lambda>_.
     let pseudo = is_pseudo (dh_name f)
     in if pseudo \<and> ps_regular s then streamProtocolError streamId
        else let s' = (if \<not> pseudo then s\<lparr>ps_regular := True\<rparr> else s) in
        if dh_name f = js_string '':status'' then
          (if ps_statusText s' \<noteq> None then streamProtocolError streamId
           else Inr (s'\<lparr>ps_statusText := Some (dh_value f)\<rparr>))
        else if pseudo then streamProtocolError streamId
        else Inr (s'\<lparr>ps_headers := ps_headers s' @ [f]\<rparr>))"

definition is_status_text :: "jsstring \<Rightarrow> bool" where
  "is_status_text v \<longleftrightarrow>
     (case v of
        [a, b, c] \<Rightarrow> 49 \<le> uint a \<and> uint a \<le> 53 \<and> is_digit_unit b \<and> is_digit_unit c
      | _ \<Rightarrow> False)"

definition parseHttp2ResponseHeaders :: "decoded_header list \<Rightarrow> int \<Rightarrow> http2_response_headers result" where
  "parseHttp2ResponseHeaders fieldList streamId =
     res_bind (res_fold (responseField streamId) fieldList
                 \<lparr>ps_regular = False, ps_statusText = None, ps_headers = []\<rparr>) (\<lambda>s.
     case ps_statusText s of
       None \<Rightarrow> streamProtocolError streamId
     | Some statusText \<Rightarrow>
         (if \<not> is_status_text statusText \<or> statusText = js_string ''101'' then streamProtocolError streamId
          else res_bind (parseContentLength (map (\<lambda>h. (dh_name h, dh_value h)) (ps_headers s)) streamId)
                 (\<lambda>contentLength. Inr \<lparr>rh_status = digits_number statusText, rh_headers = ps_headers s,
                                        rh_contentLength = contentLength\<rparr>)))"

definition parseHttp2Trailers :: "decoded_header list \<Rightarrow> int \<Rightarrow> decoded_header list result" where
  "parseHttp2Trailers fieldList streamId =
     res_bind (res_fold (\<lambda>f _.
         res_bind (validateField (dh_name f) (dh_value f) streamId) (\<lambda>_.
         if is_pseudo (dh_name f) then streamProtocolError streamId
         else if dh_name f = js_string ''content-length'' \<or> dh_name f = js_string ''host'' \<or>
                 dh_name f = js_string ''te'' then streamProtocolError streamId
         else Inr ())) fieldList ()) (\<lambda>_. Inr fieldList)"

definition http2HeaderListSize :: "hpack_field list \<Rightarrow> int result" where
  "http2HeaderListSize fieldList =
     res_fold (\<lambda>f n.
       let n' = n + (int (length (hf_name f)) + int (length (hf_value f)) + 32)
       in if \<not> js_isSafeInteger n' then Inl RangeError else Inr n') fieldList 0"

section \<open>Lemmas\<close>

definition field_valid :: "jsstring \<Rightarrow> jsstring \<Rightarrow> bool" where
  "field_valid name v \<longleftrightarrow> validateField name v 0 = Inr ()"

lemma validateField_iff: "validateField name v sid = Inr u \<longleftrightarrow> field_valid name v"
  by (simp add: field_valid_def validateField_def streamProtocolError_def)

lemma validateField_error: "validateField name v sid = Inl e \<Longrightarrow> e = Http2WireError PROTOCOL_ERROR (Some sid)"
  by (auto simp: validateField_def streamProtocolError_def split: if_splits)

lemma validateField_eq:
  "validateField name v sid = (if field_valid name v then Inr () else streamProtocolError sid)"
  by (auto simp: field_valid_def validateField_def streamProtocolError_def)

text \<open>What a valid field cannot carry: line breaks or NUL in its value, or a connection field name.\<close>

lemma field_valid_safe:
  assumes "field_valid name v"
  shows "name \<noteq> []" "0 \<notin> set v" "10 \<notin> set v" "13 \<notin> set v" "name \<notin> set forbiddenConnectionFields"
    "\<forall>u\<in>set name. uint u \<notin> {65..90}"
proof -
  have ok: "isLowercaseFieldName name" "\<not> list_ex (\<lambda>x. name = x) forbiddenConnectionFields"
    "\<not> list_ex forbiddenValueUnit v"
    using assms by (auto simp: field_valid_def validateField_def streamProtocolError_def split: if_splits)
  show "name \<noteq> []" using ok(1) by (auto simp: isLowercaseFieldName_def is_pseudo_def)
  show "name \<notin> set forbiddenConnectionFields" using ok(2) by (auto simp: list_ex_iff)
  show "0 \<notin> set v" "10 \<notin> set v" "13 \<notin> set v"
    using ok(3) by (auto simp: list_ex_iff forbiddenValueUnit_def)
  show "\<forall>u\<in>set name. uint u \<notin> {65..90}"
  proof
    fix u assume u: "u \<in> set name"
    have "fieldNameUnit u \<or> u = 58"
      using u ok(1) by (cases name) (auto simp: isLowercaseFieldName_def is_pseudo_def list_all_iff split: if_splits)
    then show "uint u \<notin> {65..90}" by (auto simp: fieldNameUnit_def Let_def)
  qed
qed

lemma is_pseudo_names:
  "is_pseudo (js_string '':method'')" "is_pseudo (js_string '':scheme'')" "is_pseudo (js_string '':authority'')"
  "is_pseudo (js_string '':path'')" "is_pseudo (js_string '':protocol'')" "is_pseudo (js_string '':status'')"
  by code_simp+

subsection \<open>Content-Length\<close>

definition content_length_values :: "(jsstring \<times> jsstring) list \<Rightarrow> jsstring list" where
  "content_length_values fieldList =
     concat (map (\<lambda>(name, v). if name = js_string ''content-length'' then js_split 44 v else []) fieldList)"

lemma res_fold_concat_map:
  "res_fold (\<lambda>x s. res_fold f (g x) s) xs s = res_fold f (concat (map g xs)) s"
  by (induction xs arbitrary: s) (auto simp: res_fold_append intro!: res_bind_cong)

lemma parseContentLength_values:
  "parseContentLength fieldList sid = res_fold (contentLengthMember sid) (content_length_values fieldList) None"
proof -
  have "(\<lambda>(name, v) expected. if name \<noteq> js_string ''content-length'' then Inr expected
         else res_fold (contentLengthMember sid) (js_split 44 v) expected) =
      (\<lambda>x s. res_fold (contentLengthMember sid)
         ((\<lambda>(name, v). if name = js_string ''content-length'' then js_split 44 v else []) x) s)"
    by (auto simp: fun_eq_iff)
  then show ?thesis
    unfolding parseContentLength_def content_length_values_def by (simp only: res_fold_concat_map)
qed

lemma contentLengthMember_iff:
  "contentLengthMember sid v expected = Inr r \<longleftrightarrow>
     (\<exists>n. r = Some n \<and> length_text n v \<and> (expected = None \<or> expected = Some n))"
  by (auto simp: contentLengthMember_def length_text_def streamProtocolError_def Let_def split: option.splits)

lemma contentLength_fold_Some:
  "res_fold (contentLengthMember sid) vs (Some n) = Inr r \<longleftrightarrow> r = Some n \<and> (\<forall>v\<in>set vs. length_text n v)"
  by (induction vs) (auto simp: res_bind_Inr_iff contentLengthMember_iff)

lemma parseContentLength_iff:
  "parseContentLength fieldList sid = Inr r \<longleftrightarrow>
     (case r of None \<Rightarrow> content_length_values fieldList = []
      | Some n \<Rightarrow> content_length_values fieldList \<noteq> [] \<and> (\<forall>v\<in>set (content_length_values fieldList). length_text n v))"
  unfolding parseContentLength_values
  by (cases "content_length_values fieldList"; cases r)
    (auto simp: res_bind_Inr_iff contentLengthMember_iff contentLength_fold_Some)

subsection \<open>Responses\<close>

lemma responseField_regular:
  assumes "ps_regular s"
  shows "responseField sid f s = Inr s' \<longleftrightarrow> field_valid (dh_name f) (dh_value f) \<and> \<not> is_pseudo (dh_name f) \<and>
    s' = s\<lparr>ps_headers := ps_headers s @ [f]\<rparr>"
  using assms is_pseudo_names(6)
  by (cases s) (auto simp: responseField_def validateField_eq streamProtocolError_def Let_def)

lemma responseFields_regular:
  "ps_regular s \<Longrightarrow> res_fold (responseField sid) fs s = Inr s' \<longleftrightarrow>
     list_all (\<lambda>f. field_valid (dh_name f) (dh_value f) \<and> \<not> is_pseudo (dh_name f)) fs \<and>
     s' = s\<lparr>ps_headers := ps_headers s @ fs\<rparr>"
proof (induction fs arbitrary: s)
  case (Cons f fs)
  have "res_fold (responseField sid) (f # fs) s = Inr s' \<longleftrightarrow>
      (\<exists>t. responseField sid f s = Inr t \<and> res_fold (responseField sid) fs t = Inr s')"
    by (simp add: res_bind_Inr_iff)
  also have "\<dots> \<longleftrightarrow> field_valid (dh_name f) (dh_value f) \<and> \<not> is_pseudo (dh_name f) \<and>
      res_fold (responseField sid) fs (s\<lparr>ps_headers := ps_headers s @ [f]\<rparr>) = Inr s'"
    using responseField_regular [OF Cons.prems] by auto
  finally show ?case using Cons.IH [of "s\<lparr>ps_headers := ps_headers s @ [f]\<rparr>"] Cons.prems by auto
qed auto

definition response_start :: "jsstring option \<Rightarrow> response_state" where
  "response_start st = \<lparr>ps_regular = False, ps_statusText = st, ps_headers = []\<rparr>"

lemma responseField_start:
  "responseField sid f (response_start st) = Inr s' \<longleftrightarrow> field_valid (dh_name f) (dh_value f) \<and>
     (if dh_name f = js_string '':status'' then st = None \<and> s' = response_start (Some (dh_value f))
      else \<not> is_pseudo (dh_name f) \<and> s' = \<lparr>ps_regular = True, ps_statusText = st, ps_headers = [f]\<rparr>)"
  using is_pseudo_names(6)
  by (auto simp: responseField_def validateField_eq streamProtocolError_def Let_def response_start_def)

text \<open>The header lists whose fold ends with a status: the status field, then regular fields.\<close>

lemma responseFields_status:
  "res_fold (responseField sid) fs (response_start (Some v)) = Inr s' \<longleftrightarrow>
     list_all (\<lambda>f. field_valid (dh_name f) (dh_value f) \<and> \<not> is_pseudo (dh_name f)) fs \<and>
     s' = \<lparr>ps_regular = (fs \<noteq> []), ps_statusText = Some v, ps_headers = fs\<rparr>"
proof (cases fs)
  case Nil
  then show ?thesis by (auto simp: response_start_def)
next
  case (Cons f gs)
  have "res_fold (responseField sid) (f # gs) (response_start (Some v)) = Inr s' \<longleftrightarrow>
      (\<exists>t. responseField sid f (response_start (Some v)) = Inr t \<and> res_fold (responseField sid) gs t = Inr s')"
    by (simp add: res_bind_Inr_iff)
  then show ?thesis
    using responseField_start [of sid f "Some v"] responseFields_regular [of _ sid gs s'] is_pseudo_names(6) Cons
    by auto
qed

lemma responseFields_None:
  "ps_regular s \<Longrightarrow> ps_statusText s = None \<Longrightarrow> res_fold (responseField sid) fs s = Inr s' \<Longrightarrow> ps_statusText s' = None"
  by (simp add: responseFields_regular)

lemma responseFields_iff:
  "(res_fold (responseField sid) fs (response_start None) = Inr s' \<and> ps_statusText s' = Some v) \<longleftrightarrow>
     (\<exists>f hs. fs = f # hs \<and> dh_name f = js_string '':status'' \<and> dh_value f = v \<and>
        field_valid (dh_name f) (dh_value f) \<and>
        list_all (\<lambda>f. field_valid (dh_name f) (dh_value f) \<and> \<not> is_pseudo (dh_name f)) hs \<and>
        s' = \<lparr>ps_regular = (hs \<noteq> []), ps_statusText = Some v, ps_headers = hs\<rparr>)"
proof (cases fs)
  case Nil
  then show ?thesis by (auto simp: response_start_def)
next
  case (Cons f gs)
  have split: "res_fold (responseField sid) (f # gs) (response_start None) = Inr s' \<longleftrightarrow>
      (\<exists>t. responseField sid f (response_start None) = Inr t \<and> res_fold (responseField sid) gs t = Inr s')"
    by (simp add: res_bind_Inr_iff)
  show ?thesis
  proof (cases "dh_name f = js_string '':status''")
    case True
    then show ?thesis
      using split responseField_start [of sid f None] responseFields_status [of sid gs "dh_value f" s'] Cons by auto
  next
    case False
    then have "\<not> (res_fold (responseField sid) (f # gs) (response_start None) = Inr s' \<and> ps_statusText s' = Some v)"
      using split responseField_start [of sid f None] by (auto simp: responseFields_regular)
    then show ?thesis using Cons False by auto
  qed
qed

subsection \<open>Requests\<close>

definition PSEUDO_NAMES :: "jsstring list" where
  "PSEUDO_NAMES = map js_string ['':method'', '':scheme'', '':authority'', '':path'', '':protocol'']"

text \<open>The state of the loop as a function from pseudo-header names to values.\<close>

definition request_view :: "request_state \<Rightarrow> jsstring \<Rightarrow> jsstring option" where
  "request_view s name =
     (if name = js_string '':method'' then rs_method s
      else if name = js_string '':scheme'' then rs_scheme s
      else if name = js_string '':authority'' then rs_authority s
      else if name = js_string '':path'' then rs_path s
      else if name = js_string '':protocol'' then rs_protocol s
      else None)"

lemma requestField_pseudo:
  assumes "is_pseudo (hf_name f)"
  shows "(\<exists>s'. requestField sid f s = Inr s') \<longleftrightarrow> field_valid (hf_name f) (hf_value f) \<and> \<not> rs_regular s \<and>
      hf_name f \<in> set PSEUDO_NAMES \<and> request_view s (hf_name f) = None"
    "requestField sid f s = Inr s' \<Longrightarrow>
      rs_regular s' = rs_regular s \<and> request_view s' = (request_view s)(hf_name f \<mapsto> hf_value f)"
  using assms
  by (auto simp: requestField_def validateField_eq streamProtocolError_def Let_def PSEUDO_NAMES_def
      request_view_def fun_eq_iff split: if_splits)

lemma requestField_regular:
  assumes "\<not> is_pseudo (hf_name f)"
  shows "requestField sid f s =
    (if field_valid (hf_name f) (hf_value f) then Inr (s\<lparr>rs_regular := True\<rparr>) else streamProtocolError sid)"
  using assms is_pseudo_names by (auto simp: requestField_def validateField_eq streamProtocolError_def Let_def)

definition field_pair :: "hpack_field \<Rightarrow> jsstring \<times> jsstring" where
  "field_pair f = (hf_name f, hf_value f)"

definition pseudo_part :: "hpack_field list \<Rightarrow> hpack_field list" where
  "pseudo_part fs = takeWhile (\<lambda>f. is_pseudo (hf_name f)) fs"

definition regular_part :: "hpack_field list \<Rightarrow> hpack_field list" where
  "regular_part fs = dropWhile (\<lambda>f. is_pseudo (hf_name f)) fs"

text \<open>
  The shape of a request's header list: valid fields, the pseudo-headers first, each a known one
  and none twice.
\<close>

definition request_shape :: "hpack_field list \<Rightarrow> bool" where
  "request_shape fs \<longleftrightarrow> list_all (\<lambda>f. field_valid (hf_name f) (hf_value f)) fs \<and>
     list_all (\<lambda>f. \<not> is_pseudo (hf_name f)) (regular_part fs) \<and>
     distinct (map hf_name (pseudo_part fs)) \<and> set (map hf_name (pseudo_part fs)) \<subseteq> set PSEUDO_NAMES"

lemma parts_all_pseudo:
  assumes "\<forall>g\<in>set fs. is_pseudo (hf_name g)"
  shows "pseudo_part fs = fs" "regular_part fs = []"
    "pseudo_part (fs @ [f]) = fs @ pseudo_part [f]" "regular_part (fs @ [f]) = regular_part [f]"
  using assms by (simp_all add: pseudo_part_def regular_part_def)

lemma parts_snoc_pseudo:
  assumes "regular_part fs = []" and "is_pseudo (hf_name f)"
  shows "pseudo_part (fs @ [f]) = pseudo_part fs @ [f] \<and> regular_part (fs @ [f]) = []"
proof -
  have all: "\<forall>g\<in>set fs. is_pseudo (hf_name g)" using assms(1) by (simp add: regular_part_def)
  show ?thesis using assms(2) by (simp add: parts_all_pseudo [OF all]) (simp add: pseudo_part_def regular_part_def)
qed

lemma parts_snoc_regular:
  assumes "\<not> is_pseudo (hf_name f) \<or> regular_part fs \<noteq> []"
  shows "pseudo_part (fs @ [f]) = pseudo_part fs \<and> regular_part (fs @ [f]) = regular_part fs @ [f]"
proof (cases "\<forall>g\<in>set fs. is_pseudo (hf_name g)")
  case True
  then show ?thesis
    using assms by (simp add: parts_all_pseudo [OF True]) (simp add: pseudo_part_def regular_part_def)
next
  case False
  then obtain g where "g \<in> set fs" "\<not> is_pseudo (hf_name g)" by blast
  then show ?thesis
    by (simp add: pseudo_part_def regular_part_def takeWhile_append1 dropWhile_append1)
qed

lemma request_view_regular: "request_view (s\<lparr>rs_regular := b\<rparr>) = request_view s"
  by (simp add: request_view_def fun_eq_iff)

lemma requestFields_ok:
  "case res_fold (requestField sid) fs requestStart of
     Inl e \<Rightarrow> \<not> request_shape fs
   | Inr s \<Rightarrow> request_shape fs \<and> (rs_regular s \<longleftrightarrow> regular_part fs \<noteq> []) \<and>
       request_view s = map_of (map field_pair (pseudo_part fs))"
proof (induction fs rule: rev_induct)
  case Nil
  show ?case by (auto simp: requestStart_def request_shape_def pseudo_part_def regular_part_def request_view_def)
next
  case (snoc f fs)
  show ?case
  proof (cases "res_fold (requestField sid) fs requestStart")
    case (Inl e)
    then have bad: "\<not> request_shape fs" using snoc by simp
    have "\<not> request_shape (fs @ [f])"
    proof
      assume shape: "request_shape (fs @ [f])"
      show False
        using bad shape parts_snoc_pseudo [of fs f] parts_snoc_regular [of f fs]
        by (cases "is_pseudo (hf_name f) \<and> regular_part fs = []") (auto simp: request_shape_def)
    qed
    then show ?thesis using Inl by (simp add: res_fold_append)
  next
    case (Inr s)
    then have s: "request_shape fs" "rs_regular s \<longleftrightarrow> regular_part fs \<noteq> []"
      "request_view s = map_of (map field_pair (pseudo_part fs))" using snoc by simp_all
    have fold: "res_fold (requestField sid) (fs @ [f]) requestStart = requestField sid f s"
      using Inr by (cases "requestField sid f s") (simp_all add: res_fold_append)
    show ?thesis
    proof (cases "is_pseudo (hf_name f)")
      case False
      then show ?thesis
        using s parts_snoc_regular [of f fs]
        by (auto simp: fold requestField_regular streamProtocolError_def request_shape_def request_view_regular)
    next
      case True
      have none: "request_view s (hf_name f) = None \<longleftrightarrow> hf_name f \<notin> set (map hf_name (pseudo_part fs))"
        by (force simp: s(3) map_of_eq_None_iff field_pair_def image_iff)
      show ?thesis
      proof (cases "requestField sid f s")
        case (Inl e)
        then have "\<not> (field_valid (hf_name f) (hf_value f) \<and> \<not> rs_regular s \<and>
            hf_name f \<in> set PSEUDO_NAMES \<and> request_view s (hf_name f) = None)"
          using requestField_pseudo(1) [OF True, where sid = sid and s = s] by auto
        then have "\<not> request_shape (fs @ [f])"
          using none s(2) True parts_snoc_pseudo [of fs f] parts_snoc_regular [of f fs]
          by (cases "regular_part fs = []") (auto simp: request_shape_def)
        then show ?thesis by (simp add: fold Inl)
      next
        case (Inr s')
        have ok: "field_valid (hf_name f) (hf_value f)" "\<not> rs_regular s" "hf_name f \<in> set PSEUDO_NAMES"
          "request_view s (hf_name f) = None"
          using requestField_pseudo(1) [OF True, where sid = sid and s = s] Inr by auto
        have reg: "regular_part fs = []" using ok(2) s(2) by simp
        have s': "rs_regular s' = rs_regular s" "request_view s' = (request_view s)(hf_name f \<mapsto> hf_value f)"
          using requestField_pseudo(2) [OF True Inr] by simp_all
        have notin: "hf_name f \<notin> set (map hf_name (pseudo_part fs))" using ok(4) none by simp
        have "map_of (map field_pair (pseudo_part fs @ [f])) =
            (map_of (map field_pair (pseudo_part fs)))(hf_name f \<mapsto> hf_value f)"
          using ok(4) by (auto simp: s(3) fun_eq_iff map_add_def field_pair_def split: option.splits)
        then show ?thesis
          using s s' ok notin reg True parts_snoc_pseudo [OF reg True]
          by (simp add: fold Inr request_shape_def)
      qed
    qed
  qed
qed

section \<open>Properties\<close>

text \<open>
  A response header list is accepted exactly when it is one \<^verbatim>\<open>:status\<close> field followed by valid
  regular fields, the status is three digits from 100 to 599 other than 101, and the content
  lengths agree; the result has the status as a number and the regular fields in order.
\<close>

theorem http2_response_headers_iff:
  "parseHttp2ResponseHeaders fs sid = Inr r \<longleftrightarrow>
     (\<exists>f. fs = f # rh_headers r \<and> dh_name f = js_string '':status'' \<and> field_valid (dh_name f) (dh_value f) \<and>
        is_status_text (dh_value f) \<and> dh_value f \<noteq> js_string ''101'' \<and> rh_status r = digits_number (dh_value f) \<and>
        list_all (\<lambda>h. field_valid (dh_name h) (dh_value h) \<and> \<not> is_pseudo (dh_name h)) (rh_headers r) \<and>
        parseContentLength (map (\<lambda>h. (dh_name h, dh_value h)) (rh_headers r)) sid = Inr (rh_contentLength r))"
proof -
  have "parseHttp2ResponseHeaders fs sid = Inr r \<longleftrightarrow>
      (\<exists>s v. (res_fold (responseField sid) fs (response_start None) = Inr s \<and> ps_statusText s = Some v) \<and>
         is_status_text v \<and> v \<noteq> js_string ''101'' \<and>
         (\<exists>cl. parseContentLength (map (\<lambda>h. (dh_name h, dh_value h)) (ps_headers s)) sid = Inr cl \<and>
            r = \<lparr>rh_status = digits_number v, rh_headers = ps_headers s, rh_contentLength = cl\<rparr>))"
    unfolding parseHttp2ResponseHeaders_def response_start_def [symmetric]
    by (auto simp: res_bind_Inr_iff streamProtocolError_def split: option.splits if_splits)
  also have "\<dots> \<longleftrightarrow> (\<exists>f hs. fs = f # hs \<and> dh_name f = js_string '':status'' \<and> field_valid (dh_name f) (dh_value f) \<and>
        list_all (\<lambda>h. field_valid (dh_name h) (dh_value h) \<and> \<not> is_pseudo (dh_name h)) hs \<and>
        is_status_text (dh_value f) \<and> dh_value f \<noteq> js_string ''101'' \<and>
        (\<exists>cl. parseContentLength (map (\<lambda>h. (dh_name h, dh_value h)) hs) sid = Inr cl \<and>
            r = \<lparr>rh_status = digits_number (dh_value f), rh_headers = hs, rh_contentLength = cl\<rparr>))"
    unfolding responseFields_iff by auto
  also have "\<dots> \<longleftrightarrow> (\<exists>f. fs = f # rh_headers r \<and> dh_name f = js_string '':status'' \<and> field_valid (dh_name f) (dh_value f) \<and>
        is_status_text (dh_value f) \<and> dh_value f \<noteq> js_string ''101'' \<and> rh_status r = digits_number (dh_value f) \<and>
        list_all (\<lambda>h. field_valid (dh_name h) (dh_value h) \<and> \<not> is_pseudo (dh_name h)) (rh_headers r) \<and>
        parseContentLength (map (\<lambda>h. (dh_name h, dh_value h)) (rh_headers r)) sid = Inr (rh_contentLength r))"
    by (cases r) auto
  finally show ?thesis .
qed

text \<open>
  A request header list is accepted exactly when it has the shape of one (valid fields, known
  pseudo-headers first and none twice), its content lengths agree, and the pseudo-headers make up
  an ordinary request, a CONNECT, or an extended CONNECT that is enabled; the result is the
  content length.
\<close>

theorem http2_request_headers_iff:
  "validateHttp2RequestHeaders fs sid ext = Inr cl \<longleftrightarrow>
     request_shape fs \<and> parseContentLength (map field_pair fs) sid = Inr cl \<and>
     (let pseudo = (\<lambda>name. map_of (map field_pair (pseudo_part fs)) (js_string name));
          present = (\<lambda>name. pseudo name \<noteq> None \<and> pseudo name \<noteq> Some [])
      in present '':method'' \<and>
         (if pseudo '':protocol'' \<noteq> None
          then ext \<and> pseudo '':method'' = Some (js_string ''CONNECT'') \<and> present '':protocol'' \<and>
               pseudo '':scheme'' \<noteq> None \<and> pseudo '':authority'' \<noteq> None \<and> present '':path''
          else if pseudo '':method'' = Some (js_string ''CONNECT'')
          then present '':authority'' \<and> pseudo '':scheme'' = None \<and> pseudo '':path'' = None
          else present '':scheme'' \<and> present '':authority'' \<and> present '':path''))"
proof -
  have pairs: "(\<lambda>f. (hf_name f, hf_value f)) = field_pair" by (simp add: field_pair_def fun_eq_iff)
  show ?thesis
  proof (cases "res_fold (requestField sid) fs requestStart")
    case (Inl e)
    then show ?thesis
      using requestFields_ok [of fs sid] by (simp add: validateHttp2RequestHeaders_def)
  next
    case (Inr s)
    have s: "request_shape fs" and view: "request_view s = map_of (map field_pair (pseudo_part fs))"
      using requestFields_ok [of fs sid] Inr by simp_all
    have get: "map_of (map field_pair (pseudo_part fs)) (js_string '':method'') = rs_method s"
      "map_of (map field_pair (pseudo_part fs)) (js_string '':scheme'') = rs_scheme s"
      "map_of (map field_pair (pseudo_part fs)) (js_string '':authority'') = rs_authority s"
      "map_of (map field_pair (pseudo_part fs)) (js_string '':path'') = rs_path s"
      "map_of (map field_pair (pseudo_part fs)) (js_string '':protocol'') = rs_protocol s"
      unfolding view [symmetric] by (simp_all add: request_view_def)
    show ?thesis
      unfolding validateHttp2RequestHeaders_def Inr res_bind_simps pairs Let_def get
      using s by (auto simp: res_bind_Inr_iff requestFinish_def streamProtocolError_def)
  qed
qed

text \<open>
  C6: No accepted header list can smuggle a line break: in the requests, responses and trailers the
  validators accept, no field value contains CR, LF or NUL, no field name an upper-case letter, and
  no field is one of the connection-specific ones.
\<close>

definition injection_free :: "jsstring \<Rightarrow> jsstring \<Rightarrow> bool" where
  "injection_free name v \<longleftrightarrow> {0, 10, 13} \<inter> set v = {} \<and> (\<forall>u\<in>set name. uint u \<notin> {65..90}) \<and>
     name \<notin> set forbiddenConnectionFields"

theorem http2_headers_injection_free:
  "(is_ok (validateHttp2RequestHeaders fs sid ext) \<longrightarrow> (\<forall>f\<in>set fs. injection_free (hf_name f) (hf_value f))) \<and>
   (is_ok (parseHttp2ResponseHeaders hs sid) \<longrightarrow> (\<forall>h\<in>set hs. injection_free (dh_name h) (dh_value h))) \<and>
   (is_ok (parseHttp2Trailers ts sid) \<longrightarrow> (\<forall>h\<in>set ts. injection_free (dh_name h) (dh_value h)))"
proof (intro conjI impI)
  have safe: "injection_free name v" if "field_valid name v" for name v
    using field_valid_safe [OF that] by (auto simp: injection_free_def)
  assume "is_ok (validateHttp2RequestHeaders fs sid ext)"
  then have "request_shape fs"
    using requestFields_ok [of fs sid] by (auto simp: validateHttp2RequestHeaders_def res_bind_def split: sum.splits)
  then show "\<forall>f\<in>set fs. injection_free (hf_name f) (hf_value f)"
    using safe by (auto simp: request_shape_def list_all_iff)
next
  have safe: "injection_free name v" if "field_valid name v" for name v
    using field_valid_safe [OF that] by (auto simp: injection_free_def)
  assume "is_ok (parseHttp2ResponseHeaders hs sid)"
  then obtain s v where "res_fold (responseField sid) hs (response_start None) = Inr s \<and> ps_statusText s = Some v"
    unfolding parseHttp2ResponseHeaders_def response_start_def [symmetric]
    by (auto simp: res_bind_def streamProtocolError_def split: sum.splits option.splits)
  then show "\<forall>h\<in>set hs. injection_free (dh_name h) (dh_value h)"
    unfolding responseFields_iff using safe by (auto simp: list_all_iff)
next
  have safe: "injection_free name v" if "field_valid name v" for name v
    using field_valid_safe [OF that] by (auto simp: injection_free_def)
  assume "is_ok (parseHttp2Trailers ts sid)"
  then show "\<forall>h\<in>set ts. injection_free (dh_name h) (dh_value h)"
    unfolding parseHttp2Trailers_def
    by (induction ts) (auto simp: validateField_eq res_bind_def streamProtocolError_def split: if_splits sum.splits intro: safe)
qed

definition sample_request :: "hpack_field list" where
  "sample_request = map (\<lambda>(n, v). \<lparr>hf_name = js_string n, hf_value = js_string v, hf_indexing = None\<rparr>)
     [('':method'', ''GET''), ('':scheme'', ''https''), ('':authority'', ''a.b''), ('':path'', ''/''), (''accept'', ''*/*'')]"

lemma sample_request_ok: "validateHttp2RequestHeaders sample_request 1 False = Inr None"
  by code_simp

theorem http2_headers_injection_free_witness:
  "list_all (\<lambda>f. injection_free (hf_name f) (hf_value f)) sample_request"
  using http2_headers_injection_free [where fs = sample_request and sid = 1 and ext = False] sample_request_ok
  by (simp add: list_all_iff)

end
