(* ===== verification/Http2_Wire.thy ===== *)
theory Http2_Wire
  imports Hpack_Session Http2_Frame
begin

text \<open>
  Header lists on the wire: \<^verbatim>\<open>sendHeaderBlock\<close> and \<^verbatim>\<open>sendFrames\<close> of
  \<^verbatim>\<open>runtime/web-platform/src/http2/connection.ts\<close>, which split a compressed header block into a
  HEADERS frame and CONTINUATION frames and concatenate their encodings, and the receiving side
  composed of \<^verbatim>\<open>readHttp2Frame\<close>, the header block assembler and the HPACK decoder.
\<close>

section \<open>Definitions\<close>

definition blockFrame :: "int \<Rightarrow> bool \<Rightarrow> bool \<Rightarrow> bool \<Rightarrow> bytes \<Rightarrow> http2_frame" where
  "blockFrame sid endStream first final part =
     \<lparr>fr_type = (if first then FRAME_HEADERS else FRAME_CONTINUATION),
      fr_flags = js_or (if first \<and> endStream then FLAG_END_STREAM else 0) (if final then FLAG_END_HEADERS else 0),
      fr_streamId = sid, fr_payload = part\<rparr>"

text \<open>
  The loop of \<^verbatim>\<open>sendHeaderBlock\<close> with the peer's maximum frame size \<open>m\<close>. It would not end for
  \<open>m = 0\<close>, so its result is an option.
\<close>

partial_function (option) blockFramesLoop ::
    "nat \<Rightarrow> int \<Rightarrow> bytes \<Rightarrow> bool \<Rightarrow> nat \<Rightarrow> bool \<Rightarrow> http2_frame list \<Rightarrow> http2_frame list option" where
  "blockFramesLoop m sid block endStream offset first frames =
     (let end' = min (offset + m) (length block);
          frames' = frames @ [blockFrame sid endStream first (end' = length block) (js_slice block offset end')]
      in if end' < length block then blockFramesLoop m sid block endStream end' False frames'
         else Some frames')"

definition headerBlockFrames :: "nat \<Rightarrow> int \<Rightarrow> bytes \<Rightarrow> bool \<Rightarrow> http2_frame list option" where
  "headerBlockFrames m sid block endStream = blockFramesLoop m sid block endStream 0 True []"

definition framesBytes :: "http2_frame list \<Rightarrow> int \<Rightarrow> bytes result" where
  "framesBytes frames m =
     res_bind (res_fold (\<lambda>f (encoded, len).
         res_bind (encodeHttp2Frame f m) (\<lambda>bs. Inr (encoded @ [bs], len + length bs))) frames ([], 0))
       (\<lambda>(encoded, len). concatBytes encoded (Some len))"

text \<open>The header blocks the assembler completes from a sequence of frames.\<close>

fun assemble :: "http2_frame list \<Rightarrow> block_assembler \<Rightarrow> http2_header_block list result \<times> block_assembler" where
  "assemble [] a = (Inr [], a)"
| "assemble (f # fs) a =
     (case assembler_accept f a of
        (Inl e, a') \<Rightarrow> (Inl e, a')
      | (Inr b, a') \<Rightarrow>
          (let (r, a'') = assemble fs a'
           in (res_bind r (\<lambda>bs. Inr ((case b of None \<Rightarrow> bs | Some x \<Rightarrow> x # bs))), a'')))"

section \<open>Lemmas: splitting\<close>

text \<open>The pieces of a block, and the frames that carry them.\<close>

function chunks :: "nat \<Rightarrow> bytes \<Rightarrow> bytes list" where
  "chunks m xs = (if m = 0 \<or> length xs \<le> m then [xs] else take m xs # chunks m (drop m xs))"
  by pat_completeness auto
termination
  by (relation "measure (\<lambda>(m, xs). length xs)") auto

declare chunks.simps [simp del]

fun chunk_frames :: "int \<Rightarrow> bool \<Rightarrow> bool \<Rightarrow> bytes list \<Rightarrow> http2_frame list" where
  "chunk_frames sid es first [] = []"
| "chunk_frames sid es first (c # cs) = blockFrame sid es first (cs = []) c # chunk_frames sid es False cs"

lemma chunks_props:
  "concat (chunks m xs) = xs" "0 < m \<Longrightarrow> \<forall>c\<in>set (chunks m xs). length c \<le> m" "chunks m xs \<noteq> []"
proof -
  show "concat (chunks m xs) = xs"
  proof (induction m xs rule: chunks.induct)
    case (1 m xs)
    then show ?case by (cases "m = 0 \<or> length xs \<le> m") (auto simp: chunks.simps [of m xs])
  qed
  show "0 < m \<Longrightarrow> \<forall>c\<in>set (chunks m xs). length c \<le> m"
  proof (induction m xs rule: chunks.induct)
    case (1 m xs)
    then show ?case by (cases "length xs \<le> m") (auto simp: chunks.simps [of m xs])
  qed
  show "chunks m xs \<noteq> []" by (subst chunks.simps) simp
qed

lemma blockFramesLoop_chunks:
  assumes "0 < m" and "offset \<le> length block"
  shows "blockFramesLoop m sid block es offset first frames =
    Some (frames @ chunk_frames sid es first (chunks m (drop offset block)))"
  using assms(2)
proof (induction "length block - offset" arbitrary: offset first frames rule: less_induct)
  case less
  show ?case
  proof (cases "offset + m < length block")
    case True
    let ?f = "blockFrame sid es first False (js_slice block offset (offset + m))"
    have "blockFramesLoop m sid block es offset first frames =
        blockFramesLoop m sid block es (offset + m) False (frames @ [?f])"
      using True by (subst blockFramesLoop.simps) (simp add: Let_def)
    also have "\<dots> = Some ((frames @ [?f]) @ chunk_frames sid es False (chunks m (drop (offset + m) block)))"
      using less.hyps [of "offset + m"] True assms(1) by simp
    finally show ?thesis
      using True assms(1) chunks_props(3) [of m "drop (offset + m) block"] chunks.simps [of m "drop offset block"]
      by (simp add: js_slice_def add.commute)
  next
    case False
    then have "chunks m (drop offset block) = [drop offset block]" by (subst chunks.simps) auto
    moreover have "min (offset + m) (length block) = length block" using False by simp
    ultimately show ?thesis by (subst blockFramesLoop.simps) (simp add: js_slice_from)
  qed
qed

lemma headerBlockFrames_chunks:
  "0 < m \<Longrightarrow> headerBlockFrames m sid block es = Some (chunk_frames sid es True (chunks m block))"
  by (simp add: headerBlockFrames_def blockFramesLoop_chunks)

text \<open>The flags of a frame of a block: neither padded nor with priority fields.\<close>

lemma blockFrame_flags:
  "js_and (fr_flags (blockFrame sid es first fin part)) FLAG_PADDED = 0"
  "js_and (fr_flags (blockFrame sid es first fin part)) FLAG_PRIORITY = 0"
  "js_and (fr_flags (blockFrame sid es first fin part)) FLAG_END_HEADERS \<noteq> 0 \<longleftrightarrow> fin"
  "js_and (fr_flags (blockFrame sid es first fin part)) FLAG_END_STREAM \<noteq> 0 \<longleftrightarrow> first \<and> es"
  "0 \<le> fr_flags (blockFrame sid es first fin part)" "fr_flags (blockFrame sid es first fin part) < 256"
  by (simp_all add: blockFrame_def http2_flags js_or_def js_and_def)

lemma blockFrame_headers:
  assumes "0 < sid"
  shows "parseHttp2Headers (blockFrame sid es True fin part) =
    Inr \<lparr>hp_fragment = part, hp_paddingBytes = 0, hp_priority = None\<rparr>"
  using assms blockFrame_flags(1,2) [of sid es True fin part]
  by (simp add: parseHttp2Headers_def requireStreamFrame_def paddedRange_def Let_def) (simp add: blockFrame_def)

lemma blockFrame_validate:
  assumes "0 < sid" "sid < 2147483648" "int (length part) \<le> m" "DEFAULT_FRAME_SIZE \<le> m" "m \<le> MAX_FRAME_SIZE"
  shows "validateHttp2Frame (blockFrame sid es first fin part) m = Inr ()"
proof -
  let ?f = "blockFrame sid es first fin part"
  have base: "requireByte (fr_type ?f) = Inr ()" "requireByte (fr_flags ?f) = Inr ()"
    "requireStreamId (fr_streamId ?f) = Inr ()" "requireFrameLimit m = Inr ()" "\<not> int (length (fr_payload ?f)) > m"
    using assms blockFrame_flags(5,6) [of sid es first fin part]
    by (simp_all add: requireByte_def requireStreamId_def requireFrameLimit_def MAX_WINDOW_SIZE_def)
      (simp_all add: blockFrame_def http2_frame_types)
  show ?thesis
  proof (cases first)
    case True
    then have "fr_type ?f = FRAME_HEADERS" by (simp add: blockFrame_def)
    then show ?thesis
      using base blockFrame_headers [OF assms(1), of es fin part] True
      by (simp add: validateHttp2Frame_def http2_frame_types)
  next
    case False
    then have "fr_type ?f = FRAME_CONTINUATION" "fr_streamId ?f = sid" by (simp_all add: blockFrame_def)
    then show ?thesis
      using base assms(1) by (simp add: validateHttp2Frame_def http2_frame_types requireStreamFrame_def)
  qed
qed

lemma blockFrame_accept:
  assumes "0 < sid" "sid < 2147483648" "int (length part) \<le> MAX_FRAME_SIZE"
  shows "acceptValidation (blockFrame sid es first fin part) = Inr ()"
  using blockFrame_validate [OF assms(1-3), of es first fin] by (simp add: acceptValidation_def http2_limits)

section \<open>Lemmas: assembling\<close>

definition with_fragments :: "int \<Rightarrow> bool \<Rightarrow> bytes list \<Rightarrow> pending_block" where
  "with_fragments sid es cs = \<lparr>pb_kind = HeadersKind, pb_streamId = sid, pb_endStream = es,
     pb_promisedStreamId = None, pb_priority = None, pb_fragments = cs, pb_bytes = int (length (concat cs))\<rparr>"

definition finished_block :: "int \<Rightarrow> bool \<Rightarrow> bytes \<Rightarrow> http2_header_block" where
  "finished_block sid es block = \<lparr>hb_kind = HeadersKind, hb_streamId = sid, hb_endStream = es,
     hb_promisedStreamId = None, hb_priority = None, hb_block = block\<rparr>"

lemma assembler_append_fits:
  "int (length cs) < ba_maximumFragments a \<Longrightarrow> int (length (concat cs @ c)) \<le> ba_maximumBytes a \<Longrightarrow>
   assembler_append a (with_fragments sid es cs) c = Inr (with_fragments sid es (cs @ [c]))"
  by (simp add: assembler_append_def with_fragments_def)

lemma assembler_finish_with: "assembler_finish (with_fragments sid es cs) = Inr (finished_block sid es (concat cs))"
  by (simp add: assembler_finish_def with_fragments_def finished_block_def concatBytes_exact)

lemma accept_first:
  assumes "0 < sid" "sid < 2147483648" "int (length c) \<le> MAX_FRAME_SIZE" "ba_pending a = None"
    and "1 \<le> ba_maximumFragments a" "int (length c) \<le> ba_maximumBytes a"
  shows "assembler_accept (blockFrame sid es True fin c) a =
    (if fin then (Inr (Some (finished_block sid es c)), a)
     else (Inr None, a\<lparr>ba_pending := Some (with_fragments sid es [c])\<rparr>))"
proof -
  let ?f = "blockFrame sid es True fin c"
  have "openBlock ?f = Inr (with_fragments sid es [], c)"
    using blockFrame_headers [OF assms(1), of es fin c] blockFrame_flags(4) [of sid es True fin c]
    by (simp add: openBlock_def with_fragments_def) (simp add: blockFrame_def)
  moreover have "fr_type ?f = FRAME_HEADERS" by (simp add: blockFrame_def)
  moreover have "assembler_append a (with_fragments sid es []) c = Inr (with_fragments sid es [c])"
    using assembler_append_fits [of "[]" a c] assms(5,6) by simp
  ultimately show ?thesis
    using blockFrame_accept [OF assms(1-3), of es True fin] assms(4) blockFrame_flags(3) [of sid es True fin c]
      assembler_finish_with [of sid es "[c]"]
    by (auto simp: assembler_accept_def http2_frame_types)
qed

lemma accept_next:
  assumes "0 < sid" "sid < 2147483648" "int (length c) \<le> MAX_FRAME_SIZE"
    and "ba_pending a = Some (with_fragments sid es cs)"
    and "int (length cs) < ba_maximumFragments a" "int (length (concat cs @ c)) \<le> ba_maximumBytes a"
  shows "assembler_accept (blockFrame sid es False fin c) a =
    (if fin then (Inr (Some (finished_block sid es (concat cs @ c))), a\<lparr>ba_pending := None\<rparr>)
     else (Inr None, a\<lparr>ba_pending := Some (with_fragments sid es (cs @ [c]))\<rparr>))"
proof -
  let ?f = "blockFrame sid es False fin c"
  have f: "fr_type ?f = FRAME_CONTINUATION" "fr_streamId ?f = sid" "fr_payload ?f = c"
    by (simp_all add: blockFrame_def)
  have "pb_streamId (with_fragments sid es cs) = sid" by (simp add: with_fragments_def)
  then show ?thesis
    using f blockFrame_accept [OF assms(1-3), of es False fin] assms(4) blockFrame_flags(3) [of sid es False fin c]
      assembler_append_fits [OF assms(5,6), of sid es] assembler_finish_with [of sid es "cs @ [c]"]
    by (cases fin) (simp_all add: assembler_accept_def)
qed

lemma assemble_next:
  assumes "0 < sid" "sid < 2147483648" "\<forall>c\<in>set ds. int (length c) \<le> MAX_FRAME_SIZE" "ds \<noteq> []"
    and "ba_pending a = Some (with_fragments sid es cs)"
    and "int (length cs + length ds) \<le> ba_maximumFragments a" "int (length (concat (cs @ ds))) \<le> ba_maximumBytes a"
  shows "assemble (chunk_frames sid es False ds) a =
    (Inr [finished_block sid es (concat (cs @ ds))], a\<lparr>ba_pending := None\<rparr>)"
  using assms(3-)
proof (induction ds arbitrary: a cs)
  case (Cons d ds)
  have step: "assembler_accept (blockFrame sid es False (ds = []) d) a =
    (if ds = [] then (Inr (Some (finished_block sid es (concat cs @ d))), a\<lparr>ba_pending := None\<rparr>)
     else (Inr None, a\<lparr>ba_pending := Some (with_fragments sid es (cs @ [d]))\<rparr>))"
    using Cons.prems by (intro accept_next [OF assms(1,2)]) auto
  show ?case
  proof (cases "ds = []")
    case True
    then show ?thesis using step by simp
  next
    case False
    let ?a = "a\<lparr>ba_pending := Some (with_fragments sid es (cs @ [d]))\<rparr>"
    have "assemble (chunk_frames sid es False ds) ?a =
        (Inr [finished_block sid es (concat ((cs @ [d]) @ ds))], ?a\<lparr>ba_pending := None\<rparr>)"
      using Cons.prems False by (intro Cons.IH) auto
    then show ?thesis using step False by simp
  qed
qed simp

lemma assemble_chunks:
  assumes "0 < sid" "sid < 2147483648" "\<forall>c\<in>set cs. int (length c) \<le> MAX_FRAME_SIZE" "cs \<noteq> []"
    and "ba_pending a = None" "int (length cs) \<le> ba_maximumFragments a" "int (length (concat cs)) \<le> ba_maximumBytes a"
  shows "assemble (chunk_frames sid es True cs) a = (Inr [finished_block sid es (concat cs)], a)"
proof -
  obtain c ds where cs: "cs = c # ds" using assms(4) by (cases cs) auto
  have step: "assembler_accept (blockFrame sid es True (ds = []) c) a =
    (if ds = [] then (Inr (Some (finished_block sid es c)), a)
     else (Inr None, a\<lparr>ba_pending := Some (with_fragments sid es [c])\<rparr>))"
    using assms(3,6,7) cs by (intro accept_first [OF assms(1,2) _ assms(5)]) auto
  show ?thesis
  proof (cases "ds = []")
    case True
    then show ?thesis using step cs by simp
  next
    case False
    let ?a = "a\<lparr>ba_pending := Some (with_fragments sid es [c])\<rparr>"
    have "assemble (chunk_frames sid es False ds) ?a =
        (Inr [finished_block sid es (concat ([c] @ ds))], ?a\<lparr>ba_pending := None\<rparr>)"
      using assms(3,6,7) cs False by (intro assemble_next [OF assms(1,2)]) auto
    moreover have "?a\<lparr>ba_pending := None\<rparr> = a" using assms(5) by simp
    ultimately show ?thesis using step False cs by simp
  qed
qed

section \<open>Lemmas: bytes\<close>

lemma framesBytes_ok:
  assumes "\<forall>f\<in>set fs. validateHttp2Frame f m = Inr ()"
  shows "framesBytes fs m = Inr (concat (map frame_bytes fs))"
proof -
  have enc: "encodeHttp2Frame f m = Inr (frame_bytes f)" if "f \<in> set fs" for f
    using assms that by (simp add: encodeHttp2Frame_iff)
  have "res_fold (\<lambda>f (encoded, len). res_bind (encodeHttp2Frame f m) (\<lambda>bs. Inr (encoded @ [bs], len + length bs)))
      gs (es, n) = Inr (es @ map frame_bytes gs, n + length (concat (map frame_bytes gs)))"
    if "set gs \<subseteq> set fs" for gs es n
    using that by (induction gs arbitrary: es n) (auto simp: enc)
  from this [of fs "[]" 0] show ?thesis by (simp add: framesBytes_def concatBytes_exact)
qed

lemma chunk_frames_valid:
  assumes "0 < sid" "sid < 2147483648" "DEFAULT_FRAME_SIZE \<le> m" "m \<le> MAX_FRAME_SIZE"
    and "\<forall>c\<in>set cs. int (length c) \<le> m"
  shows "\<forall>f\<in>set (chunk_frames sid es first cs). validateHttp2Frame f m = Inr ()"
  using assms(5)
  by (induction cs arbitrary: first) (auto intro!: blockFrame_validate assms(1-4))

lemma length_chunk_frames [simp]: "length (chunk_frames sid es first cs) = length cs"
  by (induction cs arbitrary: first) auto

section \<open>Properties\<close>

text \<open>
  Splitting a header block and assembling it again gives the block: under every legal frame
  size the loop of \<^verbatim>\<open>sendHeaderBlock\<close> ends, its frames are all valid, and an idle assembler whose
  limits admit the block completes exactly one header block from them, with the stream, the
  end-of-stream mark and the bytes that were sent, and is idle again.
\<close>

theorem http2_header_block_split:
  assumes "0 < sid" "sid < 2147483648" "DEFAULT_FRAME_SIZE \<le> int m" "int m \<le> MAX_FRAME_SIZE"
  shows "\<exists>frames. headerBlockFrames m sid block es = Some frames \<and>
    (\<forall>f\<in>set frames. validateHttp2Frame f (int m) = Inr ()) \<and>
    (\<forall>a. ba_pending a = None \<and> int (length frames) \<le> ba_maximumFragments a \<and>
         int (length block) \<le> ba_maximumBytes a \<longrightarrow>
       assemble frames a = (Inr [finished_block sid es block], a))"
proof -
  have m: "0 < m" using assms(3) by (cases m) (auto simp: http2_limits)
  have len: "\<forall>c\<in>set (chunks m block). int (length c) \<le> int m"
    using chunks_props(2) [OF m, of block] by simp
  then have "\<forall>c\<in>set (chunks m block). int (length c) \<le> MAX_FRAME_SIZE" using assms(4) by auto
  then have "assemble (chunk_frames sid es True (chunks m block)) a = (Inr [finished_block sid es block], a)"
    if "ba_pending a = None" "int (length (chunk_frames sid es True (chunks m block))) \<le> ba_maximumFragments a"
      "int (length block) \<le> ba_maximumBytes a" for a
    using assemble_chunks [OF assms(1,2), of "chunks m block" a es] that chunks_props(1,3) [of m block] by simp
  then show ?thesis
    using headerBlockFrames_chunks [OF m] chunk_frames_valid [OF assms(1-4) len] by auto
qed

theorem http2_header_block_split_witness:
  "\<exists>frames. headerBlockFrames 16384 5 [0x82, 0x86] True = Some frames \<and>
     list_all (\<lambda>f. validateHttp2Frame f 16384 = Inr ()) frames"
  using http2_header_block_split [of 5 16384 "[0x82, 0x86]" True] by (auto simp: http2_limits list_all_iff)

text \<open>
  C1: End to end: in any HPACK session, a header list within the limits can be sent, and a receiver
  that reads the frames from its transport, assembles them and decompresses the block obtains the
  header list that was sent, leaves the rest of the stream unread, and stays in step with the sender.
\<close>

theorem http2_header_list_end_to_end:
  assumes "hpack_session limits e d" and "list_all (field_ok limits) fs" and "list_size fs \<le> maxHeaderListBytes limits"
    and "0 < sid" "sid < 2147483648" "DEFAULT_FRAME_SIZE \<le> int m" "int m \<le> MAX_FRAME_SIZE"
  shows "\<exists>block e' frames bs. encode fs e = (Inr block, e') \<and> headerBlockFrames m sid block es = Some frames \<and>
    framesBytes frames (int m) = Inr bs \<and>
    (\<forall>rd content r rest a. transport_reads rd content \<and> reader_ok r \<and> unread content r = bs @ rest \<and>
       ba_pending a = None \<and> int (length frames) \<le> ba_maximumFragments a \<and> int (length block) \<le> ba_maximumBytes a \<longrightarrow>
       (\<exists>r' d'. read_frames rd (length frames) (int m) r = (Inr frames, r') \<and> unread content r' = rest \<and>
          assemble frames a = (Inr [finished_block sid es block], a) \<and>
          decode block d = (Inr (map field_header fs), d') \<and> hpack_synced e' d'))"
proof -
  have sync: "hpack_synced e d" "dec_limits d = limits" using hpack_session_synced [OF assms(1)] by auto
  obtain block e' d' where blk: "encode fs e = (Inr block, e')" "decode block d = (Inr (map field_header fs), d')"
    "hpack_synced e' d'"
    using hpack_block [OF sync(1), of fs] assms(2,3) sync(2) by auto
  have m: "0 < m" using assms(6) by (cases m) (auto simp: http2_limits)
  let ?frames = "chunk_frames sid es True (chunks m block)"
  have len: "\<forall>c\<in>set (chunks m block). int (length c) \<le> int m" using chunks_props(2) [OF m, of block] by simp
  have len': "\<forall>c\<in>set (chunks m block). int (length c) \<le> MAX_FRAME_SIZE" using len assms(7) by auto
  note valid = chunk_frames_valid [OF assms(4-7) len, of es True]
  have asm: "assemble ?frames a = (Inr [finished_block sid es block], a)"
    if "ba_pending a = None" "int (length ?frames) \<le> ba_maximumFragments a" "int (length block) \<le> ba_maximumBytes a" for a
    using assemble_chunks [OF assms(4,5) len', of a es] that chunks_props(1,3) [of m block] by simp
  have "\<exists>r'. read_frames rd (length ?frames) (int m) r = (Inr ?frames, r') \<and> unread content r' = rest"
    if "transport_reads rd content" "reader_ok r" "unread content r = concat (map frame_bytes ?frames) @ rest"
    for rd and content :: "'g \<Rightarrow> bytes" and r rest
    using read_frames_bytes [OF that valid] .
  then show ?thesis
    using blk headerBlockFrames_chunks [OF m, of sid block es] framesBytes_ok [OF valid] asm by fastforce
qed

theorem http2_header_list_end_to_end_witness:
  "\<exists>block e' frames bs. encode [sample_field] \<lparr>enc_table = newDynamicTable 4096, pendingMinimumSize = None,
       pendingFinalSize = None, useHuffman = True\<rparr> = (Inr block, e') \<and>
     headerBlockFrames 16384 1 block False = Some frames \<and> framesBytes frames 16384 = Inr bs"
proof -
  have "list_all (field_ok defaultHpackLimits) [sample_field]"
    "list_size [sample_field] \<le> maxHeaderListBytes defaultHpackLimits"
    using sample_field_ok by (simp_all add: defaultHpackLimits_def)
  from http2_header_list_end_to_end [OF hpack_session.start [OF sample_encoder sample_decoder] this,
      of 1 16384 False]
  show ?thesis by (simp add: http2_limits) blast
qed

end
