(* ===== verification/Stream_Queues.thy ===== *)
theory Stream_Queues
  imports Nts_Prelude
begin

text \<open>
  The queues under the stream implementation: \<^verbatim>\<open>Fifo\<close> of
  \<^verbatim>\<open>runtime/web-platform/src/streams/fifo.ts\<close> and \<^verbatim>\<open>QueueWithSizes\<close> of \<^verbatim>\<open>queue-with-sizes.ts\<close>.
  \<^verbatim>\<open>QueueWithSizes\<close> is a client of the queue interface, which \<^verbatim>\<open>Fifo\<close> provides. Chunk sizes are
  integers (byte lengths and counts), for which the running total is exact; fractional sizes,
  whose total depends on the rounding history, are outside the model.
\<close>

section \<open>Definitions: Fifo\<close>

record 'a fifo =
  fifo_values :: "'a option list"
  fifo_head :: nat

definition newFifo :: "'a fifo" where
  "newFifo = \<lparr>fifo_values = [], fifo_head = 0\<rparr>"

definition fifo_empty :: "'a fifo \<Rightarrow> bool" where
  "fifo_empty q \<longleftrightarrow> fifo_head q = length (fifo_values q)"

definition fifo_length :: "'a fifo \<Rightarrow> int" where
  "fifo_length q = int (length (fifo_values q)) - int (fifo_head q)"

definition fifo_enqueue :: "'a \<Rightarrow> 'a fifo \<Rightarrow> 'a fifo" where
  "fifo_enqueue v q = q\<lparr>fifo_values := fifo_values q @ [Some v]\<rparr>"

text \<open>A slot beyond the end and a cleared slot both read as \<^verbatim>\<open>undefined\<close>.\<close>

definition fifo_peek :: "'a fifo \<Rightarrow> 'a option" where
  "fifo_peek q = js_or_else (js_at (fifo_values q) (int (fifo_head q))) None"

definition compactIfNeeded :: "'a fifo \<Rightarrow> 'a fifo" where
  "compactIfNeeded q =
     (let values = fifo_values q; head = fifo_head q
      in if head = length values then q\<lparr>fifo_values := [], fifo_head := 0\<rparr>
         else if head \<le> 1024 \<or> head * 2 \<le> length values then q
         else let remaining = length values - head;
                  moved = fold (\<lambda>index vs.
                    case js_or_else (js_at vs (int (head + index))) None of
                      None \<Rightarrow> vs
                    | Some v \<Rightarrow> vs[index := Some v]) [0..<remaining] values
              in q\<lparr>fifo_values := take remaining moved, fifo_head := 0\<rparr>)"

definition fifo_dequeue :: "'a fifo \<Rightarrow> 'a option \<times> 'a fifo" where
  "fifo_dequeue q =
     (case fifo_peek q of
        None \<Rightarrow> (None, q)
      | Some v \<Rightarrow>
          (Some v, compactIfNeeded (q\<lparr>fifo_values := (fifo_values q)[fifo_head q := None],
                                      fifo_head := fifo_head q + 1\<rparr>)))"

definition fifo_reset :: "'a fifo \<Rightarrow> 'a fifo" where
  "fifo_reset q = q\<lparr>fifo_values := [], fifo_head := 0\<rparr>"

section \<open>Definitions: QueueWithSizes\<close>

text \<open>The number passed as a size: an integer, or one that is not finite.\<close>

datatype js_size = Size int | NotFinite

record 'a value_with_size =
  vs_value :: 'a
  vs_size :: int

record 'a sized_queue =
  sq_entries :: "'a value_with_size fifo"
  sq_totalSize :: int

definition newSizedQueue :: "'a sized_queue" where
  "newSizedQueue = \<lparr>sq_entries = newFifo, sq_totalSize = 0\<rparr>"

definition sized_empty :: "'a sized_queue \<Rightarrow> bool" where
  "sized_empty q = fifo_empty (sq_entries q)"

definition sized_enqueue :: "'a \<Rightarrow> js_size \<Rightarrow> 'a sized_queue \<Rightarrow> 'a sized_queue result" where
  "sized_enqueue v sz q =
     (case sz of
        NotFinite \<Rightarrow> Inl RangeError
      | Size n \<Rightarrow>
          (if n < 0 then Inl RangeError
           else Inr (q\<lparr>sq_entries := fifo_enqueue \<lparr>vs_value = v, vs_size = n\<rparr> (sq_entries q),
                       sq_totalSize := sq_totalSize q + n\<rparr>)))"

definition sized_peek :: "'a sized_queue \<Rightarrow> 'a value_with_size option" where
  "sized_peek q = fifo_peek (sq_entries q)"

definition sized_dequeue :: "'a sized_queue \<Rightarrow> 'a value_with_size option \<times> 'a sized_queue" where
  "sized_dequeue q =
     (case fifo_dequeue (sq_entries q) of
        (None, es) \<Rightarrow> (None, q\<lparr>sq_entries := es\<rparr>)
      | (Some e, es) \<Rightarrow>
          (let remaining = sq_totalSize q - vs_size e
           in (Some e, q\<lparr>sq_entries := es, sq_totalSize := (if remaining < 0 then 0 else remaining)\<rparr>)))"

definition sized_reset :: "'a sized_queue \<Rightarrow> 'a sized_queue" where
  "sized_reset q = q\<lparr>sq_entries := fifo_reset (sq_entries q), sq_totalSize := 0\<rparr>"

section \<open>The queue interface\<close>

locale queue_impl =
  fixes empty :: 'q and enq :: "'a \<Rightarrow> 'q \<Rightarrow> 'q" and deq :: "'q \<Rightarrow> 'a option \<times> 'q" and contents :: "'q \<Rightarrow> 'a list"
    and invar :: "'q \<Rightarrow> bool"
  assumes empty_law: "invar empty" "contents empty = []"
    and enq_law: "invar q \<Longrightarrow> invar (enq x q) \<and> contents (enq x q) = contents q @ [x]"
    and deq_law: "invar q \<Longrightarrow> (case contents q of
        [] \<Rightarrow> fst (deq q) = None \<and> invar (snd (deq q)) \<and> contents (snd (deq q)) = []
      | x # xs \<Rightarrow> fst (deq q) = Some x \<and> invar (snd (deq q)) \<and> contents (snd (deq q)) = xs)"

datatype 'a queue_op = Enq 'a | Deq

text \<open>What a sequence of operations returns, on an implementation and on a list.\<close>

fun run_queue :: "('a \<Rightarrow> 'q \<Rightarrow> 'q) \<Rightarrow> ('q \<Rightarrow> 'a option \<times> 'q) \<Rightarrow> 'a queue_op list \<Rightarrow> 'q \<Rightarrow> 'a option list" where
  "run_queue en de [] q = []"
| "run_queue en de (Enq x # ops) q = run_queue en de ops (en x q)"
| "run_queue en de (Deq # ops) q = fst (de q) # run_queue en de ops (snd (de q))"

definition list_enq :: "'a \<Rightarrow> 'a list \<Rightarrow> 'a list" where
  "list_enq x xs = xs @ [x]"

definition list_deq :: "'a list \<Rightarrow> 'a option \<times> 'a list" where
  "list_deq xs = (case xs of [] \<Rightarrow> (None, []) | x # xs \<Rightarrow> (Some x, xs))"

context queue_impl
begin

lemma deq_cases:
  assumes "invar q"
  obtains (none) "contents q = []" "fst (deq q) = None" "invar (snd (deq q))" "contents (snd (deq q)) = []"
  | (some) x xs where "contents q = x # xs" "fst (deq q) = Some x" "invar (snd (deq q))" "contents (snd (deq q)) = xs"
  using deq_law [OF assms] by (cases "contents q") auto

lemma run_refines: "invar q \<Longrightarrow> run_queue enq deq ops q = run_queue list_enq list_deq ops (contents q)"
proof (induction ops arbitrary: q)
  case (Cons op ops)
  show ?case
  proof (cases op)
    case (Enq x)
    then show ?thesis using Cons enq_law by (simp add: list_enq_def)
  next
    case Deq
    from Cons.prems show ?thesis
      by (cases rule: deq_cases) (use Deq Cons.IH [of "snd (deq q)"] in \<open>simp_all add: list_deq_def\<close>)
  qed
qed simp

end

section \<open>Lemmas: Fifo\<close>

definition fifo_list :: "'a fifo \<Rightarrow> 'a list" where
  "fifo_list q = map the (drop (fifo_head q) (fifo_values q))"

text \<open>
  The invariant: live slots are set, consumed ones are cleared, and a large consumed prefix is at
  most half of the array.
\<close>

definition fifo_inv :: "'a fifo \<Rightarrow> bool" where
  "fifo_inv q \<longleftrightarrow> fifo_head q \<le> length (fifo_values q) \<and>
     fifo_values q = replicate (fifo_head q) None @ map Some (fifo_list q) \<and>
     (fifo_head q \<le> 1024 \<or> fifo_head q * 2 \<le> length (fifo_values q))"

lemma fifo_shape:
  "fifo_values q = replicate (fifo_head q) None @ map Some xs \<Longrightarrow>
     fifo_list q = xs \<and> fifo_head q \<le> length (fifo_values q)"
  by (simp add: fifo_list_def comp_def)

lemma fifo_invI:
  "fifo_values q = replicate (fifo_head q) None @ map Some xs \<Longrightarrow>
     fifo_head q \<le> 1024 \<or> fifo_head q \<le> length xs \<Longrightarrow> fifo_inv q \<and> fifo_list q = xs"
  using fifo_shape [of q xs] by (auto simp: fifo_inv_def)

lemma fifo_peek_eq:
  assumes "fifo_values q = replicate (fifo_head q) None @ map Some xs"
  shows "fifo_peek q = (case xs of [] \<Rightarrow> None | x # _ \<Rightarrow> Some x)"
  using assms by (cases xs) (simp_all add: fifo_peek_def nth_append)

text \<open>The compaction loop moves the live slots to the front.\<close>

lemma compact_loop:
  assumes "k \<le> length xs" and "length xs \<le> h"
  shows "fold (\<lambda>index vs. case js_or_else (js_at vs (int (h + index))) None of
              None \<Rightarrow> vs | Some v \<Rightarrow> vs[index := Some v]) [0..<k] (replicate h None @ map Some xs) =
         map Some (take k xs) @ replicate (h - k) None @ map Some xs"
  using assms(1)
proof (induction k)
  case (Suc k)
  let ?vs = "map Some (take k xs) @ replicate (h - k) None @ map Some xs"
  have "?vs ! (h + k) = Some (xs ! k)" and "h + k < length ?vs"
    using Suc.prems assms(2) by (auto simp: nth_append)
  then have "js_at ?vs (int h + int k) = Some (Some (xs ! k))"
    using js_at_nat [of ?vs "h + k"] by (simp only: of_nat_add if_True)
  moreover have "?vs[k := Some (xs ! k)] = map Some (take (Suc k) xs) @ replicate (h - Suc k) None @ map Some xs"
  proof -
    have "replicate (h - k) None = None # replicate (h - Suc k) (None :: 'a option)"
      using Suc.prems assms(2) by (metis Suc_diff_Suc Suc_le_lessD le_trans replicate_Suc)
    then show ?thesis using Suc.prems by (simp add: list_update_append take_Suc_conv_app_nth)
  qed
  ultimately show ?case using Suc by simp
qed simp

lemma compactIfNeeded_ok:
  assumes "fifo_values q = replicate (fifo_head q) None @ map Some xs"
  shows "fifo_inv (compactIfNeeded q) \<and> fifo_list (compactIfNeeded q) = xs"
proof (cases "xs = []")
  case True
  then show ?thesis using assms by (simp add: compactIfNeeded_def fifo_inv_def fifo_list_def)
next
  case False
  show ?thesis
  proof (cases "fifo_head q \<le> 1024 \<or> fifo_head q * 2 \<le> length (fifo_values q)")
    case True
    then have "compactIfNeeded q = q" using False assms by (simp add: compactIfNeeded_def)
    then show ?thesis using fifo_invI [OF assms] True assms by auto
  next
    case big: False
    then have "length xs \<le> fifo_head q" using assms by simp
    then have "compactIfNeeded q = q\<lparr>fifo_values := map Some xs, fifo_head := 0\<rparr>"
      using False big assms compact_loop [of "length xs" xs "fifo_head q"]
      by (simp add: compactIfNeeded_def)
    then show ?thesis by (simp add: fifo_inv_def fifo_list_def comp_def)
  qed
qed

lemma fifo_dequeue_ok:
  assumes "fifo_inv q"
  shows "case fifo_list q of
      [] \<Rightarrow> fst (fifo_dequeue q) = None \<and> fifo_inv (snd (fifo_dequeue q)) \<and> fifo_list (snd (fifo_dequeue q)) = []
    | x # xs \<Rightarrow> fst (fifo_dequeue q) = Some x \<and> fifo_inv (snd (fifo_dequeue q)) \<and> fifo_list (snd (fifo_dequeue q)) = xs"
proof -
  have vals: "fifo_values q = replicate (fifo_head q) None @ map Some (fifo_list q)" using assms by (simp add: fifo_inv_def)
  show ?thesis
  proof (cases "fifo_list q")
    case Nil
    then show ?thesis using assms fifo_peek_eq [OF vals] by (simp add: fifo_dequeue_def)
  next
    case (Cons x xs)
    let ?q = "q\<lparr>fifo_values := (fifo_values q)[fifo_head q := None], fifo_head := fifo_head q + 1\<rparr>"
    have "(fifo_values q)[fifo_head q := None] = replicate (fifo_head q) None @ (None # map Some xs)"
      using vals Cons by (metis length_replicate list_update_length list.simps(9))
    then have "fifo_values ?q = replicate (fifo_head ?q) None @ map Some xs"
      by (simp add: replicate_append_same [symmetric])
    from compactIfNeeded_ok [OF this] show ?thesis
      using Cons fifo_peek_eq [OF vals] by (simp add: fifo_dequeue_def)
  qed
qed

interpretation fifo: queue_impl newFifo fifo_enqueue fifo_dequeue fifo_list fifo_inv
proof
  show "fifo_inv newFifo" "fifo_list newFifo = []" by (simp_all add: newFifo_def fifo_inv_def fifo_list_def)
  show "fifo_inv (fifo_enqueue x q) \<and> fifo_list (fifo_enqueue x q) = fifo_list q @ [x]" if "fifo_inv q" for q and x :: 'a
    using that by (auto simp: fifo_inv_def fifo_enqueue_def fifo_list_def)
qed (rule fifo_dequeue_ok)

section \<open>Lemmas: QueueWithSizes\<close>

definition sized_inv :: "'a sized_queue \<Rightarrow> bool" where
  "sized_inv q \<longleftrightarrow> fifo_inv (sq_entries q) \<and> list_all (\<lambda>e. 0 \<le> vs_size e) (fifo_list (sq_entries q)) \<and>
     sq_totalSize q = sum_list (map vs_size (fifo_list (sq_entries q)))"

lemma sizes_nonneg: "list_all (\<lambda>e. 0 \<le> vs_size e) es \<Longrightarrow> 0 \<le> sum_list (map vs_size es)"
  by (induction es) auto

lemma sized_enqueue_inv:
  "sized_inv q \<Longrightarrow> sized_enqueue v s q = Inr q' \<Longrightarrow>
     sized_inv q' \<and> (\<exists>n. s = Size n \<and> 0 \<le> n \<and>
       fifo_list (sq_entries q') = fifo_list (sq_entries q) @ [\<lparr>vs_value = v, vs_size = n\<rparr>])"
  using fifo.enq_law [of "sq_entries q"]
  by (auto simp: sized_enqueue_def sized_inv_def split: js_size.splits if_splits)

lemma sized_dequeue_inv:
  assumes "sized_inv q"
  shows "case fifo_list (sq_entries q) of
      [] \<Rightarrow> fst (sized_dequeue q) = None \<and> sized_inv (snd (sized_dequeue q)) \<and>
            fifo_list (sq_entries (snd (sized_dequeue q))) = []
    | e # es \<Rightarrow> fst (sized_dequeue q) = Some e \<and> sized_inv (snd (sized_dequeue q)) \<and>
            fifo_list (sq_entries (snd (sized_dequeue q))) = es"
proof -
  have inv: "fifo_inv (sq_entries q)" using assms by (simp add: sized_inv_def)
  obtain r es where d: "fifo_dequeue (sq_entries q) = (r, es)" by (cases "fifo_dequeue (sq_entries q)")
  from inv show ?thesis
  proof (cases rule: fifo.deq_cases)
    case none
    then show ?thesis using assms d by (simp add: sized_dequeue_def sized_inv_def)
  next
    case (some e rest)
    then show ?thesis using assms d sizes_nonneg [of rest]
      by (auto simp: sized_dequeue_def sized_inv_def Let_def)
  qed
qed

section \<open>Properties\<close>

text \<open>
  A \<^verbatim>\<open>Fifo\<close> behaves as a list: any sequence of insertions and removals returns what the same
  sequence returns on a list that is appended to at the back and taken from at the front; the
  compaction is not observable.
\<close>

theorem fifo_refines_list: "run_queue fifo_enqueue fifo_dequeue ops newFifo = run_queue list_enq list_deq ops []"
  using fifo.run_refines [OF fifo.empty_law(1), of ops] by (simp add: fifo.empty_law(2))

text \<open>
  The storage of a \<^verbatim>\<open>Fifo\<close> is bounded by its content: in every reachable state the array has at
  most twice the live elements, or 1024 slots more than them, and no consumed slot holds a reference.
\<close>

inductive fifo_reachable :: "'a fifo \<Rightarrow> bool" where
  new: "fifo_reachable newFifo"
| enqueue: "fifo_reachable q \<Longrightarrow> fifo_reachable (fifo_enqueue v q)"
| dequeue: "fifo_reachable q \<Longrightarrow> fifo_reachable (snd (fifo_dequeue q))"
| reset: "fifo_reachable q \<Longrightarrow> fifo_reachable (fifo_reset q)"

lemma fifo_reachable_inv: "fifo_reachable q \<Longrightarrow> fifo_inv q"
proof (induction rule: fifo_reachable.induct)
  case (dequeue q)
  from dequeue.IH show ?case by (cases rule: fifo.deq_cases) simp_all
next
  case (reset q)
  then show ?case by (simp add: fifo_reset_def fifo_inv_def fifo_list_def)
qed (simp_all add: fifo.empty_law fifo.enq_law)

theorem fifo_storage_bound:
  assumes "fifo_reachable q"
  shows "int (length (fifo_values q)) \<le> fifo_length q + max 1024 (fifo_length q) \<and>
    take (fifo_head q) (fifo_values q) = replicate (fifo_head q) None"
proof -
  have inv: "fifo_inv q" using assms by (rule fifo_reachable_inv)
  then have "take (fifo_head q) (fifo_values q) = replicate (fifo_head q) None"
    by (metis append_eq_conv_conj fifo_inv_def length_replicate)
  with inv show ?thesis by (auto simp: fifo_inv_def fifo_length_def)
qed

theorem fifo_storage_bound_witness:
  "int (length (fifo_values (fifo_enqueue (7 :: nat) newFifo))) \<le> 1025"
  using fifo_storage_bound [OF fifo_reachable.enqueue [OF fifo_reachable.new], of "7 :: nat"]
  by (simp add: fifo_length_def fifo_enqueue_def newFifo_def)

text \<open>
  A \<^verbatim>\<open>QueueWithSizes\<close> keeps the exact total of the sizes it holds: insertion of a non-negative
  size appends the chunk, other sizes are rejected, removal returns the oldest chunk with its size,
  and the total stays the sum of the queued sizes, never negative.
\<close>

theorem sized_queue_total:
  assumes "sized_inv q"
  shows "(\<forall>v n. 0 \<le> n \<longrightarrow> (\<exists>q'. sized_enqueue v (Size n) q = Inr q' \<and> sized_inv q' \<and>
        fifo_list (sq_entries q') = fifo_list (sq_entries q) @ [\<lparr>vs_value = v, vs_size = n\<rparr>])) \<and>
    (\<forall>v n. n < 0 \<longrightarrow> sized_enqueue v (Size n) q = Inl RangeError) \<and>
    (\<forall>v. sized_enqueue v NotFinite q = Inl RangeError) \<and>
    fst (sized_dequeue q) = fst (list_deq (fifo_list (sq_entries q))) \<and> sized_inv (snd (sized_dequeue q)) \<and>
    fifo_list (sq_entries (snd (sized_dequeue q))) = snd (list_deq (fifo_list (sq_entries q))) \<and>
    sq_totalSize q = sum_list (map vs_size (fifo_list (sq_entries q))) \<and> 0 \<le> sq_totalSize q"
proof (intro conjI allI impI)
  show "\<exists>q'. sized_enqueue v (Size n) q = Inr q' \<and> sized_inv q' \<and>
        fifo_list (sq_entries q') = fifo_list (sq_entries q) @ [\<lparr>vs_value = v, vs_size = n\<rparr>]" if n: "0 \<le> n" for v n
  proof -
    obtain q' where q': "sized_enqueue v (Size n) q = Inr q'" using n by (simp add: sized_enqueue_def)
    from sized_enqueue_inv [OF assms q'] q' show ?thesis by auto
  qed
  show "sized_enqueue v (Size n) q = Inl RangeError" if "n < 0" for v n using that by (simp add: sized_enqueue_def)
  show "sized_enqueue v NotFinite q = Inl RangeError" for v by (simp add: sized_enqueue_def)
  show "fst (sized_dequeue q) = fst (list_deq (fifo_list (sq_entries q)))" "sized_inv (snd (sized_dequeue q))"
    "fifo_list (sq_entries (snd (sized_dequeue q))) = snd (list_deq (fifo_list (sq_entries q)))"
    using sized_dequeue_inv [OF assms] by (auto simp: list_deq_def split: list.splits)
  show "sq_totalSize q = sum_list (map vs_size (fifo_list (sq_entries q)))" "0 \<le> sq_totalSize q"
    using assms sizes_nonneg by (auto simp: sized_inv_def)
qed

theorem sized_queue_total_witness:
  "sized_enqueue (1 :: nat) NotFinite newSizedQueue = Inl RangeError \<and> sq_totalSize (newSizedQueue :: nat sized_queue) = 0"
proof -
  have "sized_inv (newSizedQueue :: nat sized_queue)"
    by (simp add: sized_inv_def newSizedQueue_def fifo.empty_law)
  from sized_queue_total [OF this] show ?thesis by (simp add: newSizedQueue_def)
qed

end
