(* ===== verification/Priority_Queue.thy ===== *)
theory Priority_Queue
  imports Nts_Prelude "HOL-Library.Multiset"
begin

text \<open>
  The binary heap of the timers, \<^verbatim>\<open>runtime/node/timers/src/priority-queue.ts\<close>, and the ordering
  of timer lists it is used with in \<^verbatim>\<open>timeout.ts\<close>. The comparison is a parameter, as in the source;
  the callback \<^verbatim>\<open>setPosition\<close>, which stores an element's slot in the element, is the map
  \<open>pq_positions\<close>. Slot numbers are below \<open>2 ^ 30\<close>, where the shifts are division and
  multiplication by two. \<open>pq_removeAt\<close> is for slots of a queue that is not empty: every caller passes
  the recorded slot of a list that is in the queue.
\<close>

section \<open>Definitions\<close>

record 'a pq =
  pq_heap :: "'a option list"
  pq_size :: nat
  pq_positions :: "'a \<Rightarrow> nat option"

definition newPriorityQueue :: "'a pq" where
  "newPriorityQueue = \<lparr>pq_heap = [None, None], pq_size = 0, pq_positions = (\<lambda>_. None)\<rparr>"

text \<open>An array write: beyond the end it extends the array.\<close>

definition js_store :: "'a option list \<Rightarrow> nat \<Rightarrow> 'a option \<Rightarrow> 'a option list" where
  "js_store xs i v = (if i < length xs then xs[i := v] else xs @ replicate (i - length xs) None @ [v])"

definition slot :: "'a option list \<Rightarrow> nat \<Rightarrow> 'a option" where
  "slot h i = js_or_else (js_at h (int i)) None"

definition itemAt :: "'a option list \<Rightarrow> nat \<Rightarrow> 'a result" where
  "itemAt h position = (case slot h position of None \<Rightarrow> Inl GenericError | Some item \<Rightarrow> Inr item)"

type_synonym 'a heap_state = "'a option list \<times> ('a \<Rightarrow> nat option)"

definition placeItem :: "'a \<Rightarrow> nat \<Rightarrow> 'a heap_state \<Rightarrow> 'a heap_state" where
  "placeItem item position s =
     (case s of (h, ps) \<Rightarrow> (js_store h position (Some item), ps(item := Some position)))"

function percolateUpLoop :: "('a \<Rightarrow> 'a \<Rightarrow> int) \<Rightarrow> 'a \<Rightarrow> nat \<Rightarrow> 'a heap_state \<Rightarrow> 'a heap_state result" where
  "percolateUpLoop cmp item position s =
     (if position > 1
      then (let parent = position div 2
            in res_bind (itemAt (fst s) parent) (\<lambda>parentItem.
               if cmp parentItem item \<le> 0 then Inr (placeItem item position s)
               else percolateUpLoop cmp item parent (placeItem parentItem position s)))
      else Inr (placeItem item position s))"
  by pat_completeness auto
termination
  by (relation "measure (\<lambda>(cmp, item, position, s). position)") auto

declare percolateUpLoop.simps [simp del]

definition percolateUp :: "('a \<Rightarrow> 'a \<Rightarrow> int) \<Rightarrow> nat \<Rightarrow> 'a heap_state \<Rightarrow> 'a heap_state result" where
  "percolateUp cmp position s =
     res_bind (itemAt (fst s) position) (\<lambda>item. percolateUpLoop cmp item position s)"

text \<open>
  The descending loop. At slot \<open>0\<close>, which is not a slot of the heap, it would not move, so its
  result is an option; \<open>n\<close> is the size.
\<close>

definition smallerChild :: "('a \<Rightarrow> 'a \<Rightarrow> int) \<Rightarrow> nat \<Rightarrow> nat \<Rightarrow> 'a option list \<Rightarrow> (nat \<times> 'a) result" where
  "smallerChild cmp n position h =
     res_bind (itemAt h (position * 2)) (\<lambda>childItem.
     if position * 2 + 1 \<le> n
     then res_bind (itemAt h (position * 2 + 1)) (\<lambda>nextItem.
          if cmp nextItem childItem < 0 then Inr (position * 2 + 1, nextItem) else Inr (position * 2, childItem))
     else Inr (position * 2, childItem))"

partial_function (option) percolateDownLoop ::
    "('a \<Rightarrow> 'a \<Rightarrow> int) \<Rightarrow> nat \<Rightarrow> 'a \<Rightarrow> nat \<Rightarrow> 'a heap_state \<Rightarrow> 'a heap_state result option" where
  "percolateDownLoop cmp n item position s =
     (if position \<le> n div 2
      then (case smallerChild cmp n position (fst s) of
              Inl e \<Rightarrow> Some (Inl e)
            | Inr (child, childItem) \<Rightarrow>
                (if cmp item childItem \<le> 0 then Some (Inr (placeItem item position s))
                 else percolateDownLoop cmp n item child (placeItem childItem position s)))
      else Some (Inr (placeItem item position s)))"

definition percolateDown :: "('a \<Rightarrow> 'a \<Rightarrow> int) \<Rightarrow> nat \<Rightarrow> nat \<Rightarrow> 'a heap_state \<Rightarrow> 'a heap_state result option" where
  "percolateDown cmp n position s =
     (case itemAt (fst s) position of
        Inl e \<Rightarrow> Some (Inl e)
      | Inr item \<Rightarrow> percolateDownLoop cmp n item position s)"

definition pq_update :: "'a pq \<Rightarrow> nat \<Rightarrow> 'a heap_state \<Rightarrow> 'a pq" where
  "pq_update q n s = q\<lparr>pq_heap := fst s, pq_size := n, pq_positions := snd s\<rparr>"

definition pq_insert :: "('a \<Rightarrow> 'a \<Rightarrow> int) \<Rightarrow> 'a \<Rightarrow> 'a pq \<Rightarrow> 'a pq result" where
  "pq_insert cmp v q =
     (let position = pq_size q + 1
      in res_bind (percolateUp cmp position (js_store (pq_heap q) position (Some v), pq_positions q))
           (\<lambda>s. Inr (pq_update q position s)))"

definition pq_peek :: "'a pq \<Rightarrow> 'a option" where
  "pq_peek q = slot (pq_heap q) 1"

definition pq_peekBottom :: "'a pq \<Rightarrow> 'a option" where
  "pq_peekBottom q = slot (pq_heap q) (pq_size q)"

definition pq_percolateDown :: "('a \<Rightarrow> 'a \<Rightarrow> int) \<Rightarrow> nat \<Rightarrow> 'a pq \<Rightarrow> 'a pq result option" where
  "pq_percolateDown cmp position q =
     map_option (\<lambda>r. res_bind r (\<lambda>s. Inr (pq_update q (pq_size q) s)))
       (percolateDown cmp (pq_size q) position (pq_heap q, pq_positions q))"

definition pq_removeAt :: "('a \<Rightarrow> 'a \<Rightarrow> int) \<Rightarrow> nat \<Rightarrow> 'a pq \<Rightarrow> 'a pq result option" where
  "pq_removeAt cmp position q =
     (let h = js_store (js_store (pq_heap q) position (slot (pq_heap q) (pq_size q))) (pq_size q) None;
          n = pq_size q - 1;
          finish = (\<lambda>r. res_bind r (\<lambda>s. Inr (pq_update q n s)))
      in if n > 0 \<and> position \<le> n
         then (case (if position > 1
                     then res_bind (itemAt h (position div 2)) (\<lambda>p.
                          res_bind (itemAt h position) (\<lambda>x. Inr (cmp p x > 0)))
                     else Inr False) of
                 Inl e \<Rightarrow> Some (Inl e)
               | Inr up \<Rightarrow>
                   (if up then Some (finish (percolateUp cmp position (h, pq_positions q)))
                    else map_option finish (percolateDown cmp n position (h, pq_positions q))))
         else Some (Inr (pq_update q n (h, pq_positions q))))"

definition pq_shift :: "('a \<Rightarrow> 'a \<Rightarrow> int) \<Rightarrow> 'a pq \<Rightarrow> ('a option \<times> 'a pq) result option" where
  "pq_shift cmp q =
     (case slot (pq_heap q) 1 of
        None \<Rightarrow> Some (Inr (None, q))
      | Some v \<Rightarrow> map_option (\<lambda>r. res_bind r (\<lambda>q'. Inr (Some v, q'))) (pq_removeAt cmp 1 q))"

text \<open>The ordering of \<^verbatim>\<open>timerListQueue\<close>: by expiry, then by creation.\<close>

record timers_list =
  tl_expiry :: int
  tl_id :: int
  tl_msecs :: int

definition compareTimersLists :: "timers_list \<Rightarrow> timers_list \<Rightarrow> int" where
  "compareTimersLists a b =
     (let byExpiry = tl_expiry a - tl_expiry b in if byExpiry = 0 then tl_id a - tl_id b else byExpiry)"


section \<open>The heap invariant\<close>

definition at :: "'a option list \<Rightarrow> nat \<Rightarrow> 'a" where
  "at h i = the (slot h i)"

definition filled :: "'a option list \<Rightarrow> nat \<Rightarrow> bool" where
  "filled h n \<longleftrightarrow> n < length h \<and> (\<forall>i. slot h i \<noteq> None \<longleftrightarrow> 1 \<le> i \<and> i \<le> n)"

definition items :: "'a option list \<Rightarrow> nat \<Rightarrow> 'a list" where
  "items h n = map (at h) [1..<Suc n]"

definition tracked :: "'a option list \<Rightarrow> nat \<Rightarrow> ('a \<Rightarrow> nat option) \<Rightarrow> bool" where
  "tracked h n ps \<longleftrightarrow> (\<forall>i. 1 \<le> i \<and> i \<le> n \<longrightarrow> ps (at h i) = Some i)"

lemma slot_store: "slot (js_store h i v) j = (if j = i then v else slot h j)"
  by (auto simp: slot_def js_store_def nth_append nth_list_update nth_Cons split: nat.split)

lemma length_js_store: "length h \<le> length (js_store h i v)" "i < length (js_store h i v)"
  by (auto simp: js_store_def)

lemma at_store [simp]: "at (js_store h i (Some x)) j = (if j = i then x else at h j)"
  by (simp add: at_def slot_store)

lemma itemAt_filled: "filled h n \<Longrightarrow> 1 \<le> i \<Longrightarrow> i \<le> n \<Longrightarrow> itemAt h i = Inr (at h i)"
  by (auto simp: filled_def itemAt_def at_def split: option.split)

lemma slot_filled: "filled h n \<Longrightarrow> 1 \<le> i \<Longrightarrow> i \<le> n \<Longrightarrow> slot h i = Some (at h i)"
  by (auto simp: filled_def at_def)

lemma filled_store: "filled h n \<Longrightarrow> 1 \<le> i \<Longrightarrow> i \<le> n \<Longrightarrow> filled (js_store h i (Some x)) n"
  using length_js_store(1) [of h i "Some x"] by (auto simp: filled_def slot_store)

lemma filled_extend: "filled h n \<Longrightarrow> filled (js_store h (Suc n) (Some x)) (Suc n)"
  using length_js_store(2) [of "Suc n" h "Some x"] by (auto simp: filled_def slot_store)

lemma filled_drop: "filled h (Suc n) \<Longrightarrow> filled (js_store h (Suc n) None) n"
  using length_js_store(1) [of h "Suc n" None] by (auto simp: filled_def slot_store)

lemma length_items [simp]: "length (items h n) = n"
  by (simp add: items_def)

lemma nth_items: "k < n \<Longrightarrow> items h n ! k = at h (Suc k)"
  by (simp add: items_def del: upt_Suc)

lemma items_store: "1 \<le> i \<Longrightarrow> items (js_store h i (Some x)) n = (items h n)[i - 1 := x]"
  by (rule nth_equalityI) (auto simp: nth_items nth_list_update)

lemma items_Suc: "items h (Suc n) = items h n @ [at h (Suc n)]"
  by (simp add: items_def)

lemma items_drop: "n < m \<Longrightarrow> items (js_store h m None) n = items h n"
  by (rule nth_equalityI) (auto simp: nth_items at_def slot_store)

lemma set_items: "set (items h n) = at h ` {1..n}"
  by (simp add: items_def atLeastLessThanSuc_atLeastAtMost del: upt_Suc)

lemma items_move:
  assumes "1 \<le> i" "i \<le> n" "1 \<le> j" "j \<le> n" "i \<noteq> j"
  shows "mset ((items (js_store h i (Some (at h j))) n)[j - 1 := x]) = mset ((items h n)[i - 1 := x])"
proof -
  let ?xs = "(items h n)[i - 1 := x]"
  have "(items (js_store h i (Some (at h j))) n)[j - 1 := x] = ?xs[i - 1 := ?xs ! (j - 1), j - 1 := ?xs ! (i - 1)]"
    using assms by (intro nth_equalityI) (auto simp: items_store nth_items nth_list_update)
  then show ?thesis using assms mset_swap [of "j - 1" ?xs "i - 1"] by simp
qed

lemma tracked_place:
  assumes d: "distinct ((items h n)[p - 1 := x])" and p: "1 \<le> p" "p \<le> n"
    and ps: "\<forall>i. 1 \<le> i \<and> i \<le> n \<and> i \<noteq> p \<longrightarrow> ps (at h i) = Some i"
  shows "tracked (js_store h p (Some x)) n (ps(x := Some p))"
proof -
  have "at h i \<noteq> x" if "1 \<le> i" "i \<le> n" "i \<noteq> p" for i
    using d p that nth_eq_iff_index_eq [OF d, of "i - 1" "p - 1"]
    by (auto simp: nth_list_update nth_items)
  with ps show ?thesis by (auto simp: tracked_def)
qed

lemma tracked_move:
  assumes d: "distinct ((items h n)[p - 1 := x])" and p: "1 \<le> p" "p \<le> n" "1 \<le> c" "c \<le> n" "c \<noteq> p"
    and ps: "\<forall>i. 1 \<le> i \<and> i \<le> n \<and> i \<noteq> p \<longrightarrow> ps (at h i) = Some i"
  shows "\<forall>i. 1 \<le> i \<and> i \<le> n \<and> i \<noteq> c \<longrightarrow>
           (ps(at h c := Some p)) (at (js_store h p (Some (at h c))) i) = Some i"
proof -
  have "at h i \<noteq> at h c" if "1 \<le> i" "i \<le> n" "i \<noteq> p" "i \<noteq> c" for i
    using d p that nth_eq_iff_index_eq [OF d, of "i - 1" "c - 1"]
    by (auto simp: nth_list_update nth_items)
  with ps show ?thesis by auto
qed

section \<open>The loops\<close>

text \<open>
  What the heap needs of its comparison, and what the two loops do with it. \<open>restored\<close> is the outcome
  of a percolation of \<open>x\<close> from the hole at slot \<open>p\<close>.
\<close>

definition moved :: "'a option list \<Rightarrow> nat \<Rightarrow> nat \<Rightarrow> 'a \<Rightarrow> ('a \<Rightarrow> nat option) \<Rightarrow> 'a heap_state \<Rightarrow> bool" where
  "moved h n p x ps s \<longleftrightarrow> filled (fst s) n \<and> mset (items (fst s) n) = mset ((items h n)[p - 1 := x]) \<and>
     (distinct ((items h n)[p - 1 := x]) \<longrightarrow>
      (\<forall>i. 1 \<le> i \<and> i \<le> n \<and> i \<noteq> p \<longrightarrow> ps (at h i) = Some i) \<longrightarrow> tracked (fst s) n (snd s))"

lemma moved_place:
  assumes "filled h n" "1 \<le> p" "p \<le> n"
  shows "moved h n p x ps (placeItem x p (h, ps))"
  using assms filled_store [OF assms] tracked_place [of h n p x ps] unfolding moved_def placeItem_def
  by (simp add: items_store)

lemma moved_step:
  assumes "1 \<le> p" "p \<le> n" "1 \<le> c" "c \<le> n" "c \<noteq> p"
    and "moved (js_store h p (Some (at h c))) n c x (ps(at h c := Some p)) s"
  shows "moved h n p x ps s"
proof -
  have m: "mset ((items (js_store h p (Some (at h c))) n)[c - 1 := x]) = mset ((items h n)[p - 1 := x])"
    using assms(1-5) by (intro items_move) auto
  show ?thesis
    using assms(6) tracked_move [of h n p x c ps] assms(1-5) mset_eq_imp_distinct_iff [OF m]
    unfolding moved_def m by blast
qed

definition heap :: "('a \<Rightarrow> 'a \<Rightarrow> int) \<Rightarrow> 'a option list \<Rightarrow> nat \<Rightarrow> bool" where
  "heap cmp h n \<longleftrightarrow> (\<forall>i. 2 \<le> i \<and> i \<le> n \<longrightarrow> cmp (at h (i div 2)) (at h i) \<le> 0)"

definition hole :: "('a \<Rightarrow> 'a \<Rightarrow> int) \<Rightarrow> 'a option list \<Rightarrow> nat \<Rightarrow> nat \<Rightarrow> bool" where
  "hole cmp h n p \<longleftrightarrow> filled h n \<and> 1 \<le> p \<and> p \<le> n \<and>
     (\<forall>i. 2 \<le> i \<and> i \<le> n \<and> i \<noteq> p \<and> i div 2 \<noteq> p \<longrightarrow> cmp (at h (i div 2)) (at h i) \<le> 0) \<and>
     (2 \<le> p \<longrightarrow> (\<forall>i. i \<le> n \<and> i div 2 = p \<longrightarrow> cmp (at h (p div 2)) (at h i) \<le> 0))"

lemma holeD:
  assumes "hole cmp h n p"
  shows "filled h n" "1 \<le> p" "p \<le> n"
    and "2 \<le> i \<Longrightarrow> i \<le> n \<Longrightarrow> i \<noteq> p \<Longrightarrow> i div 2 \<noteq> p \<Longrightarrow> cmp (at h (i div 2)) (at h i) \<le> 0"
    and "2 \<le> p \<Longrightarrow> i \<le> n \<Longrightarrow> i div 2 = p \<Longrightarrow> cmp (at h (p div 2)) (at h i) \<le> 0"
  using assms unfolding hole_def by blast+

locale comparison =
  fixes cmp :: "'a \<Rightarrow> 'a \<Rightarrow> int"
  assumes cmp_trans: "cmp a b \<le> 0 \<Longrightarrow> cmp b c \<le> 0 \<Longrightarrow> cmp a c \<le> 0"
    and cmp_total: "0 \<le> cmp a b \<Longrightarrow> cmp b a \<le> 0"
begin

lemma cmp_refl: "cmp a a \<le> 0"
  using cmp_total [of a a] by linarith

lemma cmp_not_le: "\<not> cmp a b \<le> 0 \<Longrightarrow> cmp b a \<le> 0"
  using cmp_total [of a b] by linarith

lemma heap_hole:
  assumes h: "heap cmp h n" "filled h n" and p: "1 \<le> p" "p \<le> n"
  shows "hole cmp h n p"
proof -
  have "cmp (at h (p div 2)) (at h i) \<le> 0" if i: "2 \<le> p" "i \<le> n" "i div 2 = p" for i
  proof (rule cmp_trans)
    have "2 \<le> i" using i by linarith
    then show "cmp (at h p) (at h i) \<le> 0" using h(1) i unfolding heap_def by blast
    show "cmp (at h (p div 2)) (at h p) \<le> 0" using h(1) i p unfolding heap_def by blast
  qed
  with h p show ?thesis unfolding hole_def heap_def by blast
qed

lemma hole_change:
  assumes o: "hole cmp h n p"
  shows "hole cmp (js_store h p (Some x)) n p"
proof -
  have p: "p div 2 \<noteq> p" "\<And>i. i div 2 = p \<Longrightarrow> i \<noteq> p" using holeD(2) [OF o] by auto
  have f: "filled (js_store h p (Some x)) n" using holeD(1-3) [OF o] by (rule filled_store)
  have 1: "cmp (at (js_store h p (Some x)) (i div 2)) (at (js_store h p (Some x)) i) \<le> 0"
    if "2 \<le> i" "i \<le> n" "i \<noteq> p" "i div 2 \<noteq> p" for i
    using holeD(4) [OF o that] that by simp
  have 2: "cmp (at (js_store h p (Some x)) (p div 2)) (at (js_store h p (Some x)) i) \<le> 0"
    if "2 \<le> p" "i \<le> n" "i div 2 = p" for i
    using holeD(5) [OF o that] p(1) p(2) [OF that(3)] by simp
  show ?thesis unfolding hole_def using f holeD(2,3) [OF o] 1 2 by blast
qed

lemma hole_close:
  assumes "hole cmp h n p" "2 \<le> p \<longrightarrow> cmp (at h (p div 2)) x \<le> 0"
    and "\<forall>i. i \<le> n \<and> i div 2 = p \<longrightarrow> cmp x (at h i) \<le> 0"
  shows "heap cmp (js_store h p (Some x)) n"
proof -
  have "cmp (at (js_store h p (Some x)) (i div 2)) (at (js_store h p (Some x)) i) \<le> 0"
    if i: "2 \<le> i" "i \<le> n" for i
  proof (cases "i = p")
    case True
    then show ?thesis using i assms(2) by auto
  next
    case False
    then show ?thesis using i assms(3) holeD(4) [OF assms(1) i] by auto
  qed
  then show ?thesis by (simp add: heap_def)
qed

lemma hole_up:
  assumes o: "hole cmp h n p" and p: "2 \<le> p"
  shows "hole cmp (js_store h p (Some (at h (p div 2)))) n (p div 2)"
proof -
  let ?h = "js_store h p (Some (at h (p div 2)))"
  have r: "1 \<le> p div 2" "p div 2 \<noteq> p" "p div 2 \<le> n" using p holeD(3) [OF o] by auto
  have f: "filled ?h n" using o by (auto simp: hole_def intro: filled_store)
  have 1: "cmp (at ?h (i div 2)) (at ?h i) \<le> 0"
    if i: "2 \<le> i" "i \<le> n" "i \<noteq> p div 2" "i div 2 \<noteq> p div 2" for i
  proof -
    have "i \<noteq> p" using i(4) by auto
    then show ?thesis using i p holeD(4) [OF o i(1,2)] holeD(5) [OF o p i(2)] by auto
  qed
  have 2: "cmp (at ?h (p div 2 div 2)) (at ?h i) \<le> 0" if i: "2 \<le> p div 2" "i \<le> n" "i div 2 = p div 2" for i
  proof -
    have ne: "p div 2 div 2 \<noteq> p" "p div 2 div 2 \<noteq> p div 2" using i by linarith+
    have a: "cmp (at h (p div 2 div 2)) (at h (p div 2)) \<le> 0"
      using i(1) r ne by (intro holeD(4) [OF o]) auto
    show ?thesis
    proof (cases "i = p")
      case True
      then show ?thesis using a ne by simp
    next
      case False
      have "2 \<le> i" "i div 2 \<noteq> p" using i r by linarith+
      then have "cmp (at h (p div 2)) (at h i) \<le> 0" using i False holeD(4) [OF o, of i] by simp
      with a show ?thesis using cmp_trans False ne by auto
    qed
  qed
  show ?thesis using f r 1 2 unfolding hole_def by blast
qed

lemma hole_down:
  assumes o: "hole cmp h n p" and c: "c \<le> n" "c div 2 = p"
    and min: "\<forall>i. i \<le> n \<and> i div 2 = p \<longrightarrow> cmp (at h c) (at h i) \<le> 0"
  shows "hole cmp (js_store h p (Some (at h c))) n c"
proof -
  let ?h = "js_store h p (Some (at h c))"
  have p: "1 \<le> p" "p < c" "2 \<le> c" using holeD(2) [OF o] c by auto
  have f: "filled ?h n" using o by (auto simp: hole_def intro: filled_store)
  have 1: "cmp (at ?h (i div 2)) (at ?h i) \<le> 0"
    if i: "2 \<le> i" "i \<le> n" "i \<noteq> c" "i div 2 \<noteq> c" for i
  proof (cases "i = p")
    case True
    have "i div 2 \<noteq> p" using True i(1) by auto
    then show ?thesis using True i(1) holeD(5) [OF o _ c] by simp
  next
    case False
    then show ?thesis using i min holeD(4) [OF o i(1,2)] by auto
  qed
  have 2: "cmp (at ?h (c div 2)) (at ?h i) \<le> 0" if i: "i \<le> n" "i div 2 = c" for i
  proof -
    have "i \<noteq> p" "i div 2 \<noteq> p" "2 \<le> i" using i p by auto
    then show ?thesis using i c holeD(4) [OF o, of i] by simp
  qed
  show ?thesis using f p c 1 2 unfolding hole_def by auto
qed

lemma percolateUpLoop_spec:
  assumes "hole cmp h n p" and "\<forall>i. i \<le> n \<and> i div 2 = p \<longrightarrow> cmp x (at h i) \<le> 0"
  shows "\<exists>s. percolateUpLoop cmp x p (h, ps) = Inr s \<and> heap cmp (fst s) n \<and> moved h n p x ps s"
  using assms
proof (induction p arbitrary: h ps rule: less_induct)
  case (less p)
  note o = less.prems(1) and pn = holeD(1-3) [OF less.prems(1)]
  show ?case
  proof (cases "1 < p \<and> \<not> cmp (at h (p div 2)) x \<le> 0")
    case False
    have "percolateUpLoop cmp x p (h, ps) = Inr (placeItem x p (h, ps))"
      using False pn by (auto simp: percolateUpLoop.simps [of _ _ p] Let_def itemAt_filled [OF pn(1)])
    moreover have "heap cmp (js_store h p (Some x)) n"
      using False less.prems(2) by (intro hole_close [OF o]) auto
    ultimately show ?thesis using moved_place [OF pn] by (auto simp: placeItem_def)
  next
    case True
    let ?q = "p div 2" and ?h = "js_store h p (Some (at h (p div 2)))"
    have q: "1 \<le> ?q" "?q < p" "?q \<le> n" using True pn by auto
    have "percolateUpLoop cmp x p (h, ps) = percolateUpLoop cmp x ?q (?h, ps(at h ?q := Some p))"
      using True itemAt_filled [OF pn(1) q(1,3)]
      by (simp add: percolateUpLoop.simps [of _ _ p] Let_def placeItem_def)
    moreover have x: "\<forall>i. i \<le> n \<and> i div 2 = ?q \<longrightarrow> cmp x (at ?h i) \<le> 0"
    proof (intro allI impI)
      fix i assume i: "i \<le> n \<and> i div 2 = ?q"
      have y: "cmp x (at h ?q) \<le> 0" using True cmp_not_le by blast
      have "2 \<le> i" "i div 2 \<noteq> p" using i q by linarith+
      then have "i \<noteq> p \<Longrightarrow> cmp (at h ?q) (at h i) \<le> 0" using i holeD(4) [OF o, of i] by simp
      with y show "cmp x (at ?h i) \<le> 0" using cmp_trans by auto
    qed
    moreover have o': "hole cmp ?h n ?q" using True by (intro hole_up [OF o]) auto
    moreover obtain s where s: "percolateUpLoop cmp x ?q (?h, ps(at h ?q := Some p)) = Inr s" "heap cmp (fst s) n"
        "moved ?h n ?q x (ps(at h ?q := Some p)) s"
      using less.IH [OF q(2) o' x] by metis
    moreover have "moved h n p x ps s" using moved_step [OF pn(2,3) q(1,3) _ s(3)] q(2) by simp
    ultimately show ?thesis by (intro exI [of _ s]) simp
  qed
qed

lemma smallerChild_spec:
  assumes "filled h n" "1 \<le> p" "p \<le> n div 2"
  obtains c where "smallerChild cmp n p h = Inr (c, at h c)" "c \<le> n" "c div 2 = p"
    "\<forall>i. i \<le> n \<and> i div 2 = p \<longrightarrow> cmp (at h c) (at h i) \<le> 0"
proof -
  define c where "c = (if p * 2 + 1 \<le> n \<and> cmp (at h (p * 2 + 1)) (at h (p * 2)) < 0 then p * 2 + 1 else p * 2)"
  have r: "1 \<le> p * 2" "p * 2 \<le> n" using assms by auto
  have "smallerChild cmp n p h = Inr (c, at h c)"
    using r by (auto simp: smallerChild_def c_def itemAt_filled [OF assms(1)])
  moreover have "c \<le> n" "c div 2 = p" using r by (auto simp: c_def)
  moreover have "cmp (at h c) (at h i) \<le> 0" if i: "i \<le> n" "i div 2 = p" for i
  proof -
    have "i = p * 2 \<or> i = p * 2 + 1" using i by linarith
    then show ?thesis
      using i(1) cmp_refl cmp_total [of "at h (p * 2 + 1)" "at h (p * 2)"] by (auto simp: c_def)
  qed
  ultimately show ?thesis using that by blast
qed

lemma percolateDownLoop_spec:
  assumes "hole cmp h n p" and "2 \<le> p \<longrightarrow> cmp (at h (p div 2)) x \<le> 0"
  shows "\<exists>s. percolateDownLoop cmp n x p (h, ps) = Some (Inr s) \<and> heap cmp (fst s) n \<and> moved h n p x ps s"
  using assms
proof (induction "n - p" arbitrary: p h ps rule: less_induct)
  case less
  note o = less.prems(1) and pn = holeD(1-3) [OF less.prems(1)]
  have stop: ?case if "percolateDownLoop cmp n x p (h, ps) = Some (Inr (placeItem x p (h, ps)))"
    and "\<forall>i. i \<le> n \<and> i div 2 = p \<longrightarrow> cmp x (at h i) \<le> 0"
    using that hole_close [OF o less.prems(2)] moved_place [OF pn] by (auto simp: placeItem_def)
  show ?case
  proof (cases "p \<le> n div 2")
    case False
    then show ?thesis by (intro stop) (auto simp: percolateDownLoop.simps [of _ _ _ p])
  next
    case True
    obtain c where c: "smallerChild cmp n p h = Inr (c, at h c)" "c \<le> n" "c div 2 = p"
        "\<forall>i. i \<le> n \<and> i div 2 = p \<longrightarrow> cmp (at h c) (at h i) \<le> 0"
      using smallerChild_spec [OF pn(1,2) True] .
    have cp: "p < c" "1 \<le> c" using c(3) pn(2) by auto
    show ?thesis
    proof (cases "cmp x (at h c) \<le> 0")
      case le: True
      show ?thesis
        using le c cmp_trans True by (intro stop) (auto simp: percolateDownLoop.simps [of _ _ _ p])
    next
      case gt: False
      let ?h = "js_store h p (Some (at h c))" and ?ps = "ps(at h c := Some p)"
      have "percolateDownLoop cmp n x p (h, ps) = percolateDownLoop cmp n x c (?h, ?ps)"
        using gt True c(1) by (simp add: percolateDownLoop.simps [of _ _ _ p] placeItem_def)
      moreover have o': "hole cmp ?h n c" using hole_down [OF o c(2-4)] .
      have lt: "n - c < n - p" using cp(1) c(2) by linarith
      have "2 \<le> c \<longrightarrow> cmp (at ?h (c div 2)) x \<le> 0" using gt c(3) cmp_not_le by simp
      from less.hyps [OF lt o' this]
      obtain s where s: "percolateDownLoop cmp n x c (?h, ?ps) = Some (Inr s)" "heap cmp (fst s) n"
          "moved ?h n c x ?ps s"
        by metis
      moreover have "moved h n p x ps s" using moved_step [OF pn(2,3) cp(2) c(2) _ s(3)] cp(1) by simp
      ultimately show ?thesis by (intro exI [of _ s]) simp
    qed
  qed
qed

end

section \<open>The operations\<close>

definition pq_items :: "'a pq \<Rightarrow> 'a list" where
  "pq_items q = items (pq_heap q) (pq_size q)"

definition pq_inv :: "('a \<Rightarrow> 'a \<Rightarrow> int) \<Rightarrow> 'a pq \<Rightarrow> bool" where
  "pq_inv cmp q \<longleftrightarrow> filled (pq_heap q) (pq_size q) \<and> heap cmp (pq_heap q) (pq_size q) \<and>
     distinct (pq_items q) \<and> tracked (pq_heap q) (pq_size q) (pq_positions q)"

lemma pq_invD:
  assumes "pq_inv cmp q"
  shows "filled (pq_heap q) (pq_size q)" "heap cmp (pq_heap q) (pq_size q)" "distinct (pq_items q)"
    "tracked (pq_heap q) (pq_size q) (pq_positions q)"
  using assms by (auto simp: pq_inv_def)

lemma pq_inv_new [simp]: "pq_inv cmp newPriorityQueue" "pq_items newPriorityQueue = []"
  by (auto simp: pq_inv_def newPriorityQueue_def filled_def heap_def tracked_def pq_items_def items_def
      slot_def nth_Cons split: nat.splits)

lemma pq_update_sel [simp]:
  "pq_heap (pq_update q n s) = fst s" "pq_size (pq_update q n s) = n" "pq_positions (pq_update q n s) = snd s"
  by (simp_all add: pq_update_def)

lemma pq_inv_moved:
  assumes "heap cmp (fst s) n" "moved h n p x ps s" "distinct ((items h n)[p - 1 := x])"
    and "\<forall>i. 1 \<le> i \<and> i \<le> n \<and> i \<noteq> p \<longrightarrow> ps (at h i) = Some i"
  shows "pq_inv cmp (pq_update q n s)" "mset (pq_items (pq_update q n s)) = mset ((items h n)[p - 1 := x])"
  using assms mset_eq_imp_distinct_iff [of "items (fst s) n" "(items h n)[p - 1 := x]"]
  by (auto simp: pq_inv_def pq_items_def moved_def)

lemma items_replace_last:
  assumes "1 \<le> p" "p \<le> n"
  shows "add_mset (at h p) (mset ((items h n)[p - 1 := x])) = add_mset x (mset (items h n))"
proof -
  have "at h p = items h n ! (p - 1)" using assms by (simp add: nth_items)
  moreover have "items h n ! (p - 1) \<in># mset (items h n)" using assms by simp
  ultimately show ?thesis using assms by (simp add: mset_update)
qed

lemma heap_agree:
  assumes "heap cmp g m" "n \<le> m" and a: "\<And>i. i \<le> n \<Longrightarrow> at h i = at g i"
  shows "heap cmp h n"
proof -
  have "at h (i div 2) = at g (i div 2)" if "i \<le> n" for i using that by (intro a) auto
  then show ?thesis using assms(1,2) a unfolding heap_def by (metis order_trans)
qed

definition removed :: "'a pq \<Rightarrow> nat \<Rightarrow> 'a option list" where
  "removed q p = js_store (js_store (pq_heap q) p (slot (pq_heap q) (pq_size q))) (pq_size q) None"

lemma removed_heap:
  assumes "filled (pq_heap q) (pq_size q)" and n: "pq_size q = Suc n" and p: "1 \<le> p"
  shows "p \<le> Suc n \<Longrightarrow> filled (removed q p) n"
    and "p \<le> Suc n \<Longrightarrow> i \<le> n \<Longrightarrow> at (removed q p) i = (if i = p then at (pq_heap q) (Suc n) else at (pq_heap q) i)"
    and "items (removed q p) n = (items (pq_heap q) n)[p - 1 := at (pq_heap q) (Suc n)]"
proof -
  have last: "slot (pq_heap q) (Suc n) = Some (at (pq_heap q) (Suc n))"
    using slot_filled [OF assms(1)] n by simp
  show "filled (removed q p) n" if "p \<le> Suc n"
    unfolding removed_def n last using assms that by (intro filled_drop filled_store) auto
  show "at (removed q p) i = (if i = p then at (pq_heap q) (Suc n) else at (pq_heap q) i)" if "i \<le> n"
    using that by (simp add: removed_def at_def slot_store n)
  show "items (removed q p) n = (items (pq_heap q) n)[p - 1 := at (pq_heap q) (Suc n)]"
    using p n by (simp add: removed_def last items_drop items_store)
qed

context comparison
begin

lemma heap_root: "heap cmp h n \<Longrightarrow> 1 \<le> i \<Longrightarrow> i \<le> n \<Longrightarrow> cmp (at h 1) (at h i) \<le> 0"
proof (induction i rule: less_induct)
  case (less i)
  show ?case
  proof (cases "i = 1")
    case True
    then show ?thesis using cmp_refl by simp
  next
    case False
    then have "1 \<le> i div 2" "i div 2 < i" "2 \<le> i" using less.prems by auto
    then have "cmp (at h 1) (at h (i div 2)) \<le> 0" "cmp (at h (i div 2)) (at h i) \<le> 0"
      using less.IH [of "i div 2"] less.prems by (auto simp: heap_def)
    then show ?thesis by (rule cmp_trans)
  qed
qed

lemma insert_spec:
  assumes q: "pq_inv cmp q" and v: "v \<notin> set (pq_items q)"
  shows "\<exists>q'. pq_insert cmp v q = Inr q' \<and> pq_inv cmp q' \<and> mset (pq_items q') = add_mset v (mset (pq_items q))"
proof -
  let ?h = "js_store (pq_heap q) (Suc (pq_size q)) (Some v)" and ?n = "Suc (pq_size q)"
  note i = pq_invD [OF q]
  have f: "filled ?h ?n" using filled_extend i(1) .
  have "i div 2 \<noteq> ?n" if "i \<le> ?n" for i using that by auto
  moreover have "cmp (at ?h (i div 2)) (at ?h i) \<le> 0" if "2 \<le> i" "i \<le> ?n" "i \<noteq> ?n" for i
    using i(2) that by (auto simp: heap_def)
  ultimately have o: "hole cmp ?h ?n ?n" using f unfolding hole_def by auto
  moreover have "\<forall>i. i \<le> ?n \<and> i div 2 = ?n \<longrightarrow> cmp v (at ?h i) \<le> 0" by auto
  ultimately obtain s where s: "percolateUpLoop cmp v ?n (?h, pq_positions q) = Inr s" "heap cmp (fst s) ?n"
      "moved ?h ?n ?n v (pq_positions q) s"
    using percolateUpLoop_spec by blast
  have it: "(items ?h ?n)[?n - 1 := v] = pq_items q @ [v]"
    by (simp add: items_Suc pq_items_def items_store list_update_append list_update_beyond)
  have "pq_insert cmp v q = Inr (pq_update q ?n s)"
    using s(1) f by (simp add: pq_insert_def percolateUp_def itemAt_filled)
  moreover have "\<forall>i. 1 \<le> i \<and> i \<le> ?n \<and> i \<noteq> ?n \<longrightarrow> pq_positions q (at ?h i) = Some i"
    using i(4) by (auto simp: tracked_def)
  ultimately show ?thesis
    using pq_inv_moved [OF s(2,3), of q] v i(3) unfolding it by auto
qed

lemma percolate_spec:
  assumes "hole cmp h n p" "slot h p = Some x"
    and up: "up \<Longrightarrow> \<forall>i. i \<le> n \<and> i div 2 = p \<longrightarrow> cmp x (at h i) \<le> 0"
    and down: "\<not> up \<Longrightarrow> 2 \<le> p \<longrightarrow> cmp (at h (p div 2)) x \<le> 0"
  shows "\<exists>s. (if up then Some (percolateUp cmp p (h, ps)) else percolateDown cmp n p (h, ps)) = Some (Inr s) \<and>
             heap cmp (fst s) n \<and> moved h n p x ps s"
  using percolateUpLoop_spec [OF assms(1) up] percolateDownLoop_spec [OF assms(1) down] assms(2)
  by (cases up) (auto simp: percolateUp_def percolateDown_def itemAt_def)

lemma remove_last:
  assumes q: "pq_inv cmp q" and n: "pq_size q = Suc n"
  shows "\<exists>q'. pq_removeAt cmp (Suc n) q = Some (Inr q') \<and> pq_inv cmp q' \<and>
              add_mset (at (pq_heap q) (Suc n)) (mset (pq_items q')) = mset (pq_items q)"
proof -
  note inv = pq_invD [OF q] and r = removed_heap [OF pq_invD(1) [OF q] n, of "Suc n", simplified]
  let ?h = "removed q (Suc n)"
  have at': "at ?h i = at (pq_heap q) i" if "i \<le> n" for i using r(2) [OF that] that by simp
  have it': "items ?h n = items (pq_heap q) n" using r(3) by (simp add: list_update_beyond)
  have all: "pq_items q = items (pq_heap q) n @ [at (pq_heap q) (Suc n)]" by (simp add: pq_items_def n items_Suc)
  have "heap cmp ?h n" using heap_agree [OF inv(2) _ at'] n by simp
  moreover have "tracked ?h n (pq_positions q)" using inv(4) at' n by (simp add: tracked_def)
  ultimately have "pq_inv cmp (pq_update q n (?h, pq_positions q))"
    using r(1) inv(3) by (simp add: pq_inv_def pq_items_def it' all [unfolded pq_items_def])
  moreover have "pq_removeAt cmp (Suc n) q = Some (Inr (pq_update q n (?h, pq_positions q)))"
    using n by (simp add: pq_removeAt_def removed_def)
  moreover have "mset (pq_items q) = add_mset (at (pq_heap q) (Suc n)) (mset (items ?h n))" by (simp add: all it')
  ultimately show ?thesis by (simp add: pq_items_def)
qed

lemma removed_hole:
  assumes q: "pq_inv cmp q" and n: "pq_size q = Suc n" and p: "1 \<le> p" "p \<le> n"
  shows "hole cmp (removed q p) n p" "slot (removed q p) p = Some (at (pq_heap q) (Suc n))"
proof -
  let ?g = "pq_heap q"
  let ?x = "at ?g (Suc n)"
  note inv = pq_invD [OF q]
  have last: "slot ?g (Suc n) = Some ?x" using slot_filled [OF inv(1)] n by simp
  have f': "filled (js_store ?g (Suc n) None) n" using filled_drop inv(1) n by simp
  have "at (js_store ?g (Suc n) None) i = at ?g i" if "i \<le> n" for i
    using that by (simp add: at_def slot_store)
  then have "heap cmp (js_store ?g (Suc n) None) n" using heap_agree [OF inv(2)] n by simp
  then have "hole cmp (js_store ?g (Suc n) None) n p" using heap_hole p f' by blast
  then have "hole cmp (js_store (js_store ?g (Suc n) None) p (Some ?x)) n p" by (rule hole_change)
  moreover have "js_store (js_store ?g (Suc n) None) p (Some ?x) = removed q p"
    using inv(1) p n last by (simp add: removed_def js_store_def filled_def list_update_swap)
  ultimately show "hole cmp (removed q p) n p" by simp
  show "slot (removed q p) p = Some ?x" using p n last by (simp add: removed_def slot_store)
qed

lemma remove_percolates:
  assumes q: "pq_inv cmp q" and n: "pq_size q = Suc n" and p: "1 \<le> p" "p \<le> n"
  shows "\<exists>s. pq_removeAt cmp p q = Some (Inr (pq_update q n s)) \<and> heap cmp (fst s) n \<and>
             moved (removed q p) n p (at (pq_heap q) (Suc n)) (pq_positions q) s"
proof -
  let ?h = "removed q p" and ?x = "at (pq_heap q) (Suc n)"
  define up where "up = (2 \<le> p \<and> cmp (at ?h (p div 2)) ?x > 0)"
  note o = removed_hole(1) [OF q n p] and x = removed_hole(2) [OF q n p]
  have up: "cmp ?x (at ?h i) \<le> 0" if u: up and i: "i \<le> n" "i div 2 = p" for i
  proof (rule cmp_trans)
    show "cmp ?x (at ?h (p div 2)) \<le> 0" using u cmp_total by (simp add: up_def)
    show "cmp (at ?h (p div 2)) (at ?h i) \<le> 0" using u holeD(5) [OF o _ i] by (simp add: up_def)
  qed
  have parent: "itemAt ?h (p div 2) = Inr (at ?h (p div 2))" if "2 \<le> p"
    using that p by (intro itemAt_filled [OF holeD(1) [OF o]]) auto
  have "2 \<le> p \<longrightarrow> cmp (at ?h (p div 2)) ?x \<le> 0" if "\<not> up" using that by (auto simp: up_def)
  then obtain s where s: "(if up then Some (percolateUp cmp p (?h, pq_positions q))
        else percolateDown cmp n p (?h, pq_positions q)) = Some (Inr s)"
      "heap cmp (fst s) n" "moved ?h n p ?x (pq_positions q) s"
    using percolate_spec [OF o x, of up "pq_positions q"] up by blast
  have "(if p > 1 then res_bind (itemAt ?h (p div 2)) (\<lambda>y. res_bind (itemAt ?h p) (\<lambda>x. Inr (cmp y x > 0)))
         else Inr False) = (Inr up :: bool result)"
    using p parent x by (auto simp: up_def itemAt_def [of _ p])
  then have "pq_removeAt cmp p q = Some (Inr (pq_update q n s))"
    using s(1) p n by (auto simp: pq_removeAt_def Let_def removed_def split: if_splits)
  with s(2,3) show ?thesis by blast
qed

lemma remove_inner:
  assumes q: "pq_inv cmp q" and n: "pq_size q = Suc n" and p: "1 \<le> p" "p \<le> n"
  shows "\<exists>q'. pq_removeAt cmp p q = Some (Inr q') \<and> pq_inv cmp q' \<and>
              add_mset (at (pq_heap q) p) (mset (pq_items q')) = mset (pq_items q)"
proof -
  let ?h = "removed q p" and ?x = "at (pq_heap q) (Suc n)"
  note inv = pq_invD [OF q] and r = removed_heap [OF pq_invD(1) [OF q] n p(1)]
  obtain s where s: "pq_removeAt cmp p q = Some (Inr (pq_update q n s))" "heap cmp (fst s) n"
      "moved ?h n p ?x (pq_positions q) s"
    using remove_percolates [OF assms] by blast
  have eq: "(items ?h n)[p - 1 := ?x] = items ?h n" by (simp add: r(3))
  have tr: "\<forall>i. 1 \<le> i \<and> i \<le> n \<and> i \<noteq> p \<longrightarrow> pq_positions q (at ?h i) = Some i"
    using inv(4) r(2) p n by (auto simp: tracked_def)
  have m: "add_mset (at (pq_heap q) p) (mset (items ?h n)) = mset (pq_items q)"
    using items_replace_last [OF p, of "pq_heap q" ?x] by (simp add: r(3) pq_items_def n items_Suc)
  then have "distinct (at (pq_heap q) p # items ?h n)"
    using inv(3) mset_eq_imp_distinct_iff [of "at (pq_heap q) p # items ?h n" "pq_items q"] by simp
  then show ?thesis
    using s(1) pq_inv_moved [OF s(2,3) _ tr, of q] m unfolding eq by auto
qed

lemma remove_spec:
  assumes "pq_inv cmp q" and "1 \<le> p" "p \<le> pq_size q"
  shows "\<exists>q'. pq_removeAt cmp p q = Some (Inr q') \<and> pq_inv cmp q' \<and>
              add_mset (at (pq_heap q) p) (mset (pq_items q')) = mset (pq_items q)"
  using remove_last [OF assms(1)] remove_inner [OF assms(1)] assms(2,3)
  by (cases "pq_size q") (auto simp: le_Suc_eq)

text \<open>A shift takes the root, and the root is a least element.\<close>

lemma shift_spec:
  assumes q: "pq_inv cmp q" and ne: "pq_items q \<noteq> []"
  shows "\<exists>m q'. pq_shift cmp q = Some (Inr (Some m, q')) \<and> pq_inv cmp q' \<and>
                add_mset m (mset (pq_items q')) = mset (pq_items q) \<and> (\<forall>x\<in>set (pq_items q). cmp m x \<le> 0)"
proof -
  have n: "1 \<le> pq_size q" using ne by (cases "pq_size q") (auto simp: pq_items_def items_def)
  have "slot (pq_heap q) 1 = Some (at (pq_heap q) 1)" using slot_filled [OF pq_invD(1) [OF q] _ n] by simp
  moreover have "\<forall>x\<in>set (pq_items q). cmp (at (pq_heap q) 1) x \<le> 0"
    using heap_root [OF pq_invD(2) [OF q]] by (auto simp: pq_items_def set_items)
  ultimately show ?thesis using remove_spec [OF q _ n] by (auto simp: pq_shift_def)
qed

lemma shift_empty:
  assumes "pq_inv cmp q" "pq_items q = []"
  shows "pq_shift cmp q = Some (Inr (None, q))"
proof -
  have "pq_size q = 0" using assms(2) by (metis length_items list.size(3) pq_items_def)
  then show ?thesis using pq_invD(1) [OF assms(1)] by (auto simp: filled_def pq_shift_def split: option.split)
qed

text \<open>
  An element whose key was raised in place: the timers push a list's expiry back and let it sink.
\<close>

lemma reschedule_spec:
  assumes q: "pq_inv cmp q" and p: "1 \<le> p" "p \<le> pq_size q"
    and later: "cmp (at (pq_heap q) p) y \<le> 0"
    and fresh: "y \<notin> set (remove1 (at (pq_heap q) p) (pq_items q))"
  shows "\<exists>q'. pq_percolateDown cmp p (q\<lparr>pq_heap := js_store (pq_heap q) p (Some y)\<rparr>) = Some (Inr q') \<and>
              pq_inv cmp q' \<and>
              add_mset (at (pq_heap q) p) (mset (pq_items q')) = add_mset y (mset (pq_items q))"
proof -
  let ?g = "pq_heap q" and ?n = "pq_size q"
  let ?h = "js_store ?g p (Some y)"
  note inv = pq_invD [OF q]
  have o: "hole cmp ?h ?n p" using hole_change [OF heap_hole [OF inv(2,1) p]] .
  have "p div 2 \<noteq> p" using p(1) by simp
  then have "2 \<le> p \<longrightarrow> cmp (at ?h (p div 2)) y \<le> 0"
    using inv(2) p cmp_trans [OF _ later, of "at ?g (p div 2)"] by (auto simp: heap_def)
  moreover have "slot ?h p = Some y" by (simp add: slot_store)
  ultimately obtain s where s: "percolateDown cmp ?n p (?h, pq_positions q) = Some (Inr s)"
      "heap cmp (fst s) ?n" "moved ?h ?n p y (pq_positions q) s"
    using percolate_spec [OF o, of y False "pq_positions q"] by (simp only: if_False) blast
  have tr: "\<forall>i. 1 \<le> i \<and> i \<le> ?n \<and> i \<noteq> p \<longrightarrow> pq_positions q (at ?h i) = Some i"
    using inv(4) by (auto simp: tracked_def)
  have eq: "(items ?h ?n)[p - 1 := y] = (items ?g ?n)[p - 1 := y]" using p(1) by (simp add: items_store)
  have m: "add_mset (at ?g p) (mset ((items ?g ?n)[p - 1 := y])) = add_mset y (mset (pq_items q))"
    using items_replace_last [OF p] by (simp add: pq_items_def)
  have "at ?g p \<in> set (pq_items q)" using p by (auto simp: pq_items_def set_items)
  then have "mset ((items ?g ?n)[p - 1 := y]) = mset (y # remove1 (at ?g p) (pq_items q))"
    using m by (metis add_mset_add_single add_mset_remove_trivial mset.simps(2) mset_remove1 multi_member_split
        add_mset_commute set_mset_mset)
  then have d: "distinct ((items ?g ?n)[p - 1 := y])"
    using mset_eq_imp_distinct_iff fresh inv(3) distinct_remove1 by (metis distinct.simps(2))
  show ?thesis
    using s(1) pq_inv_moved [OF s(2,3) _ tr, of "q\<lparr>pq_heap := ?h\<rparr>"] d m unfolding eq
    by (simp add: pq_percolateDown_def)
qed

end

section \<open>The queue of timer lists\<close>

interpretation timers: comparison compareTimersLists
  by unfold_locales (auto simp: compareTimersLists_def Let_def split: if_splits)

text \<open>
  The queues the timers can reach, with the next identifier. Every list is created with a fresh identifier
  and inserted; lists are shifted off, or removed at their recorded slot. The list at the root, due but with
  its oldest timer not yet due, is pushed back: it gets a later expiry and a fresh identifier in place, and
  sinks. The list is the same object before and after, so its slot is the one that \<open>percolateDown\<close> records.
\<close>

definition newTimersList :: "int \<Rightarrow> int \<Rightarrow> int \<Rightarrow> timers_list" where
  "newTimersList nextListId expiry msecs = \<lparr>tl_expiry = expiry, tl_id = nextListId, tl_msecs = msecs\<rparr>"

definition pushedBack :: "int \<Rightarrow> int \<Rightarrow> int \<Rightarrow> timers_list \<Rightarrow> timers_list" where
  "pushedBack nextListId now idleStart x =
     x\<lparr>tl_expiry := max (idleStart + tl_msecs x) (now + 1), tl_id := nextListId\<rparr>"

definition pushBack :: "int \<Rightarrow> int \<Rightarrow> int \<Rightarrow> timers_list \<Rightarrow> timers_list pq \<Rightarrow> timers_list pq result option" where
  "pushBack nextListId now idleStart x q =
     pq_percolateDown compareTimersLists 1 (q\<lparr>pq_heap := js_store (pq_heap q) 1 (Some (pushedBack nextListId now idleStart x))\<rparr>)"

inductive timer_queue :: "timers_list pq \<Rightarrow> int \<Rightarrow> bool" where
  new_queue: "timer_queue newPriorityQueue (- MAX_SAFE_INTEGER)"
| inserted: "timer_queue q n \<Longrightarrow> pq_insert compareTimersLists (newTimersList n expiry msecs) q = Inr q' \<Longrightarrow>
    timer_queue q' (n + 1)"
| shifted: "timer_queue q n \<Longrightarrow> pq_shift compareTimersLists q = Some (Inr (r, q')) \<Longrightarrow> timer_queue q' n"
| removed_list: "timer_queue q n \<Longrightarrow> x \<in> set (pq_items q) \<Longrightarrow> pq_positions q x = Some p \<Longrightarrow>
    pq_removeAt compareTimersLists p q = Some (Inr q') \<Longrightarrow> timer_queue q' n"
| pushed_back: "timer_queue q n \<Longrightarrow> pq_peek q = Some x \<Longrightarrow> tl_expiry x \<le> now \<Longrightarrow>
    pushBack n now idleStart x q = Some (Inr q') \<Longrightarrow> timer_queue q' (n + 1)"

lemma position_of:
  assumes q: "pq_inv cmp q" and x: "x \<in> set (pq_items q)"
  obtains p where "pq_positions q x = Some p" "1 \<le> p" "p \<le> pq_size q" "slot (pq_heap q) p = Some x" "at (pq_heap q) p = x"
proof -
  from x obtain p where p: "1 \<le> p" "p \<le> pq_size q" "at (pq_heap q) p = x"
    by (auto simp: pq_items_def set_items)
  then have "pq_positions q x = Some p" using pq_invD(4) [OF q] by (auto simp: tracked_def)
  moreover have "slot (pq_heap q) p = Some x" using slot_filled [OF pq_invD(1) [OF q] p(1,2)] p(3) by simp
  ultimately show ?thesis using that p by blast
qed

text \<open>The identifiers in the queue have all been given out.\<close>

definition ids_below :: "int \<Rightarrow> timers_list pq \<Rightarrow> bool" where
  "ids_below n q \<longleftrightarrow> (\<forall>x\<in>set (pq_items q). tl_id x < n)"

lemma ids_below_new: "ids_below n q \<Longrightarrow> tl_id y = n \<Longrightarrow> y \<notin> set (pq_items q)"
  by (auto simp: ids_below_def)

lemma ids_below_mset: "mset (pq_items q') \<subseteq># mset (pq_items q) \<Longrightarrow> ids_below n q \<Longrightarrow> ids_below n q'"
  by (metis ids_below_def set_mset_mset set_mset_mono subset_iff)

lemma peek_root:
  assumes "pq_inv cmp q" "pq_peek q = Some x"
  shows "1 \<le> pq_size q" "at (pq_heap q) 1 = x" "x \<in> set (pq_items q)"
proof -
  have p: "slot (pq_heap q) 1 = Some x" using assms(2) by (simp add: pq_peek_def)
  show n: "1 \<le> pq_size q"
  proof (rule ccontr)
    assume "\<not> 1 \<le> pq_size q"
    then show False using pq_invD(1) [OF assms(1)] p by (auto simp: filled_def)
  qed
  show x: "at (pq_heap q) 1 = x" using slot_filled [OF pq_invD(1) [OF assms(1)] _ n] p by simp
  show "x \<in> set (pq_items q)" using n x by (auto simp: pq_items_def set_items)
qed

lemma pushBack_spec:
  assumes q: "pq_inv compareTimersLists q" "ids_below n q" and x: "pq_peek q = Some x" "tl_expiry x \<le> now"
  shows "\<exists>q'. pushBack n now idleStart x q = Some (Inr q') \<and> pq_inv compareTimersLists q' \<and>
    add_mset x (mset (pq_items q')) = add_mset (pushedBack n now idleStart x) (mset (pq_items q))"
proof -
  let ?y = "pushedBack n now idleStart x"
  note r = peek_root [OF q(1) x(1)]
  have "compareTimersLists x ?y \<le> 0" using x(2) by (auto simp: compareTimersLists_def Let_def pushedBack_def)
  moreover have "?y \<notin> set (remove1 x (pq_items q))"
    using ids_below_new [OF q(2), of ?y] by (auto simp: pushedBack_def dest: notin_set_remove1)
  ultimately show ?thesis
    using timers.reschedule_spec [OF q(1) _ r(1), of ?y] r(2) by (simp add: pushBack_def)
qed

lemma timer_queue_inv: "timer_queue q n \<Longrightarrow> pq_inv compareTimersLists q \<and> ids_below n q"
proof (induction rule: timer_queue.induct)
  case new_queue
  show ?case by (simp add: ids_below_def)
next
  case (inserted q n e m q')
  then have i: "pq_inv compareTimersLists q" "ids_below n q" by blast+
  have "newTimersList n e m \<notin> set (pq_items q)" by (rule ids_below_new [OF i(2)]) (simp add: newTimersList_def)
  from timers.insert_spec [OF i(1) this] inserted.hyps(2) have
    r: "pq_inv compareTimersLists q'" "mset (pq_items q') = add_mset (newTimersList n e m) (mset (pq_items q))" by auto
  have "set (pq_items q') = insert (newTimersList n e m) (set (pq_items q))"
    using arg_cong [OF r(2), of set_mset] by simp
  then show ?case using r(1) i(2) by (auto simp: ids_below_def newTimersList_def)
next
  case (shifted q n r q')
  then have i: "pq_inv compareTimersLists q" "ids_below n q" by blast+
  show ?case
  proof (cases "pq_items q = []")
    case True
    then show ?thesis using timers.shift_empty [OF i(1)] shifted.hyps(2) i by auto
  next
    case False
    from timers.shift_spec [OF i(1) this] shifted.hyps(2) obtain m where
      "pq_inv compareTimersLists q'" "add_mset m (mset (pq_items q')) = mset (pq_items q)" by auto
    then show ?thesis using ids_below_mset [OF _ i(2), of q'] by (metis mset_subset_eq_add_right add_mset_add_single subset_mset.order_refl union_commute mset_subset_eq_add_left)
  qed
next
  case (removed_list q n x p q')
  then have i: "pq_inv compareTimersLists q" "ids_below n q" by blast+
  from position_of [OF i(1) removed_list.hyps(2)] obtain p' where
    p: "pq_positions q x = Some p'" "1 \<le> p'" "p' \<le> pq_size q" .
  from timers.remove_spec [OF i(1) p(2,3)] removed_list.hyps(3,4) p(1) have
    "pq_inv compareTimersLists q'" "add_mset (at (pq_heap q) p') (mset (pq_items q')) = mset (pq_items q)" by auto
  then show ?case using ids_below_mset [OF _ i(2), of q'] by (metis mset_subset_eq_add_left add_mset_add_single)
next
  case (pushed_back q n x now idleStart q')
  then have i: "pq_inv compareTimersLists q" "ids_below n q" by blast+
  from pushBack_spec [OF i pushed_back.hyps(2,3), of idleStart] pushed_back.hyps(4) have
    r: "pq_inv compareTimersLists q'"
      "add_mset x (mset (pq_items q')) = add_mset (pushedBack n now idleStart x) (mset (pq_items q))" by auto
  have "set (pq_items q') \<subseteq> insert (pushedBack n now idleStart x) (set (pq_items q))"
    using arg_cong [OF r(2), of set_mset] by auto
  then show ?case using r(1) i(2) by (fastforce simp: ids_below_def pushedBack_def)
qed

text \<open>Taking lists off until the queue is empty.\<close>

fun drain :: "('a \<Rightarrow> 'a \<Rightarrow> int) \<Rightarrow> nat \<Rightarrow> 'a pq \<Rightarrow> 'a list option" where
  "drain cmp 0 q = Some []"
| "drain cmp (Suc k) q =
     (case pq_shift cmp q of
        Some (Inr (Some m, q')) \<Rightarrow> map_option ((#) m) (drain cmp k q')
      | _ \<Rightarrow> None)"

lemma timers_insert_all:
  assumes "pq_inv compareTimersLists q" "distinct ts" "set ts \<inter> set (pq_items q) = {}"
  shows "\<exists>q'. res_fold (pq_insert compareTimersLists) ts q = Inr q' \<and> pq_inv compareTimersLists q' \<and>
              mset (pq_items q') = mset ts + mset (pq_items q)"
  using assms
proof (induction ts arbitrary: q)
  case (Cons t ts)
  then obtain q1 where q1: "pq_insert compareTimersLists t q = Inr q1" "pq_inv compareTimersLists q1"
      "mset (pq_items q1) = add_mset t (mset (pq_items q))"
    using timers.insert_spec [of q t] by auto
  moreover have "set ts \<inter> set (pq_items q1) = {}"
    using Cons.prems q1(3) by (metis (no_types, lifting) Int_insert_right distinct.simps(2) list.set(2)
        set_mset_add_mset_insert set_mset_mset disjoint_insert(2) insert_disjoint(1))
  ultimately show ?case using Cons.IH [of q1] Cons.prems(2) by auto
qed auto

lemma timers_drain:
  assumes "pq_inv compareTimersLists q" "length (pq_items q) = k"
  shows "\<exists>rs. drain compareTimersLists k q = Some rs \<and> mset rs = mset (pq_items q) \<and>
              sorted_wrt (\<lambda>a b. compareTimersLists a b \<le> 0) rs"
  using assms
proof (induction k arbitrary: q)
  case (Suc k)
  then have ne: "pq_items q \<noteq> []" by auto
  obtain m q' where q': "pq_shift compareTimersLists q = Some (Inr (Some m, q'))"
      "pq_inv compareTimersLists q'" "add_mset m (mset (pq_items q')) = mset (pq_items q)"
      "\<forall>x\<in>set (pq_items q). compareTimersLists m x \<le> 0"
    using timers.shift_spec [OF Suc.prems(1) ne] by blast
  have "length (pq_items q') = k" using arg_cong [OF q'(3), of size] Suc.prems(2) by simp
  then obtain rs where rs: "drain compareTimersLists k q' = Some rs" "mset rs = mset (pq_items q')"
      "sorted_wrt (\<lambda>a b. compareTimersLists a b \<le> 0) rs"
    using Suc.IH q'(2) by blast
  have "set rs \<subseteq> set (pq_items q)"
    using q'(3) rs(2) by (metis set_mset_mset set_mset_add_mset_insert subset_insertI)
  then show ?case using q' rs by auto
qed auto

section \<open>Properties\<close>

text \<open>
  C8: Timer lists come out of the queue in the order of their deadlines, ties by creation: when
  distinct lists are inserted one after another no insertion throws, and shifting them off again
  yields all of them, each once, sorted by expiry and then by identifier.
\<close>

theorem timer_queue_sorts:
  assumes "distinct ts"
  shows "\<exists>q rs. res_fold (pq_insert compareTimersLists) ts newPriorityQueue = Inr q \<and>
                drain compareTimersLists (length ts) q = Some rs \<and> mset rs = mset ts \<and>
                sorted_wrt (\<lambda>a b. compareTimersLists a b \<le> 0) rs"
proof -
  obtain q where q: "res_fold (pq_insert compareTimersLists) ts newPriorityQueue = Inr q"
      "pq_inv compareTimersLists q" "mset (pq_items q) = mset ts"
    using timers_insert_all [OF pq_inv_new(1) assms] by auto
  then show ?thesis using timers_drain [OF q(2), of "length ts"] mset_eq_length [OF q(3)] by auto
qed

theorem timer_queue_sorts_witness:
  "\<exists>q rs. res_fold (pq_insert compareTimersLists)
      [\<lparr>tl_expiry = 40, tl_id = 1, tl_msecs = 10\<rparr>, \<lparr>tl_expiry = 15, tl_id = 2, tl_msecs = 5\<rparr>,
       \<lparr>tl_expiry = 40, tl_id = 0, tl_msecs = 7\<rparr>] newPriorityQueue = Inr q \<and>
     drain compareTimersLists 3 q = Some rs \<and> length rs = 3 \<and>
     sorted_wrt (\<lambda>a b. compareTimersLists a b \<le> 0) rs"
proof -
  let ?ts = "[\<lparr>tl_expiry = 40, tl_id = 1, tl_msecs = 10\<rparr>, \<lparr>tl_expiry = 15, tl_id = 2, tl_msecs = 5\<rparr>,
       \<lparr>tl_expiry = 40, tl_id = 0, tl_msecs = 7\<rparr>]"
  have "distinct ?ts" by simp
  from timer_queue_sorts [OF this] obtain q rs where
    *: "res_fold (pq_insert compareTimersLists) ?ts newPriorityQueue = Inr q"
      "drain compareTimersLists (length ?ts) q = Some rs" "mset rs = mset ?ts"
      "sorted_wrt (\<lambda>a b. compareTimersLists a b \<le> 0) rs"
    by blast
  have "length rs = 3" using mset_eq_length [OF *(3)] by simp
  with * show ?thesis by (intro exI [of _ q] exI [of _ rs]) (simp add: numeral_3_eq_3)
qed

text \<open>
  C9: In every queue the timers can reach, each list in it is at the slot it remembers, the list at
  the root is due no later than any other, removing a list at its remembered slot succeeds, takes out exactly
  that list and leaves such a queue again, and a list at the root that is due can be pushed back: that
  succeeds, changes only its expiry and identifier, and leaves such a queue.
\<close>

theorem timer_queue_positions:
  assumes "timer_queue q n" and "x \<in> set (pq_items q)"
  shows "\<exists>p q'. pq_positions q x = Some p \<and> slot (pq_heap q) p = Some x \<and>
                pq_removeAt compareTimersLists p q = Some (Inr q') \<and> timer_queue q' n \<and>
                add_mset x (mset (pq_items q')) = mset (pq_items q) \<and>
                (\<exists>m. pq_peek q = Some m \<and> compareTimersLists m x \<le> 0 \<and>
                  (\<forall>now idleStart. tl_expiry m \<le> now \<longrightarrow>
                    (\<exists>q''. pushBack n now idleStart m q = Some (Inr q'') \<and> timer_queue q'' (n + 1) \<and>
                      add_mset m (mset (pq_items q'')) = add_mset (pushedBack n now idleStart m) (mset (pq_items q)))))"
proof -
  have inv: "pq_inv compareTimersLists q" and ids: "ids_below n q" using timer_queue_inv [OF assms(1)] by blast+
  obtain p where p: "pq_positions q x = Some p" "1 \<le> p" "p \<le> pq_size q" "slot (pq_heap q) p = Some x"
      "at (pq_heap q) p = x"
    using position_of [OF inv assms(2)] .
  define m where "m = at (pq_heap q) 1"
  have m: "pq_peek q = Some m"
    using slot_filled [OF pq_invD(1) [OF inv]] p by (simp add: pq_peek_def m_def)
  have "compareTimersLists m x \<le> 0"
    using timers.heap_root [OF pq_invD(2) [OF inv] p(2,3)] p(5) by (simp add: m_def)
  moreover have "\<exists>q''. pushBack n now idleStart m q = Some (Inr q'') \<and> timer_queue q'' (n + 1) \<and>
      add_mset m (mset (pq_items q'')) = add_mset (pushedBack n now idleStart m) (mset (pq_items q))"
    if "tl_expiry m \<le> now" for now idleStart
    using pushBack_spec [OF inv ids m that] timer_queue.pushed_back [OF assms(1) m that] by blast
  moreover obtain q' where "pq_removeAt compareTimersLists p q = Some (Inr q')"
      "add_mset x (mset (pq_items q')) = mset (pq_items q)"
    using timers.remove_spec [OF inv p(2,3)] p(5) by auto
  ultimately show ?thesis using p m timer_queue.removed_list [OF assms p(1)] by blast
qed

text \<open>Two lists; the first is pushed back behind the second.\<close>

theorem timer_queue_positions_witness:
  "\<exists>q q' q''. pq_insert compareTimersLists (newTimersList (- MAX_SAFE_INTEGER) 7 5) newPriorityQueue = Inr q \<and>
     pq_peek q = Some (newTimersList (- MAX_SAFE_INTEGER) 7 5) \<and>
     pq_removeAt compareTimersLists 1 q = Some (Inr q') \<and> pq_items q' = [] \<and>
     pushBack (- MAX_SAFE_INTEGER + 1) 9 6 (newTimersList (- MAX_SAFE_INTEGER) 7 5) q = Some (Inr q'') \<and>
     pq_items q'' = [newTimersList (- MAX_SAFE_INTEGER + 1) 11 5]"
proof -
  let ?n = "- MAX_SAFE_INTEGER"
  let ?x = "newTimersList ?n 7 5"
  obtain q where q: "pq_insert compareTimersLists ?x newPriorityQueue = Inr q" "pq_inv compareTimersLists q"
      "mset (pq_items q) = {#?x#}"
    using timers.insert_spec [OF pq_inv_new(1), of ?x] by auto
  have r: "timer_queue q (?n + 1)" by (rule timer_queue.inserted [OF timer_queue.new_queue q(1)])
  have i: "pq_items q = [?x]" using q(3) by simp
  then have "?x \<in> set (pq_items q)" by simp
  from timer_queue_positions [OF r this] obtain p q' m where
    t: "pq_positions q ?x = Some p" "slot (pq_heap q) p = Some ?x" "pq_removeAt compareTimersLists p q = Some (Inr q')"
      "add_mset ?x (mset (pq_items q')) = mset (pq_items q)" "pq_peek q = Some m"
      "\<forall>now idleStart. tl_expiry m \<le> now \<longrightarrow>
        (\<exists>q''. pushBack (?n + 1) now idleStart m q = Some (Inr q'') \<and> timer_queue q'' (?n + 1 + 1) \<and>
          add_mset m (mset (pq_items q'')) = add_mset (pushedBack (?n + 1) now idleStart m) (mset (pq_items q)))"
    by blast
  from position_of [OF q(2) \<open>?x \<in> set (pq_items q)\<close>] obtain p' where
    p': "pq_positions q ?x = Some p'" "1 \<le> p'" "p' \<le> pq_size q" .
  have "pq_size q = 1" using i by (metis length_items length_Cons list.size(3) pq_items_def One_nat_def)
  then have p: "p = 1" using p' t(1) by simp
  have m: "m = ?x" using peek_root(3) [OF q(2) t(5)] i by simp
  have "tl_expiry m \<le> 9" by (simp add: m newTimersList_def)
  with t(6) obtain q'' where
    q'': "pushBack (?n + 1) 9 6 m q = Some (Inr q'')"
      "add_mset m (mset (pq_items q'')) = add_mset (pushedBack (?n + 1) 9 6 m) (mset (pq_items q))"
    by blast
  have "mset (pq_items q'') = {#newTimersList (?n + 1) 11 5#}"
    using q''(2) by (simp add: m i newTimersList_def pushedBack_def)
  then show ?thesis using q(1) t p m q''(1) i by auto
qed

text \<open>
  C10: The percolation loops return for every comparison function, even an inconsistent one, and for
  every content of the heap: descending from a slot of the heap, removing at one and shifting always
  produce a result, so an arbitrary comparison cannot make the timers hang.
\<close>

theorem percolation_terminates:
  assumes "1 \<le> position"
  shows "(\<exists>r. percolateDown cmp n position s = Some r) \<and> (\<exists>r. pq_removeAt cmp position q = Some r) \<and>
         (\<exists>r. pq_shift cmp q = Some r)"
proof -
  have loop: "\<exists>r. percolateDownLoop cmp n x p s = Some r" if "1 \<le> p" for p x n and s :: "'a heap_state"
    using that
  proof (induction "n - p" arbitrary: p s rule: less_induct)
    case less
    have "p < c \<and> p < n" if "smallerChild cmp n p (fst s) = Inr (c, y)" "p \<le> n div 2" for c y
      using that less.prems by (auto simp: smallerChild_def res_bind_Inr_iff split: if_splits)
    then have "\<exists>r. percolateDownLoop cmp n x c t = Some r"
      if "smallerChild cmp n p (fst s) = Inr (c, y)" "p \<le> n div 2" for c y t
      using that less.hyps [of c t] less.prems by (metis diff_less_mono2 le_trans less_imp_le_nat)
    then show ?case
      by (subst percolateDownLoop.simps) (auto split: sum.splits prod.splits)
  qed
  have down: "\<exists>r. percolateDown cmp n p s = Some r" if "1 \<le> p" for p n and s :: "'a heap_state"
    using loop [OF that] by (simp add: percolateDown_def split: sum.splits)
  have remove: "\<exists>r. pq_removeAt cmp p q = Some r" if "1 \<le> p" for p q
    using down [OF that] by (auto simp: pq_removeAt_def Let_def split: sum.splits)
  have "\<exists>r. pq_shift cmp q = Some r" using remove [of 1] by (auto simp: pq_shift_def split: option.split)
  with down [OF assms] remove [OF assms] show ?thesis by blast
qed

theorem percolation_terminates_witness:
  "\<exists>r. percolateDown (\<lambda>a b. 1) 3 1 ([None, Some (5 :: int), Some 6, Some 7], Map.empty) = Some r"
  using percolation_terminates [of 1 "\<lambda>a b. 1" 3 "([None, Some (5 :: int), Some 6, Some 7], Map.empty)"]
  by simp

end
