(* ===== verification/Http2_Connection.thy ===== *)
theory Http2_Connection
  imports Http2_Wire Http2_Headers
begin

text \<open>
  The HTTP/2 client connection, \<^verbatim>\<open>runtime/web-platform/src/http2/connection.ts\<close>: the classes
  \<^verbatim>\<open>Http2ClientStream\<close> and \<^verbatim>\<open>Http2ClientConnection\<close> as an explicit state and one function per
  method. The objects a stream map entry and the application share are kept in a store
  (\<open>cn_objects\<close>), so that a stream that left the map can still be pulled, failed or cancelled.

  The asynchronous methods are cut at every \<^verbatim>\<open>await\<close>; what follows the \<^verbatim>\<open>await\<close> is an event of its
  own, and the place where the method waits is part of the state: a queued write carries the tag of
  its continuation (\<open>write_tag\<close>), a request that waits for the initial SETTINGS or for a stream slot is
  in \<open>cn_readyWaiters\<close>, \<open>cn_slotWaiters\<close> or \<open>cn_granted\<close>, a body upload and a body pull are in
  \<open>st_upload\<close> and \<open>st_pull\<close>. The transport is the environment: a write event says whether the bytes
  were written, a frame event delivers what the reader produced. Abort signals are numbers. Callbacks
  of the application (\<^verbatim>\<open>onInformational\<close>, cancel algorithms of its streams) do not call the
  connection back synchronously.
\<close>

section \<open>Options\<close>

record h2_options =
  op_headerTableSize :: int
  op_initialStreamWindowSize :: int
  op_connectionWindowSize :: int
  op_maximumFrameSize :: int
  op_maximumHeaderListBytes :: int
  op_maximumHeaderStringBytes :: int
  op_maximumCompressedHeaderBlockBytes :: int
  op_maximumHeaderBlockFragments :: int
  op_maximumConcurrentStreams :: int
  op_maximumPendingRequests :: int
  op_enableConnectProtocol :: bool

text \<open>The options as the caller gives them: \<open>None\<close> is an absent property.\<close>

record h2_connection_options =
  co_headerTableSize :: "int option"
  co_initialStreamWindowSize :: "int option"
  co_connectionWindowSize :: "int option"
  co_maximumFrameSize :: "int option"
  co_maximumHeaderListBytes :: "int option"
  co_maximumHeaderStringBytes :: "int option"
  co_maximumCompressedHeaderBlockBytes :: "int option"
  co_maximumHeaderBlockFragments :: "int option"
  co_maximumConcurrentStreams :: "int option"
  co_maximumPendingRequests :: "int option"
  co_enableConnectProtocol :: "bool option"

definition noOptions :: h2_connection_options where
  "noOptions = \<lparr>co_headerTableSize = None, co_initialStreamWindowSize = None, co_connectionWindowSize = None,
     co_maximumFrameSize = None, co_maximumHeaderListBytes = None, co_maximumHeaderStringBytes = None,
     co_maximumCompressedHeaderBlockBytes = None, co_maximumHeaderBlockFragments = None,
     co_maximumConcurrentStreams = None, co_maximumPendingRequests = None, co_enableConnectProtocol = None\<rparr>"

definition requireInteger :: "int \<Rightarrow> int \<Rightarrow> int \<Rightarrow> unit result" where
  "requireInteger v minimum maximum = res_guard (\<not> (v < minimum \<or> v > maximum)) RangeError"

definition normalizeOptions :: "h2_connection_options \<Rightarrow> h2_options result" where
  "normalizeOptions options =
     (let n = \<lparr>op_headerTableSize = js_or_else (co_headerTableSize options) 4096,
               op_initialStreamWindowSize = js_or_else (co_initialStreamWindowSize options) DEFAULT_WINDOW_SIZE,
               op_connectionWindowSize = js_or_else (co_connectionWindowSize options) (1024 * 1024),
               op_maximumFrameSize = js_or_else (co_maximumFrameSize options) DEFAULT_FRAME_SIZE,
               op_maximumHeaderListBytes = js_or_else (co_maximumHeaderListBytes options) (64 * 1024),
               op_maximumHeaderStringBytes = js_or_else (co_maximumHeaderStringBytes options) (64 * 1024),
               op_maximumCompressedHeaderBlockBytes =
                 js_or_else (co_maximumCompressedHeaderBlockBytes options) (64 * 1024),
               op_maximumHeaderBlockFragments = js_or_else (co_maximumHeaderBlockFragments options) 1024,
               op_maximumConcurrentStreams = js_or_else (co_maximumConcurrentStreams options) 100,
               op_maximumPendingRequests = js_or_else (co_maximumPendingRequests options) 1024,
               op_enableConnectProtocol = js_or_else (co_enableConnectProtocol options) True\<rparr>
      in res_bind (requireInteger (op_headerTableSize n) 0 0xffffffff) (\<lambda>_.
         res_bind (requireInteger (op_initialStreamWindowSize n) 0 MAX_WINDOW_SIZE) (\<lambda>_.
         res_bind (requireInteger (op_connectionWindowSize n) DEFAULT_WINDOW_SIZE MAX_WINDOW_SIZE) (\<lambda>_.
         res_bind (requireInteger (op_maximumFrameSize n) DEFAULT_FRAME_SIZE MAX_FRAME_SIZE) (\<lambda>_.
         res_bind (requireInteger (op_maximumHeaderListBytes n) 0 0xffffffff) (\<lambda>_.
         res_bind (requireInteger (op_maximumHeaderStringBytes n) 0 MAX_WINDOW_SIZE) (\<lambda>_.
         res_bind (requireInteger (op_maximumCompressedHeaderBlockBytes n) 0 MAX_WINDOW_SIZE) (\<lambda>_.
         res_bind (requireInteger (op_maximumHeaderBlockFragments n) 1 MAX_WINDOW_SIZE) (\<lambda>_.
         res_bind (requireInteger (op_maximumConcurrentStreams n) 0 0xffffffff) (\<lambda>_.
         res_bind (requireInteger (op_maximumPendingRequests n) 0 MAX_WINDOW_SIZE) (\<lambda>_.
         Inr n)))))))))))"

section \<open>State\<close>

text \<open>A promise made with \<^verbatim>\<open>Promise.withResolvers\<close>: only the first settlement counts.\<close>

datatype 'a promise = Pending | Resolved 'a | Rejected js_error

fun promise_resolve :: "'a \<Rightarrow> 'a promise \<Rightarrow> 'a promise" where
  "promise_resolve v Pending = Resolved v"
| "promise_resolve v p = p"

fun promise_reject :: "js_error \<Rightarrow> 'a promise \<Rightarrow> 'a promise" where
  "promise_reject e Pending = Rejected e"
| "promise_reject e p = p"

datatype incoming_item = IncomingData bytes int | IncomingEnd | IncomingError js_error

text \<open>
  The pull of a response body: none is running, it waits for an item (\<^verbatim>\<open>incomingWaiter\<close>), or an item
  is on its way to it.
\<close>

datatype pull_state = NoPull | PullWaiting | PullReady incoming_item

text \<open>
  The upload of a request body: none, waiting for the application's reader, waiting for flow control
  with a chunk and an offset (and whether the signal it waits for was given), waiting for a DATA frame
  to be written, waiting for the final empty frame to be written.
\<close>

datatype upload_state =
    NoUpload
  | UploadReading
  | UploadFlow bytes nat bool
  | UploadWriting bytes nat
  | UploadEnding

text \<open>The state of the \<^verbatim>\<open>ReadableStream\<close> that is the response body.\<close>

datatype body_state = BodyReadable | BodyClosed | BodyErrored js_error

record h2_stream =
  st_id :: int
  st_sendWindow :: int
  st_receiveWindow :: int
  st_localEnded :: bool
  st_remoteEnded :: bool
  st_responseDelivered :: bool
  st_responseStatus :: int
  st_expectedContentLength :: "int option"
  st_receivedBodyBytes :: int
  st_bodyForbidden :: bool
  st_response :: "http2_response_headers promise"
  st_trailers :: "decoded_header list promise"
  st_onInformational :: "(http2_response_headers \<Rightarrow> bool) option"
  st_incoming :: "incoming_item list"
  st_incomingOffset :: nat
  st_pull :: pull_state
  st_appTerminal :: bool
  st_failed :: bool
  st_trailersSettled :: bool
  st_uploadReader :: bool
  st_abortAttached :: bool
  st_expectedSendLength :: "int option"
  st_sentBodyBytes :: int
  st_upload :: upload_state
  st_body :: body_state
  st_signal :: int

text \<open>A request: \<open>rq_signal\<close> identifies its abort signal, \<open>rq_body\<close> says whether it has a body.\<close>

record h2_request =
  rq_headers :: "hpack_field list"
  rq_body :: bool
  rq_signal :: int
  rq_onInformational :: "(http2_response_headers \<Rightarrow> bool) option"

record slot_waiter =
  sw_request :: h2_request
  sw_active :: bool

text \<open>What runs after the promise of a queued write is settled.\<close>

datatype write_tag =
    Detached
  | PrefaceSent
  | HeadersSent int bool
  | BodySent int
  | BodyEndSent int
  | SettingsAckSent
  | PingAckSent
  | DrainGoAwaySent
  | FinalGoAwaySent

text \<open>
  The connection: first what stands for its environment and for the methods that wait, then the
  fields of the class, those about the peer apart.
\<close>

record h2_environment =
  cn_transportClosed :: bool
  cn_wire :: "bytes list"
  cn_settled :: "(write_tag \<times> js_error option) list"
  cn_readyWaiters :: "(h2_request \<times> bool) list"
  cn_granted :: "h2_request list"
  cn_aborted :: "int list"
  cn_refused :: "(int \<times> js_error) list"
  cn_reading :: bool

record h2_peer = h2_environment +
  cn_remoteMaximumConcurrentStreams :: int
  cn_remoteInitialWindowSize :: int
  cn_remoteMaximumFrameSize :: int
  cn_remoteMaximumHeaderListSize :: int
  cn_remoteExtendedConnect :: bool
  cn_remoteLastStreamId :: int
  cn_remoteGoAwayReceived :: bool
  cn_receivedSettings :: bool
  cn_settingsAcknowledged :: bool

record h2_phase = h2_peer +
  cn_ready :: "unit promise"
  cn_closed :: "unit promise"
  cn_started :: bool
  cn_draining :: bool
  cn_terminating :: bool
  cn_terminated :: bool
  cn_localGoAwaySent :: bool

record h2_io = h2_phase +
  cn_options :: h2_options
  cn_decoder :: hpack_decoder
  cn_encoder :: hpack_encoder
  cn_blocks :: block_assembler
  cn_writes :: "(bytes \<times> write_tag) list"
  cn_writeOffset :: nat
  cn_writing :: bool

record h2_conn = h2_io +
  cn_objects :: "(int \<times> h2_stream) list"
  cn_streams :: "int list"
  cn_slotWaiters :: "slot_waiter list"
  cn_slotOffset :: nat
  cn_reservedSlots :: int
  cn_nextStreamId :: int
  cn_highestOpenedStreamId :: int
  cn_connectionSendWindow :: int
  cn_connectionReceiveWindow :: int


section \<open>Streams\<close>

text \<open>Reading an object of the store and writing it back.\<close>

definition stream_of :: "h2_conn \<Rightarrow> int \<Rightarrow> h2_stream option" where
  "stream_of c sid = map_of (cn_objects c) sid"

definition upd_stream :: "int \<Rightarrow> (h2_stream \<Rightarrow> h2_stream) \<Rightarrow> h2_conn \<Rightarrow> h2_conn" where
  "upd_stream sid f c = c\<lparr>cn_objects := map (\<lambda>(k, s). (k, if k = sid then f s else s)) (cn_objects c)\<rparr>"

definition with_stream :: "int \<Rightarrow> h2_conn \<Rightarrow> (h2_stream \<Rightarrow> h2_conn) \<Rightarrow> h2_conn" where
  "with_stream sid c k = (case stream_of c sid of None \<Rightarrow> c | Some s \<Rightarrow> k s)"

definition newHttp2ClientStream ::
    "int \<Rightarrow> int \<Rightarrow> int \<Rightarrow> jsstring \<Rightarrow> bool \<Rightarrow> int option \<Rightarrow> (http2_response_headers \<Rightarrow> bool) option \<Rightarrow> int \<Rightarrow> h2_stream" where
  "newHttp2ClientStream sid initialSendWindow initialReceiveWindow method hasBody expectedSendLength onInformational signal =
     \<lparr>st_id = sid, st_sendWindow = initialSendWindow, st_receiveWindow = initialReceiveWindow,
      st_localEnded = (\<not> hasBody), st_remoteEnded = False, st_responseDelivered = False, st_responseStatus = 0,
      st_expectedContentLength = None, st_receivedBodyBytes = 0,
      st_bodyForbidden = (method = js_string ''HEAD''), st_response = Pending, st_trailers = Pending,
      st_onInformational = onInformational, st_incoming = [], st_incomingOffset = 0, st_pull = NoPull,
      st_appTerminal = False, st_failed = False, st_trailersSettled = False, st_uploadReader = False,
      st_abortAttached = False, st_expectedSendLength = expectedSendLength, st_sentBodyBytes = 0,
      st_upload = NoUpload, st_body = BodyReadable, st_signal = signal\<rparr>"

definition acceptSendBytes :: "int \<Rightarrow> h2_stream \<Rightarrow> unit result \<times> h2_stream" where
  "acceptSendBytes len s =
     (let n = st_sentBodyBytes s + len
      in ((if \<not> js_isSafeInteger n \<or> (\<exists>m\<in>set_option (st_expectedSendLength s). n > m)
           then Inl ProtocolError else Inr ()), s\<lparr>st_sentBodyBytes := n\<rparr>))"

definition verifySendComplete :: "h2_stream \<Rightarrow> unit result" where
  "verifySendComplete s =
     (if (\<exists>m\<in>set_option (st_expectedSendLength s). st_sentBodyBytes s \<noteq> m) then Inl ProtocolError else Inr ())"

definition finishApplication :: "h2_stream \<Rightarrow> h2_stream" where
  "finishApplication s =
     (if st_appTerminal s then s
      else s\<lparr>st_appTerminal := True, st_abortAttached := False, st_uploadReader := False\<rparr>)"

definition settleTrailers :: "decoded_header list \<Rightarrow> h2_stream \<Rightarrow> h2_stream" where
  "settleTrailers fieldList s =
     (if st_trailersSettled s then s
      else s\<lparr>st_trailersSettled := True, st_trailers := promise_resolve fieldList (st_trailers s)\<rparr>)"

definition pushIncoming :: "incoming_item \<Rightarrow> h2_stream \<Rightarrow> h2_stream" where
  "pushIncoming item s =
     (if st_pull s = PullWaiting then s\<lparr>st_pull := PullReady item\<rparr>
      else s\<lparr>st_incoming := st_incoming s @ [item]\<rparr>)"

definition nextIncoming :: "h2_stream \<Rightarrow> h2_stream" where
  "nextIncoming s =
     (case js_at (st_incoming s) (int (st_incomingOffset s)) of
        Some item \<Rightarrow>
          (let offset = st_incomingOffset s + 1
           in if offset > 32 \<and> offset * 2 \<ge> length (st_incoming s)
              then s\<lparr>st_pull := PullReady item, st_incoming := drop offset (st_incoming s), st_incomingOffset := 0\<rparr>
              else s\<lparr>st_pull := PullReady item, st_incomingOffset := offset\<rparr>)
      | None \<Rightarrow> s\<lparr>st_pull := PullWaiting\<rparr>)"

fun flow_bytes :: "incoming_item \<Rightarrow> int" where
  "flow_bytes (IncomingData bs n) = n"
| "flow_bytes IncomingEnd = 0"
| "flow_bytes (IncomingError e) = 0"

definition discardIncoming :: "h2_stream \<Rightarrow> int \<times> h2_stream" where
  "discardIncoming s =
     (fold (\<lambda>item returned. returned + flow_bytes item) (drop (st_incomingOffset s) (st_incoming s)) 0,
      s\<lparr>st_incoming := [], st_incomingOffset := 0\<rparr>)"

section \<open>Writing\<close>

text \<open>
  \<^verbatim>\<open>drainWrites\<close> is cut at its \<^verbatim>\<open>await\<close>: \<open>drainNext\<close> is the head of its loop, which starts the next
  write or ends the loop; the item being written is the one before \<open>cn_writeOffset\<close>.
\<close>

definition drainNext :: "h2_conn \<Rightarrow> h2_conn" where
  "drainNext c =
     (if cn_writeOffset c < length (cn_writes c) then c\<lparr>cn_writeOffset := cn_writeOffset c + 1\<rparr>
      else c\<lparr>cn_writes := [], cn_writeOffset := 0, cn_writing := False\<rparr>)"

definition settle :: "write_tag \<Rightarrow> js_error option \<Rightarrow> h2_conn \<Rightarrow> h2_conn" where
  "settle tag r c = c\<lparr>cn_settled := cn_settled c @ [(tag, r)]\<rparr>"

definition enqueueBytes :: "bytes \<Rightarrow> write_tag \<Rightarrow> h2_conn \<Rightarrow> h2_conn" where
  "enqueueBytes bs tag c =
     (if cn_terminated c then settle tag (Some TypeError) c
      else let c' = c\<lparr>cn_writes := cn_writes c @ [(bs, tag)]\<rparr>
           in if cn_writing c' then c' else drainNext (c'\<lparr>cn_writing := True\<rparr>))"

definition sendFrame :: "http2_frame \<Rightarrow> write_tag \<Rightarrow> h2_conn \<Rightarrow> h2_conn" where
  "sendFrame f tag c =
     (case encodeHttp2Frame f (cn_remoteMaximumFrameSize c) of
        Inl e \<Rightarrow> settle tag (Some e) c
      | Inr bs \<Rightarrow> enqueueBytes bs tag c)"

definition sendFrames :: "http2_frame list \<Rightarrow> write_tag \<Rightarrow> h2_conn \<Rightarrow> h2_conn" where
  "sendFrames frames tag c =
     (case framesBytes frames (cn_remoteMaximumFrameSize c) of
        Inl e \<Rightarrow> settle tag (Some e) c
      | Inr bs \<Rightarrow> enqueueBytes bs tag c)"

definition sendHeaderBlock :: "int \<Rightarrow> bytes \<Rightarrow> bool \<Rightarrow> write_tag \<Rightarrow> h2_conn \<Rightarrow> h2_conn" where
  "sendHeaderBlock sid block endStream tag c =
     (case headerBlockFrames (nat (cn_remoteMaximumFrameSize c)) sid block endStream of
        None \<Rightarrow> c
      | Some frames \<Rightarrow> sendFrames frames tag c)"

text \<open>
  The payload of an internally made frame: the encoders throw on numbers out of range, and the
  numbers here are error codes of the protocol and credits of at most \<open>2 ^ 31 - 1\<close>.
\<close>

definition payload_of :: "bytes result \<Rightarrow> bytes" where
  "payload_of r = (case r of Inl e \<Rightarrow> [] | Inr bs \<Rightarrow> bs)"

definition rstFrame :: "int \<Rightarrow> int \<Rightarrow> http2_frame" where
  "rstFrame sid errorCode =
     \<lparr>fr_type = FRAME_RST_STREAM, fr_flags = 0, fr_streamId = sid, fr_payload = payload_of (encodeHttp2ErrorCode errorCode)\<rparr>"

definition windowUpdateFrame :: "int \<Rightarrow> int \<Rightarrow> http2_frame" where
  "windowUpdateFrame sid amount =
     \<lparr>fr_type = FRAME_WINDOW_UPDATE, fr_flags = 0, fr_streamId = sid, fr_payload = payload_of (encodeHttp2WindowUpdate amount)\<rparr>"

definition goAwayFrame :: "int \<Rightarrow> http2_frame" where
  "goAwayFrame errorCode =
     \<lparr>fr_type = FRAME_GOAWAY, fr_flags = 0, fr_streamId = 0, fr_payload = payload_of (encodeHttp2GoAway 0 errorCode [])\<rparr>"

definition sendClosedStreamReset :: "int \<Rightarrow> h2_conn \<Rightarrow> h2_conn" where
  "sendClosedStreamReset sid c = sendFrame (rstFrame sid STREAM_CLOSED) Detached c"

section \<open>Slots, termination, credit\<close>

definition notifyFlowChange :: "h2_conn \<Rightarrow> h2_conn" where
  "notifyFlowChange c =
     c\<lparr>cn_objects := map (\<lambda>(k, s). (k, case st_upload s of
          UploadFlow chunk offset woken \<Rightarrow> s\<lparr>st_upload := UploadFlow chunk offset True\<rparr>
        | _ \<Rightarrow> s)) (cn_objects c)\<rparr>"

definition refuse :: "h2_request \<Rightarrow> js_error \<Rightarrow> h2_conn \<Rightarrow> h2_conn" where
  "refuse r e c = c\<lparr>cn_refused := cn_refused c @ [(rq_signal r, e)]\<rparr>"

definition failSlotWaiters :: "js_error \<Rightarrow> h2_conn \<Rightarrow> h2_conn" where
  "failSlotWaiters reason c =
     (fold (\<lambda>w c. if sw_active w then refuse (sw_request w) reason c else c)
        (drop (cn_slotOffset c) (cn_slotWaiters c)) c)\<lparr>cn_slotWaiters := [], cn_slotOffset := 0\<rparr>"

definition slotFree :: "h2_conn \<Rightarrow> bool" where
  "slotFree c \<longleftrightarrow> int (length (cn_streams c)) + cn_reservedSlots c < cn_remoteMaximumConcurrentStreams c"

fun wakeLoop :: "slot_waiter list \<Rightarrow> h2_conn \<Rightarrow> h2_conn" where
  "wakeLoop [] c = c"
| "wakeLoop (w # ws) c =
     (if slotFree c
      then (let c1 = c\<lparr>cn_slotOffset := cn_slotOffset c + 1\<rparr>
            in if \<not> sw_active w then wakeLoop ws c1
               else wakeLoop ws (c1\<lparr>cn_slotWaiters := (cn_slotWaiters c)[cn_slotOffset c := w\<lparr>sw_active := False\<rparr>],
                                    cn_reservedSlots := cn_reservedSlots c + 1,
                                    cn_granted := cn_granted c @ [sw_request w]\<rparr>))
      else c)"

definition compactSlots :: "h2_conn \<Rightarrow> h2_conn" where
  "compactSlots c =
     (if cn_slotOffset c > 32 \<and> cn_slotOffset c * 2 \<ge> length (cn_slotWaiters c)
      then c\<lparr>cn_slotWaiters := drop (cn_slotOffset c) (cn_slotWaiters c), cn_slotOffset := 0\<rparr>
      else c)"

definition wakeSlotWaiters :: "h2_conn \<Rightarrow> h2_conn" where
  "wakeSlotWaiters c = compactSlots (wakeLoop (drop (cn_slotOffset c) (cn_slotWaiters c)) c)"

text \<open>
  \<^verbatim>\<open>fail\<close> of a stream returns the credit of its buffered data, and the credit may terminate the
  connection, which fails every stream. The recursion ends there: once \<^verbatim>\<open>terminating\<close> is set,
  returning credit does nothing. So \<open>failWith\<close> takes the credit function, \<open>terminate\<close> uses it with
  none, and \<open>stream_fail\<close> with \<open>returnConnectionCredit\<close>.
\<close>

definition failWith :: "(int \<Rightarrow> h2_conn \<Rightarrow> h2_conn) \<Rightarrow> int \<Rightarrow> js_error \<Rightarrow> h2_conn \<Rightarrow> h2_conn" where
  "failWith credit sid reason c =
     with_stream sid c (\<lambda>s.
       if st_failed s then c
       else let s1 = s\<lparr>st_failed := True, st_localEnded := True, st_remoteEnded := True, st_uploadReader := False,
                       st_response := (if st_responseDelivered s then st_response s else promise_reject reason (st_response s)),
                       st_trailersSettled := True,
                       st_trailers := (if st_trailersSettled s then st_trailers s else promise_reject reason (st_trailers s))\<rparr>;
                (returned, s2) = discardIncoming s1;
                c1 = upd_stream sid (\<lambda>_. s2) c;
                c2 = (if returned \<noteq> 0 then credit returned c1 else c1)
            in upd_stream sid (\<lambda>s. finishApplication (pushIncoming (IncomingError reason) s)) c2)"

definition finishTermination :: "h2_conn \<Rightarrow> h2_conn" where
  "finishTermination c =
     (if cn_terminated c then c
      else c\<lparr>cn_terminated := True, cn_transportClosed := True, cn_closed := promise_resolve () (cn_closed c)\<rparr>)"

definition terminate :: "js_error \<Rightarrow> int \<Rightarrow> bool \<Rightarrow> h2_conn \<Rightarrow> h2_conn" where
  "terminate reason errorCode sendGoAway c =
     (if cn_terminating c \<or> cn_terminated c then c
      else let c1 = c\<lparr>cn_terminating := True, cn_draining := True, cn_ready := promise_reject reason (cn_ready c)\<rparr>;
               c2 = notifyFlowChange (failSlotWaiters reason c1);
               c3 = fold (\<lambda>sid. failWith (\<lambda>amount c. c) sid reason) (cn_streams c2) c2;
               c4 = c3\<lparr>cn_streams := []\<rparr>
           in if \<not> sendGoAway \<or> cn_transportClosed c4 then finishTermination c4
              else sendFrame (goAwayFrame errorCode) FinalGoAwaySent c4)"

definition returnConnectionCredit :: "int \<Rightarrow> h2_conn \<Rightarrow> h2_conn" where
  "returnConnectionCredit amount c =
     (if amount = 0 \<or> cn_terminating c \<or> cn_terminated c then c
      else if cn_connectionReceiveWindow c > MAX_WINDOW_SIZE - amount
           then terminate (Http2WireError FLOW_CONTROL_ERROR None) FLOW_CONTROL_ERROR True c
      else sendFrame (windowUpdateFrame 0 amount) Detached
             (c\<lparr>cn_connectionReceiveWindow := cn_connectionReceiveWindow c + amount\<rparr>))"

definition stream_fail :: "int \<Rightarrow> js_error \<Rightarrow> h2_conn \<Rightarrow> h2_conn" where
  "stream_fail sid reason c = failWith returnConnectionCredit sid reason c"

definition finishDrainIfIdle :: "h2_conn \<Rightarrow> h2_conn" where
  "finishDrainIfIdle c =
     (if \<not> cn_draining c \<or> cn_streams c \<noteq> [] \<or> (\<not> cn_localGoAwaySent c \<and> \<not> cn_remoteGoAwayReceived c) \<or>
         cn_terminating c \<or> cn_terminated c
      then c else terminate TypeError NO_ERROR False c)"

definition streamStateChanged :: "int \<Rightarrow> h2_conn \<Rightarrow> h2_conn" where
  "streamStateChanged sid c =
     with_stream sid c (\<lambda>s.
       if \<not> st_localEnded s \<or> \<not> st_remoteEnded s then c
       else if sid \<in> set (cn_streams c)
            then finishDrainIfIdle (wakeSlotWaiters (c\<lparr>cn_streams := remove1 sid (cn_streams c)\<rparr>))
            else c)"

definition resetStream :: "int \<Rightarrow> int \<Rightarrow> h2_conn \<Rightarrow> h2_conn" where
  "resetStream sid errorCode c =
     (let c1 = (if sid \<in> set (cn_streams c) then sendFrame (rstFrame sid errorCode) Detached c else c);
          c2 = stream_fail sid (Http2WireError errorCode (Some sid)) c1;
          c3 = upd_stream sid finishApplication c2
      in streamStateChanged sid c3)"

definition cancelStream :: "int \<Rightarrow> js_error \<Rightarrow> h2_conn \<Rightarrow> h2_conn" where
  "cancelStream sid reason c =
     (if sid \<notin> set (cn_streams c) then upd_stream sid finishApplication (stream_fail sid reason c)
      else let c1 = sendFrame (rstFrame sid CANCEL) Detached c;
               c2 = upd_stream sid finishApplication (stream_fail sid reason c1)
           in streamStateChanged sid c2)"

definition returnReceiveCredit :: "int \<Rightarrow> int \<Rightarrow> h2_conn \<Rightarrow> h2_conn" where
  "returnReceiveCredit sid amount c =
     (let c1 = returnConnectionCredit amount c
      in with_stream sid c1 (\<lambda>s.
           if st_remoteEnded s \<or> sid \<notin> set (cn_streams c1) \<or> amount = 0 then c1
           else if st_receiveWindow s > MAX_WINDOW_SIZE - amount
                then terminate (Http2WireError FLOW_CONTROL_ERROR None) FLOW_CONTROL_ERROR True c1
           else sendFrame (windowUpdateFrame sid amount) Detached
                  (upd_stream sid (\<lambda>s. s\<lparr>st_receiveWindow := st_receiveWindow s + amount\<rparr>) c1)))"


section \<open>What a stream receives\<close>

definition receiveEnd :: "int \<Rightarrow> h2_conn \<Rightarrow> h2_conn" where
  "receiveEnd sid c =
     with_stream sid c (\<lambda>s.
       if st_remoteEnded s then c
       else let c1 = upd_stream sid (\<lambda>s. s\<lparr>st_remoteEnded := True\<rparr>) c
            in if \<not> st_bodyForbidden s \<and> (\<exists>n\<in>set_option (st_expectedContentLength s). n \<noteq> st_receivedBodyBytes s)
               then streamStateChanged sid (stream_fail sid (Http2WireError PROTOCOL_ERROR (Some sid)) c1)
               else streamStateChanged sid
                      (upd_stream sid (\<lambda>s. pushIncoming IncomingEnd (settleTrailers [] s)) c1))"

definition deliverResponse :: "http2_response_headers \<Rightarrow> h2_stream \<Rightarrow> h2_stream" where
  "deliverResponse parsed s =
     s\<lparr>st_responseDelivered := True, st_responseStatus := rh_status parsed,
       st_expectedContentLength := rh_contentLength parsed,
       st_bodyForbidden := (st_bodyForbidden s \<or> rh_status parsed = 204 \<or> rh_status parsed = 205 \<or> rh_status parsed = 304),
       st_response := promise_resolve parsed (st_response s)\<rparr>"

definition handleHeaders :: "int \<Rightarrow> http2_response_headers \<Rightarrow> bool \<Rightarrow> h2_conn \<Rightarrow> h2_conn" where
  "handleHeaders sid parsed endStream c =
     with_stream sid c (\<lambda>s.
       if st_remoteEnded s then resetStream sid STREAM_CLOSED c
       else if \<not> st_responseDelivered s then
         (if rh_status parsed < 200 then
            (if endStream then resetStream sid PROTOCOL_ERROR c
             else (case st_onInformational s of
                     None \<Rightarrow> c
                   | Some callback \<Rightarrow> (if callback parsed then c else resetStream sid INTERNAL_ERROR c)))
          else let c1 = upd_stream sid (deliverResponse parsed) c
               in if endStream then receiveEnd sid c1 else c1)
       else if \<not> endStream then resetStream sid PROTOCOL_ERROR c
       else receiveEnd sid (upd_stream sid (settleTrailers (rh_headers parsed)) c))"

definition handleTrailers :: "int \<Rightarrow> decoded_header list \<Rightarrow> bool \<Rightarrow> h2_conn \<Rightarrow> h2_conn" where
  "handleTrailers sid fieldList endStream c =
     with_stream sid c (\<lambda>s.
       if \<not> st_responseDelivered s \<or> \<not> endStream then resetStream sid PROTOCOL_ERROR c
       else receiveEnd sid (upd_stream sid (settleTrailers fieldList) c))"

definition receiveData :: "int \<Rightarrow> bytes \<Rightarrow> int \<Rightarrow> bool \<Rightarrow> h2_conn \<Rightarrow> h2_conn" where
  "receiveData sid bs flowBytes endStream c =
     with_stream sid c (\<lambda>s.
       if \<not> st_responseDelivered s \<or> st_remoteEnded s
       then returnConnectionCredit flowBytes (resetStream sid STREAM_CLOSED c)
       else let n = st_receivedBodyBytes s + int (length bs);
                c1 = upd_stream sid (\<lambda>s. s\<lparr>st_receivedBodyBytes := n\<rparr>) c
            in if \<not> js_isSafeInteger n \<or> (st_bodyForbidden s \<and> bs \<noteq> [])
               then returnConnectionCredit flowBytes (resetStream sid PROTOCOL_ERROR c1)
               else let c2 = (if bs = [] then returnReceiveCredit sid flowBytes c1
                              else upd_stream sid (pushIncoming (IncomingData bs flowBytes)) c1)
                    in if endStream then receiveEnd sid c2 else c2)"

definition peerReset :: "int \<Rightarrow> int \<Rightarrow> h2_conn \<Rightarrow> h2_conn" where
  "peerReset sid errorCode c =
     streamStateChanged sid
       (stream_fail sid (Http2WireError errorCode (Some sid))
          (upd_stream sid (\<lambda>s. s\<lparr>st_localEnded := True, st_remoteEnded := True\<rparr>) c))"

definition markLocalEnd :: "int \<Rightarrow> h2_conn \<Rightarrow> h2_conn" where
  "markLocalEnd sid c =
     with_stream sid c (\<lambda>s.
       if st_localEnded s then c
       else streamStateChanged sid (upd_stream sid (\<lambda>s. s\<lparr>st_localEnded := True\<rparr>) c))"

text \<open>
  \<^verbatim>\<open>pullBody\<close> is cut at its \<^verbatim>\<open>await\<close>: \<open>pullStart\<close> asks for the next item, \<open>pullFinish\<close> hands it to the
  controller. \<^verbatim>\<open>controller.enqueue\<close> throws when the body is no longer readable, and then the credit of
  the item is not returned.
\<close>

definition pullStart :: "int \<Rightarrow> h2_conn \<Rightarrow> h2_conn" where
  "pullStart sid c = upd_stream sid nextIncoming c"

definition pullFinish :: "int \<Rightarrow> incoming_item \<Rightarrow> h2_conn \<Rightarrow> h2_conn" where
  "pullFinish sid item c =
     with_stream sid c (\<lambda>s.
       let c1 = upd_stream sid (\<lambda>s. s\<lparr>st_pull := NoPull\<rparr>) c
       in case item of
            IncomingData bs flowBytes \<Rightarrow>
              (if st_body s = BodyReadable then returnReceiveCredit sid flowBytes c1 else c1)
          | IncomingEnd \<Rightarrow>
              upd_stream sid (\<lambda>s. finishApplication s\<lparr>st_body := (if st_body s = BodyReadable then BodyClosed else st_body s)\<rparr>) c1
          | IncomingError reason \<Rightarrow>
              upd_stream sid (\<lambda>s. finishApplication s\<lparr>st_body := (if st_body s = BodyReadable then BodyErrored reason else st_body s)\<rparr>) c1)"

definition cancelBody :: "int \<Rightarrow> js_error \<Rightarrow> h2_conn \<Rightarrow> h2_conn" where
  "cancelBody sid reason c =
     with_stream sid c (\<lambda>s.
       if st_appTerminal s then c
       else let (returned, s') = discardIncoming s;
                c1 = upd_stream sid (\<lambda>_. s') c;
                c2 = (if returned \<noteq> 0 then returnConnectionCredit returned c1 else c1)
            in cancelStream sid reason (upd_stream sid finishApplication c2))"

section \<open>Frame handlers\<close>

text \<open>A handler that may throw returns its result with the state it leaves.\<close>

definition try_bind :: "'a result \<times> 's \<Rightarrow> ('a \<Rightarrow> 's \<Rightarrow> 'b result \<times> 's) \<Rightarrow> 'b result \<times> 's" where
  "try_bind m k = (case m of (Inl e, s) \<Rightarrow> (Inl e, s) | (Inr x, s) \<Rightarrow> k x s)"

definition findStream :: "int \<Rightarrow> h2_conn \<Rightarrow> int option result" where
  "findStream sid c =
     (if sid \<in> set (cn_streams c) then Inr (Some sid)
      else if js_and sid 1 = 0 \<or> sid > cn_highestOpenedStreamId c then Inl (Http2WireError PROTOCOL_ERROR None)
      else Inr None)"

definition headerDecodeError :: "js_error \<Rightarrow> js_error" where
  "headerDecodeError e =
     (if e = LimitError then Http2WireError ENHANCE_YOUR_CALM None else Http2WireError COMPRESSION_ERROR None)"

definition dispatchHeaders :: "http2_header_block \<Rightarrow> decoded_header list \<Rightarrow> h2_conn \<Rightarrow> unit result \<times> h2_conn" where
  "dispatchHeaders hb decoded c =
     (case findStream (hb_streamId hb) c of
        Inl e \<Rightarrow> (Inl e, c)
      | Inr None \<Rightarrow> (Inr (), sendClosedStreamReset (hb_streamId hb) c)
      | Inr (Some sid) \<Rightarrow>
          (case stream_of c sid of
             None \<Rightarrow> (Inr (), c)
           | Some s \<Rightarrow>
               (if (\<exists>p\<in>set_option (hb_priority hb). pr_streamDependency p = hb_streamId hb)
                then (Inr (), resetStream sid PROTOCOL_ERROR c)
                else if st_remoteEnded s then (Inr (), resetStream sid STREAM_CLOSED c)
                else if st_responseDelivered s
                then (case parseHttp2Trailers decoded sid of
                        Inl e \<Rightarrow> (Inl e, c)
                      | Inr trailers \<Rightarrow> (Inr (), handleTrailers sid trailers (hb_endStream hb) c))
                else (case parseHttp2ResponseHeaders decoded sid of
                        Inl e \<Rightarrow> (Inl e, c)
                      | Inr headers \<Rightarrow> (Inr (), handleHeaders sid headers (hb_endStream hb) c)))))"

definition handleHeaderBlock :: "http2_header_block \<Rightarrow> h2_conn \<Rightarrow> unit result \<times> h2_conn" where
  "handleHeaderBlock hb c =
     (if hb_kind hb = PushPromiseKind then (Inl (Http2WireError PROTOCOL_ERROR None), c)
      else let (r, d) = decode (hb_block hb) (cn_decoder c); c1 = c\<lparr>cn_decoder := d\<rparr>
           in case r of
                Inl e \<Rightarrow> (Inl (headerDecodeError e), c1)
              | Inr decoded \<Rightarrow> dispatchHeaders hb decoded c1)"

definition handleData :: "http2_frame \<Rightarrow> h2_conn \<Rightarrow> unit result \<times> h2_conn" where
  "handleData f c =
     (case res_bind (findStream (fr_streamId f) c) (\<lambda>stream. res_bind (parseHttp2Data f) (\<lambda>parsed. Inr (stream, parsed))) of
        Inl e \<Rightarrow> (Inl e, c)
      | Inr (stream, parsed) \<Rightarrow>
          (let flowBytes = int (length (fr_payload f));
               c1 = c\<lparr>cn_connectionReceiveWindow := cn_connectionReceiveWindow c - flowBytes\<rparr>
           in if cn_connectionReceiveWindow c1 < 0 then (Inl (Http2WireError FLOW_CONTROL_ERROR None), c1)
              else case stream of
                     None \<Rightarrow> (Inr (), sendClosedStreamReset (fr_streamId f) (returnConnectionCredit flowBytes c1))
                   | Some sid \<Rightarrow>
                       (let c2 = upd_stream sid (\<lambda>s. s\<lparr>st_receiveWindow := st_receiveWindow s - flowBytes\<rparr>) c1
                        in (Inr (), with_stream sid c2 (\<lambda>s.
                              if st_receiveWindow s < 0
                              then resetStream sid FLOW_CONTROL_ERROR (returnConnectionCredit flowBytes c2)
                              else receiveData sid (dp_data parsed) flowBytes (js_and (fr_flags f) FLAG_END_STREAM \<noteq> 0) c2)))))"

definition handleReset :: "http2_frame \<Rightarrow> h2_conn \<Rightarrow> unit result \<times> h2_conn" where
  "handleReset f c =
     (case findStream (fr_streamId f) c of
        Inl e \<Rightarrow> (Inl e, c)
      | Inr None \<Rightarrow> (Inr (), c)
      | Inr (Some sid) \<Rightarrow>
          (case parseHttp2RstStream f of
             Inl e \<Rightarrow> (Inl e, c)
           | Inr errorCode \<Rightarrow> (Inr (), peerReset sid errorCode c)))"

text \<open>The streams in the order of the map, each window adjusted until one overflows.\<close>

fun adjustWindows :: "int \<Rightarrow> int list \<Rightarrow> h2_conn \<Rightarrow> unit result \<times> h2_conn" where
  "adjustWindows difference [] c = (Inr (), c)"
| "adjustWindows difference (sid # sids) c =
     (case stream_of c sid of
        None \<Rightarrow> adjustWindows difference sids c
      | Some s \<Rightarrow>
          (if difference > 0 \<and> st_sendWindow s > MAX_WINDOW_SIZE - difference
           then (Inl (Http2WireError FLOW_CONTROL_ERROR None), c)
           else adjustWindows difference sids
                  (upd_stream sid (\<lambda>s. s\<lparr>st_sendWindow := st_sendWindow s + difference\<rparr>) c)))"

definition applyRemoteSetting :: "http2_setting \<Rightarrow> h2_conn \<Rightarrow> unit result \<times> h2_conn" where
  "applyRemoteSetting setting c =
     (let identifier = se_identifier setting; v = se_value setting
      in if identifier = SETTING_HEADER_TABLE_SIZE
         then (case encoder_setMaximumTableSize v (cn_encoder c) of
                 Inl e \<Rightarrow> (Inl e, c)
               | Inr enc \<Rightarrow> (Inr (), c\<lparr>cn_encoder := enc\<rparr>))
         else if identifier = SETTING_ENABLE_PUSH then (Inl (Http2WireError PROTOCOL_ERROR None), c)
         else if identifier = SETTING_MAX_CONCURRENT_STREAMS
         then (Inr (), wakeSlotWaiters (c\<lparr>cn_remoteMaximumConcurrentStreams := v\<rparr>))
         else if identifier = SETTING_INITIAL_WINDOW_SIZE
         then try_bind (adjustWindows (v - cn_remoteInitialWindowSize c) (cn_streams c) c) (\<lambda>_ c1.
                (Inr (), notifyFlowChange (c1\<lparr>cn_remoteInitialWindowSize := v\<rparr>)))
         else if identifier = SETTING_MAX_FRAME_SIZE then (Inr (), c\<lparr>cn_remoteMaximumFrameSize := v\<rparr>)
         else if identifier = SETTING_MAX_HEADER_LIST_SIZE then (Inr (), c\<lparr>cn_remoteMaximumHeaderListSize := v\<rparr>)
         else if identifier = SETTING_ENABLE_CONNECT_PROTOCOL then (Inr (), c\<lparr>cn_remoteExtendedConnect := (v = 1)\<rparr>)
         else (Inr (), c))"

fun applySettings :: "http2_setting list \<Rightarrow> h2_conn \<Rightarrow> unit result \<times> h2_conn" where
  "applySettings [] c = (Inr (), c)"
| "applySettings (x # xs) c = try_bind (applyRemoteSetting x c) (\<lambda>_. applySettings xs)"

text \<open>
  Handlers that wait for their own frame to be written suspend the read loop: \<open>cn_reading\<close> is
  cleared until the continuation of the write.
\<close>

definition handleSettings :: "http2_frame \<Rightarrow> h2_conn \<Rightarrow> unit result \<times> h2_conn" where
  "handleSettings f c =
     (if js_and (fr_flags f) FLAG_ACK \<noteq> 0 then (Inr (), c\<lparr>cn_settingsAcknowledged := True\<rparr>)
      else case parseHttp2Settings f of
             Inl e \<Rightarrow> (Inl e, c)
           | Inr settings \<Rightarrow>
               try_bind (applySettings settings c) (\<lambda>_ c1.
                 (Inr (), sendFrame \<lparr>fr_type = FRAME_SETTINGS, fr_flags = FLAG_ACK, fr_streamId = 0, fr_payload = []\<rparr>
                    SettingsAckSent (c1\<lparr>cn_receivedSettings := True, cn_reading := False\<rparr>))))"

definition goAwayStream :: "int \<Rightarrow> int \<Rightarrow> h2_conn \<Rightarrow> h2_conn" where
  "goAwayStream lastStreamId sid c =
     (if sid \<in> set (cn_streams c) \<and> sid > lastStreamId
      then streamStateChanged sid (stream_fail sid (Http2WireError REFUSED_STREAM (Some sid)) c)
      else c)"

definition handleGoAway :: "http2_frame \<Rightarrow> h2_conn \<Rightarrow> unit result \<times> h2_conn" where
  "handleGoAway f c =
     (case parseHttp2GoAway f of
        Inl e \<Rightarrow> (Inl e, c)
      | Inr goAway \<Rightarrow>
          (if ga_lastStreamId goAway > cn_remoteLastStreamId c then (Inl (Http2WireError PROTOCOL_ERROR None), c)
           else let c1 = failSlotWaiters (Http2WireError REFUSED_STREAM None)
                           (c\<lparr>cn_remoteLastStreamId := ga_lastStreamId goAway, cn_remoteGoAwayReceived := True,
                              cn_draining := True\<rparr>)
                in (Inr (), finishDrainIfIdle (fold (goAwayStream (ga_lastStreamId goAway)) (cn_streams c1) c1))))"

definition handleWindowUpdate :: "http2_frame \<Rightarrow> h2_conn \<Rightarrow> unit result \<times> h2_conn" where
  "handleWindowUpdate f c =
     (case parseHttp2WindowUpdate f of
        Inl e \<Rightarrow> (Inl e, c)
      | Inr increment \<Rightarrow>
          (if fr_streamId f = 0
           then (if cn_connectionSendWindow c > MAX_WINDOW_SIZE - increment
                 then (Inl (Http2WireError FLOW_CONTROL_ERROR None), c)
                 else (Inr (), notifyFlowChange (c\<lparr>cn_connectionSendWindow := cn_connectionSendWindow c + increment\<rparr>)))
           else (case findStream (fr_streamId f) c of
                   Inl e \<Rightarrow> (Inl e, c)
                 | Inr None \<Rightarrow> (Inr (), c)
                 | Inr (Some sid) \<Rightarrow> (Inr (), with_stream sid c (\<lambda>s.
                     if st_sendWindow s > MAX_WINDOW_SIZE - increment then resetStream sid FLOW_CONTROL_ERROR c
                     else notifyFlowChange
                            (upd_stream sid (\<lambda>s. s\<lparr>st_sendWindow := st_sendWindow s + increment\<rparr>) c))))))"

definition handleFrame :: "http2_frame \<Rightarrow> h2_conn \<Rightarrow> unit result \<times> h2_conn" where
  "handleFrame f c =
     (if fr_type f = FRAME_PUSH_PROMISE then (Inl (Http2WireError PROTOCOL_ERROR None), c)
      else let (accepted, blocks) = assembler_accept f (cn_blocks c); c1 = c\<lparr>cn_blocks := blocks\<rparr>
           in case accepted of
                Inl e \<Rightarrow> (Inl e, c1)
              | Inr headerBlock \<Rightarrow>
                  (if fr_type f = FRAME_HEADERS \<or> fr_type f = FRAME_CONTINUATION \<or> fr_type f = FRAME_PUSH_PROMISE
                   then (case headerBlock of None \<Rightarrow> (Inr (), c1) | Some hb \<Rightarrow> handleHeaderBlock hb c1)
                   else if fr_type f = FRAME_DATA then handleData f c1
                   else if fr_type f = FRAME_PRIORITY then (res_unit (parseHttp2Priority f), c1)
                   else if fr_type f = FRAME_RST_STREAM then handleReset f c1
                   else if fr_type f = FRAME_SETTINGS then handleSettings f c1
                   else if fr_type f = FRAME_PING
                   then (if js_and (fr_flags f) FLAG_ACK = 0
                         then (Inr (), sendFrame \<lparr>fr_type = FRAME_PING, fr_flags = FLAG_ACK, fr_streamId = 0,
                                                  fr_payload = fr_payload f\<rparr> PingAckSent (c1\<lparr>cn_reading := False\<rparr>))
                         else (Inr (), c1))
                   else if fr_type f = FRAME_GOAWAY then handleGoAway f c1
                   else if fr_type f = FRAME_WINDOW_UPDATE then handleWindowUpdate f c1
                   else (Inr (), c1)))"

section \<open>The read loop\<close>

definition loopErrorCode :: "js_error \<Rightarrow> int" where
  "loopErrorCode e =
     (case e of Http2WireError code sid \<Rightarrow> code
      | LimitError \<Rightarrow> ENHANCE_YOUR_CALM
      | _ \<Rightarrow> INTERNAL_ERROR)"

definition readLoopError :: "js_error \<Rightarrow> h2_conn \<Rightarrow> h2_conn" where
  "readLoopError e c =
     (let c1 = c\<lparr>cn_reading := False\<rparr>
      in if cn_terminating c1 \<or> cn_terminated c1 then c1 else terminate e (loopErrorCode e) True c1)"

text \<open>The loop condition, at the head of the next turn.\<close>

definition readLoopContinue :: "h2_conn \<Rightarrow> h2_conn" where
  "readLoopContinue c = c\<lparr>cn_reading := \<not> (cn_terminating c \<or> cn_terminated c)\<rparr>"

definition frameError :: "js_error \<Rightarrow> h2_conn \<Rightarrow> h2_conn" where
  "frameError e c =
     (case e of
        Http2WireError code (Some sid) \<Rightarrow>
          readLoopContinue (if sid \<in> set (cn_streams c) then resetStream sid code c else sendClosedStreamReset sid c)
      | _ \<Rightarrow> readLoopError e c)"

text \<open>
  One turn of \<^verbatim>\<open>readLoop\<close>, with what \<^verbatim>\<open>readHttp2Frame\<close> returned or threw. The loop condition is
  looked at again only after the turn: a frame that arrives while the connection terminates is
  still handled.
\<close>

definition readLoopTurn :: "http2_frame result \<Rightarrow> h2_conn \<Rightarrow> h2_conn" where
  "readLoopTurn r c =
     (case r of
        Inl e \<Rightarrow> readLoopError e c
      | Inr f \<Rightarrow>
          (if \<not> cn_receivedSettings c \<and> (fr_type f \<noteq> FRAME_SETTINGS \<or> js_and (fr_flags f) FLAG_ACK \<noteq> 0)
           then readLoopError (Http2WireError PROTOCOL_ERROR None) c
           else let c1 = (case handleFrame f c of (Inr u, c1) \<Rightarrow> c1 | (Inl e, c1) \<Rightarrow> frameError e c1)
                in if cn_reading c1 then readLoopContinue c1 else c1))"

section \<open>Opening, requests, draining\<close>

definition CLIENT_PREFACE :: "bytes result" where
  "CLIENT_PREFACE = encodeByteString (map (\<lambda>n. word_of_int n)
     [80, 82, 73, 32, 42, 32, 72, 84, 84, 80, 47, 50, 46, 48, 13, 10, 13, 10, 83, 77, 13, 10, 13, 10])"

definition newHttp2ClientConnection :: "h2_connection_options \<Rightarrow> bool \<Rightarrow> h2_conn result" where
  "newHttp2ClientConnection options transportClosed =
     res_bind (normalizeOptions options) (\<lambda>opts.
     res_bind (newHpackDecoder (op_headerTableSize opts)
                 \<lparr>maxHeaderListBytes = op_maximumHeaderListBytes opts, maxStringBytes = op_maximumHeaderStringBytes opts\<rparr>) (\<lambda>decoder.
     res_bind (newHpackEncoder 4096 True) (\<lambda>encoder.
     res_bind (newHeaderBlockAssembler (op_maximumCompressedHeaderBlockBytes opts) (op_maximumHeaderBlockFragments opts)) (\<lambda>blocks.
     Inr \<lparr>cn_transportClosed = transportClosed, cn_wire = [], cn_settled = [], cn_readyWaiters = [], cn_granted = [],
          cn_aborted = [], cn_refused = [], cn_reading = False,
          cn_remoteMaximumConcurrentStreams = 0xffffffff, cn_remoteInitialWindowSize = DEFAULT_WINDOW_SIZE,
          cn_remoteMaximumFrameSize = DEFAULT_FRAME_SIZE, cn_remoteMaximumHeaderListSize = 0xffffffff,
          cn_remoteExtendedConnect = False, cn_remoteLastStreamId = MAX_WINDOW_SIZE, cn_remoteGoAwayReceived = False,
          cn_receivedSettings = False, cn_settingsAcknowledged = False,
          cn_ready = Pending, cn_closed = Pending, cn_started = False, cn_draining = False, cn_terminating = False,
          cn_terminated = False, cn_localGoAwaySent = False,
          cn_options = opts, cn_decoder = decoder, cn_encoder = encoder, cn_blocks = blocks,
          cn_writes = [], cn_writeOffset = 0, cn_writing = False,
          cn_objects = [], cn_streams = [], cn_slotWaiters = [], cn_slotOffset = 0, cn_reservedSlots = 0,
          cn_nextStreamId = 1, cn_highestOpenedStreamId = 0, cn_connectionSendWindow = DEFAULT_WINDOW_SIZE,
          cn_connectionReceiveWindow = op_connectionWindowSize opts\<rparr>))))"

definition initialSettings :: "h2_options \<Rightarrow> http2_setting list" where
  "initialSettings opts =
     [\<lparr>se_identifier = SETTING_HEADER_TABLE_SIZE, se_value = op_headerTableSize opts\<rparr>,
      \<lparr>se_identifier = SETTING_ENABLE_PUSH, se_value = 0\<rparr>,
      \<lparr>se_identifier = SETTING_MAX_CONCURRENT_STREAMS, se_value = op_maximumConcurrentStreams opts\<rparr>,
      \<lparr>se_identifier = SETTING_INITIAL_WINDOW_SIZE, se_value = op_initialStreamWindowSize opts\<rparr>,
      \<lparr>se_identifier = SETTING_MAX_FRAME_SIZE, se_value = op_maximumFrameSize opts\<rparr>,
      \<lparr>se_identifier = SETTING_MAX_HEADER_LIST_SIZE, se_value = op_maximumHeaderListBytes opts\<rparr>] @
     (if op_enableConnectProtocol opts then [\<lparr>se_identifier = SETTING_ENABLE_CONNECT_PROTOCOL, se_value = 1\<rparr>] else [])"

definition prefaceBytes :: "h2_options \<Rightarrow> bytes result" where
  "prefaceBytes opts =
     res_bind CLIENT_PREFACE (\<lambda>preface.
     res_bind (encodeHttp2Settings (initialSettings opts)) (\<lambda>payload.
     res_bind (encodeHttp2Frame \<lparr>fr_type = FRAME_SETTINGS, fr_flags = 0, fr_streamId = 0, fr_payload = payload\<rparr> DEFAULT_FRAME_SIZE) (\<lambda>settings.
     res_bind (if op_connectionWindowSize opts > DEFAULT_WINDOW_SIZE
               then res_bind (encodeHttp2WindowUpdate (op_connectionWindowSize opts - DEFAULT_WINDOW_SIZE)) (\<lambda>payload.
                    res_bind (encodeHttp2Frame \<lparr>fr_type = FRAME_WINDOW_UPDATE, fr_flags = 0, fr_streamId = 0, fr_payload = payload\<rparr> DEFAULT_FRAME_SIZE) (\<lambda>bs.
                    Inr [bs]))
               else Inr []) (\<lambda>update.
     concatBytes ([preface, settings] @ update) None))))"

definition start :: "h2_conn \<Rightarrow> unit result \<times> h2_conn" where
  "start c =
     (if cn_started c then (Inl TypeError, c)
      else if cn_transportClosed c then (Inl TypeError, c)
      else let c1 = c\<lparr>cn_started := True\<rparr>
           in case prefaceBytes (cn_options c1) of
                Inl e \<Rightarrow> (Inl e, c1)
              | Inr bs \<Rightarrow> (Inr (), enqueueBytes bs PrefaceSent c1))"

text \<open>
  \<^verbatim>\<open>request\<close> up to its first \<^verbatim>\<open>await\<close>. A request whose connection is ready continues on its own; one
  that is not waits for \<^verbatim>\<open>ready\<close> and can be aborted meanwhile.
\<close>

definition request :: "h2_request \<Rightarrow> h2_conn \<Rightarrow> h2_conn" where
  "request r c =
     (if \<not> cn_started c then refuse r TypeError c
      else if rq_signal r \<in> set (cn_aborted c) then refuse r GenericError c
      else c\<lparr>cn_readyWaiters := cn_readyWaiters c @ [(r, cn_receivedSettings c)]\<rparr>)"

definition reserveStreamSlot :: "h2_request \<Rightarrow> h2_conn \<Rightarrow> h2_conn" where
  "reserveStreamSlot r c =
     (if rq_signal r \<in> set (cn_aborted c) then refuse r GenericError c
      else if cn_draining c \<or> cn_terminating c \<or> cn_terminated c then refuse r (Http2WireError REFUSED_STREAM None) c
      else if slotFree c
      then c\<lparr>cn_reservedSlots := cn_reservedSlots c + 1, cn_granted := cn_granted c @ [r]\<rparr>
      else if int (length (cn_slotWaiters c)) - int (cn_slotOffset c) \<ge> op_maximumPendingRequests (cn_options c)
      then refuse r LimitError c
      else c\<lparr>cn_slotWaiters := cn_slotWaiters c @ [\<lparr>sw_request = r, sw_active = True\<rparr>]\<rparr>)"

definition requestMethod :: "hpack_field list \<Rightarrow> jsstring" where
  "requestMethod headers =
     (case List.find (\<lambda>f. hf_name f = js_string '':method'') headers of None \<Rightarrow> [] | Some f \<Rightarrow> hf_value f)"

definition releaseSlot :: "h2_conn \<Rightarrow> h2_conn" where
  "releaseSlot c = wakeSlotWaiters (c\<lparr>cn_reservedSlots := cn_reservedSlots c - 1\<rparr>)"

text \<open>The checks of \<^verbatim>\<open>request\<close> before a stream is made; the result is the block and the expected length.\<close>

definition prepareRequest :: "h2_request \<Rightarrow> int \<Rightarrow> h2_conn \<Rightarrow> (bytes \<times> int option) result \<times> h2_conn" where
  "prepareRequest r sid c =
     (case validateHttp2RequestHeaders (rq_headers r) sid (op_enableConnectProtocol (cn_options c) \<and> cn_remoteExtendedConnect c) of
        Inl e \<Rightarrow> (Inl e, c)
      | Inr expectedSendLength \<Rightarrow>
          (if \<not> rq_body r \<and> expectedSendLength \<noteq> None \<and> expectedSendLength \<noteq> Some 0 then (Inl TypeError, c)
           else case http2HeaderListSize (rq_headers r) of
                  Inl e \<Rightarrow> (Inl e, c)
                | Inr n \<Rightarrow>
                    (if n > cn_remoteMaximumHeaderListSize c then (Inl LimitError, c)
                     else let (block, enc) = encode (rq_headers r) (cn_encoder c); c1 = c\<lparr>cn_encoder := enc\<rparr>
                          in case block of Inl e \<Rightarrow> (Inl e, c1) | Inr bs \<Rightarrow> (Inr (bs, expectedSendLength), c1))))"

definition attachSignal :: "int \<Rightarrow> int \<Rightarrow> h2_conn \<Rightarrow> h2_conn" where
  "attachSignal signal sid c =
     (if signal \<in> set (cn_aborted c) then cancelStream sid GenericError c
      else upd_stream sid (\<lambda>s. s\<lparr>st_abortAttached := True\<rparr>) c)"

definition openStream :: "h2_request \<Rightarrow> int \<Rightarrow> bytes \<Rightarrow> int option \<Rightarrow> h2_conn \<Rightarrow> h2_conn" where
  "openStream r sid block expectedSendLength c =
     (let stream = newHttp2ClientStream sid (cn_remoteInitialWindowSize c) (op_initialStreamWindowSize (cn_options c))
                     (requestMethod (rq_headers r)) (rq_body r) expectedSendLength (rq_onInformational r) (rq_signal r);
          c1 = c\<lparr>cn_reservedSlots := cn_reservedSlots c - 1, cn_objects := cn_objects c @ [(sid, stream)],
                 cn_streams := cn_streams c @ [sid], cn_highestOpenedStreamId := sid\<rparr>
      in sendHeaderBlock sid block (\<not> rq_body r) (HeadersSent sid (rq_body r)) (attachSignal (rq_signal r) sid c1))"

text \<open>\<^verbatim>\<open>request\<close> once it holds a slot, up to the \<^verbatim>\<open>await\<close> of its header block.\<close>

definition requestOpen :: "h2_request \<Rightarrow> h2_conn \<Rightarrow> h2_conn" where
  "requestOpen r c =
     (if cn_draining c \<or> cn_terminating c \<or> cn_terminated c
      then releaseSlot (refuse r (Http2WireError REFUSED_STREAM None) c)
      else if cn_nextStreamId c > MAX_WINDOW_SIZE
      then releaseSlot (refuse r (Http2WireError REFUSED_STREAM None) (c\<lparr>cn_draining := True\<rparr>))
      else let sid = cn_nextStreamId c; c1 = c\<lparr>cn_nextStreamId := cn_nextStreamId c + 2\<rparr>
           in case prepareRequest r sid c1 of
                (Inl e, c2) \<Rightarrow> releaseSlot (refuse r e c2)
              | (Inr (block, expectedSendLength), c2) \<Rightarrow> openStream r sid block expectedSendLength c2)"

definition drainConnection :: "h2_conn \<Rightarrow> h2_conn" where
  "drainConnection c =
     (if cn_terminated c then c
      else if \<not> cn_started c then terminate TypeError NO_ERROR False c
      else if \<not> cn_draining c
      then sendFrame (goAwayFrame NO_ERROR) DrainGoAwaySent
             (failSlotWaiters (Http2WireError REFUSED_STREAM None) (c\<lparr>cn_draining := True\<rparr>))
      else finishDrainIfIdle c)"

definition closeConnection :: "js_error \<Rightarrow> h2_conn \<Rightarrow> h2_conn" where
  "closeConnection reason c =
     (if cn_terminated c \<or> cn_terminating c then c
      else terminate reason NO_ERROR (cn_started c) (c\<lparr>cn_draining := True\<rparr>))"

section \<open>Sending a request body\<close>

definition reserveSendCapacity :: "int \<Rightarrow> int \<Rightarrow> h2_conn \<Rightarrow> int result \<times> h2_conn" where
  "reserveSendCapacity sid requested c =
     (case stream_of c sid of
        None \<Rightarrow> (Inl TypeError, c)
      | Some s \<Rightarrow>
          (if cn_terminating c \<or> cn_terminated c \<or> st_localEnded s then (Inl TypeError, c)
           else let permitted = min (min (min requested (cn_remoteMaximumFrameSize c)) (cn_connectionSendWindow c)) (st_sendWindow s)
                in if permitted \<le> 0 then (Inr 0, c)
                   else (Inr permitted,
                         upd_stream sid (\<lambda>s. s\<lparr>st_sendWindow := st_sendWindow s - permitted\<rparr>)
                           (c\<lparr>cn_connectionSendWindow := cn_connectionSendWindow c - permitted\<rparr>))))"

definition uploadFinally :: "int \<Rightarrow> h2_conn \<Rightarrow> h2_conn" where
  "uploadFinally sid c = upd_stream sid (\<lambda>s. s\<lparr>st_uploadReader := False, st_upload := NoUpload\<rparr>) c"

definition uploadCatch :: "int \<Rightarrow> h2_conn \<Rightarrow> h2_conn" where
  "uploadCatch sid c =
     with_stream sid c (\<lambda>s.
       uploadFinally sid (if st_localEnded s then c else resetStream sid INTERNAL_ERROR c))"

definition uploadState :: "int \<Rightarrow> upload_state \<Rightarrow> h2_conn \<Rightarrow> h2_conn" where
  "uploadState sid u c = upd_stream sid (\<lambda>s. s\<lparr>st_upload := u\<rparr>) c"

definition dataFrame :: "int \<Rightarrow> int \<Rightarrow> bytes \<Rightarrow> http2_frame" where
  "dataFrame sid flags payload = \<lparr>fr_type = FRAME_DATA, fr_flags = flags, fr_streamId = sid, fr_payload = payload\<rparr>"

text \<open>The head of the outer loop, and its end.\<close>

definition uploadLoop :: "int \<Rightarrow> h2_conn \<Rightarrow> h2_conn" where
  "uploadLoop sid c =
     with_stream sid c (\<lambda>s. if st_localEnded s then uploadFinally sid c else uploadState sid UploadReading c)"

definition uploadDone :: "int \<Rightarrow> h2_conn \<Rightarrow> h2_conn" where
  "uploadDone sid c =
     with_stream sid c (\<lambda>s.
       if st_localEnded s then uploadFinally sid c
       else case verifySendComplete s of
              Inl e \<Rightarrow> uploadCatch sid c
            | Inr u \<Rightarrow> sendFrame (dataFrame sid FLAG_END_STREAM []) (BodyEndSent sid) (uploadState sid UploadEnding c))"

definition uploadReserve :: "int \<Rightarrow> bytes \<Rightarrow> nat \<Rightarrow> h2_conn \<Rightarrow> h2_conn" where
  "uploadReserve sid chunk offset c =
     (case reserveSendCapacity sid (int (length chunk) - int offset) c of
        (Inl e, c1) \<Rightarrow> uploadCatch sid c1
      | (Inr n, c1) \<Rightarrow>
          (if n = 0 then uploadState sid (UploadFlow chunk offset False) c1
           else sendFrame (dataFrame sid 0 (js_slice chunk offset (offset + nat n))) (BodySent sid)
                  (uploadState sid (UploadWriting chunk (offset + nat n)) c1)))"

definition uploadChunk :: "int \<Rightarrow> bytes \<Rightarrow> nat \<Rightarrow> h2_conn \<Rightarrow> h2_conn" where
  "uploadChunk sid chunk offset c =
     with_stream sid c (\<lambda>s.
       if offset < length chunk \<and> \<not> st_localEnded s then uploadReserve sid chunk offset c else uploadLoop sid c)"

text \<open>What the application's reader produced.\<close>

datatype upload_input = UploadValue bytes | UploadClosed | UploadThrew js_error

definition uploadRead :: "int \<Rightarrow> upload_input \<Rightarrow> h2_conn \<Rightarrow> h2_conn" where
  "uploadRead sid input c =
     (case input of
        UploadThrew e \<Rightarrow> uploadCatch sid c
      | UploadClosed \<Rightarrow> uploadDone sid c
      | UploadValue chunk \<Rightarrow>
          with_stream sid c (\<lambda>s.
            let (r, s') = acceptSendBytes (int (length chunk)) s; c1 = upd_stream sid (\<lambda>_. s') c
            in case r of Inl e \<Rightarrow> uploadCatch sid c1 | Inr u \<Rightarrow> uploadChunk sid chunk 0 c1))"

section \<open>Continuations of writes\<close>

definition continueWrite :: "write_tag \<Rightarrow> js_error option \<Rightarrow> h2_conn \<Rightarrow> h2_conn" where
  "continueWrite tag r c =
     (case tag of
        Detached \<Rightarrow> c
      | PrefaceSent \<Rightarrow> (case r of None \<Rightarrow> readLoopContinue c | Some e \<Rightarrow> c)
      | HeadersSent sid hasBody \<Rightarrow>
          (case r of
             Some e \<Rightarrow> streamStateChanged sid (stream_fail sid e c)
           | None \<Rightarrow> (if hasBody then uploadLoop sid (upd_stream sid (\<lambda>s. s\<lparr>st_uploadReader := True\<rparr>) c)
                      else streamStateChanged sid c))
      | BodySent sid \<Rightarrow>
          (case r of
             Some e \<Rightarrow> uploadCatch sid c
           | None \<Rightarrow> with_stream sid c (\<lambda>s.
               case st_upload s of UploadWriting chunk offset \<Rightarrow> uploadChunk sid chunk offset c | _ \<Rightarrow> c))
      | BodyEndSent sid \<Rightarrow>
          (case r of Some e \<Rightarrow> uploadCatch sid c | None \<Rightarrow> uploadFinally sid (markLocalEnd sid c))
      | SettingsAckSent \<Rightarrow>
          (case r of
             Some e \<Rightarrow> frameError e c
           | None \<Rightarrow> readLoopContinue (wakeSlotWaiters (c\<lparr>cn_ready := promise_resolve () (cn_ready c)\<rparr>)))
      | PingAckSent \<Rightarrow> (case r of Some e \<Rightarrow> frameError e c | None \<Rightarrow> readLoopContinue c)
      | DrainGoAwaySent \<Rightarrow> (case r of Some e \<Rightarrow> c | None \<Rightarrow> finishDrainIfIdle (c\<lparr>cn_localGoAwaySent := True\<rparr>))
      | FinalGoAwaySent \<Rightarrow> finishTermination c)"

text \<open>The end of a write that \<^verbatim>\<open>drainWrites\<close> waits for.\<close>

definition writeDone :: "js_error option \<Rightarrow> h2_conn \<Rightarrow> h2_conn" where
  "writeDone r c =
     (case js_at (cn_writes c) (int (cn_writeOffset c) - 1) of
        None \<Rightarrow> c
      | Some (bs, tag) \<Rightarrow>
          (case r of
             None \<Rightarrow> drainNext (settle tag None (c\<lparr>cn_wire := cn_wire c @ [bs]\<rparr>))
           | Some e \<Rightarrow>
               drainNext (terminate e INTERNAL_ERROR False
                 ((fold (\<lambda>(bs, tag). settle tag (Some e)) (drop (cn_writeOffset c) (cn_writes c)) (settle tag (Some e) c))
                    \<lparr>cn_writeOffset := length (cn_writes c)\<rparr>))))"

section \<open>Events\<close>

datatype h2_event =
    Start
  | Request h2_request
  | RequestReady nat
  | RequestOpen nat
  | Abort int
  | AbortReadyWaiter nat
  | AbortSlotWaiter nat
  | AbortStream int
  | Frame "http2_frame result"
  | WriteDone "js_error option"
  | Continue
  | UploadInput int upload_input
  | UploadWake int
  | Pull int
  | PullDone int
  | CancelBody int js_error
  | Drain
  | Close js_error

definition remove_nth :: "nat \<Rightarrow> 'a list \<Rightarrow> 'a list" where
  "remove_nth i xs = take i xs @ drop (Suc i) xs"

text \<open>
  The callbacks of an aborted signal: a request that waits for the connection or for a slot is
  refused, a stream that still listens is cancelled. They run in the order of subscription; here each
  is an event of its own, enabled once the signal is aborted, which covers every order.
\<close>

definition abortReadyWaiter :: "nat \<Rightarrow> h2_conn \<Rightarrow> h2_conn" where
  "abortReadyWaiter i c =
     refuse (fst (cn_readyWaiters c ! i)) GenericError (c\<lparr>cn_readyWaiters := remove_nth i (cn_readyWaiters c)\<rparr>)"

definition abortSlotWaiter :: "nat \<Rightarrow> h2_conn \<Rightarrow> h2_conn" where
  "abortSlotWaiter i c =
     refuse (sw_request (cn_slotWaiters c ! i)) GenericError (c\<lparr>cn_slotWaiters := remove_nth i (cn_slotWaiters c)\<rparr>)"

definition handle :: "h2_event \<Rightarrow> h2_conn \<Rightarrow> h2_conn option" where
  "handle ev c =
     (case ev of
        Start \<Rightarrow> Some (snd (start c))
      | Request r \<Rightarrow> Some (request r c)
      | RequestReady i \<Rightarrow>
          (if i < length (cn_readyWaiters c)
           then let (r, immediate) = cn_readyWaiters c ! i;
                    c1 = c\<lparr>cn_readyWaiters := remove_nth i (cn_readyWaiters c)\<rparr>
                in if immediate then Some (reserveStreamSlot r c1)
                   else (case cn_ready c of
                           Pending \<Rightarrow> None
                         | Resolved u \<Rightarrow> Some (reserveStreamSlot r c1)
                         | Rejected e \<Rightarrow> Some (refuse r e c1))
           else None)
      | RequestOpen i \<Rightarrow>
          (if i < length (cn_granted c)
           then Some (requestOpen (cn_granted c ! i) (c\<lparr>cn_granted := remove_nth i (cn_granted c)\<rparr>))
           else None)
      | Abort signal \<Rightarrow> Some (c\<lparr>cn_aborted := signal # cn_aborted c\<rparr>)
      | AbortReadyWaiter i \<Rightarrow>
          (if i < length (cn_readyWaiters c) \<and> \<not> snd (cn_readyWaiters c ! i) \<and>
              rq_signal (fst (cn_readyWaiters c ! i)) \<in> set (cn_aborted c)
           then Some (abortReadyWaiter i c) else None)
      | AbortSlotWaiter i \<Rightarrow>
          (if cn_slotOffset c \<le> i \<and> i < length (cn_slotWaiters c) \<and> sw_active (cn_slotWaiters c ! i) \<and>
              rq_signal (sw_request (cn_slotWaiters c ! i)) \<in> set (cn_aborted c)
           then Some (abortSlotWaiter i c) else None)
      | AbortStream sid \<Rightarrow>
          (case stream_of c sid of
             Some s \<Rightarrow> (if st_abortAttached s \<and> st_signal s \<in> set (cn_aborted c)
                        then Some (cancelStream sid GenericError c) else None)
           | None \<Rightarrow> None)
      | Frame r \<Rightarrow> (if cn_reading c then Some (readLoopTurn r c) else None)
      | WriteDone r \<Rightarrow> (if cn_writing c then Some (writeDone r c) else None)
      | Continue \<Rightarrow>
          (case cn_settled c of
             [] \<Rightarrow> None
           | (tag, r) # rest \<Rightarrow> Some (continueWrite tag r (c\<lparr>cn_settled := rest\<rparr>)))
      | UploadInput sid input \<Rightarrow>
          (case stream_of c sid of
             Some s \<Rightarrow> (if st_upload s = UploadReading then Some (uploadRead sid input c) else None)
           | None \<Rightarrow> None)
      | UploadWake sid \<Rightarrow>
          (case stream_of c sid of
             Some s \<Rightarrow> (case st_upload s of
                          UploadFlow chunk offset woken \<Rightarrow> (if woken then Some (uploadReserve sid chunk offset c) else None)
                        | _ \<Rightarrow> None)
           | None \<Rightarrow> None)
      | Pull sid \<Rightarrow>
          (case stream_of c sid of
             Some s \<Rightarrow> (if st_pull s = NoPull \<and> st_body s = BodyReadable then Some (pullStart sid c) else None)
           | None \<Rightarrow> None)
      | PullDone sid \<Rightarrow>
          (case stream_of c sid of
             Some s \<Rightarrow> (case st_pull s of PullReady item \<Rightarrow> Some (pullFinish sid item c) | _ \<Rightarrow> None)
           | None \<Rightarrow> None)
      | CancelBody sid reason \<Rightarrow>
          (case stream_of c sid of
             Some s \<Rightarrow> (if st_body s = BodyReadable
                        then Some (cancelBody sid reason (upd_stream sid (\<lambda>s. s\<lparr>st_body := BodyClosed\<rparr>) c)) else None)
           | None \<Rightarrow> None)
      | Drain \<Rightarrow> Some (drainConnection c)
      | Close reason \<Rightarrow> Some (closeConnection reason c))"

text \<open>The states a connection can reach.\<close>

inductive h2_reachable :: "h2_conn \<Rightarrow> bool" where
  opened: "newHttp2ClientConnection options closed = Inr c \<Longrightarrow> h2_reachable c"
| stepped: "h2_reachable c \<Longrightarrow> handle ev c = Some c' \<Longrightarrow> h2_reachable c'"

end
