(* ===== verification/Http2_Connection_Inv.thy ===== *)
theory Http2_Connection_Inv
  imports Http2_Connection
begin

text \<open>
  Invariants of the HTTP/2 client connection: the stream table, the flow-control windows, the
  accounting of received bytes and the stream slots, kept by every event in every order.
\<close>

section \<open>The invariants\<close>

text \<open>The flow-controlled bytes an item, a stream and the whole connection still owe the peer.\<close>

fun pull_bytes :: "pull_state \<Rightarrow> int" where
  "pull_bytes (PullReady item) = flow_bytes item"
| "pull_bytes NoPull = 0"
| "pull_bytes PullWaiting = 0"

definition buffered :: "h2_stream \<Rightarrow> int" where
  "buffered s = sum_list (map flow_bytes (drop (st_incomingOffset s) (st_incoming s))) + pull_bytes (st_pull s)"

definition held :: "h2_conn \<Rightarrow> int" where
  "held c = sum_list (map (\<lambda>(k, s). buffered s) (cn_objects c))"

definition ended :: "h2_stream \<Rightarrow> bool" where
  "ended s \<longleftrightarrow> st_localEnded s \<and> st_remoteEnded s"

definition stream_ok :: "int \<Rightarrow> int \<Rightarrow> h2_stream \<Rightarrow> bool" where
  "stream_ok next k s \<longleftrightarrow> st_id s = k \<and> odd k \<and> 0 < k \<and> k < next \<and> st_sendWindow s \<le> MAX_WINDOW_SIZE \<and>
     (\<forall>item\<in>set (st_incoming s). 0 \<le> flow_bytes item) \<and> st_incomingOffset s \<le> length (st_incoming s) \<and> 0 \<le> pull_bytes (st_pull s) \<and>
     (st_failed s \<longrightarrow> ended s \<and> st_response s \<noteq> Pending \<and> st_trailersSettled s) \<and>
     (st_responseDelivered s \<longrightarrow> st_response s \<noteq> Pending) \<and> (st_trailersSettled s \<longrightarrow> st_trailers s \<noteq> Pending)"

lemma promise_settled [simp]: "promise_resolve v p \<noteq> Pending" "promise_reject e p \<noteq> Pending"
  by (cases p; simp)+

definition objects_ok :: "h2_conn \<Rightarrow> bool" where
  "objects_ok c \<longleftrightarrow> distinct (map fst (cn_objects c)) \<and> odd (cn_nextStreamId c) \<and> 0 < cn_nextStreamId c \<and>
     (\<forall>k s. stream_of c k = Some s \<longrightarrow> stream_ok (cn_nextStreamId c) k s)"

definition streams_ok :: "int set \<Rightarrow> h2_conn \<Rightarrow> bool" where
  "streams_ok X c \<longleftrightarrow> distinct (cn_streams c) \<and>
     (\<forall>k\<in>set (cn_streams c). \<exists>s. stream_of c k = Some s \<and> (k \<in> X \<or> \<not> ended s))"

definition flow_ok :: "int \<Rightarrow> h2_conn \<Rightarrow> bool" where
  "flow_ok k c \<longleftrightarrow> 0 \<le> cn_connectionSendWindow c \<and> cn_connectionSendWindow c \<le> MAX_WINDOW_SIZE \<and>
     op_connectionWindowSize (cn_options c) \<le> MAX_WINDOW_SIZE \<and> cn_remoteInitialWindowSize c \<le> MAX_WINDOW_SIZE \<and>
     (\<not> cn_terminating c \<and> \<not> cn_terminated c \<longrightarrow>
        cn_connectionReceiveWindow c + held c + k = op_connectionWindowSize (cn_options c))"

definition slots_ok :: "int \<Rightarrow> h2_conn \<Rightarrow> bool" where
  "slots_ok g c \<longleftrightarrow> cn_reservedSlots c = int (length (cn_granted c)) + g \<and>
     cn_slotOffset c \<le> length (cn_slotWaiters c)"

definition waiters_ok :: "h2_conn \<Rightarrow> bool" where
  "waiters_ok c \<longleftrightarrow> (\<forall>w\<in>set (drop (cn_slotOffset c) (cn_slotWaiters c)). sw_active w \<longrightarrow> \<not> slotFree c)"

text \<open>
  \<open>base X k g\<close>: all but the waiters; the streams in \<open>X\<close> may be closed and still in the table, \<open>k\<close> bytes
  of credit and \<open>g\<close> slots are in the hands of the running method.
\<close>

definition base :: "int set \<Rightarrow> int \<Rightarrow> int \<Rightarrow> h2_conn \<Rightarrow> bool" where
  "base X k g c \<longleftrightarrow> objects_ok c \<and> streams_ok X c \<and> flow_ok k c \<and> slots_ok g c"

definition conn_inv :: "int set \<Rightarrow> int \<Rightarrow> int \<Rightarrow> h2_conn \<Rightarrow> bool" where
  "conn_inv X k g c \<longleftrightarrow> base X k g c \<and> waiters_ok c"

lemmas inv_defs = conn_inv_def base_def objects_ok_def streams_ok_def flow_ok_def slots_ok_def waiters_ok_def

section \<open>What the methods leave alone\<close>

text \<open>The part of the state the invariants speak of.\<close>

definition core :: "h2_conn \<Rightarrow> _" where
  "core c = (cn_objects c, cn_streams c, cn_slotWaiters c, cn_slotOffset c, cn_reservedSlots c, cn_granted c,
     cn_nextStreamId c, cn_remoteMaximumConcurrentStreams c, cn_remoteInitialWindowSize c, cn_connectionSendWindow c,
     cn_connectionReceiveWindow c, cn_options c, cn_terminating c, cn_terminated c)"

lemma core_cong:
  assumes "core c = core c'"
  shows "conn_inv X k g c = conn_inv X k g c'" "base X k g c = base X k g c'" "waiters_ok c = waiters_ok c'"
    "stream_of c sid = stream_of c' sid" "cn_streams c = cn_streams c'"
  using assms by (simp_all add: core_def inv_defs held_def stream_of_def slotFree_def)

lemma core_settle [simp]: "core (settle tag r c) = core c"
  by (simp add: core_def settle_def)

lemma core_drainNext [simp]: "core (drainNext c) = core c"
  by (simp add: core_def drainNext_def)

lemma core_enqueueBytes [simp]: "core (enqueueBytes bs tag c) = core c"
proof -
  have "core (drainNext (c\<lparr>cn_writes := ws, cn_writing := b\<rparr>)) = core c" for ws b
    by (simp only: core_drainNext) (simp add: core_def)
  then show ?thesis by (simp add: enqueueBytes_def Let_def) (simp add: core_def)
qed

lemma core_sendFrame [simp]: "core (sendFrame f tag c) = core c"
  by (simp add: sendFrame_def split: sum.split)

lemma core_sendFrames [simp]: "core (sendFrames fs tag c) = core c"
  by (simp add: sendFrames_def split: sum.split)

lemma core_sendHeaderBlock [simp]: "core (sendHeaderBlock sid bs es tag c) = core c"
  by (simp add: sendHeaderBlock_def split: option.split)

lemma core_sendClosedStreamReset [simp]: "core (sendClosedStreamReset sid c) = core c"
  by (simp add: sendClosedStreamReset_def)

lemma core_refuse [simp]: "core (refuse r e c) = core c"
  by (simp add: core_def refuse_def)

lemma core_readLoopContinue [simp]: "core (readLoopContinue c) = core c"
  by (simp add: core_def readLoopContinue_def)

lemma core_fold: "(\<And>x c. core (f x c) = core c) \<Longrightarrow> core (fold f xs c) = core c"
  by (induction xs arbitrary: c) auto

lemmas core_inv [simp] =
  core_cong [OF core_settle] core_cong [OF core_drainNext] core_cong [OF core_enqueueBytes]
  core_cong [OF core_sendFrame] core_cong [OF core_sendFrames] core_cong [OF core_sendHeaderBlock]
  core_cong [OF core_sendClosedStreamReset] core_cong [OF core_refuse] core_cong [OF core_readLoopContinue]


section \<open>Updates of one stream\<close>

lemma map_of_upd:
  "map_of (map (\<lambda>(k, s). (k, if k = sid then f s else s)) xs) k =
     map_option (\<lambda>s. if k = sid then f s else s) (map_of xs k)"
  by (induction xs) auto

lemma stream_of_upd [simp]:
  "stream_of (upd_stream sid f c) k = map_option (\<lambda>s. if k = sid then f s else s) (stream_of c k)"
  by (simp add: stream_of_def upd_stream_def map_of_upd)

lemma upd_stream_sel [simp]:
  "cn_streams (upd_stream sid f c) = cn_streams c" "cn_options (upd_stream sid f c) = cn_options c"
  "cn_terminating (upd_stream sid f c) = cn_terminating c" "cn_terminated (upd_stream sid f c) = cn_terminated c"
  "cn_connectionReceiveWindow (upd_stream sid f c) = cn_connectionReceiveWindow c"
  "cn_connectionSendWindow (upd_stream sid f c) = cn_connectionSendWindow c"
  "cn_nextStreamId (upd_stream sid f c) = cn_nextStreamId c"
  "cn_remoteInitialWindowSize (upd_stream sid f c) = cn_remoteInitialWindowSize c"
  "cn_slotWaiters (upd_stream sid f c) = cn_slotWaiters c" "cn_slotOffset (upd_stream sid f c) = cn_slotOffset c"
  "cn_reservedSlots (upd_stream sid f c) = cn_reservedSlots c" "cn_granted (upd_stream sid f c) = cn_granted c"
  "cn_remoteMaximumConcurrentStreams (upd_stream sid f c) = cn_remoteMaximumConcurrentStreams c"
  "map fst (cn_objects (upd_stream sid f c)) = map fst (cn_objects c)"
  by (simp_all add: upd_stream_def) (induction "cn_objects c"; auto)

lemma upd_stream_none: "stream_of c sid = None \<Longrightarrow> upd_stream sid f c = c"
proof -
  assume "stream_of c sid = None"
  then have "map (\<lambda>(k, s). (k, if k = sid then f s else s)) (cn_objects c) = cn_objects c"
    unfolding stream_of_def by (intro map_idI) (force simp: map_of_eq_None_iff)
  then show ?thesis by (simp add: upd_stream_def)
qed

lemma sum_upd:
  assumes "distinct (map fst xs)" "map_of xs sid = Some s"
  shows "sum_list (map (\<lambda>(k, s). b s) (map (\<lambda>(k, s). (k, if k = sid then f s else s)) xs)) =
         sum_list (map (\<lambda>(k, s). b s) xs) + b (f s) - (b s :: int)"
  using assms
proof (induction xs)
  case (Cons x xs)
  obtain k t where x: "x = (k, t)" by (cases x)
  show ?case
  proof (cases "k = sid")
    case True
    then have "\<forall>y\<in>set xs. fst y \<noteq> sid" using Cons.prems x by auto
    then have "map (\<lambda>(k, s). (k, if k = sid then f s else s)) xs = xs" by (auto intro!: map_idI)
    then show ?thesis using Cons.prems True x by simp
  next
    case False
    then show ?thesis using Cons x by simp
  qed
qed simp

lemma held_upd:
  "distinct (map fst (cn_objects c)) \<Longrightarrow> stream_of c sid = Some s \<Longrightarrow>
   held (upd_stream sid f c) = held c + buffered (f s) - buffered s"
  unfolding held_def stream_of_def upd_stream_def by (simp add: sum_upd del: map_map)

lemma slotFree_upd [simp]: "slotFree (upd_stream sid f c) = slotFree c"
  by (simp add: slotFree_def)

lemma base_stream: "base X k g c \<Longrightarrow> stream_of c sid = Some s \<Longrightarrow> stream_ok (cn_nextStreamId c) sid s"
  by (simp add: base_def objects_ok_def)

lemma base_keys: "base X k g c \<Longrightarrow> distinct (map fst (cn_objects c))"
  by (simp add: base_def objects_ok_def)

lemma base_mono: "base X k g c \<Longrightarrow> X \<subseteq> Y \<Longrightarrow> base Y k g c"
  unfolding base_def streams_ok_def by blast

lemma conn_inv_mono: "conn_inv X k g c \<Longrightarrow> X \<subseteq> Y \<Longrightarrow> conn_inv Y k g c"
  unfolding conn_inv_def using base_mono by blast

text \<open>
  A change of one stream keeps the invariant when the stream stays well-formed and is not closed, or
  is exempt; a change of what it buffers is a change of the credit in hand.
\<close>

lemma base_upd:
  assumes "base X k g c"
    and "\<And>s. stream_of c sid = Some s \<Longrightarrow> stream_ok (cn_nextStreamId c) sid (f s)"
    and "\<And>s. stream_of c sid = Some s \<Longrightarrow> buffered (f s) + k' = buffered s + k"
    and "\<And>s. stream_of c sid = Some s \<Longrightarrow> sid \<in> X \<or> (ended (f s) \<longrightarrow> ended s)"
    and "stream_of c sid = None \<Longrightarrow> k' = k"
  shows "base X k' g (upd_stream sid f c)"
proof (cases "stream_of c sid")
  case None
  then show ?thesis using assms(1,5) by (simp add: upd_stream_none)
next
  case (Some s)
  have "objects_ok (upd_stream sid f c)"
    using assms(1) assms(2) [OF Some] Some unfolding base_def objects_ok_def by auto
  moreover have "streams_ok X (upd_stream sid f c)"
  proof -
    have "distinct (cn_streams c)" and r: "\<forall>k\<in>set (cn_streams c). \<exists>s. stream_of c k = Some s \<and> (k \<in> X \<or> \<not> ended s)"
      using assms(1) by (simp_all add: base_def streams_ok_def)
    moreover have "\<exists>t. stream_of (upd_stream sid f c) j = Some t \<and> (j \<in> X \<or> \<not> ended t)" if "j \<in> set (cn_streams c)" for j
      using bspec [OF r that] assms(4) [OF Some] Some by (cases "j = sid") auto
    ultimately show ?thesis by (simp add: streams_ok_def)
  qed
  moreover have "flow_ok k' (upd_stream sid f c)"
    using assms(1) assms(3) [OF Some] held_upd [OF base_keys [OF assms(1)] Some] unfolding base_def flow_ok_def by auto
  ultimately show ?thesis using assms(1) by (simp add: base_def slots_ok_def)
qed

lemma waiters_upd [simp]: "waiters_ok (upd_stream sid f c) = waiters_ok c"
  by (simp add: waiters_ok_def)

lemma inv_upd:
  assumes "conn_inv X k g c"
    and "\<And>s. stream_of c sid = Some s \<Longrightarrow> stream_ok (cn_nextStreamId c) sid s \<Longrightarrow> stream_ok (cn_nextStreamId c) sid (f s)"
    and "\<And>s. buffered (f s) = buffered s"
    and "\<And>s. stream_of c sid = Some s \<Longrightarrow> sid \<in> X \<or> (ended (f s) \<longrightarrow> ended s)"
  shows "conn_inv X k g (upd_stream sid f c)"
  using assms base_stream [of X k g c sid] base_upd [of X k g c sid f k] by (simp add: conn_inv_def)


section \<open>Slots\<close>

lemma base_cong:
  assumes "cn_objects c = cn_objects c'" "cn_streams c = cn_streams c'" "cn_nextStreamId c = cn_nextStreamId c'"
    "cn_connectionSendWindow c = cn_connectionSendWindow c'" "cn_connectionReceiveWindow c = cn_connectionReceiveWindow c'"
    "cn_options c = cn_options c'" "cn_terminating c = cn_terminating c'" "cn_terminated c = cn_terminated c'"
    "cn_remoteInitialWindowSize c = cn_remoteInitialWindowSize c'" "slots_ok g c = slots_ok g c'"
  shows "base X k g c = base X k g c'"
  using assms by (simp add: base_def objects_ok_def streams_ok_def flow_ok_def held_def stream_of_def)

lemma wakeLoop_inv:
  assumes "base X k g c" "drop (cn_slotOffset c) (cn_slotWaiters c) = ws"
  shows "base X k g (wakeLoop ws c) \<and> waiters_ok (wakeLoop ws c)"
  using assms
proof (induction ws arbitrary: c)
  case Nil
  then show ?case by (simp add: waiters_ok_def)
next
  case (Cons w ws)
  have lt: "cn_slotOffset c < length (cn_slotWaiters c)" using Cons.prems(2) by (metis drop_all list.distinct(1) not_le)
  have ws: "drop (Suc (cn_slotOffset c)) (cn_slotWaiters c) = ws" using Cons.prems(2) by (metis drop_Suc list.sel(3) tl_drop)
  have r: "cn_reservedSlots c = int (length (cn_granted c)) + g" using Cons.prems(1) by (simp add: base_def slots_ok_def)
  let ?c1 = "c\<lparr>cn_slotOffset := cn_slotOffset c + 1\<rparr>"
  let ?c2 = "?c1\<lparr>cn_slotWaiters := (cn_slotWaiters c)[cn_slotOffset c := w\<lparr>sw_active := False\<rparr>],
                 cn_reservedSlots := cn_reservedSlots c + 1, cn_granted := cn_granted c @ [sw_request w]\<rparr>"
  have "base X k g ?c1 = base X k g c" using lt r by (intro base_cong) (auto simp: slots_ok_def)
  moreover have "base X k g ?c2 = base X k g c" using lt r by (intro base_cong) (auto simp: slots_ok_def)
  ultimately have "base X k g ?c1" "base X k g ?c2" using Cons.prems(1) by auto
  moreover have "drop (cn_slotOffset ?c1) (cn_slotWaiters ?c1) = ws" "drop (cn_slotOffset ?c2) (cn_slotWaiters ?c2) = ws"
    using ws by (simp_all add: drop_update_cancel)
  ultimately show ?case
    using Cons.IH [of ?c1] Cons.IH [of ?c2] Cons.prems by (auto simp: Let_def waiters_ok_def)
qed

lemma compactSlots_inv:
  assumes "base X k g c" "waiters_ok c"
  shows "base X k g (compactSlots c) \<and> waiters_ok (compactSlots c)"
proof -
  have "base X k g (compactSlots c) = base X k g c"
    using assms(1) by (intro base_cong) (auto simp: compactSlots_def slots_ok_def base_def)
  then show ?thesis using assms by (auto simp: compactSlots_def waiters_ok_def slotFree_def)
qed

lemma wake_inv: "base X k g c \<Longrightarrow> conn_inv X k g (wakeSlotWaiters c)"
  using wakeLoop_inv compactSlots_inv unfolding wakeSlotWaiters_def conn_inv_def by blast

lemma conn_inv_base: "conn_inv X k g c \<Longrightarrow> base X k g c"
  by (simp add: conn_inv_def)

lemma failSlotWaiters_inv: "base X k g c \<Longrightarrow> conn_inv X k g (failSlotWaiters e c)"
proof -
  assume b: "base X k g c"
  let ?f = "\<lambda>w c. if sw_active w then refuse (sw_request w) e c else c"
  let ?d = "fold ?f (drop (cn_slotOffset c) (cn_slotWaiters c)) c"
  have core: "core ?d = core c" by (rule core_fold) simp
  have d: "base X k g ?d" using b core_cong(2) [OF core] by simp
  have "base X k g (?d\<lparr>cn_slotWaiters := [], cn_slotOffset := 0\<rparr>) = base X k g ?d"
    using d by (intro base_cong) (auto simp: slots_ok_def base_def)
  with d show ?thesis by (simp add: failSlotWaiters_def conn_inv_def waiters_ok_def)
qed

lemma failSlotWaiters_sel [simp]:
  "cn_streams (failSlotWaiters e c) = cn_streams c" "cn_terminating (failSlotWaiters e c) = cn_terminating c"
  "cn_terminated (failSlotWaiters e c) = cn_terminated c" "cn_slotWaiters (failSlotWaiters e c) = []"
proof -
  let ?f = "\<lambda>w c. if sw_active w then refuse (sw_request w) e c else c"
  let ?d = "fold ?f (drop (cn_slotOffset c) (cn_slotWaiters c)) c"
  have core: "core ?d = core c" by (rule core_fold) simp
  then show "cn_streams (failSlotWaiters e c) = cn_streams c" "cn_terminating (failSlotWaiters e c) = cn_terminating c"
    "cn_terminated (failSlotWaiters e c) = cn_terminated c" "cn_slotWaiters (failSlotWaiters e c) = []"
    by (simp_all add: failSlotWaiters_def core_def)
qed

text \<open>\<^verbatim>\<open>notifyFlowChange\<close> changes nothing but what uploads wait for.\<close>

definition woken :: "h2_stream \<Rightarrow> h2_stream" where
  "woken s = (case st_upload s of UploadFlow chunk offset w \<Rightarrow> s\<lparr>st_upload := UploadFlow chunk offset True\<rparr> | _ \<Rightarrow> s)"

lemma woken_simps [simp]:
  "buffered (woken s) = buffered s" "ended (woken s) = ended s" "stream_ok n k (woken s) = stream_ok n k s"
  by (auto simp: woken_def buffered_def ended_def stream_ok_def split: upload_state.split)

lemma notifyFlowChange_alt: "notifyFlowChange c = c\<lparr>cn_objects := map (\<lambda>(k, s). (k, woken s)) (cn_objects c)\<rparr>"
  by (simp add: notifyFlowChange_def woken_def)

lemma map_of_map_val: "map_of (map (\<lambda>(k, s). (k, h s)) xs) k = map_option h (map_of xs k)"
  by (induction xs) auto

lemma stream_of_notify [simp]: "stream_of (notifyFlowChange c) k = map_option woken (stream_of c k)"
  by (simp add: notifyFlowChange_alt stream_of_def map_of_map_val)

lemma notify_sel [simp]:
  "cn_streams (notifyFlowChange c) = cn_streams c" "cn_terminating (notifyFlowChange c) = cn_terminating c"
  "cn_terminated (notifyFlowChange c) = cn_terminated c" "held (notifyFlowChange c) = held c"
  "waiters_ok (notifyFlowChange c) = waiters_ok c" "cn_slotWaiters (notifyFlowChange c) = cn_slotWaiters c"
proof -
  have "sum_list (map (\<lambda>(k, s). buffered s) (map (\<lambda>(k, s). (k, woken s)) xs)) = sum_list (map (\<lambda>(k, s). buffered s) xs)" for xs :: "(int \<times> h2_stream) list"
    by (induction xs) auto
  then show "held (notifyFlowChange c) = held c" by (simp add: notifyFlowChange_alt held_def)
qed (simp_all add: notifyFlowChange_alt waiters_ok_def slotFree_def)

lemma notify_base [simp]: "base X k g (notifyFlowChange c) = base X k g c"
proof -
  have k: "map fst (map (\<lambda>(k, s). (k, woken s)) xs) = map fst xs" for xs :: "(int \<times> h2_stream) list"
    by (induction xs) auto
  have keys: "map fst (cn_objects (notifyFlowChange c)) = map fst (cn_objects c)"
    "cn_nextStreamId (notifyFlowChange c) = cn_nextStreamId c"
    by (simp_all add: notifyFlowChange_alt k del: map_map)
  have "(\<forall>s. map_option woken x = Some s \<longrightarrow> stream_ok n i s) = (\<forall>s. x = Some s \<longrightarrow> stream_ok n i s)" for x n i
    by (cases x) auto
  then have o: "objects_ok (notifyFlowChange c) = objects_ok c" unfolding objects_ok_def keys by simp
  have "streams_ok X (notifyFlowChange c) = streams_ok X c" by (force simp: streams_ok_def)
  moreover have "flow_ok k (notifyFlowChange c) = flow_ok k c"
    by (simp add: flow_ok_def) (simp add: notifyFlowChange_alt)
  moreover have "slots_ok g (notifyFlowChange c) = slots_ok g c" by (simp add: slots_ok_def notifyFlowChange_alt)
  ultimately show ?thesis using o by (simp add: base_def)
qed

lemma notify_inv [simp]: "conn_inv X k g (notifyFlowChange c) = conn_inv X k g c"
  by (simp add: conn_inv_def)


section \<open>Operations on a stream\<close>

lemma finishApplication_simps [simp]:
  "buffered (finishApplication s) = buffered s" "ended (finishApplication s) = ended s"
  "stream_ok n k (finishApplication s) = stream_ok n k s"
  by (auto simp: finishApplication_def buffered_def ended_def stream_ok_def)

lemma settleTrailers_simps [simp]:
  "buffered (settleTrailers hs s) = buffered s" "ended (settleTrailers hs s) = ended s"
  "stream_ok n k s \<Longrightarrow> stream_ok n k (settleTrailers hs s)"
  by (auto simp: settleTrailers_def buffered_def ended_def stream_ok_def)

lemma deliverResponse_simps [simp]:
  "buffered (deliverResponse p s) = buffered s" "ended (deliverResponse p s) = ended s"
  "stream_ok n k s \<Longrightarrow> stream_ok n k (deliverResponse p s)"
  by (auto simp: deliverResponse_def buffered_def ended_def stream_ok_def)

lemma ended_push [simp]: "ended (pushIncoming item s) = ended s"
  by (simp add: pushIncoming_def ended_def)

lemma stream_ok_push: "0 \<le> flow_bytes item \<Longrightarrow> stream_ok n k s \<Longrightarrow> stream_ok n k (pushIncoming item s)"
  by (auto simp: stream_ok_def pushIncoming_def ended_def)

lemma buffered_push: "stream_ok n k s \<Longrightarrow> buffered (pushIncoming item s) = buffered s + flow_bytes item"
  by (auto simp: stream_ok_def pushIncoming_def buffered_def)

lemma buffered_push_zero: "flow_bytes item = 0 \<Longrightarrow> buffered (pushIncoming item s) = buffered s"
proof -
  assume z: "flow_bytes item = 0"
  have "sum_list (map flow_bytes (drop n [item])) = 0" for n by (cases n) (auto simp: z)
  then show ?thesis by (auto simp: pushIncoming_def buffered_def z)
qed

lemma fold_plus: "fold (\<lambda>x n. n + f x) xs (m :: int) = m + sum_list (map f xs)"
  by (induction xs arbitrary: m) auto

lemma discard_simps:
  assumes "discardIncoming s = (r, s')"
  shows "buffered s = r + buffered s'" "ended s' = ended s" "st_failed s' = st_failed s"
    and "stream_ok n k s \<Longrightarrow> stream_ok n k s' \<and> 0 \<le> r"
proof -
  have r: "r = sum_list (map flow_bytes (drop (st_incomingOffset s) (st_incoming s)))"
    and s': "s' = s\<lparr>st_incoming := [], st_incomingOffset := 0\<rparr>"
    using assms by (auto simp: discardIncoming_def fold_plus)
  show "buffered s = r + buffered s'" "ended s' = ended s" "st_failed s' = st_failed s"
    by (simp_all add: r s' buffered_def ended_def)
  assume ok: "stream_ok n k s"
  then have "0 \<le> r" unfolding r by (intro sum_list_nonneg) (auto simp: stream_ok_def dest: in_set_dropD)
  with ok show "stream_ok n k s' \<and> 0 \<le> r" by (auto simp: stream_ok_def s' ended_def)
qed

section \<open>Failing a stream, terminating, credit\<close>

lemma upd_const:
  assumes c: "conn_inv X k g c" and s: "stream_of c sid = Some s"
    and "stream_ok (cn_nextStreamId c) sid t" "buffered t + k' = buffered s + k" "sid \<in> X \<or> (ended t \<longrightarrow> ended s)"
  shows "conn_inv X k' g (upd_stream sid (\<lambda>_. t) c)"
proof -
  have "base X k' g (upd_stream sid (\<lambda>_. t) c)"
    by (rule base_upd [OF conn_inv_base [OF c]]) (use assms(2-5) in auto)
  with c show ?thesis by (simp add: conn_inv_def)
qed

lemma failWith_inv:
  assumes c: "conn_inv X k g c"
    and credit: "\<And>a c'. 0 \<le> a \<Longrightarrow> conn_inv (insert sid X) (k + a) g c' \<Longrightarrow>
        cn_terminating c' = cn_terminating c \<Longrightarrow> conn_inv (insert sid X) k g (credit a c')"
  shows "conn_inv (insert sid X) k g (failWith credit sid reason c)"
proof (cases "stream_of c sid")
  case None
  then show ?thesis using c conn_inv_mono [of X k g c "insert sid X"] by (auto simp: failWith_def with_stream_def)
next
  case (Some s)
  have c': "conn_inv (insert sid X) k g c" using c conn_inv_mono by blast
  show ?thesis
  proof (cases "st_failed s")
    case True
    then show ?thesis using c' Some by (simp add: failWith_def with_stream_def)
  next
    case False
    define s1 where "s1 = s\<lparr>st_failed := True, st_localEnded := True, st_remoteEnded := True, st_uploadReader := False,
                       st_response := (if st_responseDelivered s then st_response s else promise_reject reason (st_response s)),
                       st_trailersSettled := True,
                       st_trailers := (if st_trailersSettled s then st_trailers s else promise_reject reason (st_trailers s))\<rparr>"
    obtain r s2 where d: "discardIncoming s1 = (r, s2)" by (cases "discardIncoming s1")
    have ok: "stream_ok (cn_nextStreamId c) sid s" using base_stream [OF conn_inv_base [OF c] Some] .
    have "stream_ok (cn_nextStreamId c) sid s1" "buffered s1 = buffered s"
      using ok by (auto simp: s1_def stream_ok_def ended_def buffered_def)
    with discard_simps [OF d] have s2: "stream_ok (cn_nextStreamId c) sid s2" "0 \<le> r" "buffered s2 + (k + r) = buffered s + k"
      by auto
    have "conn_inv (insert sid X) (k + r) g (upd_stream sid (\<lambda>_. s2) c)"
      by (rule upd_const [OF c' Some s2(1,3)]) simp
    then have "conn_inv (insert sid X) k g (if r \<noteq> 0 then credit r (upd_stream sid (\<lambda>_. s2) c) else upd_stream sid (\<lambda>_. s2) c)"
      using credit [OF s2(2)] by auto
    then have "conn_inv (insert sid X) k g (upd_stream sid (\<lambda>s. finishApplication (pushIncoming (IncomingError reason) s))
        (if r \<noteq> 0 then credit r (upd_stream sid (\<lambda>_. s2) c) else upd_stream sid (\<lambda>_. s2) c))"
      by (rule inv_upd) (auto simp: buffered_push_zero intro: stream_ok_push)
    then show ?thesis using Some False d by (simp add: failWith_def with_stream_def Let_def s1_def [symmetric])
  qed
qed

lemma inv_stopped: "cn_terminating c \<or> cn_terminated c \<Longrightarrow> conn_inv X k g c \<Longrightarrow> conn_inv X k' g c"
  by (auto simp: conn_inv_def base_def flow_ok_def)

lemma failWith_none_sel [simp]:
  "cn_slotWaiters (failWith (\<lambda>a c. c) sid r c) = cn_slotWaiters c"
  "cn_terminating (failWith (\<lambda>a c. c) sid r c) = cn_terminating c"
  by (simp_all add: failWith_def with_stream_def Let_def split: option.split prod.split)

lemma fail_all_inv:
  assumes "conn_inv X k g c" "cn_terminating c"
  shows "conn_inv (X \<union> set sids) k g (fold (\<lambda>sid. failWith (\<lambda>a c. c) sid r) sids c) \<and>
         cn_slotWaiters (fold (\<lambda>sid. failWith (\<lambda>a c. c) sid r) sids c) = cn_slotWaiters c \<and>
         cn_terminating (fold (\<lambda>sid. failWith (\<lambda>a c. c) sid r) sids c)"
  using assms
proof (induction sids arbitrary: X c)
  case (Cons sid sids)
  have "conn_inv (insert sid X) k g (failWith (\<lambda>a c. c) sid r c)"
    using Cons.prems inv_stopped by (intro failWith_inv) auto
  from Cons.IH [OF this] Cons.prems(2) show ?case by simp
qed simp

lemma terminate_stops: "cn_terminating (terminate r code b c) \<or> cn_terminated (terminate r code b c)"
proof -
  have "core (sendFrame f t c') = core c'" for f t c' by simp
  then have "cn_terminating (sendFrame f t c') = cn_terminating c'" for f t c'
    unfolding core_def by (metis prod.inject)
  moreover have "cn_terminating (fold (\<lambda>sid. failWith (\<lambda>a c. c) sid r) sids c') = cn_terminating c'" for sids c'
    by (induction sids arbitrary: c') auto
  ultimately show ?thesis
    by (simp add: terminate_def Let_def finishTermination_def)
qed

lemma finishTermination_inv: "conn_inv X k g c \<Longrightarrow> conn_inv X k' g (finishTermination c)"
  by (auto simp: finishTermination_def inv_defs held_def stream_of_def slotFree_def)

lemma terminate_inv:
  assumes "conn_inv X k g c" and sub: "X \<subseteq> Y"
  shows "conn_inv Y k' g (terminate r code b c)"
proof (cases "cn_terminating c \<or> cn_terminated c")
  case True
  then show ?thesis
    using conn_inv_mono [OF assms] inv_stopped by (auto simp: terminate_def)
next
  case False
  define c1 where "c1 = c\<lparr>cn_terminating := True, cn_draining := True, cn_ready := promise_reject r (cn_ready c)\<rparr>"
  define c2 where "c2 = notifyFlowChange (failSlotWaiters r c1)"
  define c3 where "c3 = fold (\<lambda>sid. failWith (\<lambda>amount c. c) sid r) (cn_streams c2) c2"
  have "base X k g c1" using assms(1) by (auto simp: c1_def conn_inv_def base_def objects_ok_def streams_ok_def flow_ok_def slots_ok_def stream_of_def)
  then have c2: "conn_inv X k g c2" "cn_terminating c2" "cn_slotWaiters c2 = []"
    using failSlotWaiters_inv by (auto simp: c2_def c1_def)
  then have c3: "conn_inv (X \<union> set (cn_streams c2)) k g c3" "cn_slotWaiters c3 = []" "cn_terminating c3"
    using fail_all_inv [OF c2(1,2)] by (auto simp: c3_def)
  then have c4: "conn_inv Y k' g (c3\<lparr>cn_streams := []\<rparr>)"
    by (auto simp: conn_inv_def base_def objects_ok_def streams_ok_def flow_ok_def slots_ok_def waiters_ok_def held_def stream_of_def)
  have "terminate r code b c =
      (let c4 = c3\<lparr>cn_streams := []\<rparr> in if \<not> b \<or> cn_transportClosed c4 then finishTermination c4
       else sendFrame (goAwayFrame code) FinalGoAwaySent c4)"
    using False by (simp add: terminate_def c1_def c2_def c3_def Let_def)
  with c4 show ?thesis using finishTermination_inv by (simp add: Let_def)
qed


lemma credit_inv:
  assumes "conn_inv X (k + a) g c"
  shows "conn_inv X k g (returnConnectionCredit a c)"
proof -
  let ?c = "c\<lparr>cn_connectionReceiveWindow := cn_connectionReceiveWindow c + a\<rparr>"
  have "conn_inv X k g ?c"
    using assms by (auto simp: conn_inv_def base_def objects_ok_def streams_ok_def flow_ok_def slots_ok_def
        waiters_ok_def held_def stream_of_def slotFree_def)
  then show ?thesis
    using assms inv_stopped [OF _ assms, of k] terminate_inv [OF assms subset_refl, of k]
    by (auto simp: returnConnectionCredit_def)
qed

lemma stream_fail_inv: "conn_inv X k g c \<Longrightarrow> conn_inv (insert sid X) k g (stream_fail sid r c)"
  unfolding stream_fail_def by (rule failWith_inv) (auto intro: credit_inv)

lemma finishDrain_inv: "conn_inv X k g c \<Longrightarrow> conn_inv X k g (finishDrainIfIdle c)"
  using terminate_inv [of X k g c X k] by (auto simp: finishDrainIfIdle_def)

lemma removed_inv:
  assumes "base (insert sid X) k g c"
  shows "base X k g (c\<lparr>cn_streams := remove1 sid (cn_streams c)\<rparr>)"
proof -
  have so: "stream_of (c\<lparr>cn_streams := ys\<rparr>) j = stream_of c j" for ys j by (simp add: stream_of_def)
  have "streams_ok X (c\<lparr>cn_streams := remove1 sid (cn_streams c)\<rparr>)"
    using assms unfolding base_def streams_ok_def so by auto
  with assms show ?thesis by (simp add: base_def objects_ok_def flow_ok_def slots_ok_def held_def so)
qed

text \<open>An exemption ends when the stream is not in the table or not closed.\<close>

lemma exempt_ends:
  assumes c: "conn_inv (insert sid X) k g c"
    and "sid \<notin> set (cn_streams c) \<or> (\<exists>s. stream_of c sid = Some s \<and> \<not> ended s)"
  shows "conn_inv X k g c"
proof -
  have "distinct (cn_streams c)"
    and r: "\<And>j. j \<in> set (cn_streams c) \<Longrightarrow> \<exists>s. stream_of c j = Some s \<and> (j \<in> insert sid X \<or> \<not> ended s)"
    using c by (simp_all add: conn_inv_def base_def streams_ok_def)
  moreover have "\<exists>s. stream_of c j = Some s \<and> (j \<in> X \<or> \<not> ended s)" if "j \<in> set (cn_streams c)" for j
    using r [OF that] assms(2) that by (cases "j = sid") auto
  ultimately have "streams_ok X c" by (simp add: streams_ok_def)
  with c show ?thesis by (simp add: conn_inv_def base_def)
qed

lemma stateChanged_inv:
  assumes c: "conn_inv (insert sid X) k g c"
  shows "conn_inv X k g (streamStateChanged sid c)"
proof (cases "sid \<in> set (cn_streams c)")
  case False
  then have "conn_inv X k g c" using exempt_ends [OF c] by blast
  then show ?thesis using False by (simp add: streamStateChanged_def with_stream_def split: option.split)
next
  case True
  moreover have "streams_ok (insert sid X) c" using c by (simp add: conn_inv_def base_def)
  ultimately obtain s where s: "stream_of c sid = Some s" unfolding streams_ok_def by blast
  show ?thesis
  proof (cases "ended s")
    case ended: True
    have "conn_inv X k g (finishDrainIfIdle (wakeSlotWaiters (c\<lparr>cn_streams := remove1 sid (cn_streams c)\<rparr>)))"
      using finishDrain_inv wake_inv removed_inv conn_inv_base [OF c] by blast
    then show ?thesis using ended True s by (auto simp: streamStateChanged_def with_stream_def ended_def)
  next
    case ended: False
    have "conn_inv X k g c"
      using exempt_ends [OF c] ended s by blast
    then show ?thesis using ended s by (auto simp: streamStateChanged_def with_stream_def ended_def)
  qed
qed

lemma stateChanged_same: "conn_inv X k g c \<Longrightarrow> conn_inv X k g (streamStateChanged sid c)"
  by (rule stateChanged_inv) (rule conn_inv_mono, auto)

lemma finishApp_inv: "conn_inv X k g c \<Longrightarrow> conn_inv X k g (upd_stream sid finishApplication c)"
  by (rule inv_upd) auto

lemma resetStream_inv:
  assumes "conn_inv (insert sid X) k g c"
  shows "conn_inv X k g (resetStream sid code c)"
proof -
  let ?c1 = "if sid \<in> set (cn_streams c) then sendFrame (rstFrame sid code) Detached c else c"
  have "conn_inv (insert sid X) k g ?c1" using assms by simp
  from stream_fail_inv [OF this, of sid] show ?thesis
    unfolding resetStream_def Let_def by (intro stateChanged_inv finishApp_inv) simp
qed

lemma resetStream_same: "conn_inv X k g c \<Longrightarrow> conn_inv X k g (resetStream sid code c)"
  by (rule resetStream_inv) (rule conn_inv_mono, auto)

lemma stream_fail_outside:
  assumes "conn_inv X k g c" "sid \<notin> set (cn_streams c)"
  shows "conn_inv X k g (stream_fail sid r c)"
proof -
  have "set (cn_streams (failWith credit sid r c)) \<subseteq> set (cn_streams c)"
    if "\<And>a c. set (cn_streams (credit a c)) \<subseteq> set (cn_streams c)" for credit
    using that [of _ "upd_stream sid _ c"] by (simp add: failWith_def with_stream_def Let_def split: option.split prod.split)
  moreover have "set (cn_streams (terminate e code b c)) \<subseteq> set (cn_streams c)" for e code b c
    by (auto simp: terminate_def Let_def finishTermination_def)
  then have "set (cn_streams (returnConnectionCredit a c)) \<subseteq> set (cn_streams c)" for a c
    by (auto simp: returnConnectionCredit_def)
  ultimately have "sid \<notin> set (cn_streams (stream_fail sid r c))" using assms(2) unfolding stream_fail_def by blast
  with stream_fail_inv [OF assms(1), of sid r] show ?thesis using exempt_ends by blast
qed

lemma cancelStream_inv:
  assumes "conn_inv X k g c"
  shows "conn_inv X k g (cancelStream sid r c)"
proof -
  have "conn_inv (insert sid X) k g (stream_fail sid r (sendFrame f Detached c))" for f
    using assms by (intro stream_fail_inv) simp
  then show ?thesis
    using stream_fail_outside [OF assms, of sid r]
    by (auto simp: cancelStream_def Let_def intro!: stateChanged_inv finishApp_inv)
qed

lemma receiveCredit_inv:
  assumes "conn_inv X (k + a) g c"
  shows "conn_inv X k g (returnReceiveCredit sid a c)"
proof -
  let ?c = "returnConnectionCredit a c"
  have c: "conn_inv X k g ?c" using credit_inv [OF assms] .
  have "conn_inv X k g (upd_stream sid (\<lambda>s. s\<lparr>st_receiveWindow := st_receiveWindow s + a\<rparr>) ?c)"
    by (rule inv_upd [OF c]) (auto simp: stream_ok_def buffered_def ended_def)
  then show ?thesis
    using c terminate_inv [OF c subset_refl]
    by (auto simp: returnReceiveCredit_def with_stream_def Let_def split: option.split)
qed


section \<open>Receiving\<close>

lemma receiveEnd_inv:
  assumes c: "conn_inv X k g c"
  shows "conn_inv X k g (receiveEnd sid c)"
proof -
  let ?c1 = "upd_stream sid (\<lambda>s. s\<lparr>st_remoteEnded := True\<rparr>) c"
  have c': "conn_inv (insert sid X) k g c" using c conn_inv_mono by blast
  have c1: "conn_inv (insert sid X) k g ?c1"
    by (rule inv_upd [OF c']) (auto simp: stream_ok_def buffered_def ended_def)
  have "conn_inv (insert sid X) k g (upd_stream sid (\<lambda>s. pushIncoming IncomingEnd (settleTrailers [] s)) ?c1)"
    by (rule inv_upd [OF c1]) (auto simp: buffered_push_zero intro: stream_ok_push)
  moreover have "conn_inv (insert sid X) k g (stream_fail sid r ?c1)" for r
    using stream_fail_inv [OF c1, of sid r] by simp
  ultimately show ?thesis
    using c by (auto simp: receiveEnd_def with_stream_def Let_def intro!: stateChanged_inv split: option.split)
qed

lemma handleHeaders_inv:
  assumes c: "conn_inv X k g c"
  shows "conn_inv X k g (handleHeaders sid parsed es c)"
proof -
  have "conn_inv X k g (upd_stream sid (deliverResponse parsed) c)" by (rule inv_upd [OF c]) auto
  moreover have "conn_inv X k g (upd_stream sid (settleTrailers hs) c)" for hs by (rule inv_upd [OF c]) auto
  ultimately show ?thesis
    using c by (auto simp: handleHeaders_def with_stream_def Let_def intro!: receiveEnd_inv resetStream_same split: option.split)
qed

lemma handleTrailers_inv:
  assumes c: "conn_inv X k g c"
  shows "conn_inv X k g (handleTrailers sid hs es c)"
proof -
  have "conn_inv X k g (upd_stream sid (settleTrailers hs) c)" by (rule inv_upd [OF c]) auto
  then show ?thesis
    using c by (auto simp: handleTrailers_def with_stream_def intro!: receiveEnd_inv resetStream_same split: option.split)
qed

lemma push_data_inv:
  assumes c: "conn_inv X (k + n) g c" and n: "0 \<le> n" and s: "stream_of c sid = Some s"
  shows "conn_inv X k g (upd_stream sid (pushIncoming (IncomingData bs n)) c)"
proof -
  have ok: "stream_ok (cn_nextStreamId c) sid s" using base_stream [OF conn_inv_base [OF c] s] .
  have "base X k g (upd_stream sid (pushIncoming (IncomingData bs n)) c)"
    by (rule base_upd [OF conn_inv_base [OF c]])
      (use s n ok in \<open>auto simp: buffered_push [OF ok] intro: stream_ok_push\<close>)
  with c show ?thesis by (simp add: conn_inv_def)
qed

lemma receiveData_inv:
  assumes c: "conn_inv X (k + n) g c" and n: "0 \<le> n" and s: "stream_of c sid = Some s"
  shows "conn_inv X k g (receiveData sid bs n es c)"
proof -
  let ?c1 = "\<lambda>m. upd_stream sid (\<lambda>s. s\<lparr>st_receivedBodyBytes := m\<rparr>) c"
  have c1: "conn_inv X (k + n) g (?c1 m)" for m
    by (rule inv_upd [OF c]) (auto simp: stream_ok_def buffered_def ended_def)
  have "conn_inv X k g (upd_stream sid (pushIncoming (IncomingData bs n)) (?c1 m))" for m
    using push_data_inv [OF c1 n] s by simp
  then show ?thesis
    using s credit_inv [OF resetStream_same [OF c]] credit_inv [OF resetStream_same [OF c1]] receiveCredit_inv [OF c1]
    by (auto simp: receiveData_def with_stream_def Let_def intro!: receiveEnd_inv)
qed

lemma peerReset_inv:
  assumes c: "conn_inv X k g c"
  shows "conn_inv X k g (peerReset sid code c)"
proof -
  have c': "conn_inv (insert sid X) k g c" using c conn_inv_mono by blast
  have "conn_inv (insert sid X) k g (upd_stream sid (\<lambda>s. s\<lparr>st_localEnded := True, st_remoteEnded := True\<rparr>) c)"
    by (rule inv_upd [OF c']) (auto simp: stream_ok_def buffered_def ended_def)
  from stream_fail_inv [OF this, of sid] show ?thesis unfolding peerReset_def by (intro stateChanged_inv) simp
qed

lemma markLocalEnd_inv:
  assumes c: "conn_inv X k g c"
  shows "conn_inv X k g (markLocalEnd sid c)"
proof -
  have c': "conn_inv (insert sid X) k g c" using c conn_inv_mono by blast
  have "conn_inv (insert sid X) k g (upd_stream sid (\<lambda>s. s\<lparr>st_localEnded := True\<rparr>) c)"
    by (rule inv_upd [OF c']) (auto simp: stream_ok_def buffered_def ended_def)
  then show ?thesis using c by (auto simp: markLocalEnd_def with_stream_def intro!: stateChanged_inv split: option.split)
qed

section \<open>Pulling and cancelling a body\<close>

lemma nextIncoming_ok:
  assumes "stream_ok n k s" "st_pull s = NoPull"
  shows "stream_ok n k (nextIncoming s)" "buffered (nextIncoming s) = buffered s" "ended (nextIncoming s) = ended s"
proof -
  show "ended (nextIncoming s) = ended s" by (auto simp: nextIncoming_def ended_def Let_def split: option.split)
  show "stream_ok n k (nextIncoming s)"
    using assms by (auto simp: nextIncoming_def stream_ok_def ended_def Let_def js_at_def split: option.split dest: in_set_dropD)
  show "buffered (nextIncoming s) = buffered s"
  proof (cases "st_incomingOffset s < length (st_incoming s)")
    case True
    then have "drop (st_incomingOffset s) (st_incoming s) =
        st_incoming s ! st_incomingOffset s # drop (Suc (st_incomingOffset s)) (st_incoming s)"
      by (simp add: Cons_nth_drop_Suc)
    then show ?thesis using True assms(2) by (auto simp: nextIncoming_def buffered_def Let_def)
  next
    case False
    then show ?thesis using assms(2) by (auto simp: nextIncoming_def buffered_def)
  qed
qed

lemma pullStart_inv:
  assumes c: "conn_inv X k g c" and s: "stream_of c sid = Some s" "st_pull s = NoPull"
  shows "conn_inv X k g (pullStart sid c)"
proof -
  note ok = nextIncoming_ok [OF base_stream [OF conn_inv_base [OF c] s(1)] s(2)]
  have "base X k g (upd_stream sid nextIncoming c)"
    by (rule base_upd [OF conn_inv_base [OF c]]) (use s ok in auto)
  with c show ?thesis by (simp add: conn_inv_def pullStart_def)
qed

lemma pullFinish_inv:
  assumes c: "conn_inv X k g c" and s: "stream_of c sid = Some s" "st_pull s = PullReady item"
  shows "conn_inv X (if st_body s = BodyReadable then k else k + flow_bytes item) g (pullFinish sid item c)"
proof -
  let ?c1 = "upd_stream sid (\<lambda>s. s\<lparr>st_pull := NoPull\<rparr>) c"
  have ok: "stream_ok (cn_nextStreamId c) sid s" using base_stream [OF conn_inv_base [OF c] s(1)] .
  have "base X (k + flow_bytes item) g ?c1"
    by (rule base_upd [OF conn_inv_base [OF c]]) (use s ok in \<open>auto simp: stream_ok_def buffered_def ended_def\<close>)
  then have c1: "conn_inv X (k + flow_bytes item) g ?c1" using c by (simp add: conn_inv_def)
  have "conn_inv X (k + flow_bytes item) g (upd_stream sid (\<lambda>s. finishApplication s\<lparr>st_body := f s\<rparr>) ?c1)" for f
    by (rule inv_upd [OF c1]) (auto simp: finishApplication_def stream_ok_def buffered_def ended_def)
  then show ?thesis
    using c1 s(1) receiveCredit_inv [OF c1] by (cases item) (auto simp: pullFinish_def with_stream_def Let_def)
qed

lemma cancelBody_inv:
  assumes c: "conn_inv X k g c"
  shows "conn_inv X k g (cancelBody sid r c)"
proof (cases "stream_of c sid")
  case None
  then show ?thesis using c by (simp add: cancelBody_def with_stream_def)
next
  case (Some s)
  obtain n s' where d: "discardIncoming s = (n, s')" by (cases "discardIncoming s")
  note ok = base_stream [OF conn_inv_base [OF c] Some]
  have "conn_inv X (k + n) g (upd_stream sid (\<lambda>_. s') c)"
    by (rule upd_const [OF c Some]) (use discard_simps [OF d] ok in auto)
  then have "conn_inv X k g (if n \<noteq> 0 then returnConnectionCredit n (upd_stream sid (\<lambda>_. s') c) else upd_stream sid (\<lambda>_. s') c)"
    using credit_inv by auto
  then show ?thesis using c Some d cancelStream_inv finishApp_inv by (simp add: cancelBody_def with_stream_def Let_def)
qed


section \<open>Frames\<close>

text \<open>
  What a handler may leave: after an error that ends the connection the credit in hand does not
  matter any more.
\<close>

fun stream_error :: "js_error \<Rightarrow> bool" where
  "stream_error (Http2WireError code (Some sid)) = True"
| "stream_error e = False"

definition outcome_ok :: "int \<Rightarrow> int \<Rightarrow> unit result \<times> h2_conn \<Rightarrow> bool" where
  "outcome_ok k g p = (case p of
     (Inr u, c) \<Rightarrow> conn_inv {} k g c
   | (Inl e, c) \<Rightarrow> (\<exists>k'. conn_inv {} k' g c \<and> (stream_error e \<longrightarrow> k' = k)))"

lemma outcome_ok_simps [simp]:
  "outcome_ok k g (Inr u, c) = conn_inv {} k g c"
  "conn_inv {} k g c \<Longrightarrow> outcome_ok k g (Inl e, c)"
  by (auto simp: outcome_ok_def)

lemma outcome_fatal: "conn_inv {} k' g c \<Longrightarrow> outcome_ok k g (Inl (Http2WireError code None), c)"
  by (auto simp: outcome_ok_def)

text \<open>A change that does not concern the invariants.\<close>

lemma inv_core: "core c = core c' \<Longrightarrow> conn_inv X k g c \<Longrightarrow> conn_inv X k g c'"
  using core_cong(1) by blast

lemma core_env [simp]:
  "core (c\<lparr>cn_decoder := d\<rparr>) = core c" "core (c\<lparr>cn_encoder := en\<rparr>) = core c" "core (c\<lparr>cn_blocks := bl\<rparr>) = core c"
  "core (c\<lparr>cn_settled := ls\<rparr>) = core c" "core (c\<lparr>cn_wire := w\<rparr>) = core c" "core (c\<lparr>cn_reading := b\<rparr>) = core c"
  "core (c\<lparr>cn_settingsAcknowledged := b\<rparr>) = core c" "core (c\<lparr>cn_receivedSettings := b\<rparr>) = core c"
  "core (c\<lparr>cn_ready := p\<rparr>) = core c" "core (c\<lparr>cn_localGoAwaySent := b\<rparr>) = core c"
  "core (c\<lparr>cn_draining := b\<rparr>) = core c" "core (c\<lparr>cn_started := b\<rparr>) = core c" "core (c\<lparr>cn_aborted := as\<rparr>) = core c"
  "core (c\<lparr>cn_remoteMaximumFrameSize := n\<rparr>) = core c" "core (c\<lparr>cn_remoteMaximumHeaderListSize := n\<rparr>) = core c"
  "core (c\<lparr>cn_remoteExtendedConnect := b\<rparr>) = core c" "core (c\<lparr>cn_readyWaiters := rs\<rparr>) = core c"
  "core (c\<lparr>cn_remoteLastStreamId := n\<rparr>) = core c" "core (c\<lparr>cn_remoteGoAwayReceived := b\<rparr>) = core c"
  "core (c\<lparr>cn_writeOffset := m\<rparr>) = core c" "core (c\<lparr>cn_writes := ws\<rparr>) = core c"
  by (simp_all add: core_def)

lemmas core_env_inv [simp] = core_env [THEN core_cong(1)] core_env [THEN core_cong(2)] core_env [THEN core_cong(4)]

lemma handleHeaderBlock_ok: "conn_inv {} k g c \<Longrightarrow> outcome_ok k g (handleHeaderBlock hb c)"
proof -
  assume c: "conn_inv {} k g c"
  have "outcome_ok k g (dispatchHeaders hb hs c)" if c: "conn_inv {} k g c" for hs c
    using c by (auto simp: dispatchHeaders_def intro!: resetStream_same handleTrailers_inv handleHeaders_inv
        split: sum.split option.split)
  with c show ?thesis by (simp add: handleHeaderBlock_def Let_def split: prod.split sum.split)
qed

lemma handleData_ok:
  assumes c: "conn_inv {} k g c"
  shows "outcome_ok k g (handleData f c)"
proof -
  let ?n = "int (length (fr_payload f))"
  let ?c1 = "c\<lparr>cn_connectionReceiveWindow := cn_connectionReceiveWindow c - ?n\<rparr>"
  have c1: "conn_inv {} (k + ?n) g ?c1"
    using c by (auto simp: conn_inv_def base_def objects_ok_def streams_ok_def flow_ok_def slots_ok_def
        waiters_ok_def held_def stream_of_def slotFree_def)
  let ?c2 = "\<lambda>sid. upd_stream sid (\<lambda>s. s\<lparr>st_receiveWindow := st_receiveWindow s - ?n\<rparr>) ?c1"
  have c2: "conn_inv {} (k + ?n) g (?c2 sid)" for sid
    by (rule inv_upd [OF c1]) (auto simp: stream_ok_def buffered_def ended_def)
  have data: "conn_inv {} k g (receiveData sid bs ?n es (?c2 sid))" if "stream_of (?c2 sid) sid = Some s" for sid bs es s
    using receiveData_inv [OF c2 _ that] by simp
  have reset: "conn_inv {} k g (resetStream sid code (returnConnectionCredit ?n (?c2 sid)))" for sid code
    using resetStream_same credit_inv [OF c2] by blast
  have none: "conn_inv {} k g (?c2 sid)" if "stream_of (?c2 sid) sid = None" "sid \<in> set (cn_streams c)" for sid
  proof -
    have "streams_ok {} (?c2 sid)" using c2 [of sid] by (simp add: conn_inv_def base_def)
    then show ?thesis using that unfolding streams_ok_def by fastforce
  qed
  have *: "conn_inv {} k g (with_stream sid (?c2 sid) (\<lambda>s. if st_receiveWindow s < 0
             then resetStream sid FLOW_CONTROL_ERROR (returnConnectionCredit ?n (?c2 sid))
             else receiveData sid bs ?n es (?c2 sid)))" if "sid \<in> set (cn_streams c)" for sid bs es
    unfolding with_stream_def using none [OF _ that] data reset by (auto split: option.split)
  have "sid \<in> set (cn_streams c)" if "findStream i c = Inr (Some sid)" for i sid
    using that by (auto simp: findStream_def split: if_splits)
  then show ?thesis
    unfolding handleData_def Let_def
    using c outcome_fatal [OF c1] credit_inv [OF c1] * by (auto simp: res_bind_Inr_iff split: sum.split option.split)
qed

lemma handleReset_ok: "conn_inv {} k g c \<Longrightarrow> outcome_ok k g (handleReset f c)"
  by (auto simp: handleReset_def intro!: peerReset_inv split: sum.split option.split)

lemma adjustWindows_ok:
  assumes "conn_inv {} k g c" "adjustWindows d sids c = (r, c')"
  shows "conn_inv {} k g c'"
  using assms
proof (induction sids arbitrary: c)
  case (Cons sid sids)
  let ?c = "upd_stream sid (\<lambda>s. s\<lparr>st_sendWindow := st_sendWindow s + d\<rparr>) c"
  show ?case
  proof (cases "stream_of c sid")
    case None
    then show ?thesis using Cons by auto
  next
    case (Some s)
    show ?thesis
    proof (cases "d > 0 \<and> st_sendWindow s > MAX_WINDOW_SIZE - d")
      case True
      then show ?thesis using Cons.prems Some by simp
    next
      case False
      have "conn_inv {} k g ?c"
        by (rule inv_upd [OF Cons.prems(1)]) (use False Some in \<open>auto simp: stream_ok_def buffered_def ended_def\<close>)
      then show ?thesis using Cons.IH [of ?c] Cons.prems(2) False Some by auto
    qed
  qed
qed simp

lemma applyRemoteSetting_ok:
  assumes c: "conn_inv {} k g c" and v: "se_identifier st = SETTING_INITIAL_WINDOW_SIZE \<longrightarrow> se_value st \<le> MAX_WINDOW_SIZE"
  shows "outcome_ok k g (applyRemoteSetting st c)"
proof -
  have "base {} k g (c\<lparr>cn_remoteMaximumConcurrentStreams := n\<rparr>) = base {} k g c" for n
    by (rule base_cong) (auto simp: slots_ok_def)
  then have 1: "conn_inv {} k g (wakeSlotWaiters (c\<lparr>cn_remoteMaximumConcurrentStreams := n\<rparr>))" for n
    using wake_inv conn_inv_base [OF c] by blast
  have 2: "conn_inv {} k g (c1\<lparr>cn_remoteInitialWindowSize := n\<rparr>)" if "conn_inv {} k g c1" "n \<le> MAX_WINDOW_SIZE" for c1 n
    using that by (auto simp: conn_inv_def base_def objects_ok_def streams_ok_def flow_ok_def slots_ok_def
        waiters_ok_def held_def stream_of_def slotFree_def)
  show ?thesis
    using c 1 2 v adjustWindows_ok [OF c]
    by (auto simp: applyRemoteSetting_def Let_def try_bind_def intro: outcome_ok_simps(2)
        split: sum.split prod.split)
qed

lemma settingsLoop_valid:
  assumes "settingsLoop payload offset ss = Inr ss'" "\<forall>x\<in>set ss. validateHttp2Setting (se_identifier x) (se_value x) = Inr ()"
  shows "\<forall>x\<in>set ss'. validateHttp2Setting (se_identifier x) (se_value x) = Inr ()"
  using assms
proof (induction payload offset ss rule: settingsLoop.induct)
  case (1 payload offset ss)
  show ?case
  proof (cases "offset < length payload")
    case False
    then show ?thesis using "1.prems" by (simp add: settingsLoop.simps [of payload offset])
  next
    case True
    then show ?thesis
      using "1.prems" "1.IH" [OF True refl] by (auto simp: settingsLoop.simps [of payload offset ss] Let_def res_bind_Inr_iff)
  qed
qed

lemma parseSettings_valid:
  assumes "parseHttp2Settings f = Inr ss" "x \<in> set ss"
  shows "se_identifier x = SETTING_INITIAL_WINDOW_SIZE \<longrightarrow> se_value x \<le> MAX_WINDOW_SIZE"
proof -
  have "settingsLoop (fr_payload f) 0 [] = Inr ss"
    using assms(1) by (auto simp: parseHttp2Settings_def res_bind_Inr_iff frameSizeError_def split: if_splits)
  from settingsLoop_valid [OF this] assms(2) have "validateHttp2Setting (se_identifier x) (se_value x) = Inr ()" by simp
  then show ?thesis by (auto simp: validateHttp2Setting_def protocolError_def split: if_splits)
qed

lemma try_bind_ok:
  assumes "outcome_ok k g m" "\<And>c. conn_inv {} k g c \<Longrightarrow> outcome_ok k g (f c)"
  shows "outcome_ok k g (try_bind m (\<lambda>_. f))"
proof (cases m)
  case (Pair r c)
  then show ?thesis using assms by (cases r) (auto simp: try_bind_def outcome_ok_def)
qed

lemma applySettings_ok:
  assumes "conn_inv {} k g c" "\<forall>x\<in>set ss. se_identifier x = SETTING_INITIAL_WINDOW_SIZE \<longrightarrow> se_value x \<le> MAX_WINDOW_SIZE"
  shows "outcome_ok k g (applySettings ss c)"
  using assms
proof (induction ss arbitrary: c)
  case (Cons x ss)
  have "outcome_ok k g (try_bind (applyRemoteSetting x c) (\<lambda>_. applySettings ss))"
    using Cons by (intro try_bind_ok applyRemoteSetting_ok) auto
  then show ?case by simp
qed simp

lemma handleSettings_ok:
  assumes c: "conn_inv {} k g c"
  shows "outcome_ok k g (handleSettings f c)"
proof -
  have "outcome_ok k g (try_bind (applySettings ss c) (\<lambda>_ c1. (Inr (), sendFrame a SettingsAckSent
      (c1\<lparr>cn_receivedSettings := True, cn_reading := False\<rparr>))))" if "parseHttp2Settings f = Inr ss" for ss a
    using c parseSettings_valid [OF that] by (intro try_bind_ok applySettings_ok) auto
  then show ?thesis using c by (auto simp: handleSettings_def split: sum.split)
qed

lemma goAway_inv:
  assumes "conn_inv {} k g c"
  shows "conn_inv {} k g (fold (goAwayStream lst) sids c)"
  using assms
proof (induction sids arbitrary: c)
  case (Cons sid sids)
  have "conn_inv {} k g (goAwayStream lst sid c)"
    using Cons.prems by (auto simp: goAwayStream_def intro!: stateChanged_inv stream_fail_inv)
  then show ?case using Cons.IH by simp
qed simp

lemma handleGoAway_ok:
  assumes c: "conn_inv {} k g c"
  shows "outcome_ok k g (handleGoAway f c)"
proof -
  have "conn_inv {} k g (finishDrainIfIdle (fold (goAwayStream lst) sids (failSlotWaiters e
      (c\<lparr>cn_remoteLastStreamId := lst, cn_remoteGoAwayReceived := True, cn_draining := True\<rparr>))))" for lst e sids
    using c by (intro finishDrain_inv goAway_inv failSlotWaiters_inv) (simp add: conn_inv_base)
  then show ?thesis using c by (auto simp: handleGoAway_def Let_def split: sum.split)
qed

lemma handleWindowUpdate_ok:
  assumes c: "conn_inv {} k g c"
  shows "outcome_ok k g (handleWindowUpdate f c)"
proof (cases "parseHttp2WindowUpdate f")
  case (Inl e)
  then show ?thesis using c by (simp add: handleWindowUpdate_def)
next
  case (Inr n)
  have "0 \<le> js_and x MAX_WINDOW_SIZE" for x by (simp add: js_and_def MAX_WINDOW_SIZE_def)
  then have n: "0 \<le> n" using Inr by (auto simp: parseHttp2WindowUpdate_def res_bind_Inr_iff Let_def split: if_splits)
  have 1: "conn_inv {} k g (c\<lparr>cn_connectionSendWindow := cn_connectionSendWindow c + n\<rparr>)"
    if "\<not> cn_connectionSendWindow c > MAX_WINDOW_SIZE - n"
    using c that n by (auto simp: conn_inv_def base_def objects_ok_def streams_ok_def flow_ok_def slots_ok_def
        waiters_ok_def held_def stream_of_def slotFree_def)
  have 2: "conn_inv {} k g (upd_stream sid (\<lambda>s. s\<lparr>st_sendWindow := st_sendWindow s + n\<rparr>) c)"
    if "stream_of c sid = Some s" "\<not> st_sendWindow s > MAX_WINDOW_SIZE - n" for sid s
    by (rule inv_upd [OF c]) (use that in \<open>auto simp: stream_ok_def buffered_def ended_def\<close>)
  show ?thesis
    using c Inr 1 2 by (auto simp: handleWindowUpdate_def with_stream_def intro!: resetStream_same split: sum.split option.split)
qed


lemma if_ok: "outcome_ok k g x \<Longrightarrow> outcome_ok k g y \<Longrightarrow> outcome_ok k g (if b then x else y)"
  by simp

lemma handleFrame_ok:
  assumes c: "conn_inv {} k g c"
  shows "outcome_ok k g (handleFrame f c)"
proof (cases "assembler_accept f (cn_blocks c)")
  case (Pair accepted bl)
  define c1 where "c1 = c\<lparr>cn_blocks := bl\<rparr>"
  have c1: "conn_inv {} k g c1" using c by (simp add: c1_def)
  have "outcome_ok k g (res_unit r, c1)" for r :: "http2_priority result"
    using c1 by (cases r) (auto simp: res_unit_def)
  moreover have "conn_inv {} k g (sendFrame a t (c1\<lparr>cn_reading := False\<rparr>))" for a t using c1 by simp
  ultimately have *: "outcome_ok k g (case hb of None \<Rightarrow> (Inr (), c1) | Some h \<Rightarrow> handleHeaderBlock h c1)"
      "outcome_ok k g (res_unit (parseHttp2Priority f), c1)" "outcome_ok k g (Inr (), c1)"
      "outcome_ok k g (Inr (), sendFrame a t (c1\<lparr>cn_reading := False\<rparr>))" "outcome_ok k g (Inl e, c1)"
      "outcome_ok k g (Inl e, c)" for hb a t e
    using c c1 handleHeaderBlock_ok [OF c1] by (simp_all split: option.split)
  show ?thesis
    unfolding handleFrame_def Pair Let_def prod.case c1_def [symmetric]
    by (cases accepted; simp only: sum.case)
      (intro if_ok * handleData_ok handleReset_ok handleSettings_ok handleGoAway_ok handleWindowUpdate_ok c1)+
qed

lemma readLoopError_inv:
  assumes "conn_inv {} k' g c"
  shows "conn_inv {} k g (readLoopError e c)"
proof -
  have c1: "conn_inv {} k' g (c\<lparr>cn_reading := False\<rparr>)" using assms by simp
  show ?thesis
    unfolding readLoopError_def Let_def
    using inv_stopped [OF _ c1, of k] terminate_inv [OF c1 subset_refl, of k] by auto
qed

lemma frameError_inv:
  assumes "outcome_ok k g (Inl e, c)"
  shows "conn_inv {} k g (frameError e c)"
proof (cases "stream_error e")
  case True
  then obtain code sid where e: "e = Http2WireError code (Some sid)" by (cases e rule: stream_error.cases) auto
  have "conn_inv {} k g c" using assms True by (auto simp: outcome_ok_def)
  then show ?thesis by (auto simp: e frameError_def resetStream_same)
next
  case False
  then have "frameError e c = readLoopError e c" by (cases e rule: stream_error.cases) (auto simp: frameError_def)
  then show ?thesis using assms readLoopError_inv by (auto simp: outcome_ok_def)
qed

lemma readLoopTurn_inv:
  assumes c: "conn_inv {} k g c"
  shows "conn_inv {} k g (readLoopTurn r c)"
proof -
  have "conn_inv {} k g (case handleFrame f c of (Inr u, c1) \<Rightarrow> c1 | (Inl e, c1) \<Rightarrow> frameError e c1)" for f
    using handleFrame_ok [OF c, of f] frameError_inv by (cases "handleFrame f c") (auto split: sum.split)
  then show ?thesis
    using readLoopError_inv [OF c] by (auto simp: readLoopTurn_def Let_def split: sum.split)
qed

section \<open>Requests and uploads\<close>

lemma reserve_inv:
  assumes c: "conn_inv {} k g c"
  shows "conn_inv {} k g (reserveStreamSlot r c)"
proof -
  let ?c1 = "c\<lparr>cn_reservedSlots := cn_reservedSlots c + 1, cn_granted := cn_granted c @ [r]\<rparr>"
  let ?c2 = "c\<lparr>cn_slotWaiters := cn_slotWaiters c @ [\<lparr>sw_request = r, sw_active = True\<rparr>]\<rparr>"
  have "base {} k g ?c1 = base {} k g c" by (rule base_cong) (auto simp: slots_ok_def)
  moreover have "waiters_ok ?c1" using c by (auto simp: conn_inv_def waiters_ok_def slotFree_def)
  moreover have "base {} k g ?c2 = base {} k g c"
    using c by (intro base_cong) (auto simp: slots_ok_def conn_inv_def base_def)
  moreover have "waiters_ok ?c2" if "\<not> slotFree c" using that by (auto simp: waiters_ok_def slotFree_def)
  ultimately show ?thesis using c by (auto simp: reserveStreamSlot_def conn_inv_def)
qed

lemma releaseSlot_inv:
  assumes "conn_inv {} k (g + 1) c"
  shows "conn_inv {} k g (releaseSlot c)"
proof -
  have "base {} k g (c\<lparr>cn_reservedSlots := cn_reservedSlots c - 1\<rparr>)"
    using assms by (auto simp: conn_inv_def base_def objects_ok_def streams_ok_def flow_ok_def slots_ok_def held_def stream_of_def)
  then show ?thesis unfolding releaseSlot_def by (rule wake_inv)
qed

lemma core_prepareRequest: "prepareRequest r sid c = (x, c') \<Longrightarrow> core c' = core c"
  by (auto simp: prepareRequest_def Let_def split: sum.splits if_splits prod.splits)

lemma attachSignal_inv:
  assumes c: "conn_inv X k g c"
  shows "conn_inv X k g (attachSignal signal sid c)"
proof -
  have "conn_inv X k g (upd_stream sid (\<lambda>s. s\<lparr>st_abortAttached := True\<rparr>) c)"
    by (rule inv_upd [OF c]) (auto simp: stream_ok_def buffered_def ended_def)
  then show ?thesis using cancelStream_inv [OF c] by (simp add: attachSignal_def)
qed

lemma openStream_inv:
  assumes c: "conn_inv {} k (g + 1) c" and sid: "odd sid" "0 < sid" "sid < cn_nextStreamId c" "sid \<notin> set (map fst (cn_objects c))"
  shows "conn_inv {} k g (openStream r sid block len c)"
proof -
  define s where "s = newHttp2ClientStream sid (cn_remoteInitialWindowSize c) (op_initialStreamWindowSize (cn_options c))
      (requestMethod (rq_headers r)) (rq_body r) len (rq_onInformational r) (rq_signal r)"
  let ?c1 = "c\<lparr>cn_reservedSlots := cn_reservedSlots c - 1, cn_objects := cn_objects c @ [(sid, s)],
               cn_streams := cn_streams c @ [sid], cn_highestOpenedStreamId := sid\<rparr>"
  have w: "cn_remoteInitialWindowSize c \<le> MAX_WINDOW_SIZE" using c by (simp add: conn_inv_def base_def flow_ok_def)
  have s: "stream_ok (cn_nextStreamId c) sid s" "buffered s = 0" "\<not> ended s"
    using sid(1-3) w by (auto simp: s_def newHttp2ClientStream_def stream_ok_def buffered_def ended_def)
  have none: "stream_of c sid = None" using sid(4) by (simp add: stream_of_def map_of_eq_None_iff)
  have so: "stream_of ?c1 j = (if j = sid then Some s else stream_of c j)" for j
    using none by (auto simp: stream_of_def map_add_def split: option.split)
  have fresh: "sid \<notin> set (cn_streams c)"
    using c none by (auto simp: conn_inv_def base_def streams_ok_def)
  have "objects_ok ?c1" using c s(1) sid(4) unfolding conn_inv_def base_def objects_ok_def so by auto
  moreover have "streams_ok {} ?c1" using c s(3) fresh unfolding conn_inv_def base_def streams_ok_def so by auto
  moreover have "flow_ok k ?c1" using c s(2) by (auto simp: conn_inv_def base_def flow_ok_def held_def)
  moreover have "slots_ok g ?c1" using c by (auto simp: conn_inv_def base_def slots_ok_def)
  moreover have "waiters_ok ?c1" using c by (auto simp: conn_inv_def waiters_ok_def slotFree_def)
  ultimately have "conn_inv {} k g ?c1" by (simp add: conn_inv_def base_def)
  then show ?thesis using attachSignal_inv by (simp add: openStream_def Let_def s_def [symmetric])
qed

lemma requestOpen_inv:
  assumes c: "conn_inv {} k (g + 1) c"
  shows "conn_inv {} k g (requestOpen r c)"
proof -
  let ?c1 = "c\<lparr>cn_nextStreamId := cn_nextStreamId c + 2\<rparr>"
  have nx: "odd (cn_nextStreamId c)" "0 < cn_nextStreamId c" using c by (auto simp: conn_inv_def base_def objects_ok_def)
  have so: "stream_of ?c1 j = stream_of c j" for j by (simp add: stream_of_def)
  have "objects_ok ?c1"
    using c nx base_stream [OF conn_inv_base [OF c]] unfolding conn_inv_def base_def objects_ok_def so
    by (fastforce simp: stream_ok_def)
  then have c1: "conn_inv {} k (g + 1) ?c1"
    using c by (auto simp: conn_inv_def base_def streams_ok_def flow_ok_def slots_ok_def waiters_ok_def slotFree_def held_def so)
  have new: "cn_nextStreamId c \<notin> set (map fst (cn_objects c))"
  proof
    assume "cn_nextStreamId c \<in> set (map fst (cn_objects c))"
    then obtain s where "stream_of c (cn_nextStreamId c) = Some s"
      unfolding stream_of_def by (metis map_of_eq_None_iff not_Some_eq set_map)
    then show False using base_stream [OF conn_inv_base [OF c]] by (auto simp: stream_ok_def)
  qed
  have 1: "conn_inv {} k g (releaseSlot (refuse r e c2))" if "core c2 = core ?c1" for e c2
  proof (rule releaseSlot_inv)
    show "conn_inv {} k (g + 1) (refuse r e c2)" using inv_core [OF that [symmetric] c1] by simp
  qed
  have 2: "conn_inv {} k g (openStream r (cn_nextStreamId c) block len c2)" if "core c2 = core ?c1" for block len c2
  proof (rule openStream_inv)
    show "conn_inv {} k (g + 1) c2" using inv_core [OF that [symmetric] c1] .
    show "cn_nextStreamId c < cn_nextStreamId c2" "cn_nextStreamId c \<notin> set (map fst (cn_objects c2))"
      using that new by (simp_all add: core_def)
  qed (use nx in auto)
  have "conn_inv {} k g (case prepareRequest r (cn_nextStreamId c) ?c1 of
          (Inl e, c2) \<Rightarrow> releaseSlot (refuse r e c2)
        | (Inr (block, len), c2) \<Rightarrow> openStream r (cn_nextStreamId c) block len c2)"
    using 1 2 core_prepareRequest [of r "cn_nextStreamId c" ?c1] by (auto split: prod.split sum.split)
  then show ?thesis using c by (auto simp: requestOpen_def Let_def intro!: releaseSlot_inv)
qed


lemma reserveSendCapacity_inv:
  assumes c: "conn_inv {} k g c" and r: "reserveSendCapacity sid n c = (r, c')"
  shows "conn_inv {} k g c'"
proof (cases "c' = c")
  case False
  obtain s where s: "stream_of c sid = Some s"
    using r False by (auto simp: reserveSendCapacity_def split: option.splits)
  define p where "p = min (min (min n (cn_remoteMaximumFrameSize c)) (cn_connectionSendWindow c)) (st_sendWindow s)"
  have p: "0 < p" "c' = upd_stream sid (\<lambda>s. s\<lparr>st_sendWindow := st_sendWindow s - p\<rparr>)
                     (c\<lparr>cn_connectionSendWindow := cn_connectionSendWindow c - p\<rparr>)"
    using r s False by (auto simp: reserveSendCapacity_def Let_def p_def split: if_splits)
  have "p \<le> cn_connectionSendWindow c" by (simp add: p_def)
  then have 1: "conn_inv {} k g (c\<lparr>cn_connectionSendWindow := cn_connectionSendWindow c - p\<rparr>)"
    using c p(1) by (auto simp: conn_inv_def base_def objects_ok_def streams_ok_def flow_ok_def slots_ok_def
        waiters_ok_def held_def stream_of_def slotFree_def)
  show ?thesis
    unfolding p(2) by (rule inv_upd [OF 1]) (use p(1) in \<open>auto simp: stream_ok_def buffered_def ended_def\<close>)
qed (use c in simp)

lemma upload_upd_inv:
  assumes c: "conn_inv X k g c"
  shows "conn_inv X k g (uploadState sid u c)" "conn_inv X k g (uploadFinally sid c)"
    "conn_inv X k g (upd_stream sid (\<lambda>s. s\<lparr>st_uploadReader := b\<rparr>) c)"
  unfolding uploadState_def uploadFinally_def
  by (rule inv_upd [OF c]; auto simp: stream_ok_def buffered_def ended_def)+

lemma uploadCatch_inv: "conn_inv X k g c \<Longrightarrow> conn_inv X k g (uploadCatch sid c)"
  by (auto simp: uploadCatch_def with_stream_def intro!: upload_upd_inv resetStream_same split: option.split)

lemma uploadLoop_inv: "conn_inv X k g c \<Longrightarrow> conn_inv X k g (uploadLoop sid c)"
  by (auto simp: uploadLoop_def with_stream_def intro!: upload_upd_inv split: option.split)

lemma uploadDone_inv: "conn_inv X k g c \<Longrightarrow> conn_inv X k g (uploadDone sid c)"
  by (auto simp: uploadDone_def with_stream_def intro!: upload_upd_inv uploadCatch_inv split: option.split sum.split)

lemma uploadReserve_inv:
  assumes c: "conn_inv {} k g c"
  shows "conn_inv {} k g (uploadReserve sid chunk offset c)"
  using reserveSendCapacity_inv [OF c]
  by (auto simp: uploadReserve_def intro!: upload_upd_inv uploadCatch_inv split: prod.split sum.split)

lemma uploadChunk_inv: "conn_inv {} k g c \<Longrightarrow> conn_inv {} k g (uploadChunk sid chunk offset c)"
  by (auto simp: uploadChunk_def with_stream_def intro!: uploadReserve_inv uploadLoop_inv split: option.split)

lemma uploadRead_inv:
  assumes c: "conn_inv {} k g c"
  shows "conn_inv {} k g (uploadRead sid input c)"
proof -
  have "conn_inv {} k g (upd_stream sid (\<lambda>_. s') c)" if "stream_of c sid = Some s" "acceptSendBytes n s = (r, s')" for s s' n r
    by (rule upd_const [OF c that(1)])
      (use that base_stream [OF conn_inv_base [OF c] that(1)] in
        \<open>auto simp: acceptSendBytes_def Let_def stream_ok_def buffered_def ended_def\<close>)
  then show ?thesis
    using c by (auto simp: uploadRead_def with_stream_def Let_def intro!: uploadCatch_inv uploadDone_inv uploadChunk_inv
        split: upload_input.split option.split prod.split sum.split)
qed

section \<open>Events\<close>

lemma continueWrite_inv:
  assumes c: "conn_inv {} k g c"
  shows "conn_inv {} k g (continueWrite tag r c)"
proof -
  have "conn_inv {} k g (streamStateChanged sid (stream_fail sid e c))" for sid e
    using c by (intro stateChanged_inv stream_fail_inv)
  moreover have "conn_inv {} k g (frameError e c)" for e using c by (intro frameError_inv) simp
  moreover have "conn_inv {} k g (finishDrainIfIdle (c\<lparr>cn_localGoAwaySent := True\<rparr>))"
    using c by (intro finishDrain_inv) simp
  moreover have "conn_inv {} k g (wakeSlotWaiters (c\<lparr>cn_ready := p\<rparr>))" for p
    using conn_inv_base [OF c] by (intro wake_inv) simp
  ultimately show ?thesis
    using c by (auto simp: continueWrite_def with_stream_def
        intro!: uploadLoop_inv upload_upd_inv uploadCatch_inv uploadChunk_inv markLocalEnd_inv stateChanged_same
          finishTermination_inv
        split: write_tag.split option.split upload_state.split)
qed

lemma writeDone_inv:
  assumes c: "conn_inv {} k g c"
  shows "conn_inv {} k g (writeDone r c)"
proof -
  have "conn_inv {} k g (terminate e code b ((fold (\<lambda>(bs, tag). settle tag (Some e)) ws (settle t (Some e) c))\<lparr>cn_writeOffset := n\<rparr>))"
    for e code b ws t n
  proof (rule terminate_inv [OF _ subset_refl])
    have "core (fold (\<lambda>(bs, tag). settle tag (Some e)) ws (settle t (Some e) c)) = core (settle t (Some e) c)"
      by (rule core_fold) (simp split: prod.split)
    then have "core ((fold (\<lambda>(bs, tag). settle tag (Some e)) ws (settle t (Some e) c))\<lparr>cn_writeOffset := n\<rparr>) = core c"
      by simp
    from inv_core [OF this [symmetric] c]
    show "conn_inv {} k g ((fold (\<lambda>(bs, tag). settle tag (Some e)) ws (settle t (Some e) c))\<lparr>cn_writeOffset := n\<rparr>)" .
  qed
  then show ?thesis using c by (auto simp: writeDone_def split: option.split prod.split)
qed

lemma start_inv: "conn_inv {} k g c \<Longrightarrow> conn_inv {} k g (snd (start c))"
  by (simp add: start_def Let_def split: sum.split)

lemma drain_inv:
  assumes c: "conn_inv {} k g c"
  shows "conn_inv {} k g (drainConnection c)"
proof -
  have "conn_inv {} k g (failSlotWaiters e (c\<lparr>cn_draining := True\<rparr>))" for e
    using conn_inv_base [OF c] by (intro failSlotWaiters_inv) simp
  then show ?thesis
    using c terminate_inv [OF c subset_refl] finishDrain_inv [OF c] by (auto simp: drainConnection_def)
qed

lemma close_inv:
  assumes c: "conn_inv {} k g c"
  shows "conn_inv {} k g (closeConnection r c)"
proof -
  have "conn_inv {} k g (c\<lparr>cn_draining := True\<rparr>)" using c by simp
  from terminate_inv [OF this subset_refl] c show ?thesis by (auto simp: closeConnection_def)
qed

lemma request_inv: "conn_inv {} k g c \<Longrightarrow> conn_inv {} k g (request r c)"
  by (simp add: request_def)

lemma abortSlotWaiter_inv:
  assumes c: "conn_inv {} k g c" and i: "cn_slotOffset c \<le> i" "i < length (cn_slotWaiters c)"
  shows "conn_inv {} k g (abortSlotWaiter i c)"
proof -
  let ?c = "c\<lparr>cn_slotWaiters := remove_nth i (cn_slotWaiters c)\<rparr>"
  have "base {} k g ?c = base {} k g c"
    using i c by (intro base_cong) (auto simp: slots_ok_def remove_nth_def conn_inv_def base_def)
  moreover have "set (drop (cn_slotOffset c) (remove_nth i (cn_slotWaiters c))) \<subseteq> set (drop (cn_slotOffset c) (cn_slotWaiters c))"
  proof
    fix w assume "w \<in> set (drop (cn_slotOffset c) (remove_nth i (cn_slotWaiters c)))"
    then consider "w \<in> set (drop (cn_slotOffset c) (take i (cn_slotWaiters c)))" | "w \<in> set (drop (Suc i) (cn_slotWaiters c))"
      using i by (auto simp: remove_nth_def min_def)
    then show "w \<in> set (drop (cn_slotOffset c) (cn_slotWaiters c))"
    proof cases
      case 1
      then show ?thesis unfolding drop_take by (rule in_set_takeD)
    next
      case 2
      then show ?thesis using set_drop_subset_set_drop [of "cn_slotOffset c" "Suc i"] i by (meson le_SucI subsetD)
    qed
  qed
  moreover have "slotFree ?c = slotFree c" by (simp add: slotFree_def)
  moreover have "waiters_ok c" "base {} k g c" using c by (simp_all add: conn_inv_def)
  ultimately have "conn_inv {} k g ?c" by (auto simp: conn_inv_def waiters_ok_def)
  then show ?thesis by (simp add: abortSlotWaiter_def)
qed


text \<open>
  The one event that loses credit: an item of data reaches a pull whose body was cancelled meanwhile.
\<close>

definition loses_credit :: "h2_event \<Rightarrow> h2_conn \<Rightarrow> bool" where
  "loses_credit ev c = (case ev of
     PullDone sid \<Rightarrow> (case stream_of c sid of
         Some s \<Rightarrow> st_body s \<noteq> BodyReadable \<and> pull_bytes (st_pull s) \<noteq> 0
       | None \<Rightarrow> False)
   | _ \<Rightarrow> False)"

lemma handle_pull_done:
  assumes c: "conn_inv {} k 0 c" and h: "handle (PullDone sid) c = Some c'"
  shows "\<exists>k'. conn_inv {} k' 0 c' \<and> k \<le> k' \<and> (\<not> loses_credit (PullDone sid) c \<longrightarrow> k' = k)"
proof -
  obtain s item where s: "stream_of c sid = Some s" "st_pull s = PullReady item" "c' = pullFinish sid item c"
    using h by (auto simp: handle_def split: option.splits pull_state.splits)
  have "0 \<le> flow_bytes item" using base_stream [OF conn_inv_base [OF c] s(1)] s(2) by (simp add: stream_ok_def)
  then show ?thesis
    using pullFinish_inv [OF c s(1,2)] s by (intro exI [of _ "if st_body s = BodyReadable then k else k + flow_bytes item"])
      (auto simp: loses_credit_def)
qed

lemma handle_request_open:
  assumes c: "conn_inv {} k 0 c" and h: "handle (RequestOpen i) c = Some c'"
  shows "conn_inv {} k 0 c'"
proof -
  have i: "i < length (cn_granted c)" "c' = requestOpen (cn_granted c ! i) (c\<lparr>cn_granted := remove_nth i (cn_granted c)\<rparr>)"
    using h by (auto simp: handle_def split: if_splits)
  have "length (remove_nth i (cn_granted c)) + 1 = length (cn_granted c)" using i(1) by (simp add: remove_nth_def)
  then have "slots_ok (0 + 1) (c\<lparr>cn_granted := remove_nth i (cn_granted c)\<rparr>) = slots_ok 0 c" by (auto simp: slots_ok_def)
  moreover have "stream_of (c\<lparr>cn_granted := gs\<rparr>) j = stream_of c j" for gs j by (simp add: stream_of_def)
  ultimately have "conn_inv {} k (0 + 1) (c\<lparr>cn_granted := remove_nth i (cn_granted c)\<rparr>)"
    using c by (simp add: conn_inv_def base_def objects_ok_def streams_ok_def flow_ok_def waiters_ok_def held_def
        slotFree_def)
  then show ?thesis unfolding i(2) by (rule requestOpen_inv)
qed

lemma handle_request_ready:
  assumes c: "conn_inv {} k 0 c" and h: "handle (RequestReady i) c = Some c'"
  shows "conn_inv {} k 0 c'"
  using h c by (auto simp: handle_def Let_def reserve_inv split: if_splits prod.splits promise.splits)

lemma handle_cancel_body:
  assumes c: "conn_inv {} k 0 c" and h: "handle (CancelBody sid r) c = Some c'"
  shows "conn_inv {} k 0 c'"
proof -
  have "conn_inv {} k 0 (upd_stream sid (\<lambda>s. s\<lparr>st_body := BodyClosed\<rparr>) c)"
    by (rule inv_upd [OF c]) (auto simp: stream_ok_def buffered_def ended_def)
  then show ?thesis using h cancelBody_inv by (auto simp: handle_def split: option.splits if_splits)
qed

lemma handle_inv:
  assumes c: "conn_inv {} k 0 c" and h: "handle ev c = Some c'"
  shows "\<exists>k'. conn_inv {} k' 0 c' \<and> k \<le> k' \<and> (\<not> loses_credit ev c \<longrightarrow> k' = k)"
proof -
  have ?thesis if "conn_inv {} k 0 c'" using that by blast
  moreover have "conn_inv {} k 0 c'" if "\<forall>sid. ev \<noteq> PullDone sid"
  proof (cases ev)
    case (RequestOpen i) then show ?thesis using handle_request_open c h by blast
  next
    case (RequestReady i) then show ?thesis using handle_request_ready c h by blast
  next
    case (CancelBody sid r) then show ?thesis using handle_cancel_body c h by blast
  next
    case Start then show ?thesis using h start_inv [OF c] by (auto simp: handle_def)
  next
    case (Request r) then show ?thesis using h request_inv [OF c] by (auto simp: handle_def)
  next
    case (Abort s) then show ?thesis using h c by (auto simp: handle_def)
  next
    case (AbortReadyWaiter i)
    then show ?thesis using h c by (auto simp: handle_def abortReadyWaiter_def split: if_splits)
  next
    case (AbortSlotWaiter i)
    then show ?thesis using h abortSlotWaiter_inv [OF c] by (auto simp: handle_def split: if_splits)
  next
    case (AbortStream sid)
    then show ?thesis using h cancelStream_inv [OF c] by (auto simp: handle_def split: if_splits option.splits)
  next
    case (Frame r) then show ?thesis using h readLoopTurn_inv [OF c] by (auto simp: handle_def split: if_splits)
  next
    case (WriteDone r) then show ?thesis using h writeDone_inv [OF c] by (auto simp: handle_def split: if_splits)
  next
    case Continue
    then show ?thesis using h continueWrite_inv [of k 0 "c\<lparr>cn_settled := tl (cn_settled c)\<rparr>"] c
      by (auto simp: handle_def split: list.splits)
  next
    case (UploadInput sid i)
    then show ?thesis using h uploadRead_inv [OF c] by (auto simp: handle_def split: if_splits option.splits)
  next
    case (UploadWake sid)
    then show ?thesis using h uploadReserve_inv [OF c]
      by (auto simp: handle_def split: if_splits option.splits upload_state.splits)
  next
    case (Pull sid)
    then show ?thesis using h pullStart_inv [OF c] by (auto simp: handle_def split: if_splits option.splits)
  next
    case (PullDone sid) then show ?thesis using that by blast
  next
    case Drain then show ?thesis using h drain_inv [OF c] by (auto simp: handle_def)
  next
    case (Close r) then show ?thesis using h close_inv [OF c] by (auto simp: handle_def)
  qed
  ultimately show ?thesis using handle_pull_done c h by blast
qed

lemma new_conn_inv: "newHttp2ClientConnection opts closed = Inr c \<Longrightarrow> conn_inv {} 0 0 c"
  by (auto simp: newHttp2ClientConnection_def normalizeOptions_def requireInteger_def Let_def res_bind_Inr_iff
      inv_defs stream_of_def held_def DEFAULT_WINDOW_SIZE_def MAX_WINDOW_SIZE_def)

lemma h2_reachable_inv: "h2_reachable c \<Longrightarrow> \<exists>k\<ge>0. conn_inv {} k 0 c"
proof (induction rule: h2_reachable.induct)
  case (opened opts closed c)
  then show ?case using new_conn_inv by auto
next
  case (stepped c ev c')
  then show ?case using handle_inv by (meson order_trans)
qed

end
