(* ===== verification/Http2_Connection_Props.thy ===== *)
theory Http2_Connection_Props
  imports Http2_Connection_Inv
begin

text \<open>
  What the HTTP/2 client connection guarantees in every state it can reach, and two ways in which it
  deviates from the protocol.
\<close>

section \<open>Runs that lose no credit\<close>

inductive h2_clean :: "h2_conn \<Rightarrow> bool" where
  clean_opened: "newHttp2ClientConnection options closed = Inr c \<Longrightarrow> h2_clean c"
| clean_stepped: "h2_clean c \<Longrightarrow> handle ev c = Some c' \<Longrightarrow> \<not> loses_credit ev c \<Longrightarrow> h2_clean c'"

lemma h2_clean_inv: "h2_clean c \<Longrightarrow> conn_inv {} 0 0 c"
proof (induction rule: h2_clean.induct)
  case (clean_opened opts closed c)
  then show ?case by (rule new_conn_inv)
next
  case (clean_stepped c ev c')
  then show ?case using handle_inv by blast
qed

lemma h2_clean_reachable: "h2_clean c \<Longrightarrow> h2_reachable c"
  by (induction rule: h2_clean.induct) (auto intro: h2_reachable.intros)

lemma new_conn_reachable:
  obtains c where "newHttp2ClientConnection noOptions False = Inr c" "h2_clean c" "h2_reachable c"
    "op_connectionWindowSize (cn_options c) = 1048576" "\<not> cn_terminating c" "\<not> cn_terminated c" "cn_objects c = []" "cn_streams c = []"
    "cn_slotWaiters c = []" "cn_granted c = []"
proof -
  have "\<exists>c. newHttp2ClientConnection noOptions False = Inr c \<and> op_connectionWindowSize (cn_options c) = 1048576 \<and>
    \<not> cn_terminating c \<and> \<not> cn_terminated c \<and> cn_objects c = [] \<and> cn_streams c = [] \<and> cn_slotWaiters c = [] \<and> cn_granted c = []"
    by (simp add: newHttp2ClientConnection_def normalizeOptions_def noOptions_def requireInteger_def
        newHpackDecoder_def newHpackEncoder_def newHeaderBlockAssembler_def requireNonnegativeInteger_def validateLimits_def
        DEFAULT_WINDOW_SIZE_def MAX_WINDOW_SIZE_def DEFAULT_FRAME_SIZE_def MAX_FRAME_SIZE_def js_isSafeInteger_def
        MAX_SAFE_INTEGER_def MAX_HPACK_INTEGER_def)
  then show ?thesis using that h2_clean.clean_opened h2_reachable.opened by blast
qed

lemma held_nonneg: "conn_inv X k g c \<Longrightarrow> 0 \<le> held c"
proof -
  assume c: "conn_inv X k g c"
  have "0 \<le> buffered s" if "(sid, s) \<in> set (cn_objects c)" for sid s
  proof -
    have "stream_of c sid = Some s" using that base_keys [OF conn_inv_base [OF c]] by (simp add: stream_of_def)
    from base_stream [OF conn_inv_base [OF c] this]
    have "0 \<le> pull_bytes (st_pull s)" "\<And>item. item \<in> set (drop (st_incomingOffset s) (st_incoming s)) \<Longrightarrow> 0 \<le> flow_bytes item"
      by (auto simp: stream_ok_def dest: in_set_dropD)
    then show ?thesis unfolding buffered_def by (intro add_nonneg_nonneg sum_list_nonneg) auto
  qed
  then show ?thesis unfolding held_def by (intro sum_list_nonneg) auto
qed

section \<open>A concrete run\<close>

text \<open>
  A connection that is opened, gets the peer's SETTINGS, sends a request, receives the head of the
  response, is asked for the body and receives three bytes of it.
\<close>

declare blockFramesLoop.simps [code]

fun run_clean :: "h2_event list \<Rightarrow> h2_conn \<Rightarrow> h2_conn option" where
  "run_clean [] c = Some c"
| "run_clean (ev # evs) c =
     (if loses_credit ev c then None
      else case handle ev c of None \<Rightarrow> None | Some c' \<Rightarrow> run_clean evs c')"

lemma h2_clean_run: "h2_clean c \<Longrightarrow> run_clean evs c = Some c' \<Longrightarrow> h2_clean c'"
  by (induction evs arbitrary: c) (auto split: if_splits option.splits intro: h2_clean.clean_stepped)

definition sample_request :: h2_request where
  "sample_request = \<lparr>rq_headers =
     [\<lparr>hf_name = js_string '':method'', hf_value = js_string ''GET'', hf_indexing = None\<rparr>,
      \<lparr>hf_name = js_string '':scheme'', hf_value = js_string ''https'', hf_indexing = None\<rparr>,
      \<lparr>hf_name = js_string '':path'', hf_value = js_string ''/'', hf_indexing = None\<rparr>,
      \<lparr>hf_name = js_string '':authority'', hf_value = js_string ''a'', hf_indexing = None\<rparr>],
     rq_body = False, rq_signal = 7, rq_onInformational = None\<rparr>"

definition received :: "int \<Rightarrow> int \<Rightarrow> int \<Rightarrow> bytes \<Rightarrow> h2_event" where
  "received kind flags sid payload = Frame (Inr \<lparr>fr_type = kind, fr_flags = flags, fr_streamId = sid, fr_payload = payload\<rparr>)"

definition sample_opening :: "h2_event list" where
  "sample_opening =
     [Start, WriteDone None, Continue, received 4 0 0 [], WriteDone None, Continue,
      Request sample_request, RequestReady 0]"

definition sample_exchange :: "h2_event list" where
  "sample_exchange = [RequestOpen 0, WriteDone None, Continue, received 1 4 1 [0x88], Pull 1, received 0 0 1 [1, 2, 3]]"

definition h2_run :: "h2_event list \<Rightarrow> h2_conn option" where
  "h2_run evs = (case newHttp2ClientConnection noOptions False of Inl e \<Rightarrow> None | Inr c \<Rightarrow> run_clean evs c)"

lemma h2_run_clean: "h2_run evs = Some c \<Longrightarrow> h2_clean c \<and> h2_reachable c"
proof -
  assume "h2_run evs = Some c"
  then obtain c0 where "newHttp2ClientConnection noOptions False = Inr c0" "run_clean evs c0 = Some c"
    by (auto simp: h2_run_def split: sum.splits)
  then have "h2_clean c" using h2_clean_run h2_clean.clean_opened by blast
  then show ?thesis using h2_clean_reachable by blast
qed

lemma sample_exchange_state:
  "(case h2_run (sample_opening @ sample_exchange) of None \<Rightarrow> False
    | Some c \<Rightarrow> cn_streams c = [1] \<and> cn_connectionReceiveWindow c = 1048573 \<and> \<not> cn_terminating c \<and> \<not> cn_terminated c \<and>
        op_connectionWindowSize (cn_options c) = 1048576 \<and> cn_reservedSlots c = 0 \<and>
        (case stream_of c 1 of None \<Rightarrow> False | Some s \<Rightarrow> st_pull s = PullReady (IncomingData [1, 2, 3] 3)))"
  by code_simp

lemma sample_state:
  obtains c where "h2_run (sample_opening @ sample_exchange) = Some c" "h2_clean c" "h2_reachable c" "cn_streams c = [1]"
    "cn_connectionReceiveWindow c = 1048573" "\<not> cn_terminating c" "\<not> cn_terminated c"
    "op_connectionWindowSize (cn_options c) = 1048576"
  using sample_exchange_state h2_run_clean by (auto split: option.splits)

section \<open>Termination settles every promise\<close>

definition settled_stream :: "h2_stream \<Rightarrow> bool" where
  "settled_stream s \<longleftrightarrow> st_failed s \<and> st_localEnded s \<and> st_remoteEnded s \<and> st_response s \<noteq> Pending \<and> st_trailers s \<noteq> Pending"

lemma settled_fail:
  assumes "conn_inv X k g c" "stream_of c sid = Some s"
  shows "\<exists>s'. stream_of (failWith (\<lambda>a c. c) sid r c) sid = Some s' \<and> settled_stream s'"
proof -
  have ok: "stream_ok (cn_nextStreamId c) sid s" using base_stream [OF conn_inv_base [OF assms(1)] assms(2)] .
  show ?thesis
    using assms(2) ok by (auto simp: failWith_def with_stream_def Let_def discardIncoming_def finishApplication_def
        pushIncoming_def settled_stream_def stream_ok_def ended_def)
qed

lemma settled_stays:
  assumes "stream_of c j = Some s" "settled_stream s"
  shows "\<exists>s'. stream_of (failWith (\<lambda>a c. c) sid r c) j = Some s' \<and> settled_stream s'"
  using assms by (cases "j = sid") (auto simp: failWith_def with_stream_def Let_def settled_stream_def split: option.split prod.split)

lemma settled_all:
  assumes "conn_inv X k g c" "cn_terminating c" "sid \<in> set sids \<and> stream_of c sid \<noteq> None \<or> (\<exists>s. stream_of c sid = Some s \<and> settled_stream s)"
  shows "\<exists>s'. stream_of (fold (\<lambda>sid. failWith (\<lambda>a c. c) sid r) sids c) sid = Some s' \<and> settled_stream s'"
  using assms
proof (induction sids arbitrary: X c)
  case (Cons i sids)
  let ?c = "failWith (\<lambda>a c. c) i r c"
  have inv: "conn_inv (insert i X) k g ?c" using Cons.prems(1,2) inv_stopped by (intro failWith_inv) auto
  have "stream_of c sid \<noteq> None \<Longrightarrow> stream_of ?c sid \<noteq> None"
    by (auto simp: failWith_def with_stream_def Let_def split: option.split prod.split)
  then have "sid \<in> set sids \<and> stream_of ?c sid \<noteq> None \<or> (\<exists>s. stream_of ?c sid = Some s \<and> settled_stream s)"
    using Cons.prems(3) settled_fail [OF Cons.prems(1)] settled_stays by (cases "sid = i") fastforce+
  then show ?case using Cons.IH [OF inv] Cons.prems(2) by simp
qed simp

lemma refused_fold:
  "cn_refused (fold (\<lambda>w c. if sw_active w then refuse (sw_request w) e c else c) ws c) =
     cn_refused c @ map (\<lambda>w. (rq_signal (sw_request w), e)) (filter sw_active ws)"
  by (induction ws arbitrary: c) (auto simp: refuse_def)

lemma refused_kept [simp]:
  "cn_refused (upd_stream sid f c) = cn_refused c" "cn_refused (failWith (\<lambda>a c. c) sid r c) = cn_refused c"
  "cn_refused (notifyFlowChange c) = cn_refused c" "cn_refused (sendFrame fr t c) = cn_refused c"
  "cn_refused (finishTermination c) = cn_refused c"
  by (auto simp: upd_stream_def failWith_def with_stream_def Let_def notifyFlowChange_alt sendFrame_def enqueueBytes_def
      settle_def drainNext_def finishTermination_def split: option.split prod.split sum.split)

lemma ready_kept [simp]:
  "cn_ready (upd_stream sid f c) = cn_ready c" "cn_ready (failWith (\<lambda>a c. c) sid r c) = cn_ready c"
  "cn_ready (notifyFlowChange c) = cn_ready c" "cn_ready (sendFrame fr t c) = cn_ready c"
  "cn_ready (finishTermination c) = cn_ready c" "cn_ready (failSlotWaiters r c) = cn_ready c"
proof -
  have "cn_ready (fold (\<lambda>w c. if sw_active w then refuse (sw_request w) r c else c) ws c) = cn_ready c" for ws
    by (induction ws arbitrary: c) (auto simp: refuse_def)
  then show "cn_ready (failSlotWaiters r c) = cn_ready c" by (simp add: failSlotWaiters_def)
qed (auto simp: upd_stream_def failWith_def with_stream_def Let_def notifyFlowChange_alt sendFrame_def enqueueBytes_def
      settle_def drainNext_def finishTermination_def split: option.split prod.split sum.split)

lemma terminate_unfold:
  assumes "\<not> cn_terminating c" "\<not> cn_terminated c"
  obtains c2 c3 where
    "c2 = notifyFlowChange (failSlotWaiters r (c\<lparr>cn_terminating := True, cn_draining := True, cn_ready := promise_reject r (cn_ready c)\<rparr>))"
    "c3 = fold (\<lambda>sid. failWith (\<lambda>a c. c) sid r) (cn_streams c) c2"
    "terminate r code b c = finishTermination (c3\<lparr>cn_streams := []\<rparr>) \<or>
     terminate r code b c = sendFrame (goAwayFrame code) FinalGoAwaySent (c3\<lparr>cn_streams := []\<rparr>)"
  using assms by (auto simp: terminate_def Let_def)

section \<open>Properties\<close>

text \<open>
  C14: In every reachable state of the connection the stream table is sound: no stream is in it twice,
  every entry is a stream the connection made, with an odd identifier below the next one to be used,
  and not one that is closed on both sides; and no send window exceeds \<open>2 ^ 31 - 1\<close>, the one of the
  connection is never negative.
\<close>

theorem h2_table_and_windows:
  assumes "h2_reachable c"
  shows "distinct (cn_streams c) \<and> 0 \<le> cn_connectionSendWindow c \<and> cn_connectionSendWindow c \<le> 2 ^ 31 - 1 \<and>
    (\<forall>sid. sid \<in> set (cn_streams c) \<longrightarrow> (\<exists>s. stream_of c sid = Some s \<and> \<not> (st_localEnded s \<and> st_remoteEnded s))) \<and>
    (\<forall>sid s. stream_of c sid = Some s \<longrightarrow>
       st_id s = sid \<and> odd sid \<and> 0 < sid \<and> sid < cn_nextStreamId c \<and> st_sendWindow s \<le> 2 ^ 31 - 1)"
proof -
  obtain k where "conn_inv {} k 0 c" using h2_reachable_inv [OF assms] by blast
  then show ?thesis
    by (auto simp: conn_inv_def base_def objects_ok_def streams_ok_def flow_ok_def stream_ok_def ended_def MAX_WINDOW_SIZE_def)
qed

theorem h2_table_and_windows_witness:
  "\<exists>c s. h2_run (sample_opening @ sample_exchange) = Some c \<and> cn_streams c = [1] \<and> stream_of c 1 = Some s \<and>
     st_id s = 1 \<and> st_sendWindow s \<le> 2 ^ 31 - 1"
proof -
  obtain c where c: "h2_run (sample_opening @ sample_exchange) = Some c" "h2_reachable c" "cn_streams c = [1]"
    using sample_state .
  have "1 \<in> set (cn_streams c)" using c(3) by simp
  then show ?thesis using h2_table_and_windows [OF c(2)] c(1,3) by blast
qed

text \<open>
  C11: Received bytes are accounted for. As long as the connection is open, the connection-level
  receive window and the bytes buffered for the application together never exceed the window the
  connection was opened with, so the check for a receive window overflow cannot fire; and they are
  equal to it in every run in which no response body is cancelled while an item is on its way to it:
  every byte is either buffered or has been credited back to the peer.
\<close>

theorem h2_receive_credit:
  assumes "h2_reachable c" "\<not> cn_terminating c" "\<not> cn_terminated c"
  shows "cn_connectionReceiveWindow c + held c \<le> op_connectionWindowSize (cn_options c) \<and> 0 \<le> held c \<and>
    op_connectionWindowSize (cn_options c) \<le> 2 ^ 31 - 1 \<and>
    (h2_clean c \<longrightarrow> cn_connectionReceiveWindow c + held c = op_connectionWindowSize (cn_options c))"
proof -
  obtain k where k: "0 \<le> k" "conn_inv {} k 0 c" using h2_reachable_inv [OF assms(1)] by blast
  then have "cn_connectionReceiveWindow c + held c + k = op_connectionWindowSize (cn_options c)"
      "op_connectionWindowSize (cn_options c) \<le> 2 ^ 31 - 1"
    using assms(2,3) by (simp_all add: conn_inv_def base_def flow_ok_def MAX_WINDOW_SIZE_def)
  moreover have "0 \<le> held c" using held_nonneg k(2) by blast
  moreover have "cn_connectionReceiveWindow c + held c = op_connectionWindowSize (cn_options c)" if "h2_clean c"
    using h2_clean_inv [OF that] assms(2,3) by (simp add: conn_inv_def base_def flow_ok_def)
  ultimately show ?thesis using k(1) by auto
qed

theorem h2_receive_credit_witness:
  "\<exists>c. h2_run (sample_opening @ sample_exchange) = Some c \<and> cn_connectionReceiveWindow c = 1048573 \<and> held c = 3"
proof -
  obtain c where c: "h2_run (sample_opening @ sample_exchange) = Some c" "h2_clean c" "h2_reachable c"
      "cn_connectionReceiveWindow c = 1048573" "\<not> cn_terminating c" "\<not> cn_terminated c"
      "op_connectionWindowSize (cn_options c) = 1048576"
    using sample_state .
  then show ?thesis using h2_receive_credit [OF c(3,5,6)] by auto
qed

text \<open>
  C12: Stream slots are neither leaked nor withheld. In every reachable state the slots that are
  reserved are exactly those of the requests that were granted one and have not opened their stream
  yet, and a request that waits for a slot waits only while the peer's limit on concurrent streams
  is used up: no wake-up is ever lost.
\<close>

theorem h2_slots:
  assumes "h2_reachable c"
  shows "cn_reservedSlots c = int (length (cn_granted c)) \<and>
    ((\<exists>w. w \<in> set (drop (cn_slotOffset c) (cn_slotWaiters c)) \<and> sw_active w) \<longrightarrow>
       int (length (cn_streams c)) + cn_reservedSlots c \<ge> cn_remoteMaximumConcurrentStreams c)"
proof -
  obtain k where "conn_inv {} k 0 c" using h2_reachable_inv [OF assms] by blast
  then show ?thesis by (auto simp: conn_inv_def base_def slots_ok_def waiters_ok_def slotFree_def)
qed

theorem h2_slots_witness:
  "\<exists>c. h2_run sample_opening = Some c \<and> cn_reservedSlots c = int (length (cn_granted c)) \<and> cn_granted c \<noteq> []"
proof -
  have "case h2_run sample_opening of None \<Rightarrow> False | Some c \<Rightarrow> cn_granted c \<noteq> []" by code_simp
  then obtain c where "h2_run sample_opening = Some c" "cn_granted c \<noteq> []" by (auto split: option.splits)
  then show ?thesis using h2_slots [of c] h2_run_clean by blast
qed


text \<open>
  C15: A DATA frame never exceeds what the peer allows: the capacity reserved for it is at most what
  was asked for, the peer's frame size, and both send windows, is taken off both windows, and is zero,
  with nothing changed, exactly when one of them leaves no room.
\<close>

theorem h2_send_capacity:
  assumes "stream_of c sid = Some s" "\<not> cn_terminating c" "\<not> cn_terminated c" "\<not> st_localEnded s"
  shows "\<exists>n c' s'. reserveSendCapacity sid requested c = (Inr n, c') \<and> stream_of c' sid = Some s' \<and> 0 \<le> n \<and>
    n \<le> max 0 requested \<and> n \<le> max 0 (cn_remoteMaximumFrameSize c) \<and>
    n \<le> max 0 (cn_connectionSendWindow c) \<and> n \<le> max 0 (st_sendWindow s) \<and>
    cn_connectionSendWindow c' = cn_connectionSendWindow c - n \<and> st_sendWindow s' = st_sendWindow s - n \<and>
    (n = 0 \<longleftrightarrow> requested \<le> 0 \<or> cn_remoteMaximumFrameSize c \<le> 0 \<or> cn_connectionSendWindow c \<le> 0 \<or> st_sendWindow s \<le> 0) \<and>
    (n = 0 \<longrightarrow> c' = c)"
proof -
  let ?p = "min (min (min requested (cn_remoteMaximumFrameSize c)) (cn_connectionSendWindow c)) (st_sendWindow s)"
  show ?thesis
  proof (cases "?p \<le> 0")
    case True
    then have "reserveSendCapacity sid requested c = (Inr 0, c)"
      using assms by (simp add: reserveSendCapacity_def Let_def)
    then show ?thesis using assms(1) True by (intro exI [of _ 0] exI [of _ c] exI [of _ s]) (auto simp: min_def split: if_splits)
  next
    case False
    let ?c = "upd_stream sid (\<lambda>s. s\<lparr>st_sendWindow := st_sendWindow s - ?p\<rparr>)
      (c\<lparr>cn_connectionSendWindow := cn_connectionSendWindow c - ?p\<rparr>)"
    have "reserveSendCapacity sid requested c = (Inr ?p, ?c)"
      using assms False by (simp add: reserveSendCapacity_def Let_def)
    moreover have "stream_of ?c sid = Some (s\<lparr>st_sendWindow := st_sendWindow s - ?p\<rparr>)"
      using assms(1) by (simp add: stream_of_def upd_stream_def map_of_upd)
    ultimately show ?thesis using False
      by (intro exI [of _ ?p] exI [of _ ?c] exI [of _ "s\<lparr>st_sendWindow := st_sendWindow s - ?p\<rparr>"]) auto
  qed
qed

definition sample_stream :: h2_stream where
  "sample_stream = newHttp2ClientStream 1 10 65535 [] True None None 0"

theorem h2_send_capacity_witness:
  "\<exists>c n c'. newHttp2ClientConnection noOptions False = Inr c \<and>
     reserveSendCapacity 1 100 (c\<lparr>cn_objects := [(1, sample_stream)]\<rparr>) = (Inr n, c') \<and> 0 \<le> n \<and> n \<le> 10"
proof -
  obtain c where c: "newHttp2ClientConnection noOptions False = Inr c" "\<not> cn_terminating c" "\<not> cn_terminated c"
    using new_conn_reachable .
  have "stream_of (c\<lparr>cn_objects := [(1, sample_stream)]\<rparr>) 1 = Some sample_stream" by (simp add: stream_of_def)
  from h2_send_capacity [OF this, of 100] c
  obtain n c' where "reserveSendCapacity 1 100 (c\<lparr>cn_objects := [(1, sample_stream)]\<rparr>) = (Inr n, c')" "0 \<le> n"
      "n \<le> max 0 (st_sendWindow sample_stream)"
    by (auto simp: sample_stream_def newHttp2ClientStream_def)
  with c(1) show ?thesis by (auto simp: sample_stream_def newHttp2ClientStream_def)
qed

text \<open>
  C13: No request is left hanging when the connection ends. Terminating an open connection, for
  whatever reason and with or without a final GOAWAY, empties the stream table, closes every stream
  that was in it and settles the promises of its response and of its trailers, refuses every request
  that was waiting for a stream slot, and rejects the promise of the connection's readiness with the
  reason unless it was settled before, so that it is not pending.
\<close>

theorem h2_terminate_settles:
  assumes "h2_reachable c" "\<not> cn_terminating c" "\<not> cn_terminated c"
  shows "cn_streams (terminate r code b c) = [] \<and> cn_slotWaiters (terminate r code b c) = [] \<and>
    (\<forall>sid. sid \<in> set (cn_streams c) \<longrightarrow> (\<exists>s. stream_of (terminate r code b c) sid = Some s \<and> settled_stream s)) \<and>
    (\<forall>w. w \<in> set (drop (cn_slotOffset c) (cn_slotWaiters c)) \<longrightarrow> sw_active w \<longrightarrow>
       (rq_signal (sw_request w), r) \<in> set (cn_refused (terminate r code b c))) \<and>
    cn_ready (terminate r code b c) = promise_reject r (cn_ready c) \<and> cn_ready (terminate r code b c) \<noteq> Pending"
proof -
  obtain k where inv: "conn_inv {} k 0 c" using h2_reachable_inv [OF assms(1)] by blast
  let ?c1 = "c\<lparr>cn_terminating := True, cn_draining := True, cn_ready := promise_reject r (cn_ready c)\<rparr>"
  obtain c2 c3 where c2: "c2 = notifyFlowChange (failSlotWaiters r ?c1)"
    and c3: "c3 = fold (\<lambda>sid. failWith (\<lambda>a c. c) sid r) (cn_streams c) c2"
    and t: "terminate r code b c = finishTermination (c3\<lparr>cn_streams := []\<rparr>) \<or>
      terminate r code b c = sendFrame (goAwayFrame code) FinalGoAwaySent (c3\<lparr>cn_streams := []\<rparr>)"
    using terminate_unfold [OF assms(2,3)] .
  have "base {} k 0 ?c1"
    using inv by (auto simp: conn_inv_def base_def objects_ok_def streams_ok_def flow_ok_def slots_ok_def stream_of_def)
  then have inv2: "conn_inv {} k 0 c2" "cn_terminating c2" "cn_slotWaiters c2 = []"
    using failSlotWaiters_inv by (auto simp: c2)
  have sel: "stream_of (terminate r code b c) sid = stream_of c3 sid" "cn_streams (terminate r code b c) = []"
      "cn_slotWaiters (terminate r code b c) = cn_slotWaiters c3" "cn_refused (terminate r code b c) = cn_refused c3" for sid
    using t core_sendFrame [of "goAwayFrame code" FinalGoAwaySent "c3\<lparr>cn_streams := []\<rparr>"]
    by (auto simp: finishTermination_def stream_of_def core_def)
  have streams: "stream_of c2 sid \<noteq> None" if "sid \<in> set (cn_streams c)" for sid
    using inv2(1) that by (auto simp: c2 conn_inv_def base_def streams_ok_def)
  have "\<exists>s. stream_of c3 sid = Some s \<and> settled_stream s" if "sid \<in> set (cn_streams c)" for sid
    unfolding c3 using settled_all [OF inv2(1,2)] streams [OF that] that by blast
  moreover have "cn_slotWaiters c3 = []" using fail_all_inv [OF inv2(1,2)] inv2(3) by (simp add: c3)
  moreover have "cn_refused (fold (\<lambda>sid. failWith (\<lambda>a c. c) sid r) sids c') = cn_refused c'" for sids c'
    by (induction sids arbitrary: c') auto
  then have "(rq_signal (sw_request w), r) \<in> set (cn_refused c3)"
    if "w \<in> set (drop (cn_slotOffset c) (cn_slotWaiters c))" "sw_active w" for w
    using that by (auto simp: c3 c2 failSlotWaiters_def refused_fold)
  moreover have "cn_ready (fold (\<lambda>sid. failWith (\<lambda>a c. c) sid r) sids c') = cn_ready c'" for sids c'
    by (induction sids arbitrary: c') auto
  then have "cn_ready (terminate r code b c) = promise_reject r (cn_ready c)" using t by (auto simp: c3 c2)
  moreover have "promise_reject r p \<noteq> Pending" for p :: "unit promise" by (cases p) simp_all
  ultimately show ?thesis using sel by auto
qed

theorem h2_terminate_settles_witness:
  "\<exists>c s. h2_run (sample_opening @ sample_exchange) = Some c \<and> cn_streams c = [1] \<and>
     cn_streams (terminate TypeError 0 True c) = [] \<and> stream_of (terminate TypeError 0 True c) 1 = Some s \<and> settled_stream s"
proof -
  obtain c where c: "h2_run (sample_opening @ sample_exchange) = Some c" "h2_reachable c" "cn_streams c = [1]"
      "\<not> cn_terminating c" "\<not> cn_terminated c"
    using sample_state .
  have "1 \<in> set (cn_streams c)" using c(3) by simp
  then show ?thesis using h2_terminate_settles [OF c(2,4,5), of TypeError 0 True] c(1,3) by blast
qed


section \<open>The queue of writes\<close>

text \<open>The write in progress is one of the queue: \<open>cn_writeOffset\<close> never passes its end.\<close>

definition queue_ok :: "h2_conn \<Rightarrow> bool" where
  "queue_ok c \<longleftrightarrow> cn_writeOffset c \<le> length (cn_writes c)"

lemma queue_ok_fields [simp]:
  "queue_ok (cn_transportClosed_update f1 c) = queue_ok c" "queue_ok (cn_wire_update f2 c) = queue_ok c"
  "queue_ok (cn_settled_update f3 c) = queue_ok c" "queue_ok (cn_readyWaiters_update f4 c) = queue_ok c"
  "queue_ok (cn_granted_update f5 c) = queue_ok c" "queue_ok (cn_aborted_update f6 c) = queue_ok c"
  "queue_ok (cn_refused_update f7 c) = queue_ok c" "queue_ok (cn_reading_update f8 c) = queue_ok c"
  "queue_ok (cn_remoteMaximumConcurrentStreams_update f9 c) = queue_ok c"
  "queue_ok (cn_remoteInitialWindowSize_update f10 c) = queue_ok c"
  "queue_ok (cn_remoteMaximumFrameSize_update f10 c) = queue_ok c"
  "queue_ok (cn_remoteMaximumHeaderListSize_update f10 c) = queue_ok c"
  "queue_ok (cn_remoteExtendedConnect_update f8 c) = queue_ok c"
  "queue_ok (cn_remoteLastStreamId_update f10 c) = queue_ok c"
  "queue_ok (cn_remoteGoAwayReceived_update f8 c) = queue_ok c"
  "queue_ok (cn_receivedSettings_update f8 c) = queue_ok c"
  "queue_ok (cn_settingsAcknowledged_update f8 c) = queue_ok c"
  "queue_ok (cn_ready_update f11 c) = queue_ok c" "queue_ok (cn_closed_update f11 c) = queue_ok c"
  "queue_ok (cn_started_update f8 c) = queue_ok c" "queue_ok (cn_draining_update f8 c) = queue_ok c"
  "queue_ok (cn_terminating_update f8 c) = queue_ok c" "queue_ok (cn_terminated_update f8 c) = queue_ok c"
  "queue_ok (cn_localGoAwaySent_update f8 c) = queue_ok c" "queue_ok (cn_encoder_update f12 c) = queue_ok c"
  "queue_ok (cn_decoder_update f13 c) = queue_ok c" "queue_ok (cn_blocks_update f14 c) = queue_ok c"
  "queue_ok (cn_writing_update f8 c) = queue_ok c" "queue_ok (cn_objects_update f15 c) = queue_ok c"
  "queue_ok (cn_streams_update f16 c) = queue_ok c" "queue_ok (cn_slotWaiters_update f17 c) = queue_ok c"
  "queue_ok (cn_slotOffset_update f18 c) = queue_ok c" "queue_ok (cn_reservedSlots_update f10 c) = queue_ok c"
  "queue_ok (cn_nextStreamId_update f10 c) = queue_ok c" "queue_ok (cn_highestOpenedStreamId_update f10 c) = queue_ok c"
  "queue_ok (cn_connectionSendWindow_update f10 c) = queue_ok c"
  "queue_ok (cn_connectionReceiveWindow_update f10 c) = queue_ok c"
  by (simp_all add: queue_ok_def)

lemma queue_ok_fold: "queue_ok c \<Longrightarrow> (\<And>x c. queue_ok c \<Longrightarrow> queue_ok (f x c)) \<Longrightarrow> queue_ok (fold f xs c)"
  by (induction xs arbitrary: c) auto

lemma queue_ok_wakeLoop: "queue_ok c \<Longrightarrow> queue_ok (wakeLoop ws c)"
  by (induction ws arbitrary: c) (auto simp: Let_def)

lemma queue_ok_write [simp]:
  "queue_ok c \<Longrightarrow> queue_ok (settle tag r c)" "queue_ok (upd_stream sid f c) = queue_ok c" "queue_ok c \<Longrightarrow> queue_ok (drainNext c)"
  by (simp_all add: settle_def upd_stream_def) (simp add: drainNext_def queue_ok_def)

lemma queue_ok_enqueue [simp]: "queue_ok c \<Longrightarrow> queue_ok (enqueueBytes bs tag c)"
  by (simp add: enqueueBytes_def Let_def) (simp add: queue_ok_def drainNext_def)

lemma queue_ok_with_stream: "queue_ok c \<Longrightarrow> (\<And>s. queue_ok (k s)) \<Longrightarrow> queue_ok (with_stream sid c k)"
  by (simp add: with_stream_def split: option.split)

lemma queue_ok_send [simp]:
  "queue_ok c \<Longrightarrow> queue_ok (sendFrame f tag c)" "queue_ok c \<Longrightarrow> queue_ok (sendFrames fs tag c)"
  "queue_ok c \<Longrightarrow> queue_ok (sendHeaderBlock sid block b tag c)" "queue_ok c \<Longrightarrow> queue_ok (sendClosedStreamReset sid c)"
  by (auto simp: sendFrame_def sendFrames_def sendHeaderBlock_def sendClosedStreamReset_def split: sum.split option.split)

lemma queue_ok_slots [simp]:
  "queue_ok c \<Longrightarrow> queue_ok (notifyFlowChange c)" "queue_ok c \<Longrightarrow> queue_ok (refuse q e c)"
  "queue_ok c \<Longrightarrow> queue_ok (failSlotWaiters e c)" "queue_ok c \<Longrightarrow> queue_ok (wakeSlotWaiters c)"
  "queue_ok c \<Longrightarrow> queue_ok (releaseSlot c)" "queue_ok c \<Longrightarrow> queue_ok (finishTermination c)"
  "queue_ok c \<Longrightarrow> queue_ok (request q c)" "queue_ok c \<Longrightarrow> queue_ok (reserveStreamSlot q c)"
  by (auto simp: notifyFlowChange_def refuse_def failSlotWaiters_def wakeSlotWaiters_def compactSlots_def releaseSlot_def
      finishTermination_def request_def reserveStreamSlot_def intro!: queue_ok_fold queue_ok_wakeLoop)

lemma queue_ok_failWith:
  assumes "queue_ok c" "\<And>a c. queue_ok c \<Longrightarrow> queue_ok (credit a c)"
  shows "queue_ok (failWith credit sid e c)"
  using assms by (auto simp: failWith_def Let_def intro!: queue_ok_with_stream split: prod.split)

lemma queue_ok_terminate [simp]: "queue_ok c \<Longrightarrow> queue_ok (terminate e code b c)"
proof -
  have "queue_ok c \<Longrightarrow> queue_ok (fold (\<lambda>sid. failWith (\<lambda>a c. c) sid e) sids c)" for sids c
    by (rule queue_ok_fold) (auto intro: queue_ok_failWith)
  then show "queue_ok c \<Longrightarrow> queue_ok (terminate e code b c)" by (simp add: terminate_def Let_def)
qed

lemma queue_ok_credit [simp]: "queue_ok c \<Longrightarrow> queue_ok (returnConnectionCredit n c)"
  by (simp add: returnConnectionCredit_def)

lemma queue_ok_fail [simp]: "queue_ok c \<Longrightarrow> queue_ok (stream_fail sid e c)" "queue_ok c \<Longrightarrow> queue_ok (finishDrainIfIdle c)"
  by (simp_all add: stream_fail_def queue_ok_failWith finishDrainIfIdle_def)

lemma queue_ok_streams [simp]:
  "queue_ok c \<Longrightarrow> queue_ok (streamStateChanged sid c)" "queue_ok c \<Longrightarrow> queue_ok (returnReceiveCredit sid n c)"
  by (auto simp: streamStateChanged_def returnReceiveCredit_def Let_def intro!: queue_ok_with_stream)

lemma queue_ok_reset [simp]:
  "queue_ok c \<Longrightarrow> queue_ok (resetStream sid code c)" "queue_ok c \<Longrightarrow> queue_ok (cancelStream sid e c)"
  by (simp_all add: resetStream_def cancelStream_def Let_def)

lemma queue_ok_receive [simp]:
  "queue_ok c \<Longrightarrow> queue_ok (receiveEnd sid c)" "queue_ok c \<Longrightarrow> queue_ok (peerReset sid code c)"
  "queue_ok c \<Longrightarrow> queue_ok (markLocalEnd sid c)" "queue_ok c \<Longrightarrow> queue_ok (pullStart sid c)"
  "queue_ok c \<Longrightarrow> queue_ok (pullFinish sid item c)" "queue_ok c \<Longrightarrow> queue_ok (cancelBody sid e c)"
  by (auto simp: receiveEnd_def peerReset_def markLocalEnd_def pullStart_def pullFinish_def cancelBody_def Let_def
      intro!: queue_ok_with_stream split: incoming_item.split prod.split)

lemma queue_ok_stream [simp]:
  "queue_ok c \<Longrightarrow> queue_ok (handleHeaders sid h b c)" "queue_ok c \<Longrightarrow> queue_ok (handleTrailers sid fs b c)"
  "queue_ok c \<Longrightarrow> queue_ok (receiveData sid bs n b c)"
  by (auto simp: handleHeaders_def handleTrailers_def receiveData_def Let_def intro!: queue_ok_with_stream split: option.split)

lemma queue_ok_adjust: "queue_ok c \<Longrightarrow> queue_ok (snd (adjustWindows d sids c))"
  by (induction sids arbitrary: c) (auto split: option.split)

lemma queue_ok_bind: "queue_ok (snd m) \<Longrightarrow> (\<And>x c. queue_ok c \<Longrightarrow> queue_ok (snd (k x c))) \<Longrightarrow> queue_ok (snd (try_bind m k))"
  by (auto simp: try_bind_def split: prod.split sum.split)

lemma queue_ok_setting: "queue_ok c \<Longrightarrow> queue_ok (snd (applyRemoteSetting x c))"
  by (auto simp: applyRemoteSetting_def Let_def intro!: queue_ok_bind queue_ok_adjust split: sum.split)

lemma queue_ok_settings: "queue_ok c \<Longrightarrow> queue_ok (snd (applySettings xs c))"
  by (induction xs arbitrary: c) (auto intro!: queue_ok_bind queue_ok_setting)

lemma queue_ok_goAway [simp]: "queue_ok c \<Longrightarrow> queue_ok (fold (goAwayStream lastId) sids c)"
  by (rule queue_ok_fold) (auto simp: goAwayStream_def)

lemma queue_ok_handlers [simp]:
  "queue_ok c \<Longrightarrow> queue_ok (snd (dispatchHeaders hb fs c))" "queue_ok c \<Longrightarrow> queue_ok (snd (handleData f c))"
  "queue_ok c \<Longrightarrow> queue_ok (snd (handleReset f c))" "queue_ok c \<Longrightarrow> queue_ok (snd (handleSettings f c))"
  "queue_ok c \<Longrightarrow> queue_ok (snd (handleGoAway f c))" "queue_ok c \<Longrightarrow> queue_ok (snd (handleWindowUpdate f c))"
       apply (auto simp: dispatchHeaders_def split: sum.split option.split)[1]
      apply (auto simp: handleData_def Let_def intro!: queue_ok_with_stream split: sum.split option.split)[1]
     apply (auto simp: handleReset_def split: sum.split option.split)[1]
    apply (auto simp: handleSettings_def intro!: queue_ok_bind queue_ok_settings split: sum.split)[1]
   apply (auto simp: handleGoAway_def Let_def split: sum.split)[1]
  apply (auto simp: handleWindowUpdate_def intro!: queue_ok_with_stream split: sum.split option.split)[1]
  done

lemma queue_ok_block: "queue_ok c \<Longrightarrow> queue_ok (snd (handleHeaderBlock hb c))"
  by (auto simp: handleHeaderBlock_def Let_def split: sum.split prod.split)

lemma queue_ok_frame: "queue_ok c \<Longrightarrow> queue_ok (snd (handleFrame f c))"
proof -
  assume c: "queue_ok c"
  obtain accepted blocks where a: "assembler_accept f (cn_blocks c) = (accepted, blocks)" by (cases "assembler_accept f (cn_blocks c)")
  show ?thesis
  proof (cases accepted)
    case (Inl e)
    then show ?thesis using a c by (simp add: handleFrame_def)
  next
    case (Inr hb)
    then show ?thesis using a c by (cases hb) (simp_all add: handleFrame_def Let_def queue_ok_block)
  qed
qed

lemma queue_ok_loop [simp]:
  "queue_ok c \<Longrightarrow> queue_ok (readLoopError e c)" "queue_ok c \<Longrightarrow> queue_ok (readLoopContinue c)"
  "queue_ok c \<Longrightarrow> queue_ok (frameError e c)"
  by (auto simp: readLoopError_def readLoopContinue_def frameError_def Let_def split: js_error.split option.split)

lemma queue_ok_turn: "queue_ok c \<Longrightarrow> queue_ok (readLoopTurn r c)"
proof -
  assume c: "queue_ok c"
  have "queue_ok (case handleFrame f c of (Inr u, c1) \<Rightarrow> c1 | (Inl e, c1) \<Rightarrow> frameError e c1)" for f
    using queue_ok_frame [OF c, of f] by (auto split: prod.split sum.split)
  then show ?thesis using c by (auto simp: readLoopTurn_def Let_def split: sum.split)
qed

lemma queue_ok_prepare: "queue_ok c \<Longrightarrow> queue_ok (snd (prepareRequest q sid c))"
  by (auto simp: prepareRequest_def Let_def split: sum.split prod.split)

lemma queue_ok_open [simp]: "queue_ok c \<Longrightarrow> queue_ok (requestOpen q c)"
proof -
  assume c: "queue_ok c"
  have "queue_ok (snd (prepareRequest q (cn_nextStreamId c) (c\<lparr>cn_nextStreamId := cn_nextStreamId c + 2\<rparr>)))"
    by (rule queue_ok_prepare) (simp add: c)
  then show ?thesis
    using c by (auto simp: requestOpen_def openStream_def attachSignal_def Let_def split: sum.split prod.split)
qed

lemma queue_ok_connection [simp]:
  "queue_ok c \<Longrightarrow> queue_ok (drainConnection c)" "queue_ok c \<Longrightarrow> queue_ok (closeConnection e c)" "queue_ok c \<Longrightarrow> queue_ok (snd (start c))"
  by (auto simp: drainConnection_def closeConnection_def start_def Let_def split: sum.split)

lemma queue_ok_upload [simp]:
  "queue_ok c \<Longrightarrow> queue_ok (uploadFinally sid c)" "queue_ok c \<Longrightarrow> queue_ok (uploadState sid u c)"
  "queue_ok c \<Longrightarrow> queue_ok (uploadLoop sid c)" "queue_ok c \<Longrightarrow> queue_ok (uploadCatch sid c)"
  by (auto simp: uploadFinally_def uploadState_def uploadLoop_def uploadCatch_def intro!: queue_ok_with_stream)

lemma queue_ok_reserve: "queue_ok c \<Longrightarrow> queue_ok (snd (reserveSendCapacity sid n c))"
  by (auto simp: reserveSendCapacity_def Let_def split: option.split)

lemma queue_ok_chunk [simp]: "queue_ok c \<Longrightarrow> queue_ok (uploadReserve sid bs n c)" "queue_ok c \<Longrightarrow> queue_ok (uploadChunk sid bs n c)"
proof -
  show r: "queue_ok (uploadReserve sid bs n c)" if "queue_ok c" for c
    using queue_ok_reserve [OF that, of sid "int (length bs) - int n"] by (auto simp: uploadReserve_def split: prod.split sum.split)
  show "queue_ok (uploadChunk sid bs n c)" if "queue_ok c"
    using that r by (auto simp: uploadChunk_def intro!: queue_ok_with_stream)
qed

lemma queue_ok_read [simp]: "queue_ok c \<Longrightarrow> queue_ok (uploadDone sid c)" "queue_ok c \<Longrightarrow> queue_ok (uploadRead sid input c)"
  by (auto simp: uploadDone_def uploadRead_def Let_def intro!: queue_ok_with_stream split: upload_input.split sum.split prod.split)

lemma queue_ok_continue: "queue_ok c \<Longrightarrow> queue_ok (continueWrite tag r c)"
  by (auto simp: continueWrite_def intro!: queue_ok_with_stream split: write_tag.split option.split upload_state.split)

lemma queue_ok_writeDone: "queue_ok c \<Longrightarrow> queue_ok (writeDone r c)"
proof -
  assume c: "queue_ok c"
  have kept: "cn_writes (fold (\<lambda>(bs, tag). settle tag (Some e)) ws c') = cn_writes c'" for e c' and ws :: "(bytes \<times> write_tag) list"
    by (induction ws arbitrary: c') (auto simp: settle_def)
  have "queue_ok ((fold (\<lambda>(bs, tag). settle tag (Some e)) ws (settle tag (Some e) c))\<lparr>cn_writeOffset := length (cn_writes c)\<rparr>)"
    for e tag and ws :: "(bytes \<times> write_tag) list" by (simp add: queue_ok_def kept) (simp add: settle_def)
  then show ?thesis using c by (auto simp: writeDone_def split: option.split)
qed

lemma handle_queue: "queue_ok c \<Longrightarrow> handle ev c = Some c' \<Longrightarrow> queue_ok c'"
  by (cases ev) (auto simp: handle_def abortReadyWaiter_def abortSlotWaiter_def Let_def queue_ok_turn queue_ok_continue queue_ok_writeDone
      split: if_splits option.splits promise.splits prod.splits list.splits upload_state.splits pull_state.splits)

lemma reachable_queue: "h2_reachable c \<Longrightarrow> queue_ok c"
proof (induction rule: h2_reachable.induct)
  case (opened options closed c)
  then show ?case by (auto simp: newHttp2ClientConnection_def queue_ok_def res_bind_def split: sum.splits)
qed (rule handle_queue)

section \<open>Two deviations\<close>

text \<open>An item on its way to a pull stays so through everything the connection does by itself.\<close>

definition delivering :: "int \<Rightarrow> incoming_item \<Rightarrow> body_state \<Rightarrow> h2_conn \<Rightarrow> bool" where
  "delivering sid item b c \<longleftrightarrow> (\<exists>s. stream_of c sid = Some s \<and> st_pull s = PullReady item \<and> st_body s = b)"

lemma delivering_upd:
  assumes "delivering sid item b c" "\<And>s. st_pull s = PullReady item \<Longrightarrow> st_pull (f s) = PullReady item \<and> st_body (f s) = st_body s"
  shows "delivering sid item b (upd_stream i f c)"
  using assms by (auto simp: delivering_def)

lemma delivering_core: "core c = core c' \<Longrightarrow> delivering sid item b c = delivering sid item b c'"
  unfolding delivering_def by (simp only: core_cong(4) [of c c'])

lemmas delivering_sendFrame [simp] = delivering_core [OF core_sendFrame]

lemma finishApplication_pull [simp]:
  "st_pull (finishApplication s) = st_pull s" "st_body (finishApplication s) = st_body s"
  by (simp_all add: finishApplication_def)

lemma delivering_failWith:
  assumes d: "delivering sid item b c" and credit: "\<And>a c. delivering sid item b c \<Longrightarrow> delivering sid item b (credit a c)"
  shows "delivering sid item b (failWith credit i r c)"
proof (cases "stream_of c i")
  case None
  then show ?thesis using d by (simp add: failWith_def with_stream_def)
next
  case (Some t)
  define s1 where "s1 = t\<lparr>st_failed := True, st_localEnded := True, st_remoteEnded := True, st_uploadReader := False,
                       st_response := (if st_responseDelivered t then st_response t else promise_reject r (st_response t)),
                       st_trailersSettled := True,
                       st_trailers := (if st_trailersSettled t then st_trailers t else promise_reject r (st_trailers t))\<rparr>"
  obtain n s2 where s2: "discardIncoming s1 = (n, s2)" by (cases "discardIncoming s1")
  have p: "st_pull s2 = st_pull t" "st_body s2 = st_body t" using s2 by (auto simp: discardIncoming_def s1_def)
  have "delivering sid item b (upd_stream i (\<lambda>_. s2) c)"
    using d Some p by (cases "i = sid") (auto simp: delivering_def)
  then have "delivering sid item b (if n \<noteq> 0 then credit n (upd_stream i (\<lambda>_. s2) c) else upd_stream i (\<lambda>_. s2) c)"
    using credit by simp
  then have "delivering sid item b (upd_stream i (\<lambda>s. finishApplication (pushIncoming (IncomingError r) s))
      (if n \<noteq> 0 then credit n (upd_stream i (\<lambda>_. s2) c) else upd_stream i (\<lambda>_. s2) c))"
    by (rule delivering_upd) (simp add: pushIncoming_def)
  then show ?thesis using d Some s2 by (simp add: failWith_def with_stream_def Let_def s1_def [symmetric])
qed

lemma woken_pull [simp]: "st_pull (woken s) = st_pull s" "st_body (woken s) = st_body s"
  by (simp_all add: woken_def split: upload_state.split)

lemma delivering_slots:
  "delivering sid item b (failSlotWaiters r c) = delivering sid item b c"
  "delivering sid item b (wakeSlotWaiters c) = delivering sid item b c"
proof -
  have "cn_objects (fold (\<lambda>w c. if sw_active w then refuse (sw_request w) r c else c) ws c) = cn_objects c" for ws :: "slot_waiter list"
    by (induction ws arbitrary: c) (auto simp: refuse_def)
  then show "delivering sid item b (failSlotWaiters r c) = delivering sid item b c"
    by (simp add: delivering_def stream_of_def failSlotWaiters_def)
  have "cn_objects (wakeLoop ws c) = cn_objects c" for ws
    by (induction ws arbitrary: c) (auto simp: Let_def)
  then show "delivering sid item b (wakeSlotWaiters c) = delivering sid item b c"
    by (simp add: delivering_def stream_of_def wakeSlotWaiters_def compactSlots_def)
qed

lemma delivering_terminate:
  assumes "delivering sid item b c"
  shows "delivering sid item b (terminate r code g c)"
proof (cases "cn_terminating c \<or> cn_terminated c")
  case True
  then show ?thesis using assms by (auto simp: terminate_def)
next
  case False
  let ?c1 = "c\<lparr>cn_terminating := True, cn_draining := True, cn_ready := promise_reject r (cn_ready c)\<rparr>"
  obtain c2 c3 where c2: "c2 = notifyFlowChange (failSlotWaiters r ?c1)"
    and c3: "c3 = fold (\<lambda>sid. failWith (\<lambda>a c. c) sid r) (cn_streams c) c2"
    and t: "terminate r code g c = finishTermination (c3\<lparr>cn_streams := []\<rparr>) \<or>
      terminate r code g c = sendFrame (goAwayFrame code) FinalGoAwaySent (c3\<lparr>cn_streams := []\<rparr>)"
    using terminate_unfold False by blast
  have "delivering sid item b ?c1" using assms by (simp add: delivering_def stream_of_def)
  then have "delivering sid item b (failSlotWaiters r ?c1)" by (simp add: delivering_slots)
  then have d2: "delivering sid item b c2"
    by (auto simp: c2 delivering_def)
  have "delivering sid item b (fold (\<lambda>sid. failWith (\<lambda>a c. c) sid r) sids c')" if "delivering sid item b c'" for sids c'
    using that
  proof (induction sids arbitrary: c')
    case (Cons i sids)
    then show ?case using delivering_failWith [OF Cons.prems, of "\<lambda>a c. c" i r] by simp
  qed simp
  then have "delivering sid item b (c3\<lparr>cn_streams := []\<rparr>)" using d2 by (simp add: c3 delivering_def stream_of_def)
  then show ?thesis using t by (auto simp: finishTermination_def) (simp add: delivering_def stream_of_def)
qed

lemma delivering_cancel:
  assumes "delivering sid item b c"
  shows "delivering sid item b (cancelBody i r c)"
proof -
  have credit: "delivering sid item b (returnConnectionCredit a c)" if "delivering sid item b c" for a c
  proof -
    have "delivering sid item b (c\<lparr>cn_connectionReceiveWindow := w\<rparr>)" for w
      using that by (simp add: delivering_def stream_of_def)
    then show ?thesis using that delivering_terminate by (simp add: returnConnectionCredit_def)
  qed
  have changed: "delivering sid item b (streamStateChanged i c)" if "delivering sid item b c" for i c
  proof -
    have "delivering sid item b (c\<lparr>cn_streams := ss\<rparr>)" for ss using that by (simp add: delivering_def stream_of_def)
    then show ?thesis
      using that delivering_terminate
      by (simp add: streamStateChanged_def with_stream_def finishDrainIfIdle_def delivering_slots split: option.split)
  qed
  have cancel: "delivering sid item b (cancelStream i r c)" if "delivering sid item b c" for c
    unfolding cancelStream_def Let_def stream_fail_def using that
    by (auto intro!: changed delivering_upd delivering_failWith credit)
  show ?thesis
  proof (cases "stream_of c i")
    case (Some s)
    obtain n s' where d: "discardIncoming s = (n, s')" by (cases "discardIncoming s")
    have "delivering sid item b (upd_stream i (\<lambda>_. s') c)"
      using assms Some d by (cases "i = sid") (auto simp: delivering_def discardIncoming_def)
    then have "delivering sid item b (if n \<noteq> 0 then returnConnectionCredit n (upd_stream i (\<lambda>_. s') c) else upd_stream i (\<lambda>_. s') c)"
      using credit by simp
    then have "delivering sid item b (cancelStream i r (upd_stream i finishApplication
        (if n \<noteq> 0 then returnConnectionCredit n (upd_stream i (\<lambda>_. s') c) else upd_stream i (\<lambda>_. s') c)))"
      by (intro cancel delivering_upd) auto
    then show ?thesis using assms Some d by (simp add: cancelBody_def with_stream_def Let_def)
  qed (use assms in \<open>simp add: cancelBody_def with_stream_def\<close>)
qed

lemma later_inv: "(\<lambda>a b. \<exists>ev. handle ev a = Some b)\<^sup>*\<^sup>* c d \<Longrightarrow> conn_inv {} k 0 c \<Longrightarrow> \<exists>k'. k \<le> k' \<and> conn_inv {} k' 0 d"
proof (induction rule: rtranclp_induct)
  case base
  then show ?case by blast
next
  case (step d e)
  then obtain k' ev where "k \<le> k'" "conn_inv {} k' 0 d" "handle ev d = Some e" by blast
  then show ?case using handle_inv [of k' d ev e] order_trans by blast
qed

text \<open>
  C16: Cancelling a response body while an item of data is on its way to it leaks connection-level
  credit for good. The controller refuses the item and its credit is not returned: right after, the
  receive window of the connection and the bytes the application still holds are together the item's
  bytes short of the configured window, and in every later state of the connection, until it
  terminates, they are at least as short.
\<close>

theorem h2_cancel_leaks_credit:
  assumes "h2_clean c" "stream_of c sid = Some s" "st_pull s = PullReady (IncomingData bs n)" "n \<noteq> 0"
    and "handle (CancelBody sid r) c = Some c1" "handle (PullDone sid) c1 = Some c2"
    and "\<not> cn_terminating c2" "\<not> cn_terminated c2"
  shows "cn_connectionReceiveWindow c2 + held c2 = op_connectionWindowSize (cn_options c2) - n \<and> 0 < n \<and>
    (\<forall>d. (\<lambda>a b. \<exists>ev. handle ev a = Some b)\<^sup>*\<^sup>* c2 d \<longrightarrow> \<not> cn_terminating d \<longrightarrow> \<not> cn_terminated d \<longrightarrow>
       cn_connectionReceiveWindow d + held d \<le> op_connectionWindowSize (cn_options d) - n)"
proof -
  note inv = h2_clean_inv [OF assms(1)]
  have inv1: "conn_inv {} 0 0 c1" using handle_cancel_body [OF inv assms(5)] .
  have "delivering sid (IncomingData bs n) BodyClosed (upd_stream sid (\<lambda>s. s\<lparr>st_body := BodyClosed\<rparr>) c)"
    using assms(2,3) by (simp add: delivering_def)
  then have "delivering sid (IncomingData bs n) BodyClosed c1"
    using assms(2,5) delivering_cancel by (auto simp: handle_def split: if_splits)
  then obtain s1 where s1: "stream_of c1 sid = Some s1" "st_pull s1 = PullReady (IncomingData bs n)" "st_body s1 = BodyClosed"
    by (auto simp: delivering_def)
  have "c2 = pullFinish sid (IncomingData bs n) c1" using assms(6) s1 by (simp add: handle_def)
  then have inv2: "conn_inv {} n 0 c2" using pullFinish_inv [OF inv1 s1(1,2)] s1(3) by simp
  have exact: "cn_connectionReceiveWindow d + held d = op_connectionWindowSize (cn_options d) - k"
    if "conn_inv {} k 0 d" "\<not> cn_terminating d" "\<not> cn_terminated d" for k d
    using that by (simp add: conn_inv_def base_def flow_ok_def)
  have "0 < n" using base_stream [OF conn_inv_base [OF inv] assms(2)] assms(3,4) by (auto simp: stream_ok_def)
  moreover have "cn_connectionReceiveWindow d + held d \<le> op_connectionWindowSize (cn_options d) - n"
    if "(\<lambda>a b. \<exists>ev. handle ev a = Some b)\<^sup>*\<^sup>* c2 d" "\<not> cn_terminating d" "\<not> cn_terminated d" for d
    using later_inv [OF that(1) inv2] exact [OF _ that(2,3)] by force
  ultimately show ?thesis using exact [OF inv2 assms(7,8)] by blast
qed

theorem h2_cancel_leaks_credit_witness:
  "\<exists>c c1 c2 d. h2_run (sample_opening @ sample_exchange) = Some c \<and> handle (CancelBody 1 TypeError) c = Some c1 \<and>
     handle (PullDone 1) c1 = Some c2 \<and> cn_connectionReceiveWindow c2 + held c2 = 1048573 \<and>
     handle (Request sample_request) c2 = Some d \<and> cn_connectionReceiveWindow d + held d \<le> 1048573"
proof -
  have "case h2_run (sample_opening @ sample_exchange) of None \<Rightarrow> False
    | Some c \<Rightarrow> (case handle (CancelBody 1 TypeError) c of None \<Rightarrow> False
      | Some c1 \<Rightarrow> (case handle (PullDone 1) c1 of None \<Rightarrow> False
        | Some c2 \<Rightarrow> \<not> cn_terminating c2 \<and> \<not> cn_terminated c2 \<and> op_connectionWindowSize (cn_options c2) = 1048576 \<and>
          (case handle (Request sample_request) c2 of None \<Rightarrow> False
           | Some d \<Rightarrow> \<not> cn_terminating d \<and> \<not> cn_terminated d \<and> op_connectionWindowSize (cn_options d) = 1048576)))"
    by code_simp
  then obtain c c1 c2 d where h: "h2_run (sample_opening @ sample_exchange) = Some c"
      "handle (CancelBody 1 TypeError) c = Some c1" "handle (PullDone 1) c1 = Some c2" "\<not> cn_terminating c2" "\<not> cn_terminated c2"
      "op_connectionWindowSize (cn_options c2) = 1048576" "handle (Request sample_request) c2 = Some d"
      "\<not> cn_terminating d" "\<not> cn_terminated d" "op_connectionWindowSize (cn_options d) = 1048576"
    by (auto split: option.splits)
  obtain s where s: "stream_of c 1 = Some s" "st_pull s = PullReady (IncomingData [1, 2, 3] 3)"
    using sample_exchange_state h(1) by (auto split: option.splits)
  have "(\<lambda>a b. \<exists>ev. handle ev a = Some b)\<^sup>*\<^sup>* c2 d" using h(7) by blast
  then have "cn_connectionReceiveWindow c2 + held c2 = op_connectionWindowSize (cn_options c2) - 3 \<and>
      cn_connectionReceiveWindow d + held d \<le> op_connectionWindowSize (cn_options d) - 3"
    using h2_cancel_leaks_credit [OF _ s _ h(2-5)] h2_run_clean [OF h(1)] h(8,9) by auto
  then show ?thesis using h by simp
qed

definition outbox :: "h2_conn \<Rightarrow> _" where
  "outbox c = (cn_writes c, cn_writing c, cn_draining c, cn_terminated c, cn_remoteMaximumFrameSize c)"

lemma outbox_wake: "outbox (wakeSlotWaiters c) = outbox c"
proof -
  have "outbox (wakeLoop ws c) = outbox c" for ws by (induction ws arbitrary: c) (auto simp: Let_def outbox_def)
  then show ?thesis by (simp add: wakeSlotWaiters_def compactSlots_def outbox_def)
qed

lemma outbox_upd [simp]: "outbox (upd_stream sid f c) = outbox c"
  by (simp add: outbox_def upd_stream_def)

lemma outbox_prepare: "prepareRequest r sid c = (x, c') \<Longrightarrow> outbox c' = outbox c \<and> cn_aborted c' = cn_aborted c"
  by (auto simp: prepareRequest_def Let_def outbox_def split: sum.splits if_splits prod.splits)

lemma enqueue_queued:
  assumes "queue_ok c" "\<not> cn_terminated c"
  shows "outbox (enqueueBytes bs tag c) =
    (cn_writes c @ [(bs, tag)], True, cn_draining c, False, cn_remoteMaximumFrameSize c)"
  using assms by (auto simp: enqueueBytes_def Let_def outbox_def drainNext_def queue_ok_def)

lemma sendFrame_queued:
  assumes "queue_ok c" "\<not> cn_terminated c" "encodeHttp2Frame f (cn_remoteMaximumFrameSize c) = Inr bs"
  shows "outbox (sendFrame f tag c) = (cn_writes c @ [(bs, tag)], True, cn_draining c, False, cn_remoteMaximumFrameSize c)"
  using assms enqueue_queued by (simp add: sendFrame_def)

lemma cancel_fresh:
  assumes s: "stream_of c sid = Some s" "st_incoming s = []" "\<not> st_failed s" and t: "sid \<in> set (cn_streams c)"
    and rst: "encodeHttp2Frame (rstFrame sid CANCEL) (cn_remoteMaximumFrameSize c) = Inr bs"
    and c: "queue_ok c" "\<not> cn_terminated c" "\<not> cn_draining c"
  shows "outbox (cancelStream sid r c) =
    (cn_writes c @ [(bs, Detached)], True, False, False, cn_remoteMaximumFrameSize c)"
proof -
  let ?c1 = "sendFrame (rstFrame sid CANCEL) Detached c"
  let ?c2 = "upd_stream sid finishApplication (stream_fail sid r ?c1)"
  have s1: "stream_of ?c1 sid = Some s" using s(1) core_cong(4) [OF core_sendFrame] by simp
  obtain f where f: "stream_fail sid r ?c1 = upd_stream sid (\<lambda>s. finishApplication (pushIncoming (IncomingError r) s)) (upd_stream sid f ?c1)"
  proof -
    have z: "fold (\<lambda>item n. n + flow_bytes item) (drop m []) 0 = 0" for m by simp
    show thesis
      by (rule that [of "\<lambda>_. snd (discardIncoming (s\<lparr>st_failed := True, st_localEnded := True, st_remoteEnded := True,
              st_uploadReader := False,
              st_response := (if st_responseDelivered s then st_response s else promise_reject r (st_response s)),
              st_trailersSettled := True,
              st_trailers := (if st_trailersSettled s then st_trailers s else promise_reject r (st_trailers s))\<rparr>))"])
        (use s s1 in \<open>auto simp: stream_fail_def failWith_def with_stream_def Let_def discardIncoming_def ended_def\<close>)
  qed
  have o: "outbox ?c2 = outbox ?c1" by (simp add: f)
  have o1: "outbox ?c1 = (cn_writes c @ [(bs, Detached)], True, False, False, cn_remoteMaximumFrameSize c)"
    using sendFrame_queued [OF c(1,2) rst] c(3) by simp
  have "outbox (streamStateChanged sid ?c2) = outbox ?c2"
  proof -
    let ?c3 = "wakeSlotWaiters (?c2\<lparr>cn_streams := remove1 sid (cn_streams ?c2)\<rparr>)"
    have "outbox ?c3 = outbox ?c2" by (simp only: outbox_wake) (simp add: outbox_def)
    moreover from this have "\<not> cn_draining ?c3" using o o1 by (simp add: outbox_def)
    ultimately show ?thesis by (simp add: streamStateChanged_def with_stream_def finishDrainIfIdle_def split: option.split)
  qed
  moreover have "cancelStream sid r c = streamStateChanged sid ?c2"
    using t by (simp add: cancelStream_def Let_def)
  ultimately show ?thesis using o o1 by simp
qed

lemma open_aborted:
  assumes "\<not> cn_draining c" "\<not> cn_terminating c" "\<not> cn_terminated c" "cn_nextStreamId c \<le> 2 ^ 31 - 1"
    and "queue_ok c" "rq_signal r \<in> set (cn_aborted c)"
    and "prepareRequest r (cn_nextStreamId c) (c\<lparr>cn_nextStreamId := cn_nextStreamId c + 2\<rparr>) = (Inr (block, len), c2)"
    and "headerBlockFrames (nat (cn_remoteMaximumFrameSize c)) (cn_nextStreamId c) block (\<not> rq_body r) = Some frames"
    and "framesBytes frames (cn_remoteMaximumFrameSize c) = Inr headersBytes"
    and "encodeHttp2Frame (rstFrame (cn_nextStreamId c) CANCEL) (cn_remoteMaximumFrameSize c) = Inr reset"
    and none: "stream_of c (cn_nextStreamId c) = None"
  shows "cn_writing (requestOpen r c) \<and> cn_writes (requestOpen r c) =
    cn_writes c @ [(reset, Detached), (headersBytes, HeadersSent (cn_nextStreamId c) (rq_body r))]"
proof -
  let ?sid = "cn_nextStreamId c" and ?c1 = "c\<lparr>cn_nextStreamId := cn_nextStreamId c + 2\<rparr>"
  define s where "s = newHttp2ClientStream ?sid (cn_remoteInitialWindowSize c2) (op_initialStreamWindowSize (cn_options c2))
      (requestMethod (rq_headers r)) (rq_body r) len (rq_onInformational r) (rq_signal r)"
  define c3 where "c3 = c2\<lparr>cn_reservedSlots := cn_reservedSlots c2 - 1, cn_objects := cn_objects c2 @ [(?sid, s)],
               cn_streams := cn_streams c2 @ [?sid], cn_highestOpenedStreamId := ?sid\<rparr>"
  have c2: "outbox c2 = outbox c" "cn_aborted c2 = cn_aborted c" "cn_objects c2 = cn_objects c"
    using outbox_prepare [OF assms(7)] core_prepareRequest [OF assms(7)] by (simp_all add: outbox_def core_def)
  then have c3: "outbox c3 = outbox c" by (simp add: c3_def outbox_def)
  have "queue_ok (snd (prepareRequest r ?sid ?c1))" by (rule queue_ok_prepare) (simp add: assms(5))
  then have q3: "queue_ok c3" using assms(7) by (simp add: c3_def)
  have "stream_of c3 ?sid = Some s" using none c2(3) by (simp add: stream_of_def c3_def map_add_def)
  moreover have "st_incoming s = []" "\<not> st_failed s" by (simp_all add: s_def newHttp2ClientStream_def)
  moreover have "?sid \<in> set (cn_streams c3)" by (simp add: c3_def)
  ultimately have o: "outbox (cancelStream ?sid GenericError c3) =
      (cn_writes c @ [(reset, Detached)], True, False, False, cn_remoteMaximumFrameSize c)"
    using cancel_fresh [of c3 ?sid s reset GenericError] assms(1,3,10) c3 q3 by (simp add: outbox_def)
  have "requestOpen r c = sendHeaderBlock ?sid block (\<not> rq_body r) (HeadersSent ?sid (rq_body r))
      (cancelStream ?sid GenericError c3)"
    using assms(1-4,6,7) c2(2) by (simp add: requestOpen_def Let_def openStream_def attachSignal_def s_def c3_def
        MAX_WINDOW_SIZE_def)
  then have "requestOpen r c = enqueueBytes headersBytes (HeadersSent ?sid (rq_body r)) (cancelStream ?sid GenericError c3)"
    using assms(8,9) o by (simp add: sendHeaderBlock_def sendFrames_def outbox_def)
  then show ?thesis
    using enqueue_queued [of "cancelStream ?sid GenericError c3" headersBytes "HeadersSent ?sid (rq_body r)"] q3 o
    by (simp add: outbox_def)
qed

text \<open>
  C17: When a request's signal is aborted after it was granted a stream slot and before it opens its
  stream, the connection queues RST_STREAM for a stream the peer has not heard of, and right behind
  it the HEADERS frames that open the stream, whether or not a write is in progress.
\<close>

theorem h2_abort_resets_idle_stream:
  assumes "h2_reachable c" "i < length (cn_granted c)" "rq_signal (cn_granted c ! i) \<in> set (cn_aborted c)"
    and "\<not> cn_draining c" "\<not> cn_terminating c" "\<not> cn_terminated c" "cn_nextStreamId c \<le> 2 ^ 31 - 1"
    and "prepareRequest (cn_granted c ! i) (cn_nextStreamId c)
           (c\<lparr>cn_granted := remove_nth i (cn_granted c), cn_nextStreamId := cn_nextStreamId c + 2\<rparr>) = (Inr (block, len), c2)"
    and "headerBlockFrames (nat (cn_remoteMaximumFrameSize c)) (cn_nextStreamId c) block (\<not> rq_body (cn_granted c ! i)) = Some frames"
    and "framesBytes frames (cn_remoteMaximumFrameSize c) = Inr headersBytes"
    and "encodeHttp2Frame (rstFrame (cn_nextStreamId c) CANCEL) (cn_remoteMaximumFrameSize c) = Inr reset"
  shows "\<exists>c'. handle (RequestOpen i) c = Some c' \<and> stream_of c (cn_nextStreamId c) = None \<and> cn_writing c' \<and>
    cn_writes c' = cn_writes c @ [(reset, Detached), (headersBytes, HeadersSent (cn_nextStreamId c) (rq_body (cn_granted c ! i)))]"
proof -
  let ?c = "c\<lparr>cn_granted := remove_nth i (cn_granted c)\<rparr>"
  obtain k where inv: "conn_inv {} k 0 c" using h2_reachable_inv [OF assms(1)] by blast
  have none: "stream_of c (cn_nextStreamId c) = None"
  proof (rule ccontr)
    assume "stream_of c (cn_nextStreamId c) \<noteq> None"
    then show False using base_stream [OF conn_inv_base [OF inv]] by (auto simp: stream_ok_def)
  qed
  have "cn_writing (requestOpen (cn_granted c ! i) ?c) \<and> cn_writes (requestOpen (cn_granted c ! i) ?c) = cn_writes ?c @
      [(reset, Detached), (headersBytes, HeadersSent (cn_nextStreamId ?c) (rq_body (cn_granted c ! i)))]"
    by (rule open_aborted [of ?c "cn_granted c ! i" block len c2 frames])
      (use assms(3-11) none reachable_queue [OF assms(1)] in \<open>simp_all add: stream_of_def\<close>)
  then show ?thesis using assms(2) none by (simp add: handle_def)
qed

definition sample_abort :: "h2_event list" where
  "sample_abort = sample_opening @ [Abort 7]"

theorem h2_abort_resets_idle_stream_witness:
  "\<exists>c c' ws headersBytes. h2_run sample_abort = Some c \<and> handle (RequestOpen 0) c = Some c' \<and> stream_of c 1 = None \<and>
     cn_writes c' = ws @ [([0, 0, 4, 3, 0, 0, 0, 0, 1, 0, 0, 0, 8], Detached), (headersBytes, HeadersSent 1 False)]"
proof -
  have "case h2_run sample_abort of None \<Rightarrow> False | Some c \<Rightarrow>
      0 < length (cn_granted c) \<and> rq_signal (cn_granted c ! 0) \<in> set (cn_aborted c) \<and>
      \<not> cn_draining c \<and> \<not> cn_terminating c \<and> \<not> cn_terminated c \<and> cn_nextStreamId c = 1 \<and> \<not> cn_writing c \<and>
      \<not> rq_body (cn_granted c ! 0) \<and>
      (case prepareRequest (cn_granted c ! 0) (cn_nextStreamId c)
           (c\<lparr>cn_granted := remove_nth 0 (cn_granted c), cn_nextStreamId := cn_nextStreamId c + 2\<rparr>) of
         (Inl e, c2) \<Rightarrow> False
       | (Inr (block, len), c2) \<Rightarrow>
           (case headerBlockFrames (nat (cn_remoteMaximumFrameSize c)) (cn_nextStreamId c) block (\<not> rq_body (cn_granted c ! 0)) of
              None \<Rightarrow> False | Some frames \<Rightarrow> is_ok (framesBytes frames (cn_remoteMaximumFrameSize c)))) \<and>
      encodeHttp2Frame (rstFrame (cn_nextStreamId c) CANCEL) (cn_remoteMaximumFrameSize c) =
        Inr [0, 0, 4, 3, 0, 0, 0, 0, 1, 0, 0, 0, 8]"
    by code_simp
  then obtain c block len c2 frames where c: "h2_run sample_abort = Some c"
      "0 < length (cn_granted c)" "rq_signal (cn_granted c ! 0) \<in> set (cn_aborted c)"
      "\<not> cn_draining c" "\<not> cn_terminating c" "\<not> cn_terminated c" "cn_nextStreamId c = 1" "\<not> rq_body (cn_granted c ! 0)"
      "prepareRequest (cn_granted c ! 0) (cn_nextStreamId c)
           (c\<lparr>cn_granted := remove_nth 0 (cn_granted c), cn_nextStreamId := cn_nextStreamId c + 2\<rparr>) = (Inr (block, len), c2)"
      "headerBlockFrames (nat (cn_remoteMaximumFrameSize c)) (cn_nextStreamId c) block (\<not> rq_body (cn_granted c ! 0)) = Some frames"
      "is_ok (framesBytes frames (cn_remoteMaximumFrameSize c))"
      "encodeHttp2Frame (rstFrame (cn_nextStreamId c) CANCEL) (cn_remoteMaximumFrameSize c) = Inr [0, 0, 4, 3, 0, 0, 0, 0, 1, 0, 0, 0, 8]"
    by (auto split: option.splits prod.splits sum.splits)
  obtain headersBytes where o: "framesBytes frames (cn_remoteMaximumFrameSize c) = Inr headersBytes" using c(11) by (metis is_ok.elims(2))
  have "h2_reachable c" using h2_run_clean [OF c(1)] by simp
  from h2_abort_resets_idle_stream [OF this c(2-6) _ c(9,10) o c(12)] c(7) obtain c' where
    "handle (RequestOpen 0) c = Some c'" "stream_of c 1 = None"
    "cn_writes c' = cn_writes c @ [([0, 0, 4, 3, 0, 0, 0, 0, 1, 0, 0, 0, 8], Detached), (headersBytes, HeadersSent 1 (rq_body (cn_granted c ! 0)))]"
    by auto
  with c(1,8) show ?thesis by auto
qed

end
