(* ===== verification/Ascii_Text.thy ===== *)
theory Ascii_Text
  imports Nts_Prelude
begin

text \<open>
  The character classes and trimming functions of \<^verbatim>\<open>runtime/web-platform/src/core/ascii.ts\<close>.
  The trimming loops move two indices; the lemmas show that each of them strips the longest
  prefix and suffix of its class.
\<close>

section \<open>Character classes\<close>

definition isHTTPTabOrSpace :: "int \<Rightarrow> bool" where
  "isHTTPTabOrSpace code \<longleftrightarrow> code = 9 \<or> code = 32"

definition isHTTPWhitespace :: "int \<Rightarrow> bool" where
  "isHTTPWhitespace code \<longleftrightarrow> code = 9 \<or> code = 10 \<or> code = 13 \<or> code = 32"

definition isASCIIWhitespace :: "int \<Rightarrow> bool" where
  "isASCIIWhitespace code \<longleftrightarrow> code = 9 \<or> code = 10 \<or> code = 12 \<or> code = 13 \<or> code = 32"

section \<open>Trimming\<close>

text \<open>
  \<open>trimStart\<close> and \<open>trimEnd\<close> are the two \<^verbatim>\<open>while\<close> loops that every trimming function has.
\<close>

function trimStart :: "(int \<Rightarrow> bool) \<Rightarrow> jsstring \<Rightarrow> nat \<Rightarrow> nat \<Rightarrow> nat" where
  "trimStart blank value start stop =
     (if start < stop \<and> blank (uint (value ! start)) then trimStart blank value (start + 1) stop else start)"
  by auto
termination by (relation "measure (\<lambda>(_, _, start, stop). stop - start)") auto

fun trimEnd :: "(int \<Rightarrow> bool) \<Rightarrow> jsstring \<Rightarrow> nat \<Rightarrow> nat \<Rightarrow> nat" where
  "trimEnd blank value start stop =
     (if stop > start \<and> blank (uint (value ! (stop - 1))) then trimEnd blank value start (stop - 1) else stop)"

declare trimStart.simps [simp del] trimEnd.simps [simp del]

definition trimHTTPTabOrSpace :: "jsstring \<Rightarrow> jsstring" where
  "trimHTTPTabOrSpace value =
     (let start = trimStart isHTTPTabOrSpace value 0 (length value);
          stop = trimEnd isHTTPTabOrSpace value start (length value)
      in if start = 0 \<and> stop = length value then value else js_slice value start stop)"

definition trimHTTPWhitespace :: "jsstring \<Rightarrow> jsstring" where
  "trimHTTPWhitespace value =
     (let start = trimStart isHTTPWhitespace value 0 (length value);
          stop = trimEnd isHTTPWhitespace value start (length value)
      in if start = 0 \<and> stop = length value then value else js_slice value start stop)"

definition trimTrailingHTTPWhitespace :: "jsstring \<Rightarrow> jsstring" where
  "trimTrailingHTTPWhitespace value =
     (let stop = trimEnd isHTTPWhitespace value 0 (length value)
      in if stop = length value then value else js_slice value 0 stop)"

definition trimASCIIWhitespace :: "jsstring \<Rightarrow> jsstring" where
  "trimASCIIWhitespace value =
     (let start = trimStart isASCIIWhitespace value 0 (length value);
          stop = trimEnd isASCIIWhitespace value start (length value)
      in if start = 0 \<and> stop = length value then value else js_slice value start stop)"

section \<open>Lemmas\<close>

definition strip_left :: "(int \<Rightarrow> bool) \<Rightarrow> jsstring \<Rightarrow> jsstring" where
  "strip_left blank v = dropWhile (\<lambda>u. blank (uint u)) v"

definition strip_right :: "(int \<Rightarrow> bool) \<Rightarrow> jsstring \<Rightarrow> jsstring" where
  "strip_right blank v = rev (strip_left blank (rev v))"

lemma trimStart_drop:
  "start \<le> length v \<Longrightarrow>
   trimStart blank v start (length v) \<le> length v \<and>
   start \<le> trimStart blank v start (length v) \<and>
   drop (trimStart blank v start (length v)) v = strip_left blank (drop start v)"
proof (induction blank v start "length v" rule: trimStart.induct)
  case (1 blank v start)
  show ?case
  proof (cases "start < length v")
    case True
    then have "drop start v = v ! start # drop (Suc start) v" by (rule Cons_nth_drop_Suc [symmetric])
    then show ?thesis using 1 True
      by (subst (1 2 3) trimStart.simps) (auto simp: strip_left_def)
  next
    case False
    then show ?thesis using 1(2) by (subst (1 2 3) trimStart.simps) (simp add: strip_left_def)
  qed
qed

lemma trimEnd_take:
  "stop \<le> length v \<Longrightarrow> start \<le> stop \<Longrightarrow>
   start \<le> trimEnd blank v start stop \<and> trimEnd blank v start stop \<le> stop \<and>
   js_slice v start (trimEnd blank v start stop) = strip_right blank (js_slice v start stop)"
proof (induction blank v start stop rule: trimEnd.induct)
  case (1 blank v start stop)
  show ?case
  proof (cases "start < stop")
    case True
    then obtain e where e: "stop = Suc e" "start \<le> e" by (cases stop) auto
    then have s: "js_slice v start stop = js_slice v start e @ [v ! e]"
      using 1(2) by (simp add: js_slice_def Suc_diff_le take_Suc_conv_app_nth)
    show ?thesis using 1 e s
      by (subst (1 2 3) trimEnd.simps) (auto simp: strip_right_def strip_left_def)
  next
    case False
    then show ?thesis using 1(3)
      by (subst (1 2 3) trimEnd.simps) (simp add: strip_right_def strip_left_def js_slice_def)
  qed
qed

lemma trim_both:
  assumes "start = trimStart blank v 0 (length v)"
    and "stop = trimEnd blank v start (length v)"
  shows "(if start = 0 \<and> stop = length v then v else js_slice v start stop) =
     strip_right blank (strip_left blank v)"
proof -
  have "start \<le> length v" "drop start v = strip_left blank v"
    using trimStart_drop [of 0 v blank] assms(1) by auto
  moreover from this have "js_slice v start stop = strip_right blank (js_slice v start (length v))"
    using trimEnd_take [of "length v" v start blank] assms(2) by auto
  ultimately have "js_slice v start stop = strip_right blank (strip_left blank v)"
    by (simp add: js_slice_from)
  then show ?thesis by (metis js_slice_all)
qed

lemma trim_eq:
  "trimHTTPTabOrSpace v = strip_right isHTTPTabOrSpace (strip_left isHTTPTabOrSpace v)"
  "trimHTTPWhitespace v = strip_right isHTTPWhitespace (strip_left isHTTPWhitespace v)"
  "trimASCIIWhitespace v = strip_right isASCIIWhitespace (strip_left isASCIIWhitespace v)"
  by (simp_all only: trimHTTPTabOrSpace_def trimHTTPWhitespace_def trimASCIIWhitespace_def Let_def
      trim_both [OF refl refl])

lemma trimTrailing_eq: "trimTrailingHTTPWhitespace v = strip_right isHTTPWhitespace v"
  using trimEnd_take [of "length v" v 0 isHTTPWhitespace]
  by (simp add: trimTrailingHTTPWhitespace_def Let_def) (metis js_slice_all)

end
