(* ===== verification/Base64.thy ===== *)
theory Base64
  imports Ascii_Text Byte_Strings
begin

text \<open>
  The forgiving base64 codec of \<^verbatim>\<open>runtime/web-platform/src/core/base64.ts\<close> and the functions
  \<^verbatim>\<open>atob\<close> and \<^verbatim>\<open>btoa\<close> of \<^verbatim>\<open>core/base64-globals.ts\<close> on a string argument. The decoder's
  three loops (count the significant bytes, take off the padding, accumulate the bits into an
  output array allocated beforehand) are proved equal to a grouping of the significant
  characters by four, and the encoder's loop to its inverse.
\<close>

section \<open>Encoder\<close>

definition BASE64_ALPHABET :: jsstring where
  "BASE64_ALPHABET = js_string ''ABCDEFGHIJKLMNOPQRSTUVWXYZabcdefghijklmnopqrstuvwxyz0123456789+/''"

text \<open>\<^verbatim>\<open>charAt\<close> is the empty string out of range.\<close>

definition js_charAt :: "jsstring \<Rightarrow> int \<Rightarrow> jsstring" where
  "js_charAt s i = (case js_at s i of None \<Rightarrow> [] | Some u \<Rightarrow> [u])"

definition byte_or_zero :: "bytes \<Rightarrow> nat \<Rightarrow> int" where
  "byte_or_zero bs i = js_or_else (map_option uint (js_at bs (int i))) 0"

definition base64Quad :: "bytes \<Rightarrow> nat \<Rightarrow> jsstring" where
  "base64Quad bs index =
     (let first = byte_or_zero bs index;
          second = byte_or_zero bs (index + 1);
          third = byte_or_zero bs (index + 2)
      in js_charAt BASE64_ALPHABET (js_ushr first 2)
       @ js_charAt BASE64_ALPHABET (js_or (js_shl (js_and first 3) 4) (js_ushr second 4))
       @ (if index + 1 < length bs
          then js_charAt BASE64_ALPHABET (js_or (js_shl (js_and second 15) 2) (js_ushr third 6))
          else js_string ''='')
       @ (if index + 2 < length bs then js_charAt BASE64_ALPHABET (js_and third 63) else js_string ''=''))"

function base64EncodeLoop :: "bytes \<Rightarrow> nat \<Rightarrow> jsstring \<Rightarrow> jsstring" where
  "base64EncodeLoop bs index result =
     (if index < length bs then base64EncodeLoop bs (index + 3) (result @ base64Quad bs index) else result)"
  by auto
termination by (relation "measure (\<lambda>(bs, index, _). length bs - index)") auto

declare base64EncodeLoop.simps [simp del]

definition forgivingBase64Encode :: "bytes \<Rightarrow> jsstring" where
  "forgivingBase64Encode bs = base64EncodeLoop bs 0 []"

section \<open>Binary strings\<close>

text \<open>The array is allocated first and filled in the loop; \<open>None\<close> is \<^verbatim>\<open>null\<close>.\<close>

fun binaryStringLoop :: "jsstring \<Rightarrow> nat \<Rightarrow> bytes \<Rightarrow> bytes option" where
  "binaryStringLoop [] index bs = Some bs"
| "binaryStringLoop (unit # input) index bs =
     (if uint unit > 0xff then None
      else binaryStringLoop input (index + 1) (bs[index := to_uint8 (uint unit)]))"

definition base64BinaryStringToBytes :: "jsstring \<Rightarrow> bytes option" where
  "base64BinaryStringToBytes input = binaryStringLoop input 0 (replicate (length input) 0)"

definition base64BytesToBinaryString :: "bytes \<Rightarrow> jsstring" where
  "base64BytesToBinaryString bs = fold (\<lambda>b result. result @ [word_of_int (uint b)]) bs []"

section \<open>Decoder\<close>

definition base64Value :: "int \<Rightarrow> int" where
  "base64Value code =
     (if code \<ge> 0x41 \<and> code \<le> 0x5a then code - 0x41
      else if code \<ge> 0x61 \<and> code \<le> 0x7a then code - 0x61 + 26
      else if code \<ge> 0x30 \<and> code \<le> 0x39 then code - 0x30 + 52
      else if code = 0x2b then 62
      else if code = 0x2f then 63
      else - 1)"

definition significantLength :: "bytes \<Rightarrow> nat" where
  "significantLength input =
     fold (\<lambda>b n. if \<not> isASCIIWhitespace (uint b) then n + 1 else n) input 0"

text \<open>
  The padding loop runs from the last index down; it stops after two padding characters or at
  the first other significant byte. Its argument is the reversed input.
\<close>

fun paddingLoop :: "bytes \<Rightarrow> nat \<Rightarrow> nat \<Rightarrow> nat" where
  "paddingLoop [] stop removedPadding = stop"
| "paddingLoop (b # rest) stop removedPadding =
     (if \<not> removedPadding < 2 then stop
      else if isASCIIWhitespace (uint b) then paddingLoop rest stop removedPadding
      else if uint b \<noteq> 0x3d then stop
      else paddingLoop rest (stop - 1) (removedPadding + 1))"

record base64_state =
  b64_output :: bytes
  b64_accumulator :: int
  b64_bits :: nat
  b64_read :: nat
  b64_written :: nat

text \<open>One significant byte: \<open>v\<close> is its value.\<close>

definition base64Step :: "int \<Rightarrow> base64_state \<Rightarrow> base64_state" where
  "base64Step v s =
     (let s1 = s\<lparr>b64_accumulator := js_or (js_shl (b64_accumulator s) 6) v,
                 b64_bits := b64_bits s + 6\<rparr>;
          s2 = (if b64_bits s1 \<ge> 8
                then s1\<lparr>b64_bits := b64_bits s1 - 8,
                        b64_output := (b64_output s1)[b64_written s1 :=
                          to_uint8 (js_and (js_shr (b64_accumulator s1) (b64_bits s1 - 8)) 0xff)],
                        b64_written := b64_written s1 + 1\<rparr>
                else s1)
      in if b64_bits s2 = 0 then s2\<lparr>b64_accumulator := 0\<rparr> else s2)"

fun base64DecodeLoop :: "bytes \<Rightarrow> nat \<Rightarrow> base64_state \<Rightarrow> bytes option" where
  "base64DecodeLoop [] stop s = Some (b64_output s)"
| "base64DecodeLoop (b # input) stop s =
     (if \<not> b64_read s < stop then Some (b64_output s)
      else if isASCIIWhitespace (uint b) then base64DecodeLoop input stop s
      else if base64Value (uint b) < 0 then None
      else base64DecodeLoop input stop
             (base64Step (base64Value (uint b)) (s\<lparr>b64_read := b64_read s + 1\<rparr>)))"

definition forgivingBase64Decode :: "bytes \<Rightarrow> bytes option" where
  "forgivingBase64Decode input =
     (let significant = significantLength input;
          stop = (if significant mod 4 = 0 then paddingLoop (rev input) significant 0 else significant)
      in if stop mod 4 = 1 then None
         else base64DecodeLoop input stop
                \<lparr>b64_output = replicate (stop * 6 div 8) 0, b64_accumulator = 0, b64_bits = 0,
                 b64_read = 0, b64_written = 0\<rparr>)"

section \<open>atob and btoa\<close>

text \<open>\<open>None\<close> is the \<^verbatim>\<open>InvalidCharacterError\<close> that is thrown.\<close>

definition atob :: "jsstring \<Rightarrow> jsstring option" where
  "atob data =
     (let input = base64BinaryStringToBytes data;
          decoded = (case input of None \<Rightarrow> None | Some bs \<Rightarrow> forgivingBase64Decode bs)
      in case decoded of None \<Rightarrow> None | Some bs \<Rightarrow> Some (base64BytesToBinaryString bs))"

definition btoa :: "jsstring \<Rightarrow> jsstring option" where
  "btoa data =
     (case base64BinaryStringToBytes data of None \<Rightarrow> None | Some bs \<Rightarrow> Some (forgivingBase64Encode bs))"

section \<open>Reference: groups of four characters\<close>

abbreviation significant :: "byte \<Rightarrow> bool" where
  "significant b \<equiv> \<not> isASCIIWhitespace (uint b)"

abbreviation pad :: byte where
  "pad \<equiv> 0x3d"

fun strip_pads :: "nat \<Rightarrow> bytes \<Rightarrow> bytes" where
  "strip_pads 0 r = r"
| "strip_pads (Suc n) [] = []"
| "strip_pads (Suc n) (b # r) = (if b = pad then strip_pads n r else b # r)"

definition base64_body :: "bytes \<Rightarrow> bytes" where
  "base64_body s = (if length s mod 4 = 0 then rev (strip_pads 2 (rev s)) else s)"

fun base64_bytes :: "int list \<Rightarrow> bytes" where
  "base64_bytes (a # b # c # d # vs) =
     to_uint8 (a * 4 + b div 16) # to_uint8 (b mod 16 * 16 + c div 4) # to_uint8 (c mod 4 * 64 + d)
       # base64_bytes vs"
| "base64_bytes [a, b, c] = [to_uint8 (a * 4 + b div 16), to_uint8 (b mod 16 * 16 + c div 4)]"
| "base64_bytes [a, b] = [to_uint8 (a * 4 + b div 16)]"
| "base64_bytes _ = []"

definition base64_reference :: "bytes \<Rightarrow> bytes option" where
  "base64_reference s =
     (let body = base64_body s
      in if length body mod 4 = 1 \<or> (\<exists>b\<in>set body. base64Value (uint b) < 0) then None
         else Some (base64_bytes (map (\<lambda>b. base64Value (uint b)) body)))"

section \<open>Lemmas: the decoder's loops\<close>

lemma significantLength_eq: "significantLength input = length (filter significant input)"
proof -
  have "fold (\<lambda>b n. if significant b then n + 1 else n) input n = n + length (filter significant input)" for n
    by (induction input arbitrary: n) auto
  then show ?thesis by (simp add: significantLength_def)
qed

lemma uint_pad_iff: "uint (b :: byte) = 61 \<longleftrightarrow> b = pad"
proof
  assume "uint b = 61"
  then have "uint b = uint pad" by simp
  then show "b = pad" by (rule word_uint_eqI)
qed simp

lemma paddingLoop_done: "\<not> k < 2 \<Longrightarrow> paddingLoop xs stop k = stop"
  by (cases xs) auto

lemma paddingLoop_filter: "paddingLoop xs stop k = paddingLoop (filter significant xs) stop k"
  by (induction xs stop k rule: paddingLoop.induct) (auto simp: paddingLoop_done)

lemma paddingLoop_strip:
  "list_all significant r \<Longrightarrow> k \<le> 2 \<Longrightarrow> paddingLoop r (length r) k = length (strip_pads (2 - k) r)"
proof (induction r arbitrary: k)
  case Nil
  then show ?case by (cases "2 - k") auto
next
  case (Cons b r)
  show ?case
  proof (cases "k = 2")
    case False
    then have "2 - k = Suc (2 - (k + 1))" using Cons.prems(2) by simp
    then show ?thesis using Cons False by (auto simp: uint_pad_iff)
  qed simp
qed

lemma strip_pads_drop: "\<exists>m. strip_pads n r = drop m r"
proof (induction n r rule: strip_pads.induct)
  case (3 n b r)
  then obtain m where "strip_pads n r = drop m r" if "b = pad" by blast
  then show ?case by (cases "b = pad") (metis drop_Suc_Cons strip_pads.simps(3), metis drop0 strip_pads.simps(3))
qed (auto intro: exI [of _ 0])

lemma base64_body_take: "base64_body s = take (length (base64_body s)) s"
proof -
  obtain m where "strip_pads 2 (rev s) = drop m (rev s)" using strip_pads_drop by blast
  then show ?thesis by (simp add: base64_body_def rev_drop)
qed

lemma base64DecodeLoop_done: "\<not> b64_read s < stop \<Longrightarrow> base64DecodeLoop input stop s = Some (b64_output s)"
  by (cases input) auto

lemma base64DecodeLoop_filter:
  "base64DecodeLoop input stop s = base64DecodeLoop (filter significant input) stop s"
  by (induction input stop s rule: base64DecodeLoop.induct) (auto simp: base64DecodeLoop_done)

lemma base64Step_read: "base64Step v (s\<lparr>b64_read := n\<rparr>) = (base64Step v s)\<lparr>b64_read := n\<rparr>"
  by (simp add: base64Step_def Let_def)

lemma b64_read_Step: "b64_read (base64Step v s) = b64_read s"
  by (simp add: base64Step_def Let_def)

lemma fold_base64Step_read:
  "fold base64Step vs (s\<lparr>b64_read := n\<rparr>) = (fold base64Step vs s)\<lparr>b64_read := n\<rparr>"
  by (induction vs arbitrary: s) (auto simp: base64Step_read)

lemma base64DecodeLoop_all:
  assumes "list_all significant xs" "stop = b64_read s + n" "n \<le> length xs"
  shows "base64DecodeLoop xs stop s =
    (if \<exists>b\<in>set (take n xs). base64Value (uint b) < 0 then None
     else Some (b64_output (fold base64Step (map (\<lambda>b. base64Value (uint b)) (take n xs)) s)))"
  using assms
proof (induction xs arbitrary: s n)
  case Nil
  then show ?case by simp
next
  case (Cons b xs)
  show ?case
  proof (cases n)
    case (Suc m)
    let ?s = "base64Step (base64Value (uint b)) (s\<lparr>b64_read := b64_read s + 1\<rparr>)"
    have "base64DecodeLoop xs stop ?s =
      (if \<exists>b\<in>set (take m xs). base64Value (uint b) < 0 then None
       else Some (b64_output (fold base64Step (map (\<lambda>b. base64Value (uint b)) (take m xs)) ?s)))"
      using Cons.prems Suc by (intro Cons.IH) (auto simp: b64_read_Step)
    then show ?thesis using Cons.prems Suc by (simp add: base64Step_read fold_base64Step_read)
  qed (simp add: base64DecodeLoop_done Cons.prems)
qed

lemma base64Value_less: "base64Value code < 64"
  by (simp add: base64Value_def)

abbreviation b64_at :: "bytes \<Rightarrow> int \<Rightarrow> nat \<Rightarrow> nat \<Rightarrow> nat \<Rightarrow> base64_state" where
  "b64_at out acc k r w \<equiv> \<lparr>b64_output = out, b64_accumulator = acc, b64_bits = k, b64_read = r, b64_written = w\<rparr>"

lemma base64Step_0:
  "0 \<le> v \<Longrightarrow> v < 64 \<Longrightarrow> base64Step v (b64_at out 0 0 r w) = b64_at out v 6 r w"
  using js_or_shl [of 0 6 v] by (simp add: base64Step_def)

lemma base64Step_6:
  assumes "0 \<le> v" "v < 64" "0 \<le> a" "a < 64"
  shows "base64Step v (b64_at out a 6 r w) =
    b64_at (out[w := to_uint8 (a * 4 + v div 16)]) (a * 64 + v) 4 r (w + 1)"
proof -
  have "js_or (js_shl a 6) v = a * 64 + v" using assms js_or_shl [of a 6 v] by simp
  moreover have "js_shr (a * 64 + v) 4 = a * 4 + v div 16" using assms by (simp add: js_shr_small)
  ultimately show ?thesis by (simp add: base64Step_def)
qed

lemma to_uint8_cong: "m mod 256 = n mod 256 \<Longrightarrow> to_uint8 m = to_uint8 n"
  by (metis to_uint8_mod)

lemma base64Step_4:
  assumes "0 \<le> v" "v < 64" "0 \<le> b" "b < 64" "0 \<le> a" "a < 64"
  shows "base64Step v (b64_at out (a * 64 + b) 4 r w) =
    b64_at (out[w := to_uint8 (b mod 16 * 16 + v div 4)]) ((a * 64 + b) * 64 + v) 2 r (w + 1)"
proof -
  have "js_or (js_shl (a * 64 + b) 6) v = (a * 64 + b) * 64 + v"
    using assms js_or_shl [of "a * 64 + b" 6 v] by simp
  moreover have "js_shr ((a * 64 + b) * 64 + v) 2 = (a * 64 + b) * 16 + v div 4"
    using assms by (simp add: js_shr_small)
  moreover have "to_uint8 ((a * 64 + b) * 16 + v div 4) = to_uint8 (b mod 16 * 16 + v div 4)"
  proof (rule to_uint8_cong)
    obtain q m where "b = q * 16 + m" "b div 16 = q" "b mod 16 = m" by (metis div_mult_mod_eq)
    then have "(a * 64 + b) * 16 + v div 4 = (b mod 16 * 16 + v div 4) + (a * 4 + b div 16) * 256"
      by simp
    then show "((a * 64 + b) * 16 + v div 4) mod 256 = (b mod 16 * 16 + v div 4) mod 256"
      by (simp only: mod_mult_self1)
  qed
  ultimately show ?thesis by (simp add: base64Step_def)
qed

lemma base64Step_2:
  assumes "0 \<le> v" "v < 64" "0 \<le> c" "c < 64" "0 \<le> p" "p < 4096"
  shows "base64Step v (b64_at out (p * 64 + c) 2 r w) =
    b64_at (out[w := to_uint8 (c mod 4 * 64 + v)]) 0 0 r (w + 1)"
proof -
  have "js_or (js_shl (p * 64 + c) 6) v = (p * 64 + c) * 64 + v"
    using assms js_or_shl [of "p * 64 + c" 6 v] by simp
  moreover have "js_shr ((p * 64 + c) * 64 + v) 0 = (p * 64 + c) * 64 + v"
    using assms by (simp add: js_shr_small)
  moreover have "to_uint8 ((p * 64 + c) * 64 + v) = to_uint8 (c mod 4 * 64 + v)"
  proof (rule to_uint8_cong)
    obtain q m where "c = q * 4 + m" "c div 4 = q" "c mod 4 = m" by (metis div_mult_mod_eq)
    then have "(p * 64 + c) * 64 + v = (c mod 4 * 64 + v) + (p * 16 + c div 4) * 256"
      by simp
    then show "((p * 64 + c) * 64 + v) mod 256 = (c mod 4 * 64 + v) mod 256"
      by (simp only: mod_mult_self1)
  qed
  ultimately show ?thesis by (simp add: base64Step_def)
qed

lemma length_base64_bytes:
  "length vs mod 4 \<noteq> 1 \<Longrightarrow> length (base64_bytes vs) = length vs * 6 div 8"
  by (induction vs rule: base64_bytes.induct) auto

lemma list_update_last2: "length xs = Suc (Suc n) \<Longrightarrow> xs[n := u, Suc n := v] = take n xs @ [u, v]"
  by (rule nth_equalityI) (auto simp: nth_append nth_list_update less_Suc_eq)

lemma fold_base64Step:
  assumes "\<forall>v\<in>set vs. 0 \<le> v \<and> v < 64" "length out = w + length (base64_bytes vs)"
  shows "b64_output (fold base64Step vs (b64_at out 0 0 r w)) = take w out @ base64_bytes vs"
  using assms
proof (induction vs arbitrary: out w rule: base64_bytes.induct)
  case (1 a b c d vs)
  let ?x = "to_uint8 (a * 4 + b div 16)" and ?y = "to_uint8 (b mod 16 * 16 + c div 4)"
    and ?z = "to_uint8 (c mod 4 * 64 + d)"
  let ?out = "out[w := ?x, Suc w := ?y, Suc (Suc w) := ?z]"
  have v: "0 \<le> a" "a < 64" "0 \<le> b" "b < 64" "0 \<le> c" "c < 64" "0 \<le> d" "d < 64"
    using 1(2) by auto
  have p: "0 \<le> a * 64 + b" "a * 64 + b < 4096" using v by auto
  have d: "base64Step d (b64_at out' (4096 * a + b * 64 + c) 2 r u) =
      b64_at (out'[u := ?z]) 0 0 r (u + 1)" for out' u
    using base64Step_2 [of d c "a * 64 + b" out' r u] v p by simp
  have "fold base64Step (a # b # c # d # vs) (b64_at out 0 0 r w) =
    fold base64Step vs (b64_at ?out 0 0 r (w + 3))"
    using v by (simp add: base64Step_0 base64Step_6 base64Step_4 d numeral_3_eq_3)
  moreover have "take (w + 3) ?out = take w out @ [?x, ?y, ?z]"
    using 1(3) by (simp add: take_Suc_conv_app_nth nth_list_update eval_nat_numeral)
  ultimately show ?case using 1(1) [of ?out "w + 3"] 1(2,3) by simp
next
  case (2 a b c)
  then show ?case by (auto simp: base64Step_0 base64Step_6 base64Step_4 list_update_last2)
next
  case (3 a b)
  then show ?case
    by (auto simp: base64Step_0 base64Step_6 list_update_last)
next
  case "4_2"
  then show ?case by (auto simp: base64Step_0)
qed (auto simp: base64Step_0)

lemma forgivingBase64Decode_reference:
  "forgivingBase64Decode input = base64_reference (filter significant input)"
proof -
  let ?s = "filter significant input" and ?val = "\<lambda>b :: byte. base64Value (uint b)"
  let ?body = "base64_body ?s"
  have sig: "list_all significant ?s" by (simp add: list_all_iff)
  have "paddingLoop (rev input) (length ?s) 0 = length (strip_pads 2 (rev ?s))"
  proof -
    have "filter significant (rev input) = rev ?s" by (simp add: rev_filter)
    then show ?thesis using paddingLoop_strip [of "rev ?s" 0] sig paddingLoop_filter [of "rev input" "length ?s" 0]
      by simp
  qed
  then have stop: "(if significantLength input mod 4 = 0
      then paddingLoop (rev input) (significantLength input) 0 else significantLength input) = length ?body"
    by (simp add: significantLength_eq base64_body_def)
  let ?start = "b64_at (replicate (length ?body * 6 div 8) 0) 0 0 0 0"
  have loop: "base64DecodeLoop input (length ?body) ?start =
    (if \<exists>b\<in>set ?body. ?val b < 0 then None
     else Some (b64_output (fold base64Step (map ?val ?body) ?start)))"
  proof -
    have "length ?body \<le> length ?s" using base64_body_take [of ?s] by (metis length_take min.cobounded1)
    then have "base64DecodeLoop ?s (length ?body) ?start =
      (if \<exists>b\<in>set ?body. ?val b < 0 then None
       else Some (b64_output (fold base64Step (map ?val ?body) ?start)))"
      using base64DecodeLoop_all [of ?s "length ?body" ?start "length ?body"] sig
      by (simp add: base64_body_take [of ?s, symmetric])
    then show ?thesis by (simp only: base64DecodeLoop_filter [of input])
  qed
  have "b64_output (fold base64Step (map ?val ?body) ?start) = base64_bytes (map ?val ?body)"
    if "length ?body mod 4 \<noteq> 1" "\<forall>b\<in>set ?body. \<not> ?val b < 0"
    using that by (subst fold_base64Step) (auto simp: length_base64_bytes base64Value_less not_less)
  then show ?thesis
    using loop by (simp add: forgivingBase64Decode_def Let_def stop base64_reference_def)
qed

section \<open>Lemmas: the encoder\<close>

definition b64_char :: "int \<Rightarrow> byte" where
  "b64_char i = ucast (BASE64_ALPHABET ! nat i)"

fun base64_quads :: "bytes \<Rightarrow> bytes" where
  "base64_quads (x # y # z # bs) =
     [b64_char (uint x div 4), b64_char (uint x mod 4 * 16 + uint y div 16),
      b64_char (uint y mod 16 * 4 + uint z div 64), b64_char (uint z mod 64)] @ base64_quads bs"
| "base64_quads [x, y] =
     [b64_char (uint x div 4), b64_char (uint x mod 4 * 16 + uint y div 16),
      b64_char (uint y mod 16 * 4), pad]"
| "base64_quads [x] = [b64_char (uint x div 4), b64_char (uint x mod 4 * 16), pad, pad]"
| "base64_quads [] = []"

lemma b64_char_checks:
  "list_all (\<lambda>i. uint (b64_char i) = uint (BASE64_ALPHABET ! nat i) \<and> base64Value (uint (b64_char i)) = i \<and>
     significant (b64_char i) \<and> b64_char i \<noteq> pad) [0..63]"
  by code_simp

lemma b64_char_facts:
  assumes "0 \<le> i" "i < 64"
  shows "uint (b64_char i) = uint (BASE64_ALPHABET ! nat i)" "base64Value (uint (b64_char i)) = i"
    "significant (b64_char i)" "b64_char i \<noteq> pad"
proof -
  have "i \<in> set [0..63]" using assms by simp
  then have "uint (b64_char i) = uint (BASE64_ALPHABET ! nat i) \<and> base64Value (uint (b64_char i)) = i \<and>
     significant (b64_char i) \<and> b64_char i \<noteq> pad"
    using b64_char_checks unfolding list_all_iff by (rule bspec [rotated])
  then show "uint (b64_char i) = uint (BASE64_ALPHABET ! nat i)" "base64Value (uint (b64_char i)) = i"
    "significant (b64_char i)" "b64_char i \<noteq> pad"
    by blast+
qed

lemma length_BASE64_ALPHABET: "length BASE64_ALPHABET = 64"
  by code_simp

lemma charAt_alphabet: "0 \<le> i \<Longrightarrow> i < 64 \<Longrightarrow> js_charAt BASE64_ALPHABET i = [ucast (b64_char i)]"
  using b64_char_facts(1) [of i, symmetric]
  by (simp add: js_charAt_def js_at_def length_BASE64_ALPHABET word_uint_eq_iff unsigned_ucast_eq
      take_bit_int_eq_self uint_byte_less)

lemma byte_or_zero_drop: "byte_or_zero bs (index + k) = byte_or_zero (drop index bs) k"
  by (auto simp: byte_or_zero_def js_at_def nat_add_distrib)

lemma byte_or_zero_simps [simp]:
  "byte_or_zero (x # bs) 0 = uint x"
  "byte_or_zero (x # bs) (Suc k) = byte_or_zero bs k"
  "byte_or_zero [] k = 0"
  by (auto simp: byte_or_zero_def js_at_def nat_add_distrib)

lemma base64Quad_drop: "base64Quad bs index = base64Quad (drop index bs) 0"
proof -
  have "byte_or_zero bs index = byte_or_zero (drop index bs) 0"
    using byte_or_zero_drop [of bs index 0] by simp
  moreover have "index + 1 < length bs \<longleftrightarrow> 1 < length (drop index bs)"
    "index + 2 < length bs \<longleftrightarrow> 2 < length (drop index bs)" by auto
  ultimately show ?thesis
    by (simp only: base64Quad_def Let_def byte_or_zero_drop [of bs index 1] byte_or_zero_drop [of bs index 2] add_0)
qed

lemma sextets:
  fixes x y :: byte
  shows "js_ushr (uint x) 2 = uint x div 4" "js_ushr (uint x) 4 = uint x div 16" "js_ushr (uint x) 6 = uint x div 64"
    "js_and (uint x) 63 = uint x mod 64"
    "js_or (js_shl (js_and (uint x) 3) 4) (uint y div 16) = uint x mod 4 * 16 + uint y div 16"
    "js_or (js_shl (js_and (uint x) 15) 2) (uint y div 64) = uint x mod 16 * 4 + uint y div 64"
    "js_or (js_shl (js_and (uint x) 3) 4) 0 = uint x mod 4 * 16"
    "js_or (js_shl (js_and (uint x) 15) 2) 0 = uint x mod 16 * 4"
    "js_ushr 0 n = 0"
proof -
  have a: "js_and (uint x) 3 = uint x mod 4" "js_and (uint x) 15 = uint x mod 16" "js_and (uint x) 63 = uint x mod 64"
    using js_and_mask_any [of 2 "uint x"] js_and_mask_any [of 4 "uint x"] js_and_mask_any [of 6 "uint x"] by simp_all
  have m: "uint x mod 4 < 4" "uint x mod 16 < 16" by simp_all
  have d: "0 \<le> uint y div 16" "0 \<le> uint y div 64" by (simp_all add: pos_imp_zdiv_nonneg_iff)
  have "uint y < 256" by simp
  then have d': "uint y div 16 < 16" "uint y div 64 < 4" by linarith+
  have "js_or (js_shl (uint x mod 4) 4) v = uint x mod 4 * 16 + v" if "0 \<le> v" "v < 16" for v
    using js_or_shl [of "uint x mod 4" 4 v] m that by simp
  moreover have "js_or (js_shl (uint x mod 16) 2) v = uint x mod 16 * 4 + v" if "0 \<le> v" "v < 4" for v
    using js_or_shl [of "uint x mod 16" 2 v] m that by simp
  ultimately show "js_or (js_shl (js_and (uint x) 3) 4) (uint y div 16) = uint x mod 4 * 16 + uint y div 16"
    "js_or (js_shl (js_and (uint x) 15) 2) (uint y div 64) = uint x mod 16 * 4 + uint y div 64"
    "js_or (js_shl (js_and (uint x) 3) 4) 0 = uint x mod 4 * 16"
    "js_or (js_shl (js_and (uint x) 15) 2) 0 = uint x mod 16 * 4"
    using d d' unfolding a by auto
  show "js_and (uint x) 63 = uint x mod 64" by (rule a)
  show "js_ushr 0 n = 0" by (simp add: js_ushr_def)
qed (simp_all add: js_ushr_small uint_byte_less)

lemma sextet_bounds:
  fixes x y z :: byte
  shows "uint x div 4 < 64" "uint x mod 4 * 16 + uint y div 16 < 64" "uint x mod 16 * 4 + uint z div 64 < 64"
    "uint x mod 4 * 16 < 64" "uint x mod 16 * 4 < 64"
proof -
  have m: "uint x mod 4 < 4" "uint x mod 16 < 16" by simp_all
  have d: "uint x < 256" "uint y < 256" "uint z < 256" by simp_all
  show "uint x div 4 < 64" "uint x mod 4 * 16 + uint y div 16 < 64" "uint x mod 16 * 4 + uint z div 64 < 64"
    "uint x mod 4 * 16 < 64" "uint x mod 16 * 4 < 64" using m d by linarith+
qed

lemma b64_pad: "js_string ''='' = map ucast [pad]"
  by code_simp

lemma charAt_sextets:
  fixes x y :: byte
  shows "js_charAt BASE64_ALPHABET (uint x div 4) = [ucast (b64_char (uint x div 4))]"
    "js_charAt BASE64_ALPHABET (uint x mod 4 * 16 + uint y div 16) =
       [ucast (b64_char (uint x mod 4 * 16 + uint y div 16))]"
    "js_charAt BASE64_ALPHABET (uint x mod 16 * 4 + uint y div 64) =
       [ucast (b64_char (uint x mod 16 * 4 + uint y div 64))]"
    "js_charAt BASE64_ALPHABET (uint x mod 4 * 16) = [ucast (b64_char (uint x mod 4 * 16))]"
    "js_charAt BASE64_ALPHABET (uint x mod 16 * 4) = [ucast (b64_char (uint x mod 16 * 4))]"
    "js_charAt BASE64_ALPHABET (uint x mod 64) = [ucast (b64_char (uint x mod 64))]"
proof -
  have n: "0 \<le> uint x div 4" "0 \<le> uint y div 16" "0 \<le> uint y div 64"
    by (simp_all add: pos_imp_zdiv_nonneg_iff)
  have m: "0 \<le> uint x mod 4" "0 \<le> uint x mod 16" "0 \<le> uint x mod 64" "uint x mod 64 < 64" by simp_all
  note b = sextet_bounds [where x = x]
  show "js_charAt BASE64_ALPHABET (uint x div 4) = [ucast (b64_char (uint x div 4))]"
    by (rule charAt_alphabet [OF n(1) b(1)])
  show "js_charAt BASE64_ALPHABET (uint x mod 4 * 16 + uint y div 16) =
       [ucast (b64_char (uint x mod 4 * 16 + uint y div 16))]"
    using n m by (intro charAt_alphabet b) linarith
  show "js_charAt BASE64_ALPHABET (uint x mod 16 * 4 + uint y div 64) =
       [ucast (b64_char (uint x mod 16 * 4 + uint y div 64))]"
    using n m by (intro charAt_alphabet b) linarith
  show "js_charAt BASE64_ALPHABET (uint x mod 4 * 16) = [ucast (b64_char (uint x mod 4 * 16))]"
    using m by (intro charAt_alphabet b) linarith
  show "js_charAt BASE64_ALPHABET (uint x mod 16 * 4) = [ucast (b64_char (uint x mod 16 * 4))]"
    using m by (intro charAt_alphabet b) linarith
  show "js_charAt BASE64_ALPHABET (uint x mod 64) = [ucast (b64_char (uint x mod 64))]"
    using m by (intro charAt_alphabet)
qed

lemma byte_or_zero_2: "byte_or_zero bs 2 = byte_or_zero (drop 2 bs) 0"
  using byte_or_zero_drop [of bs 2 0] by simp

lemma base64Quad_cases:
  "base64Quad (x # y # z # bs) 0 = map ucast (base64_quads [x, y, z])"
  "base64Quad [x, y] 0 = map ucast (base64_quads [x, y])"
  "base64Quad [x] 0 = map ucast (base64_quads [x])"
  by (simp_all add: base64Quad_def Let_def charAt_sextets sextets b64_pad byte_or_zero_2)

lemma base64EncodeLoop_eq:
  "base64EncodeLoop bs index result = result @ map ucast (base64_quads (drop index bs))"
proof (induction bs index result rule: base64EncodeLoop.induct)
  case (1 bs index result)
  show ?case
  proof (cases "index < length bs")
    case True
    have "base64Quad bs index @ map ucast (base64_quads (drop (index + 3) bs)) =
      map ucast (base64_quads (drop index bs))"
    proof -
      have "drop (index + 3) bs = drop 3 (drop index bs)" by (simp add: add.commute)
      moreover have "drop index bs \<noteq> []" using True by simp
      then have "base64Quad (drop index bs) 0 @ map ucast (base64_quads (drop 3 (drop index bs))) =
        map ucast (base64_quads (drop index bs))"
        by (cases "drop index bs" rule: base64_quads.cases) (simp_all add: base64Quad_cases eval_nat_numeral)
      ultimately show ?thesis by (simp only: base64Quad_drop [of bs index])
    qed
    then show ?thesis using 1 True by (subst base64EncodeLoop.simps) simp
  qed (subst base64EncodeLoop.simps, simp)
qed

lemma forgivingBase64Encode_eq: "forgivingBase64Encode bs = map ucast (base64_quads bs)"
  by (simp add: forgivingBase64Encode_def base64EncodeLoop_eq)

section \<open>Lemmas: the round trip\<close>

lemma join_sextets:
  fixes x y z :: byte
  shows "to_uint8 (uint x div 4 * 4 + (uint x mod 4 * 16 + uint y div 16) div 16) = x"
    "to_uint8 ((uint x mod 4 * 16 + uint y div 16) mod 16 * 16 + (uint y mod 16 * 4 + uint z div 64) div 4) = y"
    "to_uint8 ((uint y mod 16 * 4 + uint z div 64) mod 4 * 64 + uint z mod 64) = z"
    "to_uint8 (uint x div 4 * 4 + (uint x mod 4 * 16) div 16) = x"
    "to_uint8 ((uint x mod 4 * 16 + uint y div 16) mod 16 * 16 + (uint y mod 16 * 4) div 4) = y"
proof -
  have d: "0 \<le> uint y" "uint y < 256" "0 \<le> uint z" "uint z < 256" by simp_all
  have "0 \<le> uint y div 16" "0 \<le> uint z div 64" by (simp_all add: pos_imp_zdiv_nonneg_iff)
  moreover have "uint y div 16 < 16" "uint z div 64 < 4" using d by linarith+
  ultimately have b: "0 \<le> uint y div 16" "uint y div 16 < 16" "0 \<le> uint z div 64" "uint z div 64 < 4"
    by blast+
  have x: "uint x div 4 * 4 + (uint x mod 4 * 16 + v) div 16 = uint x" if "0 \<le> v" "v < 16" for v
    using that by simp
  have y: "(u * 16 + uint y div 16) mod 16 * 16 + (uint y mod 16 * 4 + v) div 4 = uint y"
    if "0 \<le> v" "v < 4" for u v
  proof -
    have "(u * 16 + uint y div 16) mod 16 = uint y div 16"
      using mod_pos_pos_trivial [OF b(1,2)] by (metis mod_mult_self3)
    moreover have "(uint y mod 16 * 4 + v) div 4 = uint y mod 16" using that by simp
    ultimately show ?thesis by simp
  qed
  have z: "(u * 4 + uint z div 64) mod 4 * 64 + uint z mod 64 = uint z" for u
  proof -
    have "(u * 4 + uint z div 64) mod 4 = uint z div 64"
      using mod_pos_pos_trivial [OF b(3,4)] by (metis mod_mult_self3)
    then show ?thesis by simp
  qed
  show "to_uint8 (uint x div 4 * 4 + (uint x mod 4 * 16 + uint y div 16) div 16) = x"
    using x [OF b(1,2)] by (simp only: to_uint8_uint)
  show "to_uint8 ((uint x mod 4 * 16 + uint y div 16) mod 16 * 16 + (uint y mod 16 * 4 + uint z div 64) div 4) = y"
    using y [OF b(3,4)] by (simp only: to_uint8_uint)
  show "to_uint8 ((uint y mod 16 * 4 + uint z div 64) mod 4 * 64 + uint z mod 64) = z"
    using z by (simp only: to_uint8_uint)
  show "to_uint8 (uint x div 4 * 4 + (uint x mod 4 * 16) div 16) = x"
    using x [of 0] by simp
  show "to_uint8 ((uint x mod 4 * 16 + uint y div 16) mod 16 * 16 + (uint y mod 16 * 4) div 4) = y"
    using y [of 0 "uint x mod 4"] by simp
qed

lemma strip_pads_replicate:
  "k \<le> n \<Longrightarrow> (\<forall>b\<in>set r. b \<noteq> pad) \<Longrightarrow> strip_pads n (replicate k pad @ r) = r"
proof (induction k arbitrary: n)
  case 0
  then show ?case by (cases "(n, r)" rule: strip_pads.cases) auto
next
  case (Suc k)
  then show ?case by (cases n) auto
qed

definition b64_plain :: "byte \<Rightarrow> bool" where
  "b64_plain b \<longleftrightarrow> b \<noteq> pad \<and> significant b \<and> 0 \<le> base64Value (uint b)"

lemma b64_plain_char: "0 \<le> i \<Longrightarrow> i < 64 \<Longrightarrow> b64_plain (b64_char i)"
  using b64_char_facts [of i] by (simp add: b64_plain_def)

lemma sextet_nonneg:
  fixes x y :: byte
  shows "0 \<le> uint x div 4" "0 \<le> uint x mod 4 * 16 + uint y div 16" "0 \<le> uint x mod 16 * 4 + uint y div 64"
    "0 \<le> uint x mod 4 * 16" "0 \<le> uint x mod 16 * 4"
  by (simp_all add: pos_imp_zdiv_nonneg_iff)

lemma base64_quads_split:
  "\<exists>cs k. base64_quads bs = cs @ replicate k pad \<and> k \<le> 2 \<and> list_all b64_plain cs \<and>
     base64_bytes (map (\<lambda>b. base64Value (uint b)) cs) = bs \<and> (length cs + k) mod 4 = 0"
proof (induction bs rule: base64_quads.induct)
  case (1 x y z bs)
  then obtain cs k where cs: "base64_quads bs = cs @ replicate k pad" "k \<le> 2" "list_all b64_plain cs"
    "base64_bytes (map (\<lambda>b. base64Value (uint b)) cs) = bs" "(length cs + k) mod 4 = 0" by (elim exE conjE) (rule that)
  let ?q = "[b64_char (uint x div 4), b64_char (uint x mod 4 * 16 + uint y div 16),
      b64_char (uint y mod 16 * 4 + uint z div 64), b64_char (uint z mod 64)]"
  have "base64Value (uint (b64_char (uint z mod 64))) = uint z mod 64" "b64_plain (b64_char (uint z mod 64))"
    by (rule b64_char_facts b64_plain_char, simp, simp)+
  then have "base64_bytes (map (\<lambda>b. base64Value (uint b)) (?q @ cs)) = x # y # z # bs \<and>
    list_all b64_plain (?q @ cs) \<and> base64_quads (x # y # z # bs) = (?q @ cs) @ replicate k pad"
    using cs by (simp only: base64_quads.simps append.simps list.map base64_bytes.simps list.pred_inject
        b64_char_facts(2) [OF sextet_nonneg(1) sextet_bounds(1)] b64_char_facts(2) [OF sextet_nonneg(2) sextet_bounds(2)]
        b64_char_facts(2) [OF sextet_nonneg(3) sextet_bounds(3)] join_sextets simp_thms
        b64_plain_char [OF sextet_nonneg(1) sextet_bounds(1)] b64_plain_char [OF sextet_nonneg(2) sextet_bounds(2)]
        b64_plain_char [OF sextet_nonneg(3) sextet_bounds(3)])
  moreover have "(length (?q @ cs) + k) mod 4 = 0" using cs(5) by simp
  ultimately show ?case using cs(2)
    by - (rule exI [of _ "?q @ cs"], rule exI [of _ k], elim conjE, intro conjI; assumption)
next
  case (2 x y)
  let ?q = "[b64_char (uint x div 4), b64_char (uint x mod 4 * 16 + uint y div 16), b64_char (uint y mod 16 * 4)]"
  have "base64_quads [x, y] = ?q @ replicate 1 pad" by simp
  moreover have "base64_bytes (map (\<lambda>b. base64Value (uint b)) ?q) = [x, y]" "list_all b64_plain ?q"
    by (simp_all only: list.map base64_bytes.simps list.pred_inject
        b64_char_facts(2) [OF sextet_nonneg(1) sextet_bounds(1)] b64_char_facts(2) [OF sextet_nonneg(2) sextet_bounds(2)]
        b64_char_facts(2) [OF sextet_nonneg(5) sextet_bounds(5)] join_sextets simp_thms
        b64_plain_char [OF sextet_nonneg(1) sextet_bounds(1)] b64_plain_char [OF sextet_nonneg(2) sextet_bounds(2)]
        b64_plain_char [OF sextet_nonneg(5) sextet_bounds(5)])
  ultimately show ?case by (intro exI [of _ ?q] exI [of _ 1]) simp
next
  case (3 x)
  let ?q = "[b64_char (uint x div 4), b64_char (uint x mod 4 * 16)]"
  have "base64_quads [x] = ?q @ replicate 2 pad" by (simp add: numeral_2_eq_2)
  moreover have "base64_bytes (map (\<lambda>b. base64Value (uint b)) ?q) = [x]" "list_all b64_plain ?q"
    by (simp_all only: list.map base64_bytes.simps list.pred_inject
        b64_char_facts(2) [OF sextet_nonneg(1) sextet_bounds(1)] b64_char_facts(2) [OF sextet_nonneg(4) sextet_bounds(4)]
        join_sextets simp_thms b64_plain_char [OF sextet_nonneg(1) sextet_bounds(1)]
        b64_plain_char [OF sextet_nonneg(4) sextet_bounds(4)])
  ultimately show ?case by (intro exI [of _ ?q] exI [of _ 2]) simp
next
  case 4
  show ?case by (intro exI [of _ "[]"] exI [of _ 0]) simp
qed

lemma base64_reference_quads: "base64_reference (base64_quads bs) = Some bs"
proof -
  obtain cs k where cs: "base64_quads bs = cs @ replicate k pad" "k \<le> 2" "list_all b64_plain cs"
    "base64_bytes (map (\<lambda>b. base64Value (uint b)) cs) = bs" "(length cs + k) mod 4 = 0"
    using base64_quads_split [of bs] by (elim exE conjE) (rule that)
  have "base64_body (cs @ replicate k pad) = cs"
    using cs(2,3,5) by (auto simp: base64_body_def strip_pads_replicate list_all_iff b64_plain_def)
  moreover have "length cs mod 4 \<noteq> 1" using cs(2,5) by presburger
  ultimately show ?thesis
    using cs by (auto simp: base64_reference_def list_all_iff b64_plain_def)
qed

lemma base64_quads_significant: "filter significant (base64_quads bs) = base64_quads bs"
proof -
  obtain cs k where cs: "base64_quads bs = cs @ replicate k pad" "list_all b64_plain cs"
    using base64_quads_split [of bs] by (elim exE conjE) (rule that)
  have "significant pad" by code_simp
  with cs show ?thesis by (auto simp: list_all_iff b64_plain_def filter_id_conv)
qed

lemma binaryStringLoop_eq:
  "length bs = index + length input \<Longrightarrow>
   binaryStringLoop input index bs =
     (if byte_string input then Some (take index bs @ map ucast input) else None)"
proof (induction input arbitrary: index bs)
  case (Cons u input)
  then show ?case
    by (auto simp: byte_string_def take_Suc_conv_app_nth to_uint8_def)
qed (simp add: byte_string_def)

lemma base64BinaryStringToBytes_eq:
  "base64BinaryStringToBytes input = (if byte_string input then Some (map ucast input) else None)"
  by (simp add: base64BinaryStringToBytes_def binaryStringLoop_eq)

lemma base64BytesToBinaryString_eq: "base64BytesToBinaryString bs = latin1 bs"
  by (simp add: base64BytesToBinaryString_def latin1_def)

interpretation base64: codec "\<lambda>bs. Inr (forgivingBase64Encode bs)"
  "\<lambda>s. case atob s of None \<Rightarrow> Inl GenericError | Some t \<Rightarrow> encodeByteString t" "\<lambda>_. True"
proof
  show "res_bind (Inr (forgivingBase64Encode bs))
      (\<lambda>s. case atob s of None \<Rightarrow> Inl GenericError | Some t \<Rightarrow> encodeByteString t) = Inr bs" for bs
  proof -
    have "byte_string (map ucast (base64_quads bs))" using byte_string_latin1 by (simp add: latin1_eq)
    then have "atob (forgivingBase64Encode bs) = Some (latin1 bs)"
      by (simp add: atob_def base64BinaryStringToBytes_eq forgivingBase64Encode_eq comp_def
          forgivingBase64Decode_reference base64_quads_significant base64_reference_quads
          base64BytesToBinaryString_eq)
    then show ?thesis by (simp add: encode_latin1)
  qed
qed

section \<open>Properties\<close>

text \<open>
  C18: The forgiving base64 decoder, with its padding scan, its array allocated beforehand and its
  bit accumulator, computes the reference: it looks only at the characters that are not white
  space, takes off up to two padding characters when their number is a multiple of four, fails
  exactly on a remainder of one or a character outside the alphabet, and otherwise returns the
  bytes of the groups of four six-bit values.
\<close>

theorem base64_decode_reference:
  "forgivingBase64Decode input =
     (let body = base64_body (filter (\<lambda>b. \<not> isASCIIWhitespace (uint b)) input)
      in if length body mod 4 = 1 \<or> (\<exists>b\<in>set body. base64Value (uint b) < 0) then None
         else Some (base64_bytes (map (\<lambda>b. base64Value (uint b)) body)))"
  by (simp add: forgivingBase64Decode_reference base64_reference_def)

text \<open>
  C19: \<^verbatim>\<open>btoa\<close> encodes every byte string, and \<^verbatim>\<open>atob\<close> returns it from the encoding, also when
  white space was put anywhere into it; a string with a code unit above 255 is refused by both.
\<close>

theorem base64_roundtrip:
  "btoa (latin1 bs) = Some (forgivingBase64Encode bs) \<and>
   (filter (\<lambda>u. \<not> isASCIIWhitespace (uint u)) data = forgivingBase64Encode bs \<longrightarrow> atob data = Some (latin1 bs)) \<and>
   (\<not> byte_string data \<longrightarrow> atob data = None \<and> btoa data = None)"
proof (intro conjI impI)
  show "btoa (latin1 bs) = Some (forgivingBase64Encode bs)"
    by (simp add: btoa_def base64BinaryStringToBytes_eq) (simp add: latin1_eq comp_def)
next
  assume d: "filter (\<lambda>u. \<not> isASCIIWhitespace (uint u)) data = forgivingBase64Encode bs"
  have small: "uint u \<le> 255" if "u \<in> set data" for u
  proof (cases "isASCIIWhitespace (uint u)")
    case False
    then have "u \<in> set (filter (\<lambda>u. \<not> isASCIIWhitespace (uint u)) data)" using that by simp
    then have "u \<in> set (forgivingBase64Encode bs)" by (simp only: d)
    then show ?thesis by (auto simp: forgivingBase64Encode_eq unsigned_ucast_eq take_bit_int_eq_self
        uint_byte_less order_less_imp_le)
  qed (auto simp: isASCIIWhitespace_def)
  then have bytes: "byte_string data" by (simp add: byte_string_def)
  have unit: "uint (ucast u :: byte) = uint u" if "u \<in> set data" for u
    using small [OF that] by (simp add: unsigned_ucast_eq take_bit_int_eq_self)
  have "filter significant (map ucast data) = map ucast (filter (\<lambda>u. \<not> isASCIIWhitespace (uint u)) data)"
    using unit by (auto simp: filter_map comp_def intro!: arg_cong [where f = "map ucast"] filter_cong)
  also have "\<dots> = base64_quads bs" by (simp add: d forgivingBase64Encode_eq comp_def)
  finally show "atob data = Some (latin1 bs)"
    using bytes by (simp add: atob_def base64BinaryStringToBytes_eq forgivingBase64Decode_reference
        base64_reference_quads base64BytesToBinaryString_eq)
qed (auto simp: atob_def btoa_def base64BinaryStringToBytes_eq)

theorem base64_roundtrip_witness:
  "atob (js_string ''TWF '' @ js_string ''uTQ= ='') = Some (latin1 [0x4d, 0x61, 0x6e, 0x4d]) \<and>
   btoa (js_string ''Man'') = Some (js_string ''TWFu'') \<and> atob [0x100] = None"
proof -
  have "filter (\<lambda>u. \<not> isASCIIWhitespace (uint u)) (js_string ''TWF '' @ js_string ''uTQ= ='') =
    forgivingBase64Encode [0x4d, 0x61, 0x6e, 0x4d]" by code_simp
  then have a: "atob (js_string ''TWF '' @ js_string ''uTQ= ='') = Some (latin1 [0x4d, 0x61, 0x6e, 0x4d])"
    using base64_roundtrip [of "[0x4d, 0x61, 0x6e, 0x4d]" "js_string ''TWF '' @ js_string ''uTQ= =''"]
    by blast
  have "\<not> byte_string [0x100]" by code_simp
  then have n: "atob [0x100] = None" using base64_roundtrip [of "[]" "[0x100]"] by blast
  have "btoa (js_string ''Man'') = Some (js_string ''TWFu'')" by code_simp
  with a n show ?thesis by blast
qed

end
