(* ===== verification/Utf8.thy ===== *)
theory Utf8
  imports Nts_Prelude
begin

text \<open>
  The UTF-8 codec of \<^verbatim>\<open>runtime/web-platform/src/core/utf8.ts\<close>: the length of an encoding, the
  bounded writer that never splits a code point, and the decoder, a state machine that replaces
  every maximal invalid part by U+FFFD. The lemmas relate the three functions to the sequence of
  scalar values a string stands for.
\<close>

section \<open>Length\<close>

text \<open>The argument is what the loop has not read yet.\<close>

fun utf8LengthFrom :: "jsstring \<Rightarrow> nat \<Rightarrow> nat" where
  "utf8LengthFrom [] len = len"
| "utf8LengthFrom (code # input) len =
     (if uint code < 0x80 then utf8LengthFrom input (len + 1)
      else if uint code < 0x800 then utf8LengthFrom input (len + 2)
      else if uint code \<ge> 0xd800 \<and> uint code < 0xdc00 \<and> input \<noteq> [] then
        (case input of
           [] \<Rightarrow> len
         | nxt # rest \<Rightarrow>
             if uint nxt \<ge> 0xdc00 \<and> uint nxt < 0xe000 then utf8LengthFrom rest (len + 4)
             else utf8LengthFrom input (len + 3))
      else utf8LengthFrom input (len + 3))"

definition utf8Length :: "jsstring \<Rightarrow> nat" where
  "utf8Length input = utf8LengthFrom input 0"

section \<open>Bounded write\<close>

record utf8_write_progress =
  wp_read :: nat
  wp_written :: nat

text \<open>The code point at an index and the number of code units it takes.\<close>

definition utf8CodeAt :: "jsstring \<Rightarrow> nat \<Rightarrow> int \<times> nat" where
  "utf8CodeAt input inputIndex =
     (let code = uint (input ! inputIndex)
      in if code \<ge> 0xd800 \<and> code < 0xdc00 then
           (let nxt = (if inputIndex + 1 < length input then uint (input ! (inputIndex + 1)) else 0)
            in if nxt \<ge> 0xdc00 \<and> nxt < 0xe000
               then (0x10000 + js_shl (code - 0xd800) 10 + nxt - 0xdc00, 2)
               else (0xfffd, 1))
         else if code \<ge> 0xdc00 \<and> code < 0xe000 then (0xfffd, 1)
         else (code, 1))"

text \<open>
  Writing one code point; \<open>None\<close> is the \<^verbatim>\<open>break\<close>. A write beyond the end of a typed array is
  dropped, as \<open>list_update\<close> drops it.
\<close>

definition utf8Store :: "bytes \<Rightarrow> nat \<Rightarrow> nat \<Rightarrow> int \<Rightarrow> (bytes \<times> nat) option" where
  "utf8Store output outputIndex limit code =
     (if code < 0x80 then
        (if outputIndex + 1 > limit then None
         else Some (output[outputIndex := to_uint8 code], outputIndex + 1))
      else if code < 0x800 then
        (if outputIndex + 2 > limit then None
         else Some (output[outputIndex := to_uint8 (js_or 0xc0 (js_shr code 6)),
                           outputIndex + 1 := to_uint8 (js_or 0x80 (js_and code 0x3f))], outputIndex + 2))
      else if code < 0x10000 then
        (if outputIndex + 3 > limit then None
         else Some (output[outputIndex := to_uint8 (js_or 0xe0 (js_shr code 12)),
                           outputIndex + 1 := to_uint8 (js_or 0x80 (js_and (js_shr code 6) 0x3f)),
                           outputIndex + 2 := to_uint8 (js_or 0x80 (js_and code 0x3f))], outputIndex + 3))
      else
        (if outputIndex + 4 > limit then None
         else Some (output[outputIndex := to_uint8 (js_or 0xf0 (js_shr code 18)),
                           outputIndex + 1 := to_uint8 (js_or 0x80 (js_and (js_shr code 12) 0x3f)),
                           outputIndex + 2 := to_uint8 (js_or 0x80 (js_and (js_shr code 6) 0x3f)),
                           outputIndex + 3 := to_uint8 (js_or 0x80 (js_and code 0x3f))], outputIndex + 4)))"

lemma utf8CodeAt_units: "utf8CodeAt input i = (c, units) \<Longrightarrow> units = 1 \<or> units = 2"
  by (auto simp: utf8CodeAt_def Let_def split: if_splits)

function utf8WriteLoop :: "bytes \<Rightarrow> jsstring \<Rightarrow> nat \<Rightarrow> nat \<Rightarrow> nat \<Rightarrow> bytes \<times> nat \<times> nat" where
  "utf8WriteLoop output input outputIndex inputIndex limit =
     (if inputIndex < length input then
        (case utf8CodeAt input inputIndex of
           (code, inputUnits) \<Rightarrow>
             (case utf8Store output outputIndex limit code of
                None \<Rightarrow> (output, outputIndex, inputIndex)
              | Some (output', outputIndex') \<Rightarrow>
                  utf8WriteLoop output' input outputIndex' (inputIndex + inputUnits) limit))
      else (output, outputIndex, inputIndex))"
  by auto
termination
  by (relation "measure (\<lambda>(_, input, _, inputIndex, _). length input - inputIndex)")
    (auto dest!: utf8CodeAt_units [OF sym])

declare utf8WriteLoop.simps [simp del]

text \<open>
  The result is the written array and the progress; the number the function returns is
  \<open>wp_written\<close>, and the progress object is filled only when the caller passes one.
\<close>

definition utf8Write :: "bytes \<Rightarrow> jsstring \<Rightarrow> nat \<Rightarrow> nat \<Rightarrow> bytes \<times> utf8_write_progress" where
  "utf8Write output input offset maximum =
     (let limit = offset + maximum;
          (output', outputIndex, inputIndex) = utf8WriteLoop output input offset 0 limit
      in (output', \<lparr>wp_read = inputIndex, wp_written = outputIndex - offset\<rparr>))"

section \<open>Decoder\<close>

record utf8_decoder =
  ud_output :: jsstring
  ud_codePoint :: int
  ud_bytesSeen :: nat
  ud_bytesNeeded :: nat
  ud_lowerBoundary :: int
  ud_upperBoundary :: int

definition newUtf8Decoder :: utf8_decoder where
  "newUtf8Decoder = \<lparr>ud_output = [], ud_codePoint = 0, ud_bytesSeen = 0, ud_bytesNeeded = 0,
     ud_lowerBoundary = 0x80, ud_upperBoundary = 0xbf\<rparr>"

definition fromCharCode :: "int \<Rightarrow> code_unit" where
  "fromCharCode n = word_of_int n"

definition decoder_emit :: "jsstring \<Rightarrow> utf8_decoder \<Rightarrow> utf8_decoder" where
  "decoder_emit units s = s\<lparr>ud_output := ud_output s @ units\<rparr>"

text \<open>A byte where a sequence may start.\<close>

definition utf8Lead :: "int \<Rightarrow> utf8_decoder \<Rightarrow> utf8_decoder" where
  "utf8Lead b s =
     (if b \<le> 0x7f then decoder_emit [fromCharCode b] s
      else if b \<ge> 0xc2 \<and> b \<le> 0xdf then
        s\<lparr>ud_bytesNeeded := 1, ud_codePoint := js_and b 0x1f\<rparr>
      else if b \<ge> 0xe0 \<and> b \<le> 0xef then
        (let s1 = (if b = 0xe0 then s\<lparr>ud_lowerBoundary := 0xa0\<rparr> else s);
             s2 = (if b = 0xed then s1\<lparr>ud_upperBoundary := 0x9f\<rparr> else s1)
         in s2\<lparr>ud_bytesNeeded := 2, ud_codePoint := js_and b 0x0f\<rparr>)
      else if b \<ge> 0xf0 \<and> b \<le> 0xf4 then
        (let s1 = (if b = 0xf0 then s\<lparr>ud_lowerBoundary := 0x90\<rparr> else s);
             s2 = (if b = 0xf4 then s1\<lparr>ud_upperBoundary := 0x8f\<rparr> else s1)
         in s2\<lparr>ud_bytesNeeded := 3, ud_codePoint := js_and b 0x07\<rparr>)
      else decoder_emit [0xfffd] s)"

text \<open>A byte that a sequence has no place for: the sequence is given up.\<close>

definition utf8Reject :: "utf8_decoder \<Rightarrow> utf8_decoder" where
  "utf8Reject s =
     decoder_emit [0xfffd]
       (s\<lparr>ud_codePoint := 0, ud_bytesNeeded := 0, ud_bytesSeen := 0,
          ud_lowerBoundary := 0x80, ud_upperBoundary := 0xbf\<rparr>)"

definition utf8Continue :: "int \<Rightarrow> utf8_decoder \<Rightarrow> utf8_decoder" where
  "utf8Continue b s =
     (let s1 = s\<lparr>ud_lowerBoundary := 0x80, ud_upperBoundary := 0xbf,
                 ud_codePoint := js_or (js_shl (ud_codePoint s) 6) (js_and b 0x3f),
                 ud_bytesSeen := ud_bytesSeen s + 1\<rparr>
      in if ud_bytesSeen s1 = ud_bytesNeeded s1 then
           (let s2 = (if ud_codePoint s1 > 0xffff then
                        (let supplementary = ud_codePoint s1 - 0x10000
                         in decoder_emit [fromCharCode (0xd800 + js_shr supplementary 10),
                                          fromCharCode (0xdc00 + js_and supplementary 0x3ff)] s1)
                      else decoder_emit [fromCharCode (ud_codePoint s1)] s1)
            in s2\<lparr>ud_codePoint := 0, ud_bytesNeeded := 0, ud_bytesSeen := 0\<rparr>)
         else s1)"

text \<open>One turn of the loop: the new state and whether the index moves on.\<close>

definition utf8Turn :: "int \<Rightarrow> utf8_decoder \<Rightarrow> utf8_decoder \<times> bool" where
  "utf8Turn b s =
     (if ud_bytesNeeded s = 0 then (utf8Lead b s, True)
      else if b < ud_lowerBoundary s \<or> b > ud_upperBoundary s then (utf8Reject s, False)
      else (utf8Continue b s, True))"

lemma utf8Turn_stays:
  "(s', False) = utf8Turn b s \<Longrightarrow> 0 < ud_bytesNeeded s"
  "(s', False) = utf8Turn b s \<Longrightarrow> ud_bytesNeeded s' = 0"
  by (auto simp: utf8Turn_def utf8Reject_def decoder_emit_def split: if_splits)

function utf8DecodeLoop :: "bytes \<Rightarrow> nat \<Rightarrow> nat \<Rightarrow> utf8_decoder \<Rightarrow> utf8_decoder" where
  "utf8DecodeLoop bs index stop s =
     (if index < stop then
        (case js_at bs (int index) of
           None \<Rightarrow> s
         | Some b \<Rightarrow>
             (case utf8Turn (uint b) s of
                (s', advance) \<Rightarrow> utf8DecodeLoop bs (if advance then index + 1 else index) stop s'))
      else s)"
  by auto
termination
  by (relation "measure (\<lambda>(_, index, stop, s). 2 * (stop - index) + (if ud_bytesNeeded s = 0 then 0 else 1))")
    (auto simp: utf8Turn_stays)

declare utf8DecodeLoop.simps [simp del]

definition utf8Decode :: "bytes \<Rightarrow> nat \<Rightarrow> nat \<Rightarrow> jsstring" where
  "utf8Decode bs start stop =
     (let s = utf8DecodeLoop bs start stop newUtf8Decoder
      in if ud_bytesNeeded s \<noteq> 0 then ud_output s @ [0xfffd] else ud_output s)"

section \<open>Reference: scalar values\<close>

definition scalar_value :: "int \<Rightarrow> bool" where
  "scalar_value c \<longleftrightarrow> 0 \<le> c \<and> c < 0x110000 \<and> \<not> (0xd800 \<le> c \<and> c < 0xe000)"

definition high_surrogate :: "code_unit \<Rightarrow> bool" where
  "high_surrogate u \<longleftrightarrow> 0xd800 \<le> uint u \<and> uint u < 0xdc00"

definition low_surrogate :: "code_unit \<Rightarrow> bool" where
  "low_surrogate u \<longleftrightarrow> 0xdc00 \<le> uint u \<and> uint u < 0xe000"

definition unit_scalar :: "code_unit \<Rightarrow> int" where
  "unit_scalar u = (if high_surrogate u \<or> low_surrogate u then 0xfffd else uint u)"

text \<open>The scalar values of a string; a lone surrogate stands for U+FFFD.\<close>

fun scalars :: "jsstring \<Rightarrow> int list" where
  "scalars [] = []"
| "scalars [u] = [unit_scalar u]"
| "scalars (u # v # us) =
     (if high_surrogate u \<and> low_surrogate v
      then (0x10000 + (uint u - 0xd800) * 0x400 + (uint v - 0xdc00)) # scalars us
      else unit_scalar u # scalars (v # us))"

definition utf8_scalar :: "int \<Rightarrow> bytes" where
  "utf8_scalar c =
     (if c < 0x80 then [to_uint8 c]
      else if c < 0x800 then [to_uint8 (0xc0 + c div 64), to_uint8 (0x80 + c mod 64)]
      else if c < 0x10000 then
        [to_uint8 (0xe0 + c div 4096), to_uint8 (0x80 + c div 64 mod 64), to_uint8 (0x80 + c mod 64)]
      else
        [to_uint8 (0xf0 + c div 262144), to_uint8 (0x80 + c div 4096 mod 64),
         to_uint8 (0x80 + c div 64 mod 64), to_uint8 (0x80 + c mod 64)])"

definition utf16_scalar :: "int \<Rightarrow> jsstring" where
  "utf16_scalar c =
     (if c < 0x10000 then [fromCharCode c]
      else [fromCharCode (0xd800 + (c - 0x10000) div 0x400), fromCharCode (0xdc00 + (c - 0x10000) mod 0x400)])"

definition utf8_scalars :: "int list \<Rightarrow> bytes" where
  "utf8_scalars cs = concat (map utf8_scalar cs)"

definition utf16_scalars :: "int list \<Rightarrow> jsstring" where
  "utf16_scalars cs = concat (map utf16_scalar cs)"

section \<open>Lemmas: the writer\<close>

lemma uint_unit_bounds: "0 \<le> uint (u :: code_unit)" "uint (u :: code_unit) < 65536"
  using uint_bounded [of u] by auto

lemma scalar_unit: "scalar_value (unit_scalar u)"
  using uint_unit_bounds [of u]
  by (auto simp: scalar_value_def unit_scalar_def high_surrogate_def low_surrogate_def)

lemma scalar_pair:
  "high_surrogate u \<Longrightarrow> low_surrogate v \<Longrightarrow>
   scalar_value (0x10000 + (uint u - 0xd800) * 0x400 + (uint v - 0xdc00))"
  by (auto simp: scalar_value_def high_surrogate_def low_surrogate_def)

lemma scalars_valid: "list_all scalar_value (scalars us)"
  by (induction us rule: scalars.induct) (auto simp: scalar_unit scalar_pair [simplified])

lemma js_slice_Cons: "i < j \<Longrightarrow> j \<le> length xs \<Longrightarrow> js_slice xs i j = xs ! i # js_slice xs (Suc i) j"
  by (simp add: js_slice_def Cons_nth_drop_Suc [symmetric] Suc_diff_Suc [symmetric])

lemma js_slice_empty [simp]: "js_slice xs i i = []"
  by (simp add: js_slice_def)

lemma utf8CodeAt_eq:
  "utf8CodeAt input i =
    (if i + 1 < length input \<and> high_surrogate (input ! i) \<and> low_surrogate (input ! (i + 1))
     then (0x10000 + (uint (input ! i) - 0xd800) * 0x400 + (uint (input ! (i + 1)) - 0xdc00), 2)
     else (unit_scalar (input ! i), 1))"
proof -
  have "js_shl (uint (input ! i) - 0xd800) 10 = (uint (input ! i) - 0xd800) * 0x400" if "high_surrogate (input ! i)"
    using that js_shl_small [of "uint (input ! i) - 0xd800" 10] by (simp add: high_surrogate_def)
  then show ?thesis
    by (auto simp: utf8CodeAt_def Let_def unit_scalar_def high_surrogate_def low_surrogate_def)
qed

lemma utf8CodeAt_slice:
  assumes c: "utf8CodeAt input i = (c, n)" and i: "i < length input" and j: "i + n \<le> j" "j \<le> length input"
  shows "scalars (js_slice input i j) = c # scalars (js_slice input (i + n) j)"
proof (cases "Suc i < length input \<and> high_surrogate (input ! i) \<and> low_surrogate (input ! Suc i)")
  case True
  then show ?thesis using c j by (auto simp: utf8CodeAt_eq js_slice_Cons)
next
  case False
  then have c': "c = unit_scalar (input ! i)" "n = 1" using c by (auto simp: utf8CodeAt_eq)
  show ?thesis
  proof (cases "Suc i < j")
    case s: True
    then show ?thesis using c' False j by (auto simp: js_slice_Cons)
  next
    case s: False
    then have "j = Suc i" using c' j by simp
    then show ?thesis using c' j by (simp add: js_slice_Cons)
  qed
qed

lemma splice2: "n + 2 \<le> length xs \<Longrightarrow> xs[n := a, n + 1 := b] = take n xs @ [a, b] @ drop (n + 2) xs"
  by (rule nth_equalityI) (auto simp: nth_append nth_list_update nth_Cons' numeral_2_eq_2 Suc_diff_Suc)

lemma splice3: "n + 3 \<le> length xs \<Longrightarrow>
  xs[n := a, n + 1 := b, n + 2 := c] = take n xs @ [a, b, c] @ drop (n + 3) xs"
  by (rule nth_equalityI) (auto simp: nth_append nth_list_update nth_Cons')

lemma splice4: "n + 4 \<le> length xs \<Longrightarrow>
  xs[n := a, n + 1 := b, n + 2 := c, n + 3 := d] = take n xs @ [a, b, c, d] @ drop (n + 4) xs"
  by (rule nth_equalityI) (auto simp: nth_append nth_list_update nth_Cons')

lemma utf8_bits:
  assumes "0 \<le> c" "c < 0x110000"
  shows "js_or 0x80 (js_and c 0x3f) = 0x80 + c mod 64"
    "js_or 0x80 (js_and (js_shr c 6) 0x3f) = 0x80 + c div 64 mod 64"
    "js_or 0x80 (js_and (js_shr c 12) 0x3f) = 0x80 + c div 4096 mod 64"
    "c < 0x800 \<Longrightarrow> js_or 0xc0 (js_shr c 6) = 0xc0 + c div 64"
    "c < 0x10000 \<Longrightarrow> js_or 0xe0 (js_shr c 12) = 0xe0 + c div 4096"
    "js_or 0xf0 (js_shr c 18) = 0xf0 + c div 262144"
proof -
  have shr: "js_shr c 6 = c div 64" "js_shr c 12 = c div 4096" "js_shr c 18 = c div 262144"
    using assms by (simp_all add: js_shr_small)
  have mask: "js_and x 0x3f = x mod 64" for x using js_and_mask_any [of 6 x] by simp
  have join: "js_or 0x80 (x mod 64) = 0x80 + x mod 64" for x
    using js_or_add [of 128 6 "x mod 64"] by simp
  show "js_or 0x80 (js_and c 0x3f) = 0x80 + c mod 64"
    "js_or 0x80 (js_and (js_shr c 6) 0x3f) = 0x80 + c div 64 mod 64"
    "js_or 0x80 (js_and (js_shr c 12) 0x3f) = 0x80 + c div 4096 mod 64"
    by (simp_all only: shr mask join)
  have n: "0 \<le> c div 64" "0 \<le> c div 4096" "0 \<le> c div 262144" using assms(1) by (simp_all add: pos_imp_zdiv_nonneg_iff)
  show "js_or 0xc0 (js_shr c 6) = 0xc0 + c div 64" if "c < 0x800"
    using js_or_add [of 192 6 "c div 64"] n that by (simp add: shr)
  show "js_or 0xe0 (js_shr c 12) = 0xe0 + c div 4096" if "c < 0x10000"
    using js_or_add [of 224 5 "c div 4096"] n that by (simp add: shr)
  show "js_or 0xf0 (js_shr c 18) = 0xf0 + c div 262144"
    using js_or_add [of 240 4 "c div 262144"] n assms by (simp add: shr)
qed

lemma add_4: "n + 4 = Suc (Suc (Suc (Suc n)))"
  by simp

lemma utf8Store_eq:
  assumes "scalar_value c" "limit \<le> length out"
  shows "utf8Store out n limit c =
    (if n + length (utf8_scalar c) > limit then None
     else Some (take n out @ utf8_scalar c @ drop (n + length (utf8_scalar c)) out, n + length (utf8_scalar c)))"
proof -
  have c: "0 \<le> c" "c < 0x110000" using assms(1) by (auto simp: scalar_value_def)
  consider (one) "c < 0x80" | (two) "\<not> c < 0x80" "c < 0x800" | (three) "\<not> c < 0x80" "\<not> c < 0x800" "c < 0x10000"
    | (four) "\<not> c < 0x80" "\<not> c < 0x800" "\<not> c < 0x10000" by linarith
  then show ?thesis
  proof cases
    case one
    then show ?thesis using assms(2)
      by (simp add: utf8Store_def utf8_scalar_def upd_conv_take_nth_drop)
  next
    case two
    then show ?thesis using assms(2) splice2 [of n out]
      by (simp add: utf8Store_def utf8_scalar_def utf8_bits [OF c])
  next
    case three
    then show ?thesis using assms(2) splice3 [of n out]
      by (simp add: utf8Store_def utf8_scalar_def utf8_bits [OF c] numeral_3_eq_3)
  next
    case four
    then show ?thesis using assms(2) splice4 [of n out]
      by (simp add: utf8Store_def utf8_scalar_def utf8_bits [OF c] add_4)
  qed
qed

lemma utf8_scalars_simps [simp]:
  "utf8_scalars [] = []"
  "utf8_scalars (c # cs) = utf8_scalar c @ utf8_scalars cs"
  "utf8_scalars (cs @ ds) = utf8_scalars cs @ utf8_scalars ds"
  by (simp_all add: utf8_scalars_def)

lemma utf16_scalars_simps [simp]:
  "utf16_scalars [] = []"
  "utf16_scalars (c # cs) = utf16_scalar c @ utf16_scalars cs"
  "utf16_scalars (cs @ ds) = utf16_scalars cs @ utf16_scalars ds"
  by (simp_all add: utf16_scalars_def)

lemma utf8LengthFrom_eq: "utf8LengthFrom input len = len + length (utf8_scalars (scalars input))"
proof (induction input arbitrary: len rule: scalars.induct)
  case (2 u)
  show ?case using uint_unit_bounds [of u]
    by (auto simp: unit_scalar_def high_surrogate_def low_surrogate_def utf8_scalar_def)
next
  case (3 u v us)
  show ?case
  proof (cases "high_surrogate u \<and> low_surrogate v")
    case True
    then have "\<not> 0x10000 + (uint u - 0xd800) * 0x400 + (uint v - 0xdc00) < 0x10000"
      by (simp add: high_surrogate_def low_surrogate_def)
    then have "length (utf8_scalar (0x10000 + (uint u - 0xd800) * 0x400 + (uint v - 0xdc00))) = 4"
      by (simp add: utf8_scalar_def)
    then show ?thesis using 3(1) [OF True] True
      by (simp del: of_int_diff add: high_surrogate_def low_surrogate_def)
  next
    case False
    then show ?thesis using 3(2) [OF False] uint_unit_bounds [of u]
      by (auto simp: unit_scalar_def high_surrogate_def low_surrogate_def utf8_scalar_def)
  qed
qed simp

lemma utf8Length_eq: "utf8Length input = length (utf8_scalars (scalars input))"
  by (simp add: utf8Length_def utf8LengthFrom_eq)

definition written_prefix ::
    "bytes \<Rightarrow> jsstring \<Rightarrow> nat \<Rightarrow> nat \<Rightarrow> nat \<Rightarrow> bytes \<Rightarrow> nat \<Rightarrow> nat \<Rightarrow> bool" where
  "written_prefix out input oi ii limit out' oi' ii' \<longleftrightarrow>
     (let bs = utf8_scalars (scalars (js_slice input ii ii'))
      in ii \<le> ii' \<and> ii' \<le> length input \<and> oi' = oi + length bs \<and> oi' \<le> limit \<and>
         out' = take oi out @ bs @ drop oi' out \<and>
         scalars (drop ii input) = scalars (js_slice input ii ii') @ scalars (drop ii' input) \<and>
         (ii' < length input \<longrightarrow> oi' + length (utf8_scalar (hd (scalars (drop ii' input)))) > limit))"

lemma utf8WriteLoop_prefix:
  "limit \<le> length out \<Longrightarrow> oi \<le> limit \<Longrightarrow> ii \<le> length input \<Longrightarrow>
   utf8WriteLoop out input oi ii limit = (out', oi', ii') \<Longrightarrow>
   written_prefix out input oi ii limit out' oi' ii'"
proof (induction out input oi ii limit arbitrary: out' oi' ii' rule: utf8WriteLoop.induct)
  case (1 out input oi ii limit)
  show ?case
  proof (cases "ii < length input")
    case False
    then show ?thesis using 1(2-5) by (subst (asm) utf8WriteLoop.simps) (simp add: written_prefix_def)
  next
    case True
    obtain c n where c: "utf8CodeAt input ii = (c, n)" by (cases "utf8CodeAt input ii")
    have n: "ii + n \<le> length input" "1 \<le> n" using c True by (auto simp: utf8CodeAt_eq split: if_splits)
    have whole: "scalars (drop ii input) = c # scalars (drop (ii + n) input)"
      using utf8CodeAt_slice [OF c True n(1)] by (simp add: js_slice_from)
    then have v: "scalar_value c" using scalars_valid [of "drop ii input"] by simp
    show ?thesis
    proof (cases "utf8Store out oi limit c")
      case None
      then have "oi + length (utf8_scalar c) > limit" using 1(2) by (simp add: utf8Store_eq [OF v] split: if_splits)
      moreover have "out' = out" "oi' = oi" "ii' = ii"
        using 1(5) True None c by (simp_all add: utf8WriteLoop.simps [of out])
      ultimately show ?thesis using 1(3,4) whole by (simp add: written_prefix_def)
    next
      case (Some r)
      let ?b = "utf8_scalar c"
      let ?out = "take oi out @ ?b @ drop (oi + length ?b) out"
      have r: "r = (?out, oi + length ?b)" "oi + length ?b \<le> limit"
        using Some 1(2) by (simp_all add: utf8Store_eq [OF v] split: if_splits)
      have "utf8WriteLoop ?out input (oi + length ?b) (ii + n) limit = (out', oi', ii')"
        using 1(5) True Some c r(1) by (simp add: utf8WriteLoop.simps [of out])
      then have p: "written_prefix ?out input (oi + length ?b) (ii + n) limit out' oi' ii'"
        using 1(1) [OF True c [symmetric] Some r(1) [symmetric]] 1(2) r(2) n(1) by simp
      then have ii': "ii + n \<le> ii'" "ii' \<le> length input" by (auto simp: written_prefix_def Let_def)
      have slice: "scalars (js_slice input ii ii') = c # scalars (js_slice input (ii + n) ii')"
        by (rule utf8CodeAt_slice [OF c True ii'])
      show ?thesis using p 1(2) r(2) n(2)
        by (simp add: written_prefix_def Let_def slice whole ac_simps) auto
    qed
  qed
qed

section \<open>Lemmas: the decoder\<close>

definition utf8Step :: "byte \<Rightarrow> utf8_decoder \<Rightarrow> utf8_decoder" where
  "utf8Step b s =
     (case utf8Turn (uint b) s of (s', advance) \<Rightarrow> if advance then s' else fst (utf8Turn (uint b) s'))"

lemma utf8Turn_start: "ud_bytesNeeded s = 0 \<Longrightarrow> utf8Turn b s = (utf8Lead b s, True)"
  by (simp add: utf8Turn_def)

lemma utf8DecodeLoop_fold: "utf8DecodeLoop bs i stop s = fold utf8Step (js_slice bs i stop) s"
proof (induction bs i stop s rule: utf8DecodeLoop.induct)
  case (1 bs i stop s)
  show ?case
  proof (cases "i < stop \<and> i < length bs")
    case False
    then show ?thesis by (auto simp: utf8DecodeLoop.simps [of bs] js_slice_def)
  next
    case True
    then have slice: "js_slice bs i stop = bs ! i # js_slice bs (Suc i) stop"
      by (simp add: js_slice_def Cons_nth_drop_Suc [symmetric] Suc_diff_Suc [symmetric])
    obtain s' advance where t: "utf8Turn (uint (bs ! i)) s = (s', advance)"
      by (cases "utf8Turn (uint (bs ! i)) s")
    have unfold: "utf8DecodeLoop bs i stop s = utf8DecodeLoop bs (if advance then i + 1 else i) stop s'"
      using True t by (subst utf8DecodeLoop.simps) simp
    have ih: "utf8DecodeLoop bs (if advance then i + 1 else i) stop s' =
      fold utf8Step (js_slice bs (if advance then i + 1 else i) stop) s'"
      using 1 True t by simp
    show ?thesis
    proof (cases advance)
      case True
      then show ?thesis using unfold ih t slice by (simp add: utf8Step_def [of "bs ! i" s])
    next
      case False
      then have "ud_bytesNeeded s' = 0" using utf8Turn_stays(2) t by metis
      then show ?thesis using False unfold ih t slice
        by (cases "i + 1 \<le> stop") (simp_all add: utf8Step_def [of "bs ! i"] utf8Turn_start)
    qed
  qed
qed

abbreviation ud_at :: "jsstring \<Rightarrow> int \<Rightarrow> nat \<Rightarrow> nat \<Rightarrow> int \<Rightarrow> int \<Rightarrow> utf8_decoder" where
  "ud_at out cp seen needed lo hi \<equiv> \<lparr>ud_output = out, ud_codePoint = cp, ud_bytesSeen = seen,
     ud_bytesNeeded = needed, ud_lowerBoundary = lo, ud_upperBoundary = hi\<rparr>"

abbreviation ud_clean :: "jsstring \<Rightarrow> utf8_decoder" where
  "ud_clean out \<equiv> ud_at out 0 0 0 0x80 0xbf"

lemma continuation_code:
  assumes "0 \<le> cp" "cp < 0x4400" "0x80 \<le> b" "b \<le> 0xbf"
  shows "js_or (js_shl cp 6) (js_and b 0x3f) = cp * 64 + (b - 0x80)"
proof -
  have "js_and b 0x3f = b mod 64" using js_and_mask_any [of 6 b] by simp
  also have "b = (b - 0x80) + 2 * 64" by simp
  then have "b mod 64 = (b - 0x80) mod 64" by (metis mod_mult_self1)
  finally have "js_and b 0x3f = b - 0x80" using assms by simp
  then show ?thesis using js_or_shl [of cp 6 "b - 0x80"] assms by simp
qed

lemma utf8Continue_at:
  assumes "0 \<le> cp" "cp < 0x4400" "0x80 \<le> b" "b \<le> 0xbf"
  shows "utf8Continue b (ud_at out cp seen needed lo hi) =
    (if seen + 1 = needed then ud_clean (out @ utf16_scalar (cp * 64 + (b - 0x80)))
     else ud_at out (cp * 64 + (b - 0x80)) (seen + 1) needed 0x80 0xbf)"
proof -
  let ?c = "cp * 64 + (b - 0x80)"
  note c = continuation_code [OF assms]
  have "js_shr (?c - 0x10000) 10 = (?c - 0x10000) div 1024" if "?c > 0xffff"
    using js_shr_small [of "?c - 0x10000" 10] assms that by simp
  moreover have "js_and (?c - 0x10000) 0x3ff = (?c - 0x10000) mod 1024"
    using js_and_mask_any [of 10 "?c - 0x10000"] by simp
  ultimately show ?thesis
    by (auto simp: utf8Continue_def c decoder_emit_def utf16_scalar_def Let_def)
qed

text \<open>The states between two bytes of a sequence, with the bounds the next byte has to keep.\<close>

definition sequence_state :: "nat \<Rightarrow> nat \<Rightarrow> int \<Rightarrow> int \<Rightarrow> int \<Rightarrow> bool" where
  "sequence_state needed seen cp lo hi \<longleftrightarrow>
     (needed = 0 \<and> seen = 0 \<and> cp = 0 \<and> lo = 0x80 \<and> hi = 0xbf) \<or>
     (needed = 1 \<and> seen = 0 \<and> 2 \<le> cp \<and> cp < 32 \<and> lo = 0x80 \<and> hi = 0xbf) \<or>
     (needed = 2 \<and> seen = 0 \<and> 0 \<le> cp \<and> cp < 16 \<and> lo = (if cp = 0 then 0xa0 else 0x80) \<and>
        hi = (if cp = 13 then 0x9f else 0xbf)) \<or>
     (needed = 2 \<and> seen = 1 \<and> 32 \<le> cp \<and> cp < 1024 \<and> \<not> (0x360 \<le> cp \<and> cp < 0x380) \<and> lo = 0x80 \<and> hi = 0xbf) \<or>
     (needed = 3 \<and> seen = 0 \<and> 0 \<le> cp \<and> cp < 5 \<and> lo = (if cp = 0 then 0x90 else 0x80) \<and>
        hi = (if cp = 4 then 0x8f else 0xbf)) \<or>
     (needed = 3 \<and> seen = 1 \<and> 16 \<le> cp \<and> cp < 0x110 \<and> lo = 0x80 \<and> hi = 0xbf) \<or>
     (needed = 3 \<and> seen = 2 \<and> 0x400 \<le> cp \<and> cp < 0x4400 \<and> lo = 0x80 \<and> hi = 0xbf)"

lemma utf8Lead_at:
  assumes "0 \<le> b" "b < 256"
  shows "utf8Lead b (ud_clean out) =
    (if b < 0x80 then ud_clean (out @ utf16_scalar b)
     else if 0xc2 \<le> b \<and> b < 0xe0 then ud_at out (b - 0xc0) 0 1 0x80 0xbf
     else if 0xe0 \<le> b \<and> b < 0xf0 then
       ud_at out (b - 0xe0) 0 2 (if b = 0xe0 then 0xa0 else 0x80) (if b = 0xed then 0x9f else 0xbf)
     else if 0xf0 \<le> b \<and> b < 0xf5 then
       ud_at out (b - 0xf0) 0 3 (if b = 0xf0 then 0x90 else 0x80) (if b = 0xf4 then 0x8f else 0xbf)
     else ud_clean (out @ utf16_scalar 0xfffd))"
proof -
  have "js_and b 0x1f = b mod 32" "js_and b 0x0f = b mod 16" "js_and b 0x07 = b mod 8"
    using js_and_mask_any [of 5 b] js_and_mask_any [of 4 b] js_and_mask_any [of 3 b] by simp_all
  moreover have "b mod 32 = b - 0xc0" if "0xc2 \<le> b" "b < 0xe0" using that by presburger
  moreover have "b mod 16 = b - 0xe0" if "0xe0 \<le> b" "b < 0xf0" using that by presburger
  moreover have "b mod 8 = b - 0xf0" if "0xf0 \<le> b" "b < 0xf5" using that by presburger
  ultimately show ?thesis using assms
    by (auto simp: utf8Lead_def decoder_emit_def utf16_scalar_def fromCharCode_def)
qed

lemma lead_sequence_state:
  assumes "0 \<le> b" "b < 256"
  shows "\<exists>cs cp seen needed lo hi. list_all scalar_value cs \<and>
    utf8Lead b (ud_clean out) = ud_at (out @ utf16_scalars cs) cp seen needed lo hi \<and>
    sequence_state needed seen cp lo hi"
proof -
  have v: "scalar_value 0xfffd" "b < 0x80 \<Longrightarrow> scalar_value b" using assms by (auto simp: scalar_value_def)
  consider (a) "b < 0x80" | (b) "0xc2 \<le> b" "b < 0xe0" | (c) "0xe0 \<le> b" "b < 0xf0" | (d) "0xf0 \<le> b" "b < 0xf5"
    | (e) "\<not> b < 0x80" "\<not> (0xc2 \<le> b \<and> b < 0xe0)" "\<not> (0xe0 \<le> b \<and> b < 0xf0)" "\<not> (0xf0 \<le> b \<and> b < 0xf5)"
    by linarith
  then show ?thesis
  proof cases
    case a
    then show ?thesis using v assms
      by (intro exI [of _ "[b]"]) (simp add: utf8Lead_at sequence_state_def)
  next
    case e
    then show ?thesis using v assms
      by (intro exI [of _ "[0xfffd]"]) (auto simp: utf8Lead_at sequence_state_def)
  qed (use assms in \<open>intro exI [of _ "[]"], simp add: utf8Lead_at sequence_state_def\<close>)+
qed

lemma continue_sequence_state:
  assumes s: "sequence_state needed seen cp lo hi" "needed \<noteq> 0" and b: "lo \<le> b" "b \<le> hi"
  shows "\<exists>cs cp' seen' needed' lo' hi'. list_all scalar_value cs \<and>
    utf8Continue b (ud_at out cp seen needed lo hi) = ud_at (out @ utf16_scalars cs) cp' seen' needed' lo' hi' \<and>
    sequence_state needed' seen' cp' lo' hi'"
proof -
  have r: "0 \<le> cp" "cp < 0x4400" "0x80 \<le> b" "b \<le> 0xbf" "seen < needed"
    using s b by (auto simp: sequence_state_def split: if_splits)
  let ?c = "cp * 64 + (b - 0x80)"
  show ?thesis
  proof (cases "seen + 1 = needed")
    case True
    have "scalar_value ?c" using s b True
      by (auto simp: sequence_state_def scalar_value_def split: if_splits)
    moreover have "sequence_state 0 0 0 0x80 0xbf" by (simp add: sequence_state_def)
    ultimately show ?thesis using True utf8Continue_at [OF r(1-4), of out seen needed lo hi]
      by (intro exI [of _ "[?c]"]) (simp add: exI [of _ 0])
  next
    case False
    have "sequence_state needed (seen + 1) ?c 0x80 0xbf" using s b False
      by (auto simp: sequence_state_def split: if_splits)
    then show ?thesis using False utf8Continue_at [OF r(1-4), of out seen needed lo hi]
      by (intro exI [of _ "[]"]) auto
  qed
qed

definition utf8_inv :: "utf8_decoder \<Rightarrow> bool" where
  "utf8_inv s \<longleftrightarrow> (\<exists>cs. list_all scalar_value cs \<and> ud_output s = utf16_scalars cs) \<and>
     sequence_state (ud_bytesNeeded s) (ud_bytesSeen s) (ud_codePoint s) (ud_lowerBoundary s) (ud_upperBoundary s)"

lemma utf8_inv_at:
  "utf8_inv (ud_at out cp seen needed lo hi) \<longleftrightarrow>
     (\<exists>cs. list_all scalar_value cs \<and> out = utf16_scalars cs) \<and> sequence_state needed seen cp lo hi"
  by (simp add: utf8_inv_def)

lemma utf8_inv_step:
  assumes "utf8_inv s"
  shows "utf8_inv (utf8Step b s)"
proof -
  obtain out cp seen needed lo hi where s: "s = ud_at out cp seen needed lo hi" by (cases s) auto
  have seq: "sequence_state needed seen cp lo hi" using assms unfolding s utf8_inv_at by blast
  obtain cs where cs: "list_all scalar_value cs" "out = utf16_scalars cs"
    using assms unfolding s utf8_inv_at by blast
  have extend: "utf8_inv t"
    if more: "\<exists>ds cp' seen' needed' lo' hi'. list_all scalar_value ds \<and>
      t = ud_at (utf16_scalars es @ utf16_scalars ds) cp' seen' needed' lo' hi' \<and>
      sequence_state needed' seen' cp' lo' hi'" and es: "list_all scalar_value es" for t es
  proof -
    from more obtain ds cp' seen' needed' lo' hi' where d: "list_all scalar_value ds"
      "t = ud_at (utf16_scalars es @ utf16_scalars ds) cp' seen' needed' lo' hi'"
      "sequence_state needed' seen' cp' lo' hi'" by blast
    have "list_all scalar_value (es @ ds)" using es d(1) by simp
    then have "\<exists>fs. list_all scalar_value fs \<and> utf16_scalars es @ utf16_scalars ds = utf16_scalars fs"
      by (intro exI [of _ "es @ ds"]) simp
    then show ?thesis unfolding d(2) utf8_inv_at using d(3) by blast
  qed
  have b: "0 \<le> uint b" "uint b < 256" by simp_all
  have lead: "utf8_inv (utf8Lead (uint b) (ud_clean (utf16_scalars es)))" if "list_all scalar_value es" for es
    by (rule extend [OF lead_sequence_state [OF b] that])
  consider (start) "needed = 0" | (reject) "needed \<noteq> 0" "uint b < lo \<or> uint b > hi"
    | (accept) "needed \<noteq> 0" "lo \<le> uint b" "uint b \<le> hi" by linarith
  then show ?thesis
  proof cases
    case start
    then have "s = ud_clean (utf16_scalars cs)" using seq cs by (simp add: s sequence_state_def)
    then show ?thesis using lead [OF cs(1)] by (simp add: utf8Step_def utf8Turn_def)
  next
    case reject
    have "utf8Reject s = ud_clean (utf16_scalars (cs @ [0xfffd]))"
      by (simp add: s cs utf8Reject_def decoder_emit_def utf16_scalar_def fromCharCode_def)
    then have "utf8Step b s = utf8Lead (uint b) (ud_clean (utf16_scalars (cs @ [0xfffd])))"
      using reject by (auto simp: utf8Step_def utf8Turn_def s)
    moreover have "list_all scalar_value (cs @ [0xfffd])" using cs by (simp add: scalar_value_def)
    ultimately show ?thesis using lead by metis
  next
    case accept
    then have "utf8Step b s = utf8Continue (uint b) (ud_at (utf16_scalars cs) cp seen needed lo hi)"
      using cs by (auto simp: utf8Step_def utf8Turn_def s)
    then show ?thesis
      using extend [OF continue_sequence_state [OF seq accept(1-3)] cs(1)] by simp
  qed
qed

lemma utf8_inv_fold: "utf8_inv s \<Longrightarrow> utf8_inv (fold utf8Step bs s)"
  by (induction bs arbitrary: s) (auto simp: utf8_inv_step)

lemma utf8_inv_new: "utf8_inv newUtf8Decoder"
  by (auto simp: newUtf8Decoder_def utf8_inv_at sequence_state_def intro: exI [of _ "[]"])

text \<open>
  The bytes that continue a well-formed encoding: the decoder replaces nothing while it reads
  them. \<open>utf8Run\<close> is the run of the decoder that fails at the first other byte.
\<close>

definition utf8Accepts :: "byte \<Rightarrow> utf8_decoder \<Rightarrow> bool" where
  "utf8Accepts b s \<longleftrightarrow>
     (if ud_bytesNeeded s = 0 then uint b < 0x80 \<or> 0xc2 \<le> uint b \<and> uint b < 0xf5
      else ud_lowerBoundary s \<le> uint b \<and> uint b \<le> ud_upperBoundary s)"

fun utf8Run :: "bytes \<Rightarrow> utf8_decoder \<Rightarrow> utf8_decoder option" where
  "utf8Run [] s = Some s"
| "utf8Run (b # bs) s = (if utf8Accepts b s then utf8Run bs (utf8Step b s) else None)"

lemma utf8Run_fold: "utf8Run bs s = Some s' \<Longrightarrow> fold utf8Step bs s = s'"
  by (induction bs arbitrary: s) (auto split: if_splits)

lemma utf8Run_append: "utf8Run (bs @ cs) s = Option.bind (utf8Run bs s) (utf8Run cs)"
  by (induction bs arbitrary: s) auto

lemma step_lead: "utf8Step b (ud_clean out) = utf8Lead (uint b) (ud_clean out)"
  by (simp add: utf8Step_def utf8Turn_def)

lemma run_lead:
  assumes "uint b < 0x80 \<or> 0xc2 \<le> uint b \<and> uint b < 0xf5" "utf8Lead (uint b) (ud_clean out) = s"
  shows "utf8Run (b # bs) (ud_clean out) = utf8Run bs s"
  using assms by (simp add: utf8Accepts_def step_lead)

lemma step_continue:
  assumes "0 \<le> cp" "cp < 0x4400" "lo \<le> v" "v \<le> hi" "0x80 \<le> v" "v \<le> 0xbf" "needed \<noteq> 0"
  shows "utf8Run (to_uint8 v # bs) (ud_at out cp seen needed lo hi) = utf8Run bs
    (if seen + 1 = needed then ud_clean (out @ utf16_scalar (cp * 64 + (v - 0x80)))
     else ud_at out (cp * 64 + (v - 0x80)) (seen + 1) needed 0x80 0xbf)"
proof -
  have "uint (to_uint8 v) = v" using assms by simp
  then show ?thesis using assms utf8Continue_at [OF assms(1,2,5,6)]
    by (simp add: utf8Step_def utf8Turn_def utf8Accepts_def)
qed

lemma step_middle:
  assumes "0 \<le> cp" "cp < 0x4400" "0 \<le> m" "m < 64" "lo \<le> 0x80 + m" "0x80 + m \<le> hi"
    and "seen + 1 < needed" "cp * 64 + (0x80 + m - 0x80) = cp'" "seen' = seen + 1"
  shows "utf8Run (to_uint8 (0x80 + m) # bs) (ud_at out cp seen needed lo hi) =
    utf8Run bs (ud_at out cp' seen' needed 0x80 0xbf)"
  using step_continue [of cp lo "0x80 + m" hi needed bs out seen] assms by simp

lemma utf8Run_scalar:
  assumes c: "scalar_value c"
  shows "utf8Run (utf8_scalar c) (ud_clean out) = Some (ud_clean (out @ utf16_scalar c))"
proof -
  have r: "0 \<le> c" "c < 0x110000" "\<not> (0xd800 \<le> c \<and> c < 0xe000)" using c by (auto simp: scalar_value_def)
  have join: "c div 64 * 64 + (0x80 + c mod 64 - 0x80) = c" by simp
  have join2: "c div 4096 * 64 + (0x80 + c div 64 mod 64 - 0x80) = c div 64"
  proof -
    have "c div 64 div 64 * 64 + c div 64 mod 64 = c div 64" by (rule div_mult_mod_eq)
    then show ?thesis by (simp add: zdiv_zmult2_eq [symmetric])
  qed
  have join3: "c div 262144 * 64 + (0x80 + c div 4096 mod 64 - 0x80) = c div 4096"
  proof -
    have "c div 4096 div 64 * 64 + c div 4096 mod 64 = c div 4096" by (rule div_mult_mod_eq)
    then show ?thesis by (simp add: zdiv_zmult2_eq [symmetric])
  qed
  have tail: "utf8Run [to_uint8 (0x80 + c mod 64)] (ud_at out (c div 64) seen (Suc seen) 0x80 0xbf) =
    Some (ud_clean (out @ utf16_scalar c))" for seen
  proof -
    have "0 \<le> c div 64" "c div 64 < 0x4400" "0 \<le> c mod 64" "c mod 64 < 64" using r(1,2) by (auto simp: pos_imp_zdiv_nonneg_iff)
    then show ?thesis using step_continue [of "c div 64" 128 "0x80 + c mod 64" 191 "Suc seen" "[]" out seen] join by simp
  qed
  have m: "0 \<le> c div 64 mod 64" "c div 64 mod 64 < 64" "0 \<le> c div 4096 mod 64" "c div 4096 mod 64 < 64" by simp_all
  consider (one) "c < 0x80" | (two) "\<not> c < 0x80" "c < 0x800" | (three) "\<not> c < 0x80" "\<not> c < 0x800" "c < 0x10000"
    | (four) "\<not> c < 0x80" "\<not> c < 0x800" "\<not> c < 0x10000" by linarith
  then show ?thesis
  proof cases
    case one
    then show ?thesis using r by (simp add: utf8_scalar_def step_lead utf8Lead_at utf8Accepts_def)
  next
    case two
    then have d: "2 \<le> c div 64" "c div 64 < 32" by linarith+
    then have "utf8Run (to_uint8 (0xc0 + c div 64) # bs) (ud_clean out) =
        utf8Run bs (ud_at out (c div 64) 0 1 0x80 0xbf)" for bs
      by (intro run_lead) (auto simp: utf8Lead_at)
    then show ?thesis using two tail [of 0] by (simp only: utf8_scalar_def if_True if_False One_nat_def)
  next
    case three
    let ?lo = "if c div 4096 = 0 then 0xa0 else 0x80 :: int" and ?hi = "if c div 4096 = 13 then 0x9f else 0xbf :: int"
    have d: "0 \<le> c div 4096" "c div 4096 < 16" using r three by (auto simp: pos_imp_zdiv_nonneg_iff)
    have lead: "utf8Run (to_uint8 (0xe0 + c div 4096) # bs) (ud_clean out) =
        utf8Run bs (ud_at out (c div 4096) 0 2 ?lo ?hi)" for bs
      using d by (intro run_lead) (auto simp: utf8Lead_at)
    have lo: "32 \<le> c div 64 mod 64" if "c div 4096 = 0"
    proof -
      have "32 \<le> c div 64" using three by linarith
      then show ?thesis using join2 that by simp
    qed
    have hi: "c div 64 mod 64 < 32" if "c div 4096 = 13"
    proof -
      have "c < 0xe000" using that by linarith
      then have "c div 64 < 864" using r(3) by linarith
      then show ?thesis using join2 that by simp
    qed
    have "utf8Run (to_uint8 (0x80 + c div 64 mod 64) # bs) (ud_at out (c div 4096) 0 2 ?lo ?hi) =
      utf8Run bs (ud_at out (c div 64) 1 2 0x80 0xbf)" for bs
    proof (rule step_middle)
      show "?lo \<le> 0x80 + c div 64 mod 64" using lo m(1) by (cases "c div 4096 = 0") simp_all
      show "0x80 + c div 64 mod 64 \<le> ?hi" using hi m(2) by (cases "c div 4096 = 13") simp_all
    qed (use d m join2 in simp_all)
    then show ?thesis using three lead tail [of 1]
      by (simp only: utf8_scalar_def if_True if_False numeral_2_eq_2 One_nat_def)
  next
    case four
    let ?lo = "if c div 262144 = 0 then 0x90 else 0x80 :: int" and ?hi = "if c div 262144 = 4 then 0x8f else 0xbf :: int"
    have d: "0 \<le> c div 262144" "c div 262144 < 5" "0 \<le> c div 4096" "c div 4096 < 0x4400"
      using r four by (auto simp: pos_imp_zdiv_nonneg_iff)
    have lead: "utf8Run (to_uint8 (0xf0 + c div 262144) # bs) (ud_clean out) =
        utf8Run bs (ud_at out (c div 262144) 0 3 ?lo ?hi)" for bs
      using d by (intro run_lead) (auto simp: utf8Lead_at)
    have lo: "16 \<le> c div 4096 mod 64" if "c div 262144 = 0"
    proof -
      have "16 \<le> c div 4096" using four by linarith
      then show ?thesis using join3 that by simp
    qed
    have hi: "c div 4096 mod 64 < 16" if "c div 262144 = 4"
    proof -
      have "c div 4096 < 272" using r(2) by linarith
      then show ?thesis using join3 that by simp
    qed
    have "utf8Run (to_uint8 (0x80 + c div 4096 mod 64) # bs) (ud_at out (c div 262144) 0 3 ?lo ?hi) =
      utf8Run bs (ud_at out (c div 4096) 1 3 0x80 0xbf)" for bs
    proof (rule step_middle)
      show "?lo \<le> 0x80 + c div 4096 mod 64" using lo m(3) by (cases "c div 262144 = 0") simp_all
      show "0x80 + c div 4096 mod 64 \<le> ?hi" using hi m(4) by (cases "c div 262144 = 4") simp_all
    qed (use d m join3 in simp_all)
    moreover have "utf8Run (to_uint8 (0x80 + c div 64 mod 64) # bs) (ud_at out (c div 4096) 1 3 0x80 0xbf) =
      utf8Run bs (ud_at out (c div 64) 2 3 0x80 0xbf)" for bs
      by (rule step_middle [OF d(3,4) m(1,2)]) (use m(1) zle_diff1_eq [of "c div 64 mod 64" 64] m(2) join2 in simp_all)
    ultimately show ?thesis using four lead tail [of 2]
      by (simp only: utf8_scalar_def if_True if_False numeral_3_eq_3 numeral_2_eq_2 One_nat_def)
  qed
qed

lemma utf8Run_scalars:
  "list_all scalar_value cs \<Longrightarrow> utf8Run (utf8_scalars cs) (ud_clean out) = Some (ud_clean (out @ utf16_scalars cs))"
  by (induction cs arbitrary: out) (auto simp: utf8Run_append utf8Run_scalar)

lemma fold_utf8Step_scalars:
  "list_all scalar_value cs \<Longrightarrow> fold utf8Step (utf8_scalars cs) (ud_clean out) = ud_clean (out @ utf16_scalars cs)"
  by (rule utf8Run_fold [OF utf8Run_scalars])

text \<open>
  Conversely, what the run has accepted is the encoding of the scalar values it has put out and
  of the first bytes of one more.
\<close>

definition sequence_bytes :: "nat \<Rightarrow> nat \<Rightarrow> int \<Rightarrow> bytes" where
  "sequence_bytes needed seen cp =
     (if needed = 1 then [to_uint8 (0xc0 + cp)]
      else if needed = 2 then
        (if seen = 0 then [to_uint8 (0xe0 + cp)] else [to_uint8 (0xe0 + cp div 64), to_uint8 (0x80 + cp mod 64)])
      else if needed = 3 then
        (if seen = 0 then [to_uint8 (0xf0 + cp)]
         else if seen = 1 then [to_uint8 (0xf0 + cp div 64), to_uint8 (0x80 + cp mod 64)]
         else [to_uint8 (0xf0 + cp div 4096), to_uint8 (0x80 + cp div 64 mod 64), to_uint8 (0x80 + cp mod 64)])
      else [])"

definition utf8_read :: "bytes \<Rightarrow> utf8_decoder \<Rightarrow> bool" where
  "utf8_read bs s \<longleftrightarrow> (\<exists>cs. list_all scalar_value cs \<and> ud_output s = utf16_scalars cs \<and>
      bs = utf8_scalars cs @ sequence_bytes (ud_bytesNeeded s) (ud_bytesSeen s) (ud_codePoint s)) \<and>
     sequence_state (ud_bytesNeeded s) (ud_bytesSeen s) (ud_codePoint s) (ud_lowerBoundary s) (ud_upperBoundary s)"

lemma utf8_readI:
  "list_all scalar_value cs \<Longrightarrow> out = utf16_scalars cs \<Longrightarrow>
   bs = utf8_scalars cs @ sequence_bytes needed seen cp \<Longrightarrow> sequence_state needed seen cp lo hi \<Longrightarrow>
   utf8_read bs (ud_at out cp seen needed lo hi)"
  by (auto simp: utf8_read_def)

lemma utf8_read_lead:
  assumes "0 \<le> b" "b < 0x80 \<or> 0xc2 \<le> b \<and> b < 0xf5"
  shows "\<exists>cs cp needed lo hi. list_all scalar_value cs \<and>
    utf8Lead b (ud_clean out) = ud_at (out @ utf16_scalars cs) cp 0 needed lo hi \<and>
    [to_uint8 b] = utf8_scalars cs @ sequence_bytes needed 0 cp \<and> sequence_state needed 0 cp lo hi"
proof -
  have b: "0 \<le> b" "b < 256" using assms by auto
  consider (a) "b < 0x80" | (b) "0xc2 \<le> b" "b < 0xe0" | (c) "0xe0 \<le> b" "b < 0xf0" | (d) "0xf0 \<le> b" "b < 0xf5"
    using assms by linarith
  then show ?thesis
  proof cases
    case a
    then show ?thesis using b
      by (intro exI [of _ "[b]"])
        (simp add: utf8Lead_at sequence_state_def sequence_bytes_def utf8_scalar_def scalar_value_def)
  qed (use b in \<open>intro exI [of _ "[]"], simp add: utf8Lead_at sequence_state_def sequence_bytes_def\<close>)+
qed

lemma join_code: "0 \<le> b \<Longrightarrow> b < 64 \<Longrightarrow> (cp * 64 + b) div 64 = cp \<and> (cp * 64 + b) mod 64 = (b :: int)"
  by simp

lemma sequence_bytes_snoc:
  assumes s: "sequence_state needed seen cp lo hi" "needed \<noteq> 0" and b: "lo \<le> b" "b \<le> hi"
  shows "sequence_bytes needed seen cp @ [to_uint8 b] =
    (if seen + 1 = needed then utf8_scalar (cp * 64 + (b - 0x80))
     else sequence_bytes needed (seen + 1) (cp * 64 + (b - 0x80)))"
proof -
  have r: "0 \<le> b - 0x80" "b - 0x80 < 64" using s b by (auto simp: sequence_state_def split: if_splits)
  have d: "x div 4096 = x div 64 div 64" "x div 262144 = x div 64 div 64 div 64" for x :: int
    by (simp_all add: zdiv_zmult2_eq [symmetric])
  show ?thesis using s b
    by (auto simp: sequence_state_def sequence_bytes_def utf8_scalar_def join_code [OF r] d split: if_splits)
qed

lemma utf8_read_step:
  assumes r: "utf8_read bs s" and a: "utf8Accepts b s"
  shows "utf8_read (bs @ [b]) (utf8Step b s)"
proof -
  obtain out cp seen needed lo hi where s: "s = ud_at out cp seen needed lo hi" by (cases s) auto
  have seq: "sequence_state needed seen cp lo hi" using r by (simp add: s utf8_read_def)
  obtain cs where cs: "list_all scalar_value cs" "out = utf16_scalars cs"
    "bs = utf8_scalars cs @ sequence_bytes needed seen cp"
    using r unfolding s utf8_read_def by auto
  show ?thesis
  proof (cases "needed = 0")
    case True
    then have z: "seen = 0" "cp = 0" "lo = 0x80" "hi = 0xbf" using seq by (auto simp: sequence_state_def)
    have "uint b < 0x80 \<or> 0xc2 \<le> uint b \<and> uint b < 0xf5" using a True by (simp add: s utf8Accepts_def)
    from utf8_read_lead [OF _ this, of out] obtain ds cp' needed' lo' hi' where d: "list_all scalar_value ds"
      "utf8Lead (uint b) (ud_clean out) = ud_at (out @ utf16_scalars ds) cp' 0 needed' lo' hi'"
      "[b] = utf8_scalars ds @ sequence_bytes needed' 0 cp'" "sequence_state needed' 0 cp' lo' hi'"
      by auto
    have "sequence_bytes 0 0 0 = []" by (simp add: sequence_bytes_def)
    then show ?thesis using cs d True z
      by (auto simp: s step_lead utf8_read_def intro!: exI [of _ "cs @ ds"])
  next
    case False
    then have b: "lo \<le> uint b" "uint b \<le> hi" using a by (auto simp: s utf8Accepts_def)
    have r: "0 \<le> cp" "cp < 0x4400" "0x80 \<le> uint b" "uint b \<le> 0xbf"
      using seq False b by (auto simp: sequence_state_def split: if_splits)
    let ?c = "cp * 64 + (uint b - 0x80)"
    have step: "utf8Step b s = utf8Continue (uint b) s"
      using False b by (auto simp: s utf8Step_def utf8Turn_def)
    have t: "sequence_bytes 0 0 0 = []" "sequence_state 0 0 0 0x80 0xbf"
      by (simp_all add: sequence_bytes_def sequence_state_def)
    note at = utf8Continue_at [OF r, of out seen needed lo hi] and snoc = sequence_bytes_snoc [OF seq False b]
    show ?thesis
    proof (cases "seen + 1 = needed")
      case True
      have "scalar_value ?c" using seq b True
        by (auto simp: sequence_state_def scalar_value_def split: if_splits)
      then have "utf8_read (bs @ [b]) (ud_clean (out @ utf16_scalar ?c))"
        using cs snoc True t by (intro utf8_readI [of "cs @ [?c]"]) simp_all
      then show ?thesis using step at True by (simp add: s)
    next
      case c: False
      have "sequence_state needed (seen + 1) ?c 0x80 0xbf" using seq False b c
        by (auto simp: sequence_state_def split: if_splits)
      then have "utf8_read (bs @ [b]) (ud_at out ?c (seen + 1) needed 0x80 0xbf)"
        using cs snoc c by (intro utf8_readI [of cs]) simp_all
      then show ?thesis using step at c by (simp add: s)
    qed
  qed
qed

lemma utf8_read_run: "utf8_read cs s \<Longrightarrow> utf8Run bs s = Some s' \<Longrightarrow> utf8_read (cs @ bs) s'"
proof (induction bs arbitrary: s cs)
  case (Cons b bs)
  then have "utf8Accepts b s" "utf8Run bs (utf8Step b s) = Some s'" by (auto split: if_splits)
  then show ?case using Cons.IH [OF utf8_read_step [OF Cons.prems(1)]] by simp
qed simp

text \<open>A run from the start that ends between two code points has read an encoding.\<close>

lemma utf8Run_complete:
  assumes "utf8Run bs newUtf8Decoder = Some s" "ud_bytesNeeded s = 0"
  shows "\<exists>cs. list_all scalar_value cs \<and> bs = utf8_scalars cs \<and> ud_output s = utf16_scalars cs"
proof -
  have "utf8_read [] newUtf8Decoder"
    by (auto simp: utf8_read_def newUtf8Decoder_def sequence_bytes_def sequence_state_def intro: exI [of _ "[]"])
  from utf8_read_run [OF this assms(1)] have "utf8_read bs s" by simp
  then show ?thesis using assms(2) unfolding utf8_read_def by (auto simp: sequence_bytes_def)
qed

section \<open>Lemmas: strings and scalar values\<close>

text \<open>The scalar value string of a string: its lone surrogates become U+FFFD.\<close>

definition scalar_string :: "jsstring \<Rightarrow> jsstring" where
  "scalar_string us = utf16_scalars (scalars us)"

lemma uint_fromCharCode: "0 \<le> n \<Longrightarrow> n < 65536 \<Longrightarrow> uint (fromCharCode n) = n"
  by (simp add: fromCharCode_def uint_word_of_int)

lemma scalars_utf16_scalar:
  assumes "scalar_value c"
  shows "scalars (utf16_scalar c @ us) = c # scalars us"
proof (cases "c < 0x10000")
  case True
  then have u: "uint (fromCharCode c) = c" using assms by (simp add: scalar_value_def uint_fromCharCode)
  then have "\<not> high_surrogate (fromCharCode c)" "unit_scalar (fromCharCode c) = c"
    using assms by (auto simp: high_surrogate_def low_surrogate_def unit_scalar_def scalar_value_def)
  then show ?thesis using True by (cases us) (simp_all add: utf16_scalar_def)
next
  case False
  let ?h = "0xd800 + (c - 0x10000) div 0x400" and ?l = "0xdc00 + (c - 0x10000) mod 0x400"
  have d: "0 \<le> (c - 0x10000) div 0x400" "(c - 0x10000) div 0x400 < 1024"
    using assms False by (auto simp: scalar_value_def pos_imp_zdiv_nonneg_iff)
  have m: "0 \<le> (c - 0x10000) mod 0x400" "(c - 0x10000) mod 0x400 < 1024" by simp_all
  have u: "uint (fromCharCode ?h) = ?h" "uint (fromCharCode ?l) = ?l"
    using d m by (auto intro!: uint_fromCharCode)
  have "high_surrogate (fromCharCode ?h)" "low_surrogate (fromCharCode ?l)"
    using d m by (simp_all only: high_surrogate_def low_surrogate_def u) auto
  moreover have "0x10000 + (?h - 0xd800) * 0x400 + (?l - 0xdc00) = c"
    using div_mult_mod_eq [of "c - 0x10000" "0x400"] by simp
  ultimately show ?thesis using False
    by (simp only: utf16_scalar_def if_False append.simps scalars.simps u) simp
qed

lemma scalars_utf16: "list_all scalar_value cs \<Longrightarrow> scalars (utf16_scalars cs) = cs"
proof (induction cs)
  case (Cons c cs)
  then show ?case by (simp add: scalars_utf16_scalar)
qed simp

lemma scalar_string_utf16: "list_all scalar_value cs \<Longrightarrow> scalar_string (utf16_scalars cs) = utf16_scalars cs"
  by (simp add: scalar_string_def scalars_utf16)

lemma utf8Decode_scalars:
  "list_all scalar_value cs \<Longrightarrow> js_slice bs start stop = utf8_scalars cs \<Longrightarrow>
   utf8Decode bs start stop = utf16_scalars cs"
  using fold_utf8Step_scalars [of cs "[]"]
  by (simp add: utf8Decode_def utf8DecodeLoop_fold newUtf8Decoder_def)

text \<open>With room for the whole encoding the whole string is written.\<close>

lemma scalars_Nil_iff: "scalars us = [] \<longleftrightarrow> us = []"
  by (cases us rule: scalars.cases) auto

lemma utf8Write_all:
  "utf8Write (replicate (utf8Length input) 0) input 0 (utf8Length input) =
     (utf8_scalars (scalars input), \<lparr>wp_read = length input, wp_written = utf8Length input\<rparr>)"
proof -
  let ?n = "utf8Length input"
  obtain out' oi ii where l: "utf8WriteLoop (replicate ?n 0) input 0 0 ?n = (out', oi, ii)"
    by (cases "utf8WriteLoop (replicate ?n 0) input 0 0 ?n") auto
  let ?cs = "scalars (take ii input)" and ?ds = "scalars (drop ii input)"
  have "written_prefix (replicate ?n 0) input 0 0 ?n out' oi ii"
    using utf8WriteLoop_prefix [OF _ _ _ l] by simp
  then have w: "ii \<le> length input \<and> oi = 0 + length (utf8_scalars ?cs) \<and> oi \<le> ?n \<and>
      out' = take 0 (replicate ?n 0) @ utf8_scalars ?cs @ drop oi (replicate ?n 0) \<and>
      scalars input = ?cs @ ?ds \<and> (ii < length input \<longrightarrow> ?n < oi + length (utf8_scalar (hd ?ds)))"
    unfolding written_prefix_def Let_def js_slice_def drop_0 diff_zero by (elim conjE) (intro conjI; assumption)
  have n: "?n = length (utf8_scalars ?cs) + length (utf8_scalars ?ds)"
  proof -
    have "scalars input = ?cs @ ?ds" using w by blast
    then have "utf8_scalars (scalars input) = utf8_scalars ?cs @ utf8_scalars ?ds" by (metis utf8_scalars_simps(3))
    then show ?thesis by (simp add: utf8Length_eq)
  qed
  have "ii = length input"
  proof (rule ccontr)
    assume ne: "ii \<noteq> length input"
    then have lt: "ii < length input" using w by simp
    then have "?ds \<noteq> []" by (simp add: scalars_Nil_iff)
    then have "length (utf8_scalar (hd ?ds)) \<le> length (utf8_scalars ?ds)" by (cases ?ds) auto
    then show False using w lt n by linarith
  qed
  then have "out' = utf8_scalars (scalars input)" "oi = ?n" "ii = length input" using w n by simp_all
  then show ?thesis using l by (simp add: utf8Write_def)
qed

interpretation utf8: codec
  "\<lambda>s. Inr (fst (utf8Write (replicate (utf8Length s) 0) s 0 (utf8Length s)))"
  "\<lambda>bs. Inr (utf8Decode bs 0 (length bs))" "\<lambda>s. scalar_string s = s"
proof
  show "res_bind (Inr (fst (utf8Write (replicate (utf8Length s) 0) s 0 (utf8Length s))))
      (\<lambda>bs. Inr (utf8Decode bs 0 (length bs))) = Inr s" if "scalar_string s = s" for s
    using that utf8Decode_scalars [of "scalars s" "utf8_scalars (scalars s)" 0]
    by (simp add: utf8Write_all scalars_valid scalar_string_def)
qed

section \<open>Properties\<close>

text \<open>
  C20: Writing a string into a byte array at an offset, with room for a given number of bytes,
  changes only the bytes it reports as written, never splits a code point, and stops only when
  the string is finished or its next code point does not fit. Decoding the written bytes gives
  the part of the string that was read, with its lone surrogates replaced by U+FFFD, and their
  number is the length computed for that part.
\<close>

theorem utf8_write_decode:
  assumes "offset + maximum \<le> length output"
    and "utf8Write output input offset maximum = (output', p)"
  shows "wp_read p \<le> length input \<and> wp_written p \<le> maximum \<and>
    wp_written p = utf8Length (take (wp_read p) input) \<and>
    take offset output' = take offset output \<and>
    drop (offset + wp_written p) output' = drop (offset + wp_written p) output \<and>
    utf8Decode output' offset (offset + wp_written p) = scalar_string (take (wp_read p) input) \<and>
    scalars input = scalars (take (wp_read p) input) @ scalars (drop (wp_read p) input) \<and>
    (wp_read p = length input \<or>
     maximum < wp_written p + length (utf8_scalar (hd (scalars (drop (wp_read p) input)))))"
proof -
  obtain oi ii where l: "utf8WriteLoop output input offset 0 (offset + maximum) = (output', oi, ii)"
    and p: "p = \<lparr>wp_read = ii, wp_written = oi - offset\<rparr>"
    using assms(2) by (auto simp: utf8Write_def Let_def split: prod.splits)
  let ?cs = "scalars (take ii input)"
  have "written_prefix output input offset 0 (offset + maximum) output' oi ii"
    using utf8WriteLoop_prefix [OF assms(1) _ _ l] by simp
  then have a: "ii \<le> length input \<and> oi = offset + length (utf8_scalars ?cs) \<and> oi \<le> offset + maximum \<and>
      output' = take offset output @ utf8_scalars ?cs @ drop oi output \<and>
      scalars input = ?cs @ scalars (drop ii input) \<and>
      (ii < length input \<longrightarrow> offset + maximum < oi + length (utf8_scalar (hd (scalars (drop ii input)))))"
    unfolding written_prefix_def Let_def js_slice_def drop_0 diff_zero by (elim conjE) (intro conjI; assumption)
  then have w: "ii \<le> length input" "oi = offset + length (utf8_scalars ?cs)" "oi \<le> offset + maximum"
    "output' = take offset output @ utf8_scalars ?cs @ drop oi output"
    "scalars input = ?cs @ scalars (drop ii input)"
    by blast+
  have stops: "ii = length input \<or> maximum < oi - offset + length (utf8_scalar (hd (scalars (drop ii input))))"
    using a by linarith
  have "js_slice output' offset oi = utf8_scalars ?cs"
    using w(2,4) assms(1) by (simp add: js_slice_def)
  then have "utf8Decode output' offset oi = scalar_string (take ii input)"
    by (simp add: utf8Decode_scalars scalars_valid scalar_string_def)
  moreover have "take offset output' = take offset output" "drop oi output' = drop oi output"
    using w(2,4) assms(1) by simp_all
  ultimately show ?thesis using w(1-3,5) stops by (simp add: p utf8Length_eq)
qed

theorem utf8_write_decode_witness:
  "let (output', p) = utf8Write (replicate 8 0) [0x41, 0x20ac, 0xd83d, 0xde00] 1 6
   in p = \<lparr>wp_read = 2, wp_written = 4\<rparr> \<and> utf8Decode output' 1 5 = [0x41, 0x20ac] \<and>
      output' = [0, 0x41, 0xe2, 0x82, 0xac, 0, 0, 0]"
proof -
  let ?in = "[0x41, 0x20ac, 0xd83d, 0xde00] :: jsstring" and ?p = "\<lparr>wp_read = 2, wp_written = 4\<rparr>"
  have w: "utf8Write (replicate 8 0) ?in 1 6 = ([0, 0x41, 0xe2, 0x82, 0xac, 0, 0, 0], ?p)" by code_simp
  have "1 + 6 \<le> length (replicate 8 (0 :: byte))" by simp
  from utf8_write_decode [OF this w]
  have "utf8Decode [0, 0x41, 0xe2, 0x82, 0xac, 0, 0, 0] 1 (1 + 4) = scalar_string (take 2 ?in)"
    by (elim conjE) (simp only: utf8_write_progress.simps)
  moreover have "scalar_string (take 2 ?in) = [0x41, 0x20ac]" by code_simp
  ultimately show ?thesis unfolding w Let_def prod.case by simp
qed

text \<open>
  Whatever bytes it is given, the decoder returns a string of whole scalar values, with no
  lone surrogate, and a string it returned survives encoding and decoding unchanged.
\<close>

theorem utf8_decode_scalar_values:
  "\<exists>cs. list_all scalar_value cs \<and> utf8Decode bs start stop = utf16_scalars cs \<and>
     scalar_string (utf8Decode bs start stop) = utf8Decode bs start stop \<and>
     utf8Decode (utf8_scalars cs) 0 (length (utf8_scalars cs)) = utf8Decode bs start stop"
proof -
  let ?s = "utf8DecodeLoop bs start stop newUtf8Decoder"
  have "utf8_inv ?s" by (simp add: utf8DecodeLoop_fold utf8_inv_fold utf8_inv_new)
  then obtain cs where cs: "list_all scalar_value cs" "ud_output ?s = utf16_scalars cs"
    unfolding utf8_inv_def by blast
  have "utf8Decode bs start stop = utf16_scalars (if ud_bytesNeeded ?s \<noteq> 0 then cs @ [0xfffd] else cs)"
    by (simp add: utf8Decode_def Let_def cs utf16_scalar_def fromCharCode_def)
  moreover have "list_all scalar_value (if ud_bytesNeeded ?s \<noteq> 0 then cs @ [0xfffd] else cs)"
    using cs by (simp add: scalar_value_def)
  ultimately show ?thesis
    by (metis scalar_string_utf16 utf8Decode_scalars js_slice_all)
qed

end
