(* ===== verification/Percent.thy ===== *)
theory Percent
  imports Utf8
begin

text \<open>
  URL percent-decoding, \<^verbatim>\<open>runtime/web-platform/src/core/percent.ts\<close>: one pass over the UTF-8
  bytes counts the decoded bytes, the array is allocated, and a second pass fills it. The lemmas
  show that both passes agree with one recursive reading of the bytes.
\<close>

section \<open>Definitions\<close>

definition asciiHexValue :: "int \<Rightarrow> int" where
  "asciiHexValue code =
     (if code \<ge> 0x30 \<and> code \<le> 0x39 then code - 0x30
      else if code \<ge> 0x41 \<and> code \<le> 0x46 then code - 0x41 + 10
      else if code \<ge> 0x61 \<and> code \<le> 0x66 then code - 0x61 + 10
      else - 1)"

text \<open>The test of both passes: an escape at \<open>index\<close> with two hexadecimal digits.\<close>

definition hexAt :: "bytes \<Rightarrow> nat \<Rightarrow> int" where
  "hexAt raw index = (case js_at raw (int index) of None \<Rightarrow> - 1 | Some b \<Rightarrow> asciiHexValue (uint b))"

definition escapeAt :: "bytes \<Rightarrow> nat \<Rightarrow> bool" where
  "escapeAt raw index \<longleftrightarrow> js_at raw (int index) = Some 0x25 \<and>
     hexAt raw (index + 1) \<ge> 0 \<and> hexAt raw (index + 2) \<ge> 0"

function percentLength :: "bytes \<Rightarrow> nat \<Rightarrow> nat \<Rightarrow> nat" where
  "percentLength raw index decodedLength =
     (if index < length raw then
        (if escapeAt raw index then percentLength raw (index + 3) (decodedLength - 2)
         else percentLength raw (index + 1) decodedLength)
      else decodedLength)"
  by auto
termination by (relation "measure (\<lambda>(raw, index, _). length raw - index)") auto

function percentFill :: "bytes \<Rightarrow> nat \<Rightarrow> bytes \<Rightarrow> nat \<Rightarrow> bytes" where
  "percentFill raw index output written =
     (if index < length raw then
        (if escapeAt raw index then
           percentFill raw (index + 3)
             (output[written := to_uint8 (hexAt raw (index + 1) * 16 + hexAt raw (index + 2))]) (written + 1)
         else percentFill raw (index + 1) (output[written := raw ! index]) (written + 1))
      else output)"
  by auto
termination by (relation "measure (\<lambda>(raw, index, _, _). length raw - index)") auto

declare percentLength.simps [simp del] percentFill.simps [simp del]

definition percentDecodeBytes :: "jsstring \<Rightarrow> bytes" where
  "percentDecodeBytes input =
     (let len = utf8Length input;
          raw = fst (utf8Write (replicate len 0) input 0 len);
          decodedLength = percentLength raw 0 (length raw)
      in percentFill raw 0 (replicate decodedLength 0) 0)"

section \<open>Lemmas\<close>

text \<open>The reading of the URL standard, byte by byte.\<close>

fun percent_bytes :: "bytes \<Rightarrow> bytes" where
  "percent_bytes (b # h # l # bs) =
     (if b = 0x25 \<and> asciiHexValue (uint h) \<ge> 0 \<and> asciiHexValue (uint l) \<ge> 0
      then to_uint8 (asciiHexValue (uint h) * 16 + asciiHexValue (uint l)) # percent_bytes bs
      else b # percent_bytes (h # l # bs))"
| "percent_bytes bs = bs"

lemma percent_bytes_drop:
  assumes "i < length raw"
  shows "percent_bytes (drop i raw) =
    (if escapeAt raw i
     then to_uint8 (hexAt raw (i + 1) * 16 + hexAt raw (i + 2)) # percent_bytes (drop (i + 3) raw)
     else raw ! i # percent_bytes (drop (i + 1) raw))"
proof (cases "i + 2 < length raw")
  case True
  then have "drop i raw = raw ! i # raw ! (i + 1) # raw ! (i + 2) # drop (i + 3) raw"
    by (simp add: Cons_nth_drop_Suc numeral_3_eq_3)
  moreover from this have "drop (i + 1) raw = raw ! (i + 1) # raw ! (i + 2) # drop (i + 3) raw"
    using assms by (metis Cons_nth_drop_Suc Suc_eq_plus1 list.inject)
  moreover have "hexAt raw (i + 1) = asciiHexValue (uint (raw ! (i + 1)))"
    "hexAt raw (i + 2) = asciiHexValue (uint (raw ! (i + 2)))"
    using True by (simp_all add: hexAt_def js_at_def nat_add_distrib)
  ultimately show ?thesis using assms by (simp add: escapeAt_def)
next
  case False
  then have "hexAt raw (i + 2) = - 1" by (simp add: hexAt_def js_at_def)
  then have "\<not> escapeAt raw i" by (simp add: escapeAt_def)
  moreover have "percent_bytes bs = bs" if "length bs \<le> 2" for bs
    using that by (cases bs rule: percent_bytes.cases) auto
  ultimately show ?thesis using False assms by (simp add: Cons_nth_drop_Suc)
qed

lemma percentLength_eq:
  "length raw - index \<le> n \<Longrightarrow>
   percentLength raw index n + (length raw - index) = n + length (percent_bytes (drop index raw))"
proof (induction raw index n rule: percentLength.induct)
  case (1 raw index n)
  show ?case
  proof (cases "index < length raw")
    case True
    show ?thesis
    proof (cases "escapeAt raw index")
      case e: True
      then have "index + 2 < length raw"
        by (auto simp: escapeAt_def hexAt_def js_at_def split: option.splits if_splits)
      then have "percentLength raw (index + 3) (n - 2) + (length raw - (index + 3)) =
          n - 2 + length (percent_bytes (drop (index + 3) raw))" "2 \<le> n"
        using 1(1) [OF True e] 1(3) by auto
      then have "percentLength raw (index + 3) (n - 2) + (length raw - index) =
          n + Suc (length (percent_bytes (drop (index + 3) raw)))"
        using \<open>index + 2 < length raw\<close> by linarith
      then show ?thesis using e True
        by (subst percentLength.simps) (simp add: percent_bytes_drop [OF True])
    next
      case e: False
      have "percentLength raw (index + 1) n + (length raw - (index + 1)) =
          n + length (percent_bytes (drop (index + 1) raw))"
        using 1(2) [OF True e] 1(3) by simp
      then have "percentLength raw (index + 1) n + (length raw - index) =
          n + Suc (length (percent_bytes (drop (index + 1) raw)))"
        using True by linarith
      then show ?thesis using e True
        by (subst percentLength.simps) (simp add: percent_bytes_drop [OF True])
    qed
  qed (subst percentLength.simps, simp)
qed

lemma percentFill_eq:
  "length out = written + length (percent_bytes (drop index raw)) \<Longrightarrow>
   percentFill raw index out written = take written out @ percent_bytes (drop index raw)"
proof (induction raw index out written rule: percentFill.induct)
  case (1 raw index out written)
  show ?case
  proof (cases "index < length raw")
    case True
    have step: "take (Suc written) (out[written := v]) = take written out @ [v]"
      if "written < length out" for v
      using that by (simp add: take_Suc_conv_app_nth)
    show ?thesis
    proof (cases "escapeAt raw index")
      case e: True
      then show ?thesis using 1(1) [OF True e] 1(3) True
        by (subst percentFill.simps) (simp add: percent_bytes_drop [OF True] step)
    next
      case e: False
      then show ?thesis using 1(2) [OF True e] 1(3) True
        by (subst percentFill.simps) (simp add: percent_bytes_drop [OF True] step)
    qed
  qed (use 1(3) in \<open>subst percentFill.simps, simp\<close>)
qed

lemma percentDecode_raw:
  "percentFill raw 0 (replicate (percentLength raw 0 (length raw)) 0) 0 = percent_bytes raw"
  using percentLength_eq [of raw 0 "length raw"]
  by (subst percentFill_eq) simp_all

section \<open>Properties\<close>

text \<open>
  The two passes of percent-decoding agree: the array allocated by the first is exactly
  filled by the second, and it holds the UTF-8 bytes of the string with every escape of two
  hexadecimal digits replaced by its byte and everything else unchanged.
\<close>

theorem percent_decode_reference:
  "percentDecodeBytes input = percent_bytes (utf8_scalars (scalars input)) \<and>
   length (percentDecodeBytes input) =
     percentLength (utf8_scalars (scalars input)) 0 (length (utf8_scalars (scalars input)))"
proof -
  let ?raw = "utf8_scalars (scalars input)"
  have "percentDecodeBytes input = percent_bytes ?raw"
    by (simp only: percentDecodeBytes_def Let_def utf8Write_all fst_conv percentDecode_raw)
  moreover have "length (percent_bytes ?raw) = percentLength ?raw 0 (length ?raw)"
    using percentLength_eq [of ?raw 0 "length ?raw"] by simp
  ultimately show ?thesis by simp
qed

end
