(* ===== verification/Text_Decoder.thy ===== *)
theory Text_Decoder
  imports Ascii_Text Utf8
begin

text \<open>
  \<^verbatim>\<open>TextEncoder\<close> and \<^verbatim>\<open>TextDecoder\<close> of \<^verbatim>\<open>runtime/web-platform/src/core/encoding.ts\<close>: the decoder
  object with its streaming state (the partial UTF-8 sequence or UTF-16 code unit, the byte-order
  mark flag, the queue of bytes a fatal error left unread), for UTF-8 and both UTF-16 byte orders.
  A thrown error leaves the object changed, so every method returns the object beside its result.
\<close>

section \<open>The decoder object\<close>

datatype decoder_encoding = UTF_8 | UTF_16LE | UTF_16BE

record text_decoder_options =
  td_decoderEncoding :: decoder_encoding
  td_decoderFatal :: bool
  td_decoderIgnoreBOM :: bool

record text_decoder_sequence = text_decoder_options +
  td_pendingByte :: int
  td_pendingLead :: int
  td_needed :: nat
  td_seen :: nat
  td_code :: int
  td_lower :: int
  td_upper :: int

record text_decoder = text_decoder_sequence +
  td_bomSeen :: bool
  td_doNotFlush :: bool
  td_inputQueue :: bytes
  td_inputPosition :: nat

definition utf16Label :: "jsstring \<Rightarrow> decoder_encoding option" where
  "utf16Label label =
     (if label = js_string ''unicodefffe'' \<or> label = js_string ''utf-16be'' then Some UTF_16BE
      else if label = js_string ''csunicode'' \<or> label = js_string ''iso-10646-ucs-2'' \<or>
              label = js_string ''ucs-2'' \<or> label = js_string ''unicode'' \<or>
              label = js_string ''unicodefeff'' \<or> label = js_string ''utf-16'' \<or>
              label = js_string ''utf-16le'' then Some UTF_16LE
      else None)"

definition utf8Label :: "jsstring \<Rightarrow> bool" where
  "utf8Label label \<longleftrightarrow>
     label = js_string ''unicode-1-1-utf-8'' \<or> label = js_string ''unicode11utf8'' \<or>
     label = js_string ''unicode20utf8'' \<or> label = js_string ''utf-8'' \<or>
     label = js_string ''utf8'' \<or> label = js_string ''x-unicode20utf8''"

text \<open>
  \<^verbatim>\<open>toLowerCase\<close> is a parameter \<open>lower\<close>: the standard library maps all of Unicode, and the labels
  it is compared with are ASCII.
\<close>

definition newTextDecoder :: "(jsstring \<Rightarrow> jsstring) \<Rightarrow> jsstring \<Rightarrow> bool \<Rightarrow> bool \<Rightarrow> text_decoder result" where
  "newTextDecoder lower label fatal ignoreBOM =
     (let normalized = lower (trimASCIIWhitespace label);
          utf16 = utf16Label normalized
      in if utf16 = None \<and> \<not> utf8Label normalized then Inl RangeError
         else Inr \<lparr>td_decoderEncoding = (case utf16 of None \<Rightarrow> UTF_8 | Some e \<Rightarrow> e),
                   td_decoderFatal = fatal, td_decoderIgnoreBOM = ignoreBOM,
                   td_pendingByte = - 1, td_pendingLead = - 1, td_needed = 0, td_seen = 0, td_code = 0,
                   td_lower = 0x80, td_upper = 0xbf, td_bomSeen = False, td_doNotFlush = False,
                   td_inputQueue = [], td_inputPosition = 0\<rparr>)"

definition resetSequence :: "text_decoder \<Rightarrow> text_decoder" where
  "resetSequence d =
     d\<lparr>td_needed := 0, td_seen := 0, td_code := 0, td_lower := 0x80, td_upper := 0xbf,
       td_pendingByte := - 1, td_pendingLead := - 1\<rparr>"

definition replacement :: "nat \<Rightarrow> text_decoder \<Rightarrow> unit result \<times> text_decoder" where
  "replacement position d =
     (let d1 = resetSequence d
      in if td_decoderFatal d1 then (Inl TypeError, d1\<lparr>td_inputPosition := position\<rparr>) else (Inr (), d1))"

definition appendInput :: "bytes \<Rightarrow> text_decoder \<Rightarrow> bytes \<times> text_decoder" where
  "appendInput input d =
     (let bs = drop (td_inputPosition d) (td_inputQueue d) @ input
      in (bs, d\<lparr>td_inputQueue := bs, td_inputPosition := 0\<rparr>))"

definition clearInput :: "text_decoder \<Rightarrow> text_decoder" where
  "clearInput d = d\<lparr>td_inputQueue := [], td_inputPosition := 0\<rparr>"

section \<open>Emitting code points\<close>

text \<open>The variables the closure \<^verbatim>\<open>emit\<close> writes.\<close>

record emitter =
  em_bomSeen :: bool
  em_pieces :: "jsstring list"
  em_ascii :: jsstring

definition fromCodePoint :: "int \<Rightarrow> jsstring" where
  "fromCodePoint code =
     (if code < 0x10000 then [fromCharCode code]
      else [fromCharCode (0xd800 + (code - 0x10000) div 0x400), fromCharCode (0xdc00 + (code - 0x10000) mod 0x400)])"

definition emit :: "bool \<Rightarrow> int \<Rightarrow> emitter \<Rightarrow> emitter" where
  "emit ignoreBOM code e =
     (if \<not> em_bomSeen e \<and> code = 0xfeff \<and> \<not> ignoreBOM then e\<lparr>em_bomSeen := True\<rparr>
      else (let ascii = em_ascii e @ fromCodePoint code
            in if length ascii \<ge> 4096
               then e\<lparr>em_bomSeen := True, em_pieces := em_pieces e @ [ascii], em_ascii := []\<rparr>
               else e\<lparr>em_bomSeen := True, em_ascii := ascii\<rparr>))"

definition emitted :: "emitter \<Rightarrow> jsstring" where
  "emitted e = concat (em_pieces e @ [em_ascii e])"

section \<open>UTF-16\<close>

definition utf16Error :: "nat \<Rightarrow> int option \<Rightarrow> text_decoder \<Rightarrow> unit result \<times> text_decoder" where
  "utf16Error position restoredUnit d =
     (if \<not> td_decoderFatal d then (Inr (), d)
      else (Inl TypeError,
        (case restoredUnit of
           None \<Rightarrow> d\<lparr>td_inputPosition := position\<rparr>
         | Some unit \<Rightarrow>
             (let bigEndian = (td_decoderEncoding d = UTF_16BE);
                  first = (if bigEndian then js_shr unit 8 else js_and unit 255);
                  second = (if bigEndian then js_and unit 255 else js_shr unit 8)
              in d\<lparr>td_inputQueue := [to_uint8 first, to_uint8 second] @ drop position (td_inputQueue d),
                   td_inputPosition := 0\<rparr>))))"

text \<open>A complete code unit with no lead surrogate before it.\<close>

definition utf16Unit :: "nat \<Rightarrow> int \<Rightarrow> text_decoder \<times> emitter \<Rightarrow> emitter result \<times> text_decoder" where
  "utf16Unit index unit = (\<lambda>(d, e).
     if unit \<ge> 0xd800 \<and> unit \<le> 0xdbff then (Inr e, d\<lparr>td_pendingLead := unit\<rparr>)
     else if unit \<ge> 0xdc00 \<and> unit \<le> 0xdfff then
       (case utf16Error (index + 1) None d of
          (Inl err, d') \<Rightarrow> (Inl err, d')
        | (Inr u, d') \<Rightarrow> (Inr (emit (td_decoderIgnoreBOM d) 0xfffd e), d'))
     else (Inr (emit (td_decoderIgnoreBOM d) unit e), d))"

definition utf16Byte :: "nat \<Rightarrow> int \<Rightarrow> text_decoder \<times> emitter \<Rightarrow> emitter result \<times> text_decoder" where
  "utf16Byte index b = (\<lambda>(d, e).
     if td_pendingByte d = - 1 then (Inr e, d\<lparr>td_pendingByte := b\<rparr>)
     else
       (let unit = (if td_decoderEncoding d = UTF_16BE then js_or (js_shl (td_pendingByte d) 8) b
                    else js_or (js_shl b 8) (td_pendingByte d));
            d1 = d\<lparr>td_pendingByte := - 1\<rparr>
        in if td_pendingLead d1 \<noteq> - 1 then
             (let lead = td_pendingLead d1; d2 = d1\<lparr>td_pendingLead := - 1\<rparr>
              in if unit \<ge> 0xdc00 \<and> unit \<le> 0xdfff
                 then (Inr (emit (td_decoderIgnoreBOM d) (0x10000 + js_shl (lead - 0xd800) 10 + (unit - 0xdc00)) e), d2)
                 else (case utf16Error (index + 1) (Some unit) d2 of
                         (Inl err, d3) \<Rightarrow> (Inl err, d3)
                       | (Inr u, d3) \<Rightarrow> utf16Unit index unit (d3, emit (td_decoderIgnoreBOM d) 0xfffd e)))
           else utf16Unit index unit (d1, e)))"

fun utf16Loop :: "bytes \<Rightarrow> nat \<Rightarrow> text_decoder \<times> emitter \<Rightarrow> emitter result \<times> text_decoder" where
  "utf16Loop [] index (d, e) = (Inr e, d)"
| "utf16Loop (b # input) index (d, e) =
     (case utf16Byte index (uint b) (d, e) of
        (Inl err, d') \<Rightarrow> (Inl err, d')
      | (Inr e', d') \<Rightarrow> utf16Loop input (index + 1) (d', e'))"

definition decodeUTF16 :: "bytes \<Rightarrow> bool \<Rightarrow> text_decoder \<times> emitter \<Rightarrow> emitter result \<times> text_decoder" where
  "decodeUTF16 input stream de =
     (case utf16Loop input 0 de of
        (Inl err, d) \<Rightarrow> (Inl err, d)
      | (Inr e, d) \<Rightarrow>
          if stream then (Inr e, d)
          else if td_pendingLead d \<noteq> - 1 \<or> td_pendingByte d \<noteq> - 1 then
            (case utf16Error (length input) None (d\<lparr>td_pendingLead := - 1, td_pendingByte := - 1\<rparr>) of
               (Inl err, d') \<Rightarrow> (Inl err, d')
             | (Inr u, d') \<Rightarrow> (Inr (emit (td_decoderIgnoreBOM d) 0xfffd e), d'))
          else (Inr e, d))"

section \<open>UTF-8\<close>

text \<open>The branch where a sequence may start; \<open>i\<close> is the index after the byte.\<close>

definition tdLead :: "nat \<Rightarrow> int \<Rightarrow> text_decoder \<times> emitter \<Rightarrow> emitter result \<times> text_decoder" where
  "tdLead i b = (\<lambda>(d, e).
     if b \<le> 0x7f then (Inr (emit (td_decoderIgnoreBOM d) b e), d)
     else if b \<ge> 0xc2 \<and> b \<le> 0xdf then (Inr e, d\<lparr>td_needed := 1, td_code := js_and b 0x1f\<rparr>)
     else if b \<ge> 0xe0 \<and> b \<le> 0xef then
       (let d1 = d\<lparr>td_needed := 2, td_code := js_and b 0x0f\<rparr>;
            d2 = (if b = 0xe0 then d1\<lparr>td_lower := 0xa0\<rparr> else d1);
            d3 = (if b = 0xed then d2\<lparr>td_upper := 0x9f\<rparr> else d2)
        in (Inr e, d3))
     else if b \<ge> 0xf0 \<and> b \<le> 0xf4 then
       (let d1 = d\<lparr>td_needed := 3, td_code := js_and b 7\<rparr>;
            d2 = (if b = 0xf0 then d1\<lparr>td_lower := 0x90\<rparr> else d1);
            d3 = (if b = 0xf4 then d2\<lparr>td_upper := 0x8f\<rparr> else d2)
        in (Inr e, d3))
     else
       (case replacement i d of
          (Inl err, d') \<Rightarrow> (Inl err, d')
        | (Inr u, d') \<Rightarrow> (Inr (emit (td_decoderIgnoreBOM d) 0xfffd e), d')))"

definition tdContinue :: "int \<Rightarrow> text_decoder \<times> emitter \<Rightarrow> emitter \<times> text_decoder" where
  "tdContinue b = (\<lambda>(d, e).
     (let d1 = d\<lparr>td_lower := 0x80, td_upper := 0xbf,
                 td_code := js_or (js_shl (td_code d) 6) (js_and b 63), td_seen := td_seen d + 1\<rparr>
      in if td_seen d1 = td_needed d1
         then (emit (td_decoderIgnoreBOM d) (td_code d1) e, resetSequence d1)
         else (e, d1)))"

text \<open>One turn of the loop at index \<open>i\<close>: the next index, when nothing is thrown.\<close>

definition tdTurn :: "nat \<Rightarrow> int \<Rightarrow> text_decoder \<times> emitter \<Rightarrow> (emitter \<times> nat) result \<times> text_decoder" where
  "tdTurn i b = (\<lambda>(d, e).
     if td_needed d = 0 then
       (case tdLead (i + 1) b (d, e) of
          (Inl err, d') \<Rightarrow> (Inl err, d')
        | (Inr e', d') \<Rightarrow> (Inr (e', i + 1), d'))
     else if b < td_lower d \<or> b > td_upper d then
       (case replacement i d of
          (Inl err, d') \<Rightarrow> (Inl err, d')
        | (Inr u, d') \<Rightarrow> (Inr (emit (td_decoderIgnoreBOM d) 0xfffd e, i), d'))
     else (case tdContinue b (d, e) of (e', d') \<Rightarrow> (Inr (e', i + 1), d')))"

lemma tdTurn_index: "(Inr (e', j), d') = tdTurn i b (d, e) \<Longrightarrow> j = i + 1 \<or> j = i \<and> 0 < td_needed d \<and> td_needed d' = 0"
  by (auto simp: tdTurn_def replacement_def resetSequence_def Let_def split: if_splits prod.splits sum.splits)

function utf8Loop :: "bytes \<Rightarrow> nat \<Rightarrow> text_decoder \<times> emitter \<Rightarrow> emitter result \<times> text_decoder" where
  "utf8Loop input i (d, e) =
     (if i < length input then
        (case tdTurn i (uint (input ! i)) (d, e) of
           (Inl err, d') \<Rightarrow> (Inl err, d')
         | (Inr (e', j), d') \<Rightarrow> utf8Loop input j (d', e'))
      else (Inr e, d))"
  by pat_completeness auto
termination
  by (relation "measure (\<lambda>(input, i, d, e). 2 * (length input - i) + (if td_needed d = 0 then 0 else 1))")
    (auto dest: tdTurn_index)

declare utf8Loop.simps [simp del]

definition decodeUTF8Bytes :: "bytes \<Rightarrow> bool \<Rightarrow> text_decoder \<times> emitter \<Rightarrow> emitter result \<times> text_decoder" where
  "decodeUTF8Bytes input stream de =
     (case utf8Loop input 0 de of
        (Inl err, d) \<Rightarrow> (Inl err, d)
      | (Inr e, d) \<Rightarrow>
          if stream then (Inr e, d)
          else if td_needed d \<noteq> 0 then
            (case replacement (length input) d of
               (Inl err, d') \<Rightarrow> (Inl err, d')
             | (Inr u, d') \<Rightarrow>
                 (Inr ((emit (td_decoderIgnoreBOM d) 0xfffd e)\<lparr>em_bomSeen := False\<rparr>), resetSequence d'))
          else (Inr (e\<lparr>em_bomSeen := False\<rparr>), resetSequence d))"

section \<open>decode\<close>

text \<open>
  \<open>input\<close> is the byte sequence of the buffer source (empty when the argument is left out or its
  buffer is detached); the Web IDL checks of the argument come before.
\<close>

definition td_decode :: "bytes \<Rightarrow> bool \<Rightarrow> text_decoder \<Rightarrow> jsstring result \<times> text_decoder" where
  "td_decode input stream d =
     (let d1 = (if \<not> td_doNotFlush d then (clearInput (resetSequence d))\<lparr>td_bomSeen := False\<rparr> else d);
          (bs, d2) = appendInput input (d1\<lparr>td_doNotFlush := stream\<rparr>);
          e = \<lparr>em_bomSeen = td_bomSeen d2, em_pieces = [], em_ascii = []\<rparr>
      in case (if td_decoderEncoding d2 \<noteq> UTF_8 then decodeUTF16 bs stream (d2, e)
               else decodeUTF8Bytes bs stream (d2, e)) of
           (Inl err, d3) \<Rightarrow> (Inl err, d3)
         | (Inr e', d3) \<Rightarrow> (Inr (emitted e'), (clearInput d3)\<lparr>td_bomSeen := em_bomSeen e'\<rparr>))"

definition decodeUTF8 :: "bytes \<Rightarrow> bool \<Rightarrow> bool \<Rightarrow> jsstring result" where
  "decodeUTF8 bs fatal ignoreBOM =
     res_bind (newTextDecoder (\<lambda>s. s) (js_string ''utf-8'') fatal ignoreBOM) (\<lambda>d. fst (td_decode bs False d))"

section \<open>TextEncoder\<close>

text \<open>
  \<^verbatim>\<open>coerceToUSVString\<close> on a string argument; \<open>encodeInto\<close> gives the destination and the progress.
\<close>

definition te_encode :: "jsstring \<Rightarrow> bytes" where
  "te_encode input =
     (let s = scalar_string input; n = utf8Length s
      in fst (utf8Write (replicate n 0) s 0 n))"

definition te_encodeInto :: "jsstring \<Rightarrow> bytes \<Rightarrow> bytes \<times> utf8_write_progress" where
  "te_encodeInto source destination =
     utf8Write destination (scalar_string source) 0 (length destination)"

section \<open>Lemmas: emitting\<close>

text \<open>What a decoder shows of the code units \<open>R\<close> it has decoded: all but a byte-order mark.\<close>

definition rendered :: "bool \<Rightarrow> jsstring \<Rightarrow> jsstring" where
  "rendered ignoreBOM R = (if \<not> ignoreBOM \<and> R \<noteq> [] \<and> hd R = 0xfeff then tl R else R)"

lemma fromCodePoint_eq: "fromCodePoint = utf16_scalar"
  by (rule ext) (simp add: fromCodePoint_def utf16_scalar_def)

lemma utf16_scalar_not_Nil [simp]: "utf16_scalar c \<noteq> []"
  by (simp add: utf16_scalar_def)

lemma fromCharCode_bom: "0 \<le> n \<Longrightarrow> n < 65536 \<Longrightarrow> fromCharCode n = 0xfeff \<longleftrightarrow> n = 0xfeff"
proof
  assume "0 \<le> n" "n < 65536" "fromCharCode n = 0xfeff"
  then have "uint (0xfeff :: code_unit) = n" by (metis uint_fromCharCode)
  then show "n = 0xfeff" by simp
qed (simp add: fromCharCode_def)

lemma hd_utf16_scalar_bom:
  assumes "scalar_value c"
  shows "hd (utf16_scalar c) = 0xfeff \<longleftrightarrow> c = 0xfeff"
proof (cases "c < 0x10000")
  case True
  then show ?thesis using assms by (simp add: utf16_scalar_def scalar_value_def fromCharCode_bom)
next
  case False
  let ?h = "0xd800 + (c - 0x10000) div 0x400"
  have "0 \<le> (c - 0x10000) div 0x400" "(c - 0x10000) div 0x400 < 1024"
    using assms False by (auto simp: scalar_value_def pos_imp_zdiv_nonneg_iff)
  then have "fromCharCode ?h \<noteq> 0xfeff" using fromCharCode_bom [of ?h] by auto
  then show ?thesis using False by (simp add: utf16_scalar_def)
qed

definition em_rel :: "bool \<Rightarrow> jsstring \<Rightarrow> jsstring \<Rightarrow> emitter \<Rightarrow> bool" where
  "em_rel ignoreBOM pre R e \<longleftrightarrow> em_bomSeen e = (R \<noteq> []) \<and> pre @ emitted e = rendered ignoreBOM R"

lemma emit_simps:
  "em_bomSeen (emit ignoreBOM c e) = True"
  "emitted (emit ignoreBOM c e) =
     (if \<not> em_bomSeen e \<and> c = 0xfeff \<and> \<not> ignoreBOM then emitted e else emitted e @ utf16_scalar c)"
  by (simp_all add: emit_def emitted_def Let_def fromCodePoint_eq)

lemma em_rel_emit:
  assumes "em_rel ig pre R e" "scalar_value c"
  shows "em_rel ig pre (R @ utf16_scalar c) (emit ig c e)"
proof (cases "R = []")
  case True
  then have "pre @ emitted e = []" "\<not> em_bomSeen e" using assms(1) by (auto simp: em_rel_def rendered_def)
  moreover have "tl (utf16_scalar 0xfeff) = []" by (simp add: utf16_scalar_def)
  ultimately show ?thesis using True hd_utf16_scalar_bom [OF assms(2)]
    by (auto simp: em_rel_def rendered_def emit_simps)
next
  case False
  then show ?thesis using assms(1) by (auto simp: em_rel_def rendered_def emit_simps)
qed

section \<open>Lemmas: the UTF-8 loop\<close>

definition same_options :: "text_decoder \<Rightarrow> text_decoder \<Rightarrow> bool" where
  "same_options d0 d \<longleftrightarrow> td_decoderEncoding d = td_decoderEncoding d0 \<and>
     td_decoderFatal d = td_decoderFatal d0 \<and> td_decoderIgnoreBOM d = td_decoderIgnoreBOM d0 \<and>
     td_doNotFlush d = td_doNotFlush d0"

lemma same_options_refl: "same_options d d"
  by (simp add: same_options_def)

text \<open>The decoder object and the emitter stand for the state \<open>s\<close> of the codec's machine.\<close>

definition dec_sim :: "text_decoder \<Rightarrow> jsstring \<Rightarrow> utf8_decoder \<Rightarrow> text_decoder \<Rightarrow> emitter \<Rightarrow> bool" where
  "dec_sim d0 pre s d e \<longleftrightarrow> same_options d0 d \<and> td_code d = ud_codePoint s \<and> td_seen d = ud_bytesSeen s \<and>
     td_needed d = ud_bytesNeeded s \<and> td_lower d = ud_lowerBoundary s \<and> td_upper d = ud_upperBoundary s \<and>
     em_rel (td_decoderIgnoreBOM d0) pre (ud_output s) e \<and> utf8_inv s"

lemma utf8_inv_emit:
  assumes "utf8_inv s" "scalar_value c"
  shows "utf8_inv (ud_clean (ud_output s @ utf16_scalar c))"
proof -
  obtain cs where "list_all scalar_value cs" "ud_output s = utf16_scalars cs"
    using assms(1) unfolding utf8_inv_def by blast
  then have "list_all scalar_value (cs @ [c]) \<and> ud_output s @ utf16_scalar c = utf16_scalars (cs @ [c])"
    using assms(2) by simp
  then show ?thesis unfolding utf8_inv_at by (intro conjI exI [of _ "cs @ [c]"]) (simp_all add: sequence_state_def)
qed

lemma utf8_inv_clean: "utf8_inv s \<Longrightarrow> ud_bytesNeeded s = 0 \<Longrightarrow> s = ud_clean (ud_output s)"
  by (cases s) (auto simp: utf8_inv_def sequence_state_def)

lemma utf8Reject_clean: "utf8Reject s = ud_clean (ud_output s @ utf16_scalar 0xfffd)"
  by (cases s) (simp add: utf8Reject_def decoder_emit_def utf16_scalar_def fromCharCode_def)

lemma scalar_replacement: "scalar_value 0xfffd"
  by (simp add: scalar_value_def)

lemma replacement_lenient: "\<not> td_decoderFatal d \<Longrightarrow> replacement i d = (Inr (), resetSequence d)"
  by (simp add: replacement_def resetSequence_def)

lemma replacement_fatal: "td_decoderFatal d \<Longrightarrow> \<exists>d'. replacement i d = (Inl TypeError, d')"
  by (simp add: replacement_def resetSequence_def)

lemma dec_sim_lead:
  assumes sim: "dec_sim d0 pre s d e" and n: "ud_bytesNeeded s = 0"
    and ok: "\<not> td_decoderFatal d0 \<or> utf8Accepts b s"
  shows "\<exists>e' d'. tdLead i (uint b) (d, e) = (Inr e', d') \<and> dec_sim d0 pre (utf8Lead (uint b) s) d' e'"
proof -
  obtain out where s: "s = ud_clean out" using utf8_inv_clean [of s] sim n by (metis dec_sim_def)
  have b: "0 \<le> uint b" "uint b < 256" by simp_all
  have inv: "utf8_inv (utf8Lead (uint b) s)"
    using utf8_inv_step [of s b] sim by (simp add: dec_sim_def s step_lead)
  note sim' = sim [unfolded dec_sim_def s]
  have masks: "js_and x 0x1f = x mod 32" "js_and x 0x0f = x mod 16" "js_and x 7 = x mod 8" for x
    using js_and_mask_any [of 5 x] js_and_mask_any [of 4 x] js_and_mask_any [of 3 x] by simp_all
  consider (a) "uint b < 0x80" | (b) "0xc2 \<le> uint b" "uint b < 0xe0" | (c) "0xe0 \<le> uint b" "uint b < 0xf0"
    | (d) "0xf0 \<le> uint b" "uint b < 0xf5"
    | (e) "\<not> uint b < 0x80" "\<not> (0xc2 \<le> uint b \<and> uint b < 0xf5)" by linarith
  then show ?thesis
  proof cases
    case a
    then have "scalar_value (uint b)" by (simp add: scalar_value_def)
    then have "em_rel (td_decoderIgnoreBOM d0) pre (out @ utf16_scalar (uint b)) (emit (td_decoderIgnoreBOM d0) (uint b) e)"
      using sim' by (intro em_rel_emit) simp_all
    then show ?thesis using a sim' inv
      by (simp add: s tdLead_def dec_sim_def utf8Lead_at same_options_def)
  next
    case e
    then have "\<not> utf8Accepts b s" by (simp add: s utf8Accepts_def)
    then have "\<not> td_decoderFatal d" using ok sim' by (simp add: same_options_def)
    then have "tdLead i (uint b) (d, e) = (Inr (emit (td_decoderIgnoreBOM d) 0xfffd e), resetSequence d)"
      using e by (auto simp: tdLead_def replacement_lenient)
    moreover have "em_rel (td_decoderIgnoreBOM d0) pre (out @ utf16_scalar 0xfffd) (emit (td_decoderIgnoreBOM d0) 0xfffd e)"
      using sim' by (intro em_rel_emit scalar_replacement) simp_all
    moreover have "utf8Lead (uint b) s = ud_clean (out @ utf16_scalar 0xfffd)"
      using e b by (auto simp: s utf8Lead_at)
    ultimately show ?thesis using sim' inv
      by (simp add: dec_sim_def resetSequence_def same_options_def)
  qed (use sim' inv in \<open>simp add: s tdLead_def dec_sim_def utf8Lead_def same_options_def Let_def masks\<close>)+
qed

lemma dec_sim_continue:
  fixes b :: byte
  assumes sim: "dec_sim d0 pre s d e" and n: "ud_bytesNeeded s \<noteq> 0"
    and b: "ud_lowerBoundary s \<le> uint b" "uint b \<le> ud_upperBoundary s"
  shows "\<exists>e' d'. tdContinue (uint b) (d, e) = (e', d') \<and> dec_sim d0 pre (utf8Continue (uint b) s) d' e'"
proof -
  obtain out cp seen needed lo hi where s: "s = ud_at out cp seen needed lo hi" by (cases s) auto
  note sim' = sim [unfolded dec_sim_def s]
  have seq: "sequence_state needed seen cp lo hi" using sim' by (simp add: utf8_inv_at)
  have nz: "needed \<noteq> 0" using n by (simp add: s)
  have bb: "lo \<le> uint b" "uint b \<le> hi" using b by (simp_all add: s)
  have r: "0 \<le> cp" "cp < 0x4400" "0x80 \<le> uint b" "uint b \<le> 0xbf"
    using seq nz bb by (auto simp: sequence_state_def split: if_splits)
  let ?c = "cp * 64 + (uint b - 0x80)"
  have "utf8Step b s = utf8Continue (uint b) s"
    using nz bb by (simp add: s utf8Step_def utf8Turn_def)
  then have inv: "utf8_inv (utf8Continue (uint b) s)" using utf8_inv_step [of s b] sim' s by simp
  note code = continuation_code [OF r] and at = utf8Continue_at [OF r, of out seen needed lo hi]
  show ?thesis
  proof (cases "seen + 1 = needed")
    case True
    have "scalar_value ?c" using seq bb True
      by (auto simp: sequence_state_def scalar_value_def split: if_splits)
    then have "em_rel (td_decoderIgnoreBOM d0) pre (out @ utf16_scalar ?c) (emit (td_decoderIgnoreBOM d0) ?c e)"
      using sim' by (intro em_rel_emit) simp_all
    then show ?thesis using True sim' inv at code
      by (simp add: s tdContinue_def dec_sim_def same_options_def resetSequence_def Let_def)
  next
    case False
    then show ?thesis using sim' inv at code
      by (simp add: s tdContinue_def dec_sim_def same_options_def Let_def)
  qed
qed

lemma tdTurn_sim:
  assumes sim: "dec_sim d0 pre s d e" and ok: "\<not> td_decoderFatal d0 \<or> utf8Accepts b s"
    and t: "utf8Turn (uint b) s = (s', advance)"
  shows "\<exists>e' d'. tdTurn i (uint b) (d, e) = (Inr (e', if advance then i + 1 else i), d') \<and> dec_sim d0 pre s' d' e'"
proof -
  have d: "td_needed d = ud_bytesNeeded s" "td_lower d = ud_lowerBoundary s" "td_upper d = ud_upperBoundary s"
    using sim by (simp_all add: dec_sim_def)
  consider (lead) "ud_bytesNeeded s = 0"
    | (reject) "ud_bytesNeeded s \<noteq> 0" "uint b < ud_lowerBoundary s \<or> uint b > ud_upperBoundary s"
    | (accept) "ud_bytesNeeded s \<noteq> 0" "ud_lowerBoundary s \<le> uint b" "uint b \<le> ud_upperBoundary s"
    by linarith
  then show ?thesis
  proof cases
    case lead
    then show ?thesis using dec_sim_lead [OF sim lead ok, of "i + 1"] t d
      by (auto simp: tdTurn_def utf8Turn_def)
  next
    case reject
    then have "\<not> utf8Accepts b s" by (auto simp: utf8Accepts_def)
    then have "\<not> td_decoderFatal d" using ok sim by (simp add: dec_sim_def same_options_def)
    then have "tdTurn i (uint b) (d, e) = (Inr (emit (td_decoderIgnoreBOM d0) 0xfffd e, i), resetSequence d)"
      using reject d sim by (auto simp: tdTurn_def replacement_lenient dec_sim_def same_options_def)
    moreover have "s' = ud_clean (ud_output s @ utf16_scalar 0xfffd)" "\<not> advance"
      using t reject by (auto simp: utf8Turn_def utf8Reject_clean)
    moreover have "dec_sim d0 pre (ud_clean (ud_output s @ utf16_scalar 0xfffd)) (resetSequence d)
        (emit (td_decoderIgnoreBOM d0) 0xfffd e)"
      using sim utf8_inv_emit [OF _ scalar_replacement, of s] em_rel_emit [OF _ scalar_replacement]
      by (auto simp: dec_sim_def resetSequence_def same_options_def)
    ultimately show ?thesis by simp
  next
    case accept
    then show ?thesis using dec_sim_continue [OF sim accept] t d
      by (auto simp: tdTurn_def utf8Turn_def)
  qed
qed

lemma tdTurn_fatal:
  assumes sim: "dec_sim d0 pre s d e" and f: "td_decoderFatal d0" and b: "\<not> utf8Accepts b s"
  shows "\<exists>d'. tdTurn i (uint b) (d, e) = (Inl TypeError, d')"
proof -
  have f': "td_decoderFatal d" using sim f by (simp add: dec_sim_def same_options_def)
  obtain d1 where d1: "replacement i d = (Inl TypeError, d1)" using replacement_fatal [OF f'] by blast
  obtain d2 where d2: "replacement (i + 1) d = (Inl TypeError, d2)" using replacement_fatal [OF f'] by blast
  have d: "td_needed d = ud_bytesNeeded s" "td_lower d = ud_lowerBoundary s" "td_upper d = ud_upperBoundary s"
    using sim by (simp_all add: dec_sim_def)
  show ?thesis
  proof (cases "ud_bytesNeeded s = 0")
    case True
    then have "\<not> uint b < 0x80" "\<not> (0xc2 \<le> uint b \<and> uint b < 0xf5)" using b by (auto simp: utf8Accepts_def)
    then have "tdLead (i + 1) (uint b) (d, e) = (Inl TypeError, d2)" using d2 by (auto simp: tdLead_def)
    then show ?thesis using True d by (simp add: tdTurn_def)
  next
    case False
    then have "uint b < ud_lowerBoundary s \<or> uint b > ud_upperBoundary s" using b by (auto simp: utf8Accepts_def)
    then show ?thesis using False d d1 by (auto simp: tdTurn_def)
  qed
qed

lemma utf8Step_Turn:
  assumes "utf8Turn (uint b) s = (s', advance)"
  shows "utf8Step b s = (if advance then s' else utf8Step b s')"
proof (cases advance)
  case False
  then have "ud_bytesNeeded s' = 0" using assms utf8Turn_stays(2) [of s' "uint b" s] by simp
  then show ?thesis using assms False by (simp add: utf8Step_def utf8Turn_start)
qed (use assms in \<open>simp add: utf8Step_def\<close>)

lemma utf8Loop_sim:
  assumes "dec_sim d0 pre s d e" "\<not> td_decoderFatal d0"
  shows "\<exists>e' d'. utf8Loop input i (d, e) = (Inr e', d') \<and> dec_sim d0 pre (fold utf8Step (drop i input) s) d' e'"
  using assms(1)
proof (induction input i "(d, e)" arbitrary: d e s rule: utf8Loop.induct)
  case (1 input i d e)
  show ?case
  proof (cases "i < length input")
    case False
    then show ?thesis using 1(2) by (simp add: utf8Loop.simps)
  next
    case True
    obtain s' advance where t: "utf8Turn (uint (input ! i)) s = (s', advance)"
      by (cases "utf8Turn (uint (input ! i)) s")
    let ?j = "if advance then i + 1 else i"
    obtain e' d' where td: "tdTurn i (uint (input ! i)) (d, e) = (Inr (e', ?j), d')" "dec_sim d0 pre s' d' e'"
      using tdTurn_sim [OF 1(2) disjI1 [OF assms(2)] t, of i] by blast
    have step: "utf8Step (input ! i) s = (if advance then s' else utf8Step (input ! i) s')"
      by (rule utf8Step_Turn [OF t])
    have "drop i input = input ! i # drop (Suc i) input" using True by (simp add: Cons_nth_drop_Suc)
    then have "fold utf8Step (drop i input) s = fold utf8Step (drop ?j input) s'"
      using step by auto
    moreover have "utf8Loop input i (d, e) = utf8Loop input ?j (d', e')"
      using True td(1) by (simp add: utf8Loop.simps [of input i])
    ultimately show ?thesis using 1(1) [OF True td(1) [symmetric] refl refl td(2)] by simp
  qed
qed

lemma utf8Loop_fatal:
  assumes "dec_sim d0 pre s d e" "td_decoderFatal d0"
  shows "case utf8Run (drop i input) s of
      None \<Rightarrow> \<exists>d'. utf8Loop input i (d, e) = (Inl TypeError, d')
    | Some s' \<Rightarrow> \<exists>e' d'. utf8Loop input i (d, e) = (Inr e', d') \<and> dec_sim d0 pre s' d' e'"
  using assms(1)
proof (induction "length input - i" arbitrary: i d e s)
  case 0
  then show ?case by (simp add: utf8Loop.simps)
next
  case (Suc n)
  then have i: "i < length input" by simp
  have dr: "drop i input = input ! i # drop (Suc i) input" using i by (simp add: Cons_nth_drop_Suc)
  show ?case
  proof (cases "utf8Accepts (input ! i) s")
    case False
    then show ?thesis using tdTurn_fatal [OF Suc(3) assms(2) False, of i] i dr
      by (auto simp: utf8Loop.simps [of input i])
  next
    case True
    have "\<exists>s'. utf8Turn (uint (input ! i)) s = (s', True)"
      using True by (auto simp: utf8Turn_def utf8Accepts_def split: if_splits)
    then obtain s' where t: "utf8Turn (uint (input ! i)) s = (s', True)" by blast
    obtain e' d' where td: "tdTurn i (uint (input ! i)) (d, e) = (Inr (e', i + 1), d')" "dec_sim d0 pre s' d' e'"
      using tdTurn_sim [OF Suc(3) disjI2 [OF True] t, of i] by auto
    have "utf8Run (drop i input) s = utf8Run (drop (i + 1) input) s'"
      using True dr utf8Step_Turn [OF t] by simp
    moreover have "utf8Loop input i (d, e) = utf8Loop input (i + 1) (d', e')"
      using i td(1) by (simp add: utf8Loop.simps [of input i])
    moreover have n: "n = length input - (i + 1)" using Suc(2) by simp
    ultimately show ?thesis using Suc(1) [OF n td(2)] by (simp split: option.splits)
  qed
qed

section \<open>Lemmas: calls of decode\<close>

text \<open>
  Between two calls: a decoder that is streaming has decoded \<open>s\<close> and shown \<open>pre\<close>; another one
  starts afresh, whatever an earlier call has left in it.
\<close>

definition td_ready :: "jsstring \<Rightarrow> utf8_decoder \<Rightarrow> text_decoder \<Rightarrow> bool" where
  "td_ready pre s d \<longleftrightarrow> td_decoderEncoding d = UTF_8 \<and>
     (if td_doNotFlush d
      then td_code d = ud_codePoint s \<and> td_seen d = ud_bytesSeen s \<and> td_needed d = ud_bytesNeeded s \<and>
        td_lower d = ud_lowerBoundary s \<and> td_upper d = ud_upperBoundary s \<and> utf8_inv s \<and>
        td_bomSeen d = (ud_output s \<noteq> []) \<and> drop (td_inputPosition d) (td_inputQueue d) = [] \<and>
        pre = rendered (td_decoderIgnoreBOM d) (ud_output s)
      else s = newUtf8Decoder \<and> pre = [])"

definition start_decoder :: "bytes \<Rightarrow> bool \<Rightarrow> text_decoder \<Rightarrow> text_decoder" where
  "start_decoder input stream d =
     (let d1 = (if \<not> td_doNotFlush d then (clearInput (resetSequence d))\<lparr>td_bomSeen := False\<rparr> else d)
      in d1\<lparr>td_doNotFlush := stream, td_inputQueue := drop (td_inputPosition d1) (td_inputQueue d1) @ input,
            td_inputPosition := 0\<rparr>)"

definition finish_call :: "emitter result \<times> text_decoder \<Rightarrow> jsstring result \<times> text_decoder" where
  "finish_call r =
     (case r of
        (Inl err, d) \<Rightarrow> (Inl err, d)
      | (Inr e, d) \<Rightarrow> (Inr (emitted e), (clearInput d)\<lparr>td_bomSeen := em_bomSeen e\<rparr>))"

lemma td_decode_eq:
  assumes r: "td_ready pre s d"
  shows "td_decode input stream d =
      finish_call (decodeUTF8Bytes input stream
        (start_decoder input stream d,
         \<lparr>em_bomSeen = td_bomSeen (start_decoder input stream d), em_pieces = [], em_ascii = []\<rparr>))"
    and "dec_sim (start_decoder input stream d) pre s (start_decoder input stream d)
        \<lparr>em_bomSeen = td_bomSeen (start_decoder input stream d), em_pieces = [], em_ascii = []\<rparr>"
    and "td_doNotFlush (start_decoder input stream d) = stream"
    and "td_decoderFatal (start_decoder input stream d) = td_decoderFatal d"
    and "td_decoderIgnoreBOM (start_decoder input stream d) = td_decoderIgnoreBOM d"
    and "td_decoderEncoding (start_decoder input stream d) = UTF_8"
proof -
  have new: "utf8_inv newUtf8Decoder" by (rule utf8_inv_new)
  show "td_decoderEncoding (start_decoder input stream d) = UTF_8"
    "td_doNotFlush (start_decoder input stream d) = stream"
    "td_decoderFatal (start_decoder input stream d) = td_decoderFatal d"
    "td_decoderIgnoreBOM (start_decoder input stream d) = td_decoderIgnoreBOM d"
    using r by (simp_all add: td_ready_def start_decoder_def Let_def clearInput_def resetSequence_def)
  show "dec_sim (start_decoder input stream d) pre s (start_decoder input stream d)
      \<lparr>em_bomSeen = td_bomSeen (start_decoder input stream d), em_pieces = [], em_ascii = []\<rparr>"
    using r new by (auto simp: td_ready_def start_decoder_def Let_def clearInput_def resetSequence_def dec_sim_def
        same_options_def em_rel_def emitted_def newUtf8Decoder_def rendered_def)
  have "drop (td_inputPosition d) (td_inputQueue d) = []" if "td_doNotFlush d"
    using r that by (simp add: td_ready_def)
  then have q: "appendInput input ((if \<not> td_doNotFlush d then (clearInput (resetSequence d))\<lparr>td_bomSeen := False\<rparr> else d)
      \<lparr>td_doNotFlush := stream\<rparr>) = (input, start_decoder input stream d)"
    by (auto simp: appendInput_def start_decoder_def Let_def clearInput_def)
  have "td_decoderEncoding (start_decoder input stream d) = UTF_8"
    using r by (simp add: td_ready_def start_decoder_def Let_def clearInput_def resetSequence_def)
  then show "td_decode input stream d =
      finish_call (decodeUTF8Bytes input stream
        (start_decoder input stream d,
         \<lparr>em_bomSeen = td_bomSeen (start_decoder input stream d), em_pieces = [], em_ascii = []\<rparr>))"
    unfolding td_decode_def Let_def q prod.case finish_call_def by simp
qed

definition utf8_finish :: "utf8_decoder \<Rightarrow> jsstring" where
  "utf8_finish s = (if ud_bytesNeeded s \<noteq> 0 then ud_output s @ [0xfffd] else ud_output s)"

lemma td_decode_stream:
  assumes "td_ready pre s d" "\<not> td_decoderFatal d"
  shows "\<exists>out d'. td_decode input True d = (Inr out, d') \<and> td_ready (pre @ out) (fold utf8Step input s) d' \<and>
    \<not> td_decoderFatal d' \<and> td_decoderIgnoreBOM d' = td_decoderIgnoreBOM d"
proof -
  let ?d = "start_decoder input True d"
  let ?e = "\<lparr>em_bomSeen = td_bomSeen ?d, em_pieces = [], em_ascii = []\<rparr>"
  note eq = td_decode_eq [OF assms(1), of input True]
  obtain e' d' where l: "utf8Loop input 0 (?d, ?e) = (Inr e', d')" "dec_sim ?d pre (fold utf8Step input s) d' e'"
    using utf8Loop_sim [OF eq(2), of input 0] eq(4) assms(2) by auto
  have "td_decode input True d = (Inr (emitted e'), (clearInput d')\<lparr>td_bomSeen := em_bomSeen e'\<rparr>)"
    by (simp add: eq(1) decodeUTF8Bytes_def finish_call_def l)
  then show ?thesis using l(2) eq(3-6) assms(2)
    by (simp add: dec_sim_def td_ready_def same_options_def clearInput_def em_rel_def)
qed

lemma td_decode_final:
  assumes "td_ready pre s d" "\<not> td_decoderFatal d"
  shows "\<exists>out d'. td_decode input False d = (Inr out, d') \<and>
    pre @ out = rendered (td_decoderIgnoreBOM d) (utf8_finish (fold utf8Step input s)) \<and> \<not> td_doNotFlush d'"
proof -
  let ?d = "start_decoder input False d"
  let ?e = "\<lparr>em_bomSeen = td_bomSeen ?d, em_pieces = [], em_ascii = []\<rparr>" and ?s = "fold utf8Step input s"
  note eq = td_decode_eq [OF assms(1), of input False]
  obtain e' d' where l: "utf8Loop input 0 (?d, ?e) = (Inr e', d')" "dec_sim ?d pre ?s d' e'"
    using utf8Loop_sim [OF eq(2), of input 0] eq(4) assms(2) by auto
  have n: "td_needed d' = ud_bytesNeeded ?s" "\<not> td_decoderFatal d'" "\<not> td_doNotFlush d'"
    "td_decoderIgnoreBOM d' = td_decoderIgnoreBOM d"
    using l(2) eq(3-5) assms(2) by (simp_all add: dec_sim_def same_options_def)
  have rel: "em_rel (td_decoderIgnoreBOM d) pre (ud_output ?s) e'" using l(2) eq(5) by (simp add: dec_sim_def)
  have fffd: "utf16_scalar 0xfffd = [0xfffd]" by (simp add: utf16_scalar_def fromCharCode_def)
  show ?thesis
  proof (cases "ud_bytesNeeded ?s = 0")
    case True
    then have "td_decode input False d = (Inr (emitted e'), (clearInput (resetSequence d'))\<lparr>td_bomSeen := False\<rparr>)"
      using n by (simp add: eq(1) decodeUTF8Bytes_def finish_call_def l emitted_def)
    then show ?thesis using rel True n
      by (simp add: em_rel_def utf8_finish_def clearInput_def resetSequence_def)
  next
    case False
    let ?e' = "emit (td_decoderIgnoreBOM d) 0xfffd e'"
    have "td_decode input False d =
        (Inr (emitted ?e'), (clearInput (resetSequence (resetSequence d')))\<lparr>td_bomSeen := False\<rparr>)"
      using n False by (simp add: eq(1) decodeUTF8Bytes_def finish_call_def l emitted_def replacement_lenient)
    then show ?thesis using em_rel_emit [OF rel scalar_replacement] False n fffd
      by (simp add: em_rel_def utf8_finish_def clearInput_def resetSequence_def)
  qed
qed

lemma td_decode_strict:
  assumes "td_ready [] newUtf8Decoder d" "td_decoderFatal d" "\<not> td_doNotFlush d"
  shows "fst (td_decode input False d) =
    (case utf8Run input newUtf8Decoder of
       None \<Rightarrow> Inl TypeError
     | Some s \<Rightarrow> if ud_bytesNeeded s = 0 then Inr (rendered (td_decoderIgnoreBOM d) (ud_output s)) else Inl TypeError)"
proof -
  let ?d = "start_decoder input False d"
  let ?e = "\<lparr>em_bomSeen = td_bomSeen ?d, em_pieces = [], em_ascii = []\<rparr>"
  note eq = td_decode_eq [OF assms(1), of input False]
  note loop = utf8Loop_fatal [OF eq(2), where i = 0 and input = input, unfolded drop_0]
  show ?thesis
  proof (cases "utf8Run input newUtf8Decoder")
    case None
    then show ?thesis using loop eq(4) assms(2) by (auto simp: eq(1) decodeUTF8Bytes_def finish_call_def)
  next
    case (Some s)
    then obtain e' d' where l: "utf8Loop input 0 (?d, ?e) = (Inr e', d')" "dec_sim ?d [] s d' e'"
      using loop eq(4) assms(2) by auto
    have n: "td_needed d' = ud_bytesNeeded s" "td_decoderFatal d'"
      using l(2) eq(4) assms(2) by (simp_all add: dec_sim_def same_options_def)
    have "emitted e' = rendered (td_decoderIgnoreBOM d) (ud_output s)"
      using l(2) eq(5) by (simp add: dec_sim_def em_rel_def)
    moreover obtain d2 where "replacement (length input) d' = (Inl TypeError, d2)"
      using replacement_fatal [OF n(2)] by blast
    ultimately show ?thesis using n Some by (simp add: eq(1) decodeUTF8Bytes_def finish_call_def l emitted_def)
  qed
qed

section \<open>Lemmas: the strict decoder\<close>

lemma te_encode_eq: "te_encode s = utf8_scalars (scalars s)"
  by (simp add: te_encode_def Let_def utf8Write_all scalar_string_def scalars_utf16 scalars_valid)

lemma bom_scalars: "scalars (0xfeff # r) = 0xfeff # scalars r"
  by (cases r) (simp_all add: high_surrogate_def low_surrogate_def unit_scalar_def)

lemma bom_bytes: "utf8_scalar 0xfeff = [0xef, 0xbb, 0xbf]" "utf16_scalar 0xfeff = [0xfeff]"
  "utf8_scalars (0xfeff # cs) = [0xef, 0xbb, 0xbf] @ utf8_scalars cs" "utf16_scalars (0xfeff # cs) = 0xfeff # utf16_scalars cs"
proof -
  show c: "utf8_scalar 0xfeff = [0xef, 0xbb, 0xbf]" "utf16_scalar 0xfeff = [0xfeff]" by code_simp+
  then show "utf8_scalars (0xfeff # cs) = [0xef, 0xbb, 0xbf] @ utf8_scalars cs" "utf16_scalars (0xfeff # cs) = 0xfeff # utf16_scalars cs"
    by (simp_all add: utf8_scalars_def utf16_scalars_def)
qed

text \<open>Decoding as the inverse of \<^verbatim>\<open>encode\<close>, up to a leading byte-order mark.\<close>

lemma rendered_encode:
  "(\<exists>cs. list_all scalar_value cs \<and> bs = utf8_scalars cs \<and> str = rendered ignoreBOM (utf16_scalars cs)) \<longleftrightarrow>
   scalar_string str = str \<and> (bs = te_encode str \<and> (ignoreBOM \<or> take 1 str \<noteq> [0xfeff]) \<or>
     \<not> ignoreBOM \<and> bs = [0xef, 0xbb, 0xbf] @ te_encode str)" (is "?l \<longleftrightarrow> ?r")
proof
  assume ?l
  then obtain cs where cs: "list_all scalar_value cs" "bs = utf8_scalars cs" "str = rendered ignoreBOM (utf16_scalars cs)" by blast
  have u: "scalars (utf16_scalars cs) = cs" using scalars_utf16 [OF cs(1)] .
  show ?r
  proof (cases "\<not> ignoreBOM \<and> (\<exists>r. utf16_scalars cs = 0xfeff # r)")
    case True
    then obtain r where r: "utf16_scalars cs = 0xfeff # r" "\<not> ignoreBOM" by blast
    then have c: "cs = 0xfeff # scalars r" using u by (simp add: bom_scalars)
    then have "str = utf16_scalars (scalars r)" "r = utf16_scalars (scalars r)" using r cs(3) by (simp_all add: rendered_def bom_bytes)
    then have "str = r" "scalar_string r = r" by (simp_all add: scalar_string_def)
    then show ?thesis using c cs(2) r(2) by (simp add: te_encode_eq bom_bytes)
  next
    case False
    then have s: "str = utf16_scalars cs" "ignoreBOM \<or> take 1 str \<noteq> [0xfeff]"
      using cs(3) by (cases "utf16_scalars cs"; auto simp: rendered_def)+
    then show ?thesis using cs(2) u by (simp add: te_encode_eq scalar_string_def)
  qed
next
  assume r: ?r
  then have u: "utf16_scalars (scalars str) = str" by (simp add: scalar_string_def)
  show ?l
  proof (cases "bs = te_encode str \<and> (ignoreBOM \<or> take 1 str \<noteq> [0xfeff])")
    case True
    then have "str = rendered ignoreBOM str" by (cases str) (auto simp: rendered_def)
    then show ?thesis using True u by (intro exI [of _ "scalars str"]) (simp add: te_encode_eq scalars_valid)
  next
    case False
    then have "\<not> ignoreBOM" "bs = utf8_scalars (0xfeff # scalars str)" using r by (auto simp: te_encode_eq bom_bytes)
    then show ?thesis using u
      by (intro exI [of _ "0xfeff # scalars str"]) (simp add: scalars_valid rendered_def bom_bytes scalar_value_def)
  qed
qed

lemma decodeUTF8_strict:
  "(decodeUTF8 bs True ignoreBOM = Inr str \<longleftrightarrow>
     (\<exists>cs. list_all scalar_value cs \<and> bs = utf8_scalars cs \<and> str = rendered ignoreBOM (utf16_scalars cs))) \<and>
   (is_ok (decodeUTF8 bs True ignoreBOM) \<or> decodeUTF8 bs True ignoreBOM = Inl TypeError)"
proof -
  have label: "utf16Label (trimASCIIWhitespace (js_string ''utf-8'')) = None"
    "utf8Label (trimASCIIWhitespace (js_string ''utf-8''))" by code_simp+
  then obtain d where d: "newTextDecoder (\<lambda>s. s) (js_string ''utf-8'') True ignoreBOM = Inr d"
    by (simp add: newTextDecoder_def)
  then have ready: "td_ready [] newUtf8Decoder d" "td_decoderFatal d" "\<not> td_doNotFlush d"
    "td_decoderIgnoreBOM d = ignoreBOM"
    using label by (auto simp: newTextDecoder_def td_ready_def)
  have dec: "decodeUTF8 bs True ignoreBOM =
    (case utf8Run bs newUtf8Decoder of
       None \<Rightarrow> Inl TypeError
     | Some s \<Rightarrow> if ud_bytesNeeded s = 0 then Inr (rendered ignoreBOM (ud_output s)) else Inl TypeError)"
    using td_decode_strict [OF ready(1-3), of bs] unfolding ready(4) by (simp add: decodeUTF8_def d)
  have new: "newUtf8Decoder = ud_clean []" by (simp add: newUtf8Decoder_def)
  have "decodeUTF8 bs True ignoreBOM = Inr (rendered ignoreBOM (utf16_scalars cs))"
    if "list_all scalar_value cs" "bs = utf8_scalars cs" for cs
    using dec utf8Run_scalars [OF that(1), of "[]"] that(2) by (simp add: new)
  moreover have "\<exists>cs. list_all scalar_value cs \<and> bs = utf8_scalars cs \<and> str = rendered ignoreBOM (utf16_scalars cs)"
    if ok: "decodeUTF8 bs True ignoreBOM = Inr str"
  proof -
    from ok dec obtain s where s: "utf8Run bs newUtf8Decoder = Some s" "ud_bytesNeeded s = 0"
      "str = rendered ignoreBOM (ud_output s)" by (auto split: option.splits if_splits)
    from utf8Run_complete [OF s(1,2)] s(3) show ?thesis by auto
  qed
  moreover have "is_ok (decodeUTF8 bs True ignoreBOM) \<or> decodeUTF8 bs True ignoreBOM = Inl TypeError"
    unfolding dec by (simp split: option.splits)
  ultimately show ?thesis by blast
qed

section \<open>Properties\<close>

text \<open>A whole stream: every chunk but the last is decoded with the option \<^verbatim>\<open>stream\<close>.\<close>

fun decodeStream :: "bytes list \<Rightarrow> text_decoder \<Rightarrow> jsstring result \<times> text_decoder" where
  "decodeStream [] d = td_decode [] False d"
| "decodeStream [chunk] d = td_decode chunk False d"
| "decodeStream (chunk # chunks) d =
     (case td_decode chunk True d of
        (Inl err, d') \<Rightarrow> (Inl err, d')
      | (Inr out, d') \<Rightarrow>
          (let (r, d'') = decodeStream chunks d' in (res_bind r (\<lambda>rest. Inr (out @ rest)), d'')))"

lemma decodeStream_ready:
  assumes "td_ready pre s d" "\<not> td_decoderFatal d"
  shows "\<exists>out d'. decodeStream chunks d = (Inr out, d') \<and>
    pre @ out = rendered (td_decoderIgnoreBOM d) (utf8_finish (fold utf8Step (concat chunks) s)) \<and>
    \<not> td_doNotFlush d'"
  using assms
proof (induction chunks d arbitrary: pre s rule: decodeStream.induct)
  case (1 d)
  then show ?case using td_decode_final [of pre s d "[]"] by simp
next
  case (2 chunk d)
  then show ?case using td_decode_final [of pre s d chunk] by simp
next
  case (3 chunk c chunks d)
  obtain out d' where a: "td_decode chunk True d = (Inr out, d')" "td_ready (pre @ out) (fold utf8Step chunk s) d'"
    "\<not> td_decoderFatal d'" "td_decoderIgnoreBOM d' = td_decoderIgnoreBOM d"
    using td_decode_stream [OF 3(2,3), of chunk] by blast
  obtain out' d'' where "decodeStream (c # chunks) d' = (Inr out', d'')" "\<not> td_doNotFlush d''"
    "(pre @ out) @ out' = rendered (td_decoderIgnoreBOM d)
       (utf8_finish (fold utf8Step (concat (c # chunks)) (fold utf8Step chunk s)))"
    using 3(1) [OF a(1) [symmetric] refl a(2,3)] a(4) by auto
  then show ?case using a(1) by simp
qed

lemma utf8Decode_finish:
  "utf8Decode bs 0 (length bs) = utf8_finish (fold utf8Step bs newUtf8Decoder)"
  by (simp add: utf8Decode_def utf8_finish_def utf8DecodeLoop_fold Let_def)

text \<open>
  C21: A lenient UTF-8 \<^verbatim>\<open>TextDecoder\<close> decodes a stream cut into chunks anywhere, also within a code
  point, to what \<^verbatim>\<open>utf8Decode\<close> makes of the whole, less a leading byte-order mark unless it is
  told to keep it: the two decoders of the library differ in nothing else. Afterwards the
  decoder is ready for the next stream, whatever state it had before.
\<close>

theorem text_decoder_stream:
  assumes "td_decoderEncoding d = UTF_8" and "\<not> td_decoderFatal d" and "\<not> td_doNotFlush d"
  shows "\<exists>d'. decodeStream chunks d =
      (Inr (rendered (td_decoderIgnoreBOM d) (utf8Decode (concat chunks) 0 (length (concat chunks)))), d') \<and>
    \<not> td_doNotFlush d'"
proof -
  have "td_ready [] newUtf8Decoder d" using assms by (simp add: td_ready_def)
  from decodeStream_ready [OF this assms(2), of chunks] show ?thesis
    by (auto simp: utf8Decode_finish)
qed

definition sample_decoder :: "bool \<Rightarrow> bool \<Rightarrow> text_decoder" where
  "sample_decoder fatal ignoreBOM =
     (case newTextDecoder (\<lambda>s. s) (js_string ''utf-8'') fatal ignoreBOM of Inr d \<Rightarrow> d)"

theorem text_decoder_stream_witness:
  "fst (decodeStream [[0xef, 0xbb], [0xbf, 0xe2], [0x82, 0xac, 0xff]] (sample_decoder False False)) =
     Inr [0x20ac, 0xfffd]"
proof -
  have d: "td_decoderEncoding (sample_decoder False False) = UTF_8" "\<not> td_decoderFatal (sample_decoder False False)"
    "\<not> td_doNotFlush (sample_decoder False False)" "\<not> td_decoderIgnoreBOM (sample_decoder False False)"
    by code_simp+
  have "rendered False (utf8Decode [0xef, 0xbb, 0xbf, 0xe2, 0x82, 0xac, 0xff] 0 7) = [0x20ac, 0xfffd]"
    by code_simp
  then show ?thesis
    using text_decoder_stream [OF d(1-3), of "[[0xef, 0xbb], [0xbf, 0xe2], [0x82, 0xac, 0xff]]"] d(4)
    by (auto simp: numeral_eq_Suc)
qed

text \<open>
  C22: The strict decoder accepts a byte sequence exactly when it is the UTF-8 encoding of scalar
  values; every other sequence is a \<^verbatim>\<open>TypeError\<close>. It is the inverse of \<^verbatim>\<open>encode\<close> up to a byte-order
  mark: its result is a well-formed string whose encoding is the input, or, when it is not told to
  keep a leading byte-order mark, the input without that mark.
\<close>

theorem strict_utf8_canonical:
  "(decodeUTF8 bs True ignoreBOM = Inr str \<longleftrightarrow>
     (\<exists>cs. list_all scalar_value cs \<and> bs = utf8_scalars cs \<and> str = rendered ignoreBOM (utf16_scalars cs))) \<and>
   (decodeUTF8 bs True ignoreBOM = Inr str \<longleftrightarrow>
     scalar_string str = str \<and> (bs = te_encode str \<and> (ignoreBOM \<or> take 1 str \<noteq> [0xfeff]) \<or>
       \<not> ignoreBOM \<and> bs = [0xef, 0xbb, 0xbf] @ te_encode str)) \<and>
   (is_ok (decodeUTF8 bs True ignoreBOM) \<or> decodeUTF8 bs True ignoreBOM = Inl TypeError)"
  using decodeUTF8_strict [of bs ignoreBOM str] unfolding rendered_encode by blast

theorem strict_utf8_canonical_witness:
  "decodeUTF8 [0xef, 0xbb, 0xbf, 0x41] True False = Inr [0x41] \<and> decodeUTF8 [0xc0, 0x80] True False = Inl TypeError"
proof -
  have "scalar_string [0x41] = [0x41]" "te_encode [0x41] = [0x41]" by code_simp+
  then have "decodeUTF8 [0xef, 0xbb, 0xbf, 0x41] True False = Inr [0x41]"
    using strict_utf8_canonical [of "[0xef, 0xbb, 0xbf, 0x41]" False "[0x41]"] by simp
  moreover have "\<not> is_ok (decodeUTF8 [0xc0, 0x80] True False)" by code_simp
  ultimately show ?thesis using strict_utf8_canonical [of "[0xc0, 0x80]" False] by simp
qed

end
