(* ===== verification/WebSocket_Codec.thy ===== *)
theory WebSocket_Codec
  imports Http1_Io Text_Decoder
begin

text \<open>
  WebSocket frames and close payloads, \<^verbatim>\<open>runtime/web-platform/src/websocket/codec.ts\<close>. Frames
  are read from the buffered reader of \<^verbatim>\<open>http1/io.ts\<close>; the source of random mask keys (an
  interface of the embedding host) is the parameter \<open>key\<close>, the four bytes it fills in.
\<close>

section \<open>Frames\<close>

record ws_frame =
  wf_fin :: bool
  wf_opcode :: int
  wf_payload :: bytes
  wf_compressed :: bool

definition ws_opcode :: "int \<Rightarrow> int result" where
  "ws_opcode v = (if v \<in> set [0, 1, 2, 8, 9, 10] then Inr v else Inl ProtocolError)"

text \<open>\<^verbatim>\<open>bytes[index] ?? 0\<close>\<close>

definition byteAt :: "bytes \<Rightarrow> int \<Rightarrow> int" where
  "byteAt bs i = js_or_else (map_option uint (js_at bs i)) 0"

definition maskPayload :: "bytes \<Rightarrow> bytes \<Rightarrow> bytes" where
  "maskPayload payload key =
     map (\<lambda>i. to_uint8 (js_xor (byteAt payload (int i)) (byteAt key (js_and (int i) 3)))) [0..<length payload]"

definition lengthBytes :: "bytes \<Rightarrow> int result" where
  "lengthBytes bs =
     res_fold (\<lambda>b len. let len' = len * 256 + uint b
                       in if \<not> js_isSafeInteger len' then Inl LimitError else Inr len') bs 0"

text \<open>The length field: the seven bits \<open>b\<close> of the second byte, and what follows them.\<close>

definition readLength :: "'c read_fn \<Rightarrow> int \<Rightarrow> 'c buffered_reader \<Rightarrow> int result \<times> 'c buffered_reader" where
  "readLength rd b r =
     (if b = 126 then
        (case exact rd 2 r of
           (Inl e, r') \<Rightarrow> (Inl e, r')
         | (Inr bs, r') \<Rightarrow>
             (let len = byteAt bs 0 * 256 + byteAt bs 1
              in (if len < 126 then Inl ProtocolError else Inr len, r')))
      else if b = 127 then
        (case exact rd 8 r of
           (Inl e, r') \<Rightarrow> (Inl e, r')
         | (Inr bs, r') \<Rightarrow>
             (if js_and (byteAt bs 0) 128 \<noteq> 0 then (Inl ProtocolError, r')
              else (res_bind (lengthBytes bs) (\<lambda>len. if len < 65536 then Inl ProtocolError else Inr len), r')))
      else (Inr b, r))"

text \<open>The checks of the two bytes every frame starts with: final, opcode, compressed, length bits.\<close>

definition frameStart :: "bytes \<Rightarrow> bool \<Rightarrow> bool \<Rightarrow> (bool \<times> int \<times> bool \<times> int) result" where
  "frameStart base expectMasked allowCompressed =
     (let a = byteAt base 0; b = byteAt base 1; fin = (js_and a 128 \<noteq> 0)
      in res_bind (ws_opcode (js_and a 15)) (\<lambda>code.
         let compressed = (js_and a 64 \<noteq> 0)
         in if js_and a 0x30 \<noteq> 0 then Inl ProtocolError
            else if compressed \<and> (\<not> allowCompressed \<or> code = 0 \<or> code \<ge> 8) then Inl ProtocolError
            else if (js_and b 128 \<noteq> 0) \<noteq> expectMasked then Inl ProtocolError
            else let len = js_and b 127
                 in if code \<ge> 8 \<and> (\<not> fin \<or> len > 125) then Inl ProtocolError
                    else Inr (fin, code, compressed, len)))"

definition readBody ::
    "'c read_fn \<Rightarrow> int \<Rightarrow> bool \<Rightarrow> 'c buffered_reader \<Rightarrow> bytes result \<times> 'c buffered_reader" where
  "readBody rd len expectMasked r =
     (case (if expectMasked then (case exact rd 4 r of
                                    (Inl e, r') \<Rightarrow> (Inl e, r')
                                  | (Inr m, r') \<Rightarrow> (Inr (Some m), r'))
            else (Inr None, r)) of
        (Inl e, r1) \<Rightarrow> (Inl e, r1)
      | (Inr key, r1) \<Rightarrow>
          (case exact rd len r1 of
             (Inl e, r2) \<Rightarrow> (Inl e, r2)
           | (Inr payload, r2) \<Rightarrow>
               (Inr (case key of None \<Rightarrow> payload | Some m \<Rightarrow> maskPayload payload m), r2)))"

definition readFrame ::
    "'c read_fn \<Rightarrow> bool \<Rightarrow> int \<Rightarrow> bool \<Rightarrow> 'c buffered_reader \<Rightarrow> ws_frame result \<times> 'c buffered_reader" where
  "readFrame rd expectMasked maxFrameBytes allowCompressed r =
     (case exact rd 2 r of
        (Inl e, r1) \<Rightarrow> (Inl e, r1)
      | (Inr base, r1) \<Rightarrow>
          (case frameStart base expectMasked allowCompressed of
             Inl e \<Rightarrow> (Inl e, r1)
           | Inr (fin, code, compressed, b) \<Rightarrow>
               (case readLength rd b r1 of
                  (Inl e, r2) \<Rightarrow> (Inl e, r2)
                | (Inr len, r2) \<Rightarrow>
                    (if len > maxFrameBytes then (Inl LimitError, r2)
                     else (case readBody rd len expectMasked r2 of
                             (Inl e, r3) \<Rightarrow> (Inl e, r3)
                           | (Inr payload, r3) \<Rightarrow>
                               (Inr \<lparr>wf_fin = fin, wf_opcode = code, wf_payload = payload,
                                     wf_compressed = compressed\<rparr>, r3))))))"

text \<open>The loop that writes the 64-bit length, from index 9 down to 2.\<close>

fun writeLength :: "nat \<Rightarrow> int \<Rightarrow> bytes \<Rightarrow> bytes" where
  "writeLength 0 remaining header = header"
| "writeLength (Suc k) remaining header =
     writeLength k (remaining div 256) (header[k + 2 := to_uint8 (remaining mod 256)])"

definition encodeFrame :: "ws_frame \<Rightarrow> bytes \<Rightarrow> bool \<Rightarrow> bytes list result" where
  "encodeFrame frame key masked =
     (let size' = int (length (wf_payload frame))
      in if wf_opcode frame \<ge> 8 \<and> (\<not> wf_fin frame \<or> size' > 125) then Inl ProtocolError
         else
           (let extended = (if size' < 126 then 0 else if size' < 65536 then 2 else 8 :: nat);
                header = replicate (2 + extended + (if masked then 4 else 0)) 0
            in if wf_compressed frame \<and> (wf_opcode frame = 0 \<or> wf_opcode frame \<ge> 8) then Inl ProtocolError
               else
                 (let h1 = header[0 := to_uint8 (js_or (js_or (if wf_fin frame then 128 else 0)
                                                       (if wf_compressed frame then 64 else 0)) (wf_opcode frame))];
                      h2 = h1[1 := to_uint8 (js_or (if masked then 128 else 0)
                                 (if size' < 126 then size' else if size' < 65536 then 126 else 127))];
                      h3 = (if extended = 2
                            then h2[2 := to_uint8 (js_ushr size' 8), 3 := to_uint8 (js_and size' 255)]
                            else if extended = 8 then writeLength 8 size' h2 else h2)
                  in Inr (if masked
                          then [take (2 + extended) h3 @ key, maskPayload (wf_payload frame) key]
                          else [h3, wf_payload frame]))))"

section \<open>Close payloads\<close>

definition isValidWireCloseCode :: "int \<Rightarrow> bool" where
  "isValidWireCloseCode code \<longleftrightarrow>
     (if code \<ge> 3000 \<and> code \<le> 4999 then True
      else code \<in> set [1000, 1001, 1002, 1003, 1007, 1008, 1009, 1010, 1011, 1012, 1013, 1014])"

definition closePayload :: "int option \<Rightarrow> jsstring \<Rightarrow> bytes result" where
  "closePayload code reason =
     (case code of
        None \<Rightarrow> if reason \<noteq> [] then Inl ProtocolError else Inr []
      | Some c \<Rightarrow>
          if \<not> isValidWireCloseCode c then Inl ProtocolError
          else
            (let encoded = te_encode reason
             in if length encoded > 123 then Inl LimitError
                else let payload = replicate (2 + length encoded) 0
                     in typed_set (payload[0 := to_uint8 (js_ushr c 8), 1 := to_uint8 (js_and c 255)]) encoded 2))"

definition parseClose :: "bytes \<Rightarrow> (int \<times> jsstring) result" where
  "parseClose payload =
     (if length payload = 0 then Inr (1005, [])
      else if length payload = 1 then Inl ProtocolError
      else
        (let code = byteAt payload 0 * 256 + byteAt payload 1
         in if \<not> isValidWireCloseCode code then Inl ProtocolError
            else res_bind (decodeUTF8 (drop 2 payload) True True) (\<lambda>reason. Inr (code, reason))))"

section \<open>Lemmas: masks and lengths\<close>

lemma byteAt_nth: "i < length bs \<Longrightarrow> byteAt bs (int i) = uint (bs ! i)"
  by (simp add: byteAt_def)

lemma byteAt_0 [simp]: "byteAt (b # bs) 0 = uint b"
  using byteAt_nth [of 0 "b # bs"] by simp

lemma byteAt_1 [simp]: "byteAt (a # b # bs) 1 = uint b"
  using byteAt_nth [of 1 "a # b # bs"] by simp

lemma maskPayload_eq:
  assumes "length key = 4"
  shows "maskPayload p key = map (\<lambda>i. p ! i XOR key ! (i mod 4)) [0..<length p]"
proof -
  have x: "to_uint8 (js_xor (uint a) (uint b)) = a XOR b" for a b :: byte
  proof -
    have "js_xor (uint a) (uint b) = uint (a XOR b)"
      by (subst js_xor_small) (auto simp: uint_byte_less uint_xor)
    then show ?thesis by simp
  qed
  have "js_and (int i) 3 = int (i mod 4)" for i
    using js_and_mask_any [of 2 "int i"] by (simp add: zmod_int)
  then show ?thesis using assms by (simp add: maskPayload_def byteAt_nth x)
qed

lemma maskPayload_twice: "length key = 4 \<Longrightarrow> maskPayload (maskPayload p key) key = p"
  by (rule nth_equalityI) (simp_all add: maskPayload_eq xor.assoc)

lemma length_maskPayload [simp]: "length (maskPayload p key) = length p"
  by (simp add: maskPayload_def)

fun be_bytes :: "nat \<Rightarrow> int \<Rightarrow> bytes" where
  "be_bytes 0 n = []"
| "be_bytes (Suc k) n = be_bytes k (n div 256) @ [to_uint8 (n mod 256)]"

lemma length_be_bytes [simp]: "length (be_bytes k n) = k"
  by (induction k arbitrary: n) auto

lemma writeLength_eq:
  "k + 2 \<le> length h \<Longrightarrow> writeLength k n h = take 2 h @ be_bytes k n @ drop (k + 2) h"
proof (induction k arbitrary: n h)
  case (Suc k)
  let ?h = "h[k + 2 := to_uint8 (n mod 256)]"
  have "drop (k + 2) ?h = to_uint8 (n mod 256) # drop (Suc k + 2) h"
    using Suc.prems by (simp add: Cons_nth_drop_Suc [symmetric])
  then show ?case using Suc.IH [of ?h "n div 256"] Suc.prems by simp
qed (simp add: numeral_2_eq_2 [symmetric])

lemma be_bytes_Cons: "be_bytes (Suc k) n = to_uint8 (n div 256 ^ k) # be_bytes k n"
proof (induction k arbitrary: n)
  case (Suc k)
  have "n div 256 div 256 ^ k = n div 256 ^ Suc k" by (simp add: zdiv_zmult2_eq)
  then show ?case using Suc.IH [of "n div 256"] by simp
qed simp

lemma lengthBytes_be:
  "0 \<le> n \<Longrightarrow> n < 256 ^ k \<Longrightarrow> n \<le> MAX_SAFE_INTEGER \<Longrightarrow> lengthBytes (be_bytes k n) = Inr n"
proof (induction k arbitrary: n)
  case 0
  then show ?case by (simp add: lengthBytes_def)
next
  case (Suc k)
  have "n div 256 \<le> MAX_SAFE_INTEGER" using Suc.prems by (simp add: MAX_SAFE_INTEGER_def)
  moreover have "n div 256 < 256 ^ k" "0 \<le> n div 256" using Suc.prems by (simp_all add: pos_imp_zdiv_nonneg_iff div_less)
  ultimately have "lengthBytes (be_bytes k (n div 256)) = Inr (n div 256)" using Suc.IH by blast
  then show ?case using Suc.prems
    by (simp add: lengthBytes_def res_fold_append js_isSafeInteger_def MAX_SAFE_INTEGER_def uint_to_uint8 Let_def)
qed

section \<open>Lemmas: the frame header\<close>

definition frame_first :: "ws_frame \<Rightarrow> byte" where
  "frame_first f = to_uint8 (js_or (js_or (if wf_fin f then 128 else 0) (if wf_compressed f then 64 else 0)) (wf_opcode f))"

definition length_bits :: "int \<Rightarrow> int" where
  "length_bits n = (if n < 126 then n else if n < 65536 then 126 else 127)"

definition length_ext :: "int \<Rightarrow> bytes" where
  "length_ext n = (if n < 126 then [] else if n < 65536 then be_bytes 2 n else be_bytes 8 n)"

definition frame_bytes :: "ws_frame \<Rightarrow> bytes \<Rightarrow> bool \<Rightarrow> bytes" where
  "frame_bytes f key masked =
     (let n = int (length (wf_payload f))
      in [frame_first f, to_uint8 ((if masked then 128 else 0) + length_bits n)] @ length_ext n @
         (if masked then key @ maskPayload (wf_payload f) key else wf_payload f))"

definition frame_wf :: "ws_frame \<Rightarrow> bool" where
  "frame_wf f \<longleftrightarrow> (wf_opcode f \<ge> 8 \<longrightarrow> wf_fin f \<and> length (wf_payload f) \<le> 125) \<and>
     (wf_compressed f \<longrightarrow> wf_opcode f \<noteq> 0 \<and> wf_opcode f < 8)"

lemma length_bits_range: "0 \<le> n \<Longrightarrow> 0 \<le> length_bits n \<and> length_bits n < 128"
  by (simp add: length_bits_def)

lemma masked_length: "0 \<le> l \<Longrightarrow> l < 128 \<Longrightarrow> js_or (if m then 128 else 0) l = (if m then 128 else 0) + l"
  using js_or_add [of 128 7 l] js_or_add [of 0 7 l] by simp

lemma encodeFrame_iff:
  assumes "length key = 4"
  shows "if frame_wf f then \<exists>cs. encodeFrame f key masked = Inr cs \<and> concat cs = frame_bytes f key masked
    else encodeFrame f key masked = Inl ProtocolError"
proof (cases "frame_wf f")
  case False
  then show ?thesis by (auto simp: frame_wf_def encodeFrame_def Let_def)
next
  case True
  let ?n = "int (length (wf_payload f))"
  let ?l = "to_uint8 ((if masked then 128 else 0) + length_bits ?n)"
  have l: "js_or (if masked then 128 else 0) (length_bits ?n) = (if masked then 128 else 0) + length_bits ?n"
    using length_bits_range [of ?n] by (intro masked_length) auto
  have guards: "\<not> (wf_opcode f \<ge> 8 \<and> (\<not> wf_fin f \<or> ?n > 125))"
    "\<not> (wf_compressed f \<and> (wf_opcode f = 0 \<or> wf_opcode f \<ge> 8))" using True by (auto simp: frame_wf_def)
  have start: "(replicate (2 + k) 0)[0 := x, 1 := y] = x # y # replicate k (0 :: byte)" for k x y
    by (simp add: numeral_2_eq_2)
  have enc: "encodeFrame f key masked =
    (let h2 = frame_first f # ?l # replicate (length (length_ext ?n) + (if masked then 4 else 0)) 0;
         h3 = (if length (length_ext ?n) = 2 then h2[2 := to_uint8 (js_ushr ?n 8), 3 := to_uint8 (js_and ?n 255)]
               else if length (length_ext ?n) = 8 then writeLength 8 ?n h2 else h2)
     in Inr (if masked then [take (2 + length (length_ext ?n)) h3 @ key, maskPayload (wf_payload f) key]
             else [h3, wf_payload f]))"
  proof -
    have "(if ?n < 126 then 0 else if ?n < 65536 then 2 else 8) = length (length_ext ?n)"
      by (simp add: length_ext_def)
    then show ?thesis
      unfolding encodeFrame_def Let_def if_not_P [OF guards(1)] if_not_P [OF guards(2)]
      by (simp only: start add.assoc l [unfolded length_bits_def] length_bits_def frame_first_def [symmetric])
  qed
  have ext: "(if length (length_ext ?n) = 2 then (x # y # replicate (length (length_ext ?n) + k) 0)
        [2 := to_uint8 (js_ushr ?n 8), 3 := to_uint8 (js_and ?n 255)]
      else if length (length_ext ?n) = 8 then writeLength 8 ?n (x # y # replicate (length (length_ext ?n) + k) 0)
      else x # y # replicate (length (length_ext ?n) + k) 0) = [x, y] @ length_ext ?n @ replicate k 0" for x y k
  proof -
    consider (a) "?n < 126" | (b) "\<not> ?n < 126" "?n < 65536" | (c) "\<not> ?n < 126" "\<not> ?n < 65536" by linarith
    then show ?thesis
    proof cases
      case b
      have "js_ushr ?n 8 = ?n div 256" using b by (simp add: js_ushr_small)
      moreover have "be_bytes 2 ?n = [to_uint8 (?n div 256), to_uint8 ?n]" by (simp add: numeral_2_eq_2)
      ultimately show ?thesis using b by (simp add: length_ext_def numeral_2_eq_2 numeral_3_eq_3)
    qed (simp_all add: length_ext_def writeLength_eq numeral_2_eq_2 replicate_add)
  qed
  show ?thesis
  proof (cases masked)
    case True
    have "encodeFrame f key masked =
      Inr [take (2 + length (length_ext ?n)) ([frame_first f, ?l] @ length_ext ?n @ replicate 4 0) @ key,
           maskPayload (wf_payload f) key]"
      unfolding enc Let_def if_P [OF True] ext by (rule refl)
    then show ?thesis using True \<open>frame_wf f\<close> by (simp add: frame_bytes_def Let_def)
  next
    case False
    have "encodeFrame f key masked = Inr [[frame_first f, ?l] @ length_ext ?n @ replicate 0 0, wf_payload f]"
      unfolding enc Let_def if_not_P [OF False] ext by (rule refl)
    then show ?thesis using False \<open>frame_wf f\<close> by (simp add: frame_bytes_def Let_def)
  qed
qed

section \<open>Lemmas: reading a frame\<close>

lemma exact_append:
  assumes "transport_reads rd content" "reader_ok r" "unread content r = xs @ ys"
    and "n = int (length xs)" "n \<le> MAX_SAFE_INTEGER"
  shows "\<exists>r'. exact rd n r = (Inr xs, r') \<and> reader_ok r' \<and> unread content r' = ys"
  using exact_ok [OF assms(1,2), of "length xs"] assms(3-5) by simp

lemma readLength_ok:
  assumes "transport_reads rd content" "reader_ok r" "unread content r = length_ext n @ ys"
    and "0 \<le> n" "n \<le> MAX_SAFE_INTEGER"
  shows "\<exists>r'. readLength rd (length_bits n) r = (Inr n, r') \<and> reader_ok r' \<and> unread content r' = ys"
proof -
  consider (a) "n < 126" | (b) "\<not> n < 126" "n < 65536" | (c) "\<not> n < 126" "\<not> n < 65536" by linarith
  then show ?thesis
  proof cases
    case a
    then show ?thesis using assms(2,3) by (simp add: readLength_def length_bits_def length_ext_def)
  next
    case b
    then have u: "unread content r = be_bytes 2 n @ ys" using assms(3) by (simp add: length_ext_def)
    obtain r' where r': "exact rd 2 r = (Inr (be_bytes 2 n), r')" "reader_ok r'" "unread content r' = ys"
      using exact_append [OF assms(1,2) u, of 2] by (auto simp: MAX_SAFE_INTEGER_def)
    have "be_bytes 2 n = [to_uint8 (n div 256), to_uint8 n]" by (simp add: numeral_2_eq_2)
    then have "byteAt (be_bytes 2 n) 0 * 256 + byteAt (be_bytes 2 n) 1 = n"
      using b assms(4) by (simp add: uint_to_uint8)
    then show ?thesis using r' b by (simp add: readLength_def length_bits_def)
  next
    case c
    then have u: "unread content r = be_bytes 8 n @ ys" using assms(3) by (simp add: length_ext_def)
    obtain r' where r': "exact rd 8 r = (Inr (be_bytes 8 n), r')" "reader_ok r'" "unread content r' = ys"
      using exact_append [OF assms(1,2) u, of 8] by (auto simp: MAX_SAFE_INTEGER_def)
    have "n < 256 ^ 7" using assms(5) by (simp add: MAX_SAFE_INTEGER_def)
    then have "n div 256 ^ 7 = 0" using assms(4) by (intro div_pos_pos_trivial) simp_all
    then have "be_bytes 8 n = 0 # be_bytes 7 n"
      using be_bytes_Cons [of 7 n] by (simp add: to_uint8_def)
    then have "byteAt (be_bytes 8 n) 0 = 0" by simp
    moreover have "lengthBytes (be_bytes 8 n) = Inr n"
      using assms(4,5) by (intro lengthBytes_be) (auto simp: MAX_SAFE_INTEGER_def)
    ultimately show ?thesis using r' c by (simp add: readLength_def length_bits_def js_and_def)
  qed
qed

definition ws_opcodes :: "int list" where
  "ws_opcodes = [0, 1, 2, 8, 9, 10]"

lemma first_byte_checks:
  "list_all (\<lambda>opc. list_all (\<lambda>fin. list_all (\<lambda>compressed.
      (let a = uint (to_uint8 (js_or (js_or (if fin then 128 else 0) (if compressed then 64 else 0)) opc))
       in (js_and a 128 \<noteq> 0) = fin \<and> (js_and a 64 \<noteq> 0) = compressed \<and> js_and a 0x30 = 0 \<and>
          ws_opcode (js_and a 15) = Inr opc)) [True, False]) [True, False]) ws_opcodes"
  by code_simp

lemma frame_first_bits:
  assumes "wf_opcode f \<in> set ws_opcodes"
  shows "(js_and (uint (frame_first f)) 128 \<noteq> 0) = wf_fin f" "(js_and (uint (frame_first f)) 64 \<noteq> 0) = wf_compressed f"
    "js_and (uint (frame_first f)) 0x30 = 0" "ws_opcode (js_and (uint (frame_first f)) 15) = Inr (wf_opcode f)"
proof -
  have t: "x \<in> set [True, False]" for x by auto
  have "list_all (\<lambda>fin. list_all (\<lambda>compressed.
      (let a = uint (to_uint8 (js_or (js_or (if fin then 128 else 0) (if compressed then 64 else 0)) (wf_opcode f)))
       in (js_and a 128 \<noteq> 0) = fin \<and> (js_and a 64 \<noteq> 0) = compressed \<and> js_and a 0x30 = 0 \<and>
          ws_opcode (js_and a 15) = Inr (wf_opcode f))) [True, False]) [True, False]"
    using first_byte_checks assms unfolding list_all_iff by blast
  then have "(let a = uint (frame_first f)
     in (js_and a 128 \<noteq> 0) = wf_fin f \<and> (js_and a 64 \<noteq> 0) = wf_compressed f \<and> js_and a 0x30 = 0 \<and>
        ws_opcode (js_and a 15) = Inr (wf_opcode f))"
    using t [of "wf_fin f"] t [of "wf_compressed f"] unfolding list_all_iff frame_first_def by blast
  then show "(js_and (uint (frame_first f)) 128 \<noteq> 0) = wf_fin f" "(js_and (uint (frame_first f)) 64 \<noteq> 0) = wf_compressed f"
    "js_and (uint (frame_first f)) 0x30 = 0" "ws_opcode (js_and (uint (frame_first f)) 15) = Inr (wf_opcode f)"
    unfolding Let_def by blast+
qed

lemma frameStart_ok:
  assumes "frame_wf f" "wf_opcode f \<in> set ws_opcodes" "wf_compressed f \<longrightarrow> allowCompressed"
  shows "frameStart [frame_first f, to_uint8 ((if masked then 128 else 0) + length_bits (int (length (wf_payload f))))]
      masked allowCompressed =
    Inr (wf_fin f, wf_opcode f, wf_compressed f, length_bits (int (length (wf_payload f))))"
proof -
  let ?l = "length_bits (int (length (wf_payload f)))"
  have l: "0 \<le> ?l" "?l < 128" using length_bits_range by auto
  have u: "uint (to_uint8 ((if masked then 128 else 0) + ?l)) = (if masked then 128 else 0) + ?l" using l by simp
  have "(js_and ((if masked then 128 else 0) + ?l) 128 \<noteq> 0) = masked"
  proof -
    have "(128 + ?l) div 128 = 1" "?l div 128 = 0" using l by simp_all
    then show ?thesis using l js_flag_tests(7) [of "(if masked then 128 else 0) + ?l"] by auto
  qed
  moreover have "js_and ((if masked then 128 else 0) + ?l) 127 = ?l"
    using l js_and_7f [of "(if masked then 128 else 0) + ?l"] by (auto simp: mod_add_eq)
  moreover have "\<not> (wf_opcode f \<ge> 8 \<and> (\<not> wf_fin f \<or> ?l > 125))"
    using assms(1) by (auto simp: frame_wf_def length_bits_def)
  moreover have "\<not> (wf_compressed f \<and> (\<not> allowCompressed \<or> wf_opcode f = 0 \<or> wf_opcode f \<ge> 8))"
    using assms(1,3) by (auto simp: frame_wf_def)
  ultimately show ?thesis
    using frame_first_bits [OF assms(2)] by (simp add: frameStart_def Let_def u)
qed

lemma readBody_ok:
  assumes tr: "transport_reads rd content" "reader_ok r" "length key = 4" "int (length p) \<le> MAX_SAFE_INTEGER"
    and u: "unread content r = (if masked then key @ maskPayload p key else p) @ rest"
  shows "\<exists>r'. readBody rd (int (length p)) masked r = (Inr p, r') \<and> reader_ok r' \<and> unread content r' = rest"
proof (cases masked)
  case True
  then have "unread content r = key @ (maskPayload p key @ rest)" using u by simp
  then obtain r1 where r1: "exact rd 4 r = (Inr key, r1)" "reader_ok r1" "unread content r1 = maskPayload p key @ rest"
    using exact_append [OF tr(1,2), of key _ 4] tr(3) by (auto simp: MAX_SAFE_INTEGER_def)
  obtain r2 where "exact rd (int (length p)) r1 = (Inr (maskPayload p key), r2)" "reader_ok r2" "unread content r2 = rest"
    using exact_append [OF tr(1) r1(2,3), of "int (length p)"] tr(4) by auto
  then show ?thesis using True r1 tr(3) by (simp add: readBody_def maskPayload_twice)
next
  case False
  then obtain r2 where "exact rd (int (length p)) r = (Inr p, r2)" "reader_ok r2" "unread content r2 = rest"
    using exact_append [OF tr(1,2), of p rest "int (length p)"] u tr(4) by auto
  then show ?thesis using False by (simp add: readBody_def)
qed

section \<open>Lemmas: close payloads\<close>

lemma close_code_bytes:
  assumes "isValidWireCloseCode c"
  shows "uint (to_uint8 (js_ushr c 8)) * 256 + uint (to_uint8 (js_and c 255)) = c"
proof -
  have "0 \<le> c" "c < 65536" using assms by (auto simp: isValidWireCloseCode_def split: if_splits)
  then show ?thesis by (simp add: js_ushr_small uint_to_uint8)
qed

lemma close_code_split:
  fixes a b :: byte
  shows "to_uint8 (js_ushr (uint a * 256 + uint b) 8) = a" "to_uint8 (js_and (uint a * 256 + uint b) 255) = b"
proof -
  have a: "0 \<le> uint a" "uint a < 256" and b: "0 \<le> uint b" "uint b < 256" by simp_all
  have "(uint a * 256 + uint b) div 256 = uint a" using b by simp
  then show "to_uint8 (js_ushr (uint a * 256 + uint b) 8) = a"
  proof -
    have "0 \<le> uint a * 256 + uint b" "uint a * 256 + uint b < 4294967296" using a b by linarith+
    then show ?thesis using \<open>(uint a * 256 + uint b) div 256 = uint a\<close> by (simp add: js_ushr_small)
  qed
  have "to_uint8 (uint a * 256 + uint b) = to_uint8 (uint b)"
    by (metis add.commute mod_mult_self1 mult.commute to_uint8_mod)
  then show "to_uint8 (js_and (uint a * 256 + uint b) 255) = b" by simp
qed

lemma closePayload_code:
  assumes "closePayload (Some c) reason = Inr p"
  shows "isValidWireCloseCode c" "length (te_encode reason) \<le> 123"
    "p = [to_uint8 (js_ushr c 8), to_uint8 (js_and c 255)] @ te_encode reason"
proof -
  let ?e = "te_encode reason"
  have g: "isValidWireCloseCode c" "length ?e \<le> 123"
    using assms by (auto simp: closePayload_def Let_def split: if_splits)
  have "(replicate (2 + length ?e) 0)[0 := x, 1 := y] = x # y # replicate (length ?e) (0 :: byte)" for x y
    by (simp add: numeral_2_eq_2)
  then show "isValidWireCloseCode c" "length ?e \<le> 123"
    "p = [to_uint8 (js_ushr c 8), to_uint8 (js_and c 255)] @ ?e"
    using assms g by (simp_all add: closePayload_def Let_def typed_set_def numeral_2_eq_2)
qed

lemma parseClose_iff:
  "parseClose p = Inr (c, str) \<longleftrightarrow>
     p = [] \<and> c = 1005 \<and> str = [] \<or>
     isValidWireCloseCode c \<and>
     (\<exists>cs. list_all scalar_value cs \<and> str = utf16_scalars cs \<and>
       p = [to_uint8 (js_ushr c 8), to_uint8 (js_and c 255)] @ utf8_scalars cs)"
proof (cases p rule: remdups_adj.cases)
  case (3 a b q)
  let ?code = "uint a * 256 + uint b"
  have "parseClose p = Inr (c, str) \<longleftrightarrow>
      isValidWireCloseCode ?code \<and> c = ?code \<and> decodeUTF8 q True True = Inr str"
    by (auto simp: parseClose_def Let_def 3 res_bind_Inr_iff)
  also have "\<dots> \<longleftrightarrow> isValidWireCloseCode ?code \<and> c = ?code \<and>
      (\<exists>cs. list_all scalar_value cs \<and> q = utf8_scalars cs \<and> str = utf16_scalars cs)"
    using decodeUTF8_strict [of q True str] by (auto simp: rendered_def)
  also have "\<dots> \<longleftrightarrow> isValidWireCloseCode c \<and> a = to_uint8 (js_ushr c 8) \<and> b = to_uint8 (js_and c 255) \<and>
      (\<exists>cs. list_all scalar_value cs \<and> q = utf8_scalars cs \<and> str = utf16_scalars cs)"
    by (metis close_code_split close_code_bytes)
  finally show ?thesis unfolding 3 by auto
qed (auto simp: parseClose_def)

section \<open>Properties\<close>

text \<open>
  C23: A frame that \<^verbatim>\<open>encodeFrame\<close> accepts, masked with any key or not, is read back by \<^verbatim>\<open>readFrame\<close>
  from a transport that cuts its bytes anywhere, when the reader expects the same masking
  direction, allows compression if the frame is compressed, and its limit admits the payload; the
  reader then stands at the byte after the frame.
\<close>

theorem websocket_frame_roundtrip:
  assumes "transport_reads rd content" and "reader_ok r"
    and "encodeFrame f key masked = Inr chunks" and "unread content r = concat chunks @ rest"
    and "length key = 4" and "wf_opcode f \<in> set [0, 1, 2, 8, 9, 10]" and "wf_compressed f \<longrightarrow> allowCompressed"
    and "int (length (wf_payload f)) \<le> maxFrameBytes" and "int (length (wf_payload f)) \<le> MAX_SAFE_INTEGER"
  shows "\<exists>r'. readFrame rd masked maxFrameBytes allowCompressed r = (Inr f, r') \<and> reader_ok r' \<and>
    unread content r' = rest"
proof -
  let ?n = "int (length (wf_payload f))"
  have wf: "frame_wf f" "concat chunks = frame_bytes f key masked"
    using encodeFrame_iff [OF assms(5), of f masked] assms(3) by (auto split: if_splits)
  let ?base = "[frame_first f, to_uint8 ((if masked then 128 else 0) + length_bits ?n)]"
  let ?body = "if masked then key @ maskPayload (wf_payload f) key else wf_payload f"
  have "unread content r = ?base @ (length_ext ?n @ ?body @ rest)"
    using assms(4) wf(2) by (simp add: frame_bytes_def Let_def)
  then obtain r1 where r1: "exact rd 2 r = (Inr ?base, r1)" "reader_ok r1"
    "unread content r1 = length_ext ?n @ (?body @ rest)"
    using exact_append [OF assms(1,2), of ?base _ 2] by (auto simp: MAX_SAFE_INTEGER_def)
  obtain r2 where r2: "readLength rd (length_bits ?n) r1 = (Inr ?n, r2)" "reader_ok r2"
    "unread content r2 = ?body @ rest"
    using readLength_ok [OF assms(1) r1(2,3)] assms(9) by auto
  obtain r3 where r3: "readBody rd ?n masked r2 = (Inr (wf_payload f), r3)" "reader_ok r3" "unread content r3 = rest"
    using readBody_ok [OF assms(1) r2(2) assms(5,9) r2(3)] by auto
  have "frameStart ?base masked allowCompressed = Inr (wf_fin f, wf_opcode f, wf_compressed f, length_bits ?n)"
    using wf(1) assms(6,7) by (intro frameStart_ok) (simp_all add: ws_opcodes_def)
  then show ?thesis using r1(1) r2(1) r3 assms(8) by (simp add: readFrame_def)
qed

theorem websocket_frame_roundtrip_witness:
  "\<exists>r'. readFrame memory_read True 100 False (newBufferedReader
      ([0x81, 0x82, 1, 2, 3, 4, 0x49, 0x6b] @ [9])) =
    (Inr \<lparr>wf_fin = True, wf_opcode = 1, wf_payload = [0x48, 0x69], wf_compressed = False\<rparr>, r') \<and>
    unread id r' = [9]"
proof -
  let ?f = "\<lparr>wf_fin = True, wf_opcode = 1, wf_payload = [0x48, 0x69], wf_compressed = False\<rparr>"
  have e: "encodeFrame ?f [1, 2, 3, 4] True = Inr [[0x81, 0x82, 1, 2, 3, 4], [0x49, 0x6b]]" by code_simp
  show ?thesis
    using websocket_frame_roundtrip [OF memory_reads reader_ok_new(1) e, of "[0x81, 0x82, 1, 2, 3, 4, 0x49, 0x6b] @ [9]"
        "[9]" False 100]
    by (auto simp: MAX_SAFE_INTEGER_def)
qed

text \<open>
  Close payloads. A payload that \<^verbatim>\<open>closePayload\<close> makes is at most 125 bytes long, so it fits a
  control frame, and \<^verbatim>\<open>parseClose\<close> returns its code and its reason, with lone surrogates replaced;
  without a code both agree on the empty payload. Conversely \<^verbatim>\<open>parseClose\<close> accepts nothing but the
  empty payload and a valid code followed by well-formed UTF-8, and returns exactly that text.
\<close>

theorem websocket_close_roundtrip:
  "(case closePayload code reason of
      Inl e \<Rightarrow> e = ProtocolError \<or> e = LimitError
    | Inr p \<Rightarrow> length p \<le> 125 \<and>
        parseClose p = Inr (case code of None \<Rightarrow> (1005, []) | Some c \<Rightarrow> (c, scalar_string reason))) \<and>
   (parseClose p = Inr (c, str) \<longleftrightarrow>
      p = [] \<and> c = 1005 \<and> str = [] \<or>
      isValidWireCloseCode c \<and>
      (\<exists>cs. list_all scalar_value cs \<and> str = utf16_scalars cs \<and>
        p = [to_uint8 (js_ushr c 8), to_uint8 (js_and c 255)] @ utf8_scalars cs))"
proof (rule conjI)
  show "case closePayload code reason of
      Inl e \<Rightarrow> e = ProtocolError \<or> e = LimitError
    | Inr p \<Rightarrow> length p \<le> 125 \<and>
        parseClose p = Inr (case code of None \<Rightarrow> (1005, []) | Some c \<Rightarrow> (c, scalar_string reason))"
  proof (cases "closePayload code reason")
    case (Inl e)
    then show ?thesis
      by (auto simp: closePayload_def typed_set_def Let_def split: option.splits if_splits)
  next
    case (Inr p)
    show ?thesis
    proof (cases code)
      case None
      then show ?thesis using Inr by (auto simp: closePayload_def parseClose_def split: if_splits)
    next
      case (Some c)
      note p = closePayload_code [OF Inr [unfolded Some]]
      have "parseClose p = Inr (c, scalar_string reason)"
        using p unfolding parseClose_iff te_encode_eq scalar_string_def
        by (intro disjI2 conjI exI [of _ "scalars reason"]) (simp_all add: scalars_valid)
      then show ?thesis using Inr Some p(2,3) by simp
    qed
  qed
qed (rule parseClose_iff)

end
