(* ===== verification/Fetch_Headers.thy ===== *)
theory Fetch_Headers
  imports Ascii_Text "HOL-Library.List_Lexorder"
begin

text \<open>
  The \<^verbatim>\<open>Headers\<close> class of \<^verbatim>\<open>runtime/web-platform/src/fetch/headers.ts\<close> on string arguments: the header
  list with its guard and the cache of the sorted listing, every method that reads or changes
  them, and the normalisation of names and values. A method that throws leaves the object as it
  was, so those methods return the new object or the error.
\<close>

section \<open>Names and values\<close>

type_synonym header_entry = "jsstring \<times> jsstring"

text \<open>The characters beside letters and digits are those of \<^verbatim>\<open>!#$%&'*+-.^_`|~\<close>, by their codes.\<close>

definition tokenUnit :: "int \<Rightarrow> bool" where
  "tokenUnit c \<longleftrightarrow>
     (c \<ge> 48 \<and> c \<le> 57) \<or> (c \<ge> 65 \<and> c \<le> 90) \<or> (c \<ge> 97 \<and> c \<le> 122) \<or>
     c \<in> set [33, 35, 36, 37, 38, 39, 42, 43, 45, 46, 94, 95, 96, 124, 126]"

definition isToken :: "jsstring \<Rightarrow> bool" where
  "isToken value = (if length value = 0 then False else list_all (\<lambda>u. tokenUnit (uint u)) value)"

text \<open>
  \<^verbatim>\<open>toLowerCase\<close> on strings of code units up to 255, the only ones it is applied to here: it moves
  A--Z and the letters of the second half of latin1.
\<close>

definition lowerUnit :: "code_unit \<Rightarrow> code_unit" where
  "lowerUnit u =
     (let c = uint u
      in if c \<ge> 65 \<and> c \<le> 90 \<or> c \<ge> 192 \<and> c \<le> 222 \<and> c \<noteq> 215 then word_of_int (c + 32) else u)"

definition toLowerCase :: "jsstring \<Rightarrow> jsstring" where
  "toLowerCase s = map lowerUnit s"

definition coerceToByteString :: "jsstring \<Rightarrow> jsstring result" where
  "coerceToByteString s = (if list_ex (\<lambda>u. uint u > 255) s then Inl TypeError else Inr s)"

definition normalizeConvertedName :: "jsstring \<Rightarrow> jsstring result" where
  "normalizeConvertedName name = (if \<not> isToken name then Inl TypeError else Inr (toLowerCase name))"

definition normalizeName :: "jsstring \<Rightarrow> jsstring result" where
  "normalizeName name = res_bind (coerceToByteString name) normalizeConvertedName"

definition normalizeConvertedValue :: "jsstring \<Rightarrow> jsstring result" where
  "normalizeConvertedValue value =
     (let normalized = trimHTTPWhitespace value
      in if list_ex (\<lambda>u. let c = uint u in c > 255 \<or> c = 0 \<or> c = 10 \<or> c = 13) normalized
         then Inl TypeError else Inr normalized)"

section \<open>The header list\<close>

datatype header_guard = Guard_None | Guard_Immutable

record headers =
  hs_list :: "header_entry list"
  hs_guard :: header_guard
  hs_sortedCache :: "header_entry list option"

definition newHeaders :: headers where
  "newHeaders = \<lparr>hs_list = [], hs_guard = Guard_None, hs_sortedCache = None\<rparr>"

definition writable :: "headers \<Rightarrow> unit result" where
  "writable h = (if hs_guard h = Guard_Immutable then Inl TypeError else Inr ())"

definition appendConverted :: "jsstring \<Rightarrow> jsstring \<Rightarrow> headers \<Rightarrow> headers result" where
  "appendConverted name value h =
     res_bind (normalizeConvertedName name) (\<lambda>key.
     res_bind (normalizeConvertedValue value) (\<lambda>normalized.
     res_bind (writable h) (\<lambda>_.
       Inr (h\<lparr>hs_sortedCache := None, hs_list := hs_list h @ [(key, normalized)]\<rparr>))))"

definition headers_append :: "jsstring \<Rightarrow> jsstring \<Rightarrow> headers \<Rightarrow> headers result" where
  "headers_append name value h =
     res_bind (coerceToByteString name) (\<lambda>convertedName.
     res_bind (coerceToByteString value) (\<lambda>convertedValue.
       appendConverted convertedName convertedValue h))"

text \<open>\<^verbatim>\<open>#fill\<close>: each element is the sequence of strings one tuple was converted to.\<close>

definition headers_fill :: "jsstring list list \<Rightarrow> headers \<Rightarrow> headers result" where
  "headers_fill init h =
     res_fold (\<lambda>entry h. case entry of [name, value] \<Rightarrow> appendConverted name value h | _ \<Rightarrow> Inl TypeError) init h"

text \<open>\<^verbatim>\<open>new Headers(entries)\<close> of a list of pairs.\<close>

definition headersOf :: "header_entry list \<Rightarrow> headers result" where
  "headersOf entries =
     res_bind (res_fold (\<lambda>(name, value) _.
         res_bind (coerceToByteString name) (\<lambda>_. res_bind (coerceToByteString value) (\<lambda>_. Inr ()))) entries ())
       (\<lambda>_. headers_fill (map (\<lambda>(name, value). [name, value]) entries) newHeaders)"

definition copyHeaders :: "headers \<Rightarrow> headers" where
  "copyHeaders source = newHeaders\<lparr>hs_list := hs_list source\<rparr>"

text \<open>The compacting loops of \<^verbatim>\<open>set\<close> and \<^verbatim>\<open>delete\<close>: what they leave in the list.\<close>

fun setLoop :: "jsstring \<Rightarrow> jsstring \<Rightarrow> bool \<Rightarrow> header_entry list \<Rightarrow> header_entry list" where
  "setLoop key normalized found [] = (if \<not> found then [(key, normalized)] else [])"
| "setLoop key normalized found (entry # entries) =
     (if fst entry \<noteq> key then entry # setLoop key normalized found entries
      else if \<not> found then (key, normalized) # setLoop key normalized True entries
      else setLoop key normalized found entries)"

definition headers_set :: "jsstring \<Rightarrow> jsstring \<Rightarrow> headers \<Rightarrow> headers result" where
  "headers_set name value h =
     res_bind (coerceToByteString name) (\<lambda>convertedName.
     res_bind (coerceToByteString value) (\<lambda>convertedValue.
     res_bind (normalizeConvertedName convertedName) (\<lambda>key.
     res_bind (normalizeConvertedValue convertedValue) (\<lambda>normalized.
     res_bind (writable h) (\<lambda>_.
       Inr (h\<lparr>hs_sortedCache := None, hs_list := setLoop key normalized False (hs_list h)\<rparr>))))))"

fun deleteLoop :: "jsstring \<Rightarrow> header_entry list \<Rightarrow> header_entry list" where
  "deleteLoop key [] = []"
| "deleteLoop key (entry # entries) =
     (if fst entry \<noteq> key then entry # deleteLoop key entries else deleteLoop key entries)"

definition headers_delete :: "jsstring \<Rightarrow> headers \<Rightarrow> headers result" where
  "headers_delete name h =
     res_bind (normalizeName name) (\<lambda>key.
     res_bind (writable h) (\<lambda>_.
       Inr (h\<lparr>hs_sortedCache := None, hs_list := deleteLoop key (hs_list h)\<rparr>)))"

text \<open>\<^verbatim>\<open>values.join(", ")\<close>\<close>

fun joinComma :: "jsstring list \<Rightarrow> jsstring" where
  "joinComma [] = []"
| "joinComma [v] = v"
| "joinComma (v # w # vs) = v @ js_string '', '' @ joinComma (w # vs)"

text \<open>\<^verbatim>\<open>#get\<close>: \<open>first\<close> and \<open>values\<close> as the loop leaves them.\<close>

definition getStep :: "jsstring \<Rightarrow> header_entry \<Rightarrow> jsstring option \<times> jsstring list option \<Rightarrow> jsstring option \<times> jsstring list option" where
  "getStep key entry = (\<lambda>(first, values).
     if fst entry \<noteq> key then (first, values)
     else case first of
            None \<Rightarrow> (Some (snd entry), values)
          | Some f \<Rightarrow>
              (case values of
                 None \<Rightarrow> (first, Some [f, snd entry])
               | Some vs \<Rightarrow> (first, Some (vs @ [snd entry]))))"

definition getConverted :: "jsstring \<Rightarrow> headers \<Rightarrow> jsstring option" where
  "getConverted key h =
     (case fold (getStep key) (hs_list h) (None, None) of
        (first, None) \<Rightarrow> first
      | (first, Some values) \<Rightarrow> Some (joinComma values))"

definition headers_get :: "jsstring \<Rightarrow> headers \<Rightarrow> jsstring option result" where
  "headers_get name h = res_bind (normalizeName name) (\<lambda>key. Inr (getConverted key h))"

definition headers_has :: "jsstring \<Rightarrow> headers \<Rightarrow> bool result" where
  "headers_has name h =
     res_bind (normalizeName name) (\<lambda>key. Inr (list_ex (\<lambda>entry. fst entry = key) (hs_list h)))"

definition getSetCookie :: "headers \<Rightarrow> jsstring list" where
  "getSetCookie h =
     fold (\<lambda>entry values. if fst entry = js_string ''set-cookie'' then values @ [snd entry] else values) (hs_list h) []"

definition makeImmutable :: "headers \<Rightarrow> headers" where
  "makeImmutable h = h\<lparr>hs_guard := Guard_Immutable\<rparr>"

section \<open>Iteration\<close>

text \<open>
  \<open>groupEntry\<close> is the body of the grouping loop of \<^verbatim>\<open>#sorted\<close> on a \<^verbatim>\<open>Map\<close>, whose entries stand in the
  order of their first insertion. The sort compares names as strings, unit by unit, and is stable.
\<close>

type_synonym header_group = "jsstring \<times> jsstring list"

fun groupEntry :: "header_entry \<Rightarrow> header_group list \<Rightarrow> header_group list" where
  "groupEntry (name, value) [] = [(name, [value])]"
| "groupEntry (name, value) ((n, values) # groups) =
     (if n = name then (n, values @ [value]) # groups
      else (n, values) # groupEntry (name, value) groups)"

definition listGroup :: "header_group \<Rightarrow> header_entry list" where
  "listGroup grp =
     (if fst grp = js_string ''set-cookie'' then map (\<lambda>value. (fst grp, value)) (snd grp)
      else [(fst grp, joinComma (snd grp))])"

definition sortEntries :: "header_entry list \<Rightarrow> header_entry list" where
  "sortEntries entries = concat (map listGroup (sort_key fst (fold groupEntry entries [])))"

definition headersSorted :: "headers \<Rightarrow> header_entry list \<times> headers" where
  "headersSorted h =
     (case hs_sortedCache h of
        Some cached \<Rightarrow> (cached, h)
      | None \<Rightarrow> (let result = sortEntries (hs_list h) in (result, h\<lparr>hs_sortedCache := Some result\<rparr>)))"

text \<open>One step of \<^verbatim>\<open>#entrySteps\<close> at \<open>index\<close>: the entry it yields, or the end.\<close>

definition entryStep :: "nat \<Rightarrow> headers \<Rightarrow> header_entry option \<times> headers" where
  "entryStep index h = (case headersSorted h of (entries, h') \<Rightarrow> (js_at entries (int index), h'))"

section \<open>Lemmas: names and values\<close>


lemma tokenUnit_bounds: "tokenUnit c \<Longrightarrow> 33 \<le> c \<and> c \<le> 126"
  by (auto simp: tokenUnit_def)

lemma uint_unit_range [simp]: "0 \<le> uint (u :: code_unit)" "uint u < 65536"
  using uint_bounded [of u] by auto

lemma uint_lowerUnit: "uint (lowerUnit u) =
    (if uint u \<ge> 65 \<and> uint u \<le> 90 \<or> uint u \<ge> 192 \<and> uint u \<le> 222 \<and> uint u \<noteq> 215 then uint u + 32 else uint u)"
  by (auto simp: lowerUnit_def Let_def uint_word_of_int simp del: of_int_add)

lemma tokenUnit_lower: "tokenUnit (uint u) \<Longrightarrow> tokenUnit (uint (lowerUnit u))"
  using tokenUnit_bounds [of "uint u"] by (auto simp: uint_lowerUnit tokenUnit_def)

lemma lowerUnit_idem [simp]: "lowerUnit (lowerUnit u) = lowerUnit u"
  by (rule word_uint_eqI) (auto simp: uint_lowerUnit)

lemma toLowerCase_idem [simp]: "toLowerCase (toLowerCase s) = toLowerCase s"
  by (simp add: toLowerCase_def)

lemma isToken_iff: "isToken s \<longleftrightarrow> s \<noteq> [] \<and> (\<forall>u\<in>set s. tokenUnit (uint u))"
  by (auto simp: isToken_def list_all_iff)

lemma isToken_lower: "isToken s \<Longrightarrow> isToken (toLowerCase s)"
  by (auto simp: isToken_iff toLowerCase_def tokenUnit_lower)

definition token_name :: "jsstring \<Rightarrow> bool" where
  "token_name s \<longleftrightarrow> isToken s \<and> toLowerCase s = s"

definition clean_value :: "jsstring \<Rightarrow> bool" where
  "clean_value v \<longleftrightarrow>
     (\<forall>u\<in>set v. uint u \<le> 255 \<and> uint u \<notin> {0, 10, 13}) \<and>
     (v \<noteq> [] \<longrightarrow> \<not> isHTTPWhitespace (uint (hd v)) \<and> \<not> isHTTPWhitespace (uint (last v)))"

lemma normalizeConvertedName_ok: "normalizeConvertedName name = Inr key \<longleftrightarrow> isToken name \<and> key = toLowerCase name"
  by (auto simp: normalizeConvertedName_def)

lemma normalizeName_ok: "normalizeName name = Inr key \<longleftrightarrow> isToken name \<and> key = toLowerCase name"
proof (cases "coerceToByteString name")
  case (Inl e)
  then have "\<not> isToken name"
    using tokenUnit_bounds by (fastforce simp: coerceToByteString_def list_ex_iff isToken_iff split: if_splits)
  then show ?thesis using Inl by (simp add: normalizeName_def)
next
  case (Inr n)
  then show ?thesis by (auto simp: normalizeName_def coerceToByteString_def normalizeConvertedName_ok split: if_splits)
qed

lemma token_name_normalized: "isToken name \<Longrightarrow> token_name (toLowerCase name)"
  by (simp add: token_name_def isToken_lower)

lemma strip_left_hd: "strip_left blank v \<noteq> [] \<Longrightarrow> \<not> blank (uint (hd (strip_left blank v)))"
  unfolding strip_left_def by (rule hd_dropWhile)

lemma strip_ends:
  assumes "w = strip_right blank (strip_left blank v)" and "w \<noteq> []"
  shows "\<not> blank (uint (hd w))" "\<not> blank (uint (last w))"
proof -
  let ?l = "strip_left blank v"
  have "\<exists>z. ?l = w @ z"
    unfolding assms(1) strip_right_def strip_left_def
    by (metis dropWhile_eq_drop rev_drop rev_rev_ident append_take_drop_id)
  then obtain z where "?l = w @ z" by blast
  then have "hd w = hd ?l" "?l \<noteq> []" using assms(2) by auto
  then show "\<not> blank (uint (hd w))" using strip_left_hd [of blank v] by simp
  show "\<not> blank (uint (last w))"
    using assms strip_left_hd [of blank "rev ?l"] by (simp add: strip_right_def last_rev)
qed

lemma normalizeConvertedValue_clean: "normalizeConvertedValue value = Inr v \<Longrightarrow> clean_value v"
  using strip_ends [of v isHTTPWhitespace "value"]
  by (auto simp: normalizeConvertedValue_def Let_def list_ex_iff clean_value_def trim_eq split: if_splits)

section \<open>Lemmas: the list as a multimap\<close>

definition header_values :: "headers \<Rightarrow> jsstring \<Rightarrow> jsstring list" where
  "header_values h name = map snd (filter (\<lambda>entry. fst entry = name) (hs_list h))"

lemma setLoop_values:
  "map snd (filter (\<lambda>e. fst e = n) (setLoop key v found es)) =
     (if n = key then (if found then [] else [v]) else map snd (filter (\<lambda>e. fst e = n) es))"
proof (cases "n = key")
  case True
  have "filter (\<lambda>e. fst e = key) (setLoop key v True es) = []" for es by (induction es) auto
  moreover from this have "map snd (filter (\<lambda>e. fst e = key) (setLoop key v False es)) = [v]" by (induction es) auto
  ultimately show ?thesis using True by (cases found) auto
next
  case False
  then show ?thesis by (induction es arbitrary: found) auto
qed

lemma deleteLoop_filter: "deleteLoop key es = filter (\<lambda>e. fst e \<noteq> key) es"
  by (induction es) auto

lemma set_setLoop: "set (setLoop key v found es) \<subseteq> insert (key, v) (set es)"
  by (induction key v found es rule: setLoop.induct) auto

lemma getStep_fold:
  "fold (getStep key) es (None, None) =
     (let vs = map snd (filter (\<lambda>e. fst e = key) es)
      in (if vs = [] then None else Some (hd vs), if length vs < 2 then None else Some vs))"
proof (induction es rule: rev_induct)
  case (snoc e es)
  then show ?case
    by (cases "map snd (filter (\<lambda>e. fst e = key) es)") (auto simp: getStep_def Let_def split: if_splits)
qed simp

lemma getConverted_eq:
  "getConverted key h = (if header_values h key = [] then None else Some (joinComma (header_values h key)))"
  unfolding getConverted_def getStep_fold header_values_def
  by (cases "map snd (filter (\<lambda>e. fst e = key) (hs_list h))" rule: joinComma.cases) (auto simp: Let_def)

lemma headers_has_iff: "list_ex (\<lambda>entry. fst entry = key) (hs_list h) \<longleftrightarrow> header_values h key \<noteq> []"
  by (auto simp: header_values_def list_ex_iff filter_empty_conv)

section \<open>Lemmas: the sorted listing\<close>

lemma groupEntry_keys:
  "map fst (groupEntry (n, v) gs) = (if n \<in> fst ` set gs then map fst gs else map fst gs @ [n])"
  by (induction "(n, v)" gs rule: groupEntry.induct) auto

lemma groupEntry_lookup:
  "map_of (groupEntry (n, v) gs) =
     (map_of gs)(n \<mapsto> (case map_of gs n of None \<Rightarrow> [v] | Some vs \<Rightarrow> vs @ [v]))"
  by (induction "(n, v)" gs rule: groupEntry.induct) auto

lemma groups_spec:
  "distinct (map fst (fold groupEntry es [])) \<and>
   map_of (fold groupEntry es []) n =
     (if filter (\<lambda>e. fst e = n) es = [] then None else Some (map snd (filter (\<lambda>e. fst e = n) es)))"
proof (induction es arbitrary: n rule: rev_induct)
  case (snoc e es)
  obtain m v where e: "e = (m, v)" by (cases e)
  let ?gs = "fold groupEntry es []"
  have "distinct (map fst (groupEntry (m, v) ?gs))"
    using snoc [of n] by (auto simp: groupEntry_keys)
  moreover have "map_of (groupEntry (m, v) ?gs) n =
      (if filter (\<lambda>e. fst e = n) (es @ [e]) = [] then None else Some (map snd (filter (\<lambda>e. fst e = n) (es @ [e]))))"
    unfolding groupEntry_lookup using snoc [of m] snoc [of n] by (simp add: e)
  ultimately show ?case by (simp add: e)
qed simp

lemma sort_key_groups:
  "distinct (map fst gs) \<Longrightarrow> sorted_wrt (<) (map fst (sort_key fst gs))"
  for gs :: "header_group list"
  by (metis distinct_map distinct_sort set_sort sorted_sort_key strict_sorted_iff)

lemma listGroup_names: "map fst (listGroup (n, vs)) = (if n = js_string ''set-cookie'' then map (\<lambda>_. n) vs else [n])"
  by (simp add: listGroup_def comp_def)

lemma sorted_listGroups:
  "sorted_wrt (<) (map fst gs) \<Longrightarrow> sorted (map fst (concat (map listGroup gs)))"
proof (induction gs)
  case (Cons g gs)
  obtain n vs where g: "g = (n, vs)" by (cases g)
  have "\<forall>m\<in>set (map fst (concat (map listGroup gs))). n \<le> m"
    using Cons.prems by (fastforce simp: g listGroup_def)
  moreover have "set (map fst (listGroup g)) \<subseteq> {n}" "sorted (map fst (listGroup g))"
    by (auto simp: g listGroup_names sorted_map sorted_wrt_iff_nth_less)
  ultimately show ?case using Cons by (auto simp: sorted_append)
qed simp

lemma listGroups_values:
  assumes "distinct (map fst gs)"
  shows "map snd (filter (\<lambda>e. fst e = n) (concat (map listGroup gs))) =
    (case map_of gs n of None \<Rightarrow> [] | Some vs \<Rightarrow> if n = js_string ''set-cookie'' then vs else [joinComma vs])"
  using assms
proof (induction gs)
  case (Cons g gs)
  obtain m vs where g: "g = (m, vs)" by (cases g)
  have "map_of gs m = None" using Cons.prems by (simp add: g map_of_eq_None_iff)
  then show ?case using Cons by (auto simp: g listGroup_def comp_def filter_empty_conv split: option.splits)
qed simp

lemma map_of_sort_key:
  "distinct (map fst gs) \<Longrightarrow> map_of (sort_key fst gs) = map_of gs"
  for gs :: "header_group list"
  by (rule map_of_inject_set [THEN iffD2]) (auto simp: distinct_map inj_on_def distinct_sort)

lemma sortEntries_spec:
  "sorted (map fst (sortEntries es)) \<and>
   map snd (filter (\<lambda>e. fst e = n) (sortEntries es)) =
     (let vs = map snd (filter (\<lambda>e. fst e = n) es)
      in if vs = [] then [] else if n = js_string ''set-cookie'' then vs else [joinComma vs])"
proof -
  let ?gs = "fold groupEntry es []"
  have d: "distinct (map fst ?gs)" using groups_spec by blast
  then have "distinct (map fst (sort_key fst ?gs))" using sort_key_groups by (metis strict_sorted_iff)
  then show ?thesis
    using sorted_listGroups [OF sort_key_groups [OF d]] listGroups_values [of "sort_key fst ?gs" n]
      map_of_sort_key [OF d] groups_spec [of es n]
    by (simp add: sortEntries_def Let_def)
qed

section \<open>The multimap interface\<close>

text \<open>
  What the users of a header list rely on: \<open>vals h k\<close> are the values of the key \<open>k\<close> in order,
  \<open>add\<close> puts one behind them, \<open>put\<close> replaces them, \<open>del\<close> drops them; other keys keep theirs.
\<close>

locale multimap =
  fixes vals :: "'h \<Rightarrow> 'k \<Rightarrow> 'v list"
    and add :: "'k \<Rightarrow> 'v \<Rightarrow> 'h \<Rightarrow> 'h"
    and put :: "'k \<Rightarrow> 'v \<Rightarrow> 'h \<Rightarrow> 'h"
    and del :: "'k \<Rightarrow> 'h \<Rightarrow> 'h"
  assumes vals_add: "vals (add k v h) = (vals h)(k := vals h k @ [v])"
    and vals_put: "vals (put k v h) = (vals h)(k := [v])"
    and vals_del: "vals (del k h) = (vals h)(k := [])"
begin

lemma vals_add_all:
  "vals (fold (\<lambda>(k, v). add k v) es h) k = vals h k @ map snd (filter (\<lambda>e. fst e = k) es)"
  by (induction es arbitrary: h) (auto simp: vals_add)

lemma put_put: "vals (put k v (put k w h)) = vals (put k v h)"
  by (simp add: vals_put)

lemma put_is_del_add: "vals (put k v h) = vals (add k v (del k h))"
  by (simp add: vals_put vals_add vals_del)

end

definition list_add :: "jsstring \<Rightarrow> jsstring \<Rightarrow> headers \<Rightarrow> headers" where
  "list_add key v h = h\<lparr>hs_sortedCache := None, hs_list := hs_list h @ [(key, v)]\<rparr>"

definition list_put :: "jsstring \<Rightarrow> jsstring \<Rightarrow> headers \<Rightarrow> headers" where
  "list_put key v h = h\<lparr>hs_sortedCache := None, hs_list := setLoop key v False (hs_list h)\<rparr>"

definition list_del :: "jsstring \<Rightarrow> headers \<Rightarrow> headers" where
  "list_del key h = h\<lparr>hs_sortedCache := None, hs_list := deleteLoop key (hs_list h)\<rparr>"

interpretation hl: multimap header_values list_add list_put list_del
  by unfold_locales
    (auto simp: header_values_def list_add_def list_put_def list_del_def setLoop_values deleteLoop_filter fun_eq_iff
      intro!: arg_cong [where f = "map snd"] filter_cong)

lemma appendConverted_ok:
  "appendConverted name value h = Inr h' \<longleftrightarrow>
     isToken name \<and> hs_guard h \<noteq> Guard_Immutable \<and>
     (\<exists>v. normalizeConvertedValue value = Inr v \<and> h' = list_add (toLowerCase name) v h)"
  by (auto simp: appendConverted_def res_bind_Inr_iff normalizeConvertedName_ok writable_def list_add_def)

lemma headers_append_ok:
  "headers_append name value h = Inr h' \<longleftrightarrow>
     coerceToByteString name = Inr name \<and> coerceToByteString value = Inr value \<and> appendConverted name value h = Inr h'"
  by (auto simp: headers_append_def res_bind_Inr_iff coerceToByteString_def)

lemma headers_set_ok:
  "headers_set name value h = Inr h' \<longleftrightarrow>
     isToken name \<and> coerceToByteString value = Inr value \<and> hs_guard h \<noteq> Guard_Immutable \<and>
     (\<exists>v. normalizeConvertedValue value = Inr v \<and> h' = list_put (toLowerCase name) v h)"
proof -
  have "isToken name \<Longrightarrow> coerceToByteString name = Inr name"
    using normalizeName_ok [of name "toLowerCase name"]
    by (auto simp: normalizeName_def coerceToByteString_def split: if_splits)
  then show ?thesis
    by (auto simp: headers_set_def res_bind_Inr_iff normalizeConvertedName_ok writable_def list_put_def
        coerceToByteString_def split: if_splits)
qed

lemma headers_delete_ok:
  "headers_delete name h = Inr h' \<longleftrightarrow>
     isToken name \<and> hs_guard h \<noteq> Guard_Immutable \<and> h' = list_del (toLowerCase name) h"
  by (auto simp: headers_delete_def res_bind_Inr_iff normalizeName_ok writable_def list_del_def)

section \<open>Reachable objects\<close>

inductive headers_reachable :: "headers \<Rightarrow> bool" where
  reach_new: "headers_reachable newHeaders"
| reach_of: "headersOf es = Inr h \<Longrightarrow> headers_reachable h"
| reach_copy: "headers_reachable h \<Longrightarrow> headers_reachable (copyHeaders h)"
| reach_append: "headers_reachable h \<Longrightarrow> headers_append name value h = Inr h' \<Longrightarrow> headers_reachable h'"
| reach_set: "headers_reachable h \<Longrightarrow> headers_set name value h = Inr h' \<Longrightarrow> headers_reachable h'"
| reach_delete: "headers_reachable h \<Longrightarrow> headers_delete name h = Inr h' \<Longrightarrow> headers_reachable h'"
| reach_immutable: "headers_reachable h \<Longrightarrow> headers_reachable (makeImmutable h)"
| reach_entry: "headers_reachable h \<Longrightarrow> headers_reachable (snd (entryStep index h))"

definition headers_inv :: "headers \<Rightarrow> bool" where
  "headers_inv h \<longleftrightarrow>
     (\<forall>(name, value)\<in>set (hs_list h). token_name name \<and> clean_value value) \<and>
     (case hs_sortedCache h of None \<Rightarrow> True | Some cached \<Rightarrow> cached = sortEntries (hs_list h))"

lemma headers_inv_new: "headers_inv newHeaders"
  by (simp add: headers_inv_def newHeaders_def)

lemma headers_inv_append: "headers_inv h \<Longrightarrow> appendConverted name value h = Inr h' \<Longrightarrow> headers_inv h'"
  by (auto simp: headers_inv_def appendConverted_ok list_add_def token_name_normalized normalizeConvertedValue_clean)

lemma headers_inv_fill:
  assumes "headers_fill es h = Inr h'" and "headers_inv h"
  shows "headers_inv h'"
proof -
  define step where "step = (\<lambda>entry h. case entry of [name, v] \<Rightarrow> appendConverted name v h | _ \<Rightarrow> Inl TypeError)"
  have f: "res_fold step es h = Inr h'" using assms(1) by (simp add: headers_fill_def step_def)
  have "headers_inv h2" if "headers_inv h1" "step entry h1 = Inr h2" for entry h1 h2
    using that headers_inv_append [OF that(1)] by (auto simp: step_def split: list.splits)
  then show ?thesis using res_fold_inv [of step es h h' headers_inv, OF f assms(2)] by blast
qed

lemma headers_inv_sorted:
  assumes "headers_inv h"
  shows "fst (headersSorted h) = sortEntries (hs_list h)" "headers_inv (snd (headersSorted h))"
    "hs_list (snd (headersSorted h)) = hs_list h"
  using assms by (auto simp: headersSorted_def headers_inv_def Let_def split: option.splits)

lemma headers_reachable_inv: "headers_reachable h \<Longrightarrow> headers_inv h"
proof (induction rule: headers_reachable.induct)
  case (reach_of es h)
  then show ?case using headers_inv_fill headers_inv_new by (auto simp: headersOf_def res_bind_Inr_iff)
next
  case (reach_set h name "value" h')
  then show ?case
    using set_setLoop by (fastforce simp: headers_inv_def headers_set_ok list_put_def token_name_normalized
        normalizeConvertedValue_clean)
next
  case (reach_append h name "value" h')
  then show ?case using headers_inv_append by (auto simp: headers_append_ok)
next
  case (reach_entry h index)
  then show ?case using headers_inv_sorted(2) [of h] by (simp add: entryStep_def case_prod_beta)
qed (auto simp: headers_inv_def headers_delete_ok list_del_def deleteLoop_filter copyHeaders_def newHeaders_def
      makeImmutable_def split: option.splits)

section \<open>Properties\<close>

text \<open>
  C24: The header list is a multimap from lower-case names to values in order: on a writable object
  and arguments that pass the checks, \<^verbatim>\<open>append\<close> puts the trimmed value behind the name's values,
  \<^verbatim>\<open>set\<close> makes it the only one, \<^verbatim>\<open>delete\<close> removes them, and no other name changes; \<^verbatim>\<open>get\<close> joins the
  values, \<^verbatim>\<open>has\<close> tells whether there are any.
\<close>

theorem headers_refine_multimap:
  assumes "isToken name" and "coerceToByteString value = Inr value" and "normalizeConvertedValue value = Inr v"
    and "hs_guard h = Guard_None"
  shows "\<exists>a s d. headers_append name value h = Inr a \<and> headers_set name value h = Inr s \<and> headers_delete name h = Inr d \<and>
    header_values a = (header_values h)(toLowerCase name := header_values h (toLowerCase name) @ [v]) \<and>
    header_values s = (header_values h)(toLowerCase name := [v]) \<and>
    header_values d = (header_values h)(toLowerCase name := []) \<and>
    headers_get name a = Inr (Some (joinComma (header_values h (toLowerCase name) @ [v]))) \<and>
    headers_get name s = Inr (Some v) \<and> headers_get name d = Inr None \<and>
    headers_has name s = Inr True \<and> headers_has name d = Inr False"
proof -
  let ?k = "toLowerCase name"
  have n: "normalizeName name = Inr ?k" "coerceToByteString name = Inr name"
    using assms(1) normalizeName_ok [of name ?k] by (auto simp: normalizeName_def coerceToByteString_def split: if_splits)
  have "headers_append name value h = Inr (list_add ?k v h)" "headers_set name value h = Inr (list_put ?k v h)"
    "headers_delete name h = Inr (list_del ?k h)"
    using assms n(2) by (simp_all add: headers_append_ok appendConverted_ok headers_set_ok headers_delete_ok)
  then show ?thesis
    by (simp add: hl.vals_add hl.vals_put hl.vals_del headers_get_def headers_has_def n getConverted_eq headers_has_iff)
qed

theorem headers_refine_multimap_witness:
  "\<exists>a. headers_append (js_string ''X-Id'') (js_string '' 7 '') newHeaders = Inr a \<and>
     header_values a (js_string ''x-id'') = [js_string ''7'']"
proof -
  have "normalizeConvertedValue (js_string '' 7 '') = Inr (js_string ''7'')"
    "toLowerCase (js_string ''X-Id'') = js_string ''x-id''"
    by code_simp+
  moreover have "isToken (js_string ''X-Id'')" "coerceToByteString (js_string '' 7 '') = Inr (js_string '' 7 '')"
    by code_simp+
  moreover have "hs_guard newHeaders = Guard_None" "header_values newHeaders = (\<lambda>_. [])"
    by (simp_all add: newHeaders_def header_values_def fun_eq_iff)
  ultimately show ?thesis
    using headers_refine_multimap [of "js_string ''X-Id''" "js_string '' 7 ''" "js_string ''7''" newHeaders] by auto
qed

text \<open>
  C25: In every object the methods can produce, also after copying, iterating and a rejected call,
  each name is a lower-case token and each value is trimmed and free of CR, LF and NUL, and the
  listing the iterators walk is current: names ascending, the values of a name joined, those of
  \<^verbatim>\<open>Set-Cookie\<close> apart and in order.
\<close>

theorem headers_reachable_listing:
  assumes "headers_reachable h"
  shows "(\<forall>(name, value)\<in>set (hs_list h). token_name name \<and> clean_value value) \<and>
    sorted (map fst (fst (headersSorted h))) \<and>
    map snd (filter (\<lambda>e. fst e = name) (fst (headersSorted h))) =
      (if header_values h name = [] then []
       else if name = js_string ''set-cookie'' then getSetCookie h else [joinComma (header_values h name)])"
proof -
  have "getSetCookie h = header_values h (js_string ''set-cookie'')"
  proof -
    have *: "fold (\<lambda>entry values. if fst entry = c then values @ [snd entry] else values) es acc =
        acc @ map snd (filter (\<lambda>e. fst e = c) es)" for es :: "header_entry list" and acc c
      by (induction es arbitrary: acc) auto
    show ?thesis by (simp add: getSetCookie_def header_values_def *)
  qed
  then show ?thesis
    using headers_reachable_inv [OF assms] headers_inv_sorted(1) [OF headers_reachable_inv [OF assms]]
      sortEntries_spec [of "hs_list h" name]
    by (auto simp: headers_inv_def header_values_def Let_def)
qed


theorem headers_reachable_listing_witness:
  "\<exists>h. headersOf [(js_string ''B'', js_string ''1''), (js_string ''b'', js_string ''3'')] = Inr h \<and>
     map snd (filter (\<lambda>e. fst e = js_string ''b'') (fst (headersSorted h))) = [js_string ''1, 3'']"
proof -
  let ?h = "newHeaders\<lparr>hs_list := [(js_string ''b'', js_string ''1''), (js_string ''b'', js_string ''3'')]\<rparr>"
  have h: "headersOf [(js_string ''B'', js_string ''1''), (js_string ''b'', js_string ''3'')] = Inr ?h"
    by code_simp
  have "header_values ?h (js_string ''b'') = [js_string ''1'', js_string ''3'']"
    by (simp add: header_values_def)
  moreover have "joinComma [js_string ''1'', js_string ''3''] = js_string ''1, 3''" by code_simp
  ultimately show ?thesis
    using headers_reachable_listing [OF reach_of [OF h], of "js_string ''b''"] h by auto
qed

end
