(* ===== verification/Http1_Parser.thy ===== *)
theory Http1_Parser
  imports Fetch_Headers Http1_Io Js_Strings
begin

text \<open>
  HTTP/1 message heads and framing: \<^verbatim>\<open>runtime/web-platform/src/http1/parser.ts\<close> with the field
  parsers of \<^verbatim>\<open>http/fields.ts\<close> it calls. Lines come from the buffered reader of \<open>Http1_Io\<close>; every
  function that reads returns the reader beside its result.
\<close>

section \<open>Field lists\<close>

definition wireUnit :: "int \<Rightarrow> bool" where
  "wireUnit c \<longleftrightarrow> \<not> ((c < 32 \<and> c \<noteq> 9) \<or> c = 127 \<or> c > 255)"

definition validateWireValue :: "jsstring \<Rightarrow> unit result" where
  "validateWireValue v = (if list_all (\<lambda>u. wireUnit (uint u)) v then Inr () else Inl ProtocolError)"

record head_limits =
  hl_maxHeaderBytes :: nat
  hl_maxHeaders :: nat
  hl_maxInformational :: nat

definition defaultHeadLimits :: head_limits where
  "defaultHeadLimits = \<lparr>hl_maxHeaderBytes = 32768, hl_maxHeaders = 256, hl_maxInformational = 16\<rparr>"

text \<open>One field line that is not empty.\<close>

definition parseFieldLine :: "jsstring \<Rightarrow> header_entry result" where
  "parseFieldLine l =
     (case js_indexOf 58 l 0 of
        None \<Rightarrow> Inl ProtocolError
      | Some colon \<Rightarrow>
          (let name = str_slice l 0 colon
           in if colon = 0 \<or> \<not> isToken name then Inl ProtocolError
              else let v = str_slice l (colon + 1) (length l)
                   in res_bind (validateWireValue v) (\<lambda>_. Inr (toLowerCase name, trimHTTPTabOrSpace v))))"

function readFieldsLoop ::
    "'c read_fn \<Rightarrow> head_limits \<Rightarrow> header_entry list \<Rightarrow> nat \<Rightarrow> 'c buffered_reader \<Rightarrow>
     header_entry list result \<times> 'c buffered_reader" where
  "readFieldsLoop rd limits headers bytes r =
     (case line rd (hl_maxHeaderBytes limits - bytes) r of
        (Inl e, r') \<Rightarrow> (Inl e, r')
      | (Inr l, r') \<Rightarrow>
          (let bytes' = bytes + (length l + 2)
           in if l = [] then (Inr headers, r')
              else if length headers \<ge> hl_maxHeaders limits then (Inl LimitError, r')
              else case parseFieldLine l of
                     Inl e \<Rightarrow> (Inl e, r')
                   | Inr entry \<Rightarrow> readFieldsLoop rd limits (headers @ [entry]) bytes' r'))"
  by pat_completeness auto
termination
  by (relation "measure (\<lambda>(rd, limits, headers, bytes, r). hl_maxHeaders limits - length headers)") auto

declare readFieldsLoop.simps [simp del]

definition readHeaderFields ::
    "'c read_fn \<Rightarrow> head_limits \<Rightarrow> nat \<Rightarrow> 'c buffered_reader \<Rightarrow> header_entry list result \<times> 'c buffered_reader" where
  "readHeaderFields rd limits initialBytes r = readFieldsLoop rd limits [] initialBytes r"

section \<open>Heads\<close>

datatype http_version = HTTP_1_0 | HTTP_1_1

definition versionOf :: "jsstring \<Rightarrow> http_version option" where
  "versionOf s = (if s = js_string ''1.0'' then Some HTTP_1_0 else if s = js_string ''1.1'' then Some HTTP_1_1 else None)"

record response_head =
  rp_version :: http_version
  rp_status :: int
  rp_statusText :: jsstring
  rp_headers :: "header_entry list"

record request_head =
  rq_method :: jsstring
  rq_target :: jsstring
  rq_version :: http_version
  rq_headers :: "header_entry list"

definition statusLine :: "jsstring \<Rightarrow> (http_version \<times> int \<times> jsstring) result" where
  "statusLine l =
     (if length l < 13 \<or> str_slice l 0 5 \<noteq> js_string ''HTTP/'' \<or> charCodeAt l 8 \<noteq> Some 32 \<or> charCodeAt l 12 \<noteq> Some 32
      then Inl ProtocolError
      else
        (let version = versionOf (str_slice l 5 8);
             a = uint (l ! 9) - 48; b = uint (l ! 10) - 48; c = uint (l ! 11) - 48
         in case version of
              None \<Rightarrow> Inl ProtocolError
            | Some v \<Rightarrow>
                if a < 0 \<or> a > 9 \<or> b < 0 \<or> b > 9 \<or> c < 0 \<or> c > 9 then Inl ProtocolError
                else
                  (let statusText = str_slice l 13 (length l)
                   in res_bind (validateWireValue statusText) (\<lambda>_.
                      let status = a * 100 + b * 10 + c
                      in if status < 100 \<or> status > 599 then Inl ProtocolError
                         else Inr (v, status, statusText)))))"

definition readHead ::
    "'c read_fn \<Rightarrow> head_limits \<Rightarrow> 'c buffered_reader \<Rightarrow> response_head result \<times> 'c buffered_reader" where
  "readHead rd limits r =
     (case line rd (hl_maxHeaderBytes limits) r of
        (Inl e, r1) \<Rightarrow> (Inl e, r1)
      | (Inr l, r1) \<Rightarrow>
          (case statusLine l of
             Inl e \<Rightarrow> (Inl e, r1)
           | Inr (version, status, statusText) \<Rightarrow>
               (case readHeaderFields rd limits (length l + 2) r1 of
                  (Inl e, r2) \<Rightarrow> (Inl e, r2)
                | (Inr hs, r2) \<Rightarrow>
                    (Inr \<lparr>rp_version = version, rp_status = status, rp_statusText = statusText, rp_headers = hs\<rparr>, r2))))"

definition requestLine :: "jsstring \<Rightarrow> (jsstring \<times> jsstring \<times> http_version) result" where
  "requestLine l =
     (case (js_indexOf 32 l 0, js_lastIndexOf 32 l) of
        (Some firstSpace, Some lastSpace) \<Rightarrow>
          (if firstSpace = 0 \<or> lastSpace \<le> firstSpace + 1 then Inl ProtocolError
           else
             (let method = str_slice l 0 firstSpace
              in if \<not> isToken method then Inl ProtocolError
                 else
                   (let target = str_slice l (firstSpace + 1) lastSpace
                    in if list_ex (\<lambda>u. uint u < 0x21 \<or> uint u > 0x7e) target then Inl ProtocolError
                       else
                         (let versionField = str_slice l (lastSpace + 1) (length l)
                          in if length versionField \<noteq> 8 \<or> str_slice versionField 0 5 \<noteq> js_string ''HTTP/''
                             then Inl ProtocolError
                             else (case versionOf (str_slice versionField 5 (length versionField)) of
                                     None \<Rightarrow> Inl ProtocolError
                                   | Some v \<Rightarrow> Inr (method, target, v))))))
      | _ \<Rightarrow> Inl ProtocolError)"

definition readRequestHead ::
    "'c read_fn \<Rightarrow> head_limits \<Rightarrow> 'c buffered_reader \<Rightarrow> request_head result \<times> 'c buffered_reader" where
  "readRequestHead rd limits r =
     (case line rd (hl_maxHeaderBytes limits) r of
        (Inl e, r1) \<Rightarrow> (Inl e, r1)
      | (Inr l, r1) \<Rightarrow>
          (case requestLine l of
             Inl e \<Rightarrow> (Inl e, r1)
           | Inr (method, target, version) \<Rightarrow>
               (case readHeaderFields rd limits (length l + 2) r1 of
                  (Inl e, r2) \<Rightarrow> (Inl e, r2)
                | (Inr hs, r2) \<Rightarrow>
                    (Inr \<lparr>rq_method = method, rq_target = target, rq_version = version, rq_headers = hs\<rparr>, r2))))"

section \<open>Content-Length, Transfer-Encoding and tokens\<close>

text \<open>\<^verbatim>\<open>while (index < raw.length && p(raw.charCodeAt(index))) index++\<close>\<close>

definition skipWhile :: "(int \<Rightarrow> bool) \<Rightarrow> jsstring \<Rightarrow> nat \<Rightarrow> nat" where
  "skipWhile p raw index = trimStart p raw index (length raw)"

text \<open>
  The digits from \<open>index\<close> on, read as a number of the base. The exact number is used: a double
  rounds only above the safe range, where every later sum stays, and the callers reject those.
\<close>

function digitsLoop :: "(int \<Rightarrow> int) \<Rightarrow> int \<Rightarrow> jsstring \<Rightarrow> nat \<Rightarrow> int \<Rightarrow> int \<times> nat" where
  "digitsLoop digit base raw index acc =
     (if index < length raw
      then let d = digit (uint (raw ! index))
           in if d < 0 \<or> d \<ge> base then (acc, index) else digitsLoop digit base raw (index + 1) (acc * base + d)
      else (acc, index))"
  by auto
termination by (relation "measure (\<lambda>(digit, base, raw, index, acc). length raw - index)") auto

declare digitsLoop.simps [simp del]

lemma digitsLoop_index: "(n, j) = digitsLoop digit base raw i acc \<Longrightarrow> i \<le> j \<and> (i \<le> length raw \<longrightarrow> j \<le> length raw)"
proof (induction digit base raw i acc arbitrary: n j rule: digitsLoop.induct)
  case (1 digit base raw index acc)
  show ?case
    using 1 by (subst (asm) digitsLoop.simps) (fastforce simp: Let_def split: if_splits)
qed

lemma skipWhile_drop:
  "i \<le> length raw \<Longrightarrow> i \<le> skipWhile p raw i \<and> skipWhile p raw i \<le> length raw \<and>
     drop (skipWhile p raw i) raw = strip_left p (drop i raw)"
  using trimStart_drop [of i raw p] by (simp add: skipWhile_def)

lemma skipWhile_ge: "i \<le> skipWhile p raw i"
proof (cases "i \<le> length raw")
  case False
  then show ?thesis by (simp add: skipWhile_def trimStart.simps [of p raw i])
qed (use skipWhile_drop in blast)

function contentLengthLoop :: "jsstring \<Rightarrow> int option \<Rightarrow> nat \<Rightarrow> int result" where
  "contentLengthLoop raw result index =
     (let digitsStart = skipWhile isHTTPTabOrSpace raw index;
          (len, stop) = digitsLoop (\<lambda>c. c - 48) 10 raw digitsStart 0
      in if stop = digitsStart then Inl ProtocolError
         else if \<not> js_isSafeInteger len then Inl ProtocolError
         else
           (let i = skipWhile isHTTPTabOrSpace raw stop
            in if result \<noteq> None \<and> result \<noteq> Some len then Inl ProtocolError
               else if i = length raw then Inr len
               else if charCodeAt raw i \<noteq> Some 44 then Inl ProtocolError
               else contentLengthLoop raw (Some len) (i + 1)))"
  by pat_completeness auto
termination
proof (relation "measure (\<lambda>(raw, result, index). length raw - index)", goal_cases)
  case (2 raw result index digitsStart p len stop i)
  then have "index \<le> digitsStart" "digitsStart \<le> stop" "stop \<le> i" "i < length raw"
    using skipWhile_ge digitsLoop_index by (auto simp: charCodeAt_def split: if_splits)
  then show ?case by simp
qed simp

declare contentLengthLoop.simps [simp del]

definition contentLength :: "headers \<Rightarrow> int option result" where
  "contentLength h =
     res_bind (headers_get (js_string ''content-length'') h) (\<lambda>raw.
       case raw of
         None \<Rightarrow> Inr None
       | Some v \<Rightarrow> res_bind (contentLengthLoop v None 0) (\<lambda>n. Inr (Some n)))"

function hasTokenLoop :: "jsstring \<Rightarrow> jsstring \<Rightarrow> nat \<Rightarrow> bool" where
  "hasTokenLoop raw expected start =
     (if start \<le> length raw
      then let comma = js_indexOf 44 raw start;
               stop = (case comma of None \<Rightarrow> length raw | Some i \<Rightarrow> i)
           in if toLowerCase (trimHTTPTabOrSpace (str_slice raw start stop)) = expected then True
              else if comma = None then False
              else hasTokenLoop raw expected (stop + 1)
      else False)"
  by pat_completeness auto
termination
proof (relation "measure (\<lambda>(raw, expected, start). Suc (length raw) - start)", goal_cases)
  case (2 raw expected start comma stop)
  then obtain i where "js_indexOf 44 raw start = Some i" "stop = i" by auto
  then show ?case by (auto simp: js_indexOf_Some)
qed simp

declare hasTokenLoop.simps [simp del]

definition hasToken :: "headers \<Rightarrow> jsstring \<Rightarrow> jsstring \<Rightarrow> bool result" where
  "hasToken h name token =
     res_bind (headers_get name h) (\<lambda>raw.
       case raw of None \<Rightarrow> Inr False | Some v \<Rightarrow> Inr (hasTokenLoop v (toLowerCase token) 0))"

datatype framing_kind = Framing_Chunked | Framing_Fixed | Framing_Eof

definition responseFraming :: "headers \<Rightarrow> (framing_kind \<times> int) result" where
  "responseFraming h =
     res_bind (contentLength h) (\<lambda>len.
     res_bind (headers_get (js_string ''transfer-encoding'') h) (\<lambda>transferEncoding.
       case transferEncoding of
         Some te \<Rightarrow>
           (if len \<noteq> None then Inl ProtocolError
            else if toLowerCase (trimHTTPTabOrSpace te) \<noteq> js_string ''chunked'' then Inl ProtocolError
            else Inr (Framing_Chunked, 0))
       | None \<Rightarrow> (case len of None \<Rightarrow> Inr (Framing_Eof, 0) | Some n \<Rightarrow> Inr (Framing_Fixed, n))))"

section \<open>Lemmas: trimming and scanning\<close>

lemma trimHTTPTabOrSpace_eq: "trimHTTPTabOrSpace v = strip_right isHTTPTabOrSpace (strip_left isHTTPTabOrSpace v)"
  by (rule trim_eq)

lemma strip_left_append:
  "\<forall>u\<in>set a. p (uint u) \<Longrightarrow> strip_left p (a @ b) = strip_left p b"
  by (induction a) (auto simp: strip_left_def)

lemma strip_left_id: "b = [] \<or> \<not> p (uint (hd b)) \<Longrightarrow> strip_left p b = b"
  by (cases b) (auto simp: strip_left_def)

lemma strip_right_append:
  "\<forall>u\<in>set a. p (uint u) \<Longrightarrow> strip_right p (b @ a) = strip_right p b"
  by (simp add: strip_right_def strip_left_append)

lemma strip_right_id: "b = [] \<or> \<not> p (uint (last b)) \<Longrightarrow> strip_right p b = b"
  by (simp add: strip_right_def strip_left_id hd_rev)

lemma strip_left_split: "\<exists>a. v = a @ strip_left p v \<and> (\<forall>u\<in>set a. p (uint u))"
  by (rule exI [of _ "takeWhile (\<lambda>u. p (uint u)) v"]) (auto simp: strip_left_def dest: set_takeWhileD)

lemma strip_right_split: "\<exists>b. v = strip_right p v @ b \<and> (\<forall>u\<in>set b. p (uint u))"
proof -
  obtain a where a: "rev v = a @ strip_left p (rev v)" "\<forall>u\<in>set a. p (uint u)"
    using strip_left_split by blast
  from arg_cong [OF a(1), of rev] have "v = strip_right p v @ rev a" by (simp add: strip_right_def)
  then show ?thesis using a(2) by (intro exI [of _ "rev a"]) simp
qed

lemma js_split_unfold:
  "js_split c xs = takeWhile (\<lambda>u. u \<noteq> c) xs #
     (case dropWhile (\<lambda>u. u \<noteq> c) xs of [] \<Rightarrow> [] | u # ys \<Rightarrow> js_split c ys)"
  by (induction xs) auto

lemma js_split_append: "js_split c (v @ c # w) = js_split c v @ js_split c w"
proof (induction v)
  case (Cons u v)
  then show ?case by (cases "js_split c v") (auto simp: js_split_unfold [of c v])
qed simp

lemma digitsLoop_eq:
  assumes "\<And>u. u \<in> set raw \<Longrightarrow> good u \<longleftrightarrow> 0 \<le> digit (uint u) \<and> digit (uint u) < base"
  shows "index \<le> length raw \<Longrightarrow> digitsLoop digit base raw index acc =
    (fold (\<lambda>u n. n * base + digit (uint u)) (takeWhile good (drop index raw)) acc,
     index + length (takeWhile good (drop index raw)))"
  using assms
proof (induction digit base raw index acc rule: digitsLoop.induct)
  case (1 digit base raw index acc)
  show ?case
  proof (cases "index < length raw")
    case True
    then have d: "drop index raw = raw ! index # drop (index + 1) raw" using Cons_nth_drop_Suc by force
    show ?thesis
    proof (cases "good (raw ! index)")
      case True
      then have "\<not> (digit (uint (raw ! index)) < 0 \<or> base \<le> digit (uint (raw ! index)))"
        using "1.prems"(2) [of "raw ! index"] \<open>index < length raw\<close> by auto
      then show ?thesis using 1 True \<open>index < length raw\<close> by (subst digitsLoop.simps) (simp add: d Let_def)
    next
      case False
      then have "digit (uint (raw ! index)) < 0 \<or> base \<le> digit (uint (raw ! index))"
        using "1.prems"(2) [of "raw ! index"] \<open>index < length raw\<close> by auto
      then show ?thesis using False \<open>index < length raw\<close> by (subst digitsLoop.simps) (simp add: d Let_def)
    qed
  next
    case False
    then show ?thesis by (subst digitsLoop.simps) simp
  qed
qed

section \<open>Lemmas: Content-Length\<close>

text \<open>One member of a list: blanks, digits, blanks, and the end or a comma.\<close>

definition length_member :: "jsstring \<Rightarrow> jsstring \<Rightarrow> jsstring \<Rightarrow> bool" where
  "length_member xs ds z \<longleftrightarrow>
     (\<exists>a b. xs = a @ ds @ b @ z \<and> (\<forall>u\<in>set a. isHTTPTabOrSpace (uint u)) \<and> (\<forall>u\<in>set b. isHTTPTabOrSpace (uint u)) \<and>
        ds \<noteq> [] \<and> list_all is_digit_unit ds \<and> (z = [] \<or> hd z = 44))"

lemma blank_units:
  "isHTTPTabOrSpace (uint u) \<Longrightarrow> \<not> is_digit_unit u \<and> u \<noteq> (44 :: code_unit)"
  "is_digit_unit u \<Longrightarrow> \<not> isHTTPTabOrSpace (uint u) \<and> u \<noteq> 44"
  by (auto simp: isHTTPTabOrSpace_def is_digit_unit_def)

lemma length_member_computed:
  assumes "length_member xs ds z"
  shows "takeWhile is_digit_unit (strip_left isHTTPTabOrSpace xs) = ds"
    "strip_left isHTTPTabOrSpace (dropWhile is_digit_unit (strip_left isHTTPTabOrSpace xs)) = z"
    "trimHTTPTabOrSpace (takeWhile (\<lambda>u. u \<noteq> 44) xs) = ds" "dropWhile (\<lambda>u. u \<noteq> 44) xs = z"
proof -
  obtain a b where x: "xs = a @ ds @ b @ z" "\<forall>u\<in>set a. isHTTPTabOrSpace (uint u)" "\<forall>u\<in>set b. isHTTPTabOrSpace (uint u)"
    "ds \<noteq> []" "list_all is_digit_unit ds" "z = [] \<or> hd z = 44"
    using assms by (auto simp: length_member_def)
  have ends: "is_digit_unit (hd ds)" "is_digit_unit (last ds)" using x(4,5) by (cases ds; auto simp: list_all_iff)+
  have l: "strip_left isHTTPTabOrSpace xs = ds @ b @ z"
    using x ends(1) blank_units(2) [of "hd ds"] by (simp add: strip_left_append strip_left_id)
  have nd: "\<not> is_digit_unit (hd (b @ z))" if "b @ z \<noteq> []"
    using that x(3,6) blank_units(1) [of "hd b"] by (cases b) (auto simp: is_digit_unit_def)
  show "takeWhile is_digit_unit (strip_left isHTTPTabOrSpace xs) = ds"
    unfolding l using x(5) nd by (cases "b @ z") (auto simp: takeWhile_append2 list_all_iff)
  have "dropWhile is_digit_unit (ds @ b @ z) = b @ z"
    using x(5) nd by (cases "b @ z") (auto simp: dropWhile_append2 list_all_iff)
  moreover have "strip_left isHTTPTabOrSpace (b @ z) = z"
    using x(3,6) by (auto simp: strip_left_append intro!: strip_left_id) (simp add: isHTTPTabOrSpace_def)
  ultimately show "strip_left isHTTPTabOrSpace (dropWhile is_digit_unit (strip_left isHTTPTabOrSpace xs)) = z"
    by (simp add: l)
  have no: "\<forall>u\<in>set (a @ ds @ b). u \<noteq> 44"
    using x(2,3,5) by (auto simp: list_all_iff isHTTPTabOrSpace_def is_digit_unit_def)
  then have t: "takeWhile (\<lambda>u. u \<noteq> 44) ((a @ ds @ b) @ z) = a @ ds @ b"
    "dropWhile (\<lambda>u. u \<noteq> 44) ((a @ ds @ b) @ z) = z"
    using x(6) by (cases z; simp add: takeWhile_append2 dropWhile_append2)+
  then show "dropWhile (\<lambda>u. u \<noteq> 44) xs = z" by (simp add: x(1))
  have "strip_right isHTTPTabOrSpace (strip_left isHTTPTabOrSpace (a @ ds @ b)) = ds"
    using x(2,3) ends blank_units(2) [of "hd ds"] blank_units(2) [of "last ds"] x(4)
    by (simp add: strip_left_append strip_left_id strip_right_append strip_right_id)
  then show "trimHTTPTabOrSpace (takeWhile (\<lambda>u. u \<noteq> 44) xs) = ds"
    using t by (simp add: x(1) trimHTTPTabOrSpace_eq)
qed

lemma length_member_exists:
  assumes "trimHTTPTabOrSpace (takeWhile (\<lambda>u. u \<noteq> 44) xs) = ds" and "ds \<noteq> []" and "list_all is_digit_unit ds"
  shows "length_member xs ds (dropWhile (\<lambda>u. u \<noteq> 44) xs)"
proof -
  let ?m = "takeWhile (\<lambda>u. u \<noteq> 44) xs" and ?z = "dropWhile (\<lambda>u. u \<noteq> 44) xs"
  obtain a where a: "?m = a @ strip_left isHTTPTabOrSpace ?m" "\<forall>u\<in>set a. isHTTPTabOrSpace (uint u)"
    using strip_left_split by blast
  have "strip_right isHTTPTabOrSpace (strip_left isHTTPTabOrSpace ?m) = ds"
    using assms(1) by (simp only: trimHTTPTabOrSpace_eq)
  then obtain b where b: "strip_left isHTTPTabOrSpace ?m = ds @ b" "\<forall>u\<in>set b. isHTTPTabOrSpace (uint u)"
    using strip_right_split by blast
  have "xs = ?m @ ?z" by simp
  also have "?m = a @ ds @ b" using a(1) b(1) by simp
  finally have "xs = a @ ds @ b @ ?z" by simp
  moreover have "?z = [] \<or> hd ?z = 44" using hd_dropWhile [of "\<lambda>u. u \<noteq> 44" xs] by blast
  ultimately show ?thesis using assms(2,3) a(2) b(2) unfolding length_member_def by blast
qed

lemma charCodeAt_drop: "charCodeAt raw i = (case drop i raw of [] \<Rightarrow> None | u # _ \<Rightarrow> Some (uint u))"
  by (cases "i < length raw") (auto simp: charCodeAt_def simp flip: Cons_nth_drop_Suc)

lemma end_drop: "i \<le> length raw \<Longrightarrow> i = length raw \<longleftrightarrow> drop i raw = []"
  by auto

lemma uint_44: "uint u = 44 \<longleftrightarrow> u = (44 :: code_unit)"
  by (simp add: word_uint_eq_iff)

lemma contentLengthLoop_list:
  assumes "index \<le> length raw" and "w = strip_left isHTTPTabOrSpace (drop index raw)"
    and "ds = takeWhile is_digit_unit w" and "z = strip_left isHTTPTabOrSpace (dropWhile is_digit_unit w)"
  shows "\<exists>i. i \<le> length raw \<and> drop i raw = z \<and> (ds \<noteq> [] \<longrightarrow> index < i) \<and> contentLengthLoop raw result index =
    (if ds = [] \<or> \<not> js_isSafeInteger (digits_number ds) \<or> (result \<noteq> None \<and> result \<noteq> Some (digits_number ds))
     then Inl ProtocolError
     else if z = [] then Inr (digits_number ds)
     else if hd z \<noteq> 44 then Inl ProtocolError
     else contentLengthLoop raw (Some (digits_number ds)) (i + 1))"
proof -
  let ?s = "skipWhile isHTTPTabOrSpace raw index"
  have s: "index \<le> ?s" "?s \<le> length raw" "drop ?s raw = w"
    using skipWhile_drop [OF assms(1), of isHTTPTabOrSpace] assms(2) by auto
  have "is_digit_unit u \<longleftrightarrow> 0 \<le> uint u - 48 \<and> uint u - 48 < 10" for u by (auto simp: is_digit_unit_def)
  then have d: "digitsLoop (\<lambda>c. c - 48) 10 raw ?s 0 = (digits_number ds, ?s + length ds)"
    using digitsLoop_eq [of raw is_digit_unit "\<lambda>c. c - 48" 10, OF _ s(2)] s(3) assms(3)
    by (simp add: digits_number_def)
  have "length ds \<le> length w" using assms(3) by (simp add: length_takeWhile_le)
  then have e: "?s + length ds \<le> length raw" "drop (?s + length ds) raw = dropWhile is_digit_unit w"
  proof -
    have "drop (?s + length ds) raw = drop (length ds) w" using s(3) by (metis add.commute drop_drop)
    then show "drop (?s + length ds) raw = dropWhile is_digit_unit w" by (simp add: assms(3) dropWhile_eq_drop)
  qed (use s \<open>length ds \<le> length w\<close> in auto)
  let ?i = "skipWhile isHTTPTabOrSpace raw (?s + length ds)"
  have i: "?s + length ds \<le> ?i" "?i \<le> length raw" "drop ?i raw = z"
    using skipWhile_drop [OF e(1), of isHTTPTabOrSpace] e(2) assms(4) by auto
  have "charCodeAt raw ?i = Some 44 \<longleftrightarrow> z \<noteq> [] \<and> hd z = 44"
    using i(3) by (cases z) (auto simp: charCodeAt_drop uint_44)
  moreover have "?i = length raw \<longleftrightarrow> z = []" using i end_drop by blast
  moreover have "ds \<noteq> [] \<longrightarrow> index < ?i" using s(1) i(1) by (cases ds) auto
  ultimately show ?thesis using i
    by (intro exI [of _ ?i]) (subst contentLengthLoop.simps, auto simp: d Let_def)
qed

lemma contentLengthLoop_iff:
  "index \<le> length raw \<Longrightarrow> contentLengthLoop raw result index = Inr n \<longleftrightarrow>
     (\<forall>m\<in>set (js_split 44 (drop index raw)). length_text n (trimHTTPTabOrSpace m)) \<and> (result = None \<or> result = Some n)"
proof (induction "length raw - index" arbitrary: index result rule: less_induct)
  case less
  define xs where "xs = drop index raw"
  define w where "w = strip_left isHTTPTabOrSpace xs"
  define ds where "ds = takeWhile is_digit_unit w"
  define z where "z = strip_left isHTTPTabOrSpace (dropWhile is_digit_unit w)"
  obtain i where i: "i \<le> length raw" "drop i raw = z" "ds \<noteq> [] \<longrightarrow> index < i"
    "contentLengthLoop raw result index =
      (if ds = [] \<or> \<not> js_isSafeInteger (digits_number ds) \<or> (result \<noteq> None \<and> result \<noteq> Some (digits_number ds))
       then Inl ProtocolError
       else if z = [] then Inr (digits_number ds)
       else if hd z \<noteq> 44 then Inl ProtocolError
       else contentLengthLoop raw (Some (digits_number ds)) (i + 1))"
    using contentLengthLoop_list [OF less.prems w_def [unfolded xs_def] ds_def z_def] by blast
  let ?m = "takeWhile (\<lambda>u. u \<noteq> 44) xs"
  show ?case
  proof (cases "ds \<noteq> [] \<and> (z = [] \<or> hd z = 44)")
    case True
    have "xs = takeWhile (\<lambda>u. isHTTPTabOrSpace (uint u)) xs @ ds @
        takeWhile (\<lambda>u. isHTTPTabOrSpace (uint u)) (dropWhile is_digit_unit w) @ z"
      by (simp add: ds_def z_def w_def strip_left_def)
    then have "length_member xs ds z"
      unfolding length_member_def using True
      by (intro exI conjI) (auto simp: ds_def list_all_iff dest: set_takeWhileD)
    note c = length_member_computed(3,4) [OF this]
    have all: "list_all is_digit_unit ds" by (auto simp: ds_def list_all_iff dest: set_takeWhileD)
    then have lt: "length_text k ds \<longleftrightarrow> k = digits_number ds \<and> js_isSafeInteger k" for k
      using True by (auto simp: length_text_def)
    have split: "js_split 44 (drop index raw) = ?m # (case z of [] \<Rightarrow> [] | u # ys \<Rightarrow> js_split 44 ys)"
      by (subst js_split_unfold) (simp only: c(2) xs_def [symmetric])
    show ?thesis
    proof (cases z)
      case Nil
      then have "js_split 44 (drop index raw) = [?m]" using split by simp
      then show ?thesis using Nil True c(1) lt by (auto simp: i(4))
    next
      case (Cons u y)
      then have u: "u = 44" using True by simp
      have "js_split 44 (drop index raw) = ?m # js_split 44 y"
        using split Cons u by simp
      moreover have "drop (i + 1) raw = y" "i < length raw"
      proof -
        show "drop (i + 1) raw = y" using i(2) Cons by (metis Suc_eq_plus1 drop_Suc drop_tl list.sel(3))
        show "i < length raw" using i(2) Cons by (metis drop_all leI list.distinct(1))
      qed
      moreover have "contentLengthLoop raw (Some (digits_number ds)) (i + 1) = Inr n \<longleftrightarrow>
          (\<forall>m\<in>set (js_split 44 (drop (i + 1) raw)). length_text n (trimHTTPTabOrSpace m)) \<and>
          (Some (digits_number ds) = None \<or> Some (digits_number ds) = Some n)"
        using less.hyps [of "i + 1" "Some (digits_number ds)"] i(3) True \<open>i < length raw\<close> by simp
      ultimately show ?thesis using Cons u True c(1) lt by (auto simp: i(4))
    qed
  next
    case False
    have "\<not> length_text n (trimHTTPTabOrSpace ?m)"
    proof
      assume "length_text n (trimHTTPTabOrSpace ?m)"
      then have m: "length_member xs (trimHTTPTabOrSpace ?m) (dropWhile (\<lambda>u. u \<noteq> 44) xs)"
        by (intro length_member_exists) (auto simp: length_text_def)
      have "ds = trimHTTPTabOrSpace ?m" "z = dropWhile (\<lambda>u. u \<noteq> 44) xs"
        using length_member_computed(1,2) [OF m] by (simp_all add: ds_def z_def w_def)
      then show False using False m unfolding length_member_def by blast
    qed
    moreover have "?m \<in> set (js_split 44 (drop index raw))" by (subst js_split_unfold) (simp add: xs_def)
    ultimately show ?thesis using False by (auto simp: i(4))
  qed
qed

section \<open>Lemmas: framing fields\<close>

lemma framing_names:
  "normalizeName (js_string ''content-length'') = Inr (js_string ''content-length'')"
  "normalizeName (js_string ''transfer-encoding'') = Inr (js_string ''transfer-encoding'')"
  by code_simp+

lemma headers_get_framing:
  "headers_get (js_string ''content-length'') h = Inr (getConverted (js_string ''content-length'') h)"
  "headers_get (js_string ''transfer-encoding'') h = Inr (getConverted (js_string ''transfer-encoding'') h)"
  by (simp_all add: headers_get_def framing_names)

lemma trim_space: "trimHTTPTabOrSpace (32 # m) = trimHTTPTabOrSpace m"
  by (simp add: trimHTTPTabOrSpace_eq strip_left_def isHTTPTabOrSpace_def)

lemma js_split_space: "\<exists>m ms. js_split 44 w = m # ms \<and> js_split 44 (32 # w) = (32 # m) # ms"
  using js_split_unfold [of 44 w] by (simp split: list.splits)

lemma joinComma_members:
  "vs \<noteq> [] \<Longrightarrow> (\<forall>m\<in>set (js_split 44 (joinComma vs)). P (trimHTTPTabOrSpace m)) \<longleftrightarrow>
     (\<forall>v\<in>set vs. \<forall>m\<in>set (js_split 44 v). P (trimHTTPTabOrSpace m))"
proof (induction vs rule: joinComma.induct)
  case (3 v w vs)
  obtain m ms where "js_split 44 (joinComma (w # vs)) = m # ms" "js_split 44 (32 # joinComma (w # vs)) = (32 # m) # ms"
    using js_split_space by blast
  moreover have "js_string '', '' = [44, 32]" by code_simp
  ultimately show ?case using 3 js_split_append [of 44 v "32 # joinComma (w # vs)"] by (auto simp: trim_space)
qed simp_all

lemma contentLength_iff:
  "contentLength h = Inr r \<longleftrightarrow>
     (let cl = header_values h (js_string ''content-length'')
      in case r of None \<Rightarrow> cl = []
         | Some n \<Rightarrow> cl \<noteq> [] \<and> (\<forall>v\<in>set cl. \<forall>m\<in>set (js_split 44 v). length_text n (trimHTTPTabOrSpace m)))"
  using contentLengthLoop_iff [of 0 "joinComma (header_values h (js_string ''content-length''))" None]
    joinComma_members [of "header_values h (js_string ''content-length'')"]
  by (cases r) (auto simp: contentLength_def headers_get_framing getConverted_eq res_bind_Inr_iff Let_def)

lemma joinComma_comma: "vs = v # w # vs' \<Longrightarrow> 44 \<in> set (joinComma vs)"
proof -
  have "js_string '', '' = [44, 32]" by code_simp
  then show "vs = v # w # vs' \<Longrightarrow> 44 \<in> set (joinComma vs)" by simp
qed

lemma trim_keeps: "u \<in> set v \<Longrightarrow> \<not> isHTTPTabOrSpace (uint u) \<Longrightarrow> u \<in> set (trimHTTPTabOrSpace v)"
proof -
  have left: "u \<in> set v \<Longrightarrow> \<not> isHTTPTabOrSpace (uint u) \<Longrightarrow> u \<in> set (strip_left isHTTPTabOrSpace v)" for v
    using strip_left_split [of v isHTTPTabOrSpace] by (metis Un_iff set_append)
  assume "u \<in> set v" "\<not> isHTTPTabOrSpace (uint u)"
  then show ?thesis using left [of v] left [of "rev (strip_left isHTTPTabOrSpace v)"]
    by (simp add: trimHTTPTabOrSpace_eq strip_right_def)
qed

lemma chunked_single:
  "vs \<noteq> [] \<and> toLowerCase (trimHTTPTabOrSpace (joinComma vs)) = js_string ''chunked'' \<longleftrightarrow>
     (\<exists>v. vs = [v] \<and> toLowerCase (trimHTTPTabOrSpace v) = js_string ''chunked'')"
proof (cases vs rule: joinComma.cases)
  case (3 v w vs')
  have "44 \<in> set (trimHTTPTabOrSpace (joinComma vs))"
    using joinComma_comma [OF 3] by (rule trim_keeps) (simp add: isHTTPTabOrSpace_def)
  moreover have "lowerUnit 44 = 44" by code_simp
  ultimately have "44 \<in> set (toLowerCase (trimHTTPTabOrSpace (joinComma vs)))" by (force simp: toLowerCase_def)
  moreover have "44 \<notin> set (js_string ''chunked'')" by code_simp
  ultimately show ?thesis using 3 by auto
qed auto

lemma contentLengthLoop_error: "contentLengthLoop raw result index = Inl e \<Longrightarrow> e = ProtocolError"
proof (induction raw result index rule: contentLengthLoop.induct)
  case (1 raw result index)
  let ?s = "skipWhile isHTTPTabOrSpace raw index"
  obtain len stop where d: "digitsLoop (\<lambda>c. c - 48) 10 raw ?s 0 = (len, stop)" by fastforce
  note IH = "1.IH" [OF refl refl d [symmetric] _ _ refl]
  show ?case using "1.prems" [unfolded contentLengthLoop.simps [of raw result index]] IH
    by (auto simp: Let_def d split: if_split_asm)
qed

lemma responseFraming_cases:
  "responseFraming h =
     (let te = header_values h (js_string ''transfer-encoding'')
      in case contentLength h of
           Inl e \<Rightarrow> Inl e
         | Inr len \<Rightarrow>
             if te = [] then Inr (case len of None \<Rightarrow> (Framing_Eof, 0) | Some n \<Rightarrow> (Framing_Fixed, n))
             else if len = None \<and> (\<exists>v. te = [v] \<and> toLowerCase (trimHTTPTabOrSpace v) = js_string ''chunked'')
             then Inr (Framing_Chunked, 0) else Inl ProtocolError)"
  using chunked_single [of "header_values h (js_string ''transfer-encoding'')"]
  by (auto simp: responseFraming_def headers_get_framing getConverted_eq Let_def split: sum.splits option.splits)

lemma responseFraming_error: "responseFraming h = Inl e \<Longrightarrow> e = ProtocolError"
proof -
  have "contentLength h = Inl e \<Longrightarrow> e = ProtocolError"
    by (auto simp: contentLength_def headers_get_framing res_bind_Inl_iff dest: contentLengthLoop_error split: option.splits)
  then show "responseFraming h = Inl e \<Longrightarrow> e = ProtocolError"
    by (auto simp: responseFraming_cases Let_def split: sum.splits if_splits)
qed

lemma responseFraming_iff:
  "responseFraming h = Inr (kind, n) \<longleftrightarrow>
     (let te = header_values h (js_string ''transfer-encoding''); cl = header_values h (js_string ''content-length'')
      in kind = Framing_Chunked \<and> n = 0 \<and> cl = [] \<and>
           (\<exists>v. te = [v] \<and> toLowerCase (trimHTTPTabOrSpace v) = js_string ''chunked'') \<or>
         kind = Framing_Fixed \<and> te = [] \<and> cl \<noteq> [] \<and>
           (\<forall>v\<in>set cl. \<forall>m\<in>set (js_split 44 v). length_text n (trimHTTPTabOrSpace m)) \<or>
         kind = Framing_Eof \<and> n = 0 \<and> te = [] \<and> cl = [])"
proof -
  have *: "responseFraming h = Inr (kind, n) \<longleftrightarrow>
     (let te = header_values h (js_string ''transfer-encoding'')
      in kind = Framing_Chunked \<and> n = 0 \<and> contentLength h = Inr None \<and>
           (\<exists>v. te = [v] \<and> toLowerCase (trimHTTPTabOrSpace v) = js_string ''chunked'') \<or>
         kind = Framing_Fixed \<and> te = [] \<and> contentLength h = Inr (Some n) \<or>
         kind = Framing_Eof \<and> n = 0 \<and> te = [] \<and> contentLength h = Inr None)"
    unfolding responseFraming_cases Let_def by (cases "contentLength h") (auto split: option.splits if_splits)
  show ?thesis unfolding * by (simp add: contentLength_iff Let_def)
qed

section \<open>Lemmas: token lists\<close>

lemma js_indexOf_drop:
  "start \<le> length s \<Longrightarrow> js_indexOf c s start =
    (if c \<in> set (drop start s) then Some (start + length (takeWhile (\<lambda>u. u \<noteq> c) (drop start s))) else None)"
proof (induction c s start rule: js_indexOf.induct)
  case (1 c s start)
  show ?case
  proof (cases "start < length s")
    case True
    then have "drop start s = s ! start # drop (start + 1) s" using Cons_nth_drop_Suc by force
    then show ?thesis using 1 True by (subst js_indexOf.simps) auto
  qed (subst js_indexOf.simps, simp)
qed

lemma hasTokenLoop_iff:
  "start \<le> length raw \<Longrightarrow> hasTokenLoop raw expected start \<longleftrightarrow>
     (\<exists>m\<in>set (js_split 44 (drop start raw)). toLowerCase (trimHTTPTabOrSpace m) = expected)"
proof (induction raw expected start rule: hasTokenLoop.induct)
  case (1 raw expected start)
  define m where "m = takeWhile (\<lambda>u. u \<noteq> 44) (drop start raw)"
  show ?case
  proof (cases "dropWhile (\<lambda>u. u \<noteq> 44) (drop start raw)")
    case Nil
    then have "js_indexOf 44 raw start = None" using 1(2) by (auto simp: js_indexOf_drop)
    moreover have "m = drop start raw" using Nil unfolding m_def by (metis append_Nil2 takeWhile_dropWhile_id)
    moreover have "js_split 44 (drop start raw) = [m]" by (subst js_split_unfold) (simp only: Nil m_def list.case)
    ultimately show ?thesis using 1(2) by (subst hasTokenLoop.simps) (simp add: str_slice_def)
  next
    case (Cons u ys)
    have d: "drop start raw = m @ u # ys" using Cons unfolding m_def by (metis takeWhile_dropWhile_id)
    have "u = 44" using hd_dropWhile [of "\<lambda>u. u \<noteq> 44" "drop start raw"] Cons by simp
    then have in44: "44 \<in> set (drop start raw)" using d by simp
    have i: "js_indexOf 44 raw start = Some (start + length m)" using 1(2) in44 by (simp add: js_indexOf_drop m_def)
    from arg_cong [OF d, of length] have len: "start + length m + 1 \<le> length raw" by simp
    have ys: "drop (start + length m + 1) raw = ys"
      using arg_cong [OF d, of "drop (length m + 1)"] by (simp add: add.commute add.left_commute)
    have split: "js_split 44 (drop start raw) = m # js_split 44 ys"
      using Cons by (subst js_split_unfold) (simp add: m_def)
    have s: "str_slice raw start (start + length m) = m" using d by (simp add: str_slice_def)
    show ?thesis
      using 1(1) [OF 1(2) refl refl] 1(2) i len ys split s by (subst hasTokenLoop.simps) (auto simp: Let_def)
  qed
qed

section \<open>Lemmas: heads\<close>

lemma drop_nth: "i < length l \<Longrightarrow> drop i l = l ! i # drop (i + 1) l"
  using Cons_nth_drop_Suc by force

lemma validateWireValue_ok: "validateWireValue v = Inr () \<longleftrightarrow> (\<forall>u\<in>set v. wireUnit (uint u))"
  by (auto simp: validateWireValue_def list_all_iff)

definition version_text :: "http_version \<Rightarrow> jsstring" where
  "version_text v = js_string (case v of HTTP_1_0 \<Rightarrow> ''1.0'' | HTTP_1_1 \<Rightarrow> ''1.1'')"

lemma versionOf_iff: "versionOf s = Some v \<longleftrightarrow> s = version_text v"
  by (cases v) (auto simp: versionOf_def version_text_def)

lemma version_text_length: "length (version_text v) = 3"
  by (cases v) (simp_all add: version_text_def)

lemma http_text: "js_string ''HTTP/'' = [72, 84, 84, 80, 47]"
  by code_simp

lemma uint_32: "uint u = 32 \<longleftrightarrow> u = (32 :: code_unit)"
  by (simp add: word_uint_eq_iff)

definition target_text :: "jsstring \<Rightarrow> bool" where
  "target_text t \<longleftrightarrow> t \<noteq> [] \<and> (\<forall>u\<in>set t. 0x21 \<le> uint u \<and> uint u \<le> 0x7e)"

lemma version_field:
  "length f = 8 \<and> str_slice f 0 5 = js_string ''HTTP/'' \<and> versionOf (str_slice f 5 (length f)) = Some v \<longleftrightarrow>
     f = js_string ''HTTP/'' @ version_text v"
proof
  assume f: "length f = 8 \<and> str_slice f 0 5 = js_string ''HTTP/'' \<and> versionOf (str_slice f 5 (length f)) = Some v"
  then have "take 5 f = js_string ''HTTP/''" "drop 5 f = version_text v" by (simp_all add: str_slice_def versionOf_iff)
  then show "f = js_string ''HTTP/'' @ version_text v" by (metis append_take_drop_id)
next
  assume "f = js_string ''HTTP/'' @ version_text v"
  then show "length f = 8 \<and> str_slice f 0 5 = js_string ''HTTP/'' \<and> versionOf (str_slice f 5 (length f)) = Some v"
    by (simp add: str_slice_def version_text_length versionOf_iff)
qed

lemma requestLine_iff:
  "requestLine l = Inr (m, t, v) \<longleftrightarrow>
     l = m @ 32 # t @ 32 # js_string ''HTTP/'' @ version_text v \<and> isToken m \<and> target_text t"
proof
  assume r: "requestLine l = Inr (m, t, v)"
  obtain f s where fs: "js_indexOf 32 l 0 = Some f" "js_lastIndexOf 32 l = Some s"
    using r by (auto simp: requestLine_def split: option.splits)
  let ?v = "str_slice l (s + 1) (length l)"
  have c: "f \<noteq> 0" "f + 1 < s" "isToken (str_slice l 0 f)" "m = str_slice l 0 f" "t = str_slice l (f + 1) s"
    "\<not> list_ex (\<lambda>u. uint u < 0x21 \<or> uint u > 0x7e) t"
    "length ?v = 8 \<and> str_slice ?v 0 5 = js_string ''HTTP/'' \<and> versionOf (str_slice ?v 5 (length ?v)) = Some v"
    using r unfolding requestLine_def fs by (auto simp: Let_def split: if_split_asm option.splits)
  have i: "l ! f = 32" "l ! s = 32" "s < length l"
    using fs c(2) by (auto simp: js_indexOf_Some js_lastIndexOf_def lastIndexBelow_Some)
  have "l = take f l @ l ! f # drop (f + 1) l" using id_take_nth_drop [of f l] i c(2) by simp
  also have "drop (f + 1) l = take (s - (f + 1)) (drop (f + 1) l) @ drop s l"
    using c(2) by (metis append_take_drop_id drop_drop le_add_diff_inverse2 less_imp_le)
  also have "drop s l = l ! s # drop (s + 1) l" using drop_nth [OF i(3)] .
  also have "drop (s + 1) l = js_string ''HTTP/'' @ version_text v"
    using c(7) unfolding version_field by (simp add: str_slice_def)
  finally show "l = m @ 32 # t @ 32 # js_string ''HTTP/'' @ version_text v \<and> isToken m \<and> target_text t"
    using c i by (auto simp: str_slice_def target_text_def list_ex_iff)
next
  assume r: "l = m @ 32 # t @ 32 # js_string ''HTTP/'' @ version_text v \<and> isToken m \<and> target_text t"
  let ?f = "js_string ''HTTP/'' @ version_text v"
  have "\<not> tokenUnit (uint (32 :: code_unit))" by (simp add: tokenUnit_def)
  then have "32 \<notin> set m" using r by (auto simp only: isToken_iff)
  then have f: "js_indexOf 32 l 0 = Some (length m)" using r by (simp add: js_indexOf_append)
  have "js_string ''1.0'' = [49, 46, 48]" "js_string ''1.1'' = [49, 46, 49]" by code_simp+
  then have "32 \<notin> set ?f" by (cases v) (simp_all add: http_text version_text_def)
  then have s: "js_lastIndexOf 32 l = Some (length m + 1 + length t)"
    using js_lastIndexOf_append [of 32 ?f "m @ 32 # t"] r by simp
  have "m \<noteq> []" "t \<noteq> []" using r by (auto simp: isToken_iff target_text_def)
  moreover have "str_slice l 0 (length m) = m" "str_slice l (length m + 1) (length m + 1 + length t) = t"
    "str_slice l (length m + 1 + length t + 1) (length l) = ?f"
    using r by (simp_all add: str_slice_def)
  moreover have "\<not> list_ex (\<lambda>u. uint u < 0x21 \<or> uint u > 0x7e) t" using r by (auto simp: target_text_def list_ex_iff)
  moreover have "length ?f = 8" "str_slice ?f 0 5 = js_string ''HTTP/''" "versionOf (str_slice ?f 5 8) = Some v"
    using version_field [of ?f v] by (metis, metis, metis)
  ultimately show "requestLine l = Inr (m, t, v)"
    using r unfolding requestLine_def f s by (simp add: Let_def del: length_append)
qed

lemma list13:
  assumes "13 \<le> length l"
  obtains x0 x1 x2 x3 x4 x5 x6 x7 x8 x9 xa xb xc y where "l = [x0,x1,x2,x3,x4,x5,x6,x7,x8,x9,xa,xb,xc] @ y"
proof -
  have "take 13 l = map ((!) l) [0..<13]" using assms by (auto simp: list_eq_iff_nth_eq)
  then have "take 13 l = [l!0,l!1,l!2,l!3,l!4,l!5,l!6,l!7,l!8,l!9,l!10,l!11,l!12]"
    by (simp add: upt_rec numeral_eq_Suc)
  then show thesis using that [of "l!0" "l!1" "l!2" "l!3" "l!4" "l!5" "l!6" "l!7" "l!8" "l!9" "l!10" "l!11" "l!12" "drop 13 l"]
    by (metis append_take_drop_id)
qed

lemma statusLine_13:
  "statusLine ([x0,x1,x2,x3,x4,x5,x6,x7,x8,x9,xa,xb,xc] @ y) = Inr (v, n, txt') \<longleftrightarrow>
     [x0,x1,x2,x3,x4] = js_string ''HTTP/'' \<and> [x5,x6,x7] = version_text v \<and> x8 = 32 \<and> xc = 32 \<and>
     is_digit_unit x9 \<and> is_digit_unit xa \<and> is_digit_unit xb \<and> n = digits_number [x9, xa, xb] \<and> 100 \<le> n \<and> n \<le> 599 \<and>
     txt' = y \<and> (\<forall>u\<in>set y. wireUnit (uint u))"
proof -
  let ?l = "[x0,x1,x2,x3,x4,x5,x6,x7,x8,x9,xa,xb,xc] @ y"
  have p: "str_slice ?l 0 5 = [x0,x1,x2,x3,x4]" "str_slice ?l 5 8 = [x5,x6,x7]" "str_slice ?l 13 (length ?l) = y"
    "?l ! 9 = x9" "?l ! 10 = xa" "?l ! 11 = xb" "charCodeAt ?l 8 = Some (uint x8)" "charCodeAt ?l 12 = Some (uint xc)"
    "\<not> length ?l < 13"
    by (simp_all add: str_slice_def charCodeAt_def)
  have dig: "is_digit_unit u \<longleftrightarrow> \<not> (uint u - 48 < 0 \<or> 9 < uint u - 48)" for u by (auto simp: is_digit_unit_def)
  have num: "digits_number [x9, xa, xb] = (uint x9 - 48) * 100 + (uint xa - 48) * 10 + (uint xb - 48)"
    by (simp add: digits_number_def)
  show ?thesis
  proof (cases "[x0,x1,x2,x3,x4] = js_string ''HTTP/'' \<and> x8 = 32 \<and> xc = 32 \<and> versionOf [x5,x6,x7] = Some v \<and>
      is_digit_unit x9 \<and> is_digit_unit xa \<and> is_digit_unit xb")
    case True
    then have "statusLine ?l = res_bind (validateWireValue y) (\<lambda>_.
        if digits_number [x9, xa, xb] < 100 \<or> digits_number [x9, xa, xb] > 599 then Inl ProtocolError
        else Inr (v, digits_number [x9, xa, xb], y))"
      unfolding statusLine_def Let_def p num by (simp add: dig)
    then show ?thesis using True by (auto simp: res_bind_Inr_iff validateWireValue_ok versionOf_iff)
  next
    case False
    have "statusLine ?l \<noteq> Inr (v, n, txt')"
    proof
      assume "statusLine ?l = Inr (v, n, txt')"
      then have "[x0,x1,x2,x3,x4] = js_string ''HTTP/'' \<and> uint x8 = 32 \<and> uint xc = 32 \<and> versionOf [x5,x6,x7] = Some v \<and>
        is_digit_unit x9 \<and> is_digit_unit xa \<and> is_digit_unit xb"
        unfolding statusLine_def Let_def p dig
        by (simp split: if_split_asm option.split_asm add: res_bind_Inr_iff)
      then show False using False by (simp add: uint_32)
    qed
    then show ?thesis using False by (auto simp: versionOf_iff)
  qed
qed

lemma statusLine_iff:
  "statusLine l = Inr (v, n, txt') \<longleftrightarrow>
     (\<exists>a b c. l = js_string ''HTTP/'' @ version_text v @ [32, a, b, c, 32] @ txt' \<and>
        is_digit_unit a \<and> is_digit_unit b \<and> is_digit_unit c \<and> n = digits_number [a, b, c] \<and> 100 \<le> n \<and> n \<le> 599 \<and>
        (\<forall>u\<in>set txt'. wireUnit (uint u)))"
proof
  assume r: "statusLine l = Inr (v, n, txt')"
  then have "13 \<le> length l" by (rule contrapos_pp) (simp add: statusLine_def)
  then obtain x0 x1 x2 x3 x4 x5 x6 x7 x8 x9 xa xb xc y where l: "l = [x0,x1,x2,x3,x4,x5,x6,x7,x8,x9,xa,xb,xc] @ y"
    by (rule list13)
  have s: "[x0,x1,x2,x3,x4] = js_string ''HTTP/''" "[x5,x6,x7] = version_text v" "x8 = 32" "xc = 32"
    "is_digit_unit x9" "is_digit_unit xa" "is_digit_unit xb" "n = digits_number [x9, xa, xb]" "100 \<le> n" "n \<le> 599"
    "txt' = y" "\<forall>u\<in>set y. wireUnit (uint u)"
    using r [unfolded l statusLine_13] by blast+
  have "l = [x0,x1,x2,x3,x4] @ [x5,x6,x7] @ [32, x9, xa, xb, 32] @ txt'" by (simp add: l s)
  then have "l = js_string ''HTTP/'' @ version_text v @ [32, x9, xa, xb, 32] @ txt'" unfolding s(1,2) .
  then show "\<exists>a b c. l = js_string ''HTTP/'' @ version_text v @ [32, a, b, c, 32] @ txt' \<and>
        is_digit_unit a \<and> is_digit_unit b \<and> is_digit_unit c \<and> n = digits_number [a, b, c] \<and> 100 \<le> n \<and> n \<le> 599 \<and>
        (\<forall>u\<in>set txt'. wireUnit (uint u))"
    using s(5-12) by blast
next
  assume "\<exists>a b c. l = js_string ''HTTP/'' @ version_text v @ [32, a, b, c, 32] @ txt' \<and>
        is_digit_unit a \<and> is_digit_unit b \<and> is_digit_unit c \<and> n = digits_number [a, b, c] \<and> 100 \<le> n \<and> n \<le> 599 \<and>
        (\<forall>u\<in>set txt'. wireUnit (uint u))"
  then obtain a b c where l: "l = js_string ''HTTP/'' @ version_text v @ [32, a, b, c, 32] @ txt'"
    "is_digit_unit a" "is_digit_unit b" "is_digit_unit c" "n = digits_number [a, b, c]" "100 \<le> n" "n \<le> 599"
    "\<forall>u\<in>set txt'. wireUnit (uint u)" by blast
  obtain x y z where v: "version_text v = [x, y, z]"
    using version_text_length [of v] by (auto simp: numeral_eq_Suc length_Suc_conv)
  have "l = [72, 84, 84, 80, 47, x, y, z, 32, a, b, c, 32] @ txt'" by (simp add: l(1) v http_text)
  then show "statusLine l = Inr (v, n, txt')"
    using l(2-8) by (simp only: statusLine_13 v http_text)
qed

lemma parseFieldLine_iff:
  "parseFieldLine l = Inr (n, v) \<longleftrightarrow>
     (\<exists>name raw. l = name @ 58 # raw \<and> isToken name \<and> n = toLowerCase name \<and>
        (\<forall>u\<in>set raw. wireUnit (uint u)) \<and> v = trimHTTPTabOrSpace raw)"
proof
  assume r: "parseFieldLine l = Inr (n, v)"
  then obtain i where i: "js_indexOf 58 l 0 = Some i" by (auto simp: parseFieldLine_def split: option.splits)
  then have "l = take i l @ 58 # drop (i + 1) l" using id_take_nth_drop [of i l] by (auto simp: js_indexOf_Some)
  moreover have "isToken (take i l)" "n = toLowerCase (take i l)" "\<forall>u\<in>set (drop (i + 1) l). wireUnit (uint u)"
    "v = trimHTTPTabOrSpace (drop (i + 1) l)"
    using r by (auto simp: parseFieldLine_def i Let_def str_slice_def res_bind_Inr_iff validateWireValue_ok split: if_split_asm)
  ultimately show "\<exists>name raw. l = name @ 58 # raw \<and> isToken name \<and> n = toLowerCase name \<and>
        (\<forall>u\<in>set raw. wireUnit (uint u)) \<and> v = trimHTTPTabOrSpace raw"
    by blast
next
  assume "\<exists>name raw. l = name @ 58 # raw \<and> isToken name \<and> n = toLowerCase name \<and>
        (\<forall>u\<in>set raw. wireUnit (uint u)) \<and> v = trimHTTPTabOrSpace raw"
  then obtain name raw where l: "l = name @ 58 # raw" "isToken name" "n = toLowerCase name"
    "\<forall>u\<in>set raw. wireUnit (uint u)" "v = trimHTTPTabOrSpace raw" by blast
  have "\<not> tokenUnit (uint (58 :: code_unit))" by (simp add: tokenUnit_def)
  then have "58 \<notin> set name" using l(2) by (auto simp only: isToken_iff)
  then have "js_indexOf 58 l 0 = Some (length name)" by (simp add: l(1) js_indexOf_append)
  then show "parseFieldLine l = Inr (n, v)"
    using l validateWireValue_ok [of raw]
    by (auto simp: parseFieldLine_def Let_def str_slice_def isToken_iff)
qed

text \<open>A field the parser can return, and the line that carries it.\<close>

definition wire_field :: "header_entry \<Rightarrow> bool" where
  "wire_field f \<longleftrightarrow> token_name (fst f) \<and> (\<forall>u\<in>set (snd f). wireUnit (uint u)) \<and>
     (snd f \<noteq> [] \<longrightarrow> \<not> isHTTPTabOrSpace (uint (hd (snd f))) \<and> \<not> isHTTPTabOrSpace (uint (last (snd f))))"

definition field_line :: "header_entry \<Rightarrow> jsstring" where
  "field_line f = fst f @ js_string '': '' @ snd f"

lemma trim_wire:
  assumes "\<forall>u\<in>set raw. wireUnit (uint u)" and "isToken name"
  shows "wire_field (toLowerCase name, trimHTTPTabOrSpace raw)"
proof -
  let ?v = "trimHTTPTabOrSpace raw"
  have "set ?v \<subseteq> set raw"
  proof -
    obtain a b where "raw = a @ ?v @ b"
      using strip_left_split [of raw isHTTPTabOrSpace] strip_right_split [of "strip_left isHTTPTabOrSpace raw" isHTTPTabOrSpace]
      by (metis trimHTTPTabOrSpace_eq)
    then show ?thesis by (metis Un_iff set_append subsetI)
  qed
  then show ?thesis
    using assms strip_ends [of ?v isHTTPTabOrSpace raw]
    by (auto simp: wire_field_def token_name_normalized trimHTTPTabOrSpace_eq)
qed

lemma parse_field_line: "wire_field f \<Longrightarrow> parseFieldLine (field_line f) = Inr f"
proof -
  assume f: "wire_field f"
  have "js_string '': '' = [58, 32]" by code_simp
  then have l: "field_line f = fst f @ 58 # 32 # snd f" by (simp add: field_line_def)
  have "trimHTTPTabOrSpace (32 # snd f) = snd f"
    unfolding trim_space unfolding trimHTTPTabOrSpace_eq using f
    by (cases "snd f = []") (simp_all add: wire_field_def strip_left_id strip_right_id)
  moreover have "\<forall>u\<in>set (32 # snd f). wireUnit (uint u)" using f by (simp add: wire_field_def wireUnit_def)
  moreover have "isToken (fst f)" "fst f = toLowerCase (fst f)" using f by (simp_all add: wire_field_def token_name_def)
  ultimately have "parseFieldLine (field_line f) = Inr (fst f, snd f)"
    unfolding parseFieldLine_iff l by (metis append.simps(2))
  then show ?thesis by simp
qed

section \<open>Lemmas: reading a head\<close>

definition unit_bytes :: "jsstring \<Rightarrow> bytes" where
  "unit_bytes s = map ucast s"

text \<open>A line and its terminator, and the field lines of a head with the empty line behind them.\<close>

definition line_bytes :: "jsstring \<Rightarrow> bytes" where
  "line_bytes s = unit_bytes s @ [13, 10]"

definition field_bytes :: "header_entry list \<Rightarrow> bytes" where
  "field_bytes fs = concat (map (\<lambda>f. line_bytes (field_line f)) fs) @ line_bytes []"

lemma latin1_unit_bytes: "\<forall>u\<in>set s. uint u \<le> 255 \<Longrightarrow> latin1 (unit_bytes s) = s"
  by (induction s) (simp_all add: latin1_eq unit_bytes_def ucast_byte_unit)

lemma newline_unit: "uint u \<le> 255 \<Longrightarrow> u \<noteq> 10 \<Longrightarrow> (ucast u :: byte) \<noteq> 10" for u :: code_unit
proof
  assume u: "uint u \<le> 255" "u \<noteq> 10" and b: "(ucast u :: byte) = 10"
  have "u = ucast (ucast u :: byte)" using u(1) by (simp add: ucast_byte_unit)
  also have "\<dots> = 10" by (simp add: b)
  finally show False using u(2) by simp
qed

lemma unit_bytes_no_newline: "\<forall>u\<in>set s. uint u \<le> 255 \<and> u \<noteq> 10 \<Longrightarrow> 10 \<notin> set (unit_bytes s)"
  using newline_unit by (fastforce simp: unit_bytes_def)

lemma read_line:
  assumes "transport_reads rd content" and "reader_ok r" and "unread content r = line_bytes l @ rest"
    and "\<forall>u\<in>set l. uint u \<le> 255 \<and> u \<noteq> 10" and "length l + 2 \<le> maxBytes"
  shows "\<exists>r'. line rd maxBytes r = (Inr l, r') \<and> reader_ok r' \<and> unread content r' = rest"
  using line_spec [OF assms(1,2), of "unit_bytes l" rest maxBytes] assms(3-5) unit_bytes_no_newline [of l]
    latin1_unit_bytes [of l]
  by (auto simp: line_bytes_def) (simp_all add: unit_bytes_def)

lemma wire_field_units:
  assumes "wire_field f"
  shows "\<forall>u\<in>set (field_line f). uint u \<le> 255 \<and> u \<noteq> 10" "field_line f \<noteq> []"
proof -
  have c: "js_string '': '' = [58, 32]" by code_simp
  have "uint u \<le> 255 \<and> u \<noteq> 10" if "u \<in> set (fst f)" for u
    using that assms tokenUnit_bounds [of "uint u"] by (auto simp: wire_field_def token_name_def isToken_iff)
  moreover have "uint u \<le> 255 \<and> u \<noteq> 10" if "u \<in> set (snd f)" for u
    using that assms by (auto simp: wire_field_def wireUnit_def)
  ultimately show "\<forall>u\<in>set (field_line f). uint u \<le> 255 \<and> u \<noteq> 10" by (auto simp: field_line_def c)
  show "field_line f \<noteq> []" by (simp add: field_line_def c)
qed

lemma readFieldsLoop_reads:
  assumes "transport_reads rd content" and "reader_ok r" and "unread content r = field_bytes fs @ rest"
    and "\<forall>f\<in>set fs. wire_field f" and "length headers + length fs \<le> hl_maxHeaders limits"
    and "bytes + length (field_bytes fs) \<le> hl_maxHeaderBytes limits"
  shows "\<exists>r'. readFieldsLoop rd limits headers bytes r = (Inr (headers @ fs), r') \<and> reader_ok r' \<and>
    unread content r' = rest"
  using assms(2-)
proof (induction fs arbitrary: headers bytes r)
  case Nil
  have "length ([] :: jsstring) + 2 \<le> hl_maxHeaderBytes limits - bytes"
    using Nil.prems(5) by (simp add: field_bytes_def line_bytes_def unit_bytes_def)
  then obtain r' where "line rd (hl_maxHeaderBytes limits - bytes) r = (Inr [], r')" "reader_ok r'" "unread content r' = rest"
    using read_line [OF assms(1), of r "[]" rest "hl_maxHeaderBytes limits - bytes"] Nil.prems(1,2) by (auto simp: field_bytes_def line_bytes_def unit_bytes_def)
  then show ?case by (subst readFieldsLoop.simps) simp
next
  case (Cons f fs)
  note w = wire_field_units [of f]
  have u: "unread content r = line_bytes (field_line f) @ field_bytes fs @ rest"
    using Cons.prems(2) by (simp add: field_bytes_def)
  have len: "length (line_bytes (field_line f)) = length (field_line f) + 2"
    by (simp add: line_bytes_def unit_bytes_def)
  have tot: "length (field_bytes (f # fs)) = length (line_bytes (field_line f)) + length (field_bytes fs)"
    by (simp add: field_bytes_def)
  have "length (field_line f) + 2 \<le> hl_maxHeaderBytes limits - bytes" using Cons.prems(5) len tot by simp
  then obtain r1 where r1: "line rd (hl_maxHeaderBytes limits - bytes) r = (Inr (field_line f), r1)" "reader_ok r1"
    "unread content r1 = field_bytes fs @ rest"
    using read_line [OF assms(1) Cons.prems(1) u, of "hl_maxHeaderBytes limits - bytes"] w Cons.prems(3,5) len tot by auto
  have "\<exists>r'. readFieldsLoop rd limits (headers @ [f]) (bytes + (length (field_line f) + 2)) r1 =
      (Inr ((headers @ [f]) @ fs), r') \<and> reader_ok r' \<and> unread content r' = rest"
    using Cons.prems(3-5) len tot by (intro Cons.IH [OF r1(2,3)]) auto
  then show ?case
    using Cons.prems(3,4) w(2) parse_field_line [of f] by (subst readFieldsLoop.simps) (simp add: r1(1) Let_def)
qed

lemma readFieldsLoop_safe:
  "readFieldsLoop rd limits headers bytes r = (Inr hs, r') \<Longrightarrow> \<forall>f\<in>set headers. wire_field f \<Longrightarrow>
     length headers \<le> hl_maxHeaders limits \<Longrightarrow> (\<forall>f\<in>set hs. wire_field f) \<and> length hs \<le> hl_maxHeaders limits"
proof (induction rd limits headers bytes r arbitrary: hs rule: readFieldsLoop.induct)
  case (1 rd limits headers bytes r)
  have parsed: "wire_field f" if "parseFieldLine l = Inr f" for l f
    using that trim_wire by (cases f) (auto simp: parseFieldLine_iff)
  obtain res r1 where l: "line rd (hl_maxHeaderBytes limits - bytes) r = (res, r1)" by fastforce
  show ?case
  proof (cases res)
    case (Inr l0)
    note IH = "1.IH" [OF l [symmetric] Inr refl]
    show ?thesis
    proof (cases "l0 = []")
      case True
      then show ?thesis using "1.prems" l Inr by (simp add: readFieldsLoop.simps [of rd limits headers bytes r])
    next
      case False
      show ?thesis
      proof (cases "parseFieldLine l0")
        case (Inl e)
        then show ?thesis using "1.prems" l Inr False
          by (simp add: readFieldsLoop.simps [of rd limits headers bytes r] Let_def split: if_split_asm)
      next
        case p: (Inr f)
        then show ?thesis using "1.prems" l Inr False parsed [OF p] IH [OF False _ p]
          by (simp add: readFieldsLoop.simps [of rd limits headers bytes r] Let_def split: if_split_asm)
      qed
    qed
  qed (use "1.prems" l in \<open>simp add: readFieldsLoop.simps [of rd limits headers bytes r]\<close>)
qed

section \<open>Properties\<close>

text \<open>
  The lines of a head. \<^verbatim>\<open>readRequestHead\<close> takes a first line apart exactly as method, target and
  version with single spaces between them, \<^verbatim>\<open>readHead\<close> as version, three digits from 100 to 599 and
  a reason, and a field line as a token, a colon and a value of field bytes, trimmed; no other
  line is accepted.
\<close>

theorem http1_head_lines:
  "(requestLine l = Inr (m, t, v) \<longleftrightarrow>
      l = m @ 32 # t @ 32 # js_string ''HTTP/'' @ version_text v \<and> isToken m \<and> target_text t) \<and>
   (statusLine l = Inr (v, n, reason) \<longleftrightarrow>
      (\<exists>a b c. l = js_string ''HTTP/'' @ version_text v @ [32, a, b, c, 32] @ reason \<and>
         is_digit_unit a \<and> is_digit_unit b \<and> is_digit_unit c \<and> n = digits_number [a, b, c] \<and> 100 \<le> n \<and> n \<le> 599 \<and>
         (\<forall>u\<in>set reason. wireUnit (uint u)))) \<and>
   (parseFieldLine l = Inr (name, val) \<longleftrightarrow>
      (\<exists>token raw. l = token @ 58 # raw \<and> isToken token \<and> name = toLowerCase token \<and>
         (\<forall>u\<in>set raw. wireUnit (uint u)) \<and> val = trimHTTPTabOrSpace raw))"
  by (intro conjI requestLine_iff statusLine_iff parseFieldLine_iff)

text \<open>
  C27: On any transport and any bytes, the heads the parser accepts are safe to pass on: the method
  is a token, the target is printable ASCII without spaces, every field name is a lower-case
  token, every value is trimmed and has no control character, and there are no more fields than
  the limit.
\<close>

theorem http1_head_safe:
  "(case readRequestHead rd limits r of
      (Inr q, r') \<Rightarrow> isToken (rq_method q) \<and> target_text (rq_target q) \<and>
        list_all wire_field (rq_headers q) \<and> length (rq_headers q) \<le> hl_maxHeaders limits
    | (Inl e, r') \<Rightarrow> True) \<and>
   (case readHead rd limits r of
      (Inr p, r') \<Rightarrow> 100 \<le> rp_status p \<and> rp_status p \<le> 599 \<and> list_all (\<lambda>u. wireUnit (uint u)) (rp_statusText p) \<and>
        list_all wire_field (rp_headers p) \<and> length (rp_headers p) \<le> hl_maxHeaders limits
    | (Inl e, r') \<Rightarrow> True)"
proof -
  obtain res r1 where l: "line rd (hl_maxHeaderBytes limits) r = (res, r1)" by fastforce
  note safe = readFieldsLoop_safe [of rd limits "[]"]
  show ?thesis
  proof (cases res)
    case (Inr l0)
    have "case readRequestHead rd limits r of
      (Inr q, r') \<Rightarrow> isToken (rq_method q) \<and> target_text (rq_target q) \<and>
        list_all wire_field (rq_headers q) \<and> length (rq_headers q) \<le> hl_maxHeaders limits
    | (Inl e, r') \<Rightarrow> True"
      using requestLine_iff [of l0] safe
      by (auto simp: readRequestHead_def l Inr readHeaderFields_def list_all_iff split: sum.splits prod.splits)
    moreover have "case readHead rd limits r of
      (Inr p, r') \<Rightarrow> 100 \<le> rp_status p \<and> rp_status p \<le> 599 \<and> list_all (\<lambda>u. wireUnit (uint u)) (rp_statusText p) \<and>
        list_all wire_field (rp_headers p) \<and> length (rp_headers p) \<le> hl_maxHeaders limits
    | (Inl e, r') \<Rightarrow> True"
      using statusLine_iff [of l0] safe
      by (auto simp: readHead_def l Inr readHeaderFields_def list_all_iff split: sum.splits prod.splits)
    ultimately show ?thesis by blast
  qed (simp add: readRequestHead_def readHead_def l)
qed

text \<open>
  C26: Response framing is unambiguous. A body is chunked only when there is exactly one
  \<^verbatim>\<open>Transfer-Encoding\<close> value, the word "chunked", and no \<^verbatim>\<open>Content-Length\<close> at all; it has a fixed
  length only when every member of every \<^verbatim>\<open>Content-Length\<close> value spells that same exact number and
  there is no \<^verbatim>\<open>Transfer-Encoding\<close>; it ends with the connection only when both are absent.
  Everything else is a \<^verbatim>\<open>ProtocolError\<close>.
\<close>

theorem http1_framing_unambiguous:
  "(let te = header_values h (js_string ''transfer-encoding''); cl = header_values h (js_string ''content-length'')
    in responseFraming h = Inr (kind, n) \<longleftrightarrow>
        kind = Framing_Chunked \<and> n = 0 \<and> cl = [] \<and>
          (\<exists>v. te = [v] \<and> toLowerCase (trimHTTPTabOrSpace v) = js_string ''chunked'') \<or>
        kind = Framing_Fixed \<and> te = [] \<and> cl \<noteq> [] \<and>
          (\<forall>v\<in>set cl. \<forall>m\<in>set (js_split 44 v). length_text n (trimHTTPTabOrSpace m)) \<or>
        kind = Framing_Eof \<and> n = 0 \<and> te = [] \<and> cl = []) \<and>
   (is_ok (responseFraming h) \<or> responseFraming h = Inl ProtocolError)"
proof -
  have "is_ok (responseFraming h) \<or> responseFraming h = Inl ProtocolError"
    using responseFraming_error [of h] by (cases "responseFraming h") simp_all
  then show ?thesis using responseFraming_iff [of h kind n] unfolding Let_def by blast
qed

theorem http1_framing_unambiguous_witness:
  "responseFraming (newHeaders\<lparr>hs_list := [(js_string ''content-length'', js_string ''5, 5'')]\<rparr>) = Inr (Framing_Fixed, 5) \<and>
   list_all (\<lambda>m. length_text 5 (trimHTTPTabOrSpace m)) (js_split 44 (js_string ''5, 5''))"
proof -
  let ?h = "newHeaders\<lparr>hs_list := [(js_string ''content-length'', js_string ''5, 5'')]\<rparr>"
  have r: "responseFraming ?h = Inr (Framing_Fixed, 5)"
    and v: "header_values ?h (js_string ''content-length'') = [js_string ''5, 5'']"
    by code_simp+
  show ?thesis
    using http1_framing_unambiguous [of ?h Framing_Fixed 5] r v by (simp add: Let_def list_all_iff)
qed

end
