(* ===== verification/Http1_Chunk.thy ===== *)
theory Http1_Chunk
  imports Http1_Parser "HOL-Library.Sublist"
begin

text \<open>
  The chunk-size line of \<^verbatim>\<open>runtime/web-platform/src/http1/parser.ts\<close>: \<^verbatim>\<open>parseChunkSize\<close> with the scanner
  of the chunk extensions, against the grammar of RFC 9112.
\<close>

section \<open>Chunk sizes\<close>

definition isTabOrSpace :: "int \<Rightarrow> bool" where
  "isTabOrSpace code \<longleftrightarrow> code = 9 \<or> code = 32"

definition isQuotedText :: "int \<Rightarrow> bool" where
  "isQuotedText code \<longleftrightarrow>
     code = 9 \<or> code = 32 \<or> code = 33 \<or> (code \<ge> 35 \<and> code \<le> 91) \<or> (code \<ge> 93 \<and> code \<le> 126) \<or> code \<ge> 128"

definition isQuotedPairValue :: "int \<Rightarrow> bool" where
  "isQuotedPairValue code \<longleftrightarrow> code = 9 \<or> code = 32 \<or> (code \<ge> 33 \<and> code \<le> 126) \<or> code \<ge> 128"

definition skipBadWhitespace :: "jsstring \<Rightarrow> nat \<Rightarrow> nat" where
  "skipBadWhitespace l start = skipWhile isTabOrSpace l start"

function quotedLoop :: "jsstring \<Rightarrow> nat \<Rightarrow> nat result" where
  "quotedLoop l index =
     (if index < length l
      then let code = uint (l ! index); index' = index + 1
           in if code = 34 then Inr index'
              else if code = 92 then
                (if index' = length l \<or> \<not> isQuotedPairValue (uint (l ! index')) then Inl ProtocolError
                 else quotedLoop l (index' + 1))
              else if \<not> isQuotedText code then Inl ProtocolError
              else quotedLoop l index'
      else Inl ProtocolError)"
  by pat_completeness auto
termination by (relation "measure (\<lambda>(l, index). length l - index)") auto

declare quotedLoop.simps [simp del]

definition skipChunkExtensionValue :: "jsstring \<Rightarrow> nat \<Rightarrow> nat result" where
  "skipChunkExtensionValue l start =
     (if charCodeAt l start \<noteq> Some 34 then
        (let stop = skipWhile (\<lambda>c. \<not> isTabOrSpace c \<and> c \<noteq> 59) l start
         in if \<not> isToken (str_slice l start stop) then Inl ProtocolError else Inr stop)
      else quotedLoop l (start + 1))"

definition hexDigit :: "int \<Rightarrow> int" where
  "hexDigit code =
     (if code \<ge> 48 \<and> code \<le> 57 then code - 48
      else if code \<ge> 65 \<and> code \<le> 70 then code - 55
      else if code \<ge> 97 \<and> code \<le> 102 then code - 87
      else - 1)"

text \<open>One turn of the loop over the extensions: the next index.\<close>

definition extensionTurn :: "jsstring \<Rightarrow> nat \<Rightarrow> nat result" where
  "extensionTurn l index =
     (let i = skipBadWhitespace l index
      in if i = length l \<or> charCodeAt l i \<noteq> Some 59 then Inl ProtocolError
         else
           (let nameStart = skipBadWhitespace l (i + 1);
                nameEnd = skipWhile (\<lambda>c. \<not> isTabOrSpace c \<and> c \<noteq> 59 \<and> c \<noteq> 61) l nameStart
            in if \<not> isToken (str_slice l nameStart nameEnd) then Inl ProtocolError
               else
                 (let j = skipBadWhitespace l nameEnd
                  in if j = length l \<and> j \<noteq> nameEnd then Inl ProtocolError
                     else if j < length l \<and> charCodeAt l j = Some 61 then
                       (let k = skipBadWhitespace l (j + 1)
                        in if k = length l then Inl ProtocolError else skipChunkExtensionValue l k)
                     else Inr j)))"

lemma quotedLoop_index: "quotedLoop l i = Inr j \<Longrightarrow> i < j"
proof (induction l i rule: quotedLoop.induct)
  case (1 l index)
  show ?case
    using 1 by (subst (asm) quotedLoop.simps) (fastforce simp: Let_def split: if_splits)
qed

lemma extensionTurn_index: "extensionTurn l index = Inr j \<Longrightarrow> index < j"
proof -
  assume r: "extensionTurn l index = Inr j"
  let ?i = "skipWhile isTabOrSpace l index"
  let ?s = "skipWhile isTabOrSpace l (?i + 1)"
  let ?e = "skipWhile (\<lambda>c. \<not> isTabOrSpace c \<and> c \<noteq> 59 \<and> c \<noteq> 61) l ?s"
  let ?w = "skipWhile isTabOrSpace l ?e"
  let ?k = "skipWhile isTabOrSpace l (?w + 1)"
  have "index \<le> ?i" "?i + 1 \<le> ?s" "?s \<le> ?e" "?e \<le> ?w" "?w + 1 \<le> ?k" by (rule skipWhile_ge)+
  moreover have "k \<le> j" if "skipChunkExtensionValue l k = Inr j" for k
    using that skipWhile_ge quotedLoop_index [of l "k + 1" j]
    by (auto simp: skipChunkExtensionValue_def Let_def split: if_splits)
  moreover have "j = ?w \<or> skipChunkExtensionValue l ?k = Inr j"
    using r by (auto simp: extensionTurn_def skipBadWhitespace_def Let_def split: if_splits)
  ultimately show ?thesis by fastforce
qed

function extensionsLoop :: "jsstring \<Rightarrow> nat \<Rightarrow> unit result" where
  "extensionsLoop l index =
     (if index < length l then
        (case extensionTurn l index of Inl e \<Rightarrow> Inl e | Inr j \<Rightarrow> extensionsLoop l j)
      else Inr ())"
  by pat_completeness auto
termination
  by (relation "measure (\<lambda>(l, index). length l - index)") (auto dest: extensionTurn_index)

declare extensionsLoop.simps [simp del]

definition parseChunkSize :: "jsstring \<Rightarrow> int result" where
  "parseChunkSize l =
     res_bind (validateWireValue l) (\<lambda>_.
       case digitsLoop hexDigit 16 l 0 0 of
         (size', index) \<Rightarrow>
           if index = 0 then Inl ProtocolError
           else res_bind (extensionsLoop l index) (\<lambda>_.
                  if \<not> js_isSafeInteger size' then Inl LimitError else Inr size'))"

section \<open>Lemmas: chunk extensions\<close>

text \<open>
  The grammar of RFC 9112, section 7.1.1: after the size come extensions, each a semicolon and a
  name, perhaps with a token or a quoted string for value; blanks may stand before and after the
  semicolon and the equals sign, but not at the end of the line.
\<close>

abbreviation blanks :: "jsstring \<Rightarrow> bool" where
  "blanks s \<equiv> \<forall>u\<in>set s. isTabOrSpace (uint u)"

inductive quoted_rest :: "jsstring \<Rightarrow> jsstring \<Rightarrow> bool" where
  quoted_end: "quoted_rest (34 # z) z"
| quoted_text: "isQuotedText (uint u) \<Longrightarrow> quoted_rest s z \<Longrightarrow> quoted_rest (u # s) z"
| quoted_pair: "isQuotedPairValue (uint u) \<Longrightarrow> quoted_rest s z \<Longrightarrow> quoted_rest (92 # u # s) z"

inductive chunk_exts :: "jsstring \<Rightarrow> bool" where
  ext_none: "chunk_exts []"
| ext_name: "blanks a \<Longrightarrow> blanks b \<Longrightarrow> isToken nm \<Longrightarrow> chunk_exts z \<Longrightarrow> chunk_exts (a @ 59 # b @ nm @ z)"
| ext_token: "blanks a \<Longrightarrow> blanks b \<Longrightarrow> isToken nm \<Longrightarrow> blanks c \<Longrightarrow> blanks d \<Longrightarrow> isToken v \<Longrightarrow> chunk_exts z \<Longrightarrow>
    chunk_exts (a @ 59 # b @ nm @ c @ 61 # d @ v @ z)"
| ext_quoted: "blanks a \<Longrightarrow> blanks b \<Longrightarrow> isToken nm \<Longrightarrow> blanks c \<Longrightarrow> blanks d \<Longrightarrow> quoted_rest s z \<Longrightarrow> chunk_exts z \<Longrightarrow>
    chunk_exts (a @ 59 # b @ nm @ c @ 61 # d @ 34 # s)"

fun quoted_tail :: "jsstring \<Rightarrow> jsstring option" where
  "quoted_tail [] = None"
| "quoted_tail (u # s) =
     (if u = 34 then Some s
      else if u = 92 then (case s of [] \<Rightarrow> None | v # s' \<Rightarrow> if isQuotedPairValue (uint v) then quoted_tail s' else None)
      else if isQuotedText (uint u) then quoted_tail s else None)"

lemma quoted_tail_iff: "quoted_tail s = Some z \<longleftrightarrow> quoted_rest s z"
proof
  show "quoted_tail s = Some z \<Longrightarrow> quoted_rest s z"
    by (induction s rule: quoted_tail.induct) (auto intro: quoted_rest.intros split: if_splits list.splits)
  show "quoted_rest s z \<Longrightarrow> quoted_tail s = Some z"
    by (induction rule: quoted_rest.induct) (auto simp: isQuotedText_def)
qed

lemma uint_units:
  "uint u = 34 \<longleftrightarrow> u = (34 :: code_unit)" "uint u = 92 \<longleftrightarrow> u = (92 :: code_unit)"
  "uint u = 59 \<longleftrightarrow> u = (59 :: code_unit)" "uint u = 61 \<longleftrightarrow> u = (61 :: code_unit)"
  by (simp_all add: word_uint_eq_iff)

text \<open>An index into a line against what is left of the line from there.\<close>

definition index_of_rest :: "jsstring \<Rightarrow> jsstring option \<Rightarrow> nat result" where
  "index_of_rest l z = (case z of None \<Rightarrow> Inl ProtocolError | Some z \<Rightarrow> Inr (length l - length z))"

lemma quotedLoop_eq: "i \<le> length l \<Longrightarrow> quotedLoop l i = index_of_rest l (quoted_tail (drop i l))"
proof (induction l i rule: quotedLoop.induct)
  case (1 l i)
  show ?case
  proof (cases "i < length l")
    case True
    note d = drop_nth [OF True]
    show ?thesis
    proof (cases "l ! i = 92")
      case True
      show ?thesis
      proof (cases "i + 1 < length l")
        case in2: True
        show ?thesis
          using 1(1) [OF \<open>i < length l\<close> refl refl] True in2 drop_nth [OF in2] d
          by (subst quotedLoop.simps) (auto simp: Let_def uint_units index_of_rest_def)
      next
        case False
        then show ?thesis using True \<open>i < length l\<close> d
          by (subst quotedLoop.simps) (auto simp: Let_def index_of_rest_def)
      qed
    next
      case False
      then show ?thesis
        using 1(2) [OF True refl refl] True d
        by (subst quotedLoop.simps) (auto simp: Let_def uint_units index_of_rest_def)
    qed
  next
    case False
    then show ?thesis using 1(3) by (subst quotedLoop.simps) (simp add: index_of_rest_def)
  qed
qed

lemma skipWhile_rest:
  assumes "i \<le> length l"
  shows "i \<le> skipWhile p l i" "skipWhile p l i \<le> length l" "drop (skipWhile p l i) l = dropWhile (\<lambda>u. p (uint u)) (drop i l)"
    "str_slice l i (skipWhile p l i) = takeWhile (\<lambda>u. p (uint u)) (drop i l)"
proof -
  show *: "i \<le> skipWhile p l i" "skipWhile p l i \<le> length l" "drop (skipWhile p l i) l = dropWhile (\<lambda>u. p (uint u)) (drop i l)"
    using skipWhile_drop [OF assms, of p] by (auto simp: strip_left_def)
  have "drop i l = take (skipWhile p l i - i) (drop i l) @ drop (skipWhile p l i) l"
    using *(1) by (metis append_take_drop_id drop_drop le_add_diff_inverse2)
  then show "str_slice l i (skipWhile p l i) = takeWhile (\<lambda>u. p (uint u)) (drop i l)"
    unfolding *(3) str_slice_def by (metis append_same_eq takeWhile_dropWhile_id)
qed

definition value_rest :: "jsstring \<Rightarrow> jsstring option" where
  "value_rest xs =
     (case xs of
        [] \<Rightarrow> None
      | u # s \<Rightarrow>
          if u = 34 then quoted_tail s
          else let v = takeWhile (\<lambda>u. \<not> isTabOrSpace (uint u) \<and> uint u \<noteq> 59) xs
               in if isToken v then Some (dropWhile (\<lambda>u. \<not> isTabOrSpace (uint u) \<and> uint u \<noteq> 59) xs) else None)"

definition ext_rest :: "jsstring \<Rightarrow> jsstring option" where
  "ext_rest xs =
     (case dropWhile (\<lambda>u. isTabOrSpace (uint u)) xs of
        [] \<Rightarrow> None
      | u # s \<Rightarrow>
          if u \<noteq> 59 then None
          else
            (let ys = dropWhile (\<lambda>u. isTabOrSpace (uint u)) s;
                 nm = takeWhile (\<lambda>u. \<not> isTabOrSpace (uint u) \<and> uint u \<noteq> 59 \<and> uint u \<noteq> 61) ys;
                 r = dropWhile (\<lambda>u. \<not> isTabOrSpace (uint u) \<and> uint u \<noteq> 59 \<and> uint u \<noteq> 61) ys
             in if \<not> isToken nm then None
                else case dropWhile (\<lambda>u. isTabOrSpace (uint u)) r of
                       [] \<Rightarrow> if r \<noteq> [] then None else Some []
                     | v # w \<Rightarrow> if v = 61 then value_rest (dropWhile (\<lambda>u. isTabOrSpace (uint u)) w) else Some (v # w)))"

lemma length_rest: "i \<le> length l \<Longrightarrow> length l - length (drop i l) = i"
  by simp

lemma skipChunkExtensionValue_eq:
  assumes "i < length l"
  shows "skipChunkExtensionValue l i = index_of_rest l (value_rest (drop i l))"
proof (cases "l ! i = 34")
  case True
  then show ?thesis
    using assms quotedLoop_eq [of "i + 1" l] by (simp add: skipChunkExtensionValue_def charCodeAt_def value_rest_def drop_nth)
next
  case False
  let ?p = "\<lambda>c. \<not> isTabOrSpace c \<and> c \<noteq> 59"
  have s: "skipWhile ?p l i \<le> length l" "drop (skipWhile ?p l i) l = dropWhile (\<lambda>u. ?p (uint u)) (drop i l)"
    "str_slice l i (skipWhile ?p l i) = takeWhile (\<lambda>u. ?p (uint u)) (drop i l)"
    using skipWhile_rest [of i l ?p] assms by auto
  have "charCodeAt l i \<noteq> Some 34" using False assms by (simp add: charCodeAt_def uint_units)
  then have "skipChunkExtensionValue l i =
      (if isToken (takeWhile (\<lambda>u. ?p (uint u)) (drop i l)) then Inr (skipWhile ?p l i) else Inl ProtocolError)"
    by (simp add: skipChunkExtensionValue_def Let_def s(3))
  moreover have "skipWhile ?p l i = length l - length (dropWhile (\<lambda>u. ?p (uint u)) (drop i l))"
    using length_rest [OF s(1)] by (simp add: s(2))
  moreover have "value_rest (drop i l) =
      (if isToken (takeWhile (\<lambda>u. ?p (uint u)) (drop i l)) then Some (dropWhile (\<lambda>u. ?p (uint u)) (drop i l)) else None)"
    using False drop_nth [OF assms] unfolding value_rest_def uint_units Let_def by (simp split del: if_split)
  ultimately show ?thesis by (simp add: index_of_rest_def)
qed

lemma extensionTurn_eq:
  assumes "i < length l"
  shows "extensionTurn l i = index_of_rest l (ext_rest (drop i l))"
proof -
  let ?n = "\<lambda>c. \<not> isTabOrSpace c \<and> c \<noteq> 59 \<and> c \<noteq> 61"
  let ?b = "\<lambda>u :: code_unit. isTabOrSpace (uint u)"
  define i1 where "i1 = skipBadWhitespace l i"
  have i1: "i1 \<le> length l" "drop i1 l = dropWhile ?b (drop i l)"
    using skipWhile_rest [of i l isTabOrSpace] assms by (simp_all add: i1_def skipBadWhitespace_def)
  show ?thesis
  proof (cases "i1 < length l \<and> l ! i1 = 59")
    case False
    then have "i1 = length l \<or> charCodeAt l i1 \<noteq> Some 59" using i1(1) by (auto simp: charCodeAt_def uint_units)
    then have "extensionTurn l i = Inl ProtocolError" by (simp add: extensionTurn_def Let_def flip: i1_def)
    moreover have "ext_rest (drop i l) = None"
      using False i1(1) drop_nth [of i1 l] by (cases "i1 < length l") (simp_all add: ext_rest_def flip: i1(2))
    ultimately show ?thesis by (simp add: index_of_rest_def)
  next
    case True
    define i2 where "i2 = skipBadWhitespace l (i1 + 1)"
    define i3 where "i3 = skipWhile ?n l i2"
    define i4 where "i4 = skipBadWhitespace l i3"
    define ys where "ys = dropWhile ?b (drop (i1 + 1) l)"
    define r where "r = dropWhile (\<lambda>u. ?n (uint u)) ys"
    have i2: "i2 \<le> length l" "drop i2 l = ys"
      using skipWhile_rest [of "i1 + 1" l isTabOrSpace] True by (simp_all add: i2_def ys_def skipBadWhitespace_def)
    have i3: "i3 \<le> length l" "drop i3 l = r" "str_slice l i2 i3 = takeWhile (\<lambda>u. ?n (uint u)) ys"
      using skipWhile_rest [OF i2(1), of ?n] by (simp_all add: i3_def r_def i2(2))
    have i4: "i3 \<le> i4" "i4 \<le> length l" "drop i4 l = dropWhile ?b r"
      using skipWhile_rest [OF i3(1), of isTabOrSpace] i3(2) by (simp_all add: i4_def skipBadWhitespace_def)
    have head: "dropWhile ?b (drop i l) = 59 # drop (i1 + 1) l" using True drop_nth [of i1 l] i1(2) by simp
    have ext: "ext_rest (drop i l) =
        (if \<not> isToken (takeWhile (\<lambda>u. ?n (uint u)) ys) then None
         else case dropWhile ?b r of
                [] \<Rightarrow> if r \<noteq> [] then None else Some []
              | v # w \<Rightarrow> if v = 61 then value_rest (dropWhile ?b w) else Some (v # w))"
      unfolding ext_rest_def head r_def ys_def Let_def by (simp only: list.case simp_thms if_False)
    have turn: "extensionTurn l i =
        (if \<not> isToken (takeWhile (\<lambda>u. ?n (uint u)) ys) then Inl ProtocolError
         else if i4 = length l \<and> i4 \<noteq> i3 then Inl ProtocolError
         else if i4 < length l \<and> charCodeAt l i4 = Some 61
         then (let k = skipBadWhitespace l (i4 + 1) in if k = length l then Inl ProtocolError else skipChunkExtensionValue l k)
         else Inr i4)"
      using True unfolding extensionTurn_def Let_def i1_def [symmetric] i2_def [symmetric] i3_def [symmetric] i3(3)
        i4_def [symmetric] by (simp add: charCodeAt_def uint_units split del: if_split)
    show ?thesis
    proof (cases "i4 < length l \<and> l ! i4 = 61")
      case False
      have "dropWhile ?b r = [] \<longleftrightarrow> i4 = length l"
        unfolding i4(3) [symmetric] using end_drop [OF i4(2)] by blast
      moreover have "r = [] \<longleftrightarrow> i3 = length l" unfolding i3(2) [symmetric] using end_drop [OF i3(1)] by blast
      moreover have "v = l ! i4" if "dropWhile ?b r = v # w" for v w
        using that drop_nth [of i4 l] i4(2,3) by (cases "i4 < length l") auto
      ultimately show ?thesis
        using False i4(1,2) i3(1) length_rest [OF i4(2), unfolded i4(3)] unfolding ext turn
        by (cases "dropWhile ?b r") (simp_all add: index_of_rest_def charCodeAt_def uint_units del: dropWhile_eq_Nil_conv)
    next
      case True
      define k where "k = skipBadWhitespace l (i4 + 1)"
      have k: "k \<le> length l" "drop k l = dropWhile ?b (drop (i4 + 1) l)"
        using skipWhile_rest [of "i4 + 1" l isTabOrSpace] True by (simp_all add: k_def skipBadWhitespace_def)
      have "dropWhile ?b r = 61 # drop (i4 + 1) l" using True drop_nth [of i4 l] i4(3) by simp
      then have "ext_rest (drop i l) =
          (if \<not> isToken (takeWhile (\<lambda>u. ?n (uint u)) ys) then None else value_rest (drop k l))"
        unfolding ext k(2) by simp
      moreover have "extensionTurn l i = (if \<not> isToken (takeWhile (\<lambda>u. ?n (uint u)) ys) then Inl ProtocolError
          else if k = length l then Inl ProtocolError else skipChunkExtensionValue l k)"
        using True by (simp add: turn Let_def charCodeAt_def k_def)
      moreover have "value_rest (drop k l) = None" if "k = length l" using that by (simp add: value_rest_def)
      ultimately show ?thesis
        using skipChunkExtensionValue_eq [of k l] k(1) by (auto simp: index_of_rest_def)
    qed
  qed
qed

text \<open>What the turns accept is the grammar.\<close>

lemma token_unit_class:
  "tokenUnit c \<Longrightarrow> \<not> isTabOrSpace c \<and> c \<noteq> 59 \<and> c \<noteq> 61 \<and> c \<noteq> 34"
  by (auto simp: tokenUnit_def isTabOrSpace_def)

lemma takeWhile_token:
  assumes "\<forall>u. tokenUnit (uint u) \<longrightarrow> p u" and "isToken t" and "z = [] \<or> \<not> p (hd z)"
  shows "takeWhile p (t @ z) = t" "dropWhile p (t @ z) = z"
  using assms by (cases z; auto simp: isToken_iff takeWhile_append2 dropWhile_append2)+

lemma dropWhile_blanks:
  "blanks a \<Longrightarrow> z = [] \<or> \<not> isTabOrSpace (uint (hd z)) \<Longrightarrow> dropWhile (\<lambda>u. isTabOrSpace (uint u)) (a @ z) = z"
  by (cases z) (auto simp: dropWhile_append2)

lemma not_blank_units: "\<not> isTabOrSpace 59" "\<not> isTabOrSpace 61" "\<not> isTabOrSpace 34"
  by (simp_all add: isTabOrSpace_def)

lemma chunk_exts_strip:
  "chunk_exts z \<Longrightarrow> z = [] \<or> (isTabOrSpace (uint (hd z)) \<or> hd z = 59) \<and>
     (\<exists>y. dropWhile (\<lambda>u. isTabOrSpace (uint u)) z = 59 # y \<and> chunk_exts (59 # y))"
proof (induction rule: chunk_exts.induct)
  case (ext_name a b nm z)
  have "dropWhile (\<lambda>u. isTabOrSpace (uint u)) (a @ 59 # b @ nm @ z) = 59 # b @ nm @ z"
    by (rule dropWhile_blanks) (use ext_name in \<open>auto simp: not_blank_units\<close>)
  moreover have "chunk_exts (59 # b @ nm @ z)" using chunk_exts.ext_name [of "[]" b nm z] ext_name by simp
  ultimately show ?case using ext_name(1) by (cases a) auto
next
  case (ext_token a b nm c d v z)
  have "dropWhile (\<lambda>u. isTabOrSpace (uint u)) (a @ 59 # b @ nm @ c @ 61 # d @ v @ z) = 59 # b @ nm @ c @ 61 # d @ v @ z"
    by (rule dropWhile_blanks) (use ext_token in \<open>auto simp: not_blank_units\<close>)
  moreover have "chunk_exts (59 # b @ nm @ c @ 61 # d @ v @ z)"
    using chunk_exts.ext_token [of "[]" b nm c d v z] ext_token by simp
  ultimately show ?case using ext_token(1) by (cases a) auto
next
  case (ext_quoted a b nm c d s z)
  have "dropWhile (\<lambda>u. isTabOrSpace (uint u)) (a @ 59 # b @ nm @ c @ 61 # d @ 34 # s) = 59 # b @ nm @ c @ 61 # d @ 34 # s"
    by (rule dropWhile_blanks) (use ext_quoted in \<open>auto simp: not_blank_units\<close>)
  moreover have "chunk_exts (59 # b @ nm @ c @ 61 # d @ 34 # s)"
    using chunk_exts.ext_quoted [of "[]" b nm c d s z] ext_quoted by simp
  ultimately show ?case using ext_quoted(1) by (cases a) auto
qed simp

lemma token_hd: "isToken t \<Longrightarrow> t \<noteq> [] \<and> \<not> isTabOrSpace (uint (hd t)) \<and> hd t \<noteq> 34"
  using token_unit_class [of "uint (hd t)"] by (cases t) (auto simp: isToken_iff)

lemma value_rest_token:
  assumes "isToken v" and "chunk_exts z"
  shows "value_rest (v @ z) = Some z"
proof -
  let ?p = "\<lambda>u :: code_unit. \<not> isTabOrSpace (uint u) \<and> uint u \<noteq> 59"
  have n: "\<forall>u. tokenUnit (uint u) \<longrightarrow> ?p u" using token_unit_class by blast
  have z: "z = [] \<or> \<not> ?p (hd z)" using chunk_exts_strip [OF assms(2)] by auto
  note takeWhile_token [of ?p, OF n assms(1) z]
  moreover obtain u w where "v = u # w" "u \<noteq> 34" using token_hd [OF assms(1)] by (cases v) auto
  ultimately show ?thesis using assms(1) unfolding value_rest_def by (simp add: Let_def split del: if_split)
qed

lemma ext_rest_head:
  assumes "blanks a" and "blanks b" and "isToken nm"
    and "z = [] \<or> isTabOrSpace (uint (hd z)) \<or> uint (hd z) = 59 \<or> uint (hd z) = 61"
  shows "ext_rest (a @ 59 # b @ nm @ z) =
    (case dropWhile (\<lambda>u. isTabOrSpace (uint u)) z of
       [] \<Rightarrow> if z \<noteq> [] then None else Some []
     | v # w \<Rightarrow> if v = 61 then value_rest (dropWhile (\<lambda>u. isTabOrSpace (uint u)) w) else Some (v # w))"
proof -
  let ?n = "\<lambda>u :: code_unit. \<not> isTabOrSpace (uint u) \<and> uint u \<noteq> 59 \<and> uint u \<noteq> 61"
  have 1: "dropWhile (\<lambda>u. isTabOrSpace (uint u)) (a @ 59 # b @ nm @ z) = 59 # b @ nm @ z"
    by (rule dropWhile_blanks) (use assms in \<open>auto simp: not_blank_units\<close>)
  have 2: "dropWhile (\<lambda>u. isTabOrSpace (uint u)) (b @ nm @ z) = nm @ z"
    by (rule dropWhile_blanks) (use assms token_hd [OF assms(3)] in auto)
  have n: "\<forall>u. tokenUnit (uint u) \<longrightarrow> ?n u" using token_unit_class by blast
  have z: "z = [] \<or> \<not> ?n (hd z)" using assms(4) by blast
  note 3 = takeWhile_token [of ?n, OF n assms(3) z]
  show ?thesis unfolding ext_rest_def 1 Let_def list.case 2 3 using assms(3) by (simp split del: if_split)
qed

lemma ext_rest_value:
  assumes "blanks a" and "blanks b" and "isToken nm" and "blanks c" and "blanks d" and "w \<noteq> []"
    and "\<not> isTabOrSpace (uint (hd w))"
  shows "ext_rest (a @ 59 # b @ nm @ c @ 61 # d @ w) = value_rest w"
proof -
  have c: "dropWhile (\<lambda>u. isTabOrSpace (uint u)) (c @ 61 # d @ w) = 61 # d @ w"
    by (rule dropWhile_blanks) (use assms in \<open>auto simp: not_blank_units\<close>)
  have d: "dropWhile (\<lambda>u. isTabOrSpace (uint u)) (d @ w) = w"
    by (rule dropWhile_blanks) (use assms in auto)
  have "c @ 61 # d @ w = [] \<or> isTabOrSpace (uint (hd (c @ 61 # d @ w))) \<or> uint (hd (c @ 61 # d @ w)) = 59 \<or>
      uint (hd (c @ 61 # d @ w)) = 61"
    using assms(4) by (cases c) simp_all
  from ext_rest_head [OF assms(1-3) this] show ?thesis by (simp only: c d list.case if_True simp_thms)
qed

lemma chunk_exts_turn:
  assumes "chunk_exts xs" and "xs \<noteq> []"
  shows "\<exists>z. ext_rest xs = Some z \<and> chunk_exts z"
  using assms(1)
proof cases
  case (ext_name a b nm z)
  have "ext_rest (a @ 59 # b @ nm @ z) =
    (case dropWhile (\<lambda>u. isTabOrSpace (uint u)) z of
       [] \<Rightarrow> if z \<noteq> [] then None else Some []
     | v # w \<Rightarrow> if v = 61 then value_rest (dropWhile (\<lambda>u. isTabOrSpace (uint u)) w) else Some (v # w))"
    by (rule ext_rest_head) (use ext_name chunk_exts_strip [of z] in auto)
  then show ?thesis using chunk_exts_strip [OF ext_name(5)] ext_none ext_name(1) by auto
next
  case (ext_token a b nm c d v z)
  have "ext_rest (a @ 59 # b @ nm @ c @ 61 # d @ (v @ z)) = value_rest (v @ z)"
    by (rule ext_rest_value) (use ext_token token_hd [of v] in auto)
  then show ?thesis using value_rest_token ext_token by auto
next
  case (ext_quoted a b nm c d s z)
  have "ext_rest (a @ 59 # b @ nm @ c @ 61 # d @ (34 # s)) = value_rest (34 # s)"
    by (rule ext_rest_value) (use ext_quoted in \<open>auto simp: not_blank_units\<close>)
  then show ?thesis using ext_quoted quoted_tail_iff [of s z] by (auto simp: value_rest_def)
qed (use assms(2) in simp)

lemma takeWhile_blanks: "blanks (takeWhile (\<lambda>u. isTabOrSpace (uint u)) xs)"
  by (auto dest: set_takeWhileD)

lemma value_rest_ext:
  assumes "value_rest xs = Some z"
  shows "(\<exists>v. isToken v \<and> xs = v @ z) \<or> (\<exists>s. xs = 34 # s \<and> quoted_rest s z)"
proof (cases xs)
  case (Cons u s)
  show ?thesis
  proof (cases "u = 34")
    case True
    then show ?thesis using assms Cons by (simp add: value_rest_def quoted_tail_iff)
  next
    case False
    let ?p = "\<lambda>u :: code_unit. \<not> isTabOrSpace (uint u) \<and> uint u \<noteq> 59"
    have v: "isToken (takeWhile ?p xs)" "z = dropWhile ?p xs"
      using assms False unfolding value_rest_def Cons list.case Let_def by (simp split del: if_split split: if_split_asm)+
    have "xs = takeWhile ?p xs @ z" by (simp add: v(2))
    then show ?thesis using v(1) by blast
  qed
qed (use assms in \<open>simp add: value_rest_def\<close>)

lemma ext_rest_exts:
  assumes "ext_rest xs = Some z" and "chunk_exts z"
  shows "chunk_exts xs"
proof -
  let ?b = "\<lambda>u :: code_unit. isTabOrSpace (uint u)"
  let ?n = "\<lambda>u :: code_unit. \<not> isTabOrSpace (uint u) \<and> uint u \<noteq> 59 \<and> uint u \<noteq> 61"
  define a where "a = takeWhile ?b xs"
  obtain s where s: "dropWhile ?b xs = 59 # s"
    using assms(1) unfolding ext_rest_def by (cases "dropWhile ?b xs") (simp_all split del: if_split split: if_split_asm)
  define b where "b = takeWhile ?b s"
  define nm where "nm = takeWhile ?n (dropWhile ?b s)"
  define r where "r = dropWhile ?n (dropWhile ?b s)"
  define c where "c = takeWhile ?b r"
  have xs: "xs = a @ 59 # s" unfolding a_def by (metis s takeWhile_dropWhile_id)
  have "s = b @ nm @ r" unfolding b_def nm_def r_def by simp
  with xs have xs: "xs = a @ 59 # b @ nm @ r" by simp
  have bl: "blanks a" "blanks b" "blanks c" unfolding a_def b_def c_def by (rule takeWhile_blanks)+
  have e: "(if \<not> isToken nm then None
      else case dropWhile ?b r of [] \<Rightarrow> if r \<noteq> [] then None else Some []
           | v # w \<Rightarrow> if v = 61 then value_rest (dropWhile ?b w) else Some (v # w)) = Some z"
    using assms(1) unfolding ext_rest_def s list.case Let_def nm_def r_def by (simp only: simp_thms if_False)
  then have nm: "isToken nm" by (simp split: if_split_asm)
  show ?thesis
  proof (cases "dropWhile ?b r")
    case Nil
    then have "r = [] \<and> z = []" using e nm by (simp split: if_split_asm del: dropWhile_eq_Nil_conv)
    then show ?thesis using ext_name [OF bl(1,2) nm ext_none] xs by simp
  next
    case (Cons v w)
    have r: "r = c @ v # w" unfolding c_def by (metis Cons takeWhile_dropWhile_id)
    show ?thesis
    proof (cases "v = 61")
      case True
      define d where "d = takeWhile ?b w"
      have "value_rest (dropWhile ?b w) = Some z" using e nm Cons True by simp
      moreover have w: "w = d @ dropWhile ?b w" "blanks d" unfolding d_def by (simp, rule takeWhile_blanks)
      ultimately consider v' where "isToken v'" "w = d @ v' @ z" | s' where "w = d @ 34 # s'" "quoted_rest s' z"
        using value_rest_ext by metis
      then show ?thesis
      proof cases
        case 1
        then show ?thesis using ext_token [OF bl(1,2) nm bl(3) w(2) 1(1) assms(2)] xs r True by simp
      next
        case 2
        then show ?thesis using ext_quoted [OF bl(1,2) nm bl(3) w(2) 2(2) assms(2)] xs r True by simp
      qed
    next
      case False
      then have z: "z = v # w" using e nm Cons by simp
      have "\<not> isTabOrSpace (uint v)" using hd_dropWhile [of ?b r] Cons by simp
      from assms(2) have "chunk_exts (c @ z)"
      proof cases
        case (ext_name a' b' nm' z')
        moreover have "blanks (c @ a')" using bl(3) ext_name by auto
        ultimately show ?thesis using chunk_exts.ext_name [of "c @ a'" b' nm' z'] by simp
      next
        case (ext_token a' b' nm' c' d' v' z')
        moreover have "blanks (c @ a')" using bl(3) ext_token by auto
        ultimately show ?thesis using chunk_exts.ext_token [of "c @ a'" b' nm' c' d' v' z'] by simp
      next
        case (ext_quoted a' b' nm' c' d' s' z')
        moreover have "blanks (c @ a')" using bl(3) ext_quoted by auto
        ultimately show ?thesis using chunk_exts.ext_quoted [of "c @ a'" b' nm' c' d' s' z'] by simp
      qed (use z in simp)
      then show ?thesis using ext_name [OF bl(1,2) nm] xs r z by simp
    qed
  qed
qed

lemma quoted_rest_suffix: "quoted_rest s z \<Longrightarrow> suffix z s"
  by (induction rule: quoted_rest.induct) (auto simp: suffix_def)

lemma value_rest_suffix: "value_rest xs = Some z \<Longrightarrow> suffix z xs"
  using value_rest_ext [of xs z] quoted_rest_suffix by (auto simp: suffix_Cons intro: suffixI)

lemma suffix_dropWhile_trans: "suffix z (dropWhile p xs) \<Longrightarrow> suffix z xs"
  by (rule suffix_order.trans [OF _ suffix_dropWhile])

lemma if_NoneD: "(if b then None else c) = Some z \<Longrightarrow> c = Some z"
  by (simp split: if_split_asm)

lemma ext_rest_suffix:
  assumes "ext_rest xs = Some z"
  shows "suffix z xs"
proof -
  let ?b = "\<lambda>u :: code_unit. isTabOrSpace (uint u)"
  let ?n = "\<lambda>u :: code_unit. \<not> isTabOrSpace (uint u) \<and> uint u \<noteq> 59 \<and> uint u \<noteq> 61"
  obtain s where s: "dropWhile ?b xs = 59 # s"
    using assms unfolding ext_rest_def by (cases "dropWhile ?b xs") (simp_all split del: if_split split: if_split_asm)
  define r where "r = dropWhile ?n (dropWhile ?b s)"
  have e: "(case dropWhile ?b r of [] \<Rightarrow> if r \<noteq> [] then None else Some []
           | v # w \<Rightarrow> if v = 61 then value_rest (dropWhile ?b w) else Some (v # w)) = Some z"
    using assms unfolding ext_rest_def s list.case Let_def r_def by (simp only: simp_thms if_False) (erule if_NoneD)
  have "suffix z r"
  proof (cases "dropWhile ?b r")
    case Nil
    then show ?thesis using e by (simp split: if_split_asm del: dropWhile_eq_Nil_conv)
  next
    case (Cons v w)
    then have "suffix (v # w) r" by (metis suffix_dropWhile)
    moreover have "suffix z (v # w)"
    proof (cases "v = 61")
      case True
      then have "value_rest (dropWhile ?b w) = Some z" using e Cons by simp
      then have "suffix z w" using value_rest_suffix suffix_dropWhile_trans by blast
      then show ?thesis by (simp add: suffix_Cons)
    qed (use e Cons in simp)
    ultimately show ?thesis by (rule suffix_order.trans [rotated])
  qed
  then have "suffix z s" unfolding r_def by (blast dest: suffix_dropWhile_trans)
  then have "suffix z (dropWhile ?b xs)" unfolding s by (simp add: suffix_Cons)
  then show ?thesis by (rule suffix_dropWhile_trans)
qed

lemma extensionTurn_rest:
  assumes "i < length l" and "ext_rest (drop i l) = Some z"
  shows "\<exists>j. extensionTurn l i = Inr j \<and> j \<le> length l \<and> drop j l = z"
proof -
  have "suffix z l" using suffix_order.trans [OF ext_rest_suffix [OF assms(2)] suffix_drop] .
  then obtain p where "l = p @ z" by (auto simp: suffix_def)
  then show ?thesis using extensionTurn_eq [OF assms(1)] assms(2) by (simp add: index_of_rest_def)
qed

lemma extensionsLoop_iff: "i \<le> length l \<Longrightarrow> extensionsLoop l i = Inr () \<longleftrightarrow> chunk_exts (drop i l)"
proof (induction l i rule: extensionsLoop.induct)
  case (1 l i)
  show ?case
  proof (cases "i < length l")
    case True
    show ?thesis
    proof (cases "ext_rest (drop i l)")
      case None
      then have "\<not> chunk_exts (drop i l)" using chunk_exts_turn [of "drop i l"] True by auto
      moreover have "extensionTurn l i = Inl ProtocolError"
        using extensionTurn_eq [OF True] None by (simp add: index_of_rest_def)
      ultimately show ?thesis using True by (subst extensionsLoop.simps) simp
    next
      case (Some z)
      obtain j where j: "extensionTurn l i = Inr j" "j \<le> length l" "drop j l = z"
        using extensionTurn_rest [OF True Some] by blast
      have "chunk_exts (drop i l) \<longleftrightarrow> chunk_exts z"
        using ext_rest_exts [OF Some] chunk_exts_turn [of "drop i l"] Some True by auto
      then show ?thesis using 1(1) [OF True j(1) j(2)] j True by (subst extensionsLoop.simps) simp
    qed
  next
    case False
    then show ?thesis using 1(2) by (subst extensionsLoop.simps) (simp add: ext_none)
  qed
qed

section \<open>Lemmas: chunk sizes\<close>

definition is_hex_unit :: "code_unit \<Rightarrow> bool" where
  "is_hex_unit u \<longleftrightarrow> 0 \<le> hexDigit (uint u)"

definition hex_number :: "jsstring \<Rightarrow> int" where
  "hex_number v = fold (\<lambda>u n. n * 16 + hexDigit (uint u)) v 0"

lemma hexDigit_less: "hexDigit c < 16"
  by (simp add: hexDigit_def)

lemma nat_digits_hex:
  "list_all is_hex_unit (nat_digits 16 n) \<and> hex_number (nat_digits 16 n) = int n \<and> nat_digits 16 n \<noteq> []"
proof (induction "16 :: nat" n rule: nat_digits.induct)
  case (1 n)
  have d: "is_hex_unit (digitChar k) \<and> hexDigit (uint (digitChar k)) = int k" if "k < 16" for k
    using that by (auto simp: is_hex_unit_def uint_digitChar hexDigit_def)
  show ?case
  proof (cases "n < 16")
    case True
    then show ?thesis using d [of n] by (simp add: nat_digits.simps [of 16 n] hex_number_def)
  next
    case False
    then show ?thesis using 1 d [of "n mod 16"]
      by (subst (1 2 3) nat_digits.simps) (simp add: hex_number_def zdiv_int zmod_int)
  qed
qed

lemma chunk_exts_no_hex: "chunk_exts z \<Longrightarrow> z = [] \<or> \<not> is_hex_unit (hd z)"
  using chunk_exts_strip [of z] by (auto simp: is_hex_unit_def hexDigit_def isTabOrSpace_def)

lemma parseChunkSize_iff:
  "parseChunkSize l = Inr n \<longleftrightarrow>
     (\<exists>ds z. l = ds @ z \<and> ds \<noteq> [] \<and> list_all is_hex_unit ds \<and> hex_number ds = n \<and> js_isSafeInteger n \<and>
        chunk_exts z \<and> (\<forall>u\<in>set l. wireUnit (uint u)))"
proof -
  define hs where "hs = takeWhile is_hex_unit l"
  have d: "digitsLoop hexDigit 16 l 0 0 = (hex_number hs, length hs)"
    using digitsLoop_eq [of l is_hex_unit hexDigit 16 0 0] hexDigit_less by (auto simp: is_hex_unit_def hex_number_def hs_def)
  have len: "length hs \<le> length l" "drop (length hs) l = dropWhile is_hex_unit l"
    unfolding hs_def by (simp_all add: length_takeWhile_le dropWhile_eq_drop)
  have all: "list_all is_hex_unit hs" by (auto simp: hs_def list_all_iff dest: set_takeWhileD)
  have "parseChunkSize l = Inr n \<longleftrightarrow>
      (\<forall>u\<in>set l. wireUnit (uint u)) \<and> hs \<noteq> [] \<and> chunk_exts (dropWhile is_hex_unit l) \<and>
      js_isSafeInteger (hex_number hs) \<and> n = hex_number hs"
    using extensionsLoop_iff [OF len(1)]
    by (auto simp: parseChunkSize_def res_bind_Inr_iff validateWireValue_ok d len(2))
  moreover have "hs = ds \<and> dropWhile is_hex_unit l = z" if "l = ds @ z" "list_all is_hex_unit ds" "chunk_exts z" for ds z
    using that chunk_exts_no_hex [OF that(3)]
    by (cases z) (auto simp: hs_def list_all_iff takeWhile_append2 dropWhile_append2)
  moreover have "l = hs @ dropWhile is_hex_unit l" by (simp add: hs_def)
  ultimately show ?thesis using all by metis
qed

lemma parse_nat_digits: "js_isSafeInteger (int k) \<longleftrightarrow> parseChunkSize (nat_digits 16 k) = Inr (int k)"
proof -
  have "wireUnit (uint u)" if "is_hex_unit u" for u
    using that by (auto simp: is_hex_unit_def hexDigit_def wireUnit_def split: if_splits)
  then have "\<forall>u\<in>set (nat_digits 16 k). wireUnit (uint u)" using nat_digits_hex [of k] by (auto simp: list_all_iff)
  moreover have "hex_number ds = int k \<Longrightarrow> js_isSafeInteger (int k) \<longleftrightarrow> js_isSafeInteger (hex_number ds)" for ds by simp
  ultimately show ?thesis
    using nat_digits_hex [of k] ext_none unfolding parseChunkSize_iff by (metis append_Nil2)
qed

section \<open>Properties\<close>

text \<open>
  C28: Chunk sizes. \<^verbatim>\<open>parseChunkSize\<close> accepts exactly the lines of the grammar whose number is exact:
  hexadecimal digits, then extensions, in bytes a field may hold; and it returns the number the
  digits spell, so what an encoder writes for a size is read back as that size.
\<close>

theorem http1_chunk_size:
  "(parseChunkSize l = Inr n \<longleftrightarrow>
      (\<exists>ds z. l = ds @ z \<and> ds \<noteq> [] \<and> list_all is_hex_unit ds \<and> hex_number ds = n \<and> js_isSafeInteger n \<and>
         chunk_exts z \<and> list_all (\<lambda>u. wireUnit (uint u)) l)) \<and>
   (js_isSafeInteger (int k) \<longleftrightarrow> parseChunkSize (nat_digits 16 k) = Inr (int k))"
  using parseChunkSize_iff [of l n] parse_nat_digits [of k] unfolding list_all_iff by blast

end
