(* ===== verification/Http1_Request.thy ===== *)
theory Http1_Request
  imports Http1_Chunk
begin

text \<open>
  The sending side of \<^verbatim>\<open>runtime/web-platform/src/http1/transport.ts\<close>: the request head and the upload
  of the request body, with fixed length or chunked.
\<close>

section \<open>The request head\<close>

text \<open>The members of a transport request that the head depends on.\<close>

record transport_request =
  tr_method :: jsstring
  tr_host :: jsstring
  tr_headers :: "header_entry list"
  tr_hasBody :: bool
  tr_bodyLength :: "nat option"
  tr_upgradeProtocol :: "jsstring option"
  tr_acceptTunnel :: bool

record dispatch_route =
  rt_requestTarget :: jsstring
  rt_headers :: "header_entry list"

definition transportManagedNames :: "jsstring list" where
  "transportManagedNames = map js_string
     [''host'', ''connection'', ''transfer-encoding'', ''upgrade'', ''trailer'', ''te'', ''keep-alive'',
      ''proxy-connection'', ''proxy-authorization'', ''expect'']"

definition isRouteManagedHeader :: "jsstring \<Rightarrow> bool" where
  "isRouteManagedHeader name \<longleftrightarrow>
     name = js_string ''host'' \<or> name = js_string ''connection'' \<or> name = js_string ''content-length'' \<or>
     name = js_string ''transfer-encoding'' \<or> name = js_string ''upgrade'' \<or> name = js_string ''trailer'' \<or>
     name = js_string ''te'' \<or> name = js_string ''keep-alive'' \<or> name = js_string ''proxy-connection'' \<or>
     name = js_string ''expect''"

text \<open>The refusals before the head is built.\<close>

definition checkRequestHeaders :: "transport_request \<Rightarrow> headers \<Rightarrow> unit result" where
  "checkRequestHeaders req h =
     res_bind (res_fold (\<lambda>name _. res_bind (headers_has name h) (\<lambda>present.
                 if present then Inl TypeError else Inr ())) transportManagedNames ()) (\<lambda>_.
     res_bind (contentLength h) (\<lambda>declared.
       case declared of
         None \<Rightarrow> Inr ()
       | Some n \<Rightarrow> (case tr_bodyLength req of
                     None \<Rightarrow> Inl TypeError
                   | Some len \<Rightarrow> if n \<noteq> int len then Inl TypeError else Inr ())))"

definition setUpgrade :: "transport_request \<Rightarrow> headers \<Rightarrow> headers result" where
  "setUpgrade req h =
     (case tr_upgradeProtocol req of
        None \<Rightarrow> Inr h
      | Some protocol \<Rightarrow>
          if \<not> tr_acceptTunnel req then Inl TypeError
          else if \<not> isToken protocol then Inl TypeError
          else res_bind (headers_set (js_string ''connection'') (js_string ''upgrade'') h)
                 (headers_set (js_string ''upgrade'') protocol))"

definition setRouteHeaders :: "dispatch_route \<Rightarrow> headers \<Rightarrow> headers result" where
  "setRouteHeaders route h =
     res_fold (\<lambda>(name, value) h.
         if isRouteManagedHeader (toLowerCase name) then Inl TypeError else headers_set name value h)
       (rt_headers route) h"

definition isChunkedUpload :: "transport_request \<Rightarrow> bool" where
  "isChunkedUpload req \<longleftrightarrow> tr_hasBody req \<and> tr_bodyLength req = None"

definition setBodyFraming :: "transport_request \<Rightarrow> headers \<Rightarrow> headers result" where
  "setBodyFraming req h =
     (if isChunkedUpload req then headers_set (js_string ''transfer-encoding'') (js_string ''chunked'') h
      else case tr_bodyLength req of
             None \<Rightarrow> Inr h
           | Some len \<Rightarrow>
               if tr_hasBody req \<or> tr_method req = js_string ''POST'' \<or> tr_method req = js_string ''PUT'' \<or>
                  tr_method req = js_string ''PATCH''
               then headers_set (js_string ''content-length'') (nat_digits 10 len) h
               else Inr h)"

definition requestHeaders :: "transport_request \<Rightarrow> dispatch_route \<Rightarrow> headers result" where
  "requestHeaders req route =
     res_bind (headersOf (tr_headers req)) (\<lambda>h0.
     res_bind (checkRequestHeaders req h0) (\<lambda>_.
     res_bind (headers_delete (js_string ''content-length'') h0) (\<lambda>h1.
     res_bind (headers_set (js_string ''host'') (tr_host req) h1) (\<lambda>h2.
     res_bind (setUpgrade req h2) (\<lambda>h3.
     res_bind (setRouteHeaders route h3) (\<lambda>h4.
       setBodyFraming req h4))))))"

definition CRLF :: jsstring where
  "CRLF = [13, 10]"

definition requestHead :: "transport_request \<Rightarrow> dispatch_route \<Rightarrow> (bytes \<times> bool) result" where
  "requestHead req route =
     res_bind (requestHeaders req route) (\<lambda>h.
       let target = rt_requestTarget route
       in if list_ex (\<lambda>u. uint u < 0x21 \<or> uint u > 0x7e) target then Inl TypeError
          else
            res_bind (res_fold (\<lambda>(name, value) head.
                res_bind (validateWireValue value) (\<lambda>_.
                  Inr (head @ name @ js_string '': '' @ value @ CRLF))) (hs_list h)
              (tr_method req @ js_string '' '' @ (if target = [] then js_string ''/'' else target) @ js_string '' HTTP/1.1'' @ CRLF))
            (\<lambda>head. res_bind (encodeByteString (head @ CRLF)) (\<lambda>bytes. Inr (bytes, isChunkedUpload req))))"

section \<open>The upload\<close>

text \<open>
  The chunks the body's reader delivers; \<open>Inl e\<close> is a read that rejects, the end of the list is the
  end of the stream.
\<close>

fun uploadLoop ::
    "'c write_fn \<Rightarrow> nat option \<Rightarrow> bool \<Rightarrow> bytes result list \<Rightarrow> nat \<Rightarrow> 'c \<Rightarrow> unit result \<times> 'c" where
  "uploadLoop wr len chunked [] sent c =
     (if len \<noteq> None \<and> len \<noteq> Some sent then (Inl ProtocolError, c)
      else if chunked then
        (case encodeByteString (js_string ''0'' @ CRLF @ CRLF) of
           Inl e \<Rightarrow> (Inl e, c)
         | Inr bs \<Rightarrow> writeAll wr bs c)
      else (Inr (), c))"
| "uploadLoop wr len chunked (Inl e # items) sent c = (Inl e, c)"
| "uploadLoop wr len chunked (Inr data # items) sent c =
     (if length data = 0 then uploadLoop wr len chunked items sent c
      else
        (let sent' = sent + length data
         in if (case len of None \<Rightarrow> False | Some n \<Rightarrow> sent' > n) then (Inl ProtocolError, c)
            else
              (case (if chunked then
                       (case encodeByteString (nat_digits 16 (length data) @ CRLF) of
                          Inl e \<Rightarrow> (Inl e, c)
                        | Inr bs \<Rightarrow> writeAll wr bs c)
                     else (Inr (), c)) of
                 (Inl e, c1) \<Rightarrow> (Inl e, c1)
               | (Inr u, c1) \<Rightarrow>
                   (case writeAll wr data c1 of
                      (Inl e, c2) \<Rightarrow> (Inl e, c2)
                    | (Inr u, c2) \<Rightarrow>
                        (case (if chunked then
                                 (case encodeByteString CRLF of Inl e \<Rightarrow> (Inl e, c2) | Inr bs \<Rightarrow> writeAll wr bs c2)
                               else (Inr (), c2)) of
                           (Inl e, c3) \<Rightarrow> (Inl e, c3)
                         | (Inr u, c3) \<Rightarrow> uploadLoop wr len chunked items sent' c3)))))"

text \<open>\<open>None\<close> is a request without a body.\<close>

definition upload ::
    "'c write_fn \<Rightarrow> bytes result list option \<Rightarrow> nat option \<Rightarrow> bool \<Rightarrow> 'c \<Rightarrow> unit result \<times> 'c" where
  "upload wr items len chunked c =
     (case items of None \<Rightarrow> (Inr (), c) | Some is \<Rightarrow> uploadLoop wr len chunked is 0 c)"

section \<open>Lemmas: the header list of a request\<close>

lemma header_names:
  "toLowerCase (js_string ''host'') = js_string ''host''"
  "toLowerCase (js_string ''connection'') = js_string ''connection''"
  "toLowerCase (js_string ''upgrade'') = js_string ''upgrade''"
  "toLowerCase (js_string ''transfer-encoding'') = js_string ''transfer-encoding''"
  "toLowerCase (js_string ''content-length'') = js_string ''content-length''"
  by code_simp+

lemma headersOf_values:
  assumes "headersOf es = Inr h"
  shows "header_values h n = map (trimHTTPWhitespace \<circ> snd) (filter (\<lambda>e. toLowerCase (fst e) = n) es)"
proof -
  have "header_values h' n = header_values h n @ map (trimHTTPWhitespace \<circ> snd) (filter (\<lambda>e. toLowerCase (fst e) = n) es)"
    if "headers_fill (map (\<lambda>(name, value). [name, value]) es) h = Inr h'" for h h'
    using that
  proof (induction es arbitrary: h)
    case Nil
    then show ?case by (simp add: headers_fill_def)
  next
    case (Cons e es)
    obtain name v where e: "e = (name, v)" by (cases e)
    obtain h1 where h1: "appendConverted name v h = Inr h1" "headers_fill (map (\<lambda>(name, value). [name, value]) es) h1 = Inr h'"
      using Cons.prems by (auto simp: headers_fill_def e res_bind_Inr_iff)
    then have "h1 = list_add (toLowerCase name) (trimHTTPWhitespace v) h"
      by (auto simp: appendConverted_ok normalizeConvertedValue_def Let_def split: if_splits)
    then show ?case using Cons.IH [OF h1(2)] by (simp add: e hl.vals_add)
  qed
  from this [of newHeaders h] assms show ?thesis
    by (auto simp: headersOf_def res_bind_Inr_iff newHeaders_def header_values_def)
qed

lemma headers_set_values:
  assumes "headers_set name v h = Inr h'"
  shows "header_values h' = (header_values h)(toLowerCase name := [trimHTTPWhitespace v])"
    and "headers_reachable h \<Longrightarrow> headers_reachable h'"
  using assms by (auto simp: headers_set_ok normalizeConvertedValue_def Let_def hl.vals_put split: if_splits)
    (use assms reach_set in blast)

lemma setRouteHeaders_values:
  assumes "setRouteHeaders route h = Inr h'"
  shows "header_values h' n =
      (case filter (\<lambda>e. toLowerCase (fst e) = n) (rt_headers route) of
         [] \<Rightarrow> header_values h n | e # es \<Rightarrow> [trimHTTPWhitespace (snd (last (e # es)))])"
    and "headers_reachable h \<Longrightarrow> headers_reachable h'"
    and "isRouteManagedHeader n \<Longrightarrow> filter (\<lambda>e. toLowerCase (fst e) = n) (rt_headers route) = []"
proof -
  define step where "step = (\<lambda>(name, value) h.
      if isRouteManagedHeader (toLowerCase name) then Inl TypeError else headers_set name value h)"
  have "header_values h' n = (case filter (\<lambda>e. toLowerCase (fst e) = n) es of
         [] \<Rightarrow> header_values h n | e # es \<Rightarrow> [trimHTTPWhitespace (snd (last (e # es)))]) \<and>
      (headers_reachable h \<longrightarrow> headers_reachable h') \<and> (isRouteManagedHeader n \<longrightarrow> filter (\<lambda>e. toLowerCase (fst e) = n) es = [])"
    if "res_fold step es h = Inr h'" for es
    using that
  proof (induction es arbitrary: h)
    case (Cons e es)
    obtain name v where e: "e = (name, v)" by (cases e)
    obtain h1 where h1: "\<not> isRouteManagedHeader (toLowerCase name)" "headers_set name v h = Inr h1" "res_fold step es h1 = Inr h'"
      using Cons.prems by (auto simp: step_def e res_bind_Inr_iff split: if_splits)
    show ?case
      using Cons.IH [OF h1(3)] headers_set_values [OF h1(2)] h1(1) by (auto simp: e split: list.splits)
  qed simp
  from this [of "rt_headers route"] assms
  show "header_values h' n = (case filter (\<lambda>e. toLowerCase (fst e) = n) (rt_headers route) of
         [] \<Rightarrow> header_values h n | e # es \<Rightarrow> [trimHTTPWhitespace (snd (last (e # es)))])"
    and "headers_reachable h \<Longrightarrow> headers_reachable h'"
    and "isRouteManagedHeader n \<Longrightarrow> filter (\<lambda>e. toLowerCase (fst e) = n) (rt_headers route) = []"
    by (auto simp: setRouteHeaders_def step_def)
qed

lemma trim_token: "isToken s \<Longrightarrow> trimHTTPWhitespace s = s"
proof -
  assume t: "isToken s"
  have "\<not> isHTTPWhitespace (uint u)" if "u \<in> set s" for u
    using t that tokenUnit_bounds [of "uint u"] by (auto simp: isToken_iff isHTTPWhitespace_def)
  moreover have "s \<noteq> []" using t by (simp add: isToken_iff)
  ultimately show ?thesis by (simp add: trim_eq strip_left_id strip_right_id)
qed

lemma trim_digits: "trimHTTPWhitespace (nat_digits 10 n) = nat_digits 10 n"
proof -
  have "isToken (nat_digits 10 n)"
    using nat_digits_decimal [of n] by (auto simp: isToken_iff list_all_iff is_digit_unit_def tokenUnit_def)
  then show ?thesis by (rule trim_token)
qed

definition sends_length :: "transport_request \<Rightarrow> bool" where
  "sends_length req \<longleftrightarrow> tr_hasBody req \<or> tr_method req = js_string ''POST'' \<or> tr_method req = js_string ''PUT'' \<or>
     tr_method req = js_string ''PATCH''"

text \<open>
  The values a request has under a lower-case name: the framing of its body, its host and the
  upgrade it asks for; under any other name the last value the route gives, or else the values the
  caller gave, in their order.
\<close>

definition requested_values :: "transport_request \<Rightarrow> dispatch_route \<Rightarrow> jsstring \<Rightarrow> jsstring list" where
  "requested_values req route n =
     (if n = js_string ''transfer-encoding'' then (if isChunkedUpload req then [js_string ''chunked''] else [])
      else if n = js_string ''content-length''
      then (case tr_bodyLength req of None \<Rightarrow> [] | Some len \<Rightarrow> if sends_length req then [nat_digits 10 len] else [])
      else if n = js_string ''host'' then [trimHTTPWhitespace (tr_host req)]
      else if n = js_string ''connection''
      then (case tr_upgradeProtocol req of None \<Rightarrow> [] | Some p \<Rightarrow> [js_string ''upgrade''])
      else if n = js_string ''upgrade'' then (case tr_upgradeProtocol req of None \<Rightarrow> [] | Some p \<Rightarrow> [p])
      else case filter (\<lambda>e. toLowerCase (fst e) = n) (rt_headers route) of
             [] \<Rightarrow> map (trimHTTPWhitespace \<circ> snd) (filter (\<lambda>e. toLowerCase (fst e) = n) (tr_headers req))
           | e # es \<Rightarrow> [trimHTTPWhitespace (snd (last (e # es)))])"

lemma fixed_values:
  "trimHTTPWhitespace (js_string ''upgrade'') = js_string ''upgrade''"
  "trimHTTPWhitespace (js_string ''chunked'') = js_string ''chunked''"
  by code_simp+

lemma name_distinct:
  "js_string ''host'' \<noteq> js_string ''content-length''" "js_string ''host'' \<noteq> js_string ''transfer-encoding''"
  "js_string ''connection'' \<noteq> js_string ''content-length''" "js_string ''connection'' \<noteq> js_string ''transfer-encoding''"
  "js_string ''upgrade'' \<noteq> js_string ''content-length''" "js_string ''upgrade'' \<noteq> js_string ''transfer-encoding''"
  "js_string ''host'' \<noteq> js_string ''connection''" "js_string ''host'' \<noteq> js_string ''upgrade''"
  "js_string ''connection'' \<noteq> js_string ''upgrade''" "js_string ''content-length'' \<noteq> js_string ''transfer-encoding''"
  by simp_all

lemma setUpgrade_values:
  assumes "setUpgrade req h = Inr h'"
  shows "header_values h' = (case tr_upgradeProtocol req of None \<Rightarrow> header_values h
      | Some p \<Rightarrow> (header_values h)(js_string ''connection'' := [js_string ''upgrade''], js_string ''upgrade'' := [p]))"
    and "headers_reachable h \<Longrightarrow> headers_reachable h'"
  using assms
  by (auto simp: setUpgrade_def res_bind_Inr_iff header_names fixed_values trim_token headers_set_values(1)
      split: option.splits if_splits dest: headers_set_values(2))

lemma setBodyFraming_values:
  assumes "setBodyFraming req h = Inr h'"
  shows "header_values h' = (if isChunkedUpload req then (header_values h)(js_string ''transfer-encoding'' := [js_string ''chunked''])
      else case tr_bodyLength req of None \<Rightarrow> header_values h
        | Some len \<Rightarrow> if sends_length req then (header_values h)(js_string ''content-length'' := [nat_digits 10 len]) else header_values h)"
    and "headers_reachable h \<Longrightarrow> headers_reachable h'"
  using assms
  by (auto simp: setBodyFraming_def sends_length_def header_names fixed_values trim_digits headers_set_values(1)
      split: option.splits if_splits dest: headers_set_values(2))

lemma unmanaged_values:
  assumes "checkRequestHeaders req h = Inr ()"
  shows "header_values h (js_string ''connection'') = []" "header_values h (js_string ''upgrade'') = []"
    "header_values h (js_string ''transfer-encoding'') = []"
proof -
  have n: "normalizeName (js_string ''connection'') = Inr (js_string ''connection'')"
    "normalizeName (js_string ''upgrade'') = Inr (js_string ''upgrade'')" by code_simp+
  have "headers_has (js_string ''connection'') h = Inr False" "headers_has (js_string ''upgrade'') h = Inr False"
    "headers_has (js_string ''transfer-encoding'') h = Inr False"
    using assms by (auto simp: checkRequestHeaders_def transportManagedNames_def res_bind_Inr_iff split: if_splits)
  then show "header_values h (js_string ''connection'') = []" "header_values h (js_string ''upgrade'') = []"
    "header_values h (js_string ''transfer-encoding'') = []"
    by (simp_all add: headers_has_def n framing_names headers_has_iff)
qed

lemma requestHeaders_values:
  assumes "requestHeaders req route = Inr h"
  shows "headers_reachable h" "header_values h n = requested_values req route n"
proof -
  obtain h0 h1 h2 h3 h4 where s: "headersOf (tr_headers req) = Inr h0" "checkRequestHeaders req h0 = Inr ()"
    "headers_delete (js_string ''content-length'') h0 = Inr h1" "headers_set (js_string ''host'') (tr_host req) h1 = Inr h2"
    "setUpgrade req h2 = Inr h3" "setRouteHeaders route h3 = Inr h4" "setBodyFraming req h4 = Inr h"
    using assms by (auto simp: requestHeaders_def res_bind_Inr_iff)
  have h1: "h1 = list_del (js_string ''content-length'') h0" using s(3) by (simp add: headers_delete_ok header_names)
  have "headers_reachable h1" using reach_delete [OF reach_of [OF s(1)] s(3)] .
  then show "headers_reachable h"
    by (intro setBodyFraming_values(2) [OF s(7)] setRouteHeaders_values(2) [OF s(6)] setUpgrade_values(2) [OF s(5)]
        headers_set_values(2) [OF s(4)])
  define v where "v = map (trimHTTPWhitespace \<circ> snd) (filter (\<lambda>e. toLowerCase (fst e) = n) (tr_headers req))"
  define r where "r = filter (\<lambda>e. toLowerCase (fst e) = n) (rt_headers route)"
  have v0: "header_values h0 n = v" using headersOf_values [OF s(1)] by (simp add: v_def)
  have v2: "header_values h2 n = (if n = js_string ''host'' then [trimHTTPWhitespace (tr_host req)]
      else if n = js_string ''content-length'' then [] else v)"
    using v0 by (simp add: headers_set_values(1) [OF s(4)] header_names h1 hl.vals_del)
  have v4: "header_values h4 n = (case r of [] \<Rightarrow> header_values h3 n | e # es \<Rightarrow> [trimHTTPWhitespace (snd (last (e # es)))])"
    unfolding r_def by (rule setRouteHeaders_values(1) [OF s(6)])
  have r: "isRouteManagedHeader n \<Longrightarrow> r = []" using setRouteHeaders_values(3) [OF s(6)] by (simp add: r_def)
  consider (te) "n = js_string ''transfer-encoding''" | (cl) "n = js_string ''content-length''" | (host) "n = js_string ''host''"
    | (conn) "n = js_string ''connection''" | (up) "n = js_string ''upgrade''"
    | (other) "n \<noteq> js_string ''transfer-encoding''" "n \<noteq> js_string ''content-length''" "n \<noteq> js_string ''host''"
      "n \<noteq> js_string ''connection''" "n \<noteq> js_string ''upgrade''" by blast
  then show "header_values h n = requested_values req route n"
  proof cases
    case te
    then have "r = []" "v = []" using r unmanaged_values(3) [OF s(2)] v0 by (simp_all add: isRouteManagedHeader_def)
    then show ?thesis using te v2 v4
      by (auto simp: setBodyFraming_values(1) [OF s(7)] setUpgrade_values(1) [OF s(5)] requested_values_def split: option.split)
  next
    case cl
    then have "r = []" using r by (simp add: isRouteManagedHeader_def)
    then show ?thesis using cl v2 v4
      by (auto simp: setBodyFraming_values(1) [OF s(7)] setUpgrade_values(1) [OF s(5)] requested_values_def isChunkedUpload_def
          split: option.split)
  next
    case host
    then have "r = []" using r by (simp add: isRouteManagedHeader_def)
    then show ?thesis using host v2 v4
      by (auto simp: setBodyFraming_values(1) [OF s(7)] setUpgrade_values(1) [OF s(5)] requested_values_def split: option.split)
  next
    case conn
    then have "r = []" "v = []" using r unmanaged_values(1) [OF s(2)] v0 by (simp_all add: isRouteManagedHeader_def)
    then show ?thesis using conn v2 v4
      by (auto simp: setBodyFraming_values(1) [OF s(7)] setUpgrade_values(1) [OF s(5)] requested_values_def split: option.split)
  next
    case up
    then have "r = []" "v = []" using r unmanaged_values(2) [OF s(2)] v0 by (simp_all add: isRouteManagedHeader_def)
    then show ?thesis using up v2 v4
      by (auto simp: setBodyFraming_values(1) [OF s(7)] setUpgrade_values(1) [OF s(5)] requested_values_def split: option.split)
  next
    case other
    then have "requested_values req route n = (case r of [] \<Rightarrow> v | e # es \<Rightarrow> [trimHTTPWhitespace (snd (last (e # es)))])"
      by (simp only: requested_values_def v_def r_def if_False)
    then show ?thesis using other v2 v4
      by (auto simp: setBodyFraming_values(1) [OF s(7)] setUpgrade_values(1) [OF s(5)] split: option.split list.split)
  qed
qed

section \<open>Lemmas: the bytes of a request head\<close>

definition target_sent :: "dispatch_route \<Rightarrow> jsstring" where
  "target_sent route = (if rt_requestTarget route = [] then js_string ''/'' else rt_requestTarget route)"

lemma head_fold:
  "res_fold (\<lambda>(name, value) head.
       res_bind (validateWireValue value) (\<lambda>_. Inr (head @ name @ js_string '': '' @ value @ CRLF))) es acc = Inr head \<longleftrightarrow>
     (\<forall>e\<in>set es. \<forall>u\<in>set (snd e). wireUnit (uint u)) \<and> head = acc @ concat (map (\<lambda>e. field_line e @ CRLF) es)"
proof (induction es arbitrary: acc)
  case (Cons e es)
  obtain n v where "e = (n, v)" by (cases e)
  then show ?case using Cons by (auto simp: res_bind_Inr_iff validateWireValue_ok field_line_def)
qed auto

lemma unit_bytes_lines:
  "unit_bytes (l @ CRLF) = line_bytes l"
  "unit_bytes (concat (map (\<lambda>e. field_line e @ CRLF) es) @ CRLF) = field_bytes es"
proof -
  show l: "unit_bytes (l @ CRLF) = line_bytes l" for l by (simp add: unit_bytes_def line_bytes_def CRLF_def)
  have "unit_bytes (concat (map (\<lambda>e. field_line e @ CRLF) es)) = concat (map (\<lambda>e. line_bytes (field_line e)) es)"
    by (induction es) (use l in \<open>auto simp: unit_bytes_def\<close>)
  then show "unit_bytes (concat (map (\<lambda>e. field_line e @ CRLF) es) @ CRLF) = field_bytes es"
    using l [of "[]"] by (simp add: field_bytes_def unit_bytes_def)
qed

lemma requestHead_bytes:
  assumes "requestHead req route = Inr (bs, chunked)" and "requestHeaders req route = Inr h"
  shows "(\<forall>u\<in>set (target_sent route). 0x21 \<le> uint u \<and> uint u \<le> 0x7e) \<and>
    (\<forall>e\<in>set (hs_list h). \<forall>u\<in>set (snd e). wireUnit (uint u)) \<and> chunked = isChunkedUpload req \<and>
    bs = line_bytes (tr_method req @ 32 # target_sent route @ 32 # js_string ''HTTP/'' @ version_text HTTP_1_1) @
      field_bytes (hs_list h)"
proof -
  let ?line = "tr_method req @ 32 # target_sent route @ 32 # js_string ''HTTP/'' @ version_text HTTP_1_1"
  have c: "js_string '' '' = [32]" "js_string '' HTTP/1.1'' = 32 # js_string ''HTTP/'' @ version_text HTTP_1_1"
    "js_string ''/'' = [47]" by code_simp+
  obtain head where t: "\<not> list_ex (\<lambda>u. uint u < 0x21 \<or> uint u > 0x7e) (rt_requestTarget route)"
    and e: "encodeByteString (head @ CRLF) = Inr bs" "chunked = isChunkedUpload req"
    and f: "res_fold (\<lambda>(name, value) head.
       res_bind (validateWireValue value) (\<lambda>_. Inr (head @ name @ js_string '': '' @ value @ CRLF))) (hs_list h)
       (tr_method req @ js_string '' '' @ target_sent route @ js_string '' HTTP/1.1'' @ CRLF) = Inr head"
    using assms by (auto simp: requestHead_def res_bind_Inr_iff Let_def target_sent_def split: if_split_asm)
  note f = f [unfolded head_fold c]
  have "bs = unit_bytes (head @ CRLF)"
    using e(1) by (auto simp: encodeByteString_eq unit_bytes_def split: if_split_asm)
  also have "\<dots> = unit_bytes (?line @ CRLF) @ unit_bytes (concat (map (\<lambda>e. field_line e @ CRLF) (hs_list h)) @ CRLF)"
    using f by (simp add: unit_bytes_def)
  finally have "bs = line_bytes ?line @ field_bytes (hs_list h)"
    by (simp only: unit_bytes_lines(1) [of ?line] unit_bytes_lines(2) [of "hs_list h"])
  moreover have "\<forall>u\<in>set (target_sent route). 0x21 \<le> uint u \<and> uint u \<le> 0x7e"
    using t by (auto simp: target_sent_def list_ex_iff c)
  ultimately show ?thesis using f e(2) by blast
qed

lemma clean_wire_field:
  assumes "token_name (fst e)" and "clean_value (snd e)" and "\<forall>u\<in>set (snd e). wireUnit (uint u)"
  shows "wire_field e"
  using assms by (auto simp: wire_field_def clean_value_def isHTTPTabOrSpace_def isHTTPWhitespace_def)

section \<open>Lemmas: the upload\<close>

definition chunk_bytes :: "bytes \<Rightarrow> bytes" where
  "chunk_bytes data = line_bytes (nat_digits 16 (length data)) @ data @ line_bytes []"

text \<open>What the upload of some chunks puts on the wire; empty chunks are skipped.\<close>

definition body_bytes :: "bool \<Rightarrow> bytes list \<Rightarrow> bytes" where
  "body_bytes chunked datas =
     (if chunked then concat (map chunk_bytes (filter (\<lambda>d. d \<noteq> []) datas)) @ line_bytes (js_string ''0'') @ line_bytes []
      else concat datas)"

lemma writeAll_sent: "transport_writes wr sent \<Longrightarrow> writeAll wr data c = (Inr u, c') \<Longrightarrow> sent c' = sent c @ data"
  using writeLoop_sent [of wr sent data 0 c u c'] by (simp add: writeAll_def)

lemma encode_line:
  "list_all is_hex_unit s \<Longrightarrow> encodeByteString (s @ CRLF) = Inr (line_bytes s)"
  "encodeByteString CRLF = Inr (line_bytes [])"
  "encodeByteString (js_string ''0'' @ CRLF @ CRLF) = Inr (line_bytes (js_string ''0'') @ line_bytes [])"
proof -
  have h: "uint u \<le> 255" if "is_hex_unit u" for u
    using that by (auto simp: is_hex_unit_def hexDigit_def split: if_splits)
  show "list_all is_hex_unit s \<Longrightarrow> encodeByteString (s @ CRLF) = Inr (line_bytes s)"
    using h by (auto simp: encodeByteString_eq byte_string_def list_all_iff CRLF_def line_bytes_def unit_bytes_def)
  show "encodeByteString CRLF = Inr (line_bytes [])"
    "encodeByteString (js_string ''0'' @ CRLF @ CRLF) = Inr (line_bytes (js_string ''0'') @ line_bytes [])"
    by code_simp+
qed

lemma uploadLoop_sent:
  assumes "transport_writes wr send" and "uploadLoop wr len chunked items sent c = (Inr u, c')"
  shows "\<exists>datas. items = map Inr datas \<and> send c' = send c @ body_bytes chunked datas \<and>
    (len = None \<or> len = Some (sent + length (concat datas)))"
  using assms(2)
proof (induction items arbitrary: sent c)
  case Nil
  then show ?case using writeAll_sent [OF assms(1)]
    by (auto simp: encode_line body_bytes_def split: if_split_asm)
next
  case (Cons item items)
  then obtain data where item: "item = Inr data" by (cases item) auto
  show ?case
  proof (cases "data = []")
    case True
    then obtain datas where "items = map Inr datas" "send c' = send c @ body_bytes chunked datas"
      "len = None \<or> len = Some (sent + length (concat datas))"
      using Cons item by fastforce
    then show ?thesis using True item by (intro exI [of _ "[] # datas"]) (simp add: body_bytes_def)
  next
    case False
    have hex: "list_all is_hex_unit (nat_digits 16 (length data))" using nat_digits_hex by blast
    obtain c1 c2 c3 where w: "(if chunked then writeAll wr (line_bytes (nat_digits 16 (length data))) c else (Inr (), c)) = (Inr (), c1)"
      "writeAll wr data c1 = (Inr (), c2)"
      "(if chunked then writeAll wr (line_bytes []) c2 else (Inr (), c2)) = (Inr (), c3)"
      "uploadLoop wr len chunked items (sent + length data) c3 = (Inr u, c')"
      using Cons.prems False unfolding item
      by (auto simp: Let_def encode_line(1) [OF hex] encode_line(2) split: if_split_asm sum.splits prod.splits)
    have "send c3 = send c @ (if chunked then chunk_bytes data else data)"
      using w(1-3) writeAll_sent [OF assms(1)] by (cases chunked) (auto simp: chunk_bytes_def dest!: writeAll_sent [OF assms(1)])
    moreover obtain datas where "items = map Inr datas" "send c' = send c3 @ body_bytes chunked datas"
      "len = None \<or> len = Some (sent + length data + length (concat datas))"
      using Cons.IH [OF w(4)] by blast
    ultimately show ?thesis using False item by (intro exI [of _ "data # datas"]) (auto simp: body_bytes_def)
  qed
qed

lemma upload_sent:
  assumes "transport_writes wr sent" and "upload wr (Some items) len chunked c = (Inr (), c')"
  shows "\<exists>datas. items = map Inr datas \<and> sent c' = sent c @ body_bytes chunked datas \<and>
    (len = None \<or> len = Some (length (concat datas)))"
  using uploadLoop_sent [OF assms(1), of len chunked items 0 c "()" c'] assms(2) by (simp add: upload_def)

lemma memory_writeAll: "\<exists>c'. writeAll memory_write data c = (Inr (), c')"
  using writeLoop_total [of memory_write data 0 c] by (force simp: writeAll_def memory_write_def)

lemma memory_upload: "\<exists>c'. uploadLoop memory_write None True (map Inr datas) sent c = (Inr (), c')"
proof (induction datas arbitrary: sent c)
  case Nil
  then show ?case using memory_writeAll [of _ c] by (simp add: encode_line)
next
  case (Cons d datas)
  have hex: "list_all is_hex_unit (nat_digits 16 (length d))" using nat_digits_hex by blast
  obtain c1 where 1: "writeAll memory_write (line_bytes (nat_digits 16 (length d))) c = (Inr (), c1)" using memory_writeAll by blast
  obtain c2 where 2: "writeAll memory_write d c1 = (Inr (), c2)" using memory_writeAll by blast
  obtain c3 where 3: "writeAll memory_write (line_bytes []) c2 = (Inr (), c3)" using memory_writeAll by blast
  show ?case using Cons by (simp add: Let_def encode_line(1) [OF hex] encode_line(2) 1 2 3)
qed

section \<open>Properties\<close>

text \<open>
  C29: A request head that is sent, of a request whose method is a token (\<^verbatim>\<open>requestHead\<close> writes the
  method as it is, so this is up to its callers), is read by an HTTP/1.1 server whose limits on the
  bytes and on the number of fields admit it as exactly that request: the method, the target, and a
  field list that has under every name exactly the values asked for. These are the host, the caller's
  values under any name the route does not replace, the route's, the upgrade's, and the framing of
  the body (chunked, the declared length, or none); the byte after the head is next. So no header
  value, route or target can add a line or a second framing field, and no field is lost.
\<close>

theorem http1_request_roundtrip:
  assumes "transport_reads rd content" and "reader_ok r" and "requestHead req route = Inr (bs, chunked)"
    and "requestHeaders req route = Inr h" and "unread content r = bs @ rest" and "isToken (tr_method req)"
    and "length bs \<le> hl_maxHeaderBytes limits" and "length (hs_list h) \<le> hl_maxHeaders limits"
  shows "\<exists>r'. readRequestHead rd limits r =
      (Inr \<lparr>rq_method = tr_method req, rq_target = target_sent route, rq_version = HTTP_1_1, rq_headers = hs_list h\<rparr>, r') \<and>
    reader_ok r' \<and> unread content r' = rest \<and> chunked = isChunkedUpload req \<and> (\<forall>n. header_values h n = requested_values req route n)"
proof -
  let ?line = "tr_method req @ 32 # target_sent route @ 32 # js_string ''HTTP/'' @ version_text HTTP_1_1"
  have b: "\<forall>u\<in>set (target_sent route). 0x21 \<le> uint u \<and> uint u \<le> 0x7e" "chunked = isChunkedUpload req"
    "\<forall>e\<in>set (hs_list h). \<forall>u\<in>set (snd e). wireUnit (uint u)" "bs = line_bytes ?line @ field_bytes (hs_list h)"
    using requestHead_bytes [OF assms(3,4)] by blast+
  have inv: "headers_inv h" and fr: "\<forall>n. header_values h n = requested_values req route n"
    using requestHeaders_values [OF assms(4)] headers_reachable_inv by blast+
  have wire: "\<forall>f\<in>set (hs_list h). wire_field f"
    using inv b(3) clean_wire_field by (fastforce simp: headers_inv_def)
  have ne: "target_sent route \<noteq> []" by (simp add: target_sent_def) (simp add: js_string_def)
  have line: "requestLine ?line = Inr (tr_method req, target_sent route, HTTP_1_1)"
    unfolding requestLine_iff using assms(6) b(1) ne by (simp add: target_text_def)
  have "uint u \<le> 255 \<and> u \<noteq> 10" if "u \<in> set (tr_method req)" for u
    using that assms(6) tokenUnit_bounds [of "uint u"] by (auto simp: isToken_iff)
  moreover have "uint u \<le> 255 \<and> u \<noteq> 10" if "u \<in> set (target_sent route)" for u using that b(1) by auto
  moreover have "\<forall>u\<in>set (js_string ''HTTP/'' @ version_text HTTP_1_1). uint u \<le> 255 \<and> u \<noteq> 10" by code_simp
  ultimately have units: "\<forall>u\<in>set ?line. uint u \<le> 255 \<and> u \<noteq> 10" by auto
  have len: "length bs = length ?line + 2 + length (field_bytes (hs_list h))"
    unfolding b(4) by (simp add: line_bytes_def unit_bytes_def)
  have u: "unread content r = line_bytes ?line @ field_bytes (hs_list h) @ rest" using assms(5) b(4) by simp
  have "length ?line + 2 \<le> hl_maxHeaderBytes limits" using assms(7) len by simp
  then obtain r1 where r1: "line rd (hl_maxHeaderBytes limits) r = (Inr ?line, r1)" "reader_ok r1"
    "unread content r1 = field_bytes (hs_list h) @ rest"
    using read_line [OF assms(1,2) u units] by blast
  have "\<exists>r'. readFieldsLoop rd limits [] (length ?line + 2) r1 = (Inr ([] @ hs_list h), r') \<and> reader_ok r' \<and>
      unread content r' = rest"
    by (rule readFieldsLoop_reads [OF assms(1) r1(2,3) wire]) (use assms(7,8) len in auto)
  then show ?thesis
    using r1(1) line b(2) fr by (auto simp: readRequestHead_def readHeaderFields_def simp del: length_append)
qed

definition sample_request :: transport_request where
  "sample_request = \<lparr>tr_method = js_string ''GET'', tr_host = js_string ''a'',
     tr_headers = [(js_string ''X-Id'', js_string '' 7'')], tr_hasBody = False, tr_bodyLength = None,
     tr_upgradeProtocol = None, tr_acceptTunnel = False\<rparr>"

definition sample_route :: dispatch_route where
  "sample_route = \<lparr>rt_requestTarget = js_string ''/x'', rt_headers = []\<rparr>"

theorem http1_request_roundtrip_witness:
  "\<exists>bs r'. requestHead sample_request sample_route = Inr (bs, False) \<and>
     readRequestHead memory_read defaultHeadLimits (newBufferedReader (bs @ [7])) =
       (Inr \<lparr>rq_method = js_string ''GET'', rq_target = js_string ''/x'', rq_version = HTTP_1_1,
          rq_headers = [(js_string ''x-id'', js_string ''7''), (js_string ''host'', js_string ''a'')]\<rparr>, r') \<and> unread id r' = [7]"
proof -
  have "case requestHead sample_request sample_route of Inl e \<Rightarrow> False | Inr (bs, chunked) \<Rightarrow> \<not> chunked \<and> length bs < 100"
    by code_simp
  then obtain bs where bs: "requestHead sample_request sample_route = Inr (bs, False)" "length bs < 100"
    by (auto split: sum.splits)
  have "case requestHeaders sample_request sample_route of Inl e \<Rightarrow> False
    | Inr h \<Rightarrow> hs_list h = [(js_string ''x-id'', js_string ''7''), (js_string ''host'', js_string ''a'')]"
    by code_simp
  then obtain h where h: "requestHeaders sample_request sample_route = Inr h"
    "hs_list h = [(js_string ''x-id'', js_string ''7''), (js_string ''host'', js_string ''a'')]"
    by (auto split: sum.splits)
  have t: "isToken (tr_method sample_request)" by code_simp
  have u: "unread id (newBufferedReader (bs @ [7])) = bs @ [7]" by simp
  have target: "target_sent sample_route = js_string ''/x''" by code_simp
  from http1_request_roundtrip [OF memory_reads reader_ok_new(1) bs(1) h(1) u t, of defaultHeadLimits] bs h target
  show ?thesis by (auto simp: defaultHeadLimits_def sample_request_def)
qed

end
