(* ===== verification/Http1_Response.thy ===== *)
theory Http1_Response
  imports Http1_Request
begin

text \<open>
  The receiving side of \<^verbatim>\<open>runtime/web-platform/src/http1/transport.ts\<close>: from the heads of a response to
  the decision what follows, and the source of the response body with its three framings, its
  trailers and the release of the connection.
\<close>

section \<open>The final head\<close>

text \<open>
  The loop over informational responses: the heads published to the observer and the final one.
\<close>

function finalHeadLoop ::
    "'c read_fn \<Rightarrow> head_limits \<Rightarrow> nat \<Rightarrow> (int \<times> header_entry list) list \<Rightarrow> 'c buffered_reader \<Rightarrow>
     ((int \<times> header_entry list) list \<times> response_head) result \<times> 'c buffered_reader" where
  "finalHeadLoop rd limits informational published r =
     (case readHead rd limits r of
        (Inl e, r') \<Rightarrow> (Inl e, r')
      | (Inr head, r') \<Rightarrow>
          (if rp_status head < 200 \<and> rp_status head \<noteq> 101 then
             (if informational + 1 > hl_maxInformational limits then (Inl LimitError, r')
              else finalHeadLoop rd limits (informational + 1) (published @ [(rp_status head, rp_headers head)]) r')
           else (Inr (published, head), r')))"
  by pat_completeness auto
termination
  by (relation "measure (\<lambda>(rd, limits, informational, published, r). hl_maxInformational limits - informational)") auto

declare finalHeadLoop.simps [simp del]

definition readFinalHead ::
    "'c read_fn \<Rightarrow> head_limits \<Rightarrow> 'c buffered_reader \<Rightarrow>
     ((int \<times> header_entry list) list \<times> response_head) result \<times> 'c buffered_reader" where
  "readFinalHead rd limits r = finalHeadLoop rd limits 0 [] r"

text \<open>\<^verbatim>\<open>toUpperCase\<close> of a method, which is a token and so ASCII.\<close>

definition upperToken :: "jsstring \<Rightarrow> jsstring" where
  "upperToken s = map (\<lambda>u. if 97 \<le> uint u \<and> uint u \<le> 122 then word_of_int (uint u - 32) else u) s"

definition isProtocolSwitch :: "jsstring \<Rightarrow> int \<Rightarrow> bool" where
  "isProtocolSwitch method status =
     (if status = 101 then True else upperToken method = js_string ''CONNECT'' \<and> status \<ge> 200 \<and> status < 300)"

definition nullBodyStatus :: "int \<Rightarrow> bool" where
  "nullBodyStatus status \<longleftrightarrow> status = 101 \<or> status = 103 \<or> status = 204 \<or> status = 205 \<or> status = 304"

datatype response_outcome =
    Outcome_Tunnel
  | Outcome_NoBody bool
  | Outcome_Body framing_kind int bool

definition responseOutcome :: "jsstring \<Rightarrow> bool \<Rightarrow> bool \<Rightarrow> response_head \<Rightarrow> response_outcome result" where
  "responseOutcome method acceptTunnel uploadDone head =
     (if acceptTunnel \<and> isProtocolSwitch method (rp_status head) then
        (if \<not> uploadDone then Inl ProtocolError else Inr Outcome_Tunnel)
      else if rp_status head = 101 then Inl ProtocolError
      else
        res_bind (headersOf (rp_headers head)) (\<lambda>h.
        res_bind (hasToken h (js_string ''connection'') (js_string ''close'')) (\<lambda>close.
        res_bind (if close then Inr False
                  else if rp_version head = HTTP_1_1 then Inr True
                  else hasToken h (js_string ''connection'') (js_string ''keep-alive'')) (\<lambda>reusable.
          if method = js_string ''HEAD'' \<or> nullBodyStatus (rp_status head) then Inr (Outcome_NoBody reusable)
          else res_bind (responseFraming h) (\<lambda>(kind, len). Inr (Outcome_Body kind len reusable))))))"

section \<open>The body source\<close>

text \<open>
  The stream as its controller sees it. A body is \<open>Stream_Closed\<close> once \<^verbatim>\<open>controller.close\<close> was called,
  also while its consumer still has bytes to take from the queue, or once it was cancelled.
\<close>

datatype stream_state = Stream_Readable | Stream_Closed | Stream_Errored js_error

datatype trailer_state = Trailers_Pending | Trailers_Resolved "header_entry list" | Trailers_Rejected js_error

text \<open>The places where \<^verbatim>\<open>pull\<close> awaits the reader.\<close>

datatype pull_point = Await_ChunkEnd | Await_ChunkSize | Await_Trailers | Await_Data

text \<open>
  The variables the body's source shares: the framing, what is left of the body or chunk, the
  reader, the failure \<^verbatim>\<open>fail\<close> recorded, \<^verbatim>\<open>finalized\<close>, and the calls of \<^verbatim>\<open>lease.release\<close>, \<open>True\<close> for a
  release for reuse. Beside them the stream and what was enqueued to it, the promise of the trailers,
  and where a pull in progress waits.
\<close>

record 'c response_body =
  rb_kind :: framing_kind
  rb_reusable :: bool
  rb_limits :: head_limits
  rb_remaining :: int
  rb_needsChunkEnd :: bool
  rb_reader :: "'c buffered_reader"
  rb_failure :: "js_error option"
  rb_uploadDone :: bool
  rb_finalized :: bool
  rb_releases :: "bool list"
  rb_stream :: stream_state
  rb_delivered :: "bytes list"
  rb_trailers :: trailer_state
  rb_pull :: "pull_point option"

definition newResponseBody ::
    "framing_kind \<Rightarrow> int \<Rightarrow> bool \<Rightarrow> head_limits \<Rightarrow> bool \<Rightarrow> 'c buffered_reader \<Rightarrow> 'c response_body" where
  "newResponseBody kind len reusable limits uploadDone r =
     \<lparr>rb_kind = kind, rb_reusable = reusable, rb_limits = limits, rb_remaining = len, rb_needsChunkEnd = False,
      rb_reader = r, rb_failure = None, rb_uploadDone = uploadDone, rb_finalized = False, rb_releases = [],
      rb_stream = Stream_Readable, rb_delivered = [], rb_trailers = Trailers_Pending, rb_pull = None\<rparr>"

definition failBody :: "js_error \<Rightarrow> 'c response_body \<Rightarrow> 'c response_body" where
  "failBody reason b = (if rb_failure b \<noteq> None then b else b\<lparr>rb_failure := Some reason\<rparr>)"

definition finishBody :: "bool \<Rightarrow> 'c response_body \<Rightarrow> 'c response_body" where
  "finishBody reuse b =
     (if rb_finalized b then b
      else b\<lparr>rb_finalized := True,
             rb_releases := rb_releases b @ [reuse \<and> rb_uploadDone b \<and> rb_failure b = None]\<rparr>)"

definition settleTrailers :: "trailer_state \<Rightarrow> 'c response_body \<Rightarrow> 'c response_body" where
  "settleTrailers t b = (if rb_trailers b = Trailers_Pending then b\<lparr>rb_trailers := t\<rparr> else b)"

text \<open>
  The controller of the stream: \<^verbatim>\<open>close\<close> and \<^verbatim>\<open>enqueue\<close> throw unless the stream is readable, \<^verbatim>\<open>error\<close>
  then does nothing.
\<close>

definition controllerClose :: "'c response_body \<Rightarrow> unit result \<times> 'c response_body" where
  "controllerClose b =
     (if rb_stream b \<noteq> Stream_Readable then (Inl TypeError, b) else (Inr (), b\<lparr>rb_stream := Stream_Closed\<rparr>))"

definition controllerEnqueue :: "bytes \<Rightarrow> 'c response_body \<Rightarrow> unit result \<times> 'c response_body" where
  "controllerEnqueue data b =
     (if rb_stream b \<noteq> Stream_Readable then (Inl TypeError, b)
      else (Inr (), b\<lparr>rb_delivered := rb_delivered b @ [data]\<rparr>))"

definition controllerError :: "js_error \<Rightarrow> 'c response_body \<Rightarrow> 'c response_body" where
  "controllerError reason b =
     (if rb_stream b \<noteq> Stream_Readable then b else b\<lparr>rb_stream := Stream_Errored reason\<rparr>)"

definition isForbiddenTrailerName :: "jsstring \<Rightarrow> bool" where
  "isForbiddenTrailerName name \<longleftrightarrow>
     name = js_string ''content-length'' \<or> name = js_string ''host'' \<or> name = js_string ''transfer-encoding''"

text \<open>
  \<^verbatim>\<open>pull\<close>, cut at its awaits. Each part runs to the next await, \<open>Some point\<close>, to the return, \<open>None\<close>, or
  to a throw inside the \<^verbatim>\<open>try\<close>. \<open>pullEnd\<close> is the end of a part that closes the stream.
\<close>

type_synonym 'c pull_step = "pull_point option result \<times> 'c response_body"

definition pullEnd :: "'c response_body \<Rightarrow> 'c pull_step" where
  "pullEnd b = (case controllerClose b of (Inl e, b1) \<Rightarrow> (Inl e, b1) | (Inr u, b1) \<Rightarrow> (Inr None, b1))"

definition pullBody :: "'c response_body \<Rightarrow> 'c pull_step" where
  "pullBody b =
     (if rb_kind b = Framing_Fixed \<and> rb_remaining b = 0 then pullEnd (finishBody (rb_reusable b) b)
      else (Inr (Some Await_Data), b))"

definition pullStart :: "'c response_body \<Rightarrow> 'c pull_step" where
  "pullStart b =
     (case rb_failure b of
        Some failure \<Rightarrow> (Inl failure, b)
      | None \<Rightarrow>
          (if rb_kind b = Framing_Chunked \<and> rb_remaining b = 0
           then (Inr (Some (if rb_needsChunkEnd b then Await_ChunkEnd else Await_ChunkSize)), b)
           else pullBody b))"

definition pullChunkEnd :: "jsstring \<Rightarrow> 'c response_body \<Rightarrow> 'c pull_step" where
  "pullChunkEnd l b = (if l \<noteq> [] then (Inl ProtocolError, b) else (Inr (Some Await_ChunkSize), b))"

definition pullChunkSize :: "jsstring \<Rightarrow> 'c response_body \<Rightarrow> 'c pull_step" where
  "pullChunkSize l b =
     (case parseChunkSize l of
        Inl e \<Rightarrow> (Inl e, b)
      | Inr len \<Rightarrow>
          (let b1 = b\<lparr>rb_remaining := len\<rparr>
           in if len = 0 then (Inr (Some Await_Trailers), b1) else pullBody (b1\<lparr>rb_needsChunkEnd := True\<rparr>)))"

definition pullTrailers :: "header_entry list \<Rightarrow> 'c response_body \<Rightarrow> 'c pull_step" where
  "pullTrailers trailers b =
     (if list_ex (\<lambda>(name, value). isForbiddenTrailerName name) trailers then (Inl ProtocolError, b)
      else pullEnd (settleTrailers (Trailers_Resolved trailers) (finishBody (rb_reusable b) b)))"

definition pullData :: "bytes option \<Rightarrow> 'c response_body \<Rightarrow> 'c pull_step" where
  "pullData data b =
     (case rb_failure b of
        Some failure \<Rightarrow> (Inl failure, b)
      | None \<Rightarrow>
          (case data of
             None \<Rightarrow>
               (if rb_kind b \<noteq> Framing_Eof then (Inl ProtocolError, b)
                else pullEnd (settleTrailers (Trailers_Resolved []) (finishBody False b)))
           | Some d \<Rightarrow>
               (let b1 = (if rb_kind b \<noteq> Framing_Eof then b\<lparr>rb_remaining := rb_remaining b - int (length d)\<rparr> else b)
                in case controllerEnqueue d b1 of
                     (Inl e, b2) \<Rightarrow> (Inl e, b2)
                   | (Inr u, b2) \<Rightarrow>
                       (if rb_kind b2 = Framing_Fixed \<and> rb_remaining b2 = 0
                        then pullEnd (settleTrailers (Trailers_Resolved []) (finishBody (rb_reusable b2) b2))
                        else (Inr None, b2)))))"

text \<open>What follows an await once the read it waited for is done.\<close>

definition read_then ::
    "'a result \<times> 'c buffered_reader \<Rightarrow> ('a \<Rightarrow> 'c response_body \<Rightarrow> 'c pull_step) \<Rightarrow> 'c response_body \<Rightarrow> 'c pull_step" where
  "read_then m k b = (case m of (Inl e, r) \<Rightarrow> (Inl e, b\<lparr>rb_reader := r\<rparr>) | (Inr x, r) \<Rightarrow> k x (b\<lparr>rb_reader := r\<rparr>))"

definition pullResume :: "'c read_fn \<Rightarrow> pull_point \<Rightarrow> 'c response_body \<Rightarrow> 'c pull_step" where
  "pullResume rd point b =
     (case point of
        Await_ChunkEnd \<Rightarrow> read_then (line rd 2 (rb_reader b)) pullChunkEnd b
      | Await_ChunkSize \<Rightarrow> read_then (line rd (hl_maxHeaderBytes (rb_limits b)) (rb_reader b)) pullChunkSize b
      | Await_Trailers \<Rightarrow> read_then (readHeaderFields rd (rb_limits b) 0 (rb_reader b)) pullTrailers b
      | Await_Data \<Rightarrow>
          read_then (some rd (if rb_kind b = Framing_Eof then 65536 else min 65536 (rb_remaining b)) (rb_reader b)) pullData b)"

definition pullCatch :: "js_error \<Rightarrow> 'c response_body \<Rightarrow> 'c response_body" where
  "pullCatch e b =
     (let b1 = finishBody False b;
          reason = (case rb_failure b1 of Some failure \<Rightarrow> failure | None \<Rightarrow> e)
      in controllerError reason (settleTrailers (Trailers_Rejected reason) b1))"

definition pullRun :: "'c pull_step \<Rightarrow> 'c response_body" where
  "pullRun m = (case m of (Inl e, b) \<Rightarrow> (pullCatch e b)\<lparr>rb_pull := None\<rparr> | (Inr next_point, b) \<Rightarrow> b\<lparr>rb_pull := next_point\<rparr>)"

definition cancelSource :: "js_error \<Rightarrow> 'c response_body \<Rightarrow> 'c response_body" where
  "cancelSource reason b = settleTrailers (Trailers_Rejected reason) (finishBody False b)"

text \<open>
  What can happen to a body. Its stream pulls, while it is readable and no pull is in progress; the
  read a pull waits for is done, or rejects because the connection was closed under it; the body is
  cancelled, at any time, also while a pull waits, and also when it is closed and its consumer has not
  taken everything; the upload ends; and the upload, the timer or the signal reports a failure, the
  last two only until \<^verbatim>\<open>finish\<close>.
\<close>

datatype body_event =
    Body_Pull
  | Body_Resume "js_error option"
  | Body_Cancel js_error
  | Body_UploadDone
  | Body_Fail js_error

definition bodyStep :: "'c read_fn \<Rightarrow> body_event \<Rightarrow> 'c response_body \<Rightarrow> 'c response_body" where
  "bodyStep rd ev b =
     (case ev of
        Body_Pull \<Rightarrow> if rb_stream b = Stream_Readable \<and> rb_pull b = None then pullRun (pullStart b) else b
      | Body_Resume rejection \<Rightarrow>
          (case rb_pull b of
             None \<Rightarrow> b
           | Some point \<Rightarrow>
               (case rejection of Some e \<Rightarrow> pullRun (Inl e, b) | None \<Rightarrow> pullRun (pullResume rd point b)))
      | Body_Cancel reason \<Rightarrow>
          if rb_stream b = Stream_Readable \<or> rb_stream b = Stream_Closed \<and> rb_delivered b \<noteq> []
          then cancelSource reason (b\<lparr>rb_stream := Stream_Closed\<rparr>) else b
      | Body_UploadDone \<Rightarrow> b\<lparr>rb_uploadDone := True\<rparr>
      | Body_Fail reason \<Rightarrow> if \<not> rb_finalized b \<or> \<not> rb_uploadDone b then failBody reason b else b)"

definition bodyRun :: "'c read_fn \<Rightarrow> body_event list \<Rightarrow> 'c response_body \<Rightarrow> 'c response_body" where
  "bodyRun rd evs b = fold (bodyStep rd) evs b"

section \<open>Lemmas: open and settled bodies\<close>

definition delivered_bytes :: "'c response_body \<Rightarrow> int" where
  "delivered_bytes b = int (length (concat (rb_delivered b)))"

text \<open>
  \<open>n\<close> is the length of a body of fixed length. An open body has not been released, and the bytes it
  delivered and those that remain are \<open>n\<close> together; \<open>mid\<close> is an open body inside a part of \<^verbatim>\<open>pull\<close>.
\<close>

definition mid_body :: "int \<Rightarrow> 'c response_body \<Rightarrow> bool" where
  "mid_body n b \<longleftrightarrow> rb_stream b = Stream_Readable \<and> \<not> rb_finalized b \<and> rb_releases b = [] \<and> rb_trailers b = Trailers_Pending \<and>
     (rb_kind b = Framing_Fixed \<longrightarrow> delivered_bytes b + rb_remaining b = n \<and> 0 \<le> rb_remaining b \<and> (n = 0 \<longrightarrow> rb_delivered b = []))"

definition point_ok :: "int \<Rightarrow> pull_point option \<Rightarrow> 'c response_body \<Rightarrow> bool" where
  "point_ok n p b \<longleftrightarrow>
     (case p of
        None \<Rightarrow> rb_kind b = Framing_Fixed \<and> rb_remaining b = 0 \<longrightarrow> n = 0
      | Some Await_Data \<Rightarrow> \<not> (rb_kind b = Framing_Fixed \<and> rb_remaining b = 0)
      | Some q \<Rightarrow> rb_kind b = Framing_Chunked)"

definition open_body :: "int \<Rightarrow> 'c response_body \<Rightarrow> bool" where
  "open_body n b \<longleftrightarrow> mid_body n b \<and> point_ok n (rb_pull b) b"

text \<open>
  A settled body: released once, and for reuse only after a true end; its trailers are settled, but for
  a body of length zero that ended at its first pull.
\<close>

definition ended_body :: "int \<Rightarrow> 'c response_body \<Rightarrow> bool" where
  "ended_body n b \<longleftrightarrow> rb_stream b \<noteq> Stream_Readable \<and> rb_finalized b \<and>
     (rb_releases b = [False] \<or> rb_releases b = [True] \<and> rb_stream b = Stream_Closed \<and> rb_kind b \<noteq> Framing_Eof \<and> rb_reusable b \<and>
        rb_failure b = None \<and> rb_uploadDone b \<and> (rb_kind b = Framing_Fixed \<longrightarrow> delivered_bytes b = n)) \<and>
     (rb_kind b = Framing_Fixed \<longrightarrow> delivered_bytes b \<le> n) \<and>
     (\<forall>e. rb_stream b = Stream_Errored e \<longrightarrow> rb_trailers b = Trailers_Rejected e)"

definition settled_body :: "int \<Rightarrow> 'c response_body \<Rightarrow> bool" where
  "settled_body n b \<longleftrightarrow> ended_body n b \<and>
     (rb_trailers b = Trailers_Pending \<longrightarrow>
        rb_kind b = Framing_Fixed \<and> n = 0 \<and> rb_stream b = Stream_Closed \<and> rb_delivered b = [] \<and> rb_pull b = None)"

definition body_inv :: "int \<Rightarrow> 'c response_body \<Rightarrow> bool" where
  "body_inv n b \<longleftrightarrow> open_body n b \<or> settled_body n b"

lemmas body_defs = finishBody_def settleTrailers_def controllerClose_def controllerEnqueue_def controllerError_def
lemmas inv_defs = mid_body_def ended_body_def delivered_bytes_def

lemma some_bound:
  assumes "some rd n r = (Inr (Some d), r')"
  shows "int (length d) \<le> n"
  using assms by (auto simp: some_def takeBuffered_def Let_def length_js_slice split: if_splits sum.splits option.splits prod.splits)

text \<open>The outcome of a part of \<^verbatim>\<open>pull\<close> that an open body runs.\<close>

definition part_ok :: "int \<Rightarrow> 'c pull_step \<Rightarrow> bool" where
  "part_ok n m \<longleftrightarrow>
     (case m of
        (Inl e, b) \<Rightarrow> mid_body n b
      | (Inr p, b) \<Rightarrow> mid_body n b \<and> point_ok n p b \<or>
          p = None \<and> ended_body n b \<and> (rb_trailers b = Trailers_Pending \<longrightarrow>
            rb_kind b = Framing_Fixed \<and> n = 0 \<and> rb_stream b = Stream_Closed \<and> rb_delivered b = []))"

lemma pullRun_part: "part_ok n m \<Longrightarrow> body_inv n (pullRun m)"
proof -
  assume m: "part_ok n m"
  obtain res b where mb: "m = (res, b)" by (cases m)
  show ?thesis
  proof (cases res)
    case (Inl e)
    then have "mid_body n b" using m mb by (simp add: part_ok_def)
    then have "settled_body n ((pullCatch e b)\<lparr>rb_pull := None\<rparr>)"
      by (auto simp: pullCatch_def Let_def body_defs inv_defs settled_body_def split: option.split)
    then show ?thesis by (simp add: mb Inl pullRun_def body_inv_def)
  next
    case (Inr p)
    have k: "mid_body n (b\<lparr>rb_pull := p\<rparr>) = mid_body n b" "ended_body n (b\<lparr>rb_pull := p\<rparr>) = ended_body n b"
      "point_ok n p (b\<lparr>rb_pull := p\<rparr>) = point_ok n p b"
      by (simp_all add: inv_defs point_ok_def split: option.split pull_point.split)
    show ?thesis using m by (auto simp: mb Inr pullRun_def body_inv_def part_ok_def open_body_def settled_body_def k)
  qed
qed

lemma end_part:
  assumes "mid_body n b" and "rb_kind b \<noteq> Framing_Eof \<or> \<not> reuse" and "rb_reusable b \<or> \<not> reuse"
    and "rb_kind b = Framing_Fixed \<Longrightarrow> rb_remaining b = 0" and "t \<noteq> Trailers_Pending"
  shows "part_ok n (pullEnd (settleTrailers t (finishBody reuse b)))"
  using assms by (auto simp: part_ok_def pullEnd_def body_defs inv_defs)

lemma body_part:
  assumes "mid_body n b" and "rb_kind b = Framing_Fixed \<and> rb_remaining b = 0 \<longrightarrow> n = 0"
  shows "part_ok n (pullBody b)"
  using assms by (auto simp: pullBody_def part_ok_def pullEnd_def body_defs inv_defs point_ok_def)

lemma start_part: "open_body n b \<Longrightarrow> rb_pull b = None \<Longrightarrow> part_ok n (pullStart b)"
  using body_part [of n b] by (auto simp: open_body_def pullStart_def part_ok_def point_ok_def split: option.split)

lemma data_part:
  assumes "mid_body n b" and "\<not> (rb_kind b = Framing_Fixed \<and> rb_remaining b = 0)"
    and "\<And>d. data = Some d \<Longrightarrow> rb_kind b \<noteq> Framing_Eof \<Longrightarrow> int (length d) \<le> rb_remaining b"
  shows "part_ok n (pullData data b)"
proof (cases "rb_failure b")
  case None
  show ?thesis
  proof (cases data)
    case data: None
    show ?thesis using None data assms(1) end_part [OF assms(1), of False "Trailers_Resolved []"]
      by (auto simp: pullData_def part_ok_def)
  next
    case (Some d)
    define b2 where "b2 = (if rb_kind b \<noteq> Framing_Eof
        then b\<lparr>rb_remaining := rb_remaining b - int (length d), rb_delivered := rb_delivered b @ [d]\<rparr>
        else b\<lparr>rb_delivered := rb_delivered b @ [d]\<rparr>)"
    have "n \<noteq> 0" if "rb_kind b = Framing_Fixed"
      using assms(1,2) that by (auto simp: inv_defs)
    then have m: "mid_body n b2" using assms(1) assms(3) [OF Some] by (auto simp: inv_defs b2_def)
    have "pullData data b = (if rb_kind b2 = Framing_Fixed \<and> rb_remaining b2 = 0
        then pullEnd (settleTrailers (Trailers_Resolved []) (finishBody (rb_reusable b2) b2)) else (Inr None, b2))"
      using None Some assms(1) by (auto simp: pullData_def controllerEnqueue_def mid_body_def b2_def Let_def)
    then show ?thesis using m end_part [OF m, of "rb_reusable b2" "Trailers_Resolved []"]
      by (auto simp: part_ok_def point_ok_def)
  qed
qed (use assms(1) in \<open>simp add: pullData_def part_ok_def\<close>)

lemma mid_chunked:
  "rb_kind b = Framing_Chunked \<Longrightarrow> mid_body n (b\<lparr>rb_remaining := len\<rparr>) = mid_body n b"
  "mid_body n (b\<lparr>rb_reader := r\<rparr>) = mid_body n b" "mid_body n (b\<lparr>rb_needsChunkEnd := x\<rparr>) = mid_body n b"
  by (simp_all add: inv_defs)

lemma resume_part:
  assumes "open_body n b" and "rb_pull b = Some point"
  shows "part_ok n (pullResume rd point b)"
proof -
  have m: "mid_body n (b\<lparr>rb_reader := r\<rparr>)" for r using assms(1) by (simp add: open_body_def mid_chunked)
  have part: "part_ok n (read_then (ans, r) k b)" if "\<And>x. ans = Inr x \<Longrightarrow> part_ok n (k x (b\<lparr>rb_reader := r\<rparr>))"
    for r and ans :: "'x result" and k
    using that m by (cases ans) (auto simp: read_then_def part_ok_def)
  have ch: "rb_kind b = Framing_Chunked" if "point \<noteq> Await_Data"
    using assms that by (cases point) (auto simp: open_body_def point_ok_def)
  show ?thesis
  proof (cases point)
    case Await_ChunkEnd
    obtain ans r where "line rd 2 (rb_reader b) = (ans, r)" by fastforce
    moreover have "part_ok n (pullChunkEnd l (b\<lparr>rb_reader := r\<rparr>))" for l r
      using m [of r] ch Await_ChunkEnd by (simp add: pullChunkEnd_def part_ok_def point_ok_def)
    ultimately show ?thesis using Await_ChunkEnd by (auto simp: pullResume_def intro!: part)
  next
    case Await_ChunkSize
    obtain ans r where "line rd (hl_maxHeaderBytes (rb_limits b)) (rb_reader b) = (ans, r)" by fastforce
    moreover have "part_ok n (pullChunkSize l (b\<lparr>rb_reader := r\<rparr>))" for l r
    proof (cases "parseChunkSize l")
      case (Inr len)
      let ?b = "b\<lparr>rb_reader := r, rb_remaining := len, rb_needsChunkEnd := True\<rparr>"
      have "mid_body n ?b" "rb_kind ?b = Framing_Chunked" using m [of r] ch Await_ChunkSize by (simp_all add: mid_chunked)
      then show ?thesis using Inr m [of r] ch Await_ChunkSize body_part [of n ?b]
        by (simp add: pullChunkSize_def Let_def mid_chunked) (simp add: part_ok_def point_ok_def mid_chunked)
    qed (use m in \<open>simp add: pullChunkSize_def part_ok_def\<close>)
    ultimately show ?thesis using Await_ChunkSize by (auto simp: pullResume_def intro!: part)
  next
    case Await_Trailers
    obtain ans r where "readHeaderFields rd (rb_limits b) 0 (rb_reader b) = (ans, r)" by fastforce
    moreover have "part_ok n (pullTrailers ts (b\<lparr>rb_reader := r\<rparr>))" for ts r
      using end_part [OF m [of r], of "rb_reusable b" "Trailers_Resolved ts"] m [of r] ch Await_Trailers
      by (auto simp: pullTrailers_def part_ok_def)
    ultimately show ?thesis using Await_Trailers by (auto simp: pullResume_def intro!: part)
  next
    case Await_Data
    let ?max = "if rb_kind b = Framing_Eof then 65536 else min 65536 (rb_remaining b)"
    obtain ans r where s: "some rd ?max (rb_reader b) = (ans, r)" by fastforce
    have "part_ok n (pullData x (b\<lparr>rb_reader := r\<rparr>))" if "ans = Inr x" for x
      using some_bound [of rd ?max "rb_reader b" _ r] s that m [of r] assms Await_Data
      by (intro data_part) (auto simp: open_body_def point_ok_def)
    then show ?thesis using s Await_Data by (auto simp: pullResume_def intro!: part)
  qed
qed

text \<open>What never changes, and what no longer changes once a body is settled.\<close>

definition same_body :: "'c response_body \<Rightarrow> 'c response_body \<Rightarrow> bool" where
  "same_body b b' \<longleftrightarrow> rb_kind b' = rb_kind b \<and> rb_reusable b' = rb_reusable b \<and> rb_limits b' = rb_limits b"

definition same_end :: "'c response_body \<Rightarrow> 'c response_body \<Rightarrow> bool" where
  "same_end b b' \<longleftrightarrow> rb_stream b' = rb_stream b \<and> rb_releases b' = rb_releases b \<and> rb_finalized b' = rb_finalized b \<and>
     rb_delivered b' = rb_delivered b \<and> rb_trailers b' = rb_trailers b"

lemmas part_defs = pullEnd_def pullBody_def pullStart_def pullChunkEnd_def pullChunkSize_def pullTrailers_def pullData_def

lemma same_body_trans: "same_body a b \<Longrightarrow> same_body b c \<Longrightarrow> same_body a c"
  by (simp add: same_body_def)

lemma same_body_helpers [simp]:
  "same_body b b" "same_body b (b'\<lparr>rb_reader := r\<rparr>) = same_body b b'" "same_body b (finishBody u b') = same_body b b'"
  "same_body b (settleTrailers t b') = same_body b b'" "same_body b (failBody e b') = same_body b b'"
  "same_body b (b'\<lparr>rb_remaining := m\<rparr>) = same_body b b'" "same_body b (b'\<lparr>rb_needsChunkEnd := x\<rparr>) = same_body b b'"
  "same_body b (b'\<lparr>rb_pull := p\<rparr>) = same_body b b'" "same_body b (b'\<lparr>rb_delivered := ds\<rparr>) = same_body b b'"
  "same_body b (b'\<lparr>rb_stream := st\<rparr>) = same_body b b'" "same_body b (b'\<lparr>rb_uploadDone := x\<rparr>) = same_body b b'"
  "same_body b (controllerError e b') = same_body b b'"
  by (auto simp: same_body_def body_defs failBody_def)

lemma same_end_helpers:
  "same_end b b" "same_end b (b'\<lparr>rb_reader := r\<rparr>) = same_end b b'"
  "same_end b (b'\<lparr>rb_remaining := m\<rparr>) = same_end b b'" "same_end b (b'\<lparr>rb_needsChunkEnd := x\<rparr>) = same_end b b'"
  "same_end b (b'\<lparr>rb_pull := p\<rparr>) = same_end b b'" "same_end b (failBody e b') = same_end b b'"
  "same_end b (b'\<lparr>rb_uploadDone := x\<rparr>) = same_end b b'"
  by (auto simp: same_end_def failBody_def)

lemma parts_same:
  "same_body b (snd (pullEnd b'))  = same_body b b'" "same_body b (snd (pullBody b')) = same_body b b'"
  "same_body b (snd (pullStart b')) = same_body b b'" "same_body b (snd (pullChunkEnd l b')) = same_body b b'"
  "same_body b (snd (pullChunkSize l b')) = same_body b b'" "same_body b (snd (pullTrailers ts b')) = same_body b b'"
  "same_body b (snd (pullData data b')) = same_body b b'"
proof -
  show e: "same_body b (snd (pullEnd b')) = same_body b b'" for b' by (simp add: pullEnd_def controllerClose_def)
  show bd: "same_body b (snd (pullBody b')) = same_body b b'" for b' by (simp add: pullBody_def e)
  show "same_body b (snd (pullStart b')) = same_body b b'" by (simp add: pullStart_def bd split: option.split)
  show "same_body b (snd (pullChunkEnd l b')) = same_body b b'" by (simp add: pullChunkEnd_def)
  show "same_body b (snd (pullChunkSize l b')) = same_body b b'" by (simp add: pullChunkSize_def Let_def bd split: sum.split)
  show "same_body b (snd (pullTrailers ts b')) = same_body b b'" by (simp add: pullTrailers_def e)
  show "same_body b (snd (pullData data b')) = same_body b b'"
    by (simp add: pullData_def Let_def e controllerEnqueue_def split: option.split)
qed

lemma pullRun_same: "same_body b (pullRun m) = same_body b (snd m)"
  by (cases m) (simp add: pullRun_def pullCatch_def Let_def split: sum.split)

lemma pullResume_same: "same_body b (snd (pullResume rd point b))"
  by (simp add: pullResume_def read_then_def parts_same split: pull_point.split sum.split prod.split)

lemma bodyStep_same: "same_body b (bodyStep rd ev b)"
  using pullResume_same [of b rd]
  by (auto simp: bodyStep_def cancelSource_def pullRun_same parts_same split: body_event.split option.split)

lemma bodyRun_Cons: "bodyRun rd (ev # evs) b = bodyRun rd evs (bodyStep rd ev b)"
  "bodyRun rd [] b = b" "bodyRun rd (evs @ evs') b = bodyRun rd evs' (bodyRun rd evs b)"
  by (simp_all add: bodyRun_def)

lemma bodyRun_same: "same_body b (bodyRun rd evs b)"
proof (induction evs arbitrary: b)
  case (Cons ev evs)
  show ?case using same_body_trans [OF bodyStep_same Cons.IH] by (simp add: bodyRun_Cons)
qed (simp add: bodyRun_Cons)

lemma parts_end:
  assumes "rb_stream b' \<noteq> Stream_Readable" "rb_finalized b'" "rb_trailers b' \<noteq> Trailers_Pending"
  shows "same_end b (snd (pullChunkEnd l b')) = same_end b b'" "same_end b (snd (pullChunkSize l b')) = same_end b b'"
    "same_end b (snd (pullTrailers ts b')) = same_end b b'" "same_end b (snd (pullData data b')) = same_end b b'"
  using assms by (auto simp: part_defs body_defs same_end_def Let_def split: option.split sum.split)

lemma catch_end:
  assumes "rb_stream b' \<noteq> Stream_Readable" "rb_finalized b'" "rb_trailers b' \<noteq> Trailers_Pending"
  shows "same_end b (pullCatch e b') = same_end b b'"
  using assms by (simp add: pullCatch_def body_defs)

lemma same_end_kept:
  "same_end b b' \<Longrightarrow> rb_stream b \<noteq> Stream_Readable \<Longrightarrow> rb_finalized b \<Longrightarrow> rb_trailers b \<noteq> Trailers_Pending \<Longrightarrow>
   rb_stream b' \<noteq> Stream_Readable \<and> rb_finalized b' \<and> rb_trailers b' \<noteq> Trailers_Pending"
  by (simp add: same_end_def)

lemma pullRun_end:
  assumes "same_end b (snd m)" "rb_stream b \<noteq> Stream_Readable" "rb_finalized b" "rb_trailers b \<noteq> Trailers_Pending"
  shows "same_end b (pullRun m)"
  using assms same_end_kept [OF assms] by (cases m) (auto simp: pullRun_def catch_end same_end_helpers split: sum.split)

lemma pullResume_end:
  assumes "rb_stream b \<noteq> Stream_Readable" "rb_finalized b" "rb_trailers b \<noteq> Trailers_Pending"
  shows "same_end b (snd (pullResume rd point b))"
  using assms by (simp add: pullResume_def read_then_def parts_end same_end_helpers split: pull_point.split sum.split prod.split)

text \<open>A failure and the end of the upload are recorded by their own events only.\<close>

definition same_flags :: "'c response_body \<Rightarrow> 'c response_body \<Rightarrow> bool" where
  "same_flags b b' \<longleftrightarrow> rb_failure b' = rb_failure b \<and> rb_uploadDone b' = rb_uploadDone b"

lemma same_flags_helpers [simp]:
  "same_flags b b" "same_flags b (b'\<lparr>rb_reader := r\<rparr>) = same_flags b b'" "same_flags b (finishBody u b') = same_flags b b'"
  "same_flags b (settleTrailers t b') = same_flags b b'" "same_flags b (b'\<lparr>rb_remaining := m\<rparr>) = same_flags b b'"
  "same_flags b (b'\<lparr>rb_needsChunkEnd := x\<rparr>) = same_flags b b'" "same_flags b (b'\<lparr>rb_pull := p\<rparr>) = same_flags b b'"
  "same_flags b (b'\<lparr>rb_delivered := ds\<rparr>) = same_flags b b'" "same_flags b (b'\<lparr>rb_stream := st\<rparr>) = same_flags b b'"
  "same_flags b (controllerError e b') = same_flags b b'"
  by (auto simp: same_flags_def body_defs)

lemma parts_flags:
  "same_flags b (snd (pullEnd b')) = same_flags b b'" "same_flags b (snd (pullBody b')) = same_flags b b'"
  "same_flags b (snd (pullStart b')) = same_flags b b'" "same_flags b (snd (pullChunkEnd l b')) = same_flags b b'"
  "same_flags b (snd (pullChunkSize l b')) = same_flags b b'" "same_flags b (snd (pullTrailers ts b')) = same_flags b b'"
  "same_flags b (snd (pullData data b')) = same_flags b b'"
proof -
  show e: "same_flags b (snd (pullEnd b')) = same_flags b b'" for b' by (simp add: pullEnd_def controllerClose_def)
  show bd: "same_flags b (snd (pullBody b')) = same_flags b b'" for b' by (simp add: pullBody_def e)
  show "same_flags b (snd (pullStart b')) = same_flags b b'" by (simp add: pullStart_def bd split: option.split)
  show "same_flags b (snd (pullChunkEnd l b')) = same_flags b b'" by (simp add: pullChunkEnd_def)
  show "same_flags b (snd (pullChunkSize l b')) = same_flags b b'" by (simp add: pullChunkSize_def Let_def bd split: sum.split)
  show "same_flags b (snd (pullTrailers ts b')) = same_flags b b'" by (simp add: pullTrailers_def e)
  show "same_flags b (snd (pullData data b')) = same_flags b b'"
    by (simp add: pullData_def Let_def e controllerEnqueue_def split: option.split)
qed

lemma pullRun_flags: "same_flags b (pullRun m) = same_flags b (snd m)"
  by (cases m) (simp add: pullRun_def pullCatch_def Let_def split: sum.split)

lemma pullResume_flags: "same_flags b (snd (pullResume rd point b))"
  by (simp add: pullResume_def read_then_def parts_flags split: pull_point.split sum.split prod.split)

lemma bodyStep_flags:
  assumes "\<forall>e. ev \<noteq> Body_Fail e" and "ev \<noteq> Body_UploadDone"
  shows "same_flags b (bodyStep rd ev b)"
  using assms pullResume_flags [of b rd]
  by (auto simp: bodyStep_def cancelSource_def pullRun_flags parts_flags split: body_event.split option.split)

lemma settled_step:
  assumes "settled_body n b"
  shows "same_end b (bodyStep rd ev b) \<and> settled_body n (bodyStep rd ev b)"
proof -
  have c: "rb_stream b \<noteq> Stream_Readable" "rb_finalized b" using assms by (auto simp: settled_body_def ended_body_def)
  have kind: "rb_kind (bodyStep rd ev b) = rb_kind b" "rb_reusable (bodyStep rd ev b) = rb_reusable b"
    using bodyStep_same [of b rd ev] by (simp_all add: same_body_def)
  have t: "rb_trailers b \<noteq> Trailers_Pending" if "rb_pull b \<noteq> None \<or> rb_delivered b \<noteq> []" using assms that by (auto simp: settled_body_def)
  have run: "same_end b (pullRun (pullResume rd point b))" "same_end b (pullRun (Inl e, b))" if "rb_pull b = Some point" for point e
    using that c t pullRun_end [of b "pullResume rd point b"] pullRun_end [of b "(Inl e, b)"] pullResume_end [of b rd point]
    by (simp_all add: same_end_helpers)
  have e: "same_end b (bodyStep rd ev b)"
  proof (cases ev)
    case (Body_Cancel reason)
    then show ?thesis using c t by (auto simp: bodyStep_def cancelSource_def body_defs same_end_def)
  qed (use c run in \<open>auto simp: bodyStep_def same_end_helpers split: option.split\<close>)
  have f: "same_flags b (bodyStep rd ev b)" if "rb_uploadDone b"
  proof (cases "(\<forall>e. ev \<noteq> Body_Fail e) \<and> ev \<noteq> Body_UploadDone")
    case False
    then show ?thesis using that c by (auto simp: bodyStep_def same_flags_def)
  qed (use bodyStep_flags in blast)
  have p: "rb_pull (bodyStep rd ev b) = None" if "rb_pull b = None"
    using that c by (auto simp: bodyStep_def cancelSource_def body_defs failBody_def split: body_event.split)
  have "ended_body n (bodyStep rd ev b)"
    using assms e kind f by (auto simp: settled_body_def ended_body_def same_end_def same_flags_def delivered_bytes_def)
  moreover have "rb_trailers b = Trailers_Pending \<longrightarrow>
      rb_kind b = Framing_Fixed \<and> n = 0 \<and> rb_stream b = Stream_Closed \<and> rb_delivered b = [] \<and> rb_pull b = None"
    using assms by (simp add: settled_body_def)
  ultimately show ?thesis using e kind p by (simp add: settled_body_def same_end_def)
qed

lemma settled_run: "settled_body n b \<Longrightarrow> same_end b (bodyRun rd evs b) \<and> settled_body n (bodyRun rd evs b)"
proof (induction evs arbitrary: b)
  case (Cons ev evs)
  from settled_step [OF Cons.prems] Cons.IH show ?case by (fastforce simp: bodyRun_Cons same_end_def)
qed (simp add: bodyRun_Cons same_end_helpers)

lemma cancel_settles:
  assumes "mid_body n b"
  shows "settled_body n (cancelSource reason (b\<lparr>rb_stream := Stream_Closed\<rparr>))"
    and "rb_releases (cancelSource reason (b\<lparr>rb_stream := Stream_Closed\<rparr>)) = [False]"
    and "rb_trailers (cancelSource reason (b\<lparr>rb_stream := Stream_Closed\<rparr>)) = Trailers_Rejected reason"
  using assms by (auto simp: cancelSource_def body_defs inv_defs settled_body_def)

lemma bodyStep_inv:
  assumes "body_inv n b"
  shows "body_inv n (bodyStep rd ev b)"
proof (cases "settled_body n b")
  case True
  then show ?thesis using settled_step by (auto simp: body_inv_def)
next
  case False
  then have o: "open_body n b" using assms by (simp add: body_inv_def)
  then have m: "mid_body n b" by (simp add: open_body_def)
  have kept: "body_inv n b'" if "mid_body n b'" "rb_pull b' = rb_pull b" "rb_kind b' = rb_kind b" "rb_remaining b' = rb_remaining b" for b'
    using o that by (simp add: body_inv_def open_body_def point_ok_def split: option.splits pull_point.splits)
  show ?thesis
  proof (cases ev)
    case Body_Pull
    then show ?thesis using o assms pullRun_part [OF start_part [OF o]] by (simp add: bodyStep_def)
  next
    case (Body_Resume rejection)
    have "part_ok n (Inl e, b)" for e using m by (simp add: part_ok_def)
    from pullRun_part [OF this] pullRun_part [OF resume_part [OF o]] Body_Resume assms
    show ?thesis by (auto simp: bodyStep_def split: option.split)
  next
    case (Body_Cancel reason)
    then show ?thesis using cancel_settles(1) [OF m] m by (auto simp: bodyStep_def body_inv_def mid_body_def)
  next
    case Body_UploadDone
    then show ?thesis using m by (intro kept) (auto simp: bodyStep_def inv_defs)
  next
    case (Body_Fail reason)
    then show ?thesis using m by (intro kept) (auto simp: bodyStep_def failBody_def inv_defs)
  qed
qed

lemma bodyRun_inv: "body_inv n b \<Longrightarrow> body_inv n (bodyRun rd evs b)"
  by (induction evs arbitrary: b) (auto simp: bodyRun_Cons bodyStep_inv)

lemma newResponseBody_inv:
  "0 \<le> n \<Longrightarrow> body_inv n (newResponseBody kind n reusable limits uploadDone r)"
  by (auto simp: body_inv_def open_body_def newResponseBody_def inv_defs point_ok_def)

section \<open>Lemmas: reading a whole body\<close>

text \<open>A pull and the reads it waits for: three are enough for any part of a body.\<close>

definition wholePull :: "body_event list" where
  "wholePull = [Body_Pull, Body_Resume None, Body_Resume None, Body_Resume None]"

definition pulled :: "'c read_fn \<Rightarrow> 'c response_body \<Rightarrow> 'c response_body" where
  "pulled rd b = bodyRun rd wholePull b"

definition readable_body :: "'c response_body \<Rightarrow> bool" where
  "readable_body b \<longleftrightarrow> rb_stream b = Stream_Readable \<and> rb_failure b = None \<and> \<not> rb_finalized b \<and> rb_releases b = [] \<and>
     rb_trailers b = Trailers_Pending \<and> rb_pull b = None \<and> reader_ok (rb_reader b)"

definition body_read :: "('c \<Rightarrow> bytes) \<Rightarrow> bytes \<Rightarrow> bytes \<Rightarrow> 'c response_body \<Rightarrow> 'c response_body \<Rightarrow> bool" where
  "body_read content data rest b b' \<longleftrightarrow> rb_stream b' = Stream_Closed \<and> rb_pull b' = None \<and>
     concat (rb_delivered b') = concat (rb_delivered b) @ data \<and> rb_trailers b' = Trailers_Resolved [] \<and>
     rb_releases b' = [rb_reusable b \<and> rb_uploadDone b] \<and> reader_ok (rb_reader b') \<and>
     unread content (rb_reader b') = rest"

text \<open>The part of a pull that waits for data, at \<open>b\<close>.\<close>

definition taken :: "'c read_fn \<Rightarrow> 'c response_body \<Rightarrow> 'c response_body" where
  "taken rd b = pullRun (pullResume rd Await_Data (b\<lparr>rb_pull := Some Await_Data\<rparr>))"

lemma resume_simps:
  "rb_pull b = None \<Longrightarrow> bodyStep rd (Body_Resume rejection) b = b"
  "rb_pull b = Some point \<Longrightarrow> bodyStep rd (Body_Resume None) b = pullRun (pullResume rd point b)"
  by (simp_all add: bodyStep_def)

lemma pull_simps:
  "readable_body b \<Longrightarrow> bodyStep rd Body_Pull b = pullRun (pullStart b)"
  by (simp add: bodyStep_def readable_body_def)

lemma taken_takes:
  assumes "transport_reads rd content" and "readable_body b" and "rb_kind b \<noteq> Framing_Eof"
    and "unread content (rb_reader b) = p @ rest" and "rb_remaining b = int (length p)" and "p \<noteq> []"
  shows "\<exists>d p'. p = d @ p' \<and> d \<noteq> [] \<and> same_body b (taken rd b) \<and> rb_uploadDone (taken rd b) = rb_uploadDone b \<and>
    rb_pull (taken rd b) = None \<and>
    (if rb_kind b = Framing_Fixed \<and> p' = [] then body_read content p rest b (taken rd b)
     else readable_body (taken rd b) \<and> unread content (rb_reader (taken rd b)) = p' @ rest \<and>
       rb_remaining (taken rd b) = int (length p') \<and>
       rb_delivered (taken rd b) = rb_delivered b @ [d] \<and> rb_needsChunkEnd (taken rd b) = rb_needsChunkEnd b)"
proof -
  let ?max = "min 65536 (rb_remaining b)"
  have ok: "reader_ok (rb_reader b)" "rb_failure b = None" "rb_stream b = Stream_Readable" "\<not> rb_finalized b" "rb_releases b = []"
    "rb_trailers b = Trailers_Pending"
    using assms(2) by (simp_all add: readable_body_def)
  have "1 \<le> ?max" using assms(5,6) by (cases p) auto
  from some_ok [OF assms(1) ok(1) this] obtain d r' where s: "some rd ?max (rb_reader b) = (Inr (Some d), r')" "d \<noteq> []"
    "int (length d) \<le> ?max" "reader_ok r'" "p @ rest = d @ unread content r'"
    using assms(4,6) by auto
  have len: "length d \<le> length p" using s(3) assms(5) by simp
  define p' where "p' = drop (length d) p"
  have "p = d @ p'" using s(5) len append_eq_append_conv_if [of p rest d "unread content r'"]
    by (auto simp: p'_def split: if_splits) (metis append_take_drop_id)+
  moreover from this have "unread content r' = p' @ rest" using s(5) by simp
  ultimately have p: "p = d @ p'" "unread content r' = p' @ rest" by blast+
  have left: "rb_remaining b - int (length d) = int (length p')" using assms(5) p(1) by simp
  let ?b1 = "b\<lparr>rb_pull := Some Await_Data, rb_reader := r'\<rparr>"
  let ?b2 = "?b1\<lparr>rb_remaining := int (length p'), rb_delivered := rb_delivered b @ [d]\<rparr>"
  have "pullResume rd Await_Data (b\<lparr>rb_pull := Some Await_Data\<rparr>) = pullData (Some d) ?b1"
    using s(1) assms(3) by (simp add: pullResume_def read_then_def)
  moreover have "pullData (Some d) ?b1 =
      (if rb_kind b = Framing_Fixed \<and> p' = []
       then pullEnd (settleTrailers (Trailers_Resolved []) (finishBody (rb_reusable b) ?b2)) else (Inr None, ?b2))"
    using ok assms(3) left by (simp add: pullData_def controllerEnqueue_def Let_def)
  ultimately have t: "taken rd b =
      (if rb_kind b = Framing_Fixed \<and> p' = []
       then pullRun (pullEnd (settleTrailers (Trailers_Resolved []) (finishBody (rb_reusable b) ?b2))) else ?b2\<lparr>rb_pull := None\<rparr>)"
    by (simp add: taken_def pullRun_def)
  show ?thesis
    by (rule exI [of _ d], rule exI [of _ p'])
      (use p ok s(2,4) in \<open>simp add: t pullRun_def pullEnd_def body_defs same_body_def readable_body_def body_read_def\<close>)
qed

lemma pulled_data:
  assumes "readable_body b" and "rb_remaining b \<noteq> 0" and "rb_pull (taken rd b) = None"
  shows "pulled rd b = taken rd b"
proof -
  have "pullStart b = (Inr (Some Await_Data), b)" using assms(1,2) by (simp add: pullStart_def pullBody_def readable_body_def)
  then have "bodyStep rd Body_Pull b = b\<lparr>rb_pull := Some Await_Data\<rparr>" using pull_simps [OF assms(1)] by (simp add: pullRun_def)
  then show ?thesis using assms(3)
    by (simp add: pulled_def wholePull_def bodyRun_Cons resume_simps) (simp add: taken_def resume_simps)
qed

text \<open>Chunks on the wire, from inside a chunk of which \<open>p\<close> is left, or from the start.\<close>

definition chunks_left :: "bool \<Rightarrow> bytes \<Rightarrow> bytes list \<Rightarrow> bytes" where
  "chunks_left inside p ds =
     (if inside then p @ line_bytes [] else []) @
     concat (map chunk_bytes ds) @ line_bytes (js_string ''0'') @ line_bytes []"

definition chunk_fits :: "head_limits \<Rightarrow> bytes \<Rightarrow> bool" where
  "chunk_fits limits d \<longleftrightarrow> js_isSafeInteger (int (length d)) \<and>
     length (nat_digits 16 (length d)) + 2 \<le> hl_maxHeaderBytes limits"

lemma size_line:
  "chunk_fits limits d \<Longrightarrow> parseChunkSize (nat_digits 16 (length d)) = Inr (int (length d))"
  "\<forall>u\<in>set (nat_digits 16 n). uint u \<le> 255 \<and> u \<noteq> 10"
proof -
  show "chunk_fits limits d \<Longrightarrow> parseChunkSize (nat_digits 16 (length d)) = Inr (int (length d))"
    using parse_nat_digits [of "length d"] by (simp add: chunk_fits_def)
  have "list_all is_hex_unit (nat_digits 16 n)" using nat_digits_hex by blast
  then show "\<forall>u\<in>set (nat_digits 16 n). uint u \<le> 255 \<and> u \<noteq> 10"
    by (auto simp: list_all_iff is_hex_unit_def hexDigit_def split: if_splits)
qed

text \<open>The end of the chunk before, when there is one.\<close>

lemma chunk_end:
  assumes "transport_reads rd content" and "reader_ok r" and "unread content r = (if inside then line_bytes [] else []) @ rest"
  shows "\<exists>r1. (if inside then line rd 2 r else (Inr [], r)) = (Inr [], r1) \<and> reader_ok r1 \<and> unread content r1 = rest"
  using read_line [OF assms(1,2), of "[]" rest 2] assms(2,3) by auto

lemma taken_pull: "rb_pull (b\<lparr>rb_pull := p\<rparr>) = p" "taken rd (b\<lparr>rb_pull := p\<rparr>) = taken rd b"
  by (simp_all add: taken_def)

text \<open>The start of a pull of a chunked body, up to the await of the size of the next chunk.\<close>

lemma pulled_size:
  assumes "transport_reads rd content" and "readable_body b" and "rb_kind b = Framing_Chunked" and "rb_remaining b = 0"
    and "unread content (rb_reader b) = (if rb_needsChunkEnd b then line_bytes [] else []) @ X"
  shows "\<exists>r1. reader_ok r1 \<and> unread content r1 = X \<and>
    (\<forall>b2. bodyRun rd [Body_Resume None, Body_Resume None] (b\<lparr>rb_reader := r1, rb_pull := Some Await_ChunkSize\<rparr>) = b2 \<longrightarrow>
       rb_pull b2 = None \<longrightarrow> pulled rd b = b2)"
proof -
  have ok: "reader_ok (rb_reader b)" using assms(2) by (simp add: readable_body_def)
  obtain r1 where r1: "(if rb_needsChunkEnd b then line rd 2 (rb_reader b) else (Inr [], rb_reader b)) = (Inr [], r1)"
    "reader_ok r1" "unread content r1 = X"
    using chunk_end [OF assms(1) ok assms(5)] by blast
  have st: "bodyStep rd Body_Pull b = b\<lparr>rb_pull := Some (if rb_needsChunkEnd b then Await_ChunkEnd else Await_ChunkSize)\<rparr>"
    using pull_simps [OF assms(2)] assms(2-4) by (simp add: pullStart_def readable_body_def pullRun_def)
  let ?b1 = "b\<lparr>rb_reader := r1, rb_pull := Some Await_ChunkSize\<rparr>"
  have "pulled rd b = b2"
    if "bodyRun rd [Body_Resume None, Body_Resume None] ?b1 = b2" "rb_pull b2 = None" for b2
  proof (cases "rb_needsChunkEnd b")
    case True
    then have "bodyStep rd (Body_Resume None) (b\<lparr>rb_pull := Some Await_ChunkEnd\<rparr>) = ?b1"
      using r1(1) by (simp add: resume_simps pullResume_def read_then_def pullChunkEnd_def pullRun_def)
    then show ?thesis using that(1) st True by (simp add: pulled_def wholePull_def bodyRun_Cons)
  next
    case False
    then have b1: "?b1 = b\<lparr>rb_pull := Some Await_ChunkSize\<rparr>" using r1(1) by simp
    have "pulled rd b = bodyStep rd (Body_Resume None) (bodyRun rd [Body_Resume None, Body_Resume None] ?b1)"
      unfolding b1 using st False by (simp add: pulled_def wholePull_def bodyRun_Cons)
    then show ?thesis using that by (simp add: resume_simps)
  qed
  then show ?thesis using r1(2,3) by blast
qed

lemma pulled_more:
  assumes "transport_reads rd content" and "readable_body b" and "rb_kind b = Framing_Chunked" and "rb_remaining b = 0"
    and "chunk_fits (rb_limits b) d" and "d \<noteq> []"
    and "unread content (rb_reader b) = (if rb_needsChunkEnd b then line_bytes [] else []) @
      line_bytes (nat_digits 16 (length d)) @ rest"
  shows "\<exists>r'. reader_ok r' \<and> unread content r' = rest \<and>
    (let b1 = b\<lparr>rb_reader := r', rb_remaining := int (length d), rb_needsChunkEnd := True\<rparr>
     in rb_pull (taken rd b1) = None \<longrightarrow> pulled rd b = taken rd b1)"
proof -
  obtain r1 where r1: "reader_ok r1" "unread content r1 = line_bytes (nat_digits 16 (length d)) @ rest"
    "\<And>b2. bodyRun rd [Body_Resume None, Body_Resume None] (b\<lparr>rb_reader := r1, rb_pull := Some Await_ChunkSize\<rparr>) = b2 \<Longrightarrow>
       rb_pull b2 = None \<Longrightarrow> pulled rd b = b2"
    using pulled_size [OF assms(1-4,7)] by blast
  have "length (nat_digits 16 (length d)) + 2 \<le> hl_maxHeaderBytes (rb_limits b)" using assms(5) by (simp add: chunk_fits_def)
  then obtain r2 where r2: "line rd (hl_maxHeaderBytes (rb_limits b)) r1 = (Inr (nat_digits 16 (length d)), r2)"
    "reader_ok r2" "unread content r2 = rest"
    using read_line [OF assms(1) r1(1,2) size_line(2)] by blast
  let ?b1 = "b\<lparr>rb_reader := r2, rb_remaining := int (length d), rb_needsChunkEnd := True\<rparr>"
  have "bodyStep rd (Body_Resume None) (b\<lparr>rb_reader := r1, rb_pull := Some Await_ChunkSize\<rparr>) = ?b1\<lparr>rb_pull := Some Await_Data\<rparr>"
    using r2(1) size_line(1) [OF assms(5)] assms(3,6)
    by (simp add: resume_simps pullResume_def read_then_def pullChunkSize_def pullBody_def pullRun_def Let_def)
  then have "bodyRun rd [Body_Resume None, Body_Resume None] (b\<lparr>rb_reader := r1, rb_pull := Some Await_ChunkSize\<rparr>) = taken rd ?b1"
    by (simp add: bodyRun_Cons resume_simps taken_def)
  from r1(3) [OF this] r2(2,3) show ?thesis by (intro exI [of _ r2]) (simp add: Let_def)
qed

lemma pulled_last:
  assumes "transport_reads rd content" and "readable_body b" and "rb_kind b = Framing_Chunked" and "rb_remaining b = 0"
    and "3 \<le> hl_maxHeaderBytes (rb_limits b)"
    and "unread content (rb_reader b) = (if rb_needsChunkEnd b then line_bytes [] else []) @
      line_bytes (js_string ''0'') @ line_bytes [] @ rest"
  shows "body_read content [] rest b (pulled rd b)"
proof -
  obtain r1 where r1: "reader_ok r1" "unread content r1 = line_bytes (js_string ''0'') @ line_bytes [] @ rest"
    "\<And>b2. bodyRun rd [Body_Resume None, Body_Resume None] (b\<lparr>rb_reader := r1, rb_pull := Some Await_ChunkSize\<rparr>) = b2 \<Longrightarrow>
       rb_pull b2 = None \<Longrightarrow> pulled rd b = b2"
    using pulled_size [OF assms(1-4,6)] by blast
  have z: "\<forall>u\<in>set (js_string ''0''). uint u \<le> 255 \<and> u \<noteq> 10" "parseChunkSize (js_string ''0'') = Inr 0" by code_simp+
  have "length (js_string ''0'') + 2 \<le> hl_maxHeaderBytes (rb_limits b)" using assms(5) by simp
  then obtain r2 where r2: "line rd (hl_maxHeaderBytes (rb_limits b)) r1 = (Inr (js_string ''0''), r2)"
    "reader_ok r2" "unread content r2 = line_bytes [] @ rest"
    using read_line [OF assms(1) r1(1,2) z(1)] by blast
  have "unread content r2 = field_bytes [] @ rest" using r2(3) by (simp add: field_bytes_def)
  moreover have "0 + length (field_bytes []) \<le> hl_maxHeaderBytes (rb_limits b)"
    using assms(5) by (simp add: field_bytes_def line_bytes_def unit_bytes_def)
  ultimately obtain r3 where r3: "readFieldsLoop rd (rb_limits b) [] 0 r2 = (Inr [], r3)" "reader_ok r3" "unread content r3 = rest"
    using readFieldsLoop_reads [OF assms(1) r2(2), of "[]" rest "[]" "rb_limits b" 0] by auto
  have ok: "rb_failure b = None" "rb_stream b = Stream_Readable" "\<not> rb_finalized b" "rb_releases b = []" "rb_trailers b = Trailers_Pending"
    using assms(2) by (simp_all add: readable_body_def)
  let ?b0 = "b\<lparr>rb_reader := r1, rb_pull := Some Await_ChunkSize\<rparr>"
  have s1: "bodyStep rd (Body_Resume None) ?b0 = b\<lparr>rb_reader := r2, rb_remaining := 0, rb_pull := Some Await_Trailers\<rparr>"
    using r2(1) z(2) by (simp add: resume_simps pullResume_def read_then_def pullChunkSize_def pullRun_def Let_def)
  define b2 where "b2 = bodyRun rd [Body_Resume None, Body_Resume None] ?b0"
  have "b2 = pullRun (pullResume rd Await_Trailers (b\<lparr>rb_reader := r2, rb_remaining := 0, rb_pull := Some Await_Trailers\<rparr>))"
    unfolding b2_def by (simp add: bodyRun_Cons s1 resume_simps)
  then have "b2 = b\<lparr>rb_reader := r3, rb_remaining := 0, rb_finalized := True, rb_releases := [rb_reusable b \<and> rb_uploadDone b],
      rb_trailers := Trailers_Resolved [], rb_stream := Stream_Closed, rb_pull := None\<rparr>"
    using r3(1) ok by (simp add: pullResume_def read_then_def pullTrailers_def readHeaderFields_def pullRun_def pullEnd_def body_defs)
  then have "rb_pull b2 = None" "body_read content [] rest b b2" using r3(2,3) by (simp_all add: body_read_def)
  then show ?thesis using r1(3) [OF b2_def [symmetric]] by simp
qed

lemma bodyRun_Suc: "bodyRun rd (concat (replicate (Suc k) wholePull)) b = bodyRun rd (concat (replicate k wholePull)) (pulled rd b)"
  by (simp add: bodyRun_Cons pulled_def)

lemma bodyRun_closed:
  "rb_stream b \<noteq> Stream_Readable \<Longrightarrow> rb_pull b = None \<Longrightarrow> bodyRun rd (concat (replicate k wholePull)) b = b"
proof (induction k)
  case (Suc k)
  then have "pulled rd b = b" by (simp add: pulled_def wholePull_def bodyRun_Cons resume_simps) (simp add: bodyStep_def)
  then show ?case using Suc.IH [OF Suc.prems] by (simp only: bodyRun_Suc)
qed (simp add: bodyRun_Cons)

lemma body_read_trans:
  assumes "same_body b b1" and "rb_uploadDone b1 = rb_uploadDone b" and "rb_delivered b1 = rb_delivered b @ [d]"
    and "body_read content data rest b1 b'"
  shows "body_read content (d @ data) rest b b'"
  using assms by (simp add: body_read_def same_body_def)

lemma pulls_fixed:
  assumes "transport_reads rd content"
  shows "readable_body b \<Longrightarrow> rb_kind b = Framing_Fixed \<Longrightarrow> unread content (rb_reader b) = p @ rest \<Longrightarrow>
    rb_remaining b = int (length p) \<Longrightarrow> p \<noteq> [] \<Longrightarrow> length p \<le> k \<Longrightarrow>
    body_read content p rest b (bodyRun rd (concat (replicate k wholePull)) b)"
proof (induction k arbitrary: b p)
  case (Suc k)
  have ne: "rb_kind b \<noteq> Framing_Eof" "rb_remaining b \<noteq> 0" using Suc.prems(2,4,5) by simp_all
  define b' where "b' = taken rd b"
  obtain d p' where t: "p = d @ p'" "d \<noteq> []" "same_body b b'" "rb_uploadDone b' = rb_uploadDone b" "rb_pull b' = None"
    "if rb_kind b = Framing_Fixed \<and> p' = [] then body_read content p rest b b'
     else readable_body b' \<and> unread content (rb_reader b') = p' @ rest \<and> rb_remaining b' = int (length p') \<and>
       rb_delivered b' = rb_delivered b @ [d] \<and> rb_needsChunkEnd b' = rb_needsChunkEnd b"
    using taken_takes [OF assms Suc.prems(1) ne(1) Suc.prems(3-5)] unfolding b'_def by blast
  have step: "pulled rd b = b'" using pulled_data [OF Suc.prems(1) ne(2)] t(5) by (simp add: b'_def)
  show ?case
  proof (cases "p' = []")
    case True
    then have "body_read content p rest b b'" using t(6) Suc.prems(2) by simp
    then show ?thesis using bodyRun_closed [of b' rd k] by (simp only: bodyRun_Suc step) (simp add: body_read_def)
  next
    case False
    then have b': "readable_body b'" "unread content (rb_reader b') = p' @ rest" "rb_remaining b' = int (length p')"
      "rb_delivered b' = rb_delivered b @ [d]" using t(6) by simp_all
    have "length p' \<le> k" using Suc.prems(6) t(1,2) by (cases d) auto
    then have "body_read content p' rest b' (bodyRun rd (concat (replicate k wholePull)) b')"
      using Suc.IH [OF b'(1) _ b'(2,3) False] Suc.prems(2) t(3) by (simp add: same_body_def)
    then show ?thesis using body_read_trans [OF t(3,4) b'(4)] t(1) by (simp only: bodyRun_Suc step)
  qed
qed simp

text \<open>One pull of a chunked body: it ends the body, or takes a piece \<open>d\<close> off what is left.\<close>

definition in_chunks :: "('c \<Rightarrow> bytes) \<Rightarrow> bytes \<Rightarrow> bytes \<Rightarrow> bytes list \<Rightarrow> 'c response_body \<Rightarrow> bool" where
  "in_chunks content rest p ds b \<longleftrightarrow> readable_body b \<and> rb_kind b = Framing_Chunked \<and>
     unread content (rb_reader b) = chunks_left (rb_needsChunkEnd b) p ds @ rest \<and>
     rb_remaining b = int (length p) \<and> (p \<noteq> [] \<longrightarrow> rb_needsChunkEnd b) \<and>
     (\<forall>d\<in>set ds. d \<noteq> [] \<and> chunk_fits (rb_limits b) d) \<and> 3 \<le> hl_maxHeaderBytes (rb_limits b)"

lemma taken_in_chunk:
  assumes "transport_reads rd content" and "in_chunks content rest p ds b" and "p \<noteq> []"
  shows "rb_pull (taken rd b) = None \<and> (\<exists>d p'. p = d @ p' \<and> d \<noteq> [] \<and> in_chunks content rest p' ds (taken rd b) \<and>
    same_body b (taken rd b) \<and> rb_uploadDone (taken rd b) = rb_uploadDone b \<and>
    rb_delivered (taken rd b) = rb_delivered b @ [d])"
proof -
  have ne: "rb_kind b \<noteq> Framing_Eof" "readable_body b" "rb_remaining b = int (length p)"
    using assms(2) by (simp_all add: in_chunks_def)
  have u: "unread content (rb_reader b) = p @ line_bytes [] @ chunks_left False [] ds @ rest"
    using assms(2,3) by (simp add: in_chunks_def chunks_left_def)
  from taken_takes [OF assms(1) ne(2,1) u ne(3) assms(3)] assms(2,3) show ?thesis
    by (auto simp: in_chunks_def chunks_left_def same_body_def)
qed

lemma pull_in_chunk:
  assumes "transport_reads rd content" and "in_chunks content rest p ds b" and "p \<noteq> []"
  shows "\<exists>d p'. p = d @ p' \<and> d \<noteq> [] \<and> in_chunks content rest p' ds (pulled rd b) \<and>
    same_body b (pulled rd b) \<and> rb_uploadDone (pulled rd b) = rb_uploadDone b \<and>
    rb_delivered (pulled rd b) = rb_delivered b @ [d]"
proof -
  have "readable_body b" "rb_remaining b \<noteq> 0" using assms(2,3) by (simp_all add: in_chunks_def)
  from pulled_data [OF this] taken_in_chunk [OF assms] show ?thesis by auto
qed

lemma pull_chunk:
  assumes "transport_reads rd content" and "in_chunks content rest [] (e # es) b"
  shows "\<exists>d p'. e = d @ p' \<and> d \<noteq> [] \<and> in_chunks content rest p' es (pulled rd b) \<and>
    same_body b (pulled rd b) \<and> rb_uploadDone (pulled rd b) = rb_uploadDone b \<and>
    rb_delivered (pulled rd b) = rb_delivered b @ [d]"
proof -
  have b: "readable_body b" "rb_kind b = Framing_Chunked" "rb_remaining b = 0" "chunk_fits (rb_limits b) e" "e \<noteq> []"
    using assms(2) by (simp_all add: in_chunks_def)
  have u: "unread content (rb_reader b) = (if rb_needsChunkEnd b then line_bytes [] else []) @
      line_bytes (nat_digits 16 (length e)) @ e @ line_bytes [] @ chunks_left False [] es @ rest"
    using assms(2) by (simp add: in_chunks_def chunks_left_def chunk_bytes_def)
  obtain r' where r': "reader_ok r'" "unread content r' = e @ line_bytes [] @ chunks_left False [] es @ rest"
    "let b1 = b\<lparr>rb_reader := r', rb_remaining := int (length e), rb_needsChunkEnd := True\<rparr>
     in rb_pull (taken rd b1) = None \<longrightarrow> pulled rd b = taken rd b1"
    using pulled_more [OF assms(1) b u] by blast
  define b1 where "b1 = b\<lparr>rb_reader := r', rb_remaining := int (length e), rb_needsChunkEnd := True\<rparr>"
  have "in_chunks content rest e es b1"
    using assms(2) r'(1,2) by (auto simp: b1_def in_chunks_def readable_body_def chunks_left_def)
  from taken_in_chunk [OF assms(1) this b(5)]
  have t: "rb_pull (taken rd b1) = None" "\<exists>d p'. e = d @ p' \<and> d \<noteq> [] \<and> in_chunks content rest p' es (taken rd b1) \<and>
    same_body b1 (taken rd b1) \<and> rb_uploadDone (taken rd b1) = rb_uploadDone b1 \<and>
    rb_delivered (taken rd b1) = rb_delivered b1 @ [d]" by blast+
  have "pulled rd b = taken rd b1" using r'(3) t(1) by (simp add: b1_def Let_def)
  moreover have "same_body b x = same_body b1 x" "rb_uploadDone b1 = rb_uploadDone b" "rb_delivered b1 = rb_delivered b" for x
    by (simp_all add: b1_def same_body_def)
  ultimately show ?thesis using t(2) by simp
qed

lemma pull_last_chunk:
  assumes "transport_reads rd content" and "in_chunks content rest [] [] b"
  shows "body_read content [] rest b (pulled rd b)"
proof -
  have b: "readable_body b" "rb_kind b = Framing_Chunked" "rb_remaining b = 0" "3 \<le> hl_maxHeaderBytes (rb_limits b)"
    using assms(2) by (simp_all add: in_chunks_def)
  have "unread content (rb_reader b) = (if rb_needsChunkEnd b then line_bytes [] else []) @
      line_bytes (js_string ''0'') @ line_bytes [] @ rest"
    using assms(2) by (simp add: in_chunks_def chunks_left_def)
  from pulled_last [OF assms(1) b this] show ?thesis .
qed

lemma pulls_chunked:
  assumes "transport_reads rd content"
  shows "in_chunks content rest p ds b \<Longrightarrow> length p + length (concat ds) \<le> k \<Longrightarrow>
    body_read content (p @ concat ds) rest b (bodyRun rd (concat (replicate (Suc k) wholePull)) b)"
proof (induction k arbitrary: b p ds)
  case (0 b p ds)
  have "\<forall>d\<in>set ds. d \<noteq> []" using "0.prems"(1) by (auto simp: in_chunks_def)
  then have "p = []" "ds = []" using "0.prems"(2) by (cases ds; auto)+
  then have "body_read content [] rest b (pulled rd b)" using pull_last_chunk [OF assms] "0.prems"(1) by simp
  then show ?case using \<open>p = []\<close> \<open>ds = []\<close> by (simp only: bodyRun_Suc) (simp add: bodyRun_Cons)
next
  case (Suc k b p ds)
  show ?case
  proof (cases "p = [] \<and> ds = []")
    case True
    then have "body_read content [] rest b (pulled rd b)" using pull_last_chunk [OF assms] Suc.prems(1) by simp
    then show ?thesis using True bodyRun_closed [of "pulled rd b" rd "Suc k"]
      by (simp only: bodyRun_Suc [of rd "Suc k"]) (simp add: body_read_def)
  next
    case False
    obtain d p' ds' where t: "p @ concat ds = d @ p' @ concat ds'" "d \<noteq> []" "in_chunks content rest p' ds' (pulled rd b)"
      "same_body b (pulled rd b)" "rb_uploadDone (pulled rd b) = rb_uploadDone b"
      "rb_delivered (pulled rd b) = rb_delivered b @ [d]"
    proof (cases "p = []")
      case True
      then obtain e es where ds: "ds = e # es" using False by (cases ds) auto
      obtain d p' where "e = d @ p'" "d \<noteq> []" "in_chunks content rest p' es (pulled rd b)" "same_body b (pulled rd b)"
        "rb_uploadDone (pulled rd b) = rb_uploadDone b" "rb_delivered (pulled rd b) = rb_delivered b @ [d]"
        using pull_chunk [OF assms, of rest e es b] Suc.prems(1) True ds by auto
      then show thesis using that [of d p' es] True ds by simp
    next
      case False
      obtain d p' where "p = d @ p'" "d \<noteq> []" "in_chunks content rest p' ds (pulled rd b)" "same_body b (pulled rd b)"
        "rb_uploadDone (pulled rd b) = rb_uploadDone b" "rb_delivered (pulled rd b) = rb_delivered b @ [d]"
        using pull_in_chunk [OF assms Suc.prems(1) False] by blast
      then show thesis using that [of d p' ds] by simp
    qed
    have "length (p @ concat ds) = length d + length p' + length (concat ds')" unfolding t(1) by simp
    moreover have "0 < length d" using t(2) by simp
    ultimately have "length p' + length (concat ds') \<le> k" using Suc.prems(2) unfolding length_append by linarith
    from body_read_trans [OF t(4-6) Suc.IH [OF t(3) this]] show ?thesis by (simp only: bodyRun_Suc [of rd "Suc k"] t(1))
  qed
qed

lemma body_bytes_read:
  assumes "transport_reads rd content" and "reader_ok r" and "unread content r = body_bytes chunked datas @ rest"
    and "chunked \<or> concat datas \<noteq> []" and "\<forall>d\<in>set datas. chunk_fits limits d" and "3 \<le> hl_maxHeaderBytes limits"
    and "kind = (if chunked then Framing_Chunked else Framing_Fixed)"
    and "len = (if chunked then 0 else int (length (concat datas)))"
  shows "body_read content (concat datas) rest (newResponseBody kind len reusable limits uploadDone r)
    (bodyRun rd (concat (replicate (length (concat datas) + 1) wholePull))
      (newResponseBody kind len reusable limits uploadDone r))"
proof -
  let ?b = "newResponseBody kind len reusable limits uploadDone r"
  have ready: "readable_body ?b" using assms(2) by (simp add: readable_body_def newResponseBody_def)
  show ?thesis
  proof (cases chunked)
    case True
    have f: "concat (filter (\<lambda>d. d \<noteq> []) datas) = concat datas" by (induction datas) auto
    have "in_chunks content rest [] (filter (\<lambda>d. d \<noteq> []) datas) ?b"
      using ready True assms(3,5-8) by (simp add: in_chunks_def newResponseBody_def chunks_left_def body_bytes_def)
    from pulls_chunked [OF assms(1) this, of "length (concat datas)"] show ?thesis
      using arg_cong [OF f, of length] f by simp
  next
    case False
    have "unread content (rb_reader ?b) = concat datas @ rest" using False assms(3) by (simp add: newResponseBody_def body_bytes_def)
    then show ?thesis
      by (intro pulls_fixed [OF assms(1) ready]) (use False assms(4,7,8) in \<open>auto simp: newResponseBody_def\<close>)
  qed
qed

text \<open>A body of length zero has nothing to wait for, so its trailers are never resolved.\<close>

lemma empty_body_step:
  assumes "body_inv 0 b" and "rb_kind b = Framing_Fixed" and "\<forall>ts. rb_trailers b \<noteq> Trailers_Resolved ts"
  shows "rb_trailers (bodyStep rd ev b) \<noteq> Trailers_Resolved ts"
proof (cases "settled_body 0 b")
  case True
  then show ?thesis using settled_step [OF True, of rd ev] assms(3) by (simp add: same_end_def)
next
  case False
  then have o: "open_body 0 b" using assms(1) by (simp add: body_inv_def)
  then have m: "rb_remaining b = 0" "rb_pull b = None" "rb_trailers b = Trailers_Pending"
    using assms(2) by (auto simp: open_body_def inv_defs point_ok_def split: option.splits pull_point.splits)
  have "rb_trailers (pullRun (pullStart b)) \<noteq> Trailers_Resolved ts"
    using m assms(2) by (auto simp: pullStart_def pullBody_def pullEnd_def pullRun_def pullCatch_def body_defs Let_def split: option.split)
  then show ?thesis using m by (auto simp: bodyStep_def cancelSource_def failBody_def body_defs split: body_event.split)
qed

lemma empty_body_run:
  "body_inv 0 b \<Longrightarrow> rb_kind b = Framing_Fixed \<Longrightarrow> \<forall>ts. rb_trailers b \<noteq> Trailers_Resolved ts \<Longrightarrow>
   rb_trailers (bodyRun rd evs b) \<noteq> Trailers_Resolved ts"
proof (induction evs arbitrary: b)
  case (Cons ev evs)
  have "rb_kind (bodyStep rd ev b) = Framing_Fixed" using bodyStep_same [of b rd ev] Cons.prems(2) by (simp add: same_body_def)
  then show ?case using Cons.IH bodyStep_inv [OF Cons.prems(1)] empty_body_step [OF Cons.prems] by (simp add: bodyRun_Cons)
qed (simp add: bodyRun_Cons)

section \<open>Properties\<close>

text \<open>
  C30: A body that \<^verbatim>\<open>upload\<close> put on the wire, chunked or of a fixed positive length, is pulled whole
  by the receiving side, however either transport cuts it: after at most one pull for each of its
  bytes and one more, each with the reads it waits for, the stream is closed, has delivered exactly
  the bytes uploaded, the trailers are settled as empty, the connection is released once, for reuse
  if the exchange allows it, and the reader stands at the byte behind the body.
\<close>

theorem http1_body_roundtrip:
  assumes "transport_writes wr sent" and "upload wr (Some items) declared chunked c = (Inr (), c')" and "sent c = []"
    and "transport_reads rd content" and "reader_ok r" and "unread content r = sent c' @ rest"
    and "items = map Inr datas" and "chunked \<or> concat datas \<noteq> []" and "\<forall>d\<in>set datas. chunk_fits limits d"
    and "3 \<le> hl_maxHeaderBytes limits"
  shows "let b' = bodyRun rd (concat (replicate (length (concat datas) + 1) wholePull))
                    (newResponseBody (if chunked then Framing_Chunked else Framing_Fixed)
                       (if chunked then 0 else int (length (concat datas))) reusable limits uploadDone r)
    in rb_stream b' = Stream_Closed \<and> concat (rb_delivered b') = concat datas \<and> rb_trailers b' = Trailers_Resolved [] \<and>
       rb_releases b' = [reusable \<and> uploadDone] \<and> reader_ok (rb_reader b') \<and> unread content (rb_reader b') = rest"
proof -
  obtain ds where "items = map Inr ds" "sent c' = sent c @ body_bytes chunked ds"
    using upload_sent [OF assms(1,2)] by blast
  moreover from this(1) assms(7) have "ds = datas" using map_injective [of Inr ds datas] by (simp add: inj_def)
  ultimately have u: "unread content r = body_bytes chunked datas @ rest" using assms(3,6) by simp
  show ?thesis
    using body_bytes_read [OF assms(4,5) u assms(8-10) refl refl] by (simp add: body_read_def newResponseBody_def Let_def)
qed

theorem http1_body_roundtrip_witness:
  "\<exists>c'. upload memory_write (Some (map Inr [[1, 2], [], [3]])) None True [] = (Inr (), c') \<and>
     concat (rb_delivered (bodyRun memory_read (concat (replicate 4 wholePull))
       (newResponseBody Framing_Chunked 0 True defaultHeadLimits True (newBufferedReader (c' @ [9]))))) = [1, 2, 3]"
proof -
  let ?ds = "[[1, 2], [], [3]] :: bytes list"
  obtain c' where u: "upload memory_write (Some (map Inr ?ds)) None True [] = (Inr (), c')"
    using memory_upload [of ?ds 0 "[]"] by (auto simp: upload_def)
  have w: "transport_writes memory_write id" by (auto simp: transport_writes_def memory_write_def min_def)
  have "length (nat_digits 16 k) = 1" if "k < 16" for k using that by (subst nat_digits.simps) simp
  then have f: "\<forall>d\<in>set ?ds. chunk_fits defaultHeadLimits d"
    by (simp add: chunk_fits_def defaultHeadLimits_def js_isSafeInteger_def MAX_SAFE_INTEGER_def)
  have l: "3 \<le> hl_maxHeaderBytes defaultHeadLimits" by (simp add: defaultHeadLimits_def)
  have r: "unread id (newBufferedReader (c' @ [9])) = id c' @ [9]" by simp
  have four: "length (concat ?ds) + 1 = 4" by simp
  from http1_body_roundtrip [OF w u _ memory_reads reader_ok_new(1) r refl _ f l, of True True]
  have "concat (rb_delivered (bodyRun memory_read (concat (replicate (length (concat ?ds) + 1) wholePull))
       (newResponseBody Framing_Chunked 0 True defaultHeadLimits True (newBufferedReader (c' @ [9]))))) = concat ?ds"
    by (simp add: Let_def)
  then show ?thesis using u unfolding four by auto
qed

text \<open>
  C31: Whatever happens to a response body, on any transport, also when it fails or is cancelled while
  a pull waits: it is open exactly as long as the connection is not released, and the connection is
  released at most once; the bytes delivered never exceed a fixed length; the connection goes back for
  reuse only from a body that was closed at its end, with the upload done, no failure and a framing
  that marks the end; a stream that failed has its trailers rejected with the same reason, and the
  trailers of every ended body are settled, unless its fixed length is zero; a body that is cancelled
  is released, not for reuse, and its trailers are rejected with the reason; and an ended body stays
  as it is, whatever a pull still in progress does.
\<close>

theorem http1_body_settles:
  assumes "0 \<le> n" and "b = bodyRun rd evs (newResponseBody kind n reusable limits uploadDone r)"
  shows "(rb_stream b = Stream_Readable \<longleftrightarrow> rb_releases b = []) \<and> length (rb_releases b) \<le> 1 \<and>
    (kind = Framing_Fixed \<longrightarrow> int (length (concat (rb_delivered b))) \<le> n) \<and>
    (rb_releases b = [True] \<longrightarrow> rb_stream b = Stream_Closed \<and> kind \<noteq> Framing_Eof \<and> reusable \<and> rb_uploadDone b \<and>
       rb_failure b = None \<and> (kind = Framing_Fixed \<longrightarrow> int (length (concat (rb_delivered b))) = n)) \<and>
    (\<forall>e. rb_stream b = Stream_Errored e \<longrightarrow> rb_trailers b = Trailers_Rejected e) \<and>
    (rb_stream b \<noteq> Stream_Readable \<and> \<not> (kind = Framing_Fixed \<and> n = 0) \<longrightarrow> rb_trailers b \<noteq> Trailers_Pending) \<and>
    (\<forall>e evs'. rb_stream b = Stream_Readable \<longrightarrow>
       (let d = bodyRun rd (Body_Cancel e # evs') b
        in rb_stream d = Stream_Closed \<and> rb_releases d = [False] \<and> rb_delivered d = rb_delivered b \<and>
           rb_trailers d = Trailers_Rejected e)) \<and>
    (\<forall>evs'. rb_stream b \<noteq> Stream_Readable \<longrightarrow>
       (let d = bodyRun rd evs' b
        in rb_stream d = rb_stream b \<and> rb_releases d = rb_releases b \<and> rb_delivered d = rb_delivered b \<and>
           rb_trailers d = rb_trailers b))"
proof -
  let ?b = "newResponseBody kind n reusable limits uploadDone r"
  have inv: "body_inv n b" using bodyRun_inv [OF newResponseBody_inv [OF assms(1)]] by (simp add: assms(2))
  have same: "rb_kind b = kind" "rb_reusable b = reusable"
    using bodyRun_same [of ?b rd evs] by (simp_all add: assms(2) same_body_def newResponseBody_def)
  show ?thesis
  proof (cases "settled_body n b")
    case True
    then have "same_end b (bodyRun rd evs' b)" for evs' using settled_run by blast
    with True show ?thesis by (auto simp: settled_body_def ended_body_def delivered_bytes_def same_end_def same Let_def)
  next
    case False
    then have m: "mid_body n b" using inv by (simp add: body_inv_def open_body_def)
    let ?c = "\<lambda>e. cancelSource e (b\<lparr>rb_stream := Stream_Closed\<rparr>)"
    have "same_end (?c e) (bodyRun rd (Body_Cancel e # evs') b)" for e evs'
      using settled_run [OF cancel_settles(1) [OF m]] m by (simp add: bodyRun_Cons bodyStep_def mid_body_def)
    moreover have "rb_delivered (?c e) = rb_delivered b" "rb_stream (?c e) = Stream_Closed" for e
      by (simp_all add: cancelSource_def body_defs)
    ultimately have "let d = bodyRun rd (Body_Cancel e # evs') b
        in rb_stream d = Stream_Closed \<and> rb_releases d = [False] \<and> rb_delivered d = rb_delivered b \<and>
           rb_trailers d = Trailers_Rejected e" for e evs'
      using cancel_settles(2,3) [OF m, of e] by (simp add: same_end_def Let_def)
    moreover have "rb_stream b = Stream_Readable" "rb_releases b = []" "kind = Framing_Fixed \<longrightarrow> int (length (concat (rb_delivered b))) \<le> n"
      using m by (auto simp: mid_body_def delivered_bytes_def same)
    ultimately show ?thesis by simp
  qed
qed

theorem http1_body_settles_witness:
  "let b = bodyRun memory_read [Body_Pull]
             (newResponseBody Framing_Fixed 5 True defaultHeadLimits True (newBufferedReader [7, 8]));
       d = bodyRun memory_read [Body_Cancel TypeError, Body_Resume None] b
   in rb_pull b = Some Await_Data \<and> rb_releases d = [False] \<and> rb_trailers d = Trailers_Rejected TypeError"
proof -
  define b where "b = bodyRun memory_read [Body_Pull]
             (newResponseBody Framing_Fixed 5 True defaultHeadLimits True (newBufferedReader [7, 8]))"
  have w: "rb_stream b = Stream_Readable" "rb_pull b = Some Await_Data"
    by (simp_all add: b_def bodyRun_Cons bodyStep_def newResponseBody_def pullStart_def pullBody_def pullRun_def)
  have "let d = bodyRun memory_read (Body_Cancel TypeError # [Body_Resume None]) b
        in rb_stream d = Stream_Closed \<and> rb_releases d = [False] \<and> rb_delivered d = rb_delivered b \<and>
           rb_trailers d = Trailers_Rejected TypeError"
    using http1_body_settles [OF _ b_def] w(1) by simp
  then show ?thesis using w(2) unfolding b_def [symmetric] Let_def by simp
qed

text \<open>
  C32: The trailers of a body whose \<^verbatim>\<open>Content-Length\<close> is zero are never settled when it ends well: its
  first pull closes the stream and releases the connection, and whatever happens later the promise
  stays pending. In no run at all are they resolved; a failure or a cancel before that pull rejects
  them.
\<close>

theorem http1_empty_body_trailers:
  assumes "b0 = newResponseBody Framing_Fixed 0 reusable limits uploadDone r" and "\<forall>ev\<in>set before. ev = Body_UploadDone"
  shows "(let b = bodyRun rd (before @ Body_Pull # evs) b0
     in rb_stream b = Stream_Closed \<and> rb_releases b = [reusable \<and> (uploadDone \<or> before \<noteq> [])] \<and> rb_trailers b = Trailers_Pending) \<and>
    (\<forall>evs' ts. rb_trailers (bodyRun rd evs' b0) \<noteq> Trailers_Resolved ts)"
proof -
  have "bodyRun rd before b0 = b0\<lparr>rb_uploadDone := uploadDone \<or> before \<noteq> []\<rparr>"
    using assms(2)
  proof (induction before rule: rev_induct)
    case (snoc ev evs)
    then show ?case by (simp add: bodyRun_Cons) (simp add: bodyStep_def)
  qed (simp add: bodyRun_Cons assms(1) newResponseBody_def)
  then have c: "bodyRun rd (before @ [Body_Pull]) b0 = b0\<lparr>rb_uploadDone := uploadDone \<or> before \<noteq> [], rb_stream := Stream_Closed,
      rb_finalized := True, rb_releases := [reusable \<and> (uploadDone \<or> before \<noteq> [])]\<rparr>"
    by (simp add: bodyRun_Cons bodyStep_def assms(1) newResponseBody_def pullStart_def pullBody_def pullEnd_def pullRun_def body_defs)
  then have "settled_body 0 (bodyRun rd (before @ [Body_Pull]) b0)"
    by (simp add: assms(1) newResponseBody_def settled_body_def ended_body_def delivered_bytes_def) blast
  from settled_run [OF this, of rd evs] have 1: "same_end (bodyRun rd (before @ [Body_Pull]) b0) (bodyRun rd (before @ Body_Pull # evs) b0)"
    by (simp add: bodyRun_Cons)
  have "rb_trailers (bodyRun rd evs' b0) \<noteq> Trailers_Resolved ts" for evs' ts
    by (rule empty_body_run) (simp_all add: assms(1) newResponseBody_inv, simp_all add: newResponseBody_def)
  then show ?thesis using 1 unfolding c by (simp add: same_end_def Let_def assms(1) newResponseBody_def)
qed

theorem http1_empty_body_trailers_witness:
  "rb_trailers (bodyRun memory_read [Body_UploadDone, Body_Pull, Body_Cancel TypeError]
     (newResponseBody Framing_Fixed 0 True defaultHeadLimits False (newBufferedReader [1]))) = Trailers_Pending"
  using http1_empty_body_trailers [OF refl, where before = "[Body_UploadDone]" and rd = memory_read and evs = "[Body_Cancel TypeError]"]
  by (simp add: Let_def)

end
