(* ===== verification/Connection_Pool.thy ===== *)
theory Connection_Pool
  imports Js_Strings "HOL-Library.Multiset"
begin

text \<open>
  The connection pool of \<^verbatim>\<open>runtime/web-platform/src/http1/pool.ts\<close>: records and leases, the queue of
  waiters, the connections being opened, \<^verbatim>\<open>pump\<close>, release, detach, close and drain. Promises and
  callbacks become events: a connector that answers, a signal that aborts, an idle timer, a peer
  that closes. A record, a waiter and a lease are named by numbers.
\<close>

section \<open>State\<close>

record pool_record =
  pr_id :: nat
  pr_key :: jsstring
  pr_closed :: bool
  pr_buffered :: nat
  pr_busy :: bool
  pr_timer :: bool

record waiter =
  wt_id :: nat
  wt_key :: jsstring
  wt_aborted :: "js_error option"

record lease =
  le_id :: nat
  le_record :: nat
  le_released :: bool

text \<open>What a waiter's promise was settled with.\<close>

datatype acquired = Acquired_Lease nat | Acquire_Rejected js_error

datatype drain_state = Drain_None | Drain_Pending | Drain_Resolved

text \<open>
  The linked list of pending waiters is the list of its elements, \<^verbatim>\<open>records\<close> and \<^verbatim>\<open>connecting\<close> are in
  the order of insertion, and \<open>pl_results\<close> holds the settled promises. \<open>pl_shut\<close> are the connections
  the pool closed.
\<close>

record pool =
  pl_maxConnections :: int
  pl_maxPerOrigin :: int
  pl_maxPending :: nat
  pl_idleTimeoutMs :: nat
  pl_records :: "pool_record list"
  pl_counts :: "jsstring \<Rightarrow> int option"
  pl_pending :: "waiter list"
  pl_connecting :: "waiter list"
  pl_total :: int
  pl_accepting :: bool
  pl_destroyed :: bool
  pl_drain :: drain_state
  pl_results :: "nat \<Rightarrow> acquired option"
  pl_leases :: "lease list"
  pl_shut :: "nat list"
  pl_nextWaiter :: nat
  pl_nextRecord :: nat

definition emptyPool :: "int \<Rightarrow> int \<Rightarrow> nat \<Rightarrow> nat \<Rightarrow> pool" where
  "emptyPool maxConnections maxPerOrigin maxPending idleTimeoutMs =
     \<lparr>pl_maxConnections = maxConnections, pl_maxPerOrigin = maxPerOrigin, pl_maxPending = maxPending,
      pl_idleTimeoutMs = idleTimeoutMs, pl_records = [], pl_counts = (\<lambda>_. None), pl_pending = [],
      pl_connecting = [], pl_total = 0, pl_accepting = True, pl_destroyed = False, pl_drain = Drain_None,
      pl_results = (\<lambda>_. None), pl_leases = [], pl_shut = [], pl_nextWaiter = 0, pl_nextRecord = 0\<rparr>"

definition newPool :: "int \<Rightarrow> int \<Rightarrow> nat \<Rightarrow> nat \<Rightarrow> pool result" where
  "newPool maxConnections maxPerOrigin maxPending idleTimeoutMs =
     (if list_ex (\<lambda>v. \<not> js_isSafeInteger v \<or> v < 1) [maxConnections, maxPerOrigin, int maxPending] then Inl RangeError
      else Inr (emptyPool maxConnections maxPerOrigin maxPending idleTimeoutMs))"

definition poolKey :: "bool \<Rightarrow> jsstring \<Rightarrow> nat \<Rightarrow> jsstring" where
  "poolKey secure hostname port =
     (if secure then js_string ''tls:'' else js_string ''tcp:'') @ hostname @ js_string '':'' @ nat_digits 10 port"

section \<open>Operations\<close>

definition settled :: "pool \<Rightarrow> waiter \<Rightarrow> bool" where
  "settled p w \<longleftrightarrow> pl_results p (wt_id w) \<noteq> None"

definition settleWaiter :: "waiter \<Rightarrow> acquired \<Rightarrow> pool \<Rightarrow> pool" where
  "settleWaiter w result p =
     (if settled p w then p else p\<lparr>pl_results := (pl_results p)(wt_id w := Some result)\<rparr>)"

definition rejectWaiter :: "waiter \<Rightarrow> js_error \<Rightarrow> pool \<Rightarrow> pool" where
  "rejectWaiter w reason p = settleWaiter w (Acquire_Rejected reason) p"

text \<open>\<^verbatim>\<open>resolveWaiter\<close> with a new lease of a record.\<close>

definition grantLease :: "waiter \<Rightarrow> nat \<Rightarrow> pool \<Rightarrow> pool" where
  "grantLease w rid p =
     (let lid = length (pl_leases p)
      in settleWaiter w (Acquired_Lease lid)
           (p\<lparr>pl_leases := pl_leases p @ [\<lparr>le_id = lid, le_record = rid, le_released = False\<rparr>]\<rparr>))"

definition appendPending :: "waiter \<Rightarrow> pool \<Rightarrow> pool" where
  "appendPending w p = p\<lparr>pl_pending := pl_pending p @ [w]\<rparr>"

definition removePending :: "waiter \<Rightarrow> pool \<Rightarrow> pool" where
  "removePending w p = p\<lparr>pl_pending := filter (\<lambda>v. wt_id v \<noteq> wt_id w) (pl_pending p)\<rparr>"

definition countOf :: "pool \<Rightarrow> jsstring \<Rightarrow> int" where
  "countOf p key = js_or_else (pl_counts p key) 0"

definition changeCount :: "jsstring \<Rightarrow> int \<Rightarrow> pool \<Rightarrow> pool" where
  "changeCount key delta p =
     (let count = countOf p key + delta
      in p\<lparr>pl_counts := (pl_counts p)(key := (if count = 0 then None else Some count)), pl_total := pl_total p + delta\<rparr>)"

definition dropRecord :: "pool_record \<Rightarrow> pool \<Rightarrow> pool" where
  "dropRecord r p =
     (if \<not> list_ex (\<lambda>q. pr_id q = pr_id r) (pl_records p) then p
      else changeCount (pr_key r) (- 1)
             (p\<lparr>pl_records := filter (\<lambda>q. pr_id q \<noteq> pr_id r) (pl_records p), pl_shut := pl_shut p @ [pr_id r]\<rparr>))"

definition checkDrained :: "pool \<Rightarrow> pool" where
  "checkDrained p =
     (if pl_accepting p \<or> pl_destroyed p \<or> pl_drain p \<noteq> Drain_Pending \<or> pl_pending p \<noteq> [] \<or>
         pl_connecting p \<noteq> [] \<or> pl_records p \<noteq> [] then p
      else p\<lparr>pl_drain := Drain_Resolved\<rparr>)"

definition setRecord :: "nat \<Rightarrow> (pool_record \<Rightarrow> pool_record) \<Rightarrow> pool \<Rightarrow> pool" where
  "setRecord rid f p = p\<lparr>pl_records := map (\<lambda>q. if pr_id q = rid then f q else q) (pl_records p)\<rparr>"

text \<open>The prelude of \<^verbatim>\<open>pump\<close>, and one turn of its loop for the waiter \<open>w\<close>.\<close>

definition pruneClosed :: "pool \<Rightarrow> pool" where
  "pruneClosed p = fold (\<lambda>r p. if \<not> pr_busy r \<and> pr_closed r then dropRecord r p else p) (pl_records p) p"

definition reclaimIdle :: "pool \<Rightarrow> pool" where
  "reclaimIdle p =
     (if pl_total p \<ge> pl_maxConnections p then
        (case List.find (\<lambda>r. \<not> pr_busy r) (pl_records p) of None \<Rightarrow> p | Some r \<Rightarrow> dropRecord r p)
      else p)"

definition pumpTurn :: "waiter \<Rightarrow> pool \<Rightarrow> pool" where
  "pumpTurn w p =
     (if settled p w then removePending w p
      else
        (case List.find (\<lambda>r. \<not> pr_busy r \<and> pr_key r = wt_key w) (pl_records p) of
           Some r \<Rightarrow>
             grantLease w (pr_id r)
               (setRecord (pr_id r) (\<lambda>q. q\<lparr>pr_busy := True, pr_timer := False\<rparr>) (removePending w p))
         | None \<Rightarrow>
             (let p1 = reclaimIdle p
              in if pl_total p1 \<ge> pl_maxConnections p1 \<or> countOf p1 (wt_key w) \<ge> pl_maxPerOrigin p1 then p1
                 else let p2 = changeCount (wt_key w) 1 (removePending w p1)
                      in p2\<lparr>pl_connecting := pl_connecting p2 @ [w]\<rparr>)))"

definition pump :: "pool \<Rightarrow> pool" where
  "pump p =
     (if pl_destroyed p then p
      else let p1 = pruneClosed p in checkDrained (fold pumpTurn (pl_pending p1) p1))"

definition acquire :: "jsstring \<Rightarrow> js_error option \<Rightarrow> pool \<Rightarrow> nat result \<times> pool" where
  "acquire key aborted p =
     (if \<not> pl_accepting p then (Inl TypeError, p)
      else case aborted of
        Some reason \<Rightarrow> (Inl reason, p)
      | None \<Rightarrow>
          (if length (pl_pending p) \<ge> pl_maxPending p then (Inl LimitError, p)
           else
             (let wid = pl_nextWaiter p; w = \<lparr>wt_id = wid, wt_key = key, wt_aborted = None\<rparr>
              in (Inr wid, pump (appendPending w (p\<lparr>pl_nextWaiter := wid + 1\<rparr>))))))"

text \<open>The callback of a waiter's signal; it is subscribed while the waiter is queued or connecting.\<close>

definition abortWaiter :: "nat \<Rightarrow> js_error \<Rightarrow> pool \<Rightarrow> pool" where
  "abortWaiter wid reason p =
     (case List.find (\<lambda>w. wt_id w = wid) (pl_pending p) of
        Some w \<Rightarrow> pump (removePending w (rejectWaiter w reason p))
      | None \<Rightarrow>
          (case List.find (\<lambda>w. wt_id w = wid) (pl_connecting p) of
             None \<Rightarrow> p
           | Some w \<Rightarrow>
               rejectWaiter w reason
                 (p\<lparr>pl_connecting := map (\<lambda>v. if wt_id v = wid then v\<lparr>wt_aborted := Some reason\<rparr> else v) (pl_connecting p)\<rparr>)))"

definition deleteConnecting :: "waiter \<Rightarrow> pool \<Rightarrow> pool" where
  "deleteConnecting w p = p\<lparr>pl_connecting := filter (\<lambda>v. wt_id v \<noteq> wt_id w) (pl_connecting p)\<rparr>"

text \<open>The connector's promise is fulfilled for the waiter \<open>wid\<close>, or rejected.\<close>

definition connected :: "nat \<Rightarrow> pool \<Rightarrow> pool" where
  "connected wid p =
     (case List.find (\<lambda>w. wt_id w = wid) (pl_connecting p) of
        None \<Rightarrow> p
      | Some w \<Rightarrow>
          (let p1 = deleteConnecting w p; rid = pl_nextRecord p1; p2 = p1\<lparr>pl_nextRecord := rid + 1\<rparr>
           in pump
             (if pl_destroyed p2 \<or> settled p2 w \<or> wt_aborted w \<noteq> None then
                rejectWaiter w (case wt_aborted w of Some reason \<Rightarrow> reason | None \<Rightarrow> TypeError)
                  (changeCount (wt_key w) (- 1) (p2\<lparr>pl_shut := pl_shut p2 @ [rid]\<rparr>))
              else
                grantLease w rid
                  (p2\<lparr>pl_records := pl_records p2 @
                        [\<lparr>pr_id = rid, pr_key = wt_key w, pr_closed = False, pr_buffered = 0, pr_busy = True,
                          pr_timer = False\<rparr>]\<rparr>))))"

definition connectFailed :: "nat \<Rightarrow> js_error \<Rightarrow> pool \<Rightarrow> pool" where
  "connectFailed wid e p =
     (case List.find (\<lambda>w. wt_id w = wid) (pl_connecting p) of
        None \<Rightarrow> p
      | Some w \<Rightarrow> pump (rejectWaiter w e (changeCount (wt_key w) (- 1) (deleteConnecting w p))))"

definition releaseRecord :: "nat \<Rightarrow> bool \<Rightarrow> pool \<Rightarrow> pool" where
  "releaseRecord rid reusable p =
     (case List.find (\<lambda>r. pr_id r = rid) (pl_records p) of
        None \<Rightarrow> p
      | Some r \<Rightarrow>
          pump (if \<not> reusable \<or> \<not> pl_accepting p \<or> pr_closed r \<or> pr_buffered r \<noteq> 0 \<or> pl_idleTimeoutMs p = 0
                then dropRecord r p
                else setRecord rid (\<lambda>q. q\<lparr>pr_busy := False, pr_timer := True\<rparr>) p))"

definition detachRecord :: "nat \<Rightarrow> pool \<Rightarrow> pool" where
  "detachRecord rid p =
     (case List.find (\<lambda>r. pr_id r = rid) (pl_records p) of
        None \<Rightarrow> p
      | Some r \<Rightarrow> pump (changeCount (pr_key r) (- 1) (p\<lparr>pl_records := filter (\<lambda>q. pr_id q \<noteq> rid) (pl_records p)\<rparr>)))"

text \<open>\<^verbatim>\<open>ConnectionLease.release\<close> and \<^verbatim>\<open>ConnectionLease.detach\<close>.\<close>

definition markReleased :: "nat \<Rightarrow> pool \<Rightarrow> pool" where
  "markReleased lid p =
     p\<lparr>pl_leases := map (\<lambda>l. if le_id l = lid then l\<lparr>le_released := True\<rparr> else l) (pl_leases p)\<rparr>"

definition leaseRelease :: "nat \<Rightarrow> bool \<Rightarrow> pool \<Rightarrow> pool" where
  "leaseRelease lid reusable p =
     (case List.find (\<lambda>l. le_id l = lid) (pl_leases p) of
        None \<Rightarrow> p
      | Some l \<Rightarrow> if le_released l then p else releaseRecord (le_record l) reusable (markReleased lid p))"

definition leaseDetach :: "nat \<Rightarrow> pool \<Rightarrow> pool" where
  "leaseDetach lid p =
     (case List.find (\<lambda>l. le_id l = lid) (pl_leases p) of
        None \<Rightarrow> p
      | Some l \<Rightarrow> if le_released l then p else detachRecord (le_record l) (markReleased lid p))"

definition idleTimer :: "nat \<Rightarrow> pool \<Rightarrow> pool" where
  "idleTimer rid p =
     (case List.find (\<lambda>r. pr_id r = rid \<and> pr_timer r) (pl_records p) of
        None \<Rightarrow> p
      | Some r \<Rightarrow> pump (dropRecord r p))"

definition closePool :: "pool \<Rightarrow> pool" where
  "closePool p =
     (if pl_destroyed p then p
      else
        (let p1 = p\<lparr>pl_accepting := False, pl_destroyed := True\<rparr>;
             p2 = fold (\<lambda>w q. rejectWaiter w TypeError q) (pl_connecting p1) p1;
             p3 = fold dropRecord (pl_records p2) p2;
             p4 = fold (\<lambda>w q. rejectWaiter w TypeError (removePending w q)) (pl_pending p3) p3
         in if pl_drain p4 = Drain_Pending then p4\<lparr>pl_drain := Drain_Resolved\<rparr> else p4))"

definition drainPool :: "pool \<Rightarrow> pool" where
  "drainPool p =
     (if pl_destroyed p \<or> pl_drain p \<noteq> Drain_None then p
      else
        (let p1 = p\<lparr>pl_accepting := False, pl_drain := Drain_Pending\<rparr>;
             p2 = fold (\<lambda>r q. if \<not> pr_busy r then dropRecord r q else q) (pl_records p1) p1
         in checkDrained (pump p2)))"

section \<open>Events\<close>

text \<open>
  What happens to a pool. \<open>Ev_Peer_Closed\<close> is the peer closing a connection and \<open>Ev_Buffered\<close> the reader
  of a busy connection taking bytes; the pool learns of both only when it looks.
\<close>

datatype pool_event =
    Ev_Acquire jsstring "js_error option"
  | Ev_Abort nat js_error
  | Ev_Connected nat
  | Ev_Connect_Failed nat js_error
  | Ev_Release nat bool
  | Ev_Detach nat
  | Ev_Idle_Timer nat
  | Ev_Peer_Closed nat
  | Ev_Buffered nat nat
  | Ev_Close
  | Ev_Drain

fun pool_step :: "pool_event \<Rightarrow> pool \<Rightarrow> pool" where
  "pool_step (Ev_Acquire key aborted) p = snd (acquire key aborted p)"
| "pool_step (Ev_Abort wid reason) p = abortWaiter wid reason p"
| "pool_step (Ev_Connected wid) p = connected wid p"
| "pool_step (Ev_Connect_Failed wid e) p = connectFailed wid e p"
| "pool_step (Ev_Release lid reusable) p = leaseRelease lid reusable p"
| "pool_step (Ev_Detach lid) p = leaseDetach lid p"
| "pool_step (Ev_Idle_Timer rid) p = idleTimer rid p"
| "pool_step (Ev_Peer_Closed rid) p = setRecord rid (\<lambda>q. q\<lparr>pr_closed := True\<rparr>) p"
| "pool_step (Ev_Buffered rid n) p = setRecord rid (\<lambda>q. if pr_busy q then q\<lparr>pr_buffered := n\<rparr> else q) p"
| "pool_step Ev_Close p = closePool p"
| "pool_step Ev_Drain p = drainPool p"

inductive pool_reachable :: "pool \<Rightarrow> bool" where
  pool_start: "newPool maxConnections maxPerOrigin maxPending idleTimeoutMs = Inr p \<Longrightarrow> pool_reachable p"
| pool_event: "pool_reachable p \<Longrightarrow> pool_reachable (pool_step e p)"

section \<open>The invariant\<close>

text \<open>Every connection open or being opened is counted once, for its key and in all, within the caps.\<close>

definition slot_keys :: "pool \<Rightarrow> jsstring multiset" where
  "slot_keys p = image_mset pr_key (mset (pl_records p)) + image_mset wt_key (mset (pl_connecting p))"

definition slots_ok :: "pool \<Rightarrow> bool" where
  "slots_ok p \<longleftrightarrow>
     (\<forall>k. countOf p k = int (count (slot_keys p) k)) \<and> pl_total p = int (size (slot_keys p)) \<and>
     (\<forall>k. int (count (slot_keys p) k) \<le> pl_maxPerOrigin p) \<and> int (size (slot_keys p)) \<le> pl_maxConnections p \<and>
     1 \<le> pl_maxPerOrigin p \<and> 1 \<le> pl_maxConnections p"

text \<open>A busy connection has exactly one lease that is not released; an idle one has none, a timer and no bytes.\<close>

definition open_leases :: "pool \<Rightarrow> lease list" where
  "open_leases p = filter (\<lambda>l. \<not> le_released l) (pl_leases p)"

definition leases_ok :: "pool \<Rightarrow> bool" where
  "leases_ok p \<longleftrightarrow>
     distinct (map pr_id (pl_records p)) \<and> (\<forall>r\<in>set (pl_records p). pr_id r < pl_nextRecord p) \<and>
     map le_id (pl_leases p) = [0..<length (pl_leases p)] \<and>
     distinct (map le_record (open_leases p)) \<and>
     (\<forall>l\<in>set (pl_leases p). le_record l < pl_nextRecord p) \<and>
     (\<forall>r\<in>set (pl_records p). pr_busy r \<longleftrightarrow> pr_id r \<in> le_record ` set (open_leases p)) \<and>
     (\<not> pl_destroyed p \<longrightarrow> le_record ` set (open_leases p) \<subseteq> pr_id ` set (pl_records p)) \<and>
     (\<forall>r\<in>set (pl_records p). (pr_timer r \<longleftrightarrow> \<not> pr_busy r) \<and> (\<not> pr_busy r \<longrightarrow> pr_buffered r = 0))"

text \<open>No waiter is lost or answered twice.\<close>

definition waiters_ok :: "pool \<Rightarrow> bool" where
  "waiters_ok p \<longleftrightarrow>
     distinct (map wt_id (pl_pending p @ pl_connecting p)) \<and> length (pl_pending p) \<le> pl_maxPending p \<and>
     (\<forall>w\<in>set (pl_pending p @ pl_connecting p). wt_id w < pl_nextWaiter p) \<and>
     (\<forall>i. pl_results p i = None \<longleftrightarrow> pl_nextWaiter p \<le> i \<or> i \<in> wt_id ` set (pl_pending p) \<or>
        (\<exists>w\<in>set (pl_connecting p). wt_id w = i \<and> wt_aborted w = None \<and> \<not> pl_destroyed p)) \<and>
     (\<forall>w\<in>set (pl_pending p). wt_aborted w = None) \<and>
     (\<forall>w\<in>set (pl_connecting p). \<forall>lid. pl_results p (wt_id w) \<noteq> Some (Acquired_Lease lid)) \<and>
     (\<forall>i lid. pl_results p i = Some (Acquired_Lease lid) \<longrightarrow> lid < length (pl_leases p)) \<and>
     (\<forall>lid < length (pl_leases p). \<exists>!i. pl_results p i = Some (Acquired_Lease lid))"

text \<open>What closing and draining leave.\<close>

definition phase_ok :: "pool \<Rightarrow> bool" where
  "phase_ok p \<longleftrightarrow>
     (pl_accepting p \<longleftrightarrow> \<not> pl_destroyed p \<and> pl_drain p = Drain_None) \<and>
     (pl_destroyed p \<longrightarrow> pl_pending p = [] \<and> pl_records p = [] \<and> pl_drain p \<noteq> Drain_Pending) \<and>
     (\<not> pl_accepting p \<longrightarrow> (\<forall>r\<in>set (pl_records p). pr_busy r)) \<and>
     (pl_drain p = Drain_Resolved \<and> \<not> pl_destroyed p \<longrightarrow> pl_pending p = [] \<and> pl_records p = [] \<and> pl_connecting p = [])"

definition pool_inv :: "pool \<Rightarrow> bool" where
  "pool_inv p \<longleftrightarrow> slots_ok p \<and> leases_ok p \<and> waiters_ok p \<and> phase_ok p"

text \<open>A waiter that \<^verbatim>\<open>pump\<close> rightly leaves in the queue.\<close>

definition blocked :: "pool \<Rightarrow> waiter \<Rightarrow> bool" where
  "blocked p w \<longleftrightarrow>
     (\<forall>r\<in>set (pl_records p). pr_key r = wt_key w \<longrightarrow> pr_busy r) \<and>
     (pl_maxPerOrigin p \<le> countOf p (wt_key w) \<or>
      pl_maxConnections p \<le> pl_total p \<and> (\<forall>r\<in>set (pl_records p). pr_busy r))"

text \<open>What holds between events: nobody waits who could be served, and a drain with nothing left has ended.\<close>

definition quiescent :: "pool \<Rightarrow> bool" where
  "quiescent p \<longleftrightarrow>
     (\<forall>w\<in>set (pl_pending p). blocked p w) \<and>
     (pl_drain p = Drain_Pending \<longrightarrow> pl_pending p \<noteq> [] \<or> pl_connecting p \<noteq> [] \<or> pl_records p \<noteq> [])"

end
