(* ===== verification/Connection_Pool_Inv.thy ===== *)
theory Connection_Pool_Inv
  imports Connection_Pool
begin

text \<open>
  The invariant of the connection pool: the accounting of slots, leases and waiters, kept by every
  event, and what it gives about capacity, sharing, waiting and draining.
\<close>

section \<open>Lists of things with an identity\<close>

lemma mset_without:
  assumes "distinct (map f xs)" and "x \<in> set xs"
  shows "mset xs = add_mset x (mset (filter (\<lambda>y. f y \<noteq> f x) xs))"
  using assms
proof (induction xs)
  case (Cons y ys)
  show ?case
  proof (cases "y = x")
    case True
    then have "f x \<notin> f ` set ys" using Cons.prems(1) by simp
    then have "\<forall>z\<in>set ys. f z \<noteq> f x" by (metis image_eqI)
    then have "filter (\<lambda>z. f z \<noteq> f x) ys = ys" by simp
    then show ?thesis using True by simp
  next
    case False
    then have "x \<in> set ys" using Cons.prems(2) by simp
    moreover from this have "f y \<noteq> f x" using Cons.prems(1) by (metis distinct.simps(2) image_eqI list.set_map list.simps(9))
    ultimately show ?thesis using Cons by (simp add: add_mset_commute)
  qed
qed simp

lemma image_mset_without:
  assumes "distinct (map f xs)" and "x \<in> set xs"
  shows "image_mset g (mset xs) = add_mset (g x) (image_mset g (mset (filter (\<lambda>y. f y \<noteq> f x) xs)))"
  using arg_cong [OF mset_without [OF assms], of "image_mset g"] by (simp only: image_mset_add_mset)

lemma find_Some_iff_mem: "List.find P xs = Some x \<Longrightarrow> x \<in> set xs \<and> P x"
  by (auto simp: find_Some_iff)

lemma find_None_all: "List.find P xs = None \<Longrightarrow> \<forall>x\<in>set xs. \<not> P x"
  by (auto simp: find_None_iff)

lemma same_id_eq: "distinct (map f xs) \<Longrightarrow> x \<in> set xs \<Longrightarrow> y \<in> set xs \<Longrightarrow> f x = f y \<longleftrightarrow> x = y"
  by (auto simp: distinct_map inj_on_def)

lemma map_update_id: "(\<And>x. g (h x) = g x) \<Longrightarrow> map g (map (\<lambda>x. if P x then h x else x) xs) = map g xs"
  by simp

lemma distinct_map_filter_id: "distinct (map f xs) \<Longrightarrow> distinct (map f (filter P xs))"
  by (rule distinct_map_filter)

section \<open>Reading a state after an operation\<close>

lemma countOf_change [simp]:
  "countOf (changeCount k d p) j = countOf p j + (if j = k then d else 0)"
  by (simp add: countOf_def changeCount_def Let_def js_or_else_def)

lemma changeCount_fields [simp]:
  "pl_total (changeCount k d p) = pl_total p + d"
  "pl_maxConnections (changeCount k d p) = pl_maxConnections p" "pl_maxPerOrigin (changeCount k d p) = pl_maxPerOrigin p"
  "pl_maxPending (changeCount k d p) = pl_maxPending p" "pl_idleTimeoutMs (changeCount k d p) = pl_idleTimeoutMs p"
  "pl_records (changeCount k d p) = pl_records p" "pl_pending (changeCount k d p) = pl_pending p"
  "pl_connecting (changeCount k d p) = pl_connecting p" "pl_accepting (changeCount k d p) = pl_accepting p"
  "pl_destroyed (changeCount k d p) = pl_destroyed p" "pl_drain (changeCount k d p) = pl_drain p"
  "pl_results (changeCount k d p) = pl_results p" "pl_leases (changeCount k d p) = pl_leases p"
  "pl_nextWaiter (changeCount k d p) = pl_nextWaiter p" "pl_nextRecord (changeCount k d p) = pl_nextRecord p"
  by (simp_all add: changeCount_def Let_def)

lemma countOf_cong [simp]:
  "countOf (pl_records_update f p) = countOf p" "countOf (pl_pending_update g p) = countOf p"
  "countOf (pl_connecting_update g p) = countOf p" "countOf (pl_shut_update h p) = countOf p"
  "countOf (pl_results_update j p) = countOf p" "countOf (pl_leases_update l p) = countOf p"
  "countOf (pl_nextRecord_update m p) = countOf p" "countOf (pl_nextWaiter_update m p) = countOf p"
  "countOf (pl_accepting_update b p) = countOf p" "countOf (pl_destroyed_update b p) = countOf p"
  "countOf (pl_drain_update d p) = countOf p"
  by (simp_all add: countOf_def fun_eq_iff)

lemmas pool_ops = settleWaiter_def rejectWaiter_def grantLease_def appendPending_def removePending_def setRecord_def
  deleteConnecting_def markReleased_def settled_def Let_def

lemma settle_fields [simp]:
  "pl_maxConnections (settleWaiter w x p) = pl_maxConnections p" "pl_maxPerOrigin (settleWaiter w x p) = pl_maxPerOrigin p"
  "pl_maxPending (settleWaiter w x p) = pl_maxPending p" "pl_idleTimeoutMs (settleWaiter w x p) = pl_idleTimeoutMs p"
  "pl_records (settleWaiter w x p) = pl_records p" "pl_pending (settleWaiter w x p) = pl_pending p"
  "pl_connecting (settleWaiter w x p) = pl_connecting p" "pl_accepting (settleWaiter w x p) = pl_accepting p"
  "pl_destroyed (settleWaiter w x p) = pl_destroyed p" "pl_drain (settleWaiter w x p) = pl_drain p"
  "pl_leases (settleWaiter w x p) = pl_leases p" "pl_total (settleWaiter w x p) = pl_total p"
  "pl_nextWaiter (settleWaiter w x p) = pl_nextWaiter p" "pl_nextRecord (settleWaiter w x p) = pl_nextRecord p"
  "countOf (settleWaiter w x p) = countOf p"
  "pl_results (settleWaiter w x p) = (if pl_results p (wt_id w) = None then (pl_results p)(wt_id w := Some x) else pl_results p)"
  by (simp_all add: settleWaiter_def settled_def)

lemmas pool_fields = removePending_def appendPending_def setRecord_def deleteConnecting_def markReleased_def
  grantLease_def rejectWaiter_def Let_def

lemma dropRecord_member:
  "r \<in> set (pl_records p) \<Longrightarrow>
     dropRecord r p = changeCount (pr_key r) (- 1)
       (p\<lparr>pl_records := filter (\<lambda>q. pr_id q \<noteq> pr_id r) (pl_records p), pl_shut := pl_shut p @ [pr_id r]\<rparr>)"
  by (auto simp: dropRecord_def list_ex_iff)

section \<open>Slots\<close>

definition same_caps :: "pool \<Rightarrow> pool \<Rightarrow> bool" where
  "same_caps p q \<longleftrightarrow> pl_maxConnections q = pl_maxConnections p \<and> pl_maxPerOrigin q = pl_maxPerOrigin p"

lemma slots_same:
  "slots_ok p \<Longrightarrow> same_caps p q \<Longrightarrow> slot_keys q = slot_keys p \<Longrightarrow> countOf q = countOf p \<Longrightarrow> pl_total q = pl_total p \<Longrightarrow>
     slots_ok q"
  by (simp add: slots_ok_def same_caps_def)

lemma slots_less:
  assumes "slots_ok p" "same_caps p q" "slot_keys p = add_mset k (slot_keys q)"
    and "\<And>j. countOf q j = countOf p j - (if j = k then 1 else 0)" "pl_total q = pl_total p - 1"
  shows "slots_ok q"
proof -
  have "int (count (slot_keys q) j) \<le> pl_maxPerOrigin q" for j
  proof -
    have "count (slot_keys q) j \<le> count (slot_keys p) j" by (simp add: assms(3))
    moreover have "int (count (slot_keys p) j) \<le> pl_maxPerOrigin q"
      using assms(1,2) by (simp add: slots_ok_def same_caps_def)
    ultimately show ?thesis by linarith
  qed
  then show ?thesis
    using assms by (auto simp: slots_ok_def same_caps_def)
qed

lemma slots_more:
  assumes "slots_ok p" "same_caps p q" "slot_keys q = add_mset k (slot_keys p)"
    and "\<And>j. countOf q j = countOf p j + (if j = k then 1 else 0)" "pl_total q = pl_total p + 1"
    and "countOf p k < pl_maxPerOrigin p" "pl_total p < pl_maxConnections p"
  shows "slots_ok q"
  using assms by (auto simp: slots_ok_def same_caps_def)

lemma slot_keys_without_record:
  assumes "leases_ok p" "r \<in> set (pl_records p)" "pl_records q = filter (\<lambda>s. pr_id s \<noteq> pr_id r) (pl_records p)"
    "pl_connecting q = pl_connecting p"
  shows "slot_keys p = add_mset (pr_key r) (slot_keys q)"
proof -
  have "distinct (map pr_id (pl_records p))" using assms(1) by (simp add: leases_ok_def)
  from image_mset_without [OF this assms(2), of pr_key] assms(3,4) show ?thesis by (simp only: slot_keys_def union_mset_add_mset_left)
qed

lemma slot_keys_without_connecting:
  assumes "waiters_ok p" "w \<in> set (pl_connecting p)" "pl_connecting q = filter (\<lambda>s. wt_id s \<noteq> wt_id w) (pl_connecting p)"
    "pl_records q = pl_records p"
  shows "slot_keys p = add_mset (wt_key w) (slot_keys q)"
proof -
  have "distinct (map wt_id (pl_connecting p))" using assms(1) by (simp add: waiters_ok_def)
  from image_mset_without [OF this assms(2), of wt_key] assms(3,4) show ?thesis by (simp only: slot_keys_def union_mset_add_mset_right)
qed

section \<open>Leases\<close>

lemma leases_cong:
  assumes "leases_ok p" "pl_records q = pl_records p" "pl_leases q = pl_leases p" "pl_nextRecord p \<le> pl_nextRecord q"
    "pl_destroyed p \<longrightarrow> pl_destroyed q"
  shows "leases_ok q"
proof -
  have "open_leases q = open_leases p" by (simp add: open_leases_def assms(3))
  moreover have "\<forall>r\<in>set (pl_records p). pr_id r < pl_nextRecord q" "\<forall>l\<in>set (pl_leases p). le_record l < pl_nextRecord q"
    using assms(1,4) by (auto simp: leases_ok_def)
  ultimately show ?thesis
    using assms(1-3,5) unfolding leases_ok_def by (simp only:) blast
qed

lemma leases_drop_idle:
  assumes "leases_ok p" "r \<in> set (pl_records p)" "\<not> pr_busy r \<or> pl_destroyed p"
    and q: "pl_records q = filter (\<lambda>s. pr_id s \<noteq> pr_id r) (pl_records p)" "pl_leases q = pl_leases p"
    "pl_nextRecord q = pl_nextRecord p" "pl_destroyed q = pl_destroyed p"
  shows "leases_ok q"
proof -
  have o: "open_leases q = open_leases p" by (simp add: open_leases_def q)
  have d: "distinct (map pr_id (pl_records q))"
    using assms(1) by (simp add: q leases_ok_def distinct_map_filter_id)
  have "le_record ` set (open_leases p) \<subseteq> pr_id ` set (pl_records q)" if "\<not> pl_destroyed p"
  proof
    fix i
    assume i: "i \<in> le_record ` set (open_leases p)"
    then have "i \<in> pr_id ` set (pl_records p)" using assms(1) that by (auto simp: leases_ok_def)
    then obtain s where s: "s \<in> set (pl_records p)" "pr_id s = i" by blast
    moreover have "i \<noteq> pr_id r"
    proof -
      have "pr_busy r \<longleftrightarrow> pr_id r \<in> le_record ` set (open_leases p)" using assms(1,2) unfolding leases_ok_def by blast
      then show ?thesis using assms(3) i that by metis
    qed
    ultimately show "i \<in> pr_id ` set (pl_records q)" by (auto simp: q)
  qed
  then show ?thesis
    using assms(1) d unfolding leases_ok_def o q by simp
qed

lemma filter_mark:
  "filter (\<lambda>m. \<not> le_released m) (map (\<lambda>m. if le_id m = i then m\<lparr>le_released := True\<rparr> else m) ls) =
     filter (\<lambda>m. le_id m \<noteq> i) (filter (\<lambda>m. \<not> le_released m) ls)"
  by (induction ls) simp_all

lemma open_leases_mark:
  assumes "leases_ok p" "l \<in> set (pl_leases p)" "\<not> le_released l"
  shows "open_leases (markReleased (le_id l) p) = filter (\<lambda>m. le_id m \<noteq> le_id l) (open_leases p)"
    and "le_record ` set (open_leases (markReleased (le_id l) p)) = le_record ` set (open_leases p) - {le_record l}"
    and "le_record l \<in> le_record ` set (open_leases p)"
proof -
  have d: "distinct (map le_id (pl_leases p))" using assms(1) by (simp add: leases_ok_def)
  show e: "open_leases (markReleased (le_id l) p) = filter (\<lambda>m. le_id m \<noteq> le_id l) (open_leases p)"
    by (simp add: open_leases_def markReleased_def filter_mark)
  show "le_record l \<in> le_record ` set (open_leases p)" using assms(2,3) by (simp add: open_leases_def)
  have dr: "distinct (map le_record (open_leases p))" using assms(1) by (simp add: leases_ok_def)
  have l: "l \<in> set (open_leases p)" using assms(2,3) by (simp add: open_leases_def)
  have "m \<in> set (open_leases p) \<Longrightarrow> le_id m = le_id l \<longleftrightarrow> m = l" for m
    using same_id_eq [OF d] assms(2) by (auto simp: open_leases_def)
  moreover have "m \<in> set (open_leases p) \<Longrightarrow> le_record m = le_record l \<longleftrightarrow> m = l" for m
    using same_id_eq [OF dr _ l] by auto
  ultimately show "le_record ` set (open_leases (markReleased (le_id l) p)) = le_record ` set (open_leases p) - {le_record l}"
    unfolding e by auto
qed

lemma leases_okD:
  assumes "leases_ok p"
  shows "distinct (map pr_id (pl_records p))" and "r \<in> set (pl_records p) \<Longrightarrow> pr_id r < pl_nextRecord p"
    and "map le_id (pl_leases p) = [0..<length (pl_leases p)]" and "distinct (map le_record (open_leases p))"
    and "l \<in> set (pl_leases p) \<Longrightarrow> le_record l < pl_nextRecord p"
    and "r \<in> set (pl_records p) \<Longrightarrow> pr_busy r \<longleftrightarrow> pr_id r \<in> le_record ` set (open_leases p)"
    and "\<not> pl_destroyed p \<Longrightarrow> le_record ` set (open_leases p) \<subseteq> pr_id ` set (pl_records p)"
    and "r \<in> set (pl_records p) \<Longrightarrow> pr_timer r \<longleftrightarrow> \<not> pr_busy r"
    and "r \<in> set (pl_records p) \<Longrightarrow> \<not> pr_busy r \<Longrightarrow> pr_buffered r = 0"
  using assms unfolding leases_ok_def by (simp only:, blast?)+

lemma leases_okI:
  assumes "distinct (map pr_id (pl_records p))" "\<And>r. r \<in> set (pl_records p) \<Longrightarrow> pr_id r < pl_nextRecord p"
    "map le_id (pl_leases p) = [0..<length (pl_leases p)]" "distinct (map le_record (open_leases p))"
    "\<And>l. l \<in> set (pl_leases p) \<Longrightarrow> le_record l < pl_nextRecord p"
    "\<And>r. r \<in> set (pl_records p) \<Longrightarrow> pr_busy r \<longleftrightarrow> pr_id r \<in> le_record ` set (open_leases p)"
    "\<not> pl_destroyed p \<Longrightarrow> le_record ` set (open_leases p) \<subseteq> pr_id ` set (pl_records p)"
    "\<And>r. r \<in> set (pl_records p) \<Longrightarrow> (pr_timer r \<longleftrightarrow> \<not> pr_busy r) \<and> (\<not> pr_busy r \<longrightarrow> pr_buffered r = 0)"
  shows "leases_ok p"
  using assms unfolding leases_ok_def by (intro conjI ballI impI) simp_all

definition newLease :: "nat \<Rightarrow> pool \<Rightarrow> lease" where
  "newLease rid p = \<lparr>le_id = length (pl_leases p), le_record = rid, le_released = False\<rparr>"

lemma open_leases_append:
  "pl_leases q = pl_leases p @ [newLease rid p] \<Longrightarrow> open_leases q = open_leases p @ [newLease rid p]"
  by (simp add: open_leases_def newLease_def)

lemma leases_grant:
  assumes ok: "leases_ok p" and r: "r \<in> set (pl_records p)" "\<not> pr_busy r"
    and q: "pl_records q = map (\<lambda>s. if pr_id s = pr_id r then s\<lparr>pr_busy := True, pr_timer := False\<rparr> else s) (pl_records p)"
    "pl_leases q = pl_leases p @ [newLease (pr_id r) p]" "pl_nextRecord q = pl_nextRecord p" "pl_destroyed q = pl_destroyed p"
  shows "leases_ok q"
proof (rule leases_okI)
  note D = leases_okD [OF ok]
  have o: "open_leases q = open_leases p @ [newLease (pr_id r) p]" by (rule open_leases_append [OF q(2)])
  have n: "pr_id r \<notin> le_record ` set (open_leases p)" using D(6) r by blast
  have ids: "map pr_id (pl_records q) = map pr_id (pl_records p)" by (simp add: q(1))
  show "distinct (map pr_id (pl_records q))" using D(1) by (simp add: ids)
  show "pr_id s < pl_nextRecord q" if "s \<in> set (pl_records q)" for s
    using that D(2) D(2) [OF r(1)] by (auto simp: q split: if_splits)
  show "map le_id (pl_leases q) = [0..<length (pl_leases q)]" by (simp add: q(2) D(3) newLease_def)
  show "distinct (map le_record (open_leases q))" using D(4) n by (simp add: o newLease_def)
  show "le_record l < pl_nextRecord q" if "l \<in> set (pl_leases q)" for l
    using that D(5) D(2) [OF r(1)] by (auto simp: q newLease_def)
  show "pr_busy s \<longleftrightarrow> pr_id s \<in> le_record ` set (open_leases q)" if "s \<in> set (pl_records q)" for s
  proof -
    obtain t where t: "t \<in> set (pl_records p)" "s = (if pr_id t = pr_id r then t\<lparr>pr_busy := True, pr_timer := False\<rparr> else t)"
      using \<open>s \<in> set (pl_records q)\<close> by (auto simp: q)
    show ?thesis using D(6) [OF t(1)] by (simp add: t(2) o newLease_def)
  qed
  have "set (map pr_id (pl_records q)) = set (map pr_id (pl_records p))" by (simp only: ids)
  then show "le_record ` set (open_leases q) \<subseteq> pr_id ` set (pl_records q)" if "\<not> pl_destroyed q"
    using D(7) that r(1) q(4) by (simp add: o newLease_def)
  show "(pr_timer s \<longleftrightarrow> \<not> pr_busy s) \<and> (\<not> pr_busy s \<longrightarrow> pr_buffered s = 0)" if "s \<in> set (pl_records q)" for s
    using that D(8,9) by (auto simp: q split: if_splits)
qed

lemma leases_new:
  assumes ok: "leases_ok p" and s: "pr_id s = pl_nextRecord p" "pr_busy s" "\<not> pr_timer s"
    and q: "pl_records q = pl_records p @ [s]" "pl_leases q = pl_leases p @ [newLease (pl_nextRecord p) p]"
    "pl_nextRecord q = pl_nextRecord p + 1" "pl_destroyed q = pl_destroyed p"
  shows "leases_ok q"
proof (rule leases_okI)
  note D = leases_okD [OF ok]
  have o: "open_leases q = open_leases p @ [newLease (pl_nextRecord p) p]" by (rule open_leases_append [OF q(2)])
  have n: "pl_nextRecord p \<notin> le_record ` set (open_leases p)" using D(5) by (fastforce simp: open_leases_def)
  have n': "pl_nextRecord p \<notin> pr_id ` set (pl_records p)" using D(2) by fastforce
  show "distinct (map pr_id (pl_records q))" using D(1) n' by (simp add: q s)
  show "pr_id t < pl_nextRecord q" if "t \<in> set (pl_records q)" for t using that D(2) [of t] by (auto simp: q s)
  show "map le_id (pl_leases q) = [0..<length (pl_leases q)]" by (simp add: q(2) D(3) newLease_def)
  show "distinct (map le_record (open_leases q))" using D(4) n by (simp add: o newLease_def)
  show "le_record l < pl_nextRecord q" if "l \<in> set (pl_leases q)" for l
    using that D(5) [of l] by (auto simp: q newLease_def)
  show "pr_busy t \<longleftrightarrow> pr_id t \<in> le_record ` set (open_leases q)" if "t \<in> set (pl_records q)" for t
    using that D(6) [of t] D(2) [of t] s by (auto simp: q o newLease_def)
  show "le_record ` set (open_leases q) \<subseteq> pr_id ` set (pl_records q)" if "\<not> pl_destroyed q"
    using D(7) that by (auto simp: o newLease_def q s)
  show "(pr_timer t \<longleftrightarrow> \<not> pr_busy t) \<and> (\<not> pr_busy t \<longrightarrow> pr_buffered t = 0)" if "t \<in> set (pl_records q)" for t
    using that D(8,9) s by (auto simp: q)
qed

lemma leases_idle:
  assumes ok: "leases_ok p" and l: "l \<in> set (pl_leases p)" "\<not> le_released l"
    and r: "r \<in> set (pl_records p)" "pr_id r = le_record l" "pr_buffered r = 0"
    and q: "pl_records q = map (\<lambda>s. if pr_id s = pr_id r then s\<lparr>pr_busy := False, pr_timer := True\<rparr> else s) (pl_records p)"
    "pl_leases q = pl_leases (markReleased (le_id l) p)" "pl_nextRecord q = pl_nextRecord p" "pl_destroyed q = pl_destroyed p"
  shows "leases_ok q"
proof (rule leases_okI)
  note D = leases_okD [OF ok] and M = open_leases_mark [OF ok l]
  have o: "open_leases q = open_leases (markReleased (le_id l) p)" by (simp add: open_leases_def q)
  have ids: "map pr_id (pl_records q) = map pr_id (pl_records p)" by (simp add: q(1))
  show "distinct (map pr_id (pl_records q))" using D(1) by (simp add: ids)
  show "pr_id s < pl_nextRecord q" if "s \<in> set (pl_records q)" for s
    using that D(2) D(2) [OF r(1)] by (auto simp: q split: if_splits)
  show "map le_id (pl_leases q) = [0..<length (pl_leases q)]"
    using D(3) by (simp add: q(2) markReleased_def o_def if_distrib cong: if_cong)
  show "distinct (map le_record (open_leases q))" using D(4) by (simp add: o M(1) distinct_map_filter_id)
  show "le_record m < pl_nextRecord q" if "m \<in> set (pl_leases q)" for m
    using that D(5) by (auto simp: q markReleased_def split: if_splits)
  show "pr_busy s \<longleftrightarrow> pr_id s \<in> le_record ` set (open_leases q)" if "s \<in> set (pl_records q)" for s
  proof -
    obtain t where t: "t \<in> set (pl_records p)" "s = (if pr_id t = pr_id r then t\<lparr>pr_busy := False, pr_timer := True\<rparr> else t)"
      using \<open>s \<in> set (pl_records q)\<close> by (auto simp: q)
    show ?thesis using D(6) [OF t(1)] by (simp add: t(2) o M(2) r(2))
  qed
  have "set (map pr_id (pl_records q)) = set (map pr_id (pl_records p))" by (simp only: ids)
  then show "le_record ` set (open_leases q) \<subseteq> pr_id ` set (pl_records q)" if "\<not> pl_destroyed q"
    using D(7) that q(4) by (auto simp: o M(2))
  show "(pr_timer s \<longleftrightarrow> \<not> pr_busy s) \<and> (\<not> pr_busy s \<longrightarrow> pr_buffered s = 0)" if "s \<in> set (pl_records q)" for s
  proof -
    obtain t where t: "t \<in> set (pl_records p)" "s = (if pr_id t = pr_id r then t\<lparr>pr_busy := False, pr_timer := True\<rparr> else t)"
      using \<open>s \<in> set (pl_records q)\<close> by (auto simp: q)
    show ?thesis using D(8,9) [OF t(1)] same_id_eq [OF D(1) t(1) r(1)] r(3) by (auto simp: t(2))
  qed
qed

lemma leases_give_up:
  assumes ok: "leases_ok p" and l: "l \<in> set (pl_leases p)" "\<not> le_released l"
    and q: "pl_records q = filter (\<lambda>s. pr_id s \<noteq> le_record l) (pl_records p)"
    "pl_leases q = pl_leases (markReleased (le_id l) p)" "pl_nextRecord q = pl_nextRecord p" "pl_destroyed q = pl_destroyed p"
  shows "leases_ok q"
proof (rule leases_okI)
  note D = leases_okD [OF ok] and M = open_leases_mark [OF ok l]
  have o: "open_leases q = open_leases (markReleased (le_id l) p)" by (simp add: open_leases_def q)
  show "distinct (map pr_id (pl_records q))" using D(1) by (simp add: q distinct_map_filter_id)
  show "pr_id s < pl_nextRecord q" if "s \<in> set (pl_records q)" for s using that D(2) by (auto simp: q)
  show "map le_id (pl_leases q) = [0..<length (pl_leases q)]"
    using D(3) by (simp add: q(2) markReleased_def o_def if_distrib cong: if_cong)
  show "distinct (map le_record (open_leases q))" using D(4) by (simp add: o M(1) distinct_map_filter_id)
  show "le_record m < pl_nextRecord q" if "m \<in> set (pl_leases q)" for m
    using that D(5) by (auto simp: q markReleased_def split: if_splits)
  show "pr_busy s \<longleftrightarrow> pr_id s \<in> le_record ` set (open_leases q)" if "s \<in> set (pl_records q)" for s
    using that D(6) [of s] by (auto simp: o M(2) q)
  show "le_record ` set (open_leases q) \<subseteq> pr_id ` set (pl_records q)" if "\<not> pl_destroyed q"
  proof
    fix i
    assume i: "i \<in> le_record ` set (open_leases q)"
    then have "i \<in> pr_id ` set (pl_records p)" "i \<noteq> le_record l" using D(7) that by (auto simp: o M(2) q(4))
    then show "i \<in> pr_id ` set (pl_records q)" by (auto simp: q)
  qed
  show "(pr_timer s \<longleftrightarrow> \<not> pr_busy s) \<and> (\<not> pr_busy s \<longrightarrow> pr_buffered s = 0)" if "s \<in> set (pl_records q)" for s
    using that D(8,9) by (auto simp: q)
qed

lemma leases_update:
  assumes ok: "leases_ok p"
    and f: "\<And>s. pr_id (f s) = pr_id s" "\<And>s. pr_busy (f s) = pr_busy s" "\<And>s. pr_timer (f s) = pr_timer s"
      "\<And>s. \<not> pr_busy s \<Longrightarrow> pr_buffered (f s) = pr_buffered s"
    and q: "pl_records q = map f (pl_records p)" "pl_leases q = pl_leases p" "pl_nextRecord q = pl_nextRecord p"
      "pl_destroyed q = pl_destroyed p"
  shows "leases_ok q"
proof -
  have o: "open_leases q = open_leases p" by (simp add: open_leases_def q)
  have i: "map pr_id (pl_records q) = map pr_id (pl_records p)" "pr_id ` set (pl_records q) = pr_id ` set (pl_records p)"
    using f(1) by (simp_all add: q image_image)
  have c: "pr_id \<circ> f = pr_id" using f(1) by auto
  show ?thesis
    by (rule leases_okI) (use leases_okD [OF ok] f in \<open>auto simp: c image_image o q\<close>)
qed

section \<open>Waiters\<close>

lemma waiters_okD:
  assumes "waiters_ok p"
  shows "distinct (map wt_id (pl_pending p @ pl_connecting p))" and "length (pl_pending p) \<le> pl_maxPending p"
    and "w \<in> set (pl_pending p @ pl_connecting p) \<Longrightarrow> wt_id w < pl_nextWaiter p"
    and "pl_results p i = None \<longleftrightarrow> pl_nextWaiter p \<le> i \<or> i \<in> wt_id ` set (pl_pending p) \<or>
        (\<exists>w\<in>set (pl_connecting p). wt_id w = i \<and> wt_aborted w = None \<and> \<not> pl_destroyed p)"
    and "w \<in> set (pl_pending p) \<Longrightarrow> wt_aborted w = None"
    and "w \<in> set (pl_connecting p) \<Longrightarrow> pl_results p (wt_id w) \<noteq> Some (Acquired_Lease lid)"
    and "pl_results p i = Some (Acquired_Lease lid) \<Longrightarrow> lid < length (pl_leases p)"
    and "lid < length (pl_leases p) \<Longrightarrow> \<exists>!i. pl_results p i = Some (Acquired_Lease lid)"
  using assms unfolding waiters_ok_def by (simp only:, blast?)+

lemma waiters_okI:
  assumes "distinct (map wt_id (pl_pending p @ pl_connecting p))" "length (pl_pending p) \<le> pl_maxPending p"
    "\<And>w. w \<in> set (pl_pending p @ pl_connecting p) \<Longrightarrow> wt_id w < pl_nextWaiter p"
    "\<And>i. pl_results p i = None \<longleftrightarrow> pl_nextWaiter p \<le> i \<or> i \<in> wt_id ` set (pl_pending p) \<or>
        (\<exists>w\<in>set (pl_connecting p). wt_id w = i \<and> wt_aborted w = None \<and> \<not> pl_destroyed p)"
    "\<And>w. w \<in> set (pl_pending p) \<Longrightarrow> wt_aborted w = None"
    "\<And>w lid. w \<in> set (pl_connecting p) \<Longrightarrow> pl_results p (wt_id w) \<noteq> Some (Acquired_Lease lid)"
    "\<And>i lid. pl_results p i = Some (Acquired_Lease lid) \<Longrightarrow> lid < length (pl_leases p)"
    "\<And>lid. lid < length (pl_leases p) \<Longrightarrow> \<exists>!i. pl_results p i = Some (Acquired_Lease lid)"
  shows "waiters_ok p"
  using assms unfolding waiters_ok_def by (intro conjI ballI allI impI) (simp only:; blast)+

definition same_waiting :: "pool \<Rightarrow> pool \<Rightarrow> bool" where
  "same_waiting p q \<longleftrightarrow> pl_maxPending q = pl_maxPending p \<and> pl_nextWaiter q = pl_nextWaiter p \<and> pl_destroyed q = pl_destroyed p"

lemma waiters_cong:
  assumes ok: "waiters_ok p" and q: "same_waiting p q" "pl_pending q = pl_pending p" "pl_connecting q = pl_connecting p"
    "pl_results q = pl_results p" "length (pl_leases q) = length (pl_leases p)"
  shows "waiters_ok q"
proof -
  have "pl_maxPending q = pl_maxPending p" "pl_nextWaiter q = pl_nextWaiter p" "pl_destroyed q = pl_destroyed p"
    using q(1) by (simp_all add: same_waiting_def)
  then have "waiters_ok q = waiters_ok p" by (simp only: waiters_ok_def q(2-))
  then show ?thesis using ok by simp
qed

text \<open>The members of a list without one, and their identities.\<close>

lemma without_ids:
  assumes "distinct (map f xs)" "x \<in> set xs"
  shows "f ` set (filter (\<lambda>y. f y \<noteq> f x) xs) = f ` set xs - {f x}"
  by auto

lemma waiter_ids:
  assumes ok: "waiters_ok p"
  shows "w \<in> set (pl_pending p) \<Longrightarrow> v \<in> set (pl_pending p) \<Longrightarrow> wt_id v = wt_id w \<longleftrightarrow> v = w"
    and "w \<in> set (pl_connecting p) \<Longrightarrow> v \<in> set (pl_connecting p) \<Longrightarrow> wt_id v = wt_id w \<longleftrightarrow> v = w"
    and "w \<in> set (pl_pending p) \<Longrightarrow> v \<in> set (pl_connecting p) \<Longrightarrow> wt_id v \<noteq> wt_id w"
proof -
  have d: "distinct (map wt_id (pl_pending p))" "distinct (map wt_id (pl_connecting p))"
    "wt_id ` set (pl_pending p) \<inter> wt_id ` set (pl_connecting p) = {}"
    using waiters_okD(1) [OF ok] by auto
  show "w \<in> set (pl_pending p) \<Longrightarrow> v \<in> set (pl_pending p) \<Longrightarrow> wt_id v = wt_id w \<longleftrightarrow> v = w"
    using same_id_eq [OF d(1)] by metis
  show "w \<in> set (pl_connecting p) \<Longrightarrow> v \<in> set (pl_connecting p) \<Longrightarrow> wt_id v = wt_id w \<longleftrightarrow> v = w"
    using same_id_eq [OF d(2)] by metis
  show "w \<in> set (pl_pending p) \<Longrightarrow> v \<in> set (pl_connecting p) \<Longrightarrow> wt_id v \<noteq> wt_id w"
    using d(3) by (metis IntI empty_iff imageI)
qed

lemma waiters_enqueue:
  assumes ok: "waiters_ok p" and w: "wt_id w = pl_nextWaiter p" "wt_aborted w = None"
    and q: "pl_pending q = pl_pending p @ [w]" "pl_connecting q = pl_connecting p" "pl_results q = pl_results p"
      "pl_leases q = pl_leases p" "pl_nextWaiter q = pl_nextWaiter p + 1" "pl_destroyed q = pl_destroyed p"
      "pl_maxPending q = pl_maxPending p" "length (pl_pending p) < pl_maxPending p"
  shows "waiters_ok q"
proof (rule waiters_okI)
  note D = waiters_okD [OF ok]
  have n: "pl_nextWaiter p \<notin> wt_id ` set (pl_pending p @ pl_connecting p)" using D(3) by fastforce
  show "distinct (map wt_id (pl_pending q @ pl_connecting q))" using D(1) n w by (auto simp: q)
  show "pl_results q i = None \<longleftrightarrow> pl_nextWaiter q \<le> i \<or> i \<in> wt_id ` set (pl_pending q) \<or>
        (\<exists>w\<in>set (pl_connecting q). wt_id w = i \<and> wt_aborted w = None \<and> \<not> pl_destroyed q)" for i
    unfolding q D(4) using w n by auto
  show "v \<in> set (pl_pending q @ pl_connecting q) \<Longrightarrow> wt_id v < pl_nextWaiter q" for v
    using D(3) [of v] w by (auto simp: q)
qed (use waiters_okD [OF ok] q w in auto)

text \<open>A waiter leaves the queue or the connections being opened, its promise settled with \<open>x\<close>.\<close>

lemma waiters_leave:
  assumes ok: "waiters_ok p"
    and w: "w \<in> set (pl_pending p) \<or> w \<in> set (pl_connecting p)"
    and q: "pl_pending q = filter (\<lambda>v. wt_id v \<noteq> wt_id w) (pl_pending p)"
      "pl_connecting q = filter (\<lambda>v. wt_id v \<noteq> wt_id w) (pl_connecting p)" "same_waiting p q"
      "pl_results q = (if pl_results p (wt_id w) = None then (pl_results p)(wt_id w := Some x) else pl_results p)"
    and x: "case x of Acquired_Lease lid \<Rightarrow> lid = length (pl_leases p) \<and> length (pl_leases q) = lid + 1 \<and> pl_results p (wt_id w) = None
            | Acquire_Rejected e \<Rightarrow> length (pl_leases q) = length (pl_leases p)"
  shows "waiters_ok q"
proof (rule waiters_okI)
  note D = waiters_okD [OF ok]
  have q': "pl_maxPending q = pl_maxPending p" "pl_nextWaiter q = pl_nextWaiter p" "pl_destroyed q = pl_destroyed p"
    using q(3) by (simp_all add: same_waiting_def)
  have lt: "wt_id w < pl_nextWaiter p" using D(3) [of w] w by auto
  show "distinct (map wt_id (pl_pending q @ pl_connecting q))"
    using D(1) by (auto simp: q(1,2) distinct_map_filter_id)
  show "length (pl_pending q) \<le> pl_maxPending q" using D(2) by (simp add: q(1) q') (meson le_trans length_filter_le)
  show "v \<in> set (pl_pending q @ pl_connecting q) \<Longrightarrow> wt_id v < pl_nextWaiter q" for v
    using D(3) [of v] by (auto simp: q(1,2) q')
  show "pl_results q i = None \<longleftrightarrow> pl_nextWaiter q \<le> i \<or> i \<in> wt_id ` set (pl_pending q) \<or>
        (\<exists>w\<in>set (pl_connecting q). wt_id w = i \<and> wt_aborted w = None \<and> \<not> pl_destroyed q)" for i
  proof (cases "i = wt_id w")
    case True
    then show ?thesis using lt by (auto simp: q(1,2,4) q')
  next
    case False
    have "pl_results q i = pl_results p i" using False by (simp add: q(4))
    then show ?thesis using D(4) [of i] False by (auto simp: q(1,2) q')
  qed
  show "v \<in> set (pl_pending q) \<Longrightarrow> wt_aborted v = None" for v using D(5) by (simp add: q(1))
  show "pl_results q (wt_id v) \<noteq> Some (Acquired_Lease lid)" if "v \<in> set (pl_connecting q)" for v lid
    using that D(6) [of v lid] by (simp add: q(2,4))
  show "pl_results q i = Some (Acquired_Lease lid) \<Longrightarrow> lid < length (pl_leases q)" for i lid
    using D(7) [of i lid] x by (auto simp: q(4) split: if_splits acquired.splits)
  show "\<exists>!i. pl_results q i = Some (Acquired_Lease lid)" if "lid < length (pl_leases q)" for lid
  proof (cases x)
    case (Acquire_Rejected e)
    then have "pl_results q i = Some (Acquired_Lease lid) \<longleftrightarrow> pl_results p i = Some (Acquired_Lease lid)" for i
      by (auto simp: q(4))
    then show ?thesis using D(8) [of lid] that x Acquire_Rejected by simp
  next
    case (Acquired_Lease n)
    then have n: "n = length (pl_leases p)" "length (pl_leases q) = n + 1" "pl_results p (wt_id w) = None" using x by simp_all
    have r: "pl_results q i = Some (Acquired_Lease lid) \<longleftrightarrow>
        (if i = wt_id w then lid = n else pl_results p i = Some (Acquired_Lease lid))" for i
      using n(3) Acquired_Lease by (auto simp: q(4))
    show ?thesis
    proof (cases "lid = n")
      case True
      then have "pl_results p i \<noteq> Some (Acquired_Lease lid)" for i using D(7) [of i lid] n(1) by blast
      then show ?thesis unfolding r using True by auto
    next
      case False
      then have "\<exists>!i. pl_results p i = Some (Acquired_Lease lid)" using D(8) [of lid] that n by simp
      moreover have "pl_results p (wt_id w) \<noteq> Some (Acquired_Lease lid)" using n(3) by simp
      ultimately show ?thesis unfolding r using False by (metis (full_types))
    qed
  qed
qed

lemma waiters_connect:
  assumes ok: "waiters_ok p" and w: "w \<in> set (pl_pending p)" and nd: "\<not> pl_destroyed p"
    and q: "pl_pending q = filter (\<lambda>v. wt_id v \<noteq> wt_id w) (pl_pending p)" "pl_connecting q = pl_connecting p @ [w]"
      "same_waiting p q" "pl_results q = pl_results p" "pl_leases q = pl_leases p"
  shows "waiters_ok q"
proof (rule waiters_okI)
  note D = waiters_okD [OF ok] and I = waiter_ids [OF ok]
  have q': "pl_maxPending q = pl_maxPending p" "pl_nextWaiter q = pl_nextWaiter p" "pl_destroyed q = pl_destroyed p"
    using q(3) by (simp_all add: same_waiting_def)
  have "wt_id w \<notin> wt_id ` set (pl_connecting p)" using I(3) [OF w] by force
  then show "distinct (map wt_id (pl_pending q @ pl_connecting q))"
    using D(1) by (auto simp: q(1,2) distinct_map_filter_id)
  show "length (pl_pending q) \<le> pl_maxPending q" using D(2) by (simp add: q(1) q') (meson le_trans length_filter_le)
  show "v \<in> set (pl_pending q @ pl_connecting q) \<Longrightarrow> wt_id v < pl_nextWaiter q" for v
    using D(3) [of v] D(3) [of w] w by (auto simp: q(1,2) q')
  have a: "wt_aborted w = None" using D(5) [OF w] .
  show "pl_results q i = None \<longleftrightarrow> pl_nextWaiter q \<le> i \<or> i \<in> wt_id ` set (pl_pending q) \<or>
        (\<exists>w\<in>set (pl_connecting q). wt_id w = i \<and> wt_aborted w = None \<and> \<not> pl_destroyed q)" for i
    unfolding q(4) D(4) using w a nd by (auto simp: q(1,2) q')
  show "v \<in> set (pl_pending q) \<Longrightarrow> wt_aborted v = None" for v using D(5) by (simp add: q(1))
  have "pl_results p (wt_id w) = None" using D(4) w by blast
  then show "pl_results q (wt_id v) \<noteq> Some (Acquired_Lease lid)" if "v \<in> set (pl_connecting q)" for v lid
    using that D(6) [of v lid] by (auto simp: q(2,4))
qed (use waiters_okD(7,8) [OF ok] q(4,5) in auto)

lemma waiters_abort_connecting:
  assumes ok: "waiters_ok p" and w: "w \<in> set (pl_connecting p)"
    and q: "pl_pending q = pl_pending p"
      "pl_connecting q = map (\<lambda>v. if wt_id v = wt_id w then v\<lparr>wt_aborted := Some e\<rparr> else v) (pl_connecting p)"
      "same_waiting p q" "pl_leases q = pl_leases p"
      "pl_results q = (if pl_results p (wt_id w) = None then (pl_results p)(wt_id w := Some (Acquire_Rejected e)) else pl_results p)"
  shows "waiters_ok q"
proof (rule waiters_okI)
  note D = waiters_okD [OF ok] and I = waiter_ids [OF ok]
  have q': "pl_maxPending q = pl_maxPending p" "pl_nextWaiter q = pl_nextWaiter p" "pl_destroyed q = pl_destroyed p"
    using q(3) by (simp_all add: same_waiting_def)
  have ids: "map wt_id (pl_connecting q) = map wt_id (pl_connecting p)" by (simp add: q(2))
  show "distinct (map wt_id (pl_pending q @ pl_connecting q))"
    using D(1) by (simp only: map_append ids q(1))
  show "length (pl_pending q) \<le> pl_maxPending q" using D(2) by (simp add: q(1) q')
  show "v \<in> set (pl_pending q @ pl_connecting q) \<Longrightarrow> wt_id v < pl_nextWaiter q" for v
    using D(3) D(3) [of w] w by (auto simp: q(1,2) q' split: if_splits)
  have lt: "wt_id w < pl_nextWaiter p" using D(3) [of w] w by simp
  have np: "wt_id w \<notin> wt_id ` set (pl_pending p)" using I(3) [OF _ w] by force
  show "pl_results q i = None \<longleftrightarrow> pl_nextWaiter q \<le> i \<or> i \<in> wt_id ` set (pl_pending q) \<or>
        (\<exists>w\<in>set (pl_connecting q). wt_id w = i \<and> wt_aborted w = None \<and> \<not> pl_destroyed q)" for i
  proof (cases "i = wt_id w")
    case True
    then show ?thesis using lt np by (auto simp: q(1,2,5) q' split: if_splits)
  next
    case False
    have "pl_results q i = pl_results p i" using False by (simp add: q(5))
    moreover have "(\<exists>w\<in>set (pl_connecting q). wt_id w = i \<and> wt_aborted w = None) \<longleftrightarrow>
        (\<exists>w\<in>set (pl_connecting p). wt_id w = i \<and> wt_aborted w = None)"
      using False by (auto simp: q(2))
    ultimately show ?thesis using D(4) [of i] by (auto simp: q(1) q')
  qed
  show "pl_results q (wt_id v) \<noteq> Some (Acquired_Lease lid)" if "v \<in> set (pl_connecting q)" for v lid
  proof -
    obtain u where u: "u \<in> set (pl_connecting p)" "wt_id v = wt_id u"
      using \<open>v \<in> set (pl_connecting q)\<close> by (auto simp: q(2) split: if_splits)
    show ?thesis using D(6) [OF u(1)] by (simp add: q(5) u(2))
  qed
  have r: "pl_results q i = Some (Acquired_Lease lid) \<longleftrightarrow> pl_results p i = Some (Acquired_Lease lid)" for i lid
    by (auto simp: q(5))
  show "pl_results q i = Some (Acquired_Lease lid) \<Longrightarrow> lid < length (pl_leases q)" for i lid
    unfolding r using D(7) by (simp add: q(4))
  show "lid < length (pl_leases q) \<Longrightarrow> \<exists>!i. pl_results q i = Some (Acquired_Lease lid)" for lid
    unfolding r using D(8) by (simp add: q(4))
qed (use waiters_okD(5) [OF ok] q(1) in auto)

section \<open>One step keeps the invariant\<close>

lemma pool_invD:
  "pool_inv p \<Longrightarrow> slots_ok p" "pool_inv p \<Longrightarrow> leases_ok p" "pool_inv p \<Longrightarrow> waiters_ok p" "pool_inv p \<Longrightarrow> phase_ok p"
  by (simp_all add: pool_inv_def)

lemma phase_okD:
  assumes "phase_ok p"
  shows "pl_accepting p \<longleftrightarrow> \<not> pl_destroyed p \<and> pl_drain p = Drain_None"
    "pl_destroyed p \<Longrightarrow> pl_pending p = []" "pl_destroyed p \<Longrightarrow> pl_records p = []"
    "pl_destroyed p \<Longrightarrow> pl_drain p \<noteq> Drain_Pending"
    "\<not> pl_accepting p \<Longrightarrow> r \<in> set (pl_records p) \<Longrightarrow> pr_busy r"
    "pl_drain p = Drain_Resolved \<Longrightarrow> \<not> pl_destroyed p \<Longrightarrow> pl_pending p = [] \<and> pl_records p = [] \<and> pl_connecting p = []"
  using assms unfolding phase_ok_def by blast+

definition same_phase :: "pool \<Rightarrow> pool \<Rightarrow> bool" where
  "same_phase p q \<longleftrightarrow> pl_accepting q = pl_accepting p \<and> pl_destroyed q = pl_destroyed p \<and> pl_drain q = pl_drain p"

lemma phase_keep:
  assumes ok: "phase_ok p" and q: "same_phase p q"
    and "pl_destroyed p \<Longrightarrow> pl_pending q = [] \<and> pl_records q = []"
    and "\<And>r. \<not> pl_accepting p \<Longrightarrow> r \<in> set (pl_records q) \<Longrightarrow> pr_busy r"
    and "pl_drain p = Drain_Resolved \<Longrightarrow> pl_pending q = [] \<and> pl_records q = [] \<and> pl_connecting q = [] \<or> pl_destroyed p"
  shows "phase_ok q"
  using assms unfolding phase_ok_def same_phase_def by (simp only:) blast

lemma drop_inv:
  assumes ok: "pool_inv p" and r: "r \<in> set (pl_records p)" "\<not> pr_busy r"
  shows "pool_inv (dropRecord r p)"
proof -
  note D = pool_invD [OF ok]
  let ?q = "dropRecord r p"
  have f: "pl_records ?q = filter (\<lambda>s. pr_id s \<noteq> pr_id r) (pl_records p)" "pl_connecting ?q = pl_connecting p"
    "pl_leases ?q = pl_leases p" "pl_nextRecord ?q = pl_nextRecord p" "pl_destroyed ?q = pl_destroyed p"
    "pl_total ?q = pl_total p - 1" "countOf ?q j = countOf p j - (if j = pr_key r then 1 else 0)"
    "pl_pending ?q = pl_pending p" "pl_results ?q = pl_results p" for j
    by (simp_all add: dropRecord_member [OF r(1)])
  have s: "same_caps p ?q" "same_waiting p ?q" "same_phase p ?q"
    by (simp_all add: dropRecord_member [OF r(1)] same_caps_def same_waiting_def same_phase_def)
  have "slots_ok ?q" by (rule slots_less [OF D(1) s(1) slot_keys_without_record [OF D(2) r(1) f(1,2)] f(7,6)])
  moreover have "leases_ok ?q" by (rule leases_drop_idle [OF D(2) r(1) disjI1 [OF r(2)] f(1,3,4,5)])
  moreover have "waiters_ok ?q" by (rule waiters_cong [OF D(3) s(2) f(8,2,9)]) (simp add: f)
  moreover have "phase_ok ?q"
    by (rule phase_keep [OF D(4) s(3)]) (use phase_okD [OF D(4)] in \<open>auto simp: f\<close>)
  ultimately show ?thesis by (simp add: pool_inv_def)
qed

lemma grant_idle_inv:
  assumes ok: "pool_inv p" and w: "w \<in> set (pl_pending p)" and r: "r \<in> set (pl_records p)" "\<not> pr_busy r"
  defines "q \<equiv> grantLease w (pr_id r)
      (setRecord (pr_id r) (\<lambda>q. q\<lparr>pr_busy := True, pr_timer := False\<rparr>) (removePending w p))"
  shows "pool_inv q"
proof -
  note D = pool_invD [OF ok]
  have un: "pl_results p (wt_id w) = None" using waiters_okD(4) [OF D(3)] w by blast
  have nc: "filter (\<lambda>v. wt_id v \<noteq> wt_id w) (pl_connecting p) = pl_connecting p"
    using waiter_ids(3) [OF D(3) w] by (simp add: filter_id_conv)
  have f: "pl_records q = map (\<lambda>s. if pr_id s = pr_id r then s\<lparr>pr_busy := True, pr_timer := False\<rparr> else s) (pl_records p)"
    "pl_leases q = pl_leases p @ [newLease (pr_id r) p]" "pl_nextRecord q = pl_nextRecord p"
    "pl_destroyed q = pl_destroyed p" "pl_pending q = filter (\<lambda>v. wt_id v \<noteq> wt_id w) (pl_pending p)"
    "pl_connecting q = pl_connecting p"
    "pl_results q = (if pl_results p (wt_id w) = None
       then (pl_results p)(wt_id w := Some (Acquired_Lease (length (pl_leases p)))) else pl_results p)"
    "pl_total q = pl_total p" "countOf q = countOf p"
    by (simp_all add: q_def pool_fields newLease_def)
  have s: "same_caps p q" "same_waiting p q" "same_phase p q"
    by (simp_all add: q_def pool_fields same_caps_def same_waiting_def same_phase_def)
  have k: "map pr_key (pl_records q) = map pr_key (pl_records p)" by (simp add: f(1))
  have "image_mset pr_key (mset (pl_records q)) = image_mset pr_key (mset (pl_records p))"
    using arg_cong [OF k, of mset] by (simp only: mset_map)
  then have "slot_keys q = slot_keys p" by (simp only: slot_keys_def f(6))
  then have "slots_ok q" using slots_same [OF D(1) s(1)] f(8,9) by blast
  moreover have "leases_ok q" by (rule leases_grant [OF D(2) r f(1-4)])
  moreover have "waiters_ok q"
    by (rule waiters_leave [OF D(3) disjI1 [OF w] f(5) _ s(2) f(7)]) (simp_all add: nc f(6) un f(2))
  moreover have "phase_ok q"
    by (rule phase_keep [OF D(4) s(3)])
      (use phase_okD [OF D(4)] w r in \<open>auto simp: f(1,5,6) split: if_splits\<close>)
  ultimately show ?thesis by (simp add: pool_inv_def)
qed

lemma connect_inv:
  assumes ok: "pool_inv p" and w: "w \<in> set (pl_pending p)"
    and room: "pl_total p < pl_maxConnections p" "countOf p (wt_key w) < pl_maxPerOrigin p"
  defines "q \<equiv> (let p2 = changeCount (wt_key w) 1 (removePending w p) in p2\<lparr>pl_connecting := pl_connecting p2 @ [w]\<rparr>)"
  shows "pool_inv q"
proof -
  note D = pool_invD [OF ok]
  have nd: "\<not> pl_destroyed p" using phase_okD(2) [OF D(4)] w by auto
  have f: "pl_records q = pl_records p" "pl_leases q = pl_leases p" "pl_nextRecord q = pl_nextRecord p"
    "pl_destroyed q = pl_destroyed p" "pl_pending q = filter (\<lambda>v. wt_id v \<noteq> wt_id w) (pl_pending p)"
    "pl_connecting q = pl_connecting p @ [w]" "pl_results q = pl_results p"
    "pl_total q = pl_total p + 1" "countOf q j = countOf p j + (if j = wt_key w then 1 else 0)" for j
    by (simp_all add: q_def pool_fields)
  have s: "same_caps p q" "same_waiting p q" "same_phase p q"
    by (simp_all add: q_def pool_fields same_caps_def same_waiting_def same_phase_def)
  have k: "slot_keys q = add_mset (wt_key w) (slot_keys p)" by (simp add: slot_keys_def f(1,6))
  have "slots_ok q" by (rule slots_more [OF D(1) s(1) k f(9,8) room(2,1)])
  moreover have "leases_ok q" by (rule leases_cong [OF D(2) f(1,2)]) (simp_all add: f)
  moreover have "waiters_ok q" by (rule waiters_connect [OF D(3) w nd f(5,6) s(2) f(7,2)])
  moreover have "phase_ok q"
    by (rule phase_keep [OF D(4) s(3)]) (use phase_okD [OF D(4)] w nd in \<open>auto simp: f\<close>)
  ultimately show ?thesis by (simp add: pool_inv_def)
qed

lemma reclaim_inv:
  assumes "pool_inv p"
  shows "pool_inv (reclaimIdle p)" and "pl_pending (reclaimIdle p) = pl_pending p"
    and "pl_destroyed (reclaimIdle p) = pl_destroyed p"
proof -
  have f: "r \<in> set (pl_records p) \<and> \<not> pr_busy r" if "List.find (\<lambda>r. \<not> pr_busy r) (pl_records p) = Some r" for r
    using find_Some_iff_mem [OF that] .
  show "pool_inv (reclaimIdle p)"
    using assms f by (auto simp: reclaimIdle_def drop_inv split: option.split)
  show "pl_pending (reclaimIdle p) = pl_pending p" "pl_destroyed (reclaimIdle p) = pl_destroyed p"
    using f by (auto simp: reclaimIdle_def dropRecord_member split: option.split)
qed

lemma pumpTurn_inv:
  assumes "pool_inv p" "w \<in> set (pl_pending p)"
  shows "pool_inv (pumpTurn w p)"
    and "pl_pending (pumpTurn w p) = pl_pending p \<or>
         pl_pending (pumpTurn w p) = filter (\<lambda>v. wt_id v \<noteq> wt_id w) (pl_pending p)"
    and "pl_destroyed (pumpTurn w p) = pl_destroyed p"
proof -
  have "pl_results p (wt_id w) = None"
    using waiters_okD(4) [OF pool_invD(3) [OF assms(1)]] assms(2) by blast
  then have un: "\<not> settled p w" by (simp add: settled_def)
  note r = reclaim_inv [OF assms(1)]
  show "pool_inv (pumpTurn w p)"
  proof (cases "List.find (\<lambda>r. \<not> pr_busy r \<and> pr_key r = wt_key w) (pl_records p)")
    case (Some r)
    then show ?thesis
      using find_Some_iff_mem [OF Some] grant_idle_inv [OF assms] un by (simp add: pumpTurn_def)
  next
    case None
    then show ?thesis
      using r connect_inv [OF r(1), of w] assms(2) un by (simp add: pumpTurn_def Let_def not_le)
  qed
  show "pl_pending (pumpTurn w p) = pl_pending p \<or>
         pl_pending (pumpTurn w p) = filter (\<lambda>v. wt_id v \<noteq> wt_id w) (pl_pending p)"
    "pl_destroyed (pumpTurn w p) = pl_destroyed p"
    using un r(2,3) by (simp_all add: pumpTurn_def pool_fields split: option.split)
qed

section \<open>Nobody who could be served is left waiting\<close>

lemma blocked_mono:
  assumes "blocked p v" "same_caps p q"
    and "\<And>r. r \<in> set (pl_records q) \<Longrightarrow> \<exists>s\<in>set (pl_records p). pr_key s = pr_key r \<and> (pr_busy s \<longrightarrow> pr_busy r)"
    and "countOf p (wt_key v) \<le> countOf q (wt_key v)"
    and "pl_maxConnections p \<le> pl_total p \<and> (\<forall>r\<in>set (pl_records p). pr_busy r) \<Longrightarrow> pl_total p \<le> pl_total q"
  shows "blocked q v"
  unfolding blocked_def
proof (intro conjI ballI impI)
  have caps: "pl_maxConnections q = pl_maxConnections p" "pl_maxPerOrigin q = pl_maxPerOrigin p"
    using assms(2) by (simp_all add: same_caps_def)
  note b = assms(1) [unfolded blocked_def]
  show "pr_busy r" if "r \<in> set (pl_records q)" "pr_key r = wt_key v" for r
    using assms(3) [OF that(1)] b that(2) by metis
  show "pl_maxPerOrigin q \<le> countOf q (wt_key v) \<or>
      pl_maxConnections q \<le> pl_total q \<and> (\<forall>r\<in>set (pl_records q). pr_busy r)"
  proof (cases "pl_maxPerOrigin p \<le> countOf p (wt_key v)")
    case True
    then show ?thesis using assms(4) by (simp add: caps)
  next
    case False
    then have h: "pl_maxConnections p \<le> pl_total p \<and> (\<forall>r\<in>set (pl_records p). pr_busy r)" using b by blast
    have "pr_busy r" if "r \<in> set (pl_records q)" for r using assms(3) [OF that] h by blast
    then show ?thesis using assms(5) [OF h] h caps by simp
  qed
qed

lemma reclaim_blocked:
  assumes "pool_inv p" "blocked p v"
  shows "blocked (reclaimIdle p) v"
proof (cases "pl_maxConnections p \<le> pl_total p \<and> List.find (\<lambda>r. \<not> pr_busy r) (pl_records p) \<noteq> None")
  case True
  then obtain r where r: "List.find (\<lambda>r. \<not> pr_busy r) (pl_records p) = Some r" by blast
  then have m: "r \<in> set (pl_records p)" "\<not> pr_busy r" using find_Some_iff_mem by fast+
  have q: "reclaimIdle p = dropRecord r p" using True r by (simp add: reclaimIdle_def)
  have k: "wt_key v \<noteq> pr_key r" using assms(2) m unfolding blocked_def by metis
  show ?thesis
    unfolding q by (rule blocked_mono [OF assms(2)]) (use m k in \<open>auto simp: dropRecord_member same_caps_def\<close>)
next
  case False
  then have "reclaimIdle p = p" by (auto simp: reclaimIdle_def split: option.split)
  then show ?thesis using assms(2) by simp
qed

lemma reclaim_full:
  assumes "pool_inv p" "pl_maxConnections p \<le> pl_total (reclaimIdle p)"
  shows "reclaimIdle p = p" and "\<forall>r\<in>set (pl_records p). pr_busy r"
proof -
  have cap: "pl_total p \<le> pl_maxConnections p" using pool_invD(1) [OF assms(1)] by (simp add: slots_ok_def)
  have "List.find (\<lambda>r. \<not> pr_busy r) (pl_records p) = None \<and> pl_total p = pl_maxConnections p"
  proof (cases "List.find (\<lambda>r. \<not> pr_busy r) (pl_records p)")
    case None
    then show ?thesis using assms(2) cap by (auto simp: reclaimIdle_def split: if_splits)
  next
    case (Some r)
    have m: "r \<in> set (pl_records p)" using find_Some_iff_mem [OF Some] by blast
    have "pl_total (reclaimIdle p) < pl_maxConnections p"
      using cap by (auto simp: reclaimIdle_def Some dropRecord_member [OF m])
    then show ?thesis using assms(2) by simp
  qed
  then show "reclaimIdle p = p" "\<forall>r\<in>set (pl_records p). pr_busy r"
    using find_None_all by (fastforce simp: reclaimIdle_def)+
qed

lemma pumpTurn_cases:
  assumes "pool_inv p" "w \<in> set (pl_pending p)"
  obtains (idle) r where "r \<in> set (pl_records p)" "\<not> pr_busy r" "pr_key r = wt_key w"
      "pumpTurn w p = grantLease w (pr_id r)
         (setRecord (pr_id r) (\<lambda>q. q\<lparr>pr_busy := True, pr_timer := False\<rparr>) (removePending w p))"
  | (full) "\<forall>r\<in>set (pl_records p). pr_key r = wt_key w \<longrightarrow> pr_busy r" "pumpTurn w p = reclaimIdle p"
      "pl_maxConnections p \<le> pl_total (reclaimIdle p) \<or> pl_maxPerOrigin p \<le> countOf (reclaimIdle p) (wt_key w)"
  | (connect) "\<forall>r\<in>set (pl_records p). pr_key r = wt_key w \<longrightarrow> pr_busy r"
      "pumpTurn w p = (let p2 = changeCount (wt_key w) 1 (removePending w (reclaimIdle p))
         in p2\<lparr>pl_connecting := pl_connecting p2 @ [w]\<rparr>)"
proof -
  have "pl_results p (wt_id w) = None"
    using waiters_okD(4) [OF pool_invD(3) [OF assms(1)]] assms(2) by blast
  then have un: "\<not> settled p w" by (simp add: settled_def)
  have caps: "pl_maxConnections (reclaimIdle p) = pl_maxConnections p" "pl_maxPerOrigin (reclaimIdle p) = pl_maxPerOrigin p"
    by (auto simp: reclaimIdle_def dropRecord_def split: option.split)
  show thesis
  proof (cases "List.find (\<lambda>r. \<not> pr_busy r \<and> pr_key r = wt_key w) (pl_records p)")
    case (Some r)
    then show ?thesis using find_Some_iff_mem [OF Some] un by (intro that(1) [of r]) (simp_all add: pumpTurn_def)
  next
    case None
    have b: "\<forall>r\<in>set (pl_records p). pr_key r = wt_key w \<longrightarrow> pr_busy r" using find_None_all [OF None] by blast
    show ?thesis
    proof (cases "pl_maxConnections p \<le> pl_total (reclaimIdle p) \<or> pl_maxPerOrigin p \<le> countOf (reclaimIdle p) (wt_key w)")
      case True
      then show ?thesis using None un b caps by (intro that(2)) (auto simp: pumpTurn_def Let_def)
    next
      case False
      then show ?thesis using None un b caps by (intro that(3)) (auto simp: pumpTurn_def Let_def)
    qed
  qed
qed

lemma pumpTurn_blocked:
  assumes "pool_inv p" "w \<in> set (pl_pending p)" "blocked p v"
  shows "blocked (pumpTurn w p) v"
  using assms(1,2)
proof (cases rule: pumpTurn_cases)
  case (idle r)
  show ?thesis
    unfolding idle(4) by (rule blocked_mono [OF assms(3)]) (auto simp: pool_fields same_caps_def split: if_splits)
next
  case full
  then show ?thesis using reclaim_blocked [OF assms(1,3)] by simp
next
  case connect
  show ?thesis
    unfolding connect(2) by (rule blocked_mono [OF reclaim_blocked [OF assms(1,3)]]) (auto simp: pool_fields same_caps_def)
qed

lemma pumpTurn_leaves_blocked:
  assumes "pool_inv p" "w \<in> set (pl_pending p)" "w \<in> set (pl_pending (pumpTurn w p))"
  shows "blocked (pumpTurn w p) w"
  using assms(1,2)
proof (cases rule: pumpTurn_cases)
  case (idle r)
  then show ?thesis using assms(3) by (simp add: pool_fields)
next
  case connect
  then show ?thesis using assms(3) by (simp add: pool_fields)
next
  case full
  have sub: "set (pl_records (reclaimIdle p)) \<subseteq> set (pl_records p)" "pl_maxConnections (reclaimIdle p) = pl_maxConnections p"
    "pl_maxPerOrigin (reclaimIdle p) = pl_maxPerOrigin p"
    by (auto simp: reclaimIdle_def dropRecord_def split: option.split)
  show ?thesis
    unfolding blocked_def full(2) sub(2,3)
  proof (intro conjI ballI impI)
    show "pr_busy r" if "r \<in> set (pl_records (reclaimIdle p))" "pr_key r = wt_key w" for r using full(1) that sub(1) by blast
    show "pl_maxPerOrigin p \<le> countOf (reclaimIdle p) (wt_key w) \<or>
      pl_maxConnections p \<le> pl_total (reclaimIdle p) \<and> (\<forall>r\<in>set (pl_records (reclaimIdle p)). pr_busy r)"
      using full(3) reclaim_full [OF assms(1)] by auto
  qed
qed

text \<open>The whole loop: the waiters \<open>ws\<close> are still to be visited.\<close>

lemma pump_loop:
  assumes "pool_inv p" "set ws \<subseteq> set (pl_pending p)" "distinct (map wt_id ws)"
    and "\<forall>v\<in>set (pl_pending p) - set ws. blocked p v"
  shows "pool_inv (fold pumpTurn ws p) \<and> (\<forall>v\<in>set (pl_pending (fold pumpTurn ws p)). blocked (fold pumpTurn ws p) v) \<and>
     set (pl_pending (fold pumpTurn ws p)) \<subseteq> set (pl_pending p)"
  using assms
proof (induction ws arbitrary: p)
  case (Cons w ws)
  have w: "w \<in> set (pl_pending p)" using Cons.prems(2) by simp
  note T = pumpTurn_inv [OF Cons.prems(1) w] and B = pumpTurn_blocked [OF Cons.prems(1) w]
  have sub: "set (pl_pending (pumpTurn w p)) \<subseteq> set (pl_pending p)" using T(2) by auto
  have "wt_id v \<noteq> wt_id w" if "v \<in> set ws" for v using Cons.prems(3) that by (metis distinct.simps(2) image_eqI list.simps(9) list.set_map)
  then have ws: "set ws \<subseteq> set (pl_pending (pumpTurn w p))" using T(2) Cons.prems(2) by auto
  have bl: "\<forall>v\<in>set (pl_pending (pumpTurn w p)) - set ws. blocked (pumpTurn w p) v"
  proof
    fix v
    assume v: "v \<in> set (pl_pending (pumpTurn w p)) - set ws"
    show "blocked (pumpTurn w p) v"
    proof (cases "v = w")
      case True
      then show ?thesis using pumpTurn_leaves_blocked [OF Cons.prems(1) w] v by simp
    next
      case False
      then have "blocked p v" using v sub Cons.prems(4) by auto
      then show ?thesis by (rule B)
    qed
  qed
  show ?case using Cons.IH [OF T(1) ws _ bl] Cons.prems(3) sub by auto
qed simp

lemma prune_loop:
  assumes "pool_inv p" "set rs \<subseteq> set (pl_records p)" "distinct (map pr_id rs)" "\<forall>r\<in>set rs. P r \<longrightarrow> \<not> pr_busy r"
  shows "pool_inv (fold (\<lambda>r p. if P r then dropRecord r p else p) rs p) \<and>
     pl_records (fold (\<lambda>r p. if P r then dropRecord r p else p) rs p) =
       filter (\<lambda>q. \<forall>r\<in>set rs. P r \<longrightarrow> pr_id q \<noteq> pr_id r) (pl_records p) \<and>
     same_phase p (fold (\<lambda>r p. if P r then dropRecord r p else p) rs p) \<and>
     pl_pending (fold (\<lambda>r p. if P r then dropRecord r p else p) rs p) = pl_pending p \<and>
     pl_connecting (fold (\<lambda>r p. if P r then dropRecord r p else p) rs p) = pl_connecting p"
  using assms
proof (induction rs arbitrary: p)
  case (Cons r rs)
  let ?q = "if P r then dropRecord r p else p"
  have m: "r \<in> set (pl_records p)" using Cons.prems(2) by simp
  have i: "pool_inv ?q" using drop_inv [OF Cons.prems(1) m] Cons.prems(1,4) by simp
  have q: "pl_records ?q = filter (\<lambda>q. P r \<longrightarrow> pr_id q \<noteq> pr_id r) (pl_records p)" "same_phase p ?q"
    "pl_pending ?q = pl_pending p" "pl_connecting ?q = pl_connecting p"
    by (simp_all add: dropRecord_member [OF m] same_phase_def)
  have "pr_id s \<noteq> pr_id r" if "s \<in> set rs" for s
    using Cons.prems(3) that by (metis distinct.simps(2) image_eqI list.simps(9) list.set_map)
  then have s: "set rs \<subseteq> set (pl_records ?q)" using Cons.prems(2) by (auto simp: q(1))
  have h: "distinct (map pr_id rs)" "\<forall>r\<in>set rs. P r \<longrightarrow> \<not> pr_busy r" using Cons.prems(3,4) by simp_all
  note IH = Cons.IH [OF i s h]
  have f: "filter (\<lambda>q. \<forall>r\<in>set rs. P r \<longrightarrow> pr_id q \<noteq> pr_id r) (pl_records ?q) =
      filter (\<lambda>q. \<forall>r\<in>set (r # rs). P r \<longrightarrow> pr_id q \<noteq> pr_id r) (pl_records p)"
    by (simp add: q(1) conj_commute)
  show ?case
    using IH q(2) unfolding fold_simps o_apply f q(3,4) same_phase_def by simp
qed (simp add: same_phase_def)

lemma prune_inv:
  assumes "pool_inv p"
  shows "pool_inv (pruneClosed p)" "same_phase p (pruneClosed p)" "pl_pending (pruneClosed p) = pl_pending p"
proof -
  have "distinct (map pr_id (pl_records p))" by (rule leases_okD(1) [OF pool_invD(2) [OF assms]])
  note L = prune_loop [OF assms order_refl this, of "\<lambda>r. \<not> pr_busy r \<and> pr_closed r"]
  show "pool_inv (pruneClosed p)" "same_phase p (pruneClosed p)" "pl_pending (pruneClosed p) = pl_pending p"
    using L unfolding pruneClosed_def by blast+
qed

lemma checkDrained_fields [simp]:
  "pl_records (checkDrained p) = pl_records p" "pl_pending (checkDrained p) = pl_pending p"
  "pl_connecting (checkDrained p) = pl_connecting p" "pl_destroyed (checkDrained p) = pl_destroyed p"
  "pl_accepting (checkDrained p) = pl_accepting p" "pl_leases (checkDrained p) = pl_leases p"
  "pl_results (checkDrained p) = pl_results p" "pl_total (checkDrained p) = pl_total p" "countOf (checkDrained p) = countOf p"
  "pl_nextRecord (checkDrained p) = pl_nextRecord p" "same_caps p (checkDrained p)" "same_waiting p (checkDrained p)"
  by (simp_all add: checkDrained_def same_caps_def same_waiting_def)

lemma checkDrained_inv:
  assumes "pool_inv p"
  shows "pool_inv (checkDrained p)"
    and "pl_drain (checkDrained p) = Drain_Pending \<Longrightarrow>
       pl_pending p \<noteq> [] \<or> pl_connecting p \<noteq> [] \<or> pl_records p \<noteq> []"
proof -
  note D = pool_invD [OF assms]
  let ?q = "checkDrained p"
  have "slots_ok ?q" by (rule slots_same [OF D(1)]) (simp_all add: slot_keys_def)
  moreover have "leases_ok ?q" by (rule leases_cong [OF D(2)]) simp_all
  moreover have "waiters_ok ?q" by (rule waiters_cong [OF D(3)]) simp_all
  moreover have "phase_ok ?q"
    using D(4) unfolding phase_ok_def checkDrained_def by (auto split: if_splits)
  ultimately show "pool_inv ?q" by (simp add: pool_inv_def)
  show "pl_drain ?q = Drain_Pending \<Longrightarrow> pl_pending p \<noteq> [] \<or> pl_connecting p \<noteq> [] \<or> pl_records p \<noteq> []"
    using phase_okD(1,4) [OF D(4)] by (auto simp: checkDrained_def split: if_splits)
qed

lemma pump_inv:
  assumes "pool_inv p"
  shows "pool_inv (pump p)" and "quiescent (pump p)"
proof -
  have "pool_inv (pump p) \<and> quiescent (pump p)"
  proof (cases "pl_destroyed p")
    case True
    then show ?thesis
      using assms phase_okD(2,4) [OF pool_invD(4) [OF assms]] by (simp add: pump_def quiescent_def)
  next
    case False
    let ?p = "pruneClosed p"
    note P = prune_inv [OF assms]
    have "distinct (map wt_id (pl_pending ?p))" using waiters_okD(1) [OF pool_invD(3) [OF P(1)]] by simp
    then have L: "pool_inv (fold pumpTurn (pl_pending ?p) ?p)"
      "\<forall>v\<in>set (pl_pending (fold pumpTurn (pl_pending ?p) ?p)). blocked (fold pumpTurn (pl_pending ?p) ?p) v"
      using pump_loop [OF P(1) order_refl] by blast+
    have b: "blocked (checkDrained q) v = blocked q v" for q v
      using checkDrained_fields(11) [of q] by (simp add: blocked_def same_caps_def)
    show ?thesis
      using checkDrained_inv [OF L(1)] L(2) False by (simp add: pump_def Let_def quiescent_def b)
  qed
  then show "pool_inv (pump p)" "quiescent (pump p)" by blast+
qed

section \<open>Every event keeps the invariant\<close>

lemma acquire_inv:
  assumes "pool_inv p" "quiescent p"
  shows "pool_inv (snd (acquire key aborted p)) \<and> quiescent (snd (acquire key aborted p))"
proof (cases "pl_accepting p \<and> aborted = None \<and> length (pl_pending p) < pl_maxPending p")
  case True
  let ?w = "\<lparr>wt_id = pl_nextWaiter p, wt_key = key, wt_aborted = None\<rparr>"
  let ?q = "appendPending ?w (p\<lparr>pl_nextWaiter := pl_nextWaiter p + 1\<rparr>)"
  note D = pool_invD [OF assms(1)]
  have "slots_ok ?q" by (rule slots_same [OF D(1)]) (simp_all add: pool_fields same_caps_def slot_keys_def)
  moreover have "leases_ok ?q" by (rule leases_cong [OF D(2)]) (simp_all add: pool_fields)
  moreover have "waiters_ok ?q"
    by (rule waiters_enqueue [OF D(3), of ?w]) (use True in \<open>simp_all add: pool_fields\<close>)
  moreover have "phase_ok ?q"
    by (rule phase_keep [OF D(4)]) (use phase_okD [OF D(4)] True in \<open>auto simp: pool_fields same_phase_def\<close>)
  ultimately have "pool_inv ?q" by (simp add: pool_inv_def)
  then show ?thesis using pump_inv [of ?q] True by (simp add: acquire_def Let_def)
next
  case False
  then show ?thesis using assms by (auto simp: acquire_def split: option.split)
qed

lemma abort_inv:
  assumes "pool_inv p" "quiescent p"
  shows "pool_inv (abortWaiter wid reason p) \<and> quiescent (abortWaiter wid reason p)"
proof (cases "List.find (\<lambda>w. wt_id w = wid) (pl_pending p)")
  case (Some w)
  note D = pool_invD [OF assms(1)]
  have w: "w \<in> set (pl_pending p)" "wt_id w = wid" using find_Some_iff_mem [OF Some] by blast+
  let ?q = "removePending w (rejectWaiter w reason p)"
  have nc: "filter (\<lambda>v. wt_id v \<noteq> wt_id w) (pl_connecting p) = pl_connecting p"
    using waiter_ids(3) [OF D(3) w(1)] by (simp add: filter_id_conv)
  have "slots_ok ?q" by (rule slots_same [OF D(1)]) (simp_all add: pool_fields same_caps_def slot_keys_def)
  moreover have "leases_ok ?q" by (rule leases_cong [OF D(2)]) (simp_all add: pool_fields)
  moreover have "waiters_ok ?q"
    by (rule waiters_leave [OF D(3) disjI1 [OF w(1)], of _ "Acquire_Rejected reason"])
      (simp_all add: pool_fields same_waiting_def nc)
  moreover have "phase_ok ?q"
    by (rule phase_keep [OF D(4)]) (use phase_okD [OF D(4)] in \<open>auto simp: pool_fields same_phase_def\<close>)
  ultimately have "pool_inv ?q" by (simp add: pool_inv_def)
  then show ?thesis using pump_inv [of ?q] Some by (simp add: abortWaiter_def)
next
  case None
  show ?thesis
  proof (cases "List.find (\<lambda>w. wt_id w = wid) (pl_connecting p)")
    case (Some w)
    note D = pool_invD [OF assms(1)]
    have w: "w \<in> set (pl_connecting p)" "wt_id w = wid" using find_Some_iff_mem [OF Some] by blast+
    let ?q = "abortWaiter wid reason p"
    have e: "?q = rejectWaiter w reason
       (p\<lparr>pl_connecting := map (\<lambda>v. if wt_id v = wid then v\<lparr>wt_aborted := Some reason\<rparr> else v) (pl_connecting p)\<rparr>)"
      by (simp add: abortWaiter_def None Some)
    have f: "pl_pending ?q = pl_pending p" "pl_records ?q = pl_records p" "pl_leases ?q = pl_leases p"
      "pl_connecting ?q = map (\<lambda>v. if wt_id v = wt_id w then v\<lparr>wt_aborted := Some reason\<rparr> else v) (pl_connecting p)"
      "countOf ?q = countOf p" "pl_total ?q = pl_total p" "same_caps p ?q" "same_waiting p ?q" "same_phase p ?q"
      by (simp_all add: e pool_fields w(2) same_caps_def same_waiting_def same_phase_def)
    have "map wt_key (pl_connecting ?q) = map wt_key (pl_connecting p)" by (simp add: f(4))
    from arg_cong [OF this, of mset] have "slot_keys ?q = slot_keys p" by (simp only: slot_keys_def f(2) mset_map)
    then have "slots_ok ?q" using slots_same [OF D(1) f(7)] f(5,6) by blast
    moreover have "leases_ok ?q" by (rule leases_cong [OF D(2) f(2,3)]) (simp_all add: e pool_fields)
    moreover have "waiters_ok ?q"
      by (rule waiters_abort_connecting [OF D(3) w(1) f(1,4,8,3)]) (simp_all add: e pool_fields)
    moreover have "phase_ok ?q"
      by (rule phase_keep [OF D(4) f(9)]) (use phase_okD [OF D(4)] in \<open>auto simp: f\<close>)
    moreover have "quiescent ?q"
      using assms(2) f by (simp add: quiescent_def blocked_def same_caps_def same_phase_def)
    ultimately show ?thesis by (simp add: pool_inv_def)
  qed (simp add: abortWaiter_def None assms)
qed

lemma connect_over_inv:
  assumes ok: "pool_inv p" and w: "w \<in> set (pl_connecting p)"
    and q: "pl_records q = pl_records p" "pl_leases q = pl_leases p" "pl_nextRecord p \<le> pl_nextRecord q"
      "pl_pending q = pl_pending p" "pl_connecting q = filter (\<lambda>v. wt_id v \<noteq> wt_id w) (pl_connecting p)"
      "same_caps p q" "same_waiting p q" "same_phase p q" "pl_total q = pl_total p - 1"
      "\<And>j. countOf q j = countOf p j - (if j = wt_key w then 1 else 0)"
      "pl_results q = (if pl_results p (wt_id w) = None
         then (pl_results p)(wt_id w := Some (Acquire_Rejected e)) else pl_results p)"
  shows "pool_inv q"
proof -
  note D = pool_invD [OF ok]
  have np: "filter (\<lambda>v. wt_id v \<noteq> wt_id w) (pl_pending p) = pl_pending p"
    using waiter_ids(3) [OF D(3) _ w] by (fastforce simp: filter_id_conv)
  have "slots_ok q" by (rule slots_less [OF D(1) q(6) slot_keys_without_connecting [OF D(3) w q(5,1)] q(10,9)])
  moreover have "leases_ok q" by (rule leases_cong [OF D(2) q(1,2,3)]) (use q(8) in \<open>simp add: same_phase_def\<close>)
  moreover have "waiters_ok q"
    by (rule waiters_leave [OF D(3) disjI2 [OF w] _ q(5,7,11)]) (simp_all add: np q)
  moreover have "phase_ok q"
    by (rule phase_keep [OF D(4) q(8)]) (use phase_okD [OF D(4)] in \<open>auto simp: q\<close>)
  ultimately show ?thesis by (simp add: pool_inv_def)
qed

lemma connect_failed_inv:
  assumes "pool_inv p" "quiescent p"
  shows "pool_inv (connectFailed wid e p) \<and> quiescent (connectFailed wid e p)"
proof (cases "List.find (\<lambda>w. wt_id w = wid) (pl_connecting p)")
  case (Some w)
  have w: "w \<in> set (pl_connecting p)" "wt_id w = wid" using find_Some_iff_mem [OF Some] by blast+
  let ?q = "rejectWaiter w e (changeCount (wt_key w) (- 1) (deleteConnecting w p))"
  have "pool_inv ?q"
    by (rule connect_over_inv [OF assms(1) w(1), where e = e])
      (simp_all add: pool_fields same_caps_def same_waiting_def same_phase_def)
  then show ?thesis using pump_inv [of ?q] by (simp add: connectFailed_def Some)
qed (simp add: connectFailed_def assms)

lemma connected_inv:
  assumes "pool_inv p" "quiescent p"
  shows "pool_inv (connected wid p) \<and> quiescent (connected wid p)"
proof (cases "List.find (\<lambda>w. wt_id w = wid) (pl_connecting p)")
  case (Some w)
  note D = pool_invD [OF assms(1)]
  have w: "w \<in> set (pl_connecting p)" "wt_id w = wid" using find_Some_iff_mem [OF Some] by blast+
  let ?p2 = "(deleteConnecting w p)\<lparr>pl_nextRecord := pl_nextRecord (deleteConnecting w p) + 1\<rparr>"
  show ?thesis
  proof (cases "pl_destroyed ?p2 \<or> settled ?p2 w \<or> wt_aborted w \<noteq> None")
    case True
    let ?q = "rejectWaiter w (case wt_aborted w of Some reason \<Rightarrow> reason | None \<Rightarrow> TypeError)
        (changeCount (wt_key w) (- 1) (?p2\<lparr>pl_shut := pl_shut ?p2 @ [pl_nextRecord (deleteConnecting w p)]\<rparr>))"
    have "pool_inv ?q"
      by (rule connect_over_inv [OF assms(1) w(1), where e = "case wt_aborted w of Some reason \<Rightarrow> reason | None \<Rightarrow> TypeError"])
        (simp_all add: pool_fields same_caps_def same_waiting_def same_phase_def)
    moreover have "connected wid p = pump ?q" using True by (simp add: connected_def Some Let_def)
    ultimately show ?thesis using pump_inv [of ?q] by simp
  next
    case False
    let ?s = "\<lparr>pr_id = pl_nextRecord p, pr_key = wt_key w, pr_closed = False, pr_buffered = 0, pr_busy = True, pr_timer = False\<rparr>"
    define q where "q = grantLease w (pl_nextRecord p) (?p2\<lparr>pl_records := pl_records p @ [?s]\<rparr>)"
    have un: "pl_results p (wt_id w) = None" using False by (simp add: settled_def pool_fields)
    have np: "filter (\<lambda>v. wt_id v \<noteq> wt_id w) (pl_pending p) = pl_pending p"
      using waiter_ids(3) [OF D(3) _ w(1)] by (fastforce simp: filter_id_conv)
    have f: "pl_records q = pl_records p @ [?s]" "pl_leases q = pl_leases p @ [newLease (pl_nextRecord p) p]"
      "pl_nextRecord q = pl_nextRecord p + 1" "pl_destroyed q = pl_destroyed p" "pl_pending q = pl_pending p"
      "pl_connecting q = filter (\<lambda>v. wt_id v \<noteq> wt_id w) (pl_connecting p)"
      "pl_total q = pl_total p" "countOf q = countOf p" "same_caps p q" "same_waiting p q" "same_phase p q"
      "pl_results q = (if pl_results p (wt_id w) = None
         then (pl_results p)(wt_id w := Some (Acquired_Lease (length (pl_leases p)))) else pl_results p)"
      by (simp_all add: q_def pool_fields newLease_def same_caps_def same_waiting_def same_phase_def)
    have "slot_keys p = add_mset (wt_key w) (slot_keys (deleteConnecting w p))"
      by (rule slot_keys_without_connecting [OF D(3) w(1)]) (simp_all add: pool_fields)
    moreover have "slot_keys q = add_mset (wt_key w) (slot_keys (deleteConnecting w p))"
      by (simp add: slot_keys_def f(1,6)) (simp add: pool_fields)
    ultimately have "slots_ok q" using slots_same [OF D(1) f(9)] f(7,8) by simp
    moreover have "leases_ok q" by (rule leases_new [OF D(2) _ _ _ f(1,2,3,4)]) simp_all
    moreover have "waiters_ok q"
      by (rule waiters_leave [OF D(3) disjI2 [OF w(1)] _ f(6,10,12)]) (simp_all add: np f un)
    moreover have "phase_ok q"
      by (rule phase_keep [OF D(4) f(11)])
        (use phase_okD [OF D(4)] w(1) False in \<open>auto simp: f pool_fields\<close>)
    ultimately have "pool_inv q" by (simp add: pool_inv_def)
    moreover have "connected wid p = pump q" using False by (simp add: connected_def Some Let_def deleteConnecting_def q_def)
    ultimately show ?thesis using pump_inv [of q] by simp
  qed
qed (simp add: connected_def assms)

lemma find_lease:
  "List.find (\<lambda>l. le_id l = lid) (pl_leases p) = Some l \<Longrightarrow> l \<in> set (pl_leases p) \<and> le_id l = lid"
  using find_Some_iff_mem by fast

lemma mark_fields [simp]:
  "pl_records (markReleased lid p) = pl_records p" "pl_pending (markReleased lid p) = pl_pending p"
  "pl_connecting (markReleased lid p) = pl_connecting p" "pl_results (markReleased lid p) = pl_results p"
  "pl_total (markReleased lid p) = pl_total p" "countOf (markReleased lid p) = countOf p"
  "pl_nextRecord (markReleased lid p) = pl_nextRecord p" "pl_destroyed (markReleased lid p) = pl_destroyed p"
  "pl_accepting (markReleased lid p) = pl_accepting p" "pl_drain (markReleased lid p) = pl_drain p"
  "pl_idleTimeoutMs (markReleased lid p) = pl_idleTimeoutMs p" "length (pl_leases (markReleased lid p)) = length (pl_leases p)"
  "same_caps p (markReleased lid p)" "same_waiting p (markReleased lid p)" "same_phase p (markReleased lid p)"
  by (simp_all add: markReleased_def same_caps_def same_waiting_def same_phase_def)

text \<open>A lease is released while its record is in the pool, or after the pool forgot it.\<close>

lemma give_up_inv:
  assumes ok: "pool_inv p" and l: "l \<in> set (pl_leases p)" "\<not> le_released l"
    and r: "r \<in> set (pl_records p)" "pr_id r = le_record l"
    and q: "pl_records q = filter (\<lambda>s. pr_id s \<noteq> pr_id r) (pl_records p)"
      "pl_leases q = pl_leases (markReleased (le_id l) p)" "pl_nextRecord q = pl_nextRecord p"
      "pl_connecting q = pl_connecting p" "pl_pending q = pl_pending p" "pl_results q = pl_results p"
      "pl_total q = pl_total p - 1" "\<And>j. countOf q j = countOf p j - (if j = pr_key r then 1 else 0)"
      "same_caps p q" "same_waiting p q" "same_phase p q"
  shows "pool_inv q"
proof -
  note D = pool_invD [OF ok]
  have "slots_ok q" by (rule slots_less [OF D(1) q(9) slot_keys_without_record [OF D(2) r(1) q(1,4)] q(8,7)])
  moreover have "leases_ok q"
    by (rule leases_give_up [OF D(2) l _ q(2,3)]) (use q(1,11) r(2) in \<open>simp_all add: same_phase_def\<close>)
  moreover have "waiters_ok q" by (rule waiters_cong [OF D(3) q(10,5,4,6)]) (simp add: q(2))
  moreover have "phase_ok q" by (rule phase_keep [OF D(4) q(11)]) (use phase_okD [OF D(4)] in \<open>auto simp: q\<close>)
  ultimately show ?thesis by (simp add: pool_inv_def)
qed

lemma mark_absent_inv:
  assumes ok: "pool_inv p" "quiescent p" and l: "l \<in> set (pl_leases p)" "\<not> le_released l"
    and r: "\<forall>r\<in>set (pl_records p). pr_id r \<noteq> le_record l"
  shows "pool_inv (markReleased (le_id l) p) \<and> quiescent (markReleased (le_id l) p)"
proof -
  note D = pool_invD [OF ok(1)]
  let ?q = "markReleased (le_id l) p"
  have f: "filter (\<lambda>s. pr_id s \<noteq> le_record l) (pl_records p) = pl_records p" using r by (simp add: filter_id_conv)
  have "slots_ok ?q" by (rule slots_same [OF D(1)]) (simp_all add: slot_keys_def)
  moreover have "leases_ok ?q" by (rule leases_give_up [OF D(2) l]) (simp_all add: f)
  moreover have "waiters_ok ?q" by (rule waiters_cong [OF D(3)]) simp_all
  moreover have "phase_ok ?q" by (rule phase_keep [OF D(4)]) (use phase_okD [OF D(4)] in auto)
  moreover have "quiescent ?q"
    using ok(2) mark_fields(13) [of p "le_id l"] by (simp add: quiescent_def blocked_def same_caps_def)
  ultimately show ?thesis by (simp add: pool_inv_def)
qed

lemma find_record_unique:
  "List.find (\<lambda>r. pr_id r = i) (pl_records p) = Some r \<Longrightarrow> r \<in> set (pl_records p) \<and> pr_id r = i"
  using find_Some_iff_mem by fast

lemma release_inv:
  assumes ok: "pool_inv p" "quiescent p"
  shows "pool_inv (leaseRelease lid reusable p) \<and> quiescent (leaseRelease lid reusable p)"
proof (cases "List.find (\<lambda>l. le_id l = lid) (pl_leases p)")
  case (Some l)
  note D = pool_invD [OF ok(1)]
  have l: "l \<in> set (pl_leases p)" "le_id l = lid" using find_lease [OF Some] by blast+
  show ?thesis
  proof (cases "le_released l")
    case False
    let ?m = "markReleased lid p"
    have e: "leaseRelease lid reusable p = releaseRecord (le_record l) reusable ?m"
      by (simp add: leaseRelease_def Some False)
    show ?thesis
    proof (cases "List.find (\<lambda>r. pr_id r = le_record l) (pl_records p)")
      case None
      then show ?thesis
        using mark_absent_inv [OF ok l(1) False] find_None_all [OF None] by (simp add: e releaseRecord_def l(2))
    next
      case (Some r)
      have r: "r \<in> set (pl_records p)" "pr_id r = le_record l" using find_record_unique [OF Some] by blast+
      define c where "c \<longleftrightarrow> \<not> reusable \<or> \<not> pl_accepting p \<or> pr_closed r \<or> pr_buffered r \<noteq> 0 \<or> pl_idleTimeoutMs p = 0"
      define q where "q = (if c then dropRecord r ?m
          else setRecord (le_record l) (\<lambda>q. q\<lparr>pr_busy := False, pr_timer := True\<rparr>) ?m)"
      have "pool_inv q"
      proof (cases c)
        case True
        have m: "r \<in> set (pl_records ?m)" using r(1) by simp
        have d: "q = changeCount (pr_key r) (- 1) (?m\<lparr>pl_records := filter (\<lambda>s. pr_id s \<noteq> pr_id r) (pl_records ?m),
            pl_shut := pl_shut ?m @ [pr_id r]\<rparr>)"
          unfolding q_def using True by (simp only: dropRecord_member [OF m] if_True)
        show ?thesis
          by (rule give_up_inv [OF ok(1) l(1) False r])
            (simp_all add: d l(2) same_caps_def same_waiting_def same_phase_def markReleased_def)
      next
        case nc: False
        have f: "pl_records q = map (\<lambda>s. if pr_id s = pr_id r then s\<lparr>pr_busy := False, pr_timer := True\<rparr> else s) (pl_records p)"
          "pl_leases q = pl_leases (markReleased (le_id l) p)" "pl_nextRecord q = pl_nextRecord p" "pl_destroyed q = pl_destroyed p"
          "pl_connecting q = pl_connecting p" "pl_pending q = pl_pending p" "pl_results q = pl_results p"
          "countOf q = countOf p" "pl_total q = pl_total p" "same_caps p q" "same_waiting p q" "same_phase p q"
          by (simp_all add: q_def nc setRecord_def r(2) l(2) same_caps_def same_waiting_def same_phase_def markReleased_def)
        have "map pr_key (pl_records q) = map pr_key (pl_records p)" by (simp add: f(1))
        from arg_cong [OF this, of mset] have "slot_keys q = slot_keys p" by (simp only: slot_keys_def f(5) mset_map)
        then have "slots_ok q" using slots_same [OF D(1) f(10)] f(8,9) by blast
        moreover have "leases_ok q" using leases_idle [OF D(2) l(1) False r _ f(1-4)] nc c_def by simp
        moreover have "waiters_ok q" by (rule waiters_cong [OF D(3) f(11,6,5,7)]) (simp add: f(2))
        moreover have "phase_ok q"
          by (rule phase_keep [OF D(4) f(12)])
            (use phase_okD [OF D(4)] nc r(1) in \<open>auto simp: f(1,5,6) c_def\<close>)
        ultimately show ?thesis by (simp add: pool_inv_def)
      qed
      moreover have "leaseRelease lid reusable p = pump q"
        unfolding e releaseRecord_def mark_fields Some option.case q_def c_def by (rule refl)
      ultimately show ?thesis using pump_inv [of q] by simp
    qed
  qed (simp add: leaseRelease_def Some ok)
qed (simp add: leaseRelease_def ok)

lemma detach_inv:
  assumes ok: "pool_inv p" "quiescent p"
  shows "pool_inv (leaseDetach lid p) \<and> quiescent (leaseDetach lid p)"
proof (cases "List.find (\<lambda>l. le_id l = lid) (pl_leases p)")
  case (Some l)
  have l: "l \<in> set (pl_leases p)" "le_id l = lid" using find_lease [OF Some] by blast+
  show ?thesis
  proof (cases "le_released l")
    case False
    let ?m = "markReleased lid p"
    have e: "leaseDetach lid p = detachRecord (le_record l) ?m" by (simp add: leaseDetach_def Some False)
    show ?thesis
    proof (cases "List.find (\<lambda>r. pr_id r = le_record l) (pl_records p)")
      case None
      then show ?thesis
        using mark_absent_inv [OF ok l(1) False] find_None_all [OF None] by (simp add: e detachRecord_def l(2))
    next
      case (Some r)
      have r: "r \<in> set (pl_records p)" "pr_id r = le_record l" using find_record_unique [OF Some] by blast+
      define q where "q = changeCount (pr_key r) (- 1)
          (?m\<lparr>pl_records := filter (\<lambda>q. pr_id q \<noteq> le_record l) (pl_records p)\<rparr>)"
      have "pool_inv q"
        by (rule give_up_inv [OF ok(1) l(1) False r])
          (simp_all add: q_def r(2) l(2) same_caps_def same_waiting_def same_phase_def markReleased_def)
      moreover have "leaseDetach lid p = pump q"
        unfolding e detachRecord_def mark_fields Some option.case q_def by (rule refl)
      ultimately show ?thesis using pump_inv [of q] by simp
    qed
  qed (simp add: leaseDetach_def Some ok)
qed (simp add: leaseDetach_def ok)

lemma idle_timer_inv:
  assumes ok: "pool_inv p" "quiescent p"
  shows "pool_inv (idleTimer rid p) \<and> quiescent (idleTimer rid p)"
proof (cases "List.find (\<lambda>r. pr_id r = rid \<and> pr_timer r) (pl_records p)")
  case (Some r)
  have r: "r \<in> set (pl_records p)" "pr_timer r" using find_Some_iff_mem [OF Some] by blast+
  then have "\<not> pr_busy r" using leases_okD(8) [OF pool_invD(2) [OF ok(1)]] by blast
  then have "pool_inv (dropRecord r p)" by (rule drop_inv [OF ok(1) r(1)])
  then show ?thesis using pump_inv [of "dropRecord r p"] by (simp add: idleTimer_def Some)
qed (simp add: idleTimer_def ok)

lemma update_inv:
  assumes ok: "pool_inv p" "quiescent p"
    and f: "\<And>s. pr_id (f s) = pr_id s" "\<And>s. pr_busy (f s) = pr_busy s" "\<And>s. pr_timer (f s) = pr_timer s"
      "\<And>s. pr_key (f s) = pr_key s" "\<And>s. \<not> pr_busy s \<Longrightarrow> pr_buffered (f s) = pr_buffered s"
  shows "pool_inv (setRecord rid f p) \<and> quiescent (setRecord rid f p)"
proof -
  note D = pool_invD [OF ok(1)]
  let ?g = "\<lambda>q. if pr_id q = rid then f q else q"
  define q where "q = setRecord rid f p"
  have e: "pl_records q = map ?g (pl_records p)" "pl_connecting q = pl_connecting p" "pl_pending q = pl_pending p"
    "pl_results q = pl_results p" "countOf q = countOf p" "pl_total q = pl_total p" "pl_leases q = pl_leases p"
    "pl_nextRecord q = pl_nextRecord p" "pl_destroyed q = pl_destroyed p"
    "same_caps p q" "same_waiting p q" "same_phase p q"
    by (simp_all add: q_def setRecord_def same_caps_def same_waiting_def same_phase_def)
  have "map pr_key (pl_records q) = map pr_key (pl_records p)" by (simp add: e(1) f(4))
  from arg_cong [OF this, of mset] have "slot_keys q = slot_keys p" by (simp only: slot_keys_def e(2) mset_map)
  then have "slots_ok q" using slots_same [OF D(1) e(10)] e(5,6) by blast
  moreover have "leases_ok q" by (rule leases_update [OF D(2) _ _ _ _ e(1,7,8,9)]) (simp_all add: f)
  moreover have "waiters_ok q" by (rule waiters_cong [OF D(3) e(11,3,2,4)]) (simp add: e(7))
  moreover have "phase_ok q"
    by (rule phase_keep [OF D(4) e(12)]) (use phase_okD [OF D(4)] in \<open>auto simp: e f\<close>)
  moreover have "quiescent q"
    unfolding quiescent_def
  proof (intro conjI ballI impI)
    show "blocked q w" if "w \<in> set (pl_pending q)" for w
      by (rule blocked_mono [of p])
        (use ok(2) that e(10) in \<open>auto simp: quiescent_def e(1,3,5,6) f\<close>)
    show "pl_drain q = Drain_Pending \<Longrightarrow> pl_pending q \<noteq> [] \<or> pl_connecting q \<noteq> [] \<or> pl_records q \<noteq> []"
      using ok(2) e(12) by (simp add: quiescent_def e same_phase_def)
  qed
  ultimately show ?thesis unfolding q_def [symmetric] by (simp add: pool_inv_def)
qed

definition reject_ids :: "nat set \<Rightarrow> js_error \<Rightarrow> (nat \<Rightarrow> acquired option) \<Rightarrow> nat \<Rightarrow> acquired option" where
  "reject_ids ids e res = (\<lambda>i. if res i = None \<and> i \<in> ids then Some (Acquire_Rejected e) else res i)"

lemma reject_ids_settled: "r i \<noteq> None \<Longrightarrow> reject_ids {i} e r = r"
  by (auto simp: reject_ids_def fun_eq_iff)

lemma reject_ids_Un: "reject_ids A e (reject_ids B e r) = reject_ids (A \<union> B) e r"
  by (auto simp: reject_ids_def fun_eq_iff)

lemma rejectWaiter_ids: "rejectWaiter w e p = p\<lparr>pl_results := reject_ids {wt_id w} e (pl_results p)\<rparr>"
proof (cases "pl_results p (wt_id w) = None")
  case True
  have "reject_ids {wt_id w} e (pl_results p) = (pl_results p)(wt_id w := Some (Acquire_Rejected e))"
    using True by (auto simp: reject_ids_def fun_eq_iff)
  then show ?thesis using True by (simp add: rejectWaiter_def settleWaiter_def settled_def)
next
  case False
  then show ?thesis by (auto simp add: rejectWaiter_def settleWaiter_def settled_def reject_ids_settled)
qed

lemma reject_loop:
  "fold (\<lambda>w q. rejectWaiter w e q) ws p = p\<lparr>pl_results := reject_ids (wt_id ` set ws) e (pl_results p)\<rparr>"
proof (induction ws arbitrary: p)
  case (Cons w ws)
  show ?case unfolding fold_simps Cons.IH by (simp add: rejectWaiter_ids reject_ids_Un insert_commute)
qed (simp add: reject_ids_def)

lemma reject_pending_loop:
  "fold (\<lambda>w q. rejectWaiter w e (removePending w q)) ws p =
     p\<lparr>pl_pending := filter (\<lambda>v. wt_id v \<notin> wt_id ` set ws) (pl_pending p),
       pl_results := reject_ids (wt_id ` set ws) e (pl_results p)\<rparr>"
proof (induction ws arbitrary: p)
  case (Cons w ws)
  have "filter (\<lambda>v. wt_id v \<notin> wt_id ` set ws) (filter (\<lambda>v. wt_id v \<noteq> wt_id w) (pl_pending p)) =
      filter (\<lambda>v. wt_id v \<notin> wt_id ` set (w # ws)) (pl_pending p)"
    by (simp add: conj_commute)
  then show ?case
    unfolding fold_simps Cons.IH by (simp add: rejectWaiter_ids removePending_def reject_ids_Un)
qed (simp add: reject_ids_def)

lemma drop_all_loop:
  assumes "slots_ok p" "leases_ok p" "pl_destroyed p" "set rs \<subseteq> set (pl_records p)" "distinct (map pr_id rs)"
  shows "slots_ok (fold dropRecord rs p) \<and> leases_ok (fold dropRecord rs p) \<and>
     pl_records (fold dropRecord rs p) = filter (\<lambda>q. pr_id q \<notin> pr_id ` set rs) (pl_records p) \<and>
     pl_pending (fold dropRecord rs p) = pl_pending p \<and> pl_connecting (fold dropRecord rs p) = pl_connecting p \<and>
     pl_results (fold dropRecord rs p) = pl_results p \<and> pl_leases (fold dropRecord rs p) = pl_leases p \<and>
     same_phase p (fold dropRecord rs p) \<and> same_waiting p (fold dropRecord rs p)"
  using assms
proof (induction rs arbitrary: p)
  case (Cons r rs)
  let ?q = "dropRecord r p"
  have m: "r \<in> set (pl_records p)" using Cons.prems(4) by simp
  have q: "pl_records ?q = filter (\<lambda>q. pr_id q \<noteq> pr_id r) (pl_records p)" "pl_leases ?q = pl_leases p"
    "pl_nextRecord ?q = pl_nextRecord p" "pl_destroyed ?q = pl_destroyed p" "pl_connecting ?q = pl_connecting p"
    "pl_total ?q = pl_total p - 1" "countOf ?q j = countOf p j - (if j = pr_key r then 1 else 0)"
    "pl_pending ?q = pl_pending p" "pl_results ?q = pl_results p" for j
    by (simp_all add: dropRecord_member [OF m])
  have s: "same_caps p ?q" "same_waiting p ?q" "same_phase p ?q"
    by (simp_all add: dropRecord_member [OF m] same_caps_def same_waiting_def same_phase_def)
  have a: "slots_ok ?q"
    by (rule slots_less [OF Cons.prems(1) s(1) slot_keys_without_record [OF Cons.prems(2) m q(1,5)] q(7,6)])
  have b: "leases_ok ?q" by (rule leases_drop_idle [OF Cons.prems(2) m disjI2 [OF Cons.prems(3)] q(1-4)])
  have "pr_id s \<noteq> pr_id r" if "s \<in> set rs" for s
    using Cons.prems(5) that by (metis distinct.simps(2) image_eqI list.simps(9) list.set_map)
  then have c: "set rs \<subseteq> set (pl_records ?q)" using Cons.prems(4) by (auto simp: q(1))
  have d: "distinct (map pr_id rs)" "pl_destroyed ?q" using Cons.prems(3,5) by (simp_all add: q)
  note IH = Cons.IH [OF a b d(2) c d(1)]
  have f: "filter (\<lambda>q. pr_id q \<notin> pr_id ` set rs) (pl_records ?q) =
      filter (\<lambda>q. pr_id q \<notin> pr_id ` set (r # rs)) (pl_records p)"
    by (simp add: q(1) conj_commute)
  show ?case
    using IH s(2,3) unfolding fold_simps o_apply f q same_phase_def same_waiting_def by simp
qed (simp add: same_phase_def same_waiting_def)

lemma pool_close_inv:
  assumes ok: "pool_inv p" "quiescent p"
  shows "pool_inv (closePool p) \<and> quiescent (closePool p)"
proof (cases "pl_destroyed p")
  case False
  note D = pool_invD [OF ok(1)]
  let ?p1 = "p\<lparr>pl_accepting := False, pl_destroyed := True\<rparr>"
  define p2 where "p2 = ?p1\<lparr>pl_results := reject_ids (wt_id ` set (pl_connecting p)) TypeError (pl_results p)\<rparr>"
  define p3 where "p3 = fold dropRecord (pl_records p2) p2"
  define p4 where "p4 = p3\<lparr>pl_pending := [],
       pl_results := reject_ids (wt_id ` set (pl_pending p3)) TypeError (pl_results p3)\<rparr>"
  define q where "q = (if pl_drain p4 = Drain_Pending then p4\<lparr>pl_drain := Drain_Resolved\<rparr> else p4)"
  have "filter (\<lambda>v. wt_id v \<notin> wt_id ` set (pl_pending p3)) (pl_pending p3) = []" by (simp add: filter_empty_conv)
  then have e: "closePool p = q"
    using False reject_loop [of TypeError "pl_connecting p" ?p1]
    by (simp add: closePool_def Let_def reject_pending_loop q_def p4_def p3_def p2_def)
  have "slots_ok p2" by (rule slots_same [OF D(1)]) (simp_all add: p2_def same_caps_def slot_keys_def)
  moreover have "leases_ok p2" by (rule leases_cong [OF D(2)]) (simp_all add: p2_def)
  moreover have "pl_destroyed p2" "distinct (map pr_id (pl_records p2))"
    using leases_okD(1) [OF D(2)] by (simp_all add: p2_def)
  ultimately have L: "slots_ok p3" "leases_ok p3"
    "pl_records p3 = filter (\<lambda>q. pr_id q \<notin> pr_id ` set (pl_records p2)) (pl_records p2)" "pl_pending p3 = pl_pending p2"
    "pl_connecting p3 = pl_connecting p2" "pl_results p3 = pl_results p2" "pl_leases p3 = pl_leases p2"
    "same_phase p2 p3" "same_waiting p2 p3"
    using drop_all_loop [of p2 "pl_records p2"] unfolding p3_def by blast+
  have e3: "pl_records p3 = []" using L(3) by (simp add: filter_empty_conv)
  have f: "pl_records q = []" "pl_pending q = []" "pl_connecting q = pl_connecting p" "pl_leases q = pl_leases p"
    "pl_accepting q = False" "pl_destroyed q = True" "pl_drain q \<noteq> Drain_Pending"
    "pl_results q = reject_ids (wt_id ` set (pl_pending p)) TypeError
       (reject_ids (wt_id ` set (pl_connecting p)) TypeError (pl_results p))"
    "pl_nextWaiter q = pl_nextWaiter p" "pl_maxPending q = pl_maxPending p"
    using L e3 by (simp_all add: q_def p4_def p2_def same_phase_def same_waiting_def)
  have s: "same_caps p3 q" "countOf q = countOf p3" "pl_total q = pl_total p3" "slot_keys q = slot_keys p3"
    "pl_nextRecord q = pl_nextRecord p3" "pl_leases q = pl_leases p3" "pl_records q = pl_records p3"
    by (simp_all add: q_def p4_def same_caps_def slot_keys_def)
  have "slots_ok q" by (rule slots_same [OF L(1) s(1,4,2,3)])
  moreover have "leases_ok q" by (rule leases_cong [OF L(2) s(7,6)]) (simp_all add: s f)
  moreover have "waiters_ok q"
  proof (rule waiters_okI)
    note W = waiters_okD [OF D(3)]
    show "distinct (map wt_id (pl_pending q @ pl_connecting q))" using W(1) by (simp add: f)
    show "v \<in> set (pl_pending q @ pl_connecting q) \<Longrightarrow> wt_id v < pl_nextWaiter q" for v using W(3) [of v] by (simp add: f)
    have lt: "i < pl_nextWaiter p" if "i \<in> wt_id ` set (pl_pending p) \<or> i \<in> wt_id ` set (pl_connecting p)" for i
      using that W(3) by auto
    show "pl_results q i = None \<longleftrightarrow> pl_nextWaiter q \<le> i \<or> i \<in> wt_id ` set (pl_pending q) \<or>
        (\<exists>w\<in>set (pl_connecting q). wt_id w = i \<and> wt_aborted w = None \<and> \<not> pl_destroyed q)" for i
    proof -
      have "pl_results q i = None \<longleftrightarrow>
          pl_results p i = None \<and> i \<notin> wt_id ` set (pl_pending p) \<and> i \<notin> wt_id ` set (pl_connecting p)"
        by (auto simp: f(8) reject_ids_def)
      also have "\<dots> \<longleftrightarrow> pl_nextWaiter p \<le> i" 
      proof
        assume a: "pl_results p i = None \<and> i \<notin> wt_id ` set (pl_pending p) \<and> i \<notin> wt_id ` set (pl_connecting p)"
        then have "\<not> (\<exists>w\<in>set (pl_connecting p). wt_id w = i \<and> wt_aborted w = None \<and> \<not> pl_destroyed p)" by blast
        moreover have "pl_nextWaiter p \<le> i \<or> i \<in> wt_id ` set (pl_pending p) \<or>
            (\<exists>w\<in>set (pl_connecting p). wt_id w = i \<and> wt_aborted w = None \<and> \<not> pl_destroyed p)"
          by (rule iffD1 [OF W(4) conjunct1 [OF a]])
        ultimately show "pl_nextWaiter p \<le> i" using a by argo
      next
        assume a: "pl_nextWaiter p \<le> i"
        then show "pl_results p i = None \<and> i \<notin> wt_id ` set (pl_pending p) \<and> i \<notin> wt_id ` set (pl_connecting p)"
          using W(4) [of i] lt [of i] by (meson not_le)
      qed
      finally show ?thesis by (simp add: f)
    qed
    have r: "pl_results q i = Some (Acquired_Lease lid) \<longleftrightarrow> pl_results p i = Some (Acquired_Lease lid)" for i lid
      by (auto simp: f(8) reject_ids_def)
    show "v \<in> set (pl_connecting q) \<Longrightarrow> pl_results q (wt_id v) \<noteq> Some (Acquired_Lease lid)" for v lid
      unfolding r f(3) by (rule W(6))
    show "pl_results q i = Some (Acquired_Lease lid) \<Longrightarrow> lid < length (pl_leases q)" for i lid
      unfolding r f(4) by (rule W(7))
    show "lid < length (pl_leases q) \<Longrightarrow> \<exists>!i. pl_results q i = Some (Acquired_Lease lid)" for lid
      unfolding r f(4) by (rule W(8))
  qed (simp_all add: f)
  moreover have "phase_ok q" using f by (simp add: phase_ok_def)
  moreover have "quiescent q" using f by (simp add: quiescent_def)
  ultimately show ?thesis by (simp add: e pool_inv_def)
qed (simp add: closePool_def ok)

lemma drop_flags:
  "fold (\<lambda>r q. if \<not> pr_busy r then dropRecord r q else q) rs (p\<lparr>pl_accepting := a, pl_drain := d\<rparr>) =
     (fold (\<lambda>r q. if \<not> pr_busy r then dropRecord r q else q) rs p)\<lparr>pl_accepting := a, pl_drain := d\<rparr>"
proof (induction rs arbitrary: p)
  case (Cons r rs)
  have "dropRecord r (p\<lparr>pl_accepting := a, pl_drain := d\<rparr>) = (dropRecord r p)\<lparr>pl_accepting := a, pl_drain := d\<rparr>"
    by (simp add: dropRecord_def changeCount_def countOf_def Let_def)
  then show ?case using Cons.IH by simp
qed simp

lemma pool_drain_inv:
  assumes ok: "pool_inv p" "quiescent p"
  shows "pool_inv (drainPool p) \<and> quiescent (drainPool p)"
proof (cases "pl_destroyed p \<or> pl_drain p \<noteq> Drain_None")
  case False
  have d: "distinct (map pr_id (pl_records p))" by (rule leases_okD(1) [OF pool_invD(2) [OF ok(1)]])
  define p2 where "p2 = fold (\<lambda>r q. if \<not> pr_busy r then dropRecord r q else q) (pl_records p) p"
  have L: "pool_inv p2" "pl_records p2 = filter (\<lambda>q. \<forall>r\<in>set (pl_records p). \<not> pr_busy r \<longrightarrow> pr_id q \<noteq> pr_id r) (pl_records p)"
    "same_phase p p2"
    using prune_loop [OF ok(1) order_refl d, of "\<lambda>r. \<not> pr_busy r"] unfolding p2_def by blast+
  note D = pool_invD [OF L(1)]
  let ?q = "p2\<lparr>pl_accepting := False, pl_drain := Drain_Pending\<rparr>"
  have "slots_ok ?q" by (rule slots_same [OF D(1)]) (simp_all add: same_caps_def slot_keys_def)
  moreover have "leases_ok ?q" by (rule leases_cong [OF D(2)]) simp_all
  moreover have "waiters_ok ?q" by (rule waiters_cong [OF D(3)]) (simp_all add: same_waiting_def)
  moreover have "phase_ok ?q"
    using False L(2,3) by (auto simp: phase_ok_def same_phase_def)
  ultimately have q: "pool_inv ?q" by (simp add: pool_inv_def)
  have e: "drainPool p = checkDrained (pump ?q)"
    using False by (simp add: drainPool_def Let_def drop_flags p2_def)
  have P: "pool_inv (pump ?q)" "quiescent (pump ?q)" using pump_inv [OF q] by blast+
  have b: "blocked (checkDrained s) v = blocked s v" for s v
    using checkDrained_fields(11) [of s] by (simp add: blocked_def same_caps_def)
  show ?thesis
    unfolding e using checkDrained_inv [OF P(1)] P(2) by (simp add: quiescent_def b)
qed (auto simp: drainPool_def ok)

lemma pool_reachable_inv:
  "pool_reachable p \<Longrightarrow> pool_inv p \<and> quiescent p"
proof (induction rule: pool_reachable.induct)
  case (pool_start maxConnections maxPerOrigin maxPending idleTimeoutMs p)
  then have p: "p = emptyPool maxConnections maxPerOrigin maxPending idleTimeoutMs" "1 \<le> maxConnections" "1 \<le> maxPerOrigin"
    by (simp_all add: newPool_def split: if_splits)
  show ?case
    using p(2,3) unfolding p(1)
    by (simp add: emptyPool_def pool_inv_def slots_ok_def leases_ok_def waiters_ok_def phase_ok_def quiescent_def
        slot_keys_def open_leases_def countOf_def)
next
  case (pool_event p e)
  then have ok: "pool_inv p" "quiescent p" by blast+
  show ?case
  proof (cases e)
    case (Ev_Acquire key aborted)
    then show ?thesis using acquire_inv [OF ok] by simp
  next
    case (Ev_Abort wid reason)
    then show ?thesis using abort_inv [OF ok] by simp
  next
    case (Ev_Connected wid)
    then show ?thesis using connected_inv [OF ok] by simp
  next
    case (Ev_Connect_Failed wid err)
    then show ?thesis using connect_failed_inv [OF ok] by simp
  next
    case (Ev_Release lid reusable)
    then show ?thesis using release_inv [OF ok] by simp
  next
    case (Ev_Detach lid)
    then show ?thesis using detach_inv [OF ok] by simp
  next
    case (Ev_Idle_Timer rid)
    then show ?thesis using idle_timer_inv [OF ok] by simp
  next
    case (Ev_Peer_Closed rid)
    then show ?thesis using update_inv [OF ok, of "\<lambda>q. q\<lparr>pr_closed := True\<rparr>"] by simp
  next
    case (Ev_Buffered rid n)
    then show ?thesis using update_inv [OF ok, of "\<lambda>q. if pr_busy q then q\<lparr>pr_buffered := n\<rparr> else q"] by simp
  next
    case Ev_Close
    then show ?thesis using pool_close_inv [OF ok] by simp
  next
    case Ev_Drain
    then show ?thesis using pool_drain_inv [OF ok] by simp
  qed
qed

section \<open>What the pool promises\<close>

lemma pool_run_reachable: "pool_reachable p \<Longrightarrow> pool_reachable (fold pool_step es p)"
  by (induction es arbitrary: p) (simp_all add: pool_reachable.pool_event)

text \<open>
  A pool of two connections, one for each origin: connection 0 to the origin \<open>a\<close> is busy and
  connection 1 to the origin \<open>b\<close> is idle.
\<close>

definition sample_pool :: "pool_event list \<Rightarrow> pool" where
  "sample_pool es = fold pool_step
     ([Ev_Acquire [97] None, Ev_Connected 0, Ev_Acquire [98] None, Ev_Connected 1, Ev_Release 1 True] @ es)
     (emptyPool 2 1 4 1000)"

lemma sample_reachable: "pool_reachable (sample_pool es)"
proof -
  have "newPool 2 1 4 1000 = Inr (emptyPool 2 1 4 1000)"
    by (simp add: newPool_def js_isSafeInteger_def MAX_SAFE_INTEGER_def)
  then show ?thesis unfolding sample_pool_def by (rule pool_run_reachable [OF pool_reachable.pool_start])
qed

lemma leases_within:
  assumes "leases_ok p" "\<not> pl_destroyed p" "l \<in> set (open_leases p)"
  shows "\<exists>r\<in>set (pl_records p). pr_id r = le_record l \<and> pr_busy r"
proof -
  obtain r where r: "r \<in> set (pl_records p)" "pr_id r = le_record l"
    using leases_okD(7) [OF assms(1,2)] assms(3) by force
  moreover have "pr_busy r" using leases_okD(6) [OF assms(1) r(1)] r(2) assms(3) by simp
  ultimately show ?thesis by blast
qed

lemma count_keys: "count (image_mset f (mset xs)) k = length (filter (\<lambda>x. f x = k) xs)"
  by (induction xs) simp_all

text \<open>
  C33: The pool's accounting is exact and its caps hold. In every state that events can lead to, the count
  of a key is the number of connections of that key that are open in the pool or being opened, at most the
  cap for an origin; the total is the number of all of them, at most the cap of the pool; and no more
  waiters are queued than allowed.
\<close>

theorem pool_capacity:
  assumes "pool_reachable p"
  shows "countOf p key = int (length (filter (\<lambda>r. pr_key r = key) (pl_records p))) +
             int (length (filter (\<lambda>w. wt_key w = key) (pl_connecting p))) \<and>
         countOf p key \<le> pl_maxPerOrigin p \<and>
         pl_total p = int (length (pl_records p)) + int (length (pl_connecting p)) \<and>
         pl_total p \<le> pl_maxConnections p \<and> length (pl_pending p) \<le> pl_maxPending p"
proof -
  have inv: "slots_ok p" "waiters_ok p" using pool_reachable_inv [OF assms] by (simp_all add: pool_inv_def)
  note slots = inv(1) [unfolded slots_ok_def]
  have "countOf p key = int (count (slot_keys p) key)" "int (count (slot_keys p) key) \<le> pl_maxPerOrigin p"
    "pl_total p = int (size (slot_keys p))" "int (size (slot_keys p)) \<le> pl_maxConnections p"
    using slots by blast+
  then show ?thesis using waiters_okD(2) [OF inv(2)] by (simp add: slot_keys_def count_keys)
qed

theorem pool_capacity_witness:
  "let p = sample_pool [Ev_Acquire [99] None] in
     countOf p [99] = 1 \<and> pl_total p = 2 \<and> pl_maxConnections p = 2 \<and> countOf p [99] \<le> pl_maxPerOrigin p"
proof -
  have "countOf (sample_pool [Ev_Acquire [99] None]) [99] = 1" "pl_total (sample_pool [Ev_Acquire [99] None]) = 2"
    "pl_maxConnections (sample_pool [Ev_Acquire [99] None]) = 2"
    by code_simp+
  then show ?thesis
    using pool_capacity [OF sample_reachable, of "[Ev_Acquire [99] None]" "[99]"] by (simp add: Let_def)
qed

text \<open>
  C34: A connection is never shared. Two leases that are not released are of different connections; a
  connection in the pool is busy exactly when there is such a lease of it; an idle one has no unread bytes
  and a timer that closes it; and while the pool is not closed, the connection of every lease that is not
  released is in the pool and busy.
\<close>

theorem pool_lease_exclusive:
  assumes "pool_reachable p"
  shows "distinct (map le_record (open_leases p)) \<and>
    (\<forall>r\<in>set (pl_records p). (pr_busy r \<longleftrightarrow> pr_id r \<in> le_record ` set (open_leases p)) \<and>
       (\<not> pr_busy r \<longrightarrow> pr_buffered r = 0 \<and> pr_timer r)) \<and>
    (\<not> pl_destroyed p \<longrightarrow>
       (\<forall>l\<in>set (open_leases p). \<exists>r\<in>set (pl_records p). pr_id r = le_record l \<and> pr_busy r))"
proof -
  have ok: "leases_ok p" using pool_reachable_inv [OF assms] by (simp add: pool_inv_def)
  show ?thesis using leases_okD(4,6,8,9) [OF ok] leases_within [OF ok] by blast
qed

theorem pool_lease_exclusive_witness:
  "let p = sample_pool [Ev_Acquire [98] None] in
     map pr_id (filter pr_busy (pl_records p)) = [0, 1] \<and> distinct (map le_record (open_leases p)) \<and>
     map le_record (open_leases p) = [0, 1]"
proof -
  have "map pr_id (filter pr_busy (pl_records (sample_pool [Ev_Acquire [98] None]))) = [0, 1]"
    "map le_record (open_leases (sample_pool [Ev_Acquire [98] None])) = [0, 1]"
    by code_simp+
  then show ?thesis
    using pool_lease_exclusive [OF sample_reachable, of "[Ev_Acquire [98] None]"] by (simp add: Let_def)
qed

text \<open>
  C35: No waiter is lost, answered twice or left waiting for nothing. A waiter has an answer unless it is in
  the queue or its connection is being opened; every lease was given to exactly one waiter; a queued waiter
  is blocked: no connection of its key is idle and either its origin has all it may have, or the pool is
  full of busy connections. Whenever someone is queued, a connection is on lease or being opened, whose end
  runs \<^verbatim>\<open>pump\<close> again.
\<close>

theorem pool_no_waiter_lost:
  assumes "pool_reachable p"
  shows "(pl_results p i = None \<longleftrightarrow> pl_nextWaiter p \<le> i \<or> i \<in> wt_id ` set (pl_pending p) \<or>
        (\<exists>w\<in>set (pl_connecting p). wt_id w = i \<and> wt_aborted w = None \<and> \<not> pl_destroyed p)) \<and>
    (\<forall>lid < length (pl_leases p). \<exists>!j. pl_results p j = Some (Acquired_Lease lid)) \<and>
    (\<forall>w\<in>set (pl_pending p). blocked p w) \<and>
    (pl_pending p \<noteq> [] \<longrightarrow> open_leases p \<noteq> [] \<or> pl_connecting p \<noteq> [])"
proof -
  have inv: "slots_ok p" "leases_ok p" "waiters_ok p" "quiescent p"
    using pool_reachable_inv [OF assms] by (simp_all add: pool_inv_def)
  have b: "\<forall>w\<in>set (pl_pending p). blocked p w" using inv(4) by (simp add: quiescent_def)
  have "open_leases p \<noteq> [] \<or> pl_connecting p \<noteq> []" if "pl_pending p \<noteq> []"
  proof -
    obtain w where w: "blocked p w" using b \<open>pl_pending p \<noteq> []\<close> by (cases "pl_pending p") auto
    have "\<exists>r\<in>set (pl_records p). pr_busy r" if "pl_connecting p = []"
    proof -
      note slots = inv(1) [unfolded slots_ok_def slot_keys_def that]
      have c: "countOf p (wt_key w) = int (length (filter (\<lambda>r. pr_key r = wt_key w) (pl_records p)))"
        "pl_total p = int (length (pl_records p))" "1 \<le> pl_maxPerOrigin p" "1 \<le> pl_maxConnections p"
        using slots by (simp_all add: count_keys)
      show ?thesis
      proof (cases "pl_maxPerOrigin p \<le> countOf p (wt_key w)")
        case True
        then have "filter (\<lambda>r. pr_key r = wt_key w) (pl_records p) \<noteq> []" using c(1,3) by auto
        then show ?thesis using w unfolding blocked_def by (auto simp: filter_empty_conv)
      next
        case False
        then have "pl_records p \<noteq> []" "\<forall>r\<in>set (pl_records p). pr_busy r" using w c(2,4) unfolding blocked_def by auto
        then show ?thesis by (cases "pl_records p") auto
      qed
    qed
    then show ?thesis using leases_okD(6) [OF inv(2)] by fastforce
  qed
  then show ?thesis by (intro conjI allI impI waiters_okD(4,8) [OF inv(3)] b)
qed

theorem pool_no_waiter_lost_witness:
  "let p = sample_pool [Ev_Acquire [97] None] in
     map wt_id (pl_pending p) = [2] \<and> pl_results p 2 = None \<and> (open_leases p \<noteq> [] \<or> pl_connecting p \<noteq> [])"
proof -
  let ?p = "sample_pool [Ev_Acquire [97] None]"
  have e: "map wt_id (pl_pending ?p) = [2]" by code_simp
  from arg_cong [OF e, of set] have "2 \<in> wt_id ` set (pl_pending ?p)" by (simp del: set_map add: set_map [symmetric])
  moreover have "pl_pending ?p \<noteq> []" using e by auto
  ultimately show ?thesis
    using pool_no_waiter_lost [OF sample_reachable, of "[Ev_Acquire [97] None]" 2] e unfolding Let_def by blast
qed

text \<open>
  C36: Draining ends, and only then. Once the pool does not accept waiters, every connection in it is busy;
  while the promise of \<^verbatim>\<open>drain\<close> is pending there is a waiter, a connection being opened or one on lease;
  it is resolved only when none of the three is left or the pool was closed, and closing leaves no waiter,
  no connection and no pending drain.
\<close>

theorem pool_drain_ends:
  assumes "pool_reachable p"
  shows "(\<not> pl_accepting p \<longrightarrow> (\<forall>r\<in>set (pl_records p). pr_busy r)) \<and>
    (pl_drain p = Drain_Pending \<longrightarrow> pl_pending p \<noteq> [] \<or> pl_connecting p \<noteq> [] \<or> open_leases p \<noteq> []) \<and>
    (pl_drain p = Drain_Resolved \<longrightarrow> pl_pending p = [] \<and> pl_records p = [] \<and> (pl_connecting p = [] \<or> pl_destroyed p)) \<and>
    (pl_destroyed p \<longrightarrow> pl_pending p = [] \<and> pl_records p = [] \<and> pl_drain p \<noteq> Drain_Pending)"
proof -
  have inv: "leases_ok p" "phase_ok p" "quiescent p"
    using pool_reachable_inv [OF assms] by (simp_all add: pool_inv_def)
  note P = phase_okD [OF inv(2)]
  have "open_leases p \<noteq> []" if "pl_drain p = Drain_Pending" "pl_pending p = []" "pl_connecting p = []"
  proof -
    have "pl_records p \<noteq> []" using inv(3) that by (simp add: quiescent_def)
    then obtain r where r: "r \<in> set (pl_records p)" by (cases "pl_records p") auto
    then have "pr_busy r" using P(1,5) that(1) by simp
    then show ?thesis using leases_okD(6) [OF inv(1) r] by auto
  qed
  then show ?thesis using P by blast
qed

theorem pool_drain_ends_witness:
  "let p = sample_pool [Ev_Drain] in
     pl_drain p = Drain_Pending \<and> map pr_id (pl_records p) = [0] \<and> pl_pending p = [] \<and> pl_connecting p = [] \<and> open_leases p \<noteq> []"
proof -
  let ?p = "sample_pool [Ev_Drain]"
  have "pl_drain ?p = Drain_Pending" "map pr_id (pl_records ?p) = [0]" "pl_pending ?p = []" "pl_connecting ?p = []"
    by code_simp+
  then show ?thesis
    using pool_drain_ends [OF sample_reachable, of "[Ev_Drain]"] by (simp add: Let_def)
qed

text \<open>
  \<^verbatim>\<open>pump\<close> reclaims an idle connection before it looks at the cap for the waiter's origin, so an idle
  connection of another origin can be closed for a waiter that stays in the queue all the same.
\<close>

lemma pool_reclaim_in_vain:
  "pl_shut (sample_pool []) = [] \<and> map pr_id (pl_records (sample_pool [])) = [0, 1] \<and>
   pl_shut (sample_pool [Ev_Acquire [97] None]) = [1] \<and> map pr_id (pl_records (sample_pool [Ev_Acquire [97] None])) = [0] \<and>
   map wt_id (pl_pending (sample_pool [Ev_Acquire [97] None])) = [2]"
  by code_simp

end
