(* ===== verification/Der.thy ===== *)
theory Der
  imports Nts_Prelude
begin

text \<open>
  The DER parser of \<^verbatim>\<open>runtime/web-platform/src/crypto/der.ts\<close>: the reader of tag, length and content,
  the validator of open attribute values with its explicit stack, and the key structures for RSA, EC, the
  Edwards and Montgomery curves and the lattice algorithms. \<^verbatim>\<open>invalidDer\<close> is the error \<open>DataError\<close>.
\<close>

section \<open>The reader\<close>

record der_reader =
  dr_bytes :: bytes
  dr_position :: nat
  dr_end :: nat

definition newDerReader :: "bytes \<Rightarrow> der_reader" where
  "newDerReader bs = \<lparr>dr_bytes = bs, dr_position = 0, dr_end = length bs\<rparr>"

definition der_done :: "der_reader \<Rightarrow> bool" where
  "der_done r \<longleftrightarrow> dr_position r = dr_end r"

definition der_complete :: "der_reader \<Rightarrow> unit result" where
  "der_complete r = (if \<not> der_done r then Inl DataError else Inr ())"

definition der_at :: "der_reader \<Rightarrow> byte" where
  "der_at r = dr_bytes r ! dr_position r"

definition der_skip :: "der_reader \<Rightarrow> der_reader" where
  "der_skip r = r\<lparr>dr_position := dr_position r + 1\<rparr>"

definition der_peek :: "der_reader \<Rightarrow> byte result" where
  "der_peek r = (if dr_position r \<ge> dr_end r then Inl DataError else Inr (der_at r))"

fun lengthLoop :: "bytes \<Rightarrow> nat \<Rightarrow> nat \<Rightarrow> nat \<Rightarrow> nat \<times> nat" where
  "lengthLoop bs 0 len position = (len, position)"
| "lengthLoop bs (Suc count) len position = lengthLoop bs count (len * 256 + unat (bs ! position)) (position + 1)"

definition der_window :: "nat \<Rightarrow> der_reader \<Rightarrow> (der_reader \<times> der_reader) result" where
  "der_window len r =
     (if len > dr_end r - dr_position r then Inl DataError
      else Inr (r\<lparr>dr_end := dr_position r + len\<rparr>, r\<lparr>dr_position := dr_position r + len\<rparr>))"

text \<open>\<^verbatim>\<open>readContent\<close> and \<^verbatim>\<open>read\<close> return the reader of the content, and this reader behind it.\<close>

definition readContent :: "der_reader \<Rightarrow> (der_reader \<times> der_reader) result" where
  "readContent r =
     (if dr_position r \<ge> dr_end r then Inl DataError
      else
        (let first = der_at r; r1 = der_skip r
         in if unat first \<ge> 128 then
              (let count = unat (first AND 127)
               in if count = 0 \<or> count > 6 \<or> count > dr_end r1 - dr_position r1 \<or> der_at r1 = 0 then Inl DataError
                  else
                    (let (len, position) = lengthLoop (dr_bytes r1) count 0 (dr_position r1)
                     in if len < 128 then Inl DataError else der_window len (r1\<lparr>dr_position := position\<rparr>)))
            else der_window (unat first) r1))"

definition der_read :: "byte \<Rightarrow> der_reader \<Rightarrow> (der_reader \<times> der_reader) result" where
  "der_read tag r =
     (if dr_position r \<ge> dr_end r \<or> der_at r \<noteq> tag then Inl DataError else readContent (der_skip r))"

definition der_content :: "der_reader \<Rightarrow> bytes" where
  "der_content r = js_slice (dr_bytes r) (dr_position r) (dr_end r)"

definition der_integer :: "bool \<Rightarrow> der_reader \<Rightarrow> (bytes \<times> der_reader) result" where
  "der_integer allowZero r =
     res_bind (der_read 2 r) (\<lambda>(value, r1).
       (let len = dr_end value - dr_position value; first = der_at value
        in if len = 0 then Inl DataError
           else if first AND 128 \<noteq> 0 then Inl DataError
           else if len > 1 \<and> first = 0 \<and> dr_bytes value ! (dr_position value + 1) AND 128 = 0 then Inl DataError
           else if \<not> allowZero \<and> len = 1 \<and> first = 0 then Inl DataError
           else Inr (js_slice (dr_bytes value) (dr_position value + (if len > 1 \<and> first = 0 then 1 else 0)) (dr_end value), r1)))"

section \<open>Open attribute values\<close>

text \<open>The octets of an object identifier: \<open>first\<close> says that a new arc begins.\<close>

fun oidLoop :: "bytes \<Rightarrow> bool \<Rightarrow> bool result" where
  "oidLoop [] first = Inr first"
| "oidLoop (octet # rest) first =
     (if first \<and> octet = 128 then Inl DataError else oidLoop rest (octet AND 128 = 0))"

definition readOid :: "der_reader \<Rightarrow> der_reader result" where
  "readOid r =
     res_bind (der_read 6 r) (\<lambda>(oid, r1).
       if der_done oid then Inl DataError
       else res_bind (oidLoop (der_content oid) True) (\<lambda>first. if \<not> first then Inl DataError else Inr r1))"

fun compareEncoding :: "bytes \<Rightarrow> bytes \<Rightarrow> int" where
  "compareEncoding (l # ls) (r # rs) =
     (let difference = uint l - uint r in if difference \<noteq> 0 then difference else compareEncoding ls rs)"
| "compareEncoding ls rs = int (length ls) - int (length rs)"

record der_frame =
  df_reader :: der_reader
  df_ordered :: bool
  df_previousStart :: int
  df_previousEnd :: int

definition newDerFrame :: "der_reader \<Rightarrow> bool \<Rightarrow> der_frame" where
  "newDerFrame r ordered = \<lparr>df_reader = r, df_ordered = ordered, df_previousStart = - 1, df_previousEnd = - 1\<rparr>"

text \<open>The long form of a tag: the loop over its octets with the saturated number.\<close>

function tagLoop :: "der_reader \<Rightarrow> int \<Rightarrow> (int \<times> der_reader) result" where
  "tagLoop r num =
     (if dr_position r \<ge> dr_end r then Inl DataError
      else
        (let octet = der_at r; r1 = der_skip r; num1 = (if num < 31 then num * 128 + uint (octet AND 127) else num)
         in if octet AND 128 = 0 then Inr (num1, r1) else tagLoop r1 num1))"
  by pat_completeness auto
termination by (relation "measure (\<lambda>(r, num). dr_end r - dr_position r)") (auto simp: der_skip_def)

declare tagLoop.simps [simp del]

text \<open>The checks on the content of a primitive value of a universal type.\<close>

definition primitiveValue :: "byte \<Rightarrow> der_reader \<Rightarrow> unit result" where
  "primitiveValue tag value =
     (let len = dr_end value - dr_position value; at = (\<lambda>i. dr_bytes value ! (dr_position value + i))
      in if tag = 16 \<or> tag = 17 then Inl DataError
         else if tag = 1 \<and> (len \<noteq> 1 \<or> at 0 \<noteq> 0 \<and> at 0 \<noteq> 255) then Inl DataError
         else if (tag = 2 \<or> tag = 10) \<and>
           (len = 0 \<or> len > 1 \<and> (at 0 = 0 \<and> at 1 AND 128 = 0 \<or> at 0 = 255 \<and> at 1 AND 128 \<noteq> 0)) then Inl DataError
         else if tag = 3 \<and>
           (len = 0 \<or> unat (at 0) > 7 \<or> len = 1 \<and> at 0 \<noteq> 0 \<or>
            len > 1 \<and> at (len - 1) AND (push_bit (unat (at 0)) 1 - 1) \<noteq> 0) then Inl DataError
         else if tag = 5 \<and> len \<noteq> 0 then Inl DataError
         else if tag = 6 then
           (if len = 0 then Inl DataError
            else res_bind (oidLoop (der_content value) True) (\<lambda>first. if \<not> first then Inl DataError else Inr ()))
         else Inr ())"

definition readAttributeValue :: "der_reader \<Rightarrow> (der_frame option \<times> der_reader) result" where
  "readAttributeValue r =
     res_bind (der_peek r) (\<lambda>tag.
       if tag AND 31 = 31 then
         (let r1 = der_skip r
          in if dr_position r1 \<ge> dr_end r1 \<or> der_at r1 = 128 then Inl DataError
             else res_bind (tagLoop r1 0) (\<lambda>(num, r2).
               if num < 31 then Inl DataError
               else res_bind (readContent r2) (\<lambda>(value, r3).
                 Inr (if tag AND 32 \<noteq> 0 then Some (newDerFrame value False) else None, r3))))
       else if tag = 0 then Inl DataError
       else res_bind (der_read tag r) (\<lambda>(value, r1).
         if tag AND 32 \<noteq> 0 then
           (if tag AND 192 = 0 \<and> tag \<noteq> 48 \<and> tag \<noteq> 49 then Inl DataError
            else Inr (Some (newDerFrame value (tag = 49)), r1))
         else if tag AND 192 \<noteq> 0 then Inr (None, r1)
         else res_bind (primitiveValue tag value) (\<lambda>_. Inr (None, r1))))"

text \<open>One turn of the validator's loop for the frame on top of the stack, which is not done.\<close>

definition frameTurn :: "der_frame \<Rightarrow> (der_frame option \<times> der_frame) result" where
  "frameTurn frame =
     (let start = dr_position (df_reader frame)
      in res_bind (readAttributeValue (df_reader frame)) (\<lambda>(nested, r).
        if df_ordered frame \<and> df_previousStart frame \<ge> 0 \<and>
           compareEncoding (js_slice (dr_bytes r) (nat (df_previousStart frame)) (nat (df_previousEnd frame)))
                           (js_slice (dr_bytes r) start (dr_position r)) > 0 then Inl DataError
        else Inr (nested, frame\<lparr>df_reader := r, df_previousStart := int start, df_previousEnd := int (dr_position r)\<rparr>)))"

definition frame_size :: "der_frame \<Rightarrow> nat" where
  "frame_size f = 2 * (dr_end (df_reader f) - dr_position (df_reader f)) + 1"

text \<open>What reading moves: the content lies behind the position and before the position behind it.\<close>

lemma lengthLoop_position: "snd (lengthLoop bs n len position) = position + n"
  by (induction n arbitrary: len position) simp_all

lemma der_window_moves:
  assumes "der_window len r = Inr (v, r')" "dr_position r \<le> dr_end r"
  shows "dr_bytes v = dr_bytes r" "dr_bytes r' = dr_bytes r" "dr_end r' = dr_end r" "dr_position v = dr_position r"
    "dr_end v = dr_position r'" "dr_position r' = dr_position r + len" "dr_position r' \<le> dr_end r"
  using assms by (auto simp: der_window_def split: if_splits)

lemma readContent_moves:
  assumes "readContent r = Inr (v, r')"
  shows "dr_bytes v = dr_bytes r \<and> dr_bytes r' = dr_bytes r \<and> dr_end r' = dr_end r \<and> dr_position r < dr_position v \<and>
    dr_position v \<le> dr_end v \<and> dr_end v = dr_position r' \<and> dr_position r' \<le> dr_end r"
proof -
  have lt: "dr_position r < dr_end r" using assms by (auto simp: readContent_def split: if_splits)
  let ?r1 = "der_skip r"
  have r1: "dr_position ?r1 = dr_position r + 1" "dr_end ?r1 = dr_end r" "dr_bytes ?r1 = dr_bytes r"
    by (simp_all add: der_skip_def)
  show ?thesis
  proof (cases "unat (der_at r) \<ge> 128")
    case False
    then have w: "der_window (unat (der_at r)) ?r1 = Inr (v, r')" using assms lt by (simp add: readContent_def Let_def)
    show ?thesis using der_window_moves [OF w] lt r1 by simp
  next
    case True
    define n where "n = unat (der_at r AND 127)"
    obtain len p where l: "lengthLoop (dr_bytes ?r1) n 0 (dr_position ?r1) = (len, p)" by fastforce
    have p: "p = dr_position r + 1 + n" using lengthLoop_position [of "dr_bytes ?r1" n 0 "dr_position ?r1"] l r1 by simp
    have n: "n \<le> dr_end ?r1 - dr_position ?r1" and w: "der_window len (?r1\<lparr>dr_position := p\<rparr>) = Inr (v, r')"
      using assms lt True l unfolding readContent_def Let_def n_def [symmetric] by (auto split: if_splits)
    show ?thesis using der_window_moves [OF w] n p r1 lt by simp
  qed
qed

lemma der_read_moves:
  assumes "der_read tag r = Inr (v, r')"
  shows "dr_bytes v = dr_bytes r \<and> dr_bytes r' = dr_bytes r \<and> dr_end r' = dr_end r \<and> dr_position r + 1 < dr_position v \<and>
    dr_position v \<le> dr_end v \<and> dr_end v = dr_position r' \<and> dr_position r' \<le> dr_end r"
  using assms readContent_moves [of "der_skip r" v r'] by (auto simp: der_read_def der_skip_def split: if_splits)

lemma tagLoop_moves:
  "tagLoop r n = Inr (m, r') \<Longrightarrow>
     dr_bytes r' = dr_bytes r \<and> dr_end r' = dr_end r \<and> dr_position r < dr_position r' \<and> dr_position r' \<le> dr_end r"
proof (induction r n rule: tagLoop.induct)
  case (1 r n)
  note eq = "1.prems" [unfolded tagLoop.simps [of r n]]
  show ?case
  proof (cases "der_at r AND 128 = 0")
    case True
    then show ?thesis using eq by (auto simp: Let_def der_skip_def split: if_splits)
  next
    case False
    have lt: "\<not> dr_position r \<ge> dr_end r" using eq by (auto split: if_splits)
    then have "tagLoop (der_skip r) (if n < 31 then n * 128 + uint (der_at r AND 127) else n) = Inr (m, r')"
      using eq False by (simp add: Let_def)
    from "1.IH" [OF lt refl refl refl False this] show ?thesis by (simp add: der_skip_def)
  qed
qed

lemma readAttributeValue_moves:
  assumes "readAttributeValue r = Inr (nested, r')"
  shows "dr_bytes r' = dr_bytes r \<and> dr_end r' = dr_end r \<and> dr_position r + 1 < dr_position r' \<and> dr_position r' \<le> dr_end r"
    and "nested = Some f \<Longrightarrow> dr_bytes (df_reader f) = dr_bytes r \<and> dr_position r + 1 < dr_position (df_reader f) \<and>
      dr_position (df_reader f) \<le> dr_end (df_reader f) \<and> dr_end (df_reader f) = dr_position r'"
proof -
  obtain tag where tag: "der_peek r = Inr tag" using assms by (cases "der_peek r") (simp_all add: readAttributeValue_def)
  have "(dr_bytes r' = dr_bytes r \<and> dr_end r' = dr_end r \<and> dr_position r + 1 < dr_position r' \<and> dr_position r' \<le> dr_end r) \<and>
    (nested = Some f \<longrightarrow> dr_bytes (df_reader f) = dr_bytes r \<and> dr_position r + 1 < dr_position (df_reader f) \<and>
      dr_position (df_reader f) \<le> dr_end (df_reader f) \<and> dr_end (df_reader f) = dr_position r')"
  proof (cases "tag AND 31 = 31")
    case True
    then obtain num r2 v where t: "tagLoop (der_skip r) 0 = Inr (num, r2)" and c: "readContent r2 = Inr (v, r')"
      and n: "nested = (if tag AND 32 \<noteq> 0 then Some (newDerFrame v False) else None)"
      using assms tag by (auto simp: readAttributeValue_def Let_def res_bind_Inr_iff split: if_splits)
    show ?thesis
      using tagLoop_moves [OF t] readContent_moves [OF c] n by (auto simp: der_skip_def newDerFrame_def split: if_splits)
  next
    case False
    then obtain v where c: "der_read tag r = Inr (v, r')"
      and n: "nested = Some (newDerFrame v (tag = 49)) \<or> nested = None"
      using assms tag by (auto simp: readAttributeValue_def Let_def res_bind_Inr_iff split: if_splits)
    show ?thesis using der_read_moves [OF c] n by (auto simp: newDerFrame_def)
  qed
  then show "dr_bytes r' = dr_bytes r \<and> dr_end r' = dr_end r \<and> dr_position r + 1 < dr_position r' \<and> dr_position r' \<le> dr_end r"
    "nested = Some f \<Longrightarrow> dr_bytes (df_reader f) = dr_bytes r \<and> dr_position r + 1 < dr_position (df_reader f) \<and>
      dr_position (df_reader f) \<le> dr_end (df_reader f) \<and> dr_end (df_reader f) = dr_position r'"
    by blast+
qed

lemma frameTurn_smaller:
  assumes "frameTurn frame = Inr (nested, frame')"
  shows "sum_list (map frame_size ((case nested of None \<Rightarrow> [] | Some f \<Rightarrow> [f]) @ frame' # stack)) <
    sum_list (map frame_size (frame # stack))"
proof -
  obtain r where r: "readAttributeValue (df_reader frame) = Inr (nested, r)" "df_reader frame' = r"
    using assms by (auto simp: frameTurn_def Let_def res_bind_Inr_iff split: if_splits)
  note m = readAttributeValue_moves [OF r(1)]
  show ?thesis
  proof (cases nested)
    case None
    then show ?thesis using m(1) r(2) by (simp add: frame_size_def) linarith
  next
    case (Some f)
    then show ?thesis using m(1) m(2) [OF Some] r(2) by (simp add: frame_size_def) linarith
  qed
qed

text \<open>The loop of \<^verbatim>\<open>attributeValue\<close>; the top of the stack is the head of the list.\<close>

function attributeStack :: "der_frame list \<Rightarrow> unit result" where
  "attributeStack [] = Inr ()"
| "attributeStack (frame # stack) =
     (if der_done (df_reader frame) then attributeStack stack
      else res_bind (frameTurn frame) (\<lambda>nf.
        attributeStack ((case fst nf of None \<Rightarrow> [] | Some f \<Rightarrow> [f]) @ snd nf # stack)))"
  by pat_completeness auto
termination
proof (relation "measure (\<lambda>stack. sum_list (map frame_size stack))")
  fix frame stack nf
  assume "frameTurn frame = Inr nf"
  then have "frameTurn frame = Inr (fst nf, snd nf)" by simp
  from frameTurn_smaller [OF this]
  show "((case fst nf of None \<Rightarrow> [] | Some f \<Rightarrow> [f]) @ snd nf # stack, frame # stack) \<in>
      measure (\<lambda>stack. sum_list (map frame_size stack))"
    by simp
qed (simp_all add: frame_size_def)

definition attributeValue :: "der_reader \<Rightarrow> der_reader result" where
  "attributeValue r =
     res_bind (readAttributeValue r) (\<lambda>(first, r1).
       case first of None \<Rightarrow> Inr r1 | Some frame \<Rightarrow> res_bind (attributeStack [frame]) (\<lambda>_. Inr r1))"

section \<open>Attributes\<close>

text \<open>
  The two nested loops over the attributes of a private key; \<open>previous\<close> is the encoding of the element
  before, \<^verbatim>\<open>undefined\<close> at the first. Both loops run while bytes are left.
\<close>

definition der_less :: "bytes option \<Rightarrow> bytes \<Rightarrow> bool" where
  "der_less previous current \<longleftrightarrow> (case previous of None \<Rightarrow> False | Some p \<Rightarrow> compareEncoding p current > 0)"

definition der_between :: "der_reader \<Rightarrow> der_reader \<Rightarrow> bytes" where
  "der_between r r' = js_slice (dr_bytes r) (dr_position r) (dr_position r')"

definition entryTurn :: "der_reader \<Rightarrow> bytes option \<Rightarrow> (der_reader \<times> bytes) result" where
  "entryTurn entries previous =
     res_bind (attributeValue entries) (\<lambda>entries1.
       if der_less previous (der_between entries entries1) then Inl DataError
       else Inr (entries1, der_between entries entries1))"

lemma attributeValue_moves:
  "attributeValue r = Inr r' \<Longrightarrow>
     dr_bytes r' = dr_bytes r \<and> dr_end r' = dr_end r \<and> dr_position r < dr_position r' \<and> dr_position r' \<le> dr_end r"
  by (auto simp: attributeValue_def res_bind_Inr_iff dest!: readAttributeValue_moves(1) split: option.splits)

function entriesLoop :: "der_reader \<Rightarrow> bytes option \<Rightarrow> unit result" where
  "entriesLoop entries previous =
     (if der_done entries then Inr ()
      else res_bind (entryTurn entries previous) (\<lambda>ep. entriesLoop (fst ep) (Some (snd ep))))"
  by pat_completeness auto
termination
proof (relation "measure (\<lambda>(entries, previous). dr_end entries - dr_position entries)")
  fix entries :: der_reader and previous :: "bytes option" and ep
  assume "entryTurn entries previous = Inr ep"
  then have "attributeValue entries = Inr (fst ep)"
    by (auto simp: entryTurn_def res_bind_Inr_iff split: if_splits)
  from attributeValue_moves [OF this]
  show "((fst ep, Some (snd ep)), entries, previous) \<in> measure (\<lambda>(entries, previous). dr_end entries - dr_position entries)"
    by simp linarith
qed simp

declare entriesLoop.simps [simp del]

definition attributeTurn :: "der_reader \<Rightarrow> bytes option \<Rightarrow> (der_reader \<times> bytes) result" where
  "attributeTurn values previous =
     res_bind (der_read 48 values) (\<lambda>(attribute, values1).
     res_bind (readOid attribute) (\<lambda>attribute1.
     res_bind (der_read 49 attribute1) (\<lambda>(entries, attribute2).
       if der_done entries then Inl DataError
       else
         res_bind (entriesLoop entries None) (\<lambda>_.
         res_bind (der_complete attribute2) (\<lambda>_.
           if der_less previous (der_between values values1) then Inl DataError
           else Inr (values1, der_between values values1))))))"

function attributesLoop :: "der_reader \<Rightarrow> bytes option \<Rightarrow> unit result" where
  "attributesLoop values previous =
     (if der_done values then Inr ()
      else res_bind (attributeTurn values previous) (\<lambda>vp. attributesLoop (fst vp) (Some (snd vp))))"
  by pat_completeness auto
termination
proof (relation "measure (\<lambda>(values, previous). dr_end values - dr_position values)")
  fix "values" :: der_reader and previous :: "bytes option" and vp
  assume "attributeTurn values previous = Inr vp"
  then obtain a where "der_read 48 values = Inr (a, fst vp)"
    by (auto simp: attributeTurn_def res_bind_Inr_iff split: if_splits)
  from der_read_moves [OF this]
  show "((fst vp, Some (snd vp)), values, previous) \<in> measure (\<lambda>(values, previous). dr_end values - dr_position values)"
    by simp linarith
qed simp

declare attributesLoop.simps [simp del]

definition attributes :: "der_reader \<Rightarrow> der_reader result" where
  "attributes r =
     res_bind (der_read 160 r) (\<lambda>(values, r1). res_bind (attributesLoop values None) (\<lambda>_. Inr r1))"

text \<open>\<^verbatim>\<open>if (!envelope.done()) attributes(envelope); envelope.complete();\<close>\<close>

definition optionalAttributes :: "der_reader \<Rightarrow> unit result" where
  "optionalAttributes envelope =
     res_bind (if \<not> der_done envelope then attributes envelope else Inr envelope) der_complete"

section \<open>Envelopes\<close>

datatype der_format = Spki | Pkcs8

definition readEnvelope :: "bytes \<Rightarrow> der_reader result" where
  "readEnvelope bs =
     res_bind (der_read 48 (newDerReader bs)) (\<lambda>(envelope, source).
     res_bind (der_complete source) (\<lambda>_. Inr envelope))"

text \<open>A version number and the reader behind it; a bit string without unused bits.\<close>

definition readVersion :: "bool \<Rightarrow> byte set \<Rightarrow> der_reader \<Rightarrow> (byte \<times> der_reader) result" where
  "readVersion allowZero allowed r =
     res_bind (der_integer allowZero r) (\<lambda>(version, r1).
       if length version \<noteq> 1 \<or> hd version \<notin> allowed then Inl DataError else Inr (hd version, r1))"

definition readBitString :: "der_reader \<Rightarrow> (der_reader \<times> der_reader) result" where
  "readBitString r =
     res_bind (der_read 3 r) (\<lambda>(publicKey, r1).
       if der_done publicKey \<or> der_at publicKey \<noteq> 0 then Inl DataError else Inr (der_skip publicKey, r1))"

section \<open>RSA\<close>

record rsa_private =
  rk_d :: bytes
  rk_p :: bytes
  rk_q :: bytes
  rk_dp :: bytes
  rk_dq :: bytes
  rk_qi :: bytes
  rk_oth :: "(bytes \<times> bytes \<times> bytes) list option"

record rsa_components =
  rsa_n :: bytes
  rsa_e :: bytes
  rsa_key :: "rsa_private option"

definition rsaEncryptionOid :: bytes where
  "rsaEncryptionOid = [0x2a, 0x86, 0x48, 0x86, 0xf7, 0x0d, 0x01, 0x01, 0x01]"

definition rsaAlgorithm :: "bool \<Rightarrow> der_reader \<Rightarrow> der_reader result" where
  "rsaAlgorithm requireNullParameters r =
     res_bind (der_read 48 r) (\<lambda>(algorithm, r1).
     res_bind (der_read 6 algorithm) (\<lambda>(oid, algorithm1).
       if der_content oid \<noteq> rsaEncryptionOid then Inl DataError
       else
         res_bind (if requireNullParameters \<or> \<not> der_done algorithm1
                   then res_bind (der_read 5 algorithm1) (\<lambda>(null, algorithm2).
                        res_bind (der_complete null) (\<lambda>_. Inr algorithm2))
                   else Inr algorithm1) (\<lambda>algorithm2.
         res_bind (der_complete algorithm2) (\<lambda>_. Inr r1))))"

definition publicComponents :: "der_reader \<Rightarrow> rsa_components result" where
  "publicComponents r =
     res_bind (der_read 48 r) (\<lambda>(key, r1).
     res_bind (der_complete r1) (\<lambda>_.
     res_bind (der_integer False key) (\<lambda>(n, key).
     res_bind (der_integer False key) (\<lambda>(e, key).
     res_bind (der_complete key) (\<lambda>_.
       Inr \<lparr>rsa_n = n, rsa_e = e, rsa_key = None\<rparr>)))))"

definition primeTurn :: "der_reader \<Rightarrow> ((bytes \<times> bytes \<times> bytes) \<times> der_reader) result" where
  "primeTurn others =
     res_bind (der_read 48 others) (\<lambda>(prime, others1).
     res_bind (der_integer False prime) (\<lambda>(r, prime).
     res_bind (der_integer False prime) (\<lambda>(d, prime).
     res_bind (der_integer False prime) (\<lambda>(t, prime).
     res_bind (der_complete prime) (\<lambda>_. Inr ((r, d, t), others1))))))"

lemma primeTurn_moves:
  "primeTurn r = Inr (x, r') \<Longrightarrow>
     dr_bytes r' = dr_bytes r \<and> dr_end r' = dr_end r \<and> dr_position r < dr_position r' \<and> dr_position r' \<le> dr_end r"
  by (auto simp: primeTurn_def res_bind_Inr_iff dest!: der_read_moves)

function othersLoop :: "der_reader \<Rightarrow> (bytes \<times> bytes \<times> bytes) list \<Rightarrow> (bytes \<times> bytes \<times> bytes) list result" where
  "othersLoop others oth =
     (if der_done others then Inr oth
      else res_bind (primeTurn others) (\<lambda>po. othersLoop (snd po) (oth @ [fst po])))"
  by pat_completeness auto
termination
proof (relation "measure (\<lambda>(others, oth). dr_end others - dr_position others)")
  fix others :: der_reader and oth :: "(bytes \<times> bytes \<times> bytes) list" and po
  assume "primeTurn others = Inr po"
  then have "primeTurn others = Inr (fst po, snd po)" by simp
  from primeTurn_moves [OF this]
  show "((snd po, oth @ [fst po]), others, oth) \<in> measure (\<lambda>(others, oth). dr_end others - dr_position others)"
    by simp linarith
qed simp

declare othersLoop.simps [simp del]

definition privateComponents :: "der_reader \<Rightarrow> rsa_components result" where
  "privateComponents r =
     res_bind (der_read 48 r) (\<lambda>(key, r1).
     res_bind (der_complete r1) (\<lambda>_.
     res_bind (readVersion True {0, 1} key) (\<lambda>(version, key).
     res_bind (der_integer False key) (\<lambda>(n, key).
     res_bind (der_integer False key) (\<lambda>(e, key).
     res_bind (der_integer False key) (\<lambda>(d, key).
     res_bind (der_integer False key) (\<lambda>(p, key).
     res_bind (der_integer False key) (\<lambda>(q, key).
     res_bind (der_integer False key) (\<lambda>(dp, key).
     res_bind (der_integer False key) (\<lambda>(dq, key).
     res_bind (der_integer False key) (\<lambda>(qi, key).
     (let components = (\<lambda>oth. \<lparr>rsa_n = n, rsa_e = e,
            rsa_key = Some \<lparr>rk_d = d, rk_p = p, rk_q = q, rk_dp = dp, rk_dq = dq, rk_qi = qi, rk_oth = oth\<rparr>\<rparr>)
      in if version = 0 then res_bind (der_complete key) (\<lambda>_. Inr (components None))
         else
           res_bind (der_read 48 key) (\<lambda>(others, key).
             if der_done others then Inl DataError
             else
               res_bind (othersLoop others []) (\<lambda>oth.
               res_bind (der_complete key) (\<lambda>_. Inr (components (Some oth)))))))))))))))))"

definition parseRsaDer :: "der_format \<Rightarrow> bytes \<Rightarrow> bool \<Rightarrow> rsa_components result" where
  "parseRsaDer format bs requireNullParameters =
     res_bind (readEnvelope bs) (\<lambda>envelope.
       case format of
         Spki \<Rightarrow>
           res_bind (rsaAlgorithm requireNullParameters envelope) (\<lambda>envelope.
           res_bind (readBitString envelope) (\<lambda>(publicKey, envelope).
           res_bind (der_complete envelope) (\<lambda>_. publicComponents publicKey)))
       | Pkcs8 \<Rightarrow>
           res_bind (readVersion True {0} envelope) (\<lambda>(_, envelope).
           res_bind (rsaAlgorithm requireNullParameters envelope) (\<lambda>envelope.
           res_bind (der_read 4 envelope) (\<lambda>(privateKey, envelope).
           res_bind (optionalAttributes envelope) (\<lambda>_. privateComponents privateKey)))))"

section \<open>Elliptic curves\<close>

datatype named_curve = P_256 | P_384 | P_521

fun ecCurveByteLength :: "named_curve \<Rightarrow> nat" where
  "ecCurveByteLength P_256 = 32"
| "ecCurveByteLength P_384 = 48"
| "ecCurveByteLength P_521 = 66"

definition ecPublicKeyOid :: bytes where
  "ecPublicKeyOid = [0x2a, 0x86, 0x48, 0xce, 0x3d, 0x02, 0x01]"

definition p256Oid :: bytes where
  "p256Oid = [0x2a, 0x86, 0x48, 0xce, 0x3d, 0x03, 0x01, 0x07]"

definition p384Oid :: bytes where
  "p384Oid = [0x2b, 0x81, 0x04, 0x00, 0x22]"

definition p521Oid :: bytes where
  "p521Oid = [0x2b, 0x81, 0x04, 0x00, 0x23]"

definition ecNamedCurve :: "der_reader \<Rightarrow> (named_curve \<times> der_reader) result" where
  "ecNamedCurve r =
     res_bind (der_read 6 r) (\<lambda>(value, r1).
       (let oid = der_content value
        in if oid = p256Oid then Inr (P_256, r1)
           else if oid = p384Oid then Inr (P_384, r1)
           else if oid = p521Oid then Inr (P_521, r1)
           else Inl DataError))"

definition ecAlgorithm :: "der_reader \<Rightarrow> (named_curve \<times> der_reader) result" where
  "ecAlgorithm r =
     res_bind (der_read 48 r) (\<lambda>(algorithm, r1).
     res_bind (der_read 6 algorithm) (\<lambda>(oid, algorithm).
       if der_content oid \<noteq> ecPublicKeyOid then Inl DataError
       else
         res_bind (ecNamedCurve algorithm) (\<lambda>(namedCurve, algorithm).
         res_bind (der_complete algorithm) (\<lambda>_. Inr (namedCurve, r1)))))"

definition parseEcPoint :: "bytes \<Rightarrow> named_curve \<Rightarrow> (bytes \<times> bytes) result" where
  "parseEcPoint bs namedCurve =
     (let width = ecCurveByteLength namedCurve
      in if length bs \<noteq> 1 + 2 * width \<or> bs ! 0 \<noteq> 4 then Inl DataError
         else Inr (js_slice bs 1 (1 + width), js_slice bs (1 + width) (1 + 2 * width)))"

definition ecBitString :: "named_curve \<Rightarrow> der_reader \<Rightarrow> ((bytes \<times> bytes) \<times> der_reader) result" where
  "ecBitString namedCurve r =
     res_bind (readBitString r) (\<lambda>(value, r1).
     res_bind (parseEcPoint (der_content value) namedCurve) (\<lambda>point. Inr (point, r1)))"

record ec_key =
  ec_namedCurve :: named_curve
  ec_point :: "(bytes \<times> bytes) option"
  ec_d :: "bytes option"

text \<open>The optional fields of \<^verbatim>\<open>ECPrivateKey\<close>: the curve's parameters and the public point.\<close>

definition ecParameters :: "bool \<Rightarrow> named_curve \<Rightarrow> der_reader \<Rightarrow> der_reader result" where
  "ecParameters requirePrivateFields namedCurve privateKey =
     (if \<not> der_done privateKey \<and> der_peek privateKey = Inr 160
      then
        res_bind (der_read 160 privateKey) (\<lambda>(parameters, privateKey).
        res_bind (ecNamedCurve parameters) (\<lambda>(inner, parameters).
          if inner \<noteq> namedCurve then Inl DataError
          else res_bind (der_complete parameters) (\<lambda>_. Inr privateKey)))
      else if requirePrivateFields then Inl DataError
      else Inr privateKey)"

definition ecPublicField :: "bool \<Rightarrow> named_curve \<Rightarrow> der_reader \<Rightarrow> ((bytes \<times> bytes) option \<times> der_reader) result" where
  "ecPublicField requirePrivateFields namedCurve privateKey =
     (if \<not> der_done privateKey \<and> der_peek privateKey = Inr 161
      then
        res_bind (der_read 161 privateKey) (\<lambda>(publicKey, privateKey).
        res_bind (ecBitString namedCurve publicKey) (\<lambda>(point, publicKey).
        res_bind (der_complete publicKey) (\<lambda>_. Inr (Some point, privateKey))))
      else if requirePrivateFields then Inl DataError
      else Inr (None, privateKey))"

definition ecPrivateKey :: "bool \<Rightarrow> named_curve \<Rightarrow> der_reader \<Rightarrow> ec_key result" where
  "ecPrivateKey requirePrivateFields namedCurve privateOctets =
     res_bind (der_read 48 privateOctets) (\<lambda>(privateKey, privateOctets).
     res_bind (der_complete privateOctets) (\<lambda>_.
     res_bind (readVersion False {1} privateKey) (\<lambda>(_, privateKey).
     res_bind (der_read 4 privateKey) (\<lambda>(dReader, privateKey).
       if length (der_content dReader) \<noteq> ecCurveByteLength namedCurve then Inl DataError
       else
         res_bind (ecParameters requirePrivateFields namedCurve privateKey) (\<lambda>privateKey.
         res_bind (ecPublicField requirePrivateFields namedCurve privateKey) (\<lambda>(point, privateKey).
         res_bind (der_complete privateKey) (\<lambda>_.
           Inr \<lparr>ec_namedCurve = namedCurve, ec_point = point, ec_d = Some (der_content dReader)\<rparr>)))))))"

definition parseEcDer :: "der_format \<Rightarrow> bytes \<Rightarrow> bool \<Rightarrow> ec_key result" where
  "parseEcDer format bs requirePrivateFields =
     res_bind (readEnvelope bs) (\<lambda>envelope.
       case format of
         Spki \<Rightarrow>
           res_bind (ecAlgorithm envelope) (\<lambda>(namedCurve, envelope).
           res_bind (ecBitString namedCurve envelope) (\<lambda>(point, envelope).
           res_bind (der_complete envelope) (\<lambda>_.
             Inr \<lparr>ec_namedCurve = namedCurve, ec_point = Some point, ec_d = None\<rparr>)))
       | Pkcs8 \<Rightarrow>
           res_bind (readVersion True {0} envelope) (\<lambda>(_, envelope).
           res_bind (ecAlgorithm envelope) (\<lambda>(namedCurve, envelope).
           res_bind (der_read 4 envelope) (\<lambda>(privateOctets, envelope).
           res_bind (optionalAttributes envelope) (\<lambda>_.
             ecPrivateKey requirePrivateFields namedCurve privateOctets)))))"

section \<open>Edwards and Montgomery curves\<close>

datatype okp_curve = Ed25519 | X25519 | Ed448 | X448

fun okpCurveByteLength :: "okp_curve \<Rightarrow> nat" where
  "okpCurveByteLength Ed25519 = 32"
| "okpCurveByteLength X25519 = 32"
| "okpCurveByteLength Ed448 = 57"
| "okpCurveByteLength X448 = 56"

record okp_key =
  okp_namedCurve :: okp_curve
  okp_x :: "bytes option"
  okp_d :: "bytes option"

definition okpCurve :: "bytes \<Rightarrow> okp_curve result" where
  "okpCurve oid =
     (if length oid \<noteq> 3 \<or> oid ! 0 \<noteq> 0x2b \<or> oid ! 1 \<noteq> 0x65 then Inl DataError
      else if oid ! 2 = 0x70 then Inr Ed25519
      else if oid ! 2 = 0x6e then Inr X25519
      else if oid ! 2 = 0x71 then Inr Ed448
      else if oid ! 2 = 0x6f then Inr X448
      else Inl DataError)"

definition okpAlgorithm :: "der_reader \<Rightarrow> (okp_curve \<times> der_reader) result" where
  "okpAlgorithm r =
     res_bind (der_read 48 r) (\<lambda>(algorithm, r1).
     res_bind (der_read 6 algorithm) (\<lambda>(oid, algorithm).
     res_bind (der_complete algorithm) (\<lambda>_.
     res_bind (okpCurve (der_content oid)) (\<lambda>curve. Inr (curve, r1)))))"

definition parseOkpDer :: "der_format \<Rightarrow> bytes \<Rightarrow> okp_key result" where
  "parseOkpDer format bs =
     res_bind (readEnvelope bs) (\<lambda>envelope.
       case format of
         Spki \<Rightarrow>
           res_bind (okpAlgorithm envelope) (\<lambda>(namedCurve, envelope).
           res_bind (readBitString envelope) (\<lambda>(publicKey, envelope).
             if length (der_content publicKey) \<noteq> okpCurveByteLength namedCurve then Inl DataError
             else res_bind (der_complete envelope) (\<lambda>_.
               Inr \<lparr>okp_namedCurve = namedCurve, okp_x = Some (der_content publicKey), okp_d = None\<rparr>)))
       | Pkcs8 \<Rightarrow>
           res_bind (readVersion True {0} envelope) (\<lambda>(_, envelope).
           res_bind (okpAlgorithm envelope) (\<lambda>(namedCurve, envelope).
           res_bind (der_read 4 envelope) (\<lambda>(privateOctets, envelope).
           res_bind (optionalAttributes envelope) (\<lambda>_.
           res_bind (der_read 4 privateOctets) (\<lambda>(d, privateOctets).
           res_bind (der_complete privateOctets) (\<lambda>_.
             if length (der_content d) \<noteq> okpCurveByteLength namedCurve then Inl DataError
             else Inr \<lparr>okp_namedCurve = namedCurve, okp_x = None, okp_d = Some (der_content d)\<rparr>)))))))"

section \<open>Lattice algorithms\<close>

datatype ml_name = ML_DSA_44 | ML_DSA_65 | ML_DSA_87 | ML_KEM_512 | ML_KEM_768 | ML_KEM_1024

definition isMlKemAlgorithm :: "ml_name \<Rightarrow> bool" where
  "isMlKemAlgorithm name \<longleftrightarrow> name = ML_KEM_512 \<or> name = ML_KEM_768 \<or> name = ML_KEM_1024"

definition mlPublicKeyLength :: "ml_name \<Rightarrow> nat" where
  "mlPublicKeyLength name =
     (if isMlKemAlgorithm name then (if name = ML_KEM_512 then 800 else if name = ML_KEM_768 then 1184 else 1568)
      else if name = ML_DSA_44 then 1312 else if name = ML_DSA_65 then 1952 else 2592)"

definition mlSeedLength :: "ml_name \<Rightarrow> nat" where
  "mlSeedLength name = (if isMlKemAlgorithm name then 64 else 32)"

definition mlExpandedKeyLength :: "ml_name \<Rightarrow> nat" where
  "mlExpandedKeyLength name =
     (if isMlKemAlgorithm name then (if name = ML_KEM_512 then 1632 else if name = ML_KEM_768 then 2400 else 3168)
      else if name = ML_DSA_44 then 2560 else if name = ML_DSA_65 then 4032 else 4896)"

record ml_key =
  ml_algorithm :: ml_name
  ml_pub :: "bytes option"
  ml_seed :: "bytes option"
  ml_expanded :: "bytes option"

definition mlOidPrefix :: bytes where
  "mlOidPrefix = [0x60, 0x86, 0x48, 0x01, 0x65, 0x03, 0x04]"

definition mlName :: "bytes \<Rightarrow> ml_name result" where
  "mlName oid =
     (if length oid \<noteq> length mlOidPrefix + 2 \<or> take (length mlOidPrefix) oid \<noteq> mlOidPrefix then Inl DataError
      else if oid ! 7 = 3 then
        (if oid ! 8 = 17 then Inr ML_DSA_44
         else if oid ! 8 = 18 then Inr ML_DSA_65
         else if oid ! 8 = 19 then Inr ML_DSA_87
         else Inl DataError)
      else if oid ! 7 = 4 then
        (if oid ! 8 = 1 then Inr ML_KEM_512
         else if oid ! 8 = 2 then Inr ML_KEM_768
         else if oid ! 8 = 3 then Inr ML_KEM_1024
         else Inl DataError)
      else Inl DataError)"

definition mlAlgorithm :: "der_reader \<Rightarrow> (ml_name \<times> der_reader) result" where
  "mlAlgorithm r =
     res_bind (der_read 48 r) (\<lambda>(algorithm, r1).
     res_bind (der_read 6 algorithm) (\<lambda>(oid, algorithm).
     res_bind (der_complete algorithm) (\<lambda>_.
     res_bind (mlName (der_content oid)) (\<lambda>name. Inr (name, r1)))))"

text \<open>The three forms of a private key: the seed, the expanded key, or both.\<close>

definition mlPrivate :: "der_reader \<Rightarrow> (bytes option \<times> bytes option) result" where
  "mlPrivate privateOctets =
     res_bind (der_peek privateOctets) (\<lambda>tag.
     res_bind
       (if tag = 128 then
          res_bind (der_read 128 privateOctets) (\<lambda>(seed, privateOctets). Inr (Some (der_content seed), None, privateOctets))
        else if tag = 4 then
          res_bind (der_read 4 privateOctets) (\<lambda>(expanded, privateOctets). Inr (None, Some (der_content expanded), privateOctets))
        else
          res_bind (der_read 48 privateOctets) (\<lambda>(both, privateOctets).
          res_bind (der_read 4 both) (\<lambda>(seed, both).
          res_bind (der_read 4 both) (\<lambda>(expanded, both).
          res_bind (der_complete both) (\<lambda>_.
            Inr (Some (der_content seed), Some (der_content expanded), privateOctets))))))
       (\<lambda>(seed, expanded, privateOctets).
         res_bind (der_complete privateOctets) (\<lambda>_. Inr (seed, expanded))))"

definition wrongLength :: "bytes option \<Rightarrow> nat \<Rightarrow> bool" where
  "wrongLength bs n \<longleftrightarrow> (case bs of None \<Rightarrow> False | Some b \<Rightarrow> length b \<noteq> n)"

definition parseMlDer :: "der_format \<Rightarrow> bytes \<Rightarrow> ml_key result" where
  "parseMlDer format bs =
     res_bind (readEnvelope bs) (\<lambda>envelope.
       case format of
         Spki \<Rightarrow>
           res_bind (mlAlgorithm envelope) (\<lambda>(name, envelope).
           res_bind (readBitString envelope) (\<lambda>(publicKey, envelope).
             if length (der_content publicKey) \<noteq> mlPublicKeyLength name then Inl DataError
             else res_bind (der_complete envelope) (\<lambda>_.
               Inr \<lparr>ml_algorithm = name, ml_pub = Some (der_content publicKey), ml_seed = None, ml_expanded = None\<rparr>)))
       | Pkcs8 \<Rightarrow>
           res_bind (readVersion True {0} envelope) (\<lambda>(_, envelope).
           res_bind (mlAlgorithm envelope) (\<lambda>(name, envelope).
           res_bind (der_read 4 envelope) (\<lambda>(privateOctets, envelope).
           res_bind (optionalAttributes envelope) (\<lambda>_.
           res_bind (mlPrivate privateOctets) (\<lambda>(seed, expanded).
             if wrongLength seed (mlSeedLength name) \<or> wrongLength expanded (mlExpandedKeyLength name) then Inl DataError
             else Inr \<lparr>ml_algorithm = name, ml_pub = None, ml_seed = seed, ml_expanded = expanded\<rparr>))))))"

end
