(* ===== verification/Der_Encoding.thy ===== *)
theory Der_Encoding
  imports Der
begin

text \<open>
  The encoding of DER as a function of tag and content, and the reader as its inverse: what each reading
  operation returns is described by the bytes the reader holds. Then integers, and octets in base 128.
\<close>

section \<open>The encoding\<close>

text \<open>A tag, the shortest length in at most six octets, and the content.\<close>

fun base256 :: "nat \<Rightarrow> bytes" where
  "base256 n = (if n = 0 then [] else base256 (n div 256) @ [word_of_nat n])"

declare base256.simps [simp del]

definition der_length :: "nat \<Rightarrow> bytes" where
  "der_length n = (if n < 128 then [word_of_nat n] else word_of_nat (128 + length (base256 n)) # base256 n)"

definition der :: "byte \<Rightarrow> bytes \<Rightarrow> bytes" where
  "der tag c = tag # der_length (length c) @ c"

definition der_small :: "bytes \<Rightarrow> bool" where
  "der_small c \<longleftrightarrow> length c < 256 ^ 6"

definition big_endian :: "nat \<Rightarrow> bytes \<Rightarrow> nat" where
  "big_endian = foldl (\<lambda>a b. a * 256 + unat b)"

lemma word_of_unat: "word_of_nat (unat b) = (b :: byte)"
  by (rule unsigned_word_eqI [where 'a = nat]) (simp add: unat_of_nat unat_byte_less)

lemma big_endian_simps [simp]:
  "big_endian a [] = a" "big_endian a (b # bs) = big_endian (a * 256 + unat b) bs"
  "big_endian a (xs @ ys) = big_endian (big_endian a xs) ys"
  by (simp_all add: big_endian_def)

lemma base256_big_endian: "big_endian 0 (base256 n) = n"
  by (induction n rule: base256.induct) (subst base256.simps, simp add: unat_of_nat)

lemma base256_step: "0 < a \<Longrightarrow> base256 (a * 256 + unat (b :: byte)) = base256 a @ [b]"
proof -
  assume "0 < a"
  have lt: "unat b < 256" by (rule unat_byte_less)
  have e: "(a * 256 + unat b) div 256 = a" "a * 256 + unat b \<noteq> 0" using lt \<open>0 < a\<close> by simp_all
  have w: "word_of_nat (a * 256 + unat b) = b"
    by (rule unsigned_word_eqI [where 'a = nat]) (simp only: unat_of_nat, simp add: lt)
  show ?thesis by (subst base256.simps) (simp only: e w if_False)
qed

lemma base256_digit: "b \<noteq> 0 \<Longrightarrow> base256 (unat (b :: byte)) = [b]"
proof -
  assume "b \<noteq> 0"
  have lt: "unat b < 256" by (rule unat_byte_less)
  have "unat b \<noteq> 0" using \<open>b \<noteq> 0\<close> by (simp add: unat_eq_0)
  then show ?thesis using lt by (subst base256.simps) (simp add: base256.simps [of 0])
qed

lemma base256_inverse_pos: "0 < a \<Longrightarrow> base256 (big_endian a bs) = base256 a @ bs"
proof (induction bs arbitrary: a)
  case (Cons b bs)
  have "base256 (big_endian (a * 256 + unat b) bs) = base256 (a * 256 + unat b) @ bs"
    by (rule Cons.IH) (use Cons.prems in simp)
  then show ?case by (simp add: base256_step [OF Cons.prems])
qed simp

lemma base256_inverse: "bs \<noteq> [] \<Longrightarrow> hd bs \<noteq> 0 \<Longrightarrow> base256 (big_endian 0 bs) = bs"
proof (cases bs)
  case (Cons b cs)
  assume "hd bs \<noteq> 0"
  then have "b \<noteq> 0" using Cons by simp
  then have "0 < unat b" by (simp add: unat_gt_0)
  then show ?thesis using base256_inverse_pos [of "unat b" cs] base256_digit [OF \<open>b \<noteq> 0\<close>] Cons by simp
qed simp

lemma base256_shape: "n \<noteq> 0 \<Longrightarrow> base256 n \<noteq> [] \<and> hd (base256 n) \<noteq> 0"
proof (induction n rule: base256.induct)
  case (1 n)
  show ?case
  proof (cases "n div 256 = 0")
    case True
    then have lt: "n < 256" by simp
    then have b: "base256 n = [word_of_nat n]" using "1.prems" by (subst base256.simps) (simp add: base256.simps [of 0])
    have "unat (word_of_nat n :: byte) = n" using lt by (simp add: unat_of_nat)
    then have "(word_of_nat n :: byte) \<noteq> 0" using "1.prems" by (metis unat_0)
    then show ?thesis by (simp add: b)
  next
    case False
    then have "base256 (n div 256) \<noteq> [] \<and> hd (base256 (n div 256)) \<noteq> 0" using "1.IH" "1.prems" by simp
    moreover have "base256 n = base256 (n div 256) @ [word_of_nat n]" using "1.prems" by (subst base256.simps) simp
    ultimately show ?thesis by simp
  qed
qed

lemma base256_length: "length (base256 n) \<le> k \<longleftrightarrow> n < 256 ^ k"
proof (induction k arbitrary: n)
  case 0
  show ?case using base256_shape [of n] by (cases "n = 0") (simp_all add: base256.simps [of 0])
next
  case (Suc k)
  show ?case
  proof (cases "n = 0")
    case False
    then have "length (base256 n) \<le> Suc k \<longleftrightarrow> length (base256 (n div 256)) \<le> k" by (subst base256.simps) simp
    also have "\<dots> \<longleftrightarrow> n div 256 < 256 ^ k" by (rule Suc.IH)
    also have "\<dots> \<longleftrightarrow> n < 256 ^ Suc k" by (simp add: div_less_iff_less_mult mult.commute)
    finally show ?thesis .
  qed (simp add: base256.simps [of 0])
qed

section \<open>Reading a length\<close>

definition take_length :: "bytes \<Rightarrow> (nat \<times> bytes) option" where
  "take_length xs =
     (case xs of [] \<Rightarrow> None
      | b # ys \<Rightarrow>
          if unat b \<ge> 128 then
            (let count = unat (b AND 127)
             in if count = 0 \<or> count > 6 \<or> count > length ys \<or> hd ys = 0 then None
                else let n = big_endian 0 (take count ys) in if n < 128 then None else Some (n, drop count ys))
          else Some (unat b, ys))"

lemma byte_and_127: "unat (b AND 127 :: byte) = unat b mod 128"
proof -
  have "b AND 127 = take_bit 7 b" by (simp add: take_bit_eq_mask mask_eq_exp_minus_1)
  then have "unat (b AND 127) = take_bit 7 (unat b)" by (simp only: unsigned_take_bit_eq)
  then show ?thesis by (simp add: take_bit_eq_mod)
qed

lemma take_length_iff: "take_length xs = Some (n, ys) \<longleftrightarrow> xs = der_length n @ ys \<and> n < 256 ^ 6"
proof
  assume t: "take_length xs = Some (n, ys)"
  then obtain b zs where xs: "xs = b # zs" by (cases xs) (simp_all add: take_length_def)
  show "xs = der_length n @ ys \<and> n < 256 ^ 6"
  proof (cases "unat b \<ge> 128")
    case False
    then have n: "n = unat b" "ys = zs" using t xs by (simp_all add: take_length_def)
    then have "b = word_of_nat n" by (metis word_of_unat)
    then show ?thesis using False n xs by (simp add: der_length_def)
  next
    case True
    define c where "c = unat b mod 128"
    have c: "unat (b AND 127) = c" by (simp add: byte_and_127 c_def)
    have f: "c \<noteq> 0" "c \<le> 6" "c \<le> length zs" "hd zs \<noteq> 0" "n = big_endian 0 (take c zs)" "128 \<le> n" "ys = drop c zs"
      using t xs True by (auto simp: take_length_def c Let_def split: if_splits)
    have ne: "take c zs \<noteq> []" "hd (take c zs) \<noteq> 0" using f(1,3,4) by (cases zs; cases c; simp)+
    have bs: "base256 n = take c zs" using base256_inverse [OF ne] f(5) by simp
    have lb: "unat b < 256" by (rule unat_byte_less)
    have "unat b = 128 + c" using True lb le_mod_geq [of 128 "unat b"] unfolding c_def by simp
    then have b: "b = word_of_nat (128 + c)" by (metis word_of_unat)
    have "length (take c zs) = c" using f(3) by simp
    then show ?thesis using base256_length [of n 6] f b bs by (simp add: xs der_length_def)
  qed
next
  assume a: "xs = der_length n @ ys \<and> n < 256 ^ 6"
  show "take_length xs = Some (n, ys)"
  proof (cases "n < 128")
    case True
    then have "unat (word_of_nat n :: byte) = n" by (simp add: unat_of_nat)
    then show ?thesis using a True by (simp add: take_length_def der_length_def)
  next
    case False
    let ?bs = "base256 n"
    have l: "length ?bs \<le> 6" using base256_length [of n 6] a by simp
    have s: "?bs \<noteq> []" "hd ?bs \<noteq> 0" using base256_shape [of n] False by simp_all
    have u: "unat (word_of_nat (128 + length ?bs) :: byte) = 128 + length ?bs" using l by (simp only: unat_of_nat) simp
    have m: "(128 + length ?bs) mod 128 = length ?bs" using l by simp
    have h: "hd (?bs @ ys) \<noteq> 0" using s by simp
    have x: "xs = word_of_nat (128 + length ?bs) # ?bs @ ys" using a False by (simp add: der_length_def)
    have "length ?bs \<noteq> 0" using s by simp
    then show ?thesis
      unfolding x take_length_def list.case byte_and_127 u m Let_def
      using l h False s by (simp add: base256_big_endian)
  qed
qed

section \<open>Readers as their contents\<close>

definition der_wf :: "der_reader \<Rightarrow> bool" where
  "der_wf r \<longleftrightarrow> dr_position r \<le> dr_end r \<and> dr_end r \<le> length (dr_bytes r)"

lemma newDerReader_wf [simp]: "der_wf (newDerReader bs)" "der_content (newDerReader bs) = bs"
  by (simp_all add: der_wf_def newDerReader_def der_content_def js_slice_def)

lemma der_content_length: "der_wf r \<Longrightarrow> length (der_content r) = dr_end r - dr_position r"
  by (auto simp: der_wf_def der_content_def js_slice_def min_def)

lemma der_content_tail:
  assumes "i \<le> dr_end r - dr_position r" "dr_position r \<le> dr_end r"
  shows "der_content (r\<lparr>dr_position := dr_end r - i\<rparr>) = drop (dr_end r - dr_position r - i) (der_content r)"
proof -
  have e: "dr_end r - dr_position r - (dr_end r - dr_position r - i) = i"
    "dr_end r - dr_position r - i + dr_position r = dr_end r - i" "dr_end r - (dr_end r - i) = i"
    using assms by simp_all
  have "drop (dr_end r - dr_position r - i) (der_content r) =
      take i (drop (dr_end r - dr_position r - i + dr_position r) (dr_bytes r))"
    by (simp only: der_content_def js_slice_def drop_take drop_drop e(1))
  then show ?thesis by (simp add: der_content_def js_slice_def e del: diff_diff_left)
qed

lemma der_done_iff: "der_wf r \<Longrightarrow> der_done r \<longleftrightarrow> der_content r = []"
  using der_content_length [of r] by (cases "der_content r") (auto simp: der_wf_def der_done_def)

lemma der_complete_iff: "der_wf r \<Longrightarrow> der_complete r = Inr u \<longleftrightarrow> der_content r = []"
  by (simp add: der_complete_def der_done_iff)

lemma der_content_nth: "der_wf r \<Longrightarrow> dr_position r + i < dr_end r \<Longrightarrow> dr_bytes r ! (dr_position r + i) = der_content r ! i"
  by (simp add: der_wf_def der_content_def js_slice_def)

lemma der_content_Cons:
  assumes "der_wf r" "dr_position r < dr_end r"
  shows "der_content r = der_at r # der_content (der_skip r)" and "der_wf (der_skip r)"
proof -
  have "drop (dr_position r) (dr_bytes r) = dr_bytes r ! dr_position r # drop (Suc (dr_position r)) (dr_bytes r)"
    using assms by (intro Cons_nth_drop_Suc [symmetric]) (simp add: der_wf_def)
  moreover have "dr_end r - dr_position r = Suc (dr_end r - Suc (dr_position r))" using assms(2) by simp
  ultimately show "der_content r = der_at r # der_content (der_skip r)"
    by (simp add: der_content_def js_slice_def der_at_def der_skip_def)
  show "der_wf (der_skip r)" using assms by (simp add: der_wf_def der_skip_def)
qed

lemma der_empty_iff: "der_wf r \<Longrightarrow> dr_position r \<ge> dr_end r \<longleftrightarrow> der_content r = []"
  using der_content_length [of r] by (cases "der_content r") auto

lemma der_peek_iff: "der_wf r \<Longrightarrow> der_peek r = Inr b \<longleftrightarrow> (\<exists>ys. der_content r = b # ys)"
  using der_content_Cons(1) [of r] der_empty_iff [of r] by (auto simp: der_peek_def)

lemma lengthLoop_value:
  "position + n \<le> length bs \<Longrightarrow> fst (lengthLoop bs n len position) = big_endian len (take n (drop position bs))"
proof (induction n arbitrary: len position)
  case (Suc n)
  have "drop position bs = bs ! position # drop (Suc position) bs"
    using Suc.prems by (intro Cons_nth_drop_Suc [symmetric]) simp
  then show ?case using Suc by simp
qed simp

lemma der_window_content:
  assumes "der_wf r"
  shows "der_window len r = Inr (v, r') \<Longrightarrow>
      der_wf v \<and> der_wf r' \<and> der_content r = der_content v @ der_content r' \<and> length (der_content v) = len"
    and "len \<le> length (der_content r) \<Longrightarrow> \<exists>v r'. der_window len r = Inr (v, r')"
proof -
  have l: "length (der_content r) = dr_end r - dr_position r" by (rule der_content_length [OF assms])
  show "der_wf v \<and> der_wf r' \<and> der_content r = der_content v @ der_content r' \<and> length (der_content v) = len"
    if w: "der_window len r = Inr (v, r')"
  proof -
    have f: "len \<le> dr_end r - dr_position r" "v = r\<lparr>dr_end := dr_position r + len\<rparr>" "r' = r\<lparr>dr_position := dr_position r + len\<rparr>"
      using w by (auto simp: der_window_def split: if_splits)
    have wf: "der_wf v" "der_wf r'" using assms f(1) by (auto simp: f(2,3) der_wf_def)
    have a: "len + (dr_end r - (dr_position r + len)) = dr_end r - dr_position r" using f(1) assms by (simp add: der_wf_def)
    have "take len (drop (dr_position r) (dr_bytes r)) @ take (dr_end r - (dr_position r + len)) (drop (dr_position r + len) (dr_bytes r))
        = take (dr_end r - dr_position r) (drop (dr_position r) (dr_bytes r))"
      using take_add [of len "dr_end r - (dr_position r + len)" "drop (dr_position r) (dr_bytes r)"]
      by (simp add: a [unfolded add.commute [of len "dr_end r - (dr_position r + len)"]] a add.commute [of len "dr_position r"])
    then have "der_content r = der_content v @ der_content r'" by (simp add: f(2,3) der_content_def js_slice_def)
    then show ?thesis using wf der_content_length [OF wf(1)] f(2) by simp
  qed
  show "len \<le> length (der_content r) \<Longrightarrow> \<exists>v r'. der_window len r = Inr (v, r')" by (simp add: l der_window_def)
qed

lemma readContent_take:
  assumes wf: "der_wf r"
  shows "readContent r =
    (case take_length (der_content r) of None \<Rightarrow> Inl DataError
     | Some (n, ys) \<Rightarrow> der_window n (r\<lparr>dr_position := dr_end r - length ys\<rparr>))"
proof (cases "dr_position r < dr_end r")
  case False
  then show ?thesis using der_empty_iff [OF wf] by (simp add: readContent_def take_length_def)
next
  case True
  let ?r1 = "der_skip r" and ?b = "der_at r"
  note C = der_content_Cons [OF wf True]
  have r1: "dr_position ?r1 = dr_position r + 1" "dr_end ?r1 = dr_end r" "dr_bytes ?r1 = dr_bytes r"
    by (simp_all add: der_skip_def)
  have len: "length (der_content ?r1) = dr_end r - (dr_position r + 1)" using der_content_length [OF C(2)] r1 by simp
  show ?thesis
  proof (cases "unat ?b \<ge> 128")
    case False
    have "dr_end r - length (der_content ?r1) = dr_position r + 1" using len True by simp
    then show ?thesis using False True by (simp add: readContent_def C(1) take_length_def Let_def der_skip_def)
  next
    case big: True
    define n where "n = unat (?b AND 127)"
    have n: "unat (der_at r AND 127) = n" by (simp add: n_def)
    show ?thesis
    proof (cases "n = 0 \<or> n > 6 \<or> n > length (der_content ?r1)")
      case True
      then show ?thesis
        using \<open>dr_position r < dr_end r\<close> big len r1 by (auto simp: readContent_def C(1) take_length_def Let_def n)
    next
      case False
      then have ne: "der_content ?r1 \<noteq> []" by auto
      then have hd: "hd (der_content ?r1) = der_at ?r1"
        using der_content_Cons(1) [OF C(2)] der_empty_iff [OF C(2)] by (simp add: not_le)
      obtain len1 p where l: "lengthLoop (dr_bytes ?r1) n 0 (dr_position ?r1) = (len1, p)" by fastforce
      have e: "dr_end r \<le> length (dr_bytes r)" using wf by (simp add: der_wf_def)
      have p: "p = dr_position ?r1 + n" using lengthLoop_position [of "dr_bytes ?r1" n 0 "dr_position ?r1"] l by simp
      have le: "dr_position ?r1 + n \<le> length (dr_bytes ?r1)"
        using False len e r1 \<open>dr_position r < dr_end r\<close> by simp linarith
      have "take n (der_content ?r1) = take n (drop (dr_position ?r1) (dr_bytes ?r1))"
        using False len r1 by (simp add: der_content_def js_slice_def)
      then have v: "len1 = big_endian 0 (take n (der_content ?r1))" using lengthLoop_value [OF le, of 0] l by simp
      have q: "dr_end r - length (drop n (der_content ?r1)) = p"
        using p len False r1 \<open>dr_position r < dr_end r\<close> by simp linarith
      have s: "?r1\<lparr>dr_position := x\<rparr> = r\<lparr>dr_position := x\<rparr>" for x by (simp add: der_skip_def)
      show ?thesis
        using True False big len r1 l v q s hd
        by (auto simp: readContent_def C(1) take_length_def Let_def n s)
    qed
  qed
qed

lemma readContent_sound:
  assumes wf: "der_wf r" and ok: "readContent r = Inr (v, r')"
  shows "der_wf v \<and> der_wf r' \<and> der_small (der_content v) \<and>
    der_content r = der_length (length (der_content v)) @ der_content v @ der_content r'"
proof -
  obtain n ys where t: "take_length (der_content r) = Some (n, ys)"
    and w: "der_window n (r\<lparr>dr_position := dr_end r - length ys\<rparr>) = Inr (v, r')"
    using ok unfolding readContent_take [OF wf] by (auto split: option.splits)
  have x: "der_content r = der_length n @ ys" "n < 256 ^ 6" using t take_length_iff by blast+
  let ?s = "r\<lparr>dr_position := dr_end r - length ys\<rparr>"
  have l: "length (der_content r) = dr_end r - dr_position r" by (rule der_content_length [OF wf])
  have le: "length ys \<le> dr_end r - dr_position r" using x(1) l by (metis le_add2 length_append)
  have swf: "der_wf ?s" using wf le by (simp add: der_wf_def)
  have "der_content ?s = drop (dr_end r - dr_position r - length ys) (der_content r)"
    using der_content_tail [OF le] wf by (simp add: der_wf_def)
  also have "dr_end r - dr_position r - length ys = length (der_length n)" using x(1) l le by simp
  finally have s: "der_content ?s = ys" using x(1) by simp
  show ?thesis using der_window_content(1) [OF swf w] x s by (simp add: der_small_def)
qed

lemma readContent_complete:
  assumes wf: "der_wf r" and c: "der_content r = der_length (length c) @ c @ zs" and small: "der_small c"
  shows "\<exists>v r'. readContent r = Inr (v, r') \<and> der_wf v \<and> der_wf r' \<and> der_content v = c \<and> der_content r' = zs"
proof -
  have t: "take_length (der_content r) = Some (length c, c @ zs)"
    using take_length_iff c small by (simp add: der_small_def)
  let ?s = "r\<lparr>dr_position := dr_end r - length (c @ zs)\<rparr>"
  have l: "length (der_content r) = dr_end r - dr_position r" by (rule der_content_length [OF wf])
  have le: "length (c @ zs) \<le> dr_end r - dr_position r" using c l by (metis le_add2 length_append)
  have swf: "der_wf ?s" using wf le by (simp add: der_wf_def)
  have "der_content ?s = drop (dr_end r - dr_position r - length (c @ zs)) (der_content r)"
    using der_content_tail [OF le] wf by (simp add: der_wf_def)
  also have "dr_end r - dr_position r - length (c @ zs) = length (der_length (length c))" using c l le by simp
  finally have s: "der_content ?s = c @ zs" using c by simp
  obtain v r' where w: "der_window (length c) ?s = Inr (v, r')" using der_window_content(2) [OF swf, of "length c"] s by auto
  have "der_content v @ der_content r' = c @ zs" "length (der_content v) = length c" "der_wf v" "der_wf r'"
    using der_window_content(1) [OF swf w] s by simp_all
  then show ?thesis using w by (simp add: readContent_take [OF wf] t)
qed

lemma der_read_sound:
  assumes "der_wf r" and "der_read tag r = Inr (v, r')"
  shows "der_wf v" "der_wf r'" "der_small (der_content v)" "der_content r = der tag (der_content v) @ der_content r'"
proof -
  have lt: "dr_position r < dr_end r" "der_at r = tag" "readContent (der_skip r) = Inr (v, r')"
    using assms(2) by (auto simp: der_read_def split: if_splits)
  note C = der_content_Cons [OF assms(1) lt(1)] and S = readContent_sound [OF der_content_Cons(2) [OF assms(1) lt(1)] lt(3)]
  show "der_wf v" "der_wf r'" "der_small (der_content v)" "der_content r = der tag (der_content v) @ der_content r'"
    using C S lt(2) by (simp_all add: der_def)
qed

lemma der_read_complete:
  assumes "der_wf r" and "der_content r = der tag c @ zs" and "der_small c"
  obtains v r' where "der_read tag r = Inr (v, r')" "der_wf v" "der_wf r'" "der_content v = c" "der_content r' = zs"
proof -
  have lt: "dr_position r < dr_end r" using der_empty_iff [OF assms(1)] assms(2) by (auto simp: der_def not_le [symmetric])
  have c: "der_at r = tag" "der_content (der_skip r) = der_length (length c) @ c @ zs"
    using der_content_Cons(1) [OF assms(1) lt] assms(2) by (simp_all add: der_def)
  obtain v r' where "readContent (der_skip r) = Inr (v, r')" "der_wf v" "der_wf r'" "der_content v = c" "der_content r' = zs"
    using readContent_complete [OF der_content_Cons(2) [OF assms(1) lt] c(2) assms(3)] by blast
  then show thesis using that lt c(1) by (simp add: der_read_def)
qed

text \<open>\<open>holds r xs\<close>: the bytes before the end of \<open>r\<close> are \<open>xs\<close>. The rules below follow a reader through the code.\<close>

definition holds :: "der_reader \<Rightarrow> bytes \<Rightarrow> bool" where
  "holds r xs \<longleftrightarrow> der_wf r \<and> der_content r = xs"

lemma holdsD: "holds r xs \<Longrightarrow> der_wf r" "holds r xs \<Longrightarrow> der_content r = xs"
  by (simp_all add: holds_def)

lemma holds_new: "holds (newDerReader bs) bs"
  by (simp add: holds_def)

lemma holds_done [simp]: "holds r xs \<Longrightarrow> der_done r \<longleftrightarrow> xs = []"
  by (auto simp: holds_def der_done_iff)

lemma read_E:
  assumes "res_bind (der_read tag r) f = Inr y" "holds r xs"
  obtains v r' c zs where "xs = der tag c @ zs" "der_small c" "holds v c" "holds r' zs" "f (v, r') = Inr y"
proof -
  obtain v r' where vr: "der_read tag r = Inr (v, r')" "f (v, r') = Inr y" using assms(1) by (auto simp: res_bind_Inr_iff)
  show thesis
    using der_read_sound [OF holdsD(1) [OF assms(2)] vr(1)] assms(2) vr(2) by (intro that) (simp_all add: holds_def)
qed

lemma read_I:
  assumes "holds r (der tag c @ zs)" "der_small c" "\<And>v r'. holds v c \<Longrightarrow> holds r' zs \<Longrightarrow> P (f (v, r'))"
  shows "P (res_bind (der_read tag r) f)"
proof -
  obtain v r' where "der_read tag r = Inr (v, r')" "der_wf v" "der_wf r'" "der_content v = c" "der_content r' = zs"
    using der_read_complete [OF holdsD(1) [OF assms(1)] holdsD(2) [OF assms(1)] assms(2)] by blast
  then show ?thesis using assms(3) [of v r'] by (simp add: holds_def)
qed

lemma complete_E:
  assumes "res_bind (der_complete r) f = Inr y" "holds r xs"
  obtains "xs = []" "f () = Inr y"
  using assms by (auto simp: res_bind_Inr_iff der_complete_def split: if_splits)

lemma complete_I: "holds r [] \<Longrightarrow> P (f ()) \<Longrightarrow> P (res_bind (der_complete r) f)"
  by (simp add: der_complete_def)

lemma holds_skip:
  assumes "holds r xs" "xs \<noteq> []"
  shows "der_at r = hd xs" "holds (der_skip r) (tl xs)" "der_peek r = Inr (hd xs)" "\<not> dr_position r \<ge> dr_end r"
proof -
  have lt: "dr_position r < dr_end r" using der_empty_iff [of r] assms by (auto simp: holds_def not_le [symmetric])
  note C = der_content_Cons [OF holdsD(1) [OF assms(1)] lt]
  have x: "xs = der_at r # der_content (der_skip r)" using C(1) holdsD(2) [OF assms(1)] by simp
  show "der_at r = hd xs" "holds (der_skip r) (tl xs)" using C(2) by (simp_all add: x holds_def)
  then show "der_peek r = Inr (hd xs)" using lt by (simp add: der_peek_def)
  show "\<not> dr_position r \<ge> dr_end r" using lt by simp
qed

lemma holds_empty: "holds r xs \<Longrightarrow> dr_position r \<ge> dr_end r \<longleftrightarrow> xs = []"
  using der_empty_iff [of r] by (auto simp: holds_def)

lemma holds_nth: "holds v c \<Longrightarrow> i < length c \<Longrightarrow> dr_bytes v ! (dr_position v + i) = c ! i"
  using der_content_nth [of v i] der_content_length [of v] by (auto simp: holds_def)

lemma holds_length: "holds v c \<Longrightarrow> dr_end v - dr_position v = length c"
  using der_content_length [of v] by (auto simp: holds_def)

section \<open>Integers\<close>

text \<open>A magnitude without leading zeros, and the content octets of the integer.\<close>

definition der_magnitude :: "bool \<Rightarrow> bytes \<Rightarrow> bool" where
  "der_magnitude allowZero n \<longleftrightarrow> n \<noteq> [] \<and> (hd n \<noteq> 0 \<or> allowZero \<and> n = [0])"

definition der_int :: "bytes \<Rightarrow> bytes" where
  "der_int n = der 2 (if unat (hd n) \<ge> 128 then 0 # n else n)"

definition der_int_small :: "bytes \<Rightarrow> bool" where
  "der_int_small n \<longleftrightarrow> der_small (if unat (hd n) \<ge> 128 then 0 # n else n)"

lemma byte_and_128: "(b AND 128 = 0) \<longleftrightarrow> unat (b :: byte) < 128"
proof -
  have "(b AND 2 ^ 7 = 0) \<longleftrightarrow> \<not> bit b 7" by (rule and_exp_eq_0_iff_not_bit)
  moreover have "bit b 7 \<longleftrightarrow> bit (unat b) 7" by (simp add: bit_unsigned_iff)
  moreover have "bit (unat b) 7 \<longleftrightarrow> odd (unat b div 128)" by (simp add: bit_iff_odd)
  moreover have "unat b div 128 = (if unat b < 128 then 0 else 1)"
    using unat_byte_less [of b] by (simp add: div_nat_eqI)
  ultimately show ?thesis by (simp split: if_splits)
qed

lemma zero_byte_small [simp]: "unat (0 :: byte) < 128" by simp

lemma der_content_from:
  "holds v c \<Longrightarrow> k \<le> length c \<Longrightarrow> js_slice (dr_bytes v) (dr_position v + k) (dr_end v) = drop k c"
  by (auto simp: holds_def der_content_def js_slice_def drop_take add.commute)

text \<open>The content octets of an integer: nonempty, not negative and minimal.\<close>

definition integer_content :: "bool \<Rightarrow> bytes \<Rightarrow> bool" where
  "integer_content allowZero c \<longleftrightarrow> c \<noteq> [] \<and> unat (hd c) < 128 \<and>
     (length c > 1 \<and> hd c = 0 \<longrightarrow> unat (c ! 1) \<ge> 128) \<and> (c = [0] \<longrightarrow> allowZero)"

lemma der_integer_content:
  assumes "holds value c"
  shows "(let len = dr_end value - dr_position value; first = der_at value
        in if len = 0 then Inl DataError
           else if first AND 128 \<noteq> 0 then Inl DataError
           else if len > 1 \<and> first = 0 \<and> dr_bytes value ! (dr_position value + 1) AND 128 = 0 then Inl DataError
           else if \<not> allowZero \<and> len = 1 \<and> first = 0 then Inl DataError
           else Inr (js_slice (dr_bytes value) (dr_position value + (if len > 1 \<and> first = 0 then 1 else 0)) (dr_end value), r1)) =
     (if integer_content allowZero c then Inr (if length c > 1 \<and> hd c = 0 then tl c else c, r1) else Inl DataError)"
proof (cases "c = []")
  case True
  then show ?thesis using holds_length [OF assms] by (simp add: integer_content_def Let_def)
next
  case False
  then have l: "dr_end value - dr_position value = length c" "der_at value = hd c" "length c \<noteq> 0"
    using holds_length [OF assms] holds_skip(1) [OF assms] by simp_all
  have n: "length c > 1 \<Longrightarrow> dr_bytes value ! (dr_position value + 1) = c ! 1" by (rule holds_nth [OF assms])
  have sl: "js_slice (dr_bytes value) (dr_position value + (if length c > 1 \<and> hd c = 0 then 1 else 0)) (dr_end value) =
      (if length c > 1 \<and> hd c = 0 then tl c else c)"
    using der_content_from [OF assms, of 1] der_content_from [OF assms, of 0] False by (simp add: drop_Suc)
  have z: "length c = 1 \<and> hd c = 0 \<longleftrightarrow> c = [0]" by (cases c) auto
  show ?thesis
    unfolding Let_def l(1,2) sl using False n z by (auto simp: integer_content_def byte_and_128 not_le not_less)
qed

lemma integer_content_iff:
  "integer_content allowZero c \<and> n = (if length c > 1 \<and> hd c = 0 then tl c else c) \<longleftrightarrow>
     der_magnitude allowZero n \<and> c = (if unat (hd n) \<ge> 128 then 0 # n else n)"
  (is "?L \<longleftrightarrow> ?R")
proof
  assume ?L
  then have c: "c \<noteq> []" "unat (hd c) < 128" "length c > 1 \<and> hd c = 0 \<longrightarrow> unat (c ! 1) \<ge> 128" "c = [0] \<longrightarrow> allowZero"
    and n: "n = (if length c > 1 \<and> hd c = 0 then tl c else c)"
    by (simp_all add: integer_content_def)
  show ?R
  proof (cases "length c > 1 \<and> hd c = 0")
    case True
    then obtain b cs where cs: "c = 0 # b # cs" by (cases c; cases "tl c") auto
    have "unat b \<ge> 128" using c(3) True by (simp add: cs)
    moreover from this have "b \<noteq> 0" by (metis not_le zero_byte_small)
    ultimately show ?thesis using n True by (simp add: cs der_magnitude_def)
  next
    case False
    then have "hd c \<noteq> 0 \<or> c = [0]" using c(1) by (cases c; cases "tl c") auto
    moreover have "n = c" using n False by (simp only: if_False)
    ultimately show ?thesis using c by (auto simp: der_magnitude_def)
  qed
next
  assume R: ?R
  then have n: "n \<noteq> []" "hd n \<noteq> 0 \<or> allowZero \<and> n = [0]" by (simp_all add: der_magnitude_def)
  show ?L
  proof (cases "unat (hd n) \<ge> 128")
    case True
    then have "c = 0 # n" using R by simp
    moreover have "(0 # n) ! 1 = hd n" using n(1) by (cases n) simp_all
    ultimately show ?thesis using True n(1) by (simp add: integer_content_def)
  next
    case False
    then have c: "c = n" using R by simp
    have z: "\<not> (length n > 1 \<and> hd n = 0)" using n(2) by auto
    have "unat (hd n) < 128" using False by simp
    moreover have "length n > 1 \<and> hd n = 0 \<longrightarrow> unat (n ! 1) \<ge> 128" using z by blast
    moreover have "n = [0] \<longrightarrow> allowZero" using n(2) by (metis list.sel(1))
    ultimately have "integer_content allowZero n" unfolding integer_content_def using n(1) by blast
    then show ?thesis unfolding c if_not_P [OF z] by blast
  qed
qed

lemma integer_E:
  assumes "res_bind (der_integer allowZero r) f = Inr y" "holds r xs"
  obtains n r' zs where "xs = der_int n @ zs" "der_magnitude allowZero n" "der_int_small n" "holds r' zs" "f (n, r') = Inr y"
proof -
  obtain nr where nr: "der_integer allowZero r = Inr nr" "f nr = Inr y" using assms(1) by (auto simp: res_bind_Inr_iff)
  from nr(1) [unfolded der_integer_def] assms(2) show thesis
  proof (elim read_E)
    fix v r' c zs
    assume a: "xs = der 2 c @ zs" "der_small c" "holds v c" "holds r' zs"
    assume "(case (v, r') of (value, r1) \<Rightarrow>
         let len = dr_end value - dr_position value; first = der_at value
         in if len = 0 then Inl DataError
            else if first AND 128 \<noteq> 0 then Inl DataError
            else if 1 < len \<and> first = 0 \<and> dr_bytes value ! (dr_position value + 1) AND 128 = 0 then Inl DataError
            else if \<not> allowZero \<and> len = 1 \<and> first = 0 then Inl DataError
            else Inr (js_slice (dr_bytes value) (dr_position value + (if 1 < len \<and> first = 0 then 1 else 0)) (dr_end value), r1)) =
       Inr nr"
    then have "(if integer_content allowZero c then Inr (if length c > 1 \<and> hd c = 0 then tl c else c, r') else Inl DataError) = Inr nr"
      unfolding prod.case der_integer_content [OF a(3)] .
    then have c: "integer_content allowZero c" "(if length c > 1 \<and> hd c = 0 then tl c else c, r') = nr"
      by (cases "integer_content allowZero c"; simp)+
    define n where "n = (if length c > 1 \<and> hd c = 0 then tl c else c)"
    have "der_magnitude allowZero n \<and> c = (if unat (hd n) \<ge> 128 then 0 # n else n)"
      using integer_content_iff [of allowZero c n] c(1) n_def by blast
    then show thesis
      using a nr(2) c(2) unfolding n_def [symmetric]
      by (intro that [of n zs r']) (auto simp: der_int_def der_int_small_def)
  qed
qed

lemma integer_I:
  assumes "holds r (der_int n @ zs)" "der_magnitude allowZero n" "der_int_small n" "\<And>r'. holds r' zs \<Longrightarrow> P (f (n, r'))"
  shows "P (res_bind (der_integer allowZero r) f)"
proof -
  define c where "c = (if unat (hd n) \<ge> 128 then 0 # n else n)"
  have c: "integer_content allowZero c" "n = (if length c > 1 \<and> hd c = 0 then tl c else c)"
    using integer_content_iff [of allowZero c n] assms(2) c_def by blast+
  have s: "der_wf r" "der_content r = der 2 c @ zs" "der_small c"
    using assms(1,3) by (simp_all add: holds_def der_int_def der_int_small_def c_def)
  obtain v r' where vr: "der_read 2 r = Inr (v, r')" "der_wf v" "der_wf r'" "der_content v = c" "der_content r' = zs"
    by (rule der_read_complete [OF s])
  then have vr: "der_read 2 r = Inr (v, r')" "holds v c" "holds r' zs" by (simp_all add: holds_def)
  have "der_integer allowZero r = Inr (n, r')"
    unfolding der_integer_def vr(1) res_bind_simps prod.case der_integer_content [OF vr(2)] using c by simp
  then show ?thesis using assms(4) [OF vr(3)] by simp
qed

section \<open>Octets in base 128\<close>

text \<open>Octets of which exactly the last has its high bit clear: an arc of an object identifier, or a long tag.\<close>

definition arc_tail :: "bytes \<Rightarrow> bool" where
  "arc_tail os \<longleftrightarrow> os \<noteq> [] \<and> (\<forall>x\<in>set (butlast os). unat x \<ge> 128) \<and> unat (last os) < 128"

definition base128 :: "bytes \<Rightarrow> bool" where
  "base128 os \<longleftrightarrow> arc_tail os \<and> hd os \<noteq> 128"

definition oid_content :: "bytes \<Rightarrow> bool" where
  "oid_content c \<longleftrightarrow> c \<noteq> [] \<and> (\<exists>arcs. c = concat arcs \<and> (\<forall>a\<in>set arcs. base128 a))"

lemma arc_tail_Cons: "arc_tail (x # os) \<longleftrightarrow> (if unat x < 128 then os = [] else arc_tail os)"
  by (cases os) (auto simp: arc_tail_def)

lemma arc_tail_Nil [simp]: "\<not> arc_tail []"
  by (simp add: arc_tail_def)

lemma oidLoop_iff:
  "(oidLoop xs True = Inr True \<longleftrightarrow> (\<exists>arcs. xs = concat arcs \<and> (\<forall>a\<in>set arcs. base128 a))) \<and>
   (oidLoop xs False = Inr True \<longleftrightarrow> (\<exists>t arcs. xs = t @ concat arcs \<and> arc_tail t \<and> (\<forall>a\<in>set arcs. base128 a)))"
proof (induction xs)
  case Nil
  have "arcs = []" if "[] = concat arcs" "\<forall>a\<in>set arcs. base128 a" for arcs :: "bytes list"
    using that by (cases arcs) (auto simp: base128_def arc_tail_def)
  then show ?case by (auto intro: exI [of _ "[]"])
next
  case (Cons x xs)
  have step: "(\<exists>t arcs. x # xs = t @ concat arcs \<and> arc_tail t \<and> (\<forall>a\<in>set arcs. base128 a)) \<longleftrightarrow>
      (if unat x < 128 then \<exists>arcs. xs = concat arcs \<and> (\<forall>a\<in>set arcs. base128 a)
       else \<exists>t arcs. xs = t @ concat arcs \<and> arc_tail t \<and> (\<forall>a\<in>set arcs. base128 a))" (is "?L \<longleftrightarrow> ?R")
  proof
    assume ?L
    then obtain t arcs where t: "x # xs = t @ concat arcs" "arc_tail t" "\<forall>a\<in>set arcs. base128 a" by blast
    then obtain t' where "t = x # t'" by (cases t) auto
    then show ?R using t by (auto simp: arc_tail_Cons split: if_splits)
  next
    assume R: ?R
    show ?L
    proof (cases "unat x < 128")
      case True
      then obtain arcs where "xs = concat arcs" "\<forall>a\<in>set arcs. base128 a" using R by auto
      then show ?thesis using True by (intro exI [of _ "[x]"] exI [of _ arcs]) (simp add: arc_tail_Cons)
    next
      case False
      then obtain t arcs where "xs = t @ concat arcs" "arc_tail t" "\<forall>a\<in>set arcs. base128 a" using R by auto
      then show ?thesis using False by (intro exI [of _ "x # t"] exI [of _ arcs]) (simp add: arc_tail_Cons)
    qed
  qed
  have first: "(\<exists>arcs. x # xs = concat arcs \<and> (\<forall>a\<in>set arcs. base128 a)) \<longleftrightarrow>
      x \<noteq> 128 \<and> (\<exists>t arcs. x # xs = t @ concat arcs \<and> arc_tail t \<and> (\<forall>a\<in>set arcs. base128 a))" (is "?L \<longleftrightarrow> ?R")
  proof
    assume ?L
    then obtain arcs where a: "x # xs = concat arcs" "\<forall>a\<in>set arcs. base128 a" by blast
    then obtain b bs where bs: "arcs = b # bs" by (cases arcs) auto
    then have b: "base128 b" using a by simp
    then have "hd b = x" using a(1) bs by (cases b) (auto simp: base128_def)
    then show ?R using a b bs by (auto simp: base128_def)
  next
    assume ?R
    then obtain t arcs where t: "x \<noteq> 128" "x # xs = t @ concat arcs" "arc_tail t" "\<forall>a\<in>set arcs. base128 a" by blast
    then have "hd t = x" by (cases t) auto
    then show ?L using t by (intro exI [of _ "t # arcs"]) (simp add: base128_def)
  qed
  show ?case
    using Cons.IH unfolding first step by (auto simp: byte_and_128)
qed

lemma oid_content_iff:
  "c \<noteq> [] \<and> oidLoop c True = Inr True \<longleftrightarrow> oid_content c"
  using oidLoop_iff [of c] by (auto simp: oid_content_def)

lemma oidLoop_result: "oidLoop xs b = Inr f \<or> oidLoop xs b = Inl DataError \<or> (\<exists>g. oidLoop xs b = Inr g)"
  by (cases "oidLoop xs b") (induction xs b rule: oidLoop.induct, auto split: if_splits)

text \<open>The saturated number of a long tag.\<close>

definition tag_number :: "int \<Rightarrow> bytes \<Rightarrow> int" where
  "tag_number = foldl (\<lambda>n x. if n < 31 then n * 128 + uint (x AND 127) else n)"

lemma tagLoop_iff:
  assumes "holds r xs"
  shows "(\<exists>os zs. xs = os @ zs \<and> arc_tail os \<and> (\<exists>r'. tagLoop r n = Inr (tag_number n os, r') \<and> holds r' zs)) \<or>
     (tagLoop r n = Inl DataError \<and> (\<forall>os zs. xs = os @ zs \<longrightarrow> \<not> arc_tail os))"
  using assms
proof (induction r n arbitrary: xs rule: tagLoop.induct)
  case (1 r n)
  show ?case
  proof (cases xs)
    case Nil
    then show ?thesis using holds_empty [OF "1.prems"] by (simp add: tagLoop.simps [of r n])
  next
    case (Cons x ys)
    note H = holds_skip [OF "1.prems"]
    have h: "der_at r = x" "holds (der_skip r) ys" "\<not> dr_position r \<ge> dr_end r" using H Cons by simp_all
    let ?m = "if n < 31 then n * 128 + uint (x AND 127) else n"
    have num: "tag_number n (x # os) = tag_number ?m os" for os by (simp add: tag_number_def)
    show ?thesis
    proof (cases "unat x < 128")
      case True
      have "tagLoop r n = Inr (tag_number n [x], der_skip r)"
        using h True byte_and_128 [of x] by (simp add: tagLoop.simps [of r n] Let_def tag_number_def)
      then show ?thesis using h(2) Cons True
        by (intro disjI1 exI [of _ "[x]"] exI [of _ ys]) (simp add: arc_tail_Cons)
    next
      case False
      then have e: "tagLoop r n = tagLoop (der_skip r) ?m"
        using h byte_and_128 [of x] by (subst tagLoop.simps) (simp add: Let_def)
      have "\<not> der_at r AND 128 = 0" using False h(1) byte_and_128 [of x] by simp
      from "1.IH" [OF h(3) refl refl refl this, of ys] h(2)
      have IH: "(\<exists>os zs. ys = os @ zs \<and> arc_tail os \<and> (\<exists>r'. tagLoop (der_skip r) ?m = Inr (tag_number ?m os, r') \<and> holds r' zs)) \<or>
        (tagLoop (der_skip r) ?m = Inl DataError \<and> (\<forall>os zs. ys = os @ zs \<longrightarrow> \<not> arc_tail os))"
        by (simp only: h(1) simp_thms)
      then show ?thesis
      proof
        assume "\<exists>os zs. ys = os @ zs \<and> arc_tail os \<and> (\<exists>r'. tagLoop (der_skip r) ?m = Inr (tag_number ?m os, r') \<and> holds r' zs)"
        then obtain os zs r' where "ys = os @ zs" "arc_tail os" "tagLoop (der_skip r) ?m = Inr (tag_number ?m os, r')" "holds r' zs"
          by blast
        then show ?thesis using False Cons
          by (intro disjI1 exI [of _ "x # os"] exI [of _ zs]) (simp add: arc_tail_Cons e num)
      next
        assume b: "tagLoop (der_skip r) ?m = Inl DataError \<and> (\<forall>os zs. ys = os @ zs \<longrightarrow> \<not> arc_tail os)"
        have "\<not> arc_tail os" if "xs = os @ zs" for os zs
        proof (cases os)
          case (Cons y qs)
          then have "y = x" "ys = qs @ zs" using that \<open>xs = x # ys\<close> by simp_all
          then show ?thesis using b False Cons by (simp add: arc_tail_Cons)
        qed simp
        then show ?thesis using b by (simp only: e) blast
      qed
    qed
  qed
qed

lemma arc_tail_unique: "arc_tail a \<Longrightarrow> arc_tail b \<Longrightarrow> a @ x = b @ y \<Longrightarrow> a = b \<and> x = y"
proof (induction a arbitrary: b)
  case (Cons u a)
  then obtain v b' where b: "b = v # b'" by (cases b) auto
  then show ?case using Cons by (auto simp: arc_tail_Cons split: if_splits)
qed simp

lemma tag_number_stays: "31 \<le> n \<Longrightarrow> tag_number n os = n"
  by (induction os) (simp_all add: tag_number_def)

lemma and_127_value: "uint (x AND 127 :: byte) = uint x mod 128"
proof -
  have "x AND 127 = take_bit 7 x" by (simp add: take_bit_eq_mask mask_eq_exp_minus_1)
  then have "uint (x AND 127) = take_bit 7 (uint x)" by (simp only: unsigned_take_bit_eq)
  then show ?thesis by (simp add: take_bit_eq_mod)
qed

lemma two_octets_big: "0 \<le> k \<Longrightarrow> 1 \<le> a \<Longrightarrow> (31 :: int) \<le> (if a < 31 then a * 128 + k else a)"
  by simp

lemma above_128: "128 < u \<Longrightarrow> u < 256 \<Longrightarrow> (1 :: int) \<le> u mod 128"
  by presburger

lemma tag_number_big:
  assumes "arc_tail os" "hd os \<noteq> 128"
  shows "31 \<le> tag_number 0 os \<longleftrightarrow> length os > 1 \<or> unat (hd os) \<ge> 31"
proof (cases os)
  case (Cons x ys)
  have n: "tag_number 0 os = tag_number (uint x mod 128) ys" by (simp add: Cons tag_number_def and_127_value)
  have ux: "uint x = int (unat x)" by (rule uint_nat)
  show ?thesis
  proof (cases ys)
    case Nil
    then have "unat x < 128" using assms(1) Cons by (simp add: arc_tail_Cons split: if_splits)
    then have "uint x < 128" unfolding ux by linarith
    then have "tag_number 0 os = uint x" using n Nil by (simp add: tag_number_def)
    moreover have "31 \<le> uint x \<longleftrightarrow> 31 \<le> unat x" unfolding ux by linarith
    moreover have "length os > 1 \<or> unat (hd os) \<ge> 31 \<longleftrightarrow> 31 \<le> unat x" by (simp add: Cons Nil)
    ultimately show ?thesis by simp
  next
    case (Cons y zs)
    have "\<not> unat x < 128" using assms(1) \<open>os = x # ys\<close> Cons by (auto simp: arc_tail_Cons)
    moreover have "x \<noteq> 128" using assms(2) \<open>os = x # ys\<close> by simp
    then have "unat x \<noteq> 128" by (metis word_of_unat of_nat_numeral)
    ultimately have u: "unat x > 128" by simp
    then have "128 < uint x" unfolding ux by linarith
    then have m: "1 \<le> uint x mod 128" using uint_byte_bounds(2) [of x] by (rule above_128)
    define a k where "a = uint x mod 128" and "k = uint (y AND 127)"
    have "0 \<le> k" unfolding k_def by (rule uint_byte_bounds(1))
    moreover have "1 \<le> a" unfolding a_def by (rule m)
    ultimately have "31 \<le> (if a < 31 then a * 128 + k else a)" by (rule two_octets_big)
    moreover have "tag_number 0 os = tag_number (if a < 31 then a * 128 + k else a) zs"
      unfolding n Cons a_def k_def by (simp only: tag_number_def foldl_Cons)
    ultimately have "31 \<le> tag_number 0 os" by (simp only: tag_number_stays)
    then show ?thesis using Cons \<open>os = x # ys\<close> by simp
  qed
qed (use assms in simp)

end
