(* ===== verification/Der_Values.thy ===== *)
theory Der_Values
  imports Der_Encoding
begin

text \<open>
  The grammar of open values and of attributes, and the validator's explicit stack as a recogniser of it.
\<close>

section \<open>The grammar of open values\<close>

text \<open>The content of a primitive value of a universal type.\<close>

definition primitive_content :: "byte \<Rightarrow> bytes \<Rightarrow> bool" where
  "primitive_content tag c \<longleftrightarrow>
     tag \<noteq> 16 \<and> tag \<noteq> 17 \<and>
     (tag = 1 \<longrightarrow> c = [0] \<or> c = [255]) \<and>
     (tag = 2 \<or> tag = 10 \<longrightarrow> c \<noteq> [] \<and> \<not> (length c > 1 \<and> (c ! 0 = 0 \<and> unat (c ! 1) < 128 \<or> c ! 0 = 255 \<and> unat (c ! 1) \<ge> 128))) \<and>
     (tag = 3 \<longrightarrow> c \<noteq> [] \<and> unat (c ! 0) \<le> 7 \<and> (length c = 1 \<longrightarrow> c ! 0 = 0) \<and>
        (length c > 1 \<longrightarrow> 2 ^ unat (c ! 0) dvd unat (last c))) \<and>
     (tag = 5 \<longrightarrow> c = []) \<and> (tag = 6 \<longrightarrow> oid_content c)"

text \<open>Identifier octets: one below 31, or an escape and the number in base 128.\<close>

definition long_tag :: "bytes \<Rightarrow> bool" where
  "long_tag os \<longleftrightarrow> base128 os \<and> (length os > 1 \<or> unat (hd os) \<ge> 31)"

definition primitive_header :: "bytes \<Rightarrow> bytes \<Rightarrow> bool" where
  "primitive_header h c \<longleftrightarrow> (\<exists>tag os. h = tag # os \<and> tag AND 32 = 0 \<and>
     (if tag AND 31 = 31 then long_tag os
      else os = [] \<and> tag \<noteq> 0 \<and> (tag AND 192 = 0 \<longrightarrow> primitive_content tag c)))"

definition constructed_header :: "bytes \<Rightarrow> bool \<Rightarrow> bool" where
  "constructed_header h ordered \<longleftrightarrow> (\<exists>tag os. h = tag # os \<and> tag AND 32 \<noteq> 0 \<and>
     (if tag AND 31 = 31 then long_tag os \<and> \<not> ordered
      else os = [] \<and> (tag AND 192 = 0 \<longrightarrow> tag = 48 \<or> tag = 49) \<and> (ordered \<longleftrightarrow> tag = 49)))"

definition in_order :: "bytes list \<Rightarrow> bool" where
  "in_order vs \<longleftrightarrow> successively (\<lambda>a b. compareEncoding a b \<le> 0) vs"

inductive der_value :: "bytes \<Rightarrow> bool" where
  primitive_value: "primitive_header h c \<Longrightarrow> der_small c \<Longrightarrow> der_value (h @ der_length (length c) @ c)"
| constructed_value: "constructed_header h ordered \<Longrightarrow> \<forall>v\<in>set vs. der_value v \<Longrightarrow> (ordered \<longrightarrow> in_order vs) \<Longrightarrow>
    der_small (concat vs) \<Longrightarrow> der_value (h @ der_length (length (concat vs)) @ concat vs)"

lemma der_value_nonempty: "der_value v \<Longrightarrow> v \<noteq> []"
  by (erule der_value.cases) (auto simp: primitive_header_def constructed_header_def)

section \<open>One value read\<close>

lemma cascade:
  "(if a \<or> b then X else if t1 \<and> \<not> p1 then X else if t2 \<and> \<not> p2 then X else if t3 \<and> \<not> p3 then X
    else if t5 \<and> \<not> p5 then X else if t6 then (if p6 then Y else X) else Y) =
   (if \<not> a \<and> \<not> b \<and> (t1 \<longrightarrow> p1) \<and> (t2 \<longrightarrow> p2) \<and> (t3 \<longrightarrow> p3) \<and> (t5 \<longrightarrow> p5) \<and> (t6 \<longrightarrow> p6) then Y else X)"
  by auto

lemma primitiveValue_iff:
  assumes "holds v c"
  shows "primitiveValue tag v = (if primitive_content tag c then Inr () else Inl DataError)"
proof -
  have l: "dr_end v - dr_position v = length c" by (rule holds_length [OF assms])
  have n: "i < length c \<Longrightarrow> dr_bytes v ! (dr_position v + i) = c ! i" for i by (rule holds_nth [OF assms])
  have n0: "c \<noteq> [] \<Longrightarrow> dr_bytes v ! dr_position v = c ! 0" using n [of 0] by simp
  have c: "der_content v = c" by (rule holdsD(2) [OF assms])
  have m: "x AND (push_bit k 1 - 1) = 0 \<longleftrightarrow> 2 ^ k dvd unat x" for x :: byte and k
  proof -
    have "x AND (push_bit k 1 - 1) = take_bit k x" by (simp add: take_bit_eq_mask mask_eq_exp_minus_1 push_bit_eq_mult)
    moreover have "take_bit k x = 0 \<longleftrightarrow> take_bit k (unat x) = 0"
      by (metis unsigned_take_bit_eq unsigned_0 unsigned_eq_0_iff)
    ultimately show ?thesis by (simp add: take_bit_eq_0_iff)
  qed
  have la: "length c > 1 \<Longrightarrow> dr_bytes v ! (dr_position v + (length c - 1)) = last c"
    using n [of "length c - 1"] by (cases "c = []") (simp_all add: last_conv_nth)
  have bool: "length c = 1 \<and> (c ! 0 = 0 \<or> c ! 0 = 255) \<longleftrightarrow> c = [0] \<or> c = [255]" by (cases c) auto
  have oid: "(res_bind (oidLoop c True) (\<lambda>first. if \<not> first then Inl DataError else Inr ())) =
      (if oidLoop c True = Inr True then Inr () else Inl DataError)"
  proof (cases "oidLoop c True")
    case (Inl e)
    have "oidLoop xs b = Inl e \<Longrightarrow> e = DataError" for xs b
      by (induction xs b rule: oidLoop.induct) (auto split: if_splits)
    then show ?thesis using Inl by simp
  qed auto
  let ?at = "\<lambda>i. dr_bytes v ! (dr_position v + i)"
  have e1: "(length c \<noteq> 1 \<or> ?at 0 \<noteq> 0 \<and> ?at 0 \<noteq> 255) \<longleftrightarrow> \<not> (c = [0] \<or> c = [255])"
    using bool n [of 0] by (cases c) auto
  have e2: "(length c = 0 \<or> length c > 1 \<and> (?at 0 = 0 \<and> ?at 1 AND 128 = 0 \<or> ?at 0 = 255 \<and> ?at 1 AND 128 \<noteq> 0)) \<longleftrightarrow>
      \<not> (c \<noteq> [] \<and> \<not> (length c > 1 \<and> (c ! 0 = 0 \<and> unat (c ! 1) < 128 \<or> c ! 0 = 255 \<and> unat (c ! 1) \<ge> 128)))"
  proof (cases "length c > 1")
    case True
    have "?at 0 = c ! 0" "?at 1 = c ! 1" by (fact n [OF less_trans [OF zero_less_one True]], fact n [OF True])
    then show ?thesis using True by (simp only: byte_and_128 not_less) auto
  qed auto
  have e3: "(length c = 0 \<or> unat (?at 0) > 7 \<or> length c = 1 \<and> ?at 0 \<noteq> 0 \<or>
       length c > 1 \<and> ?at (length c - 1) AND (push_bit (unat (?at 0)) 1 - 1) \<noteq> 0) \<longleftrightarrow>
      \<not> (c \<noteq> [] \<and> unat (c ! 0) \<le> 7 \<and> (length c = 1 \<longrightarrow> c ! 0 = 0) \<and>
        (length c > 1 \<longrightarrow> 2 ^ unat (c ! 0) dvd unat (last c)))"
  proof (cases "c = []")
    case False
    then have z: "?at 0 = c ! 0" by (intro n) simp
    show ?thesis unfolding z m using la False by auto
  qed simp
  have e6: "(if length c = 0 then Inl DataError
            else res_bind (oidLoop c True) (\<lambda>first. if \<not> first then Inl DataError else Inr ())) =
      (if oid_content c then Inr () else Inl DataError)"
    unfolding oid using oid_content_iff [of c] by auto
  have e5: "length c \<noteq> 0 \<longleftrightarrow> \<not> c = []" by simp
  show ?thesis
    unfolding primitiveValue_def Let_def l c e1 e2 e3 e5 e6 primitive_content_def
    by (rule cascade)
qed

lemma readContent_E:
  assumes "readContent r = Inr (v, r')" "holds r xs"
  obtains c zs where "xs = der_length (length c) @ c @ zs" "der_small c" "holds v c" "holds r' zs"
  using readContent_sound [OF holdsD(1) [OF assms(2)] assms(1)] assms(2) that by (auto simp: holds_def)

lemma readContent_I:
  assumes "holds r (der_length (length c) @ c @ zs)" "der_small c"
  obtains v r' where "readContent r = Inr (v, r')" "holds v c" "holds r' zs"
  using readContent_complete [OF holdsD(1) [OF assms(1)] holdsD(2) [OF assms(1)] assms(2)] that by (auto simp: holds_def)

text \<open>The code after the identifier octets, for a long tag and for a short one.\<close>

definition long_result :: "byte \<Rightarrow> der_reader \<Rightarrow> der_reader \<Rightarrow> (der_frame option \<times> der_reader) result" where
  "long_result tag v r = Inr (if tag AND 32 \<noteq> 0 then Some (newDerFrame v False) else None, r)"

lemma readAttributeValue_cases:
  assumes "holds r (tag # xs)"
  shows "readAttributeValue r =
    (if tag AND 31 = 31 then
       (if xs = [] \<or> hd xs = 128 then Inl DataError
        else res_bind (tagLoop (der_skip r) 0) (\<lambda>(num, r2).
          if num < 31 then Inl DataError else res_bind (readContent r2) (\<lambda>(v, r3). long_result tag v r3)))
     else if tag = 0 then Inl DataError
     else res_bind (readContent (der_skip r)) (\<lambda>(value, r1).
         if tag AND 32 \<noteq> 0 then
           (if tag AND 192 = 0 \<and> tag \<noteq> 48 \<and> tag \<noteq> 49 then Inl DataError
            else Inr (Some (newDerFrame value (tag = 49)), r1))
         else if tag AND 192 \<noteq> 0 then Inr (None, r1)
         else res_bind (primitiveValue tag value) (\<lambda>_. Inr (None, r1))))"
proof -
  note H = holds_skip [OF assms]
  have h: "der_at r = tag" "holds (der_skip r) xs" "der_peek r = Inr tag" "\<not> dr_position r \<ge> dr_end r" using H by simp_all
  have s: "dr_position (der_skip r) \<ge> dr_end (der_skip r) \<longleftrightarrow> xs = []" by (rule holds_empty [OF h(2)])
  have a: "xs \<noteq> [] \<Longrightarrow> der_at (der_skip r) = hd xs" using holds_skip(1) [OF h(2)] .
  have rd: "der_read tag r = readContent (der_skip r)" using h by (simp add: der_read_def)
  show ?thesis
    unfolding readAttributeValue_def h(3) res_bind_simps Let_def s rd long_result_def using a by auto
qed

lemma value_sound:
  assumes "readAttributeValue r = Inr (nested, r')" "holds r xs"
  shows "\<exists>h c zs. xs = h @ der_length (length c) @ c @ zs \<and> der_small c \<and> holds r' zs \<and>
    (case nested of None \<Rightarrow> primitive_header h c
     | Some f \<Rightarrow> \<exists>ordered v. f = newDerFrame v ordered \<and> holds v c \<and> constructed_header h ordered)"
proof (cases xs)
  case Nil
  then have "dr_position r \<ge> dr_end r" using holds_empty [OF assms(2)] by simp
  then show ?thesis using assms(1) by (simp add: readAttributeValue_def der_peek_def)
next
  case (Cons tag ys)
  have hr: "holds r (tag # ys)" using assms(2) Cons by simp
  have hs: "holds (der_skip r) ys" using holds_skip(2) [OF hr] by simp
  note eq = assms(1) [unfolded readAttributeValue_cases [OF hr]]
  show ?thesis
  proof (cases "tag AND 31 = 31")
    case True
    then have ne: "ys \<noteq> []" "hd ys \<noteq> 128" using eq by (auto split: if_splits)
    obtain num r2 v where t: "tagLoop (der_skip r) 0 = Inr (num, r2)" "\<not> num < 31" "readContent r2 = Inr (v, r')"
      and n: "nested = (if tag AND 32 \<noteq> 0 then Some (newDerFrame v False) else None)"
      using eq True ne by (auto simp: res_bind_Inr_iff long_result_def split: if_splits)
    obtain os ws where os: "ys = os @ ws" "arc_tail os" "num = tag_number 0 os" "holds r2 ws"
      using tagLoop_iff [OF hs, of 0] t(1) by auto
    obtain c zs where c: "ws = der_length (length c) @ c @ zs" "der_small c" "holds v c" "holds r' zs"
      by (rule readContent_E [OF t(3) os(4)])
    have "os \<noteq> []" using os(2) by (simp add: arc_tail_def)
    then have "hd os \<noteq> 128" using ne(2) os(1) by simp
    then have lt: "long_tag os" using tag_number_big [OF os(2)] os(2,3) t(2) by (simp add: long_tag_def base128_def)
    show ?thesis
      by (rule exI [of _ "tag # os"], rule exI [of _ c], rule exI [of _ zs])
        (use Cons os(1) c n lt True in \<open>auto simp: primitive_header_def constructed_header_def\<close>)
  next
    case False
    then have nz: "tag \<noteq> 0" using eq by (auto split: if_splits)
    obtain v where t: "readContent (der_skip r) = Inr (v, r')"
      and n: "(if tag AND 32 \<noteq> 0 then
           (if tag AND 192 = 0 \<and> tag \<noteq> 48 \<and> tag \<noteq> 49 then Inl DataError
            else Inr (Some (newDerFrame v (tag = 49)), r'))
         else if tag AND 192 \<noteq> 0 then Inr (None, r')
         else res_bind (primitiveValue tag v) (\<lambda>_. Inr (None, r'))) = Inr (nested, r')"
      using eq False nz by (auto simp: res_bind_Inr_iff split: if_splits)
    obtain c zs where c: "ys = der_length (length c) @ c @ zs" "der_small c" "holds v c" "holds r' zs"
      by (rule readContent_E [OF t hs])
    show ?thesis
    proof (cases "tag AND 32 = 0")
      case True
      then have "nested = None" "tag AND 192 = 0 \<longrightarrow> primitive_content tag c"
        using n primitiveValue_iff [OF c(3), of tag] by (auto split: if_splits)
      then have "primitive_header [tag] c" "nested = None" using True False nz by (simp_all add: primitive_header_def)
      then show ?thesis using Cons c by (intro exI [of _ "[tag]"] exI [of _ c] exI [of _ zs]) simp
    next
      case big: False
      then have "nested = Some (newDerFrame v (tag = 49))" "tag AND 192 = 0 \<longrightarrow> tag = 48 \<or> tag = 49"
        using n by (auto split: if_splits)
      moreover from this(2) have "constructed_header [tag] (tag = 49)" using big False by (simp add: constructed_header_def)
      ultimately show ?thesis using Cons c by (intro exI [of _ "[tag]"] exI [of _ c] exI [of _ zs]) auto
    qed
  qed
qed

lemma value_long:
  assumes "holds r (tag # os @ der_length (length c) @ c @ zs)" "long_tag os" "tag AND 31 = 31" "der_small c"
  shows "\<exists>v r'. readAttributeValue r = long_result tag v r' \<and> holds v c \<and> holds r' zs"
proof -
  let ?ws = "der_length (length c) @ c @ zs"
  have hs: "holds (der_skip r) (os @ ?ws)" using holds_skip(2) [OF assms(1)] by simp
  have os: "arc_tail os" "hd os \<noteq> 128" "31 \<le> tag_number 0 os" "os \<noteq> []"
    using assms(2) tag_number_big [of os] by (auto simp: long_tag_def base128_def arc_tail_def)
  have "\<exists>r2. tagLoop (der_skip r) 0 = Inr (tag_number 0 os, r2) \<and> holds r2 ?ws"
    using tagLoop_iff [OF hs, of 0]
  proof
    assume "\<exists>os' zs'. os @ ?ws = os' @ zs' \<and> arc_tail os' \<and>
        (\<exists>r'. tagLoop (der_skip r) 0 = Inr (tag_number 0 os', r') \<and> holds r' zs')"
    then obtain os' zs' r' where "os @ ?ws = os' @ zs'" "arc_tail os'"
      "tagLoop (der_skip r) 0 = Inr (tag_number 0 os', r')" "holds r' zs'" by blast
    then show ?thesis using arc_tail_unique [OF os(1), of os' ?ws zs'] by auto
  next
    assume "tagLoop (der_skip r) 0 = Inl DataError \<and> (\<forall>os' zs'. os @ ?ws = os' @ zs' \<longrightarrow> \<not> arc_tail os')"
    then show ?thesis using os(1) by blast
  qed
  then obtain r2 where r2: "tagLoop (der_skip r) 0 = Inr (tag_number 0 os, r2)" "holds r2 ?ws" by blast
  obtain v r' where "readContent r2 = Inr (v, r')" "holds v c" "holds r' zs" by (rule readContent_I [OF r2(2) assms(4)])
  moreover from this have "readAttributeValue r = long_result tag v r'"
    using os r2(1) assms(3) by (simp add: readAttributeValue_cases [OF assms(1)])
  ultimately show ?thesis by blast
qed

lemma value_complete:
  assumes "holds r (h @ der_length (length c) @ c @ zs)" "der_small c"
  shows "primitive_header h c \<Longrightarrow> \<exists>r'. readAttributeValue r = Inr (None, r') \<and> holds r' zs"
    and "constructed_header h ordered \<Longrightarrow>
       \<exists>v r'. readAttributeValue r = Inr (Some (newDerFrame v ordered), r') \<and> holds v c \<and> holds r' zs"
proof -
  show "\<exists>r'. readAttributeValue r = Inr (None, r') \<and> holds r' zs" if p: "primitive_header h c"
  proof -
    obtain tag os where h: "h = tag # os" "tag AND 32 = 0" "if tag AND 31 = 31 then long_tag os
      else os = [] \<and> tag \<noteq> 0 \<and> (tag AND 192 = 0 \<longrightarrow> primitive_content tag c)"
      using p unfolding primitive_header_def by blast
    show ?thesis
    proof (cases "tag AND 31 = 31")
      case True
      then show ?thesis using value_long [of r tag os c zs] assms h by (auto simp: long_result_def)
    next
      case False
      then have hr: "holds r (tag # der_length (length c) @ c @ zs)" "tag \<noteq> 0" "tag AND 192 = 0 \<longrightarrow> primitive_content tag c"
        using h assms(1) by simp_all
      have hs: "holds (der_skip r) (der_length (length c) @ c @ zs)" using holds_skip(2) [OF hr(1)] by simp
      obtain v r' where v: "readContent (der_skip r) = Inr (v, r')" "holds v c" "holds r' zs"
        by (rule readContent_I [OF hs assms(2)])
      show ?thesis using False h(2) hr v primitiveValue_iff [OF v(2), of tag]
        by (simp add: readAttributeValue_cases [OF hr(1)])
    qed
  qed
  show "\<exists>v r'. readAttributeValue r = Inr (Some (newDerFrame v ordered), r') \<and> holds v c \<and> holds r' zs"
    if p: "constructed_header h ordered"
  proof -
    obtain tag os where h: "h = tag # os" "tag AND 32 \<noteq> 0" "if tag AND 31 = 31 then long_tag os \<and> \<not> ordered
      else os = [] \<and> (tag AND 192 = 0 \<longrightarrow> tag = 48 \<or> tag = 49) \<and> (ordered \<longleftrightarrow> tag = 49)"
      using p unfolding constructed_header_def by blast
    show ?thesis
    proof (cases "tag AND 31 = 31")
      case True
      then show ?thesis using value_long [of r tag os c zs] assms h by (auto simp: long_result_def)
    next
      case False
      then have hr: "holds r (tag # der_length (length c) @ c @ zs)" "tag \<noteq> 0"
        "tag AND 192 = 0 \<longrightarrow> tag = 48 \<or> tag = 49" "ordered \<longleftrightarrow> tag = 49"
        using h assms(1) by auto
      have hs: "holds (der_skip r) (der_length (length c) @ c @ zs)" using holds_skip(2) [OF hr(1)] by simp
      obtain v r' where v: "readContent (der_skip r) = Inr (v, r')" "holds v c" "holds r' zs"
        by (rule readContent_I [OF hs assms(2)])
      show ?thesis using False h(2) hr v by (auto simp: readAttributeValue_cases [OF hr(1)])
    qed
  qed
qed

section \<open>The stack of the validator\<close>

lemma slice_between:
  assumes "der_wf r" "der_wf r'" "dr_bytes r' = dr_bytes r" "dr_end r' = dr_end r" "der_content r = v @ der_content r'"
  shows "js_slice (dr_bytes r) (dr_position r) (dr_position r') = v"
proof -
  have l: "dr_end r - dr_position r = length v + (dr_end r - dr_position r')"
    using der_content_length [OF assms(1)] der_content_length [OF assms(2)] assms(4,5) by simp
  have le: "dr_position r \<le> dr_end r" "dr_position r' \<le> dr_end r" using assms(1,2,4) by (simp_all add: der_wf_def)
  have p: "dr_position r' - dr_position r = length v" using l le by linarith
  have "v = take (length v) (der_content r)" by (simp add: assms(5))
  also have "\<dots> = take (length v) (drop (dr_position r) (dr_bytes r))"
    using l by (simp add: der_content_def js_slice_def min_def)
  finally show ?thesis by (simp add: js_slice_def p)
qed

definition frame_previous :: "der_frame \<Rightarrow> bytes list" where
  "frame_previous f =
     (if df_previousStart f \<ge> 0
      then [js_slice (dr_bytes (df_reader f)) (nat (df_previousStart f)) (nat (df_previousEnd f))] else [])"

text \<open>A frame is right when what it has left is a sequence of values, in order where the frame asks for it.\<close>

definition frame_ok :: "der_frame \<Rightarrow> bool" where
  "frame_ok f \<longleftrightarrow> (\<exists>vs. der_content (df_reader f) = concat vs \<and> (\<forall>v\<in>set vs. der_value v) \<and>
     (df_ordered f \<longrightarrow> in_order (frame_previous f @ vs)))"

lemma in_order_Cons2: "in_order (p # v # vs) \<longleftrightarrow> compareEncoding p v \<le> 0 \<and> in_order (v # vs)"
  by (simp add: in_order_def)

lemma in_order_short [simp]: "in_order []" "in_order [v]"
  by (simp_all add: in_order_def)

definition new_frame_ok :: "der_reader \<Rightarrow> bool \<Rightarrow> bool" where
  "new_frame_ok v ordered \<longleftrightarrow> (\<exists>vs. der_content v = concat vs \<and> (\<forall>x\<in>set vs. der_value x) \<and> (ordered \<longrightarrow> in_order vs))"

lemma newDerFrame_ok: "frame_ok (newDerFrame v ordered) \<longleftrightarrow> new_frame_ok v ordered"
  by (simp add: frame_ok_def new_frame_ok_def newDerFrame_def frame_previous_def)

lemma frame_done:
  assumes "der_wf (df_reader f)" "der_done (df_reader f)"
  shows "frame_ok f"
  unfolding frame_ok_def
  using der_done_iff [OF assms(1)] assms(2) by (intro exI [of _ "[]"]) (simp add: frame_previous_def)

lemma frameTurn_iff:
  assumes wf: "der_wf (df_reader f)" and t: "frameTurn f = Inr (nested, f')"
  shows "der_wf (df_reader f') \<and> (\<forall>g. nested = Some g \<longrightarrow> der_wf (df_reader g)) \<and>
    (frame_ok f \<longleftrightarrow> frame_ok f' \<and> (\<forall>g. nested = Some g \<longrightarrow> frame_ok g))"
proof -
  let ?r = "df_reader f"
  obtain r where r: "readAttributeValue ?r = Inr (nested, r)"
    and g: "\<not> (df_ordered f \<and> df_previousStart f \<ge> 0 \<and>
           compareEncoding (js_slice (dr_bytes r) (nat (df_previousStart f)) (nat (df_previousEnd f)))
                           (js_slice (dr_bytes r) (dr_position ?r) (dr_position r)) > 0)"
    and f': "f' = f\<lparr>df_reader := r, df_previousStart := int (dr_position ?r), df_previousEnd := int (dr_position r)\<rparr>"
    using t by (auto simp: frameTurn_def Let_def res_bind_Inr_iff split: if_splits)
  have m: "dr_bytes r = dr_bytes ?r" "dr_end r = dr_end ?r" using readAttributeValue_moves(1) [OF r] by blast+
  have h0: "holds ?r (der_content ?r)" using wf by (simp add: holds_def)
  obtain h c zs where hc: "der_content ?r = h @ der_length (length c) @ c @ zs" "der_small c" "holds r zs"
    "case nested of None \<Rightarrow> primitive_header h c
     | Some f \<Rightarrow> \<exists>ordered v. f = newDerFrame v ordered \<and> holds v c \<and> constructed_header h ordered"
    using value_sound [OF r h0] by blast
  define v where "v = h @ der_length (length c) @ c"
  have x: "der_content ?r = v @ zs" "der_content r = zs" "der_wf r" using hc by (simp_all add: v_def holds_def)
  have sl: "js_slice (dr_bytes ?r) (dr_position ?r) (dr_position r) = v"
    by (rule slice_between [OF wf x(3) m]) (simp add: x)
  have prev: "frame_previous f' = [v]" by (simp add: frame_previous_def f' m sl)
  have order: "df_ordered f \<Longrightarrow> in_order (frame_previous f @ v # ws) \<longleftrightarrow> in_order (v # ws)" for ws
    using g by (auto simp: frame_previous_def m sl in_order_Cons2)
  have nest: "der_value v \<Longrightarrow> nested = Some k \<Longrightarrow> der_wf (df_reader k)" for k using hc(4) by (auto simp: newDerFrame_def holds_def)
  have "\<forall>g. nested = Some g \<longrightarrow> der_wf (df_reader g)" using hc(4) by (auto simp: newDerFrame_def holds_def)
  moreover have "frame_ok f \<longleftrightarrow> frame_ok f' \<and> (\<forall>g. nested = Some g \<longrightarrow> frame_ok g)"
  proof
    assume "frame_ok f"
    then obtain vs where vs: "v @ zs = concat vs" "\<forall>v\<in>set vs. der_value v" "df_ordered f \<longrightarrow> in_order (frame_previous f @ vs)"
      unfolding frame_ok_def x(1) by blast
    have "der_length (length c) \<noteq> []" by (simp add: der_length_def)
    then have "v \<noteq> []" by (simp add: v_def)
    then obtain w ws where ws: "vs = w # ws" using vs(1) by (cases vs) auto
    then have "der_value w" and hw: "holds ?r (w @ concat ws)" using vs(1,2) wf x(1) by (auto simp: holds_def)
    from this(1) have split: "holds r (concat ws) \<and> (\<forall>g. nested = Some g \<longrightarrow> frame_ok g)"
    proof cases
      case (primitive_value h' c')
      then have "holds ?r (h' @ der_length (length c') @ c' @ concat ws)" using hw by simp
      from value_complete(1) [OF this primitive_value(3,2)] show ?thesis using r by auto
    next
      case (constructed_value h' ordered us)
      let ?c = "concat us"
      have "holds ?r (h' @ der_length (length ?c) @ ?c @ concat ws)" using hw constructed_value by simp
      from value_complete(2) [OF this constructed_value(5,2)]
      obtain u where u: "nested = Some (newDerFrame u ordered)" "holds u ?c" "holds r (concat ws)" using r by auto
      have "new_frame_ok u ordered"
        unfolding new_frame_ok_def using u(2) constructed_value(3,4) by (intro exI [of _ us]) (simp add: holds_def)
      then show ?thesis using u by (simp add: newDerFrame_ok)
    qed
    then have zs: "zs = concat ws" using x(2) by (simp add: holds_def)
    then have w: "w = v" using vs(1) ws by simp
    have "frame_ok f'"
      unfolding frame_ok_def prev using vs ws zs w order by (intro exI [of _ ws]) (simp add: f' x(2))
    then show "frame_ok f' \<and> (\<forall>g. nested = Some g \<longrightarrow> frame_ok g)" using split by blast
  next
    assume a: "frame_ok f' \<and> (\<forall>g. nested = Some g \<longrightarrow> frame_ok g)"
    then obtain ws where ws: "zs = concat ws" "\<forall>v\<in>set ws. der_value v" "df_ordered f \<longrightarrow> in_order (v # ws)"
      unfolding frame_ok_def prev by (auto simp: f' x(2))
    have "der_value v"
    proof (cases nested)
      case None
      then show ?thesis using der_value.primitive_value [of h c] hc(2,4) by (simp add: v_def)
    next
      case (Some g)
      then obtain ordered u where u: "g = newDerFrame u ordered" "holds u c" "constructed_header h ordered" using hc(4) by auto
      then have "new_frame_ok u ordered" using a Some by (simp add: newDerFrame_ok)
      then obtain us where "c = concat us" "\<forall>x\<in>set us. der_value x" "ordered \<longrightarrow> in_order us"
        using u(2) by (auto simp: new_frame_ok_def holds_def)
      then show ?thesis using der_value.constructed_value [OF u(3), of us] hc(2) by (simp add: v_def)
    qed
    then show "frame_ok f"
      unfolding frame_ok_def x(1) using ws order by (intro exI [of _ "v # ws"]) simp
  qed
  ultimately show ?thesis using x(3) by (simp add: f')
qed

lemma frameTurn_total:
  assumes wf: "der_wf (df_reader f)" and nd: "\<not> der_done (df_reader f)" and ok: "frame_ok f"
  shows "\<exists>nested f'. frameTurn f = Inr (nested, f')"
proof -
  let ?r = "df_reader f"
  obtain vs where vs: "der_content ?r = concat vs" "\<forall>v\<in>set vs. der_value v" "df_ordered f \<longrightarrow> in_order (frame_previous f @ vs)"
    using ok unfolding frame_ok_def by blast
  have "der_content ?r \<noteq> []" using der_done_iff [OF wf] nd by simp
  then obtain w ws where ws: "vs = w # ws" using vs(1) by (cases vs) auto
  have hw: "holds ?r (w @ concat ws)" using vs(1) ws wf by (simp add: holds_def)
  have "der_value w" using vs(2) ws by simp
  then have "\<exists>nested r. readAttributeValue ?r = Inr (nested, r) \<and> holds r (concat ws)"
  proof cases
    case (primitive_value h' c')
    then have "holds ?r (h' @ der_length (length c') @ c' @ concat ws)" using hw by simp
    from value_complete(1) [OF this primitive_value(3,2)] show ?thesis by blast
  next
    case (constructed_value h' ordered us)
    have "holds ?r (h' @ der_length (length (concat us)) @ concat us @ concat ws)" using hw constructed_value by simp
    from value_complete(2) [OF this constructed_value(5,2)] show ?thesis by blast
  qed
  then obtain nested r where r: "readAttributeValue ?r = Inr (nested, r)" "holds r (concat ws)" by blast
  have m: "dr_bytes r = dr_bytes ?r" "dr_end r = dr_end ?r" using readAttributeValue_moves(1) [OF r(1)] by blast+
  have "js_slice (dr_bytes ?r) (dr_position ?r) (dr_position r) = w"
    by (rule slice_between [OF wf _ m]) (use r(2) hw in \<open>simp_all add: holds_def\<close>)
  then have "df_ordered f \<Longrightarrow> df_previousStart f \<ge> 0 \<Longrightarrow>
      compareEncoding (js_slice (dr_bytes r) (nat (df_previousStart f)) (nat (df_previousEnd f)))
                      (js_slice (dr_bytes r) (dr_position ?r) (dr_position r)) \<le> 0"
    using vs(3) ws m by (simp add: frame_previous_def in_order_Cons2)
  then show ?thesis by (auto simp: frameTurn_def Let_def r(1))
qed

lemma frameTurn_error: "frameTurn f = Inl e \<Longrightarrow> e = DataError"
proof -
  have o: "oidLoop xs b = Inl e \<Longrightarrow> e = DataError" for xs b e
    by (induction xs b rule: oidLoop.induct) (auto split: if_splits)
  have c: "readContent r = Inl e \<Longrightarrow> e = DataError" for r e
    by (auto simp: readContent_def der_window_def Let_def split: if_splits prod.splits)
  have t: "tagLoop r n = Inl e \<Longrightarrow> e = DataError" for r n e
  proof (induction r n rule: tagLoop.induct)
    case (1 r n)
    note eq = "1.prems" [unfolded tagLoop.simps [of r n]]
    show ?case
    proof (cases "dr_position r \<ge> dr_end r \<or> der_at r AND 128 = 0")
      case True
      then show ?thesis using eq by (auto simp: Let_def split: if_splits)
    next
      case False
      then have "tagLoop (der_skip r) (if n < 31 then n * 128 + uint (der_at r AND 127) else n) = Inl e"
        using eq by (simp add: Let_def)
      with "1.IH" [OF _ refl refl refl] False show ?thesis by blast
    qed
  qed
  have p: "primitiveValue tag v = Inl e \<Longrightarrow> e = DataError" for tag v e
    by (auto simp: primitiveValue_def Let_def res_bind_Inl_iff dest: o split: if_splits)
  have "readAttributeValue r = Inl e \<Longrightarrow> e = DataError" for r e
    by (auto simp: readAttributeValue_def der_peek_def der_read_def Let_def res_bind_Inl_iff dest: c t p split: if_splits)
  then show "frameTurn f = Inl e \<Longrightarrow> e = DataError"
    by (auto simp: frameTurn_def Let_def res_bind_Inl_iff split: if_splits)
qed

lemma attributeStack_iff:
  "\<forall>f\<in>set stack. der_wf (df_reader f) \<Longrightarrow> attributeStack stack = Inr () \<longleftrightarrow> (\<forall>f\<in>set stack. frame_ok f)"
proof (induction stack rule: attributeStack.induct)
  case (2 f stack)
  have wf: "der_wf (df_reader f)" using "2.prems" by simp
  show ?case
  proof (cases "der_done (df_reader f)")
    case True
    then show ?thesis using "2.IH"(1) [OF True] "2.prems" frame_done [OF wf True] by simp
  next
    case nd: False
    show ?thesis
    proof (cases "frameTurn f")
      case (Inl e)
      then show ?thesis using frameTurn_total [OF wf nd] nd by auto
    next
      case (Inr nf)
      obtain nested f' where nf: "nf = (nested, f')" by fastforce
      have t: "frameTurn f = Inr (nested, f')" using Inr nf by simp
      note T = frameTurn_iff [OF wf t]
      have "\<forall>g\<in>set ((case fst nf of None \<Rightarrow> [] | Some g \<Rightarrow> [g]) @ snd nf # stack). der_wf (df_reader g)"
        using T "2.prems" by (auto simp: nf split: option.splits)
      from "2.IH"(2) [OF nd Inr this] show ?thesis
        using T nd Inr by (auto simp: nf split: option.splits)
    qed
  qed
qed simp

lemma attributeValue_iff:
  assumes "holds r xs"
  shows "attributeValue r = Inr r' \<Longrightarrow> \<exists>v zs. xs = v @ zs \<and> der_value v \<and> holds r' zs"
    and "xs = v @ zs \<Longrightarrow> der_value v \<Longrightarrow> \<exists>r'. attributeValue r = Inr r' \<and> holds r' zs"
proof -
  show "\<exists>v zs. xs = v @ zs \<and> der_value v \<and> holds r' zs" if a: "attributeValue r = Inr r'"
  proof -
    obtain first where f: "readAttributeValue r = Inr (first, r')" and s: "case first of None \<Rightarrow> True | Some g \<Rightarrow> attributeStack [g] = Inr ()"
      using a by (auto simp: attributeValue_def res_bind_Inr_iff split: option.splits)
    obtain h c zs where hc: "xs = h @ der_length (length c) @ c @ zs" "der_small c" "holds r' zs"
      "case first of None \<Rightarrow> primitive_header h c
       | Some f \<Rightarrow> \<exists>ordered v. f = newDerFrame v ordered \<and> holds v c \<and> constructed_header h ordered"
      using value_sound [OF f assms] by blast
    have "der_value (h @ der_length (length c) @ c)"
    proof (cases first)
      case None
      then show ?thesis using der_value.primitive_value hc(2,4) by simp
    next
      case (Some g)
      then obtain ordered u where u: "g = newDerFrame u ordered" "holds u c" "constructed_header h ordered" using hc(4) by auto
      have "frame_ok g"
        using s Some attributeStack_iff [of "[g]"] u(1,2) by (simp add: newDerFrame_def holds_def)
      then obtain us where "c = concat us" "\<forall>x\<in>set us. der_value x" "ordered \<longrightarrow> in_order us"
        using u(1,2) by (auto simp: newDerFrame_ok new_frame_ok_def holds_def)
      then show ?thesis using der_value.constructed_value [OF u(3), of us] hc(2) by simp
    qed
    then show ?thesis using hc(1,3) by (intro exI [of _ "h @ der_length (length c) @ c"] exI [of _ zs]) simp
  qed
  show "\<exists>r'. attributeValue r = Inr r' \<and> holds r' zs" if x: "xs = v @ zs" "der_value v"
    using x(2)
  proof cases
    case (primitive_value h c)
    then have "holds r (h @ der_length (length c) @ c @ zs)" using assms x(1) by simp
    from value_complete(1) [OF this primitive_value(3,2)] show ?thesis by (auto simp: attributeValue_def)
  next
    case (constructed_value h ordered us)
    have "holds r (h @ der_length (length (concat us)) @ concat us @ zs)" using assms x(1) constructed_value by simp
    from value_complete(2) [OF this constructed_value(5,2)]
    obtain u r' where u: "readAttributeValue r = Inr (Some (newDerFrame u ordered), r')" "holds u (concat us)" "holds r' zs" by blast
    have "new_frame_ok u ordered"
      unfolding new_frame_ok_def using u(2) constructed_value(3,4) by (intro exI [of _ us]) (simp add: holds_def)
    then have "attributeStack [newDerFrame u ordered] = Inr ()"
      using attributeStack_iff [of "[newDerFrame u ordered]"] u(2) newDerFrame_ok by (simp add: newDerFrame_def holds_def)
    then show ?thesis using u by (simp add: attributeValue_def)
  qed
qed

section \<open>The grammar of attributes\<close>

definition der_attribute :: "bytes \<Rightarrow> bool" where
  "der_attribute a \<longleftrightarrow> (\<exists>oid vs. a = der 48 (der 6 oid @ der 49 (concat vs)) \<and> oid_content oid \<and> vs \<noteq> [] \<and>
     (\<forall>v\<in>set vs. der_value v) \<and> in_order vs \<and>
     der_small oid \<and> der_small (concat vs) \<and> der_small (der 6 oid @ der 49 (concat vs)))"

definition der_attributes :: "bytes \<Rightarrow> bool" where
  "der_attributes xs \<longleftrightarrow> (\<exists>as. xs = der 160 (concat as) \<and> (\<forall>a\<in>set as. der_attribute a) \<and> in_order as \<and> der_small (concat as))"

definition prev_list :: "bytes option \<Rightarrow> bytes list" where
  "prev_list p = (case p of None \<Rightarrow> [] | Some v \<Rightarrow> [v])"

lemma prev_list_simps [simp]: "prev_list None = []" "prev_list (Some v) = [v]"
  by (simp_all add: prev_list_def)

lemma in_order_prev: "in_order (prev_list p @ v # vs) \<longleftrightarrow> \<not> der_less p v \<and> in_order (v # vs)"
  by (cases p) (auto simp: der_less_def in_order_Cons2)

lemma der_nonempty [simp]: "der tag c \<noteq> []"
  by (simp add: der_def)

lemma between:
  assumes "holds r (v @ zs)" "holds r' zs" "dr_bytes r' = dr_bytes r" "dr_end r' = dr_end r"
  shows "der_between r r' = v"
  unfolding der_between_def
  by (rule slice_between) (use assms in \<open>simp_all add: holds_def\<close>)

lemma entriesLoop_iff:
  "holds entries xs \<Longrightarrow> entriesLoop entries previous = Inr () \<longleftrightarrow>
     (\<exists>vs. xs = concat vs \<and> (\<forall>v\<in>set vs. der_value v) \<and> in_order (prev_list previous @ vs))"
proof (induction entries previous arbitrary: xs rule: entriesLoop.induct)
  case (1 entries previous)
  show ?case
  proof (cases "xs = []")
    case True
    then have "entriesLoop entries previous = Inr ()" using "1.prems" by (subst entriesLoop.simps) simp
    moreover have "in_order (prev_list previous)" by (cases previous) simp_all
    ultimately show ?thesis using True by (intro iffI exI [of _ "[]"]) simp_all
  next
    case ne: False
    then have nd: "\<not> der_done entries" using "1.prems" by simp
    have e: "entriesLoop entries previous = Inr () \<longleftrightarrow>
        (\<exists>ep. entryTurn entries previous = Inr ep \<and> entriesLoop (fst ep) (Some (snd ep)) = Inr ())"
      using nd by (subst entriesLoop.simps) (simp add: res_bind_Inr_iff)
    have turn: "entryTurn entries previous = Inr (r', v) \<and> holds r' zs"
      if "xs = v @ zs" "attributeValue entries = Inr r'" "holds r' zs" "\<not> der_less previous v" for r' v zs
      using between [of entries v zs r'] attributeValue_moves [OF that(2)] that "1.prems" by (simp add: entryTurn_def)
    show ?thesis
      unfolding e
    proof
      assume "\<exists>ep. entryTurn entries previous = Inr ep \<and> entriesLoop (fst ep) (Some (snd ep)) = Inr ()"
      then obtain ep where ep: "entryTurn entries previous = Inr ep" "entriesLoop (fst ep) (Some (snd ep)) = Inr ()" by blast
      have a: "attributeValue entries = Inr (fst ep)" "snd ep = der_between entries (fst ep)" "\<not> der_less previous (snd ep)"
        using ep(1) by (auto simp: entryTurn_def res_bind_Inr_iff split: if_splits)
      obtain v zs where v: "xs = v @ zs" "der_value v" "holds (fst ep) zs" using attributeValue_iff(1) [OF "1.prems" a(1)] by blast
      have "snd ep = v" using between [of entries v zs "fst ep"] attributeValue_moves [OF a(1)] v "1.prems" a(2) by simp
      moreover obtain vs where "zs = concat vs" "\<forall>v\<in>set vs. der_value v" "in_order (prev_list (Some (snd ep)) @ vs)"
        using "1.IH" [OF nd ep(1) v(3)] ep(2) by blast
      ultimately show "\<exists>vs. xs = concat vs \<and> (\<forall>v\<in>set vs. der_value v) \<and> in_order (prev_list previous @ vs)"
        using v(1,2) a(3) by (intro exI [of _ "v # vs"]) (simp add: in_order_prev)
    next
      assume "\<exists>vs. xs = concat vs \<and> (\<forall>v\<in>set vs. der_value v) \<and> in_order (prev_list previous @ vs)"
      then obtain vs where vs: "xs = concat vs" "\<forall>v\<in>set vs. der_value v" "in_order (prev_list previous @ vs)" by blast
      then obtain v ws where ws: "vs = v # ws" using ne by (cases vs) auto
      have x: "xs = v @ concat ws" "der_value v" "\<not> der_less previous v" "in_order (v # ws)"
        using vs ws by (simp_all add: in_order_prev)
      obtain r' where r': "attributeValue entries = Inr r'" "holds r' (concat ws)"
        using attributeValue_iff(2) [OF "1.prems" x(1,2)] by blast
      have t: "entryTurn entries previous = Inr (r', v)" using turn [OF x(1) r' x(3)] by blast
      have h: "holds (fst (r', v)) (concat ws)" using r'(2) by simp
      have "entriesLoop r' (Some v) = Inr ()" using "1.IH" [OF nd t h] vs(2) ws x(4) by auto
      then show "\<exists>ep. entryTurn entries previous = Inr ep \<and> entriesLoop (fst ep) (Some (snd ep)) = Inr ()"
        using t by (intro exI [of _ "(r', v)"]) simp
    qed
  qed
qed

lemma readOid_E:
  assumes "res_bind (readOid r) f = Inr y" "holds r xs"
  obtains oid zs r' where "xs = der 6 oid @ zs" "oid_content oid" "der_small oid" "holds r' zs" "f r' = Inr y"
proof -
  obtain r' where r': "readOid r = Inr r'" "f r' = Inr y" using assms(1) by (auto simp: res_bind_Inr_iff)
  from r'(1) [unfolded readOid_def] assms(2) show thesis
  proof (elim read_E)
    fix v r1 c zs
    assume a: "xs = der 6 c @ zs" "der_small c" "holds v c" "holds r1 zs"
      "(case (v, r1) of (oid, r1) \<Rightarrow> if der_done oid then Inl DataError
        else res_bind (oidLoop (der_content oid) True) (\<lambda>first. if \<not> first then Inl DataError else Inr r1)) = Inr r'"
    then have "c \<noteq> [] \<and> oidLoop c True = Inr True \<and> r1 = r'"
      by (auto simp: res_bind_Inr_iff holdsD(2) split: if_splits)
    then show thesis using a r'(2) oid_content_iff [of c] by (intro that [of c zs r']) auto
  qed
qed

lemma readOid_I:
  assumes "holds r (der 6 oid @ zs)" "oid_content oid" "der_small oid" "\<And>r'. holds r' zs \<Longrightarrow> P (f r')"
  shows "P (res_bind (readOid r) f)"
proof -
  have o: "oid \<noteq> []" "oidLoop oid True = Inr True" using assms(2) oid_content_iff [of oid] by blast+
  have "\<exists>r'. readOid r = Inr r' \<and> holds r' zs"
    unfolding readOid_def
  proof (rule read_I [OF assms(1,3), where P = "\<lambda>m. \<exists>r'. m = Inr r' \<and> holds r' zs"])
    fix v r'
    assume "holds v oid" "holds r' zs"
    then show "\<exists>r''. (case (v, r') of (oid, r1) \<Rightarrow> if der_done oid then Inl DataError
        else res_bind (oidLoop (der_content oid) True) (\<lambda>first. if \<not> first then Inl DataError else Inr r1)) = Inr r'' \<and> holds r'' zs"
      using o holdsD(2) [of v oid] by simp
  qed
  then show ?thesis using assms(4) by auto
qed

lemma attributeTurn_sound:
  assumes "attributeTurn vals previous = Inr (r', a)" "holds vals xs"
  shows "\<exists>zs. xs = a @ zs \<and> der_attribute a \<and> holds r' zs \<and> \<not> der_less previous a"
proof -
  have mv: "\<exists>v. der_read 48 vals = Inr (v, r')"
    using assms(1) by (auto simp: attributeTurn_def res_bind_Inr_iff split: if_splits)
  then have m: "dr_bytes r' = dr_bytes vals" "dr_end r' = dr_end vals" using der_read_moves by blast+
  from assms(1) [unfolded attributeTurn_def] assms(2) show ?thesis
  proof (elim read_E)
    fix v r1 c zs
    assume r: "xs = der 48 c @ zs" "der_small c" "holds v c" "holds r1 zs"
      "(case (v, r1) of (attribute, values1) \<Rightarrow>
         res_bind (readOid attribute) (\<lambda>attribute1.
         res_bind (der_read 49 attribute1) (\<lambda>(entries, attribute2).
           if der_done entries then Inl DataError
           else res_bind (entriesLoop entries None) (\<lambda>_.
             res_bind (der_complete attribute2) (\<lambda>_.
               if der_less previous (der_between vals values1) then Inl DataError
               else Inr (values1, der_between vals values1)))))) = Inr (r', a)"
    from r(5) [unfolded prod.case] r(3) show ?thesis
    proof (elim readOid_E)
      fix oid ws v1
      assume o: "c = der 6 oid @ ws" "oid_content oid" "der_small oid" "holds v1 ws"
        "res_bind (der_read 49 v1) (\<lambda>(entries, attribute2).
           if der_done entries then Inl DataError
           else res_bind (entriesLoop entries None) (\<lambda>_.
             res_bind (der_complete attribute2) (\<lambda>_.
               if der_less previous (der_between vals r1) then Inl DataError
               else Inr (r1, der_between vals r1)))) = Inr (r', a)"
      from o(5,4) show ?thesis
      proof (elim read_E)
        fix e v2 d us
        assume s: "ws = der 49 d @ us" "der_small d" "holds e d" "holds v2 us"
          "(case (e, v2) of (entries, attribute2) \<Rightarrow>
             if der_done entries then Inl DataError
             else res_bind (entriesLoop entries None) (\<lambda>_.
               res_bind (der_complete attribute2) (\<lambda>_.
                 if der_less previous (der_between vals r1) then Inl DataError
                 else Inr (r1, der_between vals r1)))) = Inr (r', a)"
        then have t: "d \<noteq> []" "entriesLoop e None = Inr ()" "us = []" "\<not> der_less previous (der_between vals r1)"
          "r' = r1" "a = der_between vals r1"
          by (auto simp: res_bind_Inr_iff der_complete_def split: if_splits)
        obtain vs where vs: "d = concat vs" "\<forall>v\<in>set vs. der_value v" "in_order vs"
          using entriesLoop_iff [OF s(3), of None] t(2) by auto
        have b: "der_between vals r1 = der 48 c"
          by (rule between [of _ _ zs]) (use assms(2) r(1,4) m t(5) in simp_all)
        have "vs \<noteq> []" using t(1) vs(1) by auto
        then have "der_attribute (der 48 c)"
          unfolding der_attribute_def using o(1,2,3) s(1,2) t(3) vs r(2) by (intro exI [of _ oid] exI [of _ vs]) simp
        then show ?thesis using r(1,4) t b by auto
      qed
    qed
  qed
qed

lemma attributeTurn_complete:
  assumes "holds vals (a @ zs)" "der_attribute a" "\<not> der_less previous a"
  shows "\<exists>r'. attributeTurn vals previous = Inr (r', a) \<and> holds r' zs"
proof -
  obtain oid vs where a: "a = der 48 (der 6 oid @ der 49 (concat vs))" "oid_content oid" "vs \<noteq> []"
    "\<forall>v\<in>set vs. der_value v" "in_order vs" "der_small oid" "der_small (concat vs)" "der_small (der 6 oid @ der 49 (concat vs))"
    using assms(2) unfolding der_attribute_def by blast
  let ?c = "der 6 oid @ der 49 (concat vs)"
  obtain v r1 where r: "der_read 48 vals = Inr (v, r1)" "der_wf v" "der_wf r1" "der_content v = ?c" "der_content r1 = zs"
    by (rule der_read_complete [of vals 48 ?c zs]) (use assms(1) a(1,8) in \<open>auto simp: holds_def\<close>)
  have h: "holds v (der 6 oid @ der 49 (concat vs) @ [])" "holds r1 zs" using r by (simp_all add: holds_def)
  have b: "der_between vals r1 = a"
    by (rule between [of _ _ zs]) (use assms(1) h(2) der_read_moves [OF r(1)] in simp_all)
  have ne: "concat vs \<noteq> []" using a(3,4) der_value_nonempty by (cases vs) auto
  have "res_bind (readOid v) (\<lambda>attribute1.
         res_bind (der_read 49 attribute1) (\<lambda>(entries, attribute2).
           if der_done entries then Inl DataError
           else res_bind (entriesLoop entries None) (\<lambda>_.
             res_bind (der_complete attribute2) (\<lambda>_.
               if der_less previous (der_between vals r1) then Inl DataError
               else Inr (r1, der_between vals r1))))) = Inr (r1, a)"
  proof (rule readOid_I [OF h(1) a(2,6)])
    fix v1
    assume v1: "holds v1 (der 49 (concat vs) @ [])"
    show "res_bind (der_read 49 v1) (\<lambda>(entries, attribute2).
           if der_done entries then Inl DataError
           else res_bind (entriesLoop entries None) (\<lambda>_.
             res_bind (der_complete attribute2) (\<lambda>_.
               if der_less previous (der_between vals r1) then Inl DataError
               else Inr (r1, der_between vals r1)))) = Inr (r1, a)"
    proof (rule read_I [OF v1 a(7)])
      fix e v2
      assume e: "holds e (concat vs)" "holds v2 []"
      have "entriesLoop e None = Inr ()" using entriesLoop_iff [OF e(1), of None] a(4,5) by auto
      moreover have "der_complete v2 = Inr ()" using e(2) by (simp add: der_complete_def)
      ultimately show "(case (e, v2) of (entries, attribute2) \<Rightarrow>
             if der_done entries then Inl DataError
             else res_bind (entriesLoop entries None) (\<lambda>_.
               res_bind (der_complete attribute2) (\<lambda>_.
                 if der_less previous (der_between vals r1) then Inl DataError
                 else Inr (r1, der_between vals r1)))) = Inr (r1, a)"
        using e(1) ne assms(3) by (simp add: b)
    qed
  qed
  then show ?thesis using h(2) r(1) by (simp add: attributeTurn_def)
qed

lemma der_attribute_nonempty: "der_attribute a \<Longrightarrow> a \<noteq> []"
  by (auto simp: der_attribute_def)

lemma attributesLoop_iff:
  "holds vals xs \<Longrightarrow> attributesLoop vals previous = Inr () \<longleftrightarrow>
     (\<exists>as. xs = concat as \<and> (\<forall>a\<in>set as. der_attribute a) \<and> in_order (prev_list previous @ as))"
proof (induction vals previous arbitrary: xs rule: attributesLoop.induct)
  case (1 vals previous)
  show ?case
  proof (cases "xs = []")
    case True
    then have "attributesLoop vals previous = Inr ()" using "1.prems" by (subst attributesLoop.simps) simp
    moreover have "in_order (prev_list previous)" by (cases previous) simp_all
    ultimately show ?thesis using True by (intro iffI exI [of _ "[]"]) simp_all
  next
    case ne: False
    then have nd: "\<not> der_done vals" using "1.prems" by simp
    have e: "attributesLoop vals previous = Inr () \<longleftrightarrow>
        (\<exists>vp. attributeTurn vals previous = Inr vp \<and> attributesLoop (fst vp) (Some (snd vp)) = Inr ())"
      using nd by (subst attributesLoop.simps) (simp add: res_bind_Inr_iff)
    show ?thesis
      unfolding e
    proof
      assume "\<exists>vp. attributeTurn vals previous = Inr vp \<and> attributesLoop (fst vp) (Some (snd vp)) = Inr ()"
      then obtain r' a where vp: "attributeTurn vals previous = Inr (r', a)" "attributesLoop r' (Some a) = Inr ()" by auto
      obtain zs where zs: "xs = a @ zs" "der_attribute a" "holds r' zs" "\<not> der_less previous a"
        using attributeTurn_sound [OF vp(1) "1.prems"] by blast
      have h: "holds (fst (r', a)) zs" using zs(3) by simp
      obtain as where "zs = concat as" "\<forall>a\<in>set as. der_attribute a" "in_order (a # as)"
        using "1.IH" [OF nd vp(1) h] vp(2) by auto
      then show "\<exists>as. xs = concat as \<and> (\<forall>a\<in>set as. der_attribute a) \<and> in_order (prev_list previous @ as)"
        using zs(1,2,4) by (intro exI [of _ "a # as"]) (simp add: in_order_prev)
    next
      assume "\<exists>as. xs = concat as \<and> (\<forall>a\<in>set as. der_attribute a) \<and> in_order (prev_list previous @ as)"
      then obtain as where as: "xs = concat as" "\<forall>a\<in>set as. der_attribute a" "in_order (prev_list previous @ as)" by blast
      then obtain a bs where bs: "as = a # bs" using ne by (cases as) auto
      have x: "holds vals (a @ concat bs)" "der_attribute a" "\<not> der_less previous a" "in_order (a # bs)"
        using as bs "1.prems" by (simp_all add: in_order_prev)
      obtain r' where r': "attributeTurn vals previous = Inr (r', a)" "holds r' (concat bs)"
        using attributeTurn_complete [OF x(1-3)] by blast
      have h: "holds (fst (r', a)) (concat bs)" using r'(2) by simp
      have "attributesLoop r' (Some a) = Inr ()" using "1.IH" [OF nd r'(1) h] as(2) bs x(4) by auto
      then show "\<exists>vp. attributeTurn vals previous = Inr vp \<and> attributesLoop (fst vp) (Some (snd vp)) = Inr ()"
        using r'(1) by (intro exI [of _ "(r', a)"]) simp
    qed
  qed
qed

lemma optionalAttributes_iff:
  assumes "holds envelope xs"
  shows "optionalAttributes envelope = Inr () \<longleftrightarrow> xs = [] \<or> der_attributes xs"
proof (cases "xs = []")
  case True
  then show ?thesis using assms by (simp add: optionalAttributes_def der_complete_def)
next
  case False
  then have e: "optionalAttributes envelope = res_bind (attributes envelope) der_complete"
    using assms by (simp add: optionalAttributes_def)
  show ?thesis
  proof
    assume "optionalAttributes envelope = Inr ()"
    then obtain r' where a: "attributes envelope = Inr r'" "der_complete r' = Inr ()"
      unfolding e by (auto simp: res_bind_Inr_iff)
    from a(1) [unfolded attributes_def] assms have "der_attributes xs"
    proof (elim read_E)
      fix v r1 c zs
      assume r: "xs = der 160 c @ zs" "der_small c" "holds v c" "holds r1 zs"
        "(case (v, r1) of (values, r1) \<Rightarrow> res_bind (attributesLoop values None) (\<lambda>_. Inr r1)) = Inr r'"
      then have l: "attributesLoop v None = Inr ()" "r1 = r'" by (auto simp: res_bind_Inr_iff)
      then have "zs = []" using r(4) a(2) by (simp add: der_complete_def split: if_splits)
      then show "der_attributes xs"
        using attributesLoop_iff [OF r(3), of None] l(1) r(1,2) by (auto simp: der_attributes_def)
    qed
    then show "xs = [] \<or> der_attributes xs" by blast
  next
    assume "xs = [] \<or> der_attributes xs"
    then obtain as where as: "xs = der 160 (concat as) @ []" "\<forall>a\<in>set as. der_attribute a" "in_order as" "der_small (concat as)"
      using False by (auto simp: der_attributes_def)
    have "\<exists>r'. attributes envelope = Inr r' \<and> holds r' []"
      unfolding attributes_def
    proof (rule read_I [where P = "\<lambda>m. \<exists>r'. m = Inr r' \<and> holds r' []", OF _ as(4)])
      show "holds envelope (der 160 (concat as) @ [])" using assms as(1) by simp
      fix v r'
      assume h: "holds v (concat as)" "holds r' []"
      then have "attributesLoop v None = Inr ()" using attributesLoop_iff [OF h(1), of None] as(2,3) by auto
      then show "\<exists>r''. (case (v, r') of (values, r1) \<Rightarrow> res_bind (attributesLoop values None) (\<lambda>_. Inr r1)) = Inr r'' \<and> holds r'' []"
        using h(2) by simp
    qed
    then show "optionalAttributes envelope = Inr ()" unfolding e by (auto simp: der_complete_def)
  qed
qed

end
