(* ===== verification/Der_Keys.thy ===== *)
theory Der_Keys
  imports Der_Values
begin

text \<open>
  The key structures: each as a function from a key to its encoding, which the parser inverts. Rules that follow
  a reader through a sequence make each proof one pass over the code. The properties are at the end.
\<close>

section \<open>Rules that follow the readers of a structure\<close>

lemma readE:
  assumes "res_bind (der_read tag r) (case_prod f) = Inr y" "holds r xs"
  obtains v r' c zs where "xs = der tag c @ zs" "holds v c" "holds r' zs" "f v r' = Inr y"
  by (rule read_E [OF assms]) (rule that, assumption+, simp)

lemma integerE:
  assumes "res_bind (der_integer z r) (case_prod f) = Inr y" "holds r xs"
  obtains n r' zs where "xs = der_int n @ zs" "der_magnitude z n" "holds r' zs" "f n r' = Inr y"
  by (rule integer_E [OF assms]) (rule that, assumption+, simp)

lemma ifE:
  assumes "(if c then Inl e else m) = Inr y"
  obtains "\<not> c" "m = Inr y"
  using assms by (simp split: if_splits)

text \<open>The code as one chain: nested sequences, conditions and results pushed outwards.\<close>

lemma bind_prod: "res_bind (res_bind m (case_prod f)) g = res_bind m (\<lambda>(a, b). res_bind (f a b) g)"
  by (simp add: res_bind_assoc split_def)

lemma bind_if: "res_bind (if c then Inl e else m) f = (if c then Inl e else res_bind m f)"
  by simp

lemma bind_unit: "res_bind (res_bind (der_complete r) f) g = res_bind (der_complete r) (\<lambda>u. res_bind (f u) g)"
  by (rule res_bind_assoc)

lemmas flat = bind_prod bind_if bind_unit res_bind_simps prod.case

lemma readI:
  assumes "holds r (der tag c @ zs)" "der_small c" "\<And>v r'. holds v c \<Longrightarrow> holds r' zs \<Longrightarrow> f v r' = Inr y"
  shows "res_bind (der_read tag r) (case_prod f) = Inr y"
  by (rule read_I [OF assms(1,2), where P = "\<lambda>m. m = Inr y"]) (simp add: assms(3))

lemma readI_last:
  assumes "holds r (der tag c)" "der_small c" "\<And>v r'. holds v c \<Longrightarrow> holds r' [] \<Longrightarrow> f v r' = Inr y"
  shows "res_bind (der_read tag r) (case_prod f) = Inr y"
  by (rule readI [of r tag c "[]"]) (use assms in simp_all)

lemma completeI: "holds r [] \<Longrightarrow> f () = Inr y \<Longrightarrow> res_bind (der_complete r) f = Inr y"
  by (rule complete_I [where P = "\<lambda>m. m = Inr y"])

lemma integerI:
  assumes "holds r (der_int n @ zs)" "der_magnitude z n" "der_int_small n" "\<And>r'. holds r' zs \<Longrightarrow> f n r' = Inr y"
  shows "res_bind (der_integer z r) (case_prod f) = Inr y"
  by (rule integer_I [OF assms(1-3), where P = "\<lambda>m. m = Inr y"]) (simp add: assms(4))

lemma integerI_last:
  assumes "holds r (der_int n)" "der_magnitude z n" "der_int_small n" "\<And>r'. holds r' [] \<Longrightarrow> f n r' = Inr y"
  shows "res_bind (der_integer z r) (case_prod f) = Inr y"
  by (rule integerI [of r n "[]"]) (use assms in simp_all)

text \<open>The sizes inside a small encoding.\<close>

lemma length_der: "length (der tag c) = Suc (length (der_length (length c)) + length c)"
  by (simp add: der_def)

lemma small_append: "der_small (xs @ ys) \<Longrightarrow> der_small xs" "der_small (xs @ ys) \<Longrightarrow> der_small ys"
  by (simp_all add: der_small_def)

lemma small_Cons: "der_small (x # xs) \<Longrightarrow> der_small xs"
  by (simp add: der_small_def)

lemma small_der: "der_small (der tag c) \<Longrightarrow> der_small c"
  by (simp add: der_small_def length_der)

lemma small_int: "der_small (der_int n) \<Longrightarrow> der_int_small n"
  unfolding der_int_def der_int_small_def by (rule small_der)

lemmas smallD = small_append small_Cons small_der small_int

lemma small_Nil [simp]: "der_small []"
  by (simp add: der_small_def)

text \<open>The envelope, a version number and a bit string.\<close>

lemma envelopeE:
  assumes "res_bind (readEnvelope bs) f = Inr y"
  obtains r c where "bs = der 48 c" "holds r c" "f r = Inr y"
  using assms unfolding readEnvelope_def flat
  by (elim readE [OF _ holds_new] complete_E) (assumption, simp add: that)

lemma envelopeI:
  assumes "bs = der 48 c" "der_small c" "\<And>r. holds r c \<Longrightarrow> f r = Inr y"
  shows "res_bind (readEnvelope bs) f = Inr y"
proof -
  have h: "holds (newDerReader bs) (der 48 c)" using holds_new [of bs] by (simp only: assms(1))
  show ?thesis unfolding readEnvelope_def flat
    by (rule readI_last [OF h assms(2)], rule completeI) (simp_all add: assms(3))
qed

lemma versionE:
  assumes "res_bind (readVersion z allowed r) (case_prod f) = Inr y" "holds r xs"
  obtains v r' zs where "xs = der_int [v] @ zs" "v \<in> allowed" "v = 0 \<longrightarrow> z" "holds r' zs" "f v r' = Inr y"
  using assms unfolding readVersion_def flat
proof (elim integerE ifE)
  fix n r' zs
  assume a: "xs = der_int n @ zs" "der_magnitude z n" "holds r' zs" "f (hd n) r' = Inr y"
    "\<not> (length n \<noteq> 1 \<or> hd n \<notin> allowed)"
  then obtain v where "n = [v]" "v \<in> allowed" by (cases n) auto
  then show thesis using a by (intro that [of v zs r']) (auto simp: der_magnitude_def)
qed

lemma versionI:
  assumes "holds r (der_int [v] @ zs)" "v \<in> allowed" "v = 0 \<longrightarrow> z" "\<And>r'. holds r' zs \<Longrightarrow> f v r' = Inr y"
  shows "res_bind (readVersion z allowed r) (case_prod f) = Inr y"
proof -
  have "der_magnitude z [v]" "der_int_small [v]" using assms(3) by (auto simp: der_magnitude_def der_int_small_def der_small_def)
  from assms(1) this show ?thesis unfolding readVersion_def flat
    by (rule integerI) (use assms(2,4) in simp)
qed

lemma bitStringE:
  assumes "res_bind (readBitString r) (case_prod f) = Inr y" "holds r xs"
  obtains v r' c zs where "xs = der 3 (0 # c) @ zs" "holds v c" "holds r' zs" "f v r' = Inr y"
  using assms unfolding readBitString_def flat
proof (elim readE ifE)
  fix v r' c zs
  assume a: "xs = der 3 c @ zs" "holds v c" "holds r' zs" "\<not> (der_done v \<or> der_at v \<noteq> 0)" "f (der_skip v) r' = Inr y"
  then have ne: "c \<noteq> []" by auto
  note s = holds_skip [OF a(2) ne]
  have "c = 0 # tl c" using s(1) a(4) ne by (cases c) auto
  then show thesis using a s(2) by (intro that [of "tl c" zs "der_skip v" r']) auto
qed

lemma bitStringI:
  assumes "holds r (der 3 (0 # c) @ zs)" "der_small (0 # c)" "\<And>v r'. holds v c \<Longrightarrow> holds r' zs \<Longrightarrow> f v r' = Inr y"
  shows "res_bind (readBitString r) (case_prod f) = Inr y"
  unfolding readBitString_def flat
proof (rule readI [OF assms(1,2)])
  fix v r'
  assume h: "holds v (0 # c)" "holds r' zs"
  show "(if der_done v \<or> der_at v \<noteq> 0 then Inl DataError else f (der_skip v) r') = Inr y"
    using holds_skip [OF h(1)] h assms(3) by simp
qed

lemma bitStringI_last:
  assumes "holds r (der 3 (0 # c))" "der_small (0 # c)" "\<And>v r'. holds v c \<Longrightarrow> holds r' [] \<Longrightarrow> f v r' = Inr y"
  shows "res_bind (readBitString r) (case_prod f) = Inr y"
  by (rule bitStringI [of r c "[]"]) (use assms in simp_all)

lemma attributesE:
  assumes "res_bind (optionalAttributes r) f = Inr y" "holds r xs"
  obtains "xs = [] \<or> der_attributes xs" "f () = Inr y"
  using assms(1) optionalAttributes_iff [OF assms(2)] that by (auto simp: res_bind_Inr_iff)

lemma attributesI:
  assumes "holds r xs" "xs = [] \<or> der_attributes xs" "f () = Inr y"
  shows "res_bind (optionalAttributes r) f = Inr y"
  using assms(3) optionalAttributes_iff [OF assms(1)] assms(2) by simp

section \<open>RSA keys\<close>

definition rsa_algorithm :: "bool \<Rightarrow> bytes" where
  "rsa_algorithm null = der 48 (der 6 rsaEncryptionOid @ (if null then der 5 [] else []))"

definition rsa_public :: "bytes \<Rightarrow> bytes \<Rightarrow> bytes" where
  "rsa_public n e = der 48 (der_int n @ der_int e)"

definition rsa_prime :: "bytes \<times> bytes \<times> bytes \<Rightarrow> bytes" where
  "rsa_prime p = der 48 (der_int (fst p) @ der_int (fst (snd p)) @ der_int (snd (snd p)))"

definition rsa_private_key :: "bytes \<Rightarrow> bytes \<Rightarrow> rsa_private \<Rightarrow> bytes" where
  "rsa_private_key n e k =
     der 48 (der_int [if rk_oth k = None then 0 else 1] @ der_int n @ der_int e @ der_int (rk_d k) @ der_int (rk_p k) @
       der_int (rk_q k) @ der_int (rk_dp k) @ der_int (rk_dq k) @ der_int (rk_qi k) @
       (case rk_oth k of None \<Rightarrow> [] | Some ps \<Rightarrow> der 48 (concat (map rsa_prime ps))))"

definition positive :: "bytes \<Rightarrow> bool" where
  "positive n \<longleftrightarrow> n \<noteq> [] \<and> hd n \<noteq> 0"

definition prime_wf :: "bytes \<times> bytes \<times> bytes \<Rightarrow> bool" where
  "prime_wf p \<longleftrightarrow> (case p of (r, d, t) \<Rightarrow> positive r \<and> positive d \<and> positive t)"

definition rsa_private_wf :: "rsa_private \<Rightarrow> bool" where
  "rsa_private_wf k \<longleftrightarrow>
     positive (rk_d k) \<and> positive (rk_p k) \<and> positive (rk_q k) \<and> positive (rk_dp k) \<and> positive (rk_dq k) \<and>
     positive (rk_qi k) \<and>
     (case rk_oth k of None \<Rightarrow> True
      | Some ps \<Rightarrow> ps \<noteq> [] \<and> list_all prime_wf ps)"

definition rsa_wf :: "rsa_components \<Rightarrow> bool" where
  "rsa_wf k \<longleftrightarrow> positive (rsa_n k) \<and> positive (rsa_e k) \<and> (case rsa_key k of None \<Rightarrow> True | Some p \<Rightarrow> rsa_private_wf p)"

lemma magnitude_positive [simp]: "der_magnitude False n \<longleftrightarrow> positive n"
  by (auto simp: der_magnitude_def positive_def)

definition rsaNull :: "bool \<Rightarrow> der_reader \<Rightarrow> der_reader result" where
  "rsaNull req alg = (if req \<or> \<not> der_done alg
     then res_bind (der_read 5 alg) (\<lambda>(null, algorithm2). res_bind (der_complete null) (\<lambda>_. Inr algorithm2))
     else Inr alg)"

lemma rsaNullE:
  assumes "res_bind (rsaNull req alg) f = Inr y" "holds alg xs"
  obtains null zs r' where "xs = (if null then der 5 [] else []) @ zs" "req \<longrightarrow> null" "holds r' zs" "f r' = Inr y"
proof (cases "req \<or> \<not> der_done alg")
  case True
  have "res_bind (der_read 5 alg) (\<lambda>(null, algorithm2). res_bind (der_complete null) (\<lambda>_. f algorithm2)) = Inr y"
    using assms(1) unfolding rsaNull_def if_P [OF True] flat .
  from this assms(2) show thesis
    by (rule readE) (erule (1) complete_E, rule that [of True], simp_all)
next
  case False
  have "f alg = Inr y" using assms(1) unfolding rsaNull_def if_not_P [OF False] flat .
  then show thesis using False assms(2) by (intro that [of False "[]" alg]) auto
qed

lemma rsaNullI:
  assumes "holds alg (if null then der 5 [] else [])" "req \<longrightarrow> null" "\<And>r'. holds r' [] \<Longrightarrow> f r' = Inr y"
  shows "res_bind (rsaNull req alg) f = Inr y"
proof (cases null)
  case True
  then have h: "holds alg (der 5 [])" and c: "req \<or> \<not> der_done alg" using assms(1) by auto
  show ?thesis unfolding rsaNull_def if_P [OF c] flat
    by (rule readI_last [OF h]) (simp_all add: der_complete_def assms(3))
next
  case False
  then have "holds alg []" "\<not> req" using assms(1,2) by simp_all
  then show ?thesis using assms(3) by (simp add: rsaNull_def)
qed

lemma rsaAlgorithm_chain:
  "res_bind (rsaAlgorithm req r) f =
     res_bind (der_read 48 r) (\<lambda>(algorithm, r1).
     res_bind (der_read 6 algorithm) (\<lambda>(oid, algorithm1).
       if der_content oid \<noteq> rsaEncryptionOid then Inl DataError
       else res_bind (rsaNull req algorithm1) (\<lambda>algorithm2. res_bind (der_complete algorithm2) (\<lambda>_. f r1))))"
  unfolding rsaAlgorithm_def flat rsaNull_def [symmetric] unfolding res_bind_assoc flat ..

lemma rsaAlgorithmE:
  assumes "res_bind (rsaAlgorithm req r) f = Inr y" "holds r xs"
  obtains null zs r' where "xs = rsa_algorithm null @ zs" "req \<longrightarrow> null" "holds r' zs" "f r' = Inr y"
  using assms unfolding rsaAlgorithm_chain
proof (elim readE ifE)
  fix alg r1 c zs oid alg1 oi zs1
  assume a: "xs = der 48 c @ zs" "holds r1 zs" "c = der 6 oi @ zs1" "holds oid oi" "\<not> der_content oid \<noteq> rsaEncryptionOid"
  assume "holds alg1 zs1" "res_bind (rsaNull req alg1) (\<lambda>algorithm2. res_bind (der_complete algorithm2) (\<lambda>_. f r1)) = Inr y"
  then obtain null r2 zs2 where n: "zs1 = (if null then der 5 [] else []) @ zs2" "req \<longrightarrow> null" "holds r2 zs2"
    "res_bind (der_complete r2) (\<lambda>_. f r1) = Inr y"
    by (elim rsaNullE) (assumption, blast)
  from n(4,3) have "zs2 = []" "f r1 = Inr y" by (elim complete_E; simp)+
  then show thesis using a n holdsD(2) [OF a(4)] by (intro that [of null zs r1]) (simp_all add: rsa_algorithm_def)
qed

lemma rsaAlgorithmI:
  assumes h: "holds r (rsa_algorithm null @ zs)" and req: "req \<longrightarrow> null" and f: "\<And>r'. holds r' zs \<Longrightarrow> f r' = Inr y"
  shows "res_bind (rsaAlgorithm req r) f = Inr y"
  unfolding rsaAlgorithm_chain
proof (rule readI [OF h [unfolded rsa_algorithm_def]])
  show "der_small (der 6 rsaEncryptionOid @ (if null then der 5 [] else []))"
    by (simp add: der_small_def rsaEncryptionOid_def length_der der_length_def)
  fix alg r1
  assume a: "holds alg (der 6 rsaEncryptionOid @ (if null then der 5 [] else []))" "holds r1 zs"
  show "res_bind (der_read 6 alg) (\<lambda>(oid, algorithm1).
       if der_content oid \<noteq> rsaEncryptionOid then Inl DataError
       else res_bind (rsaNull req algorithm1) (\<lambda>algorithm2. res_bind (der_complete algorithm2) (\<lambda>_. f r1))) = Inr y"
  proof (rule readI [OF a(1)])
    show "der_small rsaEncryptionOid" by (simp add: der_small_def rsaEncryptionOid_def)
    fix oid alg1
    assume b: "holds oid rsaEncryptionOid" "holds alg1 (if null then der 5 [] else [])"
    have "res_bind (rsaNull req alg1) (\<lambda>algorithm2. res_bind (der_complete algorithm2) (\<lambda>_. f r1)) = Inr y"
      by (rule rsaNullI [OF b(2) req], rule completeI) (simp_all add: f [OF a(2)])
    then show "(if der_content oid \<noteq> rsaEncryptionOid then Inl DataError
       else res_bind (rsaNull req alg1) (\<lambda>algorithm2. res_bind (der_complete algorithm2) (\<lambda>_. f r1))) = Inr y"
      using holdsD(2) [OF b(1)] by simp
  qed
qed

section \<open>RSA keys, both formats\<close>

definition rsa_der :: "bool \<Rightarrow> bytes \<Rightarrow> rsa_components \<Rightarrow> bytes" where
  "rsa_der null attrs k =
     (case rsa_key k of
        None \<Rightarrow> der 48 (rsa_algorithm null @ der 3 (0 # rsa_public (rsa_n k) (rsa_e k)))
      | Some p \<Rightarrow> der 48 (der_int [0] @ rsa_algorithm null @ der 4 (rsa_private_key (rsa_n k) (rsa_e k) p) @ attrs))"

definition rsa_format :: "rsa_components \<Rightarrow> der_format" where
  "rsa_format k = (if rsa_key k = None then Spki else Pkcs8)"

lemma publicComponents_E:
  assumes "publicComponents r = Inr k" "holds r xs"
  shows "xs = rsa_public (rsa_n k) (rsa_e k) \<and> rsa_wf k \<and> rsa_key k = None"
  using assms unfolding publicComponents_def
  by - (erule (1) readE, erule (1) complete_E, (erule (1) integerE)+, erule (1) complete_E,
    auto simp: rsa_public_def rsa_wf_def)

lemma publicComponents_I:
  assumes "holds r (rsa_public n e)" "der_small (rsa_public n e)" "positive n" "positive e"
  shows "publicComponents r = Inr \<lparr>rsa_n = n, rsa_e = e, rsa_key = None\<rparr>"
proof -
  have s: "der_small (der_int n @ der_int e)" using assms(2) unfolding rsa_public_def by (rule small_der)
  note s2 = small_int [OF small_append(1) [OF s]] small_int [OF small_append(2) [OF s]]
  show ?thesis unfolding publicComponents_def
    by (rule readI_last [OF assms(1) [unfolded rsa_public_def] s], rule completeI, assumption,
      rule integerI, assumption, simp add: assms(3), rule s2(1),
      rule integerI_last, assumption, simp add: assms(4), rule s2(2), rule completeI, assumption, simp)
qed

lemma primeTurn_E:
  assumes "primeTurn others = Inr (p, r')" "holds others xs"
  shows "\<exists>zs. xs = rsa_prime p @ zs \<and> prime_wf p \<and> holds r' zs"
  using assms unfolding primeTurn_def
  by - (erule (1) readE, (erule (1) integerE)+, erule (1) complete_E, auto simp: rsa_prime_def prime_wf_def)

lemma primeTurn_I:
  assumes h: "holds others (rsa_prime p @ zs)" and wf: "prime_wf p" and s: "der_small (rsa_prime p)"
  shows "\<exists>r'. primeTurn others = Inr (p, r') \<and> holds r' zs"
proof -
  obtain r d t where p: "p = (r, d, t)" by (cases p)
  have s1: "der_small (der_int r @ der_int d @ der_int t)" using s unfolding rsa_prime_def p by (simp add: small_der)
  note s2 = small_int [OF small_append(1) [OF s1]] small_int [OF small_append(1) [OF small_append(2) [OF s1]]]
    small_int [OF small_append(2) [OF small_append(2) [OF s1]]]
  have w: "positive r" "positive d" "positive t" using wf by (simp_all add: p prime_wf_def)
  have h': "holds others (der 48 (der_int r @ der_int d @ der_int t) @ zs)" using h by (simp add: rsa_prime_def p)
  show ?thesis
    unfolding primeTurn_def p
  proof (rule read_I [OF h' s1, where P = "\<lambda>m. \<exists>r'. m = Inr ((r, d, t), r') \<and> holds r' zs"], unfold prod.case,
      rule exI, rule conjI)
    fix v r' assume a: "holds v (der_int r @ der_int d @ der_int t)" "holds r' zs"
    from a(2) show "holds r' zs" .
    show "res_bind (der_integer False v) (\<lambda>(r, prime). res_bind (der_integer False prime) (\<lambda>(d, prime).
        res_bind (der_integer False prime) (\<lambda>(t, prime). res_bind (der_complete prime) (\<lambda>_. Inr ((r, d, t), r'))))) =
      Inr ((r, d, t), r')"
      by (rule integerI [OF a(1)], simp add: w, rule s2, rule integerI, assumption, simp add: w, rule s2,
        rule integerI_last, assumption, simp add: w, rule s2, rule completeI, assumption, simp)
  qed
qed

lemma othersLoop_E:
  "othersLoop others oth = Inr ps \<Longrightarrow> holds others xs \<Longrightarrow>
     \<exists>qs. ps = oth @ qs \<and> xs = concat (map rsa_prime qs) \<and> list_all prime_wf qs"
proof (induction others oth arbitrary: xs rule: othersLoop.induct)
  case (1 others oth)
  show ?case
  proof (cases "xs = []")
    case True
    then have "ps = oth" using "1.prems" by (simp add: othersLoop.simps)
    then show ?thesis using True by (intro exI [of _ "[]"]) simp
  next
    case False
    then have nd: "\<not> der_done others" using "1.prems"(2) by simp
    obtain p r' where t: "primeTurn others = Inr (p, r')" "othersLoop r' (oth @ [p]) = Inr ps"
      using "1.prems"(1) nd by (subst (asm) othersLoop.simps) (auto simp: res_bind_Inr_iff)
    obtain zs where z: "xs = rsa_prime p @ zs" "prime_wf p" "holds r' zs" using primeTurn_E [OF t(1) "1.prems"(2)] by blast
    have "\<exists>qs. ps = (oth @ [p]) @ qs \<and> zs = concat (map rsa_prime qs) \<and> list_all prime_wf qs"
      using "1.IH" [OF nd t(1)] t(2) z(3) by simp
    then obtain qs where "ps = oth @ p # qs" "zs = concat (map rsa_prime qs)" "list_all prime_wf qs" by auto
    then show ?thesis using z(1,2) by (intro exI [of _ "p # qs"]) simp
  qed
qed

lemma othersLoop_I:
  "holds others (concat (map rsa_prime qs)) \<Longrightarrow> list_all prime_wf qs \<Longrightarrow> der_small (concat (map rsa_prime qs)) \<Longrightarrow>
     othersLoop others oth = Inr (oth @ qs)"
proof (induction qs arbitrary: others oth)
  case Nil
  then show ?case by (simp add: othersLoop.simps)
next
  case (Cons p qs)
  have h: "holds others (rsa_prime p @ concat (map rsa_prime qs))" "prime_wf p" using Cons.prems(1,2) by simp_all
  have s: "der_small (rsa_prime p)" "der_small (concat (map rsa_prime qs))"
    using Cons.prems(3) by (simp_all add: der_small_def)
  have nd: "\<not> der_done others" using h(1) by (simp add: rsa_prime_def)
  obtain r' where r: "primeTurn others = Inr (p, r')" "holds r' (concat (map rsa_prime qs))"
    using primeTurn_I [OF h s(1)] by blast
  have "othersLoop r' (oth @ [p]) = Inr ((oth @ [p]) @ qs)"
    using Cons.IH [OF r(2)] Cons.prems(2) s(2) by simp
  then show ?case using nd r(1) by (subst othersLoop.simps) simp
qed

text \<open>The end of a private key: nothing, or the further primes.\<close>

definition rsa_others :: "(bytes \<times> bytes \<times> bytes) list option \<Rightarrow> bytes" where
  "rsa_others oth = (case oth of None \<Rightarrow> [] | Some ps \<Rightarrow> der 48 (concat (map rsa_prime ps)))"

definition others_wf :: "(bytes \<times> bytes \<times> bytes) list option \<Rightarrow> bool" where
  "others_wf oth \<longleftrightarrow> (case oth of None \<Rightarrow> True | Some ps \<Rightarrow> ps \<noteq> [] \<and> list_all prime_wf ps)"

definition rsaRest :: "byte \<Rightarrow> der_reader \<Rightarrow> ((bytes \<times> bytes \<times> bytes) list option \<Rightarrow> 'a) \<Rightarrow> 'a result" where
  "rsaRest version key components =
     (if version = 0 then res_bind (der_complete key) (\<lambda>_. Inr (components None))
      else
        res_bind (der_read 48 key) (\<lambda>(others, key).
          if der_done others then Inl DataError
          else
            res_bind (othersLoop others []) (\<lambda>oth.
            res_bind (der_complete key) (\<lambda>_. Inr (components (Some oth))))))"

lemma rsaRest_E:
  assumes "rsaRest version key components = Inr k" "holds key xs"
  shows "\<exists>oth. xs = rsa_others oth \<and> others_wf oth \<and> (version = 0 \<longleftrightarrow> oth = None) \<and> k = components oth"
proof (cases "version = 0")
  case True
  with assms show ?thesis by (auto simp: rsaRest_def rsa_others_def others_wf_def elim: complete_E)
next
  case False
  then have "res_bind (der_read 48 key) (\<lambda>(others, key).
          if der_done others then Inl DataError
          else res_bind (othersLoop others []) (\<lambda>oth. res_bind (der_complete key) (\<lambda>_. Inr (components (Some oth))))) = Inr k"
    using assms(1) by (simp add: rsaRest_def)
  from this assms(2) show ?thesis
  proof (rule readE)
    fix v r' c zs
    assume a: "xs = der 48 c @ zs" "holds v c" "holds r' zs"
      "(if der_done v then Inl DataError
          else res_bind (othersLoop v []) (\<lambda>oth. res_bind (der_complete r') (\<lambda>_. Inr (components (Some oth))))) = Inr k"
    from a(4) obtain ps where ps: "\<not> der_done v" "othersLoop v [] = Inr ps"
      "res_bind (der_complete r') (\<lambda>_. Inr (components (Some ps))) = Inr k"
      by (auto simp: res_bind_Inr_iff split: if_splits)
    have z: "zs = []" "components (Some ps) = k" using complete_E [OF ps(3) a(3)] by auto
    have o: "c = concat (map rsa_prime ps)" "list_all prime_wf ps" using othersLoop_E [OF ps(2) a(2)] by auto
    have "ps \<noteq> []" using ps(1) a(2) o(1) by auto
    then show ?thesis using a(1) z o False by (intro exI [of _ "Some ps"]) (simp add: rsa_others_def others_wf_def)
  qed
qed

lemma rsaRest_I:
  assumes h: "holds key (rsa_others oth)" and wf: "others_wf oth" and s: "der_small (rsa_others oth)"
    and v: "version = 0 \<longleftrightarrow> oth = None"
  shows "rsaRest version key components = Inr (components oth)"
proof (cases oth)
  case None
  then show ?thesis using h v by (simp add: rsaRest_def rsa_others_def der_complete_def)
next
  case (Some ps)
  have h': "holds key (der 48 (concat (map rsa_prime ps)))" and w: "ps \<noteq> []" "list_all prime_wf ps"
    and s': "der_small (concat (map rsa_prime ps))"
    using h wf s small_der by (auto simp: Some rsa_others_def others_wf_def)
  have ne: "concat (map rsa_prime ps) \<noteq> []" using w(1) by (cases ps) (simp_all add: rsa_prime_def)
  have "res_bind (der_read 48 key) (\<lambda>(others, key).
          if der_done others then Inl DataError
          else res_bind (othersLoop others []) (\<lambda>oth. res_bind (der_complete key) (\<lambda>_. Inr (components (Some oth))))) =
     Inr (components (Some ps))"
  proof (rule readI_last [OF h' s'])
    fix v r' assume a: "holds v (concat (map rsa_prime ps))" "holds r' []"
    show "(if der_done v then Inl DataError
          else res_bind (othersLoop v []) (\<lambda>oth. res_bind (der_complete r') (\<lambda>_. Inr (components (Some oth))))) =
       Inr (components (Some ps))"
      using ne othersLoop_I [OF a(1) w(2) s'] a by (simp add: der_complete_def)
  qed
  then show ?thesis using v Some by (simp add: rsaRest_def)
qed

lemma privateComponents_chain:
  "privateComponents r =
     res_bind (der_read 48 r) (\<lambda>(key, r1).
     res_bind (der_complete r1) (\<lambda>_.
     res_bind (readVersion True {0, 1} key) (\<lambda>(version, key).
     res_bind (der_integer False key) (\<lambda>(n, key).
     res_bind (der_integer False key) (\<lambda>(e, key).
     res_bind (der_integer False key) (\<lambda>(d, key).
     res_bind (der_integer False key) (\<lambda>(p, key).
     res_bind (der_integer False key) (\<lambda>(q, key).
     res_bind (der_integer False key) (\<lambda>(dp, key).
     res_bind (der_integer False key) (\<lambda>(dq, key).
     res_bind (der_integer False key) (\<lambda>(qi, key).
       rsaRest version key (\<lambda>oth. \<lparr>rsa_n = n, rsa_e = e,
            rsa_key = Some \<lparr>rk_d = d, rk_p = p, rk_q = q, rk_dp = dp, rk_dq = dq, rk_qi = qi, rk_oth = oth\<rparr>\<rparr>))))))))))))"
  unfolding privateComponents_def rsaRest_def Let_def ..

lemma private_key_alt:
  "rsa_private_key n e k =
     der 48 (der_int [if rk_oth k = None then 0 else 1] @ der_int n @ der_int e @ der_int (rk_d k) @ der_int (rk_p k) @
       der_int (rk_q k) @ der_int (rk_dp k) @ der_int (rk_dq k) @ der_int (rk_qi k) @ rsa_others (rk_oth k))"
  unfolding rsa_private_key_def rsa_others_def ..

lemma private_wf_alt:
  "rsa_private_wf k \<longleftrightarrow> positive (rk_d k) \<and> positive (rk_p k) \<and> positive (rk_q k) \<and> positive (rk_dp k) \<and> positive (rk_dq k) \<and>
     positive (rk_qi k) \<and> others_wf (rk_oth k)"
  unfolding rsa_private_wf_def others_wf_def ..

lemma privateComponents_E:
  assumes "privateComponents r = Inr k" "holds r xs"
  shows "\<exists>p. rsa_key k = Some p \<and> xs = rsa_private_key (rsa_n k) (rsa_e k) p \<and> rsa_wf k"
  using assms unfolding privateComponents_chain
proof (elim readE, simp only:)
  fix key r1 c zs
  assume x: "xs = der 48 c @ zs" "holds key c" "holds r1 zs"
  assume m: "res_bind (der_complete r1) (\<lambda>_.
     res_bind (readVersion True {0, 1} key) (\<lambda>(version, key).
     res_bind (der_integer False key) (\<lambda>(n, key).
     res_bind (der_integer False key) (\<lambda>(e, key).
     res_bind (der_integer False key) (\<lambda>(d, key).
     res_bind (der_integer False key) (\<lambda>(p, key).
     res_bind (der_integer False key) (\<lambda>(q, key).
     res_bind (der_integer False key) (\<lambda>(dp, key).
     res_bind (der_integer False key) (\<lambda>(dq, key).
     res_bind (der_integer False key) (\<lambda>(qi, key).
       rsaRest version key (\<lambda>oth. \<lparr>rsa_n = n, rsa_e = e,
            rsa_key = Some \<lparr>rk_d = d, rk_p = p, rk_q = q, rk_dp = dp, rk_dq = dq, rk_qi = qi, rk_oth = oth\<rparr>\<rparr>))))))))))) = Inr k"
  have "zs = [] \<and> (\<exists>v n e d p q dp dq qi oth. v \<in> {0, 1} \<and> (v = 0 \<longleftrightarrow> oth = None) \<and>
     k = \<lparr>rsa_n = n, rsa_e = e,
            rsa_key = Some \<lparr>rk_d = d, rk_p = p, rk_q = q, rk_dp = dp, rk_dq = dq, rk_qi = qi, rk_oth = oth\<rparr>\<rparr> \<and>
     c = der_int [v] @ der_int n @ der_int e @ der_int d @ der_int p @ der_int q @ der_int dp @ der_int dq @ der_int qi @ rsa_others oth \<and>
     positive n \<and> positive e \<and> positive d \<and> positive p \<and> positive q \<and> positive dp \<and> positive dq \<and> positive qi \<and> others_wf oth)"
    using m x(2,3)
    by - (erule (1) complete_E, erule (1) versionE, (erule (1) integerE)+, drule (1) rsaRest_E, elim exE conjE, rule conjI, assumption,
      (rule exI)+, (rule conjI, assumption)+, simp)
  then obtain v n e d p q dp dq qi oth where a: "zs = []" "v \<in> {0, 1}" "v = 0 \<longleftrightarrow> oth = None"
     "k = \<lparr>rsa_n = n, rsa_e = e,
            rsa_key = Some \<lparr>rk_d = d, rk_p = p, rk_q = q, rk_dp = dp, rk_dq = dq, rk_qi = qi, rk_oth = oth\<rparr>\<rparr>"
     "c = der_int [v] @ der_int n @ der_int e @ der_int d @ der_int p @ der_int q @ der_int dp @ der_int dq @ der_int qi @ rsa_others oth"
     "positive n" "positive e" "positive d" "positive p" "positive q" "positive dp" "positive dq" "positive qi" "others_wf oth"
    by blast
  have "v = (if oth = None then 0 else 1)" using a(2,3) by auto
  then show ?thesis using a x(1) by (simp add: private_key_alt private_wf_alt rsa_wf_def)
qed

lemma privateComponents_I:
  assumes h: "holds r (rsa_private_key (rsa_n k) (rsa_e k) p)" and s: "der_small (rsa_private_key (rsa_n k) (rsa_e k) p)"
    and wf: "rsa_wf k" and k: "rsa_key k = Some p"
  shows "privateComponents r = Inr k"
proof -
  define v :: byte where "v = (if rk_oth p = None then 0 else 1)"
  have v: "v \<in> {0, 1}" "v = 0 \<longleftrightarrow> rk_oth p = None" by (simp_all add: v_def)
  have w: "positive (rsa_n k)" "positive (rsa_e k)" "positive (rk_d p)" "positive (rk_p p)" "positive (rk_q p)"
    "positive (rk_dp p)" "positive (rk_dq p)" "positive (rk_qi p)" "others_wf (rk_oth p)"
    using wf k by (simp_all add: rsa_wf_def private_wf_alt)
  let ?c = "der_int [v] @ der_int (rsa_n k) @ der_int (rsa_e k) @ der_int (rk_d p) @ der_int (rk_p p) @
       der_int (rk_q p) @ der_int (rk_dp p) @ der_int (rk_dq p) @ der_int (rk_qi p) @ rsa_others (rk_oth p)"
  have s1: "der_small ?c" using s unfolding private_key_alt v_def [symmetric] by (rule small_der)
  have s2: "der_int_small (rsa_n k)" "der_int_small (rsa_e k)" "der_int_small (rk_d p)" "der_int_small (rk_p p)"
    "der_int_small (rk_q p)" "der_int_small (rk_dp p)" "der_int_small (rk_dq p)" "der_int_small (rk_qi p)"
    "der_small (rsa_others (rk_oth p))"
    by (rule small_int, use s1 in \<open>simp add: der_small_def\<close>)+ (use s1 in \<open>simp add: der_small_def\<close>)
  have e: "k = \<lparr>rsa_n = rsa_n k, rsa_e = rsa_e k,
            rsa_key = Some \<lparr>rk_d = rk_d p, rk_p = rk_p p, rk_q = rk_q p, rk_dp = rk_dp p, rk_dq = rk_dq p, rk_qi = rk_qi p, rk_oth = rk_oth p\<rparr>\<rparr>"
    using k by simp
  show ?thesis
    unfolding privateComponents_chain
    by (rule readI_last [OF h [unfolded private_key_alt v_def [symmetric]] s1], rule completeI, assumption,
      rule versionI, assumption, rule v, simp,
      (rule integerI, assumption, simp only: magnitude_positive w, rule s2)+,
      subst (2) e, rule rsaRest_I [OF _ w(9) s2(9) v(2)])
qed

lemma rsa_der_sound:
  assumes "parseRsaDer fmt bs req = Inr k"
  shows "\<exists>null attrs. rsa_format k = fmt \<and> rsa_wf k \<and> (req \<longrightarrow> null) \<and> (attrs = [] \<or> der_attributes attrs) \<and>
    bs = rsa_der null attrs k"
proof (cases fmt)
  case Spki
  with assms have p: "res_bind (readEnvelope bs) (\<lambda>envelope.
     res_bind (rsaAlgorithm req envelope) (\<lambda>envelope.
           res_bind (readBitString envelope) (\<lambda>(publicKey, envelope).
           res_bind (der_complete envelope) (\<lambda>_. publicComponents publicKey)))) = Inr k"
    by (simp add: parseRsaDer_def)
  then obtain null c where "req \<longrightarrow> null" "bs = der 48 (rsa_algorithm null @ der 3 (0 # c))"
    "c = rsa_public (rsa_n k) (rsa_e k) \<and> rsa_wf k \<and> rsa_key k = None"
    by - (erule envelopeE, erule (1) rsaAlgorithmE, erule (1) bitStringE, erule (1) complete_E, drule (1) publicComponents_E, simp)
  then show ?thesis by (intro exI [of _ null] exI [of _ "[]"]) (simp add: rsa_format_def rsa_der_def Spki)
next
  case Pkcs8
  with assms have p: "res_bind (readEnvelope bs) (\<lambda>envelope.
           res_bind (readVersion True {0} envelope) (\<lambda>(_, envelope).
           res_bind (rsaAlgorithm req envelope) (\<lambda>envelope.
           res_bind (der_read 4 envelope) (\<lambda>(privateKey, envelope).
           res_bind (optionalAttributes envelope) (\<lambda>_. privateComponents privateKey))))) = Inr k"
    by (simp add: parseRsaDer_def)
  then obtain null c attrs p where "req \<longrightarrow> null" "bs = der 48 (der_int [0] @ rsa_algorithm null @ der 4 c @ attrs)"
    "attrs = [] \<or> der_attributes attrs" "rsa_key k = Some p" "c = rsa_private_key (rsa_n k) (rsa_e k) p" "rsa_wf k"
    by - (erule envelopeE, erule (1) versionE, erule (1) rsaAlgorithmE, erule (1) readE, erule (1) attributesE,
      drule (1) privateComponents_E, elim exE conjE, simp)
  then show ?thesis by (intro exI [of _ null] exI [of _ attrs]) (simp add: rsa_format_def rsa_der_def Pkcs8)
qed

lemma rsa_der_complete:
  assumes s: "der_small (rsa_der null attrs k)" and wf: "rsa_wf k" and req: "req \<longrightarrow> null"
    and attrs: "attrs = [] \<or> der_attributes attrs"
  shows "parseRsaDer (rsa_format k) (rsa_der null attrs k) req = Inr k"
proof (cases "rsa_key k")
  case None
  let ?p = "rsa_public (rsa_n k) (rsa_e k)"
  have e: "rsa_der null attrs k = der 48 (rsa_algorithm null @ der 3 (0 # ?p))" by (simp add: rsa_der_def None)
  have s1: "der_small (rsa_algorithm null @ der 3 (0 # ?p))" using s unfolding e by (rule small_der)
  have s2: "der_small (0 # ?p)" by (rule small_der [OF small_append(2) [OF s1]])
  have k: "k = \<lparr>rsa_n = rsa_n k, rsa_e = rsa_e k, rsa_key = None\<rparr>" using None by simp
  have w: "positive (rsa_n k)" "positive (rsa_e k)" using wf by (simp_all add: rsa_wf_def)
  have "res_bind (readEnvelope (rsa_der null attrs k)) (\<lambda>envelope.
     res_bind (rsaAlgorithm req envelope) (\<lambda>envelope.
           res_bind (readBitString envelope) (\<lambda>(publicKey, envelope).
           res_bind (der_complete envelope) (\<lambda>_. publicComponents publicKey)))) = Inr k"
    by (rule envelopeI [OF e s1], rule rsaAlgorithmI [OF _ req], assumption, rule bitStringI_last [OF _ s2], assumption,
      rule completeI, assumption, rule publicComponents_I [OF _ small_Cons [OF s2] w, folded k])
  then show ?thesis using None by (simp add: parseRsaDer_def rsa_format_def)
next
  case (Some p)
  let ?p = "rsa_private_key (rsa_n k) (rsa_e k) p"
  have e: "rsa_der null attrs k = der 48 (der_int [0] @ rsa_algorithm null @ der 4 ?p @ attrs)" by (simp add: rsa_der_def Some)
  have s1: "der_small (der_int [0] @ rsa_algorithm null @ der 4 ?p @ attrs)" using s unfolding e by (rule small_der)
  have s2: "der_small ?p" by (rule small_der [OF small_append(1) [OF small_append(2) [OF small_append(2) [OF s1]]]])
  have "res_bind (readEnvelope (rsa_der null attrs k)) (\<lambda>envelope.
           res_bind (readVersion True {0} envelope) (\<lambda>(_, envelope).
           res_bind (rsaAlgorithm req envelope) (\<lambda>envelope.
           res_bind (der_read 4 envelope) (\<lambda>(privateKey, envelope).
           res_bind (optionalAttributes envelope) (\<lambda>_. privateComponents privateKey))))) = Inr k"
    by (rule envelopeI [OF e s1], rule versionI, assumption, simp, simp, rule rsaAlgorithmI [OF _ req], assumption,
      rule readI [OF _ s2], assumption, rule attributesI [OF _ attrs], assumption, rule privateComponents_I [OF _ s2 wf Some])
  then show ?thesis using Some by (simp add: parseRsaDer_def rsa_format_def)
qed

section \<open>Elliptic curve keys\<close>

definition curve_oid :: "named_curve \<Rightarrow> bytes" where
  "curve_oid c = (case c of P_256 \<Rightarrow> p256Oid | P_384 \<Rightarrow> p384Oid | P_521 \<Rightarrow> p521Oid)"

definition ec_algorithm :: "named_curve \<Rightarrow> bytes" where
  "ec_algorithm c = der 48 (der 6 ecPublicKeyOid @ der 6 (curve_oid c))"

definition ec_point_wf :: "named_curve \<Rightarrow> bytes \<times> bytes \<Rightarrow> bool" where
  "ec_point_wf c p \<longleftrightarrow> length (fst p) = ecCurveByteLength c \<and> length (snd p) = ecCurveByteLength c"

definition ec_public :: "bytes \<times> bytes \<Rightarrow> bytes" where
  "ec_public p = der 3 (0 # 4 # fst p @ snd p)"

definition ec_private :: "bool \<Rightarrow> named_curve \<Rightarrow> bytes \<Rightarrow> (bytes \<times> bytes) option \<Rightarrow> bytes" where
  "ec_private params c d point =
     der 48 (der_int [1] @ der 4 d @ (if params then der 160 (der 6 (curve_oid c)) else []) @
       (case point of None \<Rightarrow> [] | Some p \<Rightarrow> der 161 (ec_public p)))"

definition ec_der :: "bool \<Rightarrow> bytes \<Rightarrow> ec_key \<Rightarrow> bytes" where
  "ec_der params attrs k =
     (case ec_d k of
        None \<Rightarrow> der 48 (ec_algorithm (ec_namedCurve k) @ ec_public (the (ec_point k)))
      | Some d \<Rightarrow> der 48 (der_int [0] @ ec_algorithm (ec_namedCurve k) @
          der 4 (ec_private params (ec_namedCurve k) d (ec_point k)) @ attrs))"

definition ec_format :: "ec_key \<Rightarrow> der_format" where
  "ec_format k = (if ec_d k = None then Spki else Pkcs8)"

definition ec_wf :: "ec_key \<Rightarrow> bool" where
  "ec_wf k \<longleftrightarrow> (case ec_d k of None \<Rightarrow> ec_point k \<noteq> None | Some d \<Rightarrow> length d = ecCurveByteLength (ec_namedCurve k)) \<and>
     (case ec_point k of None \<Rightarrow> True | Some p \<Rightarrow> ec_point_wf (ec_namedCurve k) p)"

text \<open>\<open>requirePrivateFields\<close> of a key with a private part: both optional fields are there.\<close>

definition ec_complete :: "bool \<Rightarrow> ec_key \<Rightarrow> bool" where
  "ec_complete params k \<longleftrightarrow> ec_d k = None \<or> params \<and> ec_point k \<noteq> None"

lemma curve_oid_inj: "curve_oid c = curve_oid c' \<Longrightarrow> c = c'"
  by (cases c; cases c') (simp_all add: curve_oid_def p256Oid_def p384Oid_def p521Oid_def)

lemma ecNamedCurveE:
  assumes "res_bind (ecNamedCurve r) (case_prod f) = Inr y" "holds r xs"
  obtains c zs r' where "xs = der 6 (curve_oid c) @ zs" "holds r' zs" "f c r' = Inr y"
proof -
  have "res_bind (der_read 6 r) (\<lambda>(v, r1).
      res_bind (let oid = der_content v
        in if oid = p256Oid then Inr (P_256, r1)
           else if oid = p384Oid then Inr (P_384, r1)
           else if oid = p521Oid then Inr (P_521, r1)
           else Inl DataError) (case_prod f)) = Inr y"
    using assms(1) unfolding ecNamedCurve_def bind_prod .
  from this assms(2) show thesis
  proof (rule readE)
    fix v r' c zs
    assume a: "xs = der 6 c @ zs" "holds v c" "holds r' zs"
      "res_bind (let oid = der_content v
        in if oid = p256Oid then Inr (P_256, r')
           else if oid = p384Oid then Inr (P_384, r')
           else if oid = p521Oid then Inr (P_521, r')
           else Inl DataError) (case_prod f) = Inr y"
    have v: "der_content v = c" by (rule holdsD(2) [OF a(2)])
    have "\<exists>cu. c = curve_oid cu \<and> f cu r' = Inr y"
      using a(4) unfolding v Let_def by (auto simp: res_bind_Inr_iff curve_oid_def split: if_splits named_curve.splits)
    then show thesis using a(1,3) that by blast
  qed
qed

lemma curve_oid_small: "der_small (curve_oid c)"
  by (cases c) (simp_all add: curve_oid_def p256Oid_def p384Oid_def p521Oid_def der_small_def)

lemma ecNamedCurveI_last:
  assumes "holds r (der 6 (curve_oid c))" "\<And>r'. holds r' [] \<Longrightarrow> f c r' = Inr y"
  shows "res_bind (ecNamedCurve r) (case_prod f) = Inr y"
  unfolding ecNamedCurve_def bind_prod
proof (rule readI_last [OF assms(1) curve_oid_small])
  fix v r'
  assume a: "holds v (curve_oid c)" "holds r' []"
  show "res_bind (let oid = der_content v
        in if oid = p256Oid then Inr (P_256, r')
           else if oid = p384Oid then Inr (P_384, r')
           else if oid = p521Oid then Inr (P_521, r')
           else Inl DataError) (case_prod f) = Inr y"
    unfolding holdsD(2) [OF a(1)] Let_def using assms(2) [OF a(2)]
    by (cases c) (simp_all add: curve_oid_def p256Oid_def p384Oid_def p521Oid_def)
qed

lemma ecAlgorithmE:
  assumes "res_bind (ecAlgorithm r) (case_prod f) = Inr y" "holds r xs"
  obtains c zs r' where "xs = ec_algorithm c @ zs" "holds r' zs" "f c r' = Inr y"
proof -
  have "\<exists>c zs r'. xs = ec_algorithm c @ zs \<and> holds r' zs \<and> f c r' = Inr y"
    using assms unfolding ecAlgorithm_def flat
    by - (erule (1) readE, erule (1) readE, erule ifE, erule (1) ecNamedCurveE, erule (1) complete_E,
      rule exI, rule exI, rule exI, rule conjI [OF _ conjI], rotate_tac -1, simp_all add: ec_algorithm_def holdsD(2))
  then show thesis using that by blast
qed

lemma ecAlgorithmI:
  assumes "holds r (ec_algorithm c @ zs)" "\<And>r'. holds r' zs \<Longrightarrow> f c r' = Inr y"
  shows "res_bind (ecAlgorithm r) (case_prod f) = Inr y"
proof -
  have s: "der_small (der 6 ecPublicKeyOid @ der 6 (curve_oid c))" "der_small ecPublicKeyOid"
    by (cases c; simp add: der_small_def length_der der_length_def ecPublicKeyOid_def curve_oid_def p256Oid_def p384Oid_def p521Oid_def)+
  show ?thesis
    unfolding ecAlgorithm_def flat
    by (rule readI [OF assms(1) [unfolded ec_algorithm_def] s(1)], rule readI [OF _ s(2)], assumption,
      simp only: holdsD(2) not_True_eq_False simp_thms if_False, rule ecNamedCurveI_last, assumption, rule completeI, assumption, rule assms(2))
qed

lemma parseEcPoint_iff:
  "parseEcPoint bs c = Inr p \<longleftrightarrow> ec_point_wf c p \<and> bs = 4 # fst p @ snd p"
proof
  assume a: "parseEcPoint bs c = Inr p"
  define w where "w = ecCurveByteLength c"
  have l: "length bs = 1 + 2 * w" "bs ! 0 = 4" "p = (js_slice bs 1 (1 + w), js_slice bs (1 + w) (1 + 2 * w))"
    using a by (auto simp: parseEcPoint_def Let_def w_def split: if_splits)
  obtain zs where bs: "bs = 4 # zs" using l(1,2) by (cases bs) simp_all
  have z: "length zs = 2 * w" using l(1) bs by simp
  have "fst p = take w zs" "snd p = drop w zs" using l(3) z by (simp_all add: js_slice_def bs)
  then show "ec_point_wf c p \<and> bs = 4 # fst p @ snd p" using z bs by (simp add: ec_point_wf_def w_def [symmetric])
next
  assume a: "ec_point_wf c p \<and> bs = 4 # fst p @ snd p"
  then show "parseEcPoint bs c = Inr p"
    by (cases p) (simp add: parseEcPoint_def Let_def ec_point_wf_def js_slice_def)
qed

lemma ecBitStringE:
  assumes "res_bind (ecBitString c r) (case_prod f) = Inr y" "holds r xs"
  obtains p zs r' where "xs = ec_public p @ zs" "ec_point_wf c p" "holds r' zs" "f p r' = Inr y"
proof -
  have "res_bind (readBitString r) (\<lambda>(v, r1). res_bind (parseEcPoint (der_content v) c) (\<lambda>p. f p r1)) = Inr y"
    using assms(1) unfolding ecBitString_def bind_prod by (simp add: res_bind_assoc)
  from this assms(2) show thesis
  proof (rule bitStringE)
    fix v r' b zs
    assume a: "xs = der 3 (0 # b) @ zs" "holds v b" "holds r' zs"
      "res_bind (parseEcPoint (der_content v) c) (\<lambda>p. f p r') = Inr y"
    then obtain p where "parseEcPoint b c = Inr p" "f p r' = Inr y" by (auto simp: res_bind_Inr_iff holdsD(2))
    then show thesis using a(1,3) by (intro that [of p zs r']) (simp_all add: parseEcPoint_iff ec_public_def)
  qed
qed

lemma ecBitStringI_last:
  assumes "holds r (ec_public p)" "ec_point_wf c p" "\<And>r'. holds r' [] \<Longrightarrow> f p r' = Inr y"
  shows "res_bind (ecBitString c r) (case_prod f) = Inr y"
proof -
  have s: "der_small (0 # 4 # fst p @ snd p)"
    using assms(2) by (cases c) (simp_all add: der_small_def ec_point_wf_def)
  have "res_bind (readBitString r) (\<lambda>(v, r1). res_bind (parseEcPoint (der_content v) c) (\<lambda>p. f p r1)) = Inr y"
  proof (rule bitStringI_last [OF assms(1) [unfolded ec_public_def] s])
    fix v r'
    assume a: "holds v (4 # fst p @ snd p)" "holds r' []"
    have "parseEcPoint (der_content v) c = Inr p" using a(1) assms(2) by (simp add: parseEcPoint_iff holdsD(2))
    then show "res_bind (parseEcPoint (der_content v) c) (\<lambda>p. f p r') = Inr y" using assms(3) [OF a(2)] by simp
  qed
  then show ?thesis unfolding ecBitString_def bind_prod by (simp add: res_bind_assoc)
qed

text \<open>An optional field with a context tag: \<open>rest\<close> begins with another tag, or is empty.\<close>

lemma peek_field:
  assumes "holds r (der tag c @ zs)"
  shows "\<not> der_done r \<and> der_peek r = Inr tag"
  using holds_skip(3) [OF assms] assms by (simp add: der_def)

lemma peek_other:
  assumes "holds r xs" "xs \<noteq> [] \<longrightarrow> hd xs \<noteq> tag"
  shows "\<not> (\<not> der_done r \<and> der_peek r = Inr tag)"
  using holds_skip(3) [OF assms(1)] assms by auto

lemma ecParametersE:
  assumes "res_bind (ecParameters req c r) f = Inr y" "holds r xs"
  obtains params zs r' where "xs = (if params then der 160 (der 6 (curve_oid c)) else []) @ zs" "req \<longrightarrow> params"
    "holds r' zs" "f r' = Inr y"
proof (cases "\<not> der_done r \<and> der_peek r = Inr 160")
  case True
  have "res_bind (der_read 160 r) (\<lambda>(parameters, privateKey).
        res_bind (ecNamedCurve parameters) (\<lambda>(inner, parameters).
          if inner \<noteq> c then Inl DataError
          else res_bind (der_complete parameters) (\<lambda>_. f privateKey))) = Inr y"
    using assms(1) unfolding ecParameters_def if_P [OF True] flat .
  from this assms(2) show thesis
    by (rule readE) (erule (1) ecNamedCurveE, erule ifE, erule (1) complete_E, rule that [of True], simp_all)
next
  case False
  have "\<not> req" "f r = Inr y" using assms(1) unfolding ecParameters_def if_not_P [OF False] by (auto split: if_splits)
  then show thesis using assms(2) by (intro that [of False xs r]) simp_all
qed

lemma ecParametersI:
  assumes h: "holds r ((if params then der 160 (der 6 (curve_oid c)) else []) @ zs)" and z: "zs \<noteq> [] \<longrightarrow> hd zs \<noteq> 160"
    and req: "req \<longrightarrow> params" and f: "\<And>r'. holds r' zs \<Longrightarrow> f r' = Inr y"
  shows "res_bind (ecParameters req c r) f = Inr y"
proof (cases params)
  case True
  then have h: "holds r (der 160 (der 6 (curve_oid c)) @ zs)" using h by simp
  have s: "der_small (der 6 (curve_oid c))"
    by (cases c; simp add: der_small_def length_der der_length_def curve_oid_def p256Oid_def p384Oid_def p521Oid_def)
  show ?thesis
    unfolding ecParameters_def if_P [OF peek_field [OF h]] flat
    by (rule readI [OF h s], rule ecNamedCurveI_last, assumption, subst if_not_P, simp, rule completeI, assumption, rule f)
next
  case False
  then have h: "holds r zs" using h by simp
  show ?thesis
    unfolding ecParameters_def if_not_P [OF peek_other [OF h z]] using False req f [OF h] by simp
qed

definition ec_public_field :: "(bytes \<times> bytes) option \<Rightarrow> bytes" where
  "ec_public_field point = (case point of None \<Rightarrow> [] | Some p \<Rightarrow> der 161 (ec_public p))"

definition ec_field_wf :: "named_curve \<Rightarrow> (bytes \<times> bytes) option \<Rightarrow> bool" where
  "ec_field_wf c point \<longleftrightarrow> (case point of None \<Rightarrow> True | Some p \<Rightarrow> ec_point_wf c p)"

lemma ecPublicFieldE:
  assumes "res_bind (ecPublicField req c r) (case_prod f) = Inr y" "holds r xs"
  obtains point zs r' where "xs = ec_public_field point @ zs" "ec_field_wf c point" "req \<longrightarrow> point \<noteq> None"
    "holds r' zs" "f point r' = Inr y"
proof (cases "\<not> der_done r \<and> der_peek r = Inr 161")
  case True
  have "res_bind (der_read 161 r) (\<lambda>(publicKey, privateKey).
        res_bind (ecBitString c publicKey) (\<lambda>(point, publicKey).
        res_bind (der_complete publicKey) (\<lambda>_. f (Some point) privateKey))) = Inr y"
    using assms(1) unfolding ecPublicField_def if_P [OF True] flat .
  from this assms(2) show thesis
    by (rule readE) (erule (1) ecBitStringE, erule (1) complete_E, rule that [of "Some _"],
      simp_all add: ec_public_field_def ec_field_wf_def)
next
  case False
  have "\<not> req" "f None r = Inr y" using assms(1) unfolding ecPublicField_def if_not_P [OF False] by (auto split: if_splits)
  then show thesis using assms(2) by (intro that [of None xs r]) (simp_all add: ec_public_field_def ec_field_wf_def)
qed

lemma ecPublicFieldI_last:
  assumes h: "holds r (ec_public_field point)" and wf: "ec_field_wf c point"
    and req: "req \<longrightarrow> point \<noteq> None" and f: "\<And>r'. holds r' [] \<Longrightarrow> f point r' = Inr y"
  shows "res_bind (ecPublicField req c r) (case_prod f) = Inr y"
proof (cases point)
  case (Some p)
  then have h: "holds r (der 161 (ec_public p) @ [])" using h by (simp add: ec_public_field_def)
  have w: "ec_point_wf c p" using wf Some by (simp add: ec_field_wf_def)
  have s: "der_small (ec_public p)"
    using w by (cases c) (simp_all add: der_small_def length_der der_length_def ec_public_def ec_point_wf_def base256.simps)
  show ?thesis
    unfolding ecPublicField_def if_P [OF peek_field [OF h]] flat
    by (rule readI [OF h s], rule ecBitStringI_last [OF _ w], assumption, rule completeI, assumption, rule f [unfolded Some])
next
  case None
  then have "holds r []" using h by (simp add: ec_public_field_def)
  then show ?thesis using f None req by (simp add: ecPublicField_def)
qed

lemma ec_private_alt:
  "ec_private params c d point =
     der 48 (der_int [1] @ der 4 d @ (if params then der 160 (der 6 (curve_oid c)) else []) @ ec_public_field point)"
  unfolding ec_private_def ec_public_field_def ..

lemma ecPrivateKey_E:
  assumes "ecPrivateKey req c r = Inr k" "holds r xs"
  shows "\<exists>params d. ec_d k = Some d \<and> ec_namedCurve k = c \<and> xs = ec_private params c d (ec_point k) \<and> ec_wf k \<and>
    (req \<longrightarrow> ec_complete params k)"
proof -
  obtain params d point where x: "Inr \<lparr>ec_namedCurve = c, ec_point = point, ec_d = Some d\<rparr> = (Inr k :: ec_key result) \<and>
      (req \<longrightarrow> params) \<and> xs = ec_private params c d point \<and> ec_field_wf c point \<and> length d = ecCurveByteLength c \<and>
      (req \<longrightarrow> point \<noteq> None)"
    using assms unfolding ecPrivateKey_def
    by - (erule (1) readE, erule (1) complete_E, erule (1) versionE, erule (1) readE, erule ifE, erule (1) ecParametersE,
      erule (1) ecPublicFieldE, erule (1) complete_E, rule that, rule conjI, simp only: holdsD(2),
      rule conjI, assumption, simp add: holdsD(2) ec_private_alt)
  then have k: "k = \<lparr>ec_namedCurve = c, ec_point = point, ec_d = Some d\<rparr>" by simp
  show ?thesis
    by (rule exI [of _ params], rule exI [of _ d]) (use x in \<open>auto simp: k ec_wf_def ec_field_wf_def ec_complete_def split: option.splits\<close>)
qed

lemma ecPrivateKey_I:
  assumes h: "holds r (ec_private params c d (ec_point k))" and s: "der_small (ec_private params c d (ec_point k))"
    and wf: "ec_wf k" "ec_namedCurve k = c" "ec_d k = Some d" and req: "req \<longrightarrow> ec_complete params k"
  shows "ecPrivateKey req c r = Inr k"
proof -
  let ?c = "der_int [1] @ der 4 d @ (if params then der 160 (der 6 (curve_oid c)) else []) @ ec_public_field (ec_point k)"
  have s1: "der_small ?c" using s unfolding ec_private_alt by (rule small_der)
  have s2: "der_small d" by (rule small_der [OF small_append(1) [OF small_append(2) [OF s1]]])
  have l: "length d = ecCurveByteLength c" "ec_field_wf c (ec_point k)" using wf by (auto simp: ec_wf_def ec_field_wf_def)
  have r: "req \<longrightarrow> params" "req \<longrightarrow> ec_point k \<noteq> None" using req wf(3) by (auto simp: ec_complete_def)
  have z: "ec_public_field (ec_point k) \<noteq> [] \<longrightarrow> hd (ec_public_field (ec_point k)) \<noteq> 160"
    by (simp add: ec_public_field_def der_def split: option.splits)
  have k: "\<lparr>ec_namedCurve = c, ec_point = ec_point k, ec_d = Some d\<rparr> = k" using wf by simp
  show ?thesis
    unfolding ecPrivateKey_def
    by (rule readI_last [OF h [unfolded ec_private_alt] s1], rule completeI, assumption, rule versionI, assumption, simp, simp,
      rule readI [OF _ s2], assumption, simp only: holdsD(2) l(1) not_True_eq_False simp_thms if_False,
      rule ecParametersI [OF _ z r(1)], assumption, rule ecPublicFieldI_last [OF _ l(2) r(2)], assumption,
      rule completeI, assumption, simp only: k)
qed

lemma ec_der_sound:
  assumes "parseEcDer fmt bs req = Inr k"
  shows "\<exists>params attrs. ec_format k = fmt \<and> ec_wf k \<and> (req \<longrightarrow> ec_complete params k) \<and> (attrs = [] \<or> der_attributes attrs) \<and>
    bs = ec_der params attrs k"
proof (cases fmt)
  case Spki
  with assms have p: "res_bind (readEnvelope bs) (\<lambda>envelope.
           res_bind (ecAlgorithm envelope) (\<lambda>(namedCurve, envelope).
           res_bind (ecBitString namedCurve envelope) (\<lambda>(point, envelope).
           res_bind (der_complete envelope) (\<lambda>_.
             Inr \<lparr>ec_namedCurve = namedCurve, ec_point = Some point, ec_d = None\<rparr>)))) = Inr k"
    by (simp add: parseEcDer_def)
  then obtain c p where x: "Inr \<lparr>ec_namedCurve = c, ec_point = Some p, ec_d = None\<rparr> = (Inr k :: ec_key result) \<and>
      bs = der 48 (ec_algorithm c @ ec_public p) \<and> ec_point_wf c p"
    by - (erule envelopeE, erule (1) ecAlgorithmE, erule (1) ecBitStringE, erule (1) complete_E, rule that, rule conjI, assumption, simp)
  then have k: "k = \<lparr>ec_namedCurve = c, ec_point = Some p, ec_d = None\<rparr>" by simp
  show ?thesis
    by (rule exI [of _ True], rule exI [of _ "[]"]) (use x in \<open>simp add: k ec_format_def ec_der_def ec_wf_def ec_complete_def Spki\<close>)
next
  case Pkcs8
  with assms have p: "res_bind (readEnvelope bs) (\<lambda>envelope.
           res_bind (readVersion True {0} envelope) (\<lambda>(_, envelope).
           res_bind (ecAlgorithm envelope) (\<lambda>(namedCurve, envelope).
           res_bind (der_read 4 envelope) (\<lambda>(privateOctets, envelope).
           res_bind (optionalAttributes envelope) (\<lambda>_.
             ecPrivateKey req namedCurve privateOctets))))) = Inr k"
    by (simp add: parseEcDer_def)
  then have "\<exists>params attrs c d. bs = der 48 (der_int [0] @ ec_algorithm c @ der 4 (ec_private params c d (ec_point k)) @ attrs) \<and>
      (attrs = [] \<or> der_attributes attrs) \<and> ec_d k = Some d \<and> ec_namedCurve k = c \<and> ec_wf k \<and> (req \<longrightarrow> ec_complete params k)"
    by - (erule envelopeE, erule (1) versionE, erule (1) ecAlgorithmE, erule (1) readE, erule (1) attributesE,
      drule (1) ecPrivateKey_E, elim exE conjE, (rule exI)+, rule conjI [rotated], (rule conjI, assumption)+, assumption, simp)
  then show ?thesis
    by (elim exE conjE, intro exI conjI) (simp_all add: ec_format_def ec_der_def Pkcs8)
qed

lemma ec_der_complete:
  assumes s: "der_small (ec_der params attrs k)" and wf: "ec_wf k" and req: "req \<longrightarrow> ec_complete params k"
    and attrs: "attrs = [] \<or> der_attributes attrs"
  shows "parseEcDer (ec_format k) (ec_der params attrs k) req = Inr k"
proof (cases "ec_d k")
  case None
  then obtain p where p: "ec_point k = Some p" "ec_point_wf (ec_namedCurve k) p" using wf by (auto simp: ec_wf_def)
  have e: "ec_der params attrs k = der 48 (ec_algorithm (ec_namedCurve k) @ ec_public p)" by (simp add: ec_der_def None p)
  have s1: "der_small (ec_algorithm (ec_namedCurve k) @ ec_public p)" using s unfolding e by (rule small_der)
  have k: "\<lparr>ec_namedCurve = ec_namedCurve k, ec_point = Some p, ec_d = None\<rparr> = k" using None p by simp
  have "res_bind (readEnvelope (ec_der params attrs k)) (\<lambda>envelope.
           res_bind (ecAlgorithm envelope) (\<lambda>(namedCurve, envelope).
           res_bind (ecBitString namedCurve envelope) (\<lambda>(point, envelope).
           res_bind (der_complete envelope) (\<lambda>_.
             Inr \<lparr>ec_namedCurve = namedCurve, ec_point = Some point, ec_d = None\<rparr>)))) = Inr k"
    by (rule envelopeI [OF e s1], rule ecAlgorithmI, assumption, rule ecBitStringI_last [OF _ p(2)], assumption,
      rule completeI, assumption, simp only: k)
  then show ?thesis using None by (simp add: parseEcDer_def ec_format_def)
next
  case (Some d)
  let ?c = "ec_namedCurve k"
  let ?p = "ec_private params ?c d (ec_point k)"
  have e: "ec_der params attrs k = der 48 (der_int [0] @ ec_algorithm ?c @ der 4 ?p @ attrs)" by (simp add: ec_der_def Some)
  have s1: "der_small (der_int [0] @ ec_algorithm ?c @ der 4 ?p @ attrs)" using s unfolding e by (rule small_der)
  have s2: "der_small ?p" by (rule small_der [OF small_append(1) [OF small_append(2) [OF small_append(2) [OF s1]]]])
  have "res_bind (readEnvelope (ec_der params attrs k)) (\<lambda>envelope.
           res_bind (readVersion True {0} envelope) (\<lambda>(_, envelope).
           res_bind (ecAlgorithm envelope) (\<lambda>(namedCurve, envelope).
           res_bind (der_read 4 envelope) (\<lambda>(privateOctets, envelope).
           res_bind (optionalAttributes envelope) (\<lambda>_.
             ecPrivateKey req namedCurve privateOctets))))) = Inr k"
    by (rule envelopeI [OF e s1], rule versionI, assumption, simp, simp, rule ecAlgorithmI, assumption,
      rule readI [OF _ s2], assumption, rule attributesI [OF _ attrs], assumption, rule ecPrivateKey_I [OF _ s2 wf refl Some req])
  then show ?thesis using Some by (simp add: parseEcDer_def ec_format_def)
qed

section \<open>Keys of the Edwards and Montgomery curves\<close>

definition okp_oid :: "okp_curve \<Rightarrow> bytes" where
  "okp_oid c = [0x2b, 0x65, (case c of Ed25519 \<Rightarrow> 0x70 | X25519 \<Rightarrow> 0x6e | Ed448 \<Rightarrow> 0x71 | X448 \<Rightarrow> 0x6f)]"

definition okp_der :: "bytes \<Rightarrow> okp_key \<Rightarrow> bytes" where
  "okp_der attrs k =
     (case okp_d k of
        None \<Rightarrow> der 48 (der 48 (der 6 (okp_oid (okp_namedCurve k))) @ der 3 (0 # the (okp_x k)))
      | Some d \<Rightarrow> der 48 (der_int [0] @ der 48 (der 6 (okp_oid (okp_namedCurve k))) @ der 4 (der 4 d) @ attrs))"

definition okp_format :: "okp_key \<Rightarrow> der_format" where
  "okp_format k = (if okp_d k = None then Spki else Pkcs8)"

definition okp_wf :: "okp_key \<Rightarrow> bool" where
  "okp_wf k \<longleftrightarrow>
     (case (okp_x k, okp_d k) of
        (Some x, None) \<Rightarrow> length x = okpCurveByteLength (okp_namedCurve k)
      | (None, Some d) \<Rightarrow> length d = okpCurveByteLength (okp_namedCurve k)
      | _ \<Rightarrow> False)"

lemma okpCurve_iff: "okpCurve oid = Inr c \<longleftrightarrow> oid = okp_oid c"
proof
  assume a: "okpCurve oid = Inr c"
  then have "length oid = 3" by (auto simp: okpCurve_def split: if_splits)
  then obtain x y z where "oid = [x, y, z]" by (auto simp: length_Suc_conv eval_nat_numeral)
  with a show "oid = okp_oid c" by (auto simp: okpCurve_def okp_oid_def split: if_splits)
next
  assume "oid = okp_oid c"
  then show "okpCurve oid = Inr c" by (cases c) (simp_all add: okpCurve_def okp_oid_def)
qed

lemma okpAlgorithmE:
  assumes "res_bind (okpAlgorithm r) (case_prod f) = Inr y" "holds r xs"
  obtains c zs r' where "xs = der 48 (der 6 (okp_oid c)) @ zs" "holds r' zs" "f c r' = Inr y"
proof -
  have "res_bind (der_read 48 r) (\<lambda>(algorithm, r1).
     res_bind (der_read 6 algorithm) (\<lambda>(oid, algorithm).
     res_bind (der_complete algorithm) (\<lambda>_.
     res_bind (okpCurve (der_content oid)) (\<lambda>curve. f curve r1)))) = Inr y"
    using assms(1) unfolding okpAlgorithm_def flat unfolding res_bind_assoc flat .
  from this assms(2) show thesis
    by (rule readE) (erule (1) readE, erule (1) complete_E, auto simp: res_bind_Inr_iff okpCurve_iff holdsD(2) intro: that)
qed

lemma okpAlgorithmI:
  assumes "holds r (der 48 (der 6 (okp_oid c)) @ zs)" "\<And>r'. holds r' zs \<Longrightarrow> f c r' = Inr y"
  shows "res_bind (okpAlgorithm r) (case_prod f) = Inr y"
proof -
  have s: "der_small (der 6 (okp_oid c))" "der_small (okp_oid c)"
    by (simp_all add: der_small_def length_der der_length_def okp_oid_def)
  have o: "okpCurve (okp_oid c) = Inr c" by (simp add: okpCurve_iff)
  have "res_bind (der_read 48 r) (\<lambda>(algorithm, r1).
     res_bind (der_read 6 algorithm) (\<lambda>(oid, algorithm).
     res_bind (der_complete algorithm) (\<lambda>_.
     res_bind (okpCurve (der_content oid)) (\<lambda>curve. f curve r1)))) = Inr y"
    by (rule readI [OF assms(1) s(1)], rule readI_last [OF _ s(2)], assumption, rule completeI, assumption,
      simp only: holdsD(2) o res_bind_simps, rule assms(2))
  then show ?thesis unfolding okpAlgorithm_def flat unfolding res_bind_assoc flat .
qed

lemma okp_der_sound:
  assumes "parseOkpDer fmt bs = Inr k"
  shows "\<exists>attrs. okp_format k = fmt \<and> okp_wf k \<and> (attrs = [] \<or> der_attributes attrs) \<and> bs = okp_der attrs k"
proof (cases fmt)
  case Spki
  with assms have p: "res_bind (readEnvelope bs) (\<lambda>envelope.
           res_bind (okpAlgorithm envelope) (\<lambda>(namedCurve, envelope).
           res_bind (readBitString envelope) (\<lambda>(publicKey, envelope).
             if length (der_content publicKey) \<noteq> okpCurveByteLength namedCurve then Inl DataError
             else res_bind (der_complete envelope) (\<lambda>_.
               Inr \<lparr>okp_namedCurve = namedCurve, okp_x = Some (der_content publicKey), okp_d = None\<rparr>)))) = Inr k"
    by (simp add: parseOkpDer_def)
  then obtain c x where x: "Inr \<lparr>okp_namedCurve = c, okp_x = Some x, okp_d = None\<rparr> = (Inr k :: okp_key result) \<and>
      bs = der 48 (der 48 (der 6 (okp_oid c)) @ der 3 (0 # x)) \<and> length x = okpCurveByteLength c"
    by - (erule envelopeE, erule (1) okpAlgorithmE, erule (1) bitStringE, erule ifE, erule (1) complete_E, rule that, rule conjI,
      assumption, simp add: holdsD(2))
  then have k: "k = \<lparr>okp_namedCurve = c, okp_x = Some x, okp_d = None\<rparr>" by simp
  show ?thesis by (rule exI [of _ "[]"]) (use x in \<open>simp add: k okp_format_def okp_der_def okp_wf_def Spki\<close>)
next
  case Pkcs8
  with assms have p: "res_bind (readEnvelope bs) (\<lambda>envelope.
           res_bind (readVersion True {0} envelope) (\<lambda>(_, envelope).
           res_bind (okpAlgorithm envelope) (\<lambda>(namedCurve, envelope).
           res_bind (der_read 4 envelope) (\<lambda>(privateOctets, envelope).
           res_bind (optionalAttributes envelope) (\<lambda>_.
           res_bind (der_read 4 privateOctets) (\<lambda>(d, privateOctets).
           res_bind (der_complete privateOctets) (\<lambda>_.
             if length (der_content d) \<noteq> okpCurveByteLength namedCurve then Inl DataError
             else Inr \<lparr>okp_namedCurve = namedCurve, okp_x = None, okp_d = Some (der_content d)\<rparr>))))))) = Inr k"
    by (simp add: parseOkpDer_def)
  then obtain c d attrs where x: "Inr \<lparr>okp_namedCurve = c, okp_x = None, okp_d = Some d\<rparr> = (Inr k :: okp_key result) \<and>
      (attrs = [] \<or> der_attributes attrs) \<and>
      bs = der 48 (der_int [0] @ der 48 (der 6 (okp_oid c)) @ der 4 (der 4 d) @ attrs) \<and> length d = okpCurveByteLength c"
    by - (erule envelopeE, erule (1) versionE, erule (1) okpAlgorithmE, erule (1) readE, erule (1) attributesE,
      erule (1) readE, erule (1) complete_E, erule ifE, rule that, rule conjI, assumption, rule conjI, assumption, simp add: holdsD(2))
  then have k: "k = \<lparr>okp_namedCurve = c, okp_x = None, okp_d = Some d\<rparr>" by simp
  show ?thesis by (rule exI [of _ attrs]) (use x in \<open>simp add: k okp_format_def okp_der_def okp_wf_def Pkcs8\<close>)
qed

lemma okp_der_complete:
  assumes s: "der_small (okp_der attrs k)" and wf: "okp_wf k" and attrs: "attrs = [] \<or> der_attributes attrs"
  shows "parseOkpDer (okp_format k) (okp_der attrs k) = Inr k"
proof (cases "okp_d k")
  case None
  let ?a = "der 48 (der 6 (okp_oid (okp_namedCurve k)))"
  obtain x where x: "okp_x k = Some x" "length x = okpCurveByteLength (okp_namedCurve k)"
    using wf None by (auto simp: okp_wf_def split: option.splits)
  have e: "okp_der attrs k = der 48 (?a @ der 3 (0 # x))" by (simp add: okp_der_def None x)
  have s1: "der_small (?a @ der 3 (0 # x))" using s unfolding e by (rule small_der)
  have s2: "der_small (0 # x)" by (rule small_der [OF small_append(2) [OF s1]])
  have k: "\<lparr>okp_namedCurve = okp_namedCurve k, okp_x = Some x, okp_d = None\<rparr> = k" using None x by simp
  have "res_bind (readEnvelope (okp_der attrs k)) (\<lambda>envelope.
           res_bind (okpAlgorithm envelope) (\<lambda>(namedCurve, envelope).
           res_bind (readBitString envelope) (\<lambda>(publicKey, envelope).
             if length (der_content publicKey) \<noteq> okpCurveByteLength namedCurve then Inl DataError
             else res_bind (der_complete envelope) (\<lambda>_.
               Inr \<lparr>okp_namedCurve = namedCurve, okp_x = Some (der_content publicKey), okp_d = None\<rparr>)))) = Inr k"
    by (rule envelopeI [OF e s1], rule okpAlgorithmI, assumption, rule bitStringI_last [OF _ s2], assumption,
      simp only: holdsD(2) x(2) not_True_eq_False simp_thms if_False, rule completeI, assumption, simp only: k)
  then show ?thesis using None by (simp add: parseOkpDer_def okp_format_def)
next
  case (Some d)
  let ?a = "der 48 (der 6 (okp_oid (okp_namedCurve k)))"
  have d: "okp_x k = None" "length d = okpCurveByteLength (okp_namedCurve k)"
    using wf Some by (auto simp: okp_wf_def split: option.splits)
  have e: "okp_der attrs k = der 48 (der_int [0] @ ?a @ der 4 (der 4 d) @ attrs)" by (simp add: okp_der_def Some)
  have s1: "der_small (der_int [0] @ ?a @ der 4 (der 4 d) @ attrs)" using s unfolding e by (rule small_der)
  have s2: "der_small (der 4 d)" by (rule small_der [OF small_append(1) [OF small_append(2) [OF small_append(2) [OF s1]]]])
  have k: "\<lparr>okp_namedCurve = okp_namedCurve k, okp_x = None, okp_d = Some d\<rparr> = k" using Some d by simp
  have "res_bind (readEnvelope (okp_der attrs k)) (\<lambda>envelope.
           res_bind (readVersion True {0} envelope) (\<lambda>(_, envelope).
           res_bind (okpAlgorithm envelope) (\<lambda>(namedCurve, envelope).
           res_bind (der_read 4 envelope) (\<lambda>(privateOctets, envelope).
           res_bind (optionalAttributes envelope) (\<lambda>_.
           res_bind (der_read 4 privateOctets) (\<lambda>(d, privateOctets).
           res_bind (der_complete privateOctets) (\<lambda>_.
             if length (der_content d) \<noteq> okpCurveByteLength namedCurve then Inl DataError
             else Inr \<lparr>okp_namedCurve = namedCurve, okp_x = None, okp_d = Some (der_content d)\<rparr>))))))) = Inr k"
    by (rule envelopeI [OF e s1], rule versionI, assumption, simp, simp, rule okpAlgorithmI, assumption,
      rule readI [OF _ s2], assumption, rule attributesI [OF _ attrs], assumption,
      rule readI_last [OF _ small_der [OF s2]], assumption, rule completeI, assumption,
      simp only: holdsD(2) d(2) not_True_eq_False simp_thms if_False k)
  then show ?thesis using Some by (simp add: parseOkpDer_def okp_format_def)
qed

section \<open>Keys of the lattice algorithms\<close>

definition ml_oid :: "ml_name \<Rightarrow> bytes" where
  "ml_oid n = mlOidPrefix @
     (case n of ML_DSA_44 \<Rightarrow> [3, 17] | ML_DSA_65 \<Rightarrow> [3, 18] | ML_DSA_87 \<Rightarrow> [3, 19]
      | ML_KEM_512 \<Rightarrow> [4, 1] | ML_KEM_768 \<Rightarrow> [4, 2] | ML_KEM_1024 \<Rightarrow> [4, 3])"

definition ml_private_octets :: "bytes option \<Rightarrow> bytes option \<Rightarrow> bytes" where
  "ml_private_octets seed expanded =
     (case (seed, expanded) of
        (Some s, None) \<Rightarrow> der 128 s
      | (None, Some e) \<Rightarrow> der 4 e
      | (Some s, Some e) \<Rightarrow> der 48 (der 4 s @ der 4 e)
      | (None, None) \<Rightarrow> [])"

definition ml_der :: "bytes \<Rightarrow> ml_key \<Rightarrow> bytes" where
  "ml_der attrs k =
     (case ml_pub k of
        Some pub \<Rightarrow> der 48 (der 48 (der 6 (ml_oid (ml_algorithm k))) @ der 3 (0 # pub))
      | None \<Rightarrow> der 48 (der_int [0] @ der 48 (der 6 (ml_oid (ml_algorithm k))) @
          der 4 (ml_private_octets (ml_seed k) (ml_expanded k)) @ attrs))"

definition ml_format :: "ml_key \<Rightarrow> der_format" where
  "ml_format k = (if ml_pub k = None then Pkcs8 else Spki)"

definition ml_wf :: "ml_key \<Rightarrow> bool" where
  "ml_wf k \<longleftrightarrow>
     (case ml_pub k of
        Some pub \<Rightarrow> length pub = mlPublicKeyLength (ml_algorithm k) \<and> ml_seed k = None \<and> ml_expanded k = None
      | None \<Rightarrow> (ml_seed k \<noteq> None \<or> ml_expanded k \<noteq> None) \<and> \<not> wrongLength (ml_seed k) (mlSeedLength (ml_algorithm k)) \<and>
          \<not> wrongLength (ml_expanded k) (mlExpandedKeyLength (ml_algorithm k)))"

lemma mlName_iff: "mlName oid = Inr n \<longleftrightarrow> oid = ml_oid n"
proof
  assume a: "mlName oid = Inr n"
  have l: "length mlOidPrefix = 7" by (simp add: mlOidPrefix_def)
  have "length oid = length mlOidPrefix + 2 \<and> take (length mlOidPrefix) oid = mlOidPrefix"
    using a by (auto simp: mlName_def split: if_splits)
  then have t: "length oid = 9" "take 7 oid = mlOidPrefix" by (simp_all add: l)
  have "oid = take 7 oid @ [oid ! 7, oid ! 8]"
  proof -
    have "drop 7 oid = [oid ! 7, oid ! 8]"
      by (rule nth_equalityI) (auto simp: t(1) less_Suc_eq eval_nat_numeral)
    then show ?thesis by (metis append_take_drop_id)
  qed
  then obtain x y where o: "oid = mlOidPrefix @ [x, y]" using t(2) by simp
  from a show "oid = ml_oid n" unfolding o by (auto simp: mlName_def ml_oid_def mlOidPrefix_def split: if_splits)
next
  assume "oid = ml_oid n"
  then show "mlName oid = Inr n" by (cases n) (simp_all add: mlName_def ml_oid_def mlOidPrefix_def)
qed

lemma mlAlgorithmE:
  assumes "res_bind (mlAlgorithm r) (case_prod f) = Inr y" "holds r xs"
  obtains n zs r' where "xs = der 48 (der 6 (ml_oid n)) @ zs" "holds r' zs" "f n r' = Inr y"
proof -
  have "res_bind (der_read 48 r) (\<lambda>(algorithm, r1).
     res_bind (der_read 6 algorithm) (\<lambda>(oid, algorithm).
     res_bind (der_complete algorithm) (\<lambda>_.
     res_bind (mlName (der_content oid)) (\<lambda>name. f name r1)))) = Inr y"
    using assms(1) unfolding mlAlgorithm_def flat unfolding res_bind_assoc flat .
  from this assms(2) show thesis
    by (rule readE) (erule (1) readE, erule (1) complete_E, auto simp: res_bind_Inr_iff mlName_iff holdsD(2) intro: that)
qed

lemma mlAlgorithmI:
  assumes "holds r (der 48 (der 6 (ml_oid n)) @ zs)" "\<And>r'. holds r' zs \<Longrightarrow> f n r' = Inr y"
  shows "res_bind (mlAlgorithm r) (case_prod f) = Inr y"
proof -
  have s: "der_small (der 6 (ml_oid n))" "der_small (ml_oid n)"
    by (cases n; simp add: der_small_def length_der der_length_def ml_oid_def mlOidPrefix_def)+
  have o: "mlName (ml_oid n) = Inr n" by (simp add: mlName_iff)
  have "res_bind (der_read 48 r) (\<lambda>(algorithm, r1).
     res_bind (der_read 6 algorithm) (\<lambda>(oid, algorithm).
     res_bind (der_complete algorithm) (\<lambda>_.
     res_bind (mlName (der_content oid)) (\<lambda>name. f name r1)))) = Inr y"
    by (rule readI [OF assms(1) s(1)], rule readI_last [OF _ s(2)], assumption, rule completeI, assumption,
      simp only: holdsD(2) o res_bind_simps, rule assms(2))
  then show ?thesis unfolding mlAlgorithm_def flat unfolding res_bind_assoc flat .
qed

text \<open>The private part, by its first tag.\<close>

lemma mlPrivate_cases:
  assumes "holds r xs"
  shows "mlPrivate r =
    (if xs = [] then Inl DataError
     else if hd xs = 128 then
       res_bind (der_read 128 r) (\<lambda>(seed, r1). res_bind (der_complete r1) (\<lambda>_. Inr (Some (der_content seed), None)))
     else if hd xs = 4 then
       res_bind (der_read 4 r) (\<lambda>(expanded, r1). res_bind (der_complete r1) (\<lambda>_. Inr (None, Some (der_content expanded))))
     else
       res_bind (der_read 48 r) (\<lambda>(both, r1).
       res_bind (der_read 4 both) (\<lambda>(seed, both).
       res_bind (der_read 4 both) (\<lambda>(expanded, both).
       res_bind (der_complete both) (\<lambda>_.
       res_bind (der_complete r1) (\<lambda>_. Inr (Some (der_content seed), Some (der_content expanded))))))))"
proof (cases "xs = []")
  case True
  have "der_peek r = Inl DataError" using holds_empty [OF assms] True by (simp add: der_peek_def)
  then show ?thesis using True by (simp add: mlPrivate_def)
next
  case False
  have p: "der_peek r = Inr (hd xs)" by (rule holds_skip(3) [OF assms False])
  show ?thesis
    unfolding mlPrivate_def p res_bind_simps
    using False by (cases "hd xs = 128"; cases "hd xs = 4") (simp_all only: if_True if_False simp_thms flat)
qed

lemma mlPrivate_E:
  assumes "res_bind (mlPrivate r) (case_prod f) = Inr y" "holds r xs"
  obtains seed expanded where "xs = ml_private_octets seed expanded" "seed \<noteq> None \<or> expanded \<noteq> None"
    "f seed expanded = Inr y"
proof -
  have ne: "xs \<noteq> []" using assms mlPrivate_cases [OF assms(2)] by auto
  consider (seed) "hd xs = 128" | (expanded) "hd xs = 4" | (both) "hd xs \<noteq> 128" "hd xs \<noteq> 4" by blast
  then show thesis
  proof cases
    case seed
    have "res_bind (der_read 128 r) (\<lambda>(seed, r1). res_bind (der_complete r1) (\<lambda>_. f (Some (der_content seed)) None)) = Inr y"
      using assms(1) unfolding mlPrivate_cases [OF assms(2)] if_not_P [OF ne] if_P [OF seed] flat .
    from this assms(2) show thesis
      by (rule readE) (erule (1) complete_E, simp add: holdsD(2), erule that [rotated 2], simp_all add: ml_private_octets_def)
  next
    case expanded
    have n: "\<not> hd xs = 128" by (simp add: expanded)
    have "res_bind (der_read 4 r) (\<lambda>(e, r1). res_bind (der_complete r1) (\<lambda>_. f None (Some (der_content e)))) = Inr y"
      using assms(1) unfolding mlPrivate_cases [OF assms(2)] if_not_P [OF ne] if_not_P [OF n] if_P [OF expanded] flat .
    from this assms(2) show thesis
      by (rule readE) (erule (1) complete_E, simp add: holdsD(2), erule that [rotated 2], simp_all add: ml_private_octets_def)
  next
    case both
    have "res_bind (der_read 48 r) (\<lambda>(both, r1).
       res_bind (der_read 4 both) (\<lambda>(seed, both).
       res_bind (der_read 4 both) (\<lambda>(expanded, both).
       res_bind (der_complete both) (\<lambda>_.
       res_bind (der_complete r1) (\<lambda>_. f (Some (der_content seed)) (Some (der_content expanded))))))) = Inr y"
      using assms(1) unfolding mlPrivate_cases [OF assms(2)] if_not_P [OF ne] if_not_P [OF both(1)] if_not_P [OF both(2)] flat .
    from this assms(2) show thesis
      by (rule readE) (erule (1) readE, erule (1) readE, erule (1) complete_E, erule (1) complete_E, simp add: holdsD(2),
        erule that [rotated 2], simp_all add: ml_private_octets_def)
  qed
qed

lemma mlPrivate_I:
  assumes h: "holds r (ml_private_octets seed expanded)" and s: "der_small (ml_private_octets seed expanded)"
    and k: "seed \<noteq> None \<or> expanded \<noteq> None"
  shows "mlPrivate r = Inr (seed, expanded)"
proof -
  have d: "hd (der tag c) = tag" for tag c by (simp add: der_def)
  consider (seed) x where "seed = Some x" "expanded = None" | (expanded) e where "seed = None" "expanded = Some e"
    | (both) x e where "seed = Some x" "expanded = Some e"
    using k by (cases seed; cases expanded) auto
  then show ?thesis
  proof cases
    case seed
    have h': "holds r (der 128 x)" and s': "der_small x" using h s small_der by (simp_all add: ml_private_octets_def seed)
    show ?thesis
      unfolding mlPrivate_cases [OF h'] d seed
      by (simp only: der_nonempty simp_thms if_True if_False, rule readI_last [OF h' s'], rule completeI, assumption, simp add: holdsD(2))
  next
    case expanded
    have h': "holds r (der 4 e)" and s': "der_small e" using h s small_der by (simp_all add: ml_private_octets_def expanded)
    show ?thesis
      unfolding mlPrivate_cases [OF h'] d expanded
      by (simp, rule readI_last [OF h' s'], rule completeI, assumption, simp add: holdsD(2))
  next
    case both
    have h': "holds r (der 48 (der 4 x @ der 4 e))" and s': "der_small (der 4 x @ der 4 e)"
      using h s small_der by (simp_all add: ml_private_octets_def both)
    have s2: "der_small x" "der_small e"
      by (rule small_der [OF small_append(1) [OF s']], rule small_der [OF small_append(2) [OF s']])
    show ?thesis
      unfolding mlPrivate_cases [OF h'] d both
      by (simp, rule readI_last [OF h' s'], rule readI [OF _ s2(1)], assumption, rule readI_last [OF _ s2(2)], assumption,
        rule completeI, assumption, rule completeI, assumption, simp add: holdsD(2))
  qed
qed

lemma ml_der_sound:
  assumes "parseMlDer fmt bs = Inr k"
  shows "\<exists>attrs. ml_format k = fmt \<and> ml_wf k \<and> (attrs = [] \<or> der_attributes attrs) \<and> bs = ml_der attrs k"
proof (cases fmt)
  case Spki
  with assms have p: "res_bind (readEnvelope bs) (\<lambda>envelope.
           res_bind (mlAlgorithm envelope) (\<lambda>(name, envelope).
           res_bind (readBitString envelope) (\<lambda>(publicKey, envelope).
             if length (der_content publicKey) \<noteq> mlPublicKeyLength name then Inl DataError
             else res_bind (der_complete envelope) (\<lambda>_.
               Inr \<lparr>ml_algorithm = name, ml_pub = Some (der_content publicKey), ml_seed = None, ml_expanded = None\<rparr>)))) = Inr k"
    by (simp add: parseMlDer_def)
  then obtain n x where x: "Inr \<lparr>ml_algorithm = n, ml_pub = Some x, ml_seed = None, ml_expanded = None\<rparr> = (Inr k :: ml_key result) \<and>
      bs = der 48 (der 48 (der 6 (ml_oid n)) @ der 3 (0 # x)) \<and> length x = mlPublicKeyLength n"
    by - (erule envelopeE, erule (1) mlAlgorithmE, erule (1) bitStringE, erule ifE, erule (1) complete_E, rule that, rule conjI,
      assumption, simp add: holdsD(2))
  then have k: "k = \<lparr>ml_algorithm = n, ml_pub = Some x, ml_seed = None, ml_expanded = None\<rparr>" by simp
  show ?thesis by (rule exI [of _ "[]"]) (use x in \<open>simp add: k ml_format_def ml_der_def ml_wf_def Spki\<close>)
next
  case Pkcs8
  with assms have p: "res_bind (readEnvelope bs) (\<lambda>envelope.
           res_bind (readVersion True {0} envelope) (\<lambda>(_, envelope).
           res_bind (mlAlgorithm envelope) (\<lambda>(name, envelope).
           res_bind (der_read 4 envelope) (\<lambda>(privateOctets, envelope).
           res_bind (optionalAttributes envelope) (\<lambda>_.
           res_bind (mlPrivate privateOctets) (\<lambda>(seed, expanded).
             if wrongLength seed (mlSeedLength name) \<or> wrongLength expanded (mlExpandedKeyLength name) then Inl DataError
             else Inr \<lparr>ml_algorithm = name, ml_pub = None, ml_seed = seed, ml_expanded = expanded\<rparr>)))))) = Inr k"
    by (simp add: parseMlDer_def)
  then obtain n sd e attrs where x: "Inr \<lparr>ml_algorithm = n, ml_pub = None, ml_seed = sd, ml_expanded = e\<rparr> = (Inr k :: ml_key result) \<and>
      (sd \<noteq> None \<or> e \<noteq> None) \<and> (attrs = [] \<or> der_attributes attrs) \<and>
      bs = der 48 (der_int [0] @ der 48 (der 6 (ml_oid n)) @ der 4 (ml_private_octets sd e) @ attrs) \<and>
      \<not> (wrongLength sd (mlSeedLength n) \<or> wrongLength e (mlExpandedKeyLength n))"
    by - (erule envelopeE, erule (1) versionE, erule (1) mlAlgorithmE, erule (1) readE, erule (1) attributesE,
      erule (1) mlPrivate_E, erule ifE, rule that, rule conjI, assumption, rule conjI, assumption, rule conjI, assumption, simp)
  then have k: "k = \<lparr>ml_algorithm = n, ml_pub = None, ml_seed = sd, ml_expanded = e\<rparr>" by simp
  show ?thesis by (rule exI [of _ attrs]) (use x in \<open>simp add: k ml_format_def ml_der_def ml_wf_def Pkcs8\<close>)
qed

lemma ml_der_complete:
  assumes s: "der_small (ml_der attrs k)" and wf: "ml_wf k" and attrs: "attrs = [] \<or> der_attributes attrs"
  shows "parseMlDer (ml_format k) (ml_der attrs k) = Inr k"
proof (cases "ml_pub k")
  case (Some x)
  let ?a = "der 48 (der 6 (ml_oid (ml_algorithm k)))"
  have x: "ml_seed k = None" "ml_expanded k = None" "length x = mlPublicKeyLength (ml_algorithm k)"
    using wf Some by (simp_all add: ml_wf_def)
  have e: "ml_der attrs k = der 48 (?a @ der 3 (0 # x))" by (simp add: ml_der_def Some)
  have s1: "der_small (?a @ der 3 (0 # x))" using s unfolding e by (rule small_der)
  have s2: "der_small (0 # x)" by (rule small_der [OF small_append(2) [OF s1]])
  have k: "\<lparr>ml_algorithm = ml_algorithm k, ml_pub = Some x, ml_seed = None, ml_expanded = None\<rparr> = k" using Some x by simp
  have "res_bind (readEnvelope (ml_der attrs k)) (\<lambda>envelope.
           res_bind (mlAlgorithm envelope) (\<lambda>(name, envelope).
           res_bind (readBitString envelope) (\<lambda>(publicKey, envelope).
             if length (der_content publicKey) \<noteq> mlPublicKeyLength name then Inl DataError
             else res_bind (der_complete envelope) (\<lambda>_.
               Inr \<lparr>ml_algorithm = name, ml_pub = Some (der_content publicKey), ml_seed = None, ml_expanded = None\<rparr>)))) = Inr k"
    by (rule envelopeI [OF e s1], rule mlAlgorithmI, assumption, rule bitStringI_last [OF _ s2], assumption,
      simp only: holdsD(2) x(3) not_True_eq_False simp_thms if_False, rule completeI, assumption, simp only: k)
  then show ?thesis using Some by (simp add: parseMlDer_def ml_format_def)
next
  case None
  let ?a = "der 48 (der 6 (ml_oid (ml_algorithm k)))"
  let ?p = "ml_private_octets (ml_seed k) (ml_expanded k)"
  have w: "ml_seed k \<noteq> None \<or> ml_expanded k \<noteq> None"
    "\<not> (wrongLength (ml_seed k) (mlSeedLength (ml_algorithm k)) \<or> wrongLength (ml_expanded k) (mlExpandedKeyLength (ml_algorithm k)))"
    using wf None by (simp_all add: ml_wf_def)
  have e: "ml_der attrs k = der 48 (der_int [0] @ ?a @ der 4 ?p @ attrs)" by (simp add: ml_der_def None)
  have s1: "der_small (der_int [0] @ ?a @ der 4 ?p @ attrs)" using s unfolding e by (rule small_der)
  have s2: "der_small ?p" by (rule small_der [OF small_append(1) [OF small_append(2) [OF small_append(2) [OF s1]]]])
  have k: "\<lparr>ml_algorithm = ml_algorithm k, ml_pub = None, ml_seed = ml_seed k, ml_expanded = ml_expanded k\<rparr> = k" using None by simp
  have "res_bind (readEnvelope (ml_der attrs k)) (\<lambda>envelope.
           res_bind (readVersion True {0} envelope) (\<lambda>(_, envelope).
           res_bind (mlAlgorithm envelope) (\<lambda>(name, envelope).
           res_bind (der_read 4 envelope) (\<lambda>(privateOctets, envelope).
           res_bind (optionalAttributes envelope) (\<lambda>_.
           res_bind (mlPrivate privateOctets) (\<lambda>(seed, expanded).
             if wrongLength seed (mlSeedLength name) \<or> wrongLength expanded (mlExpandedKeyLength name) then Inl DataError
             else Inr \<lparr>ml_algorithm = name, ml_pub = None, ml_seed = seed, ml_expanded = expanded\<rparr>)))))) = Inr k"
    by (rule envelopeI [OF e s1], rule versionI, assumption, simp, simp, rule mlAlgorithmI, assumption,
      rule readI [OF _ s2], assumption, rule attributesI [OF _ attrs], assumption,
      simp only: mlPrivate_I [OF _ s2 w(1)] flat w(2) if_False k)
  then show ?thesis using None by (simp add: parseMlDer_def ml_format_def)
qed

section \<open>The properties\<close>

text \<open>
  C37: The iterative validator of open values agrees with their recursive grammar: read from the start of some
  bytes it accepts them whole exactly when they are one DER value, primitive with valid content or constructed
  from values, the elements of a set in order.
\<close>
theorem der_value_validator:
  "(\<exists>r. attributeValue (newDerReader bs) = Inr r \<and> der_done r) \<longleftrightarrow> der_value bs"
proof
  assume "\<exists>r. attributeValue (newDerReader bs) = Inr r \<and> der_done r"
  then obtain r where r: "attributeValue (newDerReader bs) = Inr r" "der_done r" by blast
  obtain v zs where v: "bs = v @ zs" "der_value v" "holds r zs" using attributeValue_iff(1) [OF holds_new r(1)] by blast
  then show "der_value bs" using r(2) by simp
next
  assume "der_value bs"
  then obtain r where "attributeValue (newDerReader bs) = Inr r" "holds r []"
    using attributeValue_iff(2) [OF holds_new, of bs bs "[]"] by auto
  then show "\<exists>r. attributeValue (newDerReader bs) = Inr r \<and> der_done r" by auto
qed

text \<open>
  C38: The RSA parser returns a key exactly for its encodings: with positive components, a NULL parameter where it
  is required, further primes only with version one and not empty, attributes that are valid and in order, and
  every length, integer and tag in the one form DER allows; nothing may follow.
\<close>
theorem der_rsa_keys:
  assumes "der_small bs"
  shows "parseRsaDer fmt bs req = Inr k \<longleftrightarrow>
    (\<exists>null attrs. rsa_format k = fmt \<and> rsa_wf k \<and> (req \<longrightarrow> null) \<and> (attrs = [] \<or> der_attributes attrs) \<and>
      bs = rsa_der null attrs k)"
  using rsa_der_sound [of fmt bs req k] rsa_der_complete assms by blast

text \<open>
  C39: The EC parser returns a key exactly for its encodings: a named curve, coordinates and scalar of the
  curve's width, an uncompressed point, the optional parameters of the private key naming the same curve, and
  both optional fields present where they are required.
\<close>
theorem der_ec_keys:
  assumes "der_small bs"
  shows "parseEcDer fmt bs req = Inr k \<longleftrightarrow>
    (\<exists>params attrs. ec_format k = fmt \<and> ec_wf k \<and> (req \<longrightarrow> ec_complete params k) \<and> (attrs = [] \<or> der_attributes attrs) \<and>
      bs = ec_der params attrs k)"
  using ec_der_sound [of fmt bs req k] ec_der_complete assms by blast

text \<open>
  The parser for the Edwards and Montgomery curves returns a key exactly for its encodings: no algorithm
  parameters, octets of the curve's length, and in a private key only the seed.
\<close>
theorem der_okp_keys:
  assumes "der_small bs"
  shows "parseOkpDer fmt bs = Inr k \<longleftrightarrow>
    (\<exists>attrs. okp_format k = fmt \<and> okp_wf k \<and> (attrs = [] \<or> der_attributes attrs) \<and> bs = okp_der attrs k)"
  using okp_der_sound [of fmt bs k] okp_der_complete assms by blast

text \<open>
  C40: The parser for the lattice algorithms returns a key exactly for its encodings: a public key of the
  algorithm's length, or a seed, an expanded key or both, each of the algorithm's length.
\<close>
theorem der_ml_keys:
  assumes "der_small bs"
  shows "parseMlDer fmt bs = Inr k \<longleftrightarrow>
    (\<exists>attrs. ml_format k = fmt \<and> ml_wf k \<and> (attrs = [] \<or> der_attributes attrs) \<and> bs = ml_der attrs k)"
  using ml_der_sound [of fmt bs k] ml_der_complete assms by blast

section \<open>Concrete keys\<close>

text \<open>A PKCS #8 key with a third prime, byte by byte.\<close>

definition example_rsa :: rsa_components where
  "example_rsa = \<lparr>rsa_n = [195, 1], rsa_e = [3],
     rsa_key = Some \<lparr>rk_d = [7], rk_p = [5], rk_q = [11], rk_dp = [3], rk_dq = [3], rk_qi = [9], rk_oth = Some [([13], [7], [200])]\<rparr>\<rparr>"

definition example_rsa_der :: bytes where
  "example_rsa_der =
     [48, 65, 2, 1, 0, 48, 13, 6, 9, 42, 134, 72, 134, 247, 13, 1, 1, 1, 5, 0,
      4, 45, 48, 43, 2, 1, 1, 2, 3, 0, 195, 1, 2, 1, 3, 2, 1, 7, 2, 1, 5, 2, 1,
      11, 2, 1, 3, 2, 1, 3, 2, 1, 9, 48, 12, 48, 10, 2, 1, 13, 2, 1, 7, 2, 2, 0, 200]"

lemma der_rsa_keys_witness:
  "parseRsaDer Pkcs8 example_rsa_der True = Inr example_rsa"
proof -
  have e: "example_rsa_der = rsa_der True [] example_rsa"
    by (simp add: example_rsa_der_def rsa_der_def example_rsa_def rsa_algorithm_def rsaEncryptionOid_def rsa_private_key_def
      rsa_prime_def der_def der_length_def der_int_def)
  have s: "der_small example_rsa_der" by (simp add: der_small_def example_rsa_der_def)
  have "rsa_format example_rsa = Pkcs8" "rsa_wf example_rsa"
    by (simp_all add: example_rsa_def rsa_format_def rsa_wf_def rsa_private_wf_def positive_def prime_wf_def)
  then show ?thesis using der_rsa_keys [OF s, of Pkcs8 True example_rsa] e by blast
qed

definition example_ec :: ec_key where
  "example_ec = \<lparr>ec_namedCurve = P_256, ec_point = Some (replicate 32 1, replicate 32 2), ec_d = None\<rparr>"

definition example_ec_der :: bytes where
  "example_ec_der = [48, 89, 48, 19, 6, 7, 42, 134, 72, 206, 61, 2, 1, 6, 8, 42, 134, 72, 206, 61, 3, 1, 7, 3, 66, 0, 4] @
     replicate 32 1 @ replicate 32 2"

lemma der_ec_keys_witness:
  "parseEcDer Spki example_ec_der True = Inr example_ec"
proof -
  have e: "example_ec_der = ec_der True [] example_ec"
    by (simp add: example_ec_der_def ec_der_def example_ec_def ec_algorithm_def ecPublicKeyOid_def curve_oid_def p256Oid_def
      ec_public_def der_def der_length_def)
  have s: "der_small example_ec_der" by (simp add: der_small_def example_ec_der_def)
  have "ec_format example_ec = Spki" "ec_wf example_ec" "ec_complete True example_ec"
    by (simp_all add: example_ec_def ec_format_def ec_wf_def ec_point_wf_def ec_complete_def)
  then show ?thesis using der_ec_keys [OF s, of Spki True example_ec] e by blast
qed

definition example_okp :: okp_key where
  "example_okp = \<lparr>okp_namedCurve = X25519, okp_x = None, okp_d = Some (replicate 32 9)\<rparr>"

definition example_okp_der :: bytes where
  "example_okp_der = [48, 46, 2, 1, 0, 48, 5, 6, 3, 43, 101, 110, 4, 34, 4, 32] @ replicate 32 9"

lemma der_okp_keys_witness:
  "parseOkpDer Pkcs8 example_okp_der = Inr example_okp"
proof -
  have e: "example_okp_der = okp_der [] example_okp"
    by (simp add: example_okp_der_def okp_der_def example_okp_def okp_oid_def der_def der_length_def der_int_def)
  have s: "der_small example_okp_der" by (simp add: der_small_def example_okp_der_def)
  have "okp_format example_okp = Pkcs8" "okp_wf example_okp"
    by (simp_all add: example_okp_def okp_format_def okp_wf_def)
  then show ?thesis using der_okp_keys [OF s, of Pkcs8 example_okp] e by blast
qed

definition example_ml :: ml_key where
  "example_ml = \<lparr>ml_algorithm = ML_KEM_512, ml_pub = None, ml_seed = Some (replicate 64 5), ml_expanded = None\<rparr>"

definition example_ml_der :: bytes where
  "example_ml_der = [48, 84, 2, 1, 0, 48, 11, 6, 9, 0x60, 0x86, 0x48, 1, 0x65, 3, 4, 4, 1, 4, 66, 128, 64] @ replicate 64 5"

lemma der_ml_keys_witness:
  "parseMlDer Pkcs8 example_ml_der = Inr example_ml"
proof -
  have e: "example_ml_der = ml_der [] example_ml"
    by (simp add: example_ml_der_def ml_der_def example_ml_def ml_oid_def mlOidPrefix_def ml_private_octets_def der_def
      der_length_def der_int_def)
  have s: "der_small example_ml_der" by (simp add: der_small_def example_ml_der_def)
  have "ml_format example_ml = Pkcs8" "ml_wf example_ml"
    by (simp_all add: example_ml_def ml_format_def ml_wf_def wrongLength_def mlSeedLength_def isMlKemAlgorithm_def)
  then show ?thesis using der_ml_keys [OF s, of Pkcs8 example_ml] e by blast
qed

end
