(* ===== verification/Spec2Isabelle.thy ===== *)
theory Spec2Isabelle
  imports Hpack_Session Http1_Io Http2_Headers Http2_Wire Stream_Queues Priority_Queue Http2_Connection_Props Base64 Percent Text_Decoder WebSocket_Codec Http1_Response Connection_Pool_Inv Der_Keys
begin

text \<open>
  Verification of the runtime library of nts. nts compiles TypeScript ahead of time; its compiler is
  written in Rust, and the library a compiled program runs on is TypeScript. This development models the
  parts of that library that turn bytes into protocol values and back, and the state machines around them:
  the web platform under \<^verbatim>\<open>runtime/web-platform/src\<close> (named below without that prefix) and the timers under
  \<^verbatim>\<open>runtime/node/timers/src\<close>.

  HOW THE PARTS FIT TOGETHER. \<^verbatim>\<open>fetch\<close> hands a request to a transport. The HTTP/1 transport takes a
  connection from the pool (\<^verbatim>\<open>http1/pool.ts\<close>), writes a head and a body (\<^verbatim>\<open>http1/transport.ts\<close>), reads the
  head of the answer (\<^verbatim>\<open>http1/parser.ts\<close>) through the buffered reader (\<^verbatim>\<open>http1/io.ts\<close>), and serves the body
  as the source of a stream. The HTTP/2 transport shares one connection (\<^verbatim>\<open>http2/connection.ts\<close>), which
  validates header lists (\<^verbatim>\<open>http2/headers.ts\<close>), compresses them (\<^verbatim>\<open>http2/hpack.ts\<close>, \<^verbatim>\<open>http2/hpack-huffman.ts\<close>)
  and moves frames (\<^verbatim>\<open>http2/frame.ts\<close>) through the same reader. WebSocket frames (\<^verbatim>\<open>websocket/codec.ts\<close>) use
  it too. Header lists live in \<^verbatim>\<open>Headers\<close> objects (\<^verbatim>\<open>fetch/headers.ts\<close>); text goes through the codecs of
  \<^verbatim>\<open>core/\<close>. Streams rest on the queues of \<^verbatim>\<open>streams/\<close>, timers on the heap of the node port.

  CONVENTIONS. Bytes are 8-bit words, strings lists of 16-bit words (UTF-16 code units), so that lone
  surrogates and code units above 255 exist. Numbers of JavaScript that are exact integers are \<open>int\<close> or
  \<open>nat\<close> with the code's own range checks written out; where the code uses bit operations on 32 bits the
  model uses \<open>32 word\<close>. A \<^verbatim>\<open>throw\<close> is the value \<open>Inl e\<close> of a result, \<open>e\<close> being the class of the error;
  messages are dropped. Objects are records and methods take and return them; a field of another object
  that is only read is an argument. An \<^verbatim>\<open>await\<close> ends a step: code between two awaits is one definition,
  and a reachable state is one that any interleaving of such steps leads to. What the library only calls
  (a transport, a connector, a scheduler, random bytes, the stream machinery) is an argument, or an event
  of the environment; the laws assumed of it are the premises of the theorems, and every premise has a
  witness that discharges it for concrete values. Loops are structural recursion, recursion with a
  measure, or recursion on a fuel that the theorems bound: the reader's loops by the number of bytes the
  transport still delivers, the body's pulls by the number of bytes of the body and one more, each with at most three
  awaited reads, the heap's percolation by its length.

  THEORIES, in the order of the layers.
  \<^item> \<open>Nts_Prelude\<close>: results and their binding, array access of JavaScript, safe integers, words, lists.
    \<open>Js_Strings\<close>: the methods of strings the parsers share.
  \<^item> \<open>Byte_Strings\<close>, \<open>Ascii_Text\<close>, \<open>Base64\<close>, \<open>Utf8\<close>, \<open>Percent\<close>, \<open>Text_Decoder\<close>: \<^verbatim>\<open>core/encoding.ts\<close>,
    \<^verbatim>\<open>core/ascii.ts\<close>, \<^verbatim>\<open>core/base64.ts\<close>, \<^verbatim>\<open>core/base64-globals.ts\<close>, \<^verbatim>\<open>core/utf8.ts\<close>, \<^verbatim>\<open>core/percent.ts\<close>. The
    optimised loops are proved equal to grouped or scalar-value definitions; bounded writing never splits
    a code point; a decoder fed any cutting of a byte stream into chunks gives the one-shot answer.
  \<^item> \<open>Fetch_Headers\<close>: \<^verbatim>\<open>fetch/headers.ts\<close>. The header list refines a multimap (locale \<open>multimap\<close>); reachable
    objects list valid names and values in order.
  \<^item> \<open>Http1_Io\<close>: \<^verbatim>\<open>http1/io.ts\<close>; the locale there states what a transport does, and is interpreted on the
    scripted transports the other theories use. \<open>Http1_Parser\<close>, \<open>Http1_Chunk\<close>, \<open>Http1_Request\<close>,
    \<open>Http1_Response\<close>: \<^verbatim>\<open>http1/parser.ts\<close>, \<^verbatim>\<open>http/fields.ts\<close> and \<^verbatim>\<open>http1/transport.ts\<close>. Requests that are sent
    parse back to themselves with the fields asked for and the body's framing; response framing is
    unambiguous; chunk lines are exactly those of the grammar. The body's source is a state machine: its
    \<^verbatim>\<open>pull\<close> is cut at each await, and a cancel or a failure may come between two parts; a body is delivered
    whole, its connection is released at most once, and every ending settles what hangs on it but for the
    trailers of an empty body.
  \<^item> \<open>Connection_Pool\<close>, \<open>Connection_Pool_Inv\<close>: \<^verbatim>\<open>http1/pool.ts\<close> as events on a pool record. The invariant
    has four parts (slots, leases, waiters, phase) which each primitive operation keeps, and the loop of
    \<^verbatim>\<open>pump\<close> leaves only waiters that are blocked.
  \<^item> \<open>Hpack_Huffman\<close>, \<open>Hpack\<close>, \<open>Hpack_Session\<close>: \<^verbatim>\<open>http2/hpack-huffman.ts\<close>, \<^verbatim>\<open>http2/hpack.ts\<close>. The code tree
    is built by the code's own loop; encoder and decoder are proved inverse for whole sessions of header
    lists with changes of the table size, and the table refines the table of the standard.
  \<^item> \<open>Http2_Frame\<close>, \<open>Http2_Headers\<close>, \<open>Http2_Wire\<close>: \<^verbatim>\<open>http2/frame.ts\<close>, \<^verbatim>\<open>http2/headers.ts\<close>, and the sending of
    header blocks in \<^verbatim>\<open>http2/connection.ts\<close>; the end-to-end theorem composes HPACK, frames, the reader and
    the assembler.
  \<^item> \<open>Http2_Connection\<close>, \<open>Http2_Connection_Inv\<close>, \<open>Http2_Connection_Props\<close>: the client connection of
    \<^verbatim>\<open>http2/connection.ts\<close> as a record of streams, windows, slots and queues with one definition per handler
    and an inductive relation of reachable states; flow-control credit, slots and termination.
  \<^item> \<open>Stream_Queues\<close>: \<^verbatim>\<open>streams/fifo.ts\<close>, \<^verbatim>\<open>streams/queue-with-sizes.ts\<close> (locale of a queue, interpreted on
    the code's array with a head index). \<open>Priority_Queue\<close>: \<^verbatim>\<open>priority-queue.ts\<close> and the ordering of
    \<^verbatim>\<open>timeout.ts\<close>, with the heap's positions kept in its items; queues are reachable by inserting, removing,
    shifting and pushing back a list that is not due, which gets a new expiry and a new identifier.
  \<^item> \<open>WebSocket_Codec\<close>: \<^verbatim>\<open>websocket/codec.ts\<close>; frames and close payloads.
  \<^item> \<open>Der\<close>, \<open>Der_Encoding\<close>, \<open>Der_Values\<close>, \<open>Der_Keys\<close>: \<^verbatim>\<open>crypto/der.ts\<close>. The reader inverts the encoding
    of tag, length and content; the validator with its stack recognises the recursive grammar; each parser of
    a key structure inverts the function from keys to encodings written beside it.

  WHAT THE LEMMAS SHOW. Each theory ends in the properties of its component, above them the lemmas they
  rest on: one per operation (what it returns on every branch, what it keeps), and where a loop is optimised
  its equality with a plain definition. The findings are theorems too: credit leaked by a cancelled HTTP/2
  body, RST_STREAM for an idle stream, trailers left pending by an empty body that ends well, an idle connection closed
  for a waiter that stays blocked, an encoder ahead of its peer after a throw.

  BOUNDS. Flow-control windows are at most \<open>2 ^ 31 - 1\<close>, frame lengths below \<open>2 ^ 24\<close>, HPACK integers at most
  \<open>2 ^ 31 - 1\<close>, WebSocket lengths and content lengths at most \<open>2 ^ 53 - 1\<close>: the code's own limits, tested
  where it tests them; DER lengths have at most six octets, so the inputs of the key parsers are shorter than
  \<open>2 ^ 48\<close> bytes. No other bound is put on the input.

  NOT MODELLED. The compiler and the native, JVM and generated parts (not TypeScript of the library); the
  React packages and bindings; the node modules other than the timers' heap, thin layers over native
  bindings; tooling, benchmarks and tests. Of the web platform: the readable, writable and transform
  streams, whose behaviour is the order of promise reactions and of user callbacks; events and abort
  signals, which are events of the environment here; \<^verbatim>\<open>fetch\<close>, requests and responses, dispatchers, caches
  and cookie stores, which glue the modelled parts with promises; key arithmetic, which a provider does;
  conversions by Web IDL, which happen before the modelled functions are called. The manifest lists every
  part with its reason.
\<close>

end
